(* ===== verification/OS_Prelude.thy ===== *)
theory OS_Prelude
  imports Main "HOL-Library.Word"
begin

text \<open>
  Shared vocabulary of the development: the outcome type of a C function (it returns, or the
  process ends in \<^verbatim>\<open>exit(1)\<close>, in a failed \<^verbatim>\<open>assert\<close> or in undefined behaviour), the
  conversions between the C integer types, the Linux error numbers the sources return, memory
  buffers as functions from offsets to bytes with \<^verbatim>\<open>memcpy\<close> and \<^verbatim>\<open>bzero\<close>, and the
  generic lemmas on them that the component theories use.
\<close>

unbundle bit_operations_syntax

section \<open>Outcomes of C functions\<close>

datatype crash =
    Exit_Error string   \<comment> \<open>the \<^verbatim>\<open>EXIT\<close> macro: a message, then \<^verbatim>\<open>exit(1)\<close>\<close>
  | Assert_Fail         \<comment> \<open>a failed \<^verbatim>\<open>assert\<close>\<close>
  | Diverges            \<comment> \<open>a loop or a recursion that does not end: its fuel is used up\<close>
  | Undef               \<comment> \<open>undefined behaviour: an access outside an object, a dangling pointer\<close>

datatype 'a res = Ret 'a | Crash crash

primrec bnd :: "'a res \<Rightarrow> ('a \<Rightarrow> 'b res) \<Rightarrow> 'b res" where
  "bnd (Ret x) f = f x"
| "bnd (Crash c) f = Crash c"

definition c_assert :: "bool \<Rightarrow> unit res" where
  "c_assert P = (if P then Ret () else Crash Assert_Fail)"

definition guard_ub :: "bool \<Rightarrow> unit res" where
  "guard_ub P = (if P then Ret () else Crash Undef)"

primrec deref :: "'a option \<Rightarrow> 'a res" where
  "deref None = Crash Undef"
| "deref (Some x) = Ret x"

primrec is_ret :: "'a res \<Rightarrow> bool" where
  "is_ret (Ret x) = True"
| "is_ret (Crash c) = False"

named_theorems res_simps \<open>inversion of sequenced outcomes\<close>

lemma bnd_Ret_iff [res_simps]: "bnd m f = Ret y \<longleftrightarrow> (\<exists>x. m = Ret x \<and> f x = Ret y)"
  by (cases m) auto

lemma bnd_cong [fundef_cong]: "m = m' \<Longrightarrow> (\<And>x. m' = Ret x \<Longrightarrow> f x = f' x) \<Longrightarrow> bnd m f = bnd m' f'"
  by (cases m') auto

lemma bnd_assoc: "bnd (bnd m f) g = bnd m (\<lambda>x. bnd (f x) g)"
  by (cases m) auto

lemma is_ret_bnd: "is_ret (bnd m f) \<longleftrightarrow> (\<exists>x. m = Ret x \<and> is_ret (f x))"
  by (cases m) auto

lemma is_ret_iff: "is_ret m \<longleftrightarrow> (\<exists>x. m = Ret x)"
  by (cases m) auto

lemma c_assert_True [simp]: "P \<Longrightarrow> c_assert P = Ret ()"
  by (simp add: c_assert_def)

lemma c_assert_False [simp]: "\<not> P \<Longrightarrow> c_assert P = Crash Assert_Fail"
  by (simp add: c_assert_def)

lemma c_assert_Ret_iff [res_simps]: "c_assert P = Ret u \<longleftrightarrow> P"
  by (simp add: c_assert_def)

lemma guard_ub_True [simp]: "P \<Longrightarrow> guard_ub P = Ret ()"
  by (simp add: guard_ub_def)

lemma guard_ub_False [simp]: "\<not> P \<Longrightarrow> guard_ub P = Crash Undef"
  by (simp add: guard_ub_def)

lemma guard_ub_Ret_iff [res_simps]: "guard_ub P = Ret u \<longleftrightarrow> P"
  by (simp add: guard_ub_def)

lemma deref_Ret_iff [res_simps]: "deref p = Ret x \<longleftrightarrow> p = Some x"
  by (cases p) auto

section \<open>C integers\<close>

text \<open>
  C integers are \<^typ>\<open>int\<close> values; the functions below are the conversions to the C types
  of the sources (\<^verbatim>\<open>int\<close> and \<^verbatim>\<open>s32\<close>; \<^verbatim>\<open>u32\<close>; \<^verbatim>\<open>off_t\<close> and \<^verbatim>\<open>long\<close>;
  \<^verbatim>\<open>size_t\<close> and \<^verbatim>\<open>u64\<close>), applied where the sources convert or where an operation
  can wrap around.
\<close>

definition to_s32 :: "int \<Rightarrow> int" where
  "to_s32 x = (x + 2147483648) mod 4294967296 - 2147483648"

definition to_u32 :: "int \<Rightarrow> int" where
  "to_u32 x = x mod 4294967296"

definition to_s64 :: "int \<Rightarrow> int" where
  "to_s64 x = (x + 9223372036854775808) mod 18446744073709551616 - 9223372036854775808"

definition to_u64 :: "int \<Rightarrow> int" where
  "to_u64 x = x mod 18446744073709551616"

definition in_s32 :: "int \<Rightarrow> bool" where
  "in_s32 x \<longleftrightarrow> - 2147483648 \<le> x \<and> x < 2147483648"

lemma to_s32_id [simp]: "- 2147483648 \<le> x \<Longrightarrow> x < 2147483648 \<Longrightarrow> to_s32 x = x"
  by (simp add: to_s32_def)

lemma in_s32_to_s32 [simp]: "in_s32 (to_s32 x)"
  using pos_mod_sign [of 4294967296 "x + 2147483648"] pos_mod_bound [of 4294967296 "x + 2147483648"]
  by (simp add: in_s32_def to_s32_def)

lemma to_u32_id [simp]: "0 \<le> x \<Longrightarrow> x < 4294967296 \<Longrightarrow> to_u32 x = x"
  by (simp add: to_u32_def)

lemma to_s64_id [simp]:
  "- 9223372036854775808 \<le> x \<Longrightarrow> x < 9223372036854775808 \<Longrightarrow> to_s64 x = x"
  by (simp add: to_s64_def)

lemma to_u64_id [simp]: "0 \<le> x \<Longrightarrow> x < 18446744073709551616 \<Longrightarrow> to_u64 x = x"
  by (simp add: to_u64_def)

lemma to_u32_range: "0 \<le> to_u32 x" "to_u32 x < 4294967296"
  by (simp_all add: to_u32_def)

lemma to_u64_range: "0 \<le> to_u64 x" "to_u64 x < 18446744073709551616"
  by (simp_all add: to_u64_def)

text \<open>C division truncates towards zero.\<close>

definition c_div :: "int \<Rightarrow> int \<Rightarrow> int" where
  "c_div a b = sgn a * sgn b * (\<bar>a\<bar> div \<bar>b\<bar>)"

definition c_mod :: "int \<Rightarrow> int \<Rightarrow> int" where
  "c_mod a b = a - c_div a b * b"

lemma c_div_nonneg [simp]: "0 \<le> a \<Longrightarrow> 0 < b \<Longrightarrow> c_div a b = a div b"
  by (cases "a = 0") (simp_all add: c_div_def)

lemma c_mod_nonneg [simp]: "0 \<le> a \<Longrightarrow> 0 < b \<Longrightarrow> c_mod a b = a mod b"
  by (simp add: c_mod_def minus_div_mult_eq_mod)

section \<open>Error numbers\<close>

definition ENOENT :: int where "ENOENT = 2"
definition ENOMEM :: int where "ENOMEM = 12"
definition EEXIST :: int where "EEXIST = 17"
definition ENOTDIR :: int where "ENOTDIR = 20"
definition EISDIR :: int where "EISDIR = 21"
definition EINVAL :: int where "EINVAL = 22"
definition EFBIG :: int where "EFBIG = 27"
definition ENOSPC :: int where "ENOSPC = 28"
definition ENOTEMPTY :: int where "ENOTEMPTY = 39"

lemmas errno_defs =
  ENOENT_def ENOMEM_def EEXIST_def ENOTDIR_def EISDIR_def EINVAL_def EFBIG_def
  ENOSPC_def ENOTEMPTY_def

section \<open>Memory buffers\<close>

text \<open>
  A C buffer is a function from offsets to bytes; accesses whose offset the source does not
  bound are guarded where they occur (\<^const>\<open>guard_ub\<close>).
\<close>

type_synonym byte = "8 word"
type_synonym mem = "nat \<Rightarrow> byte"

text \<open>\<^verbatim>\<open>isspace\<close> in the C locale.\<close>

definition is_space :: "byte \<Rightarrow> bool" where
  "is_space b \<longleftrightarrow> b \<in> {9, 10, 11, 12, 13, 32}"

definition zero_mem :: mem where
  "zero_mem = (\<lambda>_. 0)"

text \<open>\<^verbatim>\<open>memcpy(dst + d, src + s, n)\<close>\<close>

definition memcpy :: "mem \<Rightarrow> nat \<Rightarrow> mem \<Rightarrow> nat \<Rightarrow> nat \<Rightarrow> mem" where
  "memcpy dst d src s n = (\<lambda>i. if d \<le> i \<and> i < d + n then src (s + (i - d)) else dst i)"

definition mem_of_list :: "byte list \<Rightarrow> mem" where
  "mem_of_list bs = (\<lambda>i. if i < length bs then bs ! i else 0)"

definition list_of_mem :: "mem \<Rightarrow> nat \<Rightarrow> nat \<Rightarrow> byte list" where
  "list_of_mem m off n = map m [off..<off + n]"

lemma zero_mem_apply [simp]: "zero_mem i = 0"
  by (simp add: zero_mem_def)

lemma memcpy_in [simp]: "d \<le> i \<Longrightarrow> i < d + n \<Longrightarrow> memcpy dst d src s n i = src (s + (i - d))"
  by (simp add: memcpy_def)

lemma memcpy_out [simp]: "i < d \<or> d + n \<le> i \<Longrightarrow> memcpy dst d src s n i = dst i"
  by (auto simp: memcpy_def)

lemma memcpy_zero_len [simp]: "memcpy dst d src s 0 = dst"
  by (auto simp: memcpy_def fun_eq_iff)

lemma memcpy_self [simp]: "memcpy m d m d n = m"
  by (auto simp: memcpy_def)

lemma length_list_of_mem [simp]: "length (list_of_mem m off n) = n"
  by (simp add: list_of_mem_def)

lemma nth_list_of_mem [simp]: "i < n \<Longrightarrow> list_of_mem m off n ! i = m (off + i)"
  by (simp add: list_of_mem_def)

lemma list_of_mem_cong:
  "(\<And>i. off \<le> i \<Longrightarrow> i < off + n \<Longrightarrow> m i = m' i) \<Longrightarrow> list_of_mem m off n = list_of_mem m' off n"
  by (simp add: list_of_mem_def)

lemma list_of_mem_eq_iff:
  "list_of_mem m off n = list_of_mem m' off' n \<longleftrightarrow> (\<forall>i<n. m (off + i) = m' (off' + i))"
  by (auto simp: list_eq_iff_nth_eq)

lemma list_of_mem_of_list [simp]:
  "length bs = n \<Longrightarrow> list_of_mem (mem_of_list bs) 0 n = bs"
  by (auto simp: list_eq_iff_nth_eq mem_of_list_def)

section \<open>Little-endian integers in memory\<close>

primrec put_le :: "nat \<Rightarrow> mem \<Rightarrow> nat \<Rightarrow> int \<Rightarrow> mem" where
  "put_le 0 m off x = m"
| "put_le (Suc n) m off x = put_le n (m(off := word_of_int x)) (Suc off) (x div 256)"

primrec get_le :: "nat \<Rightarrow> mem \<Rightarrow> nat \<Rightarrow> int" where
  "get_le 0 m off = 0"
| "get_le (Suc n) m off = uint (m off) + 256 * get_le n m (Suc off)"

definition get_u32 :: "mem \<Rightarrow> nat \<Rightarrow> int" where
  "get_u32 m off = get_le 4 m off"

definition get_s32 :: "mem \<Rightarrow> nat \<Rightarrow> int" where
  "get_s32 m off = to_s32 (get_le 4 m off)"

definition get_u64 :: "mem \<Rightarrow> nat \<Rightarrow> int" where
  "get_u64 m off = get_le 8 m off"

definition get_s64 :: "mem \<Rightarrow> nat \<Rightarrow> int" where
  "get_s64 m off = to_s64 (get_le 8 m off)"

abbreviation put32 :: "mem \<Rightarrow> nat \<Rightarrow> int \<Rightarrow> mem" where
  "put32 \<equiv> put_le 4"

abbreviation put64 :: "mem \<Rightarrow> nat \<Rightarrow> int \<Rightarrow> mem" where
  "put64 \<equiv> put_le 8"

named_theorems codec_simps \<open>reading back little-endian fields\<close>

lemma put_le_out: "i < off \<or> off + n \<le> i \<Longrightarrow> put_le n m off x i = m i"
  by (induction n arbitrary: m off x) auto

lemma get_le_cong:
  "(\<And>i. off \<le> i \<Longrightarrow> i < off + n \<Longrightarrow> m i = m' i) \<Longrightarrow> get_le n m off = get_le n m' off"
  by (induction n arbitrary: off) auto

lemma get_le_put_le_other:
  "off' + n' \<le> off \<or> off + n \<le> off' \<Longrightarrow> get_le n (put_le n' m off' x) off = get_le n m off"
  by (intro get_le_cong put_le_out) auto

lemma get_le_put_le: "get_le n (put_le n m off x) off = x mod 256 ^ n"
proof (induction n arbitrary: m off x)
  case (Suc n)
  have first: "put_le n (m(off := word_of_int x)) (Suc off) (x div 256) off = word_of_int x"
    by (simp add: put_le_out)
  have "uint (word_of_int x :: byte) = x mod 256"
    by (simp add: uint_word_of_int)
  moreover have "x mod (256 * 256 ^ n) = x mod 256 + 256 * (x div 256 mod 256 ^ n)"
    by (simp add: zmod_zmult2_eq)
  ultimately show ?case
    using Suc by (simp add: first)
qed simp

lemma get_le_range: "0 \<le> get_le n m off \<and> get_le n m off < 256 ^ n"
proof (induction n arbitrary: off)
  case (Suc n)
  have "0 \<le> uint (m off)" "uint (m off) < 256"
    using uint_lt2p [of "m off"] by simp_all
  with Suc [of "Suc off"] show ?case by simp
qed simp

lemma get_s32_put32 [codec_simps]: "get_s32 (put32 m off x) off = to_s32 x"
  by (simp add: get_s32_def get_le_put_le to_s32_def mod_simps)

lemma get_u32_put32 [codec_simps]: "get_u32 (put32 m off x) off = to_u32 x"
  by (simp add: get_u32_def get_le_put_le to_u32_def)

lemma get_u64_put64 [codec_simps]: "get_u64 (put64 m off x) off = to_u64 x"
  by (simp add: get_u64_def get_le_put_le to_u64_def)

lemma get_s64_put64 [codec_simps]: "get_s64 (put64 m off x) off = to_s64 x"
  by (simp add: get_s64_def get_le_put_le to_s64_def mod_simps)

lemma get_32_put_other [codec_simps]:
  assumes "off' + n \<le> off \<or> off + 4 \<le> off'"
  shows "get_s32 (put_le n m off' x) off = get_s32 m off"
    "get_u32 (put_le n m off' x) off = get_u32 m off"
  using get_le_put_le_other [of off' n off 4] assms by (simp_all add: get_s32_def get_u32_def)

lemma get_64_put_other [codec_simps]:
  assumes "off' + n \<le> off \<or> off + 8 \<le> off'"
  shows "get_s64 (put_le n m off' x) off = get_s64 m off"
    "get_u64 (put_le n m off' x) off = get_u64 m off"
  using get_le_put_le_other [of off' n off 8] assms by (simp_all add: get_s64_def get_u64_def)

lemma get_32_cong:
  assumes "\<And>i. off \<le> i \<Longrightarrow> i < off + 4 \<Longrightarrow> m i = m' i"
  shows "get_s32 m off = get_s32 m' off" "get_u32 m off = get_u32 m' off"
  using get_le_cong [of off 4 m m'] assms by (simp_all add: get_s32_def get_u32_def)

lemma get_64_cong:
  assumes "\<And>i. off \<le> i \<Longrightarrow> i < off + 8 \<Longrightarrow> m i = m' i"
  shows "get_s64 m off = get_s64 m' off" "get_u64 m off = get_u64 m' off"
  using get_le_cong [of off 8 m m'] assms by (simp_all add: get_s64_def get_u64_def)

lemma in_s32_get_s32 [simp]: "in_s32 (get_s32 m off)"
  by (simp add: get_s32_def)

lemma get_s32_bounds: "- 2147483648 \<le> get_s32 m off" "get_s32 m off < 2147483648"
  using in_s32_get_s32 [of m off] by (simp_all add: in_s32_def del: in_s32_get_s32)

lemma get_le_zero [simp]: "get_le n zero_mem off = 0"
  by (induction n arbitrary: off) auto

lemma get_zero [simp]:
  "get_s32 zero_mem off = 0" "get_u32 zero_mem off = 0"
  "get_s64 zero_mem off = 0" "get_u64 zero_mem off = 0"
  by (simp_all add: get_s32_def get_u32_def get_s64_def get_u64_def)

section \<open>Strings and decimal numbers\<close>

text \<open>C strings are lists of bytes without the terminating zero; \<^verbatim>\<open>printf\<close> of an integer.\<close>

definition cstr :: "string \<Rightarrow> byte list" where
  "cstr = map of_char"

fun dec_nat :: "nat \<Rightarrow> byte list" where
  "dec_nat n = (if n < 10 then [of_nat (48 + n)] else dec_nat (n div 10) @ [of_nat (48 + n mod 10)])"

declare dec_nat.simps [simp del]

definition dec_int :: "int \<Rightarrow> byte list" where
  "dec_int x = (if x < 0 then 45 # dec_nat (nat (- x)) else dec_nat (nat x))"

text \<open>Reading decimal numbers.\<close>

definition is_digit :: "byte \<Rightarrow> bool" where
  "is_digit b \<longleftrightarrow> 48 \<le> b \<and> b \<le> 57"

definition digits_value :: "byte list \<Rightarrow> int" where
  "digits_value ds = foldl (\<lambda>acc b. acc * 10 + (uint b - 48)) 0 ds"

text \<open>
  The subject sequence of \<^verbatim>\<open>strtoll\<close> and \<^verbatim>\<open>strtoull\<close> in base 10: sign, magnitude and the rest
  of the string; without digits nothing is converted and the rest is the whole string.
\<close>

definition str_number :: "byte list \<Rightarrow> bool \<times> int \<times> byte list" where
  "str_number str =
    (let s1 = dropWhile is_space str;
         neg = (case s1 of b # _ \<Rightarrow> b = 45 | [] \<Rightarrow> False);
         s2 = (case s1 of b # bs \<Rightarrow> if b = 45 \<or> b = 43 then bs else s1 | [] \<Rightarrow> []);
         ds = takeWhile is_digit s2 in
     if ds = [] then (False, 0, str) else (neg, digits_value ds, dropWhile is_digit s2))"

lemma digits_value_snoc: "digits_value (ds @ [b]) = digits_value ds * 10 + (uint b - 48)"
  by (simp add: digits_value_def)

lemma digit_byte:
  assumes "k < 10"
  shows "uint (of_nat (48 + k) :: byte) = 48 + int k" "is_digit (of_nat (48 + k))"
proof -
  show u: "uint (of_nat (48 + k) :: byte) = 48 + int k"
    using assms by (simp only: unsigned_of_nat) (simp add: take_bit_eq_mod)
  then show "is_digit (of_nat (48 + k))" using assms unfolding is_digit_def word_le_def by simp
qed

lemma dec_nat_digits: "list_all is_digit (dec_nat n) \<and> dec_nat n \<noteq> [] \<and> digits_value (dec_nat n) = int n"
proof (induction n rule: less_induct)
  case (less n)
  show ?case
  proof (cases "n < 10")
    case True
    then show ?thesis using digit_byte [of n] by (subst (1 2 3) dec_nat.simps) (simp add: digits_value_def)
  next
    case False
    then have ih: "list_all is_digit (dec_nat (n div 10)) \<and> digits_value (dec_nat (n div 10)) = int (n div 10)" using less [of "n div 10"] by simp
    have d: "n mod 10 < 10" by simp
    have e: "dec_nat n = dec_nat (n div 10) @ [of_nat (48 + n mod 10)]" using False by (subst dec_nat.simps) simp
    have "int (n div 10) * 10 + int (n mod 10) = int n" by (metis div_mult_mod_eq of_nat_add of_nat_mult of_nat_numeral)
    then show ?thesis using ih digit_byte [OF d] unfolding e digits_value_snoc by simp
  qed
qed

lemma digit_not: "is_digit b \<Longrightarrow> \<not> is_space b \<and> b \<noteq> 45 \<and> b \<noteq> 43"
  by (auto simp: is_digit_def is_space_def word_le_nat_alt)

lemma str_number_dec:
  assumes "rest = [] \<or> \<not> is_digit (hd rest)"
  shows "str_number (dec_int x @ rest) = (x < 0, \<bar>x\<bar>, rest)"
proof -
  define ds where "ds = dec_nat (nat \<bar>x\<bar>)"
  have ds: "\<forall>b \<in> set ds. is_digit b" "ds \<noteq> []" "digits_value ds = \<bar>x\<bar>"
    using dec_nat_digits [of "nat \<bar>x\<bar>"] by (simp_all add: ds_def list_all_iff)
  then obtain b bs where b: "ds = b # bs" "is_digit b" by (cases ds) auto
  have tw: "takeWhile is_digit (ds @ rest) = ds" "dropWhile is_digit (ds @ rest) = rest"
    using ds(1) assms by (cases rest; simp add: takeWhile_append dropWhile_append)+
  have m: "\<not> is_space (45::byte)" by (simp add: is_space_def)
  show ?thesis
  proof (cases "x < 0")
    case True
    then have "dec_int x = 45 # ds" by (simp add: dec_int_def ds_def)
    then show ?thesis using True ds(2,3) m by (simp add: str_number_def Let_def tw)
  next
    case False
    then have e: "dec_int x = ds" by (simp add: dec_int_def ds_def)
    have nn: "dropWhile is_space (ds @ rest) = ds @ rest" "(case ds @ rest of c # _ \<Rightarrow> c = 45 | [] \<Rightarrow> False) = False"
      "(case ds @ rest of c # cs \<Rightarrow> if c = 45 \<or> c = 43 then cs else ds @ rest | [] \<Rightarrow> []) = ds @ rest"
      using b digit_not [OF b(2)] by simp_all
    show ?thesis using False ds(2,3) unfolding e str_number_def Let_def nn by (simp add: tw)
  qed
qed

lemmas str_number_dec_all = str_number_dec [of "[]", simplified]

end
