(* ===== verification/FS_Bitmap.thy ===== *)
theory FS_Bitmap
  imports OS_Prelude
begin

text \<open>
  The bitmaps of the file system (\<^verbatim>\<open>fs/bitmap.c\<close>): the structure, every operation, the
  set of used indexes it stands for, and the interface of an index allocator, which the
  bitmap implements.
\<close>

section \<open>The structure and its operations\<close>

text \<open>\<^verbatim>\<open>WORD_TYPE *v\<close> is the word array as a buffer; it has \<^verbatim>\<open>words\<close> bytes.\<close>

record bitmap =
  nbits :: nat
  v :: mem

definition BITS_PER_WORD :: nat where
  "BITS_PER_WORD = 8"

text \<open>\<^verbatim>\<open>((WORD_TYPE) 1) << k\<close>\<close>

definition bmask :: "nat \<Rightarrow> byte" where
  "bmask k = push_bit k 1"

text \<open>\<^verbatim>\<open>v[ix] |= mask\<close> and \<^verbatim>\<open>v[ix] &= ~mask\<close>\<close>

definition word_or :: "mem \<Rightarrow> nat \<Rightarrow> byte \<Rightarrow> mem" where
  "word_or m ix msk = m(ix := m ix OR msk)"

definition word_andnot :: "mem \<Rightarrow> nat \<Rightarrow> byte \<Rightarrow> mem" where
  "word_andnot m ix msk = m(ix := m ix AND NOT msk)"

text \<open>\<^verbatim>\<open>DIVROUNDUP(nbits, BITS_PER_WORD)\<close>, in the unsigned 32-bit arithmetic of \<^verbatim>\<open>nbits\<close>.\<close>

definition bitmap_words :: "nat \<Rightarrow> nat" where
  "bitmap_words n = ((n + BITS_PER_WORD - 1) mod 2 ^ 32) div BITS_PER_WORD"

text \<open>The loop that marks the bits from \<^verbatim>\<open>j\<close> to the end of word \<^verbatim>\<open>ix\<close> in use.\<close>

function mark_leftover :: "nat \<Rightarrow> nat \<Rightarrow> mem \<Rightarrow> mem" where
  "mark_leftover j ix m =
     (if j < BITS_PER_WORD then mark_leftover (Suc j) ix (word_or m ix (bmask j)) else m)"
  by pat_completeness auto
termination
  by (relation "measure (\<lambda>(j, ix, m). BITS_PER_WORD - j)") auto

text \<open>
  \<^verbatim>\<open>bitmap_create\<close>; the two flags say whether the two calls of \<^verbatim>\<open>malloc\<close> succeed.
  The result is a negative error number or the bitmap.
\<close>

definition bitmap_create :: "bool \<Rightarrow> bool \<Rightarrow> nat \<Rightarrow> (int + bitmap) res" where
  "bitmap_create malloc1 malloc2 n =
    (let words = bitmap_words n in
     if \<not> malloc1 then Ret (Inl (- ENOMEM))
     else if \<not> malloc2 then Ret (Inl (- ENOMEM))
     else
       let b = \<lparr>nbits = n, v = zero_mem\<rparr> in
       if n div BITS_PER_WORD < words then
         let ix = words - 1; overbits = n - ix * BITS_PER_WORD in
         bnd (c_assert (n div BITS_PER_WORD = words - 1)) (\<lambda>_.
         bnd (c_assert (overbits > 0 \<and> overbits < BITS_PER_WORD)) (\<lambda>_.
         Ret (Inr (b\<lparr>v := mark_leftover overbits ix (v b)\<rparr>))))
       else Ret (Inr b))"

definition bitmap_getdata :: "bitmap \<Rightarrow> mem" where
  "bitmap_getdata b = v b"

definition bitmap_getsize :: "bitmap \<Rightarrow> nat" where
  "bitmap_getsize b = nbits b"

text \<open>The inner loop of \<^verbatim>\<open>bitmap_alloc\<close>: the first clear bit of a word from \<^verbatim>\<open>offset\<close> on.\<close>

function alloc_offset :: "byte \<Rightarrow> nat \<Rightarrow> nat option" where
  "alloc_offset w offset =
     (if offset < BITS_PER_WORD then
        (if w AND bmask offset = 0 then Some offset else alloc_offset w (Suc offset))
      else None)"
  by pat_completeness auto
termination
  by (relation "measure (\<lambda>(w, offset). BITS_PER_WORD - offset)") auto

definition WORD_ALLBITS :: byte where
  "WORD_ALLBITS = 0xff"

text \<open>The outer loop, from word \<^verbatim>\<open>ix\<close> on.\<close>

function alloc_scan :: "bitmap \<Rightarrow> nat \<Rightarrow> nat \<Rightarrow> (int + nat \<times> bitmap) res" where
  "alloc_scan b maxix ix =
     (if ix < maxix then
        (if v b ix \<noteq> WORD_ALLBITS then
           (case alloc_offset (v b ix) 0 of
              Some offset \<Rightarrow>
                let index = ix * BITS_PER_WORD + offset in
                bnd (c_assert (index < nbits b)) (\<lambda>_.
                Ret (Inr (index, b\<lparr>v := word_or (v b) ix (bmask offset)\<rparr>)))
            | None \<Rightarrow> Crash Assert_Fail)
         else alloc_scan b maxix (Suc ix))
      else Ret (Inl (- ENOSPC)))"
  by pat_completeness auto
termination
  by (relation "measure (\<lambda>(b, maxix, ix). maxix - ix)") auto

definition bitmap_alloc :: "bitmap \<Rightarrow> (int + nat \<times> bitmap) res" where
  "bitmap_alloc b = alloc_scan b (bitmap_words (nbits b)) 0"

definition bitmap_translate :: "nat \<Rightarrow> nat \<times> byte" where
  "bitmap_translate bitno = (bitno div BITS_PER_WORD, bmask (bitno mod BITS_PER_WORD))"

definition bitmap_mark :: "bitmap \<Rightarrow> nat \<Rightarrow> bitmap res" where
  "bitmap_mark b index =
    bnd (c_assert (index < nbits b)) (\<lambda>_.
    let (ix, mask) = bitmap_translate index in
    bnd (c_assert (v b ix AND mask = 0)) (\<lambda>_.
    Ret (b\<lparr>v := word_or (v b) ix mask\<rparr>)))"

definition bitmap_unmark :: "bitmap \<Rightarrow> nat \<Rightarrow> bitmap res" where
  "bitmap_unmark b index =
    bnd (c_assert (index < nbits b)) (\<lambda>_.
    let (ix, mask) = bitmap_translate index in
    bnd (c_assert (v b ix AND mask \<noteq> 0)) (\<lambda>_.
    Ret (b\<lparr>v := word_andnot (v b) ix mask\<rparr>)))"

text \<open>\<^verbatim>\<open>bitmap_isset\<close> has no range check: a word outside the array is undefined.\<close>

definition bitmap_isset :: "bitmap \<Rightarrow> nat \<Rightarrow> byte res" where
  "bitmap_isset b index =
    (let (ix, mask) = bitmap_translate index in
     bnd (guard_ub (ix < bitmap_words (nbits b))) (\<lambda>_. Ret (v b ix AND mask)))"

function count_set :: "bitmap \<Rightarrow> nat \<Rightarrow> int \<Rightarrow> int res" where
  "count_set b i nr =
     (if i < nbits b then
        bnd (bitmap_isset b i) (\<lambda>w. count_set b (Suc i) (if w \<noteq> 0 then nr + 1 else nr))
      else Ret nr)"
  by pat_completeness auto
termination
  by (relation "measure (\<lambda>(b, i, nr). nbits b - i)") auto

definition bitmap_nr_allocated :: "bitmap \<Rightarrow> int res" where
  "bitmap_nr_allocated b = count_set b 0 0"

declare mark_leftover.simps [simp del] alloc_offset.simps [simp del]
  alloc_scan.simps [simp del] count_set.simps [simp del]

section \<open>The set a bitmap stands for, and its invariant\<close>

definition bitset :: "mem \<Rightarrow> nat \<Rightarrow> bool" where
  "bitset m i \<longleftrightarrow> bit (m (i div 8)) (i mod 8)"

definition used :: "bitmap \<Rightarrow> nat set" where
  "used b = {i. i < nbits b \<and> bitset (v b) i}"

text \<open>The bits behind the last index are in use, so that no allocation finds them.\<close>

definition bitmap_inv :: "bitmap \<Rightarrow> bool" where
  "bitmap_inv b \<longleftrightarrow> nbits b \<le> 2 ^ 32 - 8 \<and>
     (\<forall>i. nbits b \<le> i \<and> i < 8 * bitmap_words (nbits b) \<longrightarrow> bitset (v b) i)"

lemma bitmap_words_eq: "n \<le> 2 ^ 32 - 8 \<Longrightarrow> bitmap_words n = (n + 7) div 8"
  by (simp add: bitmap_words_def BITS_PER_WORD_def)

lemma and_mask_0_iff: "k < 8 \<Longrightarrow> (w :: byte) AND bmask k = 0 \<longleftrightarrow> \<not> bit w k"
  using bit_iff_and_push_bit_not_eq_0 [of w k] by (simp add: bmask_def)

lemma bit_or_mask: "k < 8 \<Longrightarrow> bit ((w :: byte) OR bmask k) j \<longleftrightarrow> bit w j \<or> j = k"
  by (auto simp: bit_simps bmask_def)

lemma bit_andnot_mask: "k < 8 \<Longrightarrow> bit ((w :: byte) AND NOT (bmask k)) j \<longleftrightarrow> bit w j \<and> j \<noteq> k"
  by (auto simp: bit_simps bmask_def dest: bit_imp_le_length)

lemma allbits_iff: "w = WORD_ALLBITS \<longleftrightarrow> (\<forall>k<8. bit w k)"
proof -
  have full: "WORD_ALLBITS = mask 8"
    by (simp add: WORD_ALLBITS_def mask_eq_exp_minus_1)
  show ?thesis
    by (auto simp: full bit_eq_iff [of w] bit_mask_iff dest: bit_imp_le_length)
qed

lemma idx_split:
  fixes i j k :: nat
  assumes "k < 8"
  shows "i div 8 = j \<and> i mod 8 = k \<longleftrightarrow> i = j * 8 + k"
  using assms by auto

lemma bitset_mark [simp]:
  "k < 8 \<Longrightarrow> bitset (word_or m j (bmask k)) i \<longleftrightarrow> bitset m i \<or> i = j * 8 + k"
  using idx_split [of k i j] by (auto simp: bitset_def bit_or_mask word_or_def)

lemma bitset_unmark [simp]:
  "k < 8 \<Longrightarrow> bitset (word_andnot m j (bmask k)) i \<longleftrightarrow> bitset m i \<and> i \<noteq> j * 8 + k"
  using idx_split [of k i j] by (auto simp: bitset_def bit_andnot_mask word_andnot_def)

lemma finite_used [simp]: "finite (used b)"
  by (simp add: used_def)

lemma used_bound: "i \<in> used b \<Longrightarrow> i < nbits b"
  by (simp add: used_def)

section \<open>Creation\<close>

lemma bitset_mark_leftover:
  "bitset (mark_leftover j ix m) i \<longleftrightarrow> bitset m i \<or> (ix * 8 + j \<le> i \<and> i < ix * 8 + 8)"
proof (induction j ix m arbitrary: i rule: mark_leftover.induct)
  case (1 j ix m)
  show ?case
  proof (cases "j < 8")
    case True
    have step: "mark_leftover j ix m = mark_leftover (Suc j) ix (word_or m ix (bmask j))"
      using True by (subst mark_leftover.simps) (simp add: BITS_PER_WORD_def)
    have "bitset (mark_leftover (Suc j) ix (word_or m ix (bmask j))) i \<longleftrightarrow>
        (bitset m i \<or> i = ix * 8 + j) \<or> (ix * 8 + Suc j \<le> i \<and> i < ix * 8 + 8)"
      using "1.IH" [of i] True by (simp add: BITS_PER_WORD_def)
    then show ?thesis
      unfolding step using True by (auto simp: Suc_le_eq le_eq_less_or_eq)
  qed (subst mark_leftover.simps, auto simp: BITS_PER_WORD_def)
qed

lemma bitset_zero [simp]: "\<not> bitset zero_mem i"
  by (simp add: bitset_def)

lemma bitmap_create_ok:
  assumes n: "n \<le> 2 ^ 32 - 8"
  shows "\<exists>b. bitmap_create True True n = Ret (Inr b) \<and> nbits b = n \<and> used b = {} \<and> bitmap_inv b"
proof (cases "n mod 8 = 0")
  case True
  then have "bitmap_words n = n div 8"
    using n by (auto simp: bitmap_words_eq elim!: dvdE)
  then show ?thesis
    using n True by (auto simp: bitmap_create_def Let_def used_def bitmap_inv_def BITS_PER_WORD_def)
next
  case False
  define q r where "q = n div 8" and "r = n mod 8"
  have nqr: "n = q * 8 + r" "0 < r" "r < 8"
    using False by (simp_all add: q_def r_def)
  have w: "bitmap_words n = Suc q"
    unfolding bitmap_words_eq [OF n] using nqr by simp
  have "n div 8 = q" using nqr by simp
  then show ?thesis
    using n nqr w
    by (auto simp: bitmap_create_def Let_def used_def bitmap_inv_def BITS_PER_WORD_def bitset_mark_leftover)
qed

section \<open>Allocation\<close>

lemma alloc_offset_Some:
  "alloc_offset w off = Some k \<Longrightarrow> off \<le> k \<and> k < 8 \<and> \<not> bit w k \<and> (\<forall>j. off \<le> j \<and> j < k \<longrightarrow> bit w j)"
proof (induction w off rule: alloc_offset.induct)
  case (1 w off)
  show ?case
  proof (cases "off < 8 \<and> bit w off")
    case True
    then have "alloc_offset w (Suc off) = Some k"
      using "1.prems" by (subst (asm) alloc_offset.simps) (simp add: BITS_PER_WORD_def and_mask_0_iff)
    moreover have "\<not> w AND bmask off = 0"
      using True by (simp add: and_mask_0_iff)
    ultimately have "Suc off \<le> k \<and> k < 8 \<and> \<not> bit w k \<and> (\<forall>j. Suc off \<le> j \<and> j < k \<longrightarrow> bit w j)"
      using "1.IH" True by (simp add: BITS_PER_WORD_def)
    then show ?thesis
      using True by (metis Suc_leD Suc_leI le_neq_implies_less)
  next
    case False
    then show ?thesis
      using "1.prems" by (subst (asm) alloc_offset.simps)
        (auto simp: BITS_PER_WORD_def and_mask_0_iff split: if_splits)
  qed
qed

lemma alloc_offset_None: "alloc_offset w off = None \<Longrightarrow> off \<le> j \<Longrightarrow> j < 8 \<Longrightarrow> bit w j"
proof (induction w off rule: alloc_offset.induct)
  case (1 w off)
  then have b: "bit w off" and rest: "alloc_offset w (Suc off) = None"
    by (auto simp: alloc_offset.simps [of w off] BITS_PER_WORD_def and_mask_0_iff split: if_splits)
  then have "Suc off \<le> j \<Longrightarrow> bit w j"
    using "1.IH" "1.prems" by (simp add: BITS_PER_WORD_def and_mask_0_iff)
  with b show ?case
    using "1.prems" by (cases "j = off") auto
qed

text \<open>What one allocation promises, from word \<^verbatim>\<open>ix\<close> on.\<close>

definition alloc_post :: "bitmap \<Rightarrow> (int + nat \<times> bitmap) res \<Rightarrow> bool" where
  "alloc_post b r =
    (case r of
       Ret (Inr (i, b')) \<Rightarrow>
         i < nbits b \<and> i \<notin> used b \<and> (\<forall>j<i. j \<in> used b) \<and>
         used b' = insert i (used b) \<and> nbits b' = nbits b \<and> bitmap_inv b'
     | Ret (Inl e) \<Rightarrow> e = - ENOSPC \<and> used b = {0..<nbits b}
     | Crash _ \<Rightarrow> False)"

lemma scan_full_word:
  assumes "\<forall>k<8. bit (v b ix) k" and "\<forall>j<8 * ix. bitset (v b) j"
  shows "\<forall>j<8 * Suc ix. bitset (v b) j"
proof (intro allI impI)
  fix j assume j: "j < 8 * Suc ix"
  show "bitset (v b) j"
  proof (cases "j < 8 * ix")
    case False
    with j have "j div 8 = ix" by (intro div_nat_eqI) auto
    then show ?thesis using assms by (simp add: bitset_def)
  qed (use assms in blast)
qed

lemma alloc_hit:
  assumes inv: "bitmap_inv b" and ix: "ix < bitmap_words (nbits b)"
    and before: "\<forall>j<8 * ix. bitset (v b) j"
    and off: "alloc_offset (v b ix) 0 = Some k"
  shows "k < 8" and "ix * 8 + k < nbits b" and "ix * 8 + k \<notin> used b"
    and "\<forall>j<ix * 8 + k. bitset (v b) j"
proof -
  from alloc_offset_Some [OF off] show k: "k < 8" by simp
  have clear: "\<not> bitset (v b) (ix * 8 + k)" and below: "\<forall>j<k. bit (v b ix) j"
    using alloc_offset_Some [OF off] k by (auto simp: bitset_def)
  have "ix * 8 + k < 8 * bitmap_words (nbits b)"
    using ix k by simp
  then show lt: "ix * 8 + k < nbits b"
    using inv clear by (meson bitmap_inv_def leI)
  show "ix * 8 + k \<notin> used b"
    using clear by (simp add: used_def)
  show "\<forall>j<ix * 8 + k. bitset (v b) j"
  proof (intro allI impI)
    fix j assume j: "j < ix * 8 + k"
    show "bitset (v b) j"
    proof (cases "j < 8 * ix")
      case False
      with j k have d: "j div 8 = ix" by (intro div_nat_eqI) auto
      have "j mod 8 < k"
        using j d div_mult_mod_eq [of j 8] by linarith
      then show ?thesis using below d by (simp add: bitset_def)
    qed (use before in blast)
  qed
qed

lemma alloc_scan_post:
  assumes "bitmap_inv b" and "maxix = bitmap_words (nbits b)" and "\<forall>j<8 * ix. bitset (v b) j"
    and "ix \<le> maxix"
  shows "alloc_post b (alloc_scan b maxix ix)"
  using assms
proof (induction b maxix ix rule: alloc_scan.induct)
  case (1 b maxix ix)
  show ?case
  proof (cases "ix < maxix")
    case False
    have "nbits b \<le> 8 * bitmap_words (nbits b)"
      using "1.prems"(1) by (simp add: bitmap_inv_def bitmap_words_eq)
    with False "1.prems" have "used b = {0..<nbits b}"
      by (auto simp: used_def)
    then show ?thesis
      using False by (subst alloc_scan.simps) (simp add: alloc_post_def)
  next
    case True
    show ?thesis
    proof (cases "v b ix = WORD_ALLBITS")
      case full: True
      then have "\<forall>j<8 * Suc ix. bitset (v b) j"
        using scan_full_word "1.prems"(3) by (simp add: allbits_iff)
      then show ?thesis
        using "1.IH" "1.prems" True full by (subst alloc_scan.simps) simp
    next
      case False
      then obtain k where k: "alloc_offset (v b ix) 0 = Some k"
        using alloc_offset_None by (fastforce simp: allbits_iff)
      note hit = alloc_hit [OF "1.prems"(1) _ "1.prems"(3) k]
      show ?thesis
        using True False k "1.prems" hit
        by (subst alloc_scan.simps)
          (auto simp: alloc_post_def Let_def BITS_PER_WORD_def used_def bitmap_inv_def)
    qed
  qed
qed

lemma bitmap_alloc_post: "bitmap_inv b \<Longrightarrow> alloc_post b (bitmap_alloc b)"
  unfolding bitmap_alloc_def by (rule alloc_scan_post) auto

text \<open>An allocation changes one word only.\<close>

lemma alloc_scan_word:
  "alloc_scan b maxix ix = Ret (Inr (i, b')) \<Longrightarrow> v b' = word_or (v b) (i div 8) (bmask (i mod 8))"
proof (induction b maxix ix rule: alloc_scan.induct)
  case (1 b maxix ix)
  show ?case
  proof (cases "ix < maxix \<and> v b ix \<noteq> WORD_ALLBITS")
    case True
    with "1.prems" obtain k where k: "alloc_offset (v b ix) 0 = Some k"
      and r: "i = ix * 8 + k" "v b' = word_or (v b) ix (bmask k)"
      by (subst (asm) alloc_scan.simps)
        (auto simp: Let_def BITS_PER_WORD_def bnd_Ret_iff split: option.splits)
    from alloc_offset_Some [OF k] have "k < 8" by simp
    with r show ?thesis by simp
  next
    case False
    with "1.prems" have "ix < maxix" "v b ix = WORD_ALLBITS"
      "alloc_scan b maxix (Suc ix) = Ret (Inr (i, b'))"
      by (auto simp: alloc_scan.simps [of b maxix ix] split: if_splits)
    then show ?thesis using "1.IH" by simp
  qed
qed

lemma bitmap_alloc_word:
  "bitmap_alloc b = Ret (Inr (i, b')) \<Longrightarrow> k \<noteq> i div 8 \<Longrightarrow> v b' k = v b k"
  using alloc_scan_word by (simp add: bitmap_alloc_def word_or_def)

lemma bitmap_unmark_word:
  "bitmap_unmark b i = Ret b' \<Longrightarrow> k \<noteq> i div 8 \<Longrightarrow> v b' k = v b k"
  by (auto simp: bitmap_unmark_def bitmap_translate_def BITS_PER_WORD_def word_andnot_def bnd_Ret_iff)

section \<open>Marking, clearing, testing and counting\<close>

lemma translate_simps: "bitmap_translate i = (i div 8, bmask (i mod 8))"
  by (simp add: bitmap_translate_def BITS_PER_WORD_def)

lemma bitmap_mark_eq:
  "bitmap_mark b i =
    (if i < nbits b \<and> i \<notin> used b
     then Ret (b\<lparr>v := word_or (v b) (i div 8) (bmask (i mod 8))\<rparr>)
     else Crash Assert_Fail)"
  by (auto simp: bitmap_mark_def translate_simps and_mask_0_iff used_def bitset_def c_assert_def)

lemma bitmap_unmark_eq:
  "bitmap_unmark b i =
    (if i \<in> used b
     then Ret (b\<lparr>v := word_andnot (v b) (i div 8) (bmask (i mod 8))\<rparr>)
     else Crash Assert_Fail)"
  by (auto simp: bitmap_unmark_def translate_simps and_mask_0_iff used_def bitset_def c_assert_def)

lemma bitmap_mark_Ret:
  assumes "bitmap_mark b i = Ret b'"
  shows "i < nbits b" "i \<notin> used b" "nbits b' = nbits b" "used b' = insert i (used b)"
    "bitmap_inv b \<Longrightarrow> bitmap_inv b'"
  using assms by (auto simp: bitmap_mark_eq used_def bitmap_inv_def split: if_splits)

lemma bitmap_unmark_Ret:
  assumes "bitmap_unmark b i = Ret b'"
  shows "i \<in> used b" "nbits b' = nbits b" "used b' = used b - {i}"
    "bitmap_inv b \<Longrightarrow> bitmap_inv b'"
  using assms by (auto simp: bitmap_unmark_eq used_def bitmap_inv_def split: if_splits)

lemma bitmap_isset_eq:
  assumes "bitmap_inv b" "i < nbits b"
  shows "\<exists>w. bitmap_isset b i = Ret w \<and> (w \<noteq> 0 \<longleftrightarrow> i \<in> used b)"
proof -
  have "i div 8 < bitmap_words (nbits b)"
    using assms by (simp add: bitmap_inv_def bitmap_words_eq)
  then show ?thesis
    using assms by (simp add: bitmap_isset_def translate_simps used_def bitset_def and_mask_0_iff)
qed

lemma count_set_eq:
  "bitmap_inv b \<Longrightarrow> i \<le> nbits b \<Longrightarrow>
     count_set b i nr = Ret (nr + int (card {j \<in> used b. i \<le> j}))"
proof (induction b i nr rule: count_set.induct)
  case (1 b i nr)
  show ?case
  proof (cases "i < nbits b")
    case False
    then have none: "{j \<in> used b. i \<le> j} = {}"
      using "1.prems" by (auto dest: used_bound)
    show ?thesis
      using False by (subst count_set.simps) (simp add: none)
  next
    case True
    then obtain w where w: "bitmap_isset b i = Ret w" "w \<noteq> 0 \<longleftrightarrow> i \<in> used b"
      using bitmap_isset_eq "1.prems" by blast
    have split: "{j \<in> used b. i \<le> j} =
        (if i \<in> used b then insert i {j \<in> used b. Suc i \<le> j} else {j \<in> used b. Suc i \<le> j})"
      by (auto simp: Suc_le_eq le_eq_less_or_eq)
    show ?thesis
      using "1.IH" [OF True w(1)] "1.prems" True w
      by (subst count_set.simps) (simp add: split)
  qed
qed

lemma bitmap_nr_allocated_eq:
  "bitmap_inv b \<Longrightarrow> bitmap_nr_allocated b = Ret (int (card (used b)))"
  by (simp add: bitmap_nr_allocated_def count_set_eq)

section \<open>The interface of an index allocator\<close>

text \<open>
  What the rest of the file system relies on: an allocation hands out an index that was not in
  use, a release gives back exactly the index it is called with. \<^verbatim>\<open>allocs\<close> is a run of
  successive allocations.
\<close>

primrec allocs :: "('m \<Rightarrow> (nat \<times> 'm) option) \<Rightarrow> nat \<Rightarrow> 'm \<Rightarrow> (nat list \<times> 'm) option" where
  "allocs alloc 0 m = Some ([], m)"
| "allocs alloc (Suc n) m =
     (case alloc m of
        None \<Rightarrow> None
      | Some (i, m') \<Rightarrow> (case allocs alloc n m' of None \<Rightarrow> None | Some (is, m'') \<Rightarrow> Some (i # is, m'')))"

locale index_allocator =
  fixes alloc :: "'m \<Rightarrow> (nat \<times> 'm) option"
    and release :: "nat \<Rightarrow> 'm \<Rightarrow> 'm option"
    and in_use :: "'m \<Rightarrow> nat set"
    and capacity :: "'m \<Rightarrow> nat"
    and invar :: "'m \<Rightarrow> bool"
  assumes alloc_Some:
      "invar m \<Longrightarrow> alloc m = Some (i, m') \<Longrightarrow>
         i \<notin> in_use m \<and> in_use m' = insert i (in_use m) \<and> capacity m' = capacity m \<and> invar m'"
    and alloc_None: "invar m \<Longrightarrow> alloc m = None \<Longrightarrow> in_use m = {0..<capacity m}"
    and release_Some:
      "invar m \<Longrightarrow> release i m = Some m' \<Longrightarrow>
         i \<in> in_use m \<and> in_use m' = in_use m - {i} \<and> capacity m' = capacity m \<and> invar m'"
    and release_total: "invar m \<Longrightarrow> i \<in> in_use m \<Longrightarrow> release i m \<noteq> None"
    and in_use_bound: "invar m \<Longrightarrow> in_use m \<subseteq> {0..<capacity m}"
begin

lemma alloc_succeeds:
  assumes "invar m" "card (in_use m) < capacity m"
  shows "\<exists>i m'. alloc m = Some (i, m')"
  using alloc_None [OF assms(1)] assms(2) by (cases "alloc m") auto

lemma alloc_card:
  assumes "invar m" "alloc m = Some (i, m')"
  shows "card (in_use m') = Suc (card (in_use m))"
  using alloc_Some [OF assms] finite_subset [OF in_use_bound [OF assms(1)]] by simp

lemma release_card:
  assumes "invar m" "release i m = Some m'"
  shows "Suc (card (in_use m')) = card (in_use m)"
  using release_Some [OF assms] card_Suc_Diff1 [OF finite_subset [OF in_use_bound [OF assms(1)]], of i]
  by simp

lemma alloc_release_inverse:
  assumes "invar m" "alloc m = Some (i, m')"
  shows "\<exists>m''. release i m' = Some m'' \<and> in_use m'' = in_use m \<and> invar m''"
proof -
  from alloc_Some [OF assms] have m': "i \<notin> in_use m" "in_use m' = insert i (in_use m)" "invar m'"
    by auto
  then obtain m'' where "release i m' = Some m''"
    using release_total [of m' i] by auto
  with release_Some [OF m'(3) this] m' show ?thesis by auto
qed

lemma allocs_distinct:
  "invar m \<Longrightarrow> allocs alloc n m = Some (is, m') \<Longrightarrow>
     length is = n \<and> distinct is \<and> set is \<inter> in_use m = {} \<and> in_use m' = in_use m \<union> set is \<and>
     capacity m' = capacity m \<and> invar m'"
proof (induction n arbitrary: m "is")
  case (Suc n)
  then obtain i m1 js where step: "alloc m = Some (i, m1)" "allocs alloc n m1 = Some (js, m')" "is = i # js"
    by (auto split: option.splits)
  with alloc_Some [OF Suc.prems(1) step(1)] Suc.IH [OF _ step(2)] show ?case
    by auto
qed simp

lemma allocs_succeeds:
  "invar m \<Longrightarrow> card (in_use m) + n \<le> capacity m \<Longrightarrow> allocs alloc n m \<noteq> None"
proof (induction n arbitrary: m)
  case (Suc n)
  then obtain i m1 where step: "alloc m = Some (i, m1)"
    using alloc_succeeds [of m] by auto
  moreover have "allocs alloc n m1 \<noteq> None"
    using Suc.IH [of m1] Suc.prems alloc_Some [OF Suc.prems(1) step] alloc_card [OF Suc.prems(1) step]
    by simp
  ultimately show ?case by (auto split: option.splits)
qed simp

end

text \<open>The bitmap operations as the operations of the interface.\<close>

definition bm_alloc :: "bitmap \<Rightarrow> (nat \<times> bitmap) option" where
  "bm_alloc b = (case bitmap_alloc b of Ret (Inr r) \<Rightarrow> Some r | _ \<Rightarrow> None)"

definition bm_release :: "nat \<Rightarrow> bitmap \<Rightarrow> bitmap option" where
  "bm_release i b = (case bitmap_unmark b i of Ret b' \<Rightarrow> Some b' | _ \<Rightarrow> None)"

lemma bm_alloc_post:
  "bitmap_inv b \<Longrightarrow>
     (case bm_alloc b of
        None \<Rightarrow> bitmap_alloc b = Ret (Inl (- ENOSPC)) \<and> used b = {0..<nbits b}
      | Some (i, b') \<Rightarrow> bitmap_alloc b = Ret (Inr (i, b')) \<and> i < nbits b \<and> i \<notin> used b \<and>
          used b' = insert i (used b) \<and> nbits b' = nbits b \<and> bitmap_inv b' \<and> {0..<i} \<subseteq> used b)"
  using bitmap_alloc_post [of b]
  by (auto simp: bm_alloc_def alloc_post_def split: res.splits sum.splits)

interpretation bm: index_allocator bm_alloc bm_release used nbits bitmap_inv
proof unfold_locales
  fix b b' i
  assume "bitmap_inv b" "bm_alloc b = Some (i, b')"
  then show "i \<notin> used b \<and> used b' = insert i (used b) \<and> nbits b' = nbits b \<and> bitmap_inv b'"
    using bm_alloc_post [of b] by simp
next
  fix b
  assume "bitmap_inv b" "bm_alloc b = None"
  then show "used b = {0..<nbits b}"
    using bm_alloc_post [of b] by simp
next
  fix b b' i
  assume "bitmap_inv b" "bm_release i b = Some b'"
  then show "i \<in> used b \<and> used b' = used b - {i} \<and> nbits b' = nbits b \<and> bitmap_inv b'"
    by (auto simp: bm_release_def dest: bitmap_unmark_Ret split: res.splits)
next
  fix b i
  assume "i \<in> used b"
  then show "bm_release i b \<noteq> None"
    by (simp add: bm_release_def bitmap_unmark_eq)
qed (auto simp: used_def)

section \<open>Properties\<close>

text \<open>
  On a well-formed bitmap \<^verbatim>\<open>bitmap_alloc\<close> never fails an assertion; it returns the
  lowest clear index and sets exactly that bit, or \<^verbatim>\<open>-ENOSPC\<close> when and only when every
  index is in use, and the bitmap stays well formed.
\<close>

theorem bitmap_alloc_lowest_free:
  assumes "bitmap_inv b"
  shows "(bitmap_alloc b = Ret (Inl (- ENOSPC)) \<and> used b = {0..<nbits b}) \<or>
    (\<exists>i b'. bitmap_alloc b = Ret (Inr (i, b')) \<and> i < nbits b \<and> i \<notin> used b \<and> {0..<i} \<subseteq> used b \<and>
       used b' = insert i (used b) \<and> nbits b' = nbits b \<and> bitmap_inv b')"
  using bitmap_alloc_post [OF assms]
  by (auto simp: alloc_post_def subset_iff split: res.splits sum.splits)

theorem bitmap_alloc_lowest_free_witness:
  "bitmap_inv \<lparr>nbits = 3, v = zero_mem(0 := 0xf9)\<rparr> \<and>
   bitmap_alloc \<lparr>nbits = 3, v = zero_mem(0 := 0xf9)\<rparr> \<noteq> Crash Assert_Fail"
proof -
  have inv: "bitmap_inv \<lparr>nbits = 3, v = zero_mem(0 := 0xf9)\<rparr>"
  proof -
    have "bitset (zero_mem(0 := 0xf9)) i" if "3 \<le> i" "i < 8" for i
    proof -
      have "i \<in> {3, 4, 5, 6, 7}" using that by auto
      then show ?thesis by (auto simp: bitset_def)
    qed
    then show ?thesis by (simp add: bitmap_inv_def bitmap_words_def BITS_PER_WORD_def)
  qed
  show ?thesis using inv bitmap_alloc_lowest_free [OF inv] by auto
qed

text \<open>
  Successive allocations from a well-formed bitmap hand out pairwise distinct indexes, none
  of which was in use before, and they succeed as long as enough indexes are free.
\<close>

theorem bitmap_allocs_distinct:
  assumes "bitmap_inv b" and "card (used b) + n \<le> nbits b"
  shows "\<exists>is b'. allocs bm_alloc n b = Some (is, b') \<and> length is = n \<and> distinct is \<and>
    set is \<inter> used b = {} \<and> used b' = used b \<union> set is \<and> bitmap_inv b'"
  using bm.allocs_succeeds [OF assms] bm.allocs_distinct [OF assms(1), of n] by auto

theorem bitmap_allocs_distinct_witness:
  "\<exists>b. bitmap_create True True 20 = Ret (Inr b) \<and> allocs bm_alloc 20 b \<noteq> None"
proof -
  from bitmap_create_ok [of 20] obtain b where
    b: "bitmap_create True True 20 = Ret (Inr b)" "nbits b = 20" "used b = {}" "bitmap_inv b"
    by auto
  then show ?thesis using bitmap_allocs_distinct [OF b(4), of 20] by auto
qed

text \<open>
  \<^verbatim>\<open>bitmap_unmark\<close> after \<^verbatim>\<open>bitmap_mark\<close> restores the bitmap's set, and either
  aborts exactly when the bit already has the requested value or is out of range.
\<close>

theorem bitmap_mark_unmark:
  "(\<forall>b'. bitmap_mark b i = Ret b' \<longrightarrow>
      (\<exists>b''. bitmap_unmark b' i = Ret b'' \<and> used b'' = used b)) \<and>
   (bitmap_mark b i = Crash Assert_Fail \<longleftrightarrow> nbits b \<le> i \<or> i \<in> used b) \<and>
   (bitmap_unmark b i = Crash Assert_Fail \<longleftrightarrow> i \<notin> used b)"
proof (intro conjI allI impI)
  fix b' assume m: "bitmap_mark b i = Ret b'"
  note b' = bitmap_mark_Ret [OF m]
  then obtain b'' where "bitmap_unmark b' i = Ret b''"
    by (simp add: bitmap_unmark_eq)
  moreover from bitmap_unmark_Ret [OF this] b' have "used b'' = used b" by auto
  ultimately show "\<exists>b''. bitmap_unmark b' i = Ret b'' \<and> used b'' = used b" by blast
qed (auto simp: bitmap_mark_eq bitmap_unmark_eq used_bound)

theorem bitmap_mark_unmark_witness:
  "\<exists>b b' b''. bitmap_create True True 16 = Ret (Inr b) \<and> bitmap_mark b 9 = Ret b' \<and>
     bitmap_unmark b' 9 = Ret b'' \<and> used b'' = used b"
proof -
  from bitmap_create_ok [of 16] obtain b where
    b: "bitmap_create True True 16 = Ret (Inr b)" "nbits b = 16" "used b = {}"
    by auto
  then obtain b' where b': "bitmap_mark b 9 = Ret b'" by (simp add: bitmap_mark_eq)
  with b bitmap_mark_unmark [of b 9] show ?thesis by blast
qed

text \<open>
  \<^verbatim>\<open>bitmap_nr_allocated\<close> counts the indexes in use, and one allocation or release
  changes the count by one.
\<close>

theorem bitmap_nr_allocated_counts:
  assumes "bitmap_inv b"
  shows "bitmap_nr_allocated b = Ret (int (card (used b))) \<and>
    (\<forall>i b'. bitmap_alloc b = Ret (Inr (i, b')) \<longrightarrow>
       bitmap_nr_allocated b' = Ret (int (card (used b)) + 1)) \<and>
    (\<forall>i b'. bitmap_unmark b i = Ret b' \<longrightarrow>
       bitmap_nr_allocated b' = Ret (int (card (used b)) - 1))"
proof (intro conjI allI impI)
  fix i b' assume "bitmap_alloc b = Ret (Inr (i, b'))"
  then have "bm_alloc b = Some (i, b')" by (simp add: bm_alloc_def)
  with bm.alloc_card [OF assms this] bm.alloc_Some [OF assms this]
  show "bitmap_nr_allocated b' = Ret (int (card (used b)) + 1)"
    by (simp add: bitmap_nr_allocated_eq)
next
  fix i b' assume "bitmap_unmark b i = Ret b'"
  then have "bm_release i b = Some b'" by (simp add: bm_release_def)
  with bm.release_card [OF assms this] bm.release_Some [OF assms this]
  show "bitmap_nr_allocated b' = Ret (int (card (used b)) - 1)"
    by (simp add: bitmap_nr_allocated_eq)
qed (simp add: bitmap_nr_allocated_eq assms)

theorem bitmap_nr_allocated_counts_witness:
  "\<exists>b. bitmap_create True True 16 = Ret (Inr b) \<and> bitmap_nr_allocated b = Ret 0"
proof -
  from bitmap_create_ok [of 16] obtain b where
    b: "bitmap_create True True 16 = Ret (Inr b)" "used b = {}" "bitmap_inv b"
    by auto
  then show ?thesis using bitmap_nr_allocated_counts [OF b(3)] by auto
qed

end
