(* ===== verification/FS_State.thy ===== *)
theory FS_State
  imports FS_Bitmap
begin

text \<open>
  The data of the file system (\<^verbatim>\<open>testfs.h\<close>, \<^verbatim>\<open>super.h\<close>, \<^verbatim>\<open>inode.h\<close>,
  \<^verbatim>\<open>dir.h\<close>): the on-disk structures with their byte layout on x86-64, the in-memory inode,
  and the state of a mounted file system. The device file is its bytes and its length; block
  numbers count units of \<^verbatim>\<open>BLOCK_SIZE\<close> bytes. The block operations of \<^verbatim>\<open>block.c\<close>
  follow.
\<close>

section \<open>Constants\<close>

definition BLOCK_SIZE :: nat where "BLOCK_SIZE = 8192"
definition SUPER_BLOCK_SIZE :: nat where "SUPER_BLOCK_SIZE = 1"
definition INODE_FREEMAP_SIZE :: nat where "INODE_FREEMAP_SIZE = 1"
definition BLOCK_FREEMAP_SIZE :: nat where "BLOCK_FREEMAP_SIZE = 16"
definition NR_INODE_BLOCKS :: nat where "NR_INODE_BLOCKS = 128"
definition NR_DIRECT_BLOCKS :: nat where "NR_DIRECT_BLOCKS = 10"
definition NR_INDIRECT_BLOCKS :: nat where "NR_INDIRECT_BLOCKS = BLOCK_SIZE div 4"
definition SIZEOF_DINODE :: nat where "SIZEOF_DINODE = 64"
definition SIZEOF_DSUPER :: nat where "SIZEOF_DSUPER = 32"
definition SIZEOF_DIRENT :: nat where "SIZEOF_DIRENT = 8"
definition INODES_PER_BLOCK :: nat where "INODES_PER_BLOCK = BLOCK_SIZE div SIZEOF_DINODE"

lemmas fs_consts [simp] =
  BLOCK_SIZE_def SUPER_BLOCK_SIZE_def INODE_FREEMAP_SIZE_def BLOCK_FREEMAP_SIZE_def
  NR_INODE_BLOCKS_def NR_DIRECT_BLOCKS_def NR_INDIRECT_BLOCKS_def SIZEOF_DINODE_def
  SIZEOF_DSUPER_def SIZEOF_DIRENT_def INODES_PER_BLOCK_def BITS_PER_WORD_def

datatype inode_type = I_NONE | I_FILE | I_DIR

primrec type_code :: "inode_type \<Rightarrow> int" where
  "type_code I_NONE = 0"
| "type_code I_FILE = 1"
| "type_code I_DIR = 2"

section \<open>Structures on disk\<close>

record dsuper_block =
  inode_freemap_start :: int
  block_freemap_start :: int
  inode_blocks_start :: int
  data_blocks_start :: int
  used_inode_count :: int
  used_block_count :: int
  max_fs_blocks :: int

record dinode =
  i_type :: int
  i_block_nr :: "int list"
  i_indirect :: int
  i_dindirect :: int
  block_count :: int
  i_size :: int

definition zero_dinode :: dinode where
  "zero_dinode = \<lparr>i_type = 0, i_block_nr = replicate NR_DIRECT_BLOCKS 0, i_indirect = 0,
     i_dindirect = 0, block_count = 0, i_size = 0\<rparr>"

text \<open>The bytes of \<^verbatim>\<open>struct dsuper_block\<close> and of \<^verbatim>\<open>struct dinode\<close>.\<close>

definition dsuper_bytes :: "dsuper_block \<Rightarrow> mem" where
  "dsuper_bytes d =
    put64 (put32 (put32 (put32 (put32 (put32 (put32 zero_mem
      0 (inode_freemap_start d)) 4 (block_freemap_start d)) 8 (inode_blocks_start d))
      12 (data_blocks_start d)) 16 (used_inode_count d)) 20 (used_block_count d))
      24 (max_fs_blocks d)"

definition dsuper_of_bytes :: "mem \<Rightarrow> dsuper_block" where
  "dsuper_of_bytes m =
    \<lparr>inode_freemap_start = get_u32 m 0, block_freemap_start = get_u32 m 4,
     inode_blocks_start = get_u32 m 8, data_blocks_start = get_u32 m 12,
     used_inode_count = get_u32 m 16, used_block_count = get_u32 m 20,
     max_fs_blocks = get_u64 m 24\<rparr>"

primrec put_s32s :: "mem \<Rightarrow> nat \<Rightarrow> int list \<Rightarrow> mem" where
  "put_s32s m off [] = m"
| "put_s32s m off (x # xs) = put_s32s (put32 m off x) (off + 4) xs"

definition dinode_bytes :: "dinode \<Rightarrow> mem" where
  "dinode_bytes d =
    put64 (put32 (put32 (put32 (put_s32s (put32 zero_mem
      0 (i_type d)) 4 (i_block_nr d)) 44 (i_indirect d)) 48 (i_dindirect d))
      52 (block_count d)) 56 (i_size d)"

definition dinode_of_bytes :: "mem \<Rightarrow> nat \<Rightarrow> dinode" where
  "dinode_of_bytes m off =
    \<lparr>i_type = get_s32 m off,
     i_block_nr = map (\<lambda>k. get_s32 m (off + 4 + 4 * k)) [0..<NR_DIRECT_BLOCKS],
     i_indirect = get_s32 m (off + 44), i_dindirect = get_s32 m (off + 48),
     block_count = get_s32 m (off + 52), i_size = get_s64 m (off + 56)\<rparr>"

section \<open>The mounted file system\<close>

text \<open>
  \<^verbatim>\<open>i_flags\<close> holds one flag, \<^verbatim>\<open>I_FLAGS_DIRTY\<close>. The \<^verbatim>\<open>sb\<close> pointer of an
  inode is the one mounted super block.
\<close>

record inode =
  i_in :: dinode
  i_dirty :: bool
  i_nr :: int
  i_count :: int

text \<open>
  The host's file that serves as the device: its bytes, its length, and whether the host carries out the calls on it
  (\<^verbatim>\<open>ftell\<close>, \<^verbatim>\<open>fseek\<close>, \<^verbatim>\<open>fread\<close>, \<^verbatim>\<open>fwrite\<close>).
\<close>

record device =
  dbytes :: mem
  dlen :: nat
  dio :: bool

text \<open>
  In-memory inodes live at addresses handed out by \<^verbatim>\<open>calloc\<close>; a bucket of the inode hash
  table is the list of the addresses on its \<^verbatim>\<open>hlist\<close>. The table is \<^const>\<open>None\<close> where the
  C pointer is null or has been freed. \<^verbatim>\<open>malloc_ok n\<close> tells whether the \<open>n\<close>-th call of the
  allocator succeeds; \<^verbatim>\<open>malloc_n\<close> counts the calls and is the address of the next object.
  \<^verbatim>\<open>sout\<close> collects the bytes printed to the standard output. \<^verbatim>\<open>junk n\<close> is what
  uninitialised memory holds when the allocator has been called \<^verbatim>\<open>n\<close> times.
\<close>

record fs =
  sb :: dsuper_block
  dev :: device
  inode_freemap :: "bitmap option"
  block_freemap :: "bitmap option"
  hash_tbl :: "(nat \<Rightarrow> nat list) option"
  iheap :: "nat \<Rightarrow> inode option"
  malloc_ok :: "nat \<Rightarrow> bool"
  malloc_n :: nat
  sout :: "byte list"
  junk :: "nat \<Rightarrow> mem"

definition c_malloc :: "fs \<Rightarrow> nat option \<times> fs" where
  "c_malloc s =
    (if malloc_ok s (malloc_n s) then Some (malloc_n s) else None,
     s\<lparr>malloc_n := Suc (malloc_n s)\<rparr>)"

section \<open>Block operations\<close>

text \<open>
  \<^verbatim>\<open>fseek\<close> refuses a negative offset and \<^verbatim>\<open>fread\<close> stops at the end of the file;
  writing behind the end extends the file. Every call restores the file position it found. The
  first call that the host refuses ends the process.
\<close>

definition write_blocks :: "fs \<Rightarrow> mem \<Rightarrow> int \<Rightarrow> nat \<Rightarrow> fs res" where
  "write_blocks s blocks start nr =
    (if \<not> dio (dev s) then Crash (Exit_Error ''fwrite'')
     else if start < 0 then Crash (Exit_Error ''fseek'')
     else
       let pos = nat start * BLOCK_SIZE; d = dev s in
       Ret (s\<lparr>dev := \<lparr>dbytes = memcpy (dbytes d) pos blocks 0 (nr * BLOCK_SIZE),
                       dlen = max (dlen d) (pos + nr * BLOCK_SIZE), dio = dio d\<rparr>\<rparr>))"

function zero_blocks_from :: "fs \<Rightarrow> int \<Rightarrow> nat \<Rightarrow> nat \<Rightarrow> fs res" where
  "zero_blocks_from s start nr i =
     (if i < nr then
        bnd (write_blocks s zero_mem (start + int i) 1) (\<lambda>s'. zero_blocks_from s' start nr (Suc i))
      else Ret s)"
  by pat_completeness auto
termination
  by (relation "measure (\<lambda>(s, start, nr, i). nr - i)") auto

declare zero_blocks_from.simps [simp del]

definition zero_blocks :: "fs \<Rightarrow> int \<Rightarrow> nat \<Rightarrow> fs res" where
  "zero_blocks s start nr = zero_blocks_from s start nr 0"

definition read_blocks :: "fs \<Rightarrow> int \<Rightarrow> nat \<Rightarrow> mem res" where
  "read_blocks s start nr =
    (if \<not> dio (dev s) then Crash (Exit_Error ''fread'')
     else if start < 0 then Crash (Exit_Error ''fseek'')
     else
       let pos = nat start * BLOCK_SIZE in
       if dlen (dev s) < pos + nr * BLOCK_SIZE then Crash (Exit_Error ''fread'')
       else Ret (\<lambda>i. dbytes (dev s) (pos + i)))"

section \<open>Layout round trips\<close>

definition wf_dsuper :: "dsuper_block \<Rightarrow> bool" where
  "wf_dsuper d \<longleftrightarrow>
     (\<forall>x \<in> {inode_freemap_start d, block_freemap_start d, inode_blocks_start d,
            data_blocks_start d, used_inode_count d, used_block_count d}. 0 \<le> x \<and> x < 2 ^ 32) \<and>
     0 \<le> max_fs_blocks d \<and> max_fs_blocks d < 2 ^ 64"

definition wf_dinode :: "dinode \<Rightarrow> bool" where
  "wf_dinode d \<longleftrightarrow> in_s32 (i_type d) \<and> length (i_block_nr d) = NR_DIRECT_BLOCKS \<and>
     list_all in_s32 (i_block_nr d) \<and> in_s32 (i_indirect d) \<and> in_s32 (i_dindirect d) \<and>
     in_s32 (block_count d) \<and> - (2 ^ 63) \<le> i_size d \<and> i_size d < 2 ^ 63"

lemma to_s32_in_s32 [simp]: "in_s32 x \<Longrightarrow> to_s32 x = x"
  by (simp add: in_s32_def)

lemma dsuper_roundtrip: "wf_dsuper d \<Longrightarrow> dsuper_of_bytes (dsuper_bytes d) = d"
  by (simp add: dsuper_of_bytes_def dsuper_bytes_def codec_simps wf_dsuper_def)

lemma put_s32s_out: "i < off \<or> off + 4 * length xs \<le> i \<Longrightarrow> put_s32s m off xs i = m i"
  by (induction xs arbitrary: m off) (auto simp: put_le_out)

lemma get_s32_put_s32s:
  "k < length xs \<Longrightarrow> get_s32 (put_s32s m off xs) (off + 4 * k) = to_s32 (xs ! k)"
proof (induction xs arbitrary: m off k)
  case (Cons x xs)
  show ?case
  proof (cases k)
    case 0
    have "get_s32 (put_s32s (put32 m off x) (off + 4) xs) off = get_s32 (put32 m off x) off"
      by (intro get_32_cong put_s32s_out) auto
    then show ?thesis using 0 by (simp add: codec_simps)
  next
    case (Suc k')
    then show ?thesis using Cons.IH [of k' "put32 m off x" "off + 4"] Cons.prems
      by (simp add: algebra_simps)
  qed
qed simp

lemma get_s32_put_s32s_other:
  "off' + 4 * length xs \<le> off \<or> off + 4 \<le> off' \<Longrightarrow> get_s32 (put_s32s m off' xs) off = get_s32 m off"
  by (intro get_32_cong put_s32s_out) auto

lemma dinode_of_bytes_cong:
  assumes "\<And>i. i < 64 \<Longrightarrow> m (off + i) = m' (off' + i)"
  shows "dinode_of_bytes m off = dinode_of_bytes m' off'"
proof -
  have g: "get_le n m (off + j) = get_le n m' (off' + j)" if "j + n \<le> 64" for n j
    using that
  proof (induction n arbitrary: j)
    case (Suc n)
    then show ?case using Suc.IH [of "Suc j"] assms [of j] by simp
  qed simp
  have "get_s32 m (off + j) = get_s32 m' (off' + j)" if "j + 4 \<le> 64" for j
    using g [of j 4] that by (simp add: get_s32_def)
  moreover from this [of 0] have "get_s32 m off = get_s32 m' off'" by simp
  moreover have "get_s64 m (off + 56) = get_s64 m' (off' + 56)"
    using g [of 56 8] by (simp add: get_s64_def)
  ultimately show ?thesis
    by (simp add: dinode_of_bytes_def add.assoc)
qed

lemma dinode_roundtrip:
  assumes "wf_dinode d"
  shows "dinode_of_bytes (dinode_bytes d) 0 = d"
proof -
  have len: "length (i_block_nr d) = 10" using assms by (simp add: wf_dinode_def)
  have blk: "map (\<lambda>k. get_s32 (dinode_bytes d) (4 + 4 * k)) [0..<10] = i_block_nr d"
  proof (rule nth_equalityI)
    fix k assume "k < length (map (\<lambda>k. get_s32 (dinode_bytes d) (4 + 4 * k)) [0..<10])"
    then have k: "k < 10" by simp
    have "in_s32 (i_block_nr d ! k)"
      using assms k len by (simp add: wf_dinode_def list_all_length)
    then show "map (\<lambda>k. get_s32 (dinode_bytes d) (4 + 4 * k)) [0..<10] ! k = i_block_nr d ! k"
      using k len by (simp add: dinode_bytes_def codec_simps get_s32_put_s32s)
  qed (simp add: len)
  show ?thesis
    using assms blk len
    by (simp add: dinode_of_bytes_def dinode_bytes_def codec_simps get_s32_put_s32s_other wf_dinode_def)
qed

lemma wf_dinode_of_bytes [simp]: "wf_dinode (dinode_of_bytes m off)"
proof -
  have "- (2 ^ 63) \<le> to_s64 x \<and> to_s64 x < 2 ^ 63" for x
    using pos_mod_sign [of 18446744073709551616 "x + 9223372036854775808"]
      pos_mod_bound [of 18446744073709551616 "x + 9223372036854775808"]
    by (simp add: to_s64_def)
  then show ?thesis
    by (simp add: wf_dinode_def dinode_of_bytes_def list_all_length get_s64_def)
qed

section \<open>Reading back what was written\<close>

lemma write_blocks_Ret_iff [res_simps]:
  "write_blocks s blocks start nr = Ret s' \<longleftrightarrow>
     dio (dev s) \<and> 0 \<le> start \<and>
     s' = s\<lparr>dev := \<lparr>dbytes = memcpy (dbytes (dev s)) (nat start * 8192) blocks 0 (nr * 8192),
                    dlen = max (dlen (dev s)) (nat start * 8192 + nr * 8192), dio = True\<rparr>\<rparr>"
  by (auto simp: write_blocks_def Let_def)

lemma read_blocks_Ret_iff [res_simps]:
  "read_blocks s start nr = Ret m \<longleftrightarrow>
     dio (dev s) \<and> 0 \<le> start \<and> nat start * 8192 + nr * 8192 \<le> dlen (dev s) \<and>
     m = (\<lambda>i. dbytes (dev s) (nat start * 8192 + i))"
  by (auto simp: read_blocks_def Let_def)

lemma zero_blocks_1: "zero_blocks s start (Suc 0) = write_blocks s zero_mem start (Suc 0)"
proof -
  have "zero_blocks_from s' start (Suc 0) (Suc 0) = Ret s'" for s'
    by (subst zero_blocks_from.simps) simp
  then show ?thesis
    by (subst zero_blocks_def, subst zero_blocks_from.simps)
      (cases "write_blocks s zero_mem start (Suc 0)", simp_all)
qed

end
