(* ===== verification/FS_Super.thy ===== *)
theory FS_Super
  imports FS_State
begin

text \<open>
  The super block operations (\<^verbatim>\<open>fs/super.c\<close>) and the inode hash table's life cycle that
  they start and end (\<^verbatim>\<open>inode_hash_init\<close>, \<^verbatim>\<open>inode_hash_destroy\<close> of
  \<^verbatim>\<open>fs/inode.c\<close>). The invariant \<^verbatim>\<open>sb_inv\<close> ties the usage counters to the two
  freemaps and the freemaps and the super block to their copies on disk.
\<close>

section \<open>The inode hash table's life cycle\<close>

definition INODE_HASH_SIZE :: nat where
  "INODE_HASH_SIZE = 256"

definition inode_hash_init :: "fs \<Rightarrow> fs res" where
  "inode_hash_init s =
    (case c_malloc s of
       (None, s1) \<Rightarrow> Crash (Exit_Error ''malloc'')
     | (Some _, s1) \<Rightarrow> Ret (s1\<lparr>hash_tbl := Some (\<lambda>_. [])\<rparr>))"

definition inode_hash_destroy :: "fs \<Rightarrow> fs res" where
  "inode_hash_destroy s =
    bnd (c_assert (hash_tbl s \<noteq> None)) (\<lambda>_.
    bnd (c_assert (\<forall>i \<in> {0..<INODE_HASH_SIZE}. the (hash_tbl s) i = [])) (\<lambda>_.
    Ret (s\<lparr>hash_tbl := None\<rparr>)))"

section \<open>Operations\<close>

definition testfs_write_super_block :: "fs \<Rightarrow> fs res" where
  "testfs_write_super_block s =
    bnd (c_assert (SIZEOF_DSUPER \<le> BLOCK_SIZE)) (\<lambda>_.
    write_blocks s (memcpy zero_mem 0 (dsuper_bytes (sb s)) 0 SIZEOF_DSUPER) 0 1)"

text \<open>
  Writing the freemap block that holds a bit: \<^verbatim>\<open>freemap + nr * BLOCK_SIZE\<close> points into the
  bitmap's word array, which must hold a whole block from there on.
\<close>

definition write_freemap_block :: "fs \<Rightarrow> bitmap \<Rightarrow> int \<Rightarrow> int \<Rightarrow> fs res" where
  "write_freemap_block s b start nr =
    bnd (guard_ub (0 \<le> nr \<and> (nat nr + 1) * BLOCK_SIZE \<le> bitmap_words (nbits b))) (\<lambda>_.
    write_blocks s (\<lambda>i. bitmap_getdata b (nat nr * BLOCK_SIZE + i)) (to_u32 (start + nr)) 1)"

definition testfs_write_inode_freemap :: "fs \<Rightarrow> int \<Rightarrow> fs res" where
  "testfs_write_inode_freemap s inode_nr =
    (case inode_freemap s of
       None \<Rightarrow> Crash Assert_Fail
     | Some b \<Rightarrow>
         let nr = c_div inode_nr (int (BLOCK_SIZE * BITS_PER_WORD)) in
         write_freemap_block s b (inode_freemap_start (sb s)) nr)"

definition testfs_write_block_freemap :: "fs \<Rightarrow> int \<Rightarrow> fs res" where
  "testfs_write_block_freemap s block_nr =
    (case block_freemap s of
       None \<Rightarrow> Crash Assert_Fail
     | Some b \<Rightarrow>
         let nr = c_div block_nr (int (BLOCK_SIZE * BITS_PER_WORD)) in
         write_freemap_block s b (block_freemap_start (sb s)) nr)"

definition testfs_get_block_freemap :: "fs \<Rightarrow> (int \<times> fs) res" where
  "testfs_get_block_freemap s =
    (case block_freemap s of
       None \<Rightarrow> Crash Assert_Fail
     | Some b \<Rightarrow>
         bnd (bitmap_alloc b) (\<lambda>r.
           case r of
             Inl e \<Rightarrow> Ret (e, s)
           | Inr (index, b') \<Rightarrow>
               bnd (testfs_write_block_freemap (s\<lparr>block_freemap := Some b'\<rparr>) (int index))
                 (\<lambda>s'. Ret (int index, s'))))"

definition testfs_put_block_freemap :: "fs \<Rightarrow> int \<Rightarrow> fs res" where
  "testfs_put_block_freemap s block_nr =
    (case block_freemap s of
       None \<Rightarrow> Crash Assert_Fail
     | Some b \<Rightarrow>
         bnd (bitmap_unmark b (nat (to_u32 block_nr))) (\<lambda>b'.
         testfs_write_block_freemap (s\<lparr>block_freemap := Some b'\<rparr>) block_nr))"

definition testfs_get_dev :: "fs \<Rightarrow> device" where
  "testfs_get_dev s = dev s"

definition testfs_inode_blocks_start :: "fs \<Rightarrow> int" where
  "testfs_inode_blocks_start s = inode_blocks_start (sb s)"

text \<open>
  \<^verbatim>\<open>testfs_make_super_block\<close> opens the device for writing, which empties the file. The
  freemap pointers of the zeroed structure are null. \<^verbatim>\<open>s\<close> is the process before the call.
\<close>

definition testfs_make_super_block :: "fs \<Rightarrow> int \<Rightarrow> fs res" where
  "testfs_make_super_block s max_blocks =
    (case c_malloc s of
       (None, s1) \<Rightarrow> Crash (Exit_Error ''malloc'')
     | (Some _, s1) \<Rightarrow>
         let ifs = int SUPER_BLOCK_SIZE;
             bfs = ifs + int INODE_FREEMAP_SIZE;
             ibs = bfs + int BLOCK_FREEMAP_SIZE;
             dbs = ibs + int NR_INODE_BLOCKS;
             s2 = s1\<lparr>dev := \<lparr>dbytes = zero_mem, dlen = 0, dio = dio (dev s1)\<rparr>,
                     inode_freemap := None, block_freemap := None,
                     sb := \<lparr>inode_freemap_start = ifs, block_freemap_start = bfs,
                            inode_blocks_start = ibs, data_blocks_start = dbs,
                            used_inode_count = 0, used_block_count = 0,
                            max_fs_blocks = max_blocks\<rparr>\<rparr> in
         bnd (testfs_write_super_block s2) inode_hash_init)"

definition testfs_make_inode_freemap :: "fs \<Rightarrow> fs res" where
  "testfs_make_inode_freemap s = zero_blocks s (inode_freemap_start (sb s)) INODE_FREEMAP_SIZE"

definition testfs_make_block_freemap :: "fs \<Rightarrow> fs res" where
  "testfs_make_block_freemap s = zero_blocks s (block_freemap_start (sb s)) BLOCK_FREEMAP_SIZE"

definition testfs_make_inode_blocks :: "fs \<Rightarrow> fs res" where
  "testfs_make_inode_blocks s =
    (let num_bits_in_freemap = BLOCK_SIZE * INODE_FREEMAP_SIZE * 8 in
     if num_bits_in_freemap < NR_INODE_BLOCKS * INODES_PER_BLOCK
     then Crash (Exit_Error ''not enough inode freemap'')
     else
       bnd (c_assert (BLOCK_SIZE mod SIZEOF_DINODE = 0)) (\<lambda>_.
       zero_blocks s (inode_blocks_start (sb s)) NR_INODE_BLOCKS))"

text \<open>\<^verbatim>\<open>bitmap_create\<close> with the state's allocator.\<close>

definition create_bitmap :: "fs \<Rightarrow> nat \<Rightarrow> ((int + bitmap) \<times> fs) res" where
  "create_bitmap s n =
    (let (p1, s1) = c_malloc s;
         (p2, s2) = (if p1 = None then (None, s1) else c_malloc s1) in
     bnd (bitmap_create (p1 \<noteq> None) (p2 \<noteq> None) n) (\<lambda>r. Ret (r, s2)))"

text \<open>Creating a freemap and filling its words from the device.\<close>

definition load_freemap :: "fs \<Rightarrow> int \<Rightarrow> nat \<Rightarrow> ((int + bitmap) \<times> fs) res" where
  "load_freemap s start nblocks =
    bnd (create_bitmap s (BLOCK_SIZE * nblocks * BITS_PER_WORD)) (\<lambda>(r, s1).
      case r of
        Inl e \<Rightarrow> Ret (Inl e, s1)
      | Inr b \<Rightarrow> bnd (read_blocks s1 start nblocks) (\<lambda>m. Ret (Inr (b\<lparr>v := m\<rparr>), s1)))"

text \<open>
  \<^verbatim>\<open>testfs_init_super_block\<close>: \<^verbatim>\<open>open_err\<close> is the error number when the device
  cannot be opened. Returns the C result and the state.
\<close>

definition testfs_init_super_block :: "int option \<Rightarrow> fs \<Rightarrow> (int \<times> fs) res" where
  "testfs_init_super_block open_err s0 =
    (case c_malloc s0 of
       (None, s1) \<Rightarrow> Ret (- ENOMEM, s1)
     | (Some _, s1) \<Rightarrow>
       (case open_err of
          Some e \<Rightarrow> Ret (e, s1)
        | None \<Rightarrow>
            bnd (read_blocks s1 0 1) (\<lambda>block.
            let s2 = s1\<lparr>sb := dsuper_of_bytes block\<rparr> in
            bnd (load_freemap s2 (inode_freemap_start (sb s2)) INODE_FREEMAP_SIZE) (\<lambda>(r, s3).
              case r of
                Inl e \<Rightarrow> Ret (e, s3)
              | Inr ib \<Rightarrow>
                  let s4 = s3\<lparr>inode_freemap := Some ib\<rparr> in
                  bnd (load_freemap s4 (block_freemap_start (sb s4)) BLOCK_FREEMAP_SIZE) (\<lambda>(r', s5).
                    case r' of
                      Inl e \<Rightarrow> Ret (e, s5)
                    | Inr bb \<Rightarrow>
                        bnd (inode_hash_init (s5\<lparr>block_freemap := Some bb\<rparr>)) (\<lambda>s6. Ret (0, s6)))))))"

definition close_freemap :: "fs \<Rightarrow> bitmap option \<Rightarrow> int \<Rightarrow> nat \<Rightarrow> fs res" where
  "close_freemap s ob start nblocks =
    (case ob of
       None \<Rightarrow> Ret s
     | Some b \<Rightarrow> write_blocks s (bitmap_getdata b) start nblocks)"

definition testfs_close_super_block :: "fs \<Rightarrow> fs res" where
  "testfs_close_super_block s =
    bnd (testfs_write_super_block s) (\<lambda>s1.
    bnd (inode_hash_destroy s1) (\<lambda>s2.
    bnd (close_freemap s2 (inode_freemap s2) (inode_freemap_start (sb s2)) INODE_FREEMAP_SIZE) (\<lambda>s3.
    let s4 = s3\<lparr>inode_freemap := None\<rparr> in
    bnd (close_freemap s4 (block_freemap s4) (block_freemap_start (sb s4)) BLOCK_FREEMAP_SIZE) (\<lambda>s5.
    Ret (s5\<lparr>block_freemap := None\<rparr>)))))"

definition testfs_get_inode_freemap :: "fs \<Rightarrow> (int \<times> fs) res" where
  "testfs_get_inode_freemap s =
    (case inode_freemap s of
       None \<Rightarrow> Crash Assert_Fail
     | Some b \<Rightarrow>
         bnd (bitmap_alloc b) (\<lambda>r.
           case r of
             Inl e \<Rightarrow> Ret (e, s)
           | Inr (index, b') \<Rightarrow>
               bnd (testfs_write_inode_freemap (s\<lparr>inode_freemap := Some b'\<rparr>) (int index)) (\<lambda>s1.
               bnd (testfs_write_super_block
                      (s1\<lparr>sb := (sb s1)\<lparr>used_inode_count := to_u32 (used_inode_count (sb s1) + 1)\<rparr>\<rparr>))
                 (\<lambda>s2. Ret (int index, s2)))))"

definition testfs_put_inode_freemap :: "fs \<Rightarrow> int \<Rightarrow> fs res" where
  "testfs_put_inode_freemap s inode_nr =
    (case inode_freemap s of
       None \<Rightarrow> Crash Assert_Fail
     | Some b \<Rightarrow>
         bnd (bitmap_unmark b (nat (to_u32 inode_nr))) (\<lambda>b'.
         bnd (testfs_write_inode_freemap (s\<lparr>inode_freemap := Some b'\<rparr>) inode_nr) (\<lambda>s1.
         bnd (c_assert (used_inode_count (sb s1) > 0)) (\<lambda>_.
         testfs_write_super_block
           (s1\<lparr>sb := (sb s1)\<lparr>used_inode_count := to_u32 (used_inode_count (sb s1) - 1)\<rparr>\<rparr>)))))"

definition testfs_alloc_block :: "fs \<Rightarrow> (int \<times> fs) res" where
  "testfs_alloc_block s =
    (if used_block_count (sb s) \<ge> max_fs_blocks (sb s) then Ret (- ENOSPC, s)
     else
       bnd (testfs_get_block_freemap s) (\<lambda>(phy_block_nr, s1).
       if phy_block_nr < 0 then Ret (phy_block_nr, s1)
       else
         bnd (testfs_write_super_block
                (s1\<lparr>sb := (sb s1)\<lparr>used_block_count := to_u32 (used_block_count (sb s1) + 1)\<rparr>\<rparr>)) (\<lambda>s2.
         Ret (to_s32 (to_u32 (data_blocks_start (sb s2) + phy_block_nr)), s2))))"

definition testfs_free_block :: "fs \<Rightarrow> int \<Rightarrow> (int \<times> fs) res" where
  "testfs_free_block s block_nr =
    bnd (zero_blocks s block_nr 1) (\<lambda>s1.
    let block_nr' = to_s32 (to_u32 (block_nr - data_blocks_start (sb s1))) in
    bnd (c_assert (block_nr' \<ge> 0)) (\<lambda>_.
    bnd (testfs_put_block_freemap s1 block_nr') (\<lambda>s2.
    bnd (c_assert (used_block_count (sb s2) > 0)) (\<lambda>_.
    bnd (testfs_write_super_block
           (s2\<lparr>sb := (sb s2)\<lparr>used_block_count := to_u32 (used_block_count (sb s2) - 1)\<rparr>\<rparr>)) (\<lambda>s3.
    Ret (0, s3))))))"

text \<open>
  The formatting steps of \<^verbatim>\<open>main\<close> in \<^verbatim>\<open>mktestfs.c\<close>, up to the second
  \<^verbatim>\<open>testfs_init_super_block\<close>, which must return 0.
\<close>

definition format_device :: "fs \<Rightarrow> int \<Rightarrow> fs res" where
  "format_device s max_blocks =
    bnd (testfs_make_super_block s max_blocks) (\<lambda>s1.
    bnd (testfs_make_inode_freemap s1) (\<lambda>s2.
    bnd (testfs_make_block_freemap s2) (\<lambda>s3.
    bnd (testfs_make_inode_blocks s3) (\<lambda>s4.
    bnd (testfs_close_super_block s4) (\<lambda>s5.
    bnd (testfs_init_super_block None s5) (\<lambda>(ret, s6).
    if ret \<noteq> 0 then Crash (Exit_Error ''testfs_init_super_block'') else Ret s6))))))"

section \<open>The invariant\<close>

definition ibm :: "fs \<Rightarrow> bitmap" where
  "ibm s = the (inode_freemap s)"

definition bbm :: "fs \<Rightarrow> bitmap" where
  "bbm s = the (block_freemap s)"

text \<open>The geometry \<^verbatim>\<open>testfs_make_super_block\<close> chooses.\<close>

definition layout_ok :: "dsuper_block \<Rightarrow> bool" where
  "layout_ok d \<longleftrightarrow> inode_freemap_start d = 1 \<and> block_freemap_start d = 2 \<and>
     inode_blocks_start d = 18 \<and> data_blocks_start d = 146 \<and>
     0 \<le> max_fs_blocks d \<and> max_fs_blocks d \<le> 1048576"

text \<open>The first \<^verbatim>\<open>n\<close> blocks from block \<^verbatim>\<open>st\<close> of the device hold the words \<^verbatim>\<open>w\<close>.\<close>

definition fm_on_disk :: "mem \<Rightarrow> nat \<Rightarrow> nat \<Rightarrow> mem \<Rightarrow> bool" where
  "fm_on_disk d st n w \<longleftrightarrow> (\<forall>i < n * 8192. d (st * 8192 + i) = w i)"

definition freemaps_ok :: "fs \<Rightarrow> bool" where
  "freemaps_ok s \<longleftrightarrow> inode_freemap s \<noteq> None \<and> block_freemap s \<noteq> None \<and>
     bitmap_inv (ibm s) \<and> bitmap_inv (bbm s) \<and> nbits (ibm s) = 65536 \<and> nbits (bbm s) = 1048576"

definition counts_ok :: "fs \<Rightarrow> bool" where
  "counts_ok s \<longleftrightarrow> used_inode_count (sb s) = int (card (used (ibm s))) \<and>
     used_block_count (sb s) = int (card (used (bbm s)))"

definition disk_ok :: "fs \<Rightarrow> bool" where
  "disk_ok s \<longleftrightarrow> dio (dev s) \<and> 146 * 8192 \<le> dlen (dev s) \<and> dsuper_of_bytes (dbytes (dev s)) = sb s \<and>
     fm_on_disk (dbytes (dev s)) 1 1 (v (ibm s)) \<and> fm_on_disk (dbytes (dev s)) 2 16 (v (bbm s))"

definition sb_inv :: "fs \<Rightarrow> bool" where
  "sb_inv s \<longleftrightarrow> layout_ok (sb s) \<and> freemaps_ok s \<and> counts_ok s \<and> disk_ok s"

text \<open>Physical block numbers in use, the bytes of a block, and agreement outside a set of blocks.\<close>

definition ublocks :: "fs \<Rightarrow> int set" where
  "ublocks s = (\<lambda>i. 146 + int i) ` used (bbm s)"

definition dblock :: "fs \<Rightarrow> int \<Rightarrow> mem" where
  "dblock s p = (\<lambda>i. dbytes (dev s) (nat p * 8192 + i))"

definition blk_eq :: "fs \<Rightarrow> fs \<Rightarrow> int set \<Rightarrow> bool" where
  "blk_eq s s' X \<longleftrightarrow> (\<forall>p i. 18 \<le> p \<longrightarrow> p \<notin> X \<longrightarrow> i < 8192 \<longrightarrow> dblock s' p i = dblock s p i)"

text \<open>Everything the super block operations leave alone.\<close>

definition mem_eq :: "fs \<Rightarrow> fs \<Rightarrow> bool" where
  "mem_eq s s' \<longleftrightarrow> hash_tbl s' = hash_tbl s \<and> iheap s' = iheap s \<and> malloc_ok s' = malloc_ok s \<and>
     malloc_n s' = malloc_n s \<and> sout s' = sout s"

lemmas sb_inv_defs = sb_inv_def layout_ok_def freemaps_ok_def counts_ok_def disk_ok_def

lemma blk_eq_refl [simp]: "blk_eq s s X"
  by (simp add: blk_eq_def)

lemma blk_eq_mono: "blk_eq s s' X \<Longrightarrow> X \<subseteq> Y \<Longrightarrow> blk_eq s s' Y"
  by (auto simp: blk_eq_def)

lemma blk_eq_trans: "blk_eq s s' X \<Longrightarrow> blk_eq s' s'' Y \<Longrightarrow> X \<subseteq> Z \<Longrightarrow> Y \<subseteq> Z \<Longrightarrow> blk_eq s s'' Z"
  by (drule (1) blk_eq_mono, drule (1) blk_eq_mono) (simp add: blk_eq_def)

lemma blk_eqD: "blk_eq s s' X \<Longrightarrow> 18 \<le> p \<Longrightarrow> p \<notin> X \<Longrightarrow> i < 8192 \<Longrightarrow> dblock s' p i = dblock s p i"
  by (simp add: blk_eq_def)

lemma mem_eq_refl [simp]: "mem_eq s s"
  by (simp add: mem_eq_def)

lemma mem_eq_trans: "mem_eq s s' \<Longrightarrow> mem_eq s' s'' \<Longrightarrow> mem_eq s s''"
  by (simp add: mem_eq_def)

lemma ublocks_bounds: "sb_inv s \<Longrightarrow> p \<in> ublocks s \<Longrightarrow> 146 \<le> p \<and> p < 1048722"
  by (auto simp: ublocks_def sb_inv_defs dest: used_bound)

lemma finite_ublocks [simp]: "finite (ublocks s)"
  by (simp add: ublocks_def)

lemma card_ublocks: "card (ublocks s) = card (used (bbm s))"
  by (simp add: ublocks_def card_image inj_on_def)

lemma ublocks_iff: "146 \<le> p \<Longrightarrow> p \<in> ublocks s \<longleftrightarrow> nat (p - 146) \<in> used (bbm s)"
  by (auto simp: ublocks_def intro!: image_eqI [of p _ "nat (p - 146)"])

section \<open>Writing the super block and a freemap block\<close>

lemma dsuper_of_bytes_cong:
  assumes "\<And>i. i < 32 \<Longrightarrow> m i = m' i"
  shows "dsuper_of_bytes m = dsuper_of_bytes m'"
proof -
  have "get_u32 m off = get_u32 m' off" if "off + 4 \<le> 32" for off
    using that assms by (intro get_32_cong) auto
  moreover have "get_u64 m 24 = get_u64 m' 24"
    using assms by (intro get_64_cong) auto
  ultimately show ?thesis by (simp add: dsuper_of_bytes_def)
qed

definition synced :: "fs \<Rightarrow> fs" where
  "synced s = s\<lparr>dev := \<lparr>dbytes = memcpy (dbytes (dev s)) 0
      (memcpy zero_mem 0 (dsuper_bytes (sb s)) 0 32) 0 8192, dlen = max (dlen (dev s)) 8192, dio = True\<rparr>\<rparr>"

lemma write_super_synced: "dio (dev s) \<Longrightarrow> testfs_write_super_block s = Ret (synced s)"
  by (simp add: testfs_write_super_block_def write_blocks_def synced_def Let_def)

lemma synced_simps [simp]:
  "sb (synced s) = sb s" "inode_freemap (synced s) = inode_freemap s"
  "block_freemap (synced s) = block_freemap s" "hash_tbl (synced s) = hash_tbl s"
  "iheap (synced s) = iheap s" "malloc_ok (synced s) = malloc_ok s"
  "malloc_n (synced s) = malloc_n s" "sout (synced s) = sout s"
  "ibm (synced s) = ibm s" "bbm (synced s) = bbm s"
  "dlen (dev (synced s)) = max (dlen (dev s)) 8192"
  by (simp_all add: synced_def ibm_def bbm_def)

lemma synced_bytes: "8192 \<le> i \<Longrightarrow> dbytes (dev (synced s)) i = dbytes (dev s) i"
  by (simp add: synced_def)

lemma synced_super: "wf_dsuper (sb s) \<Longrightarrow> dsuper_of_bytes (dbytes (dev (synced s))) = sb s"
  using dsuper_of_bytes_cong [of "dbytes (dev (synced s))" "dsuper_bytes (sb s)"] dsuper_roundtrip [of "sb s"]
  by (simp add: synced_def)

lemma fm_on_disk_cong:
  "fm_on_disk d st n w \<Longrightarrow> (\<And>i. st * 8192 \<le> i \<Longrightarrow> i < (st + n) * 8192 \<Longrightarrow> d' i = d i) \<Longrightarrow> fm_on_disk d' st n w"
  by (simp add: fm_on_disk_def algebra_simps)

lemma fm_on_diskD:
  "fm_on_disk d st n w \<Longrightarrow> st * 8192 \<le> i \<Longrightarrow> i < (st + n) * 8192 \<Longrightarrow> w (i - st * 8192) = d i"
  by (simp add: fm_on_disk_def) (metis add.commute le_add_diff_inverse2 less_diff_conv2)

text \<open>Rewriting the freemap block of a changed word brings the disk up to date.\<close>

lemma fm_on_disk_write:
  assumes "fm_on_disk d st n w" and chg: "\<And>k. k \<noteq> x \<Longrightarrow> w' k = w k"
  shows "fm_on_disk (memcpy d ((st + x div 8192) * 8192) (\<lambda>i. w' (x div 8192 * 8192 + i)) 0 8192) st n w'"
  unfolding fm_on_disk_def
proof (intro allI impI)
  fix i assume i: "i < n * 8192"
  show "memcpy d ((st + x div 8192) * 8192) (\<lambda>i. w' (x div 8192 * 8192 + i)) 0 8192 (st * 8192 + i) = w' i"
  proof (cases "i div 8192 = x div 8192")
    case True
    then have "x div 8192 * 8192 \<le> i" "i < x div 8192 * 8192 + 8192"
      using div_mult_mod_eq [of i 8192] mod_less_divisor [of 8192 i] by linarith+
    then show ?thesis
      by (simp add: memcpy_def algebra_simps)
  next
    case False
    then have "i < x div 8192 * 8192 \<or> x div 8192 * 8192 + 8192 \<le> i"
      by (metis div_nat_eqI less_mult_imp_div_less linorder_not_le mult.commute mult_Suc_right add.commute)
    moreover have "w' i = w i" using False chg by metis
    ultimately show ?thesis
      using assms(1) i by (auto simp: memcpy_def fm_on_disk_def algebra_simps)
  qed
qed

lemma wf_dsuper_counts:
  assumes "layout_ok d" "0 \<le> used_inode_count d" "used_inode_count d \<le> 65536"
    "0 \<le> used_block_count d" "used_block_count d \<le> 1048576"
  shows "wf_dsuper d"
  using assms by (auto simp: layout_ok_def wf_dsuper_def)

lemma card_used_le: "bitmap_inv b \<Longrightarrow> card (used b) \<le> nbits b"
  using card_mono [OF _ bm.in_use_bound [of b]] by simp

section \<open>Changing one bit of a freemap\<close>

text \<open>
  The state after a bit of the block freemap (the inode freemap) has changed, its block has been
  written, the counter has been set and the super block has been written.
\<close>

definition block_bm_state :: "fs \<Rightarrow> bitmap \<Rightarrow> nat \<Rightarrow> fs" where
  "block_bm_state s b idx =
    (let nr = idx div 65536 in
     s\<lparr>block_freemap := Some b,
       dev := \<lparr>dbytes = memcpy (dbytes (dev s)) ((2 + nr) * 8192) (\<lambda>i. v b (nr * 8192 + i)) 0 8192,
               dlen = max (dlen (dev s)) ((2 + nr) * 8192 + 8192), dio = True\<rparr>\<rparr>)"

definition inode_bm_state :: "fs \<Rightarrow> bitmap \<Rightarrow> fs" where
  "inode_bm_state s b =
     s\<lparr>inode_freemap := Some b,
       dev := \<lparr>dbytes = memcpy (dbytes (dev s)) 8192 (v b) 0 8192,
               dlen = max (dlen (dev s)) 16384, dio = True\<rparr>\<rparr>"

lemma bm_state_dio [simp]: "dio (dev (synced s))" "dio (dev (block_bm_state s b idx))" "dio (dev (inode_bm_state s b))"
  by (simp_all add: synced_def block_bm_state_def inode_bm_state_def Let_def)

definition set_block_count :: "fs \<Rightarrow> int \<Rightarrow> fs" where
  "set_block_count s n = synced (s\<lparr>sb := (sb s)\<lparr>used_block_count := n\<rparr>\<rparr>)"

definition set_inode_count :: "fs \<Rightarrow> int \<Rightarrow> fs" where
  "set_inode_count s n = synced (s\<lparr>sb := (sb s)\<lparr>used_inode_count := n\<rparr>\<rparr>)"

lemma set_count_dio [simp]: "dio (dev (set_block_count s n))" "dio (dev (set_inode_count s n))"
  by (simp_all add: set_block_count_def set_inode_count_def)

lemma write_block_freemap_eq:
  assumes "dio (dev s)" "layout_ok (sb s)" "nbits b = 1048576" "idx < 1048576"
  shows "testfs_write_block_freemap (s\<lparr>block_freemap := Some b\<rparr>) (int idx) = Ret (block_bm_state s b idx)"
proof -
  have nr: "c_div (int idx) 65536 = int (idx div 65536)"
    by (simp add: zdiv_int)
  have lt: "idx div 65536 < 16" using assms(4) by (simp add: less_mult_imp_div_less)
  have "(2 + idx div 65536) * 8192 + 8192 = nat (int 2 + int (idx div 65536)) * 8192 + 8192"
    by (simp add: nat_add_distrib)
  then show ?thesis
    using assms nr lt
    by (simp add: testfs_write_block_freemap_def write_freemap_block_def bitmap_words_def
        write_blocks_def block_bm_state_def layout_ok_def bitmap_getdata_def nat_add_distrib Let_def
        del: c_div_nonneg)
qed

lemma write_inode_freemap_eq:
  assumes "dio (dev s)" "layout_ok (sb s)" "nbits b = 65536" "idx < 65536"
  shows "testfs_write_inode_freemap (s\<lparr>inode_freemap := Some b\<rparr>) (int idx) = Ret (inode_bm_state s b)"
proof -
  have "c_div (int idx) 65536 = 0" using assms(4) by simp
  then show ?thesis
    using assms
    by (simp add: testfs_write_inode_freemap_def write_freemap_block_def bitmap_words_def
        write_blocks_def inode_bm_state_def layout_ok_def bitmap_getdata_def Let_def del: c_div_nonneg)
qed

lemma blk_eq_low: "(\<And>i. 18 * 8192 \<le> i \<Longrightarrow> dbytes (dev s') i = dbytes (dev s) i) \<Longrightarrow> blk_eq s s' {}"
proof -
  assume eq: "\<And>i. 18 * 8192 \<le> i \<Longrightarrow> dbytes (dev s') i = dbytes (dev s) i"
  have "18 * 8192 \<le> nat p * 8192 + i" if "18 \<le> p" for p and i :: nat
    using that by (intro trans_le_add1 mult_le_mono1) simp
  then show ?thesis by (simp add: blk_eq_def dblock_def eq)
qed

lemma div_65536: "idx div 65536 = idx div 8 div (8192 :: nat)"
  by (simp add: div_mult2_eq [symmetric])

lemma block_bm_bytes:
  assumes "idx < 1048576"
  shows "18 * 8192 \<le> i \<Longrightarrow> dbytes (dev (block_bm_state s b idx)) i = dbytes (dev s) i"
    and "i < 16384 \<Longrightarrow> dbytes (dev (block_bm_state s b idx)) i = dbytes (dev s) i"
    and "146 * 8192 \<le> dlen (dev s) \<Longrightarrow> dlen (dev (block_bm_state s b idx)) = dlen (dev s)"
proof -
  have nr: "idx div 65536 \<le> 15" using assms by (simp add: less_mult_imp_div_less flip: less_Suc_eq_le)
  then have le: "(2 + idx div 65536) * 8192 + 8192 \<le> 18 * 8192" by simp
  show "dbytes (dev (block_bm_state s b idx)) i = dbytes (dev s) i" if "18 * 8192 \<le> i"
    using le that by (simp add: block_bm_state_def Let_def)
  show "dbytes (dev (block_bm_state s b idx)) i = dbytes (dev s) i" if "i < 16384"
    using that by (simp add: block_bm_state_def Let_def memcpy_def)
  show "dlen (dev (block_bm_state s b idx)) = dlen (dev s)" if "146 * 8192 \<le> dlen (dev s)"
    using le that by (simp add: block_bm_state_def Let_def max_def)
qed

lemma block_bm_fm:
  assumes "fm_on_disk (dbytes (dev s)) 2 16 (v (bbm s))" "\<And>k. k \<noteq> idx div 8 \<Longrightarrow> v b k = v (bbm s) k"
  shows "fm_on_disk (dbytes (dev (block_bm_state s b idx))) 2 16 (v b)"
  using fm_on_disk_write [OF assms(1), of "idx div 8" "v b"] assms(2)
  by (simp add: block_bm_state_def Let_def div_65536)

lemma inode_bm_fm: "fm_on_disk (dbytes (dev (inode_bm_state s b))) 1 1 (v b)"
  by (simp add: inode_bm_state_def fm_on_disk_def)

lemma inode_bm_bytes:
  "16384 \<le> i \<or> i < 8192 \<Longrightarrow> dbytes (dev (inode_bm_state s b)) i = dbytes (dev s) i"
  "16384 \<le> dlen (dev s) \<Longrightarrow> dlen (dev (inode_bm_state s b)) = dlen (dev s)"
  by (auto simp: inode_bm_state_def)

lemma bm_state_simps [simp]:
  "sb (block_bm_state s b idx) = sb s" "bbm (block_bm_state s b idx) = b"
  "ibm (block_bm_state s b idx) = ibm s" "inode_freemap (block_bm_state s b idx) = inode_freemap s"
  "block_freemap (block_bm_state s b idx) = Some b"
  "sb (inode_bm_state s b) = sb s" "ibm (inode_bm_state s b) = b" "bbm (inode_bm_state s b) = bbm s"
  "block_freemap (inode_bm_state s b) = block_freemap s" "inode_freemap (inode_bm_state s b) = Some b"
  by (simp_all add: block_bm_state_def inode_bm_state_def Let_def ibm_def bbm_def)

lemma mem_eq_bm_state [simp]: "mem_eq s (block_bm_state s b idx)" "mem_eq s (inode_bm_state s b)"
  by (simp_all add: mem_eq_def block_bm_state_def inode_bm_state_def Let_def)

lemma set_count_simps [simp]:
  "bbm (set_block_count s n) = bbm s" "ibm (set_block_count s n) = ibm s"
  "sb (set_block_count s n) = (sb s)\<lparr>used_block_count := n\<rparr>" "mem_eq s (set_block_count s n)"
  "inode_freemap (set_block_count s n) = inode_freemap s"
  "block_freemap (set_block_count s n) = block_freemap s"
  "bbm (set_inode_count s n) = bbm s" "ibm (set_inode_count s n) = ibm s"
  "sb (set_inode_count s n) = (sb s)\<lparr>used_inode_count := n\<rparr>" "mem_eq s (set_inode_count s n)"
  "inode_freemap (set_inode_count s n) = inode_freemap s"
  "block_freemap (set_inode_count s n) = block_freemap s"
  "8192 \<le> dlen (dev s) \<Longrightarrow> dlen (dev (set_block_count s n)) = dlen (dev s)"
  "8192 \<le> dlen (dev s) \<Longrightarrow> dlen (dev (set_inode_count s n)) = dlen (dev s)"
  by (simp_all add: set_block_count_def set_inode_count_def ibm_def bbm_def mem_eq_def)

lemma set_count_bytes:
  "8192 \<le> i \<Longrightarrow> dbytes (dev (set_block_count s n)) i = dbytes (dev s) i"
  "8192 \<le> i \<Longrightarrow> dbytes (dev (set_inode_count s n)) i = dbytes (dev s) i"
  by (simp_all add: set_block_count_def set_inode_count_def synced_bytes)

lemma set_count_super:
  "wf_dsuper ((sb s)\<lparr>used_block_count := n\<rparr>) \<Longrightarrow>
     dsuper_of_bytes (dbytes (dev (set_block_count s n))) = (sb s)\<lparr>used_block_count := n\<rparr>"
  "wf_dsuper ((sb s)\<lparr>used_inode_count := n\<rparr>) \<Longrightarrow>
     dsuper_of_bytes (dbytes (dev (set_inode_count s n))) = (sb s)\<lparr>used_inode_count := n\<rparr>"
  using synced_super [of "s\<lparr>sb := (sb s)\<lparr>used_block_count := n\<rparr>\<rparr>"]
    synced_super [of "s\<lparr>sb := (sb s)\<lparr>used_inode_count := n\<rparr>\<rparr>"]
  by (simp_all add: set_block_count_def set_inode_count_def)

lemma sb_inv_counts:
  assumes "sb_inv s"
  shows "used_inode_count (sb s) \<le> 65536" "used_block_count (sb s) \<le> 1048576"
    "0 \<le> used_inode_count (sb s)" "0 \<le> used_block_count (sb s)"
  using assms card_used_le [of "ibm s"] card_used_le [of "bbm s"]
  by (auto simp: sb_inv_defs)

lemma sb_inv_fm:
  assumes "sb_inv s"
  shows "fm_on_disk (dbytes (dev s)) 1 1 (v (ibm s))" "fm_on_disk (dbytes (dev s)) 2 16 (v (bbm s))"
  using assms by (simp_all add: sb_inv_def disk_ok_def)

text \<open>The invariant survives a change of one bit, once the counter follows it.\<close>

lemma block_bit_changed:
  assumes inv: "sb_inv s" and b: "bitmap_inv b" "nbits b = 1048576" and idx: "idx < 1048576"
    and chg: "\<And>k. k \<noteq> idx div 8 \<Longrightarrow> v b k = v (bbm s) k"
  defines "s' \<equiv> set_block_count (block_bm_state s b idx) (int (card (used b)))"
  shows "sb_inv s'" and "blk_eq s s' {}" and "mem_eq s s'" and "bbm s' = b" and "ibm s' = ibm s"
    and "dlen (dev s') = dlen (dev s)"
proof -
  let ?t = "block_bm_state s b idx"
  note bytes = block_bm_bytes [OF idx]
  have d: "146 * 8192 \<le> dlen (dev s)" using inv by (simp add: sb_inv_defs)
  have dl: "dlen (dev ?t) = dlen (dev s)" using bytes(3) d by simp
  show "dlen (dev s') = dlen (dev s)" using dl d by (simp add: s'_def)
  have wf: "wf_dsuper ((sb s)\<lparr>used_block_count := int (card (used b))\<rparr>)"
    using inv b card_used_le [OF b(1)] sb_inv_counts [OF inv]
    by (intro wf_dsuper_counts) (simp_all add: sb_inv_defs)
  have fm1: "fm_on_disk (dbytes (dev s')) 1 1 (v (ibm s))"
    by (rule fm_on_disk_cong [OF sb_inv_fm(1) [OF inv]]) (simp add: s'_def set_count_bytes bytes(2))
  have "fm_on_disk (dbytes (dev ?t)) 2 16 (v b)"
    by (rule block_bm_fm [OF sb_inv_fm(2) [OF inv] chg])
  then have fm2: "fm_on_disk (dbytes (dev s')) 2 16 (v b)"
    by (rule fm_on_disk_cong) (simp add: s'_def set_count_bytes)
  have super: "dsuper_of_bytes (dbytes (dev s')) = sb s'"
    using wf by (simp add: s'_def set_count_super)
  have "layout_ok (sb s')" "freemaps_ok s'" "counts_ok s'"
    using inv b by (simp_all add: s'_def sb_inv_def layout_ok_def freemaps_ok_def counts_ok_def)
  moreover have "disk_ok s'"
    unfolding disk_ok_def using super fm1 fm2 d dl by (simp add: s'_def)
  ultimately show "sb_inv s'" by (simp add: sb_inv_def)
  show "blk_eq s s' {}" using bytes(1) by (intro blk_eq_low) (simp add: s'_def set_count_bytes)
  show "mem_eq s s'" unfolding s'_def by (rule mem_eq_trans [of _ "block_bm_state s b idx"]) simp_all
  show "bbm s' = b" "ibm s' = ibm s" by (simp_all add: s'_def)
qed

lemma inode_bit_changed:
  assumes inv: "sb_inv s" and b: "bitmap_inv b" "nbits b = 65536"
  defines "s' \<equiv> set_inode_count (inode_bm_state s b) (int (card (used b)))"
  shows "sb_inv s'" and "blk_eq s s' {}" and "mem_eq s s'" and "bbm s' = bbm s" and "ibm s' = b"
    and "dlen (dev s') = dlen (dev s)"
proof -
  let ?t = "inode_bm_state s b"
  have d: "146 * 8192 \<le> dlen (dev s)" using inv by (simp add: sb_inv_defs)
  have dl: "dlen (dev ?t) = dlen (dev s)" using d by (simp add: inode_bm_bytes)
  show "dlen (dev s') = dlen (dev s)" using dl d by (simp add: s'_def)
  have wf: "wf_dsuper ((sb s)\<lparr>used_inode_count := int (card (used b))\<rparr>)"
    using inv b card_used_le [OF b(1)] sb_inv_counts [OF inv]
    by (intro wf_dsuper_counts) (simp_all add: sb_inv_defs)
  have fm2: "fm_on_disk (dbytes (dev s')) 2 16 (v (bbm s))"
    by (rule fm_on_disk_cong [OF sb_inv_fm(2) [OF inv]]) (simp add: s'_def set_count_bytes inode_bm_bytes)
  have fm1: "fm_on_disk (dbytes (dev s')) 1 1 (v b)"
    by (rule fm_on_disk_cong [OF inode_bm_fm]) (simp add: s'_def set_count_bytes)
  have super: "dsuper_of_bytes (dbytes (dev s')) = sb s'"
    using wf by (simp add: s'_def set_count_super)
  have "layout_ok (sb s')" "freemaps_ok s'" "counts_ok s'"
    using inv b by (simp_all add: s'_def sb_inv_def layout_ok_def freemaps_ok_def counts_ok_def)
  moreover have "disk_ok s'"
    unfolding disk_ok_def using super fm1 fm2 d dl by (simp add: s'_def)
  ultimately show "sb_inv s'" by (simp add: sb_inv_def)
  show "blk_eq s s' {}"
    by (intro blk_eq_low) (simp add: s'_def set_count_bytes inode_bm_bytes)
  show "mem_eq s s'" unfolding s'_def by (rule mem_eq_trans [of _ "inode_bm_state s b"]) simp_all
  show "bbm s' = bbm s" "ibm s' = b" by (simp_all add: s'_def)
qed

lemma sb_inv_dio: "sb_inv s \<Longrightarrow> dio (dev s)"
  by (simp add: sb_inv_def disk_ok_def)

section \<open>Writing one block behind the freemaps\<close>

definition wrote :: "fs \<Rightarrow> int \<Rightarrow> mem \<Rightarrow> fs" where
  "wrote s p m = s\<lparr>dev := \<lparr>dbytes = memcpy (dbytes (dev s)) (nat p * 8192) m 0 8192,
      dlen = max (dlen (dev s)) (nat p * 8192 + 8192), dio = True\<rparr>\<rparr>"

lemma write_block_wrote: "dio (dev s) \<Longrightarrow> 0 \<le> p \<Longrightarrow> write_blocks s m p (Suc 0) = Ret (wrote s p m)"
  by (simp add: write_blocks_def wrote_def Let_def)

lemma wrote_simps [simp]:
  "sb (wrote s p m) = sb s" "inode_freemap (wrote s p m) = inode_freemap s"
  "block_freemap (wrote s p m) = block_freemap s" "ibm (wrote s p m) = ibm s"
  "bbm (wrote s p m) = bbm s" "ublocks (wrote s p m) = ublocks s" "mem_eq s (wrote s p m)"
  "hash_tbl (wrote s p m) = hash_tbl s" "iheap (wrote s p m) = iheap s"
  "dlen (dev (wrote s p m)) = max (dlen (dev s)) (nat p * 8192 + 8192)" "dio (dev (wrote s p m))"
  by (simp_all add: wrote_def ibm_def bbm_def ublocks_def mem_eq_def)

lemma wrote_dblock:
  assumes "0 \<le> p" "0 \<le> q" "i < 8192"
  shows "dblock (wrote s p m) q i = (if q = p then m i else dblock s q i)"
proof (cases "q = p")
  case False
  with assms have "nat q \<noteq> nat p" by simp
  then have "nat q * 8192 + 8192 \<le> nat p * 8192 \<or> nat p * 8192 + 8192 \<le> nat q * 8192"
    by (metis Suc_leI add.commute linorder_neqE_nat mult_Suc mult_le_mono1)
  with assms False show ?thesis by (auto simp: dblock_def wrote_def)
qed (use assms in \<open>simp add: dblock_def wrote_def\<close>)

lemma wrote_blk_eq: "0 \<le> p \<Longrightarrow> blk_eq s (wrote s p m) {p}"
  by (simp add: blk_eq_def wrote_dblock)

lemma sb_inv_wrote:
  assumes inv: "sb_inv s" and p: "18 \<le> p"
  shows "sb_inv (wrote s p m)"
proof -
  have le: "18 * 8192 \<le> nat p * 8192" using p by (intro mult_le_mono1) simp
  have b: "dbytes (dev (wrote s p m)) i = dbytes (dev s) i" if "i < 18 * 8192" for i
    using that le by (simp add: wrote_def)
  have "dsuper_of_bytes (dbytes (dev (wrote s p m))) = dsuper_of_bytes (dbytes (dev s))"
    by (rule dsuper_of_bytes_cong) (simp add: b)
  moreover have "fm_on_disk (dbytes (dev (wrote s p m))) 1 1 (v (ibm s))"
    by (rule fm_on_disk_cong [OF sb_inv_fm(1) [OF inv]]) (simp add: b)
  moreover have "fm_on_disk (dbytes (dev (wrote s p m))) 2 16 (v (bbm s))"
    by (rule fm_on_disk_cong [OF sb_inv_fm(2) [OF inv]]) (simp add: b)
  ultimately have "disk_ok (wrote s p m)"
    using inv by (auto simp: sb_inv_def disk_ok_def)
  then show ?thesis
    using inv by (simp add: sb_inv_def freemaps_ok_def counts_ok_def)
qed

section \<open>Allocating and freeing blocks\<close>

text \<open>What a successful allocation of block \<^verbatim>\<open>p\<close> and its release leave behind.\<close>

definition block_allocated :: "fs \<Rightarrow> int \<Rightarrow> fs \<Rightarrow> bool" where
  "block_allocated s p s' \<longleftrightarrow> 146 \<le> p \<and> p < 1048722 \<and> p \<notin> ublocks s \<and>
     ublocks s' = insert p (ublocks s) \<and> sb_inv s' \<and> blk_eq s s' {} \<and> mem_eq s s' \<and>
     ibm s' = ibm s \<and> dlen (dev s') = dlen (dev s) \<and> max_fs_blocks (sb s') = max_fs_blocks (sb s)"

definition block_freed :: "fs \<Rightarrow> int \<Rightarrow> fs \<Rightarrow> bool" where
  "block_freed s p s' \<longleftrightarrow> ublocks s' = ublocks s - {p} \<and> (\<forall>i<8192. dblock s' p i = 0) \<and>
     sb_inv s' \<and> blk_eq s s' {p} \<and> mem_eq s s' \<and> ibm s' = ibm s \<and>
     dlen (dev s') = max (dlen (dev s)) (nat p * 8192 + 8192) \<and>
     max_fs_blocks (sb s') = max_fs_blocks (sb s)"

lemma ublocks_block_state:
  "bbm s' = b \<Longrightarrow> ublocks s' = (\<lambda>i. 146 + int i) ` used b"
  by (simp add: ublocks_def)

lemma get_block_freemap_cases:
  assumes inv: "sb_inv s"
  shows "(testfs_get_block_freemap s = Ret (- ENOSPC, s) \<and> card (used (bbm s)) = 1048576) \<or>
    (\<exists>i b. testfs_get_block_freemap s = Ret (int i, block_bm_state s b i) \<and>
       bitmap_alloc (bbm s) = Ret (Inr (i, b)) \<and> i < 1048576 \<and> i \<notin> used (bbm s) \<and>
       used b = insert i (used (bbm s)) \<and> nbits b = 1048576 \<and> bitmap_inv b)"
proof -
  have b: "block_freemap s = Some (bbm s)" "bitmap_inv (bbm s)" "nbits (bbm s) = 1048576"
    and lay: "layout_ok (sb s)"
    using inv by (auto simp: sb_inv_def freemaps_ok_def bbm_def)
  show ?thesis
  proof (cases "bm_alloc (bbm s)")
    case None
    with bm_alloc_post [OF b(2)] b show ?thesis
      by (simp add: testfs_get_block_freemap_def)
  next
    case (Some ib)
    obtain i b' where ib: "ib = (i, b')" by force
    with Some bm_alloc_post [OF b(2)] b
    have post: "bitmap_alloc (bbm s) = Ret (Inr (i, b'))" "i < 1048576" "i \<notin> used (bbm s)"
      "used b' = insert i (used (bbm s))" "nbits b' = 1048576" "bitmap_inv b'" by auto
    with write_block_freemap_eq [OF sb_inv_dio [OF inv] lay post(5,2)] b show ?thesis
      by (simp add: testfs_get_block_freemap_def)
  qed
qed

lemma alloc_block_cases:
  assumes inv: "sb_inv s"
  shows "(testfs_alloc_block s = Ret (- ENOSPC, s) \<and> max_fs_blocks (sb s) \<le> int (card (ublocks s))) \<or>
    (\<exists>p s'. testfs_alloc_block s = Ret (p, s') \<and> block_allocated s p s' \<and>
       int (card (ublocks s)) < max_fs_blocks (sb s))"
proof (cases "max_fs_blocks (sb s) \<le> used_block_count (sb s)")
  case True
  then show ?thesis
    using inv by (simp add: testfs_alloc_block_def card_ublocks sb_inv_def counts_ok_def)
next
  case False
  have cnt: "used_block_count (sb s) = int (card (used (bbm s)))" and lay: "layout_ok (sb s)"
    using inv by (simp_all add: sb_inv_def counts_ok_def)
  with False have "card (used (bbm s)) \<noteq> 1048576" by (simp add: layout_ok_def)
  with get_block_freemap_cases [OF inv] obtain i b where
    get: "testfs_get_block_freemap s = Ret (int i, block_bm_state s b i)"
    and al: "bitmap_alloc (bbm s) = Ret (Inr (i, b))"
    and i: "i < 1048576" "i \<notin> used (bbm s)"
    and b: "used b = insert i (used (bbm s))" "nbits b = 1048576" "bitmap_inv b"
    by auto
  let ?s' = "set_block_count (block_bm_state s b i) (int (card (used b)))"
  note chg = block_bit_changed [OF inv b(3,2) i(1) bitmap_alloc_word [OF al]]
  have "card (used b) \<le> 1048576" using card_used_le [OF b(3)] b(2) by simp
  then have "to_u32 (used_block_count (sb s) + 1) = int (card (used b))"
    using b i cnt by (simp add: add.commute)
  moreover have "to_s32 (to_u32 (data_blocks_start (sb s) + int i)) = 146 + int i"
    using lay i by (simp add: layout_ok_def)
  ultimately have "testfs_alloc_block s = Ret (146 + int i, ?s')"
    using False get by (simp add: testfs_alloc_block_def write_super_synced set_block_count_def)
  moreover have "block_allocated s (146 + int i) ?s'"
    using chg b i by (auto simp: block_allocated_def ublocks_def)
  ultimately show ?thesis
    using False cnt by (auto simp: card_ublocks)
qed

lemma free_block_ok:
  assumes inv: "sb_inv s" and p: "p \<in> ublocks s"
  shows "\<exists>s'. testfs_free_block s p = Ret (0, s') \<and> block_freed s p s'"
proof -
  define i where "i = nat (p - 146)"
  have i: "p = 146 + int i" "i \<in> used (bbm s)" "i < 1048576"
    using p ublocks_bounds [OF inv p] ublocks_iff [of p s] by (auto simp: i_def)
  define s1 where "s1 = wrote s p zero_mem"
  have inv1: "sb_inv s1" unfolding s1_def using i by (intro sb_inv_wrote [OF inv]) simp
  have bb: "block_freemap s1 = Some (bbm s)" "bbm s1 = bbm s" "nbits (bbm s) = 1048576"
    "bitmap_inv (bbm s)" and lay: "layout_ok (sb s1)"
    and cnt: "used_block_count (sb s1) = int (card (used (bbm s)))"
    using inv by (auto simp: s1_def sb_inv_def freemaps_ok_def counts_ok_def bbm_def)
  obtain b where un: "bitmap_unmark (bbm s) i = Ret b"
    using i by (simp add: bitmap_unmark_eq)
  note b = bitmap_unmark_Ret [OF un]
  have b': "nbits b = 1048576" "bitmap_inv b" using b bb by auto
  have w: "bitmap_unmark (bbm s) i = Ret b \<Longrightarrow> k \<noteq> i div 8 \<Longrightarrow> v b k = v (bbm s1) k" for k
    using bitmap_unmark_word [of "bbm s" i b k] bb(2) by simp
  let ?s' = "set_block_count (block_bm_state s1 b i) (int (card (used b)))"
  note chg = block_bit_changed [OF inv1 b'(2,1) i(3) w [OF un]]
  have card: "Suc (card (used b)) = card (used (bbm s))"
    using b(1,3) card_Suc_Diff1 [of "used (bbm s)" i] by simp
  have "card (used (bbm s)) \<le> 1048576" using card_used_le [OF bb(4)] bb(3) by simp
  then have "to_u32 (used_block_count (sb s1) - 1) = int (card (used b))"
    using cnt card by (subst to_u32_id) auto
  moreover have "to_s32 (to_u32 (p - data_blocks_start (sb s1))) = int i"
    using lay i by (simp add: layout_ok_def)
  moreover have "testfs_put_block_freemap s1 (int i) = Ret (block_bm_state s1 b i)"
    using bb un i write_block_freemap_eq [OF sb_inv_dio [OF inv1] lay b'(1) i(3)] by (simp add: testfs_put_block_freemap_def)
  moreover have "zero_blocks s p 1 = Ret s1"
    using write_block_wrote [OF sb_inv_dio [OF inv], of p zero_mem] i by (simp add: zero_blocks_1 s1_def)
  ultimately have "testfs_free_block s p = Ret (0, ?s')"
    using cnt card by (simp add: testfs_free_block_def write_super_synced set_block_count_def)
  moreover have "block_freed s p ?s'"
  proof -
    have "ublocks ?s' = ublocks s - {p}"
      unfolding ublocks_def by (simp add: b(3) i(1) image_set_diff inj_def)
    moreover have "\<forall>k<8192. dblock ?s' p k = 0"
      using chg(2) i by (auto simp: blk_eq_def s1_def wrote_dblock)
    moreover have "blk_eq s ?s' {p}"
      using wrote_blk_eq [of p s zero_mem] chg(2) i by (auto simp: s1_def intro: blk_eq_trans)
    moreover have "mem_eq s ?s'"
      using wrote_simps(7) [of s p zero_mem, folded s1_def] chg(3) by (rule mem_eq_trans)
    ultimately show ?thesis
      using chg by (simp add: block_freed_def s1_def)
  qed
  ultimately show ?thesis by blast
qed

lemma free_block_unused:
  assumes inv: "sb_inv s" and p: "146 \<le> p" "p < 2147483648" "p \<notin> ublocks s"
  shows "testfs_free_block s p = Crash Assert_Fail"
proof -
  define s1 where "s1 = wrote s p zero_mem"
  have z: "zero_blocks s p (Suc 0) = Ret s1"
    using write_block_wrote [OF sb_inv_dio [OF inv], of p zero_mem] p by (simp add: zero_blocks_1 s1_def)
  have lay: "data_blocks_start (sb s1) = 146" and bb: "block_freemap s1 = Some (bbm s)"
    using inv by (auto simp: s1_def sb_inv_def layout_ok_def freemaps_ok_def bbm_def)
  have "nat (p - 146) \<notin> used (bbm s)" using p ublocks_iff [of p s] by simp
  then have "testfs_put_block_freemap s1 (p - 146) = Crash Assert_Fail"
    using p bb by (simp add: testfs_put_block_freemap_def bitmap_unmark_eq)
  then show ?thesis
    using z lay p by (simp add: testfs_free_block_def)
qed

section \<open>Inode numbers\<close>

lemma get_inode_freemap_cases:
  assumes inv: "sb_inv s"
  shows "(testfs_get_inode_freemap s = Ret (- ENOSPC, s) \<and> used (ibm s) = {0..<65536}) \<or>
    (\<exists>i s'. testfs_get_inode_freemap s = Ret (int i, s') \<and> i < 65536 \<and> i \<notin> used (ibm s) \<and>
       used (ibm s') = insert i (used (ibm s)) \<and> sb_inv s' \<and> blk_eq s s' {} \<and> mem_eq s s' \<and>
       bbm s' = bbm s \<and> dlen (dev s') = dlen (dev s) \<and> max_fs_blocks (sb s') = max_fs_blocks (sb s) \<and>
       {0..<i} \<subseteq> used (ibm s))"
proof -
  have b: "inode_freemap s = Some (ibm s)" "bitmap_inv (ibm s)" "nbits (ibm s) = 65536"
    and lay: "layout_ok (sb s)" and cnt: "used_inode_count (sb s) = int (card (used (ibm s)))"
    using inv by (auto simp: sb_inv_def freemaps_ok_def counts_ok_def ibm_def)
  show ?thesis
  proof (cases "bm_alloc (ibm s)")
    case None
    with bm_alloc_post [OF b(2)] b show ?thesis
      by (simp add: testfs_get_inode_freemap_def)
  next
    case (Some ib)
    obtain i b' where ib: "ib = (i, b')" by force
    with Some bm_alloc_post [OF b(2)] b
    have post: "bitmap_alloc (ibm s) = Ret (Inr (i, b'))" "i < 65536" "i \<notin> used (ibm s)"
      "used b' = insert i (used (ibm s))" "nbits b' = 65536" "bitmap_inv b'" "{0..<i} \<subseteq> used (ibm s)" by auto
    note chg = inode_bit_changed [OF inv post(6,5)]
    have "card (used b') \<le> 65536" using card_used_le [OF post(6)] post(5) by simp
    then have "to_u32 (used_inode_count (sb s) + 1) = int (card (used b'))"
      using post cnt by (simp add: add.commute)
    with write_inode_freemap_eq [OF sb_inv_dio [OF inv] lay post(5,2)] b post chg show ?thesis
      by (simp add: testfs_get_inode_freemap_def write_super_synced set_inode_count_def)
  qed
qed

lemma put_inode_freemap_ok:
  assumes inv: "sb_inv s" and i: "i \<in> used (ibm s)"
  shows "\<exists>s'. testfs_put_inode_freemap s (int i) = Ret s' \<and> used (ibm s') = used (ibm s) - {i} \<and>
    sb_inv s' \<and> blk_eq s s' {} \<and> mem_eq s s' \<and> bbm s' = bbm s \<and> dlen (dev s') = dlen (dev s) \<and>
    max_fs_blocks (sb s') = max_fs_blocks (sb s)"
proof -
  have b: "inode_freemap s = Some (ibm s)" "bitmap_inv (ibm s)" "nbits (ibm s) = 65536"
    and lay: "layout_ok (sb s)" and cnt: "used_inode_count (sb s) = int (card (used (ibm s)))"
    using inv by (auto simp: sb_inv_def freemaps_ok_def counts_ok_def ibm_def)
  have lt: "i < 65536" using used_bound [OF i] b by simp
  obtain b' where un: "bitmap_unmark (ibm s) i = Ret b'"
    using i by (simp add: bitmap_unmark_eq)
  note ub = bitmap_unmark_Ret [OF un]
  have b': "nbits b' = 65536" "bitmap_inv b'" using ub b by auto
  note chg = inode_bit_changed [OF inv b'(2,1)]
  have card: "Suc (card (used b')) = card (used (ibm s))"
    using ub(1,3) card_Suc_Diff1 [of "used (ibm s)" i] by simp
  have "card (used (ibm s)) \<le> 65536" using card_used_le [OF b(2)] b(3) by simp
  then have u32: "to_u32 (used_inode_count (sb s) - 1) = int (card (used b'))"
    using cnt card by (subst to_u32_id) auto
  have pos: "0 < used_inode_count (sb s)" using cnt card by simp
  have "testfs_put_inode_freemap s (int i) =
      Ret (set_inode_count (inode_bm_state s b') (int (card (used b'))))"
    using write_inode_freemap_eq [OF sb_inv_dio [OF inv] lay b'(1) lt] b(1) un u32 pos lt
    by (simp add: testfs_put_inode_freemap_def write_super_synced set_inode_count_def)
  with chg ub(3) show ?thesis by simp
qed

section \<open>Formatting, closing and opening\<close>

lemma zero_blocks_from_ok:
  assumes "0 \<le> start" "i \<le> nr" "dio (dev s)"
  shows "\<exists>s'. zero_blocks_from s start nr i = Ret s' \<and>
    s' = s\<lparr>dev := dev s'\<rparr> \<and>
    (\<forall>k. dbytes (dev s') k = (if (nat start + i) * 8192 \<le> k \<and> k < (nat start + nr) * 8192 then 0 else dbytes (dev s) k)) \<and>
    dlen (dev s') = (if i < nr then max (dlen (dev s)) ((nat start + nr) * 8192) else dlen (dev s)) \<and> dio (dev s')"
  using assms(2,3)
proof (induction "nr - i" arbitrary: s i)
  case 0
  then have "i = nr" by simp
  then show ?case using "0.prems" by (subst zero_blocks_from.simps) auto
next
  case (Suc n)
  then have i: "i < nr" by simp
  let ?s1 = "wrote s (start + int i) zero_mem"
  have "n = nr - Suc i" "Suc i \<le> nr" using Suc.hyps(2) i by simp_all
  from Suc.hyps(1) [OF this, of ?s1] obtain s' where
    s': "zero_blocks_from ?s1 start nr (Suc i) = Ret s'" "s' = ?s1\<lparr>dev := dev s'\<rparr>"
    "\<forall>k. dbytes (dev s') k = (if (nat start + Suc i) * 8192 \<le> k \<and> k < (nat start + nr) * 8192 then 0 else dbytes (dev ?s1) k)"
    "dlen (dev s') = (if Suc i < nr then max (dlen (dev ?s1)) ((nat start + nr) * 8192) else dlen (dev ?s1))" "dio (dev s')"
    by auto
  have pos: "nat (start + int i) = nat start + i" using assms(1) by simp
  have le: "(nat start + i) * 8192 + 8192 \<le> (nat start + nr) * 8192"
    using i by simp
  have "zero_blocks_from s start nr i = Ret s'"
    using s'(1) i assms(1) write_block_wrote [OF Suc.prems(2), of "start + int i" zero_mem]
    by (subst zero_blocks_from.simps) simp
  moreover have "s' = s\<lparr>dev := dev s'\<rparr>"
    using s'(2) by (simp add: wrote_def)
  moreover have "dlen (dev s') = max (dlen (dev s)) ((nat start + nr) * 8192)"
    using s'(4) le i pos by (auto simp: max_def split: if_splits)
  moreover have "dbytes (dev s') k = (if (nat start + i) * 8192 \<le> k \<and> k < (nat start + nr) * 8192 then 0 else dbytes (dev s) k)" for k
    using s'(3) le pos by (auto simp: wrote_def memcpy_def)
  ultimately show ?case using i s'(5) by auto
qed

lemma zero_blocks_ok:
  assumes "0 \<le> start" "0 < nr" "dio (dev s)"
  shows "\<exists>d. zero_blocks s start nr = Ret (s\<lparr>dev := d\<rparr>) \<and>
    (\<forall>k. dbytes d k = (if nat start * 8192 \<le> k \<and> k < (nat start + nr) * 8192 then 0 else dbytes (dev s) k)) \<and>
    dlen d = max (dlen (dev s)) ((nat start + nr) * 8192) \<and> dio d"
proof -
  from zero_blocks_from_ok [OF assms(1) _ assms(3), of 0 nr] assms(2) obtain s' where
    "zero_blocks s start nr = Ret s'" "s' = s\<lparr>dev := dev s'\<rparr>"
    "\<forall>k. dbytes (dev s') k = (if nat start * 8192 \<le> k \<and> k < (nat start + nr) * 8192 then 0 else dbytes (dev s) k)"
    "dlen (dev s') = max (dlen (dev s)) ((nat start + nr) * 8192)" "dio (dev s')"
    by (auto simp: zero_blocks_def)
  then show ?thesis by (intro exI [of _ "dev s'"]) auto
qed

definition malloc_works :: "fs \<Rightarrow> bool" where
  "malloc_works s \<longleftrightarrow> (\<forall>n. malloc_ok s n)"

lemma create_bitmap_ok:
  assumes "malloc_works s" "n mod 8 = 0" "n \<le> 2 ^ 32 - 8"
  shows "create_bitmap s n = Ret (Inr \<lparr>nbits = n, v = zero_mem\<rparr>, s\<lparr>malloc_n := malloc_n s + 2\<rparr>)"
proof -
  have "bitmap_words n = n div 8"
    using assms by (auto simp: bitmap_words_eq elim!: dvdE)
  then show ?thesis
    using assms(1) by (simp add: create_bitmap_def c_malloc_def bitmap_create_def malloc_works_def Let_def)
qed

lemma load_freemap_ok:
  assumes "malloc_works s" "dio (dev s)" "0 \<le> st" "nat st * 8192 + n * 8192 \<le> dlen (dev s)" "n \<le> 16"
  shows "load_freemap s st n =
    Ret (Inr \<lparr>nbits = n * 65536, v = (\<lambda>i. dbytes (dev s) (nat st * 8192 + i))\<rparr>,
         s\<lparr>malloc_n := malloc_n s + 2\<rparr>)"
proof -
  have "create_bitmap s (n * 65536) =
      Ret (Inr \<lparr>nbits = n * 65536, v = zero_mem\<rparr>, s\<lparr>malloc_n := malloc_n s + 2\<rparr>)"
    using assms by (intro create_bitmap_ok) auto
  then show ?thesis
    using assms by (simp add: load_freemap_def read_blocks_def Let_def mult.commute [of 65536])
qed

text \<open>The state a successful \<^verbatim>\<open>testfs_init_super_block\<close> builds from the device.\<close>

definition mounted :: "fs \<Rightarrow> fs" where
  "mounted s =
    s\<lparr>sb := dsuper_of_bytes (dbytes (dev s)),
      inode_freemap := Some \<lparr>nbits = 65536, v = (\<lambda>i. dbytes (dev s) (8192 + i))\<rparr>,
      block_freemap := Some \<lparr>nbits = 1048576, v = (\<lambda>i. dbytes (dev s) (16384 + i))\<rparr>,
      hash_tbl := Some (\<lambda>_. []), malloc_n := malloc_n s + 6\<rparr>"

lemma init_super_block_mounted:
  assumes "malloc_works s" "dio (dev s)" "18 * 8192 \<le> dlen (dev s)" "layout_ok (dsuper_of_bytes (dbytes (dev s)))"
  shows "testfs_init_super_block None s = Ret (0, mounted s)"
proof -
  have "malloc_works (s\<lparr>malloc_n := k, sb := d, inode_freemap := f\<rparr>)" for k d f
    using assms(1) by (simp add: malloc_works_def)
  moreover have "malloc_works (s\<lparr>malloc_n := k, sb := d\<rparr>)" for k d
    using assms(1) by (simp add: malloc_works_def)
  ultimately show ?thesis
    using assms
    by (simp add: testfs_init_super_block_def c_malloc_def read_blocks_def load_freemap_ok
        inode_hash_init_def mounted_def malloc_works_def layout_ok_def Let_def)
qed

lemma used_cong:
  assumes "nbits b = nbits b'" "\<And>i. i < bitmap_words (nbits b) \<Longrightarrow> v b i = v b' i"
    "nbits b mod 8 = 0" "nbits b \<le> 2 ^ 32 - 8"
  shows "used b = used b'" "bitmap_inv b"
proof -
  have w: "8 * bitmap_words (nbits b) = nbits b"
    using assms(3,4) by (auto simp: bitmap_words_eq elim!: dvdE)
  then have "i < nbits b \<Longrightarrow> i div 8 < bitmap_words (nbits b)" for i
    by (simp add: less_mult_imp_div_less mult.commute)
  with assms(1,2) show "used b = used b'"
    by (auto simp: used_def bitset_def)
  show "bitmap_inv b" using w assms(4) by (auto simp: bitmap_inv_def)
qed

lemma mounted_inv:
  assumes lay: "layout_ok (dsuper_of_bytes (dbytes (dev s)))" and d: "dio (dev s)" "146 * 8192 \<le> dlen (dev s)"
    and cnt: "counts_ok (mounted s)"
  shows "sb_inv (mounted s)"
proof -
  have "bitmap_inv \<lparr>nbits = 65536, v = w\<rparr>" "bitmap_inv \<lparr>nbits = 1048576, v = w\<rparr>" for w
    by (auto intro!: used_cong(2))
  then have "freemaps_ok (mounted s)"
    by (simp add: freemaps_ok_def mounted_def ibm_def bbm_def)
  moreover have "disk_ok (mounted s)"
    using d by (simp add: disk_ok_def mounted_def fm_on_disk_def ibm_def bbm_def)
  ultimately show ?thesis
    using lay cnt by (simp add: sb_inv_def mounted_def)
qed

text \<open>Closing writes what the disk already holds.\<close>

lemma close_super_block_ok:
  assumes inv: "sb_inv s" and tbl: "hash_tbl s = Some tb" "\<And>i. i < 256 \<Longrightarrow> tb i = []"
  shows "\<exists>s'. testfs_close_super_block s = Ret s' \<and> dlen (dev s') = dlen (dev s) \<and>
    dsuper_of_bytes (dbytes (dev s')) = sb s \<and>
    (\<forall>i \<ge> 8192. dbytes (dev s') i = dbytes (dev s) i) \<and> malloc_ok s' = malloc_ok s \<and>
    sb s' = sb s \<and> hash_tbl s' = None \<and> dio (dev s')"
proof -
  let ?d = "dbytes (dev (synced s))"
  have fm: "inode_freemap s = Some (ibm s)" "block_freemap s = Some (bbm s)"
    and lay: "layout_ok (sb s)" and len: "146 * 8192 \<le> dlen (dev s)" "dio (dev s)"
    using inv by (auto simp: sb_inv_def freemaps_ok_def disk_ok_def ibm_def bbm_def)
  have st: "inode_freemap_start (sb s) = 1" "block_freemap_start (sb s) = 2"
    using lay by (simp_all add: layout_ok_def)
  have wf: "wf_dsuper (sb s)"
    using sb_inv_counts [OF inv] lay by (intro wf_dsuper_counts) simp_all
  note fms = sb_inv_fm [OF inv]
  define d1 where "d1 = memcpy ?d 8192 (v (ibm s)) 0 8192"
  define d2 where "d2 = memcpy d1 16384 (v (bbm s)) 0 131072"
  have d1: "d1 i = ?d i" for i
    using fm_on_diskD [OF fms(1), of i] by (auto simp: d1_def memcpy_def synced_bytes)
  have d2: "d2 i = ?d i" for i
    using fm_on_diskD [OF fms(2), of i] d1 by (auto simp: d2_def memcpy_def synced_bytes)
  have same: "d1 = ?d" "d2 = ?d" using d1 d2 by auto
  have "inode_hash_destroy (synced s) = Ret ((synced s)\<lparr>hash_tbl := None\<rparr>)"
    using tbl by (simp add: inode_hash_destroy_def INODE_HASH_SIZE_def)
  then have "testfs_close_super_block s = Ret ((synced s)\<lparr>hash_tbl := None, inode_freemap := None,
      block_freemap := None, dev := \<lparr>dbytes = ?d, dlen = dlen (dev s), dio = True\<rparr>\<rparr>)"
    using fm st len same
    by (simp add: testfs_close_super_block_def write_super_synced close_freemap_def write_blocks_def
        bitmap_getdata_def Let_def d1_def d2_def max_def)
  then show ?thesis
    using synced_super [OF wf] by (simp add: synced_bytes)
qed

lemma format_device_ok:
  assumes mal: "malloc_works s" and dio: "dio (dev s)" and mb: "0 \<le> max_blocks" "max_blocks \<le> 1048576"
  shows "\<exists>s'. format_device s max_blocks = Ret s' \<and> sb_inv s' \<and> used (ibm s') = {} \<and>
    used (bbm s') = {} \<and> max_fs_blocks (sb s') = max_blocks \<and> hash_tbl s' = Some (\<lambda>_. []) \<and>
    malloc_works s' \<and> iheap s' = iheap s \<and> dlen (dev s') = 146 * 8192 \<and>
    (\<forall>i \<ge> 18 * 8192. dbytes (dev s') i = 0)"
proof -
  define sb0 where "sb0 = \<lparr>inode_freemap_start = 1, block_freemap_start = 2, inode_blocks_start = 18,
     data_blocks_start = 146, used_inode_count = 0, used_block_count = 0, max_fs_blocks = max_blocks\<rparr>"
  define s1 where "s1 = (synced (s\<lparr>malloc_n := Suc (malloc_n s), dev := \<lparr>dbytes = zero_mem, dlen = 0, dio = True\<rparr>,
     inode_freemap := None, block_freemap := None, sb := sb0\<rparr>))
       \<lparr>malloc_n := malloc_n s + 2, hash_tbl := Some (\<lambda>_. [])\<rparr>"
  have m1: "testfs_make_super_block s max_blocks = Ret s1"
    using mal dio by (simp add: testfs_make_super_block_def c_malloc_def write_super_synced inode_hash_init_def
        malloc_works_def s1_def sb0_def Let_def)
  have s1: "sb s1 = sb0" "dlen (dev s1) = 8192" "\<And>i. 8192 \<le> i \<Longrightarrow> dbytes (dev s1) i = 0"
    "inode_freemap s1 = None" "block_freemap s1 = None" "malloc_ok s1 = malloc_ok s" "iheap s1 = iheap s"
    "hash_tbl s1 = Some (\<lambda>_. [])" "dio (dev s1)"
    by (simp_all add: s1_def synced_def)
  from zero_blocks_ok [of 1 1 s1] obtain d1 where
    d1: "zero_blocks s1 1 (Suc 0) = Ret (s1\<lparr>dev := d1\<rparr>)" "dlen d1 = 16384" "\<And>i. 8192 \<le> i \<Longrightarrow> dbytes d1 i = 0" "dio d1"
    using s1 by auto
  from zero_blocks_ok [of 2 16 "s1\<lparr>dev := d1\<rparr>"] obtain d2 where
    d2: "zero_blocks (s1\<lparr>dev := d1\<rparr>) 2 16 = Ret (s1\<lparr>dev := d2\<rparr>)" "dlen d2 = 18 * 8192"
      "\<And>i. 8192 \<le> i \<Longrightarrow> dbytes d2 i = 0" "dio d2"
    using d1 by auto
  from zero_blocks_ok [of 18 128 "s1\<lparr>dev := d2\<rparr>"] obtain d3 where
    d3: "zero_blocks (s1\<lparr>dev := d2\<rparr>) 18 128 = Ret (s1\<lparr>dev := d3\<rparr>)" "dlen d3 = 146 * 8192"
      "\<And>i. 8192 \<le> i \<Longrightarrow> dbytes d3 i = 0" "dio d3"
    using d2 by auto
  define s4 where "s4 = (synced (s1\<lparr>dev := d3\<rparr>))\<lparr>hash_tbl := None, inode_freemap := None, block_freemap := None\<rparr>"
  have fields: "inode_freemap_start sb0 = 1" "block_freemap_start sb0 = 2" "inode_blocks_start sb0 = 18"
    by (simp_all add: sb0_def)
  have close: "testfs_close_super_block (s1\<lparr>dev := d3\<rparr>) = Ret s4"
    using s1 d3 by (simp add: testfs_close_super_block_def write_super_synced inode_hash_destroy_def
        close_freemap_def s4_def)
  have wf: "wf_dsuper sb0" and lay: "layout_ok sb0"
    using mb by (auto simp: sb0_def wf_dsuper_def layout_ok_def)
  have super: "dsuper_of_bytes (dbytes (dev s4)) = sb0"
    using synced_super [of "s1\<lparr>dev := d3\<rparr>"] wf s1 by (simp add: s4_def)
  have d4: "dlen (dev s4) = 146 * 8192" "\<And>i. 8192 \<le> i \<Longrightarrow> dbytes (dev s4) i = 0" "dio (dev s4)"
    using d3 by (simp_all add: s4_def synced_bytes)
  have mal4: "malloc_works s4" using mal s1 by (simp add: malloc_works_def s4_def)
  have init: "testfs_init_super_block None s4 = Ret (0, mounted s4)"
    using mal4 d4 super lay by (intro init_super_block_mounted) simp_all
  have used: "used (ibm (mounted s4)) = {}" "used (bbm (mounted s4)) = {}"
    using d4 by (simp_all add: mounted_def ibm_def bbm_def used_def bitset_def)
  have "sb_inv (mounted s4)"
    using super lay d4 used by (intro mounted_inv) (simp_all add: counts_ok_def mounted_def sb0_def)
  moreover have "format_device s max_blocks = Ret (mounted s4)"
    using m1 d1 d2 d3 s1 fields close init
    by (simp add: format_device_def testfs_make_inode_freemap_def testfs_make_block_freemap_def
        testfs_make_inode_blocks_def)
  ultimately show ?thesis
    using used super d4 mal4 s1 by (simp add: mounted_def malloc_works_def sb0_def s4_def)
qed

section \<open>Properties\<close>

text \<open>A process before any file system is opened, with an allocator that never fails.\<close>

definition proc0 :: fs where
  "proc0 = \<lparr>sb = \<lparr>inode_freemap_start = 0, block_freemap_start = 0, inode_blocks_start = 0,
       data_blocks_start = 0, used_inode_count = 0, used_block_count = 0, max_fs_blocks = 0\<rparr>,
     dev = \<lparr>dbytes = zero_mem, dlen = 0, dio = True\<rparr>, inode_freemap = None, block_freemap = None,
     hash_tbl = None, iheap = (\<lambda>_. None), malloc_ok = (\<lambda>_. True), malloc_n = 1, sout = [], junk = (\<lambda>_. zero_mem)\<rparr>"

lemma malloc_works_proc0 [simp]: "malloc_works proc0"
  by (simp add: malloc_works_def proc0_def)

lemma dio_proc0 [simp]: "dio (dev proc0)"
  by (simp add: proc0_def)

text \<open>
  C1: formatting a device (the steps of \<^verbatim>\<open>mktestfs\<close>) ends the process with an error when the
  host refuses to write the file; otherwise it always succeeds when memory is available and yields a file system that satisfies the invariant, with no inode and no block in
  use, the requested size limit and an empty inode hash table.
\<close>

theorem format_device_establishes:
  assumes "malloc_works s" "0 \<le> max_blocks" "max_blocks \<le> 1048576"
  shows "if dio (dev s)
    then \<exists>s'. format_device s max_blocks = Ret s' \<and> sb_inv s' \<and> used (ibm s') = {} \<and>
      ublocks s' = {} \<and> max_fs_blocks (sb s') = max_blocks \<and> hash_tbl s' = Some (\<lambda>_. [])
    else format_device s max_blocks = Crash (Exit_Error ''fwrite'')"
  using format_device_ok [OF assms(1) _ assms(2,3)] assms(1)
  by (auto simp: ublocks_def format_device_def testfs_make_super_block_def c_malloc_def malloc_works_def
      testfs_write_super_block_def write_blocks_def Let_def)

theorem format_device_establishes_witness:
  "malloc_works proc0 \<and> (\<exists>s'. format_device proc0 128 = Ret s' \<and> sb_inv s')"
  using format_device_establishes [of proc0 128] by auto

text \<open>
  C2: \<^verbatim>\<open>testfs_alloc_block\<close> keeps the invariant. It returns \<^verbatim>\<open>-ENOSPC\<close> and leaves
  the state alone exactly when the limit \<^verbatim>\<open>max_fs_blocks\<close> is reached; otherwise it returns a
  data block number that was not in use, marks that block only, and touches no data block.
\<close>

theorem alloc_block_keeps_invariant:
  assumes "sb_inv s"
  shows "if max_fs_blocks (sb s) \<le> int (card (ublocks s)) then testfs_alloc_block s = Ret (- ENOSPC, s)
    else \<exists>p s'. testfs_alloc_block s = Ret (p, s') \<and> 146 \<le> p \<and> p < 146 + 1048576 \<and> p \<notin> ublocks s \<and>
      ublocks s' = insert p (ublocks s) \<and> sb_inv s' \<and> blk_eq s s' {} \<and> mem_eq s s'"
  using alloc_block_cases [OF assms] by (auto simp: block_allocated_def)

theorem alloc_block_keeps_invariant_witness:
  "\<exists>s p s'. sb_inv s \<and> testfs_alloc_block s = Ret (p, s') \<and> sb_inv s' \<and> p \<in> ublocks s'"
proof -
  from format_device_ok [of proc0 128] obtain s where s: "sb_inv s" "used (bbm s) = {}" "max_fs_blocks (sb s) = 128"
    by auto
  then have "card (ublocks s) = 0" by (simp add: card_ublocks)
  then show ?thesis using alloc_block_keeps_invariant [OF s(1)] s by auto
qed

text \<open>
  \<^verbatim>\<open>testfs_free_block\<close> on a block in use zeroes that block on disk, returns it to the
  freemap, changes no other data block and keeps the invariant; on a data block that is not in
  use (a double free) it aborts in the assertion of \<^verbatim>\<open>bitmap_unmark\<close>.
\<close>

theorem free_block_exact:
  assumes "sb_inv s" "146 \<le> p" "p < 2147483648"
  shows "if p \<in> ublocks s
    then \<exists>s'. testfs_free_block s p = Ret (0, s') \<and> ublocks s' = ublocks s - {p} \<and> sb_inv s' \<and>
      (\<forall>i<8192. dblock s' p i = 0) \<and> blk_eq s s' {p}
    else testfs_free_block s p = Crash Assert_Fail"
  using free_block_ok [OF assms(1), of p] free_block_unused [OF assms]
  by (cases "p \<in> ublocks s") (auto simp: block_freed_def)

theorem free_block_exact_witness:
  "\<exists>s. sb_inv s \<and> testfs_free_block s 146 = Crash Assert_Fail"
proof -
  from format_device_ok [of proc0 128] obtain s where s: "sb_inv s" "used (bbm s) = {}"
    by auto
  then have "146 \<notin> ublocks s" by (simp add: ublocks_def)
  then show ?thesis using free_block_exact [OF s(1), of 146] s by auto
qed

text \<open>
  C3: closing a file system whose inode table is empty and opening it again succeeds and gives
  back the same super block, the same inodes and blocks in use and the same data blocks.
\<close>

theorem close_init_roundtrip:
  assumes "sb_inv s" "hash_tbl s = Some tb" "\<forall>i<256. tb i = []" "malloc_works s"
  shows "\<exists>s1 s2. testfs_close_super_block s = Ret s1 \<and> testfs_init_super_block None s1 = Ret (0, s2) \<and>
    sb s2 = sb s \<and> used (ibm s2) = used (ibm s) \<and> used (bbm s2) = used (bbm s) \<and> sb_inv s2 \<and>
    blk_eq s s2 {}"
proof -
  from close_super_block_ok [OF assms(1,2)] assms(3) obtain s1 where
    s1: "testfs_close_super_block s = Ret s1" "dlen (dev s1) = dlen (dev s)"
      "dsuper_of_bytes (dbytes (dev s1)) = sb s" "\<forall>i \<ge> 8192. dbytes (dev s1) i = dbytes (dev s) i"
      "malloc_ok s1 = malloc_ok s" "dio (dev s1)"
    by blast
  have len: "146 * 8192 \<le> dlen (dev s)" and lay: "layout_ok (sb s)"
    and bits: "nbits (ibm s) = 65536" "nbits (bbm s) = 1048576"
    using assms(1) by (simp_all add: sb_inv_def disk_ok_def freemaps_ok_def)
  have init: "testfs_init_super_block None s1 = Ret (0, mounted s1)"
    using s1 len lay assms(4) by (intro init_super_block_mounted) (simp_all add: malloc_works_def)
  note fms = sb_inv_fm [OF assms(1)]
  have mb: "nbits (ibm (mounted s1)) = 65536" "nbits (bbm (mounted s1)) = 1048576"
    "\<forall>i<8192. v (ibm (mounted s1)) i = v (ibm s) i" "\<forall>i<131072. v (bbm (mounted s1)) i = v (bbm s) i"
    using fms s1(4) by (simp_all add: mounted_def ibm_def bbm_def fm_on_disk_def)
  have u: "used (ibm (mounted s1)) = used (ibm s)" "used (bbm (mounted s1)) = used (bbm s)"
    by (rule used_cong(1); simp add: mb bits bitmap_words_def)+
  have "counts_ok (mounted s1)"
    using assms(1) u s1(3) by (simp add: sb_inv_def counts_ok_def) (simp add: mounted_def)
  then have "sb_inv (mounted s1)"
    using s1 len lay by (intro mounted_inv) simp_all
  moreover have "blk_eq s (mounted s1) {}"
    using s1(4) by (intro blk_eq_low) (simp add: mounted_def)
  ultimately show ?thesis
    using s1 init u by (auto simp: mounted_def)
qed

theorem close_init_roundtrip_witness:
  "\<exists>s s1 s2. sb_inv s \<and> testfs_close_super_block s = Ret s1 \<and>
     testfs_init_super_block None s1 = Ret (0, s2) \<and> sb_inv s2"
proof -
  from format_device_ok [of proc0 128] obtain s where
    s: "sb_inv s" "hash_tbl s = Some (\<lambda>_. [])" "malloc_works s"
    by auto
  then show ?thesis using close_init_roundtrip [OF s(1,2) _ s(3)] by auto
qed

text \<open>
  \<^verbatim>\<open>testfs_get_inode_freemap\<close> hands out an inode number that was not in use and
  \<^verbatim>\<open>testfs_put_inode_freemap\<close> gives it back: both keep the invariant, and the pair restores
  the set of inodes in use and the counter.
\<close>

theorem inode_number_roundtrip:
  assumes "sb_inv s" "testfs_get_inode_freemap s = Ret (n, s1)" "0 \<le> n"
  shows "nat n \<notin> used (ibm s) \<and> used (ibm s1) = insert (nat n) (used (ibm s)) \<and> sb_inv s1 \<and>
    (\<exists>s2. testfs_put_inode_freemap s1 n = Ret s2 \<and> used (ibm s2) = used (ibm s) \<and> sb_inv s2 \<and>
       used_inode_count (sb s2) = used_inode_count (sb s))"
proof -
  from get_inode_freemap_cases [OF assms(1)] assms(2,3) obtain i where
    i: "n = int i" "i \<notin> used (ibm s)" "used (ibm s1) = insert i (used (ibm s))" "sb_inv s1"
    by (auto simp: errno_defs)
  with put_inode_freemap_ok [of s1 i] obtain s2 where
    s2: "testfs_put_inode_freemap s1 (int i) = Ret s2" "used (ibm s2) = used (ibm s)" "sb_inv s2"
    by auto
  then have "used_inode_count (sb s2) = used_inode_count (sb s)"
    using assms(1) by (simp add: sb_inv_def counts_ok_def)
  with i s2 show ?thesis by auto
qed

theorem inode_number_roundtrip_witness:
  "\<exists>s n s1. sb_inv s \<and> testfs_get_inode_freemap s = Ret (n, s1) \<and> nat n \<notin> used (ibm s) \<and> sb_inv s1"
proof -
  from format_device_ok [of proc0 128] obtain s where s: "sb_inv s" "used (ibm s) = {}"
    by auto
  with get_inode_freemap_cases [OF s(1)] obtain n s1 where
    n: "testfs_get_inode_freemap s = Ret (n, s1)" "0 \<le> n"
    by auto
  then show ?thesis using inode_number_roundtrip [OF s(1) n] s by blast
qed

end
