(* ===== verification/FS_Inode.thy ===== *)
theory FS_Inode
  imports FS_Super
begin

text \<open>
  In-memory inodes (\<^verbatim>\<open>fs/inode.c\<close>, with the \<^verbatim>\<open>hlist\<close> operations and the hash
  function it uses of \<^verbatim>\<open>fs/list.h\<close>): the hash table of open inodes, reference counts,
  reading an inode from its inode block and writing a dirty one back. The invariant
  \<^verbatim>\<open>itab_inv\<close> says that the table indexes exactly the live inodes, one per inode number.
\<close>

section \<open>The hash table of inodes\<close>

definition GOLDEN_RATIO_PRIME_32 :: int where
  "GOLDEN_RATIO_PRIME_32 = 0x9e370001"

definition hash_int :: "int \<Rightarrow> nat \<Rightarrow> int" where
  "hash_int val bits = (let hash = to_u32 (val * GOLDEN_RATIO_PRIME_32) in hash div 2 ^ (32 - bits))"

definition inode_hashfn :: "int \<Rightarrow> nat" where
  "inode_hashfn nr = nat (hash_int (to_u32 nr) 8)"

definition hlist_add_head :: "nat \<Rightarrow> nat list \<Rightarrow> nat list" where
  "hlist_add_head n h = n # h"

definition hlist_del :: "nat \<Rightarrow> nat list \<Rightarrow> nat list" where
  "hlist_del n h = remove1 n h"

primrec hash_walk :: "fs \<Rightarrow> int \<Rightarrow> nat list \<Rightarrow> nat option res" where
  "hash_walk s inode_nr [] = Ret None"
| "hash_walk s inode_nr (p # ps) =
     bnd (deref (iheap s p)) (\<lambda>ino. if i_nr ino = inode_nr then Ret (Some p) else hash_walk s inode_nr ps)"

definition inode_hash_find :: "fs \<Rightarrow> int \<Rightarrow> nat option res" where
  "inode_hash_find s inode_nr =
    bnd (deref (hash_tbl s)) (\<lambda>t. hash_walk s inode_nr (t (inode_hashfn inode_nr)))"

definition inode_hash_insert :: "fs \<Rightarrow> nat \<Rightarrow> fs res" where
  "inode_hash_insert s p =
    bnd (deref (iheap s p)) (\<lambda>ino.
    bnd (deref (hash_tbl s)) (\<lambda>t.
    let h = inode_hashfn (i_nr ino) in
    Ret (s\<lparr>hash_tbl := Some (t(h := hlist_add_head p (t h)))\<rparr>)))"

definition inode_hash_remove :: "fs \<Rightarrow> nat \<Rightarrow> fs res" where
  "inode_hash_remove s p =
    bnd (deref (iheap s p)) (\<lambda>ino.
    bnd (deref (hash_tbl s)) (\<lambda>t.
    let h = inode_hashfn (i_nr ino) in
    Ret (s\<lparr>hash_tbl := Some (t(h := hlist_del p (t h)))\<rparr>)))"

section \<open>Reading and writing inodes\<close>

text \<open>\<^verbatim>\<open>INODES_PER_BLOCK\<close> is unsigned, so the inode number is converted before the division.\<close>

definition testfs_inode_to_block_nr :: "inode \<Rightarrow> int res" where
  "testfs_inode_to_block_nr ino =
    (let block_nr = to_s32 (to_u32 (i_nr ino) div int INODES_PER_BLOCK) in
     bnd (c_assert (block_nr \<ge> 0)) (\<lambda>_.
     bnd (c_assert (block_nr < int NR_INODE_BLOCKS)) (\<lambda>_.
     Ret block_nr)))"

definition testfs_inode_to_block_offset :: "inode \<Rightarrow> int res" where
  "testfs_inode_to_block_offset ino =
    (let block_offset = to_s32 (to_u32 (i_nr ino) mod int INODES_PER_BLOCK * int SIZEOF_DINODE) in
     bnd (c_assert (block_offset \<ge> 0)) (\<lambda>_.
     bnd (c_assert (block_offset < int BLOCK_SIZE)) (\<lambda>_.
     Ret block_offset)))"

definition testfs_read_inode_block :: "fs \<Rightarrow> inode \<Rightarrow> mem res" where
  "testfs_read_inode_block s ino =
    bnd (testfs_inode_to_block_nr ino) (\<lambda>block_nr.
    read_blocks s (to_u32 (inode_blocks_start (sb s) + block_nr)) 1)"

definition testfs_write_inode_block :: "fs \<Rightarrow> inode \<Rightarrow> mem \<Rightarrow> fs res" where
  "testfs_write_inode_block s ino block =
    bnd (testfs_inode_to_block_nr ino) (\<lambda>block_nr.
    write_blocks s block (to_u32 (inode_blocks_start (sb s) + block_nr)) 1)"

text \<open>Storing a changed inode structure back through its pointer.\<close>

definition iset :: "fs \<Rightarrow> nat \<Rightarrow> inode \<Rightarrow> fs" where
  "iset s p ino = s\<lparr>iheap := (iheap s)(p := Some ino)\<rparr>"

definition testfs_get_inode :: "fs \<Rightarrow> int \<Rightarrow> (nat \<times> fs) res" where
  "testfs_get_inode s inode_nr =
    bnd (inode_hash_find s inode_nr) (\<lambda>found.
      case found of
        Some p \<Rightarrow>
          bnd (deref (iheap s p)) (\<lambda>ino. Ret (p, iset s p (ino\<lparr>i_count := i_count ino + 1\<rparr>)))
      | None \<Rightarrow>
          (case c_malloc s of
             (None, s1) \<Rightarrow> Crash (Exit_Error ''calloc'')
           | (Some p, s1) \<Rightarrow>
               let ino = \<lparr>i_in = zero_dinode, i_dirty = False, i_nr = inode_nr, i_count = 1\<rparr> in
               bnd (testfs_read_inode_block s1 ino) (\<lambda>block.
               bnd (testfs_inode_to_block_offset ino) (\<lambda>block_offset.
               let ino' = ino\<lparr>i_in := dinode_of_bytes block (nat block_offset)\<rparr> in
               bnd (inode_hash_insert (iset s1 p ino') p) (\<lambda>s2.
               Ret (p, s2))))))"

definition testfs_sync_inode :: "fs \<Rightarrow> nat \<Rightarrow> fs res" where
  "testfs_sync_inode s p =
    bnd (deref (iheap s p)) (\<lambda>ino.
    if \<not> i_dirty ino then Ret s
    else
      bnd (testfs_read_inode_block s ino) (\<lambda>block.
      bnd (testfs_inode_to_block_offset ino) (\<lambda>block_offset.
      let block' = memcpy block (nat block_offset) (dinode_bytes (i_in ino)) 0 SIZEOF_DINODE in
      bnd (testfs_write_inode_block s ino block') (\<lambda>s1.
      Ret (iset s1 p (ino\<lparr>i_dirty := False\<rparr>))))))"

definition testfs_put_inode :: "fs \<Rightarrow> nat \<Rightarrow> fs res" where
  "testfs_put_inode s p =
    bnd (deref (iheap s p)) (\<lambda>ino.
    bnd (c_assert (\<not> i_dirty ino)) (\<lambda>_.
    let ino' = ino\<lparr>i_count := i_count ino - 1\<rparr>; s1 = iset s p ino' in
    if i_count ino' = 0 then
      bnd (inode_hash_remove s1 p) (\<lambda>s2. Ret (s2\<lparr>iheap := (iheap s2)(p := None)\<rparr>))
    else Ret s1))"

definition testfs_inode_get_nr :: "fs \<Rightarrow> nat \<Rightarrow> int res" where
  "testfs_inode_get_nr s p = bnd (deref (iheap s p)) (\<lambda>ino. Ret (i_nr ino))"

definition testfs_inode_get_type :: "fs \<Rightarrow> nat \<Rightarrow> int res" where
  "testfs_inode_get_type s p = bnd (deref (iheap s p)) (\<lambda>ino. Ret (i_type (i_in ino)))"

definition testfs_inode_get_size :: "fs \<Rightarrow> nat \<Rightarrow> int res" where
  "testfs_inode_get_size s p = bnd (deref (iheap s p)) (\<lambda>ino. Ret (i_size (i_in ino)))"

definition testfs_inode_get_block_count :: "fs \<Rightarrow> nat \<Rightarrow> int res" where
  "testfs_inode_get_block_count s p = bnd (deref (iheap s p)) (\<lambda>ino. Ret (block_count (i_in ino)))"

text \<open>\<^verbatim>\<open>testfs_create_inode\<close> returns a negative error number or the new inode's pointer.\<close>

definition testfs_create_inode :: "fs \<Rightarrow> inode_type \<Rightarrow> ((int + nat) \<times> fs) res" where
  "testfs_create_inode s type =
    bnd (testfs_get_inode_freemap s) (\<lambda>(inode_nr, s1).
    if inode_nr < 0 then Ret (Inl inode_nr, s1)
    else if to_u32 inode_nr div int INODES_PER_BLOCK \<ge> int NR_INODE_BLOCKS then
      bnd (testfs_put_inode_freemap s1 inode_nr) (\<lambda>s2. Ret (Inl (- ENOSPC), s2))
    else
      bnd (testfs_get_inode s1 inode_nr) (\<lambda>(p, s2).
      bnd (deref (iheap s2 p)) (\<lambda>ino.
      let ino' = ino\<lparr>i_in := (i_in ino)\<lparr>i_type := type_code type\<rparr>, i_dirty := True\<rparr> in
      Ret (Inr p, iset s2 p ino'))))"

definition testfs_alloc_block_for_inode :: "fs \<Rightarrow> nat \<Rightarrow> (int \<times> fs) res" where
  "testfs_alloc_block_for_inode s p =
    bnd (testfs_alloc_block s) (\<lambda>(phy_block_nr, s1).
    if phy_block_nr \<ge> 0 then
      bnd (deref (iheap s1 p)) (\<lambda>ino.
      let ino' = ino\<lparr>i_in := (i_in ino)\<lparr>block_count := block_count (i_in ino) + 1\<rparr>, i_dirty := True\<rparr> in
      Ret (phy_block_nr, iset s1 p ino'))
    else Ret (phy_block_nr, s1))"

definition testfs_free_block_from_inode :: "fs \<Rightarrow> nat \<Rightarrow> int \<Rightarrow> fs res" where
  "testfs_free_block_from_inode s p phy_block_nr =
    (if phy_block_nr = 0 then Ret s
     else
       bnd (testfs_free_block s phy_block_nr) (\<lambda>(_, s1).
       bnd (deref (iheap s1 p)) (\<lambda>ino.
       let ino' = ino\<lparr>i_in := (i_in ino)\<lparr>block_count := block_count (i_in ino) - 1\<rparr>, i_dirty := True\<rparr> in
       Ret (iset s1 p ino'))))"


section \<open>Inodes on disk\<close>

definition disk_inode :: "fs \<Rightarrow> int \<Rightarrow> dinode" where
  "disk_inode s nr = dinode_of_bytes (dbytes (dev s)) (147456 + nat nr * 64)"

definition valid_inr :: "int \<Rightarrow> bool" where
  "valid_inr nr \<longleftrightarrow> 0 \<le> nr \<and> nr < 16384"

lemma inode_to_block_nr_ok:
  assumes "valid_inr (i_nr ino)"
  shows "testfs_inode_to_block_nr ino = Ret (i_nr ino div 128)"
proof -
  have "0 \<le> i_nr ino div 128" "i_nr ino div 128 < 128"
    using assms by (auto simp: valid_inr_def)
  then show ?thesis
    using assms by (simp add: testfs_inode_to_block_nr_def valid_inr_def Let_def)
qed

lemma inode_to_block_offset_ok:
  "valid_inr (i_nr ino) \<Longrightarrow> testfs_inode_to_block_offset ino = Ret (i_nr ino mod 128 * 64)"
  using pos_mod_bound [of 128 "i_nr ino"] pos_mod_sign [of 128 "i_nr ino"]
  by (simp add: testfs_inode_to_block_offset_def valid_inr_def Let_def del: pos_mod_bound pos_mod_sign)

lemma inode_byte_pos:
  assumes "valid_inr nr"
  shows "nat (18 + nr div 128) * 8192 + nat (nr mod 128 * 64) = 147456 + nat nr * 64"
proof -
  obtain n where n: "nr = int n" using assms nonneg_int_cases unfolding valid_inr_def by metis
  have "nat (18 + int n div 128) = 18 + n div 128"
    by (metis nat_int_add of_nat_numeral zdiv_int)
  moreover have "nat (int n mod 128 * 64) = n mod 128 * 64"
    by (metis nat_int of_nat_mult of_nat_numeral zmod_int)
  moreover have "n div 128 * 8192 + n mod 128 * 64 = n * 64"
    using div_mult_mod_eq [of n 128] by linarith
  ultimately show ?thesis using n by simp
qed

lemma inode_block_addr:
  assumes "valid_inr nr"
  shows "to_u32 (18 + nr div 128) = 18 + nr div 128" "18 \<le> 18 + nr div 128" "18 + nr div 128 < 146"
  using assms by (auto simp: valid_inr_def)

section \<open>The invariant of the inode table\<close>

text \<open>
  The hash table indexes exactly the live inodes; each inode number has at most one in-memory
  inode, its reference count is positive, and a clean inode agrees with its copy on disk.
\<close>

definition tbl_ok :: "fs \<Rightarrow> (nat \<Rightarrow> nat list) \<Rightarrow> bool" where
  "tbl_ok s t \<longleftrightarrow>
     (\<forall>h. distinct (t h) \<and>
        (\<forall>p \<in> set (t h). \<exists>ino. iheap s p = Some ino \<and> inode_hashfn (i_nr ino) = h)) \<and>
     (\<forall>p ino. iheap s p = Some ino \<longrightarrow> p \<in> set (t (inode_hashfn (i_nr ino))))"

definition inode_ok :: "fs \<Rightarrow> nat \<Rightarrow> inode \<Rightarrow> bool" where
  "inode_ok s p ino \<longleftrightarrow> 0 < i_count ino \<and> p < malloc_n s \<and> valid_inr (i_nr ino) \<and>
     (\<not> i_dirty ino \<longrightarrow> i_in ino = disk_inode s (i_nr ino))"

definition one_per_nr :: "(nat \<Rightarrow> inode option) \<Rightarrow> bool" where
  "one_per_nr h \<longleftrightarrow>
     (\<forall>p q ino ino'. h p = Some ino \<longrightarrow> h q = Some ino' \<longrightarrow> i_nr ino = i_nr ino' \<longrightarrow> p = q)"

definition itab_inv :: "fs \<Rightarrow> bool" where
  "itab_inv s \<longleftrightarrow> (\<exists>t. hash_tbl s = Some t \<and> tbl_ok s t) \<and>
     (\<forall>p ino. iheap s p = Some ino \<longrightarrow> inode_ok s p ino) \<and> one_per_nr (iheap s)"

lemma itab_live: "itab_inv s \<Longrightarrow> iheap s p = Some ino \<Longrightarrow> inode_ok s p ino"
  by (simp add: itab_inv_def)

text \<open>The reference count and the current contents of an inode, by number.\<close>

definition icount :: "fs \<Rightarrow> int \<Rightarrow> int" where
  "icount s nr =
    (case inode_hash_find s nr of
       Ret (Some p) \<Rightarrow> (case iheap s p of Some ino \<Rightarrow> i_count ino | None \<Rightarrow> 0)
     | _ \<Rightarrow> 0)"

definition ival :: "fs \<Rightarrow> int \<Rightarrow> dinode" where
  "ival s nr =
    (case inode_hash_find s nr of
       Ret (Some p) \<Rightarrow> (case iheap s p of Some ino \<Rightarrow> i_in ino | None \<Rightarrow> disk_inode s nr)
     | _ \<Rightarrow> disk_inode s nr)"

definition iclean :: "fs \<Rightarrow> int \<Rightarrow> bool" where
  "iclean s nr \<longleftrightarrow> (\<forall>p ino. iheap s p = Some ino \<longrightarrow> i_nr ino = nr \<longrightarrow> \<not> i_dirty ino)"

definition iat :: "fs \<Rightarrow> nat \<Rightarrow> int option" where
  "iat s p = map_option i_nr (iheap s p)"

lemma hash_walk_find:
  "(\<forall>p \<in> set ps. iheap s p \<noteq> None) \<Longrightarrow>
     hash_walk s nr ps = Ret (List.find (\<lambda>p. i_nr (the (iheap s p)) = nr) ps)"
  by (induction ps) auto

lemma tbl_okD: "tbl_ok s t \<Longrightarrow> q \<in> set (t h) \<Longrightarrow> \<exists>ino. iheap s q = Some ino \<and> inode_hashfn (i_nr ino) = h"
  by (simp add: tbl_ok_def)

lemma tbl_ok_live: "tbl_ok s t \<Longrightarrow> iheap s p = Some ino \<Longrightarrow> p \<in> set (t (inode_hashfn (i_nr ino)))"
  by (simp add: tbl_ok_def)

lemma hash_find_live:
  assumes "itab_inv s" "iheap s p = Some ino"
  shows "inode_hash_find s (i_nr ino) = Ret (Some p)"
proof -
  obtain t where t: "hash_tbl s = Some t" "tbl_ok s t" using assms by (auto simp: itab_inv_def)
  let ?b = "t (inode_hashfn (i_nr ino))" and ?P = "\<lambda>q. i_nr (the (iheap s q)) = i_nr ino"
  have live: "\<forall>q \<in> set ?b. iheap s q \<noteq> None" and mem: "p \<in> set ?b"
    using tbl_okD [OF t(2)] tbl_ok_live [OF t(2) assms(2)] by blast+
  obtain q where q: "List.find ?P ?b = Some q"
    using mem assms(2) by (cases "List.find ?P ?b") (auto simp: find_None_iff)
  then have "q \<in> set ?b" "?P q" by (auto simp: find_Some_iff)
  then have "q = p"
    using live assms unfolding itab_inv_def one_per_nr_def by force
  then show ?thesis
    using q t(1) hash_walk_find [OF live] by (simp add: inode_hash_find_def)
qed

lemma hash_find_none:
  assumes "itab_inv s" "\<And>p ino. iheap s p = Some ino \<Longrightarrow> i_nr ino \<noteq> nr"
  shows "inode_hash_find s nr = Ret None"
proof -
  obtain t where t: "hash_tbl s = Some t" "tbl_ok s t" using assms by (auto simp: itab_inv_def)
  let ?b = "t (inode_hashfn nr)"
  have live: "\<forall>q \<in> set ?b. iheap s q \<noteq> None"
    using tbl_okD [OF t(2)] by blast
  then have "List.find (\<lambda>q. i_nr (the (iheap s q)) = nr) ?b = None"
    using assms(2) by (auto simp: find_None_iff)
  then show ?thesis
    using t(1) hash_walk_find [OF live] by (simp add: inode_hash_find_def)
qed

lemma icount_live: "itab_inv s \<Longrightarrow> iheap s p = Some ino \<Longrightarrow> icount s (i_nr ino) = i_count ino"
  by (simp add: icount_def hash_find_live)

lemma ival_live: "itab_inv s \<Longrightarrow> iheap s p = Some ino \<Longrightarrow> ival s (i_nr ino) = i_in ino"
  by (simp add: ival_def hash_find_live)

lemma icount_none:
  "itab_inv s \<Longrightarrow> (\<And>p ino. iheap s p = Some ino \<Longrightarrow> i_nr ino \<noteq> nr) \<Longrightarrow> icount s nr = 0"
  by (simp add: icount_def hash_find_none)

lemma ival_none:
  "itab_inv s \<Longrightarrow> (\<And>p ino. iheap s p = Some ino \<Longrightarrow> i_nr ino \<noteq> nr) \<Longrightarrow> ival s nr = disk_inode s nr"
  by (simp add: ival_def hash_find_none)

text \<open>Two states whose tables hold the same inode for a number.\<close>

lemma icount_same:
  assumes "itab_inv s" "itab_inv s'"
    and eq: "\<And>q i. (iheap s' q = Some i \<and> i_nr i = n) = (iheap s q = Some i \<and> i_nr i = n)"
  shows "icount s' n = icount s n" "disk_inode s' n = disk_inode s n \<Longrightarrow> ival s' n = ival s n"
proof -
  have "icount s' n = icount s n \<and> (disk_inode s' n = disk_inode s n \<longrightarrow> ival s' n = ival s n)"
  proof (cases "\<exists>p ino. iheap s p = Some ino \<and> i_nr ino = n")
    case True
    then obtain p ino where p: "iheap s p = Some ino" "i_nr ino = n" by blast
    then have q: "iheap s' p = Some ino" using eq by blast
    show ?thesis
      using icount_live [OF assms(1) p(1)] icount_live [OF assms(2) q]
        ival_live [OF assms(1) p(1)] ival_live [OF assms(2) q] p by simp
  next
    case False
    then have "\<And>p ino. iheap s p = Some ino \<Longrightarrow> i_nr ino \<noteq> n"
      "\<And>p ino. iheap s' p = Some ino \<Longrightarrow> i_nr ino \<noteq> n"
      using eq by blast+
    then show ?thesis
      using icount_none ival_none assms(1,2) by metis
  qed
  then show "icount s' n = icount s n" "disk_inode s' n = disk_inode s n \<Longrightarrow> ival s' n = ival s n" by simp_all
qed

section \<open>Operations on the inode table\<close>

lemma iset_simps [simp]:
  "sb (iset s p ino) = sb s" "dev (iset s p ino) = dev s" "hash_tbl (iset s p ino) = hash_tbl s"
  "inode_freemap (iset s p ino) = inode_freemap s" "block_freemap (iset s p ino) = block_freemap s"
  "malloc_n (iset s p ino) = malloc_n s" "malloc_ok (iset s p ino) = malloc_ok s"
  "sout (iset s p ino) = sout s" "iheap (iset s p ino) = (iheap s)(p := Some ino)"
  "disk_inode (iset s p ino) = disk_inode s" "ibm (iset s p ino) = ibm s" "bbm (iset s p ino) = bbm s"
  "ublocks (iset s p ino) = ublocks s" "dblock (iset s p ino) = dblock s"
  by (simp_all add: iset_def disk_inode_def fun_eq_iff ibm_def bbm_def ublocks_def dblock_def)

lemma sb_inv_cong:
  assumes "sb s' = sb s" "dev s' = dev s" "inode_freemap s' = inode_freemap s" "block_freemap s' = block_freemap s"
  shows "sb_inv s' = sb_inv s"
  using assms by (simp add: sb_inv_defs ibm_def bbm_def)

lemma sb_inv_iset [simp]: "sb_inv (iset s p ino) = sb_inv s"
  by (rule sb_inv_cong) simp_all

lemma disk_inode_blk_eq:
  assumes "blk_eq s s' X" "X \<subseteq> {146..}" "valid_inr nr"
  shows "disk_inode s' nr = disk_inode s nr"
  unfolding disk_inode_def
proof (rule dinode_of_bytes_cong)
  fix i :: nat assume i: "i < 64"
  define j where "j = 147456 + nat nr * 64 + i"
  have j: "147456 \<le> j" "j < 146 * 8192" using assms(3) i by (auto simp: j_def valid_inr_def)
  then have "18 \<le> j div 8192" "j div 8192 < 146" by auto
  then have "dblock s' (int (j div 8192)) (j mod 8192) = dblock s (int (j div 8192)) (j mod 8192)"
    using assms(2) by (intro blk_eqD [OF assms(1)]) (auto simp del: of_nat_div)
  then show "dbytes (dev s') (147456 + nat nr * 64 + i) = dbytes (dev s) (147456 + nat nr * 64 + i)"
    by (simp add: dblock_def j_def [symmetric] del: of_nat_div)
qed

lemma tbl_ok_cong: "tbl_ok s t \<Longrightarrow> (\<And>p. map_option i_nr (iheap s' p) = map_option i_nr (iheap s p)) \<Longrightarrow> tbl_ok s' t"
  unfolding tbl_ok_def by (metis (no_types, lifting) map_option_eq_Some)

lemma itab_inv_frame:
  assumes inv: "itab_inv s" and m: "mem_eq s s'"
    and d: "\<And>nr. valid_inr nr \<Longrightarrow> disk_inode s' nr = disk_inode s nr"
  shows "itab_inv s'"
  using assms tbl_ok_cong [of s _ s']
  by (auto simp: itab_inv_def mem_eq_def inode_ok_def)

lemma itab_inv_iset:
  assumes inv: "itab_inv s" and p: "iheap s p = Some ino" and nr: "i_nr ino' = i_nr ino"
    and cnt: "0 < i_count ino'" and d: "\<not> i_dirty ino' \<Longrightarrow> i_in ino' = disk_inode s (i_nr ino)"
  shows "itab_inv (iset s p ino')"
proof -
  obtain t where t: "hash_tbl s = Some t" "tbl_ok s t" using inv by (auto simp: itab_inv_def)
  have "tbl_ok (iset s p ino') t" using t(2) p nr by (rule_tac tbl_ok_cong) auto
  moreover have "inode_ok (iset s p ino') q i" if "iheap (iset s p ino') q = Some i" for q i
    using that inv p nr cnt d by (auto simp: itab_inv_def inode_ok_def split: if_splits)
  moreover have "one_per_nr (iheap (iset s p ino'))"
    using inv p nr unfolding itab_inv_def one_per_nr_def by (auto split: if_splits)
  ultimately show ?thesis using t(1) by (auto simp: itab_inv_def)
qed

lemma get_inode_hit:
  "itab_inv s \<Longrightarrow> iheap s p = Some ino \<Longrightarrow>
     testfs_get_inode s (i_nr ino) = Ret (p, iset s p (ino\<lparr>i_count := i_count ino + 1\<rparr>))"
  by (simp add: testfs_get_inode_def hash_find_live)

definition fresh_inode :: "fs \<Rightarrow> int \<Rightarrow> inode" where
  "fresh_inode s nr = \<lparr>i_in = disk_inode s nr, i_dirty = False, i_nr = nr, i_count = 1\<rparr>"

definition loaded :: "fs \<Rightarrow> int \<Rightarrow> fs" where
  "loaded s nr = s\<lparr>malloc_n := Suc (malloc_n s), iheap := (iheap s)(malloc_n s := Some (fresh_inode s nr)),
     hash_tbl := map_option (\<lambda>t. t(inode_hashfn nr := malloc_n s # t (inode_hashfn nr))) (hash_tbl s)\<rparr>"

lemma loaded_simps [simp]:
  "sb (loaded s nr) = sb s" "dev (loaded s nr) = dev s" "inode_freemap (loaded s nr) = inode_freemap s"
  "block_freemap (loaded s nr) = block_freemap s" "malloc_ok (loaded s nr) = malloc_ok s"
  "sout (loaded s nr) = sout s" "iheap (loaded s nr) = (iheap s)(malloc_n s := Some (fresh_inode s nr))"
  "disk_inode (loaded s nr) = disk_inode s" "malloc_n (loaded s nr) = Suc (malloc_n s)"
  "bbm (loaded s nr) = bbm s" "ibm (loaded s nr) = ibm s" "ublocks (loaded s nr) = ublocks s"
  by (simp_all add: loaded_def disk_inode_def fun_eq_iff bbm_def ibm_def ublocks_def)

lemma read_inode_block_ok:
  assumes "sb_inv s" "valid_inr (i_nr ino)"
  shows "testfs_read_inode_block s ino = Ret (\<lambda>i. dbytes (dev s) (nat (18 + i_nr ino div 128) * 8192 + i))"
proof -
  have "inode_blocks_start (sb s) = 18" "dio (dev s)" "146 * 8192 \<le> dlen (dev s)" using assms(1) by (simp_all add: sb_inv_defs)
  then show ?thesis
    using inode_block_addr [OF assms(2)] assms(2)
    by (simp add: testfs_read_inode_block_def inode_to_block_nr_ok read_blocks_def Let_def)
qed

lemma dinode_of_inode_block:
  assumes "valid_inr nr"
  shows "dinode_of_bytes (\<lambda>i. dbytes (dev s) (nat (18 + nr div 128) * 8192 + i)) (nat (nr mod 128 * 64)) = disk_inode s nr"
  unfolding disk_inode_def
  by (rule dinode_of_bytes_cong) (simp add: inode_byte_pos [OF assms, symmetric] add.assoc)

lemma get_inode_miss:
  assumes inv: "itab_inv s" "sb_inv s" and nr: "valid_inr nr" and m: "malloc_ok s (malloc_n s)"
    and none: "\<And>p ino. iheap s p = Some ino \<Longrightarrow> i_nr ino \<noteq> nr"
  shows "testfs_get_inode s nr = Ret (malloc_n s, loaded s nr)"
proof -
  obtain t where t: "hash_tbl s = Some t" using inv by (auto simp: itab_inv_def)
  let ?ino = "\<lparr>i_in = zero_dinode, i_dirty = False, i_nr = nr, i_count = 1\<rparr>"
  let ?s1 = "s\<lparr>malloc_n := Suc (malloc_n s)\<rparr>"
  have "sb_inv ?s1" using inv(2) sb_inv_cong [of ?s1 s] by simp
  then have "testfs_read_inode_block ?s1 ?ino = Ret (\<lambda>i. dbytes (dev s) (nat (18 + nr div 128) * 8192 + i))"
    using read_inode_block_ok [of ?s1 ?ino] nr by simp
  then show ?thesis
    using t m hash_find_none [OF inv(1) none] inode_to_block_offset_ok [of ?ino] nr
    by (simp add: testfs_get_inode_def c_malloc_def inode_hash_insert_def hlist_add_head_def
        dinode_of_inode_block loaded_def fresh_inode_def iset_def Let_def)
qed

lemma itab_inv_loaded:
  assumes inv: "itab_inv s" and nr: "valid_inr nr"
    and none: "\<And>p ino. iheap s p = Some ino \<Longrightarrow> i_nr ino \<noteq> nr"
  shows "itab_inv (loaded s nr)"
proof -
  obtain t where t: "hash_tbl s = Some t" "tbl_ok s t" using inv by (auto simp: itab_inv_def)
  have fresh: "iheap s (malloc_n s) = None"
    using inv by (cases "iheap s (malloc_n s)") (auto simp: itab_inv_def inode_ok_def)
  then have notin: "malloc_n s \<notin> set (t h)" for h using tbl_okD [OF t(2)] by fastforce
  let ?t = "t(inode_hashfn nr := malloc_n s # t (inode_hashfn nr))"
  have "tbl_ok (loaded s nr) ?t"
    unfolding tbl_ok_def
  proof (intro conjI allI ballI impI)
    show "distinct (?t h)" for h using t(2) notin by (simp add: tbl_ok_def)
    show "\<exists>ino. iheap (loaded s nr) q = Some ino \<and> inode_hashfn (i_nr ino) = h" if "q \<in> set (?t h)" for q h
      using that tbl_okD [OF t(2), of q h] notin
      by (auto simp: fresh_inode_def split: if_splits)
    show "q \<in> set (?t (inode_hashfn (i_nr ino)))" if "iheap (loaded s nr) q = Some ino" for q ino
      using that tbl_ok_live [OF t(2), of q ino] by (auto simp: fresh_inode_def split: if_splits)
  qed
  moreover have "hash_tbl (loaded s nr) = Some ?t" using t(1) by (simp add: loaded_def)
  moreover have "inode_ok (loaded s nr) q i" if "iheap (loaded s nr) q = Some i" for q i
    using that inv nr by (auto simp: itab_inv_def inode_ok_def fresh_inode_def less_Suc_eq split: if_splits)
  moreover have "one_per_nr (iheap (loaded s nr))"
    using inv none unfolding itab_inv_def one_per_nr_def
    by (auto simp: fresh_inode_def split: if_splits)
  ultimately show ?thesis by (auto simp: itab_inv_def)
qed

lemma bucket_lt: "inode_hashfn nr < 256"
proof -
  have "to_u32 x div 2 ^ 24 < 256" for x
    using to_u32_range(2) [of x] by auto
  then show ?thesis
    using to_u32_range(1) [of "to_u32 nr * GOLDEN_RATIO_PRIME_32"]
    by (simp add: inode_hashfn_def hash_int_def Let_def nat_less_iff)
qed

text \<open>Writing an inode slot changes the 64 bytes of that inode only.\<close>

lemma memcpy_slot:
  "o' + 64 \<le> 8192 \<Longrightarrow> memcpy d b (memcpy (\<lambda>i. d (b + i)) o' m 0 64) 0 8192 j =
     (if b + o' \<le> j \<and> j < b + o' + 64 then m (j - (b + o')) else d j)"
  by (auto simp: memcpy_def)

lemma write_slot_bytes:
  assumes nr: "valid_inr nr"
  defines "P \<equiv> 147456 + nat nr * 64" and "B \<equiv> 18 + nr div 128"
  shows "dbytes (dev (wrote s B (memcpy (\<lambda>i. dbytes (dev s) (nat B * 8192 + i)) (nat (nr mod 128 * 64)) m 0 64))) j
    = (if P \<le> j \<and> j < P + 64 then m (j - P) else dbytes (dev s) j)"
proof -
  have PB: "nat B * 8192 + nat (nr mod 128 * 64) = P" using inode_byte_pos [OF nr] by (simp add: P_def B_def)
  have "nr mod 128 * 64 + 64 \<le> 8192" using pos_mod_bound [of 128 nr] by linarith
  then have "nat (nr mod 128 * 64) + 64 \<le> 8192" by linarith
  then show ?thesis
    using memcpy_slot [of "nat (nr mod 128 * 64)" "dbytes (dev s)" "nat B * 8192" m j] PB
    by (simp add: wrote_def)
qed

lemma disk_inode_slot:
  assumes nr: "valid_inr nr" "valid_inr nr'" and d: "wf_dinode d"
    and b: "\<And>j. dbytes (dev s') j = (if 147456 + nat nr * 64 \<le> j \<and> j < 147456 + nat nr * 64 + 64
              then dinode_bytes d (j - (147456 + nat nr * 64)) else dbytes (dev s) j)"
  shows "disk_inode s' nr' = (if nr' = nr then d else disk_inode s nr')"
proof (cases "nr' = nr")
  case True
  have "disk_inode s' nr = dinode_of_bytes (dinode_bytes d) 0"
    unfolding disk_inode_def by (rule dinode_of_bytes_cong) (simp add: b)
  then show ?thesis using True dinode_roundtrip [OF d] by simp
next
  case False
  then have "nat nr' + 1 \<le> nat nr \<or> nat nr + 1 \<le> nat nr'" using nr by (auto simp: valid_inr_def)
  then have "disk_inode s' nr' = disk_inode s nr'"
    unfolding disk_inode_def by (intro dinode_of_bytes_cong) (auto simp: b)
  then show ?thesis using False by simp
qed

lemma sync_inode_ok:
  assumes inv: "sb_inv s" "itab_inv s" and p: "iheap s p = Some ino" and wf: "wf_dinode (i_in ino)"
  obtains s' where "testfs_sync_inode s p = Ret s'" "itab_inv s'" "sb_inv s'"
    "iheap s' = (iheap s)(p := Some (ino\<lparr>i_dirty := False\<rparr>))" "disk_inode s' (i_nr ino) = i_in ino"
    "\<And>nr. valid_inr nr \<Longrightarrow> nr \<noteq> i_nr ino \<Longrightarrow> disk_inode s' nr = disk_inode s nr"
    "blk_eq s s' {18..<146}" "hash_tbl s' = hash_tbl s" "malloc_n s' = malloc_n s"
    "malloc_ok s' = malloc_ok s" "sout s' = sout s" "dlen (dev s') = dlen (dev s)"
    "bbm s' = bbm s" "ibm s' = ibm s" "sb s' = sb s"
proof (cases "i_dirty ino")
  case False
  then have "testfs_sync_inode s p = Ret s" "disk_inode s (i_nr ino) = i_in ino" "ino\<lparr>i_dirty := False\<rparr> = ino"
    using p inv(2) by (auto simp: testfs_sync_inode_def itab_inv_def inode_ok_def)
  with that [of s] inv p show ?thesis by (simp add: fun_upd_idem)
next
  case True
  have nr: "valid_inr (i_nr ino)" using inv(2) p by (auto simp: itab_inv_def inode_ok_def)
  define B where "B = 18 + i_nr ino div 128"
  define blk where "blk = memcpy (\<lambda>i. dbytes (dev s) (nat B * 8192 + i)) (nat (i_nr ino mod 128 * 64))
    (dinode_bytes (i_in ino)) 0 64"
  define s1 where "s1 = wrote s B blk"
  define s' where "s' = iset s1 p (ino\<lparr>i_dirty := False\<rparr>)"
  note Bb = inode_block_addr [OF nr, folded B_def]
  have lay: "inode_blocks_start (sb s) = 18" "dio (dev s)" and len: "146 * 8192 \<le> dlen (dev s)"
    using inv(1) by (simp_all add: sb_inv_defs)
  have run: "testfs_sync_inode s p = Ret s'"
    using True p nr lay Bb read_inode_block_ok [OF inv(1) nr]
    by (simp add: testfs_sync_inode_def inode_to_block_offset_ok testfs_write_inode_block_def
        inode_to_block_nr_ok write_block_wrote B_def blk_def s'_def s1_def Let_def)
  have bytes: "dbytes (dev s1) j = (if 147456 + nat (i_nr ino) * 64 \<le> j \<and> j < 147456 + nat (i_nr ino) * 64 + 64
      then dinode_bytes (i_in ino) (j - (147456 + nat (i_nr ino) * 64)) else dbytes (dev s) j)" for j
    using write_slot_bytes [OF nr, of s "dinode_bytes (i_in ino)" j] by (simp add: s1_def B_def blk_def)
  note di = disk_inode_slot [OF nr _ wf bytes]
  have inv1: "sb_inv s1" using sb_inv_wrote [OF inv(1) Bb(2)] by (simp add: s1_def)
  have "nat B * 8192 + 8192 \<le> 146 * 8192" using Bb by auto
  then have len': "dlen (dev s1) = dlen (dev s)" using len by (simp add: s1_def max_def)
  have tab: "itab_inv s'"
  proof -
    obtain t where t: "hash_tbl s = Some t" "tbl_ok s t" using inv(2) by (auto simp: itab_inv_def)
    have "tbl_ok s' t" using t(2) p by (rule_tac tbl_ok_cong) (auto simp: s'_def s1_def)
    moreover have "inode_ok s' q i" if q: "iheap s' q = Some i" for q i
    proof (cases "q = p")
      case True
      then show ?thesis using q inv(2) p nr di
        by (auto simp: s'_def s1_def itab_inv_def inode_ok_def wrote_def)
    next
      case False
      then have iq: "iheap s q = Some i" using q by (simp add: s'_def s1_def)
      then have "i_nr i \<noteq> i_nr ino" using False p inv(2) by (auto simp: itab_inv_def one_per_nr_def)
      then show ?thesis using iq inv(2) di
        by (auto simp: s'_def itab_inv_def inode_ok_def s1_def wrote_def)
    qed
    moreover have "one_per_nr (iheap s')"
      using inv(2) p by (auto simp: itab_inv_def one_per_nr_def s'_def s1_def split: if_splits)
    ultimately show ?thesis using t(1) by (auto simp: itab_inv_def s'_def s1_def)
  qed
  have "blk_eq s s' {B}"
    using wrote_blk_eq [of B s blk] Bb(2) by (simp add: s'_def s1_def blk_eq_def)
  moreover have "{B} \<subseteq> {18..<146}" using Bb(2,3) by simp
  ultimately have "blk_eq s s' {18..<146}" by (rule blk_eq_mono)
  moreover have "disk_inode s' = disk_inode s1" by (simp add: s'_def)
  ultimately show ?thesis
  proof (rule_tac that [OF run tab])
    assume d: "disk_inode s' = disk_inode s1"
    show "sb_inv s'" using inv1 by (simp add: s'_def)
    show "disk_inode s' (i_nr ino) = i_in ino" using di [OF nr] d by simp
    show "disk_inode s' nr = disk_inode s nr" if "valid_inr nr" "nr \<noteq> i_nr ino" for nr
      using di [OF that(1)] d that(2) by simp
  qed (use len' in \<open>simp_all add: s'_def s1_def wrote_def bbm_def ibm_def\<close>)
qed

lemma itab_inv_removed:
  assumes inv: "itab_inv s" and p: "iheap s p = Some ino" and t: "hash_tbl s = Some t"
    and h: "h = inode_hashfn (i_nr ino)"
    and s': "s' = s\<lparr>hash_tbl := Some (t(h := remove1 p (t h))), iheap := (iheap s)(p := None)\<rparr>"
  shows "itab_inv s'"
proof -
  have ok: "tbl_ok s t" using inv t by (auto simp: itab_inv_def)
  let ?t = "t(h := remove1 p (t h))"
  have d: "distinct (t k)" for k using ok by (simp add: tbl_ok_def)
  have "tbl_ok s' ?t"
    unfolding tbl_ok_def
  proof (intro conjI allI ballI impI)
    show "distinct (?t k)" for k using d by simp
    show "\<exists>ino. iheap s' q = Some ino \<and> inode_hashfn (i_nr ino) = k" if "q \<in> set (?t k)" for q k
    proof -
      have q: "q \<in> set (t k)" "k = h \<Longrightarrow> q \<noteq> p" using that d [of h] by (auto split: if_splits)
      then obtain i where i: "iheap s q = Some i" "inode_hashfn (i_nr i) = k" using tbl_okD [OF ok] by blast
      then have "q \<noteq> p" using q(2) p h by auto
      then show ?thesis using i by (simp add: s')
    qed
    show "q \<in> set (?t (inode_hashfn (i_nr i)))" if "iheap s' q = Some i" for q i
      using that tbl_ok_live [OF ok, of q i] d [of h] by (auto simp: s' split: if_splits)
  qed
  moreover have "inode_ok s' q i" if "iheap s' q = Some i" for q i
    using that inv by (auto simp: itab_inv_def inode_ok_def s' disk_inode_def split: if_splits)
  moreover have "one_per_nr (iheap s')"
    using inv by (auto simp: itab_inv_def one_per_nr_def s' split: if_splits)
  ultimately show ?thesis by (auto simp: itab_inv_def s')
qed

lemma put_inode_ok:
  assumes inv: "itab_inv s" and p: "iheap s p = Some ino" and c: "\<not> i_dirty ino"
  obtains s' where "testfs_put_inode s p = Ret s'" "itab_inv s'"
    "iheap s' = (iheap s)(p := if i_count ino = 1 then None else Some (ino\<lparr>i_count := i_count ino - 1\<rparr>))"
    "sb s' = sb s" "dev s' = dev s" "inode_freemap s' = inode_freemap s" "block_freemap s' = block_freemap s"
    "malloc_n s' = malloc_n s" "malloc_ok s' = malloc_ok s" "sout s' = sout s"
proof (cases "i_count ino = 1")
  case True
  obtain t where t: "hash_tbl s = Some t" using inv by (auto simp: itab_inv_def)
  define h where "h = inode_hashfn (i_nr ino)"
  define s' where "s' = s\<lparr>hash_tbl := Some (t(h := remove1 p (t h))), iheap := (iheap s)(p := None)\<rparr>"
  have "testfs_put_inode s p = Ret s'"
    using True p c t
    by (simp add: testfs_put_inode_def inode_hash_remove_def hlist_del_def iset_def s'_def h_def Let_def)
  with itab_inv_removed [OF inv p t h_def s'_def] True show ?thesis
    by (rule_tac that [of s']) (simp_all add: s'_def)
next
  case False
  let ?i = "ino\<lparr>i_count := i_count ino - 1\<rparr>"
  have pos: "0 < i_count ino" and "i_in ino = disk_inode s (i_nr ino)"
    using inv p c by (auto simp: itab_inv_def inode_ok_def)
  then have "itab_inv (iset s p ?i)"
    using False by (intro itab_inv_iset [OF inv p]) auto
  moreover have "testfs_put_inode s p = Ret (iset s p ?i)"
    using False p c by (simp add: testfs_put_inode_def Let_def)
  ultimately show ?thesis using False by (rule_tac that [of "iset s p ?i"]) simp_all
qed

lemma put_inode_dirty: "iheap s p = Some ino \<Longrightarrow> i_dirty ino \<Longrightarrow> testfs_put_inode s p = Crash Assert_Fail"
  by (simp add: testfs_put_inode_def)

section \<open>The interface of a reference counted object cache\<close>

locale object_cache =
  fixes inv :: "'s \<Rightarrow> bool" and valid :: "int \<Rightarrow> bool"
    and get :: "'s \<Rightarrow> int \<Rightarrow> ('p \<times> 's) res" and put :: "'s \<Rightarrow> 'p \<Rightarrow> 's res"
    and cnt :: "'s \<Rightarrow> int \<Rightarrow> int" and content :: "'s \<Rightarrow> int \<Rightarrow> 'v"
    and at_ptr :: "'s \<Rightarrow> 'p \<Rightarrow> int option" and clean :: "'s \<Rightarrow> int \<Rightarrow> bool"
  assumes get_ok: "inv s \<Longrightarrow> valid n \<Longrightarrow> \<exists>p s'. get s n = Ret (p, s') \<and> inv s' \<and> at_ptr s' p = Some n \<and>
      cnt s' = (cnt s)(n := cnt s n + 1) \<and> content s' = content s \<and> clean s' = clean s"
    and put_ok: "inv s \<Longrightarrow> at_ptr s p = Some n \<Longrightarrow> clean s n \<Longrightarrow> \<exists>s'. put s p = Ret s' \<and> inv s' \<and>
      cnt s' = (cnt s)(n := cnt s n - 1) \<and> content s' = content s \<and> clean s' = clean s"
    and at_cnt: "inv s \<Longrightarrow> 0 < cnt s n \<Longrightarrow> \<exists>p. at_ptr s p = Some n"
    and get_hit: "inv s \<Longrightarrow> at_ptr s p = Some n \<Longrightarrow> \<exists>s'. get s n = Ret (p, s')"
begin

lemma get_put_restores:
  assumes "inv s" "valid n" "clean s n"
  shows "\<exists>p s1 s2. get s n = Ret (p, s1) \<and> put s1 p = Ret s2 \<and> inv s2 \<and> cnt s2 = cnt s \<and>
    content s2 = content s \<and> clean s2 = clean s"
proof -
  obtain p s1 where g: "get s n = Ret (p, s1)" "inv s1" "at_ptr s1 p = Some n"
    "cnt s1 = (cnt s)(n := cnt s n + 1)" "content s1 = content s" "clean s1 = clean s"
    using get_ok [OF assms(1,2)] by metis
  obtain s2 where "put s1 p = Ret s2" "inv s2" "cnt s2 = (cnt s1)(n := cnt s1 n - 1)"
    "content s2 = content s1" "clean s2 = clean s1"
    using put_ok [OF g(2,3)] g(6) assms(3) by metis
  then show ?thesis using g by auto
qed

lemma get_shares:
  assumes "inv s" "valid n"
  shows "\<exists>p s1 s2. get s n = Ret (p, s1) \<and> get s1 n = Ret (p, s2) \<and> inv s2 \<and>
    cnt s2 = (cnt s)(n := cnt s n + 2) \<and> content s2 = content s"
proof -
  obtain p s1 where g: "get s n = Ret (p, s1)" "inv s1" "at_ptr s1 p = Some n"
    "cnt s1 = (cnt s)(n := cnt s n + 1)" "content s1 = content s"
    using get_ok [OF assms] by metis
  obtain q s2 where h: "get s1 n = Ret (q, s2)" "inv s2" "cnt s2 = (cnt s1)(n := cnt s1 n + 1)"
    "content s2 = content s1"
    using get_ok [OF g(2) assms(2)] by metis
  moreover have "q = p" using get_hit [OF g(2,3)] h(1) by auto
  ultimately show ?thesis using g by auto
qed

end

section \<open>The inode table is such a cache\<close>

definition fs_inv :: "fs \<Rightarrow> bool" where
  "fs_inv s \<longleftrightarrow> sb_inv s \<and> itab_inv s \<and> malloc_works s"

text \<open>Changing, entering and dropping an inode, seen by inode number.\<close>

lemma icount_upd:
  assumes inv: "itab_inv s" "itab_inv s'" and p: "iheap s p = Some ino" and nr: "i_nr ino' = i_nr ino"
    and h: "iheap s' = (iheap s)(p := Some ino')"
  shows "icount s' = (icount s)(i_nr ino := i_count ino')"
    and "(\<And>n. n \<noteq> i_nr ino \<Longrightarrow> disk_inode s' n = disk_inode s n) \<Longrightarrow> ival s' = (ival s)(i_nr ino := i_in ino')"
proof -
  have live: "iheap s' p = Some ino'" using h by simp
  have "(iheap s' q = Some i \<and> i_nr i = n) = (iheap s q = Some i \<and> i_nr i = n)" if "n \<noteq> i_nr ino" for n q i
    using that h nr p by (cases "q = p") auto
  note same = icount_same [OF inv this]
  show "icount s' = (icount s)(i_nr ino := i_count ino')"
    using same icount_live [OF inv(2) live] nr by (intro ext) simp
  show "ival s' = (ival s)(i_nr ino := i_in ino')" if "\<And>n. n \<noteq> i_nr ino \<Longrightarrow> disk_inode s' n = disk_inode s n"
    using same that ival_live [OF inv(2) live] nr by (intro ext) simp
qed

lemma icount_enter:
  assumes inv: "itab_inv s" "itab_inv s'" and p: "iheap s p = None" "iheap s' = (iheap s)(p := Some ino)"
    and none: "\<And>q i. iheap s q = Some i \<Longrightarrow> i_nr i \<noteq> i_nr ino" and d: "disk_inode s' = disk_inode s"
    and v: "i_in ino = disk_inode s (i_nr ino)"
  shows "icount s' = (icount s)(i_nr ino := i_count ino)" "icount s (i_nr ino) = 0" "ival s' = ival s"
proof -
  have live: "iheap s' p = Some ino" using p by simp
  show "icount s (i_nr ino) = 0" by (rule icount_none [OF inv(1) none])
  have "(iheap s' q = Some i \<and> i_nr i = n) = (iheap s q = Some i \<and> i_nr i = n)" if "n \<noteq> i_nr ino" for n q i
    using that p by (cases "q = p") auto
  note same = icount_same [OF inv this]
  show "icount s' = (icount s)(i_nr ino := i_count ino)"
    using same icount_live [OF inv(2) live] by (intro ext) simp
  have "ival s' (i_nr ino) = ival s (i_nr ino)"
    using ival_live [OF inv(2) live] ival_none [OF inv(1) none] v by simp
  then show "ival s' = ival s" using same d by (intro ext) metis
qed

lemma icount_drop:
  assumes inv: "itab_inv s" "itab_inv s'" and p: "iheap s p = Some ino" "iheap s' = (iheap s)(p := None)"
    and d: "disk_inode s' = disk_inode s" and v: "i_in ino = disk_inode s (i_nr ino)"
  shows "icount s' = (icount s)(i_nr ino := 0)" "ival s' = ival s"
proof -
  have none: "i_nr i \<noteq> i_nr ino" if "iheap s' q = Some i" for q i
    using that p inv(1) unfolding itab_inv_def one_per_nr_def by (auto split: if_splits)
  have "(iheap s' q = Some i \<and> i_nr i = n) = (iheap s q = Some i \<and> i_nr i = n)" if "n \<noteq> i_nr ino" for n q i
    using that p by (cases "q = p") auto
  note same = icount_same [OF inv this]
  show "icount s' = (icount s)(i_nr ino := 0)"
    using same icount_none [OF inv(2) none] by (intro ext) simp
  have "ival s' (i_nr ino) = ival s (i_nr ino)"
    using ival_live [OF inv(1) p(1)] ival_none [OF inv(2) none] v d by simp
  then show "ival s' = ival s" using same d by (intro ext) metis
qed

lemma iclean_upd:
  assumes "itab_inv s" "iheap s p = Some ino" "i_nr ino' = i_nr ino" "i_dirty ino' = i_dirty ino"
    "iheap s' = (iheap s)(p := Some ino')"
  shows "iclean s' = iclean s"
  using assms by (intro ext) (auto simp: iclean_def split: if_splits)

lemma iat_Some: "iat s p = Some n \<longleftrightarrow> (\<exists>ino. iheap s p = Some ino \<and> i_nr ino = n)"
  by (simp add: iat_def)

lemma get_inode_ok:
  assumes inv: "fs_inv s" and nr: "valid_inr nr"
  shows "\<exists>p s'. testfs_get_inode s nr = Ret (p, s') \<and> fs_inv s' \<and> iat s' p = Some nr \<and>
    icount s' = (icount s)(nr := icount s nr + 1) \<and> ival s' = ival s \<and> iclean s' = iclean s"
proof (cases "\<exists>p ino. iheap s p = Some ino \<and> i_nr ino = nr")
  case True
  then obtain p ino where p: "iheap s p = Some ino" "i_nr ino = nr" by blast
  let ?i = "ino\<lparr>i_count := i_count ino + 1\<rparr>"
  have tab: "itab_inv s" using inv by (simp add: fs_inv_def)
  then have tab': "itab_inv (iset s p ?i)"
    using itab_live [OF tab p(1)] by (intro itab_inv_iset [OF tab p(1)]) (simp_all add: inode_ok_def)
  have "ival (iset s p ?i) = ival s"
    using icount_upd(2) [OF tab tab' p(1), of ?i] ival_live [OF tab p(1)] by (simp add: fun_upd_idem)
  moreover have "icount (iset s p ?i) = (icount s)(nr := icount s nr + 1)"
    using icount_upd(1) [OF tab tab' p(1), of ?i] icount_live [OF tab p(1)] p(2) by simp
  moreover have "iclean (iset s p ?i) = iclean s" by (rule iclean_upd [OF tab p(1)]) simp_all
  ultimately show ?thesis
    using get_inode_hit [OF tab p(1)] p tab' inv by (auto simp: fs_inv_def malloc_works_def iat_Some)
next
  case False
  have tab: "itab_inv s" and sbi: "sb_inv s" and m: "malloc_ok s (malloc_n s)"
    using inv by (simp_all add: fs_inv_def malloc_works_def)
  have none: "\<And>p ino. iheap s p = Some ino \<Longrightarrow> i_nr ino \<noteq> nr" using False by blast
  note tab' = itab_inv_loaded [OF tab nr none]
  have fresh: "iheap s (malloc_n s) = None"
    using tab by (cases "iheap s (malloc_n s)") (auto simp: itab_inv_def inode_ok_def)
  have heap: "iheap (loaded s nr) = (iheap s)(malloc_n s := Some (fresh_inode s nr))" by simp
  have "sb_inv (loaded s nr)" using sbi sb_inv_cong [of "loaded s nr" s] by simp
  moreover have "iclean (loaded s nr) = iclean s"
    using none fresh by (intro ext) (auto simp: iclean_def fresh_inode_def split: if_splits, metis option.distinct(1))
  ultimately show ?thesis
    using get_inode_miss [OF tab sbi nr m none] icount_enter [OF tab tab' fresh heap] none tab' inv
    by (auto simp: fs_inv_def malloc_works_def iat_Some fresh_inode_def)
qed

lemma put_inode_counts:
  assumes inv: "fs_inv s" and p: "iat s p = Some nr" and c: "iclean s nr"
  shows "\<exists>s'. testfs_put_inode s p = Ret s' \<and> fs_inv s' \<and>
    icount s' = (icount s)(nr := icount s nr - 1) \<and> ival s' = ival s \<and> iclean s' = iclean s"
proof -
  have tab: "itab_inv s" using inv by (simp add: fs_inv_def)
  obtain ino where i: "iheap s p = Some ino" "i_nr ino = nr" using p by (auto simp: iat_Some)
  have cl: "\<not> i_dirty ino" using c i by (auto simp: iclean_def)
  then have v: "i_in ino = disk_inode s (i_nr ino)" using tab i by (auto simp: itab_inv_def inode_ok_def)
  obtain s' where s': "testfs_put_inode s p = Ret s'" "itab_inv s'"
    and h: "iheap s' = (iheap s)(p := if i_count ino = 1 then None else Some (ino\<lparr>i_count := i_count ino - 1\<rparr>))"
    and e: "sb s' = sb s" "dev s' = dev s" "inode_freemap s' = inode_freemap s" "block_freemap s' = block_freemap s"
      "malloc_ok s' = malloc_ok s"
    by (rule put_inode_ok [OF tab i(1) cl])
  have d: "disk_inode s' = disk_inode s" by (simp add: disk_inode_def e fun_eq_iff)
  have "fs_inv s'" using inv s'(2) sb_inv_cong [OF e(1-4)] e(5) by (simp add: fs_inv_def malloc_works_def)
  moreover have "icount s' = (icount s)(nr := icount s nr - 1) \<and> ival s' = ival s \<and> iclean s' = iclean s"
  proof (cases "i_count ino = 1")
    case True
    then have h': "iheap s' = (iheap s)(p := None)" using h by simp
    have "iclean s' = iclean s"
      using i cl h' by (intro ext) (auto simp: iclean_def split: if_splits, metis option.inject)
    then show ?thesis
      using icount_drop [OF tab s'(2) i(1) h' d v] icount_live [OF tab i(1)] True i by simp
  next
    case False
    then have h': "iheap s' = (iheap s)(p := Some (ino\<lparr>i_count := i_count ino - 1\<rparr>))" using h by simp
    have "iclean s' = iclean s" by (rule iclean_upd [OF tab i(1) _ _ h']) simp_all
    moreover have "ival s' = ival s"
      using icount_upd(2) [OF tab s'(2) i(1) _ h'] ival_live [OF tab i(1)] d
      by (simp add: fun_upd_idem)
    ultimately show ?thesis
      using icount_upd(1) [OF tab s'(2) i(1) _ h'] icount_live [OF tab i(1)] i by simp
  qed
  ultimately show ?thesis using s'(1) by blast
qed

interpretation itab: object_cache fs_inv valid_inr testfs_get_inode testfs_put_inode icount ival iat iclean
proof
  show "\<exists>p. iat s p = Some n" if "fs_inv s" "0 < icount s n" for s n
    using that icount_none [of s n] by (auto simp: fs_inv_def iat_Some)
  show "\<exists>s'. testfs_get_inode s n = Ret (p, s')" if "fs_inv s" "iat s p = Some n" for s p n
    using that get_inode_hit [of s p] by (auto simp: fs_inv_def iat_Some)
qed (fact get_inode_ok put_inode_counts)+

section \<open>Properties\<close>

text \<open>A freshly formatted device satisfies the whole invariant, with no inode in memory.\<close>

lemma format_fs_inv:
  assumes "malloc_works s" "dio (dev s)" "0 \<le> max_blocks" "max_blocks \<le> 1048576" "iheap s = (\<lambda>_. None)"
  obtains s' where "format_device s max_blocks = Ret s'" "fs_inv s'" "used (ibm s') = {}" "ublocks s' = {}"
    "max_fs_blocks (sb s') = max_blocks" "iheap s' = (\<lambda>_. None)" "hash_tbl s' = Some (\<lambda>_. [])"
    "\<And>i. 18 * 8192 \<le> i \<Longrightarrow> dbytes (dev s') i = 0" "\<And>nr. iclean s' nr"
proof -
  obtain s' where s': "format_device s max_blocks = Ret s'" "sb_inv s'" "used (ibm s') = {}" "used (bbm s') = {}"
    "max_fs_blocks (sb s') = max_blocks" "hash_tbl s' = Some (\<lambda>_. [])" "malloc_works s'" "iheap s' = iheap s"
    "\<forall>i \<ge> 18 * 8192. dbytes (dev s') i = 0"
    using format_device_ok [OF assms(1-4)] by blast
  have "tbl_ok s' (\<lambda>_. [])" using s'(8) assms(5) by (simp add: tbl_ok_def)
  then have "itab_inv s'" using s' assms(5) by (simp add: itab_inv_def one_per_nr_def)
  with s' assms(5) show ?thesis
    by (rule_tac that [of s']) (simp_all add: fs_inv_def ublocks_def iclean_def)
qed

lemma proc0_heap [simp]: "iheap proc0 = (\<lambda>_. None)"
  by (simp add: proc0_def)

lemma zero_disk_inode:
  assumes "\<And>i. 18 * 8192 \<le> i \<Longrightarrow> dbytes (dev s) i = 0"
  shows "disk_inode s nr = zero_dinode"
proof -
  have "disk_inode s nr = dinode_of_bytes zero_mem 0"
    unfolding disk_inode_def by (rule dinode_of_bytes_cong) (simp add: assms)
  then show ?thesis by (simp add: dinode_of_bytes_def zero_dinode_def list_eq_iff_nth_eq)
qed

lemma ex_empty_fs:
  "\<exists>s. fs_inv s \<and> iheap s = (\<lambda>_. None) \<and> ublocks s = {} \<and> used (ibm s) = {} \<and> max_fs_blocks (sb s) = 128 \<and>
     hash_tbl s = Some (\<lambda>_. []) \<and> (\<forall>nr. iclean s nr \<and> disk_inode s nr = zero_dinode)"
proof (rule format_fs_inv [of proc0 128])
  fix s' assume s': "fs_inv s'" "used (ibm s') = {}" "ublocks s' = {}" "max_fs_blocks (sb s') = 128"
    "iheap s' = (\<lambda>_. None)" "hash_tbl s' = Some (\<lambda>_. [])" "\<And>i. 18 * 8192 \<le> i \<Longrightarrow> dbytes (dev s') i = 0"
    "\<And>nr. iclean s' nr"
  then show ?thesis using zero_disk_inode [OF s'(7)] by blast
qed simp_all

text \<open>
  Getting an inode twice gives the same in-memory inode, counted twice; the contents seen
  through the table are those before, for every inode.
\<close>

theorem inode_get_shares:
  assumes "fs_inv s" "valid_inr nr"
  shows "\<exists>p s1 s2. testfs_get_inode s nr = Ret (p, s1) \<and> testfs_get_inode s1 nr = Ret (p, s2) \<and>
    fs_inv s2 \<and> icount s2 = (icount s)(nr := icount s nr + 2) \<and> ival s2 = ival s"
  using itab.get_shares [OF assms] .

theorem inode_get_shares_witness:
  "\<exists>s p s1 s2. fs_inv s \<and> testfs_get_inode s 5 = Ret (p, s1) \<and> testfs_get_inode s1 5 = Ret (p, s2)"
proof -
  obtain s where "fs_inv s" using ex_empty_fs by blast
  then show ?thesis
    using inode_get_shares [of s 5] by (auto simp: valid_inr_def)
qed

text \<open>
  Getting a clean inode and putting it back restores every reference count and leaves the
  contents of every inode as they were.
\<close>

theorem inode_get_put_restores:
  assumes "fs_inv s" "valid_inr nr" "iclean s nr"
  shows "\<exists>p s1 s2. testfs_get_inode s nr = Ret (p, s1) \<and> testfs_put_inode s1 p = Ret s2 \<and> fs_inv s2 \<and>
    icount s2 = icount s \<and> ival s2 = ival s \<and> iclean s2 = iclean s"
  using itab.get_put_restores [OF assms] .

theorem inode_get_put_restores_witness:
  "\<exists>s p s1 s2. fs_inv s \<and> testfs_get_inode s 7 = Ret (p, s1) \<and> testfs_put_inode s1 p = Ret s2 \<and>
     icount s2 = icount s"
proof -
  obtain s where "fs_inv s" "iclean s 7" using ex_empty_fs by blast
  then show ?thesis
    using inode_get_put_restores [of s 7] by (auto simp: valid_inr_def)
qed

text \<open>
  C4: \<^verbatim>\<open>testfs_sync_inode\<close> persists an inode. After a sync and a put of the last
  reference the inode is gone from memory, and getting it again from the device gives back the
  contents it had, while no other inode and no data block has changed. Putting a dirty inode
  without the sync fails its assertion.
\<close>

theorem inode_sync_persists:
  assumes inv: "fs_inv s" and p: "iheap s p = Some ino" and one: "i_count ino = 1" and wf: "wf_dinode (i_in ino)"
  shows "\<exists>s1 s2 q s3. testfs_sync_inode s p = Ret s1 \<and> testfs_put_inode s1 p = Ret s2 \<and> iheap s2 p = None \<and>
    testfs_get_inode s2 (i_nr ino) = Ret (q, s3) \<and> map_option i_in (iheap s3 q) = Some (i_in ino) \<and>
    fs_inv s3 \<and> (\<forall>nr. valid_inr nr \<longrightarrow> ival s3 nr = ival s nr) \<and> blk_eq s s3 {18..<146} \<and> ublocks s3 = ublocks s \<and>
    (i_dirty ino \<longrightarrow> testfs_put_inode s p = Crash Assert_Fail)"
proof -
  have tab: "itab_inv s" and sbi: "sb_inv s" using inv by (simp_all add: fs_inv_def)
  let ?i = "ino\<lparr>i_dirty := False\<rparr>"
  obtain s1 where s1: "testfs_sync_inode s p = Ret s1" "itab_inv s1" "sb_inv s1" "iheap s1 = (iheap s)(p := Some ?i)"
    "disk_inode s1 (i_nr ino) = i_in ino" "\<And>nr. valid_inr nr \<Longrightarrow> nr \<noteq> i_nr ino \<Longrightarrow> disk_inode s1 nr = disk_inode s nr"
    "blk_eq s s1 {18..<146}" "malloc_ok s1 = malloc_ok s" "bbm s1 = bbm s"
    by (rule sync_inode_ok [OF sbi tab p wf]) blast
  have live: "iheap s1 p = Some ?i" using s1(4) by simp
  have fs1: "fs_inv s1" using s1 inv by (simp add: fs_inv_def malloc_works_def)
  obtain s2 where s2: "testfs_put_inode s1 p = Ret s2" "itab_inv s2" "iheap s2 = (iheap s1)(p := None)" "dev s2 = dev s1"
      "sb s2 = sb s1" "inode_freemap s2 = inode_freemap s1" "block_freemap s2 = block_freemap s1" "malloc_ok s2 = malloc_ok s1"
    by (rule put_inode_ok [OF s1(2) live]) (simp_all add: one)
  have fs2: "fs_inv s2"
    using fs1 s2 sb_inv_cong [of s2 s1] by (simp add: fs_inv_def malloc_works_def)
  have nr: "valid_inr (i_nr ino)" using itab_live [OF tab p] by (simp add: inode_ok_def)
  obtain q s3 where s3: "testfs_get_inode s2 (i_nr ino) = Ret (q, s3)" "fs_inv s3" "iat s3 q = Some (i_nr ino)" "ival s3 = ival s2"
    using get_inode_ok [OF fs2 nr] by blast
  have none: "i_nr i \<noteq> i_nr ino" if "iheap s2 r = Some i" for r i
    using that s2(3) live s1(2) unfolding itab_inv_def one_per_nr_def by (auto split: if_splits)
  have m: "malloc_ok s2 (malloc_n s2)" and sb2: "sb_inv s2" using fs2 by (simp_all add: fs_inv_def malloc_works_def)
  have s3': "s3 = loaded s2 (i_nr ino)"
    using get_inode_miss [OF s2(2) sb2 nr m none] s3(1) by simp
  have d2: "disk_inode s2 = disk_inode s1" using s2(4) by (simp add: disk_inode_def fun_eq_iff)
  have "ival s3 n = ival s n" if n: "valid_inr n" for n
  proof (cases "n = i_nr ino")
    case True
    then show ?thesis using s3(4) ival_none [OF s2(2) none] d2 s1(5) ival_live [OF tab p] by simp
  next
    case False
    have "(iheap s2 r = Some i \<and> i_nr i = n) = (iheap s r = Some i \<and> i_nr i = n)" for r i
      using s2(3) s1(4) p False by (cases "r = p") auto
    from icount_same(2) [OF tab s2(2) this] show ?thesis using s3(4) d2 s1(6) [OF n False] by simp
  qed
  moreover have "map_option i_in (iheap s3 q) = Some (i_in ino)"
    using get_inode_miss [OF s2(2) sb2 nr m none] s3(1) d2 s1(5) by (auto simp: fresh_inode_def)
  moreover have "blk_eq s s3 {18..<146}" using s1(7) s2(4) by (simp add: s3' blk_eq_def dblock_def)
  moreover have "ublocks s3 = ublocks s" using s1(9) s2(7) by (simp add: s3' ublocks_def bbm_def)
  ultimately show ?thesis
    using s1(1) s2(1,3) s3(1,2) put_inode_dirty [OF p] by auto
qed

theorem inode_sync_persists_witness:
  "\<exists>s p ino s1 s2 q s3. fs_inv s \<and> iheap s p = Some ino \<and> testfs_sync_inode s p = Ret s1 \<and>
     testfs_put_inode s1 p = Ret s2 \<and> iheap s2 p = None \<and> testfs_get_inode s2 5 = Ret (q, s3) \<and>
     map_option i_in (iheap s3 q) = Some (i_in ino)"
proof -
  obtain s0 where s0: "fs_inv s0" "iheap s0 = (\<lambda>_. None)" using ex_empty_fs by blast
  then have "testfs_get_inode s0 5 = Ret (malloc_n s0, loaded s0 5)"
    by (intro get_inode_miss) (auto simp: fs_inv_def malloc_works_def valid_inr_def)
  then have inv: "fs_inv (loaded s0 5)"
    using get_inode_ok [OF s0(1), of 5] by (auto simp: valid_inr_def)
  have "wf_dinode (i_in (fresh_inode s0 5))" "i_count (fresh_inode s0 5) = 1" "i_nr (fresh_inode s0 5) = 5"
    by (simp_all add: fresh_inode_def disk_inode_def)
  moreover have "iheap (loaded s0 5) (malloc_n s0) = Some (fresh_inode s0 5)" by simp
  ultimately show ?thesis
    using inode_sync_persists [OF inv, of "malloc_n s0" "fresh_inode s0 5"] inv by metis
qed

lemma fs_inv_frame:
  assumes "fs_inv s" "sb_inv s'" "blk_eq s s' {}" "mem_eq s s'"
  shows "fs_inv s'"
proof -
  have "disk_inode s' nr = disk_inode s nr" if "valid_inr nr" for nr
    by (rule disk_inode_blk_eq [OF assms(3) _ that]) simp
  with itab_inv_frame [OF _ assms(4)] assms show ?thesis
    by (simp add: fs_inv_def mem_eq_def malloc_works_def)
qed

text \<open>The two ways on from the inode number \<^verbatim>\<open>testfs_create_inode\<close> got.\<close>

lemma create_inode_back_out:
  assumes fs1: "fs_inv s1" and i: "i \<in> used (ibm s1)" "16384 \<le> i" "i < 65536"
    and get: "testfs_get_inode_freemap s = Ret (int i, s1)"
  obtains s2 where "testfs_create_inode s ty = Ret (Inl (- ENOSPC), s2)" "fs_inv s2"
    "used (ibm s2) = used (ibm s1) - {i}" "iheap s2 = iheap s1" "ublocks s2 = ublocks s1"
proof -
  obtain s2 where s2: "testfs_put_inode_freemap s1 (int i) = Ret s2" "used (ibm s2) = used (ibm s1) - {i}"
    "sb_inv s2" "blk_eq s1 s2 {}" "mem_eq s1 s2" "bbm s2 = bbm s1"
    using put_inode_freemap_ok [of s1 i] fs1 i(1) by (auto simp: fs_inv_def)
  have "128 \<le> int i div 128" using i by linarith
  then have "testfs_create_inode s ty = Ret (Inl (- ENOSPC), s2)"
    using get i s2(1) by (simp add: testfs_create_inode_def)
  with that [of s2] fs_inv_frame [OF fs1 s2(3-5)] s2 show ?thesis
    by (simp add: mem_eq_def ublocks_def)
qed

lemma create_inode_enter:
  assumes fs1: "fs_inv s1" and i: "i < 16384" and get: "testfs_get_inode_freemap s = Ret (int i, s1)"
    and none: "\<And>p ino. iheap s1 p = Some ino \<Longrightarrow> i_nr ino \<noteq> int i"
  obtains p s' ino where "testfs_create_inode s ty = Ret (Inr p, s')" "fs_inv s'" "iheap s1 p = None"
    "iheap s' = (iheap s1)(p := Some ino)" "i_nr ino = int i" "i_dirty ino" "i_count ino = 1"
    "i_in ino = (disk_inode s1 (int i))\<lparr>i_type := type_code ty\<rparr>" "ublocks s' = ublocks s1" "ibm s' = ibm s1"
    "dev s' = dev s1" "sb s' = sb s1"
proof -
  have nr: "valid_inr (int i)" using i by (simp add: valid_inr_def)
  have tab1: "itab_inv s1" and sb1: "sb_inv s1" and m1: "malloc_ok s1 (malloc_n s1)"
    using fs1 by (simp_all add: fs_inv_def malloc_works_def)
  define p f where "p = malloc_n s1" and "f = fresh_inode s1 (int i)"
  define ino where "ino = f\<lparr>i_in := (i_in f)\<lparr>i_type := type_code ty\<rparr>, i_dirty := True\<rparr>"
  define s' where "s' = iset (loaded s1 (int i)) p ino"
  note tab2 = itab_inv_loaded [OF tab1 nr none]
  have "itab_inv s'"
    unfolding s'_def by (rule itab_inv_iset [OF tab2, where ino = f]) (simp_all add: p_def f_def ino_def fresh_inode_def)
  moreover have "sb_inv (loaded s1 (int i))" using sb1 sb_inv_cong [of "loaded s1 (int i)" s1] by simp
  ultimately have "fs_inv s'" using fs1 by (simp add: fs_inv_def malloc_works_def s'_def)
  moreover have "\<not> 128 \<le> int i div 128" using i by linarith
  then have "testfs_create_inode s ty = Ret (Inr p, s')"
    using get get_inode_miss [OF tab1 sb1 nr m1 none] i
    by (simp add: testfs_create_inode_def p_def s'_def ino_def f_def)
  moreover have "iheap s1 p = None"
    using tab1 by (cases "iheap s1 p") (auto simp: itab_inv_def inode_ok_def p_def)
  ultimately show ?thesis
    by (rule_tac that [of p s' ino]) (simp_all add: s'_def p_def ino_def f_def fresh_inode_def)
qed

lemma blk_eq_dev: "blk_eq s s1 X \<Longrightarrow> dev s2 = dev s1 \<Longrightarrow> blk_eq s s2 X"
  by (simp add: blk_eq_def dblock_def)

lemma create_inode_ok:
  assumes inv: "fs_inv s" and fresh: "\<forall>p ino. iheap s p = Some ino \<longrightarrow> nat (i_nr ino) \<in> used (ibm s)"
  shows "(\<exists>s'. testfs_create_inode s ty = Ret (Inl (- ENOSPC), s') \<and> fs_inv s' \<and> used (ibm s') = used (ibm s) \<and>
      iheap s' = iheap s \<and> ublocks s' = ublocks s \<and> {0..<16384} \<subseteq> used (ibm s)) \<or>
    (\<exists>p s' nr ino. testfs_create_inode s ty = Ret (Inr p, s') \<and> fs_inv s' \<and> valid_inr nr \<and> nat nr \<notin> used (ibm s) \<and>
      used (ibm s') = insert (nat nr) (used (ibm s)) \<and> iheap s p = None \<and> iheap s' = (iheap s)(p := Some ino) \<and>
      i_nr ino = nr \<and> i_dirty ino \<and> i_count ino = 1 \<and> i_in ino = (disk_inode s nr)\<lparr>i_type := type_code ty\<rparr> \<and>
      ublocks s' = ublocks s \<and> blk_eq s s' {} \<and> dlen (dev s') = dlen (dev s) \<and> max_fs_blocks (sb s') = max_fs_blocks (sb s))"
proof -
  have sbi: "sb_inv s" using inv by (simp add: fs_inv_def)
  consider "testfs_get_inode_freemap s = Ret (- ENOSPC, s)" "used (ibm s) = {0..<65536}"
    | i s1 where "testfs_get_inode_freemap s = Ret (int i, s1)" "i < 65536" "i \<notin> used (ibm s)"
        "used (ibm s1) = insert i (used (ibm s))" "sb_inv s1" "blk_eq s s1 {}" "mem_eq s s1" "bbm s1 = bbm s"
        "{0..<i} \<subseteq> used (ibm s)" "dlen (dev s1) = dlen (dev s)" "max_fs_blocks (sb s1) = max_fs_blocks (sb s)"
    using get_inode_freemap_cases [OF sbi] by blast
  then show ?thesis
  proof cases
    case 1
    then show ?thesis using inv by (auto simp: testfs_create_inode_def ENOSPC_def)
  next
    case (2 i s1)
    note fs1 = fs_inv_frame [OF inv 2(5-7)]
    have eqs: "ublocks s1 = ublocks s" "iheap s1 = iheap s" using 2 by (simp_all add: ublocks_def mem_eq_def)
    show ?thesis
    proof (cases "i < 16384")
      case False
      obtain s2 where "testfs_create_inode s ty = Ret (Inl (- ENOSPC), s2)" "fs_inv s2"
        "used (ibm s2) = used (ibm s1) - {i}" "iheap s2 = iheap s1" "ublocks s2 = ublocks s1"
        by (rule create_inode_back_out [where ty = ty, OF fs1 _ _ 2(2,1)]) (use 2(4) False in auto)
      moreover have "{0..<16384} \<subseteq> used (ibm s)" using 2(9) False by fastforce
      ultimately show ?thesis using eqs 2(3,4) by auto
    next
      case True
      have none: "i_nr ino \<noteq> int i" if "iheap s1 p = Some ino" for p ino
        using that fresh 2(3) eqs by (metis nat_int)
      have "disk_inode s1 (int i) = disk_inode s (int i)"
        using True by (intro disk_inode_blk_eq [OF 2(6)]) (auto simp: valid_inr_def)
      moreover obtain p s' ino where "testfs_create_inode s ty = Ret (Inr p, s')" "fs_inv s'" "iheap s1 p = None"
        "iheap s' = (iheap s1)(p := Some ino)" "i_nr ino = int i" "i_dirty ino" "i_count ino = 1"
        "i_in ino = (disk_inode s1 (int i))\<lparr>i_type := type_code ty\<rparr>" "ublocks s' = ublocks s1" "ibm s' = ibm s1"
    "dev s' = dev s1" "sb s' = sb s1"
        by (rule create_inode_enter [where ty = ty, OF fs1 True 2(1) none])
      ultimately show ?thesis
        using True eqs 2(3,4) by (intro disjI2 exI [of _ p] exI [of _ s'] exI [of _ "int i"] exI [of _ ino])
          (simp add: valid_inr_def 2(10,11) blk_eq_dev [OF 2(6)])
    qed
  qed
qed

text \<open>
  \<^verbatim>\<open>testfs_create_inode\<close> takes an inode number that was free, leaves a dirty
  in-memory inode of the requested type referenced once, and touches no data block; it returns
  \<^verbatim>\<open>-ENOSPC\<close>, with the freemap and the table as they were, only when all 16384 inode
  numbers that have a place in the inode blocks are in use.
\<close>

theorem create_inode_correct:
  assumes inv: "fs_inv s" and fresh: "\<forall>p ino. iheap s p = Some ino \<longrightarrow> nat (i_nr ino) \<in> used (ibm s)"
  shows "(\<exists>s'. testfs_create_inode s ty = Ret (Inl (- ENOSPC), s') \<and> fs_inv s' \<and> used (ibm s') = used (ibm s) \<and>
      iheap s' = iheap s \<and> ublocks s' = ublocks s \<and> {0..<16384} \<subseteq> used (ibm s)) \<or>
    (\<exists>p s' nr ino. testfs_create_inode s ty = Ret (Inr p, s') \<and> fs_inv s' \<and> valid_inr nr \<and> nat nr \<notin> used (ibm s) \<and>
      used (ibm s') = insert (nat nr) (used (ibm s)) \<and> iheap s p = None \<and> iheap s' = (iheap s)(p := Some ino) \<and>
      i_nr ino = nr \<and> i_dirty ino \<and> i_count ino = 1 \<and> i_in ino = (disk_inode s nr)\<lparr>i_type := type_code ty\<rparr> \<and>
      ublocks s' = ublocks s)"
  using create_inode_ok [OF assms, of ty] by blast

theorem create_inode_correct_witness:
  "\<exists>s p s'. fs_inv s \<and> testfs_create_inode s I_FILE = Ret (Inr p, s') \<and> fs_inv s'"
proof -
  obtain s where s: "fs_inv s" "iheap s = (\<lambda>_. None)" "used (ibm s) = {}" using ex_empty_fs by blast
  then show ?thesis using create_inode_correct [OF s(1), of I_FILE] by auto
qed

end
