(* ===== verification/FS_ReadWrite.thy ===== *)
theory FS_ReadWrite
  imports FS_Inode
begin

text \<open>
  File contents (\<^verbatim>\<open>fs/read_write.c\<close>, and \<^verbatim>\<open>testfs_remove_inode\<close> of
  \<^verbatim>\<open>fs/inode.c\<close>, which calls it): mapping a logical block of a file to a physical one
  through the direct, indirect and double indirect pointers, allocating blocks on demand, reading
  and writing byte ranges, and freeing all blocks of a file. This theory holds the operations;
  their lemmas are in the theories that import it.
\<close>

section \<open>Block pointers in a block\<close>

text \<open>
  \<^verbatim>\<open>((int *)block)[k]\<close> for a buffer of one block: an index outside the block is undefined.
\<close>

definition ptr_at :: "mem \<Rightarrow> int \<Rightarrow> int res" where
  "ptr_at block k = bnd (guard_ub (0 \<le> k \<and> k < int NR_INDIRECT_BLOCKS)) (\<lambda>_. Ret (get_s32 block (4 * nat k)))"

definition set_ptr :: "mem \<Rightarrow> int \<Rightarrow> int \<Rightarrow> mem" where
  "set_ptr block k x = put32 block (4 * nat k) x"

text \<open>Reading and changing the disk inode inside an in-memory inode.\<close>

definition get_din :: "fs \<Rightarrow> nat \<Rightarrow> dinode res" where
  "get_din s p = bnd (deref (iheap s p)) (\<lambda>ino. Ret (i_in ino))"

definition upd_din :: "fs \<Rightarrow> nat \<Rightarrow> (dinode \<Rightarrow> dinode) \<Rightarrow> fs res" where
  "upd_din s p f = bnd (deref (iheap s p)) (\<lambda>ino. Ret (iset s p (ino\<lparr>i_in := f (i_in ino)\<rparr>)))"

section \<open>Reading\<close>

definition NRI :: int where
  "NRI = int NR_INDIRECT_BLOCKS"

text \<open>\<^verbatim>\<open>testfs_read_block\<close> returns the physical block number and the block's contents.\<close>

definition testfs_read_block :: "fs \<Rightarrow> nat \<Rightarrow> int \<Rightarrow> (int \<times> mem) res" where
  "testfs_read_block s p log_block_nr =
    bnd (c_assert (log_block_nr \<ge> 0)) (\<lambda>_.
    bnd (get_din s p) (\<lambda>d.
    bnd (if log_block_nr < int NR_DIRECT_BLOCKS then Ret (i_block_nr d ! nat log_block_nr)
         else
           let log = log_block_nr - int NR_DIRECT_BLOCKS in
           if log \<ge> NRI \<and> i_dindirect d > 0 then
             bnd (read_blocks s (i_dindirect d) 1) (\<lambda>block2.
             let dindirectindex = (log - NRI) div NRI; directindex = (log - NRI) mod NRI in
             bnd (ptr_at block2 dindirectindex) (\<lambda>phy.
             if phy > 0 then bnd (read_blocks s phy 1) (\<lambda>block. ptr_at block directindex)
             else Ret phy))
           else if i_indirect d > 0 then
             bnd (read_blocks s (i_indirect d) 1) (\<lambda>block. ptr_at block log)
           else Ret 0) (\<lambda>phy_block_nr.
    if phy_block_nr > 0 then
      bnd (read_blocks s phy_block_nr 1) (\<lambda>block. Ret (phy_block_nr, block))
    else Ret (phy_block_nr, zero_mem))))"

text \<open>The largest file size in bytes and in blocks, as the source spells them.\<close>

definition MAX_FILE_BYTES :: int where
  "MAX_FILE_BYTES = 34376597504"

definition MAX_FILE_BLOCKS :: int where
  "MAX_FILE_BLOCKS = 4196362"

abbreviation BS :: int where
  "BS \<equiv> int BLOCK_SIZE"

text \<open>
  The loop over the full blocks of a read. \<^verbatim>\<open>ret=testfs_read_block(..)<0\<close> assigns the
  comparison, so the early return gives 1. \<^verbatim>\<open>pos\<close> is how far \<^verbatim>\<open>buf\<close> has advanced.
\<close>

function read_full ::
  "fs \<Rightarrow> nat \<Rightarrow> int \<Rightarrow> int \<Rightarrow> int \<Rightarrow> mem \<Rightarrow> nat \<Rightarrow> (int \<times> mem + int \<times> int \<times> mem \<times> nat) res" where
  "read_full s p block_nr i remain buf pos =
     (if remain > BS then
        bnd (testfs_read_block s p (to_s32 (block_nr + (i + 1)))) (\<lambda>(phy, block).
        if phy < 0 then Ret (Inl (1, buf))
        else read_full s p block_nr (i + 1) (remain - BS)
               (memcpy buf pos block 0 BLOCK_SIZE) (pos + BLOCK_SIZE))
      else Ret (Inr (i, remain, buf, pos)))"
  by pat_completeness auto
termination
  by (relation "measure (\<lambda>(s, p, block_nr, i, remain, buf, pos). nat remain)") auto

declare read_full.simps [simp del]

text \<open>
  \<^verbatim>\<open>testfs_read_data\<close> returns the C result and the caller's buffer. \<^verbatim>\<open>size\<close> is a
  \<^verbatim>\<open>size_t\<close>, \<^verbatim>\<open>start\<close> an \<^verbatim>\<open>off_t\<close>. Reading changes nothing else.
\<close>

definition testfs_read_data :: "fs \<Rightarrow> nat \<Rightarrow> mem \<Rightarrow> int \<Rightarrow> int \<Rightarrow> (int \<times> mem) res" where
  "testfs_read_data s p buf start size0 =
    (let block_nr = c_div start BS; block_ix = c_mod start BS in
     if size0 > to_u64 (MAX_FILE_BYTES - start) then Ret (- EFBIG, buf)
     else
       bnd (get_din s p) (\<lambda>d.
       let sz = (if to_s64 (start + to_s64 size0) > i_size d then to_u64 (i_size d - start) else size0) in
       if to_u64 (block_ix + sz) > BS then
         if sz > MAX_FILE_BYTES then Ret (- EFBIG, buf)
         else
           bnd (testfs_read_block s p (to_s32 block_nr)) (\<lambda>(ret, block).
           if ret < 0 then Ret (ret, buf)
           else
             bnd (guard_ub (0 \<le> block_ix)) (\<lambda>_.
             let first = BS - block_ix;
                 buf1 = memcpy buf 0 block (nat block_ix) (nat first);
                 remain = to_s64 (sz - first) in
             bnd (read_full s p block_nr 0 remain buf1 (nat first)) (\<lambda>r.
               case r of
                 Inl early \<Rightarrow> Ret early
               | Inr (i, remain', buf2, pos) \<Rightarrow>
                   if c_mod remain' BS \<noteq> 0 then
                     bnd (testfs_read_block s p (to_s32 (block_nr + i + 1))) (\<lambda>(phy, block').
                     if phy < 0 then Ret (1, buf2)
                     else Ret (to_s32 sz, memcpy buf2 pos block' 0 (nat (c_mod remain' BS))))
                   else Ret (to_s32 sz, buf2))))
       else
         bnd (testfs_read_block s p (to_s32 block_nr)) (\<lambda>(ret, block).
         if ret < 0 then Ret (ret, buf)
         else
           bnd (guard_ub (0 \<le> block_ix \<and> block_ix + sz \<le> BS)) (\<lambda>_.
           Ret (to_s32 sz, memcpy buf 0 block (nat block_ix) (nat sz))))))"

section \<open>Allocating\<close>

text \<open>
  The double indirect case of \<^verbatim>\<open>testfs_allocate_block\<close>, in its three steps. First: the
  double indirect block, new or read; the flag is \<^verbatim>\<open>dindirect_allocated\<close>.
\<close>

definition get_dindirect :: "fs \<Rightarrow> nat \<Rightarrow> (int \<times> fs + mem \<times> bool \<times> fs) res" where
  "get_dindirect s p =
    bnd (get_din s p) (\<lambda>d.
    if i_dindirect d = 0 then
      bnd (testfs_alloc_block_for_inode s p) (\<lambda>(phy, s1).
      if phy < 0 then Ret (Inl (phy, s1))
      else bnd (upd_din s1 p (i_dindirect_update (\<lambda>_. phy))) (\<lambda>s2. Ret (Inr (zero_mem, True, s2))))
    else bnd (read_blocks s (i_dindirect d) 1) (\<lambda>m. Ret (Inr (m, False, s))))"

text \<open>Second: the indirect block it points to, new or read; the flag is \<^verbatim>\<open>indirect_allocated\<close>.\<close>

definition get_indirect_of ::
  "fs \<Rightarrow> nat \<Rightarrow> mem \<Rightarrow> bool \<Rightarrow> int \<Rightarrow> (int \<times> fs + mem \<times> mem \<times> bool \<times> fs) res" where
  "get_indirect_of s p dindirect dindirect_allocated dindirectindex =
    bnd (ptr_at dindirect dindirectindex) (\<lambda>e.
    if e = 0 then
      bnd (testfs_alloc_block_for_inode s p) (\<lambda>(phy, s1).
      if phy \<ge> 0 then
        let dindirect' = set_ptr dindirect dindirectindex phy in
        bnd (write_blocks s1 zero_mem phy 1) (\<lambda>s2.
        bnd (get_din s2 p) (\<lambda>d.
        bnd (write_blocks s2 dindirect' (i_dindirect d) 1) (\<lambda>s3.
        Ret (Inr (dindirect', zero_mem, True, s3)))))
      else if dindirect_allocated then
        bnd (get_din s1 p) (\<lambda>d.
        bnd (testfs_free_block_from_inode s1 p (i_dindirect d)) (\<lambda>s2.
        bnd (upd_din s2 p (i_dindirect_update (\<lambda>_. 0))) (\<lambda>s3.
        Ret (Inl (phy, s3)))))
      else Ret (Inl (phy, s1)))
    else bnd (read_blocks s e 1) (\<lambda>m. Ret (Inr (dindirect, m, False, s))))"

text \<open>Third: the data block itself, with the clean-up when there is no space.\<close>

definition alloc_in_indirect_of ::
  "fs \<Rightarrow> nat \<Rightarrow> mem \<Rightarrow> mem \<Rightarrow> bool \<Rightarrow> bool \<Rightarrow> int \<Rightarrow> int \<Rightarrow> (int \<times> fs) res" where
  "alloc_in_indirect_of s p dindirect indirect dindirect_allocated indirect_allocated
     dindirectindex directindex =
    bnd (testfs_alloc_block_for_inode s p) (\<lambda>(phy, s1).
    bnd (ptr_at dindirect dindirectindex) (\<lambda>e.
    bnd (get_din s1 p) (\<lambda>d.
    if phy \<ge> 0 then
      bnd (write_blocks s1 (set_ptr indirect directindex phy) e 1) (\<lambda>s2.
      bnd (write_blocks s2 dindirect (i_dindirect d) 1) (\<lambda>s3.
      Ret (phy, s3)))
    else if indirect_allocated \<and> \<not> dindirect_allocated then
      bnd (testfs_free_block_from_inode s1 p e) (\<lambda>s2. Ret (phy, s2))
    else if dindirect_allocated then
      bnd (testfs_free_block_from_inode s1 p e) (\<lambda>s2.
      bnd (testfs_free_block_from_inode s2 p (i_dindirect d)) (\<lambda>s3.
      bnd (upd_din s3 p (i_dindirect_update (\<lambda>_. 0))) (\<lambda>s4.
      Ret (phy, s4))))
    else Ret (phy, s1))))"

definition alloc_double :: "fs \<Rightarrow> nat \<Rightarrow> int \<Rightarrow> (int \<times> fs) res" where
  "alloc_double s p log =
    bnd (get_dindirect s p) (\<lambda>r.
      case r of
        Inl (e, s1) \<Rightarrow> Ret (e, s1)
      | Inr (dindirect, dindirect_allocated, s1) \<Rightarrow>
          let dindirectindex = c_div (log - NRI) NRI; directindex = c_mod (log - NRI) NRI in
          bnd (get_indirect_of s1 p dindirect dindirect_allocated dindirectindex) (\<lambda>r'.
            case r' of
              Inl (e, s2) \<Rightarrow> Ret (e, s2)
            | Inr (dindirect', indirect, indirect_allocated, s2) \<Rightarrow>
                alloc_in_indirect_of s2 p dindirect' indirect dindirect_allocated
                  indirect_allocated dindirectindex directindex))"

text \<open>The direct and the single indirect case.\<close>

definition alloc_direct :: "fs \<Rightarrow> nat \<Rightarrow> int \<Rightarrow> (int \<times> fs) res" where
  "alloc_direct s p log =
    bnd (get_din s p) (\<lambda>d.
    bnd (c_assert (i_block_nr d ! nat log = 0)) (\<lambda>_.
    bnd (testfs_alloc_block_for_inode s p) (\<lambda>(phy, s1).
    if phy \<ge> 0 then
      bnd (upd_din s1 p (i_block_nr_update (\<lambda>bs. bs[nat log := phy]))) (\<lambda>s2. Ret (phy, s2))
    else Ret (phy, s1))))"

definition alloc_single :: "fs \<Rightarrow> nat \<Rightarrow> int \<Rightarrow> (int \<times> fs) res" where
  "alloc_single s p log =
    bnd (get_din s p) (\<lambda>d.
    bnd (if i_indirect d = 0 then
           bnd (testfs_alloc_block_for_inode s p) (\<lambda>(phy, s1).
           if phy < 0 then Ret (Inl (phy, s1))
           else bnd (upd_din s1 p (i_indirect_update (\<lambda>_. phy))) (\<lambda>s2. Ret (Inr (zero_mem, True, s2))))
         else bnd (read_blocks s (i_indirect d) 1) (\<lambda>m. Ret (Inr (m, False, s)))) (\<lambda>r.
      case r of
        Inl (e, s1) \<Rightarrow> Ret (e, s1)
      | Inr (indirect, indirect_allocated, s1) \<Rightarrow>
          bnd (ptr_at indirect log) (\<lambda>e.
          bnd (c_assert (e = 0)) (\<lambda>_.
          bnd (testfs_alloc_block_for_inode s1 p) (\<lambda>(phy, s2).
          bnd (get_din s2 p) (\<lambda>d2.
          if phy \<ge> 0 then
            bnd (write_blocks s2 (set_ptr indirect log phy) (i_indirect d2) 1) (\<lambda>s3. Ret (phy, s3))
          else if indirect_allocated then
            bnd (testfs_free_block_from_inode s2 p (i_indirect d2)) (\<lambda>s3.
            bnd (upd_din s3 p (i_indirect_update (\<lambda>_. 0))) (\<lambda>s4.
            Ret (phy, s4)))
          else Ret (phy, s2)))))))"

text \<open>
  \<^verbatim>\<open>testfs_allocate_block\<close> returns the physical block number (or an error), the contents of
  the block and the state. The size limit is checked after the block has been read.
\<close>

definition testfs_allocate_block :: "fs \<Rightarrow> nat \<Rightarrow> int \<Rightarrow> (int \<times> mem \<times> fs) res" where
  "testfs_allocate_block s p log_block_nr =
    bnd (c_assert (log_block_nr \<ge> 0)) (\<lambda>_.
    bnd (testfs_read_block s p log_block_nr) (\<lambda>(phy_block_nr, block).
    if log_block_nr \<ge> MAX_FILE_BLOCKS then Ret (- EFBIG, block, s)
    else if phy_block_nr \<noteq> 0 then Ret (phy_block_nr, block, s)
    else if log_block_nr < int NR_DIRECT_BLOCKS then
      bnd (alloc_direct s p log_block_nr) (\<lambda>(phy, s1). Ret (phy, block, s1))
    else
      let log = log_block_nr - int NR_DIRECT_BLOCKS in
      if log \<ge> NRI then bnd (alloc_double s p log) (\<lambda>(phy, s1). Ret (phy, block, s1))
      else bnd (alloc_single s p log) (\<lambda>(phy, s1). Ret (phy, block, s1))))"

section \<open>Writing\<close>

function write_full ::
  "fs \<Rightarrow> nat \<Rightarrow> int \<Rightarrow> int \<Rightarrow> int \<Rightarrow> mem \<Rightarrow> nat \<Rightarrow> (int \<times> fs + int \<times> nat \<times> fs) res" where
  "write_full s p block_nr i tempSize buf pos =
     (if tempSize > BS then
        bnd (testfs_allocate_block s p (to_s32 (block_nr + (i + 1)))) (\<lambda>(ret, block, s1).
        if ret < 0 then Ret (Inl (ret, s1))
        else
          bnd (write_blocks s1 (memcpy block 0 buf pos BLOCK_SIZE) ret 1) (\<lambda>s2.
          write_full s2 p block_nr (i + 1) (tempSize - BS) buf (pos + BLOCK_SIZE)))
      else Ret (Inr (i, pos, s)))"
  by pat_completeness auto
termination
  by (relation "measure (\<lambda>(s, p, block_nr, i, tempSize, buf, pos). nat tempSize)") auto

declare write_full.simps [simp del]

text \<open>The code behind the label \<^verbatim>\<open>out\<close>.\<close>

definition write_out :: "fs \<Rightarrow> nat \<Rightarrow> int \<Rightarrow> int \<Rightarrow> bool \<Rightarrow> (int \<times> fs) res" where
  "write_out s p start sz check =
    bnd (deref (iheap s p)) (\<lambda>ino.
    let d = i_in ino;
        d' = (if sz > 0 then d\<lparr>i_size := max (i_size d) (to_s64 (start + to_s64 sz))\<rparr> else d);
        s' = iset s p (ino\<lparr>i_in := d', i_dirty := True\<rparr>) in
    Ret (if check then - EFBIG else to_s32 sz, s'))"

definition testfs_write_data :: "fs \<Rightarrow> nat \<Rightarrow> mem \<Rightarrow> int \<Rightarrow> int \<Rightarrow> (int \<times> fs) res" where
  "testfs_write_data s p buf start size0 =
    (let block_nr = c_div start BS; block_ix = c_mod start BS in
     if to_u64 (block_ix + size0) > BS then
       let lim = to_u64 (MAX_FILE_BYTES - start);
           check = (size0 > lim);
           sz = (if check then lim else size0) in
       bnd (testfs_allocate_block s p (to_s32 block_nr)) (\<lambda>(ret, block, s1).
       if ret < 0 then Ret (ret, s1)
       else
         bnd (guard_ub (0 \<le> block_ix)) (\<lambda>_.
         let first = BS - block_ix;
             rest = to_u64 (sz - first) in
         bnd (write_blocks s1 (memcpy block (nat block_ix) buf 0 (nat first)) ret 1) (\<lambda>s2.
         bnd (if rest > BS then write_full s2 p block_nr 0 (to_s64 rest) buf (nat first)
              else Ret (Inr (0, nat first, s2))) (\<lambda>r.
           case r of
             Inl (ret', s3) \<Rightarrow> Ret (ret', s3)
           | Inr (i, pos, s3) \<Rightarrow>
               if i = 0 then
                 bnd (testfs_allocate_block s3 p (to_s32 (block_nr + 1))) (\<lambda>(ret', block', s4).
                 if ret' < 0 then write_out s4 p start sz check
                 else
                   bnd (guard_ub (rest \<le> BS)) (\<lambda>_.
                   bnd (write_blocks s4 (memcpy block' 0 buf pos (nat rest)) ret' 1) (\<lambda>s5.
                   write_out s5 p start sz check)))
               else
                 bnd (testfs_allocate_block s3 p (to_s32 (block_nr + i + 1))) (\<lambda>(ret', block', s4).
                 if ret' < 0 then Ret (ret', s4)
                 else
                   let n = to_u64 (rest - i * BS) in
                   bnd (guard_ub (n \<le> BS)) (\<lambda>_.
                   bnd (write_blocks s4 (memcpy block' 0 buf pos (nat n)) ret' 1) (\<lambda>s5.
                   write_out s5 p start sz check)))))))
     else
       bnd (testfs_allocate_block s p (to_s32 block_nr)) (\<lambda>(ret, block, s1).
       if ret < 0 then Ret (ret, s1)
       else
         bnd (guard_ub (0 \<le> block_ix \<and> block_ix + size0 \<le> BS)) (\<lambda>_.
         bnd (write_blocks s1 (memcpy block (nat block_ix) buf 0 (nat size0)) ret 1) (\<lambda>s2.
         write_out s2 p start size0 False))))"

section \<open>Freeing\<close>

function free_direct :: "fs \<Rightarrow> nat \<Rightarrow> int \<Rightarrow> nat \<Rightarrow> fs res" where
  "free_direct s p e_block_nr i =
     (if int i < e_block_nr \<and> i < NR_DIRECT_BLOCKS then
        bnd (get_din s p) (\<lambda>d.
        if i_block_nr d ! i = 0 then free_direct s p e_block_nr (Suc i)
        else
          bnd (testfs_free_block_from_inode s p (i_block_nr d ! i)) (\<lambda>s1.
          bnd (upd_din s1 p (i_block_nr_update (\<lambda>bs. bs[i := 0]))) (\<lambda>s2.
          free_direct s2 p e_block_nr (Suc i))))
      else Ret s)"
  by pat_completeness auto
termination
  by (relation "measure (\<lambda>(s, p, e, i). NR_DIRECT_BLOCKS - i)") auto

text \<open>The loop over an indirect block; \<^verbatim>\<open>block\<close> is the local copy.\<close>

function free_indirect :: "fs \<Rightarrow> nat \<Rightarrow> mem \<Rightarrow> int \<Rightarrow> nat \<Rightarrow> fs res" where
  "free_indirect s p block e_block_nr i =
     (if int i < e_block_nr \<and> i < NR_INDIRECT_BLOCKS then
        (if get_s32 block (4 * i) = 0 then free_indirect s p block e_block_nr (Suc i)
         else
           bnd (testfs_free_block_from_inode s p (get_s32 block (4 * i))) (\<lambda>s1.
           free_indirect s1 p (set_ptr block (int i) 0) e_block_nr (Suc i)))
      else Ret s)"
  by pat_completeness auto
termination
  by (relation "measure (\<lambda>(s, p, b, e, i). NR_INDIRECT_BLOCKS - i)") auto

text \<open>The inner and the outer loop over the double indirect block; \<^verbatim>\<open>k\<close> counts blocks.\<close>

function free_inner :: "fs \<Rightarrow> nat \<Rightarrow> mem \<Rightarrow> int \<Rightarrow> int \<Rightarrow> nat \<Rightarrow> (int \<times> fs) res" where
  "free_inner s p blockin e_block_nr k j =
     (if j < NR_INDIRECT_BLOCKS \<and> k < e_block_nr then
        (if get_s32 blockin (4 * j) > 0 then
           bnd (testfs_free_block_from_inode s p (get_s32 blockin (4 * j))) (\<lambda>s1.
           free_inner s1 p (set_ptr blockin (int j) 0) e_block_nr (k + 1) (Suc j))
         else free_inner s p blockin e_block_nr (k + 1) (Suc j))
      else Ret (k, s))"
  by pat_completeness auto
termination
  by (relation "measure (\<lambda>(s, p, b, e, k, j). NR_INDIRECT_BLOCKS - j)") auto

function free_outer :: "fs \<Rightarrow> nat \<Rightarrow> mem \<Rightarrow> int \<Rightarrow> int \<Rightarrow> nat \<Rightarrow> fs res" where
  "free_outer s p blockinD e_block_nr k i =
     (if k < e_block_nr \<and> i < NR_INDIRECT_BLOCKS then
        (if get_s32 blockinD (4 * i) > 0 then
           bnd (read_blocks s (get_s32 blockinD (4 * i)) 1) (\<lambda>blockin.
           bnd (free_inner s p blockin e_block_nr k 0) (\<lambda>(k', s1).
           bnd (testfs_free_block_from_inode s1 p (get_s32 blockinD (4 * i))) (\<lambda>s2.
           free_outer s2 p (set_ptr blockinD (int i) 0) e_block_nr k' (Suc i))))
         else free_outer s p blockinD e_block_nr k (Suc i))
      else Ret s)"
  by pat_completeness auto
termination
  by (relation "measure (\<lambda>(s, p, b, e, k, i). NR_INDIRECT_BLOCKS - i)") auto

declare free_direct.simps [simp del] free_indirect.simps [simp del]
  free_inner.simps [simp del] free_outer.simps [simp del]

definition free_single_part :: "fs \<Rightarrow> nat \<Rightarrow> int \<Rightarrow> fs res" where
  "free_single_part s p e_block_nr =
    bnd (get_din s p) (\<lambda>d.
    if i_indirect d > 0 then
      bnd (c_assert (e_block_nr > 0)) (\<lambda>_.
      bnd (read_blocks s (i_indirect d) 1) (\<lambda>block.
      bnd (free_indirect s p block e_block_nr 0) (\<lambda>s1.
      bnd (get_din s1 p) (\<lambda>d1.
      bnd (testfs_free_block_from_inode s1 p (i_indirect d1)) (\<lambda>s2.
      upd_din s2 p (i_indirect_update (\<lambda>_. 0)))))))
    else Ret s)"

definition free_double_part :: "fs \<Rightarrow> nat \<Rightarrow> int \<Rightarrow> fs res" where
  "free_double_part s p e_block_nr =
    bnd (get_din s p) (\<lambda>d.
    if e_block_nr > 0 \<and> i_dindirect d > 0 then
      bnd (read_blocks s (i_dindirect d) 1) (\<lambda>blockinD.
      bnd (free_outer s p blockinD e_block_nr 0 0) (\<lambda>s1.
      bnd (get_din s1 p) (\<lambda>d1.
      bnd (testfs_free_block_from_inode s1 p (i_dindirect d1)) (\<lambda>s2.
      upd_din s2 p (i_dindirect_update (\<lambda>_. 0))))))
    else Ret s)"

definition testfs_free_blocks :: "fs \<Rightarrow> nat \<Rightarrow> (int \<times> fs) res" where
  "testfs_free_blocks s p =
    bnd (get_din s p) (\<lambda>d.
    let e_block_nr = to_s32 (c_div (i_size d + BS - 1) BS) in
    bnd (free_direct s p e_block_nr 0) (\<lambda>s1.
    let e1 = e_block_nr - int NR_DIRECT_BLOCKS in
    bnd (free_single_part s1 p e1) (\<lambda>s2.
    let e2 = e1 - NRI in
    bnd (free_double_part s2 p e2) (\<lambda>s3.
    bnd (deref (iheap s3 p)) (\<lambda>ino.
    Ret (0, iset s3 p (ino\<lparr>i_in := (i_in ino)\<lparr>i_size := 0\<rparr>, i_dirty := True\<rparr>)))))))"

definition testfs_remove_inode :: "fs \<Rightarrow> nat \<Rightarrow> fs res" where
  "testfs_remove_inode s p =
    bnd (testfs_free_blocks s p) (\<lambda>(_, s1).
    bnd (deref (iheap s1 p)) (\<lambda>ino.
    bnd (c_assert (block_count (i_in ino) = 0)) (\<lambda>_.
    let s2 = iset s1 p (ino\<lparr>i_in := zero_dinode, i_dirty := True\<rparr>) in
    bnd (testfs_put_inode_freemap s2 (i_nr ino)) (\<lambda>s3.
    bnd (testfs_sync_inode s3 p) (\<lambda>s4.
    testfs_put_inode s4 p)))))"

end
