(* ===== verification/FS_FileMap.thy ===== *)
theory FS_FileMap
  imports FS_ReadWrite
begin

text \<open>
  The block map of a file. A file owns physical blocks through slots: its direct pointers, the
  indirect block and its entries, the double indirect block, the indirect blocks it points to and
  their entries. The invariant \<^verbatim>\<open>file_ok\<close> says that the slots in use hold pairwise distinct
  blocks that are marked in the block freemap and that \<^verbatim>\<open>block_count\<close> counts them.
  The theory proves that \<^verbatim>\<open>testfs_read_block\<close> computes the block map, and the effect of
  the steps the other operations are made of on the state and on the slots.
\<close>

section \<open>Slots\<close>

datatype slot =
    SDir nat          \<comment> \<open>\<^verbatim>\<open>i_block_nr[k]\<close>\<close>
  | SInd              \<comment> \<open>\<^verbatim>\<open>i_indirect\<close>\<close>
  | SIndE nat         \<comment> \<open>an entry of the indirect block\<close>
  | SDInd             \<comment> \<open>\<^verbatim>\<open>i_dindirect\<close>\<close>
  | SL2 nat           \<comment> \<open>an entry of the double indirect block\<close>
  | SDE nat nat       \<comment> \<open>an entry of the indirect block in such an entry\<close>

text \<open>An entry of a pointer block, and the block a slot holds (0 when it is empty).\<close>

definition bget :: "(int \<Rightarrow> mem) \<Rightarrow> int \<Rightarrow> nat \<Rightarrow> int" where
  "bget D b k = (if b = 0 then 0 else get_s32 (D b) (4 * k))"

fun sval :: "(int \<Rightarrow> mem) \<Rightarrow> dinode \<Rightarrow> slot \<Rightarrow> int" where
  "sval D d (SDir k) = i_block_nr d ! k"
| "sval D d SInd = i_indirect d"
| "sval D d (SIndE k) = bget D (i_indirect d) k"
| "sval D d SDInd = i_dindirect d"
| "sval D d (SL2 i) = bget D (i_dindirect d) i"
| "sval D d (SDE i j) = bget D (bget D (i_dindirect d) i) j"

definition slots :: "slot set" where
  "slots = SDir ` {0..<10} \<union> {SInd, SDInd} \<union> SIndE ` {0..<2048} \<union> SL2 ` {0..<2048} \<union>
     (\<lambda>(i, j). SDE i j) ` ({0..<2048} \<times> {0..<2048})"

lemma slots_simps [simp]:
  "SDir k \<in> slots \<longleftrightarrow> k < 10" "SInd \<in> slots" "SDInd \<in> slots" "SIndE k \<in> slots \<longleftrightarrow> k < 2048"
  "SL2 i \<in> slots \<longleftrightarrow> i < 2048" "SDE i j \<in> slots \<longleftrightarrow> i < 2048 \<and> j < 2048"
  by (auto simp: slots_def)

lemma finite_slots [simp]: "finite slots"
  by (simp add: slots_def)

definition live :: "(int \<Rightarrow> mem) \<Rightarrow> dinode \<Rightarrow> slot set" where
  "live D d = {x \<in> slots. sval D d x \<noteq> 0}"

lemma finite_live [simp]: "finite (live D d)"
  by (simp add: live_def)

lemma live_iff: "x \<in> live D d \<longleftrightarrow> x \<in> slots \<and> sval D d x \<noteq> 0"
  by (simp add: live_def)

definition fblocks :: "(int \<Rightarrow> mem) \<Rightarrow> dinode \<Rightarrow> int set" where
  "fblocks D d = sval D d ` live D d"

definition file_ok :: "fs \<Rightarrow> dinode \<Rightarrow> bool" where
  "file_ok s d \<longleftrightarrow> wf_dinode d \<and> fblocks (dblock s) d \<subseteq> ublocks s \<and>
     inj_on (sval (dblock s) d) (live (dblock s) d) \<and> block_count d = int (card (live (dblock s) d))"

text \<open>The blocks of the file outside \<^verbatim>\<open>X\<close> lie within the device file.\<close>

definition on_dev :: "fs \<Rightarrow> int \<Rightarrow> bool" where
  "on_dev s b \<longleftrightarrow> nat b * 8192 + 8192 \<le> dlen (dev s)"

definition backed :: "fs \<Rightarrow> dinode \<Rightarrow> int set \<Rightarrow> bool" where
  "backed s d X \<longleftrightarrow> (\<forall>b \<in> fblocks (dblock s) d - X. on_dev s b)"

text \<open>The slot of a logical block and the block map of a file.\<close>

definition leaf :: "nat \<Rightarrow> slot" where
  "leaf l = (if l < 10 then SDir l else if l < 2058 then SIndE (l - 10)
             else SDE ((l - 2058) div 2048) ((l - 2058) mod 2048))"

definition bmap :: "fs \<Rightarrow> dinode \<Rightarrow> nat \<Rightarrow> int" where
  "bmap s d l = sval (dblock s) d (leaf l)"

definition fbyte :: "fs \<Rightarrow> dinode \<Rightarrow> nat \<Rightarrow> byte" where
  "fbyte s d i = (let b = bmap s d (i div 8192) in if b = 0 then 0 else dblock s b (i mod 8192))"

lemma leaf_slots: "l < 4196362 \<Longrightarrow> leaf l \<in> slots"
  by (auto simp: leaf_def)

lemma leaf_inj:
  assumes "leaf l = leaf m" shows "l = m"
proof -
  have "(l - 2058) div 2048 = (m - 2058) div 2048 \<Longrightarrow> (l - 2058) mod 2048 = (m - 2058) mod 2048 \<Longrightarrow>
      l - 2058 = m - 2058"
    by (metis div_mult_mod_eq)
  with assms show ?thesis by (auto simp: leaf_def split: if_splits)
qed

lemma leaf_not [simp]: "leaf l \<noteq> SInd" "leaf l \<noteq> SDInd" "leaf l \<noteq> SL2 i"
  by (simp_all add: leaf_def)

section \<open>What a file owns\<close>

lemma file_ok_slot:
  assumes "file_ok s d" "x \<in> slots" "sval (dblock s) d x \<noteq> 0"
  shows "sval (dblock s) d x \<in> ublocks s"
  using assms by (auto simp: file_ok_def fblocks_def live_iff)

lemma file_ok_pos:
  assumes "file_ok s d" "sb_inv s" "x \<in> slots"
  shows "sval (dblock s) d x = 0 \<or> 146 \<le> sval (dblock s) d x \<and> sval (dblock s) d x < 1048722"
  using file_ok_slot [OF assms(1,3)] ublocks_bounds [OF assms(2)] by auto

lemma file_ok_distinct:
  assumes "file_ok s d" "x \<in> slots" "y \<in> slots" "sval (dblock s) d x = sval (dblock s) d y" "sval (dblock s) d x \<noteq> 0"
  shows "x = y"
  using assms by (auto simp: file_ok_def inj_on_def live_iff)

lemma backed_slot: "backed s d X \<Longrightarrow> x \<in> slots \<Longrightarrow> sval (dblock s) d x \<notin> insert 0 X \<Longrightarrow> on_dev s (sval (dblock s) d x)"
  by (auto simp: backed_def fblocks_def live_iff)

lemma bget_cong: "(\<And>i. i < 8192 \<Longrightarrow> D' b i = D b i) \<Longrightarrow> k < 2048 \<Longrightarrow> bget D' b k = bget D b k"
  unfolding bget_def by (auto intro!: get_32_cong)

text \<open>The slots depend on the pointer blocks of the file only.\<close>

lemma sval_cong:
  assumes "\<And>k. k < 10 \<Longrightarrow> i_block_nr d' ! k = i_block_nr d ! k" "i_indirect d' = i_indirect d"
    "i_dindirect d' = i_dindirect d"
    and "\<And>x i. x \<in> {SInd, SDInd} \<union> SL2 ` {0..<2048} \<Longrightarrow> sval D d x \<noteq> 0 \<Longrightarrow> i < 8192 \<Longrightarrow>
       D' (sval D d x) i = D (sval D d x) i"
    and "x \<in> slots"
  shows "sval D' d' x = sval D d x"
proof -
  have ind: "bget D' (i_indirect d) k = bget D (i_indirect d) k" if "k < 2048" for k
    using assms(4) [of SInd] that by (cases "i_indirect d = 0") (auto simp: bget_def [of _ 0] intro: bget_cong)
  have dind: "bget D' (i_dindirect d) k = bget D (i_dindirect d) k" if "k < 2048" for k
    using assms(4) [of SDInd] that by (cases "i_dindirect d = 0") (auto simp: bget_def [of _ 0] intro: bget_cong)
  have l2: "bget D' (bget D (i_dindirect d) i) j = bget D (bget D (i_dindirect d) i) j" if "i < 2048" "j < 2048" for i j
    using assms(4) [of "SL2 i"] that
    by (cases "bget D (i_dindirect d) i = 0") (auto simp: bget_def [of _ 0] intro: bget_cong)
  show ?thesis
    using assms(1-3,5) ind dind l2 by (cases x) auto
qed

lemma live_cong: "(\<And>x. x \<in> slots \<Longrightarrow> sval D' d' x = sval D d x) \<Longrightarrow> live D' d' = live D d"
  by (auto simp: live_def)

lemma fblocks_cong: "(\<And>x. x \<in> slots \<Longrightarrow> sval D' d' x = sval D d x) \<Longrightarrow> fblocks D' d' = fblocks D d"
  using live_cong [of D' d' D d] unfolding fblocks_def by (auto simp: live_iff)

section \<open>Reading a block\<close>

lemma read_block_ok: "sb_inv s \<Longrightarrow> 0 \<le> b \<Longrightarrow> on_dev s b \<Longrightarrow> read_blocks s b (Suc 0) = Ret (dblock s b)"
  by (simp add: read_blocks_def on_dev_def dblock_def sb_inv_dio Let_def)

lemma ptr_at_ok: "k < 2048 \<Longrightarrow> ptr_at m (int k) = Ret (get_s32 m (4 * k))"
  by (simp add: ptr_at_def)

text \<open>
  The file is readable at logical block \<^verbatim>\<open>l\<close>: within the size limit, and not in the double
  indirect range of a file that has an indirect block and no double indirect one, where the code
  indexes the indirect block out of its bounds.
\<close>

definition readable :: "dinode \<Rightarrow> nat \<Rightarrow> bool" where
  "readable d l \<longleftrightarrow> l < 4196362 \<and> (l < 2058 \<or> i_dindirect d \<noteq> 0 \<or> i_indirect d = 0)"

definition lblock :: "fs \<Rightarrow> dinode \<Rightarrow> nat \<Rightarrow> mem" where
  "lblock s d l = (if bmap s d l = 0 then zero_mem else dblock s (bmap s d l))"

lemma read_block_bmap:
  assumes ok: "file_ok s d" "sb_inv s" "backed s d {}" and p: "get_din s p = Ret d" and l: "readable d l"
  shows "testfs_read_block s p (int l) = Ret (bmap s d l, lblock s d l)"
proof -
  have nz: "sval (dblock s) d x = 0 \<or> 146 \<le> sval (dblock s) d x \<and> on_dev s (sval (dblock s) d x)" if "x \<in> slots" for x
    using file_ok_pos [OF ok(1,2) that] backed_slot [OF ok(3) that] by auto
  have rd: "read_blocks s (sval (dblock s) d x) (Suc 0) = Ret (dblock s (sval (dblock s) d x))"
    if "x \<in> slots" "sval (dblock s) d x > 0" for x
    using nz [OF that(1)] that(2) by (intro read_block_ok [OF ok(2)]) auto
  have fin: "0 < bmap s d l \<Longrightarrow> read_blocks s (bmap s d l) (Suc 0) = Ret (lblock s d l)"
    "\<not> 0 < bmap s d l \<Longrightarrow> lblock s d l = zero_mem"
    using rd [of "leaf l"] nz [of "leaf l"] l leaf_slots [of l] by (auto simp: bmap_def lblock_def readable_def)
  have ii: "i_indirect d = 0 \<or> 146 \<le> i_indirect d" and di: "i_dindirect d = 0 \<or> 146 \<le> i_dindirect d"
    using nz [of SInd] nz [of SDInd] by auto
  consider "l < 10" | "10 \<le> l" "l < 2058" | "2058 \<le> l" by linarith
  then show ?thesis
  proof cases
    case 1
    then have "bmap s d l = i_block_nr d ! l" by (simp add: bmap_def leaf_def)
    then show ?thesis using 1 p fin by (simp add: testfs_read_block_def)
  next
    case 2
    define k where "k = l - 10"
    have k: "int l - 10 = int k" "k < 2048" using 2 by (auto simp: k_def)
    have b: "bmap s d l = bget (dblock s) (i_indirect d) k" using 2 by (simp add: bmap_def leaf_def k_def)
    show ?thesis
      using 2 p fin ii rd [of SInd] k ptr_at_ok [OF k(2)]
      by (auto simp: testfs_read_block_def NRI_def b bget_def)
  next
    case 3
    define i j where "i = (l - 2058) div 2048" and "j = (l - 2058) mod 2048"
    have ij: "i < 2048" "j < 2048" using l by (auto simp: i_def j_def readable_def)
    have "int l - 10 - 2048 = int (l - 2058)" using 3 by simp
    then have div: "(int l - 10 - 2048) div 2048 = int i" "(int l - 10 - 2048) mod 2048 = int j"
      by (simp_all only: i_def j_def of_nat_div of_nat_mod of_nat_numeral)
    have b: "bmap s d l = bget (dblock s) (bget (dblock s) (i_dindirect d) i) j"
      using 3 by (simp add: bmap_def leaf_def i_def j_def)
    show ?thesis
    proof (cases "i_dindirect d = 0")
      case True
      then have "i_indirect d = 0" "bmap s d l = 0" using l 3 b by (auto simp: readable_def bget_def)
      then show ?thesis using True 3 p fin by (simp add: testfs_read_block_def)
    next
      case False
      define e where "e = bget (dblock s) (i_dindirect d) i"
      have e: "ptr_at (dblock s (i_dindirect d)) (int i) = Ret e" "e = 0 \<or> 0 < e" "0 < i_dindirect d" "NRI \<le> int l - 10"
        "read_blocks s (i_dindirect d) (Suc 0) = Ret (dblock s (i_dindirect d))"
        using False di ptr_at_ok [OF ij(1)] nz [of "SL2 i"] ij 3 rd [of SDInd] by (auto simp: e_def bget_def NRI_def)
      have "bnd (read_blocks s e (Suc 0)) (\<lambda>block. ptr_at block (int j)) = Ret (bmap s d l)" if "0 < e"
        using that rd [of "SL2 i"] ij ptr_at_ok [OF ij(2)] by (simp add: b e_def) (simp add: bget_def)
      moreover have "bmap s d l = 0" if "e = 0" using that by (simp add: b e_def [symmetric]) (simp add: bget_def)
      ultimately show ?thesis
        using e 3 p fin div by (auto simp: testfs_read_block_def NRI_def Let_def)
    qed
  qed
qed

section \<open>Steps on one open file\<close>

text \<open>
  A step on the file at \<^verbatim>\<open>p\<close>: it may change the contents of that inode (and then marks it
  dirty), blocks, the block freemap and its counter, and lengthen the device file.
\<close>

definition din :: "fs \<Rightarrow> nat \<Rightarrow> dinode" where
  "din s p = i_in (the (iheap s p))"

definition idirty :: "fs \<Rightarrow> nat \<Rightarrow> bool" where
  "idirty s p \<longleftrightarrow> (\<exists>ino. iheap s p = Some ino \<and> i_dirty ino)"

definition iupd :: "nat \<Rightarrow> fs \<Rightarrow> fs \<Rightarrow> bool" where
  "iupd p s s' \<longleftrightarrow>
     (\<exists>ino ino'. iheap s p = Some ino \<and> iheap s' = (iheap s)(p := Some ino') \<and> i_nr ino' = i_nr ino \<and>
        i_count ino' = i_count ino \<and> (i_dirty ino' \<or> ino' = ino)) \<and>
     hash_tbl s' = hash_tbl s \<and> malloc_n s' = malloc_n s \<and> malloc_ok s' = malloc_ok s \<and> sout s' = sout s \<and>
     ibm s' = ibm s \<and> max_fs_blocks (sb s') = max_fs_blocks (sb s) \<and> dlen (dev s) \<le> dlen (dev s') \<and> sb_inv s'"

lemma iupd_same:
  assumes "iheap s p = Some ino" "iheap s' = iheap s" "sb_inv s'"
    "hash_tbl s' = hash_tbl s" "malloc_n s' = malloc_n s" "malloc_ok s' = malloc_ok s" "sout s' = sout s"
    "ibm s' = ibm s" "max_fs_blocks (sb s') = max_fs_blocks (sb s)" "dlen (dev s) \<le> dlen (dev s')"
  shows "iupd p s s'"
  unfolding iupd_def using assms by (intro conjI exI [of _ ino]) (simp_all add: fun_upd_idem)

lemma iupd_refl: "sb_inv s \<Longrightarrow> iheap s p \<noteq> None \<Longrightarrow> iupd p s s"
  using iupd_same [of s p _ s] by auto

lemma iupd_trans: "iupd p s s1 \<Longrightarrow> iupd p s1 s2 \<Longrightarrow> iupd p s s2"
  unfolding iupd_def by (elim exE conjE, simp, metis order_trans)

lemma iupd_sb_inv: "iupd p s s' \<Longrightarrow> sb_inv s'"
  by (simp add: iupd_def)

lemma iupd_live: "iupd p s s' \<Longrightarrow> iheap s' p \<noteq> None"
  by (auto simp: iupd_def)

lemma iupd_dlen: "iupd p s s' \<Longrightarrow> on_dev s b \<Longrightarrow> on_dev s' b"
  by (simp add: iupd_def on_dev_def)

lemma iupd_idirty: "iupd p s s' \<Longrightarrow> idirty s p \<Longrightarrow> idirty s' p"
  by (auto simp: iupd_def idirty_def)

text \<open>Steps keep the invariant of the inode table.\<close>

lemma iupd_fs_inv:
  assumes inv: "fs_inv s" and u: "iupd p s s'" and b: "blk_eq s s' X" and X: "X \<subseteq> {146..}"
  shows "fs_inv s'"
proof -
  obtain ino ino' where p: "iheap s p = Some ino" "iheap s' = (iheap s)(p := Some ino')" "i_nr ino' = i_nr ino"
    "i_count ino' = i_count ino" "i_dirty ino' \<or> ino' = ino"
    and e: "hash_tbl s' = hash_tbl s" "malloc_n s' = malloc_n s" "malloc_ok s' = malloc_ok s" "sb_inv s'"
    using u by (auto simp: iupd_def)
  have tab: "itab_inv s" using inv by (simp add: fs_inv_def)
  have "i_in ino' = disk_inode s (i_nr ino)" if "\<not> i_dirty ino'"
    using that p itab_live [OF tab p(1)] by (auto simp: inode_ok_def)
  then have tab1: "itab_inv (iset s p ino')"
    using p itab_live [OF tab p(1)] by (intro itab_inv_iset [OF tab p(1)]) (auto simp: inode_ok_def)
  have d: "disk_inode s' nr = disk_inode (iset s p ino') nr" if "valid_inr nr" for nr
    using disk_inode_blk_eq [OF b X that] by simp
  let ?s1 = "s'\<lparr>sout := sout s\<rparr>"
  have "itab_inv ?s1"
    using e p d by (intro itab_inv_frame [OF tab1]) (simp_all add: mem_eq_def disk_inode_def)
  then have "itab_inv s'"
    by (simp add: itab_inv_def tbl_ok_def inode_ok_def disk_inode_def)
  then show ?thesis using inv e by (simp add: fs_inv_def malloc_works_def)
qed

lemma get_din_din: "iheap s p \<noteq> None \<Longrightarrow> get_din s p = Ret (din s p)"
  by (auto simp: get_din_def din_def)

lemma upd_din_ok:
  assumes "sb_inv s" "idirty s p"
  obtains s' where "upd_din s p f = Ret s'" "iupd p s s'" "din s' p = f (din s p)" "dblock s' = dblock s"
    "ublocks s' = ublocks s" "idirty s' p" "dev s' = dev s"
proof -
  obtain ino where i: "iheap s p = Some ino" "i_dirty ino" using assms(2) by (auto simp: idirty_def)
  let ?i = "ino\<lparr>i_in := f (i_in ino)\<rparr>"
  have "iupd p s (iset s p ?i)"
    using i assms(1) unfolding iupd_def by auto
  then show ?thesis
    using i by (rule_tac that [of "iset s p ?i"]) (simp_all add: upd_din_def din_def idirty_def)
qed

text \<open>Fewer than \<^verbatim>\<open>n + 1\<close> blocks are left.\<close>

definition full :: "fs \<Rightarrow> nat \<Rightarrow> bool" where
  "full s n \<longleftrightarrow> max_fs_blocks (sb s) \<le> int (card (ublocks s)) + int n"

lemma alloc_bfi_cases:
  assumes inv: "sb_inv s" and p: "iheap s p \<noteq> None"
  shows "testfs_alloc_block_for_inode s p = Ret (- ENOSPC, s) \<and> full s 0 \<or>
    (\<exists>b s'. testfs_alloc_block_for_inode s p = Ret (b, s') \<and> 146 \<le> b \<and> b < 1048722 \<and> b \<notin> ublocks s \<and>
       ublocks s' = insert b (ublocks s) \<and> iupd p s s' \<and> blk_eq s s' {} \<and> idirty s' p \<and>
       din s' p = (din s p)\<lparr>block_count := block_count (din s p) + 1\<rparr>)"
proof -
  obtain ino where i: "iheap s p = Some ino" using p by auto
  from alloc_block_cases [OF inv] show ?thesis
  proof (elim disjE exE conjE)
    assume "testfs_alloc_block s = Ret (- ENOSPC, s)" "max_fs_blocks (sb s) \<le> int (card (ublocks s))"
    then show ?thesis by (simp add: testfs_alloc_block_for_inode_def ENOSPC_def full_def)
  next
    fix b s1 assume al: "testfs_alloc_block s = Ret (b, s1)" "block_allocated s b s1"
    let ?i = "ino\<lparr>i_in := (i_in ino)\<lparr>block_count := block_count (i_in ino) + 1\<rparr>, i_dirty := True\<rparr>"
    let ?s' = "iset s1 p ?i"
    have ba: "146 \<le> b" "b < 1048722" "b \<notin> ublocks s" "ublocks s1 = insert b (ublocks s)" "sb_inv s1" "blk_eq s s1 {}"
      "mem_eq s s1" "ibm s1 = ibm s" "dlen (dev s1) = dlen (dev s)" "max_fs_blocks (sb s1) = max_fs_blocks (sb s)"
      using al(2) by (simp_all add: block_allocated_def)
    then have h: "iheap s1 p = Some ino" using i by (simp add: mem_eq_def)
    have "iupd p s ?s'"
      using ba i unfolding iupd_def by (auto simp: mem_eq_def)
    then show ?thesis
      using al ba h i by (auto simp: testfs_alloc_block_for_inode_def idirty_def din_def blk_eq_def)
  qed
qed

lemma free_bfi_ok:
  assumes inv: "sb_inv s" and p: "iheap s p \<noteq> None" and b: "b \<in> ublocks s"
  obtains s' where "testfs_free_block_from_inode s p b = Ret s'" "ublocks s' = ublocks s - {b}" "iupd p s s'"
    "blk_eq s s' {b}" "idirty s' p" "din s' p = (din s p)\<lparr>block_count := block_count (din s p) - 1\<rparr>"
proof -
  obtain ino where i: "iheap s p = Some ino" using p by auto
  obtain s1 where s1: "testfs_free_block s b = Ret (0, s1)" "block_freed s b s1" using free_block_ok [OF inv b] by blast
  let ?i = "ino\<lparr>i_in := (i_in ino)\<lparr>block_count := block_count (i_in ino) - 1\<rparr>, i_dirty := True\<rparr>"
  let ?s' = "iset s1 p ?i"
  have bf: "ublocks s1 = ublocks s - {b}" "sb_inv s1" "blk_eq s s1 {b}" "mem_eq s s1" "ibm s1 = ibm s"
    "dlen (dev s) \<le> dlen (dev s1)" "max_fs_blocks (sb s1) = max_fs_blocks (sb s)"
    using s1(2) by (simp_all add: block_freed_def)
  then have h: "iheap s1 p = Some ino" using i by (simp add: mem_eq_def)
  have "iupd p s ?s'" using bf i unfolding iupd_def by (auto simp: mem_eq_def)
  moreover have "b \<noteq> 0" using ublocks_bounds [OF inv b] by auto
  ultimately show ?thesis
    using s1 bf h i by (rule_tac that [of ?s'])
      (simp_all add: testfs_free_block_from_inode_def idirty_def din_def blk_eq_def)
qed

lemma write_iupd:
  assumes inv: "sb_inv s" and p: "iheap s p \<noteq> None" and b: "146 \<le> b"
  shows "write_blocks s m b (Suc 0) = Ret (wrote s b m)" "iupd p s (wrote s b m)" "din (wrote s b m) p = din s p"
    "idirty (wrote s b m) p = idirty s p" "on_dev (wrote s b m) b"
proof -
  obtain ino where i: "iheap s p = Some ino" using p by auto
  show "write_blocks s m b (Suc 0) = Ret (wrote s b m)" using b by (simp add: write_block_wrote sb_inv_dio [OF inv])
  have "sb_inv (wrote s b m)" using inv b by (intro sb_inv_wrote) auto
  then show "iupd p s (wrote s b m)"
    using i by (intro iupd_same [OF i]) (simp_all add: wrote_def ibm_def)
qed (simp_all add: din_def idirty_def on_dev_def)

end
