(* ===== verification/FS_Alloc.thy ===== *)
theory FS_Alloc
  imports FS_FileMap
begin

text \<open>
  Allocating a block of a file: \<^verbatim>\<open>testfs_allocate_block\<close> either finds the block mapped, or
  maps it to a block that was free, taking the pointer blocks it needs, or fails with
  \<^verbatim>\<open>-ENOSPC\<close>. The lemmas compute the slots after each of its cases.
\<close>

section \<open>Changed blocks\<close>

text \<open>The data blocks \<^verbatim>\<open>D'\<close> are \<^verbatim>\<open>D\<close> with the blocks of \<^verbatim>\<open>W\<close> overwritten.\<close>

definition dupd :: "(int \<Rightarrow> mem) \<Rightarrow> (int \<Rightarrow> mem) \<Rightarrow> (int \<rightharpoonup> mem) \<Rightarrow> bool" where
  "dupd D D' W \<longleftrightarrow> (\<forall>c \<ge> 146. \<forall>i < 8192. D' c i = (case W c of None \<Rightarrow> D c i | Some m \<Rightarrow> m i))"

lemma dupd_refl [simp]: "dupd D D Map.empty"
  by (simp add: dupd_def)

lemma dupd_trans: "dupd D D1 W1 \<Longrightarrow> dupd D1 D2 W2 \<Longrightarrow> dupd D D2 (W1 ++ W2)"
  by (auto simp: dupd_def map_add_def split: option.splits)

lemma dupd_blk_eq: "blk_eq s s' {} \<Longrightarrow> dupd (dblock s) (dblock s') Map.empty"
  by (simp add: dupd_def blk_eq_def)

lemma dupd_wrote: "146 \<le> b \<Longrightarrow> dupd (dblock s) (dblock (wrote s b m)) [b \<mapsto> m]"
  by (auto simp: dupd_def wrote_dblock)

lemma dupd_freed: "blk_eq s s' {b} \<Longrightarrow> dupd (dblock s) (dblock s') [b \<mapsto> dblock s' b]"
  by (auto simp: dupd_def blk_eq_def)

lemma bget_0 [simp]: "bget D 0 k = 0"
  by (simp add: bget_def)

lemma bget_nz: "c \<noteq> 0 \<Longrightarrow> bget D c k = get_s32 (D c) (4 * k)"
  by (simp add: bget_def)

lemma bget_same:
  assumes "dupd D D' W" "W c = None" "c = 0 \<or> 146 \<le> c" "k < 2048"
  shows "bget D' c k = bget D c k"
  using assms by (cases "c = 0") (auto simp: dupd_def intro!: bget_cong)

lemma bget_new:
  assumes "dupd D D' W" "W c = Some m" "146 \<le> c" "k < 2048"
  shows "bget D' c k = get_s32 m (4 * k)"
  using assms bget_cong [of D' c "\<lambda>_. m" k] by (simp add: dupd_def bget_nz)

lemma get_set_ptr:
  assumes "in_s32 b"
  shows "get_s32 (set_ptr m (int k) b) (4 * j) = (if j = k then b else get_s32 m (4 * j))"
proof -
  have "4 * k + 4 \<le> 4 * j \<or> 4 * j + 4 \<le> 4 * k" if "j \<noteq> k" using that by auto
  then show ?thesis using assms by (simp add: set_ptr_def codec_simps)
qed

section \<open>The slots after an allocation\<close>

lemma sval_eqI:
  assumes "x \<in> slots" "\<And>k. k < 10 \<Longrightarrow> i_block_nr d ! k = f (SDir k)"
    "i_indirect d = f SInd" "\<And>k. k < 2048 \<Longrightarrow> bget D (f SInd) k = f (SIndE k)"
    "i_dindirect d = f SDInd" "\<And>i. i < 2048 \<Longrightarrow> bget D (f SDInd) i = f (SL2 i)"
    "\<And>i j. i < 2048 \<Longrightarrow> j < 2048 \<Longrightarrow> bget D (f (SL2 i)) j = f (SDE i j)"
  shows "sval D d x = f x"
  using assms by (cases x) auto

text \<open>The pointer blocks of a file are distinct data blocks.\<close>

definition ptrs_ok :: "(int \<Rightarrow> mem) \<Rightarrow> dinode \<Rightarrow> bool" where
  "ptrs_ok D d \<longleftrightarrow> length (i_block_nr d) = 10 \<and>
     (\<forall>x \<in> {SInd, SDInd} \<union> SL2 ` {0..<2048}. sval D d x = 0 \<or> 146 \<le> sval D d x) \<and>
     (\<forall>x \<in> {SInd, SDInd} \<union> SL2 ` {0..<2048}. \<forall>y \<in> {SInd, SDInd} \<union> SL2 ` {0..<2048}.
        sval D d x = sval D d y \<longrightarrow> sval D d x \<noteq> 0 \<longrightarrow> x = y)"

lemma file_ok_ptrs:
  assumes "file_ok s d" "sb_inv s"
  shows "ptrs_ok (dblock s) d"
proof -
  have sub: "x \<in> slots" if "x \<in> {SInd, SDInd} \<union> SL2 ` {0..<2048}" for x using that by auto
  have "length (i_block_nr d) = 10" using assms(1) by (simp add: file_ok_def wf_dinode_def)
  then show ?thesis
    unfolding ptrs_ok_def using file_ok_pos [OF assms sub] file_ok_distinct [OF assms(1) sub sub] by metis
qed

lemma ptrs_okD:
  assumes "ptrs_ok D d"
  shows "length (i_block_nr d) = 10" "i_indirect d = 0 \<or> 146 \<le> i_indirect d" "i_dindirect d = 0 \<or> 146 \<le> i_dindirect d"
    "i < 2048 \<Longrightarrow> bget D (i_dindirect d) i = 0 \<or> 146 \<le> bget D (i_dindirect d) i"
    "i_indirect d = i_dindirect d \<Longrightarrow> i_indirect d = 0"
    "i < 2048 \<Longrightarrow> bget D (i_dindirect d) i = i_indirect d \<Longrightarrow> i_indirect d = 0"
    "i < 2048 \<Longrightarrow> bget D (i_dindirect d) i = i_dindirect d \<Longrightarrow> i_dindirect d = 0"
    "i < 2048 \<Longrightarrow> j < 2048 \<Longrightarrow> bget D (i_dindirect d) i = bget D (i_dindirect d) j \<Longrightarrow>
       bget D (i_dindirect d) i \<noteq> 0 \<Longrightarrow> i = j"
proof -
  let ?S = "{SInd, SDInd} \<union> SL2 ` {0..<2048}"
  have pos: "\<And>x. x \<in> ?S \<Longrightarrow> sval D d x = 0 \<or> 146 \<le> sval D d x"
    and dis: "\<And>x y. x \<in> ?S \<Longrightarrow> y \<in> ?S \<Longrightarrow> sval D d x = sval D d y \<Longrightarrow> sval D d x \<noteq> 0 \<Longrightarrow> x = y"
    and len: "length (i_block_nr d) = 10"
    using assms unfolding ptrs_ok_def by blast+
  show "length (i_block_nr d) = 10" by (rule len)
  show "i_indirect d = 0 \<or> 146 \<le> i_indirect d" using pos [of SInd] by simp
  show "i_dindirect d = 0 \<or> 146 \<le> i_dindirect d" using pos [of SDInd] by simp
  show "bget D (i_dindirect d) i = 0 \<or> 146 \<le> bget D (i_dindirect d) i" if "i < 2048" using pos [of "SL2 i"] that by simp
  show "i_indirect d = 0" if "i_indirect d = i_dindirect d" using dis [of SInd SDInd] that by auto
  show "i_indirect d = 0" if "i < 2048" "bget D (i_dindirect d) i = i_indirect d" using dis [of "SL2 i" SInd] that by auto
  show "i_dindirect d = 0" if "i < 2048" "bget D (i_dindirect d) i = i_dindirect d" using dis [of "SL2 i" SDInd] that by auto
  show "i = j" if "i < 2048" "j < 2048" "bget D (i_dindirect d) i = bget D (i_dindirect d) j" "bget D (i_dindirect d) i \<noteq> 0"
    using dis [of "SL2 i" "SL2 j"] that by auto
qed

lemma slots_direct:
  assumes ok: "ptrs_ok D d" and D': "dupd D D' Map.empty" and l: "l < 10" and x: "x \<in> slots"
  shows "sval D' (d\<lparr>block_count := n, i_block_nr := (i_block_nr d)[l := b]\<rparr>) x = ((sval D d)(SDir l := b)) x"
  by (rule sval_eqI [OF x]) (use ptrs_okD [OF ok] bget_same [OF D'] l in \<open>auto simp: nth_list_update\<close>)

lemma slots_ind_entry:
  assumes ok: "ptrs_ok D d" and D': "dupd D D' [i_indirect d \<mapsto> set_ptr (D (i_indirect d)) (int k) b]"
    and k: "k < 2048" "in_s32 b" and nz: "i_indirect d \<noteq> 0" and x: "x \<in> slots"
  shows "sval D' (d\<lparr>block_count := n\<rparr>) x = ((sval D d)(SIndE k := b)) x"
proof (rule sval_eqI [OF x])
  fix m :: nat assume "m < 2048"
  then show "bget D' (((sval D d)(SIndE k := b)) SInd) m = ((sval D d)(SIndE k := b)) (SIndE m)"
    using bget_new [OF D', of "i_indirect d"] ptrs_okD(2) [OF ok] nz k by (simp add: get_set_ptr bget_nz)
next
  fix i :: nat assume "i < 2048"
  moreover have "i_dindirect d \<noteq> i_indirect d" using ptrs_okD(5) [OF ok] nz by auto
  ultimately show "bget D' (((sval D d)(SIndE k := b)) SDInd) i = ((sval D d)(SIndE k := b)) (SL2 i)"
    using bget_same [OF D', of "i_dindirect d"] ptrs_okD(3) [OF ok] by auto
next
  fix i j :: nat assume ij: "i < 2048" "j < 2048"
  have "bget D (i_dindirect d) i \<noteq> i_indirect d" using ptrs_okD(6) [OF ok ij(1)] nz by blast
  then show "bget D' (((sval D d)(SIndE k := b)) (SL2 i)) j = ((sval D d)(SIndE k := b)) (SDE i j)"
    using ij bget_same [OF D', of "bget D (i_dindirect d) i"] ptrs_okD(4) [OF ok ij(1)] by auto
qed simp_all

lemma slots_ind_new:
  assumes ok: "ptrs_ok D d" and D': "dupd D D' [c \<mapsto> set_ptr zero_mem (int k) b]" and k: "k < 2048" "in_s32 b"
    and ind: "i_indirect d = 0" and c: "146 \<le> c" "c \<noteq> i_dindirect d" "\<And>i. i < 2048 \<Longrightarrow> c \<noteq> bget D (i_dindirect d) i"
    and x: "x \<in> slots"
  shows "sval D' (d\<lparr>block_count := n, i_indirect := c\<rparr>) x = ((sval D d)(SInd := c, SIndE k := b)) x" (is "_ = ?f x")
proof (rule sval_eqI [OF x])
  fix m :: nat assume "m < 2048"
  then show "bget D' (?f SInd) m = ?f (SIndE m)"
    using bget_new [OF D', of c] c(1) k ind by (simp add: get_set_ptr)
next
  fix i :: nat assume "i < 2048"
  then show "bget D' (?f SDInd) i = ?f (SL2 i)"
    using bget_same [OF D', of "i_dindirect d"] ptrs_okD(3) [OF ok] c by auto
next
  fix i j :: nat assume "i < 2048" "j < 2048"
  then show "bget D' (?f (SL2 i)) j = ?f (SDE i j)"
    using bget_same [OF D', of "bget D (i_dindirect d) i"] ptrs_okD(4) [OF ok, of i] c(3) [of i] by auto
qed simp_all

lemma slots_l2_entry:
  assumes ok: "ptrs_ok D d" and D': "dupd D D' [c \<mapsto> set_ptr (D c) (int j) b, i_dindirect d \<mapsto> D (i_dindirect d)]"
    and c: "c = bget D (i_dindirect d) i" "c \<noteq> 0" and ij: "i < 2048" "j < 2048" and b: "in_s32 b" and x: "x \<in> slots"
  shows "sval D' (d\<lparr>block_count := n\<rparr>) x = ((sval D d)(SDE i j := b)) x" (is "_ = ?f x")
proof (rule sval_eqI [OF x])
  have di: "i_dindirect d \<noteq> 0" using c by auto
  fix m :: nat assume "m < 2048"
  moreover have "i_indirect d = 0 \<or> i_indirect d \<noteq> i_dindirect d \<and> i_indirect d \<noteq> c"
    using ptrs_okD(5) [OF ok] ptrs_okD(6) [OF ok ij(1)] c by auto
  ultimately show "bget D' (?f SInd) m = ?f (SIndE m)"
    using bget_same [OF D', of "i_indirect d"] ptrs_okD(2) [OF ok] by auto
next
  have di: "i_dindirect d \<noteq> 0" using c by auto
  fix m :: nat assume "m < 2048"
  then show "bget D' (?f SDInd) m = ?f (SL2 m)"
    using bget_new [OF D', of "i_dindirect d"] ptrs_okD(3) [OF ok] di by (simp add: bget_nz)
next
  have di: "i_dindirect d \<noteq> 0" using c by auto
  fix m k :: nat assume m: "m < 2048" "k < 2048"
  show "bget D' (?f (SL2 m)) k = ?f (SDE m k)"
  proof (cases "m = i")
    case True
    have "c \<noteq> i_dindirect d" "146 \<le> c" using ptrs_okD(4,7) [OF ok ij(1)] c di by auto
    then show ?thesis
      using bget_new [OF D', of c] True m c b by (simp add: get_set_ptr bget_nz)
  next
    case False
    have "bget D (i_dindirect d) m \<noteq> c \<or> bget D (i_dindirect d) m = 0"
      using ptrs_okD(8) [OF ok m(1) ij(1)] False c by auto
    moreover have "bget D (i_dindirect d) m \<noteq> i_dindirect d" using ptrs_okD(7) [OF ok m(1)] di by blast
    ultimately show ?thesis
      using False m bget_same [OF D', of "bget D (i_dindirect d) m"] ptrs_okD(4) [OF ok m(1)] by auto
  qed
qed simp_all

lemma slots_l2_new:
  assumes ok: "ptrs_ok D d" and D': "dupd D D' [i_dindirect d \<mapsto> set_ptr (D (i_dindirect d)) (int i) c, c \<mapsto> set_ptr zero_mem (int j) b]"
    and z: "bget D (i_dindirect d) i = 0" "i_dindirect d \<noteq> 0" and ij: "i < 2048" "j < 2048" and b: "in_s32 b" "in_s32 c"
    and c: "146 \<le> c" "c \<noteq> i_indirect d" "c \<noteq> i_dindirect d" "\<And>m. m < 2048 \<Longrightarrow> c \<noteq> bget D (i_dindirect d) m"
    and x: "x \<in> slots"
  shows "sval D' (d\<lparr>block_count := n\<rparr>) x = ((sval D d)(SL2 i := c, SDE i j := b)) x" (is "_ = ?f x")
proof (rule sval_eqI [OF x])
  fix m :: nat assume m: "m < 2048"
  have "i_indirect d = 0 \<or> i_indirect d \<noteq> i_dindirect d" using ptrs_okD(5) [OF ok] by blast
  then show "bget D' (?f SInd) m = ?f (SIndE m)"
    using m bget_same [OF D', of "i_indirect d"] ptrs_okD(2) [OF ok] c by auto
  show "bget D' (?f SDInd) m = ?f (SL2 m)"
    using m bget_new [OF D', of "i_dindirect d"] ptrs_okD(3) [OF ok] z(2) c(3) b by (simp add: bget_nz get_set_ptr)
  fix k :: nat assume k: "k < 2048"
  show "bget D' (?f (SL2 m)) k = ?f (SDE m k)"
  proof (cases "m = i")
    case True
    then show ?thesis using bget_new [OF D', of c] k c(1) b z by (simp add: get_set_ptr)
  next
    case False
    have "bget D (i_dindirect d) m \<noteq> i_dindirect d" "bget D (i_dindirect d) m \<noteq> c"
      using ptrs_okD(7) [OF ok m] z(2) c(4) [OF m] by blast+
    then show ?thesis
      using False k m bget_same [OF D', of "bget D (i_dindirect d) m"] ptrs_okD(4) [OF ok m] by auto
  qed
qed simp_all

lemma slots_dind_new:
  assumes ok: "ptrs_ok D d" and D': "dupd D D' [a \<mapsto> set_ptr zero_mem (int i) c, c \<mapsto> set_ptr zero_mem (int j) b]"
    and z: "i_dindirect d = 0" and ij: "i < 2048" "j < 2048" and b: "in_s32 b" "in_s32 c"
    and c: "146 \<le> a" "146 \<le> c" "c \<noteq> a" "c \<noteq> i_indirect d" "a \<noteq> i_indirect d"
    and x: "x \<in> slots"
  shows "sval D' (d\<lparr>block_count := n, i_dindirect := a\<rparr>) x = ((sval D d)(SDInd := a, SL2 i := c, SDE i j := b)) x" (is "_ = ?f x")
proof (rule sval_eqI [OF x])
  fix m :: nat assume m: "m < 2048"
  show "bget D' (?f SInd) m = ?f (SIndE m)"
    using m bget_same [OF D', of "i_indirect d"] ptrs_okD(2) [OF ok] c by auto
  show "bget D' (?f SDInd) m = ?f (SL2 m)"
    using m bget_new [OF D', of a] z c b by (simp add: get_set_ptr)
  fix k :: nat assume k: "k < 2048"
  show "bget D' (?f (SL2 m)) k = ?f (SDE m k)"
    using bget_new [OF D', of c] k c b z by (simp add: get_set_ptr)
qed simp_all

section \<open>A file that has grown\<close>

definition fresh :: "fs \<Rightarrow> int set" where
  "fresh s = {146..} - ublocks s"

text \<open>The pointer blocks of a file.\<close>

definition pblocks :: "(int \<Rightarrow> mem) \<Rightarrow> dinode \<Rightarrow> int set" where
  "pblocks D d = sval D d ` (({SInd, SDInd} \<union> SL2 ` {0..<2048}) \<inter> live D d)"

lemma pblocks_fblocks: "pblocks D d \<subseteq> fblocks D d"
  by (auto simp: pblocks_def fblocks_def)

lemma card_ublocks_le: "sb_inv s \<Longrightarrow> card (ublocks s) \<le> 1048576"
  using card_used_le [of "bbm s"] card_ublocks [of s] by (simp add: sb_inv_defs)

lemma file_ok_grow:
  assumes ok: "file_ok s d" and inv: "sb_inv s'"
    and sv: "\<And>x. x \<in> slots \<Longrightarrow> sval (dblock s') d' x = (if x \<in> N then f x else sval (dblock s) d x)"
    and N: "N \<subseteq> slots" "\<And>x. x \<in> N \<Longrightarrow> sval (dblock s) d x = 0"
    and f: "inj_on f N" "\<And>x. x \<in> N \<Longrightarrow> f x \<in> fresh s" and ub: "ublocks s' = ublocks s \<union> f ` N"
    and wf: "wf_dinode (d'\<lparr>block_count := 0\<rparr>)" and cnt: "block_count d' = block_count d + int (card N)"
  shows "file_ok s' d'" "fblocks (dblock s') d' = fblocks (dblock s) d \<union> f ` N"
proof -
  let ?L = "live (dblock s) d" and ?L' = "live (dblock s') d'"
  have nz: "f x \<noteq> 0" "f x \<notin> ublocks s" if "x \<in> N" for x using f(2) [OF that] by (auto simp: fresh_def)
  have L': "?L' = ?L \<union> N" using sv N nz by (auto simp: live_iff split: if_splits)
  have disj: "?L \<inter> N = {}" using N(2) by (auto simp: live_iff)
  have vL: "sval (dblock s') d' x = sval (dblock s) d x" if "x \<in> ?L" for x
    using that sv [of x] disj by (auto simp: live_iff)
  have vN: "sval (dblock s') d' x = f x" if "x \<in> N" for x using that sv N(1) by auto
  have own: "sval (dblock s) d x \<in> ublocks s" if "x \<in> ?L" for x using file_ok_slot [OF ok] that by (simp add: live_iff)
  have inj: "inj_on (sval (dblock s') d') ?L'"
    unfolding L' inj_on_Un
  proof (intro conjI)
    show "inj_on (sval (dblock s') d') ?L" using ok vL by (auto simp: file_ok_def inj_on_def)
    show "inj_on (sval (dblock s') d') N" using f(1) vN by (auto simp: inj_on_def)
    show "sval (dblock s') d' ` (?L - N) \<inter> sval (dblock s') d' ` (N - ?L) = {}"
      using own nz(2) vL vN by fastforce
  qed
  show fb: "fblocks (dblock s') d' = fblocks (dblock s) d \<union> f ` N"
    unfolding fblocks_def L' image_Un using vL vN by (metis image_cong)
  have sub: "fblocks (dblock s') d' \<subseteq> ublocks s'" using fb ub ok by (auto simp: file_ok_def)
  have "finite N" by (rule finite_subset [OF N(1) finite_slots])
  then have c: "block_count d' = int (card ?L')"
    using cnt ok disj by (simp add: file_ok_def L' card_Un_disjoint)
  have "card ?L' \<le> card (ublocks s')"
    using inj sub by (intro card_inj_on_le [of "sval (dblock s') d'"]) (auto simp: fblocks_def)
  then have "in_s32 (block_count d')" using c card_ublocks_le [OF inv] by (simp add: in_s32_def)
  then have "wf_dinode d'" using wf by (simp add: wf_dinode_def)
  then show "file_ok s' d'" using inj sub c by (simp add: file_ok_def)
qed

text \<open>What \<^verbatim>\<open>testfs_allocate_block\<close> promises when it returns the block \<^verbatim>\<open>b\<close>.\<close>

definition allocated :: "nat \<Rightarrow> nat \<Rightarrow> fs \<Rightarrow> int \<Rightarrow> fs \<Rightarrow> bool" where
  "allocated p l s b s' \<longleftrightarrow> iupd p s s' \<and> file_ok s' (din s' p) \<and> backed s' (din s' p) {b} \<and> 146 \<le> b \<and>
     (\<forall>m < 4196362. bmap s' (din s' p) m = (if m = l then b else bmap s (din s p) m)) \<and>
     i_size (din s' p) = i_size (din s p) \<and> i_type (din s' p) = i_type (din s p) \<and>
     (i_dindirect (din s p) \<noteq> 0 \<longrightarrow> i_dindirect (din s' p) \<noteq> 0) \<and>
     ublocks s \<subseteq> ublocks s' \<and> ublocks s' \<subseteq> ublocks s \<union> fblocks (dblock s') (din s' p) \<and>
     fblocks (dblock s) (din s p) \<subseteq> fblocks (dblock s') (din s' p) \<and>
     fblocks (dblock s') (din s' p) \<subseteq> fblocks (dblock s) (din s p) \<union> fresh s \<and>
     blk_eq s s' (pblocks (dblock s) (din s p) \<union> fresh s) \<and> card (ublocks s') \<le> card (ublocks s) + 3"

lemma allocatedI:
  assumes ok: "file_ok s (din s p)" "backed s (din s p) {}" and u: "iupd p s s'"
    and sv: "\<And>x. x \<in> slots \<Longrightarrow> sval (dblock s') (din s' p) x = (if x \<in> N then f x else sval (dblock s) (din s p) x)"
    and N: "N \<subseteq> slots" "\<And>x. x \<in> N \<Longrightarrow> sval (dblock s) (din s p) x = 0"
    and f: "inj_on f N" "\<And>x. x \<in> N \<Longrightarrow> f x \<in> fresh s" and ub: "ublocks s' = ublocks s \<union> f ` N"
    and wf: "wf_dinode ((din s' p)\<lparr>block_count := 0\<rparr>)"
    and cnt: "block_count (din s' p) = block_count (din s p) + int (card N)"
    and small: "card N \<le> 3" and leaf: "leaf l \<in> N" "f (leaf l) = b" "\<And>m. leaf m \<in> N \<Longrightarrow> m = l"
    and dv: "\<And>x. x \<in> N \<Longrightarrow> x \<noteq> leaf l \<Longrightarrow> on_dev s' (f x)"
    and bl: "blk_eq s s' X" "X \<subseteq> pblocks (dblock s) (din s p) \<union> fresh s"
    and same: "i_size (din s' p) = i_size (din s p)" "i_type (din s' p) = i_type (din s p)"
      "i_dindirect (din s p) \<noteq> 0 \<Longrightarrow> i_dindirect (din s' p) \<noteq> 0"
  shows "allocated p l s b s'"
proof -
  note grow = file_ok_grow [OF ok(1) iupd_sb_inv [OF u] sv N f ub wf cnt]
  have "bmap s' (din s' p) m = (if m = l then b else bmap s (din s p) m)" if "m < 4196362" for m
  proof (cases "m = l")
    case True then show ?thesis using sv [OF leaf_slots [OF that]] leaf(1,2) by (simp add: bmap_def)
  next
    case False
    then have "leaf m \<notin> N" using leaf(3) by blast
    then show ?thesis using sv [OF leaf_slots [OF that]] False by (simp add: bmap_def)
  qed
  moreover have "backed s' (din s' p) {b}"
    unfolding backed_def
  proof
    fix c assume "c \<in> fblocks (dblock s') (din s' p) - {b}"
    then have "c \<in> fblocks (dblock s) (din s p) \<or> c \<in> f ` N" "c \<noteq> b" using grow(2) by auto
    then show "on_dev s' c" using ok(2) iupd_dlen [OF u] dv leaf(2) by (auto simp: backed_def)
  qed
  moreover have "146 \<le> b" using f(2) [OF leaf(1)] leaf(2) by (simp add: fresh_def)
  moreover have fN: "f ` N \<subseteq> fresh s" using f(2) by blast
  moreover have "card (f ` N) \<le> 3" using card_image_le [OF finite_subset [OF N(1) finite_slots], of f] small by simp
  then have "card (ublocks s') \<le> card (ublocks s) + 3" using card_Un_le [of "ublocks s" "f ` N"] ub by simp
  ultimately show ?thesis
    unfolding allocated_def using u grow(1) same blk_eq_mono [OF bl]
    by (intro conjI impI) (simp_all add: grow(2) ub, (use fN in blast)+)
qed

section \<open>Allocating a direct block and a block behind the indirect block\<close>

definition ready :: "nat \<Rightarrow> fs \<Rightarrow> bool" where
  "ready p s \<longleftrightarrow> sb_inv s \<and> iheap s p \<noteq> None \<and> file_ok s (din s p) \<and> backed s (din s p) {}"

text \<open>What it promises when there is no space: the file is as it was.\<close>

definition alloc_failed :: "nat \<Rightarrow> fs \<Rightarrow> fs \<Rightarrow> bool" where
  "alloc_failed p s s' \<longleftrightarrow> iupd p s s' \<and> ready p s' \<and> din s' p = din s p \<and>
     (\<forall>x \<in> slots. sval (dblock s') (din s' p) x = sval (dblock s) (din s p) x) \<and>
     ublocks s' = ublocks s \<and> blk_eq s s' (fresh s)"

lemma alloc_failed_refl: "ready p s \<Longrightarrow> alloc_failed p s s"
  by (simp add: alloc_failed_def ready_def iupd_refl)

lemma in_s32_block: "146 \<le> b \<Longrightarrow> b < 1048722 \<Longrightarrow> in_s32 b"
  by (simp add: in_s32_def)

lemma file_ok_wf: "file_ok s d \<Longrightarrow> wf_dinode d"
  by (simp add: file_ok_def)

lemma wf_upds:
  assumes "wf_dinode d" "in_s32 b"
  shows "wf_dinode (d\<lparr>i_block_nr := (i_block_nr d)[l := b], block_count := 0\<rparr>)"
    "wf_dinode (d\<lparr>i_indirect := b, block_count := 0\<rparr>)" "wf_dinode (d\<lparr>i_dindirect := b, block_count := 0\<rparr>)"
    "wf_dinode (d\<lparr>block_count := 0\<rparr>)"
  using assms set_update_subset_insert [of "i_block_nr d" l b]
  by (auto simp: wf_dinode_def list_all_iff in_s32_def)

lemma alloc_direct_ok:
  assumes r: "ready p s" and l: "l < 10" and z: "bmap s (din s p) l = 0"
  shows "alloc_direct s p (int l) = Ret (- ENOSPC, s) \<and> full s 0 \<or>
    (\<exists>b s'. alloc_direct s p (int l) = Ret (b, s') \<and> allocated p l s b s')"
proof -
  have inv: "sb_inv s" and pl: "iheap s p \<noteq> None" and ok: "file_ok s (din s p)" "backed s (din s p) {}"
    using r by (simp_all add: ready_def)
  have leaf: "leaf l = SDir l" and z': "i_block_nr (din s p) ! l = 0" using l z by (simp_all add: leaf_def bmap_def)
  from alloc_bfi_cases [OF inv pl] show ?thesis
  proof (elim disjE exE conjE)
    assume "testfs_alloc_block_for_inode s p = Ret (- ENOSPC, s)" "full s 0"
    then show ?thesis using z' get_din_din [OF pl] by (simp add: alloc_direct_def ENOSPC_def)
  next
    fix b s1 assume a: "testfs_alloc_block_for_inode s p = Ret (b, s1)" "146 \<le> b" "b < 1048722" "b \<notin> ublocks s"
      "ublocks s1 = insert b (ublocks s)" "iupd p s s1" "blk_eq s s1 {}" "idirty s1 p"
      "din s1 p = (din s p)\<lparr>block_count := block_count (din s p) + 1\<rparr>"
    obtain s2 where s2: "upd_din s1 p (i_block_nr_update (\<lambda>bs. bs[nat (int l) := b])) = Ret s2" "iupd p s1 s2"
      "din s2 p = i_block_nr_update (\<lambda>bs. bs[nat (int l) := b]) (din s1 p)" "dblock s2 = dblock s1" "ublocks s2 = ublocks s1"
      by (rule upd_din_ok [OF iupd_sb_inv [OF a(6)] a(8)])
    have d2: "din s2 p = (din s p)\<lparr>block_count := block_count (din s p) + 1, i_block_nr := (i_block_nr (din s p))[l := b]\<rparr>"
      using s2(3) a(9) by simp
    have D: "dupd (dblock s) (dblock s2) Map.empty" using dupd_blk_eq [OF a(7)] s2(4) by simp
    have "allocated p l s b s2"
    proof (rule allocatedI [OF ok iupd_trans [OF a(6) s2(2)], where N = "{SDir l}" and f = "\<lambda>_. b" and X = "{}"])
      show "sval (dblock s2) (din s2 p) x = (if x \<in> {SDir l} then b else sval (dblock s) (din s p) x)" if "x \<in> slots" for x
        using slots_direct [OF file_ok_ptrs [OF ok(1) inv] D l that] d2 by simp
      show "wf_dinode ((din s2 p)\<lparr>block_count := 0\<rparr>)"
        using wf_upds(1) [OF file_ok_wf [OF ok(1)] in_s32_block [OF a(2,3)], of l] by (simp add: d2)
    qed (use l a s2 d2 z' leaf in \<open>auto simp: fresh_def blk_eq_def leaf_def split: if_splits\<close>)
    then show ?thesis
      using a(1,2) s2(1) z' get_din_din [OF pl] by (simp add: alloc_direct_def)
  qed
qed

lemma full_mono: "full s m \<Longrightarrow> m \<le> n \<Longrightarrow> full s n"
  by (simp add: full_def)

lemma iupd_full: "iupd p s s' \<Longrightarrow> full s' n \<Longrightarrow> max_fs_blocks (sb s) \<le> int (card (ublocks s')) + int n"
  by (simp add: iupd_def full_def)

text \<open>The indirect block: the one the file has, or a new one.\<close>

lemma alloc_single_old:
  assumes r: "ready p s" and k: "k < 2048" and z: "bmap s (din s p) (k + 10) = 0" and ind: "i_indirect (din s p) \<noteq> 0"
  shows "alloc_single s p (int k) = Ret (- ENOSPC, s) \<and> full s 0 \<or>
    (\<exists>b s'. alloc_single s p (int k) = Ret (b, s') \<and> allocated p (k + 10) s b s')"
proof -
  let ?d = "din s p" and ?I = "i_indirect (din s p)"
  have inv: "sb_inv s" and pl: "iheap s p \<noteq> None" and ok: "file_ok s ?d" "backed s ?d {}"
    using r by (simp_all add: ready_def)
  have leaf: "leaf (k + 10) = SIndE k" using k by (simp add: leaf_def)
  then have z': "get_s32 (dblock s ?I) (4 * k) = 0" using z ind by (simp add: bmap_def bget_nz)
  have I: "146 \<le> ?I" using ptrs_okD(2) [OF file_ok_ptrs [OF ok(1) inv]] ind by simp
  have rd: "read_blocks s ?I (Suc 0) = Ret (dblock s ?I)"
    using backed_slot [OF ok(2), of SInd] ind I by (intro read_block_ok [OF inv]) auto
  note pre = get_din_din [OF pl] rd ptr_at_ok [OF k] z' ind
  from alloc_bfi_cases [OF inv pl] show ?thesis
  proof (elim disjE exE conjE)
    assume "testfs_alloc_block_for_inode s p = Ret (- ENOSPC, s)" "full s 0"
    then show ?thesis using pre by (simp add: alloc_single_def ENOSPC_def)
  next
    fix b s1 assume a: "testfs_alloc_block_for_inode s p = Ret (b, s1)" "146 \<le> b" "b < 1048722" "b \<notin> ublocks s"
      "ublocks s1 = insert b (ublocks s)" "iupd p s s1" "blk_eq s s1 {}" "idirty s1 p"
      "din s1 p = ?d\<lparr>block_count := block_count ?d + 1\<rparr>"
    define m where "m = set_ptr (dblock s ?I) (int k) b"
    note w = write_iupd [OF iupd_sb_inv [OF a(6)] iupd_live [OF a(6)] I, of m]
    let ?s2 = "wrote s1 ?I m"
    have D: "dupd (dblock s) (dblock ?s2) [?I \<mapsto> m]"
      using dupd_trans [OF dupd_blk_eq [OF a(7)] dupd_wrote [OF I, of s1 m]] by simp
    have d2: "din ?s2 p = ?d\<lparr>block_count := block_count ?d + 1\<rparr>" using w(3) a(9) by simp
    have "allocated p (k + 10) s b ?s2"
    proof (rule allocatedI [OF ok iupd_trans [OF a(6) w(2)], where N = "{SIndE k}" and f = "\<lambda>_. b" and X = "{?I}"])
      show "sval (dblock ?s2) (din ?s2 p) x = (if x \<in> {SIndE k} then b else sval (dblock s) ?d x)" if "x \<in> slots" for x
        using slots_ind_entry [OF file_ok_ptrs [OF ok(1) inv] D [unfolded m_def] k in_s32_block [OF a(2,3)] ind that] d2
        by (simp add: m_def)
      show "wf_dinode ((din ?s2 p)\<lparr>block_count := 0\<rparr>)"
        using wf_upds(4) [OF file_ok_wf [OF ok(1)] in_s32_block [OF a(2,3)]] by (simp add: d2)
      show "blk_eq s ?s2 {?I}" using blk_eq_trans [OF a(7) wrote_blk_eq] I by auto
      show "{?I} \<subseteq> pblocks (dblock s) ?d \<union> fresh s" using ind by (auto simp: pblocks_def live_iff intro!: image_eqI [of _ _ SInd])
      show "\<And>j. leaf j \<in> {SIndE k} \<Longrightarrow> j = k + 10" using leaf_inj leaf by fastforce
    qed (use k a d2 z' ind leaf in \<open>auto simp: fresh_def bget_nz\<close>)
    then show ?thesis
      using a(1,2) w(1) pre get_din_din [OF iupd_live [OF a(6)]] a(9) by (simp add: alloc_single_def m_def)
  qed
qed

text \<open>Taking back a pointer block that was allocated in vain.\<close>

lemma undo_alloc:
  assumes r: "ready p s" and a: "b \<notin> ublocks s" "146 \<le> b" "ublocks s2 = insert b (ublocks s)" "iupd p s s2" "blk_eq s s2 {}"
    and d2: "block_count (din s2 p) = block_count (din s p) + 1"
    and f: "f ((din s2 p)\<lparr>block_count := block_count (din s2 p) - 1\<rparr>) = din s p"
  obtains s3 s4 where "testfs_free_block_from_inode s2 p b = Ret s3" "upd_din s3 p f = Ret s4" "alloc_failed p s s4"
proof -
  let ?d = "din s p"
  have inv: "sb_inv s" and pl: "iheap s p \<noteq> None" and ok: "file_ok s ?d" "backed s ?d {}"
    using r by (simp_all add: ready_def)
  obtain s3 where s3: "testfs_free_block_from_inode s2 p b = Ret s3" "ublocks s3 = ublocks s2 - {b}" "iupd p s2 s3"
    "blk_eq s2 s3 {b}" "idirty s3 p" "din s3 p = (din s2 p)\<lparr>block_count := block_count (din s2 p) - 1\<rparr>"
    by (rule free_bfi_ok [OF iupd_sb_inv [OF a(4)] iupd_live [OF a(4)], of b]) (use a(3) in auto)
  obtain s4 where s4: "upd_din s3 p f = Ret s4" "iupd p s3 s4" "din s4 p = f (din s3 p)"
    "dblock s4 = dblock s3" "ublocks s4 = ublocks s3"
    by (rule upd_din_ok [where f = f, OF iupd_sb_inv [OF s3(3)] s3(5)]) blast
  have d4: "din s4 p = ?d" using s4(3) s3(6) f by simp
  have u: "iupd p s s4" using iupd_trans [OF iupd_trans [OF a(4) s3(3)] s4(2)] .
  have ub: "ublocks s4 = ublocks s" using s4(5) s3(2) a(1,3) by auto
  have "blk_eq s s3 {b}" using blk_eq_trans [OF a(5) s3(4)] by auto
  then have bl: "blk_eq s s4 {b}" using s4(4) by (simp add: blk_eq_def)
  have sv: "sval (dblock s4) ?d x = sval (dblock s) ?d x" if "x \<in> slots" for x
  proof (rule sval_cong [OF _ _ _ _ that])
    fix y and i :: nat assume y: "y \<in> {SInd, SDInd} \<union> SL2 ` {0..<2048}" "sval (dblock s) ?d y \<noteq> 0" "i < 8192"
    then have "sval (dblock s) ?d y \<in> ublocks s" by (intro file_ok_slot [OF ok(1)]) auto
    moreover from ublocks_bounds [OF inv this] have "18 \<le> sval (dblock s) ?d y" by simp
    ultimately show "dblock s4 (sval (dblock s) ?d y) i = dblock s (sval (dblock s) ?d y) i"
      using a(1) y(3) by (intro blk_eqD [OF bl]) auto
  qed simp_all
  note fb = fblocks_cong [OF sv] and lv = live_cong [OF sv]
  have "file_ok s4 ?d"
    using ok(1) fb lv ub sv unfolding file_ok_def by (simp add: inj_on_def live_iff)
  moreover have "backed s4 ?d {}" using ok(2) fb iupd_dlen [OF u] by (auto simp: backed_def)
  ultimately have "ready p s4" using iupd_sb_inv [OF u] iupd_live [OF u] d4 by (simp add: ready_def)
  moreover have "blk_eq s s4 (fresh s)" by (rule blk_eq_mono [OF bl]) (use a(1,2) in \<open>auto simp: fresh_def\<close>)
  ultimately have "alloc_failed p s s4" using u ub sv d4 by (simp add: alloc_failed_def)
  with s3(1) s4(1) show ?thesis by (rule that)
qed

lemma fresh_slot:
  assumes ok: "file_ok s d" and inv: "sb_inv s" and c: "c \<in> fresh s" and x: "x \<in> slots"
  shows "sval (dblock s) d x \<noteq> c"
  using file_ok_slot [OF ok x] c by (auto simp: fresh_def)

lemma alloc_single_new:
  assumes r: "ready p s" and k: "k < 2048" and ind: "i_indirect (din s p) = 0"
  shows "(\<exists>s'. alloc_single s p (int k) = Ret (- ENOSPC, s') \<and> alloc_failed p s s' \<and> full s 1) \<or>
    (\<exists>b s'. alloc_single s p (int k) = Ret (b, s') \<and> allocated p (k + 10) s b s')"
proof -
  let ?d = "din s p"
  have inv: "sb_inv s" and pl: "iheap s p \<noteq> None" and ok: "file_ok s ?d" "backed s ?d {}"
    using r by (simp_all add: ready_def)
  have leaf: "leaf (k + 10) = SIndE k" using k by (simp add: leaf_def)
  note pre = get_din_din [OF pl] ptr_at_ok [OF k] ind
  from alloc_bfi_cases [OF inv pl] show ?thesis
  proof (elim disjE exE conjE)
    assume "testfs_alloc_block_for_inode s p = Ret (- ENOSPC, s)" "full s 0"
    then show ?thesis using pre alloc_failed_refl [OF r] by (simp add: alloc_single_def ENOSPC_def full_def)
  next
    fix c s1 assume a: "testfs_alloc_block_for_inode s p = Ret (c, s1)" "146 \<le> c" "c < 1048722" "c \<notin> ublocks s"
      "ublocks s1 = insert c (ublocks s)" "iupd p s s1" "blk_eq s s1 {}" "idirty s1 p"
      "din s1 p = ?d\<lparr>block_count := block_count ?d + 1\<rparr>"
    obtain s2 where s2: "upd_din s1 p (i_indirect_update (\<lambda>_. c)) = Ret s2" "iupd p s1 s2"
      "din s2 p = i_indirect_update (\<lambda>_. c) (din s1 p)" "dblock s2 = dblock s1" "ublocks s2 = ublocks s1"
      by (rule upd_din_ok [where f = "i_indirect_update (\<lambda>_. c)", OF iupd_sb_inv [OF a(6)] a(8)]) blast
    note u2 = iupd_trans [OF a(6) s2(2)]
    have d2: "din s2 p = ?d\<lparr>block_count := block_count ?d + 1, i_indirect := c\<rparr>" using s2(3) a(9) by simp
    have b2: "blk_eq s s2 {}" using a(7) s2(4) by (simp add: blk_eq_def)
    from alloc_bfi_cases [OF iupd_sb_inv [OF u2] iupd_live [OF u2]] show ?thesis
    proof (elim disjE exE conjE)
      assume no: "testfs_alloc_block_for_inode s2 p = Ret (- ENOSPC, s2)" "full s2 0"
      then have fu: "full s 1" using iupd_full [OF u2, of 0] s2(5) a(4,5) by (simp add: full_def)
      obtain s3 s4 where "testfs_free_block_from_inode s2 p c = Ret s3" "upd_din s3 p (i_indirect_update (\<lambda>_. 0)) = Ret s4"
          "alloc_failed p s s4"
        by (rule undo_alloc [where f = "i_indirect_update (\<lambda>_. 0)", OF r a(4,2) _ u2 b2]) (use s2(5) a(5) d2 ind in auto)
      then show ?thesis
        using no a(1,2) s2(1) d2 pre get_din_din [OF iupd_live [OF u2]] fu
        by (simp add: alloc_single_def ENOSPC_def)
    next
      fix b s3 assume e: "testfs_alloc_block_for_inode s2 p = Ret (b, s3)" "146 \<le> b" "b < 1048722" "b \<notin> ublocks s2"
        "ublocks s3 = insert b (ublocks s2)" "iupd p s2 s3" "blk_eq s2 s3 {}" "idirty s3 p"
        "din s3 p = (din s2 p)\<lparr>block_count := block_count (din s2 p) + 1\<rparr>"
      note u3 = iupd_trans [OF u2 e(6)]
      define m where "m = set_ptr zero_mem (int k) b"
      note w = write_iupd [OF iupd_sb_inv [OF u3] iupd_live [OF u3] a(2), of m]
      let ?s4 = "wrote s3 c m"
      have D: "dupd (dblock s) (dblock ?s4) [c \<mapsto> m]"
        using dupd_trans [OF dupd_trans [OF dupd_blk_eq [OF b2] dupd_blk_eq [OF e(7)]] dupd_wrote [OF a(2), of s3 m]] by simp
      have d4: "din ?s4 p = ?d\<lparr>block_count := block_count ?d + 2, i_indirect := c\<rparr>" using w(3) e(9) d2 by simp
      have cf: "c \<in> fresh s" "b \<in> fresh s" "b \<noteq> c" using a e s2(5) by (auto simp: fresh_def)
      have nc: "c \<noteq> i_dindirect ?d" "\<And>i. i < 2048 \<Longrightarrow> c \<noteq> bget (dblock s) (i_dindirect ?d) i"
        using fresh_slot [OF ok(1) inv cf(1), of SDInd] fresh_slot [OF ok(1) inv cf(1), of "SL2 i" for i] by auto
      have "allocated p (k + 10) s b ?s4"
      proof (rule allocatedI [OF ok iupd_trans [OF u3 w(2)], where N = "{SInd, SIndE k}" and X = "{c}"
            and f = "\<lambda>x. if x = SInd then c else b"])
        show "sval (dblock ?s4) (din ?s4 p) x = (if x \<in> {SInd, SIndE k} then if x = SInd then c else b else sval (dblock s) ?d x)"
          if "x \<in> slots" for x
          using slots_ind_new [OF file_ok_ptrs [OF ok(1) inv] D [unfolded m_def] k in_s32_block [OF e(2,3)] ind a(2) nc that] d4
          by (simp add: m_def)
        show "wf_dinode ((din ?s4 p)\<lparr>block_count := 0\<rparr>)"
          using wf_upds(2) [OF file_ok_wf [OF ok(1)] in_s32_block [OF a(2,3)]] by (simp add: d4)
        show "blk_eq s ?s4 {c}"
          using blk_eq_trans [OF blk_eq_trans [OF b2 e(7)] wrote_blk_eq, of "{}" c "{c}" m] a(2) by auto
        show "\<And>j. leaf j \<in> {SInd, SIndE k} \<Longrightarrow> j = k + 10" using leaf_inj leaf by fastforce
      qed (use k a e s2 d4 ind leaf cf w(5) in \<open>auto simp: inj_on_def\<close>)
      then show ?thesis
        using a(1,2) s2(1) e(1,2,9) w(1) pre d2 get_din_din [OF iupd_live [OF u3]]
        by (simp add: alloc_single_def m_def)
    qed
  qed
qed

section \<open>Allocating a block behind the double indirect block\<close>

lemma leaf_double: "i < 2048 \<Longrightarrow> j < 2048 \<Longrightarrow> leaf (2058 + 2048 * i + j) = SDE i j"
  by (simp add: leaf_def)

lemma double_index:
  assumes "i < 2048" "j < 2048"
  shows "c_div (int (2048 + 2048 * i + j) - NRI) NRI = int i" "c_mod (int (2048 + 2048 * i + j) - NRI) NRI = int j"
proof -
  have "int (2048 + 2048 * i + j) - NRI = int (2048 * i + j)" by (simp add: NRI_def)
  then show "c_div (int (2048 + 2048 * i + j) - NRI) NRI = int i" "c_mod (int (2048 + 2048 * i + j) - NRI) NRI = int j"
    using assms by (simp_all add: NRI_def)
qed

lemma read_ptr_block:
  assumes r: "ready p s" and x: "x \<in> slots" and nz: "sval (dblock s) (din s p) x \<noteq> 0"
  shows "read_blocks s (sval (dblock s) (din s p) x) (Suc 0) = Ret (dblock s (sval (dblock s) (din s p) x))"
    "146 \<le> sval (dblock s) (din s p) x"
proof -
  have ok: "sb_inv s" "file_ok s (din s p)" "backed s (din s p) {}" using r by (simp_all add: ready_def)
  show ge: "146 \<le> sval (dblock s) (din s p) x" using file_ok_pos [OF ok(2,1) x] nz by auto
  show "read_blocks s (sval (dblock s) (din s p) x) (Suc 0) = Ret (dblock s (sval (dblock s) (din s p) x))"
    using backed_slot [OF ok(3) x] nz ge by (intro read_block_ok [OF ok(1)]) auto
qed

text \<open>The data block is the only one missing.\<close>

lemma alloc_double_old:
  assumes r: "ready p s" and ij: "i < 2048" "j < 2048" and z: "bmap s (din s p) (2058 + 2048 * i + j) = 0"
    and c: "c = bget (dblock s) (i_dindirect (din s p)) i" "c \<noteq> 0"
  shows "alloc_double s p (int (2048 + 2048 * i + j)) = Ret (- ENOSPC, s) \<and> full s 0 \<or>
    (\<exists>b s'. alloc_double s p (int (2048 + 2048 * i + j)) = Ret (b, s') \<and> allocated p (2058 + 2048 * i + j) s b s')"
proof -
  let ?d = "din s p" and ?DI = "i_dindirect (din s p)"
  have inv: "sb_inv s" and pl: "iheap s p \<noteq> None" and ok: "file_ok s ?d" "backed s ?d {}"
    using r by (simp_all add: ready_def)
  have di: "?DI \<noteq> 0" using c by auto
  note leaf = leaf_double [OF ij]
  note rd = read_ptr_block [OF r, of SDInd, simplified, OF di] read_ptr_block [OF r, of "SL2 i", simplified, OF ij(1), folded c(1), OF c(2)]
  have e: "get_s32 (dblock s ?DI) (4 * i) = c" using c di by (simp add: bget_nz)
  have "c \<noteq> ?DI" using ptrs_okD(7) [OF file_ok_ptrs [OF ok(1) inv] ij(1)] c di by auto
  note pre = get_din_din [OF pl] rd(1,3) e c(2) di ptr_at_ok [OF ij(1)] double_index [OF ij]
  from alloc_bfi_cases [OF inv pl] show ?thesis
  proof (elim disjE exE conjE)
    assume "testfs_alloc_block_for_inode s p = Ret (- ENOSPC, s)" "full s 0"
    then show ?thesis using pre
      by (simp add: alloc_double_def get_dindirect_def get_indirect_of_def alloc_in_indirect_of_def ENOSPC_def)
  next
    fix b s1 assume a: "testfs_alloc_block_for_inode s p = Ret (b, s1)" "146 \<le> b" "b < 1048722" "b \<notin> ublocks s"
      "ublocks s1 = insert b (ublocks s)" "iupd p s s1" "blk_eq s s1 {}" "idirty s1 p"
      "din s1 p = ?d\<lparr>block_count := block_count ?d + 1\<rparr>"
    define m where "m = set_ptr (dblock s c) (int j) b"
    note w1 = write_iupd [OF iupd_sb_inv [OF a(6)] iupd_live [OF a(6)] rd(4), of m]
    note u1 = iupd_trans [OF a(6) w1(2)]
    note w2 = write_iupd [OF iupd_sb_inv [OF u1] iupd_live [OF u1] rd(2), of "dblock s ?DI"]
    let ?s3 = "wrote (wrote s1 c m) ?DI (dblock s ?DI)"
    have D: "dupd (dblock s) (dblock ?s3) [c \<mapsto> m, ?DI \<mapsto> dblock s ?DI]"
      using dupd_trans [OF dupd_trans [OF dupd_blk_eq [OF a(7)] dupd_wrote [OF rd(4), of s1 m]]
          dupd_wrote [OF rd(2), of "wrote s1 c m" "dblock s ?DI"]] by simp
    have d3: "din ?s3 p = ?d\<lparr>block_count := block_count ?d + 1\<rparr>" using w2(3) w1(3) a(9) by simp
    have "allocated p (2058 + 2048 * i + j) s b ?s3"
    proof (rule allocatedI [OF ok iupd_trans [OF u1 w2(2)], where N = "{SDE i j}" and f = "\<lambda>_. b" and X = "{c, ?DI}"])
      show "sval (dblock ?s3) (din ?s3 p) x = (if x \<in> {SDE i j} then b else sval (dblock s) ?d x)" if "x \<in> slots" for x
        using slots_l2_entry [OF file_ok_ptrs [OF ok(1) inv] D [unfolded m_def] c ij in_s32_block [OF a(2,3)] that] d3
        by (simp add: m_def)
      show "wf_dinode ((din ?s3 p)\<lparr>block_count := 0\<rparr>)"
        using wf_upds(4) [OF file_ok_wf [OF ok(1)] in_s32_block [OF a(2,3)]] by (simp add: d3)
      have "blk_eq s (wrote s1 c m) {c}" using blk_eq_trans [OF a(7) wrote_blk_eq] rd(4) by auto
      then show "blk_eq s ?s3 {c, ?DI}" using blk_eq_trans [OF _ wrote_blk_eq] rd(2) by auto
      have "?DI \<in> pblocks (dblock s) ?d" using di by (auto simp: pblocks_def live_iff intro!: image_eqI [of _ _ SDInd])
      moreover have "c \<in> pblocks (dblock s) ?d" using c ij by (auto simp: pblocks_def live_iff intro!: image_eqI [of _ _ "SL2 i"])
      ultimately show "{c, ?DI} \<subseteq> pblocks (dblock s) ?d \<union> fresh s" by blast
      show "\<And>k. leaf k \<in> {SDE i j} \<Longrightarrow> k = 2058 + 2048 * i + j" using leaf_inj leaf by fastforce
      show "sval (dblock s) ?d x = 0" if "x \<in> {SDE i j}" for x using that z leaf by (simp add: bmap_def)
    qed (use ij a d3 di leaf in \<open>auto simp: fresh_def\<close>)
    then show ?thesis
      using a(1,2) w1(1) w2(1) pre get_din_din [OF iupd_live [OF a(6)]] a(9)
      by (simp add: alloc_double_def get_dindirect_def get_indirect_of_def alloc_in_indirect_of_def m_def)
  qed
qed

lemma blk_eq_wrote: "blk_eq s t X \<Longrightarrow> 0 \<le> c \<Longrightarrow> c \<in> X \<Longrightarrow> blk_eq s (wrote t c m) X"
  by (erule blk_eq_trans [OF _ wrote_blk_eq]) auto

text \<open>The steps after the double indirect block \<^verbatim>\<open>M\<close> has no indirect block for the entry.\<close>

definition double_rest :: "fs \<Rightarrow> nat \<Rightarrow> mem \<Rightarrow> bool \<Rightarrow> int \<Rightarrow> int \<Rightarrow> (int \<times> fs) res" where
  "double_rest s p M fl i j =
    bnd (get_indirect_of s p M fl i) (\<lambda>r'.
      case r' of
        Inl (e, s2) \<Rightarrow> Ret (e, s2)
      | Inr (M', indirect, ia, s2) \<Rightarrow> alloc_in_indirect_of s2 p M' indirect fl ia i j)"

lemma double_rest_fail:
  assumes inv: "sb_inv t3" "iheap t3 p \<noteq> None" and no: "testfs_alloc_block_for_inode t3 p = Ret (- ENOSPC, t3)"
    and c: "c \<in> ublocks t3" "c \<noteq> i_dindirect (din t3 p)" and M: "get_s32 M (4 * i) = c" "i < 2048"
    and fl: "fl \<Longrightarrow> i_dindirect (din t3 p) \<in> ublocks t3"
  shows "\<exists>t'. alloc_in_indirect_of t3 p M ind fl True (int i) (int j) = Ret (- ENOSPC, t')"
proof -
  obtain t4 where t4: "testfs_free_block_from_inode t3 p c = Ret t4" "ublocks t4 = ublocks t3 - {c}" "iupd p t3 t4"
    by (rule free_bfi_ok [OF inv c(1)]) blast
  note pre = no t4(1) ptr_at_ok [OF M(2)] M(1) get_din_din [OF inv(2)]
  show ?thesis
  proof (cases fl)
    case False
    then show ?thesis using pre by (simp add: alloc_in_indirect_of_def ENOSPC_def)
  next
    case True
    obtain t5 where t5: "testfs_free_block_from_inode t4 p (i_dindirect (din t3 p)) = Ret t5" "iupd p t4 t5" "idirty t5 p"
      by (rule free_bfi_ok [OF iupd_sb_inv [OF t4(3)] iupd_live [OF t4(3)], of "i_dindirect (din t3 p)"])
        (use fl True t4(2) c in auto)
    obtain t6 where "upd_din t5 p (i_dindirect_update (\<lambda>_. 0)) = Ret t6"
      by (rule upd_din_ok [where f = "i_dindirect_update (\<lambda>_. 0)", OF iupd_sb_inv [OF t5(2)] t5(3)])
    then show ?thesis using True pre t5(1) by (simp add: alloc_in_indirect_of_def ENOSPC_def)
  qed
qed

lemma double_rest_new:
  assumes inv: "sb_inv t" "iheap t p \<noteq> None" and DI: "i_dindirect (din t p) = DI" "146 \<le> DI" "DI \<in> ublocks t"
    and M: "get_s32 M (4 * i) = 0" and ij: "i < 2048" "j < 2048"
  shows "(\<exists>t'. double_rest t p M fl (int i) (int j) = Ret (- ENOSPC, t') \<and> full t 1) \<or>
    (\<exists>b c t'. double_rest t p M fl (int i) (int j) = Ret (b, t') \<and> iupd p t t' \<and> {b, c} \<subseteq> fresh t \<and> b \<noteq> c \<and>
      in_s32 b \<and> in_s32 c \<and> ublocks t' = insert b (insert c (ublocks t)) \<and>
      din t' p = (din t p)\<lparr>block_count := block_count (din t p) + 2\<rparr> \<and>
      dupd (dblock t) (dblock t') [DI \<mapsto> set_ptr M (int i) c, c \<mapsto> set_ptr zero_mem (int j) b] \<and>
      blk_eq t t' {c, DI} \<and> on_dev t' c \<and> on_dev t' DI)"
proof -
  note pre = ptr_at_ok [OF ij(1)] M get_din_din [OF inv(2)]
  from alloc_bfi_cases [OF inv] show ?thesis
  proof (elim disjE exE conjE)
    assume no: "testfs_alloc_block_for_inode t p = Ret (- ENOSPC, t)" "full t 0"
    obtain t1 where t1: "testfs_free_block_from_inode t p DI = Ret t1" "iupd p t t1" "idirty t1 p"
      by (rule free_bfi_ok [OF inv DI(3)])
    obtain t2 where "upd_din t1 p (i_dindirect_update (\<lambda>_. 0)) = Ret t2"
      by (rule upd_din_ok [where f = "i_dindirect_update (\<lambda>_. 0)", OF iupd_sb_inv [OF t1(2)] t1(3)])
    then show ?thesis using pre no t1(1) DI(1)
      by (cases fl) (simp_all add: double_rest_def get_indirect_of_def ENOSPC_def full_def)
  next
    fix c t1 assume a: "testfs_alloc_block_for_inode t p = Ret (c, t1)" "146 \<le> c" "c < 1048722" "c \<notin> ublocks t"
      "ublocks t1 = insert c (ublocks t)" "iupd p t t1" "blk_eq t t1 {}" "idirty t1 p"
      "din t1 p = (din t p)\<lparr>block_count := block_count (din t p) + 1\<rparr>"
    define M' where "M' = set_ptr M (int i) c"
    have cDI: "c \<noteq> DI" using a(4) DI(3) by auto
    have e: "get_s32 M' (4 * i) = c" using in_s32_block [OF a(2,3)] by (simp add: M'_def get_set_ptr)
    note w1 = write_iupd [OF iupd_sb_inv [OF a(6)] iupd_live [OF a(6)] a(2), of zero_mem]
    note u1 = iupd_trans [OF a(6) w1(2)]
    note w2 = write_iupd [OF iupd_sb_inv [OF u1] iupd_live [OF u1] DI(2), of M']
    note u2 = iupd_trans [OF u1 w2(2)]
    define t3 where "t3 = wrote (wrote t1 c zero_mem) DI M'"
    have d3: "din t3 p = (din t p)\<lparr>block_count := block_count (din t p) + 1\<rparr>" using w2(3) w1(3) a(9) by (simp add: t3_def)
    have ub3: "ublocks t3 = insert c (ublocks t)" by (simp add: t3_def a(5))
    have step: "double_rest t p M fl (int i) (int j) = alloc_in_indirect_of t3 p M' zero_mem fl True (int i) (int j)"
      using pre a(1,2) w1(1,3) w2(1) DI(1) get_din_din [OF iupd_live [OF u1]] a(9)
      by (simp add: double_rest_def get_indirect_of_def M'_def t3_def Let_def)
    note u3 = u2 [folded t3_def]
    from alloc_bfi_cases [OF iupd_sb_inv [OF u3] iupd_live [OF u3]] show ?thesis
    proof (elim disjE exE conjE)
      assume no: "testfs_alloc_block_for_inode t3 p = Ret (- ENOSPC, t3)" "full t3 0"
      then have "full t 1" using iupd_full [OF u3, of 0] ub3 a(4) by (simp add: full_def)
      then show ?thesis
        using double_rest_fail [OF iupd_sb_inv [OF u3] iupd_live [OF u3] no(1), of c M' i fl zero_mem j] step ub3 cDI d3 DI e ij by auto
    next
      fix b t4 assume g: "testfs_alloc_block_for_inode t3 p = Ret (b, t4)" "146 \<le> b" "b < 1048722" "b \<notin> ublocks t3"
        "ublocks t4 = insert b (ublocks t3)" "iupd p t3 t4" "blk_eq t3 t4 {}" "idirty t4 p"
        "din t4 p = (din t3 p)\<lparr>block_count := block_count (din t3 p) + 1\<rparr>"
      note u4 = iupd_trans [OF u3 g(6)]
      define m where "m = set_ptr zero_mem (int j) b"
      note w3 = write_iupd [OF iupd_sb_inv [OF u4] iupd_live [OF u4] a(2), of m]
      note u5 = iupd_trans [OF u4 w3(2)]
      note w4 = write_iupd [OF iupd_sb_inv [OF u5] iupd_live [OF u5] DI(2), of M']
      note u6 = iupd_trans [OF u5 w4(2)]
      let ?t6 = "wrote (wrote t4 c m) DI M'"
      have run: "double_rest t p M fl (int i) (int j) = Ret (b, ?t6)"
        using step g(1,2) w3(1) w4(1) d3 DI(1) e ij g(9) get_din_din [OF iupd_live [OF u4]]
        by (simp add: alloc_in_indirect_of_def ptr_at_ok m_def)
      have "dupd (dblock t) (dblock t3) [c \<mapsto> zero_mem, DI \<mapsto> M']"
        using dupd_trans [OF dupd_trans [OF dupd_blk_eq [OF a(7)] dupd_wrote [OF a(2)]] dupd_wrote [OF DI(2)]] by (simp add: t3_def)
      from dupd_trans [OF dupd_trans [OF dupd_trans [OF this dupd_blk_eq [OF g(7)]] dupd_wrote [OF a(2), of t4 m]] dupd_wrote [OF DI(2), of "wrote t4 c m" M']]
      have D: "dupd (dblock t) (dblock ?t6) [DI \<mapsto> M', c \<mapsto> m]"
        using cDI by (auto simp: dupd_def)
      have "blk_eq t t3 {c, DI}"
        unfolding t3_def using blk_eq_mono [OF a(7)] a(2) DI(2) by (intro blk_eq_wrote) auto
      then have "blk_eq t t4 {c, DI}" by (rule blk_eq_trans [OF _ g(7)]) auto
      then have bl: "blk_eq t ?t6 {c, DI}" using a(2) DI(2) by (intro blk_eq_wrote) auto
      have "on_dev ?t6 c" using w3(5) by (simp add: on_dev_def)
      with run u6 D bl show ?thesis
        using a(2-5) g(2-5) ub3 d3 g(9) w3(3) w4(3,5) in_s32_block
        by (intro disjI2 exI [of _ b] exI [of _ c] exI [of _ ?t6]) (auto simp: fresh_def M'_def m_def)
    qed
  qed
qed

lemma alloc_double_rest:
  "alloc_double s p log =
    bnd (get_dindirect s p) (\<lambda>r.
      case r of
        Inl (e, s1) \<Rightarrow> Ret (e, s1)
      | Inr (M, fl, s1) \<Rightarrow> double_rest s1 p M fl (c_div (log - NRI) NRI) (c_mod (log - NRI) NRI))"
  unfolding alloc_double_def double_rest_def Let_def by (rule refl)

lemma alloc_double_l2:
  assumes r: "ready p s" and ij: "i < 2048" "j < 2048" and di: "i_dindirect (din s p) \<noteq> 0"
    and z: "bget (dblock s) (i_dindirect (din s p)) i = 0"
  shows "(\<exists>s'. alloc_double s p (int (2048 + 2048 * i + j)) = Ret (- ENOSPC, s') \<and> full s 2) \<or>
    (\<exists>b s'. alloc_double s p (int (2048 + 2048 * i + j)) = Ret (b, s') \<and> allocated p (2058 + 2048 * i + j) s b s')"
proof -
  let ?d = "din s p" and ?DI = "i_dindirect (din s p)"
  have inv: "sb_inv s" and pl: "iheap s p \<noteq> None" and ok: "file_ok s ?d" "backed s ?d {}"
    using r by (simp_all add: ready_def)
  note leaf = leaf_double [OF ij] and rd = read_ptr_block [OF r, of SDInd, simplified, OF di]
  have z': "get_s32 (dblock s ?DI) (4 * i) = 0" using z di by (simp add: bget_nz)
  have DIu: "?DI \<in> ublocks s" using file_ok_slot [OF ok(1), of SDInd] di by simp
  have run: "alloc_double s p (int (2048 + 2048 * i + j)) = double_rest s p (dblock s ?DI) False (int i) (int j)"
    using di rd get_din_din [OF pl] double_index [OF ij] by (simp add: alloc_double_rest get_dindirect_def)
  from double_rest_new [OF inv pl refl rd(2) DIu z' ij, of False] show ?thesis
  proof (elim disjE exE conjE)
    fix b c t assume t: "double_rest s p (dblock s ?DI) False (int i) (int j) = Ret (b, t)" "iupd p s t" "{b, c} \<subseteq> fresh s" "b \<noteq> c"
      "in_s32 b" "in_s32 c" "ublocks t = insert b (insert c (ublocks s))" "din t p = ?d\<lparr>block_count := block_count ?d + 2\<rparr>"
      "dupd (dblock s) (dblock t) [?DI \<mapsto> set_ptr (dblock s ?DI) (int i) c, c \<mapsto> set_ptr zero_mem (int j) b]"
      "blk_eq s t {c, ?DI}" "on_dev t c" "on_dev t ?DI"
    have cf: "c \<in> fresh s" "146 \<le> c" using t(3) by (auto simp: fresh_def)
    have nc: "c \<noteq> i_indirect ?d" "c \<noteq> ?DI" "\<And>m. m < 2048 \<Longrightarrow> c \<noteq> bget (dblock s) ?DI m"
      using fresh_slot [OF ok(1) inv cf(1), of SInd] fresh_slot [OF ok(1) inv cf(1), of SDInd]
        fresh_slot [OF ok(1) inv cf(1), of "SL2 m" for m] by auto
    have "allocated p (2058 + 2048 * i + j) s b t"
    proof (rule allocatedI [OF ok t(2), where N = "{SL2 i, SDE i j}" and X = "{c, ?DI}" and f = "\<lambda>x. if x = SL2 i then c else b"])
      show "sval (dblock t) (din t p) x = (if x \<in> {SL2 i, SDE i j} then if x = SL2 i then c else b else sval (dblock s) ?d x)"
        if "x \<in> slots" for x
        using slots_l2_new [OF file_ok_ptrs [OF ok(1) inv] t(9) z di ij t(5,6) cf(2) nc that] t(8) by simp
      show "wf_dinode ((din t p)\<lparr>block_count := 0\<rparr>)" using wf_upds(4) [OF file_ok_wf [OF ok(1)] t(5)] by (simp add: t(8))
      have "?DI \<in> pblocks (dblock s) ?d" using di by (auto simp: pblocks_def live_iff intro!: image_eqI [of _ _ SDInd])
      then show "{c, ?DI} \<subseteq> pblocks (dblock s) ?d \<union> fresh s" using cf by blast
      show "\<And>k. leaf k \<in> {SL2 i, SDE i j} \<Longrightarrow> k = 2058 + 2048 * i + j" using leaf_inj leaf by fastforce
    qed (use t ij di leaf z in \<open>auto simp: inj_on_def\<close>)
    then show ?thesis using run t(1) by simp
  qed (use run in \<open>auto simp: full_def\<close>)
qed

lemma alloc_double_dind:
  assumes r: "ready p s" and ij: "i < 2048" "j < 2048" and di: "i_dindirect (din s p) = 0"
  shows "(\<exists>s'. alloc_double s p (int (2048 + 2048 * i + j)) = Ret (- ENOSPC, s') \<and> full s 2) \<or>
    (\<exists>b s'. alloc_double s p (int (2048 + 2048 * i + j)) = Ret (b, s') \<and> allocated p (2058 + 2048 * i + j) s b s')"
proof -
  let ?d = "din s p" and ?N = "{SDInd, SL2 i, SDE i j}"
  have inv: "sb_inv s" and pl: "iheap s p \<noteq> None" and ok: "file_ok s ?d" "backed s ?d {}"
    using r by (simp_all add: ready_def)
  note leaf = leaf_double [OF ij]
  from alloc_bfi_cases [OF inv pl] show ?thesis
  proof (elim disjE exE conjE)
    assume "testfs_alloc_block_for_inode s p = Ret (- ENOSPC, s)" "full s 0"
    then show ?thesis using di get_din_din [OF pl] by (simp add: alloc_double_rest get_dindirect_def ENOSPC_def full_def)
  next
    fix a s1 assume a: "testfs_alloc_block_for_inode s p = Ret (a, s1)" "146 \<le> a" "a < 1048722" "a \<notin> ublocks s"
      "ublocks s1 = insert a (ublocks s)" "iupd p s s1" "blk_eq s s1 {}" "idirty s1 p"
      "din s1 p = ?d\<lparr>block_count := block_count ?d + 1\<rparr>"
    obtain s2 where s2: "upd_din s1 p (i_dindirect_update (\<lambda>_. a)) = Ret s2" "iupd p s1 s2"
      "din s2 p = i_dindirect_update (\<lambda>_. a) (din s1 p)" "dblock s2 = dblock s1" "ublocks s2 = ublocks s1"
      by (rule upd_din_ok [where f = "i_dindirect_update (\<lambda>_. a)", OF iupd_sb_inv [OF a(6)] a(8)]) blast
    note u2 = iupd_trans [OF a(6) s2(2)]
    have d2: "din s2 p = ?d\<lparr>block_count := block_count ?d + 1, i_dindirect := a\<rparr>" using s2(3) a(9) by simp
    have b2: "blk_eq s s2 {}" using a(7) s2(4) by (simp add: blk_eq_def)
    have run: "alloc_double s p (int (2048 + 2048 * i + j)) = double_rest s2 p zero_mem True (int i) (int j)"
      using di a(1,2) s2(1) get_din_din [OF pl] double_index [OF ij] by (simp add: alloc_double_rest get_dindirect_def)
    have au: "i_dindirect (din s2 p) = a" "a \<in> ublocks s2" using d2 s2(5) a(5) by simp_all
    from double_rest_new [OF iupd_sb_inv [OF u2] iupd_live [OF u2] au(1) a(2) au(2) _ ij, of zero_mem True, simplified] show ?thesis
    proof (elim disjE exE conjE)
      fix b c t assume t: "double_rest s2 p zero_mem True (int i) (int j) = Ret (b, t)" "iupd p s2 t" "b \<noteq> c"
        "in_s32 b" "in_s32 c" "ublocks t = insert b (insert c (ublocks s2))"
        "din t p = (din s2 p)\<lparr>block_count := block_count (din s2 p) + 2\<rparr>"
        "dupd (dblock s2) (dblock t) [a \<mapsto> set_ptr zero_mem (int i) c, c \<mapsto> set_ptr zero_mem (int j) b]"
        "blk_eq s2 t {c, a}" "on_dev t c" "on_dev t a" "b \<in> fresh s2" "c \<in> fresh s2"
      have cf: "a \<in> fresh s" "c \<in> fresh s" "b \<in> fresh s" "c \<noteq> a" "b \<noteq> a" "146 \<le> c"
        using t(12,13) s2(5) a(2,4,5) by (auto simp: fresh_def)
      have nc: "c \<noteq> i_indirect ?d" "a \<noteq> i_indirect ?d"
        using fresh_slot [OF ok(1) inv cf(1), of SInd] fresh_slot [OF ok(1) inv cf(2), of SInd] by auto
      have dt: "din t p = ?d\<lparr>block_count := block_count ?d + 3, i_dindirect := a\<rparr>" using t(7) d2 by simp
      have D: "dupd (dblock s) (dblock t) [a \<mapsto> set_ptr zero_mem (int i) c, c \<mapsto> set_ptr zero_mem (int j) b]"
        using dupd_trans [OF dupd_blk_eq [OF b2] t(8)] by simp
      have "allocated p (2058 + 2048 * i + j) s b t"
      proof (rule allocatedI [OF ok iupd_trans [OF u2 t(2)], where N = ?N and X = "{c, a}"
            and f = "\<lambda>x. if x = SDInd then a else if x = SL2 i then c else b"])
        show "sval (dblock t) (din t p) x = (if x \<in> ?N then if x = SDInd then a else if x = SL2 i then c else b
            else sval (dblock s) ?d x)" if "x \<in> slots" for x
          using slots_dind_new [OF file_ok_ptrs [OF ok(1) inv] D di ij t(4,5) a(2) cf(6,4) nc that] dt by simp
        show "wf_dinode ((din t p)\<lparr>block_count := 0\<rparr>)"
          using wf_upds(3) [OF file_ok_wf [OF ok(1)] in_s32_block [OF a(2,3)]] by (simp add: dt)
        show "blk_eq s t {c, a}" using blk_eq_trans [OF b2 t(9)] by auto
        show "\<And>k. leaf k \<in> ?N \<Longrightarrow> k = 2058 + 2048 * i + j" using leaf_inj leaf by fastforce
      qed (use ij dt leaf cf s2(5) a(5) di t(3,6,10,11) in \<open>auto simp: inj_on_def\<close>)
      then show ?thesis using run t(1) by simp
    next
      fix t assume t: "double_rest s2 p zero_mem True (int i) (int j) = Ret (- ENOSPC, t)" "full s2 (Suc 0)"
      have "full s 2" using iupd_full [OF u2 t(2)] s2(5) a(4,5) by (simp add: full_def)
      then show ?thesis using run t(1) by simp
    qed
  qed
qed

section \<open>Allocating a logical block\<close>

lemma allocated_mapped:
  assumes r: "ready p s" and l: "l < 4196362" and nz: "bmap s (din s p) l \<noteq> 0"
  shows "allocated p l s (bmap s (din s p) l) s"
proof -
  have inv: "sb_inv s" and pl: "iheap s p \<noteq> None" and ok: "file_ok s (din s p)" "backed s (din s p) {}"
    using r by (simp_all add: ready_def)
  have "146 \<le> bmap s (din s p) l" using file_ok_pos [OF ok(1) inv leaf_slots [OF l]] nz by (simp add: bmap_def)
  then show ?thesis using iupd_refl [OF inv pl] ok by (auto simp: allocated_def backed_def)
qed

lemma alloc_double_ok:
  assumes r: "ready p s" and l: "2058 \<le> l" "l < 4196362" and z: "bmap s (din s p) l = 0"
  shows "(\<exists>s'. alloc_double s p (int l - 10) = Ret (- ENOSPC, s') \<and> full s 2) \<or>
    (\<exists>b s'. alloc_double s p (int l - 10) = Ret (b, s') \<and> allocated p l s b s')"
proof -
  define i j where "i = (l - 2058) div 2048" and "j = (l - 2058) mod 2048"
  have ij: "i < 2048" "j < 2048" using l by (auto simp: i_def j_def)
  have "2048 * i + j = l - 2058" by (simp add: i_def j_def)
  then have eq: "2058 + 2048 * i + j = l" "int (2048 + 2048 * i + j) = int l - 10" using l by linarith+
  show ?thesis
  proof (cases "i_dindirect (din s p) = 0")
    case True
    then show ?thesis using alloc_double_dind [OF r ij, unfolded eq] by blast
  next
    case False
    show ?thesis
    proof (cases "bget (dblock s) (i_dindirect (din s p)) i = 0")
      case True
      then show ?thesis using alloc_double_l2 [OF r ij False, unfolded eq] by blast
    next
      case nz: False
      then show ?thesis using alloc_double_old [OF r ij _ refl nz, unfolded eq] z full_mono [of s 0 2] by auto
    qed
  qed
qed

lemma allocate_block_ok:
  assumes r: "ready p s" and l: "readable (din s p) l"
  shows "(\<exists>b s'. testfs_allocate_block s p (int l) = Ret (b, lblock s (din s p) l, s') \<and> allocated p l s b s') \<or>
    (\<exists>s'. testfs_allocate_block s p (int l) = Ret (- ENOSPC, lblock s (din s p) l, s') \<and> bmap s (din s p) l = 0 \<and>
       full s 2 \<and> (l < 2058 \<longrightarrow> alloc_failed p s s'))"
proof -
  have inv: "sb_inv s" and pl: "iheap s p \<noteq> None" and ok: "file_ok s (din s p)" "backed s (din s p) {}"
    using r by (simp_all add: ready_def)
  have lt: "l < 4196362" using l by (simp add: readable_def)
  note rd = read_block_bmap [OF ok(1) inv ok(2) get_din_din [OF pl] l]
  show ?thesis
  proof (cases "bmap s (din s p) l = 0")
    case False
    then show ?thesis
      using rd lt allocated_mapped [OF r lt False] by (simp add: testfs_allocate_block_def MAX_FILE_BLOCKS_def)
  next
    case True
    consider "l < 10" | "10 \<le> l" "l < 2058" | "2058 \<le> l" by linarith
    then show ?thesis
    proof cases
      case 1
      then show ?thesis using rd True alloc_direct_ok [OF r 1 True] alloc_failed_refl [OF r] full_mono [of s 0 2]
        by (auto simp: testfs_allocate_block_def MAX_FILE_BLOCKS_def)
    next
      case 2
      define k where "k = l - 10"
      have k: "k < 2048" "k + 10 = l" "int l - 10 = int k" using 2 by (auto simp: k_def)
      have "(\<exists>s'. alloc_single s p (int k) = Ret (- ENOSPC, s') \<and> alloc_failed p s s' \<and> full s 2) \<or>
          (\<exists>b s'. alloc_single s p (int k) = Ret (b, s') \<and> allocated p l s b s')"
      proof (cases "i_indirect (din s p) = 0")
        case i: True then show ?thesis using alloc_single_new [OF r k(1) i] k(2) full_mono [of s 1 2] by auto
      next
        case i: False then show ?thesis
          using alloc_single_old [OF r k(1) _ i] alloc_failed_refl [OF r] full_mono [of s 0 2] True k(2) by auto
      qed
      then show ?thesis
        using 2 rd True k(3) by (auto simp: testfs_allocate_block_def MAX_FILE_BLOCKS_def NRI_def Let_def)
    next
      case 3
      then show ?thesis
        using alloc_double_ok [OF r 3 lt True] rd True lt
        by (auto simp: testfs_allocate_block_def MAX_FILE_BLOCKS_def NRI_def Let_def)
    qed
  qed
qed

end
