(* ===== verification/FS_Write.thy ===== *)
theory FS_Write
  imports FS_Alloc
begin

text \<open>
  Writing to and reading from a file: the bytes of a file as a function of the offset, the effect
  of storing one block, and the correctness of \<^verbatim>\<open>testfs_write_data\<close> and
  \<^verbatim>\<open>testfs_read_data\<close> against it.
\<close>

section \<open>Changes to one file\<close>

definition fstep :: "nat \<Rightarrow> fs \<Rightarrow> fs \<Rightarrow> bool" where
  "fstep p s s' \<longleftrightarrow> iupd p s s' \<and> ready p s' \<and> i_type (din s' p) = i_type (din s p) \<and>
     (i_dindirect (din s p) \<noteq> 0 \<longrightarrow> i_dindirect (din s' p) \<noteq> 0) \<and>
     ublocks s \<subseteq> ublocks s' \<and> ublocks s' \<subseteq> ublocks s \<union> fblocks (dblock s') (din s' p) \<and>
     fblocks (dblock s) (din s p) \<subseteq> fblocks (dblock s') (din s' p) \<and>
     fblocks (dblock s') (din s' p) \<subseteq> fblocks (dblock s) (din s p) \<union> fresh s \<and>
     blk_eq s s' (fblocks (dblock s) (din s p) \<union> fresh s)"

lemma fstep_refl: "ready p s \<Longrightarrow> fstep p s s"
  by (auto simp: fstep_def ready_def iupd_refl)

lemma fresh_anti: "ublocks s \<subseteq> ublocks s' \<Longrightarrow> fresh s' \<subseteq> fresh s"
  by (auto simp: fresh_def)

lemma fstep_trans:
  assumes a: "fstep p s s1" and b: "fstep p s1 s2"
  shows "fstep p s s2"
proof -
  have f: "fresh s1 \<subseteq> fresh s" using a by (intro fresh_anti) (simp add: fstep_def)
  have "blk_eq s s2 (fblocks (dblock s) (din s p) \<union> fresh s)"
    by (rule blk_eq_trans [of s s1 _ s2 "fblocks (dblock s1) (din s1 p) \<union> fresh s1"]) (use a b f in \<open>auto simp: fstep_def\<close>)
  moreover have "fblocks (dblock s2) (din s2 p) \<subseteq> fblocks (dblock s) (din s p) \<union> fresh s"
    using a b f by (auto simp: fstep_def)
  moreover have "ublocks s2 \<subseteq> ublocks s \<union> fblocks (dblock s2) (din s2 p)" using a b by (auto simp: fstep_def)
  moreover have "iupd p s s2" using a b iupd_trans by (auto simp: fstep_def)
  ultimately show ?thesis using a b unfolding fstep_def by (intro conjI) (simp_all, blast+)
qed

lemma ptr_slots: "x \<in> {SInd, SDInd} \<union> SL2 ` {0..<2048} \<Longrightarrow> x \<in> slots"
  by auto

text \<open>The blocks and the contents of every other file survive.\<close>

lemma fstep_other:
  assumes f: "fstep p s s'" and inv: "sb_inv s" and ok: "file_ok s e"
    and disj: "fblocks (dblock s) e \<inter> fblocks (dblock s) (din s p) = {}"
  shows "file_ok s' e" "\<And>i. i < 34376597504 \<Longrightarrow> fbyte s' e i = fbyte s e i"
    "fblocks (dblock s') e \<inter> fblocks (dblock s') (din s' p) = {}"
proof -
  have keep: "dblock s' (sval (dblock s) e x) i = dblock s (sval (dblock s) e x) i"
    if x: "x \<in> slots" "sval (dblock s) e x \<noteq> 0" and i: "i < 8192" for x i
  proof -
    have o: "sval (dblock s) e x \<in> fblocks (dblock s) e" using x by (auto simp: fblocks_def live_iff)
    then have "sval (dblock s) e x \<in> ublocks s" using ok by (auto simp: file_ok_def)
    moreover from ublocks_bounds [OF inv this] have "18 \<le> sval (dblock s) e x" by simp
    moreover have "sval (dblock s) e x \<notin> fblocks (dblock s) (din s p) \<union> fresh s"
      using o disj calculation(1) by (auto simp: fresh_def)
    ultimately show ?thesis using f i by (auto simp: fstep_def intro: blk_eqD)
  qed
  have sv: "sval (dblock s') e x = sval (dblock s) e x" if "x \<in> slots" for x
    by (rule sval_cong [OF refl refl refl _ that], rule keep [OF ptr_slots])
  note fb = fblocks_cong [OF sv] and lv = live_cong [OF sv]
  show "file_ok s' e"
    using ok fb lv sv f unfolding file_ok_def fstep_def by (auto simp: inj_on_def live_iff)
  have "fblocks (dblock s) e \<inter> fresh s = {}" using ok by (auto simp: file_ok_def fresh_def)
  then show "fblocks (dblock s') e \<inter> fblocks (dblock s') (din s' p) = {}"
    using fb f disj unfolding fstep_def by blast
  fix i :: nat assume "i < 34376597504"
  then have l: "leaf (i div 8192) \<in> slots" by (intro leaf_slots) auto
  show "fbyte s' e i = fbyte s e i"
    using sv [OF l] keep [OF l, of "i mod 8192"] by (simp add: fbyte_def bmap_def Let_def)
qed

section \<open>Storing a block\<close>

definition block_put :: "nat \<Rightarrow> nat \<Rightarrow> mem \<Rightarrow> fs \<Rightarrow> fs \<Rightarrow> bool" where
  "block_put p l m s s' \<longleftrightarrow> fstep p s s' \<and> i_size (din s' p) = i_size (din s p) \<and>
     card (ublocks s') \<le> card (ublocks s) + 3 \<and>
     (\<forall>k < 4196362. \<forall>i < 8192. lblock s' (din s' p) k i = (if k = l then m i else lblock s (din s p) k i))"

lemma allocated_put:
  assumes r: "ready p s" and a: "allocated p l s b s1" and l: "l < 4196362"
  shows "write_blocks s1 m b (Suc 0) = Ret (wrote s1 b m)" "block_put p l m s (wrote s1 b m)"
proof -
  let ?d = "din s p" and ?d1 = "din s1 p" and ?s2 = "wrote s1 b m"
  have inv: "sb_inv s" and ok: "file_ok s ?d" using r by (simp_all add: ready_def)
  have u: "iupd p s s1" and ok1: "file_ok s1 ?d1" "backed s1 ?d1 {b}" and b: "146 \<le> b"
    and bm: "\<And>k. k < 4196362 \<Longrightarrow> bmap s1 ?d1 k = (if k = l then b else bmap s ?d k)"
    and bl: "blk_eq s s1 (pblocks (dblock s) ?d \<union> fresh s)"
    using a by (simp_all add: allocated_def)
  note w = write_iupd [OF iupd_sb_inv [OF u] iupd_live [OF u] b, of m]
  show "write_blocks s1 m b (Suc 0) = Ret ?s2" by (rule w(1))
  have bleaf: "sval (dblock s1) ?d1 (leaf l) = b" using bm [OF l] by (simp add: bmap_def)
  have other: "dblock ?s2 c i = dblock s1 c i" if "c \<noteq> b" "146 \<le> c" "i < 8192" for c i
    using wrote_dblock [of b c i s1 m] that b by simp
  have notb: "sval (dblock s1) ?d1 x \<noteq> b" if "x \<in> slots" "x \<noteq> leaf l" for x
    using file_ok_distinct [OF ok1(1) that(1) leaf_slots [OF l]] bleaf that(2) b by auto
  have sv: "sval (dblock ?s2) ?d1 x = sval (dblock s1) ?d1 x" if "x \<in> slots" for x
  proof (rule sval_cong [OF refl refl refl _ that])
    fix y and i :: nat assume y: "y \<in> {SInd, SDInd} \<union> SL2 ` {0..<2048}" "sval (dblock s1) ?d1 y \<noteq> 0" "i < 8192"
    then have ys: "y \<in> slots" "y \<noteq> leaf l" using leaf_not [of l] by auto
    show "dblock ?s2 (sval (dblock s1) ?d1 y) i = dblock s1 (sval (dblock s1) ?d1 y) i"
      using other [OF notb [OF ys]] file_ok_pos [OF ok1(1) iupd_sb_inv [OF u] ys(1)] y by auto
  qed
  note fb = fblocks_cong [OF sv] and lv = live_cong [OF sv]
  have ok2: "file_ok ?s2 ?d1" using ok1(1) fb lv sv unfolding file_ok_def by (auto simp: inj_on_def live_iff)
  moreover have "backed ?s2 ?d1 {}" using ok1(2) fb w(5) iupd_dlen [OF w(2)] by (auto simp: backed_def)
  ultimately have r2: "ready p ?s2" using iupd_sb_inv [OF w(2)] iupd_live [OF w(2)] w(3) by (simp add: ready_def)
  have bf: "b \<in> fblocks (dblock s) ?d \<union> fresh s"
  proof -
    have "b \<in> fblocks (dblock s1) ?d1"
      using bleaf b leaf_slots [OF l] by (auto simp: fblocks_def live_iff intro!: image_eqI [of _ _ "leaf l"])
    then show ?thesis using a by (auto simp: allocated_def)
  qed
  have "blk_eq s s1 (fblocks (dblock s) ?d \<union> fresh s)"
    by (rule blk_eq_mono [OF bl]) (use pblocks_fblocks in blast)
  then have bl2: "blk_eq s ?s2 (fblocks (dblock s) ?d \<union> fresh s)" using b bf by (intro blk_eq_wrote) auto
  have "iupd p s ?s2" by (rule iupd_trans [OF u w(2)])
  then have step: "fstep p s ?s2"
    using a r2 bl2 fb w(3) by (simp add: fstep_def allocated_def)
  have "lblock ?s2 ?d1 k i = (if k = l then m i else lblock s ?d k i)" if k: "k < 4196362" "i < 8192" for k i
  proof (cases "k = l")
    case True
    then show ?thesis
      using sv [OF leaf_slots [OF l]] bleaf b k wrote_dblock [of b b i s1 m] by (simp add: lblock_def bmap_def)
  next
    case False
    define c where "c = bmap s ?d k"
    have lk: "leaf k \<in> slots" "leaf k \<noteq> leaf l" using leaf_slots [OF k(1)] leaf_inj False by blast+
    have c2: "bmap ?s2 ?d1 k = c" using sv [OF lk(1)] bm [OF k(1)] False by (simp add: bmap_def c_def)
    show ?thesis
    proof (cases "c = 0")
      case True then show ?thesis using False c2 by (simp add: lblock_def c_def [symmetric])
    next
      case nz: False
      have cu: "c \<in> ublocks s" using file_ok_slot [OF ok lk(1)] nz by (simp add: c_def bmap_def)
      then have c146: "146 \<le> c" using ublocks_bounds [OF inv] by blast
      have "c \<notin> pblocks (dblock s) ?d"
      proof
        assume "c \<in> pblocks (dblock s) ?d"
        then obtain y where y: "y \<in> {SInd, SDInd} \<union> SL2 ` {0..<2048}" "y \<in> slots" "sval (dblock s) ?d y = c"
          unfolding pblocks_def live_def by blast
        then have "y = leaf k" using file_ok_distinct [OF ok y(2) lk(1)] nz by (simp add: c_def bmap_def)
        then show False using y(1) leaf_not [of k] by auto
      qed
      then have "dblock s1 c i = dblock s c i"
        using cu c146 k(2) by (intro blk_eqD [OF bl]) (auto simp: fresh_def)
      moreover have "c \<noteq> b" using notb [OF lk] c2 sv [OF lk(1)] by (simp add: bmap_def)
      ultimately show ?thesis
        using False c2 nz other [OF _ c146 k(2)] by (simp add: lblock_def c_def [symmetric])
    qed
  qed
  then show "block_put p l m s ?s2"
    using step a w(3) by (simp add: block_put_def allocated_def)
qed

section \<open>Ranges of bytes\<close>

lemma fbyte_lblock: "fbyte s d i = lblock s d (i div 8192) (i mod 8192)"
  by (simp add: fbyte_def lblock_def Let_def)

definition wrote_bytes :: "nat \<Rightarrow> fs \<Rightarrow> fs \<Rightarrow> nat \<Rightarrow> nat \<Rightarrow> mem \<Rightarrow> nat \<Rightarrow> bool" where
  "wrote_bytes p s s' a n buf pos \<longleftrightarrow>
     (\<forall>i < 34376597504. fbyte s' (din s' p) i = (if a \<le> i \<and> i < a + n then buf (pos + (i - a)) else fbyte s (din s p) i))"

lemma wrote_bytes_trans:
  "wrote_bytes p s s1 a n buf pos \<Longrightarrow> wrote_bytes p s1 s2 (a + n) m buf (pos + n) \<Longrightarrow> wrote_bytes p s s2 a (n + m) buf pos"
  by (auto simp: wrote_bytes_def)

lemma block_offset: "off < (8192::nat) \<Longrightarrow> (l * 8192 + off) div 8192 = l" "off < (8192::nat) \<Longrightarrow> (l * 8192 + off) mod 8192 = off"
  by auto

lemma in_block:
  fixes i :: nat
  assumes "off + n \<le> 8192"
  shows "l * 8192 + off \<le> i \<and> i < l * 8192 + off + n \<longleftrightarrow> i div 8192 = l \<and> off \<le> i mod 8192 \<and> i mod 8192 < off + n"
proof -
  define q m where "q = i div 8192" and "m = i mod 8192"
  have i: "i = q * 8192 + m" "m < 8192" by (simp_all add: q_def m_def)
  consider "q < l" | "q = l" | "l < q" by linarith
  then show ?thesis
    unfolding q_def [symmetric] m_def [symmetric] using i assms by cases auto
qed

lemma put_bytes:
  assumes b: "block_put p l (memcpy (lblock s (din s p) l) off buf pos n) s s'" and n: "off + n \<le> 8192"
  shows "wrote_bytes p s s' (l * 8192 + off) n buf pos"
  unfolding wrote_bytes_def
proof (intro allI impI)
  fix i :: nat assume i: "i < 34376597504"
  have k: "i div 8192 < 4196362" "i mod 8192 < 8192" using i by auto
  have "fbyte s' (din s' p) i = (if i div 8192 = l then memcpy (lblock s (din s p) l) off buf pos n (i mod 8192)
      else fbyte s (din s p) i)"
    using b k by (simp add: block_put_def fbyte_lblock)
  moreover have "i - (l * 8192 + off) = i mod 8192 - off" if "i div 8192 = l"
    using that div_mult_mod_eq [of i 8192] by linarith
  ultimately show "fbyte s' (din s' p) i =
      (if l * 8192 + off \<le> i \<and> i < l * 8192 + off + n then buf (pos + (i - (l * 8192 + off))) else fbyte s (din s p) i)"
    unfolding in_block [OF n] by (auto simp: memcpy_def fbyte_lblock)
qed

text \<open>A file in which the blocks before \<^verbatim>\<open>L\<close> may be written.\<close>

definition writable :: "dinode \<Rightarrow> nat \<Rightarrow> bool" where
  "writable d L \<longleftrightarrow> L \<le> 4196362 \<and> (L \<le> 2058 \<or> i_dindirect d \<noteq> 0)"

definition room :: "fs \<Rightarrow> nat \<Rightarrow> bool" where
  "room s n \<longleftrightarrow> int (card (ublocks s)) + 3 * int n \<le> max_fs_blocks (sb s)"

lemma writable_mono: "writable d L \<Longrightarrow> K \<le> L \<Longrightarrow> writable d K"
  by (auto simp: writable_def)

lemma store_block:
  assumes r: "ready p s" and l: "writable (din s p) L" "l < L" and sp: "room s (Suc n)"
  obtains b s1 where "testfs_allocate_block s p (int l) = Ret (b, lblock s (din s p) l, s1)" "0 \<le> b"
    "\<And>m. write_blocks s1 m b (Suc 0) = Ret (wrote s1 b m)" "\<And>m. block_put p l m s (wrote s1 b m)"
    "\<And>m. room (wrote s1 b m) n" "\<And>m. writable (din (wrote s1 b m) p) L"
proof -
  have rd: "readable (din s p) l" and lt: "l < 4196362" using l by (auto simp: readable_def writable_def)
  have "\<not> full s 2" using sp by (simp add: room_def full_def)
  then obtain b s1 where al: "testfs_allocate_block s p (int l) = Ret (b, lblock s (din s p) l, s1)" "allocated p l s b s1"
    using allocate_block_ok [OF r rd] by blast
  note put = allocated_put [OF r al(2) lt]
  have "0 \<le> b" using al(2) by (simp add: allocated_def)
  moreover have "room (wrote s1 b m) n" for m
  proof -
    have "max_fs_blocks (sb (wrote s1 b m)) = max_fs_blocks (sb s)" "card (ublocks (wrote s1 b m)) \<le> card (ublocks s) + 3"
      using put(2) [of m] by (simp_all add: block_put_def fstep_def iupd_def)
    then show ?thesis using sp by (simp add: room_def)
  qed
  moreover have "writable (din (wrote s1 b m) p) L" for m
    using put(2) [of m] l(1) by (auto simp: block_put_def fstep_def writable_def)
  ultimately show ?thesis using that al(1) put by blast
qed

definition wr :: "nat \<Rightarrow> fs \<Rightarrow> fs \<Rightarrow> nat \<Rightarrow> nat \<Rightarrow> mem \<Rightarrow> nat \<Rightarrow> bool" where
  "wr p s s' a n buf pos \<longleftrightarrow> fstep p s s' \<and> i_size (din s' p) = i_size (din s p) \<and> wrote_bytes p s s' a n buf pos"

lemma wr_refl: "ready p s \<Longrightarrow> wr p s s a 0 buf pos"
  by (auto simp: wr_def fstep_refl wrote_bytes_def)

lemma wr_trans: "wr p s s1 a n buf pos \<Longrightarrow> wr p s1 s2 (a + n) m buf (pos + n) \<Longrightarrow> wr p s s2 a (n + m) buf pos"
  using fstep_trans wrote_bytes_trans by (auto simp: wr_def)

lemma put_wr: "block_put p l (memcpy (lblock s (din s p) l) off buf pos n) s s' \<Longrightarrow> off + n \<le> 8192 \<Longrightarrow>
    wr p s s' (l * 8192 + off) n buf pos"
  using put_bytes by (auto simp: wr_def block_put_def)

lemma wr_ready: "wr p s s' a n buf pos \<Longrightarrow> ready p s'"
  by (simp add: wr_def fstep_def)

lemma write_full_ok:
  assumes "ready p s" "writable (din s p) (l + q)" "room s (q + k)" "1 \<le> r" "r \<le> 8192" "bn + i + 1 = int l"
  shows "\<exists>s'. write_full s p bn i (int (8192 * q + r)) buf pos = Ret (Inr (i + int q, pos + 8192 * q, s')) \<and>
    wr p s s' (l * 8192) (8192 * q) buf pos \<and> room s' k"
  using assms
proof (induction q arbitrary: s l i pos)
  case 0
  then show ?case
    by (intro exI [of _ s]) (simp add: write_full.simps wr_refl)
next
  case (Suc q)
  obtain b s1 where st: "testfs_allocate_block s p (int l) = Ret (b, lblock s (din s p) l, s1)" "0 \<le> b"
    "\<And>m. write_blocks s1 m b (Suc 0) = Ret (wrote s1 b m)" "\<And>m. block_put p l m s (wrote s1 b m)"
    "\<And>m. room (wrote s1 b m) (q + k)" "\<And>m. writable (din (wrote s1 b m) p) (l + Suc q)"
    by (rule store_block [OF Suc.prems(1,2), of l "q + k"]) (use Suc.prems(3) in auto)
  define m where "m = memcpy (lblock s (din s p) l) 0 buf pos 8192"
  have w1: "wr p s (wrote s1 b m) (l * 8192) 8192 buf pos" using put_wr [OF st(4) [of m, unfolded m_def]] by (simp add: m_def)
  obtain s' where s': "write_full (wrote s1 b m) p bn (i + 1) (int (8192 * q + r)) buf (pos + 8192) =
      Ret (Inr (i + 1 + int q, pos + 8192 + 8192 * q, s'))"
    "wr p (wrote s1 b m) s' (Suc l * 8192) (8192 * q) buf (pos + 8192)" "room s' k"
    using Suc.IH [OF wr_ready [OF w1], of "Suc l" "i + 1" "pos + 8192"] st(5,6) Suc.prems(4-6) by auto
  have "l < 4196362" using Suc.prems(2) by (simp add: writable_def)
  then have "to_s32 (bn + (i + 1)) = int l" using Suc.prems(6) by (simp add: add.assoc [symmetric])
  moreover have "int (8192 * Suc q + r) > BS" "int (8192 * Suc q + r) - BS = int (8192 * q + r)" using Suc.prems(4) by simp_all
  ultimately have "write_full s p bn i (int (8192 * Suc q + r)) buf pos = Ret (Inr (i + 1 + int q, pos + 8192 + 8192 * q, s'))"
    using st(1-3) s'(1) by (subst write_full.simps) (simp add: m_def)
  moreover have "wr p s s' (l * 8192) (8192 * Suc q) buf pos"
    using wr_trans [OF w1, of s' "8192 * q"] s'(2) by (simp add: algebra_simps)
  ultimately show ?case using s'(3) by (auto simp: algebra_simps)
qed

section \<open>Writing\<close>

lemma set_size_step:
  assumes r: "ready p s" and i: "iheap s p = Some ino" and z: "- (2 ^ 63) \<le> z" "z < 2 ^ 63"
  defines "s' \<equiv> iset s p (ino\<lparr>i_in := (i_in ino)\<lparr>i_size := z\<rparr>, i_dirty := True\<rparr>)"
  shows "fstep p s s'" "din s' p = (din s p)\<lparr>i_size := z\<rparr>" "fbyte s' (din s' p) = fbyte s (din s p)" "idirty s' p"
proof -
  have d: "din s' p = (din s p)\<lparr>i_size := z\<rparr>" "din s p = i_in ino" using i by (simp_all add: s'_def din_def)
  have D: "dblock s' = dblock s" "ublocks s' = ublocks s" by (simp_all add: s'_def)
  have sv: "sval (dblock s') (din s' p) x = sval (dblock s) (din s p) x" for x
    by (cases x) (simp_all add: d(1) D)
  note fb = fblocks_cong [OF sv] and lv = live_cong [OF sv]
  have inv: "sb_inv s" and ok: "file_ok s (din s p)" "backed s (din s p) {}" using r by (simp_all add: ready_def)
  have "wf_dinode (din s' p)" using file_ok_wf [OF ok(1)] z by (simp add: d(1) wf_dinode_def)
  moreover have "inj_on (sval (dblock s') (din s' p)) (live (dblock s) (din s p))"
    using ok(1) by (simp add: file_ok_def inj_on_def sv)
  moreover have "block_count (din s' p) = block_count (din s p)" by (simp add: d(1))
  ultimately have ok': "file_ok s' (din s' p)"
    using ok(1) unfolding file_ok_def fb lv D(2) by simp
  have "backed s' (din s' p) {}" using ok(2) fb by (simp add: backed_def on_dev_def s'_def)
  then have r': "ready p s'" using ok' inv by (simp add: ready_def s'_def)
  have "iupd p s s'" using i inv unfolding iupd_def s'_def by auto
  then show "fstep p s s'" using r' d(1) fb D by (simp add: fstep_def blk_eq_def)
  show "din s' p = (din s p)\<lparr>i_size := z\<rparr>" by (rule d(1))
  show "fbyte s' (din s' p) = fbyte s (din s p)" 
    by (rule ext, simp only: fbyte_def bmap_def sv) (simp only: D)
  show "idirty s' p" by (simp add: s'_def idirty_def)
qed

text \<open>The contract of a write of \<^verbatim>\<open>n\<close> bytes of \<^verbatim>\<open>buf\<close> at offset \<^verbatim>\<open>a\<close>.\<close>

definition written :: "nat \<Rightarrow> fs \<Rightarrow> fs \<Rightarrow> nat \<Rightarrow> nat \<Rightarrow> mem \<Rightarrow> bool" where
  "written p s s' a n buf \<longleftrightarrow> fstep p s s' \<and> wrote_bytes p s s' a n buf 0 \<and> idirty s' p \<and>
     i_size (din s' p) = max (i_size (din s p)) (int (a + n))"

lemma write_out_ok:
  assumes w: "wr p s s1 a n buf 0" and n: "0 < n" "a + n \<le> 34376597504" "n < 2147483648"
  shows "\<exists>s'. write_out s1 p (int a) (int n) False = Ret (int n, s') \<and> written p s s' a n buf \<and> room s' = room s1"
proof -
  have r1: "ready p s1" using wr_ready [OF w] .
  obtain ino where i: "iheap s1 p = Some ino" using r1 by (auto simp: ready_def)
  have d1: "din s1 p = i_in ino" using i by (simp add: din_def)
  have "wf_dinode (din s1 p)" using r1 by (simp add: ready_def file_ok_def)
  then have z: "- (2 ^ 63) \<le> max (i_size (din s1 p)) (int (a + n))" "max (i_size (din s1 p)) (int (a + n)) < 2 ^ 63"
    using n by (auto simp: wf_dinode_def)
  let ?s' = "iset s1 p (ino\<lparr>i_in := (i_in ino)\<lparr>i_size := max (i_size (din s1 p)) (int (a + n))\<rparr>, i_dirty := True\<rparr>)"
  note st = set_size_step [OF r1 i z]
  have "written p s ?s' a n buf"
    unfolding written_def using fstep_trans [OF _ st(1)] w st
    by (simp add: wr_def wrote_bytes_def)
  moreover have "write_out s1 p (int a) (int n) False = Ret (int n, ?s')"
    using i n by (simp add: write_out_def d1 Let_def)
  moreover have "room ?s' = room s1" by (simp add: room_def fun_eq_iff)
  ultimately show ?thesis by blast
qed

lemma c_div_block: "c_div (int a) BS = int (a div 8192)" "c_mod (int a) BS = int (a mod 8192)"
  by (simp_all add: zdiv_int zmod_int)

lemma write_data_single:
  assumes r: "ready p s" and n: "0 < n" "a mod 8192 + n \<le> 8192" "a + n \<le> 34376597504"
    and wb: "writable (din s p) (Suc (a div 8192))" and sp: "room s (Suc k)"
  shows "\<exists>s'. testfs_write_data s p buf (int a) (int n) = Ret (int n, s') \<and> written p s s' a n buf \<and> room s' k"
proof -
  obtain b s1 where st: "testfs_allocate_block s p (int (a div 8192)) = Ret (b, lblock s (din s p) (a div 8192), s1)" "0 \<le> b"
    "\<And>m. write_blocks s1 m b (Suc 0) = Ret (wrote s1 b m)" "\<And>m. block_put p (a div 8192) m s (wrote s1 b m)"
    "\<And>m. room (wrote s1 b m) k"
    by (rule store_block [OF r wb lessI sp]) blast
  define m where "m = memcpy (lblock s (din s p) (a div 8192)) (a mod 8192) buf 0 n"
  have "wr p s (wrote s1 b m) a n buf 0" using put_wr [OF st(4) [of m, unfolded m_def] n(2)] by (simp add: m_def)
  from write_out_ok [OF this n(1,3)] obtain s' where
    s': "write_out (wrote s1 b m) p (int a) (int n) False = Ret (int n, s')" "written p s s' a n buf" "room s' k"
    using n st(5) by auto
  have blk: "a div 8192 < 4196362" using n by auto
  then have "to_s32 (int (a div 8192)) = int (a div 8192)" by (simp del: of_nat_div)
  moreover have "to_u64 (int (a mod 8192) + int n) = int (a mod 8192 + n)" "int (a mod 8192 + n) \<le> 8192" using n(2) by (simp_all del: of_nat_mod)
  ultimately show ?thesis
    using st(1-3) s' unfolding testfs_write_data_def c_div_block Let_def
    by (simp add: m_def del: of_nat_div of_nat_mod)
qed

text \<open>
  How a range of more than one block splits: \<^verbatim>\<open>f\<close> bytes in the first block, \<^verbatim>\<open>q\<close> full
  blocks and \<^verbatim>\<open>r\<close> bytes in the last.
\<close>

lemma range_split:
  fixes a n :: nat
  assumes "8192 < a mod 8192 + n"
  obtains l ix f q r where "l = a div 8192" "ix = a mod 8192" "f + ix = 8192" "ix < 8192" "a = l * 8192 + ix"
    "n = f + (8192 * q + r)" "1 \<le> r" "r \<le> 8192" "(a + n - 1) div 8192 = l + q + 1" "q \<le> n div 8192"
    "(a + n) mod 8192 = r mod 8192"
proof -
  define l ix where "l = a div 8192" and "ix = a mod 8192"
  define f where "f = 8192 - ix"
  define t where "t = n - f"
  define q where "q = (t - 1) div 8192"
  define r where "r = t - 8192 * q"
  have ix: "ix < 8192" "a = l * 8192 + ix" by (simp_all add: ix_def l_def)
  have f: "f + ix = 8192" using ix(1) by (simp add: f_def)
  have t: "1 \<le> t" "n = f + t" using assms [folded ix_def] f by (simp_all add: t_def)
  have "8192 * q \<le> t - 1" "t - 1 < 8192 * q + 8192" unfolding q_def by linarith+
  then have r: "1 \<le> r" "r \<le> 8192" "t = 8192 * q + r" using t(1) by (auto simp: r_def)
  have e: "a + n = (l + q + 1) * 8192 + r" using ix(2) t f r(3) by simp
  then have "a + n - 1 = (l + q + 1) * 8192 + (r - 1)" using r(1) by simp
  then have last: "(a + n - 1) div 8192 = l + q + 1" using r block_offset(1) [of "r - 1" "l + q + 1"] by simp
  have "8192 * q div 8192 \<le> n div 8192" using r(3) t(2) by (intro div_le_mono) simp
  then have "q \<le> n div 8192" by simp
  moreover have "n = f + (8192 * q + r)" using t(2) r(3) by simp
  moreover have "(a + n) mod 8192 = r mod 8192" by (simp only: e mod_mult_self3)
  ultimately show ?thesis
    using that [OF l_def ix_def f ix _ r(1,2) last] by blast
qed

text \<open>The first block, the full blocks, the last block.\<close>

lemma write_data_steps:
  assumes r: "ready p s" and wb: "writable (din s p) (l + q + 2)" and sp: "room s (q + 2)"
    and ix: "f + ix = 8192" "ix < 8192" "a = l * 8192 + ix" and rr: "1 \<le> rr" "rr \<le> 8192"
  obtains b s1 s2 s3 b' s4 s5 where
    "testfs_allocate_block s p (int l) = Ret (b, lblock s (din s p) l, s1)" "0 \<le> b"
    "write_blocks s1 (memcpy (lblock s (din s p) l) ix buf 0 f) b (Suc 0) = Ret s2"
    "write_full s2 p (int l) 0 (int (8192 * q + rr)) buf f = Ret (Inr (int q, f + 8192 * q, s3))"
    "testfs_allocate_block s3 p (int (l + q + 1)) = Ret (b', lblock s3 (din s3 p) (l + q + 1), s4)" "0 \<le> b'"
    "write_blocks s4 (memcpy (lblock s3 (din s3 p) (l + q + 1)) 0 buf (f + 8192 * q) rr) b' (Suc 0) = Ret s5"
    "wr p s s5 a (f + (8192 * q + rr)) buf 0"
proof -
  have sp': "room s (Suc (q + Suc 0))" using sp by (simp add: room_def)
  obtain b s1 where st: "testfs_allocate_block s p (int l) = Ret (b, lblock s (din s p) l, s1)" "0 \<le> b"
    "\<And>m. write_blocks s1 m b (Suc 0) = Ret (wrote s1 b m)" "\<And>m. block_put p l m s (wrote s1 b m)"
    "\<And>m. room (wrote s1 b m) (q + Suc 0)" "\<And>m. writable (din (wrote s1 b m) p) (l + q + 2)"
    by (rule store_block [OF r wb, of l, OF _ sp']) auto
  define m1 where "m1 = memcpy (lblock s (din s p) l) ix buf 0 f"
  define s2 where "s2 = wrote s1 b m1"
  have w1: "wr p s s2 a f buf 0" using put_wr [OF st(4) [of m1, unfolded m1_def]] ix by (simp add: m1_def s2_def)
  have "writable (din s2 p) (l + 1 + q)" using writable_mono [OF st(6) [of m1]] by (simp add: s2_def)
  from write_full_ok [OF wr_ready [OF w1] this, of "Suc 0" rr "int l" 0 buf f]
  obtain s3 where s3: "write_full s2 p (int l) 0 (int (8192 * q + rr)) buf f = Ret (Inr (0 + int q, f + 8192 * q, s3))"
    "wr p s2 s3 ((l + 1) * 8192) (8192 * q) buf f" "room s3 (Suc 0)"
    using st(5) [of m1] rr by (auto simp: s2_def)
  have "(l + 1) * 8192 = a + f" using ix by simp
  with wr_trans [OF w1, of s3 "8192 * q"] s3(2) have w2: "wr p s s3 a (f + 8192 * q) buf 0" by simp
  have wb3: "writable (din s3 p) (Suc (l + q + 1))"
    using st(6) [of m1] s3(2) by (auto simp: wr_def fstep_def writable_def s2_def)
  obtain b' s4 where st': "testfs_allocate_block s3 p (int (l + q + 1)) = Ret (b', lblock s3 (din s3 p) (l + q + 1), s4)" "0 \<le> b'"
    "\<And>m. write_blocks s4 m b' (Suc 0) = Ret (wrote s4 b' m)" "\<And>m. block_put p (l + q + 1) m s3 (wrote s4 b' m)"
    by (rule store_block [OF wr_ready [OF s3(2)] wb3 lessI s3(3)]) blast
  define m2 where "m2 = memcpy (lblock s3 (din s3 p) (l + q + 1)) 0 buf (f + 8192 * q) rr"
  have "wr p s3 (wrote s4 b' m2) ((l + q + 1) * 8192) rr buf (f + 8192 * q)"
    using put_wr [OF st'(4) [of m2, unfolded m2_def]] rr(2) by (simp add: m2_def)
  moreover have "(l + q + 1) * 8192 = a + (f + 8192 * q)" using ix by simp
  ultimately have "wr p s3 (wrote s4 b' m2) (a + (f + 8192 * q)) rr buf (0 + (f + 8192 * q))" by (simp only: add_0)
  from wr_trans [OF w2 this] have "wr p s (wrote s4 b' m2) a (f + 8192 * q + rr) buf 0" .
  then show ?thesis
    using that [OF st(1,2), of s2 s3 b' s4 "wrote s4 b' m2"] st(3) st' s3(1) by (simp add: m1_def m2_def s2_def add.assoc)
qed

lemma write_data_multi:
  assumes r: "ready p s" and n: "8192 < a mod 8192 + n" "a + n \<le> 34376597504" "n < 2147483648"
    and wb: "writable (din s p) (Suc ((a + n - 1) div 8192))" and sp: "room s (n div 8192 + 2)"
  shows "\<exists>s'. testfs_write_data s p buf (int a) (int n) = Ret (int n, s') \<and> written p s s' a n buf"
proof -
  obtain l ix f q rr where g: "l = a div 8192" "ix = a mod 8192" "f + ix = 8192" "ix < 8192" "a = l * 8192 + ix"
    "n = f + (8192 * q + rr)" "1 \<le> rr" "rr \<le> 8192" "(a + n - 1) div 8192 = l + q + 1" "q \<le> n div 8192"
    by (rule range_split [OF n(1)])
  have wb': "writable (din s p) (l + q + 2)" using wb g(9) by simp
  have sp': "room s (q + 2)" using sp g(10) by (simp add: room_def)
  obtain b s1 s2 s3 b' s4 s5 where st:
    "testfs_allocate_block s p (int l) = Ret (b, lblock s (din s p) l, s1)" "0 \<le> b"
    "write_blocks s1 (memcpy (lblock s (din s p) l) ix buf 0 f) b (Suc 0) = Ret s2"
    "write_full s2 p (int l) 0 (int (8192 * q + rr)) buf f = Ret (Inr (int q, f + 8192 * q, s3))"
    "testfs_allocate_block s3 p (int (l + q + 1)) = Ret (b', lblock s3 (din s3 p) (l + q + 1), s4)" "0 \<le> b'"
    "write_blocks s4 (memcpy (lblock s3 (din s3 p) (l + q + 1)) 0 buf (f + 8192 * q) rr) b' (Suc 0) = Ret s5"
    "wr p s s5 a (f + (8192 * q + rr)) buf 0"
    by (rule write_data_steps [OF r wb' sp' g(3-5,7,8)])
  obtain s' where s': "write_out s5 p (int a) (int n) False = Ret (int n, s')" "written p s s' a n buf"
    using write_out_ok [OF st(8) _ _ ] n g by (metis add_gr_0 less_le_trans zero_less_one)
  have lim: "to_u64 (MAX_FILE_BYTES - int a) = MAX_FILE_BYTES - int a" "\<not> MAX_FILE_BYTES - int a < int n"
    using n(2) by (auto simp: MAX_FILE_BYTES_def)
  have big: "to_u64 (int ix + int n) = int ix + int n" "8192 < int ix + int n"
    "to_u64 (int n - (8192 - int ix)) = int (8192 * q + rr)" "nat (8192 - int ix) = f"
    using n(1,3) g(2,3,4,6) by auto
  have blk: "to_s32 (int l) = int l" "to_s32 (int l + 1) = int (l + 1)" "to_s32 (int l + int q + 1) = int (l + q + 1)"
    using wb' by (simp_all add: writable_def)
  have rest: "to_s64 (int (8192 * q + rr)) = int (8192 * q + rr)" "to_u64 (int (8192 * q + rr) - int q * 8192) = int rr"
    using n(3) g(6,8) by auto
  note run = testfs_write_data_def c_div_block Let_def g(1,2) [symmetric]
  show ?thesis
  proof (cases "q = 0")
    case True
    then show ?thesis using st s' lim big blk g(4,8) unfolding run by (simp add: write_full.simps)
  next
    case False
    then have "8192 < int (8192 * q + rr)" using g(7) by simp
    then show ?thesis using False st s' lim big blk rest g(4,8) unfolding run by simp
  qed
qed

lemma write_data_ok:
  assumes "ready p s" "0 < n" "a + n \<le> 34376597504" "n < 2147483648"
    and "(a + n - 1) div 8192 < 2058 \<or> i_dindirect (din s p) \<noteq> 0"
    and "int (card (ublocks s)) + 3 * int (n div 8192 + 2) \<le> max_fs_blocks (sb s)"
  shows "\<exists>s'. testfs_write_data s p buf (int a) (int n) = Ret (int n, s') \<and> written p s s' a n buf"
proof -
  have wb: "writable (din s p) (Suc ((a + n - 1) div 8192))"
    using assms(2,3,5) by (auto simp: writable_def)
  have sp: "room s (n div 8192 + 2)" using assms(6) by (simp add: room_def)
  show ?thesis
  proof (cases "8192 < a mod 8192 + n")
    case True
    then show ?thesis by (rule write_data_multi [OF assms(1) _ assms(3,4) wb sp])
  next
    case False
    have "a div 8192 \<le> (a + n - 1) div 8192" using assms(2) by (intro div_le_mono) simp
    then have "writable (din s p) (Suc (a div 8192))" by (intro writable_mono [OF wb]) simp
    moreover have "room s (Suc (n div 8192 + 1))" using sp by simp
    ultimately show ?thesis using False write_data_single [OF assms(1,2) _ assms(3)] by (meson not_less)
  qed
qed

section \<open>Reading\<close>

lemma read_block_ready:
  "ready p s \<Longrightarrow> readable (din s p) l \<Longrightarrow> testfs_read_block s p (int l) = Ret (bmap s (din s p) l, lblock s (din s p) l)"
  using read_block_bmap get_din_din by (simp add: ready_def)

lemma bmap_nonneg: "ready p s \<Longrightarrow> l < 4196362 \<Longrightarrow> 0 \<le> bmap s (din s p) l"
  using file_ok_pos [OF _ _ leaf_slots, of s "din s p" l] by (auto simp: ready_def bmap_def)

lemma readable_mono: "readable d l \<Longrightarrow> k \<le> l \<Longrightarrow> readable d k"
  by (auto simp: readable_def)

text \<open>\<^verbatim>\<open>n\<close> bytes of the file from offset \<^verbatim>\<open>a\<close>, copied to \<^verbatim>\<open>buf\<close> at \<^verbatim>\<open>pos\<close>.\<close>

definition got :: "fs \<Rightarrow> dinode \<Rightarrow> nat \<Rightarrow> nat \<Rightarrow> mem \<Rightarrow> nat \<Rightarrow> mem" where
  "got s d a n buf pos = memcpy buf pos (fbyte s d) a n"

lemma got_trans: "got s d (a + n) m (got s d a n buf pos) (pos + n) = got s d a (n + m) buf pos"
  by (auto simp: got_def memcpy_def fun_eq_iff)

lemma got_block:
  assumes "off + n \<le> 8192"
  shows "memcpy buf pos (lblock s d l) off n = got s d (l * 8192 + off) n buf pos"
proof
  fix i
  show "memcpy buf pos (lblock s d l) off n i = got s d (l * 8192 + off) n buf pos i"
  proof (cases "pos \<le> i \<and> i < pos + n")
    case True
    then have "off + (i - pos) < 8192" using assms by linarith
    then show ?thesis using True block_offset [of "off + (i - pos)" l]
      by (simp add: got_def memcpy_def fbyte_lblock add.assoc)
  qed (auto simp: got_def memcpy_def)
qed

lemma read_full_ok:
  assumes "ready p s" "readable (din s p) (l + q)" "1 \<le> r" "r \<le> 8192" "bn + i + 1 = int l"
  shows "read_full s p bn i (int (8192 * q + r)) buf pos =
    Ret (Inr (i + int q, int r, got s (din s p) (l * 8192) (8192 * q) buf pos, pos + 8192 * q))"
  using assms
proof (induction q arbitrary: l i buf pos)
  case 0
  then show ?case by (simp add: read_full.simps got_def)
next
  case (Suc q)
  have rl: "readable (din s p) l" by (rule readable_mono [OF Suc.prems(2)]) simp
  then have lt: "l < 4196362" by (simp add: readable_def)
  have "to_s32 (bn + (i + 1)) = int l" using Suc.prems(5) lt by (simp add: add.assoc [symmetric])
  moreover have "int (8192 * Suc q + r) > BS" "int (8192 * Suc q + r) - BS = int (8192 * q + r)" using Suc.prems(3) by simp_all
  moreover have "\<not> bmap s (din s p) l < 0" using bmap_nonneg [OF Suc.prems(1) lt] by simp
  moreover have "memcpy buf pos (lblock s (din s p) l) 0 8192 = got s (din s p) (l * 8192) 8192 buf pos"
    using got_block [of 0 8192 buf pos s "din s p" l] by simp
  moreover have "read_full s p bn (i + 1) (int (8192 * q + r)) (got s (din s p) (l * 8192) 8192 buf pos) (pos + 8192) =
    Ret (Inr (i + 1 + int q, int r, got s (din s p) (Suc l * 8192) (8192 * q)
      (got s (din s p) (l * 8192) 8192 buf pos) (pos + 8192), pos + 8192 + 8192 * q))"
    using Suc.prems by (intro Suc.IH) auto
  moreover have "got s (din s p) (Suc l * 8192) (8192 * q) (got s (din s p) (l * 8192) 8192 buf pos) (pos + 8192) =
      got s (din s p) (l * 8192) (8192 * Suc q) buf pos"
    using got_trans [of s "din s p" "l * 8192" 8192 "8192 * q" buf pos] by (simp add: add.commute)
  ultimately show ?case
    using read_block_ready [OF Suc.prems(1) rl] by (subst read_full.simps) (simp add: algebra_simps)
qed

text \<open>
  The number of bytes that a read of \<^verbatim>\<open>n\<close> bytes at \<^verbatim>\<open>a\<close> returns, and the number it copies:
  when the range covers more than one block and ends at a block boundary the code skips its last
  block.
\<close>

definition read_len :: "dinode \<Rightarrow> nat \<Rightarrow> nat \<Rightarrow> nat" where
  "read_len d a n = min n (nat (i_size d) - a)"

definition copied_len :: "nat \<Rightarrow> nat \<Rightarrow> nat" where
  "copied_len a n = (if 8192 < a mod 8192 + n \<and> (a + n) mod 8192 = 0 then n - 8192 else n)"

lemma read_data_ok:
  assumes r: "ready p s" and a: "int a \<le> i_size (din s p)" "a + n \<le> 34376597504" "n < 2147483648"
    and sz: "i_size (din s p) \<le> 34376597504" and N: "N = read_len (din s p) a n"
    and rd: "readable (din s p) (max (a div 8192) ((a + N - 1) div 8192))"
  shows "testfs_read_data s p buf (int a) (int n) = Ret (int N, got s (din s p) a (copied_len a N) buf 0)"
proof -
  have Nn: "N \<le> n" by (simp add: N read_len_def)
  have eqN: "(if to_s64 (int a + to_s64 (int n)) > i_size (din s p) then to_u64 (i_size (din s p) - int a) else int n) = int N"
    using a sz by (auto simp: N read_len_def)
  have lim: "\<not> to_u64 (MAX_FILE_BYTES - int a) < int n" "\<not> MAX_FILE_BYTES < int N" using a Nn by (auto simp: MAX_FILE_BYTES_def)
  have g: "get_din s p = Ret (din s p)" using r get_din_din by (simp add: ready_def)
  have rl: "readable (din s p) (a div 8192)" by (rule readable_mono [OF rd]) simp
  have lt: "a div 8192 < 4196362" using rl by (simp add: readable_def)
  note b1 = read_block_ready [OF r rl] bmap_nonneg [OF r lt]
  note run = testfs_read_data_def c_div_block g bnd.simps Let_def eqN
  show ?thesis
  proof (cases "8192 < a mod 8192 + N")
    case False
    have ix: "a mod 8192 < 8192" "to_s32 (int (a div 8192)) = int (a div 8192)" using lt by (simp_all del: of_nat_div)
    have u: "to_u64 (int (a mod 8192) + int N) = int (a mod 8192) + int N" "int (a mod 8192) + int N \<le> 8192"
      using False by (simp_all del: of_nat_mod)
    have "memcpy buf 0 (lblock s (din s p) (a div 8192)) (a mod 8192) N = got s (din s p) a N buf 0"
      using got_block [of "a mod 8192" N buf 0 s "din s p" "a div 8192"] False by simp
    then show ?thesis
      using lim b1 ix u False a(3) Nn unfolding run by (simp add: copied_len_def del: of_nat_div of_nat_mod)
  next
    case True
    obtain l ix f q rr where s: "l = a div 8192" "ix = a mod 8192" "f + ix = 8192" "ix < 8192" "a = l * 8192 + ix"
      "N = f + (8192 * q + rr)" "1 \<le> rr" "rr \<le> 8192" "(a + N - 1) div 8192 = l + q + 1" "(a + N) mod 8192 = rr mod 8192"
      by (rule range_split [OF True])
    have rq: "readable (din s p) (l + 1 + q)" using readable_mono [OF rd, of "l + 1 + q"] s(9) by simp
    then have ltq: "l + 1 + q < 4196362" by (simp add: readable_def)
    define buf1 where "buf1 = got s (din s p) a f buf 0"
    have m1: "memcpy buf 0 (lblock s (din s p) l) ix f = buf1" using got_block [of ix f] s(3,5) by (simp add: buf1_def add.commute)
    have "got s (din s p) (a + f) (8192 * q) buf1 (0 + f) = got s (din s p) a (f + 8192 * q) buf 0"
      unfolding buf1_def by (rule got_trans)
    moreover have "(l + 1) * 8192 = a + f" using s(3,5) by simp
    ultimately have fl: "read_full s p (int l) 0 (int (8192 * q + rr)) buf1 f =
        Ret (Inr (int q, int rr, got s (din s p) a (f + 8192 * q) buf 0, f + 8192 * q))"
      using read_full_ok [OF r rq s(7,8), of "int l" 0 buf1 f] by simp
    have m2: "memcpy (got s (din s p) a (f + 8192 * q) buf 0) (f + 8192 * q) (lblock s (din s p) (l + 1 + q)) 0 rr = got s (din s p) a N buf 0"
    proof -
      let ?g = "got s (din s p) a (f + 8192 * q) buf 0"
      have e: "(l + 1 + q) * 8192 + 0 = a + (f + 8192 * q)" using s(3,5) by simp
      have "memcpy ?g (0 + (f + 8192 * q)) (lblock s (din s p) (l + 1 + q)) 0 rr =
          got s (din s p) ((l + 1 + q) * 8192 + 0) rr ?g (0 + (f + 8192 * q))"
        by (rule got_block) (use s(8) in simp)
      also have "\<dots> = got s (din s p) a (f + 8192 * q + rr) buf 0" unfolding e by (rule got_trans)
      finally show ?thesis using s(6) by (simp add: add.assoc)
    qed
    note b2 = read_block_ready [OF r rq] bmap_nonneg [OF r ltq]
    have N31: "N < 2147483648" using a(3) Nn by linarith
    have gap: "int N - (8192 - int ix) = int (8192 * q + rr)" "8192 < int ix + int N" using s(3,6,7) by linarith+
    have nums: "to_s32 (int l) = int l" "to_s32 (int l + int q + 1) = int (l + 1 + q)" using ltq by simp_all
    have nums': "to_u64 (int ix + int N) = int ix + int N" "to_s32 (int N) = int N" "nat (8192 - int ix) = f"
      using N31 s(3,4) by simp_all
    have rem: "to_s64 (int N - (8192 - int ix)) = int (8192 * q + rr)"
      unfolding gap(1) using N31 s(6) by (intro to_s64_id) linarith+
    note run' = run s(1,2) [symmetric]
    show ?thesis
    proof (cases "rr = 8192")
      case full: True
      then have "copied_len a N = f + 8192 * q" using s(6,10) True by (simp add: copied_len_def)
      then show ?thesis
        using full lim b1 nums nums' rem gap(2) m1 fl s(4) unfolding run' by (simp add: s(1) [symmetric])
    next
      case part: False
      then have c: "copied_len a N = N" "c_mod (int rr) BS = int rr" using s(7,8,10) by (simp_all add: copied_len_def)
      then show ?thesis
        using part lim b1 b2 nums nums' rem gap(2) m1 m2 fl s(4,7) unfolding run' by (simp add: s(1) [symmetric])
    qed
  qed
qed

section \<open>Properties\<close>

lemma sval_zero: "x \<in> slots \<Longrightarrow> sval D zero_dinode x = 0"
  by (cases x) (simp_all add: zero_dinode_def)

text \<open>An empty file just read into memory.\<close>

lemma ex_empty_file:
  "\<exists>s p. fs_inv s \<and> ready p s \<and> din s p = zero_dinode \<and> ublocks s = {} \<and> max_fs_blocks (sb s) = 128"
proof -
  obtain s0 where s0: "fs_inv s0" "iheap s0 = (\<lambda>_. None)" "ublocks s0 = {}" "max_fs_blocks (sb s0) = 128"
    "disk_inode s0 5 = zero_dinode" using ex_empty_fs by blast
  let ?s = "loaded s0 5" and ?p = "malloc_n s0"
  have "testfs_get_inode s0 5 = Ret (?p, ?s)"
    using s0 by (intro get_inode_miss) (auto simp: fs_inv_def malloc_works_def valid_inr_def)
  then have inv: "fs_inv ?s" using get_inode_ok [OF s0(1), of 5] by (auto simp: valid_inr_def)
  have d: "din ?s ?p = zero_dinode" by (simp add: din_def fresh_inode_def s0(5))
  have "live (dblock ?s) zero_dinode = {}" using sval_zero by (auto simp: live_def)
  moreover have "wf_dinode zero_dinode" by (simp add: zero_dinode_def wf_dinode_def in_s32_def list_all_iff)
  ultimately have "ready ?p ?s"
    using inv by (simp add: ready_def d fs_inv_def file_ok_def backed_def fblocks_def) (simp add: zero_dinode_def)
  then show ?thesis using inv d s0(3,4) by (intro exI [of _ ?s] exI [of _ ?p]) simp
qed

text \<open>
  \<^verbatim>\<open>testfs_read_block\<close> computes the block map of a well-formed file: it returns the
  physical block that the direct, indirect or double indirect pointers give for the logical block
  together with that block's bytes, and 0 with a zeroed buffer for a hole.
\<close>

theorem read_block_computes_map:
  assumes "ready p s" "readable (din s p) l"
  shows "testfs_read_block s p (int l) =
    Ret (sval (dblock s) (din s p) (leaf l), if bmap s (din s p) l = 0 then zero_mem else dblock s (bmap s (din s p) l))"
  using read_block_ready [OF assms] by (simp add: lblock_def bmap_def)

theorem read_block_computes_map_witness:
  "\<exists>s p. ready p s \<and> testfs_read_block s p 3000 = Ret (0, zero_mem)"
proof -
  obtain s p where s: "ready p s" "din s p = zero_dinode" using ex_empty_file by blast
  moreover have "readable (din s p) 3000" using s(2) by (simp add: readable_def zero_dinode_def)
  moreover have "sval (dblock s) zero_dinode (leaf 3000) = 0" by (rule sval_zero) (simp add: leaf_slots)
  ultimately show ?thesis
    using read_block_computes_map [of p s 3000] by (auto simp: bmap_def)
qed

text \<open>
  \<^verbatim>\<open>testfs_allocate_block\<close> on a well-formed file returns the block the logical block is
  mapped to, allocating it (with the indirect blocks on the way) where there was none: the new
  blocks were free, every other logical block keeps its mapping, all blocks of the file stay
  pairwise distinct, and no block in use outside the file's own pointer blocks changes. It fails
  with \<^verbatim>\<open>-ENOSPC\<close> only when fewer than three blocks are left; then, for direct and single
  indirect blocks, the file is as it was.
\<close>

theorem allocate_block_correct:
  assumes "ready p s" "readable (din s p) l"
  shows "(\<exists>b s'. testfs_allocate_block s p (int l) = Ret (b, lblock s (din s p) l, s') \<and> allocated p l s b s') \<or>
    (\<exists>s'. testfs_allocate_block s p (int l) = Ret (- ENOSPC, lblock s (din s p) l, s') \<and> bmap s (din s p) l = 0 \<and>
       max_fs_blocks (sb s) \<le> int (card (ublocks s)) + 2 \<and> (l < 2058 \<longrightarrow> alloc_failed p s s'))"
  using allocate_block_ok [OF assms] by (simp add: full_def)

theorem allocate_block_correct_witness:
  "\<exists>s p b s'. ready p s \<and> testfs_allocate_block s p 2060 = Ret (b, zero_mem, s') \<and> allocated p 2060 s b s'"
proof -
  obtain s p where s: "ready p s" "din s p = zero_dinode" "ublocks s = {}" "max_fs_blocks (sb s) = 128"
    using ex_empty_file by blast
  have r: "readable (din s p) 2060" using s(2) by (simp add: readable_def zero_dinode_def)
  have "sval (dblock s) zero_dinode (leaf 2060) = 0" by (rule sval_zero) (simp add: leaf_slots)
  then have "lblock s (din s p) 2060 = zero_mem" using s(2) by (simp add: lblock_def bmap_def)
  then show ?thesis
    using allocate_block_correct [OF s(1) r] s by auto
qed

text \<open>
  C6: \<^verbatim>\<open>testfs_write_data\<close> stores \<^verbatim>\<open>n\<close> bytes at offset \<^verbatim>\<open>a\<close> of a well-formed file,
  over any number of blocks, when enough blocks are free: it returns \<^verbatim>\<open>n\<close>, the bytes of the
  range are those of the buffer and all other bytes of the file are unchanged, the size grows to
  the end of the range if it was smaller, and the inode is dirty. (The range must end within the
  first 2058 blocks unless the file has a double indirect block.)
\<close>

theorem write_data_correct:
  assumes "ready p s" "0 < n" "a + n \<le> 34376597504" "n < 2147483648"
    and "(a + n - 1) div 8192 < 2058 \<or> i_dindirect (din s p) \<noteq> 0"
    and "int (card (ublocks s)) + 3 * int (n div 8192 + 2) \<le> max_fs_blocks (sb s)"
  shows "\<exists>s'. testfs_write_data s p buf (int a) (int n) = Ret (int n, s') \<and> fstep p s s' \<and> idirty s' p \<and>
    (\<forall>i < 34376597504. fbyte s' (din s' p) i = (if a \<le> i \<and> i < a + n then buf (i - a) else fbyte s (din s p) i)) \<and>
    i_size (din s' p) = max (i_size (din s p)) (int (a + n))"
proof -
  obtain s' where "testfs_write_data s p buf (int a) (int n) = Ret (int n, s')" "written p s s' a n buf"
    using write_data_ok [OF assms] by blast
  then show ?thesis by (intro exI [of _ s']) (simp add: written_def wrote_bytes_def)
qed

theorem write_data_correct_witness:
  "\<exists>s p s'. ready p s \<and> testfs_write_data s p (\<lambda>i. of_nat i) 8000 20000 = Ret (20000, s') \<and>
     fbyte s' (din s' p) 8007 = 7 \<and> i_size (din s' p) = 28000"
proof -
  obtain s p where s: "ready p s" "din s p = zero_dinode" "ublocks s = {}" "max_fs_blocks (sb s) = 128"
    using ex_empty_file by blast
  then obtain s' where s': "testfs_write_data s p (\<lambda>i. of_nat i) 8000 20000 = Ret (20000, s')" "i_size (din s' p) = 28000"
    "\<forall>i < 34376597504. fbyte s' (din s' p) i = (if 8000 \<le> i \<and> i < 28000 then of_nat (i - 8000) else fbyte s (din s p) i)"
    using write_data_correct [OF s(1), of 20000 8000 "\<lambda>i. of_nat i"] by (auto simp: zero_dinode_def)
  from s'(3) [rule_format, of 8007] have "fbyte s' (din s' p) 8007 = 7" by simp
  with s(1) s' show ?thesis by blast
qed

text \<open>
  C8: \<^verbatim>\<open>testfs_read_data\<close> at an offset inside a well-formed file returns the number of
  bytes asked for, cut off at the end of the file, and copies exactly those bytes to the buffer,
  with one exception: when the range covers more than one block and ends at a block boundary, the
  last block is not copied (the code tests the remainder modulo the block size for zero), although
  the returned count includes it.
\<close>

theorem read_data_exact:
  assumes "ready p s" "int a \<le> i_size (din s p)" "a + n \<le> 34376597504" "n < 2147483648"
    and "i_size (din s p) \<le> 34376597504" and N: "N = min n (nat (i_size (din s p)) - a)"
    and "readable (din s p) (max (a div 8192) ((a + N - 1) div 8192))"
  shows "\<exists>buf'. testfs_read_data s p buf (int a) (int n) = Ret (int N, buf') \<and>
    (\<forall>i. buf' i = (if i < (if 8192 < a mod 8192 + N \<and> (a + N) mod 8192 = 0 then N - 8192 else N)
       then fbyte s (din s p) (a + i) else buf i))"
  using read_data_ok [OF assms(1-5) N [folded read_len_def] assms(7), of buf] by (simp add: got_def memcpy_def copied_len_def)

theorem read_data_exact_witness:
  "\<exists>s p buf'. ready p s \<and> testfs_read_data s p (\<lambda>_. 9) 0 100 = Ret (0, buf') \<and> buf' 0 = 9"
proof -
  obtain s p where s: "ready p s" "din s p = zero_dinode" using ex_empty_file by blast
  then show ?thesis
    using read_data_exact [OF s(1), of 0 100 0 "\<lambda>_. 9"] by (auto simp: zero_dinode_def readable_def)
qed

text \<open>
  C5: what is written is read back. When there is space for the blocks, and the range ends within the first 2058 blocks of the file or the
  file has its double indirect block already, \<^verbatim>\<open>testfs_write_data\<close> succeeds, and a
  \<^verbatim>\<open>testfs_read_data\<close> of the same range returns the same number of bytes and fills the
  buffer with the bytes written. One kind of range is not read back completely: when it covers more than one block and ends at a
  block boundary, the last 8192 bytes of the buffer are left as they were.
\<close>

theorem write_read_roundtrip:
  assumes r: "ready p s" and n: "0 < n" "a + n \<le> 34376597504" "n < 2147483648"
    and w: "(a + n - 1) div 8192 < 2058 \<or> i_dindirect (din s p) \<noteq> 0"
      "int (card (ublocks s)) + 3 * int (n div 8192 + 2) \<le> max_fs_blocks (sb s)"
    and z: "i_size (din s p) \<le> 34376597504"
  shows "\<exists>s' buf'. testfs_write_data s p buf (int a) (int n) = Ret (int n, s') \<and>
    testfs_read_data s' p buf0 (int a) (int n) = Ret (int n, buf') \<and>
    (\<forall>i. buf' i = (if i < (if 8192 < a mod 8192 + n \<and> (a + n) mod 8192 = 0 then n - 8192 else n) then buf i else buf0 i))"
proof -
  obtain s' where s': "testfs_write_data s p buf (int a) (int n) = Ret (int n, s')" "written p s s' a n buf"
    using write_data_ok [OF r n w] by blast
  have r': "ready p s'" and sz: "i_size (din s' p) = max (i_size (din s p)) (int (a + n))"
    and di: "i_dindirect (din s p) \<noteq> 0 \<longrightarrow> i_dindirect (din s' p) \<noteq> 0"
    and bts: "\<And>i. i < 34376597504 \<Longrightarrow> fbyte s' (din s' p) i = (if a \<le> i \<and> i < a + n then buf (i - a) else fbyte s (din s p) i)"
    using s'(2) by (simp_all add: written_def fstep_def wrote_bytes_def)
  have N: "n = read_len (din s' p) a n" using sz by (simp add: read_len_def)
  have "a div 8192 \<le> (a + n - 1) div 8192" using n(1) by (intro div_le_mono) simp
  then have rd: "readable (din s' p) (max (a div 8192) ((a + n - 1) div 8192))"
    using w(1) di n(1,2) by (auto simp: readable_def max_def)
  have c: "copied_len a n \<le> n" by (simp add: copied_len_def)
  have "testfs_read_data s' p buf0 (int a) (int n) = Ret (int n, got s' (din s' p) a (copied_len a n) buf0 0)"
    using read_data_ok [OF r' _ n(2,3) _ N rd, of buf0] sz z n(2) by simp
  moreover have "got s' (din s' p) a (copied_len a n) buf0 0 i = (if i < copied_len a n then buf i else buf0 i)" for i
    using n(2) c by (simp add: got_def memcpy_def bts)
  ultimately show ?thesis using s'(1) unfolding copied_len_def by blast
qed

theorem write_read_roundtrip_witness:
  "\<exists>s p s' buf'. ready p s \<and> testfs_write_data s p (\<lambda>i. of_nat i) 5 70000 = Ret (70000, s') \<and>
     testfs_read_data s' p zero_mem 5 70000 = Ret (70000, buf') \<and> buf' 257 = 1 \<and> buf' 70000 = 0"
proof -
  obtain s p where s: "ready p s" "din s p = zero_dinode" "ublocks s = {}" "max_fs_blocks (sb s) = 128"
    using ex_empty_file by blast
  then obtain s' buf' where "testfs_write_data s p (\<lambda>i. of_nat i) 5 70000 = Ret (70000, s')"
    "testfs_read_data s' p zero_mem 5 70000 = Ret (70000, buf')"
    and b: "\<forall>i. buf' i = (if i < 70000 then of_nat i else zero_mem i)"
    using write_read_roundtrip [OF s(1), of 70000 5 "\<lambda>i. of_nat i" zero_mem] by (auto simp: zero_dinode_def)
  moreover have "buf' 257 = 1" "buf' 70000 = 0" using b by (simp_all add: zero_mem_def)
  ultimately show ?thesis using s(1) by blast
qed

text \<open>
  C7: a write to a well-formed file, for which there is space, and whose range ends within the first 2058 blocks or which has its
  double indirect block already, succeeds and leaves every other well-formed file with disjoint blocks exactly as it
  was, contents included, and the blocks stay disjoint; the whole file system invariant (freemaps,
  counters, inode table) holds after it. Nothing is said of a write that runs out of space or reaches the double indirect
  blocks of a file that has none: the code may then use block numbers it has not allocated.
\<close>

theorem write_preserves_other_files:
  assumes inv: "fs_inv s" and r: "ready p s" and w: "0 < n" "a + n \<le> 34376597504" "n < 2147483648"
      "(a + n - 1) div 8192 < 2058 \<or> i_dindirect (din s p) \<noteq> 0"
      "int (card (ublocks s)) + 3 * int (n div 8192 + 2) \<le> max_fs_blocks (sb s)"
    and e: "file_ok s e" "fblocks (dblock s) e \<inter> fblocks (dblock s) (din s p) = {}"
  shows "\<exists>s'. testfs_write_data s p buf (int a) (int n) = Ret (int n, s') \<and> fs_inv s' \<and> file_ok s' e \<and>
    (\<forall>i < 34376597504. fbyte s' e i = fbyte s e i) \<and> fblocks (dblock s') e \<inter> fblocks (dblock s') (din s' p) = {}"
proof -
  obtain s' where s': "testfs_write_data s p buf (int a) (int n) = Ret (int n, s')" "written p s s' a n buf"
    using write_data_ok [OF r w] by blast
  have f: "fstep p s s'" using s'(2) by (simp add: written_def)
  have sbi: "sb_inv s" using r by (simp add: ready_def)
  have "fblocks (dblock s) (din s p) \<union> fresh s \<subseteq> {146..}"
    using r ublocks_bounds [OF sbi] by (auto simp: ready_def file_ok_def fresh_def)
  then have "fs_inv s'" using iupd_fs_inv [OF inv] f unfolding fstep_def by blast
  then show ?thesis using s'(1) fstep_other [OF f sbi e] by blast
qed

theorem write_preserves_other_files_witness:
  "\<exists>s p s'. fs_inv s \<and> ready p s \<and> testfs_write_data s p (\<lambda>i. of_nat i) 5 70000 = Ret (70000, s') \<and> fs_inv s' \<and>
     file_ok s' zero_dinode"
proof -
  obtain s p where s: "fs_inv s" "ready p s" "din s p = zero_dinode" "ublocks s = {}" "max_fs_blocks (sb s) = 128"
    using ex_empty_file by blast
  have "fblocks (dblock s) zero_dinode = {}" using sval_zero by (auto simp: fblocks_def live_def)
  moreover have "file_ok s zero_dinode" using s(2,3) by (simp add: ready_def)
  ultimately show ?thesis
    using write_preserves_other_files [OF s(1,2), of 70000 5 zero_dinode "\<lambda>i. of_nat i"] s by (auto simp: zero_dinode_def)
qed

end
