(* ===== verification/FS_Free.thy ===== *)
theory FS_Free
  imports FS_Write
begin

text \<open>
  Freeing the blocks of a file (\<^verbatim>\<open>testfs_free_blocks\<close>) and removing an inode
  (\<^verbatim>\<open>testfs_remove_inode\<close>): every block the file owns goes back to the freemap, and
  nothing else.
\<close>

section \<open>A state in which some blocks of the file have been freed\<close>

definition freed :: "nat \<Rightarrow> fs \<Rightarrow> fs \<Rightarrow> int set \<Rightarrow> dinode \<Rightarrow> bool" where
  "freed p s s' B d \<longleftrightarrow> iupd p s s' \<and> B \<subseteq> ublocks s \<and> ublocks s' = ublocks s - B \<and> blk_eq s s' B \<and>
     (B \<noteq> {} \<longrightarrow> idirty s' p) \<and> din s' p = d\<lparr>block_count := block_count (din s p) - int (card B)\<rparr>"

lemma freed_refl: "sb_inv s \<Longrightarrow> iheap s p \<noteq> None \<Longrightarrow> freed p s s {} (din s p)"
  by (simp add: freed_def iupd_refl)

lemma freed_live: "freed p s s' B d \<Longrightarrow> iheap s' p \<noteq> None" "freed p s s' B d \<Longrightarrow> sb_inv s'"
  using iupd_live iupd_sb_inv by (auto simp: freed_def)

lemma freed_din: "freed p s s' B d \<Longrightarrow> get_din s' p = Ret (d\<lparr>block_count := block_count (din s p) - int (card B)\<rparr>)"
  using get_din_din [OF freed_live(1)] by (simp add: freed_def)

lemma freed_dblock: "freed p s s' B d \<Longrightarrow> sb_inv s \<Longrightarrow> b \<in> ublocks s \<Longrightarrow> b \<notin> B \<Longrightarrow> i < 8192 \<Longrightarrow> dblock s' b i = dblock s b i"
  using ublocks_bounds [of s b] by (auto simp: freed_def intro!: blk_eqD)

lemma freed_read:
  assumes f: "freed p s s' B d" and inv: "sb_inv s" and b: "b \<in> ublocks s" "b \<notin> B" "on_dev s b"
  obtains m where "read_blocks s' b (Suc 0) = Ret m" "\<And>k. k < 2048 \<Longrightarrow> get_s32 m (4 * k) = bget (dblock s) b k"
proof -
  have "0 \<le> b" "b \<noteq> 0" using ublocks_bounds [OF inv b(1)] by auto
  have "read_blocks s' b (Suc 0) = Ret (dblock s' b)"
    using f b(3) \<open>0 \<le> b\<close> by (intro read_block_ok) (auto simp: freed_def intro: iupd_dlen iupd_sb_inv)
  moreover have "get_s32 (dblock s' b) (4 * k) = bget (dblock s) b k" if "k < 2048" for k
    using bget_cong [of "dblock s'" b "dblock s" k] freed_dblock [OF f inv b(1,2)] that \<open>b \<noteq> 0\<close> by (simp add: bget_nz)
  ultimately show ?thesis by (rule that)
qed

lemma free_step:
  assumes f: "freed p s s1 B d" and b: "b \<in> ublocks s" "b \<notin> B"
  obtains s2 where "testfs_free_block_from_inode s1 p b = Ret s2" "freed p s s2 (insert b B) d" "idirty s2 p"
proof -
  obtain s2 where s2: "testfs_free_block_from_inode s1 p b = Ret s2" "ublocks s2 = ublocks s1 - {b}" "iupd p s1 s2"
    "blk_eq s1 s2 {b}" "idirty s2 p" "din s2 p = (din s1 p)\<lparr>block_count := block_count (din s1 p) - 1\<rparr>"
    by (rule free_bfi_ok [OF freed_live(2) [OF f] freed_live(1) [OF f], of b]) (use f b in \<open>auto simp: freed_def\<close>)
  have "finite B" using f finite_subset [OF _ finite_ublocks] by (auto simp: freed_def)
  moreover have "blk_eq s s2 (insert b B)" by (rule blk_eq_trans [OF _ s2(4), of s B]) (use f in \<open>auto simp: freed_def\<close>)
  moreover have "iupd p s s2" using iupd_trans [OF _ s2(3)] f by (simp add: freed_def)
  ultimately have "freed p s s2 (insert b B) d"
    using f b s2(2,5,6) by (auto simp: freed_def)
  with s2(1,5) that show ?thesis by blast
qed

lemma upd_step:
  assumes f: "freed p s s1 B d" and di: "idirty s1 p"
    and g: "\<And>n. g (d\<lparr>block_count := n\<rparr>) = (g d)\<lparr>block_count := n\<rparr>"
  obtains s2 where "upd_din s1 p g = Ret s2" "freed p s s2 B (g d)" "idirty s2 p"
proof -
  obtain s2 where s2: "upd_din s1 p g = Ret s2" "iupd p s1 s2" "din s2 p = g (din s1 p)" "dblock s2 = dblock s1"
    "ublocks s2 = ublocks s1" "idirty s2 p"
    by (rule upd_din_ok [where f = g, OF freed_live(2) [OF f] di]) blast
  have "freed p s s2 B (g d)"
    using f s2 g iupd_trans [OF _ s2(2)] by (auto simp: freed_def blk_eq_def)
  with s2(1,6) that show ?thesis by blast
qed

section \<open>The loops\<close>

text \<open>The entries \<^verbatim>\<open>w i\<close> for \<^verbatim>\<open>i \<in> I\<close> are distinct blocks of the file still in use, or empty.\<close>

definition pending :: "fs \<Rightarrow> int set \<Rightarrow> (nat \<Rightarrow> int) \<Rightarrow> nat set \<Rightarrow> bool" where
  "pending s B w I \<longleftrightarrow> (\<forall>i \<in> I. w i = 0 \<or> w i \<in> ublocks s - B) \<and> inj_on w {i \<in> I. w i \<noteq> 0}"

definition vals :: "(nat \<Rightarrow> int) \<Rightarrow> nat set \<Rightarrow> int set" where
  "vals w I = w ` {i \<in> I. w i \<noteq> 0}"

lemma vals_split: "i < m \<Longrightarrow> vals w {i..<m} = (if w i = 0 then vals w {Suc i..<m} else insert (w i) (vals w {Suc i..<m}))"
  by (auto simp: vals_def image_iff) (metis Suc_leI le_neq_implies_less)+

lemma vals_empty [simp]: "m \<le> i \<Longrightarrow> vals w {i..<m} = {}"
  by (simp add: vals_def)

lemma pending_step:
  assumes "pending s B w {i..<m}" "i < m"
  shows "w i \<noteq> 0 \<Longrightarrow> w i \<in> ublocks s \<and> w i \<notin> B \<and> pending s (insert (w i) B) w {Suc i..<m}"
    "w i = 0 \<Longrightarrow> pending s B w {Suc i..<m}"
proof -
  have inj: "inj_on w {k \<in> {i..<m}. w k \<noteq> 0}" and at: "\<And>k. i \<le> k \<Longrightarrow> k < m \<Longrightarrow> w k = 0 \<or> w k \<in> ublocks s - B"
    using assms by (auto simp: pending_def)
  have inj': "inj_on w {k \<in> {Suc i..<m}. w k \<noteq> 0}" by (rule inj_on_subset [OF inj]) auto
  show "w i = 0 \<Longrightarrow> pending s B w {Suc i..<m}" using at inj' by (simp add: pending_def)
  assume nz: "w i \<noteq> 0"
  have "w k \<noteq> w i" if "Suc i \<le> k" "k < m" for k
    using inj_onD [OF inj, of k i] that nz assms(2) by auto
  then show "w i \<in> ublocks s \<and> w i \<notin> B \<and> pending s (insert (w i) B) w {Suc i..<m}"
    using at [of i] at inj' nz assms(2) by (auto simp: pending_def)
qed

lemma vals_none [simp]: "vals w {} = {}"
  by (simp add: vals_def)

lemma free_indirect_ok:
  assumes "freed p s s1 B d" "pending s B w {i..<n}" "\<forall>i. (int i < e \<and> i < NR_INDIRECT_BLOCKS) = (i < n)"
    "\<And>k. i \<le> k \<Longrightarrow> k < n \<Longrightarrow> get_s32 m (4 * k) = w k"
  shows "\<exists>s2. free_indirect s1 p m e i = Ret s2 \<and> freed p s s2 (B \<union> vals w {i..<n}) d"
  using assms
proof (induction "n - i" arbitrary: s1 B m i)
  case 0
  then have "\<not> (int i < e \<and> i < NR_INDIRECT_BLOCKS)" by simp
  then show ?case using 0(1,2) by (subst free_indirect.simps) (simp only: if_False, simp)
next
  case (Suc k)
  then have i: "i < n" by simp
  then have run: "int i < e \<and> i < NR_INDIRECT_BLOCKS" using Suc.prems(3) by blast
  have vi: "get_s32 m (4 * i) = w i" using Suc.prems(4) i by simp
  show ?case
  proof (cases "w i = 0")
    case True
    then show ?thesis
      using Suc.hyps(1) [of "Suc i" s1 B m] Suc.hyps(2) Suc.prems pending_step(2) [OF Suc.prems(2) i] run vi vals_split [OF i, of w]
      by (subst free_indirect.simps) simp
  next
    case False
    note ps = pending_step(1) [OF Suc.prems(2) i False]
    obtain s2 where s2: "testfs_free_block_from_inode s1 p (w i) = Ret s2" "freed p s s2 (insert (w i) B) d"
      by (rule free_step [OF Suc.prems(1)]) (use ps in blast)+
    have ent: "get_s32 (set_ptr m (int i) 0) (4 * k) = w k" if "Suc i \<le> k" "k < n" for k
      using that Suc.prems(4) by (simp add: get_set_ptr in_s32_def)
    have "\<exists>s3. free_indirect s2 p (set_ptr m (int i) 0) e (Suc i) = Ret s3 \<and> freed p s s3 (insert (w i) B \<union> vals w {Suc i..<n}) d"
      using Suc.hyps(2) ps by (intro Suc.hyps(1) s2(2) ent Suc.prems(3)) auto
    then show ?thesis using run vi False s2(1) vals_split [OF i, of w] by (subst free_indirect.simps) simp
  qed
qed

lemma free_direct_ok:
  assumes "freed p s s1 B d" "pending s B (\<lambda>k. i_block_nr d ! k) {i..<n}" "\<forall>i. (int i < e \<and> i < NR_DIRECT_BLOCKS) = (i < n)"
    "n \<le> 10" "length (i_block_nr d) = 10"
  shows "\<exists>s2. free_direct s1 p e i = Ret s2 \<and>
    freed p s s2 (B \<union> vals (\<lambda>k. i_block_nr d ! k) {i..<n})
      (d\<lparr>i_block_nr := map (\<lambda>k. if i \<le> k \<and> k < n then 0 else i_block_nr d ! k) [0..<10]\<rparr>)"
  using assms
proof (induction "n - i" arbitrary: s1 B d i)
  case 0
  then have "map (\<lambda>k. if i \<le> k \<and> k < n then 0 else i_block_nr d ! k) [0..<10] = i_block_nr d"
    by (auto simp: list_eq_iff_nth_eq)
  moreover have "\<not> (int i < e \<and> i < NR_DIRECT_BLOCKS)" using 0 by simp
  ultimately show ?case using 0(1,2) by (subst free_direct.simps) (simp only: if_False, simp)
next
  case (Suc k)
  then have i: "i < n" "i < 10" by auto
  then have run: "int i < e \<and> i < NR_DIRECT_BLOCKS" using Suc.prems(3) by blast
  let ?w = "\<lambda>k. i_block_nr d ! k"
  show ?case
  proof (cases "?w i = 0")
    case True
    have "map (\<lambda>k. if i \<le> k \<and> k < n then 0 else ?w k) [0..<10] = map (\<lambda>k. if Suc i \<le> k \<and> k < n then 0 else ?w k) [0..<10]"
      using True by (auto simp: list_eq_iff_nth_eq) (metis le_antisym not_less_eq_eq)
    note eq = this
    have "\<exists>s2. free_direct s1 p e (Suc i) = Ret s2 \<and> freed p s s2 (B \<union> vals ?w {Suc i..<n})
        (d\<lparr>i_block_nr := map (\<lambda>k. if Suc i \<le> k \<and> k < n then 0 else ?w k) [0..<10]\<rparr>)"
      using Suc.hyps(2) pending_step(2) [OF Suc.prems(2) i(1) True] by (intro Suc.hyps(1) Suc.prems) auto
    then show ?thesis
      unfolding eq using run True freed_din [OF Suc.prems(1)] vals_split [OF i(1), of ?w]
      by (subst free_direct.simps) simp
  next
    case False
    note ps = pending_step(1) [OF Suc.prems(2) i(1) False]
    obtain s2 where s2: "testfs_free_block_from_inode s1 p (?w i) = Ret s2" "freed p s s2 (insert (?w i) B) d" "idirty s2 p"
      by (rule free_step [OF Suc.prems(1)]) (use ps in blast)+
    let ?g = "i_block_nr_update (\<lambda>bs. bs[i := 0])"
    obtain s3 where s3: "upd_din s2 p ?g = Ret s3" "freed p s s3 (insert (?w i) B) (?g d)"
      by (rule upd_step [where g = ?g, OF s2(2,3)]) auto
    have gd: "i_block_nr (?g d) ! k = ?w k" if "Suc i \<le> k" for k using that by simp
    have pend: "pending s (insert (?w i) B) (\<lambda>k. i_block_nr (?g d) ! k) {Suc i..<n}"
      using ps gd by (auto simp: pending_def inj_on_def)
    have vs: "vals (\<lambda>k. i_block_nr (?g d) ! k) {Suc i..<n} = vals ?w {Suc i..<n}" using gd by (force simp: vals_def)
    have mp: "(?g d)\<lparr>i_block_nr := map (\<lambda>k. if Suc i \<le> k \<and> k < n then 0 else i_block_nr (?g d) ! k) [0..<10]\<rparr>
        = d\<lparr>i_block_nr := map (\<lambda>k. if i \<le> k \<and> k < n then 0 else ?w k) [0..<10]\<rparr>"
      using i Suc.prems(5) by (auto simp: list_eq_iff_nth_eq nth_list_update intro!: dinode.fold_congs)
    have "\<exists>s4. free_direct s3 p e (Suc i) = Ret s4 \<and> freed p s s4 (insert (?w i) B \<union> vals ?w {Suc i..<n})
        (d\<lparr>i_block_nr := map (\<lambda>k. if i \<le> k \<and> k < n then 0 else ?w k) [0..<10]\<rparr>)"
      using Suc.hyps(1) [OF _ s3(2) pend Suc.prems(3)] Suc.hyps(2) Suc.prems(4,5) vs mp by simp
    then show ?thesis
      using run False s2(1) s3(1) freed_din [OF Suc.prems(1)] vals_split [OF i(1), of ?w] by (subst free_direct.simps) simp
  qed
qed

section \<open>The slots freed so far\<close>

definition own :: "fs \<Rightarrow> nat \<Rightarrow> slot set \<Rightarrow> int set" where
  "own s p Y = sval (dblock s) (din s p) ` (Y \<inter> live (dblock s) (din s p))"

lemma own_Un: "own s p (X \<union> Y) = own s p X \<union> own s p Y"
  by (auto simp: own_def)

lemma own_all: "slots \<subseteq> Y \<Longrightarrow> own s p Y = fblocks (dblock s) (din s p)"
  by (auto simp: own_def fblocks_def live_iff)

lemma own_empty [simp]: "own s p {} = {}"
  by (simp add: own_def)

lemma own_one: "x \<in> slots \<Longrightarrow> own s p {x} = (if sval (dblock s) (din s p) x = 0 then {} else {sval (dblock s) (din s p) x})"
  by (auto simp: own_def live_iff)

lemma own_iff:
  "file_ok s (din s p) \<Longrightarrow> x \<in> slots \<Longrightarrow> sval (dblock s) (din s p) x \<noteq> 0 \<Longrightarrow> sval (dblock s) (din s p) x \<in> own s p Y \<longleftrightarrow> x \<in> Y"
  using file_ok_distinct [of s "din s p" x] by (auto simp: own_def live_iff)

lemma vals_own:
  assumes "f ` I \<subseteq> slots"
  shows "vals (\<lambda>k. sval (dblock s) (din s p) (f k)) I = own s p (f ` I)"
  using assms by (auto simp: vals_def own_def live_iff)

lemma pending_own:
  assumes "file_ok s (din s p)" "inj f" "f ` I \<subseteq> slots" "f ` I \<inter> Y = {}"
  shows "pending s (own s p Y) (\<lambda>k. sval (dblock s) (din s p) (f k)) I"
proof -
  have sl: "f i \<in> slots" "f i \<notin> Y" if "i \<in> I" for i using assms(3,4) that by auto
  show ?thesis
    unfolding pending_def
  proof (intro conjI ballI inj_onI)
    fix i assume i: "i \<in> I"
    then show "sval (dblock s) (din s p) (f i) = 0 \<or> sval (dblock s) (din s p) (f i) \<in> ublocks s - own s p Y"
      using file_ok_slot [OF assms(1) sl(1)] own_iff [OF assms(1) sl(1)] sl(2) by auto
  next
    fix i j assume "i \<in> {i \<in> I. sval (dblock s) (din s p) (f i) \<noteq> 0}" "j \<in> {i \<in> I. sval (dblock s) (din s p) (f i) \<noteq> 0}"
      "sval (dblock s) (din s p) (f i) = sval (dblock s) (din s p) (f j)"
    then show "i = j" using file_ok_distinct [OF assms(1) sl(1) sl(1)] injD [OF assms(2)] by auto
  qed
qed

lemma free_inner_ok:
  assumes "freed p s s1 B d" "pending s B w {j..<2048}" "\<And>k. j \<le> k \<Longrightarrow> k < 2048 \<Longrightarrow> get_s32 m (4 * k) = w k"
    "\<And>k. 0 \<le> w k" "\<And>i. j \<le> i \<Longrightarrow> i < 2048 \<Longrightarrow> w i \<noteq> 0 \<Longrightarrow> k + int (i - j) < e" "j \<le> 2048"
  shows "\<exists>s2 k'. free_inner s1 p m e k j = Ret (k', s2) \<and> k \<le> k' \<and> k' \<le> k + int (2048 - j) \<and>
    freed p s s2 (B \<union> vals w {j..<2048}) d"
  using assms
proof (induction "2048 - j" arbitrary: s1 B m j k)
  case 0
  then show ?case by (subst free_inner.simps) simp
next
  case (Suc n)
  then have j: "j < 2048" by simp
  have step: "k + 1 + int (i - Suc j) < e" if "Suc j \<le> i" "i < 2048" "w i \<noteq> 0" for i
    using Suc.prems(5) [of i] that by (simp add: of_nat_diff)
  show ?case
  proof (cases "k < e")
    case False
    then have "w i = 0" if "j \<le> i" "i < 2048" for i using Suc.prems(5) [OF that] by fastforce
    then have "vals w {j..<2048} = {}" by (auto simp: vals_def)
    then show ?thesis using False Suc.prems(1) by (subst free_inner.simps) simp
  next
    case k: True
    have wj: "get_s32 m (4 * j) = w j" using Suc.prems(3) j by simp
    show ?thesis
    proof (cases "w j = 0")
      case True
      have "\<exists>s2 k'. free_inner s1 p m e (k + 1) (Suc j) = Ret (k', s2) \<and> k + 1 \<le> k' \<and>
          k' \<le> k + 1 + int (2048 - Suc j) \<and> freed p s s2 (B \<union> vals w {Suc j..<2048}) d"
        using Suc.hyps(2) pending_step(2) [OF Suc.prems(2) j True] step j
        by (intro Suc.hyps(1) Suc.prems(1,3,4)) auto
      then show ?thesis using True k j wj vals_split [OF j, of w] by (subst free_inner.simps) auto
    next
      case False
      note ps = pending_step(1) [OF Suc.prems(2) j False]
      obtain s2 where s2: "testfs_free_block_from_inode s1 p (w j) = Ret s2" "freed p s s2 (insert (w j) B) d"
        by (rule free_step [OF Suc.prems(1)]) (use ps in blast)+
      have ent: "get_s32 (set_ptr m (int j) 0) (4 * k) = w k" if "Suc j \<le> k" "k < 2048" for k
        using that Suc.prems(3) by (simp add: get_set_ptr in_s32_def)
      have "\<exists>s3 k'. free_inner s2 p (set_ptr m (int j) 0) e (k + 1) (Suc j) = Ret (k', s3) \<and> k + 1 \<le> k' \<and>
          k' \<le> k + 1 + int (2048 - Suc j) \<and> freed p s s3 (insert (w j) B \<union> vals w {Suc j..<2048}) d"
        using Suc.hyps(2) ps step j by (intro Suc.hyps(1) s2(2) ent Suc.prems(4)) auto
      moreover have "0 < w j" using False Suc.prems(4) [of j] by simp
      ultimately show ?thesis using k j wj s2(1) vals_split [OF j, of w] by (subst free_inner.simps) auto
    qed
  qed
qed

text \<open>The slots under the entries of the double indirect block from \<^verbatim>\<open>i\<close> on.\<close>

definition l2_slots :: "nat \<Rightarrow> slot set" where
  "l2_slots i = insert (SL2 i) (SDE i ` {0..<2048})"

lemma l2_slots_Un: "l2_slots i = {SL2 i} \<union> SDE i ` {0..<2048}"
  by (simp add: l2_slots_def)

definition l2_rest :: "nat \<Rightarrow> slot set" where
  "l2_rest i = (\<Union>k \<in> {i..<2048}. l2_slots k)"

lemma Ico_split: "i < m \<Longrightarrow> {i..<m} = insert i {Suc i..<(m::nat)}"
  by auto

lemma l2_rest_step: "i < 2048 \<Longrightarrow> l2_rest i = l2_slots i \<union> l2_rest (Suc i)"
  using UN_insert [of l2_slots i "{Suc i..<2048}"] Ico_split [of i 2048] by (simp add: l2_rest_def)

lemma l2_rest_end [simp]: "2048 \<le> i \<Longrightarrow> l2_rest i = {}"
  by (simp add: l2_rest_def)

lemma l2_slots_rest: "l2_slots i \<inter> l2_rest (Suc i) = {}"
  by (auto simp: l2_rest_def l2_slots_def)

lemma own_l2_empty: "i < 2048 \<Longrightarrow> sval (dblock s) (din s p) (SL2 i) = 0 \<Longrightarrow> own s p (l2_slots i) = {}"
  by (auto simp: own_def l2_slots_def live_iff)

lemma sval_nonneg: "file_ok s d \<Longrightarrow> sb_inv s \<Longrightarrow> x \<in> slots \<Longrightarrow> 0 \<le> sval (dblock s) d x"
  using file_ok_pos by fastforce

lemma l2_block:
  assumes ok: "file_ok s (din s p)" "sb_inv s" "backed s (din s p) {}" and i: "i < 2048"
    and f: "freed p s s1 (own s p Y) d" and Y: "Y \<inter> l2_slots i = {}"
    and nz: "sval (dblock s) (din s p) (SL2 i) \<noteq> 0"
  obtains m where "read_blocks s1 (sval (dblock s) (din s p) (SL2 i)) 1 = Ret m"
    "\<And>k. k < 2048 \<Longrightarrow> get_s32 m (4 * k) = sval (dblock s) (din s p) (SDE i k)"
proof -
  let ?b = "sval (dblock s) (din s p) (SL2 i)"
  have sl: "SL2 i \<in> slots" using i by auto
  have "?b \<in> ublocks s" "?b \<notin> own s p Y" "on_dev s ?b"
    using file_ok_slot [OF ok(1) sl nz] own_iff [OF ok(1) sl nz] Y backed_slot [OF ok(3) sl] nz
    by (auto simp: l2_slots_def)
  then obtain m where "read_blocks s1 ?b (Suc 0) = Ret m" "\<And>k. k < 2048 \<Longrightarrow> get_s32 m (4 * k) = bget (dblock s) ?b k"
    by (rule freed_read [OF f ok(2)]) blast
  then show ?thesis using that [of m] by simp
qed

text \<open>One round of the outer loop: an indirect block of the double indirect block is emptied and freed.\<close>

lemma free_l2_ok:
  assumes ok: "file_ok s (din s p)" "sb_inv s" "backed s (din s p) {}" and i: "i < 2048"
    and f: "freed p s s1 (own s p Y) d" and Y: "Y \<inter> l2_slots i = {}"
    and nz: "sval (dblock s) (din s p) (SL2 i) \<noteq> 0"
    and lim: "\<And>j. j < 2048 \<Longrightarrow> sval (dblock s) (din s p) (SDE i j) \<noteq> 0 \<Longrightarrow> k + int j < e"
  shows "\<exists>m s2 k' s3. read_blocks s1 (sval (dblock s) (din s p) (SL2 i)) 1 = Ret m \<and> free_inner s1 p m e k 0 = Ret (k', s2) \<and>
    k \<le> k' \<and> k' \<le> k + 2048 \<and> testfs_free_block_from_inode s2 p (sval (dblock s) (din s p) (SL2 i)) = Ret s3 \<and>
    freed p s s3 (own s p (Y \<union> l2_slots i)) d"
proof -
  let ?w = "\<lambda>x. sval (dblock s) (din s p) x"
  have sl: "SDE i ` {0..<2048} \<subseteq> slots" "SL2 i \<in> slots" using i by auto
  have b: "?w (SL2 i) \<in> ublocks s" using file_ok_slot [OF ok(1) sl(2) nz] by simp
  obtain m where m: "read_blocks s1 (?w (SL2 i)) 1 = Ret m" "\<And>k. k < 2048 \<Longrightarrow> get_s32 m (4 * k) = ?w (SDE i k)"
    by (rule l2_block [OF ok i f Y nz]) blast
  define w where "w j = (if j < 2048 then ?w (SDE i j) else 0)" for j
  have pend: "pending s (own s p Y) (\<lambda>j. ?w (SDE i j)) {0..<2048}"
    using Y sl by (intro pending_own [OF ok(1)]) (auto simp: inj_def l2_slots_def)
  have weq: "pending s (own s p Y) w {0..<2048}"
    using pend by (auto simp: pending_def w_def inj_on_def)
  have vw: "vals w {0..<2048} = own s p (SDE i ` {0..<2048})"
    using vals_own [OF sl(1), of s p] by (auto simp: vals_def w_def)
  have pos: "0 \<le> w j" for j using sval_nonneg [OF ok(1,2), of "SDE i j"] i by (auto simp: w_def)
  have inner: "\<exists>s2 k'. free_inner s1 p m e k 0 = Ret (k', s2) \<and> k \<le> k' \<and> k' \<le> k + int (2048 - 0) \<and>
      freed p s s2 (own s p (Y \<union> SDE i ` {0..<2048})) d"
    unfolding own_Un vw [symmetric] by (rule free_inner_ok [OF f weq _ pos]) (use m(2) lim in \<open>auto simp: w_def\<close>)
  obtain s2 k' where s2: "free_inner s1 p m e k 0 = Ret (k', s2)" "k \<le> k'" "k' \<le> k + 2048"
    "freed p s s2 (own s p (Y \<union> SDE i ` {0..<2048})) d"
    using inner by auto
  have nb: "?w (SL2 i) \<notin> own s p (Y \<union> SDE i ` {0..<2048})"
    using own_iff [OF ok(1) sl(2) nz] Y by (auto simp: l2_slots_def)
  obtain s3 where "testfs_free_block_from_inode s2 p (?w (SL2 i)) = Ret s3"
    "freed p s s3 (insert (?w (SL2 i)) (own s p (Y \<union> SDE i ` {0..<2048}))) d"
    by (rule free_step [OF s2(4) b nb]) blast
  moreover have "insert (?w (SL2 i)) (own s p (Y \<union> SDE i ` {0..<2048})) = own s p (Y \<union> l2_slots i)"
    unfolding l2_slots_Un own_Un own_one [OF sl(2)] if_not_P [OF nz] by blast
  ultimately show ?thesis using m(1) s2 by auto
qed

lemma free_outer_ok:
  assumes ok: "file_ok s (din s p)" "sb_inv s" "backed s (din s p) {}"
    and l2: "\<And>i. i < 2048 \<Longrightarrow> sval (dblock s) (din s p) (SL2 i) \<noteq> 0 \<Longrightarrow> 2048 * int i < e"
    and de: "\<And>i j. i < 2048 \<Longrightarrow> j < 2048 \<Longrightarrow> sval (dblock s) (din s p) (SDE i j) \<noteq> 0 \<Longrightarrow> 2048 * int i + int j < e"
  shows "freed p s s1 (own s p Y) d \<Longrightarrow> (\<And>k. i \<le> k \<Longrightarrow> k < 2048 \<Longrightarrow> get_s32 m (4 * k) = sval (dblock s) (din s p) (SL2 k)) \<Longrightarrow>
    k \<le> 2048 * int i \<Longrightarrow> i \<le> 2048 \<Longrightarrow> Y \<inter> l2_rest i = {} \<Longrightarrow>
    \<exists>s2. free_outer s1 p m e k i = Ret s2 \<and> freed p s s2 (own s p (Y \<union> l2_rest i)) d"
proof (induction "2048 - i" arbitrary: s1 Y m i k)
  case 0
  then show ?case by (subst free_outer.simps) simp
next
  case (Suc n)
  let ?w = "\<lambda>x. sval (dblock s) (din s p) x"
  have i: "i < 2048" using Suc.hyps(2) by simp
  have mi: "get_s32 m (4 * i) = ?w (SL2 i)" using Suc.prems(2) [of i] i by simp
  have Y: "Y \<inter> l2_slots i = {}" "Y \<inter> l2_rest (Suc i) = {}" using Suc.prems(5) l2_rest_step [OF i] by auto
  show ?case
  proof (cases "k < e")
    case False
    have "?w (SL2 ii) = 0" if "i \<le> ii" "ii < 2048" for ii
      using l2 [OF that(2)] False Suc.prems(3) that(1) by fastforce
    then have "own s p (l2_slots ii) = {}" if "i \<le> ii" "ii < 2048" for ii using own_l2_empty that by blast
    then have "own s p (l2_rest i) = {}" by (fastforce simp: own_def l2_rest_def)
    then show ?thesis using False Suc.prems(1) by (subst free_outer.simps) (simp add: own_Un)
  next
    case k: True
    show ?thesis
    proof (cases "?w (SL2 i) = 0")
      case True
      have "\<exists>s2. free_outer s1 p m e k (Suc i) = Ret s2 \<and> freed p s s2 (own s p (Y \<union> l2_rest (Suc i))) d"
        using Suc.hyps Suc.prems i Y(2) by (intro Suc.hyps(1)) auto
      then show ?thesis
        using True k i mi own_l2_empty [OF i True] l2_rest_step [OF i]
        by (subst free_outer.simps) (auto simp: own_Un)
    next
      case False
      have lim: "k + int j < e" if "j < 2048" "?w (SDE i j) \<noteq> 0" for j using de [OF i that] Suc.prems(3) by linarith
      obtain m' s2 k' s3 where st: "read_blocks s1 (?w (SL2 i)) 1 = Ret m'" "free_inner s1 p m' e k 0 = Ret (k', s2)"
        "k' \<le> k + 2048" "testfs_free_block_from_inode s2 p (?w (SL2 i)) = Ret s3"
        "freed p s s3 (own s p (Y \<union> l2_slots i)) d"
        using free_l2_ok [OF ok i Suc.prems(1) Y(1) False, where k = k and e = e] lim by blast
      have ent: "get_s32 (set_ptr m (int i) 0) (4 * k) = ?w (SL2 k)" if "Suc i \<le> k" "k < 2048" for k
        using that Suc.prems(2) [of k] by (simp add: get_set_ptr in_s32_def)
      have "\<exists>s4. free_outer s3 p (set_ptr m (int i) 0) e k' (Suc i) = Ret s4 \<and>
          freed p s s4 (own s p ((Y \<union> l2_slots i) \<union> l2_rest (Suc i))) d"
        using Suc.hyps(2) Suc.prems(3) st(3) i Y(2) l2_slots_rest [of i] by (intro Suc.hyps(1) st(5) ent) auto
      moreover have "0 < ?w (SL2 i)" using False sval_nonneg [OF ok(1,2), of "SL2 i"] i by simp
      ultimately show ?thesis
        using k i mi st(1,2,4) l2_rest_step [OF i] by (subst free_outer.simps) (simp add: Un_assoc)
    qed
  qed
qed

section \<open>The three parts\<close>

lemma own_zero: "(\<And>x. x \<in> Z \<Longrightarrow> x \<in> slots \<Longrightarrow> sval (dblock s) (din s p) x = 0) \<Longrightarrow> own s p Z = {}"
  by (auto simp: own_def live_iff)

lemma own_trim:
  assumes "\<And>k. k < N \<Longrightarrow> sval (dblock s) (din s p) (f k) \<noteq> 0 \<Longrightarrow> int k < e"
  shows "own s p (f ` {0..<N}) = own s p (f ` {0..<min (nat e) N})"
proof -
  have "f ` {0..<N} \<inter> live (dblock s) (din s p) = f ` {0..<min (nat e) N} \<inter> live (dblock s) (din s p)"
    using assms by (force simp: live_iff)
  then show ?thesis by (simp add: own_def)
qed

text \<open>A pointer block is freed and its pointer in the inode cleared.\<close>

lemma free_ptr_ok:
  assumes ok: "file_ok s (din s p)" and f: "freed p s s1 (own s p Y) d" and x: "x \<in> slots" "x \<notin> Y"
    and nz: "sval (dblock s) (din s p) x \<noteq> 0"
    and g: "\<And>n. g (d\<lparr>block_count := n\<rparr>) = (g d)\<lparr>block_count := n\<rparr>"
  shows "\<exists>s2 s3. testfs_free_block_from_inode s1 p (sval (dblock s) (din s p) x) = Ret s2 \<and> upd_din s2 p g = Ret s3 \<and>
    freed p s s3 (own s p (insert x Y)) (g d)"
proof -
  let ?b = "sval (dblock s) (din s p) x"
  have b: "?b \<in> ublocks s" "?b \<notin> own s p Y" using file_ok_slot [OF ok x(1) nz] own_iff [OF ok x(1) nz] x(2) by auto
  obtain s2 where s2: "testfs_free_block_from_inode s1 p ?b = Ret s2" "freed p s s2 (insert ?b (own s p Y)) d" "idirty s2 p"
    by (rule free_step [OF f b]) blast
  obtain s3 where "upd_din s2 p g = Ret s3" "freed p s s3 (insert ?b (own s p Y)) (g d)"
    by (rule upd_step [where g = g, OF s2(2,3) g]) blast
  moreover have "own s p (insert x Y) = insert ?b (own s p Y)"
    using own_Un [of s p "{x}" Y] own_one [OF x(1), of s p] nz by simp
  ultimately show ?thesis using s2(1) by metis
qed

lemma free_single_part_ok:
  assumes ok: "file_ok s (din s p)" "sb_inv s" "backed s (din s p) {}"
    and f: "freed p s s1 (own s p Y) d" and Y: "Y \<inter> insert SInd (SIndE ` {0..<2048}) = {}" and d: "i_indirect d = i_indirect (din s p)"
    and e: "i_indirect d \<noteq> 0 \<Longrightarrow> 0 < e" "\<And>k. k < 2048 \<Longrightarrow> sval (dblock s) (din s p) (SIndE k) \<noteq> 0 \<Longrightarrow> int k < e"
  shows "\<exists>s2. free_single_part s1 p e = Ret s2 \<and> freed p s s2 (own s p (Y \<union> insert SInd (SIndE ` {0..<2048}))) (d\<lparr>i_indirect := 0\<rparr>)"
proof (cases "i_indirect d = 0")
  case True
  then have "own s p (insert SInd (SIndE ` {0..<2048})) = {}" using d by (intro own_zero) auto
  note z = this
  have d0: "d\<lparr>i_indirect := 0\<rparr> = d" using True by simp
  show ?thesis unfolding own_Un z Un_empty_right d0 using f freed_din [OF f] True by (simp add: free_single_part_def)
next
  case False
  let ?b = "sval (dblock s) (din s p) SInd" and ?E = "SIndE ` {0..<2048}" and ?n = "min (nat e) 2048"
  have b: "?b \<in> ublocks s" "?b \<notin> own s p Y" "on_dev s ?b" "0 < ?b" "?b \<noteq> 0"
    using file_ok_slot [OF ok(1), of SInd] own_iff [OF ok(1), of SInd] Y backed_slot [OF ok(3), of SInd] False d
      sval_nonneg [OF ok(1,2), of SInd] by auto
  obtain m where m: "read_blocks s1 ?b (Suc 0) = Ret m" "\<And>k. k < 2048 \<Longrightarrow> get_s32 m (4 * k) = bget (dblock s) ?b k"
    by (rule freed_read [OF f ok(2) b(1-3)]) blast
  have sub: "SIndE ` {0..<?n} \<subseteq> slots" by auto
  have pend: "pending s (own s p Y) (\<lambda>k. sval (dblock s) (din s p) (SIndE k)) {0..<?n}"
    using Y by (intro pending_own [OF ok(1)] sub) (auto simp: inj_def)
  have run: "\<forall>i. (int i < e \<and> i < NR_INDIRECT_BLOCKS) = (i < ?n)" by auto
  have ent: "get_s32 m (4 * k) = sval (dblock s) (din s p) (SIndE k)" if "0 \<le> k" "k < ?n" for k using m(2) [of k] that by simp
  obtain s2 where s2: "free_indirect s1 p m e 0 = Ret s2" "freed p s s2 (own s p (Y \<union> SIndE ` {0..<?n})) d"
    using free_indirect_ok [OF f pend run ent] unfolding own_Un vals_own [OF sub] by blast
  have "own s p ?E = own s p (SIndE ` {0..<?n})" by (rule own_trim) (rule e(2))
  then have f2: "freed p s s2 (own s p (Y \<union> ?E)) d" using s2(2) by (simp add: own_Un)
  obtain s3 s4 where s4: "testfs_free_block_from_inode s2 p ?b = Ret s3" "upd_din s3 p (i_indirect_update (\<lambda>_. 0)) = Ret s4"
    "freed p s s4 (own s p (insert SInd (Y \<union> ?E))) (d\<lparr>i_indirect := 0\<rparr>)"
    using free_ptr_ok [OF ok(1) f2, of SInd "i_indirect_update (\<lambda>_. 0)"] Y b(5) by auto
  have "free_single_part s1 p e = Ret s4"
    using freed_din [OF f] freed_din [OF s2(2)] m(1) s2(1) s4(1,2) b(4) e(1) d False by (simp add: free_single_part_def)
  with s4(3) show ?thesis by simp
qed

lemma free_double_part_ok:
  assumes ok: "file_ok s (din s p)" "sb_inv s" "backed s (din s p) {}"
    and f: "freed p s s1 (own s p Y) d" and Y: "Y \<inter> insert SDInd (l2_rest 0) = {}" and d: "i_dindirect d = i_dindirect (din s p)"
    and e: "i_dindirect d \<noteq> 0 \<Longrightarrow> 0 < e"
      "\<And>i. i < 2048 \<Longrightarrow> sval (dblock s) (din s p) (SL2 i) \<noteq> 0 \<Longrightarrow> 2048 * int i < e"
      "\<And>i j. i < 2048 \<Longrightarrow> j < 2048 \<Longrightarrow> sval (dblock s) (din s p) (SDE i j) \<noteq> 0 \<Longrightarrow> 2048 * int i + int j < e"
  shows "\<exists>s2. free_double_part s1 p e = Ret s2 \<and> freed p s s2 (own s p (Y \<union> insert SDInd (l2_rest 0))) (d\<lparr>i_dindirect := 0\<rparr>)"
proof (cases "i_dindirect d = 0")
  case True
  then have "own s p (insert SDInd (l2_rest 0)) = {}" using d by (intro own_zero) (auto simp: l2_rest_def l2_slots_def)
  note z = this
  have d0: "d\<lparr>i_dindirect := 0\<rparr> = d" using True by simp
  show ?thesis unfolding own_Un z Un_empty_right d0 using f freed_din [OF f] True by (simp add: free_double_part_def)
next
  case False
  let ?b = "sval (dblock s) (din s p) SDInd"
  have b: "?b \<in> ublocks s" "?b \<notin> own s p Y" "on_dev s ?b" "0 < ?b" "?b \<noteq> 0"
    using file_ok_slot [OF ok(1), of SDInd] own_iff [OF ok(1), of SDInd] Y backed_slot [OF ok(3), of SDInd] False d
      sval_nonneg [OF ok(1,2), of SDInd] by auto
  obtain m where m: "read_blocks s1 ?b (Suc 0) = Ret m" "\<And>k. k < 2048 \<Longrightarrow> get_s32 m (4 * k) = bget (dblock s) ?b k"
    by (rule freed_read [OF f ok(2) b(1-3)]) blast
  obtain s2 where s2: "free_outer s1 p m e 0 0 = Ret s2" "freed p s s2 (own s p (Y \<union> l2_rest 0)) d"
    using free_outer_ok [OF ok e(2,3) f, of 0 m 0] m(2) Y by auto
  have "SDInd \<notin> l2_rest 0" by (auto simp: l2_rest_def l2_slots_def)
  then obtain s3 s4 where s4: "testfs_free_block_from_inode s2 p ?b = Ret s3" "upd_din s3 p (i_dindirect_update (\<lambda>_. 0)) = Ret s4"
    "freed p s s4 (own s p (insert SDInd (Y \<union> l2_rest 0))) (d\<lparr>i_dindirect := 0\<rparr>)"
    using free_ptr_ok [OF ok(1) s2(2), of SDInd "i_dindirect_update (\<lambda>_. 0)"] Y b(5) by auto
  have "free_double_part s1 p e = Ret s4"
    using freed_din [OF f] freed_din [OF s2(2)] m(1) s2(1) s4(1,2) b(4) e(1) d False by (simp add: free_double_part_def)
  with s4(3) show ?thesis by simp
qed

section \<open>Freeing all blocks\<close>

text \<open>
  The first logical block a slot is for. A file is trimmed when it has no block behind its end:
  what \<^verbatim>\<open>testfs_free_blocks\<close>, which derives the number of blocks from the size, relies on.
\<close>

fun first_block :: "slot \<Rightarrow> int" where
  "first_block (SDir k) = int k"
| "first_block SInd = 10"
| "first_block (SIndE k) = 10 + int k"
| "first_block SDInd = 2058"
| "first_block (SL2 i) = 2058 + 2048 * int i"
| "first_block (SDE i j) = 2058 + 2048 * int i + int j"

definition trimmed :: "fs \<Rightarrow> dinode \<Rightarrow> bool" where
  "trimmed s d \<longleftrightarrow> 0 \<le> i_size d \<and> i_size d \<le> 34376597504 \<and>
     (\<forall>x \<in> live (dblock s) d. first_block x * 8192 < i_size d)"

definition all_blocks :: "dinode \<Rightarrow> int" where
  "all_blocks d = to_s32 (c_div (i_size d + BS - 1) BS)"

lemma trimmed_lt:
  assumes "trimmed s d" "x \<in> slots" "sval (dblock s) d x \<noteq> 0"
  shows "first_block x < all_blocks d"
proof -
  have "first_block x * 8192 < i_size d" and sz: "0 \<le> i_size d" "i_size d \<le> 34376597504"
    using assms by (auto simp: trimmed_def live_iff)
  then have "first_block x < (i_size d + 8192 - 1) div 8192" by linarith
  moreover have "0 \<le> (i_size d + 8192 - 1) div 8192" "(i_size d + 8192 - 1) div 8192 \<le> 34376605696"
    using sz by linarith+
  moreover have "(i_size d + 8192 - 1) div 8192 < 2147483648" using sz by linarith
  ultimately show ?thesis using sz by (simp add: all_blocks_def c_div_nonneg to_s32_id)
qed

definition emptied :: "dinode \<Rightarrow> dinode" where
  "emptied d = d\<lparr>i_size := 0, i_block_nr := replicate 10 0, i_indirect := 0, i_dindirect := 0, block_count := 0\<rparr>"

lemma all_slots: "slots \<subseteq> (SDir ` {0..<10} \<union> insert SInd (SIndE ` {0..<2048})) \<union> insert SDInd (l2_rest 0)"
  by (auto simp: slots_def l2_rest_def l2_slots_def)

text \<open>The direct blocks and the indirect block.\<close>

definition first_slots :: "slot set" where
  "first_slots = SDir ` {0..<10} \<union> insert SInd (SIndE ` {0..<2048})"

lemma free_blocks_first:
  assumes r: "ready p s" and tr: "trimmed s (din s p)"
  shows "\<exists>s1 s2. free_direct s p (all_blocks (din s p)) 0 = Ret s1 \<and>
    free_single_part s1 p (all_blocks (din s p) - 10) = Ret s2 \<and>
    freed p s s2 (own s p first_slots) ((din s p)\<lparr>i_block_nr := replicate 10 0, i_indirect := 0\<rparr>)"
proof -
  let ?d = "din s p" and ?e = "all_blocks (din s p)"
  let ?n = "min (nat ?e) 10"
  have ok: "file_ok s ?d" "sb_inv s" "backed s ?d {}" and live: "iheap s p \<noteq> None" using r by (auto simp: ready_def)
  note lt = trimmed_lt [OF tr]
  have len: "length (i_block_nr ?d) = 10" using ok(1) by (simp add: file_ok_def wf_dinode_def)
  have sub: "SDir ` {0..<?n} \<subseteq> slots" by auto
  have pend: "pending s {} (\<lambda>k. i_block_nr ?d ! k) {0..<?n}"
    using pending_own [OF ok(1), of SDir "{0..<?n}" "{}"] sub by (simp add: inj_def)
  have run: "\<forall>i. (int i < ?e \<and> i < NR_DIRECT_BLOCKS) = (i < ?n)" by auto
  let ?d1 = "?d\<lparr>i_block_nr := map (\<lambda>k. if 0 \<le> k \<and> k < ?n then 0 else i_block_nr ?d ! k) [0..<10]\<rparr>"
  obtain s1 where s1: "free_direct s p ?e 0 = Ret s1" "freed p s s1 ({} \<union> vals (\<lambda>k. i_block_nr ?d ! k) {0..<?n}) ?d1"
    using free_direct_ok [OF freed_refl [OF ok(2) live] pend run _ len] by auto
  have "vals (\<lambda>k. i_block_nr ?d ! k) {0..<?n} = own s p (SDir ` {0..<?n})" using vals_own [OF sub, of s p] by simp
  also have "\<dots> = own s p (SDir ` {0..<10})" by (rule own_trim [symmetric]) (use lt [of "SDir _"] in auto)
  finally have f1: "freed p s s1 (own s p (SDir ` {0..<10})) ?d1" using s1(2) by simp
  have "i_block_nr ?d ! k = 0" if "k < 10" "\<not> k < ?n" for k
    by (rule ccontr) (use lt [of "SDir k"] that in auto)
  then have zero: "map (\<lambda>k. if 0 \<le> k \<and> k < ?n then 0 else i_block_nr ?d ! k) [0..<10] = replicate 10 0"
    by (intro nth_equalityI) auto
  obtain s2 where s2: "free_single_part s1 p (?e - 10) = Ret s2" "freed p s s2 (own s p first_slots) (?d1\<lparr>i_indirect := 0\<rparr>)"
    using free_single_part_ok [OF ok f1, of "?e - 10"] lt [of SInd] lt [of "SIndE _"] unfolding first_slots_def by fastforce
  then show ?thesis using s1(1) zero by auto
qed

text \<open>The bounds on the blocks under the double indirect block.\<close>

lemma trimmed_double:
  assumes "trimmed s (din s p)"
  shows "i < 2048 \<Longrightarrow> sval (dblock s) (din s p) (SL2 i) \<noteq> 0 \<Longrightarrow> 2048 * int i < all_blocks (din s p) - 10 - 2048"
    "i < 2048 \<Longrightarrow> j < 2048 \<Longrightarrow> sval (dblock s) (din s p) (SDE i j) \<noteq> 0 \<Longrightarrow> 2048 * int i + int j < all_blocks (din s p) - 10 - 2048"
  using trimmed_lt [OF assms, of "SL2 i"] trimmed_lt [OF assms, of "SDE i j"] by simp_all

lemma first_slots_disj: "first_slots \<inter> insert SDInd (l2_rest 0) = {}"
  by (auto simp: first_slots_def l2_rest_def l2_slots_def)

lemma free_blocks_steps:
  assumes r: "ready p s" and tr: "trimmed s (din s p)"
  shows "\<exists>s1 s2 s3 d. free_direct s p (all_blocks (din s p)) 0 = Ret s1 \<and>
    free_single_part s1 p (all_blocks (din s p) - 10) = Ret s2 \<and>
    free_double_part s2 p (all_blocks (din s p) - 10 - 2048) = Ret s3 \<and>
    freed p s s3 (fblocks (dblock s) (din s p)) d \<and> d\<lparr>block_count := 0, i_size := 0\<rparr> = emptied (din s p)"
proof -
  let ?d = "din s p" and ?e = "all_blocks (din s p)"
  have ok: "file_ok s ?d" "sb_inv s" "backed s ?d {}" using r by (auto simp: ready_def)
  let ?d1 = "?d\<lparr>i_block_nr := replicate 10 0, i_indirect := 0\<rparr>"
  obtain s1 s2 where s2: "free_direct s p ?e 0 = Ret s1" "free_single_part s1 p (?e - 10) = Ret s2" "freed p s s2 (own s p first_slots) ?d1"
    using free_blocks_first [OF assms] by blast
  obtain s3 where s3: "free_double_part s2 p (?e - 10 - 2048) = Ret s3"
    "freed p s s3 (own s p (first_slots \<union> insert SDInd (l2_rest 0))) (?d1\<lparr>i_dindirect := 0\<rparr>)"
    using free_double_part_ok [OF ok s2(3) first_slots_disj _ _ trimmed_double [OF tr]] trimmed_lt [OF tr, of SDInd] by auto
  then show ?thesis
    using s2(1,2) own_all [OF all_slots, folded first_slots_def] by (auto simp: emptied_def)
qed

text \<open>What freeing all blocks of the file at \<^verbatim>\<open>p\<close> leaves.\<close>

definition blocks_freed :: "nat \<Rightarrow> fs \<Rightarrow> fs \<Rightarrow> bool" where
  "blocks_freed p s s' \<longleftrightarrow> iupd p s s' \<and> idirty s' p \<and> din s' p = emptied (din s p) \<and>
     ublocks s' = ublocks s - fblocks (dblock s) (din s p) \<and> blk_eq s s' (fblocks (dblock s) (din s p))"

lemma free_blocks_ok:
  assumes r: "ready p s" and tr: "trimmed s (din s p)"
  obtains s' where "testfs_free_blocks s p = Ret (0, s')" "blocks_freed p s s'"
proof -
  let ?d = "din s p"
  obtain s1 s2 s3 d where st: "free_direct s p (all_blocks ?d) 0 = Ret s1" "free_single_part s1 p (all_blocks ?d - 10) = Ret s2"
    "free_double_part s2 p (all_blocks ?d - 10 - 2048) = Ret s3" "freed p s s3 (fblocks (dblock s) ?d) d"
    "d\<lparr>block_count := 0, i_size := 0\<rparr> = emptied ?d"
    using free_blocks_steps [OF assms] by blast
  obtain ino where i: "iheap s3 p = Some ino" using freed_live(1) [OF st(4)] by auto
  let ?i = "ino\<lparr>i_in := (i_in ino)\<lparr>i_size := 0\<rparr>, i_dirty := True\<rparr>"
  have live: "iheap s p \<noteq> None" and ok: "file_ok s ?d" using r by (auto simp: ready_def)
  have card: "block_count ?d = int (card (fblocks (dblock s) ?d))"
    using ok by (simp add: file_ok_def fblocks_def card_image)
  have "i_in ino = d\<lparr>block_count := 0\<rparr>" using st(4) card i by (simp add: freed_def din_def)
  then have d: "(i_in ino)\<lparr>i_size := 0\<rparr> = emptied ?d" using st(5) by simp
  have "iupd p s3 (iset s3 p ?i)" using i freed_live(2) [OF st(4)] unfolding iupd_def by auto
  then have "iupd p s (iset s3 p ?i)" using iupd_trans st(4) by (auto simp: freed_def)
  moreover have "testfs_free_blocks s p = Ret (0, iset s3 p ?i)"
    using st(1-3) i get_din_din [OF live] by (simp add: testfs_free_blocks_def all_blocks_def NRI_def Let_def)
  ultimately show ?thesis
    using st(4) d by (rule_tac that [of "iset s3 p ?i"]) (simp_all add: blocks_freed_def freed_def idirty_def din_def blk_eq_def)
qed

section \<open>Removing an inode\<close>

lemma wf_zero_dinode [simp]: "wf_dinode zero_dinode"
  by (simp add: zero_dinode_def wf_dinode_def in_s32_def list_all_iff)

lemma disk_inode_frame: "blk_eq s s' X \<Longrightarrow> X \<subseteq> {146..} \<Longrightarrow> valid_inr n \<Longrightarrow> disk_inode s' n = disk_inode s n"
  by (rule disk_inode_blk_eq)

definition removed :: "nat \<Rightarrow> fs \<Rightarrow> fs \<Rightarrow> bool" where
  "removed p s s' \<longleftrightarrow> (\<exists>ino. iheap s p = Some ino \<and> fs_inv s' \<and>
     ublocks s' = ublocks s - fblocks (dblock s) (din s p) \<and> used (ibm s') = used (ibm s) - {nat (i_nr ino)} \<and>
     iheap s' = (iheap s)(p := if i_count ino = 1 then None else
        Some (ino\<lparr>i_in := zero_dinode, i_dirty := False, i_count := i_count ino - 1\<rparr>)) \<and>
     (\<forall>nr. valid_inr nr \<longrightarrow> disk_inode s' nr = (if nr = i_nr ino then zero_dinode else disk_inode s nr)) \<and>
     blk_eq s s' ({18..<146} \<union> fblocks (dblock s) (din s p)) \<and> sout s' = sout s \<and> malloc_n s' = malloc_n s \<and>
     dlen (dev s) \<le> dlen (dev s'))"

lemma remove_inode_ok:
  assumes inv: "fs_inv s" and r: "ready p s" and tr: "trimmed s (din s p)" and p: "iheap s p = Some ino"
    and us: "nat (i_nr ino) \<in> used (ibm s)"
  obtains s' where "testfs_remove_inode s p = Ret s'" "removed p s s'"
proof -
  let ?F = "fblocks (dblock s) (din s p)"
  obtain s1 where s1: "testfs_free_blocks s p = Ret (0, s1)" "blocks_freed p s s1" by (rule free_blocks_ok [OF r tr])
  have F: "?F \<subseteq> ublocks s" "?F \<subseteq> {146..}"
    using r ublocks_bounds [of s] by (auto simp: ready_def file_ok_def)
  have inv1: "fs_inv s1" using s1(2) F(2) by (intro iupd_fs_inv [OF inv, of p s1 ?F]) (auto simp: blocks_freed_def)
  obtain i1 where i1: "iheap s1 p = Some i1" "iheap s1 = (iheap s)(p := Some i1)" "i_nr i1 = i_nr ino" "i_count i1 = i_count ino"
    "ibm s1 = ibm s" "sout s1 = sout s" "malloc_n s1 = malloc_n s"
    using s1(2) p by (auto simp: blocks_freed_def iupd_def)
  have nr: "valid_inr (i_nr ino)" using itab_live [OF _ p] inv by (simp add: fs_inv_def inode_ok_def)
  have bc: "block_count (i_in i1) = 0" using s1(2) i1(1) by (simp add: blocks_freed_def din_def emptied_def)
  define i2 where "i2 = i1\<lparr>i_in := zero_dinode, i_dirty := True\<rparr>"
  let ?s2 = "iset s1 p i2"
  have "itab_inv ?s2" using inv1 i1(1) itab_live [of s1 p i1]
    by (intro itab_inv_iset [OF _ i1(1)]) (auto simp: i2_def fs_inv_def inode_ok_def)
  then have inv2: "fs_inv ?s2" using inv1 by (simp add: fs_inv_def malloc_works_def)
  have "nat (i_nr ino) \<in> used (ibm ?s2)" "sb_inv ?s2" using us i1(5) inv2 by (simp_all add: ibm_def fs_inv_def)
  from put_inode_freemap_ok [OF this(2,1)] obtain s3 where
    s3: "testfs_put_inode_freemap ?s2 (i_nr ino) = Ret s3" "used (ibm s3) = used (ibm s) - {nat (i_nr ino)}" "sb_inv s3"
      "blk_eq ?s2 s3 {}" "mem_eq ?s2 s3" "bbm s3 = bbm ?s2" "dlen (dev s3) = dlen (dev ?s2)"
    using nr i1(5) by (auto simp: ibm_def valid_inr_def)
  have inv3: "fs_inv s3" using fs_inv_frame [OF inv2 s3(3-5)] .
  have h3: "iheap s3 p = Some i2" "iheap s3 = (iheap s)(p := Some i2)" "sout s3 = sout s" "malloc_n s3 = malloc_n s"
    using s3(5) i1 by (simp_all add: mem_eq_def)
  have "sb_inv s3" "itab_inv s3" "wf_dinode (i_in i2)" using inv3 by (simp_all add: fs_inv_def i2_def)
  from sync_inode_ok [OF this(1,2) h3(1) this(3)] obtain s4 where
    s4: "testfs_sync_inode s3 p = Ret s4" "itab_inv s4" "sb_inv s4" "iheap s4 = (iheap s3)(p := Some (i2\<lparr>i_dirty := False\<rparr>))"
      "disk_inode s4 (i_nr i2) = i_in i2" "\<And>n. valid_inr n \<Longrightarrow> n \<noteq> i_nr i2 \<Longrightarrow> disk_inode s4 n = disk_inode s3 n"
      "blk_eq s3 s4 {18..<146}" "malloc_n s4 = malloc_n s3" "malloc_ok s4 = malloc_ok s3" "sout s4 = sout s3"
      "bbm s4 = bbm s3" "ibm s4 = ibm s3" "sb s4 = sb s3" "dlen (dev s4) = dlen (dev s3)"
    by metis
  have h4: "iheap s4 p = Some (i2\<lparr>i_dirty := False\<rparr>)" using s4(4) by simp
  obtain s5 where s5: "testfs_put_inode s4 p = Ret s5" "itab_inv s5"
    "iheap s5 = (iheap s4)(p := if i_count (i2\<lparr>i_dirty := False\<rparr>) = 1 then None
       else Some (i2\<lparr>i_dirty := False, i_count := i_count (i2\<lparr>i_dirty := False\<rparr>) - 1\<rparr>))"
    "sb s5 = sb s4" "dev s5 = dev s4" "inode_freemap s5 = inode_freemap s4" "block_freemap s5 = block_freemap s4"
    "malloc_n s5 = malloc_n s4" "malloc_ok s5 = malloc_ok s4" "sout s5 = sout s4"
    by (rule put_inode_ok [OF s4(2) h4]) simp_all
  have run: "testfs_remove_inode s p = Ret s5"
    using s1(1) i1(1,3) bc s3(1) s4(1) s5(1) by (simp add: testfs_remove_inode_def i2_def Let_def)
  have inv5: "fs_inv s5"
    using s5(2) s4(3,9) sb_inv_cong [OF s5(4-7)] inv3 s5(9) by (simp add: fs_inv_def malloc_works_def)
  have db: "dblock s5 = dblock s4" "disk_inode s5 = disk_inode s4" by (simp_all add: dblock_def disk_inode_def s5(5) fun_eq_iff)
  have bl: "blk_eq s s3 ?F"
    by (rule blk_eq_trans [where X = ?F, OF _ s3(4)]) (use s1(2) in \<open>auto simp: blocks_freed_def blk_eq_def\<close>)
  have "blk_eq s s4 ({18..<146} \<union> ?F)" by (rule blk_eq_trans [OF bl s4(7)]) auto
  then have bl5: "blk_eq s s5 ({18..<146} \<union> ?F)" using db by (simp add: blk_eq_def)
  have dk: "disk_inode s5 n = (if n = i_nr ino then zero_dinode else disk_inode s n)" if "valid_inr n" for n
    using s4(5,6) disk_inode_frame [OF bl F(2) that] that i1(3) db by (auto simp: i2_def)
  have ub: "ublocks s5 = ublocks s - ?F"
    using s1(2) s3(6) s4(11) s5(7) by (simp add: ublocks_def bbm_def blocks_freed_def)
  have ib: "used (ibm s5) = used (ibm s) - {nat (i_nr ino)}" using s3(2) s4(12) s5(6) by (simp add: ibm_def)
  have hp: "iheap s5 = (iheap s)(p := if i_count ino = 1 then None else
        Some (ino\<lparr>i_in := zero_dinode, i_dirty := False, i_count := i_count ino - 1\<rparr>))"
    using s5(3) s4(4) h3(2) i1(3,4) by (auto simp: i2_def fun_eq_iff)
  have "dlen (dev s) \<le> dlen (dev s1)" using s1(2) by (simp add: blocks_freed_def iupd_def)
  then have "dlen (dev s) \<le> dlen (dev s5)" using s5(5) s4(14) s3(7) by simp
  then have "removed p s s5"
    unfolding removed_def using p inv5 ub ib hp dk bl5 s5(8,10) s4(8,10) h3(3,4) by auto
  with run show ?thesis by (rule that)
qed

text \<open>An inode without blocks, and the free inode numbers, whose disk inodes are zero.\<close>

lemma empty_ready:
  assumes "sb_inv s" "iheap s p = Some ino" "i_in ino = zero_dinode\<lparr>i_type := t\<rparr>" "in_s32 t"
  shows "ready p s" "trimmed s (din s p)" "fblocks (dblock s) (din s p) = {}"
proof -
  have d: "din s p = zero_dinode\<lparr>i_type := t\<rparr>" using assms by (simp add: din_def)
  have "sval (dblock s) (zero_dinode\<lparr>i_type := t\<rparr>) x = 0" if "x \<in> slots" for x
    using that by (cases x) (simp_all add: zero_dinode_def)
  then have l: "live (dblock s) (din s p) = {}" by (auto simp: live_def d)
  then show "fblocks (dblock s) (din s p) = {}" by (simp add: fblocks_def)
  moreover have "wf_dinode (din s p)" using assms(4) by (simp add: d zero_dinode_def wf_dinode_def in_s32_def list_all_iff)
  ultimately show "ready p s" using assms l by (simp add: ready_def file_ok_def backed_def) (simp add: d zero_dinode_def)
  show "trimmed s (din s p)" unfolding trimmed_def l by (simp add: d zero_dinode_def)
qed

definition free_zero :: "fs \<Rightarrow> bool" where
  "free_zero s \<longleftrightarrow> (\<forall>i < 16384. i \<notin> used (ibm s) \<longrightarrow> disk_inode s (int i) = zero_dinode)"

section \<open>Properties\<close>

text \<open>
  C9: \<^verbatim>\<open>testfs_free_blocks\<close> on a well-formed file without blocks behind its end gives
  every block the file owns (direct, indirect, double indirect and the pointer blocks themselves)
  back to the block freemap and nothing else, leaves an empty file and no pointer in the inode,
  and changes no other block.
\<close>

theorem free_blocks_exact:
  assumes "ready p s" "trimmed s (din s p)"
  shows "\<exists>s'. testfs_free_blocks s p = Ret (0, s') \<and> ublocks s' = ublocks s - fblocks (dblock s) (din s p) \<and>
    fblocks (dblock s) (din s p) \<subseteq> ublocks s \<and> ready p s' \<and> fblocks (dblock s') (din s' p) = {} \<and>
    i_size (din s' p) = 0 \<and> block_count (din s' p) = 0 \<and> blk_eq s s' (fblocks (dblock s) (din s p))"
proof -
  obtain s' where s': "testfs_free_blocks s p = Ret (0, s')" "blocks_freed p s s'" by (rule free_blocks_ok [OF assms])
  obtain ino where i: "iheap s' p = Some ino" using s'(2) iupd_live [of p s s'] by (auto simp: blocks_freed_def)
  have d: "din s' p = zero_dinode\<lparr>i_type := i_type (din s p)\<rparr>"
    using s'(2) by (simp add: blocks_freed_def emptied_def zero_dinode_def)
  have "in_s32 (i_type (din s p))" using assms(1) by (simp add: ready_def file_ok_def wf_dinode_def)
  then have "ready p s'" "fblocks (dblock s') (din s' p) = {}"
    using empty_ready [OF _ i, of "i_type (din s p)"] d s'(2) by (auto simp: din_def i blocks_freed_def iupd_def)
  moreover have "i_size (din s' p) = 0" "block_count (din s' p) = 0" by (simp_all add: d zero_dinode_def)
  moreover have "fblocks (dblock s) (din s p) \<subseteq> ublocks s" using assms(1) by (simp add: ready_def file_ok_def)
  ultimately show ?thesis using s' by (auto simp: blocks_freed_def)
qed

text \<open>An inode just created in an empty file system, and one block written to it.\<close>

lemma ex_created:
  "\<exists>s p s1. fs_inv s \<and> free_zero s \<and> iheap s = (\<lambda>_. None) \<and> testfs_create_inode s I_FILE = Ret (Inr p, s1) \<and> ublocks s = {}"
proof -
  obtain s where s: "fs_inv s" "iheap s = (\<lambda>_. None)" "used (ibm s) = {}" "\<forall>nr. disk_inode s nr = zero_dinode" "ublocks s = {}"
    using ex_empty_fs by blast
  then show ?thesis using create_inode_ok [OF s(1), of I_FILE] by (auto simp: free_zero_def)
qed

theorem free_blocks_exact_witness:
  "\<exists>s p s'. ready p s \<and> trimmed s (din s p) \<and> testfs_free_blocks s p = Ret (0, s') \<and> ready p s'"
proof -
  obtain s p where s: "ready p s" "din s p = zero_dinode" using ex_empty_file by blast
  have "live (dblock s) zero_dinode = {}" using sval_zero by (auto simp: live_def)
  then have "trimmed s (din s p)" using s(2) by (simp add: trimmed_def) (simp add: zero_dinode_def)
  then show ?thesis using free_blocks_exact [OF s(1)] s(1) by blast
qed

text \<open>
  Creating an inode and removing it again gives back everything: the blocks and inode numbers
  in use, the in-memory inodes and the contents of all inodes on disk are those before; the
  invariant holds afterwards.
\<close>

theorem create_remove_roundtrip:
  assumes "fs_inv s" "free_zero s" "\<forall>p ino. iheap s p = Some ino \<longrightarrow> nat (i_nr ino) \<in> used (ibm s)"
    "testfs_create_inode s ty = Ret (Inr p, s1)"
  shows "\<exists>s2. testfs_remove_inode s1 p = Ret s2 \<and> fs_inv s2 \<and> ublocks s2 = ublocks s \<and> used (ibm s2) = used (ibm s) \<and>
    iheap s2 = iheap s \<and> free_zero s2"
proof -
  obtain nr ino where c: "fs_inv s1" "valid_inr nr" "nat nr \<notin> used (ibm s)" "used (ibm s1) = insert (nat nr) (used (ibm s))"
    "iheap s p = None" "iheap s1 = (iheap s)(p := Some ino)" "i_nr ino = nr" "i_dirty ino" "i_count ino = 1"
    "i_in ino = (disk_inode s nr)\<lparr>i_type := type_code ty\<rparr>" "ublocks s1 = ublocks s" "blk_eq s s1 {}"
    using create_inode_ok [OF assms(1,3), of ty] assms(4) by auto
  have dk: "disk_inode s1 n = disk_inode s n" if "valid_inr n" for n by (rule disk_inode_frame [OF c(12) _ that]) simp
  have z: "disk_inode s nr = zero_dinode" using assms(2) c(2,3) unfolding free_zero_def valid_inr_def by (metis int_nat_eq nat_less_iff of_nat_numeral)
  have h: "iheap s1 p = Some ino" using c(6) by simp
  have "in_s32 (type_code ty)" by (cases ty) (simp_all add: in_s32_def)
  note e = empty_ready [OF _ h _ this]
  have r: "ready p s1" "trimmed s1 (din s1 p)" "fblocks (dblock s1) (din s1 p) = {}" using e c(1,10) z by (simp_all add: fs_inv_def)
  obtain s2 where s2: "testfs_remove_inode s1 p = Ret s2" "removed p s1 s2"
    by (rule remove_inode_ok [OF c(1) r(1,2) h]) (simp add: c(4,7))
  have "free_zero s2"
    using s2(2) h c(2,4,7) dk assms(2) unfolding removed_def free_zero_def by (auto simp: valid_inr_def)
  then show ?thesis using s2 h r(3) c by (auto simp: removed_def)
qed

theorem create_remove_roundtrip_witness:
  "\<exists>s p s1 s2. testfs_create_inode s I_FILE = Ret (Inr p, s1) \<and> testfs_remove_inode s1 p = Ret s2 \<and> iheap s2 = iheap s"
proof -
  obtain s p s1 where s: "fs_inv s" "free_zero s" "iheap s = (\<lambda>_. None)" "testfs_create_inode s I_FILE = Ret (Inr p, s1)"
    using ex_created by blast
  then obtain s2 where "testfs_remove_inode s1 p = Ret s2" "iheap s2 = iheap s"
    using create_remove_roundtrip [OF s(1,2) _ s(4)] by auto
  with s(4) show ?thesis by blast
qed

end
