(* ===== verification/FS_Dir.thy ===== *)
theory FS_Dir
  imports FS_Free
begin

text \<open>
  Directories (\<^verbatim>\<open>fs/dir.c\<close>). A directory is a file whose contents is a sequence of
  entries, each a length, an inode number and a name that ends in a zero byte; an entry whose
  inode number is \<^verbatim>\<open>-1\<close> is free and is used again for a name of the same length. The
  operations are those of the source; the specification below reads the contents as a list of
  names with their inode numbers.
\<close>

section \<open>Strings and entries\<close>

text \<open>A name in memory: its bytes and the terminating zero.\<close>

definition name_mem :: "byte list \<Rightarrow> mem" where
  "name_mem nm = mem_of_list (nm @ [0])"

text \<open>
  \<^verbatim>\<open>strcmp\<close> of the \<^verbatim>\<open>n\<close> bytes of the name of an entry with a C string, from index
  \<^verbatim>\<open>i\<close>; it stops at the first difference and reads no further.
\<close>

primrec name_eq :: "mem \<Rightarrow> nat \<Rightarrow> nat \<Rightarrow> byte list \<Rightarrow> bool res" where
  "name_eq m n i [] = bnd (guard_ub (i < n)) (\<lambda>_. Ret (m i = 0))"
| "name_eq m n i (c # cs) =
     bnd (guard_ub (i < n)) (\<lambda>_. if m i = c then name_eq m n (Suc i) cs else Ret False)"

text \<open>The bytes of a name up to the zero, as \<^verbatim>\<open>printf\<close> reads them.\<close>

function name_bytes :: "mem \<Rightarrow> nat \<Rightarrow> nat \<Rightarrow> byte list res" where
  "name_bytes m n i =
     (if i < n then
        if m i = 0 then Ret []
        else bnd (name_bytes m n (Suc i)) (\<lambda>cs. Ret (m i # cs))
      else Crash Undef)"
  by pat_completeness auto
termination
  by (relation "measure (\<lambda>(m, n, i). n - i)") auto

declare name_bytes.simps [simp del]

record dirent =
  d_name_len :: int
  d_inode_nr :: int
  d_name :: mem

definition strcmp_d :: "dirent \<Rightarrow> byte list \<Rightarrow> bool res" where
  "strcmp_d d name = name_eq (d_name d) (nat (d_name_len d)) 0 name"

definition puts :: "fs \<Rightarrow> byte list \<Rightarrow> fs" where
  "puts s bs = s\<lparr>sout := sout s @ bs\<rparr>"

section \<open>Walking a directory\<close>

definition testfs_next_dirent :: "fs \<Rightarrow> nat \<Rightarrow> int \<Rightarrow> (dirent option \<times> int \<times> fs) res" where
  "testfs_next_dirent s p offset =
    bnd (testfs_inode_get_type s p) (\<lambda>t.
    bnd (c_assert (t = type_code I_DIR)) (\<lambda>_.
    bnd (testfs_inode_get_size s p) (\<lambda>size.
    if offset \<ge> size then Ret (None, offset, s)
    else
      bnd (testfs_read_data s p (junk s (malloc_n s)) offset (int SIZEOF_DIRENT)) (\<lambda>(ret, d).
      if ret < 0 then Ret (None, offset, s)
      else
        bnd (c_assert (get_s32 d 0 > 0)) (\<lambda>_.
          case c_malloc s of
            (None, s1) \<Rightarrow> Ret (None, offset, s1)
          | (Some a, s1) \<Rightarrow>
              bnd (testfs_read_data s1 p (junk s1 a) (offset + int SIZEOF_DIRENT) (get_s32 d 0)) (\<lambda>(ret', name).
              if ret' < 0 then Ret (None, offset + int SIZEOF_DIRENT, s1)
              else
                Ret (Some \<lparr>d_name_len = get_s32 d 0, d_inode_nr = get_s32 d 4, d_name = name\<rparr>,
                     offset + int SIZEOF_DIRENT + get_s32 d 0, s1)))))))"

text \<open>Each entry read moves the offset forward, below the size of the directory.\<close>

lemma next_dirent_step:
  assumes "testfs_next_dirent s p off = Ret (Some d, off', s')"
  shows "off < i_size (i_in (the (iheap s p)))" "off < off'" "iheap s' = iheap s"
  using assms
  by (auto simp: testfs_next_dirent_def res_simps testfs_inode_get_type_def testfs_inode_get_size_def
      c_malloc_def split: if_splits prod.splits)

definition left_of :: "fs \<Rightarrow> nat \<Rightarrow> int \<Rightarrow> nat" where
  "left_of s p off = nat (i_size (i_in (the (iheap s p))) - off)"

lemma next_dirent_left:
  "testfs_next_dirent s p off = Ret (Some d, off', s') \<Longrightarrow> left_of s' p off' < left_of s p off"
  using next_dirent_step [of s p off d off' s'] by (simp add: left_of_def)

function find_from :: "fs \<Rightarrow> nat \<Rightarrow> int \<Rightarrow> int \<Rightarrow> (dirent option \<times> fs) res" where
  "find_from s p inode_nr offset =
    bnd (testfs_next_dirent s p offset) (\<lambda>(r, offset', s').
      case r of
        None \<Rightarrow> Ret (None, s')
      | Some d \<Rightarrow>
          if d_inode_nr d = inode_nr then Ret (Some d, s')
          else find_from s' p inode_nr offset')"
  by pat_completeness auto
termination
  by (relation "measure (\<lambda>(s, p, inode_nr, offset). left_of s p offset)")
    (auto dest: next_dirent_left)

declare find_from.simps [simp del]

definition testfs_find_dirent :: "fs \<Rightarrow> nat \<Rightarrow> int \<Rightarrow> (dirent option \<times> fs) res" where
  "testfs_find_dirent s p inode_nr =
    bnd (testfs_inode_get_type s p) (\<lambda>t.
    bnd (c_assert (t = type_code I_DIR)) (\<lambda>_.
    bnd (c_assert (inode_nr \<ge> 0)) (\<lambda>_.
    find_from s p inode_nr 0)))"

text \<open>
  \<^verbatim>\<open>strcpy\<close> of the name into the \<^verbatim>\<open>len\<close> bytes behind the header; the callers pass
  \<^verbatim>\<open>strlen(name) + 1\<close>. The offset parameter is an \<^verbatim>\<open>int\<close>.
\<close>

definition dirent_mem :: "int \<Rightarrow> int \<Rightarrow> byte list \<Rightarrow> mem" where
  "dirent_mem len inode_nr name =
    memcpy (put32 (put32 zero_mem 0 len) 4 inode_nr) 8 (name_mem name) 0 (Suc (length name))"

definition testfs_write_dirent :: "fs \<Rightarrow> nat \<Rightarrow> byte list \<Rightarrow> int \<Rightarrow> int \<Rightarrow> int \<Rightarrow> (int \<times> fs) res" where
  "testfs_write_dirent s p name len inode_nr offset =
    (case c_malloc s of
       (None, s1) \<Rightarrow> Ret (- ENOMEM, s1)
     | (Some a, s1) \<Rightarrow>
         bnd (c_assert (inode_nr \<ge> 0)) (\<lambda>_.
         bnd (guard_ub (int (length name) < len)) (\<lambda>_.
         testfs_write_data s1 p (dirent_mem len inode_nr name) (to_s32 offset)
           (int SIZEOF_DIRENT + len))))"

text \<open>The loop of \<^verbatim>\<open>testfs_add_dirent\<close>: \<^verbatim>\<open>ret\<close>, \<^verbatim>\<open>found\<close> and \<^verbatim>\<open>p_offset\<close> at its end.\<close>

function add_scan :: "fs \<Rightarrow> nat \<Rightarrow> byte list \<Rightarrow> int \<Rightarrow> int \<Rightarrow> (int \<times> bool \<times> int \<times> fs) res" where
  "add_scan s p name len offset =
    bnd (testfs_next_dirent s p offset) (\<lambda>(r, offset', s').
      case r of
        None \<Rightarrow> Ret (0, False, offset, s')
      | Some d \<Rightarrow>
          bnd (if d_inode_nr d \<ge> 0 then strcmp_d d name else Ret False) (\<lambda>same.
          if same then Ret (- EEXIST, False, offset, s')
          else if d_inode_nr d \<ge> 0 \<or> d_name_len d \<noteq> len then add_scan s' p name len offset'
          else Ret (0, True, offset, s')))"
  by pat_completeness auto
termination
  by (relation "measure (\<lambda>(s, p, name, len, offset). left_of s p offset)")
    (auto dest: next_dirent_left)

declare add_scan.simps [simp del]

definition testfs_add_dirent :: "fs \<Rightarrow> nat \<Rightarrow> byte list \<Rightarrow> int \<Rightarrow> (int \<times> fs) res" where
  "testfs_add_dirent s p name inode_nr =
    (let len = to_s32 (int (length name) + 1) in
     bnd (testfs_inode_get_type s p) (\<lambda>t.
     bnd (c_assert (t = type_code I_DIR)) (\<lambda>_.
     bnd (add_scan s p name len 0) (\<lambda>(ret, found, p_offset, s1).
     if ret < 0 then Ret (ret, s1)
     else
       bnd (testfs_inode_get_size s1 p) (\<lambda>size.
       bnd (c_assert (found \<or> p_offset = size)) (\<lambda>_.
       testfs_write_dirent s1 p name len inode_nr p_offset))))))"

section \<open>Removing entries\<close>

function allowed_from :: "fs \<Rightarrow> nat \<Rightarrow> int \<Rightarrow> (int \<times> fs) res" where
  "allowed_from s p offset =
    bnd (testfs_next_dirent s p offset) (\<lambda>(r, offset', s').
      case r of
        None \<Rightarrow> Ret (0, s')
      | Some d \<Rightarrow>
          bnd (if d_inode_nr d < 0 then Ret True
               else bnd (strcmp_d d (cstr ''.'')) (\<lambda>dot.
                 if dot then Ret True else strcmp_d d (cstr ''..''))) (\<lambda>skip.
          if skip then allowed_from s' p offset' else Ret (- ENOTEMPTY, s')))"
  by pat_completeness auto
termination
  by (relation "measure (\<lambda>(s, p, offset). left_of s p offset)") (auto dest: next_dirent_left)

declare allowed_from.simps [simp del]

definition testfs_remove_dirent_allowed :: "fs \<Rightarrow> int \<Rightarrow> (int \<times> fs) res" where
  "testfs_remove_dirent_allowed s inode_nr =
    bnd (testfs_get_inode s inode_nr) (\<lambda>(dir, s1).
    bnd (testfs_inode_get_type s1 dir) (\<lambda>t.
    bnd (if t \<noteq> type_code I_DIR then Ret (0, s1) else allowed_from s1 dir 0) (\<lambda>(ret, s2).
    bnd (testfs_put_inode s2 dir) (\<lambda>s3.
    Ret (ret, s3)))))"

definition INVALID_INODE_NR :: int where
  "INVALID_INODE_NR = - 1"

definition dirent_bytes :: "dirent \<Rightarrow> mem" where
  "dirent_bytes d =
    memcpy (put32 (put32 zero_mem 0 (d_name_len d)) 4 (d_inode_nr d)) 8 (d_name d) 0 (nat (d_name_len d))"

text \<open>
  The loop of \<^verbatim>\<open>testfs_remove_dirent\<close>: it ends with the first used entry of the name, whatever
  becomes of it.
\<close>

function remove_scan :: "fs \<Rightarrow> nat \<Rightarrow> byte list \<Rightarrow> int \<Rightarrow> (int \<times> fs) res" where
  "remove_scan s p name offset =
    bnd (testfs_next_dirent s p offset) (\<lambda>(r, offset', s').
      case r of
        None \<Rightarrow> Ret (- ENOENT, s')
      | Some d \<Rightarrow>
          bnd (if d_inode_nr d < 0 then Ret False else strcmp_d d name) (\<lambda>same.
          if \<not> same then remove_scan s' p name offset'
          else
            let inode_nr = d_inode_nr d in
            bnd (testfs_remove_dirent_allowed s' inode_nr) (\<lambda>(ret, s1).
            if ret < 0 then Ret (ret, s1)
            else
              bnd (testfs_write_data s1 p (dirent_bytes (d\<lparr>d_inode_nr := INVALID_INODE_NR\<rparr>)) offset
                     (int SIZEOF_DIRENT + d_name_len d)) (\<lambda>(ret', s2).
              Ret (if ret' \<ge> 0 then inode_nr else ret', s2)))))"
  by pat_completeness auto
termination
  by (relation "measure (\<lambda>(s, p, name, offset). left_of s p offset)") (auto dest: next_dirent_left)

declare remove_scan.simps [simp del]

definition testfs_remove_dirent :: "fs \<Rightarrow> nat \<Rightarrow> byte list \<Rightarrow> (int \<times> fs) res" where
  "testfs_remove_dirent s p name =
    (if name = cstr ''.'' \<or> name = cstr ''..'' then Ret (- EINVAL, s)
     else remove_scan s p name 0)"

section \<open>Looking up and creating\<close>

function lookup_from :: "fs \<Rightarrow> nat \<Rightarrow> byte list \<Rightarrow> int \<Rightarrow> (int \<times> fs) res" where
  "lookup_from s p name offset =
    bnd (testfs_next_dirent s p offset) (\<lambda>(r, offset', s').
      case r of
        None \<Rightarrow> Ret (- ENOENT, s')
      | Some d \<Rightarrow>
          bnd (if d_inode_nr d < 0 then Ret False else strcmp_d d name) (\<lambda>same.
          if same then Ret (d_inode_nr d, s') else lookup_from s' p name offset'))"
  by pat_completeness auto
termination
  by (relation "measure (\<lambda>(s, p, name, offset). left_of s p offset)") (auto dest: next_dirent_left)

declare lookup_from.simps [simp del]

definition testfs_dir_name_to_inode_nr :: "fs \<Rightarrow> nat \<Rightarrow> byte list \<Rightarrow> (int \<times> fs) res" where
  "testfs_dir_name_to_inode_nr s p name =
    bnd (testfs_inode_get_type s p) (\<lambda>t.
    bnd (c_assert (t = type_code I_DIR)) (\<lambda>_.
    lookup_from s p name 0))"

definition testfs_create_empty_dir :: "fs \<Rightarrow> int \<Rightarrow> nat \<Rightarrow> (int \<times> fs) res" where
  "testfs_create_empty_dir s p_inode_nr cdir =
    bnd (testfs_inode_get_type s cdir) (\<lambda>t.
    bnd (c_assert (t = type_code I_DIR)) (\<lambda>_.
    bnd (testfs_inode_get_nr s cdir) (\<lambda>nr.
    bnd (testfs_add_dirent s cdir (cstr ''.'') nr) (\<lambda>(ret, s1).
    if ret < 0 then Ret (ret, s1)
    else
      bnd (testfs_add_dirent s1 cdir (cstr ''..'') p_inode_nr) (\<lambda>(ret', s2).
      if ret' < 0 then bnd (testfs_remove_dirent s2 cdir (cstr ''.'')) (\<lambda>(_, s3). Ret (ret', s3))
      else Ret (0, s2))))))"

text \<open>\<^verbatim>\<open>dir\<close> is null for the root directory.\<close>

definition testfs_create_file_or_dir ::
  "fs \<Rightarrow> nat option \<Rightarrow> inode_type \<Rightarrow> byte list \<Rightarrow> (int \<times> fs) res" where
  "testfs_create_file_or_dir s dir type name =
    bnd (case dir of None \<Rightarrow> Ret (- 1, s) | Some dp \<Rightarrow> testfs_dir_name_to_inode_nr s dp name) (\<lambda>(found, s1).
    if found \<ge> 0 then Ret (- EEXIST, s1)
    else
      bnd (testfs_create_inode s1 type) (\<lambda>(r, s2).
        case r of
          Inl e \<Rightarrow> Ret (e, s2)
        | Inr p \<Rightarrow>
            bnd (testfs_inode_get_nr s2 p) (\<lambda>inode_nr.
            bnd (if type = I_DIR then
                   bnd (case dir of None \<Rightarrow> Ret inode_nr | Some dp \<Rightarrow> testfs_inode_get_nr s2 dp) (\<lambda>p_inode_nr.
                   testfs_create_empty_dir s2 p_inode_nr p)
                 else Ret (0, s2)) (\<lambda>(ret, s3).
            if ret < 0 then bnd (testfs_remove_inode s3 p) (\<lambda>s4. Ret (ret, s4))
            else
              bnd (case dir of
                     None \<Rightarrow> Ret (0, s3)
                   | Some dp \<Rightarrow>
                       bnd (testfs_add_dirent s3 dp name inode_nr) (\<lambda>(ret', s4).
                       if ret' < 0 then Ret (ret', s4)
                       else bnd (testfs_sync_inode s4 dp) (\<lambda>s5. Ret (0, s5)))) (\<lambda>(ret', s4).
              if ret' < 0 then bnd (testfs_remove_inode s4 p) (\<lambda>s5. Ret (ret', s5))
              else
                bnd (testfs_sync_inode s4 p) (\<lambda>s5.
                bnd (testfs_put_inode s5 p) (\<lambda>s6.
                Ret (0, s6))))))))"

definition testfs_make_root_dir :: "fs \<Rightarrow> (int \<times> fs) res" where
  "testfs_make_root_dir s = testfs_create_file_or_dir s None I_DIR []"

section \<open>Printing\<close>

text \<open>
  The parents of a directory form a chain that ends at the root only on a well-formed device, so
  the recursion carries fuel; likewise the walk over a tree of directories.
\<close>

primrec testfs_pwd :: "nat \<Rightarrow> fs \<Rightarrow> nat \<Rightarrow> (int \<times> fs) res" where
  "testfs_pwd 0 s p = Crash Diverges"
| "testfs_pwd (Suc fuel) s p =
    bnd (testfs_inode_get_nr s p) (\<lambda>nr.
    bnd (c_assert (nr \<ge> 0)) (\<lambda>_.
    bnd (testfs_dir_name_to_inode_nr s p (cstr ''..'')) (\<lambda>(p_inode_nr, s1).
    bnd (c_assert (p_inode_nr \<ge> 0)) (\<lambda>_.
    if p_inode_nr = nr then Ret (1, puts s1 (cstr ''/''))
    else
      bnd (testfs_get_inode s1 p_inode_nr) (\<lambda>(p_in, s2).
      bnd (testfs_find_dirent s2 p_in nr) (\<lambda>(r, s3).
      case r of
        None \<Rightarrow> Crash Assert_Fail
      | Some d \<Rightarrow>
          bnd (testfs_pwd fuel s3 p_in) (\<lambda>(ret, s4).
          bnd (testfs_put_inode s4 p_in) (\<lambda>s5.
          bnd (name_bytes (d_name d) (nat (d_name_len d)) 0) (\<lambda>name.
          Ret (0, puts s5 ((if ret = 1 then [] else cstr ''/'') @ name)))))))))))"

primrec testfs_ls_from :: "nat \<Rightarrow> fs \<Rightarrow> nat \<Rightarrow> bool \<Rightarrow> int \<Rightarrow> fs res" where
  "testfs_ls_from 0 s p recursive offset = Crash Diverges"
| "testfs_ls_from (Suc fuel) s p recursive offset =
    bnd (testfs_next_dirent s p offset) (\<lambda>(r, offset', s1).
      case r of
        None \<Rightarrow> Ret s1
      | Some d \<Rightarrow>
          if d_inode_nr d < 0 then testfs_ls_from fuel s1 p recursive offset'
          else
            bnd (testfs_get_inode s1 (d_inode_nr d)) (\<lambda>(cin, s2).
            bnd (testfs_inode_get_type s2 cin) (\<lambda>t.
            bnd (name_bytes (d_name d) (nat (d_name_len d)) 0) (\<lambda>name.
            let s3 = puts s2 (name @ (if t = type_code I_DIR then cstr ''/'' else []) @ [10]) in
            bnd (if recursive \<and> t = type_code I_DIR \<and> name \<noteq> cstr ''.'' \<and> name \<noteq> cstr ''..''
                 then testfs_ls_from fuel s3 cin recursive 0
                 else Ret s3) (\<lambda>s4.
            bnd (testfs_put_inode s4 cin) (\<lambda>s5.
            testfs_ls_from fuel s5 p recursive offset'))))))"

definition testfs_ls :: "nat \<Rightarrow> fs \<Rightarrow> nat \<Rightarrow> bool \<Rightarrow> (int \<times> fs) res" where
  "testfs_ls fuel s p recursive = bnd (testfs_ls_from fuel s p recursive 0) (\<lambda>s1. Ret (0, s1))"

section \<open>Commands on directories\<close>

definition MAX_ARGS :: nat where
  "MAX_ARGS = 6"

text \<open>The slots of \<^verbatim>\<open>cmd\<close> hold pointers to C strings or null.\<close>

record shell_context =
  nargs :: int
  cmd :: "byte list option list"
  cur_dir :: nat

definition arg :: "shell_context \<Rightarrow> nat \<Rightarrow> byte list res" where
  "arg c k = bnd (guard_ub (k < length (cmd c))) (\<lambda>_. deref (cmd c ! k))"

definition cmd_ls_internal :: "nat \<Rightarrow> fs \<Rightarrow> shell_context \<Rightarrow> bool \<Rightarrow> (int \<times> fs) res" where
  "cmd_ls_internal fuel s c recursive =
    (if nargs c \<noteq> 2 then Ret (- EINVAL, s)
     else
       bnd (arg c 1) (\<lambda>cdir.
       bnd (testfs_dir_name_to_inode_nr s (cur_dir c) cdir) (\<lambda>(inode_nr, s1).
       if inode_nr < 0 then Ret (inode_nr, s1)
       else
         bnd (testfs_get_inode s1 inode_nr) (\<lambda>(p, s2).
         bnd (testfs_inode_get_type s2 p) (\<lambda>t.
         if t = type_code I_DIR then
           bnd (testfs_ls fuel s2 p recursive) (\<lambda>(_, s3).
           bnd (testfs_put_inode s3 p) (\<lambda>s4. Ret (0, s4)))
         else Ret (- ENOTDIR, s2))))))"

definition cmd_cd :: "fs \<Rightarrow> shell_context \<Rightarrow> (int \<times> shell_context \<times> fs) res" where
  "cmd_cd s c =
    (if nargs c \<noteq> 2 then Ret (- EINVAL, c, s)
     else
       bnd (arg c 1) (\<lambda>name.
       bnd (testfs_dir_name_to_inode_nr s (cur_dir c) name) (\<lambda>(inode_nr, s1).
       if inode_nr < 0 then Ret (inode_nr, c, s1)
       else
         bnd (testfs_get_inode s1 inode_nr) (\<lambda>(dir_inode, s2).
         bnd (testfs_inode_get_type s2 dir_inode) (\<lambda>t.
         if t \<noteq> type_code I_DIR then
           bnd (testfs_put_inode s2 dir_inode) (\<lambda>s3. Ret (- ENOTDIR, c, s3))
         else
           bnd (testfs_put_inode s2 (cur_dir c)) (\<lambda>s3.
           Ret (0, c\<lparr>cur_dir := dir_inode\<rparr>, s3)))))))"

definition cmd_pwd :: "nat \<Rightarrow> fs \<Rightarrow> shell_context \<Rightarrow> (int \<times> fs) res" where
  "cmd_pwd fuel s c =
    (if nargs c \<noteq> 1 then Ret (- EINVAL, s)
     else bnd (testfs_pwd fuel s (cur_dir c)) (\<lambda>(_, s1). Ret (0, puts s1 [10])))"

definition cmd_ls :: "nat \<Rightarrow> fs \<Rightarrow> shell_context \<Rightarrow> (int \<times> fs) res" where
  "cmd_ls fuel s c = cmd_ls_internal fuel s c False"

definition cmd_lsr :: "nat \<Rightarrow> fs \<Rightarrow> shell_context \<Rightarrow> (int \<times> fs) res" where
  "cmd_lsr fuel s c = cmd_ls_internal fuel s c True"

definition cmd_create :: "fs \<Rightarrow> shell_context \<Rightarrow> (int \<times> fs) res" where
  "cmd_create s c =
    (if nargs c \<noteq> 2 then Ret (- EINVAL, s)
     else bnd (arg c 1) (\<lambda>name. testfs_create_file_or_dir s (Some (cur_dir c)) I_FILE name))"

definition cmd_mkdir :: "fs \<Rightarrow> shell_context \<Rightarrow> (int \<times> fs) res" where
  "cmd_mkdir s c =
    (if nargs c \<noteq> 2 then Ret (- EINVAL, s)
     else bnd (arg c 1) (\<lambda>name. testfs_create_file_or_dir s (Some (cur_dir c)) I_DIR name))"

definition cmd_rm :: "fs \<Rightarrow> shell_context \<Rightarrow> (int \<times> fs) res" where
  "cmd_rm s c =
    (if nargs c \<noteq> 2 then Ret (- EINVAL, s)
     else
       bnd (arg c 1) (\<lambda>name.
       bnd (testfs_remove_dirent s (cur_dir c) name) (\<lambda>(inode_nr, s1).
       if inode_nr < 0 then Ret (inode_nr, s1)
       else
         bnd (testfs_get_inode s1 inode_nr) (\<lambda>(p, s2).
         bnd (testfs_remove_inode s2 p) (\<lambda>s3.
         bnd (testfs_sync_inode s3 (cur_dir c)) (\<lambda>s4.
         Ret (0, s4)))))))"

definition cmd_stat :: "fs \<Rightarrow> shell_context \<Rightarrow> (int \<times> fs) res" where
  "cmd_stat s c =
    (if nargs c \<noteq> 2 then Ret (- EINVAL, s)
     else
       bnd (arg c 1) (\<lambda>name.
       bnd (testfs_dir_name_to_inode_nr s (cur_dir c) name) (\<lambda>(inode_nr, s1).
       if inode_nr < 0 then Ret (inode_nr, s1)
       else
         bnd (testfs_get_inode s1 inode_nr) (\<lambda>(p, s2).
         bnd (deref (iheap s2 p)) (\<lambda>ino.
         let s3 = puts s2 (name @ cstr '': i_nr = '' @ dec_int (i_nr ino) @ cstr '', i_type = '' @
                    dec_int (i_type (i_in ino)) @ cstr '', i_size = '' @
                    dec_int (to_u64 (i_size (i_in ino))) @ cstr '', block_count = '' @
                    dec_int (block_count (i_in ino)) @ [10]) in
         bnd (testfs_put_inode s3 p) (\<lambda>s4. Ret (0, s4)))))))"

end
