(* ===== verification/FS_DirSpec.thy ===== *)
theory FS_DirSpec
  imports FS_Dir
begin

text \<open>
  The specification of directories: the contents of a directory is the encoding of a list of
  entries, names with inode numbers, of which those with a negative number are free. The
  operations of \<^verbatim>\<open>fs/dir.c\<close> are shown to implement a look-up, an insertion and a deletion on
  that list, and these to satisfy the laws of a finite map from names to inode numbers.
\<close>

section \<open>Directories as lists of entries\<close>

type_synonym entry = "byte list \<times> int"

definition ent_size :: "entry \<Rightarrow> nat" where
  "ent_size e = length (fst e) + 9"

definition ent_mem :: "entry \<Rightarrow> mem" where
  "ent_mem e = dirent_mem (int (length (fst e)) + 1) (snd e) (fst e)"

definition ent_ok :: "entry \<Rightarrow> bool" where
  "ent_ok e \<longleftrightarrow> 0 \<notin> set (fst e) \<and> length (fst e) < 8192 \<and> in_s32 (snd e)"

definition dir_size :: "entry list \<Rightarrow> nat" where
  "dir_size es = sum_list (map ent_size es)"

primrec ents_at :: "mem \<Rightarrow> nat \<Rightarrow> entry list \<Rightarrow> bool" where
  "ents_at m off [] = True"
| "ents_at m off (e # es) \<longleftrightarrow> (\<forall>i < ent_size e. m (off + i) = ent_mem e i) \<and> ents_at m (off + ent_size e) es"

text \<open>The offsets a directory may reach without a double indirect block.\<close>

definition dir_data :: "fs \<Rightarrow> dinode \<Rightarrow> entry list \<Rightarrow> bool" where
  "dir_data s d es \<longleftrightarrow> i_type d = type_code I_DIR \<and> i_size d = int (dir_size es) \<and>
     dir_size es \<le> 16859136 \<and> list_all ent_ok es \<and> ents_at (fbyte s d) 0 es"

definition dir_ok :: "fs \<Rightarrow> nat \<Rightarrow> entry list \<Rightarrow> bool" where
  "dir_ok s p es \<longleftrightarrow> ready p s \<and> dir_data s (din s p) es"

lemmas dir_defs = dir_ok_def dir_data_def

lemma dir_size_simps [simp]:
  "dir_size [] = 0" "dir_size (e # es) = ent_size e + dir_size es" "dir_size (xs @ ys) = dir_size xs + dir_size ys"
  by (simp_all add: dir_size_def)

lemma ents_at_append [simp]: "ents_at m off (xs @ ys) \<longleftrightarrow> ents_at m off xs \<and> ents_at m (off + dir_size xs) ys"
  by (induction xs arbitrary: off) (auto simp: add.assoc)

lemma ents_at_cong:
  "(\<And>i. off \<le> i \<Longrightarrow> i < off + dir_size es \<Longrightarrow> m' i = m i) \<Longrightarrow> ents_at m' off es = ents_at m off es"
proof (induction es arbitrary: off)
  case (Cons e es)
  have "(\<forall>i < ent_size e. m' (off + i) = ent_mem e i) = (\<forall>i < ent_size e. m (off + i) = ent_mem e i)"
    using Cons.prems by simp
  moreover have "ents_at m' (off + ent_size e) es = ents_at m (off + ent_size e) es"
    using Cons.prems by (intro Cons.IH) simp
  ultimately show ?case by simp
qed simp

lemma ent_mem_head: "ent_ok e \<Longrightarrow> get_s32 (ent_mem e) 0 = int (length (fst e)) + 1"
  "ent_ok e \<Longrightarrow> get_s32 (ent_mem e) 4 = snd e"
proof -
  have g: "get_s32 (ent_mem e) k = get_s32 (put32 (put32 zero_mem 0 (int (length (fst e)) + 1)) 4 (snd e)) k" if "k + 4 \<le> 8" for k
    unfolding ent_mem_def dirent_mem_def using that by (intro get_32_cong) simp
  show "ent_ok e \<Longrightarrow> get_s32 (ent_mem e) 0 = int (length (fst e)) + 1"
    using g [of 0] by (simp add: codec_simps ent_ok_def)
  show "ent_ok e \<Longrightarrow> get_s32 (ent_mem e) 4 = snd e"
    using g [of 4] by (simp add: codec_simps ent_ok_def)
qed

lemma ent_mem_name: "i \<le> length (fst e) \<Longrightarrow> ent_mem e (8 + i) = (fst e @ [0]) ! i"
  by (simp add: ent_mem_def dirent_mem_def name_mem_def mem_of_list_def)

text \<open>The entry in memory and the name compared with a string.\<close>

definition dirent_of :: "entry \<Rightarrow> dirent \<Rightarrow> bool" where
  "dirent_of e d \<longleftrightarrow> d_name_len d = int (length (fst e)) + 1 \<and> d_inode_nr d = snd e \<and>
     (\<forall>i \<le> length (fst e). d_name d i = (fst e @ [0]) ! i)"

lemma name_eq_ok:
  assumes "\<And>j. j \<le> length nm \<Longrightarrow> m (i + j) = (nm @ [0]) ! j" "0 \<notin> set nm" "0 \<notin> set cs" "n = i + length nm + 1"
  shows "name_eq m n i cs = Ret (nm = cs)"
  using assms
proof (induction cs arbitrary: i nm)
  case Nil
  then show ?case using Nil.prems(1) [of 0] by (cases nm) auto
next
  case (Cons c cs)
  show ?case
  proof (cases nm)
    case Nil
    then show ?thesis using Cons.prems(1) [of 0] Cons.prems(3,4) by auto
  next
    case (Cons x xs)
    have "m (Suc i + j) = (xs @ [0]) ! j" if "j \<le> length xs" for j
      using Cons.prems(1) [of "Suc j"] that Cons by simp
    then have "name_eq m n (Suc i) cs = Ret (xs = cs)" using Cons Cons.prems(2-4) by (intro Cons.IH) auto
    then show ?thesis using Cons.prems(1) [of 0] Cons Cons.prems(4) by auto
  qed
qed

lemma strcmp_d_ok: "dirent_of e d \<Longrightarrow> ent_ok e \<Longrightarrow> 0 \<notin> set name \<Longrightarrow> strcmp_d d name = Ret (fst e = name)"
  unfolding strcmp_d_def by (rule name_eq_ok) (auto simp: dirent_of_def ent_ok_def)

lemma name_bytes_ok:
  assumes "\<And>j. j \<le> length nm \<Longrightarrow> m (i + j) = (nm @ [0]) ! j" "0 \<notin> set nm" "n = i + length nm + 1"
  shows "name_bytes m n i = Ret nm"
  using assms
proof (induction nm arbitrary: i)
  case Nil
  then show ?case using Nil.prems(1) [of 0] by (subst name_bytes.simps) simp
next
  case (Cons x xs)
  have "m (Suc i + j) = (xs @ [0]) ! j" if "j \<le> length xs" for j
    using Cons.prems(1) [of "Suc j"] that by simp
  then have "name_bytes m n (Suc i) = Ret xs" using Cons.prems(2,3) by (intro Cons.IH) auto
  then show ?case using Cons.prems(1) [of 0] Cons.prems(2,3) by (subst name_bytes.simps) auto
qed

section \<open>Reading entries\<close>

text \<open>Reading allocates one object per entry and changes nothing else.\<close>

definition bump :: "nat \<Rightarrow> fs \<Rightarrow> fs" where
  "bump n s = s\<lparr>malloc_n := malloc_n s + n\<rparr>"

lemma bump_simps [simp]:
  "sb (bump n s) = sb s" "dev (bump n s) = dev s" "iheap (bump n s) = iheap s" "hash_tbl (bump n s) = hash_tbl s"
  "inode_freemap (bump n s) = inode_freemap s" "block_freemap (bump n s) = block_freemap s"
  "malloc_ok (bump n s) = malloc_ok s" "malloc_n (bump n s) = malloc_n s + n" "sout (bump n s) = sout s"
  "junk (bump n s) = junk s" "bump 0 s = s" "bump n (bump k s) = bump (k + n) s"
  by (simp_all add: bump_def)

lemma bump_dblock [simp]: "dblock (bump n s) = dblock s"
  by (simp add: dblock_def fun_eq_iff)

lemma bump_views [simp]:
  "din (bump n s) = din s" "ublocks (bump n s) = ublocks s" "ibm (bump n s) = ibm s"
  "bbm (bump n s) = bbm s" "fbyte (bump n s) = fbyte s" "disk_inode (bump n s) = disk_inode s"
  "malloc_works (bump n s) = malloc_works s" "idirty (bump n s) = idirty s"
  by (simp_all add: din_def fun_eq_iff ublocks_def ibm_def bbm_def fbyte_def bmap_def lblock_def Let_def
      disk_inode_def malloc_works_def idirty_def)

lemma bump_inv [simp]: "sb_inv (bump n s) = sb_inv s" "ready p (bump n s) = ready p s" "dir_ok (bump n s) p es = dir_ok s p es"
proof -
  show a: "sb_inv (bump n s) = sb_inv s" by (rule sb_inv_cong) simp_all
  then show b: "ready p (bump n s) = ready p s" by (simp add: ready_def file_ok_def backed_def on_dev_def)
  then show "dir_ok (bump n s) p es = dir_ok s p es" by (simp add: dir_defs)
qed

lemma dir_live: "dir_ok s p es \<Longrightarrow> \<exists>ino. iheap s p = Some ino \<and> din s p = i_in ino"
  by (auto simp: dir_defs ready_def din_def)

lemma read_at:
  assumes d: "dir_ok s p es" and a: "a + n \<le> dir_size es" "0 < n" "n \<le> 8192"
  shows "testfs_read_data s p buf (int a) (int n) = Ret (int n, memcpy buf 0 (fbyte s (din s p)) a n)"
proof -
  have r: "ready p s" "i_size (din s p) = int (dir_size es)" "dir_size es \<le> 16859136"
    using d by (simp_all add: dir_defs)
  have N: "n = read_len (din s p) a n" using r(2) a(1) by (simp add: read_len_def)
  have m: "a mod 8192 + n < 16384" using a(3) mod_less_divisor [of 8192 a] by linarith
  have "copied_len a n = n"
  proof (cases "8192 < a mod 8192 + n")
    case True
    then have "(a mod 8192 + n) mod 8192 \<noteq> 0" using m by (simp add: mod_if)
    then show ?thesis by (simp add: copied_len_def mod_add_left_eq)
  qed (simp add: copied_len_def)
  moreover have "readable (din s p) (max (a div 8192) ((a + n - 1) div 8192))"
  proof -
    have "a div 8192 \<le> (a + n - 1) div 8192" using a(2) by (intro div_le_mono) simp
    moreover have "(a + n - 1) div 8192 < 2058" using a r(3) by (simp add: less_mult_imp_div_less)
    ultimately show ?thesis by (simp add: readable_def max_def)
  qed
  ultimately show ?thesis
    using read_data_ok [OF r(1) _ _ _ _ N, of buf] a r by (simp add: got_def)
qed

lemma next_dirent_end: "dir_ok s p es \<Longrightarrow> testfs_next_dirent s p (int (dir_size es)) = Ret (None, int (dir_size es), s)"
  using dir_live [of s p es]
  by (auto simp: testfs_next_dirent_def testfs_inode_get_type_def testfs_inode_get_size_def dir_defs)

lemma next_dirent_at:
  assumes d: "dir_ok s p (xs @ e # ys)" and m: "malloc_works s"
  obtains x where "testfs_next_dirent s p (int (dir_size xs)) = Ret (Some x, int (dir_size (xs @ [e])), bump 1 s)"
    "dirent_of e x" "ent_ok e"
proof -
  let ?a = "dir_size xs" and ?n = "length (fst e) + 1" and ?F = "fbyte s (din s p)"
  obtain ino where i: "iheap s p = Some ino" "din s p = i_in ino" using dir_live [OF d] by blast
  have k: "ent_ok e" "i_type (i_in ino) = type_code I_DIR" "i_size (i_in ino) = int (dir_size (xs @ e # ys))"
    and F: "\<And>k. k < ent_size e \<Longrightarrow> ?F (?a + k) = ent_mem e k"
    using d i(2) by (auto simp: dir_defs)
  have es: "ent_size e = 8 + ?n" by (simp add: ent_size_def)
  let ?h = "memcpy (junk s (malloc_n s)) 0 ?F ?a 8"
  have r1: "testfs_read_data s p (junk s (malloc_n s)) (int ?a) 8 = Ret (8, ?h)"
    using read_at [OF d, of ?a 8 "junk s (malloc_n s)"] es by simp
  have "get_s32 ?h j = get_s32 (ent_mem e) j" if "j + 4 \<le> 8" for j
    using that F es by (intro get_32_cong) simp
  then have h: "get_s32 ?h 0 = int ?n" "get_s32 ?h 4 = snd e" using ent_mem_head [OF k(1)] by simp_all
  have d1: "dir_ok (bump 1 s) p (xs @ e # ys)" using d by simp
  let ?nm = "memcpy (junk s (malloc_n s)) 0 ?F (?a + 8) ?n"
  have r2: "testfs_read_data (bump 1 s) p (junk s (malloc_n s)) (int ?a + 8) (int ?n) = Ret (int ?n, ?nm)"
    using read_at [OF d1, of "?a + 8" ?n "junk s (malloc_n s)"] es k(1) by (simp add: ent_ok_def add.commute)
  let ?x = "\<lparr>d_name_len = int ?n, d_inode_nr = snd e, d_name = ?nm\<rparr>"
  have mal: "c_malloc s = (Some (malloc_n s), bump 1 s)" using m by (simp add: c_malloc_def malloc_works_def bump_def)
  have run: "testfs_next_dirent s p (int ?a) = Ret (Some ?x, int ?a + 8 + int ?n, bump 1 s)"
    using i k(2,3) r1 h r2 mal es by (simp add: testfs_next_dirent_def testfs_inode_get_type_def testfs_inode_get_size_def)
  have "d_name ?x j = (fst e @ [0]) ! j" if "j \<le> length (fst e)" for j
    using that F [of "8 + j"] ent_mem_name [OF that] es by (simp add: add.assoc)
  then have "dirent_of e ?x" by (simp add: dirent_of_def)
  then show ?thesis using that run k(1) es by (simp add: add_ac)
qed

section \<open>The operations on the list of entries\<close>

definition ent_is :: "byte list \<Rightarrow> entry \<Rightarrow> bool" where
  "ent_is name e \<longleftrightarrow> 0 \<le> snd e \<and> fst e = name"

primrec ent_lookup :: "entry list \<Rightarrow> byte list \<Rightarrow> int option" where
  "ent_lookup [] name = None"
| "ent_lookup (e # es) name = (if ent_is name e then Some (snd e) else ent_lookup es name)"

text \<open>
  The first free entry whose name has the length of the new one is used again; an entry of the
  same name further ahead is not seen then.
\<close>

primrec ent_insert :: "entry list \<Rightarrow> byte list \<Rightarrow> int \<Rightarrow> entry list option" where
  "ent_insert [] name nr = Some [(name, nr)]"
| "ent_insert (e # es) name nr =
     (if ent_is name e then None
      else if snd e < 0 \<and> length (fst e) = length name then Some ((name, nr) # es)
      else map_option ((#) e) (ent_insert es name nr))"

primrec ent_delete :: "entry list \<Rightarrow> byte list \<Rightarrow> entry list" where
  "ent_delete [] name = []"
| "ent_delete (e # es) name = (if ent_is name e then (fst e, - 1) # es else e # ent_delete es name)"

text \<open>Every name is used once.\<close>

definition ent_unique :: "entry list \<Rightarrow> bool" where
  "ent_unique es \<longleftrightarrow> distinct (map fst (filter (\<lambda>e. 0 \<le> snd e) es))"

lemma ent_lookup_None_iff: "ent_lookup es name = None \<longleftrightarrow> (\<forall>e \<in> set es. \<not> ent_is name e)"
  by (induction es) auto

lemma ent_lookup_nonneg: "ent_lookup es name = Some k \<Longrightarrow> 0 \<le> k"
  by (induction es) (auto simp: ent_is_def split: if_splits)

lemma ent_insert_Some: "ent_lookup es name = None \<Longrightarrow> ent_insert es name nr \<noteq> None"
  by (induction es) (auto split: if_splits)

lemma ent_lookup_insert:
  "ent_insert es name nr = Some es' \<Longrightarrow> 0 \<le> nr \<Longrightarrow> ent_lookup es name = None \<Longrightarrow>
     ent_lookup es' = (ent_lookup es)(name \<mapsto> nr)"
proof (induction es arbitrary: es')
  case (Cons e es)
  show ?case
  proof (cases "snd e < 0 \<and> length (fst e) = length name")
    case True
    then show ?thesis using Cons.prems by (auto simp: fun_eq_iff ent_is_def split: if_splits)
  next
    case False
    then obtain es1 where es1: "ent_insert es name nr = Some es1" "es' = e # es1" "ent_lookup es name = None" "\<not> ent_is name e"
      using Cons.prems by (auto split: if_splits)
    then show ?thesis using Cons.IH [OF es1(1) Cons.prems(2)] by (auto simp: fun_eq_iff ent_is_def)
  qed
qed (auto simp: fun_eq_iff ent_is_def)

lemma used_names: "ent_lookup es name \<noteq> None \<longleftrightarrow> name \<in> set (map fst (filter (\<lambda>e. 0 \<le> snd e) es))"
  by (induction es) (auto simp: ent_is_def)

lemma ent_insert_set: "ent_insert es name nr = Some es' \<Longrightarrow> x \<in> set es' \<Longrightarrow> x = (name, nr) \<or> x \<in> set es"
  by (induction es arbitrary: es') (auto split: if_splits)

lemma ent_unique_insert:
  "ent_insert es name nr = Some es' \<Longrightarrow> ent_unique es \<Longrightarrow> ent_lookup es name = None \<Longrightarrow> ent_unique es'"
proof (induction es arbitrary: es')
  case (Cons e es)
  show ?case
  proof (cases "snd e < 0 \<and> length (fst e) = length name")
    case True
    then show ?thesis
      using Cons.prems used_names [of es name] by (auto simp: ent_unique_def ent_is_def split: if_splits)
  next
    case False
    then obtain es1 where es1: "ent_insert es name nr = Some es1" "es' = e # es1" "ent_lookup es name = None" "\<not> ent_is name e"
      using Cons.prems by (auto split: if_splits)
    have "set (map fst (filter (\<lambda>e. 0 \<le> snd e) es1)) \<subseteq> insert name (set (map fst (filter (\<lambda>e. 0 \<le> snd e) es)))"
      using ent_insert_set [OF es1(1)] by (fastforce simp: image_iff)
    moreover have "ent_unique es1" using Cons.IH [OF es1(1) _ es1(3)] Cons.prems(2) by (auto simp: ent_unique_def split: if_splits)
    ultimately show ?thesis using es1(2,4) Cons.prems(2) by (auto simp: ent_unique_def ent_is_def split: if_splits)
  qed
qed (auto simp: ent_unique_def)

lemma ent_lookup_delete: "ent_unique es \<Longrightarrow> ent_lookup (ent_delete es name) = (ent_lookup es)(name := None)"
proof (induction es)
  case (Cons e es)
  have u: "ent_unique es" using Cons.prems by (auto simp: ent_unique_def split: if_splits)
  show ?case
  proof (cases "ent_is name e")
    case True
    then have "ent_lookup es name = None"
      using Cons.prems used_names [of es name] by (auto simp: ent_unique_def ent_is_def)
    then show ?thesis using True by (auto simp: fun_eq_iff ent_is_def)
  next
    case False
    then show ?thesis using Cons.IH [OF u] by (auto simp: fun_eq_iff ent_is_def)
  qed
qed auto

lemma ent_unique_delete: "ent_unique es \<Longrightarrow> ent_unique (ent_delete es name)"
proof (induction es)
  case (Cons e es)
  have "set (map fst (filter (\<lambda>e. 0 \<le> snd e) (ent_delete es name))) \<subseteq> set (map fst (filter (\<lambda>e. 0 \<le> snd e) es))" for es
    by (induction es) auto
  then show ?case using Cons by (auto simp: ent_unique_def split: if_splits)
qed (simp add: ent_unique_def)

text \<open>The interface of a name space, and directories as one.\<close>

locale name_space =
  fixes inv :: "'d \<Rightarrow> bool" and lkp :: "'d \<Rightarrow> 'n \<Rightarrow> int option"
    and ins :: "'d \<Rightarrow> 'n \<Rightarrow> int \<Rightarrow> 'd option" and del :: "'d \<Rightarrow> 'n \<Rightarrow> 'd"
  assumes ins_ok: "inv d \<Longrightarrow> lkp d n = None \<Longrightarrow> 0 \<le> k \<Longrightarrow>
      \<exists>d'. ins d n k = Some d' \<and> inv d' \<and> lkp d' = (lkp d)(n \<mapsto> k)"
    and del_ok: "inv d \<Longrightarrow> inv (del d n) \<and> lkp (del d n) = (lkp d)(n := None)"
begin

lemma ins_del: "inv d \<Longrightarrow> lkp d n = None \<Longrightarrow> 0 \<le> k \<Longrightarrow> ins d n k = Some d' \<Longrightarrow> lkp (del d' n) = lkp d"
  using ins_ok [of d n k] del_ok [of d' n] by (auto simp: fun_upd_idem)

lemma rename_ok:
  assumes "inv d" "lkp d n = Some k" "lkp d m = None" "0 \<le> k" "n \<noteq> m"
  shows "\<exists>d'. ins (del d n) m k = Some d' \<and> inv d' \<and> lkp d' = (lkp d)(n := None, m \<mapsto> k)"
  using ins_ok [of "del d n" m k] del_ok [of d n] assms by auto

end

interpretation entries: name_space ent_unique ent_lookup ent_insert ent_delete
proof unfold_locales
  fix d :: "entry list" and n :: "byte list" and k :: int
  assume a: "ent_unique d" "ent_lookup d n = None" "0 \<le> k"
  obtain d' where d': "ent_insert d n k = Some d'" using ent_insert_Some [OF a(2)] by blast
  then show "\<exists>d'. ent_insert d n k = Some d' \<and> ent_unique d' \<and> ent_lookup d' = (ent_lookup d)(n \<mapsto> k)"
    using ent_lookup_insert [OF d' a(3,2)] ent_unique_insert [OF d' a(1,2)] by blast
next
  show "\<And>d n. ent_unique d \<Longrightarrow> ent_unique (ent_delete d n) \<and> ent_lookup (ent_delete d n) = (ent_lookup d)(n := None)"
    using ent_lookup_delete ent_unique_delete by blast
qed

section \<open>The walks of the source\<close>

lemma lookup_from_ok:
  assumes "dir_ok s p (xs @ ys)" "malloc_works s" "0 \<notin> set name"
  shows "\<exists>n. lookup_from s p name (int (dir_size xs)) =
    Ret (case ent_lookup ys name of Some k \<Rightarrow> k | None \<Rightarrow> - ENOENT, bump n s)"
  using assms
proof (induction ys arbitrary: xs s)
  case Nil
  then show ?case using next_dirent_end [of s p xs] by (subst lookup_from.simps) (auto intro: exI [of _ 0])
next
  case (Cons e ys)
  obtain x where x: "testfs_next_dirent s p (int (dir_size xs)) = Ret (Some x, int (dir_size (xs @ [e])), bump 1 s)"
    "dirent_of e x" "ent_ok e"
    using next_dirent_at [OF Cons.prems(1,2)] by blast
  then have nr: "d_inode_nr x = snd e" by (simp add: dirent_of_def)
  note c = strcmp_d_ok [OF x(2,3) Cons.prems(3)]
  show ?case
  proof (cases "ent_is name e")
    case True
    then have "lookup_from s p name (int (dir_size xs)) = Ret (snd e, bump 1 s)"
      using x(1) nr c by (subst lookup_from.simps) (simp add: ent_is_def)
    then show ?thesis using True by auto
  next
    case False
    have "\<exists>n. lookup_from (bump 1 s) p name (int (dir_size (xs @ [e]))) =
        Ret (case ent_lookup ys name of Some k \<Rightarrow> k | None \<Rightarrow> - ENOENT, bump n (bump 1 s))"
      using Cons.prems by (intro Cons.IH) simp_all
    moreover have "lookup_from s p name (int (dir_size xs)) = lookup_from (bump 1 s) p name (int (dir_size (xs @ [e])))"
      using False x(1) nr c by (subst lookup_from.simps) (auto simp: ent_is_def)
    ultimately show ?thesis using False by auto
  qed
qed

lemma dir_type: "dir_ok s p es \<Longrightarrow> testfs_inode_get_type s p = Ret (type_code I_DIR)"
  using dir_live [of s p es] by (auto simp: testfs_inode_get_type_def dir_defs)

lemma dir_name_ok:
  assumes "dir_ok s p es" "malloc_works s" "0 \<notin> set name"
  obtains n where "testfs_dir_name_to_inode_nr s p name =
    Ret (case ent_lookup es name of Some k \<Rightarrow> k | None \<Rightarrow> - ENOENT, bump n s)"
  using lookup_from_ok [of s p "[]" es name] assms dir_type [OF assms(1)]
  by (auto simp: testfs_dir_name_to_inode_nr_def)

text \<open>Where the scan of \<^verbatim>\<open>testfs_add_dirent\<close> ends: behind \<^verbatim>\<open>us\<close>, at the end or at an entry to be replaced.\<close>

definition add_spot :: "entry list \<Rightarrow> entry \<Rightarrow> bool \<Rightarrow> entry list \<Rightarrow> entry list \<Rightarrow> bool" where
  "add_spot ys e found us ys' \<longleftrightarrow>
     (if found then \<exists>f vs. ys = us @ f # vs \<and> length (fst f) = length (fst e) \<and> ys' = us @ e # vs
      else ys = us \<and> ys' = us @ [e])"

lemma add_spot_Cons: "add_spot ys e f us ys' \<Longrightarrow> add_spot (y # ys) e f (y # us) (y # ys')"
  by (auto simp: add_spot_def)

lemma add_scan_ok:
  assumes "dir_ok s p (xs @ ys)" "malloc_works s" "0 \<notin> set name"
  shows "\<exists>n f us. add_scan s p name (int (length name) + 1) (int (dir_size xs)) =
      Ret (if ent_insert ys name nr = None then - EEXIST else 0, f, int (dir_size (xs @ us)), bump n s) \<and>
    (\<forall>ys'. ent_insert ys name nr = Some ys' \<longrightarrow> add_spot ys (name, nr) f us ys')"
  using assms
proof (induction ys arbitrary: xs s)
  case Nil
  then have "add_scan s p name (int (length name) + 1) (int (dir_size xs)) = Ret (0, False, int (dir_size (xs @ [])), bump 0 s)"
    using next_dirent_end [of s p xs] by (subst add_scan.simps) simp
  moreover have "add_spot [] (name, nr) False [] [(name, nr)]" by (simp add: add_spot_def)
  ultimately show ?case by (intro exI [of _ 0] exI [of _ False] exI [of _ "[]"]) auto
next
  case (Cons e ys)
  obtain x where x: "testfs_next_dirent s p (int (dir_size xs)) = Ret (Some x, int (dir_size (xs @ [e])), bump 1 s)"
    "dirent_of e x" "ent_ok e"
    using next_dirent_at [OF Cons.prems(1,2)] by blast
  then have nr: "d_inode_nr x = snd e" "d_name_len x = int (length (fst e)) + 1" by (simp_all add: dirent_of_def)
  note c = strcmp_d_ok [OF x(2,3) Cons.prems(3)]
  consider "ent_is name e" | "snd e < 0" "length (fst e) = length name" | "\<not> ent_is name e" "\<not> (snd e < 0 \<and> length (fst e) = length name)"
    by blast
  then show ?case
  proof cases
    case 1
    then have "add_scan s p name (int (length name) + 1) (int (dir_size xs)) = Ret (- EEXIST, False, int (dir_size (xs @ [])), bump 1 s)"
      using x(1) nr c by (subst add_scan.simps) (simp add: ent_is_def)
    then show ?thesis using 1 by (intro exI [of _ 1] exI [of _ False] exI [of _ "[]"]) auto
  next
    case 2
    then have "add_scan s p name (int (length name) + 1) (int (dir_size xs)) = Ret (0, True, int (dir_size (xs @ [])), bump 1 s)"
      using x(1) nr c by (subst add_scan.simps) (simp add: ent_is_def)
    moreover have "add_spot (e # ys) (name, nr) True [] ((name, nr) # ys)" using 2 by (auto simp: add_spot_def)
    moreover have "\<not> ent_is name e" using 2 by (simp add: ent_is_def)
    ultimately show ?thesis using 2 by (intro exI [of _ 1] exI [of _ True] exI [of _ "[]"]) auto
  next
    case 3
    then have "add_scan s p name (int (length name) + 1) (int (dir_size xs)) =
        add_scan (bump 1 s) p name (int (length name) + 1) (int (dir_size (xs @ [e])))"
      using x(1) nr c by (subst add_scan.simps) (auto simp: ent_is_def)
    moreover have "dir_ok (bump 1 s) p ((xs @ [e]) @ ys)" "malloc_works (bump 1 s)" using Cons.prems by simp_all
    from Cons.IH [OF this Cons.prems(3)] obtain n f us where
      "add_scan (bump 1 s) p name (int (length name) + 1) (int (dir_size (xs @ [e]))) =
        Ret (if ent_insert ys name nr = None then - EEXIST else 0, f, int (dir_size ((xs @ [e]) @ us)), bump n (bump 1 s))"
      "\<forall>ys'. ent_insert ys name nr = Some ys' \<longrightarrow> add_spot ys (name, nr) f us ys'" by blast
    ultimately show ?thesis
      using 3 add_spot_Cons [of ys "(name, nr)" f us _ e]
      by (intro exI [of _ "1 + n"] exI [of _ f] exI [of _ "e # us"]) (auto split: if_splits)
  qed
qed

section \<open>Adding an entry\<close>

text \<open>A new entry at the end of the contents or over one of the same size.\<close>

lemma dir_written:
  assumes d: "dir_ok s p es" and sp: "add_spot es e f us es'" and e: "ent_ok e"
    and w: "written p s s' (dir_size us) (ent_size e) m" and m: "\<And>i. i < ent_size e \<Longrightarrow> m i = ent_mem e i"
    and z: "dir_size us + ent_size e \<le> 16859136"
  shows "dir_ok s' p es'"
proof -
  let ?F = "fbyte s (din s p)" and ?F' = "fbyte s' (din s' p)"
  have st: "ready p s'" "i_type (din s' p) = type_code I_DIR"
    "i_size (din s' p) = max (i_size (din s p)) (int (dir_size us + ent_size e))"
    using w d by (simp_all add: written_def fstep_def dir_defs)
  have F': "?F' i = (if dir_size us \<le> i \<and> i < dir_size us + ent_size e then m (i - dir_size us) else ?F i)" if "i < 34376597504" for i
    using w that by (auto simp: written_def wrote_bytes_def)
  have es: "ents_at ?F 0 es" "i_size (din s p) = int (dir_size es)" "list_all ent_ok es" "dir_size es \<le> 16859136"
    using d by (simp_all add: dir_defs)
  have new: "\<forall>i < ent_size e. ?F' (dir_size us + i) = ent_mem e i" using F' m z by simp
  show ?thesis
  proof (cases f)
    case True
    then obtain g vs where g: "es = us @ g # vs" "length (fst g) = length (fst e)" "es' = us @ e # vs"
      using sp by (auto simp: add_spot_def)
    have sz: "ent_size g = ent_size e" using g(2) by (simp add: ent_size_def)
    have "ents_at ?F' 0 us" "ents_at ?F' (dir_size us + ent_size e) vs"
      using es(1,4) F' g(1) sz
      by (simp_all add: ents_at_cong [of 0 us ?F' ?F] ents_at_cong [of "dir_size us + ent_size e" vs ?F' ?F])
    then show ?thesis using st es g sz e new by (simp add: dir_defs)
  next
    case False
    then have g: "es = us" "es' = us @ [e]" using sp by (auto simp: add_spot_def)
    have "ents_at ?F' 0 us" using es(1,4) F' g(1) by (simp add: ents_at_cong [of 0 us ?F' ?F])
    then show ?thesis using st es g e new z by (simp add: dir_defs)
  qed
qed

definition dir_room :: "fs \<Rightarrow> bool" where
  "dir_room s \<longleftrightarrow> int (card (ublocks s)) + 9 \<le> max_fs_blocks (sb s)"

lemma dir_write_ok:
  assumes d: "dir_ok s p es" and n: "0 < n" "n \<le> 8200" and a: "a + n \<le> 16859136" and r: "dir_room s"
  obtains s' where "testfs_write_data s p m (int a) (int n) = Ret (int n, s')" "written p s s' a n m"
    "\<And>k. a + n \<le> 8192 \<Longrightarrow> room s (Suc k) \<Longrightarrow> room s' k"
proof -
  have rd: "ready p s" using d by (simp add: dir_ok_def)
  have "n div 8192 \<le> 1" using n(2) by simp
  then have "int (n div 8192 + 2) \<le> 3" by (simp del: of_nat_div)
  moreover have "int (card (ublocks s)) + 3 * k \<le> max_fs_blocks (sb s)" if "k \<le> 3" for k
    using that r unfolding dir_room_def by linarith
  ultimately have "int (card (ublocks s)) + 3 * int (n div 8192 + 2) \<le> max_fs_blocks (sb s)" by blast
  moreover have "(a + n - 1) div 8192 < 2058" using a n(1) by (simp add: less_mult_imp_div_less)
  ultimately obtain s' where s': "testfs_write_data s p m (int a) (int n) = Ret (int n, s')" "written p s s' a n m"
    using write_data_ok [OF rd n(1), of a m] n a by auto
  moreover have "room s' k" if k: "a + n \<le> 8192" "room s (Suc k)" for k
  proof -
    have "a mod 8192 + n \<le> 8192" "a div 8192 = 0" using k(1) n(1) by simp_all
    then have "\<exists>s'. testfs_write_data s p m (int a) (int n) = Ret (int n, s') \<and> written p s s' a n m \<and> room s' k"
      using a k(2) by (intro write_data_single [OF rd n(1)]) (simp_all add: writable_def)
    then show ?thesis using s'(1) by auto
  qed
  ultimately show ?thesis using that by blast
qed

lemma add_dirent_ok:
  assumes d: "dir_ok s p es" and m: "malloc_works s" and nm: "0 \<notin> set name" "length name < 8192"
    and nr: "0 \<le> nr" "nr < 2147483648" and sz: "dir_size es + ent_size (name, nr) \<le> 16859136" and r: "dir_room s"
  shows "(\<exists>n. ent_insert es name nr = None \<and> testfs_add_dirent s p name nr = Ret (- EEXIST, bump n s)) \<or>
    (\<exists>es' s' n f us. ent_insert es name nr = Some es' \<and> testfs_add_dirent s p name nr = Ret (int (ent_size (name, nr)), s') \<and>
       dir_ok s' p es' \<and> written p (bump n s) s' (dir_size us) (ent_size (name, nr)) (ent_mem (name, nr)) \<and>
       (\<forall>k. dir_size es + ent_size (name, nr) \<le> 8192 \<longrightarrow> room s (Suc k) \<longrightarrow> room s' k))"
proof -
  obtain n f us where sc: "add_scan s p name (int (length name) + 1) 0 =
      Ret (if ent_insert es name nr = None then - EEXIST else 0, f, int (dir_size us), bump n s)"
    "\<And>ys'. ent_insert es name nr = Some ys' \<Longrightarrow> add_spot es (name, nr) f us ys'"
    using add_scan_ok [of s p "[]" es name nr] d m nm(1) by (auto simp del: ent_insert.simps)
  have len: "to_s32 (int (length name) + 1) = int (length name) + 1" using nm(2) by simp
  have t: "testfs_inode_get_type s p = Ret (type_code I_DIR)" by (rule dir_type [OF d])
  show ?thesis
  proof (cases "ent_insert es name nr")
    case None
    then show ?thesis using sc(1) t len by (auto simp: testfs_add_dirent_def EEXIST_def)
  next
    case (Some es')
    note sp = sc(2) [OF Some]
    have us: "dir_size us + ent_size (name, nr) \<le> 16859136" "f \<or> us = es" "dir_size us \<le> dir_size es"
      using sp sz by (auto simp: add_spot_def ent_size_def split: if_splits)
    let ?s1 = "bump n s"
    have size: "testfs_inode_get_size ?s1 p = Ret (int (dir_size es))"
      using dir_live [OF d] d by (auto simp: testfs_inode_get_size_def dir_defs)
    have mal: "c_malloc ?s1 = (Some (malloc_n ?s1), bump (Suc n) s)"
      using m by (simp add: c_malloc_def malloc_works_def bump_def)
    have d2: "dir_ok (bump (Suc n) s) p es" and r2: "dir_room (bump (Suc n) s)" using d r by (simp_all add: dir_room_def)
    have sz0: "0 < ent_size (name, nr)" "ent_size (name, nr) \<le> 8200" using nm(2) by (simp_all add: ent_size_def)
    obtain s' where s': "testfs_write_data (bump (Suc n) s) p (ent_mem (name, nr)) (int (dir_size us)) (int (ent_size (name, nr))) =
        Ret (int (ent_size (name, nr)), s')"
      "written p (bump (Suc n) s) s' (dir_size us) (ent_size (name, nr)) (ent_mem (name, nr))"
      "\<And>k. dir_size us + ent_size (name, nr) \<le> 8192 \<Longrightarrow> room (bump (Suc n) s) (Suc k) \<Longrightarrow> room s' k"
      by (rule dir_write_ok [OF d2 sz0 us(1) r2]) blast
    have rm: "room s' k" if "dir_size es + ent_size (name, nr) \<le> 8192" "room s (Suc k)" for k
      using s'(3) [of k] that us(3) by (simp add: room_def)
    have e: "ent_ok (name, nr)" using nm nr by (simp add: ent_ok_def in_s32_def)
    have "dir_ok s' p es'" by (rule dir_written [OF d2 sp e s'(2) _ us(1)]) simp
    moreover have "testfs_add_dirent s p name nr = Ret (int (ent_size (name, nr)), s')"
      using sc(1) Some t len size mal us s'(1) nr
      by (auto simp: testfs_add_dirent_def testfs_write_dirent_def ent_mem_def ent_size_def add_ac)
    ultimately show ?thesis using Some s'(2) rm by blast
  qed
qed

section \<open>Removing an entry\<close>

definition skippable :: "entry \<Rightarrow> bool" where
  "skippable e \<longleftrightarrow> snd e < 0 \<or> fst e = cstr ''.'' \<or> fst e = cstr ''..''"

lemma cstr_dots [simp]: "cstr ''.'' = [46]" "cstr ''..'' = [46, 46]"
  by (simp_all add: cstr_def of_char_def)

lemma allowed_from_ok:
  assumes "dir_ok s p (xs @ ys)" "malloc_works s"
  shows "\<exists>n. allowed_from s p (int (dir_size xs)) =
    Ret (if list_all skippable ys then 0 else - ENOTEMPTY, bump n s)"
  using assms
proof (induction ys arbitrary: xs s)
  case Nil
  then show ?case using next_dirent_end [of s p xs] by (subst allowed_from.simps) (auto intro: exI [of _ 0])
next
  case (Cons e ys)
  obtain x where x: "testfs_next_dirent s p (int (dir_size xs)) = Ret (Some x, int (dir_size (xs @ [e])), bump 1 s)"
    "dirent_of e x" "ent_ok e"
    using next_dirent_at [OF Cons.prems] by blast
  then have nr: "d_inode_nr x = snd e" by (simp add: dirent_of_def)
  have c: "strcmp_d x [46] = Ret (fst e = [46])" "strcmp_d x [46, 46] = Ret (fst e = [46, 46])"
    using strcmp_d_ok [OF x(2,3)] by simp_all
  show ?case
  proof (cases "skippable e")
    case True
    have "dir_ok (bump 1 s) p ((xs @ [e]) @ ys)" "malloc_works (bump 1 s)" using Cons.prems by simp_all
    from Cons.IH [OF this] obtain n where
      "allowed_from (bump 1 s) p (int (dir_size (xs @ [e]))) = Ret (if list_all skippable ys then 0 else - ENOTEMPTY, bump n (bump 1 s))"
      by blast
    moreover have "allowed_from s p (int (dir_size xs)) = allowed_from (bump 1 s) p (int (dir_size (xs @ [e])))"
      using True x(1) nr c by (subst allowed_from.simps) (auto simp: skippable_def)
    ultimately show ?thesis using True by auto
  next
    case False
    then have "allowed_from s p (int (dir_size xs)) = Ret (- ENOTEMPTY, bump 1 s)"
      using x(1) nr c by (subst allowed_from.simps) (simp add: skippable_def)
    then show ?thesis using False by auto
  qed
qed

lemma find_from_ok:
  assumes "dir_ok s p (xs @ ys)" "malloc_works s" "\<exists>e \<in> set ys. snd e = k"
  shows "\<exists>n us nm vs x. ys = us @ (nm, k) # vs \<and> (\<forall>e \<in> set us. snd e \<noteq> k) \<and> dirent_of (nm, k) x \<and> ent_ok (nm, k) \<and>
    find_from s p k (int (dir_size xs)) = Ret (Some x, bump n s)"
  using assms
proof (induction ys arbitrary: xs s)
  case (Cons e ys)
  obtain x where x: "testfs_next_dirent s p (int (dir_size xs)) = Ret (Some x, int (dir_size (xs @ [e])), bump 1 s)"
    "dirent_of e x" "ent_ok e"
    using next_dirent_at [OF Cons.prems(1,2)] by blast
  then have nr: "d_inode_nr x = snd e" by (simp add: dirent_of_def)
  show ?case
  proof (cases "snd e = k")
    case True
    then have "find_from s p k (int (dir_size xs)) = Ret (Some x, bump 1 s)"
      using x(1) nr by (subst find_from.simps) simp
    then show ?thesis
      using True x(2,3) by (intro exI [of _ 1] exI [of _ "[]"] exI [of _ "fst e"] exI [of _ ys] exI [of _ x]) (auto simp: prod_eq_iff)
  next
    case False
    have "dir_ok (bump 1 s) p ((xs @ [e]) @ ys)" "malloc_works (bump 1 s)" "\<exists>e \<in> set ys. snd e = k" using Cons.prems False by simp_all
    from Cons.IH [OF this] obtain n us nm vs y where
      y: "ys = us @ (nm, k) # vs" "\<forall>e \<in> set us. snd e \<noteq> k" "dirent_of (nm, k) y" "ent_ok (nm, k)"
        "find_from (bump 1 s) p k (int (dir_size (xs @ [e]))) = Ret (Some y, bump n (bump 1 s))" by blast
    moreover have "find_from s p k (int (dir_size xs)) = find_from (bump 1 s) p k (int (dir_size (xs @ [e])))"
      using False x(1) nr by (subst find_from.simps) simp
    ultimately show ?thesis
      using False by (intro exI [of _ "1 + n"] exI [of _ "e # us"] exI [of _ nm] exI [of _ vs] exI [of _ y]) auto
  qed
qed simp

lemma remove_scan_miss:
  assumes "dir_ok s p (xs @ ys)" "malloc_works s" "0 \<notin> set name" "ent_lookup ys name = None"
  shows "\<exists>n. remove_scan s p name (int (dir_size xs)) = Ret (- ENOENT, bump n s)"
  using assms
proof (induction ys arbitrary: xs s)
  case Nil
  then show ?case using next_dirent_end [of s p xs] by (subst remove_scan.simps) (auto intro: exI [of _ 0])
next
  case (Cons e ys)
  obtain x where x: "testfs_next_dirent s p (int (dir_size xs)) = Ret (Some x, int (dir_size (xs @ [e])), bump 1 s)"
    "dirent_of e x" "ent_ok e"
    using next_dirent_at [OF Cons.prems(1,2)] by blast
  note c = strcmp_d_ok [OF x(2,3) Cons.prems(3)]
  have "\<exists>n. remove_scan (bump 1 s) p name (int (dir_size (xs @ [e]))) = Ret (- ENOENT, bump n (bump 1 s))"
    using Cons.prems by (intro Cons.IH) (simp_all split: if_splits)
  moreover have "remove_scan s p name (int (dir_size xs)) = remove_scan (bump 1 s) p name (int (dir_size (xs @ [e])))"
    using Cons.prems(4) x(1,2) c by (subst remove_scan.simps) (auto simp: ent_is_def dirent_of_def split: if_splits)
  ultimately show ?case by auto
qed

text \<open>What happens to the entry that was found.\<close>

definition remove_found :: "fs \<Rightarrow> nat \<Rightarrow> dirent \<Rightarrow> int \<Rightarrow> (int \<times> fs) res" where
  "remove_found s p d offset =
    bnd (testfs_remove_dirent_allowed s (d_inode_nr d)) (\<lambda>(ret, s1).
    if ret < 0 then Ret (ret, s1)
    else
      bnd (testfs_write_data s1 p (dirent_bytes (d\<lparr>d_inode_nr := INVALID_INODE_NR\<rparr>)) offset
             (int SIZEOF_DIRENT + d_name_len d)) (\<lambda>(ret', s2).
      Ret (if ret' \<ge> 0 then d_inode_nr d else ret', s2)))"

lemma remove_scan_hit:
  assumes "dir_ok s p (xs @ ys)" "malloc_works s" "0 \<notin> set name" "ent_lookup ys name = Some k"
  shows "\<exists>n us vs x. ys = us @ (name, k) # vs \<and> ent_delete ys name = us @ (name, - 1) # vs \<and> dirent_of (name, k) x \<and>
    ent_ok (name, k) \<and> remove_scan s p name (int (dir_size xs)) = remove_found (bump n s) p x (int (dir_size (xs @ us)))"
  using assms
proof (induction ys arbitrary: xs s)
  case (Cons e ys)
  obtain x where x: "testfs_next_dirent s p (int (dir_size xs)) = Ret (Some x, int (dir_size (xs @ [e])), bump 1 s)"
    "dirent_of e x" "ent_ok e"
    using next_dirent_at [OF Cons.prems(1,2)] by blast
  then have nr: "d_inode_nr x = snd e" by (simp add: dirent_of_def)
  note c = strcmp_d_ok [OF x(2,3) Cons.prems(3)]
  show ?case
  proof (cases "ent_is name e")
    case True
    then have e: "e = (name, k)" "0 \<le> k" using Cons.prems(4) by (auto simp: ent_is_def prod_eq_iff)
    have "remove_scan s p name (int (dir_size xs)) = remove_found (bump 1 s) p x (int (dir_size xs))"
      using True x(1) nr c by (subst remove_scan.simps) (simp add: ent_is_def remove_found_def Let_def cong: if_cong)
    then show ?thesis
      using True x(2,3) e by (intro exI [of _ 1] exI [of _ "[]"] exI [of _ ys] exI [of _ x]) auto
  next
    case False
    have "dir_ok (bump 1 s) p ((xs @ [e]) @ ys)" "malloc_works (bump 1 s)" "ent_lookup ys name = Some k"
      using Cons.prems False by simp_all
    from Cons.IH [OF this(1,2) Cons.prems(3) this(3)] obtain n us vs y where
      "ys = us @ (name, k) # vs" "ent_delete ys name = us @ (name, - 1) # vs" "dirent_of (name, k) y" "ent_ok (name, k)"
      "remove_scan (bump 1 s) p name (int (dir_size (xs @ [e]))) = remove_found (bump n (bump 1 s)) p y (int (dir_size ((xs @ [e]) @ us)))"
      by blast
    moreover have "remove_scan s p name (int (dir_size xs)) = remove_scan (bump 1 s) p name (int (dir_size (xs @ [e])))"
      using False x(1) nr c by (subst remove_scan.simps) (auto simp: ent_is_def)
    ultimately show ?thesis
      using False by (intro exI [of _ "1 + n"] exI [of _ "e # us"] exI [of _ vs] exI [of _ y]) auto
  qed
qed simp

text \<open>States that differ in the address of the next object and the order of the hash table only.\<close>

definition same_view :: "fs \<Rightarrow> fs \<Rightarrow> bool" where
  "same_view s s' \<longleftrightarrow> sb s' = sb s \<and> dev s' = dev s \<and> inode_freemap s' = inode_freemap s \<and>
     block_freemap s' = block_freemap s \<and> iheap s' = iheap s \<and> malloc_ok s' = malloc_ok s \<and> sout s' = sout s \<and>
     malloc_n s \<le> malloc_n s'"

lemma same_view_simps:
  assumes "same_view s s'"
  shows "din s' = din s" "dblock s' = dblock s" "ublocks s' = ublocks s" "ibm s' = ibm s" "bbm s' = bbm s"
    "fbyte s' = fbyte s" "disk_inode s' = disk_inode s" "malloc_works s' = malloc_works s" "idirty s' = idirty s"
    "sb_inv s' = sb_inv s" "ready p s' = ready p s" "dir_ok s' p es = dir_ok s p es" "dir_room s' = dir_room s"
    "iclean s' = iclean s" "sb s' = sb s" "iheap s' = iheap s" "sout s' = sout s" "dir_data s' d es = dir_data s d es"
    "file_ok s' d = file_ok s d" "backed s' d X = backed s d X"
proof -
  have e: "sb s' = sb s" "dev s' = dev s" "inode_freemap s' = inode_freemap s" "block_freemap s' = block_freemap s"
    "iheap s' = iheap s" "malloc_ok s' = malloc_ok s" "sout s' = sout s"
    using assms by (simp_all add: same_view_def)
  have db: "dblock s' = dblock s" by (simp add: dblock_def fun_eq_iff e)
  have eq: "din s' = din s" "ublocks s' = ublocks s" "ibm s' = ibm s" "bbm s' = bbm s"
    "fbyte s' = fbyte s" "disk_inode s' = disk_inode s" "malloc_works s' = malloc_works s" "idirty s' = idirty s"
    by (simp_all add: din_def fun_eq_iff ublocks_def ibm_def bbm_def fbyte_def bmap_def lblock_def Let_def
        disk_inode_def malloc_works_def idirty_def e db)
  have sbi: "sb_inv s' = sb_inv s" by (rule sb_inv_cong) (simp_all add: e)
  have f: "file_ok s' d = file_ok s d" "backed s' d X = backed s d X" for d X
    by (simp_all add: file_ok_def backed_def on_dev_def e eq db)
  have r: "ready p s' = ready p s" for p by (simp add: ready_def sbi f eq e)
  have dd: "dir_data s' d es = dir_data s d es" for d es by (simp add: dir_data_def eq)
  show "din s' = din s" "dblock s' = dblock s" "ublocks s' = ublocks s" "ibm s' = ibm s" "bbm s' = bbm s"
    "fbyte s' = fbyte s" "disk_inode s' = disk_inode s" "malloc_works s' = malloc_works s" "idirty s' = idirty s"
    "sb_inv s' = sb_inv s" "ready p s' = ready p s" "dir_ok s' p es = dir_ok s p es" "dir_room s' = dir_room s"
    "iclean s' = iclean s" "sb s' = sb s" "iheap s' = iheap s" "sout s' = sout s" "dir_data s' d es = dir_data s d es"
    "file_ok s' d = file_ok s d" "backed s' d X = backed s d X"
    by (simp_all add: e eq db sbi f r dd dir_ok_def dir_room_def iclean_def fun_eq_iff)
qed

lemma bump_fs_inv [simp]: "fs_inv s \<Longrightarrow> fs_inv (bump n s)"
  by (auto simp: fs_inv_def itab_inv_def tbl_ok_def inode_ok_def) (meson trans_less_add1)

lemma same_view_bump [simp]: "same_view s (bump n s)"
  by (simp add: same_view_def)

text \<open>Opening an inode, whether it is in memory or not.\<close>

lemma get_inode_view:
  assumes inv: "fs_inv s" and nr: "valid_inr nr"
  obtains q s1 ino where "testfs_get_inode s nr = Ret (q, s1)" "fs_inv s1" "iheap s1 = (iheap s)(q := Some ino)"
    "i_nr ino = nr" "i_in ino = ival s nr" "sb s1 = sb s" "dev s1 = dev s" "inode_freemap s1 = inode_freemap s"
    "block_freemap s1 = block_freemap s" "malloc_ok s1 = malloc_ok s" "sout s1 = sout s" "malloc_n s \<le> malloc_n s1"
    "iheap s q = None \<and> i_count ino = 1 \<and> \<not> i_dirty ino \<or>
     (\<exists>i0. iheap s q = Some i0 \<and> 0 < i_count i0 \<and> ino = i0\<lparr>i_count := i_count i0 + 1\<rparr>)"
proof (cases "\<exists>p ino. iheap s p = Some ino \<and> i_nr ino = nr")
  case True
  then obtain p i0 where p: "iheap s p = Some i0" "i_nr i0 = nr" by blast
  have tab: "itab_inv s" using inv by (simp add: fs_inv_def)
  let ?i = "i0\<lparr>i_count := i_count i0 + 1\<rparr>"
  have "fs_inv (iset s p ?i)"
    using inv itab_live [OF tab p(1)] itab_inv_iset [OF tab p(1), of ?i] by (simp add: fs_inv_def malloc_works_def inode_ok_def)
  then show ?thesis
    using get_inode_hit [OF tab p(1)] p ival_live [OF tab p(1)] itab_live [OF tab p(1)]
    by (intro that [of p "iset s p ?i" ?i]) (simp_all add: inode_ok_def)
next
  case False
  then have none: "\<And>p ino. iheap s p = Some ino \<Longrightarrow> i_nr ino \<noteq> nr" by blast
  have i: "itab_inv s" "sb_inv s" "malloc_ok s (malloc_n s)" using inv by (simp_all add: fs_inv_def malloc_works_def)
  have g: "testfs_get_inode s nr = Ret (malloc_n s, loaded s nr)" by (rule get_inode_miss [OF i(1,2) nr i(3) none])
  have "iheap s (malloc_n s) = None"
    using itab_live [OF i(1), of "malloc_n s"] by (cases "iheap s (malloc_n s)") (auto simp: inode_ok_def)
  moreover have "fs_inv (loaded s nr)" using get_inode_ok [OF inv nr] g by auto
  ultimately show ?thesis
    using g ival_none [OF i(1) none]
    by (intro that [of "malloc_n s" "loaded s nr" "fresh_inode s nr"]) (simp_all add: fresh_inode_def)
qed

lemma get_put_view:
  assumes inv: "fs_inv s" and nr: "valid_inr nr" and c: "iclean s nr"
  obtains q s1 where "testfs_get_inode s nr = Ret (q, s1)" "fs_inv s1" "din s1 q = ival s nr" "iheap s1 q \<noteq> None" "sb s1 = sb s"
    "dev s1 = dev s" "inode_freemap s1 = inode_freemap s" "block_freemap s1 = block_freemap s" "malloc_works s1"
    "\<And>n. \<exists>s2. testfs_put_inode (bump n s1) q = Ret s2 \<and> fs_inv s2 \<and> same_view s s2"
proof -
  obtain q s1 ino where g: "testfs_get_inode s nr = Ret (q, s1)" "fs_inv s1" "iheap s1 = (iheap s)(q := Some ino)"
    "i_nr ino = nr" "i_in ino = ival s nr" "sb s1 = sb s" "dev s1 = dev s" "inode_freemap s1 = inode_freemap s"
    "block_freemap s1 = block_freemap s" "malloc_ok s1 = malloc_ok s" "sout s1 = sout s" "malloc_n s \<le> malloc_n s1"
    "iheap s q = None \<and> i_count ino = 1 \<and> \<not> i_dirty ino \<or>
     (\<exists>i0. iheap s q = Some i0 \<and> 0 < i_count i0 \<and> ino = i0\<lparr>i_count := i_count i0 + 1\<rparr>)"
    by (rule get_inode_view [OF inv nr])
  have cl: "\<not> i_dirty ino" using c g(4,13) by (auto simp: iclean_def)
  have "\<exists>s2. testfs_put_inode (bump n s1) q = Ret s2 \<and> fs_inv s2 \<and> same_view s s2" for n
  proof -
    have "fs_inv (bump n s1)" "iheap (bump n s1) q = Some ino" using g(2,3) by simp_all
    then have tab: "itab_inv (bump n s1)" "sb_inv (bump n s1)" "malloc_works (bump n s1)" by (simp_all add: fs_inv_def)
    obtain s2 where s2: "testfs_put_inode (bump n s1) q = Ret s2" "itab_inv s2"
      "iheap s2 = (iheap (bump n s1))(q := if i_count ino = 1 then None else Some (ino\<lparr>i_count := i_count ino - 1\<rparr>))"
      "sb s2 = sb (bump n s1)" "dev s2 = dev (bump n s1)" "inode_freemap s2 = inode_freemap (bump n s1)"
      "block_freemap s2 = block_freemap (bump n s1)" "malloc_n s2 = malloc_n (bump n s1)" "malloc_ok s2 = malloc_ok (bump n s1)"
      "sout s2 = sout (bump n s1)"
      by (rule put_inode_ok [OF tab(1) \<open>iheap (bump n s1) q = Some ino\<close> cl])
    have "iheap s2 = iheap s" using s2(3) g(3,13) by (auto simp: fun_eq_iff)
    then have "same_view s s2" using s2 g by (simp add: same_view_def)
    moreover have "fs_inv s2" using s2 tab(2,3) sb_inv_cong [of s2 "bump n s1"] by (simp add: fs_inv_def malloc_works_def)
    ultimately show ?thesis using s2(1) by blast
  qed
  then show ?thesis using that [of q s1] g by (simp add: din_def fs_inv_def)
qed

text \<open>What may be removed: a file, or a directory with no entries but the two of its own.\<close>

definition removable :: "fs \<Rightarrow> int \<Rightarrow> int \<Rightarrow> bool" where
  "removable s nr ret \<longleftrightarrow> (i_type (ival s nr) \<noteq> type_code I_DIR \<and> ret = 0) \<or>
     (\<exists>es. file_ok s (ival s nr) \<and> backed s (ival s nr) {} \<and> dir_data s (ival s nr) es \<and>
        ret = (if list_all skippable es then 0 else - ENOTEMPTY))"

lemma remove_allowed_ok:
  assumes inv: "fs_inv s" and nr: "valid_inr nr" and c: "iclean s nr" and rm: "removable s nr ret"
  obtains s' where "testfs_remove_dirent_allowed s nr = Ret (ret, s')" "fs_inv s'" "same_view s s'"
proof -
  obtain q s1 where g: "testfs_get_inode s nr = Ret (q, s1)" "fs_inv s1" "din s1 q = ival s nr" "iheap s1 q \<noteq> None" "sb s1 = sb s"
    "dev s1 = dev s" "inode_freemap s1 = inode_freemap s" "block_freemap s1 = block_freemap s" "malloc_works s1"
    "\<And>n. \<exists>s2. testfs_put_inode (bump n s1) q = Ret s2 \<and> fs_inv s2 \<and> same_view s s2"
    by (rule get_put_view [OF inv nr c]) blast
  have t: "testfs_inode_get_type s1 q = Ret (i_type (ival s nr))" using g(3,4) by (auto simp: testfs_inode_get_type_def din_def)
  have "\<exists>n. (if i_type (ival s nr) \<noteq> type_code I_DIR then Ret (0, s1) else allowed_from s1 q 0) = Ret (ret, bump n s1)"
  proof (cases "i_type (ival s nr) \<noteq> type_code I_DIR")
    case True
    then have "ret = 0" using rm by (auto simp: removable_def dir_data_def)
    then show ?thesis using True by (auto intro: exI [of _ 0])
  next
    case False
    then obtain es where es: "file_ok s (ival s nr)" "backed s (ival s nr) {}" "dir_data s (ival s nr) es"
      "ret = (if list_all skippable es then 0 else - ENOTEMPTY)" using rm by (auto simp: removable_def)
    have db: "dblock s1 = dblock s" by (simp add: dblock_def fun_eq_iff g(6))
    have "fbyte s1 = fbyte s" "ublocks s1 = ublocks s"
      by (simp_all add: fbyte_def bmap_def lblock_def fun_eq_iff Let_def ublocks_def bbm_def g(8) db)
    then have "dir_ok s1 q ([] @ es)"
      using es g db by (simp add: dir_ok_def dir_data_def ready_def file_ok_def backed_def on_dev_def fs_inv_def)
    from allowed_from_ok [OF this g(9)] show ?thesis using False es(4) by simp
  qed
  then obtain n where n: "(if i_type (ival s nr) \<noteq> type_code I_DIR then Ret (0, s1) else allowed_from s1 q 0) = Ret (ret, bump n s1)" by blast
  obtain s2 where "testfs_put_inode (bump n s1) q = Ret s2" "fs_inv s2" "same_view s s2" using g(10) by blast
  then show ?thesis using that g(1) t n by (simp add: testfs_remove_dirent_allowed_def)
qed

lemma bump_ival [simp]: "ival (bump n s) = ival s"
proof -
  have "hash_walk (bump n s) nr ps = hash_walk s nr ps" for nr ps by (induction ps) (simp_all cong: if_cong)
  then have "inode_hash_find (bump n s) = inode_hash_find s" by (simp add: inode_hash_find_def fun_eq_iff)
  then show ?thesis by (simp add: ival_def fun_eq_iff split: res.split option.split)
qed

lemma dirent_bytes_ent:
  assumes "dirent_of e d" "i < ent_size e"
  shows "dirent_bytes (d\<lparr>d_inode_nr := k\<rparr>) i = ent_mem (fst e, k) i"
proof (cases "i < 8")
  case False
  then have j: "i = 8 + (i - 8)" "i - 8 \<le> length (fst e)" using assms(2) by (auto simp: ent_size_def)
  then obtain j where j: "i = 8 + j" "j \<le> length (fst e)" by blast
  have "ent_mem (fst e, k) (8 + j) = (fst e @ [0]) ! j" using ent_mem_name [of j "(fst e, k)"] j(2) by simp
  then show ?thesis using assms(1) j by (simp add: dirent_bytes_def dirent_of_def)
qed (use assms(1) in \<open>simp add: dirent_bytes_def ent_mem_def dirent_mem_def dirent_of_def\<close>)

lemma written_fs_inv:
  assumes "fs_inv s" "ready p s" "written p s s' a n m"
  shows "fs_inv s'"
proof -
  have "fblocks (dblock s) (din s p) \<union> fresh s \<subseteq> {146..}"
    using assms(2) ublocks_bounds [of s] by (auto simp: ready_def file_ok_def fresh_def)
  then show ?thesis using assms(3) by (intro iupd_fs_inv [OF assms(1)]) (auto simp: written_def fstep_def)
qed

lemma remove_dirent_ok:
  assumes inv: "fs_inv s" and d: "dir_ok s p es" and nm: "0 \<notin> set name" "name \<noteq> cstr ''.''" "name \<noteq> cstr ''..''"
    and lk: "ent_lookup es name = Some k" and k: "valid_inr k" "iclean s k" and rm: "removable s k ret" and r: "dir_room s"
  shows "ret < 0 \<and> (\<exists>s'. testfs_remove_dirent s p name = Ret (ret, s') \<and> fs_inv s' \<and> same_view s s') \<or>
    ret = 0 \<and> (\<exists>s1 s' us. testfs_remove_dirent s p name = Ret (k, s') \<and> fs_inv s' \<and> same_view s s1 \<and>
      dir_ok s' p (ent_delete es name) \<and> written p s1 s' (dir_size us) (ent_size (name, - 1)) (ent_mem (name, - 1)))"
proof -
  have m: "malloc_works s" using inv by (simp add: fs_inv_def)
  obtain n us vs x where x: "es = us @ (name, k) # vs" "ent_delete es name = us @ (name, - 1) # vs" "dirent_of (name, k) x"
    "ent_ok (name, k)" "remove_scan s p name 0 = remove_found (bump n s) p x (int (dir_size us))"
    using remove_scan_hit [of s p "[]" es name k] d m nm(1) lk by auto
  have "removable (bump n s) k ret" using rm by (simp add: removable_def dir_data_def file_ok_def backed_def on_dev_def)
  moreover have "iclean (bump n s) k" using k(2) by (simp add: iclean_def)
  ultimately obtain s1 where s1: "testfs_remove_dirent_allowed (bump n s) k = Ret (ret, s1)" "fs_inv s1" "same_view (bump n s) s1"
    using remove_allowed_ok [of "bump n s" k ret] inv k(1) by auto
  have v: "same_view s s1" using s1(3) by (simp add: same_view_def)
  have run: "testfs_remove_dirent s p name = remove_found (bump n s) p x (int (dir_size us))"
    using x(5) nm by (simp add: testfs_remove_dirent_def del: cstr_dots)
  have dx: "d_inode_nr x = k" "d_name_len x = int (length name) + 1" using x(3) by (simp_all add: dirent_of_def)
  have len: "length name < 8192" "0 \<notin> set name" using x(4) by (simp_all add: ent_ok_def)
  have "ret < 0 \<or> ret = 0" using rm by (auto simp: removable_def ENOTEMPTY_def split: if_splits)
  then show ?thesis
  proof
    assume "ret < 0"
    then show ?thesis using run s1 v dx by (auto simp: remove_found_def)
  next
    assume 0: "ret = 0"
    have d1: "dir_ok s1 p es" "dir_room s1" using d r same_view_simps [OF v] by simp_all
    let ?e = "(name, - 1)" and ?m = "dirent_bytes (x\<lparr>d_inode_nr := INVALID_INODE_NR\<rparr>)"
    have sz0: "0 < ent_size ?e" "ent_size ?e \<le> 8200" using len by (simp_all add: ent_size_def)
    have sz: "dir_size us + ent_size ?e \<le> 16859136" using d x(1) by (simp add: dir_ok_def dir_data_def ent_size_def)
    obtain s' where s': "testfs_write_data s1 p ?m (int (dir_size us)) (int (ent_size ?e)) = Ret (int (ent_size ?e), s')"
      "written p s1 s' (dir_size us) (ent_size ?e) ?m"
      by (rule dir_write_ok [OF d1(1) sz0 sz d1(2)]) blast
    have mm: "?m i = ent_mem ?e i" if "i < ent_size ?e" for i
      using dirent_bytes_ent [OF x(3), of i "- 1"] that by (simp add: ent_size_def INVALID_INODE_NR_def)
    have w: "written p s1 s' (dir_size us) (ent_size ?e) (ent_mem ?e)"
      using s'(2) mm by (auto simp: written_def wrote_bytes_def)
    have "add_spot es ?e True us (ent_delete es name)" using x(1,2) by (auto simp: add_spot_def)
    then have "dir_ok s' p (ent_delete es name)"
      by (rule dir_written [OF d1(1) _ _ w _ sz]) (use len in \<open>simp_all add: ent_ok_def in_s32_def\<close>)
    moreover have "testfs_remove_dirent s p name = Ret (k, s')"
      using run s1(1) s'(1) dx 0 by (simp add: remove_found_def ent_size_def add_ac)
    moreover have "fs_inv s'" using written_fs_inv [OF s1(2) _ s'(2)] d1(1) by (simp add: dir_ok_def)
    ultimately show ?thesis using 0 v w by blast
  qed
qed

end
