(* ===== verification/FS_Create.thy ===== *)
theory FS_Create
  imports FS_DirSpec
begin

text \<open>
  Creating and removing files by name: the composition of the directory operations with the
  inode table, the free maps and the block allocator, and the properties of directories.
\<close>

section \<open>Files that a step leaves alone\<close>

lemma file_frame:
  assumes inv: "sb_inv s" and ok: "file_ok s d" "backed s d {}" and b: "blk_eq s s' X" "fblocks (dblock s) d \<inter> X = {}"
    and u: "fblocks (dblock s) d \<subseteq> ublocks s'" and l: "dlen (dev s) \<le> dlen (dev s')"
  shows "file_ok s' d" "backed s' d {}" "\<And>i. i < 34376597504 \<Longrightarrow> fbyte s' d i = fbyte s d i"
    "fblocks (dblock s') d = fblocks (dblock s) d" "live (dblock s') d = live (dblock s) d"
proof -
  have keep: "dblock s' (sval (dblock s) d x) i = dblock s (sval (dblock s) d x) i"
    if x: "x \<in> slots" "sval (dblock s) d x \<noteq> 0" and i: "i < 8192" for x i
  proof -
    have o: "sval (dblock s) d x \<in> fblocks (dblock s) d" using x by (auto simp: fblocks_def live_iff)
    then have "sval (dblock s) d x \<in> ublocks s" using ok by (auto simp: file_ok_def)
    from ublocks_bounds [OF inv this] have "18 \<le> sval (dblock s) d x" by simp
    then show ?thesis using o b i by (auto intro: blk_eqD)
  qed
  have sv: "sval (dblock s') d x = sval (dblock s) d x" if "x \<in> slots" for x
    by (rule sval_cong [OF refl refl refl _ that], rule keep [OF ptr_slots])
  note fb = fblocks_cong [OF sv] and lv = live_cong [OF sv]
  show "fblocks (dblock s') d = fblocks (dblock s) d" "live (dblock s') d = live (dblock s) d" using fb lv by simp_all
  show "file_ok s' d" using ok fb lv sv u unfolding file_ok_def by (auto simp: inj_on_def live_iff)
  show "backed s' d {}" using ok(2) fb l unfolding backed_def on_dev_def by force
  fix i :: nat assume "i < 34376597504"
  then have l: "leaf (i div 8192) \<in> slots" by (intro leaf_slots) auto
  show "fbyte s' d i = fbyte s d i"
    using sv [OF l] keep [OF l, of "i mod 8192"] by (simp add: fbyte_def bmap_def Let_def)
qed

lemma dir_frame:
  assumes d: "dir_ok s p es" and inv: "sb_inv s'" and h: "iheap s' p \<noteq> None" "din s' p = din s p"
    and b: "blk_eq s s' X" "fblocks (dblock s) (din s p) \<inter> X = {}"
    and u: "fblocks (dblock s) (din s p) \<subseteq> ublocks s'" and l: "dlen (dev s) \<le> dlen (dev s')"
  shows "dir_ok s' p es"
proof -
  have r: "sb_inv s" "file_ok s (din s p)" "backed s (din s p) {}" using d by (simp_all add: dir_ok_def ready_def)
  note f = file_frame [OF r b u l]
  have "dir_size es \<le> 16859136" using d by (simp add: dir_ok_def dir_data_def)
  then have "ents_at (fbyte s' (din s p)) 0 es = ents_at (fbyte s (din s p)) 0 es" using f(3) by (intro ents_at_cong) simp
  then show ?thesis using d f inv h by (simp add: dir_ok_def dir_data_def ready_def)
qed

lemma dir_blocks:
  assumes "dir_ok s p es"
  shows "fblocks (dblock s) (din s p) \<subseteq> ublocks s" "fblocks (dblock s) (din s p) \<inter> {18..<146} = {}"
  using assms ublocks_bounds [of s] by (force simp: dir_ok_def ready_def file_ok_def)+

section \<open>Creating a file\<close>

definition live_used :: "fs \<Rightarrow> bool" where
  "live_used s \<longleftrightarrow> (\<forall>p ino. iheap s p = Some ino \<longrightarrow> nat (i_nr ino) \<in> used (ibm s))"

lemma create_in_dir:
  assumes inv: "fs_inv s" and d: "dir_ok s p es" and lu: "live_used s" and fz: "free_zero s"
    and free: "\<not> {0..<16384} \<subseteq> used (ibm s)"
  obtains q s' nr ino where "testfs_create_inode s ty = Ret (Inr q, s')" "fs_inv s'" "valid_inr nr" "nat nr \<notin> used (ibm s)"
    "used (ibm s') = insert (nat nr) (used (ibm s))" "q \<noteq> p" "iheap s q = None" "iheap s' = (iheap s)(q := Some ino)" "i_nr ino = nr"
    "i_dirty ino" "i_count ino = 1" "i_in ino = zero_dinode\<lparr>i_type := type_code ty\<rparr>" "ublocks s' = ublocks s"
    "max_fs_blocks (sb s') = max_fs_blocks (sb s)" "dir_ok s' p es" "blk_eq s s' {}" "dlen (dev s') = dlen (dev s)"
proof -
  obtain q s' nr ino where c: "testfs_create_inode s ty = Ret (Inr q, s')" "fs_inv s'" "valid_inr nr" "nat nr \<notin> used (ibm s)"
    "used (ibm s') = insert (nat nr) (used (ibm s))" "iheap s q = None" "iheap s' = (iheap s)(q := Some ino)" "i_nr ino = nr"
    "i_dirty ino" "i_count ino = 1" "i_in ino = (disk_inode s nr)\<lparr>i_type := type_code ty\<rparr>" "ublocks s' = ublocks s" "blk_eq s s' {}"
    "dlen (dev s') = dlen (dev s)" "max_fs_blocks (sb s') = max_fs_blocks (sb s)"
    using create_inode_ok [OF inv, of ty] lu free unfolding live_used_def by blast
  have z: "disk_inode s nr = zero_dinode"
    using fz c(3,4) unfolding free_zero_def valid_inr_def by (metis int_nat_eq nat_less_iff of_nat_numeral)
  have qp: "q \<noteq> p" using dir_live [OF d] c(6) by auto
  have "dir_ok s' p es"
    by (rule dir_frame [OF d _ _ _ c(13)])
      (use c qp dir_live [OF d] dir_blocks(1) [OF d] in \<open>auto simp: din_def fs_inv_def\<close>)
  then show ?thesis using that [of q s' nr ino] c z qp by simp
qed

text \<open>Writing an inode back keeps every directory.\<close>

lemma sync_dir:
  assumes inv: "fs_inv s" and q: "iheap s q = Some ino" "wf_dinode (i_in ino)" and d: "dir_ok s p es"
  obtains s' where "testfs_sync_inode s q = Ret s'" "fs_inv s'" "iheap s' = (iheap s)(q := Some (ino\<lparr>i_dirty := False\<rparr>))"
    "disk_inode s' (i_nr ino) = i_in ino" "\<And>n. valid_inr n \<Longrightarrow> n \<noteq> i_nr ino \<Longrightarrow> disk_inode s' n = disk_inode s n"
    "dir_ok s' p es" "ibm s' = ibm s" "ublocks s' = ublocks s" "sb s' = sb s"
proof -
  have i: "sb_inv s" "itab_inv s" using inv by (simp_all add: fs_inv_def)
  obtain s' where s': "testfs_sync_inode s q = Ret s'" "itab_inv s'" "sb_inv s'"
    "iheap s' = (iheap s)(q := Some (ino\<lparr>i_dirty := False\<rparr>))" "disk_inode s' (i_nr ino) = i_in ino"
    "\<And>nr. valid_inr nr \<Longrightarrow> nr \<noteq> i_nr ino \<Longrightarrow> disk_inode s' nr = disk_inode s nr"
    "blk_eq s s' {18..<146}" "malloc_ok s' = malloc_ok s" "dlen (dev s') = dlen (dev s)"
    "bbm s' = bbm s" "ibm s' = ibm s" "sb s' = sb s"
    using sync_inode_ok [OF i q] by metis
  have "dir_ok s' p es"
    by (rule dir_frame [OF d s'(3) _ _ s'(7)])
      (use s' q dir_live [OF d] dir_blocks [OF d] in \<open>auto simp: din_def ublocks_def\<close>)
  moreover have "fs_inv s'" using s' inv by (simp add: fs_inv_def malloc_works_def)
  moreover have "ublocks s' = ublocks s" by (simp add: ublocks_def s'(10))
  ultimately show ?thesis using that [of s'] s' by simp
qed

lemma put_dir:
  assumes inv: "fs_inv s" and q: "iheap s q = Some ino" "\<not> i_dirty ino" "i_count ino = 1" "q \<noteq> p" and d: "dir_ok s p es"
  obtains s' where "testfs_put_inode s q = Ret s'" "fs_inv s'" "iheap s' = (iheap s)(q := None)" "disk_inode s' = disk_inode s"
    "dir_ok s' p es" "ibm s' = ibm s" "ublocks s' = ublocks s" "sb s' = sb s"
proof -
  have i: "itab_inv s" using inv by (simp_all add: fs_inv_def)
  obtain s' where s': "testfs_put_inode s q = Ret s'" "itab_inv s'"
    "iheap s' = (iheap s)(q := if i_count ino = 1 then None else Some (ino\<lparr>i_count := i_count ino - 1\<rparr>))"
    "sb s' = sb s" "dev s' = dev s" "inode_freemap s' = inode_freemap s" "block_freemap s' = block_freemap s"
    "malloc_n s' = malloc_n s" "malloc_ok s' = malloc_ok s" "sout s' = sout s"
    by (rule put_inode_ok [OF i q(1,2)])
  have sb: "sb_inv s'" using sb_inv_cong [OF s'(4-7)] inv by (simp add: fs_inv_def)
  have "blk_eq s s' {}" by (simp add: blk_eq_def dblock_def s'(5))
  from dir_frame [OF d sb _ _ this] have "dir_ok s' p es"
    using s'(3,5,7) q(4) dir_live [OF d] dir_blocks [OF d] by (auto simp: din_def ublocks_def bbm_def)
  moreover have "fs_inv s'" using s'(2,9) sb inv by (simp add: fs_inv_def malloc_works_def)
  moreover have "ublocks s' = ublocks s" "ibm s' = ibm s" "disk_inode s' = disk_inode s"
    by (simp_all add: ublocks_def bbm_def ibm_def disk_inode_def fun_eq_iff s'(5-7))
  ultimately show ?thesis using that [of s'] s' q(3) by simp
qed

text \<open>The state after a file was created: its number was free, the name is bound to it.\<close>

definition created :: "fs \<Rightarrow> nat \<Rightarrow> entry list \<Rightarrow> byte list \<Rightarrow> inode_type \<Rightarrow> fs \<Rightarrow> bool" where
  "created s p es name ty s' \<longleftrightarrow> (\<exists>nr es'. fs_inv s' \<and> valid_inr nr \<and> nat nr \<notin> used (ibm s) \<and>
     used (ibm s') = insert (nat nr) (used (ibm s)) \<and> ent_insert es name nr = Some es' \<and> dir_ok s' p es' \<and>
     \<not> idirty s' p \<and> disk_inode s' nr = zero_dinode\<lparr>i_type := type_code ty\<rparr> \<and>
     (\<forall>q. q \<noteq> p \<longrightarrow> iheap s' q = iheap s q) \<and> map_option i_nr (iheap s' p) = map_option i_nr (iheap s p) \<and>
     (\<forall>k. dir_size es + length name + 9 \<le> 8192 \<longrightarrow> room s (Suc k) \<longrightarrow> room s' k))"

lemma written_view:
  assumes "written p s s' a n m"
  obtains ino ino' where "iheap s p = Some ino" "iheap s' = (iheap s)(p := Some ino')" "i_nr ino' = i_nr ino" "ready p s'"
    "i_dirty ino'" "ibm s' = ibm s" "i_count ino' = i_count ino"
proof -
  obtain ino ino' where i: "iheap s p = Some ino" "iheap s' = (iheap s)(p := Some ino')" "i_nr ino' = i_nr ino" "i_count ino' = i_count ino"
    and e: "ibm s' = ibm s" "ready p s'" "idirty s' p"
    using assms by (auto simp: written_def fstep_def iupd_def)
  moreover have "i_dirty ino'" using i(2) e(3) by (auto simp: idirty_def)
  ultimately show ?thesis using that by blast
qed

lemma create_file_ok:
  assumes inv: "fs_inv s" and d: "dir_ok s p es" and lu: "live_used s" and fz: "free_zero s"
    and free: "\<not> {0..<16384} \<subseteq> used (ibm s)" and nm: "0 \<notin> set name" "length name < 8192" "ent_lookup es name = None"
    and sz: "dir_size es + length name + 9 \<le> 16859136" and r: "dir_room s"
  shows "\<exists>s'. testfs_create_file_or_dir s (Some p) I_FILE name = Ret (0, s') \<and> created s p es name I_FILE s'"
proof -
  have m: "malloc_works s" using inv by (simp add: fs_inv_def)
  obtain n where lk: "testfs_dir_name_to_inode_nr s p name = Ret (- ENOENT, bump n s)"
    using dir_name_ok [OF d m nm(1)] nm(3) by auto
  have v: "fs_inv (bump n s)" "dir_ok (bump n s) p es" "live_used (bump n s)" "free_zero (bump n s)" "\<not> {0..<16384} \<subseteq> used (ibm (bump n s))"
    using inv d lu fz free by (simp_all add: live_used_def free_zero_def)
  obtain q s2 nr ino where cb: "testfs_create_inode (bump n s) I_FILE = Ret (Inr q, s2)" "fs_inv s2" "valid_inr nr"
    "nat nr \<notin> used (ibm (bump n s))" "used (ibm s2) = insert (nat nr) (used (ibm (bump n s)))" "q \<noteq> p" "iheap (bump n s) q = None"
    "iheap s2 = (iheap (bump n s))(q := Some ino)" "i_nr ino = nr" "i_dirty ino" "i_count ino = 1"
    "i_in ino = zero_dinode\<lparr>i_type := type_code I_FILE\<rparr>" "ublocks s2 = ublocks (bump n s)"
    "max_fs_blocks (sb s2) = max_fs_blocks (sb (bump n s))" "dir_ok s2 p es"
    by (rule create_in_dir [OF v, of I_FILE])
  note c = cb [unfolded bump_views bump_simps]
  have nrr: "0 \<le> nr" "nr < 2147483648" using c(3) by (simp_all add: valid_inr_def)
  have m2: "malloc_works s2" "dir_room s2" using c(2,13,14) r by (simp_all add: fs_inv_def dir_room_def)
  have "ent_insert es name nr \<noteq> None" by (rule ent_insert_Some [OF nm(3)])
  then obtain es' s3 k us where a: "ent_insert es name nr = Some es'"
    "testfs_add_dirent s2 p name nr = Ret (int (ent_size (name, nr)), s3)" "dir_ok s3 p es'"
    "written p (bump k s2) s3 (dir_size us) (ent_size (name, nr)) (ent_mem (name, nr))"
    "\<forall>k. dir_size es + ent_size (name, nr) \<le> 8192 \<longrightarrow> room s2 (Suc k) \<longrightarrow> room s3 k"
    using add_dirent_ok [OF c(15) m2(1) nm(1,2) nrr _ m2(2)] sz by (auto simp: ent_size_def)
  obtain dp0 dp where w: "iheap s2 p = Some dp0" "iheap s3 = (iheap s2)(p := Some dp)" "i_nr dp = i_nr dp0" "ready p s3" "ibm s3 = ibm s2"
    using written_view [OF a(4)] by (metis bump_simps(3) bump_views(3))
  have inv3: "fs_inv s3" using written_fs_inv [OF _ _ a(4)] c(2,15) by (simp add: dir_ok_def)
  have wf: "wf_dinode (i_in dp)" using w(2,4) by (simp add: ready_def file_ok_def din_def)
  have h3: "iheap s3 p = Some dp" using w(2) by simp
  obtain s4 where s4: "testfs_sync_inode s3 p = Ret s4" "fs_inv s4" "iheap s4 = (iheap s3)(p := Some (dp\<lparr>i_dirty := False\<rparr>))"
    "dir_ok s4 p es'" "ibm s4 = ibm s3" "ublocks s4 = ublocks s3" "sb s4 = sb s3"
    by (rule sync_dir [OF inv3 h3 wf a(3)])
  have h4: "iheap s4 q = Some ino" using s4(3) w(2) c(6,8) by simp
  have "wf_dinode (i_in ino)" by (simp add: c(12) zero_dinode_def wf_dinode_def in_s32_def list_all_iff)
  then obtain s5 where s5: "testfs_sync_inode s4 q = Ret s5" "fs_inv s5" "iheap s5 = (iheap s4)(q := Some (ino\<lparr>i_dirty := False\<rparr>))"
    "disk_inode s5 (i_nr ino) = i_in ino" "dir_ok s5 p es'" "ibm s5 = ibm s4" "ublocks s5 = ublocks s4" "sb s5 = sb s4"
    using sync_dir [OF s4(2) h4 _ s4(4)] by metis
  have h5: "iheap s5 q = Some (ino\<lparr>i_dirty := False\<rparr>)" using s5(3) by simp
  obtain s6 where s6: "testfs_put_inode s5 q = Ret s6" "fs_inv s6" "iheap s6 = (iheap s5)(q := None)" "disk_inode s6 = disk_inode s5"
    "dir_ok s6 p es'" "ibm s6 = ibm s5" "ublocks s6 = ublocks s5" "sb s6 = sb s5"
    by (rule put_dir [OF s5(2) h5 _ _ c(6) s5(5)]) (use c(11) in simp_all)
  have run: "testfs_create_file_or_dir s (Some p) I_FILE name = Ret (0, s6)"
    using lk c(1,6,8,9) a(2) s4(1) s5(1) s6(1)
    by (simp add: testfs_create_file_or_dir_def ENOENT_def testfs_inode_get_nr_def)
  have rm: "room s6 k" if "dir_size es + length name + 9 \<le> 8192" "room s (Suc k)" for k
  proof -
    have "room s2 (Suc k)" using that(2) c(13,14) by (simp add: room_def)
    then have "room s3 k" using a(5) that(1) by (simp add: ent_size_def)
    then show ?thesis by (simp add: room_def s6(7,8) s5(7,8) s4(6,7))
  qed
  have nrp: "map_option i_nr (iheap s6 p) = map_option i_nr (iheap s p)"
    using s6(3) s5(3) s4(3) c(6,8) w(1,3) by auto
  have "created s p es name I_FILE s6"
    unfolding created_def
  proof (intro exI [of _ nr] exI [of _ es'] conjI allI impI)
    show "\<not> idirty s6 p" using s6(3) s5(3) s4(3) c(6) by (simp add: idirty_def)
    show "used (ibm s6) = insert (nat nr) (used (ibm s))" using s6(6) s5(6) s4(5) w(5) c(5) by simp
    show "iheap s6 r = iheap s r" if "r \<noteq> p" for r using that s6(3) s5(3) s4(3) w(2) c(7,8) by auto
    show "disk_inode s6 nr = zero_dinode\<lparr>i_type := type_code I_FILE\<rparr>" using s6(4) s5(4) c(9,12) by simp
  qed (use s6 a(1) c rm nrp in auto)
  then show ?thesis using run by blast
qed

section \<open>Creating the root directory\<close>

text \<open>What writing to the open file \<^verbatim>\<open>q\<close> leaves alone.\<close>

definition own_step :: "nat \<Rightarrow> fs \<Rightarrow> fs \<Rightarrow> bool" where
  "own_step q s s' \<longleftrightarrow> fs_inv s' \<and> ibm s' = ibm s \<and> (\<forall>n. valid_inr n \<longrightarrow> disk_inode s' n = disk_inode s n) \<and>
     (\<exists>ino ino'. iheap s q = Some ino \<and> iheap s' = (iheap s)(q := Some ino') \<and> i_nr ino' = i_nr ino \<and> i_count ino' = i_count ino)"

lemma own_step_trans: "own_step q s s1 \<Longrightarrow> own_step q s1 s2 \<Longrightarrow> own_step q s s2"
  unfolding own_step_def by (elim exE conjE) (simp, blast)

lemma written_own_step:
  assumes inv: "fs_inv s" and w: "written q (bump n s) s' a k m" and r: "ready q s"
  shows "own_step q s s'"
proof -
  have X: "fblocks (dblock s) (din s q) \<union> fresh s \<subseteq> {146..}"
    using r ublocks_bounds [of s] by (auto simp: ready_def file_ok_def fresh_def)
  have f: "fs_inv s'" by (rule written_fs_inv [OF _ _ w]) (use inv r in simp_all)
  have "blk_eq (bump n s) s' (fblocks (dblock s) (din s q) \<union> fresh s)"
    using w by (simp add: written_def fstep_def fresh_def)
  then have dk: "disk_inode s' nr = disk_inode s nr" if "valid_inr nr" for nr
    using disk_inode_frame [OF _ X that] by fastforce
  obtain ino ino' where "iheap (bump n s) q = Some ino" "iheap s' = (iheap (bump n s))(q := Some ino')" "i_nr ino' = i_nr ino"
    "i_count ino' = i_count ino" "ibm s' = ibm (bump n s)"
    by (rule written_view [OF w])
  then show ?thesis unfolding own_step_def using f dk by auto
qed

lemma add_dirent_step:
  assumes inv: "fs_inv s" and d: "dir_ok s q es" and nm: "0 \<notin> set name" "length name < 100" "ent_insert es name nr = Some es'"
    and nr: "0 \<le> nr" "nr < 2147483648" and sz: "dir_size es \<le> 100" and r: "room s (Suc (k + 2))"
  obtains s' where "testfs_add_dirent s q name nr = Ret (int (ent_size (name, nr)), s')" "dir_ok s' q es'" "own_step q s s'" "room s' (k + 2)"
proof -
  have m: "malloc_works s" and dr: "dir_room s" using inv r by (auto simp: fs_inv_def dir_room_def room_def)
  have z: "dir_size es + ent_size (name, nr) \<le> 8192" using sz nm(2) by (simp add: ent_size_def)
  obtain s' n us where s': "testfs_add_dirent s q name nr = Ret (int (ent_size (name, nr)), s')" "dir_ok s' q es'"
    "written q (bump n s) s' (dir_size us) (ent_size (name, nr)) (ent_mem (name, nr))"
    "\<forall>k. dir_size es + ent_size (name, nr) \<le> 8192 \<longrightarrow> room s (Suc k) \<longrightarrow> room s' k"
    using add_dirent_ok [OF d m nm(1) _ nr _ dr] nm(2,3) z by auto
  have "own_step q s s'" by (rule written_own_step [OF inv s'(3)]) (use d in \<open>simp add: dir_ok_def\<close>)
  then show ?thesis using that [of s'] s' z r by blast
qed

lemma create_empty_dir_ok:
  assumes inv: "fs_inv s" and d: "dir_ok s q []" and q: "iheap s q = Some ino" and nr: "valid_inr (i_nr ino)"
    and p: "0 \<le> pnr" "pnr < 2147483648" and r: "room s (Suc (Suc (k + 2)))"
  obtains s' where "testfs_create_empty_dir s pnr q = Ret (0, s')" "dir_ok s' q [(cstr ''.'', i_nr ino), (cstr ''..'', pnr)]"
    "own_step q s s'" "room s' (k + 2)"
proof -
  have n: "0 \<le> i_nr ino" "i_nr ino < 2147483648" using nr by (simp_all add: valid_inr_def)
  have "room s (Suc (Suc k + 2))" using r by simp
  then obtain s1 where s1: "testfs_add_dirent s q (cstr ''.'') (i_nr ino) = Ret (int (ent_size (cstr ''.'', i_nr ino)), s1)"
    "dir_ok s1 q [(cstr ''.'', i_nr ino)]" "own_step q s s1" "room s1 (Suc k + 2)"
    using add_dirent_step [OF inv d, of "cstr ''.''" "i_nr ino"] n by auto
  have "fs_inv s1" "room s1 (Suc (k + 2))" using s1 by (simp_all add: own_step_def)
  then obtain s2 where s2: "testfs_add_dirent s1 q (cstr ''..'') pnr = Ret (int (ent_size (cstr ''..'', pnr)), s2)"
    "dir_ok s2 q [(cstr ''.'', i_nr ino), (cstr ''..'', pnr)]" "own_step q s1 s2" "room s2 (k + 2)"
    using add_dirent_step [OF _ s1(2), of "cstr ''..''" pnr] n p by (auto simp: ent_is_def ent_size_def)
  have "testfs_create_empty_dir s pnr q = Ret (0, s2)"
    using q dir_type [OF d] s1(1) s2(1) by (simp add: testfs_create_empty_dir_def testfs_inode_get_nr_def ent_size_def)
  then show ?thesis using that s2(2,4) own_step_trans [OF s1(3) s2(3)] by blast
qed

lemma empty_dir_data:
  assumes "sb_inv s" "iheap s q = Some ino" "i_in ino = zero_dinode\<lparr>i_type := type_code I_DIR\<rparr>"
  shows "dir_ok s q []"
proof -
  have "in_s32 (type_code I_DIR)" by (simp add: in_s32_def)
  from empty_ready(1) [OF assms this] show ?thesis
    using assms(2,3) by (simp add: dir_ok_def dir_data_def din_def zero_dinode_def)
qed

lemma make_root_ok:
  assumes inv: "fs_inv s" and lu: "live_used s" and fz: "free_zero s" and free: "\<not> {0..<16384} \<subseteq> used (ibm s)"
    and r: "room s (Suc (Suc (k + 2)))"
  obtains s' nr where "testfs_make_root_dir s = Ret (0, s')" "fs_inv s'" "valid_inr nr" "nat nr \<notin> used (ibm s)"
    "used (ibm s') = insert (nat nr) (used (ibm s))" "iheap s' = iheap s" "file_ok s' (disk_inode s' nr)" "backed s' (disk_inode s' nr) {}"
    "dir_data s' (disk_inode s' nr) [(cstr ''.'', nr), (cstr ''..'', nr)]"
    "\<And>n. valid_inr n \<Longrightarrow> n \<noteq> nr \<Longrightarrow> disk_inode s' n = disk_inode s n" "room s' (k + 2)"
proof -
  obtain q s2 nr ino where c: "testfs_create_inode s I_DIR = Ret (Inr q, s2)" "fs_inv s2" "valid_inr nr" "nat nr \<notin> used (ibm s)"
    "used (ibm s2) = insert (nat nr) (used (ibm s))" "iheap s q = None" "iheap s2 = (iheap s)(q := Some ino)" "i_nr ino = nr"
    "i_dirty ino" "i_count ino = 1" "i_in ino = (disk_inode s nr)\<lparr>i_type := type_code I_DIR\<rparr>" "ublocks s2 = ublocks s" "blk_eq s s2 {}"
    "dlen (dev s2) = dlen (dev s)" "max_fs_blocks (sb s2) = max_fs_blocks (sb s)"
    using create_inode_ok [OF inv, of I_DIR] lu free unfolding live_used_def by blast
  have "disk_inode s nr = zero_dinode"
    using fz c(3,4) unfolding free_zero_def valid_inr_def by (metis int_nat_eq nat_less_iff of_nat_numeral)
  then have d2: "dir_ok s2 q []" using c(2,7,11) by (intro empty_dir_data) (auto simp: fs_inv_def)
  have h2: "iheap s2 q = Some ino" "room s2 (Suc (Suc (k + 2)))" using c(7,12,15) r by (simp_all add: room_def)
  have nr: "valid_inr (i_nr ino)" "0 \<le> nr" "nr < 2147483648" using c(3,8) by (simp_all add: valid_inr_def)
  obtain s3 where s3: "testfs_create_empty_dir s2 nr q = Ret (0, s3)" "dir_ok s3 q [(cstr ''.'', i_nr ino), (cstr ''..'', nr)]"
    "own_step q s2 s3" "room s3 (k + 2)"
    by (rule create_empty_dir_ok [OF c(2) d2 h2(1) nr(1-3) h2(2)])
  obtain ino' where h3: "iheap s3 = (iheap s2)(q := Some ino')" "i_nr ino' = nr" "i_count ino' = 1" "fs_inv s3" "ibm s3 = ibm s2"
    using s3(3) h2(1) c(8,10) by (auto simp: own_step_def)
  have q3: "iheap s3 q = Some ino'" "wf_dinode (i_in ino')"
    using h3(1) s3(2) by (simp_all add: dir_ok_def ready_def file_ok_def din_def)
  obtain s4 where s4: "testfs_sync_inode s3 q = Ret s4" "fs_inv s4" "iheap s4 = (iheap s3)(q := Some (ino'\<lparr>i_dirty := False\<rparr>))"
    "disk_inode s4 (i_nr ino') = i_in ino'" "\<And>n. valid_inr n \<Longrightarrow> n \<noteq> i_nr ino' \<Longrightarrow> disk_inode s4 n = disk_inode s3 n"
    "dir_ok s4 q [(cstr ''.'', i_nr ino), (cstr ''..'', nr)]" "ibm s4 = ibm s3" "ublocks s4 = ublocks s3" "sb s4 = sb s3"
    by (rule sync_dir [OF h3(4) q3 s3(2)]) blast
  define i4 where "i4 = ino'\<lparr>i_dirty := False\<rparr>"
  have i4: "itab_inv s4" "iheap s4 q = Some i4" "\<not> i_dirty i4" "i_count i4 = 1" using s4(2,3) h3(3) by (simp_all add: i4_def fs_inv_def)
  obtain s5 where p5: "testfs_put_inode s4 q = Ret s5" "itab_inv s5"
    "iheap s5 = (iheap s4)(q := if i_count i4 = 1 then None else Some (i4\<lparr>i_count := i_count i4 - 1\<rparr>))"
    "sb s5 = sb s4" "dev s5 = dev s4" "inode_freemap s5 = inode_freemap s4" "block_freemap s5 = block_freemap s4"
    "malloc_ok s5 = malloc_ok s4"
    by (rule put_inode_ok [OF i4(1-3)])
  note s5 = p5(1,2) p5(3) [unfolded i4(4), simplified] p5(4-8)
  have inv5: "fs_inv s5" using s5 s4(2) sb_inv_cong [OF s5(4-7)] by (simp add: fs_inv_def malloc_works_def)
  have e: "dblock s5 = dblock s4" "disk_inode s5 = disk_inode s4" "ublocks s5 = ublocks s4" "ibm s5 = ibm s4"
    by (simp_all add: dblock_def disk_inode_def fun_eq_iff ublocks_def bbm_def ibm_def s5(5-7))
  have fb: "fbyte s5 = fbyte s4" by (simp add: fbyte_def bmap_def lblock_def fun_eq_iff Let_def e(1))
  have din4: "din s4 q = disk_inode s4 nr" using s4(3,4) h3(2) by (simp add: din_def)
  have "file_ok s5 (disk_inode s5 nr)" "backed s5 (disk_inode s5 nr) {}" "dir_data s5 (disk_inode s5 nr) [(cstr ''.'', nr), (cstr ''..'', nr)]"
    using s4(6) din4 c(8) by (simp_all add: dir_ok_def dir_data_def ready_def file_ok_def backed_def on_dev_def e fb s5(5) del: cstr_dots)
  moreover have "iheap s5 = iheap s" using s5(3) s4(3) h3(1) c(6,7) by auto
  moreover have "testfs_make_root_dir s = Ret (0, s5)"
    using c(1) h2(1) c(8) s3(1) s4(1) s5(1)
    by (simp add: testfs_make_root_dir_def testfs_create_file_or_dir_def testfs_inode_get_nr_def)
  moreover have "disk_inode s5 n = disk_inode s n" if "valid_inr n" "n \<noteq> nr" for n
    using s4(5) [OF that(1)] that h3(2) s3(3) disk_inode_frame [OF c(13) _ that(1)] by (simp add: e own_step_def)
  moreover have "room s5 (k + 2)" using s3(4) s4(8,9) by (simp add: room_def e s5(4))
  moreover have "used (ibm s5) = insert (nat nr) (used (ibm s))" using e(4) s4(7) h3(5) c(5) by simp
  ultimately show ?thesis using that [of s5 nr] inv5 c(3,4) by blast
qed

section \<open>Listing ends\<close>

definition halts :: "'a res \<Rightarrow> bool" where
  "halts m \<longleftrightarrow> m \<noteq> Crash Diverges"

named_theorems halts_intros \<open>functions that always end\<close>

lemma halts_Ret [halts_intros, simp]: "halts (Ret x)"
  by (simp add: halts_def)

lemma halts_Crash [simp]: "halts (Crash c) \<longleftrightarrow> c \<noteq> Diverges"
  by (simp add: halts_def)

lemma halts_bnd [halts_intros]: "halts m \<Longrightarrow> (\<And>x. m = Ret x \<Longrightarrow> halts (f x)) \<Longrightarrow> halts (bnd m f)"
  by (cases m) auto

lemma halts_basic [halts_intros]: "halts (c_assert P)" "halts (guard_ub P)" "halts (deref x)" "halts (read_blocks s b n)"
  by (simp_all add: c_assert_def guard_ub_def read_blocks_def Let_def split: option.split) (cases x; simp)

lemma halts_split [halts_intros]:
  "(P \<Longrightarrow> halts a) \<Longrightarrow> (\<not> P \<Longrightarrow> halts b) \<Longrightarrow> halts (if P then a else b)"
  "(\<And>x y. p = (x, y) \<Longrightarrow> halts (f x y)) \<Longrightarrow> halts (case p of (x, y) \<Rightarrow> f x y)"
  "(r = None \<Longrightarrow> halts a) \<Longrightarrow> (\<And>x. r = Some x \<Longrightarrow> halts (g x)) \<Longrightarrow> halts (case r of None \<Rightarrow> a | Some x \<Rightarrow> g x)"
  "(\<And>x. u = Inl x \<Longrightarrow> halts (h x)) \<Longrightarrow> (\<And>x. u = Inr x \<Longrightarrow> halts (k x)) \<Longrightarrow> halts (case u of Inl x \<Rightarrow> h x | Inr x \<Rightarrow> k x)"
  by (auto split: prod.split option.split sum.split)

lemma halts_ptr [halts_intros]: "halts (ptr_at m k)" "halts (get_din s p)" "halts (testfs_inode_get_type s p)"
  "halts (testfs_inode_get_size s p)"
  unfolding ptr_at_def get_din_def testfs_inode_get_type_def testfs_inode_get_size_def by (intro halts_intros)+

lemma halts_read_block [halts_intros]: "halts (testfs_read_block s p l)"
  unfolding testfs_read_block_def Let_def by (intro halts_intros)

lemma halts_read_full [halts_intros]: "halts (read_full s p b i r buf pos)"
  by (induction s p b i r buf pos rule: read_full.induct) (subst read_full.simps, intro halts_intros, auto)

lemma halts_read_data [halts_intros]: "halts (testfs_read_data s p buf a n)"
  unfolding testfs_read_data_def Let_def by (intro halts_intros)

lemma halts_next_dirent [halts_intros]: "halts (testfs_next_dirent s p off)"
  unfolding testfs_next_dirent_def by (intro halts_intros)

lemma halts_name_bytes [halts_intros]: "halts (name_bytes m n i)"
  by (induction m n i rule: name_bytes.induct) (subst name_bytes.simps, intro halts_intros, auto)

lemma halts_hash_walk [halts_intros]: "halts (hash_walk s nr ps)"
  by (induction ps) (auto intro!: halts_intros)

lemma halts_inode [halts_intros]:
  "halts (testfs_inode_to_block_nr ino)" "halts (testfs_inode_to_block_offset ino)" "halts (inode_hash_find s nr)"
  "halts (inode_hash_insert s p)" "halts (inode_hash_remove s p)"
  unfolding testfs_inode_to_block_nr_def testfs_inode_to_block_offset_def inode_hash_find_def inode_hash_insert_def
    inode_hash_remove_def Let_def by (intro halts_intros)+

lemma halts_get_put [halts_intros]: "halts (testfs_get_inode s nr)" "halts (testfs_put_inode s p)"
  unfolding testfs_get_inode_def testfs_put_inode_def testfs_read_inode_block_def Let_def
  by (intro halts_intros, simp_all) (intro halts_intros)+

text \<open>Opening and closing inodes does not change the size of the directory being listed.\<close>

definition dir_span :: "nat \<Rightarrow> int \<Rightarrow> fs \<Rightarrow> bool" where
  "dir_span p z s \<longleftrightarrow> p < malloc_n s \<and> (\<forall>ino. iheap s p = Some ino \<longrightarrow> i_size (i_in ino) = z)"

text \<open>Conditions on the value a function returns, when it returns.\<close>

definition post :: "'a res \<Rightarrow> ('a \<Rightarrow> bool) \<Rightarrow> bool" where
  "post m P \<longleftrightarrow> (\<forall>x. m = Ret x \<longrightarrow> P x)"

lemma postD: "post m P \<Longrightarrow> m = Ret x \<Longrightarrow> P x"
  by (simp add: post_def)

lemma post_Ret [simp]: "post (Ret x) P = P x" "post (Crash c) P"
  by (simp_all add: post_def)

lemma post_intros:
  "(\<And>x. m = Ret x \<Longrightarrow> post (f x) P) \<Longrightarrow> post (bnd m f) P"
  "(Q \<Longrightarrow> post a P) \<Longrightarrow> (\<not> Q \<Longrightarrow> post b P) \<Longrightarrow> post (if Q then a else b) P"
  "(\<And>x y. pr = (x, y) \<Longrightarrow> post (g x y) P) \<Longrightarrow> post (case pr of (x, y) \<Rightarrow> g x y) P"
  "(r = None \<Longrightarrow> post a P) \<Longrightarrow> (\<And>x. r = Some x \<Longrightarrow> post (h x) P) \<Longrightarrow> post (case r of None \<Rightarrow> a | Some x \<Rightarrow> h x) P"
  by (cases m; simp) (auto split: prod.split option.split)

lemma next_dirent_state: "post (testfs_next_dirent s p off) (\<lambda>(r, off', s'). s' = s \<or> s' = bump 1 s)"
  unfolding testfs_next_dirent_def c_malloc_def
  by (intro post_intros) (auto simp: bump_def)

lemma dir_span_next: "testfs_next_dirent s p off = Ret (r, off', s') \<Longrightarrow> dir_span p z s \<Longrightarrow> dir_span p z s'"
  using postD [OF next_dirent_state] by (fastforce simp: dir_span_def)

lemma get_inode_shape:
  assumes "testfs_get_inode s nr = Ret (q, s')"
  shows "(\<exists>ino. iheap s q = Some ino \<and> s' = iset s q (ino\<lparr>i_count := i_count ino + 1\<rparr>)) \<or>
    (\<exists>ino. iheap s' = (iheap s)(malloc_n s := ino) \<and> malloc_n s' = Suc (malloc_n s))"
  using assms
  by (auto simp: testfs_get_inode_def res_simps c_malloc_def inode_hash_insert_def Let_def split: if_splits option.splits)

lemma dir_span_get: "testfs_get_inode s nr = Ret (q, s') \<Longrightarrow> dir_span p z s \<Longrightarrow> dir_span p z s'"
  by (drule get_inode_shape) (auto simp: dir_span_def split: if_splits)

lemma dir_span_put: "testfs_put_inode s q = Ret s' \<Longrightarrow> dir_span p z s \<Longrightarrow> dir_span p z s'"
  by (auto simp: testfs_put_inode_def res_simps dir_span_def inode_hash_remove_def Let_def split: if_splits)

lemma dir_span_puts [simp]: "dir_span p z (puts s bs) = dir_span p z s"
  by (simp add: puts_def dir_span_def)

lemma ls_from_halts:
  assumes "dir_span p z s" "nat (z - off) < fuel"
  shows "halts (testfs_ls_from fuel s p False off)"
  using assms
proof (induction fuel arbitrary: s off)
  case (Suc fuel)
  have step: "halts (testfs_ls_from fuel s1 p False off')"
    if n: "testfs_next_dirent s p off = Ret (Some d, off', s0)" and s1: "dir_span p z s1" for d off' s0 s1
  proof -
    note st = next_dirent_step [OF n]
    obtain ino where "iheap s p = Some ino" using n
      by (auto simp: testfs_next_dirent_def res_simps testfs_inode_get_type_def)
    then have "i_size (i_in (the (iheap s p))) = z" using Suc.prems(1) by (simp add: dir_span_def)
    then have "nat (z - off') < fuel" using st(1,2) Suc.prems(2) by simp
    then show ?thesis using Suc.IH s1 by blast
  qed
  have last: "dir_span p z s3"
    if "testfs_next_dirent s p off = Ret (r, off', s1)" "testfs_get_inode s1 nr = Ret (q, s2)" "testfs_put_inode (puts s2 bs) q = Ret s3"
    for r off' s1 nr q s2 bs s3
    using dir_span_put [OF that(3)] dir_span_get [OF that(2)] dir_span_next [OF that(1) Suc.prems(1)] by simp
  show ?case
    unfolding testfs_ls_from.simps Let_def
    using dir_span_next [OF _ Suc.prems(1)] by (auto intro!: halts_intros intro: step split: if_splits) (meson step last)+
qed simp

text \<open>A formatted file system with its root directory open.\<close>

lemma ex_root_dir:
  "\<exists>s p nr. fs_inv s \<and> dir_ok s p [(cstr ''.'', nr), (cstr ''..'', nr)] \<and> valid_inr nr \<and> live_used s \<and> free_zero s \<and>
     dir_room s \<and> used (ibm s) = {nat nr} \<and> iclean s nr \<and> room s 4"
proof -
  obtain s0 where s0: "fs_inv s0" "iheap s0 = (\<lambda>_. None)" "used (ibm s0) = {}" "\<forall>nr. disk_inode s0 nr = zero_dinode" "ublocks s0 = {}"
    "max_fs_blocks (sb s0) = 128"
    using ex_empty_fs by blast
  have "room s0 (Suc (Suc (2 + 2)))" "live_used s0" "free_zero s0" "\<not> {0..<16384} \<subseteq> used (ibm s0)"
    using s0 by (simp_all add: room_def live_used_def free_zero_def)
  from make_root_ok [OF s0(1) this(2-4,1)] obtain s1 nr where
    s1: "fs_inv s1" "valid_inr nr" "used (ibm s1) = {nat nr}" "iheap s1 = (\<lambda>_. None)" "file_ok s1 (disk_inode s1 nr)" "backed s1 (disk_inode s1 nr) {}"
      "dir_data s1 (disk_inode s1 nr) [(cstr ''.'', nr), (cstr ''..'', nr)]" "room s1 (2 + 2)"
      "\<And>n. valid_inr n \<Longrightarrow> n \<noteq> nr \<Longrightarrow> disk_inode s1 n = zero_dinode"
    unfolding s0(2,3) using s0(4) by metis
  let ?s = "loaded s1 nr" and ?p = "malloc_n s1"
  have g: "testfs_get_inode s1 nr = Ret (?p, ?s)"
    using s1(1,2,4) by (intro get_inode_miss) (auto simp: fs_inv_def malloc_works_def)
  have "fs_inv ?s" using get_inode_ok [OF s1(1,2)] g by auto
  moreover have db: "dblock ?s = dblock s1" by (simp add: dblock_def fun_eq_iff)
  moreover have "fbyte ?s = fbyte s1" by (simp add: fbyte_def bmap_def lblock_def fun_eq_iff Let_def db)
  ultimately have "dir_ok ?s ?p [(cstr ''.'', nr), (cstr ''..'', nr)]"
    using s1(5-7)
    by (simp add: dir_ok_def ready_def din_def fresh_inode_def file_ok_def backed_def on_dev_def dir_data_def fs_inv_def del: cstr_dots)
  moreover have "live_used ?s" using s1(3,4) by (simp add: live_used_def fresh_inode_def)
  moreover have "free_zero ?s"
    using s1(2,3,9) by (auto simp: free_zero_def valid_inr_def)
  moreover have "dir_room ?s" using s1(8) by (simp add: dir_room_def room_def)
  moreover have "room ?s 4" using s1(8) by (simp add: room_def)
  moreover have "iclean ?s nr" using s1(4) by (auto simp: iclean_def fresh_inode_def)
  ultimately show ?thesis using \<open>fs_inv ?s\<close> s1(2,3) by (intro exI [of _ ?s] exI [of _ ?p] exI [of _ nr]) simp
qed

lemma root_entries:
  "ent_unique [(cstr ''.'', nr), (cstr ''..'', nr)]" "dir_size [(cstr ''.'', nr), (cstr ''..'', nr)] = 21"
  "name \<noteq> cstr ''.'' \<Longrightarrow> name \<noteq> cstr ''..'' \<Longrightarrow> ent_lookup [(cstr ''.'', nr), (cstr ''..'', nr)] name = None"
  by (auto simp: ent_unique_def ent_size_def ent_is_def)

section \<open>Properties\<close>

text \<open>
  C12: name look-up in a directory of any length is look-up in its list of entries:
  \<^verbatim>\<open>testfs_dir_name_to_inode_nr\<close> returns the inode number of the first used entry with the
  name, or \<^verbatim>\<open>-ENOENT\<close> exactly when there is none; it changes nothing but the allocator.
\<close>

theorem dir_lookup_refines:
  assumes "dir_ok s p es" "malloc_works s" "0 \<notin> set name"
  shows "\<exists>s'. testfs_dir_name_to_inode_nr s p name =
      Ret (case ent_lookup es name of Some k \<Rightarrow> k | None \<Rightarrow> - ENOENT, s') \<and> same_view s s' \<and> hash_tbl s' = hash_tbl s"
proof -
  obtain n where "testfs_dir_name_to_inode_nr s p name =
      Ret (case ent_lookup es name of Some k \<Rightarrow> k | None \<Rightarrow> - ENOENT, bump n s)"
    by (rule dir_name_ok [OF assms])
  then show ?thesis by (intro exI [of _ "bump n s"]) simp
qed

theorem dir_lookup_refines_witness:
  "\<exists>s p nr s'. testfs_dir_name_to_inode_nr s p (cstr ''..'') = Ret (nr, s') \<and> 0 \<le> nr"
proof -
  obtain s p nr where s: "fs_inv s" "dir_ok s p [(cstr ''.'', nr), (cstr ''..'', nr)]" "valid_inr nr" using ex_root_dir by blast
  then show ?thesis
    using dir_lookup_refines [OF s(2), of "cstr ''..''"] by (auto simp: fs_inv_def ent_is_def valid_inr_def)
qed

text \<open>
  C11: \<^verbatim>\<open>testfs_add_dirent\<close> implements insertion into the list of entries: it refuses a used
  name with \<^verbatim>\<open>-EEXIST\<close>, changing nothing, and otherwise stores the entry over a free one of
  the same length or at the end; when the name was not in use, the new directory maps the name to
  the number and every other name as before, each name being used at most once.
\<close>

theorem add_dirent_refines:
  assumes "fs_inv s" "dir_ok s p es" "ent_unique es" "0 \<notin> set name" "length name < 8192" "0 \<le> nr" "nr < 2 ^ 31"
    "dir_size es + length name + 9 \<le> 16859136" "int (card (ublocks s)) + 9 \<le> max_fs_blocks (sb s)"
  shows "(ent_insert es name nr = None \<and> ent_lookup es name \<noteq> None \<and>
      (\<exists>s'. testfs_add_dirent s p name nr = Ret (- EEXIST, s') \<and> same_view s s')) \<or>
    (\<exists>es' s'. ent_insert es name nr = Some es' \<and> testfs_add_dirent s p name nr = Ret (int (length name) + 9, s') \<and>
      fs_inv s' \<and> dir_ok s' p es' \<and>
      (ent_lookup es name = None \<longrightarrow> ent_unique es' \<and> ent_lookup es' = (ent_lookup es)(name \<mapsto> nr)))"
proof -
  have m: "malloc_works s" and r: "dir_room s" and z: "dir_size es + ent_size (name, nr) \<le> 16859136" and n: "nr < 2147483648"
    using assms by (simp_all add: fs_inv_def dir_room_def ent_size_def)
  have inv: "fs_inv s'" if "written p (bump k s) s' a l b" for k s' a l b
    using written_fs_inv [OF _ _ that] assms(1,2) by (simp add: dir_ok_def)
  from add_dirent_ok [OF assms(2) m assms(4-6) n z r] show ?thesis
    using inv ent_insert_Some [of es name nr] entries.ins_ok [OF assms(3) _ assms(6), of name]
    by (fastforce simp: ent_size_def)
qed

theorem add_dirent_refines_witness:
  "\<exists>s p nr s' es'. testfs_add_dirent s p (cstr ''a'') nr = Ret (10, s') \<and> dir_ok s' p es' \<and> ent_lookup es' (cstr ''a'') = Some nr"
proof -
  obtain s p nr where s: "fs_inv s" "dir_ok s p [(cstr ''.'', nr), (cstr ''..'', nr)]" "valid_inr nr" "dir_room s" using ex_root_dir by blast
  then show ?thesis
    using add_dirent_refines [OF s(1,2), of "cstr ''a''" nr]
    by (auto simp: ent_unique_def ent_is_def valid_inr_def dir_room_def cstr_def of_char_def ent_size_def) (metis fun_upd_same)
qed

text \<open>
  C13: \<^verbatim>\<open>testfs_remove_dirent\<close> refuses the two names a directory has of itself, reports a name
  that is not in use, and keeps an entry whose directory is not empty, each time changing
  nothing; otherwise it returns the inode number and deletes exactly that entry.
\<close>

theorem remove_dirent_correct:
  assumes "fs_inv s" "dir_ok s p es" "ent_unique es" "0 \<notin> set name" "int (card (ublocks s)) + 9 \<le> max_fs_blocks (sb s)"
    "\<forall>k. ent_lookup es name = Some k \<longrightarrow> valid_inr k \<and> iclean s k \<and> removable s k ret"
  shows "\<exists>r s'. testfs_remove_dirent s p name = Ret (r, s') \<and> fs_inv s' \<and>
    (if name = cstr ''.'' \<or> name = cstr ''..'' then r = - EINVAL \<and> s' = s
     else case ent_lookup es name of
       None \<Rightarrow> r = - ENOENT \<and> same_view s s'
     | Some k \<Rightarrow> if ret < 0 then r = - ENOTEMPTY \<and> same_view s s'
         else r = k \<and> dir_ok s' p (ent_delete es name) \<and> ent_unique (ent_delete es name) \<and>
           ent_lookup (ent_delete es name) = (ent_lookup es)(name := None))"
proof -
  have m: "malloc_works s" and r: "dir_room s" using assms by (simp_all add: fs_inv_def dir_room_def)
  consider "name = cstr ''.'' \<or> name = cstr ''..''" | "name \<noteq> cstr ''.''" "name \<noteq> cstr ''..''" "ent_lookup es name = None"
    | k where "name \<noteq> cstr ''.''" "name \<noteq> cstr ''..''" "ent_lookup es name = Some k" by fastforce
  then show ?thesis
  proof cases
    case 1
    then show ?thesis using assms(1) by (auto simp: testfs_remove_dirent_def)
  next
    case 2
    obtain n where "remove_scan s p name 0 = Ret (- ENOENT, bump n s)"
      using remove_scan_miss [of s p "[]" es name] assms(2,4) m 2(3) by auto
    then show ?thesis using 2 assms(1) by (intro exI [of _ "- ENOENT"] exI [of _ "bump n s"]) (simp add: testfs_remove_dirent_def)
  next
    case 3
    have k: "valid_inr k" "iclean s k" "removable s k ret" using assms(6) 3(3) by auto
    have e: "ret < 0 \<Longrightarrow> ret = - ENOTEMPTY" using k(3) by (auto simp: removable_def split: if_splits)
    note d = entries.del_ok [OF assms(3), of name]
    show ?thesis
      using remove_dirent_ok [OF assms(1,2,4) 3 k r] 3 d e by (auto simp del: cstr_dots)
  qed
qed

theorem remove_dirent_correct_witness:
  "\<exists>s p nr s'. fs_inv s \<and> dir_ok s p [(cstr ''.'', nr), (cstr ''..'', nr)] \<and>
     testfs_remove_dirent s p (cstr ''b'') = Ret (- ENOENT, s') \<and> same_view s s'"
proof -
  obtain s p nr where s: "fs_inv s" "dir_ok s p [(cstr ''.'', nr), (cstr ''..'', nr)]" "valid_inr nr" "dir_room s" using ex_root_dir by blast
  have "\<exists>r s'. testfs_remove_dirent s p (cstr ''b'') = Ret (r, s') \<and> r = - ENOENT \<and> same_view s s'"
    using remove_dirent_correct [OF s(1,2) root_entries(1), of "cstr ''b''" 0] s(4) root_entries(3) [of "cstr ''b''" nr]
    by (auto simp: dir_room_def cstr_def of_char_def)
  then show ?thesis using s(1,2) by blast
qed

text \<open>
  C10: creating a file in a directory: a used name is refused with \<^verbatim>\<open>-EEXIST\<close> and nothing
  changes; otherwise the command succeeds when an inode and blocks are free, takes an inode number
  that was not in use, writes an empty file inode to its place on the device, binds the name to
  it and keeps every other name, leaves the directory clean and no reference behind, and keeps the
  invariant of the file system. Looking the name up afterwards finds the new number.
\<close>

theorem create_file_correct:
  assumes "fs_inv s" "dir_ok s p es" "ent_unique es" "live_used s" "free_zero s" "\<not> {0..<16384} \<subseteq> used (ibm s)"
    "0 \<notin> set name" "length name < 8192" "dir_size es + length name + 9 \<le> 16859136"
    "int (card (ublocks s)) + 9 \<le> max_fs_blocks (sb s)"
  shows "\<exists>s'. (case ent_lookup es name of
      Some k \<Rightarrow> testfs_create_file_or_dir s (Some p) I_FILE name = Ret (- EEXIST, s') \<and> same_view s s'
    | None \<Rightarrow> testfs_create_file_or_dir s (Some p) I_FILE name = Ret (0, s') \<and> fs_inv s' \<and>
        (\<exists>nr es'. nat nr \<notin> used (ibm s) \<and> used (ibm s') = insert (nat nr) (used (ibm s)) \<and> dir_ok s' p es' \<and>
           ent_unique es' \<and> ent_lookup es' = (ent_lookup es)(name \<mapsto> nr) \<and>
           disk_inode s' nr = zero_dinode\<lparr>i_type := type_code I_FILE\<rparr> \<and> \<not> idirty s' p \<and>
           (\<forall>q. q \<noteq> p \<longrightarrow> iheap s' q = iheap s q) \<and>
           (\<exists>s''. testfs_dir_name_to_inode_nr s' p name = Ret (nr, s''))))"
proof (cases "ent_lookup es name")
  case None
  have r: "dir_room s" using assms(10) by (simp add: dir_room_def)
  obtain s' where s': "testfs_create_file_or_dir s (Some p) I_FILE name = Ret (0, s')" "created s p es name I_FILE s'"
    using create_file_ok [OF assms(1,2,4,5,6,7,8) None assms(9) r] by blast
  then obtain nr es' where c: "fs_inv s'" "valid_inr nr" "nat nr \<notin> used (ibm s)" "used (ibm s') = insert (nat nr) (used (ibm s))"
    "ent_insert es name nr = Some es'" "dir_ok s' p es'" "\<not> idirty s' p" "disk_inode s' nr = zero_dinode\<lparr>i_type := type_code I_FILE\<rparr>"
    "\<forall>q. q \<noteq> p \<longrightarrow> iheap s' q = iheap s q"
    unfolding created_def by blast
  have "0 \<le> nr" using c(2) by (simp add: valid_inr_def)
  then have u: "ent_unique es'" "ent_lookup es' = (ent_lookup es)(name \<mapsto> nr)"
    using entries.ins_ok [OF assms(3) None, of nr] c(5) by auto
  have "malloc_works s'" using c(1) by (simp add: fs_inv_def)
  from dir_name_ok [OF c(6) this assms(7)] have "\<exists>s''. testfs_dir_name_to_inode_nr s' p name = Ret (nr, s'')"
    by (metis option.simps(5) u(2) fun_upd_same)
  then show ?thesis using None s'(1) c u by (intro exI [of _ s']) (simp, blast)
next
  case (Some k)
  have m: "malloc_works s" using assms(1) by (simp add: fs_inv_def)
  obtain n where "testfs_dir_name_to_inode_nr s p name = Ret (k, bump n s)"
    using dir_name_ok [OF assms(2) m assms(7)] Some by auto
  then show ?thesis using Some ent_lookup_nonneg [OF Some]
    by (intro exI [of _ "bump n s"]) (simp add: testfs_create_file_or_dir_def)
qed

theorem create_file_correct_witness:
  "\<exists>s p s' es'. testfs_create_file_or_dir s (Some p) I_FILE (cstr ''notes'') = Ret (0, s') \<and> fs_inv s' \<and> dir_ok s' p es' \<and>
     ent_lookup es' (cstr ''notes'') \<noteq> None"
proof -
  obtain s p nr where s: "fs_inv s" "dir_ok s p [(cstr ''.'', nr), (cstr ''..'', nr)]" "live_used s" "free_zero s" "dir_room s"
    "used (ibm s) = {nat nr}" using ex_root_dir by blast
  have f: "\<not> {0..<16384} \<subseteq> used (ibm s)"
  proof
    assume "{0..<16384} \<subseteq> used (ibm s)"
    then have "0 \<in> {nat nr}" "1 \<in> {nat nr}" unfolding s(6) by (auto simp: subset_iff)
    then show False by simp
  qed
  have "\<exists>s' nr' es'. testfs_create_file_or_dir s (Some p) I_FILE (cstr ''notes'') = Ret (0, s') \<and> fs_inv s' \<and> dir_ok s' p es' \<and>
      ent_lookup es' (cstr ''notes'') = Some nr'"
    using create_file_correct [OF s(1,2) root_entries(1) s(3,4) f, of "cstr ''notes''"] s(5) root_entries(3) [of "cstr ''notes''" nr]
      root_entries(2) [of nr]
    unfolding dir_room_def by (simp add: cstr_def of_char_def del: dir_size_simps ent_lookup.simps) (metis fun_upd_same)
  then show ?thesis by blast
qed

text \<open>
  C14: listing a directory ends, whatever bytes the directory and the device hold: with fuel for
  one step per byte of the directory, \<^verbatim>\<open>testfs_ls\<close> without recursion returns or aborts,
  and never runs on. The other walks over a directory are total functions by the same measure. The
  recursive listing is not covered: a directory that contains itself keeps it running.
\<close>

theorem ls_terminates:
  assumes "iheap s p = Some ino" "p < malloc_n s" "nat (i_size (i_in ino)) < fuel"
  shows "testfs_ls fuel s p False \<noteq> Crash Diverges"
proof -
  have "dir_span p (i_size (i_in ino)) s" using assms by (simp add: dir_span_def)
  then have "halts (testfs_ls_from fuel s p False 0)" using assms(3) by (intro ls_from_halts) simp_all
  then have "halts (testfs_ls fuel s p False)" unfolding testfs_ls_def by (intro halts_intros)
  then show ?thesis by (simp add: halts_def)
qed

theorem ls_terminates_witness:
  "\<exists>s p. iheap s p \<noteq> None \<and> testfs_ls 22 s p False \<noteq> Crash Diverges"
proof -
  obtain s p nr where s: "fs_inv s" "dir_ok s p [(cstr ''.'', nr), (cstr ''..'', nr)]" using ex_root_dir by blast
  obtain ino where i: "iheap s p = Some ino" "din s p = i_in ino" using dir_live [OF s(2)] by blast
  then have "i_size (i_in ino) = 21" using s(2) root_entries(2) [of nr] by (simp add: dir_ok_def dir_data_def del: dir_size_simps)
  moreover have "p < malloc_n s" using itab_live [OF _ i(1)] s(1) by (simp add: fs_inv_def inode_ok_def)
  ultimately show ?thesis using ls_terminates [OF i(1), of 22] i(1) by auto
qed

end
