(* ===== verification/FS_Shell.thy ===== *)
theory FS_Shell
  imports FS_Create
begin

text \<open>
  The commands on files (\<^verbatim>\<open>fs/file.c\<close>), the conversion of numbers (\<^verbatim>\<open>fs/common.c\<close>), the
  command interpreter (\<^verbatim>\<open>fs/testfs.c\<close>) and the program that makes a file system
  (\<^verbatim>\<open>fs/mktestfs.c\<close>). Option parsing is the \<^verbatim>\<open>popt\<close> library's: its results are parameters
  of the two main functions. The standard input is the list of the lines that
  \<^verbatim>\<open>getline\<close> returns.
\<close>

section \<open>Numbers\<close>

definition strtoll :: "byte list \<Rightarrow> int \<times> byte list" where
  "strtoll str =
    (case str_number str of (neg, n, rest) \<Rightarrow>
       (if neg then max (- n) (- 9223372036854775808) else min n 9223372036854775807, rest))"

definition strtoull :: "byte list \<Rightarrow> int \<times> byte list" where
  "strtoull str =
    (case str_number str of (neg, n, rest) \<Rightarrow>
       (if n > 18446744073709551615 then 18446744073709551615 else to_u64 (if neg then - n else n), rest))"

text \<open>The result and the value stored through the pointer, which is left alone on an error.\<close>

definition str_to_offset :: "byte list \<Rightarrow> int + int" where
  "str_to_offset str = (let (val, end) = strtoll str in if length end > 0 then Inl (- EINVAL) else Inr val)"

definition str_to_size :: "byte list \<Rightarrow> int + int" where
  "str_to_size str = (let (val, end) = strtoull str in if length end > 0 then Inl (- EINVAL) else Inr val)"

section \<open>Commands on files\<close>

definition testfs_get_file_inode :: "fs \<Rightarrow> nat \<Rightarrow> byte list \<Rightarrow> ((int + nat) \<times> fs) res" where
  "testfs_get_file_inode s dir name =
    bnd (testfs_dir_name_to_inode_nr s dir name) (\<lambda>(inode_nr, s1).
    if inode_nr < 0 then Ret (Inl inode_nr, s1)
    else
      bnd (testfs_get_inode s1 inode_nr) (\<lambda>(p, s2).
      bnd (testfs_inode_get_type s2 p) (\<lambda>t.
      if t = type_code I_DIR then bnd (testfs_put_inode s2 p) (\<lambda>s3. Ret (Inl (- EISDIR), s3))
      else Ret (Inr p, s2))))"

text \<open>The end of \<^verbatim>\<open>cmd_read\<close>: the bytes are read into a buffer and printed as a string.\<close>

definition read_and_print :: "fs \<Rightarrow> nat \<Rightarrow> int \<Rightarrow> int \<Rightarrow> (int \<times> fs) res" where
  "read_and_print s p offset sz =
    bnd (testfs_inode_get_size s p) (\<lambda>file_size.
    bnd (guard_ub (offset + to_s64 sz < 9223372036854775808)) (\<lambda>_.
    if offset + to_s64 sz > file_size then Ret (- EINVAL, s)
    else
      case c_malloc s of
        (None, s1) \<Rightarrow> Ret (- ENOMEM, s1)
      | (Some a, s1) \<Rightarrow>
          bnd (testfs_read_data s1 p (junk s1 a) offset sz) (\<lambda>(ret, buf).
          if ret \<ge> 0 then
            bnd (name_bytes (buf(nat sz := 0)) (Suc (nat sz)) 0) (\<lambda>str.
            Ret (ret, puts s1 (str @ [10])))
          else Ret (ret, s1))))"

definition cmd_read :: "fs \<Rightarrow> shell_context \<Rightarrow> (int \<times> fs) res" where
  "cmd_read s c =
    (if nargs c \<noteq> 4 then Ret (- EINVAL, s)
     else
       bnd (arg c 1) (\<lambda>filename.
       bnd (arg c 2) (\<lambda>a2.
         case str_to_offset a2 of
           Inl e \<Rightarrow> Ret (e, s)
         | Inr offset \<Rightarrow>
             if offset < 0 then Ret (- EINVAL, s)
             else
               bnd (arg c 3) (\<lambda>a3.
                 case str_to_size a3 of
                   Inl e \<Rightarrow> Ret (e, s)
                 | Inr sz \<Rightarrow>
                     bnd (testfs_get_file_inode s (cur_dir c) filename) (\<lambda>(r, s1).
                       case r of
                         Inl e \<Rightarrow> Ret (e, s1)
                       | Inr p \<Rightarrow>
                           bnd (read_and_print s1 p offset sz) (\<lambda>(ret, s2).
                           bnd (testfs_put_inode s2 p) (\<lambda>s3. Ret (ret, s3))))))))"

definition cmd_write :: "fs \<Rightarrow> shell_context \<Rightarrow> (int \<times> fs) res" where
  "cmd_write s c =
    (if nargs c \<noteq> 4 then Ret (- EINVAL, s)
     else
       bnd (arg c 1) (\<lambda>filename.
       bnd (arg c 2) (\<lambda>a2.
         case str_to_offset a2 of
           Inl e \<Rightarrow> Ret (e, s)
         | Inr offset \<Rightarrow>
             if offset < 0 then Ret (- EINVAL, s)
             else
               bnd (arg c 3) (\<lambda>buf.
               bnd (testfs_get_file_inode s (cur_dir c) filename) (\<lambda>(r, s1).
                 case r of
                   Inl e \<Rightarrow> Ret (e, s1)
                 | Inr p \<Rightarrow>
                     bnd (testfs_write_data s1 p (name_mem buf) offset (int (length buf))) (\<lambda>(ret, s2).
                     bnd (testfs_sync_inode s2 p) (\<lambda>s3.
                     bnd (testfs_put_inode s3 p) (\<lambda>s4. Ret (ret, s4)))))))))"

definition cmd_fsstat :: "fs \<Rightarrow> shell_context \<Rightarrow> (int \<times> fs) res" where
  "cmd_fsstat s c =
    (if nargs c \<noteq> 1 then Ret (- EINVAL, s)
     else Ret (0, puts s (cstr ''nr of allocated inodes = '' @ dec_int (to_s32 (used_inode_count (sb s))) @ [10] @
                     cstr ''nr of allocated blocks = '' @ dec_int (to_s32 (used_block_count (sb s))) @ [10])))"

section \<open>The command interpreter\<close>

datatype cmd_func =
    F_help | F_cd | F_pwd | F_ls | F_lsr | F_create | F_stat | F_rm | F_mkdir | F_read | F_write | F_fsstat | F_quit

record cmd_entry =
  ce_name :: string
  ce_func :: cmd_func
  max_args :: nat
  help_text :: string
  usage :: string

definition cmdtable :: "cmd_entry list" where
  "cmdtable =
    [\<lparr>ce_name = ''help'', ce_func = F_help, max_args = 1, help_text = ''prints this help message.'', usage = ''usage: help''\<rparr>,
     \<lparr>ce_name = ''cd'', ce_func = F_cd, max_args = 2, help_text = ''changes to directory DIR.'', usage = ''usage: cd DIR''\<rparr>,
     \<lparr>ce_name = ''pwd'', ce_func = F_pwd, max_args = 1, help_text = ''prints current directory.'', usage = ''usage: pwd''\<rparr>,
     \<lparr>ce_name = ''ls'', ce_func = F_ls, max_args = 2, help_text = ''lists files and directories in directory DIR.'',
       usage = ''usage: ls DIR''\<rparr>,
     \<lparr>ce_name = ''lsr'', ce_func = F_lsr, max_args = 2,
       help_text = ''recursively lists files and directories in directory DIR.'', usage = ''usage: lsr DIR''\<rparr>,
     \<lparr>ce_name = ''create'', ce_func = F_create, max_args = 2,
       help_text = ''creates a new file FILE in the current directory.'', usage = ''usage: create FILE''\<rparr>,
     \<lparr>ce_name = ''stat'', ce_func = F_stat, max_args = 2, help_text = ''prints information on file or dir named NAME.'',
       usage = ''usage: stat NAME''\<rparr>,
     \<lparr>ce_name = ''rm'', ce_func = F_rm, max_args = 2, help_text = ''removes a file or directory with name NAME.'',
       usage = ''usage: rm NAME''\<rparr>,
     \<lparr>ce_name = ''mkdir'', ce_func = F_mkdir, max_args = 2,
       help_text = ''creates a new directory DIR in the current directory.'', usage = ''usage: mkdir DIR''\<rparr>,
     \<lparr>ce_name = ''read'', ce_func = F_read, max_args = 4,
       help_text = ''reads SIZE bytes of ascii data from file FILE at offset OFFSET.'', usage = ''usage: read FILE OFFSET SIZE''\<rparr>,
     \<lparr>ce_name = ''write'', ce_func = F_write, max_args = 4,
       help_text = ''write ascii data DATA to file FILE at offset OFFSET.'', usage = ''usage: write FILE OFFSET DATA''\<rparr>,
     \<lparr>ce_name = ''fsstat'', ce_func = F_fsstat, max_args = 1, help_text = ''print inode and block usage.'', usage = ''usage: fsstat''\<rparr>,
     \<lparr>ce_name = ''quit'', ce_func = F_quit, max_args = 1, help_text = ''quits this program.'', usage = ''usage: quit''\<rparr>]"

text \<open>Messages to the standard error stream.\<close>

datatype shell_msg = Failed "byte list" int string | Not_Found "byte list"

record shell =
  sfs :: fs
  ctx :: shell_context
  can_quit :: bool
  serr :: "shell_msg list"

definition pad8 :: "byte list \<Rightarrow> byte list" where
  "pad8 bs = replicate (8 - length bs) 32 @ bs"

definition cmd_help :: "fs \<Rightarrow> int \<times> fs" where
  "cmd_help s = (0, puts s (cstr ''Commands:'' @ [10] @
     concat (map (\<lambda>e. pad8 (cstr (ce_name e)) @ cstr '' - '' @ cstr (help_text e) @ [32] @ cstr (usage e) @ [10]) cmdtable)))"

definition cmd_quit :: "shell \<Rightarrow> int \<times> shell" where
  "cmd_quit sh = (0, sh\<lparr>sfs := puts (sfs sh) (cstr ''Bye!'' @ [10]), can_quit := True\<rparr>)"

text \<open>
  \<^verbatim>\<open>strtok_r\<close>: the string is the argument or, when it is null, what the last call saved; the
  token ends at the first delimiter, behind which the next call continues. With both null the call is undefined.
\<close>

definition strtok_r :: "byte list \<Rightarrow> byte list option \<Rightarrow> byte list option \<Rightarrow> (byte list option \<times> byte list option) res" where
  "strtok_r delim str save =
    bnd (deref (case str of Some s \<Rightarrow> Some s | None \<Rightarrow> save)) (\<lambda>s.
    let t = dropWhile (\<lambda>b. b \<in> set delim) s in
    Ret (if t = [] then (None, Some [])
         else (Some (takeWhile (\<lambda>b. b \<notin> set delim) t), Some (drop 1 (dropWhile (\<lambda>b. b \<notin> set delim) t)))))"

definition blanks :: "byte list" where "blanks = [32, 9, 13, 10]"
definition line_ends :: "byte list" where "line_ends = [13, 10]"

text \<open>The loop of \<^verbatim>\<open>parse_command\<close>: the slots, \<^verbatim>\<open>j\<close>, \<^verbatim>\<open>args\<close> and \<^verbatim>\<open>save\<close> at its end.\<close>

function parse_args ::
  "nat \<Rightarrow> byte list option list \<Rightarrow> nat \<Rightarrow> byte list option \<Rightarrow> byte list option \<Rightarrow>
     (byte list option list \<times> nat \<times> byte list option \<times> byte list option) res" where
  "parse_args n sl j args save =
    (if j < n then
       bnd (strtok_r blanks args save) (\<lambda>(tok, save').
       let sl' = sl[j := tok] in
       if tok \<noteq> None then parse_args n sl' (Suc j) None save'
       else Ret (sl', j, args, save'))
     else Ret (sl, j, args, save))"
  by pat_completeness auto
termination
  by (relation "measure (\<lambda>(n, sl, j, args, save). n - j)") auto

declare parse_args.simps [simp del]

definition parse_command :: "cmd_entry \<Rightarrow> shell_context \<Rightarrow> byte list \<Rightarrow> byte list option \<Rightarrow> shell_context res" where
  "parse_command ce c name args =
    bnd (parse_args (max_args ce) ((cmd c)[0 := Some name]) 1 args None) (\<lambda>(sl, j, args', save).
    bnd (strtok_r line_ends args' save) (\<lambda>(tok, save').
    let sl' = sl[j := tok];
        j' = (if tok \<noteq> None then Suc j else j) in
    Ret (c\<lparr>nargs := int j', cmd := take (Suc j') sl' @ replicate (length sl' - Suc j') None\<rparr>)))"

text \<open>The call through the function pointer of the table.\<close>

definition call_cmd :: "nat \<Rightarrow> cmd_func \<Rightarrow> shell \<Rightarrow> (int \<times> shell) res" where
  "call_cmd fuel f sh =
    (let s = sfs sh; c = ctx sh; lift = (\<lambda>r. bnd r (\<lambda>(ret, s'). Ret (ret, sh\<lparr>sfs := s'\<rparr>))) in
     case f of
       F_help \<Rightarrow> lift (Ret (cmd_help s))
     | F_cd \<Rightarrow> bnd (cmd_cd s c) (\<lambda>(ret, c', s'). Ret (ret, sh\<lparr>sfs := s', ctx := c'\<rparr>))
     | F_pwd \<Rightarrow> lift (cmd_pwd fuel s c)
     | F_ls \<Rightarrow> lift (cmd_ls fuel s c)
     | F_lsr \<Rightarrow> lift (cmd_lsr fuel s c)
     | F_create \<Rightarrow> lift (cmd_create s c)
     | F_stat \<Rightarrow> lift (cmd_stat s c)
     | F_rm \<Rightarrow> lift (cmd_rm s c)
     | F_mkdir \<Rightarrow> lift (cmd_mkdir s c)
     | F_read \<Rightarrow> lift (cmd_read s c)
     | F_write \<Rightarrow> lift (cmd_write s c)
     | F_fsstat \<Rightarrow> lift (cmd_fsstat s c)
     | F_quit \<Rightarrow> Ret (cmd_quit sh))"

definition handle_command :: "nat \<Rightarrow> shell \<Rightarrow> byte list option \<Rightarrow> byte list option \<Rightarrow> shell res" where
  "handle_command fuel sh name args =
    (case name of
       None \<Rightarrow> Ret sh
     | Some nm \<Rightarrow>
         (case List.find (\<lambda>e. cstr (ce_name e) = nm) cmdtable of
            None \<Rightarrow> Ret (sh\<lparr>serr := serr sh @ [Not_Found nm]\<rparr>)
          | Some e \<Rightarrow>
              bnd (parse_command e (ctx sh) nm args) (\<lambda>c.
              bnd (call_cmd fuel (ce_func e) (sh\<lparr>ctx := c\<rparr>)) (\<lambda>(ret, sh2).
              Ret (if ret < 0 then sh2\<lparr>serr := serr sh2 @ [Failed nm ret (usage e)]\<rparr> else sh2)))))"

text \<open>The read-eval loop of \<^verbatim>\<open>main\<close>; it ends at the end of the input or after \<^verbatim>\<open>quit\<close>.\<close>

primrec shell_loop :: "nat \<Rightarrow> bool \<Rightarrow> bool \<Rightarrow> shell \<Rightarrow> byte list list \<Rightarrow> shell res" where
  "shell_loop fuel hide_prompt verbose sh [] =
     Ret (if hide_prompt then sh else sh\<lparr>sfs := puts (sfs sh) (cstr ''% '')\<rparr>)"
| "shell_loop fuel hide_prompt verbose sh (line # lines) =
     (let sh1 = (if hide_prompt then sh else sh\<lparr>sfs := puts (sfs sh) (cstr ''% '')\<rparr>) in
      if line \<noteq> [] \<and> hd line = 35 then shell_loop fuel hide_prompt verbose sh1 lines
      else
        let sh2 = (if verbose then sh1\<lparr>sfs := puts (sfs sh1) line\<rparr> else sh1) in
        bnd (strtok_r blanks (Some line) None) (\<lambda>(cname, save).
        bnd (strtok_r line_ends None save) (\<lambda>(pargs, _).
        bnd (handle_command fuel sh2 cname pargs) (\<lambda>sh3.
        if can_quit sh3 then Ret sh3 else shell_loop fuel hide_prompt verbose sh3 lines))))"

definition testfs_main :: "nat \<Rightarrow> int option \<Rightarrow> bool \<Rightarrow> bool \<Rightarrow> fs \<Rightarrow> byte list list \<Rightarrow> shell res" where
  "testfs_main fuel open_err hide_prompt verbose s0 lines =
    bnd (testfs_init_super_block open_err s0) (\<lambda>(ret, s1).
    if ret \<noteq> 0 then Crash (Exit_Error ''testfs_init_super_block'')
    else
      bnd (testfs_get_inode s1 0) (\<lambda>(p, s2).
      let c = \<lparr>nargs = 0, cmd = replicate (Suc MAX_ARGS) None, cur_dir = p\<rparr> in
      bnd (shell_loop fuel hide_prompt verbose \<lparr>sfs = s2, ctx = c, can_quit = False, serr = []\<rparr> lines) (\<lambda>sh.
      bnd (testfs_put_inode (sfs sh) (cur_dir (ctx sh))) (\<lambda>s3.
      bnd (testfs_close_super_block s3) (\<lambda>s4.
      Ret (sh\<lparr>sfs := s4\<rparr>))))))"

section \<open>Making a file system\<close>

text \<open>The size in megabytes is what the option parser left in \<^verbatim>\<open>fs_size_mb\<close>.\<close>

definition mktestfs_main :: "fs \<Rightarrow> int \<Rightarrow> fs res" where
  "mktestfs_main s fs_size_mb =
    (let max_fs_size_mb = int (BLOCK_FREEMAP_SIZE * BLOCK_SIZE * 8 * BLOCK_SIZE) div 2 ^ 20 in
     if fs_size_mb < 1 then Crash (Exit_Error ''minimum file system size is 1 MB'')
     else if fs_size_mb > max_fs_size_mb then Crash (Exit_Error ''maximum file system size'')
     else
       let max_blocks = fs_size_mb * 2 ^ 20 div int BLOCK_SIZE in
       bnd (format_device s max_blocks) (\<lambda>s1.
       bnd (testfs_make_root_dir s1) (\<lambda>(_, s2).
       bnd (testfs_close_super_block s2) (\<lambda>s3.
       let max_file_blocks = int (NR_DIRECT_BLOCKS + NR_INDIRECT_BLOCKS + NR_INDIRECT_BLOCKS * NR_INDIRECT_BLOCKS) in
       Ret (puts s3 (cstr ''block size: '' @ dec_int (int BLOCK_SIZE) @ [10] @
         cstr ''max file system blocks: '' @ dec_int max_blocks @ [10] @
         cstr ''max file system size: '' @ dec_int (max_blocks * int BLOCK_SIZE) @ [10, 10] @
         cstr ''inode size: '' @ dec_int (int SIZEOF_DINODE) @ [10] @
         cstr ''max number of inodes: '' @ dec_int (int (NR_INODE_BLOCKS * INODES_PER_BLOCK)) @ [10] @
         cstr ''max file size: '' @ dec_int (max_file_blocks * int BLOCK_SIZE) @ cstr '' bytes'' @ [10, 10]))))))"

section \<open>Parsing a command line\<close>

text \<open>
  The shape of a parsed command: all slots present, the first \<^verbatim>\<open>nargs\<close> of them strings and
  the slots behind the next one null.
\<close>

definition ctx_ok :: "nat \<Rightarrow> shell_context \<Rightarrow> bool" where
  "ctx_ok n c \<longleftrightarrow> length (cmd c) = Suc MAX_ARGS \<and> 1 \<le> nargs c \<and> nargs c \<le> int n + 1 \<and>
     (\<forall>k < nat (nargs c). cmd c ! k \<noteq> None) \<and> (\<forall>k. nat (nargs c) < k \<longrightarrow> k \<le> MAX_ARGS \<longrightarrow> cmd c ! k = None)"

lemma strtok_r_ok:
  assumes "args \<noteq> None \<or> save \<noteq> None"
  obtains tok sv where "strtok_r delim args save = Ret (tok, sv)" "sv \<noteq> None"
proof -
  have "\<exists>tok sv. strtok_r delim args save = Ret (tok, sv) \<and> sv \<noteq> None"
    using assms by (cases args) (auto simp: strtok_r_def Let_def)
  then show ?thesis using that by blast
qed

lemma parse_args_ok:
  assumes "args \<noteq> None \<or> save \<noteq> None" "j \<le> max n 1" "max n 1 < length sl" "\<forall>k<j. sl ! k \<noteq> None"
  shows "\<exists>sl' j' args' save'. parse_args n sl j args save = Ret (sl', j', args', save') \<and> (args' \<noteq> None \<or> save' \<noteq> None) \<and>
    length sl' = length sl \<and> j \<le> j' \<and> j' \<le> max n 1 \<and> (\<forall>k<j'. sl' ! k \<noteq> None)"
  using assms
proof (induction n sl j args save rule: parse_args.induct)
  case (1 n sl j args save)
  obtain tok sv where t: "strtok_r blanks args save = Ret (tok, sv)" "sv \<noteq> None" by (rule strtok_r_ok [OF 1(2)])
  consider "\<not> j < n" | "j < n" "tok = None" | "j < n" "tok \<noteq> None" by blast
  then show ?case
  proof cases
    case 1
    then show ?thesis using "1.prems" by (simp add: parse_args.simps)
  next
    case 2
    then show ?thesis using "1.prems" t by (simp add: parse_args.simps [of n] nth_list_update)
  next
    case 3
    have r: "parse_args n sl j args save = parse_args n (sl[j := tok]) (Suc j) None sv"
      using 3 t by (simp add: parse_args.simps [of n sl])
    have "\<forall>k<Suc j. sl[j := tok] ! k \<noteq> None" using 1(4,5) 3 by (auto simp: nth_list_update)
    then show ?thesis unfolding r using 1(1) [OF 3(1) t(1) refl refl 3(2)] "1.prems" t(2) 3(1) by fastforce
  qed
qed

lemma parse_command_ok:
  assumes "length (cmd c) = Suc MAX_ARGS" "1 \<le> max_args ce" "max_args ce < MAX_ARGS"
  shows "\<exists>c'. parse_command ce c name (Some str) = Ret c' \<and> ctx_ok (max_args ce) c'"
proof -
  have "length ((cmd c)[0 := Some name]) = Suc MAX_ARGS" "(cmd c)[0 := Some name] ! 0 \<noteq> None" using assms(1) by simp_all
  then obtain sl j args' save where p: "parse_args (max_args ce) ((cmd c)[0 := Some name]) 1 (Some str) None = Ret (sl, j, args', save)"
    "args' \<noteq> None \<or> save \<noteq> None" and q: "length sl = Suc MAX_ARGS" "1 \<le> j" "j \<le> max_args ce" "\<forall>k<j. sl ! k \<noteq> None"
    using parse_args_ok [of "Some str" None 1 "max_args ce" "(cmd c)[0 := Some name]"] assms by auto
  obtain tok sv where t: "strtok_r line_ends args' save = Ret (tok, sv)" by (rule strtok_r_ok [OF p(2)])
  define j' where "j' = (if tok \<noteq> None then Suc j else j)"
  have e: "parse_command ce c name (Some str) =
      Ret (c\<lparr>nargs := int j', cmd := take (Suc j') (sl[j := tok]) @ replicate (length sl - Suc j') None\<rparr>)"
    using p(1) t by (simp add: parse_command_def j'_def)
  have "Suc j' \<le> length sl" using q assms(3) by (auto simp: j'_def)
  moreover have "\<forall>k<j'. sl[j := tok] ! k \<noteq> None"
    using q assms(3) by (auto simp: j'_def nth_list_update less_Suc_eq split: if_splits)
  ultimately show ?thesis
    unfolding ctx_ok_def e using q by (auto simp: nth_append j'_def split: if_splits)
qed

text \<open>Without an argument string the first call of \<^verbatim>\<open>strtok_r\<close> has nothing to work on.\<close>

lemma parse_command_no_args: "1 \<le> max_args ce \<Longrightarrow> parse_command ce c name None = Crash Undef"
  by (simp add: parse_command_def parse_args.simps [of "max_args ce"] strtok_r_def)

lemma cmdtable_max: "e \<in> set cmdtable \<Longrightarrow> 1 \<le> max_args e \<and> max_args e < MAX_ARGS"
  by (auto simp: cmdtable_def MAX_ARGS_def)

section \<open>Properties\<close>

text \<open>
  Offsets survive printing and reading: \<^verbatim>\<open>str_to_offset\<close> on the decimal digits of any
  64-bit number, negative ones included, gives the number back and no error.
\<close>

theorem offset_roundtrip:
  assumes "- (2 ^ 63) \<le> x" "x < 2 ^ 63"
  shows "str_to_offset (dec_int x) = Inr x"
  using assms by (auto simp: str_to_offset_def strtoll_def str_number_dec_all Let_def)

theorem offset_roundtrip_witness: "str_to_offset (dec_int (- 120)) = Inr (- 120)"
  using offset_roundtrip [of "- 120"] by simp

text \<open>
  C15: given an argument string, whatever it holds, \<^verbatim>\<open>parse_command\<close> for a command of the table leaves a
  well-formed context: the argument count is between one and one more than the table allows, so
  within the array, each argument below the count is a string, and the slots behind the next one
  are null. Reading an argument below the count is therefore never undefined. For a line that has only the name of
  the command, when there is no argument string, the parser itself is undefined.
\<close>

theorem parse_command_typed:
  assumes "e \<in> set cmdtable" "length (cmd c) = Suc MAX_ARGS"
  shows "(\<exists>c'. parse_command e c name (Some str) = Ret c' \<and> ctx_ok (max_args e) c' \<and> (\<forall>k < nat (nargs c'). is_ret (arg c' k))) \<and>
    parse_command e c name None = Crash Undef"
proof -
  obtain c' where c': "parse_command e c name (Some str) = Ret c'" "ctx_ok (max_args e) c'"
    using parse_command_ok [OF assms(2)] cmdtable_max [OF assms(1)] by blast
  then have "nat (nargs c') \<le> length (cmd c')"
    using cmdtable_max [OF assms(1)] by (auto simp: ctx_ok_def)
  then have "\<forall>k < nat (nargs c'). is_ret (arg c' k)" using c'(2) by (auto simp: ctx_ok_def arg_def is_ret_iff)
  then show ?thesis using c' parse_command_no_args cmdtable_max [OF assms(1)] by blast
qed

theorem parse_command_typed_witness:
  "(\<exists>c'. parse_command (cmdtable ! 1) \<lparr>nargs = 0, cmd = replicate 7 None, cur_dir = 1\<rparr> (cstr ''cd'') (Some (cstr '' usr  x'')) = Ret c' \<and> ctx_ok 2 c') \<and>
   parse_command (cmdtable ! 1) \<lparr>nargs = 0, cmd = replicate 7 None, cur_dir = 1\<rparr> (cstr ''cd'') None = Crash Undef"
  using parse_command_typed [of "cmdtable ! 1" "\<lparr>nargs = 0, cmd = replicate 7 None, cur_dir = 1\<rparr>" "cstr ''cd''" "cstr '' usr  x''"]
  by (auto simp: cmdtable_def MAX_ARGS_def)

end
