(* ===== verification/FS_Session.thy ===== *)
theory FS_Session
  imports FS_Shell
begin

text \<open>
  Commands in sequence: a file that is created, written and read by its name, through the
  directory, the inode table, the free maps and the block map. Between commands the file is not in
  memory: everything about it is read back from the device.
\<close>

section \<open>A named file at rest\<close>

definition holds_file :: "fs \<Rightarrow> nat \<Rightarrow> entry list \<Rightarrow> byte list \<Rightarrow> dinode \<Rightarrow> bool" where
  "holds_file s d es name e \<longleftrightarrow>
    fs_inv s \<and> dir_ok s d es \<and> 0 \<notin> set name \<and>
    (\<exists>nr. ent_lookup es name = Some nr \<and> valid_inr nr \<and> (\<forall>p ino. iheap s p = Some ino \<longrightarrow> i_nr ino \<noteq> nr) \<and> disk_inode s nr = e) \<and>
    i_type e \<noteq> type_code I_DIR \<and> file_ok s e \<and> backed s e {} \<and> fblocks (dblock s) e \<inter> fblocks (dblock s) (din s d) = {}"

lemma device_view:
  assumes "dev s' = dev s" "block_freemap s' = block_freemap s"
  shows "dblock s' = dblock s" "ublocks s' = ublocks s" "fbyte s' = fbyte s" "file_ok s' e = file_ok s e" "backed s' e X = backed s e X"
    "disk_inode s' = disk_inode s" "blk_eq s s' {}"
proof -
  show db: "dblock s' = dblock s" by (simp add: dblock_def fun_eq_iff assms)
  show ub: "ublocks s' = ublocks s" by (simp add: ublocks_def bbm_def assms)
  show "fbyte s' = fbyte s" by (simp add: fbyte_def bmap_def lblock_def fun_eq_iff Let_def db)
  show "file_ok s' e = file_ok s e" "backed s' e X = backed s e X" by (simp_all add: file_ok_def backed_def on_dev_def assms db ub)
  show "disk_inode s' = disk_inode s" by (simp add: disk_inode_def fun_eq_iff assms)
  show "blk_eq s s' {}" by (simp add: blk_eq_def db)
qed

text \<open>The file is opened through the directory.\<close>

lemma open_file_ok:
  assumes h: "holds_file s d es name e"
  obtains q s1 ino where "testfs_get_file_inode s d name = Ret (Inr q, s1)" "fs_inv s1" "iheap s1 = (iheap s)(q := Some ino)"
    "iheap s q = None" "q \<noteq> d" "i_in ino = e" "i_count ino = 1" "\<not> i_dirty ino" "valid_inr (i_nr ino)" "ent_lookup es name = Some (i_nr ino)"
    "\<And>p i. iheap s p = Some i \<Longrightarrow> i_nr i \<noteq> i_nr ino"
    "dev s1 = dev s" "block_freemap s1 = block_freemap s" "sb s1 = sb s" "inode_freemap s1 = inode_freemap s" "sout s1 = sout s" "ready q s1" "dir_ok s1 d es"
proof -
  obtain nr where nr: "ent_lookup es name = Some nr" "valid_inr nr" "\<And>p ino. iheap s p = Some ino \<Longrightarrow> i_nr ino \<noteq> nr" "disk_inode s nr = e"
    using h by (auto simp: holds_file_def)
  have b: "fs_inv s" "dir_ok s d es" "0 \<notin> set name" "i_type e \<noteq> type_code I_DIR" "file_ok s e" "backed s e {}" using h by (simp_all add: holds_file_def)
  have i: "itab_inv s" "malloc_works s" using b(1) by (simp_all add: fs_inv_def)
  obtain n where lk: "testfs_dir_name_to_inode_nr s d name = Ret (nr, bump n s)" using dir_name_ok [OF b(2) i(2) b(3)] nr(1) by auto
  have inv: "fs_inv (bump n s)" using b(1) by simp
  obtain q s1 ino where g: "testfs_get_inode (bump n s) nr = Ret (q, s1)" "fs_inv s1" "iheap s1 = (iheap (bump n s))(q := Some ino)"
    "i_nr ino = nr" "i_in ino = ival (bump n s) nr" "sb s1 = sb (bump n s)" "dev s1 = dev (bump n s)" "inode_freemap s1 = inode_freemap (bump n s)"
    "block_freemap s1 = block_freemap (bump n s)" "malloc_ok s1 = malloc_ok (bump n s)" "sout s1 = sout (bump n s)" "malloc_n (bump n s) \<le> malloc_n s1"
    "iheap (bump n s) q = None \<and> i_count ino = 1 \<and> \<not> i_dirty ino \<or>
     (\<exists>i0. iheap (bump n s) q = Some i0 \<and> 0 < i_count i0 \<and> ino = i0\<lparr>i_count := i_count i0 + 1\<rparr>)"
    by (rule get_inode_view [OF inv nr(2)])
  have f: "iheap s q = None" "i_count ino = 1" "\<not> i_dirty ino" using g(4,13) nr(3) [of q] by auto
  have e: "i_in ino = e" using g(5) ival_none [OF i(1) nr(3)] nr(4) by simp
  have qd: "q \<noteq> d" using f(1) dir_live [OF b(2)] by auto
  have v: "dev s1 = dev s" "block_freemap s1 = block_freemap s" using g(7,9) by simp_all
  note dv = device_view [OF v]
  have sbi: "sb_inv s1" using g(2) by (simp add: fs_inv_def)
  have r: "ready q s1" using sbi g(3) e b(5,6) by (simp add: ready_def din_def dv)
  have dd: "dir_ok s1 d es"
    by (rule dir_frame [OF b(2) sbi _ _ dv(7)]) (use g(3) qd dir_live [OF b(2)] dir_blocks [OF b(2)] v in \<open>auto simp: din_def dv\<close>)
  have "0 \<le> nr" using nr(2) by (simp add: valid_inr_def)
  then have "testfs_get_file_inode s d name = Ret (Inr q, s1)"
    using lk g(1,3) e b(4) by (simp add: testfs_get_file_inode_def testfs_inode_get_type_def)
  then show ?thesis using that [of q s1 ino] g f e qd v r dd nr by simp
qed

text \<open>Writing an open file, writing its inode back and closing it.\<close>

lemma close_written_ok:
  assumes h: "holds_file s d es name e" and inv: "fs_inv s2" and q: "iheap s2 q = Some ino" "i_count ino = 1" "q \<noteq> d" "valid_inr (i_nr ino)"
    and hp: "iheap s2 = (iheap s)(q := Some ino)" and lk: "ent_lookup es name = Some (i_nr ino)"
    and un: "\<And>p i. iheap s p = Some i \<Longrightarrow> i_nr i \<noteq> i_nr ino" and r: "ready q s2" and d: "dir_ok s2 d es"
    and t: "i_type (i_in ino) \<noteq> type_code I_DIR" and dj: "fblocks (dblock s2) (i_in ino) \<inter> fblocks (dblock s2) (din s2 d) = {}"
    and fr: "iheap s q = None"
  obtains s3 s4 where "testfs_sync_inode s2 q = Ret s3" "testfs_put_inode s3 q = Ret s4" "holds_file s4 d es name (i_in ino)"
    "\<And>i. i < 34376597504 \<Longrightarrow> fbyte s4 (i_in ino) i = fbyte s2 (i_in ino) i" "ublocks s4 = ublocks s2" "sb s4 = sb s2" "sout s4 = sout s2"
    "ibm s4 = ibm s2"
proof -
  have i: "sb_inv s2" "itab_inv s2" using inv by (simp_all add: fs_inv_def)
  have fo: "file_ok s2 (i_in ino)" "backed s2 (i_in ino) {}" using r q(1) by (simp_all add: ready_def din_def)
  then have wf: "wf_dinode (i_in ino)" by (simp add: file_ok_def)
  obtain s3 where s3: "testfs_sync_inode s2 q = Ret s3" "itab_inv s3" "sb_inv s3"
    "iheap s3 = (iheap s2)(q := Some (ino\<lparr>i_dirty := False\<rparr>))" "disk_inode s3 (i_nr ino) = i_in ino"
    "blk_eq s2 s3 {18..<146}" "malloc_ok s3 = malloc_ok s2" "sout s3 = sout s2" "dlen (dev s3) = dlen (dev s2)"
    "bbm s3 = bbm s2" "ibm s3 = ibm s2" "sb s3 = sb s2"
    using sync_inode_ok [OF i q(1) wf] by metis
  have ub: "ublocks s3 = ublocks s2" by (simp add: ublocks_def s3(10))
  have X: "fblocks (dblock s2) (i_in ino) \<inter> {18..<146} = {}" "fblocks (dblock s2) (i_in ino) \<subseteq> ublocks s2"
    using fo(1) ublocks_bounds [OF i(1)] by (force simp: file_ok_def)+
  note ff = file_frame [OF i(1) fo s3(6) X(1)]
  have f3: "file_ok s3 (i_in ino)" "backed s3 (i_in ino) {}" "\<And>i. i < 34376597504 \<Longrightarrow> fbyte s3 (i_in ino) i = fbyte s2 (i_in ino) i"
    "fblocks (dblock s3) (i_in ino) = fblocks (dblock s2) (i_in ino)"
    using ff X(2) ub s3(9) by simp_all
  have dr: "file_ok s2 (din s2 d)" "backed s2 (din s2 d) {}" using d by (simp_all add: dir_ok_def ready_def)
  have fd: "fblocks (dblock s3) (din s2 d) = fblocks (dblock s2) (din s2 d)"
    by (rule file_frame(4) [OF i(1) dr s3(6)]) (use dir_blocks [OF d] ub s3(9) in auto)
  have din3: "iheap s3 d \<noteq> None" "din s3 d = din s2 d" using s3(4) q(3) dir_live [OF d] by (auto simp: din_def)
  have d3: "dir_ok s3 d es" by (rule dir_frame [OF d s3(3) din3 s3(6)]) (use dir_blocks [OF d] ub s3(9) in auto)
  have q3: "iheap s3 q = Some (ino\<lparr>i_dirty := False\<rparr>)" using s3(4) by simp
  obtain s4 where s4: "testfs_put_inode s3 q = Ret s4" "itab_inv s4"
    "iheap s4 = (iheap s3)(q := if i_count (ino\<lparr>i_dirty := False\<rparr>) = 1 then None else Some ((ino\<lparr>i_dirty := False\<rparr>)\<lparr>i_count := i_count (ino\<lparr>i_dirty := False\<rparr>) - 1\<rparr>))"
    "sb s4 = sb s3" "dev s4 = dev s3" "inode_freemap s4 = inode_freemap s3" "block_freemap s4 = block_freemap s3"
    "malloc_ok s4 = malloc_ok s3" "sout s4 = sout s3"
    by (rule put_inode_ok [OF s3(2) q3]) simp
  note dv = device_view [OF s4(5,7)]
  have hs: "iheap s4 = (iheap s)" using s4(3) s3(4) hp q(2) fr by (simp add: fun_eq_iff)
  have sb4: "sb_inv s4" using sb_inv_cong [OF s4(4-7)] s3(3) by simp
  have inv4: "fs_inv s4" using sb4 s4(2,8) s3(7) inv by (simp add: fs_inv_def malloc_works_def)
  have din4: "iheap s4 d \<noteq> None" "din s4 d = din s3 d" using s4(3) q(3) din3(1) by (auto simp: din_def)
  have d4: "dir_ok s4 d es" by (rule dir_frame [OF d3 sb4 din4 dv(7)]) (use dir_blocks [OF d3] s4(5) in \<open>auto simp: dv\<close>)
  have "holds_file s4 d es name (i_in ino)"
    unfolding holds_file_def using inv4 d4 h lk q(4) un hs s3(5) t f3 dj fd din3 din4 by (auto simp: dv holds_file_def)
  then show ?thesis using that [of s3 s4] s3 s4 f3(3) ub by (simp add: dv ibm_def)
qed


section \<open>The commands\<close>

text \<open>The context of a parsed command line with the given arguments.\<close>

definition ctx_args :: "shell_context \<Rightarrow> nat \<Rightarrow> byte list list \<Rightarrow> bool" where
  "ctx_args c d as \<longleftrightarrow> cur_dir c = d \<and> nargs c = int (length as) + 1 \<and> (\<forall>k < length as. arg c (Suc k) = Ret (as ! k))"

lemma size_of_dec: "0 \<le> x \<Longrightarrow> x < 18446744073709551616 \<Longrightarrow> str_to_size (dec_int x) = Inr x"
  by (simp add: str_to_size_def strtoull_def str_number_dec_all Let_def to_u64_def)

lemma offset_of_dec: "0 \<le> x \<Longrightarrow> x < 9223372036854775808 \<Longrightarrow> str_to_offset (dec_int x) = Inr x"
  by (simp add: str_to_offset_def strtoll_def str_number_dec_all Let_def)

lemma cmd_write_ok:
  assumes h: "holds_file s d es name e" and c: "ctx_args c d [name, dec_int (int a), data]"
    and n: "data \<noteq> []" "a + length data \<le> 34376597504" "length data < 2147483648"
    and w: "(a + length data - 1) div 8192 < 2058 \<or> i_dindirect e \<noteq> 0" "room s (length data div 8192 + 2)"
  obtains s' e' where "cmd_write s c = Ret (int (length data), s')" "holds_file s' d es name e'" "sout s' = sout s"
    "\<And>i. i < 34376597504 \<Longrightarrow> fbyte s' e' i = (if a \<le> i \<and> i < a + length data then data ! (i - a) else fbyte s e i)"
    "i_size e' = max (i_size e) (int (a + length data))" "i_dindirect e \<noteq> 0 \<longrightarrow> i_dindirect e' \<noteq> 0"
proof -
  obtain q s1 ino where o: "testfs_get_file_inode s d name = Ret (Inr q, s1)" "fs_inv s1" "iheap s1 = (iheap s)(q := Some ino)"
    "iheap s q = None" "q \<noteq> d" "i_in ino = e" "i_count ino = 1" "\<not> i_dirty ino" "valid_inr (i_nr ino)" "ent_lookup es name = Some (i_nr ino)"
    "\<And>p i. iheap s p = Some i \<Longrightarrow> i_nr i \<noteq> i_nr ino"
    "dev s1 = dev s" "block_freemap s1 = block_freemap s" "sb s1 = sb s" "inode_freemap s1 = inode_freemap s" "sout s1 = sout s" "ready q s1" "dir_ok s1 d es"
    by (rule open_file_ok [OF h]) blast
  note dv = device_view [OF o(12,13)]
  have d1: "din s1 q = e" using o(3,6) by (simp add: din_def)
  have rm: "int (card (ublocks s1)) + 3 * int (length data div 8192 + 2) \<le> max_fs_blocks (sb s1)" using w(2) o(14) by (simp add: room_def dv)
  have n0: "0 < length data" using n(1) by simp
  obtain s2 where s2: "testfs_write_data s1 q (name_mem data) (int a) (int (length data)) = Ret (int (length data), s2)" "written q s1 s2 a (length data) (name_mem data)"
    using write_data_ok [OF o(17) n0 n(2,3), of "name_mem data"] w(1) rm unfolding d1 by blast
  have f: "fstep q s1 s2" and sz: "i_size (din s2 q) = max (i_size e) (int (a + length data))"
    and bts: "\<And>i. i < 34376597504 \<Longrightarrow> fbyte s2 (din s2 q) i = (if a \<le> i \<and> i < a + length data then name_mem data (i - a) else fbyte s1 e i)"
    using s2(2) by (simp_all add: written_def wrote_bytes_def d1)
  have inv2: "fs_inv s2" by (rule written_fs_inv [OF o(2,17) s2(2)])
  obtain ino2 where i2: "iheap s2 = (iheap s1)(q := Some ino2)" "i_nr ino2 = i_nr ino" "i_count ino2 = i_count ino" "sout s2 = sout s1" "ready q s2"
    "i_type (din s2 q) = i_type e" "i_dindirect e \<noteq> 0 \<longrightarrow> i_dindirect (din s2 q) \<noteq> 0"
    using f o(3) d1 by (auto simp: fstep_def iupd_def)
  have e2: "din s2 q = i_in ino2" using i2(1) by (simp add: din_def)
  have dd: "din s2 d = din s1 d" "din s1 d = din s d" "iheap s2 d \<noteq> None" using i2(1) o(3,5) dir_live [OF o(18)] by (auto simp: din_def)
  have dok: "sb_inv s1" "file_ok s1 (din s1 d)" "backed s1 (din s1 d) {}" using o(18) by (simp_all add: dir_ok_def ready_def)
  have dj1: "fblocks (dblock s1) (din s1 d) \<inter> fblocks (dblock s1) (din s1 q) = {}" using h dd(2) d1 by (auto simp: holds_file_def dv)
  have dj2: "fblocks (dblock s2) (din s2 d) \<inter> fblocks (dblock s2) (din s2 q) = {}" using fstep_other(3) [OF f dok(1,2) dj1] dd(1) by simp
  have X: "blk_eq s1 s2 (fblocks (dblock s1) (din s1 q) \<union> fresh s1)" "ublocks s1 \<subseteq> ublocks s2" "dlen (dev s1) \<le> dlen (dev s2)" "sb_inv s2"
    using f by (simp_all add: fstep_def iupd_def)
  have d2: "dir_ok s2 d es"
    by (rule dir_frame [OF o(18) X(4) dd(3,1) X(1)]) (use dj1 dir_blocks(1) [OF o(18)] X in \<open>auto simp: fresh_def\<close>)
  have hp2: "iheap s2 = (iheap s)(q := Some ino2)" using i2(1) o(3) by simp
  have t2: "i_type (i_in ino2) \<noteq> type_code I_DIR" using i2(6) h e2 by (simp add: holds_file_def)
  obtain s3 s4 where cl: "testfs_sync_inode s2 q = Ret s3" "testfs_put_inode s3 q = Ret s4" "holds_file s4 d es name (i_in ino2)"
    "\<And>i. i < 34376597504 \<Longrightarrow> fbyte s4 (i_in ino2) i = fbyte s2 (i_in ino2) i" "sout s4 = sout s2"
    by (rule close_written_ok [OF h inv2 _ _ o(5) _ hp2 _ _ i2(5) d2 t2 _ o(4)]) (use i2 o(7,9-11) dj2 e2 in auto)
  have "name_mem data (i - a) = data ! (i - a)" if "a \<le> i" "i < a + length data" for i
    using that by (simp add: name_mem_def mem_of_list_def nth_append) linarith
  then have "fbyte s4 (i_in ino2) i = (if a \<le> i \<and> i < a + length data then data ! (i - a) else fbyte s e i)" if "i < 34376597504" for i
    using that cl(4) bts e2 by (simp add: dv)
  moreover have "cmd_write s c = Ret (int (length data), s4)"
  proof -
    have as: "arg c 1 = Ret name" "arg c 2 = Ret (dec_int (int a))" "arg c 3 = Ret data" "nargs c = 4" "cur_dir c = d"
      using c by (simp_all add: ctx_args_def less_Suc_eq numeral_3_eq_3 numeral_2_eq_2)
    have "str_to_offset (dec_int (int a)) = Inr (int a)" using n(2) by (intro offset_of_dec) auto
    then show ?thesis using as o(1) s2(1) cl(1,2) by (simp add: cmd_write_def)
  qed
  ultimately show ?thesis using that [of s4 "i_in ino2"] cl(3,5) sz i2 o(16) e2 by simp
qed


text \<open>Printing changes nothing but the output.\<close>

lemma itab_inv_puts [simp]: "itab_inv (puts s bs) = itab_inv s"
  by (simp add: puts_def itab_inv_def tbl_ok_def inode_ok_def disk_inode_def)

lemma puts_simps [simp]:
  "iheap (puts s bs) = iheap s" "dev (puts s bs) = dev s" "sb (puts s bs) = sb s" "inode_freemap (puts s bs) = inode_freemap s"
  "block_freemap (puts s bs) = block_freemap s" "malloc_ok (puts s bs) = malloc_ok s" "sout (puts s bs) = sout s @ bs"
  by (simp_all add: puts_def)

lemma printed_data:
  assumes "\<And>i. i < length data \<Longrightarrow> fbyte s e (a + i) = data ! i" "0 \<notin> set data"
  shows "name_bytes ((got s e a (length data) buf 0)(length data := 0)) (Suc (length data)) 0 = Ret data"
proof (rule name_bytes_ok [OF _ assms(2)])
  show "((got s e a (length data) buf 0)(length data := 0)) (0 + j) = (data @ [0]) ! j" if "j \<le> length data" for j
    using that assms(1) [of j] by (auto simp: got_def memcpy_def nth_append)
qed simp

lemma cmd_read_ok:
  assumes h: "holds_file s d es name e" and c: "ctx_args c d [name, dec_int (int a), dec_int (int (length data))]"
    and n: "a + length data \<le> 34376597504" "length data < 2147483648" "int (a + length data) \<le> i_size e" "i_size e \<le> 34376597504"
    and rd: "readable e (max (a div 8192) ((a + length data - 1) div 8192))"
    and bug: "\<not> (8192 < a mod 8192 + length data \<and> (a + length data) mod 8192 = 0)"
    and dt: "\<And>i. i < length data \<Longrightarrow> fbyte s e (a + i) = data ! i" "0 \<notin> set data"
  obtains s' where "cmd_read s c = Ret (int (length data), s')" "holds_file s' d es name e" "sout s' = sout s @ data @ [10]"
    "ublocks s' = ublocks s" "sb s' = sb s" "iheap s' = iheap s" "fbyte s' = fbyte s"
proof -
  obtain q s1 ino where o: "testfs_get_file_inode s d name = Ret (Inr q, s1)" "fs_inv s1" "iheap s1 = (iheap s)(q := Some ino)"
    "iheap s q = None" "q \<noteq> d" "i_in ino = e" "i_count ino = 1" "\<not> i_dirty ino" "valid_inr (i_nr ino)" "ent_lookup es name = Some (i_nr ino)"
    "\<And>p i. iheap s p = Some i \<Longrightarrow> i_nr i \<noteq> i_nr ino"
    "dev s1 = dev s" "block_freemap s1 = block_freemap s" "sb s1 = sb s" "inode_freemap s1 = inode_freemap s" "sout s1 = sout s" "ready q s1" "dir_ok s1 d es"
    by (rule open_file_ok [OF h]) blast
  let ?n = "length data" and ?b = "bump 1 s1"
  have d1: "din ?b q = e" using o(3,6) by (simp add: din_def)
  have fb: "fbyte ?b = fbyte s" using device_view(3) [of ?b s] o(12,13) by simp
  have m: "c_malloc s1 = (Some (malloc_n s1), ?b)" using o(2) by (simp add: c_malloc_def fs_inv_def malloc_works_def bump_def)
  have "copied_len a ?n = ?n" "?n = read_len e a ?n" using bug n(3) by (auto simp: copied_len_def read_len_def)
  then have rdd: "testfs_read_data ?b q buf (int a) (int ?n) = Ret (int ?n, got ?b e a ?n buf 0)" for buf
    using read_data_ok [of q ?b a ?n ?n buf] o(17) n rd d1 by simp
  let ?p = "puts ?b (data @ [10])"
  have pr: "name_bytes ((got ?b e a ?n buf 0)(?n := 0)) (Suc ?n) 0 = Ret data" for buf by (rule printed_data) (use dt fb in auto)
  have s64: "to_s64 (int ?n) = int ?n" using n(2) by (simp add: to_s64_def)
  have rp: "read_and_print s1 q (int a) (int ?n) = Ret (int ?n, ?p)"
    using o(3,6) n(1,3) m rdd pr s64 by (simp add: read_and_print_def testfs_inode_get_size_def)
  have ti: "itab_inv ?p" using bump_fs_inv [OF o(2), of 1] by (simp add: fs_inv_def)
  have hq: "iheap ?p q = Some ino" using o(3) by simp
  obtain s4 where s4: "testfs_put_inode ?p q = Ret s4" "itab_inv s4"
    "iheap s4 = (iheap ?p)(q := if i_count ino = 1 then None else Some (ino\<lparr>i_count := i_count ino - 1\<rparr>))"
    "sb s4 = sb ?p" "dev s4 = dev ?p" "inode_freemap s4 = inode_freemap ?p" "block_freemap s4 = block_freemap ?p"
    "malloc_ok s4 = malloc_ok ?p" "sout s4 = sout ?p"
    by (rule put_inode_ok [OF ti hq o(8)])
  have hs: "iheap s4 = iheap s" using s4(3) o(3,4,7) by (simp add: fun_eq_iff)
  have v: "dev s4 = dev s" "block_freemap s4 = block_freemap s" "sb s4 = sb s" "inode_freemap s4 = inode_freemap s" using s4(4-7) o(12-15) by simp_all
  note dv = device_view [OF v(1,2)]
  have sb4: "sb_inv s4" using sb_inv_cong [OF v(3,1,4,2)] h by (simp add: holds_file_def fs_inv_def)
  have inv4: "fs_inv s4" using sb4 s4(2,8) o(2) by (simp add: fs_inv_def malloc_works_def)
  have dk: "dir_ok s d es" using h by (simp add: holds_file_def)
  have "din s4 d = din s d" by (simp add: din_def hs)
  moreover have "dir_ok s4 d es"
    by (rule dir_frame [OF dk sb4 _ _ dv(7)]) (use hs dir_live [OF dk] dir_blocks [OF dk] v in \<open>auto simp: din_def dv\<close>)
  ultimately have "holds_file s4 d es name e" using h inv4 hs unfolding holds_file_def by (simp add: dv)
  moreover have "cmd_read s c = Ret (int ?n, s4)"
  proof -
    have as: "arg c 1 = Ret name" "arg c 2 = Ret (dec_int (int a))" "arg c 3 = Ret (dec_int (int ?n))" "nargs c = 4" "cur_dir c = d"
      using c by (simp_all add: ctx_args_def less_Suc_eq numeral_3_eq_3 numeral_2_eq_2)
    have "str_to_offset (dec_int (int a)) = Inr (int a)" "str_to_size (dec_int (int ?n)) = Inr (int ?n)"
      using n(1,2) by (auto intro!: offset_of_dec size_of_dec)
    then show ?thesis using as o(1) rp s4(1) by (simp add: cmd_read_def)
  qed
  ultimately show ?thesis using that [of s4] s4(9) o(16) hs v(3) by (simp add: dv)
qed


section \<open>Creating the file\<close>

lemma empty_file_ok:
  assumes "e = zero_dinode\<lparr>i_type := ty\<rparr>" "in_s32 ty"
  shows "file_ok s e" "backed s e {}" "fblocks (dblock s) e = {}" "i_size e = 0" "i_type e = ty"
proof -
  have "sval (dblock s) e x = 0" if "x \<in> slots" for x using that by (cases x) (simp_all add: assms(1) zero_dinode_def)
  then have l: "live (dblock s) e = {}" by (auto simp: live_def)
  then show "fblocks (dblock s) e = {}" by (simp add: fblocks_def)
  then show "file_ok s e" "backed s e {}" using assms l
    by (simp_all add: file_ok_def backed_def wf_dinode_def zero_dinode_def in_s32_def list_all_iff)
  show "i_size e = 0" "i_type e = ty" by (simp_all add: assms(1) zero_dinode_def)
qed

lemma cmd_create_ok:
  assumes inv: "fs_inv s" and d: "dir_ok s d es" and u: "ent_unique es" and lu: "live_used s" and fz: "free_zero s"
    and free: "\<not> {0..<16384} \<subseteq> used (ibm s)" and nm: "0 \<notin> set name" "ent_lookup es name = None"
    and sz: "dir_size es + length name + 9 \<le> 8192" and r: "room s (k + 3)" and c: "ctx_args c d [name]"
  obtains s' es' nr where "cmd_create s c = Ret (0, s')" "holds_file s' d es' name (zero_dinode\<lparr>i_type := type_code I_FILE\<rparr>)" "room s' (k + 2)"
    "ent_lookup es' = (ent_lookup es)(name \<mapsto> nr)" "ent_unique es'" "used (ibm s') = insert (nat nr) (used (ibm s))" "nat nr \<notin> used (ibm s)"
proof -
  have len: "length name < 8192" "dir_size es + length name + 9 \<le> 16859136" using sz by simp_all
  have dr: "dir_room s" using r by (simp add: dir_room_def room_def)
  obtain s' where s': "testfs_create_file_or_dir s (Some d) I_FILE name = Ret (0, s')" "created s d es name I_FILE s'"
    using create_file_ok [OF inv d lu fz free nm(1) len(1) nm(2) len(2) dr] by blast
  then obtain nr es' where cr: "fs_inv s'" "valid_inr nr" "nat nr \<notin> used (ibm s)" "ent_insert es name nr = Some es'" "dir_ok s' d es'"
    "disk_inode s' nr = zero_dinode\<lparr>i_type := type_code I_FILE\<rparr>" "\<forall>q. q \<noteq> d \<longrightarrow> iheap s' q = iheap s q"
    "map_option i_nr (iheap s' d) = map_option i_nr (iheap s d)" "\<forall>k. dir_size es + length name + 9 \<le> 8192 \<longrightarrow> room s (Suc k) \<longrightarrow> room s' k"
    "used (ibm s') = insert (nat nr) (used (ibm s))"
    unfolding created_def by blast
  have "0 \<le> nr" using cr(2) by (simp add: valid_inr_def)
  then have lk: "ent_unique es'" "ent_lookup es' = (ent_lookup es)(name \<mapsto> nr)" using entries.ins_ok [OF u nm(2), of nr] cr(4) by auto
  have un: "i_nr i \<noteq> nr" if p: "iheap s' p = Some i" for p i
  proof -
    have "\<exists>j. iheap s p = Some j \<and> i_nr j = i_nr i" using p cr(7,8) by (cases "p = d"; cases "iheap s d") auto
    then show ?thesis using lu cr(3) unfolding live_used_def by metis
  qed
  have "in_s32 (type_code I_FILE)" "type_code I_FILE \<noteq> type_code I_DIR" by (simp_all add: in_s32_def)
  then have "holds_file s' d es' name (zero_dinode\<lparr>i_type := type_code I_FILE\<rparr>)"
    unfolding holds_file_def using empty_file_ok(1-3) [where ty = "type_code I_FILE" and s = s', OF refl] empty_file_ok(5) [where ty = "type_code I_FILE", OF refl] cr(1,2,5,6) nm(1) lk(2) un by auto
  moreover have "room s' (k + 2)" using cr(9) [rule_format, of "k + 2"] sz r by (simp add: room_def)
  moreover have "cmd_create s c = Ret (0, s')" using s'(1) c by (simp add: cmd_create_def ctx_args_def)
  ultimately show ?thesis using that [of s' es' nr] lk cr(3,10) by blast
qed

section \<open>Removing a file\<close>

lemma cmd_rm_ok:
  assumes h: "holds_file s d es name e" and c: "ctx_args c d [name]" and u: "ent_unique es"
    and nm: "name \<noteq> cstr ''.''" "name \<noteq> cstr ''..''" and tr: "trimmed s e" and r: "dir_room s"
    and us: "\<And>nr. ent_lookup es name = Some nr \<Longrightarrow> nat nr \<in> used (ibm s)"
  shows "\<exists>s' nr. cmd_rm s c = Ret (0, s') \<and> fs_inv s' \<and> dir_ok s' d (ent_delete es name) \<and> \<not> idirty s' d \<and>
    ent_lookup (ent_delete es name) = (ent_lookup es)(name := None) \<and> ent_lookup es name = Some nr \<and>
    used (ibm s') = used (ibm s) - {nat nr} \<and> disk_inode s' nr = zero_dinode \<and>
    ublocks s' \<inter> fblocks (dblock s) e = {} \<and> ublocks s - fblocks (dblock s) e \<subseteq> ublocks s' \<and>
    (\<forall>q. q \<noteq> d \<longrightarrow> iheap s' q = iheap s q)"
proof -
  obtain nr where nr: "ent_lookup es name = Some nr" "valid_inr nr" "\<And>p ino. iheap s p = Some ino \<Longrightarrow> i_nr ino \<noteq> nr" "disk_inode s nr = e"
    using h by (auto simp: holds_file_def)
  have b: "fs_inv s" "dir_ok s d es" "0 \<notin> set name" "i_type e \<noteq> type_code I_DIR" "file_ok s e" "backed s e {}"
    "fblocks (dblock s) e \<inter> fblocks (dblock s) (din s d) = {}" using h by (simp_all add: holds_file_def)
  have it: "itab_inv s" using b(1) by (simp add: fs_inv_def)
  have cl: "iclean s nr" using nr(3) by (auto simp: iclean_def)
  have rmv: "removable s nr 0" using ival_none [OF it nr(3)] nr(4) b(4) by (simp add: removable_def)
  obtain s1 s2 us where s2: "testfs_remove_dirent s d name = Ret (nr, s2)" "fs_inv s2" "same_view s s1" "dir_ok s2 d (ent_delete es name)"
    "written d s1 s2 (dir_size us) (ent_size (name, - 1)) (ent_mem (name, - 1))"
    using remove_dirent_ok [OF b(1,2,3) nm nr(1,2) cl rmv r] by auto
  note sv = same_view_simps [OF s2(3)]
  have f: "fstep d s1 s2" using s2(5) by (simp add: written_def)
  obtain dn dn2 where hd: "iheap s d = Some dn" "iheap s2 = (iheap s)(d := Some dn2)" "i_nr dn2 = i_nr dn" "ibm s2 = ibm s" "dlen (dev s1) \<le> dlen (dev s2)"
    using f sv by (auto simp: fstep_def iupd_def)
  have un2: "i_nr i \<noteq> nr" if "iheap s2 p = Some i" for p i
  proof (cases "p = d")
    case True
    then have "i = dn2" using that hd(2) by simp
    then show ?thesis using hd(3) nr(3) [OF hd(1)] by simp
  next
    case False
    then show ?thesis using that hd(2) nr(3) by simp
  qed
  have X: "blk_eq s1 s2 (fblocks (dblock s1) (din s1 d) \<union> fresh s1)" "ublocks s1 \<subseteq> ublocks s2" "sb_inv s1"
    using f b(2) sv by (simp_all add: fstep_def dir_ok_def ready_def)
  have F: "fblocks (dblock s) e \<subseteq> ublocks s" using b(5) by (simp add: file_ok_def)
  have fe: "file_ok s1 e" "backed s1 e {}" using b(5,6) sv by simp_all
  have dj: "fblocks (dblock s1) e \<inter> (fblocks (dblock s1) (din s1 d) \<union> fresh s1) = {}" using b(7) F sv by (auto simp: fresh_def)
  have F2: "fblocks (dblock s1) e \<subseteq> ublocks s2" using F X(2) sv by simp
  note ff = file_frame [OF X(3) fe X(1) dj F2 hd(5)]
  have fe2: "fblocks (dblock s2) e = fblocks (dblock s) e" "live (dblock s2) e = live (dblock s) e" using ff(4,5) sv by simp_all
  have dk: "disk_inode s2 nr = e"
  proof -
    have "fblocks (dblock s1) (din s1 d) \<union> fresh s1 \<subseteq> {146..}"
      using b(2) ublocks_bounds [of s1] X(3) sv dir_blocks(1) [OF b(2)] by (auto simp: fresh_def)
    then show ?thesis using disk_inode_frame [OF X(1) _ nr(2)] sv nr(4) by simp
  qed
  obtain q s3 ino where g: "testfs_get_inode s2 nr = Ret (q, s3)" "fs_inv s3" "iheap s3 = (iheap s2)(q := Some ino)"
    "i_nr ino = nr" "i_in ino = ival s2 nr" "sb s3 = sb s2" "dev s3 = dev s2" "inode_freemap s3 = inode_freemap s2"
    "block_freemap s3 = block_freemap s2" "malloc_ok s3 = malloc_ok s2" "sout s3 = sout s2" "malloc_n s2 \<le> malloc_n s3"
    "iheap s2 q = None \<and> i_count ino = 1 \<and> \<not> i_dirty ino \<or>
     (\<exists>i0. iheap s2 q = Some i0 \<and> 0 < i_count i0 \<and> ino = i0\<lparr>i_count := i_count i0 + 1\<rparr>)"
    by (rule get_inode_view [OF s2(2) nr(2)])
  have q: "iheap s2 q = None" "i_count ino = 1" using g(4,13) un2 [of q] by auto
  have "itab_inv s2" using s2(2) by (simp add: fs_inv_def)
  then have e3: "i_in ino = e" "din s3 q = e" using g(3,5) ival_none [of s2 nr] un2 dk by (auto simp: din_def)
  note dv = device_view [OF g(7,9)]
  have qd: "q \<noteq> d" using q(1) hd(2) by auto
  have sb3: "sb_inv s3" using g(2) by (simp add: fs_inv_def)
  have d3: "dir_ok s3 d (ent_delete es name)"
    by (rule dir_frame [OF s2(4) sb3 _ _ dv(7)]) (use g(3,7) qd dir_live [OF s2(4)] dir_blocks [OF s2(4)] in \<open>auto simp: din_def dv\<close>)
  have r3: "ready q s3" using sb3 g(3) ff(1,2) e3 by (simp add: ready_def dv)
  have t3: "trimmed s3 (din s3 q)" using tr by (simp add: trimmed_def e3 dv fe2)
  have u3: "nat (i_nr ino) \<in> used (ibm s3)" using us [OF nr(1)] g(4,8) hd(4) by (simp add: ibm_def)
  have h3: "iheap s3 q = Some ino" using g(3) by simp
  obtain s4 where s4: "testfs_remove_inode s3 q = Ret s4" "removed q s3 s4" by (rule remove_inode_ok [OF g(2) r3 t3 h3 u3])
  have m: "fs_inv s4" "ublocks s4 = ublocks s3 - fblocks (dblock s) e" "used (ibm s4) = used (ibm s) - {nat nr}" "iheap s4 = (iheap s2)"
    "disk_inode s4 nr = zero_dinode" "blk_eq s3 s4 ({18..<146} \<union> fblocks (dblock s3) e)"
  proof -
    have ib: "ibm s3 = ibm s" using g(8) hd(4) by (simp add: ibm_def)
    show "fs_inv s4" "ublocks s4 = ublocks s3 - fblocks (dblock s) e" "used (ibm s4) = used (ibm s) - {nat nr}"
      "disk_inode s4 nr = zero_dinode" "blk_eq s3 s4 ({18..<146} \<union> fblocks (dblock s3) e)"
      using s4(2) h3 g(4) nr(2) by (auto simp: removed_def e3 dv fe2 ib)
    show "iheap s4 = iheap s2" using s4(2) h3 g(3) q by (auto simp: removed_def fun_eq_iff)
  qed
  have dl: "dlen (dev s3) \<le> dlen (dev s4)" using s4(2) by (auto simp: removed_def)
  have dd: "din s4 d = din s2 d" "din s3 d = din s2 d" "iheap s4 d = Some dn2" using m(4) g(3) qd hd(2) by (simp_all add: din_def)
  have dj3: "fblocks (dblock s3) (din s3 d) \<inter> ({18..<146} \<union> fblocks (dblock s3) e) = {}"
    using fstep_other(3) [OF f X(3) fe(1)] dj dir_blocks(2) [OF d3] by (auto simp: dd dv)
  have sb4: "sb_inv s4" "itab_inv s4" using m(1) by (simp_all add: fs_inv_def)
  have d4: "dir_ok s4 d (ent_delete es name)"
    by (rule dir_frame [OF d3 sb4(1) _ _ m(6) dj3]) (use dd dir_blocks(1) [OF d3] dj3 m(2) fe2 dl in \<open>auto simp: dv\<close>)
  have wf: "wf_dinode (i_in dn2)" using d4 dd(3) by (simp add: dir_ok_def ready_def file_ok_def din_def)
  obtain s5 where s5: "testfs_sync_inode s4 d = Ret s5" "fs_inv s5" "iheap s5 = (iheap s4)(d := Some (dn2\<lparr>i_dirty := False\<rparr>))"
    "disk_inode s5 (i_nr dn2) = i_in dn2" "\<And>n. valid_inr n \<Longrightarrow> n \<noteq> i_nr dn2 \<Longrightarrow> disk_inode s5 n = disk_inode s4 n"
    "dir_ok s5 d (ent_delete es name)" "ibm s5 = ibm s4" "ublocks s5 = ublocks s4" "sb s5 = sb s4"
    by (rule sync_dir [OF m(1) dd(3) wf d4]) blast
  have "nr \<noteq> i_nr dn2" using hd(3) nr(3) [OF hd(1)] by simp
  then have z: "disk_inode s5 nr = zero_dinode" using s5(5) [OF nr(2)] m(5) by simp
  have "0 \<le> nr" using nr(2) by (simp add: valid_inr_def)
  then have run: "cmd_rm s c = Ret (0, s5)"
    using s2(1) g(1) s4(1) s5(1) c by (simp add: cmd_rm_def ctx_args_def)
  have ub: "ublocks s5 \<inter> fblocks (dblock s) e = {}" "ublocks s - fblocks (dblock s) e \<subseteq> ublocks s5"
    using s5(8) m(2) X(2) sv by (auto simp: dv)
  have "\<not> idirty s5 d" using s5(3) by (simp add: idirty_def)
  moreover have "\<forall>q. q \<noteq> d \<longrightarrow> iheap s5 q = iheap s q" using s5(3) m(4) hd(2) by simp
  moreover have "used (ibm s5) = used (ibm s) - {nat nr}" using s5(7) m(3) by simp
  ultimately show ?thesis
    using run s5(2,6) z ub nr(1) ent_lookup_delete [OF u, of name] by (intro exI [of _ s5] exI [of _ nr] conjI) simp_all
qed

section \<open>Properties\<close>

text \<open>
  C16: in a directory without that name, the commands that create a file, write data at its start and read
  it back by its name succeed, and what the last one prints is the data. Nothing of the file stays in memory
  in between. The data has no null bytes, fits into the direct and single indirect blocks and does not end at a
  block boundary when it is longer than a block.
\<close>

theorem create_write_read:
  assumes "fs_inv s" "dir_ok s d es" "ent_unique es" "live_used s" "free_zero s" "\<not> {0..<16384} \<subseteq> used (ibm s)"
    "0 \<notin> set name" "ent_lookup es name = None" "dir_size es + length name + 9 \<le> 8192"
    and "data \<noteq> []" "0 \<notin> set data" "length data < 16859136" "\<not> (8192 < length data \<and> length data mod 8192 = 0)"
    and "int (card (ublocks s)) + 3 * int (length data div 8192 + 3) \<le> max_fs_blocks (sb s)"
    and c: "ctx_args c1 d [name]" "ctx_args c2 d [name, dec_int 0, data]" "ctx_args c3 d [name, dec_int 0, dec_int (int (length data))]"
  shows "\<exists>s1 s2 s3. cmd_create s c1 = Ret (0, s1) \<and> cmd_write s1 c2 = Ret (int (length data), s2) \<and>
    cmd_read s2 c3 = Ret (int (length data), s3) \<and> sout s3 = sout s1 @ data @ [10] \<and> fs_inv s3 \<and>
    (\<exists>es' nr. dir_ok s3 d es' \<and> ent_lookup es' = (ent_lookup es)(name \<mapsto> nr))"
proof -
  let ?n = "length data" and ?e = "zero_dinode\<lparr>i_type := type_code I_FILE\<rparr>"
  have r: "room s (?n div 8192 + 3)" using assms(14) by (simp add: room_def)
  obtain s1 es' nr where s1: "cmd_create s c1 = Ret (0, s1)" "holds_file s1 d es' name ?e" "room s1 (?n div 8192 + 2)"
    "ent_lookup es' = (ent_lookup es)(name \<mapsto> nr)"
    by (rule cmd_create_ok [OF assms(1-9) r c(1)]) blast
  have c2: "ctx_args c2 d [name, dec_int (int 0), data]" and c3: "ctx_args c3 d [name, dec_int (int 0), dec_int (int ?n)]" using c(2,3) by simp_all
  have l: "(0 + ?n - 1) div 8192 < 2058" using assms(12) by auto
  obtain s2 e2 where s2: "cmd_write s1 c2 = Ret (int ?n, s2)" "holds_file s2 d es' name e2" "sout s2 = sout s1"
    "\<And>i. i < 34376597504 \<Longrightarrow> fbyte s2 e2 i = (if 0 \<le> i \<and> i < 0 + ?n then data ! (i - 0) else fbyte s1 ?e i)"
    "i_size e2 = max (i_size ?e) (int (0 + ?n))"
    by (rule cmd_write_ok [OF s1(2) c2 assms(10) _ _ _ s1(3)]) (use assms(12) l in auto)
  have z: "i_size e2 = int ?n" using s2(5) by (simp add: zero_dinode_def)
  obtain s3 where s3: "cmd_read s2 c3 = Ret (int ?n, s3)" "holds_file s3 d es' name e2" "sout s3 = sout s2 @ data @ [10]"
    by (rule cmd_read_ok [OF s2(2) c3]) (use assms(11-13) l z s2(4) in \<open>auto simp: readable_def\<close>)
  show ?thesis using s1(1,4) s2(1,3) s3 by (intro exI [of _ s1] exI [of _ s2] exI [of _ s3]) (auto simp: holds_file_def)
qed

theorem create_write_read_witness:
  "\<exists>s d s1 s2 s3. cmd_create s \<lparr>nargs = 2, cmd = map Some [cstr ''create'', cstr ''f''], cur_dir = d\<rparr> = Ret (0, s1) \<and>
    cmd_write s1 \<lparr>nargs = 4, cmd = map Some [cstr ''write'', cstr ''f'', dec_int 0, cstr ''hello''], cur_dir = d\<rparr> = Ret (5, s2) \<and>
    cmd_read s2 \<lparr>nargs = 4, cmd = map Some [cstr ''read'', cstr ''f'', dec_int 0, dec_int 5], cur_dir = d\<rparr> = Ret (5, s3) \<and>
    sout s3 = sout s1 @ cstr ''hello'' @ [10]"
proof -
  obtain s p nr where s: "fs_inv s" "dir_ok s p [(cstr ''.'', nr), (cstr ''..'', nr)]" "live_used s" "free_zero s" "dir_room s"
    "used (ibm s) = {nat nr}" using ex_root_dir by blast
  have f: "\<not> {0..<16384} \<subseteq> used (ibm s)"
  proof
    assume "{0..<16384} \<subseteq> used (ibm s)"
    then have "0 \<in> {nat nr}" "1 \<in> {nat nr}" unfolding s(6) by (auto simp: subset_iff)
    then show False by simp
  qed
  have w: "cstr ''hello'' = [104, 101, 108, 108, 111]" "cstr ''f'' = [102]" by (simp_all add: cstr_def)
  let ?c = "\<lambda>as. \<lparr>nargs = int (length as), cmd = map Some as, cur_dir = p\<rparr>"
  have "\<exists>s1 s2 s3. cmd_create s (?c [cstr ''create'', cstr ''f'']) = Ret (0, s1) \<and>
      cmd_write s1 (?c [cstr ''write'', cstr ''f'', dec_int 0, cstr ''hello'']) = Ret (int (length (cstr ''hello'')), s2) \<and>
      cmd_read s2 (?c [cstr ''read'', cstr ''f'', dec_int 0, dec_int (int (length (cstr ''hello'')))]) = Ret (int (length (cstr ''hello'')), s3) \<and>
      sout s3 = sout s1 @ cstr ''hello'' @ [10] \<and> fs_inv s3 \<and> (\<exists>es' k. dir_ok s3 p es' \<and> ent_lookup es' = (ent_lookup [(cstr ''.'', nr), (cstr ''..'', nr)])(cstr ''f'' \<mapsto> k))"
    by (rule create_write_read [OF s(1,2) root_entries(1) s(3,4) f])
      (use s(5) in \<open>simp_all add: w root_entries ctx_args_def arg_def less_Suc_eq dir_room_def ent_size_def ent_is_def\<close>)
  then show ?thesis by (simp add: w) blast
qed


text \<open>
  C17: removing a file by its name succeeds, deletes exactly that name from the directory and writes the
  directory back, clears the inode on the device, gives its number and all its blocks back and
  no block of anything else, and leaves nothing of it in memory.
\<close>

theorem rm_removes_file:
  assumes "holds_file s d es name e" "ctx_args c d [name]" "ent_unique es" "name \<noteq> cstr ''.''" "name \<noteq> cstr ''..''" "trimmed s e"
    "int (card (ublocks s)) + 9 \<le> max_fs_blocks (sb s)" "\<forall>nr. ent_lookup es name = Some nr \<longrightarrow> nat nr \<in> used (ibm s)"
  shows "\<exists>s' nr. cmd_rm s c = Ret (0, s') \<and> fs_inv s' \<and> dir_ok s' d (ent_delete es name) \<and> \<not> idirty s' d \<and>
    ent_lookup (ent_delete es name) = (ent_lookup es)(name := None) \<and> ent_lookup es name = Some nr \<and>
    used (ibm s') = used (ibm s) - {nat nr} \<and> disk_inode s' nr = zero_dinode \<and>
    ublocks s' \<inter> fblocks (dblock s) e = {} \<and> ublocks s - fblocks (dblock s) e \<subseteq> ublocks s' \<and>
    (\<forall>q. q \<noteq> d \<longrightarrow> iheap s' q = iheap s q)"
  using cmd_rm_ok [OF assms(1-6)] assms(7,8) by (auto simp: dir_room_def)

theorem rm_removes_file_witness:
  "\<exists>s d s1 s2. cmd_create s \<lparr>nargs = 2, cmd = map Some [cstr ''create'', cstr ''f''], cur_dir = d\<rparr> = Ret (0, s1) \<and>
    cmd_rm s1 \<lparr>nargs = 2, cmd = map Some [cstr ''rm'', cstr ''f''], cur_dir = d\<rparr> = Ret (0, s2) \<and> used (ibm s2) = used (ibm s)"
proof -
  obtain s p nr where s: "fs_inv s" "dir_ok s p [(cstr ''.'', nr), (cstr ''..'', nr)]" "live_used s" "free_zero s" "room s (1 + 3)"
    "used (ibm s) = {nat nr}" "valid_inr nr" using ex_root_dir by auto
  have f: "\<not> {0..<16384} \<subseteq> used (ibm s)"
  proof
    assume "{0..<16384} \<subseteq> used (ibm s)"
    then have "0 \<in> {nat nr}" "1 \<in> {nat nr}" unfolding s(6) by (auto simp: subset_iff)
    then show False by simp
  qed
  have w: "cstr ''f'' = [102]" by (simp add: cstr_def)
  let ?c = "\<lambda>as. \<lparr>nargs = int (length as), cmd = map Some as, cur_dir = p\<rparr>"
  let ?es = "[(cstr ''.'', nr), (cstr ''..'', nr)]"
  have c: "ctx_args (?c [cstr ''create'', cstr ''f'']) p [cstr ''f'']" "ctx_args (?c [cstr ''rm'', cstr ''f'']) p [cstr ''f'']"
    by (simp_all add: ctx_args_def arg_def)
  have l: "ent_lookup ?es (cstr ''f'') = None" "0 \<notin> set (cstr ''f'')" "dir_size ?es + length (cstr ''f'') + 9 \<le> 8192"
    by (simp_all add: w ent_is_def ent_size_def)
  obtain s1 es1 k where s1: "cmd_create s (?c [cstr ''create'', cstr ''f'']) = Ret (0, s1)"
    "holds_file s1 p es1 (cstr ''f'') (zero_dinode\<lparr>i_type := type_code I_FILE\<rparr>)" "room s1 (1 + 2)" "ent_lookup es1 = (ent_lookup ?es)(cstr ''f'' \<mapsto> k)"
    "ent_unique es1" "used (ibm s1) = insert (nat k) (used (ibm s))" "nat k \<notin> used (ibm s)"
    by (rule cmd_create_ok [OF s(1,2) root_entries(1) s(3,4) f l(2,1,3) s(5) c(1)]) blast
  have "live (dblock s1) (zero_dinode\<lparr>i_type := type_code I_FILE\<rparr>) = {}"
    using empty_file_ok(3) [where s = s1 and ty = "type_code I_FILE", OF refl] by (simp add: fblocks_def in_s32_def)
  then have tr: "trimmed s1 (zero_dinode\<lparr>i_type := type_code I_FILE\<rparr>)" by (simp add: trimmed_def) (simp add: zero_dinode_def)
  obtain s2 j where "cmd_rm s1 (?c [cstr ''rm'', cstr ''f'']) = Ret (0, s2)" "ent_lookup es1 (cstr ''f'') = Some j"
    "used (ibm s2) = used (ibm s1) - {nat j}"
    using rm_removes_file [OF s1(2) c(2) s1(5) _ _ tr] s1(3,4,6) by (auto simp: w room_def)
  then have "cmd_rm s1 (?c [cstr ''rm'', cstr ''f'']) = Ret (0, s2) \<and> used (ibm s2) = used (ibm s)" using s1(4,6,7) by auto
  then show ?thesis using s1(1) by auto
qed

end
