(* ===== verification/FS_Variant.thy ===== *)
theory FS_Variant
  imports FS_Free
begin

text \<open>
  The other version of the file contents code (\<^verbatim>\<open>read_write.c\<close> in the top directory), against the one that
  is built (\<^verbatim>\<open>fs/read_write.c\<close>). Its \<^verbatim>\<open>testfs_read_block\<close> is the same function, and so are
  the parts of \<^verbatim>\<open>testfs_allocate_block\<close> behind its first tests. It differs in the error returns of reading, in
  the place of the test for the largest file, and in freeing the indirect blocks.
\<close>

section \<open>Reading\<close>

function v_read_full ::
  "fs \<Rightarrow> nat \<Rightarrow> int \<Rightarrow> int \<Rightarrow> int \<Rightarrow> mem \<Rightarrow> nat \<Rightarrow> (int \<times> mem + int \<times> int \<times> mem \<times> nat) res" where
  "v_read_full s p block_nr i tempSize buf pos =
     (if tempSize > BS then
        bnd (testfs_read_block s p (to_s32 (block_nr + (i + 1)))) (\<lambda>(ret, block).
        if ret < 0 then Ret (Inl (ret, buf))
        else v_read_full s p block_nr (i + 1) (tempSize - BS)
               (memcpy buf pos block 0 BLOCK_SIZE) (pos + BLOCK_SIZE))
      else Ret (Inr (i, tempSize, buf, pos)))"
  by pat_completeness auto
termination
  by (relation "measure (\<lambda>(s, p, block_nr, i, tempSize, buf, pos). nat tempSize)") auto

declare v_read_full.simps [simp del]

text \<open>The last block still assigns the comparison to \<^verbatim>\<open>ret\<close>.\<close>

definition v_read_data :: "fs \<Rightarrow> nat \<Rightarrow> mem \<Rightarrow> int \<Rightarrow> int \<Rightarrow> (int \<times> mem) res" where
  "v_read_data s p buf start size0 =
    (let block_nr = c_div start BS; block_ix = c_mod start BS in
     if size0 > to_u64 (MAX_FILE_BYTES - start) then Ret (- EFBIG, buf)
     else
       bnd (get_din s p) (\<lambda>d.
       let sz = (if to_s64 (start + to_s64 size0) > i_size d then to_u64 (i_size d - start) else size0) in
       if to_u64 (block_ix + sz) > BS then
         if sz > MAX_FILE_BYTES then Ret (- EFBIG, buf)
         else
           bnd (testfs_read_block s p (to_s32 block_nr)) (\<lambda>(ret, block).
           if ret < 0 then Ret (ret, buf)
           else
             bnd (guard_ub (0 \<le> block_ix)) (\<lambda>_.
             let first = BS - block_ix;
                 buf1 = memcpy buf 0 block (nat block_ix) (nat first);
                 rest = to_u64 (sz - first) in
             bnd (if rest > BS then v_read_full s p block_nr 0 (to_s64 rest) buf1 (nat first)
                  else Ret (Inr (0, to_s64 rest, buf1, nat first))) (\<lambda>r.
               case r of
                 Inl early \<Rightarrow> Ret early
               | Inr (i, tempSize, buf2, pos) \<Rightarrow>
                   if c_mod tempSize BS \<noteq> 0 then
                     bnd (testfs_read_block s p (to_s32 (block_nr + i + 1))) (\<lambda>(phy, block').
                     if phy < 0 then Ret (1, buf2)
                     else Ret (to_s32 sz, memcpy buf2 pos block' 0 (nat (c_mod tempSize BS))))
                   else Ret (to_s32 sz, buf2))))
       else
         bnd (testfs_read_block s p (to_s32 block_nr)) (\<lambda>(ret, block).
         if ret < 0 then Ret (ret, buf)
         else
           bnd (guard_ub (0 \<le> block_ix \<and> block_ix + sz \<le> BS)) (\<lambda>_.
           Ret (to_s32 sz, memcpy buf 0 block (nat block_ix) (nat sz))))))"

section \<open>Allocating and writing\<close>

text \<open>The third argument is the caller's block buffer, which is untouched beyond the limit.\<close>

definition v_allocate_block :: "fs \<Rightarrow> nat \<Rightarrow> mem \<Rightarrow> int \<Rightarrow> (int \<times> mem \<times> fs) res" where
  "v_allocate_block s p buffer log_block_nr =
    bnd (c_assert (log_block_nr \<ge> 0)) (\<lambda>_.
    if log_block_nr \<ge> MAX_FILE_BLOCKS then Ret (- EFBIG, buffer, s)
    else
      bnd (testfs_read_block s p log_block_nr) (\<lambda>(phy_block_nr, block).
      if phy_block_nr \<noteq> 0 then Ret (phy_block_nr, block, s)
      else if log_block_nr < int NR_DIRECT_BLOCKS then
        bnd (alloc_direct s p log_block_nr) (\<lambda>(phy, s1). Ret (phy, block, s1))
      else
        let log = log_block_nr - int NR_DIRECT_BLOCKS in
        if log \<ge> NRI then bnd (alloc_double s p log) (\<lambda>(phy, s1). Ret (phy, block, s1))
        else bnd (alloc_single s p log) (\<lambda>(phy, s1). Ret (phy, block, s1))))"

function v_write_full ::
  "fs \<Rightarrow> nat \<Rightarrow> mem \<Rightarrow> int \<Rightarrow> int \<Rightarrow> int \<Rightarrow> mem \<Rightarrow> nat \<Rightarrow> (int \<times> fs + int \<times> nat \<times> mem \<times> fs) res" where
  "v_write_full s p blk block_nr i tempSize buf pos =
     (if tempSize > BS then
        bnd (v_allocate_block s p blk (to_s32 (block_nr + (i + 1)))) (\<lambda>(ret, block, s1).
        if ret < 0 then Ret (Inl (ret, s1))
        else
          let block1 = memcpy block 0 buf pos BLOCK_SIZE in
          bnd (write_blocks s1 block1 ret 1) (\<lambda>s2.
          v_write_full s2 p block1 block_nr (i + 1) (tempSize - BS) buf (pos + BLOCK_SIZE)))
      else Ret (Inr (i, pos, blk, s)))"
  by pat_completeness auto
termination
  by (relation "measure (\<lambda>(s, p, blk, block_nr, i, tempSize, buf, pos). nat tempSize)") auto

declare v_write_full.simps [simp del]

definition v_write_data :: "fs \<Rightarrow> nat \<Rightarrow> mem \<Rightarrow> mem \<Rightarrow> int \<Rightarrow> int \<Rightarrow> (int \<times> fs) res" where
  "v_write_data s p blk buf start size0 =
    (let block_nr = c_div start BS; block_ix = c_mod start BS in
     if to_u64 (block_ix + size0) > BS then
       let lim = to_u64 (MAX_FILE_BYTES - start);
           check = (size0 > lim);
           sz = (if check then lim else size0) in
       bnd (v_allocate_block s p blk (to_s32 block_nr)) (\<lambda>(ret, block, s1).
       if ret < 0 then Ret (ret, s1)
       else
         bnd (guard_ub (0 \<le> block_ix)) (\<lambda>_.
         let first = BS - block_ix;
             rest = to_u64 (sz - first);
             block1 = memcpy block (nat block_ix) buf 0 (nat first) in
         bnd (write_blocks s1 block1 ret 1) (\<lambda>s2.
         bnd (if rest > BS then v_write_full s2 p block1 block_nr 0 (to_s64 rest) buf (nat first)
              else Ret (Inr (0, nat first, block1, s2))) (\<lambda>r.
           case r of
             Inl (ret', s3) \<Rightarrow> Ret (ret', s3)
           | Inr (i, pos, block2, s3) \<Rightarrow>
               if i = 0 then
                 bnd (v_allocate_block s3 p block2 (to_s32 (block_nr + 1))) (\<lambda>(ret', block', s4).
                 if ret' < 0 then write_out s4 p start sz check
                 else
                   bnd (guard_ub (rest \<le> BS)) (\<lambda>_.
                   bnd (write_blocks s4 (memcpy block' 0 buf pos (nat rest)) ret' 1) (\<lambda>s5.
                   write_out s5 p start sz check)))
               else
                 bnd (v_allocate_block s3 p block2 (to_s32 (block_nr + i + 1))) (\<lambda>(ret', block', s4).
                 if ret' < 0 then Ret (ret', s4)
                 else
                   let n = to_u64 (rest - i * BS) in
                   bnd (guard_ub (n \<le> BS)) (\<lambda>_.
                   bnd (write_blocks s4 (memcpy block' 0 buf pos (nat n)) ret' 1) (\<lambda>s5.
                   write_out s5 p start sz check)))))))
     else
       bnd (v_allocate_block s p blk (to_s32 block_nr)) (\<lambda>(ret, block, s1).
       if ret < 0 then Ret (ret, s1)
       else
         bnd (guard_ub (0 \<le> block_ix \<and> block_ix + size0 \<le> BS)) (\<lambda>_.
         bnd (write_blocks s1 (memcpy block (nat block_ix) buf 0 (nat size0)) ret 1) (\<lambda>s2.
         write_out s2 p start size0 False))))"

section \<open>Freeing\<close>

text \<open>The loop over the indirect block frees its entries without looking whether they are used.\<close>

function v_free_indirect :: "fs \<Rightarrow> nat \<Rightarrow> mem \<Rightarrow> int \<Rightarrow> nat \<Rightarrow> fs res" where
  "v_free_indirect s p block e_block_nr i =
     (if int i < e_block_nr \<and> i < NR_INDIRECT_BLOCKS then
        bnd (testfs_free_block_from_inode s p (get_s32 block (4 * i))) (\<lambda>s1.
        v_free_indirect s1 p (set_ptr block (int i) 0) e_block_nr (Suc i))
      else Ret s)"
  by pat_completeness auto
termination
  by (relation "measure (\<lambda>(s, p, b, e, i). NR_INDIRECT_BLOCKS - i)") auto

function v_free_inner :: "fs \<Rightarrow> nat \<Rightarrow> mem \<Rightarrow> int \<Rightarrow> nat \<Rightarrow> (int \<times> fs) res" where
  "v_free_inner s p block j k =
     (if k < NR_INDIRECT_BLOCKS then
        (if get_s32 block (4 * k) > 0 then
           bnd (testfs_free_block_from_inode s p (get_s32 block (4 * k))) (\<lambda>s1.
           v_free_inner s1 p (set_ptr block (int k) 0) (j + 1) (Suc k))
         else v_free_inner s p block (j + 1) (Suc k))
      else Ret (j, s))"
  by pat_completeness auto
termination
  by (relation "measure (\<lambda>(s, p, b, j, k). NR_INDIRECT_BLOCKS - k)") auto

function v_free_outer :: "fs \<Rightarrow> nat \<Rightarrow> mem \<Rightarrow> int \<Rightarrow> int \<Rightarrow> nat \<Rightarrow> fs res" where
  "v_free_outer s p dblock0 e_block_nr j i =
     (if i < NR_INDIRECT_BLOCKS \<and> j < e_block_nr then
        (if get_s32 dblock0 (4 * i) > 0 then
           bnd (read_blocks s (get_s32 dblock0 (4 * i)) 1) (\<lambda>block.
           bnd (v_free_inner s p block j 0) (\<lambda>(j', s1).
           bnd (testfs_free_block_from_inode s1 p (get_s32 dblock0 (4 * i))) (\<lambda>s2.
           v_free_outer s2 p (set_ptr dblock0 (int i) 0) e_block_nr j' (Suc i))))
         else v_free_outer s p dblock0 e_block_nr j (Suc i))
      else Ret s)"
  by pat_completeness auto
termination
  by (relation "measure (\<lambda>(s, p, b, e, j, i). NR_INDIRECT_BLOCKS - i)") auto

declare v_free_indirect.simps [simp del] v_free_inner.simps [simp del] v_free_outer.simps [simp del]

definition v_free_single_part :: "fs \<Rightarrow> nat \<Rightarrow> int \<Rightarrow> fs res" where
  "v_free_single_part s p e_block_nr =
    bnd (get_din s p) (\<lambda>d.
    if i_indirect d > 0 then
      bnd (read_blocks s (i_indirect d) 1) (\<lambda>block.
      bnd (v_free_indirect s p block e_block_nr 0) (\<lambda>s1.
      bnd (get_din s1 p) (\<lambda>d1.
      bnd (testfs_free_block_from_inode s1 p (i_indirect d1)) (\<lambda>s2.
      upd_din s2 p (i_indirect_update (\<lambda>_. 0))))))
    else Ret s)"

definition v_free_double_part :: "fs \<Rightarrow> nat \<Rightarrow> int \<Rightarrow> fs res" where
  "v_free_double_part s p e_block_nr =
    bnd (get_din s p) (\<lambda>d.
    if e_block_nr > 0 \<and> i_dindirect d > 0 then
      bnd (read_blocks s (i_dindirect d) 1) (\<lambda>dblock0.
      bnd (v_free_outer s p dblock0 e_block_nr 0 0) (\<lambda>s1.
      bnd (get_din s1 p) (\<lambda>d1.
      bnd (testfs_free_block_from_inode s1 p (i_dindirect d1)) (\<lambda>s2.
      upd_din s2 p (i_dindirect_update (\<lambda>_. 0))))))
    else Ret s)"

definition v_free_blocks :: "fs \<Rightarrow> nat \<Rightarrow> (int \<times> fs) res" where
  "v_free_blocks s p =
    bnd (get_din s p) (\<lambda>d.
    let e_block_nr = to_s32 (c_div (i_size d + BS - 1) BS) in
    bnd (free_direct s p e_block_nr 0) (\<lambda>s1.
    let e1 = e_block_nr - int NR_DIRECT_BLOCKS in
    bnd (v_free_single_part s1 p e1) (\<lambda>s2.
    let e2 = e1 - NRI in
    bnd (v_free_double_part s2 p e2) (\<lambda>s3.
    bnd (deref (iheap s3 p)) (\<lambda>ino.
    Ret (0, iset s3 p (ino\<lparr>i_in := (i_in ino)\<lparr>i_size := 0\<rparr>, i_dirty := True\<rparr>)))))))"

section \<open>Agreement: reading\<close>

text \<open>
  On a well-formed file a block pointer is never negative, so the early returns of the two loops, which differ,
  are not taken.
\<close>

lemma read_block_nonneg:
  assumes r: "ready p s" and ret: "testfs_read_block s p l = Ret (phy, b)"
  shows "0 \<le> phy"
proof (cases "readable (din s p) (nat l)")
  case True
  have "0 \<le> l" using ret by (auto simp: testfs_read_block_def res_simps)
  then have "testfs_read_block s p l = Ret (bmap s (din s p) (nat l), lblock s (din s p) (nat l))"
    using read_block_ready [OF r True] by simp
  then show ?thesis using ret bmap_nonneg [OF r] True by (simp add: readable_def)
next
  case False
  have l: "0 \<le> l" using ret by (auto simp: testfs_read_block_def res_simps)
  have g: "get_din s p = Ret (din s p)" using r get_din_din by (simp add: ready_def)
  have "file_ok s (din s p)" "sb_inv s" using r by (simp_all add: ready_def)
  from sval_nonneg [OF this, of SInd] sval_nonneg [OF this, of SDInd]
  have nn: "0 \<le> i_indirect (din s p)" "0 \<le> i_dindirect (din s p)" by simp_all
  have far: "2058 \<le> l" using False l by (auto simp: readable_def)
  have big: "\<not> (l - 2058) div 2048 < 2048" if "\<not> nat l < 4196362" using that l by linarith
  show ?thesis
    using ret False far l nn big unfolding testfs_read_block_def g Let_def
    by (auto simp: res_simps ptr_at_def NRI_def readable_def split: if_splits)
qed

lemma v_read_full_eq: "ready p s \<Longrightarrow> v_read_full s p block_nr i t buf pos = read_full s p block_nr i t buf pos"
proof (induction s p block_nr i t buf pos rule: v_read_full.induct)
  case (1 s p block_nr i t buf pos)
  show ?case
  proof (cases "t > BS")
    case True
    show ?thesis
    proof (cases "testfs_read_block s p (to_s32 (block_nr + (i + 1)))")
      case (Ret x)
      then have "0 \<le> fst x" using read_block_nonneg [OF 1(2)] by (metis prod.collapse)
      then show ?thesis
        using True Ret 1(1) [OF True, of x "fst x" "snd x"] 1(2) by (subst v_read_full.simps, subst read_full.simps) (simp add: case_prod_unfold)
    qed (use True in \<open>simp add: v_read_full.simps read_full.simps\<close>)
  qed (simp add: v_read_full.simps read_full.simps)
qed

lemma c_mod_lt:
  assumes "0 < b"
  shows "c_mod a b < b"
proof (cases "0 \<le> a")
  case False
  have "- a div b * b \<le> - a" using assms by (metis minus_mod_eq_div_mult pos_mod_sign diff_ge_0_iff_ge diff_diff_eq2 add_diff_cancel_left')
  then show ?thesis using False assms by (simp add: c_mod_def c_div_def)
qed (use assms in simp)

text \<open>The one place where the versions compute differently: the test before the loop is unsigned in this one.\<close>

lemma v_read_middle:
  assumes r: "ready p s" and sz: "to_u64 (ix + sz) > BS" "0 \<le> ix" "ix < BS" "0 \<le> sz" "sz \<le> MAX_FILE_BYTES"
  shows "(if to_u64 (sz - (BS - ix)) > BS then v_read_full s p bn 0 (to_s64 (to_u64 (sz - (BS - ix)))) b q
      else Ret (Inr (0, to_s64 (to_u64 (sz - (BS - ix))), b, q))) = read_full s p bn 0 (to_s64 (sz - (BS - ix))) b q"
proof -
  have "to_u64 (ix + sz) = ix + sz" using sz by (simp add: MAX_FILE_BYTES_def)
  then have "to_u64 (sz - (BS - ix)) = sz - (BS - ix)" "to_s64 (sz - (BS - ix)) = sz - (BS - ix)"
    using sz by (simp_all add: MAX_FILE_BYTES_def)
  then show ?thesis unfolding v_read_full_eq [OF r] by (simp add: read_full.simps)
qed

lemma v_read_data_eq:
  assumes r: "ready p s" and n: "0 \<le> n"
  shows "v_read_data s p buf a n = testfs_read_data s p buf a n"
proof -
  have nn: "0 \<le> (if P then to_u64 x else n)" for P x using n to_u64_range(1) by simp
  show ?thesis
    unfolding v_read_data_def testfs_read_data_def Let_def
    by (intro refl if_cong bnd_cong split_cong v_read_middle [OF r]) (auto simp: c_mod_lt nn res_simps)
qed


section \<open>Agreement: writing\<close>

text \<open>
  What this version returns when the other one returns: the block buffer may differ after an error, where it is not used.
\<close>

lemma v_allocate_block_agrees:
  assumes "testfs_allocate_block s p l = Ret (r, b, s1)"
  obtains b' where "v_allocate_block s p blk l = Ret (r, b', s1)" "0 \<le> r \<Longrightarrow> b' = b"
proof (cases "l \<ge> MAX_FILE_BLOCKS")
  case True
  then have "0 \<le> l" "r = - EFBIG" "s1 = s" using assms by (auto simp: testfs_allocate_block_def res_simps)
  then show ?thesis using that [of blk] True by (simp add: v_allocate_block_def EFBIG_def)
next
  case False
  then have "v_allocate_block s p blk l = testfs_allocate_block s p l"
    by (simp add: v_allocate_block_def testfs_allocate_block_def)
  then show ?thesis using that [of b] assms by simp
qed

lemma v_alloc_bnd:
  assumes "bnd (testfs_allocate_block s p l) (\<lambda>(r, b, s'). if r < 0 then f r s' else g r b s') = Ret y"
  shows "bnd (v_allocate_block s p blk l) (\<lambda>(r, b, s'). if r < 0 then f r s' else g r b s') = Ret y"
proof -
  obtain r b s1 where al: "testfs_allocate_block s p l = Ret (r, b, s1)" using assms by (auto simp: res_simps)
  obtain b' where "v_allocate_block s p blk l = Ret (r, b', s1)" "0 \<le> r \<Longrightarrow> b' = b"
    by (rule v_allocate_block_agrees [OF al]) blast
  then show ?thesis using assms al by auto
qed

lemma v_alloc_if:
  "(if c then bnd (testfs_allocate_block s p l) (\<lambda>(r, b, s'). if r < 0 then f r s' else g r b s')
    else bnd (testfs_allocate_block s p l') (\<lambda>(r, b, s'). if r < 0 then f' r s' else g' r b s')) = Ret y \<Longrightarrow>
   (if c then bnd (v_allocate_block s p blk l) (\<lambda>(r, b, s'). if r < 0 then f r s' else g r b s')
    else bnd (v_allocate_block s p blk l') (\<lambda>(r, b, s'). if r < 0 then f' r s' else g' r b s')) = Ret y"
  using v_alloc_bnd by (cases c) auto

lemma v_write_full_agrees:
  "write_full s p bn i t buf pos = Ret r \<Longrightarrow>
    \<exists>blk'. v_write_full s p blk bn i t buf pos = Ret (map_sum (\<lambda>e. e) (\<lambda>(i, pos, s). (i, pos, blk', s)) r)"
proof (induction s p blk bn i t buf pos arbitrary: r rule: v_write_full.induct)
  case (1 s p blk bn i t buf pos)
  show ?case
  proof (cases "t > BS")
    case False
    then show ?thesis using 1(2) by (subst v_write_full.simps) (auto simp: write_full.simps)
  next
    case True
    obtain ret b s1 where al: "testfs_allocate_block s p (to_s32 (bn + (i + 1))) = Ret (ret, b, s1)"
      using 1(2) True by (subst (asm) write_full.simps) (auto simp: res_simps)
    obtain b' where va: "v_allocate_block s p blk (to_s32 (bn + (i + 1))) = Ret (ret, b', s1)" "0 \<le> ret \<Longrightarrow> b' = b"
      by (rule v_allocate_block_agrees [OF al]) blast
    show ?thesis
    proof (cases "ret < 0")
      case neg: True
      then show ?thesis using 1(2) True al va(1) by (subst v_write_full.simps, subst (asm) write_full.simps) auto
    next
      case False
      let ?m = "memcpy b 0 buf pos BLOCK_SIZE"
      obtain s2 where s2: "write_blocks s1 ?m ret 1 = Ret s2" "write_full s2 p bn (i + 1) (t - BS) buf (pos + BLOCK_SIZE) = Ret r"
        using 1(2) True al False by (subst (asm) write_full.simps) (auto simp: res_simps)
      then obtain blk' where "v_write_full s2 p ?m bn (i + 1) (t - BS) buf (pos + BLOCK_SIZE) =
          Ret (map_sum (\<lambda>e. e) (\<lambda>(i, pos, s). (i, pos, blk', s)) r)"
        using 1(1) [OF True va(1) refl refl False] False va(2) by (fastforce simp: Let_def)
      then show ?thesis using True va False s2(1) by (subst v_write_full.simps) (auto simp: Let_def)
    qed
  qed
qed

lemma v_write_data_agrees:
  assumes "testfs_write_data s p buf a n = Ret r"
  shows "v_write_data s p blk buf a n = Ret r"
proof -
  let ?bn = "c_div a BS" and ?ix = "c_mod a BS"
  obtain ret b s1 where al: "testfs_allocate_block s p (to_s32 ?bn) = Ret (ret, b, s1)"
    using assms by (auto simp: testfs_write_data_def Let_def res_simps split: if_splits)
  obtain b' where va: "v_allocate_block s p blk (to_s32 ?bn) = Ret (ret, b', s1)" "0 \<le> ret \<Longrightarrow> b' = b"
    by (rule v_allocate_block_agrees [OF al]) blast
  show ?thesis
  proof (cases "ret < 0 \<or> \<not> to_u64 (?ix + n) > BS")
    case True
    then show ?thesis using assms al va by (auto simp: testfs_write_data_def v_write_data_def Let_def res_simps split: if_splits)
  next
    case False
    then have b: "b' = b" "\<not> ret < 0" "to_u64 (?ix + n) > BS" using va(2) by auto
    let ?m = "memcpy b (nat ?ix) buf 0 (nat (BS - ?ix))" and ?lim = "to_u64 (MAX_FILE_BYTES - a)"
    let ?sz = "if n > ?lim then ?lim else n"
    let ?rest = "to_u64 (?sz - (BS - ?ix))"
    obtain s2 x where s2: "0 \<le> ?ix" "write_blocks s1 ?m ret 1 = Ret s2"
      and x: "(if ?rest > BS then write_full s2 p ?bn 0 (to_s64 ?rest) buf (nat (BS - ?ix)) else Ret (Inr (0, nat (BS - ?ix), s2))) = Ret x"
      using assms al b by (auto simp: testfs_write_data_def Let_def res_simps simp del: BLOCK_SIZE_def)
    obtain blk' where vx: "(if ?rest > BS then v_write_full s2 p ?m ?bn 0 (to_s64 ?rest) buf (nat (BS - ?ix))
        else Ret (Inr (0, nat (BS - ?ix), ?m, s2))) = Ret (map_sum (\<lambda>e. e) (\<lambda>(i, pos, s). (i, pos, blk', s)) x)"
      using x v_write_full_agrees [of s2 p ?bn 0 "to_s64 ?rest" buf "nat (BS - ?ix)" x ?m] by (cases "?rest > BS") auto
    note o = assms [unfolded testfs_write_data_def Let_def al bnd.simps prod.case if_P [OF b(3)] if_not_P [OF b(2)]
        guard_ub_True [OF s2(1)] s2(2) x]
    show ?thesis
    proof (cases x)
      case (Inl e)
      show ?thesis
        unfolding v_write_data_def Let_def va(1) bnd.simps prod.case if_P [OF b(3)] if_not_P [OF b(2)] b(1)
          guard_ub_True [OF s2(1)] s2(2) vx
        using o Inl by simp
    next
      case (Inr y)
      obtain i pos s3 where y: "y = (i, pos, s3)" by (cases y)
      show ?thesis
        unfolding v_write_data_def Let_def va(1) bnd.simps prod.case if_P [OF b(3)] if_not_P [OF b(2)] b(1)
          guard_ub_True [OF s2(1)] s2(2) vx Inr y sum.case map_sum.simps
        using o unfolding Inr y sum.case prod.case by (rule v_alloc_if)
    qed
  qed
qed


section \<open>Agreement: freeing\<close>

lemma free_none [simp]: "testfs_free_block_from_inode s p 0 = Ret s"
  by (simp add: testfs_free_block_from_inode_def)

text \<open>Freeing an unused entry does nothing, so leaving out the test for it changes nothing.\<close>

lemma v_free_indirect_eq:
  "(\<And>k. i \<le> k \<Longrightarrow> k < NR_INDIRECT_BLOCKS \<Longrightarrow> get_s32 m (4 * k) = get_s32 m' (4 * k)) \<Longrightarrow>
    v_free_indirect s p m e i = free_indirect s p m' e i"
proof (induction "NR_INDIRECT_BLOCKS - i" arbitrary: s m m' i)
  case 0
  then show ?case by (simp add: v_free_indirect.simps free_indirect.simps)
next
  case (Suc n)
  have later: "get_s32 (set_ptr m (int i) 0) (4 * k) = get_s32 m' (4 * k)"
    "get_s32 (set_ptr m' (int i) 0) (4 * k) = get_s32 m' (4 * k)" if "Suc i \<le> k" "k < NR_INDIRECT_BLOCKS" for k
    using that Suc.prems [of k] by (simp_all add: get_set_ptr in_s32_def)
  have "v_free_indirect s1 p (set_ptr m (int i) 0) e (Suc i) = free_indirect s1 p m' e (Suc i)"
    "v_free_indirect s1 p (set_ptr m (int i) 0) e (Suc i) = free_indirect s1 p (set_ptr m' (int i) 0) e (Suc i)" for s1
    by (rule Suc.hyps(1); use Suc.hyps(2) later in simp)+
  then show ?case
    using Suc.hyps(2) Suc.prems [of i] by (subst v_free_indirect.simps, subst free_indirect.simps) simp
qed

text \<open>
  The inner loop of this version goes on behind the last block of the file. It frees the same blocks when there are no more.
\<close>

lemma v_free_inner_rest:
  "j \<le> 2048 \<Longrightarrow> (\<And>i. j \<le> i \<Longrightarrow> i < 2048 \<Longrightarrow> \<not> get_s32 m (4 * i) > 0) \<Longrightarrow> v_free_inner s p m k j = Ret (k + int (2048 - j), s)"
proof (induction "2048 - j" arbitrary: k j)
  case (Suc n)
  have "v_free_inner s p m (k + 1) (Suc j) = Ret (k + 1 + int (2048 - Suc j), s)"
    using Suc by (intro Suc.hyps(1)) auto
  moreover have "j < 2048" using Suc.hyps(2) by simp
  ultimately show ?case using Suc.prems(2) [of j] by (subst v_free_inner.simps) (simp add: of_nat_diff)
qed (simp add: v_free_inner.simps)

lemma v_free_inner_agrees:
  assumes "free_inner s p m e k j = Ret (k', s')" "j \<le> 2048"
    and "\<And>i. j \<le> i \<Longrightarrow> i < 2048 \<Longrightarrow> get_s32 m (4 * i) > 0 \<Longrightarrow> k + int (i - j) < e"
  shows "\<exists>k''. v_free_inner s p m k j = Ret (k'', s') \<and> (k'' = k' \<or> e \<le> k' \<and> e \<le> k'')"
  using assms
proof (induction "2048 - j" arbitrary: s m k j)
  case 0
  then show ?case by (simp add: v_free_inner.simps free_inner.simps)
next
  case (Suc n)
  have j: "j < 2048" "n = 2048 - Suc j" using Suc.hyps(2) by auto
  show ?case
  proof (cases "k < e")
    case False
    have "\<not> get_s32 m (4 * i) > 0" if "j \<le> i" "i < 2048" for i using Suc.prems(3) [OF that] False by fastforce
    then have "v_free_inner s p m k j = Ret (k + int (2048 - j), s)" using Suc.prems(2) by (intro v_free_inner_rest)
    then show ?thesis using Suc.prems(1) False by (auto simp: free_inner.simps)
  next
    case True
    have lim: "k + 1 + int (i - Suc j) < e" if "Suc j \<le> i" "i < 2048" "get_s32 m (4 * i) > 0" for i
      using Suc.prems(3) [of i] that by (simp add: of_nat_diff)
    have lim': "k + 1 + int (i - Suc j) < e" if "Suc j \<le> i" "i < 2048" "get_s32 (set_ptr m (int j) 0) (4 * i) > 0" for i
      using lim [of i] that by (simp add: get_set_ptr in_s32_def)
    show ?thesis
    proof (cases "get_s32 m (4 * j) > 0")
      case pos: True
      obtain s1 where s1: "testfs_free_block_from_inode s p (get_s32 m (4 * j)) = Ret s1"
        "free_inner s1 p (set_ptr m (int j) 0) e (k + 1) (Suc j) = Ret (k', s')"
        using Suc.prems(1) True pos j(1) by (subst (asm) free_inner.simps) (auto simp: res_simps)
      then show ?thesis using Suc.hyps(1) [OF j(2) s1(2) _ lim'] pos j(1) by (subst v_free_inner.simps) simp
    next
      case neg: False
      have "free_inner s p m e (k + 1) (Suc j) = Ret (k', s')"
        using Suc.prems(1) True neg j(1) by (subst (asm) free_inner.simps) simp
      then show ?thesis using Suc.hyps(1) [OF j(2) _ _ lim] neg j(1) by (subst v_free_inner.simps) simp
    qed
  qed
qed

lemma v_free_outer_eq:
  assumes ok: "file_ok s (din s p)" "sb_inv s" "backed s (din s p) {}"
    and de: "\<And>i j. i < 2048 \<Longrightarrow> j < 2048 \<Longrightarrow> sval (dblock s) (din s p) (SDE i j) \<noteq> 0 \<Longrightarrow> 2048 * int i + int j < e"
  shows "freed p s s1 (own s p Y) d \<Longrightarrow> (\<And>k. i \<le> k \<Longrightarrow> k < 2048 \<Longrightarrow> get_s32 m (4 * k) = sval (dblock s) (din s p) (SL2 k)) \<Longrightarrow>
    k \<le> 2048 * int i \<Longrightarrow> i \<le> 2048 \<Longrightarrow> Y \<inter> l2_rest i = {} \<Longrightarrow> h = k \<or> e \<le> h \<and> e \<le> k \<Longrightarrow>
    v_free_outer s1 p m e h i = free_outer s1 p m e k i"
proof (induction "2048 - i" arbitrary: s1 Y m i k h)
  case 0
  then show ?case by (simp add: v_free_outer.simps free_outer.simps)
next
  case (Suc n)
  let ?w = "\<lambda>x. sval (dblock s) (din s p) x"
  have i: "i < 2048" "n = 2048 - Suc i" using Suc.hyps(2) by auto
  have mi: "get_s32 m (4 * i) = ?w (SL2 i)" using Suc.prems(2) [of i] i by simp
  have Y: "Y \<inter> l2_slots i = {}" "Y \<inter> l2_rest (Suc i) = {}" using Suc.prems(5) l2_rest_step [OF i(1)] by auto
  show ?case
  proof (cases "k < e")
    case False
    then show ?thesis using Suc.prems(6) by (subst v_free_outer.simps, subst free_outer.simps) auto
  next
    case k: True
    then have h: "h = k" using Suc.prems(6) by auto
    show ?thesis
    proof (cases "?w (SL2 i) = 0")
      case True
      have "v_free_outer s1 p m e k (Suc i) = free_outer s1 p m e k (Suc i)"
        using i Suc.prems Y(2) by (intro Suc.hyps(1)) auto
      then show ?thesis using True k i mi h by (subst v_free_outer.simps, subst free_outer.simps) simp
    next
      case False
      have lim: "k + int j < e" if "j < 2048" "?w (SDE i j) \<noteq> 0" for j using de [OF i(1) that] Suc.prems(3) by linarith
      obtain m' s2 k' s3 where st: "read_blocks s1 (?w (SL2 i)) 1 = Ret m'" "free_inner s1 p m' e k 0 = Ret (k', s2)"
        "k' \<le> k + 2048" "testfs_free_block_from_inode s2 p (?w (SL2 i)) = Ret s3"
        "freed p s s3 (own s p (Y \<union> l2_slots i)) d"
        using free_l2_ok [OF ok i(1) Suc.prems(1) Y(1) False, where k = k and e = e] lim by blast
      have "get_s32 m' (4 * j) = ?w (SDE i j)" if "j < 2048" for j
        using l2_block [OF ok i(1) Suc.prems(1) Y(1) False] st(1) that by (metis res.inject(1))
      then obtain k'' where v': "v_free_inner s1 p m' k 0 = Ret (k'', s2)" "k'' = k' \<or> e \<le> k'' \<and> e \<le> k'"
        using v_free_inner_agrees [OF st(2)] lim by force
      have ent: "get_s32 (set_ptr m (int i) 0) (4 * k) = ?w (SL2 k)" if "Suc i \<le> k" "k < 2048" for k
        using that Suc.prems(2) [of k] by (simp add: get_set_ptr in_s32_def)
      have "v_free_outer s3 p (set_ptr m (int i) 0) e k'' (Suc i) = free_outer s3 p (set_ptr m (int i) 0) e k' (Suc i)"
        using i Suc.prems(3) st(3) Y(2) l2_slots_rest [of i] v'(2) by (intro Suc.hyps(1) [OF _ st(5)] ent) auto
      moreover have "0 < ?w (SL2 i)" using False sval_nonneg [OF ok(1,2), of "SL2 i"] i by simp
      ultimately show ?thesis
        using k i mi h v'(1) st(1,2,4) by (subst v_free_outer.simps, subst free_outer.simps) simp
    qed
  qed
qed


lemma v_free_single_part_agrees:
  "free_single_part s p e = Ret s' \<Longrightarrow> v_free_single_part s p e = Ret s'"
  using v_free_indirect_eq [OF refl] by (auto simp: free_single_part_def v_free_single_part_def res_simps split: if_splits)

lemma v_free_double_part_eq:
  assumes ok: "file_ok s (din s p)" "sb_inv s" "backed s (din s p) {}"
    and f: "freed p s s1 (own s p Y) d" and Y: "Y \<inter> insert SDInd (l2_rest 0) = {}" and d: "i_dindirect d = i_dindirect (din s p)"
    and de: "\<And>i j. i < 2048 \<Longrightarrow> j < 2048 \<Longrightarrow> sval (dblock s) (din s p) (SDE i j) \<noteq> 0 \<Longrightarrow> 2048 * int i + int j < e"
  shows "v_free_double_part s1 p e = free_double_part s1 p e"
proof (cases "i_dindirect d = 0")
  case True
  then show ?thesis using freed_din [OF f] by (simp add: v_free_double_part_def free_double_part_def)
next
  case False
  let ?b = "sval (dblock s) (din s p) SDInd"
  have b: "?b \<in> ublocks s" "?b \<notin> own s p Y" "on_dev s ?b"
    using file_ok_slot [OF ok(1), of SDInd] own_iff [OF ok(1), of SDInd] Y backed_slot [OF ok(3), of SDInd] False d by auto
  obtain m where m: "read_blocks s1 ?b (Suc 0) = Ret m" "\<And>k. k < 2048 \<Longrightarrow> get_s32 m (4 * k) = bget (dblock s) ?b k"
    by (rule freed_read [OF f ok(2) b]) blast
  have "v_free_outer s1 p m e 0 0 = free_outer s1 p m e 0 0"
    by (rule v_free_outer_eq [OF ok de f]) (use m(2) Y in auto)
  then show ?thesis using freed_din [OF f] m(1) d by (simp add: v_free_double_part_def free_double_part_def)
qed

lemma v_free_blocks_eq:
  assumes r: "ready p s" and tr: "trimmed s (din s p)"
  shows "v_free_blocks s p = testfs_free_blocks s p"
proof -
  let ?e = "all_blocks (din s p)"
  have ok: "file_ok s (din s p)" "sb_inv s" "backed s (din s p) {}" and live: "iheap s p \<noteq> None" using r by (auto simp: ready_def)
  obtain s1 s2 where st: "free_direct s p ?e 0 = Ret s1" "free_single_part s1 p (?e - 10) = Ret s2"
    "freed p s s2 (own s p first_slots) ((din s p)\<lparr>i_block_nr := replicate 10 0, i_indirect := 0\<rparr>)"
    using free_blocks_first [OF assms] by blast
  have "v_free_double_part s2 p (?e - 10 - 2048) = free_double_part s2 p (?e - 10 - 2048)"
    by (rule v_free_double_part_eq [OF ok st(3) first_slots_disj]) (use trimmed_double [OF tr] in simp_all)
  then show ?thesis
    using st(1,2) v_free_single_part_agrees [OF st(2)] get_din_din [OF live]
    by (simp add: v_free_blocks_def testfs_free_blocks_def all_blocks_def NRI_def Let_def)
qed

section \<open>Properties\<close>

text \<open>
  C18: the two versions of \<^verbatim>\<open>read_write.c\<close> agree on every well-formed file. Reading gives the same result, the same
  buffer and the same undefined behaviour; whenever writing in the built version returns, with success
  or with an error and whatever the block buffer holds, the other version returns the same value and the same state;
  and freeing a file without blocks behind its end has the same outcome.
\<close>

theorem versions_agree:
  assumes "ready p s"
  shows "(0 \<le> n \<longrightarrow> v_read_data s p buf a n = testfs_read_data s p buf a n) \<and>
    (testfs_write_data s p buf a m = Ret r \<longrightarrow> v_write_data s p blk buf a m = Ret r) \<and>
    (trimmed s (din s p) \<longrightarrow> v_free_blocks s p = testfs_free_blocks s p)"
  using v_read_data_eq v_write_data_agrees v_free_blocks_eq assms by blast

theorem versions_agree_witness:
  "\<exists>s p s'. ready p s \<and> v_write_data s p zero_mem (\<lambda>i. of_nat i) 8000 20000 = Ret (20000, s') \<and>
     v_read_data s' p zero_mem 8000 20000 = testfs_read_data s' p zero_mem 8000 20000 \<and> v_free_blocks s p = testfs_free_blocks s p"
proof -
  obtain s p where s: "ready p s" "din s p = zero_dinode" "ublocks s = {}" "max_fs_blocks (sb s) = 128"
    using ex_empty_file by blast
  obtain s' where s': "testfs_write_data s p (\<lambda>i. of_nat i) (int 8000) (int 20000) = Ret (int 20000, s')" "written p s s' 8000 20000 (\<lambda>i. of_nat i)"
    using write_data_ok [OF s(1), of 20000 8000] s(3,4) by auto
  have r': "ready p s'" using s'(2) by (simp add: written_def fstep_def)
  have "live (dblock s) zero_dinode = {}" using sval_zero by (auto simp: live_def)
  then have tr: "trimmed s (din s p)" using s(2) by (simp add: trimmed_def) (simp add: zero_dinode_def)
  show ?thesis
    using s(1) tr s'(1) versions_agree [OF r', of 20000 zero_mem 8000] versions_agree [OF s(1), of 0 "\<lambda>i. of_nat i" "int 8000" "int 20000" "(int 20000, s')" zero_mem]
    by (intro exI [of _ s] exI [of _ p] exI [of _ s']) simp
qed

end
