(* ===== verification/FS_List.thy ===== *)
theory FS_List
  imports FS_Inode
begin

text \<open>
  The lists of \<^verbatim>\<open>fs/list.h\<close> on the level of pointers: the hash lists, in which a node points back to the
  pointer that points to it, and the circular doubly linked lists. The hash table of inodes is made of the former; the
  operations on lists of addresses that \<^verbatim>\<open>FS_Inode\<close> uses for its buckets are shown to be what they implement.
\<close>

section \<open>Hash lists\<close>

text \<open>A pointer to a pointer: \<^verbatim>\<open>&h->first\<close> of a head or \<^verbatim>\<open>&n->next\<close> of a node.\<close>

datatype ploc = First nat | Next nat

record hlist_node =
  hnext :: "nat option"
  pprev :: "ploc option"

record hmem =
  heads :: "nat \<Rightarrow> nat option option"
  hnodes :: "nat \<Rightarrow> hlist_node option"

definition get_loc :: "hmem \<Rightarrow> ploc \<Rightarrow> nat option res" where
  "get_loc m l =
    (case l of First h \<Rightarrow> deref (heads m h) | Next n \<Rightarrow> bnd (deref (hnodes m n)) (\<lambda>nd. Ret (hnext nd)))"

definition set_loc :: "hmem \<Rightarrow> ploc \<Rightarrow> nat option \<Rightarrow> hmem res" where
  "set_loc m l x =
    (case l of
       First h \<Rightarrow> bnd (deref (heads m h)) (\<lambda>_. Ret (m\<lparr>heads := (heads m)(h \<mapsto> x)\<rparr>))
     | Next n \<Rightarrow> bnd (deref (hnodes m n)) (\<lambda>nd. Ret (m\<lparr>hnodes := (hnodes m)(n \<mapsto> nd\<lparr>hnext := x\<rparr>)\<rparr>)))"

definition set_pprev :: "hmem \<Rightarrow> nat \<Rightarrow> ploc option \<Rightarrow> hmem res" where
  "set_pprev m n l = bnd (deref (hnodes m n)) (\<lambda>nd. Ret (m\<lparr>hnodes := (hnodes m)(n \<mapsto> nd\<lparr>pprev := l\<rparr>)\<rparr>))"

definition INIT_HLIST_HEAD :: "hmem \<Rightarrow> nat \<Rightarrow> hmem res" where
  "INIT_HLIST_HEAD m h = set_loc m (First h) None"

definition INIT_HLIST_NODE :: "hmem \<Rightarrow> nat \<Rightarrow> hmem res" where
  "INIT_HLIST_NODE m n = bnd (set_loc m (Next n) None) (\<lambda>m1. set_pprev m1 n None)"

definition hl_empty :: "hmem \<Rightarrow> nat \<Rightarrow> bool res" where
  "hl_empty m h = bnd (get_loc m (First h)) (\<lambda>f. Ret (f = None))"

definition hl_add_head :: "hmem \<Rightarrow> nat \<Rightarrow> nat \<Rightarrow> hmem res" where
  "hl_add_head m n h =
    bnd (get_loc m (First h)) (\<lambda>first.
    bnd (set_loc m (Next n) first) (\<lambda>m1.
    bnd (case first of None \<Rightarrow> Ret m1 | Some f \<Rightarrow> set_pprev m1 f (Some (Next n))) (\<lambda>m2.
    bnd (set_loc m2 (First h) (Some n)) (\<lambda>m3.
    set_pprev m3 n (Some (First h))))))"

definition hl_add_before :: "hmem \<Rightarrow> nat \<Rightarrow> nat \<Rightarrow> hmem res" where
  "hl_add_before m n nxt =
    bnd (deref (hnodes m nxt)) (\<lambda>x.
    bnd (set_pprev m n (pprev x)) (\<lambda>m1.
    bnd (set_loc m1 (Next n) (Some nxt)) (\<lambda>m2.
    bnd (set_pprev m2 nxt (Some (Next n))) (\<lambda>m3.
    bnd (deref (hnodes m3 n)) (\<lambda>nd.
    bnd (deref (pprev nd)) (\<lambda>l. set_loc m3 l (Some n)))))))"

definition hl_add_after :: "hmem \<Rightarrow> nat \<Rightarrow> nat \<Rightarrow> hmem res" where
  "hl_add_after m n nxt =
    bnd (get_loc m (Next n)) (\<lambda>r.
    bnd (set_loc m (Next nxt) r) (\<lambda>m1.
    bnd (set_loc m1 (Next n) (Some nxt)) (\<lambda>m2.
    bnd (set_pprev m2 nxt (Some (Next n))) (\<lambda>m3.
    bnd (get_loc m3 (Next nxt)) (\<lambda>r'.
    case r' of None \<Rightarrow> Ret m3 | Some q \<Rightarrow> set_pprev m3 q (Some (Next nxt)))))))"

definition hl_del :: "hmem \<Rightarrow> nat \<Rightarrow> hmem res" where
  "hl_del m n =
    bnd (deref (hnodes m n)) (\<lambda>nd.
    bnd (deref (pprev nd)) (\<lambda>l.
    bnd (set_loc m l (hnext nd)) (\<lambda>m1.
    bnd (case hnext nd of None \<Rightarrow> Ret m1 | Some q \<Rightarrow> set_pprev m1 q (pprev nd)) (\<lambda>m2.
    INIT_HLIST_NODE m2 n))))"

definition hl_replace :: "hmem \<Rightarrow> nat \<Rightarrow> nat \<Rightarrow> hmem res" where
  "hl_replace m old new =
    bnd (deref (hnodes m old)) (\<lambda>nd.
    bnd (deref (hnodes m new)) (\<lambda>_.
    let m1 = m\<lparr>hnodes := (hnodes m)(new \<mapsto> nd)\<rparr> in
    bnd (deref (pprev nd)) (\<lambda>l.
    bnd (set_loc m1 l (Some new)) (\<lambda>m2.
    case hnext nd of None \<Rightarrow> Ret m2 | Some q \<Rightarrow> set_pprev m2 q (Some (Next new))))))"

text \<open>
  \<^verbatim>\<open>hlist_for_each_entry\<close>: the loop with a body that may leave it with a result, as \<^verbatim>\<open>inode_hash_find\<close> does.
\<close>

primrec hl_search :: "nat \<Rightarrow> hmem \<Rightarrow> (nat \<Rightarrow> bool res) \<Rightarrow> nat option \<Rightarrow> nat option res" where
  "hl_search 0 m found pos = Crash Diverges"
| "hl_search (Suc fuel) m found pos =
    (case pos of
       None \<Rightarrow> Ret None
     | Some n \<Rightarrow>
         bnd (found n) (\<lambda>b.
         if b then Ret (Some n) else bnd (get_loc m (Next n)) (\<lambda>q. hl_search fuel m found q)))"

definition hl_for_each_entry :: "nat \<Rightarrow> hmem \<Rightarrow> (nat \<Rightarrow> bool res) \<Rightarrow> nat \<Rightarrow> nat option res" where
  "hl_for_each_entry fuel m found h = bnd (get_loc m (First h)) (hl_search fuel m found)"

section \<open>Hash lists represent lists\<close>

text \<open>The two fields as functions, and what the assignments do to them.\<close>

definition val :: "hmem \<Rightarrow> ploc \<Rightarrow> nat option" where
  "val m l = (case l of First h \<Rightarrow> (case heads m h of None \<Rightarrow> None | Some x \<Rightarrow> x) | Next n \<Rightarrow> (case hnodes m n of None \<Rightarrow> None | Some nd \<Rightarrow> hnext nd))"

definition back_ptr :: "hmem \<Rightarrow> nat \<Rightarrow> ploc option" where
  "back_ptr m n = (case hnodes m n of None \<Rightarrow> None | Some nd \<Rightarrow> pprev nd)"

definition has_loc :: "hmem \<Rightarrow> ploc \<Rightarrow> bool" where
  "has_loc m l = (case l of First h \<Rightarrow> heads m h \<noteq> None | Next n \<Rightarrow> hnodes m n \<noteq> None)"

lemma has_loc_simps [simp]: "has_loc m (First h) \<longleftrightarrow> heads m h \<noteq> None" "has_loc m (Next n) \<longleftrightarrow> hnodes m n \<noteq> None"
  by (simp_all add: has_loc_def)

lemma get_loc_ok: "has_loc m l \<Longrightarrow> get_loc m l = Ret (val m l)"
  by (cases l) (auto simp: get_loc_def val_def)

text \<open>The same heads and nodes are there.\<close>

definition same_dom :: "hmem \<Rightarrow> hmem \<Rightarrow> bool" where
  "same_dom m m' \<longleftrightarrow> (\<forall>l. has_loc m' l = has_loc m l)"

lemma set_loc_ok:
  assumes "has_loc m l"
  obtains m' where "set_loc m l x = Ret m'" "val m' = (val m)(l := x)" "back_ptr m' = back_ptr m" "same_dom m m'"
proof (cases l)
  case (First h)
  then show ?thesis using assms that
    by (auto simp: set_loc_def val_def back_ptr_def same_dom_def has_loc_def fun_eq_iff split: ploc.splits)
next
  case (Next n)
  then show ?thesis using assms that
    by (auto simp: set_loc_def val_def back_ptr_def same_dom_def has_loc_def fun_eq_iff split: ploc.splits)
qed

lemma set_pprev_ok:
  assumes "has_loc m (Next n)"
  obtains m' where "set_pprev m n x = Ret m'" "val m' = val m" "back_ptr m' = (back_ptr m)(n := x)" "same_dom m m'"
  using assms that by (auto simp: set_pprev_def val_def back_ptr_def same_dom_def has_loc_def fun_eq_iff split: ploc.splits)

text \<open>
  The nodes \<^verbatim>\<open>ns\<close> follow each other from the location \<^verbatim>\<open>l\<close> on, each pointing back to the location that points to
  it; and the location behind the last of them.
\<close>

type_synonym vals_of = "ploc \<Rightarrow> nat option"
type_synonym backs_of = "nat \<Rightarrow> ploc option"

fun linked :: "vals_of \<Rightarrow> backs_of \<Rightarrow> ploc \<Rightarrow> nat list \<Rightarrow> bool" where
  "linked V B l [] \<longleftrightarrow> True"
| "linked V B l (n # ns) \<longleftrightarrow> V l = Some n \<and> B n = Some l \<and> linked V B (Next n) ns"

fun end_loc :: "ploc \<Rightarrow> nat list \<Rightarrow> ploc" where
  "end_loc l [] = l"
| "end_loc l (n # ns) = end_loc (Next n) ns"

lemma linked_append: "linked V B l (us @ ws) \<longleftrightarrow> linked V B l us \<and> linked V B (end_loc l us) ws"
  by (induction us arbitrary: l) auto

lemma end_loc_append: "end_loc l (us @ ws) = end_loc (end_loc l us) ws"
  by (induction us arbitrary: l) auto

lemma end_loc_cases: "end_loc l us = (if us = [] then l else Next (last us))"
  by (induction us arbitrary: l) auto

lemma linked_cong:
  "linked V B l ns \<Longrightarrow> (ns \<noteq> [] \<Longrightarrow> V' l = V l) \<Longrightarrow> (\<And>n. n \<in> set (butlast ns) \<Longrightarrow> V' (Next n) = V (Next n)) \<Longrightarrow>
    (\<And>n. n \<in> set ns \<Longrightarrow> B' n = B n) \<Longrightarrow> linked V' B' l ns"
proof (induction ns arbitrary: l)
  case (Cons a ns)
  show ?case using Cons.prems Cons.IH [of "Next a"] by (cases "ns = []") auto
qed simp

definition hrep :: "vals_of \<Rightarrow> backs_of \<Rightarrow> ploc \<Rightarrow> nat list \<Rightarrow> bool" where
  "hrep V B l ns \<longleftrightarrow> linked V B l ns \<and> V (end_loc l ns) = None"

lemma hrep_append: "hrep V B l (us @ ws) \<longleftrightarrow> linked V B l us \<and> hrep V B (end_loc l us) ws"
  by (auto simp: hrep_def linked_append end_loc_append)

lemma hrep_head: "hrep V B l ws \<Longrightarrow> V l = (case ws of [] \<Rightarrow> None | w # _ \<Rightarrow> Some w)"
  by (cases ws) (auto simp: hrep_def)

lemma hrep_cong:
  "hrep V B l ns \<Longrightarrow> V' l = V l \<Longrightarrow> (\<And>n. n \<in> set ns \<Longrightarrow> V' (Next n) = V (Next n)) \<Longrightarrow> (\<And>n. n \<in> set ns \<Longrightarrow> B' n = B n) \<Longrightarrow> hrep V' B' l ns"
  unfolding hrep_def by (auto simp: end_loc_cases intro: linked_cong dest: in_set_butlastD)

text \<open>Moving the nodes behind one location behind another.\<close>

lemma hrep_move:
  assumes "hrep V B p ws" "distinct ws" "V' q = V p" "\<And>n. n \<in> set ws \<Longrightarrow> V' (Next n) = V (Next n)"
    "\<And>n. n \<in> set ws \<Longrightarrow> B' n = (if n = hd ws then Some q else B n)"
  shows "hrep V' B' q ws"
proof (cases ws)
  case Nil
  then show ?thesis using assms by (simp add: hrep_def)
next
  case (Cons w ws')
  have "hrep V B (Next w) ws'" "V p = Some w" using assms(1) Cons by (auto simp: hrep_def)
  moreover from this(1) have "hrep V' B' (Next w) ws'" by (rule hrep_cong) (use assms(2,4,5) Cons in auto)
  ultimately show ?thesis using assms(3,5) Cons by (auto simp: hrep_def)
qed

text \<open>The nodes before a location are not touched by a change of what the location holds.\<close>

lemma linked_keep:
  assumes us: "linked V B l us" "distinct us" "l \<notin> Next ` set us"
    and V': "\<And>k. k = l \<or> k \<in> Next ` set us \<Longrightarrow> k \<noteq> end_loc l us \<Longrightarrow> V' k = V k" and B': "\<And>n. n \<in> set us \<Longrightarrow> B' n = B n"
  shows "linked V' B' l us"
proof (rule linked_cong [OF us(1) _ _ B'])
  show "V' l = V l" if "us \<noteq> []"
  proof (rule V')
    show "l \<noteq> end_loc l us" using that us(3) last_in_set [OF that] by (auto simp: end_loc_cases)
  qed simp
  show "V' (Next n) = V (Next n)" if n: "n \<in> set (butlast us)" for n
  proof (rule V')
    have ne: "us \<noteq> []" using n by auto
    have "distinct (butlast us @ [last us])" unfolding append_butlast_last_id [OF ne] by (rule us(2))
    then have "n \<noteq> last us" using n by (metis distinct_append disjoint_iff list.set_intros(1))
    then show "Next n \<noteq> end_loc l us" using ne by (simp add: end_loc_cases)
  qed (use in_set_butlastD [OF n] in simp)
qed

lemma end_loc_other:
  assumes "distinct (us @ ws)" "l \<notin> Next ` set ws" "n \<in> set ws"
  shows "Next n \<noteq> end_loc l us"
proof (cases "us = []")
  case False
  have "n \<notin> set us" using assms by auto
  then have "n \<noteq> last us" using last_in_set [OF False] by metis
  then show ?thesis using False by (simp add: end_loc_cases)
qed (use assms in auto)

text \<open>
  Putting \<^verbatim>\<open>x\<close> between \<^verbatim>\<open>us\<close> and \<^verbatim>\<open>ws\<close>, which followed the location \<^verbatim>\<open>p\<close> before: inserting a node, and replacing one.
\<close>

lemma hrep_put:
  assumes us: "linked V B l us" and ws: "hrep V B p ws" and d: "distinct (us @ x # ws)" "l \<notin> Next ` (set us \<union> insert x (set ws))"
    and V': "V' = V(Next x := V p, end_loc l us := Some x)"
    and B': "B' = (case V p of None \<Rightarrow> B | Some q \<Rightarrow> B(q := Some (Next x)))(x := Some (end_loc l us))"
  shows "hrep V' B' l (us @ x # ws)"
proof -
  have e: "Next n \<noteq> end_loc l us" if "n = x \<or> n \<in> set ws" for n
    by (rule end_loc_other [of us "x # ws"]) (use that d in auto)
  have hd: "V p = (case ws of [] \<Rightarrow> None | w # _ \<Rightarrow> Some w)" by (rule hrep_head [OF ws])
  have "linked V' B' l us"
    by (rule linked_keep [OF us]) (use d hd in \<open>auto simp: V' B' split: list.splits\<close>)
  moreover have "hrep V' B' (Next x) ws"
    by (rule hrep_move [OF ws]) (use d e hd in \<open>auto simp: V' B' split: list.splits\<close>)
  moreover have "V' (end_loc l us) = Some x" "B' x = Some (end_loc l us)" by (simp_all add: V' B')
  ultimately show ?thesis by (auto simp: hrep_def linked_append end_loc_append)
qed

lemma hrep_drop:
  assumes r: "hrep V B l (us @ x # ws)" and d: "distinct (us @ x # ws)" "l \<notin> Next ` (set us \<union> insert x (set ws))"
    and V': "V' = V(end_loc l us := V (Next x), Next x := None)"
    and B': "B' = (case V (Next x) of None \<Rightarrow> B | Some q \<Rightarrow> B(q := Some (end_loc l us)))(x := None)"
  shows "hrep V' B' l (us @ ws)"
proof -
  have us: "linked V B l us" and ws: "hrep V B (Next x) ws" using r by (auto simp: hrep_def linked_append end_loc_append)
  have e: "Next n \<noteq> end_loc l us" if "n = x \<or> n \<in> set ws" for n
    by (rule end_loc_other [of us "x # ws"]) (use that d in auto)
  have ex: "end_loc l us \<noteq> Next x" using e by metis
  have hd: "V (Next x) = (case ws of [] \<Rightarrow> None | w # _ \<Rightarrow> Some w)" by (rule hrep_head [OF ws])
  have "linked V' B' l us"
    by (rule linked_keep [OF us]) (use d hd in \<open>auto simp: V' B' split: list.splits\<close>)
  moreover have "hrep V' B' (end_loc l us) ws"
    by (rule hrep_move [OF ws]) (use d e hd ex in \<open>auto simp: V' B' split: list.splits\<close>)
  ultimately show ?thesis by (simp add: hrep_append)
qed


section \<open>The effect of the operations\<close>

definition eff :: "hmem \<Rightarrow> hmem res \<Rightarrow> vals_of \<Rightarrow> backs_of \<Rightarrow> bool" where
  "eff m r V B \<longleftrightarrow> (\<exists>m'. r = Ret m' \<and> val m' = V \<and> back_ptr m' = B \<and> same_dom m m')"

lemma same_dom_trans: "same_dom m m1 \<Longrightarrow> same_dom m1 m2 \<Longrightarrow> same_dom m m2"
  by (simp add: same_dom_def)

lemma same_dom_loc: "same_dom m m' \<Longrightarrow> has_loc m l \<Longrightarrow> has_loc m' l"
  by (simp add: same_dom_def)

lemma eff_bind:
  assumes "eff m r V B" "\<And>m1. val m1 = V \<Longrightarrow> back_ptr m1 = B \<Longrightarrow> same_dom m m1 \<Longrightarrow> eff m1 (f m1) V' B'"
  shows "eff m (bnd r f) V' B'"
proof -
  obtain m1 where m1: "r = Ret m1" "val m1 = V" "back_ptr m1 = B" "same_dom m m1" using assms(1) by (auto simp: eff_def)
  obtain m2 where "f m1 = Ret m2" "val m2 = V'" "back_ptr m2 = B'" "same_dom m1 m2" using assms(2) [OF m1(2-4)] by (auto simp: eff_def)
  then show ?thesis using m1(1) same_dom_trans [OF m1(4)] by (auto simp: eff_def)
qed

lemma eff_Ret: "val m = V \<Longrightarrow> back_ptr m = B \<Longrightarrow> eff m (Ret m) V B"
  by (simp add: eff_def same_dom_def)

lemma eff_set_loc: "has_loc m l \<Longrightarrow> V = (val m)(l := x) \<Longrightarrow> B = back_ptr m \<Longrightarrow> eff m (set_loc m l x) V B"
  by (metis eff_def set_loc_ok)

lemma eff_set_pprev: "has_loc m (Next n) \<Longrightarrow> V = val m \<Longrightarrow> B = (back_ptr m)(n := x) \<Longrightarrow> eff m (set_pprev m n x) V B"
  by (metis eff_def set_pprev_ok)

lemma eff_set_pprev_opt:
  "(\<And>q. w = Some q \<Longrightarrow> has_loc m (Next q)) \<Longrightarrow> V = val m \<Longrightarrow> B = (case w of None \<Rightarrow> back_ptr m | Some q \<Rightarrow> (back_ptr m)(q := x)) \<Longrightarrow>
    eff m (case w of None \<Rightarrow> Ret m | Some q \<Rightarrow> set_pprev m q x) V B"
  by (auto simp: eff_Ret eff_set_pprev split: option.splits)

lemma node_fields: "hnodes m n = Some nd \<Longrightarrow> hnext nd = val m (Next n)" "hnodes m n = Some nd \<Longrightarrow> pprev nd = back_ptr m n"
  by (simp_all add: val_def back_ptr_def)


text \<open>The effect of putting \<^verbatim>\<open>x\<close> behind the location \<^verbatim>\<open>e\<close>, in front of what followed the location \<^verbatim>\<open>p\<close>.\<close>

definition put_val :: "vals_of \<Rightarrow> ploc \<Rightarrow> ploc \<Rightarrow> nat \<Rightarrow> vals_of" where
  "put_val V p e x = V(Next x := V p, e := Some x)"

definition put_back :: "vals_of \<Rightarrow> backs_of \<Rightarrow> ploc \<Rightarrow> ploc \<Rightarrow> nat \<Rightarrow> backs_of" where
  "put_back V B p e x = (case V p of None \<Rightarrow> B | Some q \<Rightarrow> B(q := Some (Next x)))(x := Some e)"

definition puts :: "hmem \<Rightarrow> hmem res \<Rightarrow> ploc \<Rightarrow> ploc \<Rightarrow> nat \<Rightarrow> bool" where
  "puts m r p e x \<longleftrightarrow> eff m r (put_val (val m) p e x) (put_back (val m) (back_ptr m) p e x)"

lemma add_head_puts:
  assumes h: "has_loc m (First h)" and n: "has_loc m (Next n)" and f: "\<And>q. val m (First h) = Some q \<Longrightarrow> has_loc m (Next q)"
  shows "puts m (hl_add_head m n h) (First h) (First h) n"
  unfolding puts_def hl_add_head_def get_loc_ok [OF h] bnd.simps
  apply (rule eff_bind [OF eff_set_loc [OF n refl refl]])
  apply (rule eff_bind [OF eff_set_pprev_opt [OF _ refl refl]])
   apply (blast intro: same_dom_loc f)
  apply (rule eff_bind [OF eff_set_loc [OF _ refl refl]])
   apply (blast intro: same_dom_loc h)
  apply (rule eff_set_pprev)
    apply (blast intro: same_dom_loc n)
   apply (simp_all add: put_val_def put_back_def split: option.splits)
  done

lemma deref_node: "has_loc m (Next n) \<Longrightarrow> \<exists>nd. hnodes m n = Some nd \<and> hnext nd = val m (Next n) \<and> pprev nd = back_ptr m n"
  by (auto simp: node_fields)

lemma add_before_puts:
  assumes n: "has_loc m (Next n)" and nxt: "has_loc m (Next nxt)" and e: "back_ptr m nxt = Some e" "val m e = Some nxt" "has_loc m e"
    and ne: "n \<noteq> nxt"
  shows "puts m (hl_add_before m n nxt) e e n"
proof -
  obtain x where x: "hnodes m nxt = Some x" "pprev x = Some e" using deref_node [OF nxt] e(1) by auto
  have last: "eff m3 (bnd (deref (hnodes m3 n)) (\<lambda>nd. bnd (deref (pprev nd)) (\<lambda>l. set_loc m3 l (Some n)))) V B"
    if "has_loc m3 (Next n)" "has_loc m3 e" "back_ptr m3 n = Some e" "V = (val m3)(e := Some n)" "B = back_ptr m3" for m3 V B
    using deref_node [OF that(1)] that by (auto intro: eff_set_loc)
  show ?thesis
    unfolding puts_def hl_add_before_def x deref.simps bnd.simps
    apply (rule eff_bind [OF eff_set_pprev [OF n refl refl]])
    apply (rule eff_bind [OF eff_set_loc [OF _ refl refl]])
     apply (blast intro: same_dom_loc n)
    apply (rule eff_bind [OF eff_set_pprev [OF _ refl refl]])
     apply (blast intro: same_dom_loc nxt)
    apply (rule last)
        apply (blast intro: same_dom_loc n)
       apply (blast intro: same_dom_loc e)
      apply (use ne in \<open>auto simp: put_val_def put_back_def e fun_eq_iff\<close>)
    done
qed

lemma add_after_puts:
  assumes n: "has_loc m (Next n)" and x: "has_loc m (Next x)" and q: "\<And>q. val m (Next n) = Some q \<Longrightarrow> has_loc m (Next q) \<and> q \<noteq> x"
    and ne: "x \<noteq> n"
  shows "puts m (hl_add_after m n x) (Next n) (Next n) x"
proof -
  have last: "eff m3 (bnd (get_loc m3 (Next x)) (\<lambda>r'. case r' of None \<Rightarrow> Ret m3 | Some q \<Rightarrow> set_pprev m3 q (Some (Next x)))) V B"
    if "has_loc m3 (Next x)" "\<And>q. val m3 (Next x) = Some q \<Longrightarrow> has_loc m3 (Next q)" "V = val m3"
      "B = (case val m3 (Next x) of None \<Rightarrow> back_ptr m3 | Some q \<Rightarrow> (back_ptr m3)(q := Some (Next x)))" for m3 V B
    unfolding get_loc_ok [OF that(1)] bnd.simps by (rule eff_set_pprev_opt) (use that in auto)
  show ?thesis
    unfolding puts_def hl_add_after_def get_loc_ok [OF n] bnd.simps
    apply (rule eff_bind [OF eff_set_loc [OF x refl refl]])
    apply (rule eff_bind [OF eff_set_loc [OF _ refl refl]])
     apply (blast intro: same_dom_loc n)
    apply (rule eff_bind [OF eff_set_pprev [OF _ refl refl]])
     apply (blast intro: same_dom_loc x)
    apply (rule last)
       apply (blast intro: same_dom_loc x)
      apply (simp add: ne del: has_loc_simps)
      apply (blast intro: same_dom_loc dest: q)
     apply (use q ne in \<open>auto simp: put_val_def put_back_def fun_eq_iff split: option.splits\<close>)
    done
qed


lemma replace_puts:
  assumes old: "has_loc m (Next old)" and new: "has_loc m (Next new)" and e: "back_ptr m old = Some e" "has_loc m e"
    and q: "\<And>q. val m (Next old) = Some q \<Longrightarrow> has_loc m (Next q) \<and> q \<noteq> new"
  shows "puts m (hl_replace m old new) (Next old) e new"
proof -
  obtain x where x: "hnodes m old = Some x" "hnext x = val m (Next old)" "pprev x = Some e" using deref_node [OF old] e(1) by auto
  obtain y where y: "hnodes m new = Some y" using new by auto
  define m1 where "m1 = m\<lparr>hnodes := (hnodes m)(new \<mapsto> x)\<rparr>"
  have m1: "val m1 = (val m)(Next new := val m (Next old))" "back_ptr m1 = (back_ptr m)(new := Some e)" "same_dom m m1"
    using x y by (auto simp: m1_def val_def back_ptr_def same_dom_def has_loc_def fun_eq_iff split: ploc.splits)
  have first: "eff m (Ret m1) (val m1) (back_ptr m1)" using m1 by (simp add: eff_def)
  have "eff m (bnd (Ret m1) (\<lambda>m1. bnd (set_loc m1 e (Some new))
      (\<lambda>m2. case val m (Next old) of None \<Rightarrow> Ret m2 | Some q \<Rightarrow> set_pprev m2 q (Some (Next new)))))
    (put_val (val m) (Next old) e new) (put_back (val m) (back_ptr m) (Next old) e new)"
    apply (rule eff_bind [OF first])
    apply (rule eff_bind [OF eff_set_loc [OF _ refl refl]])
     apply (blast intro: same_dom_loc e)
    apply (rule eff_set_pprev_opt)
      apply (blast intro: same_dom_loc dest: q)
     apply (use q in \<open>auto simp: put_val_def put_back_def fun_eq_iff m1 split: option.splits\<close>)
    done
  then show ?thesis by (simp add: puts_def hl_replace_def x y m1_def)
qed

lemma del_eff:
  assumes n: "has_loc m (Next n)" and e: "back_ptr m n = Some e" "has_loc m e" and q: "\<And>q. val m (Next n) = Some q \<Longrightarrow> has_loc m (Next q)"
  shows "eff m (hl_del m n) ((val m)(e := val m (Next n), Next n := None))
    ((case val m (Next n) of None \<Rightarrow> back_ptr m | Some q \<Rightarrow> (back_ptr m)(q := Some e))(n := None))"
proof -
  obtain x where x: "hnodes m n = Some x" "hnext x = val m (Next n)" "pprev x = Some e" using deref_node [OF n] e(1) by auto
  show ?thesis
    unfolding hl_del_def INIT_HLIST_NODE_def x deref.simps bnd.simps
    apply (rule eff_bind [OF eff_set_loc [OF e(2) refl refl]])
    apply (rule eff_bind [OF eff_set_pprev_opt [OF _ refl refl]])
     apply (blast intro: same_dom_loc q)
    apply (rule eff_bind [OF eff_set_loc [OF _ refl refl]])
     apply (blast intro: same_dom_loc n)
    apply (rule eff_set_pprev)
      apply (blast intro: same_dom_loc n)
     apply (simp_all split: option.splits)
    done
qed

section \<open>A table of hash lists\<close>

text \<open>
  The heads \<^verbatim>\<open>H\<close> hold the lists \<^verbatim>\<open>t\<close>, made of the nodes \<^verbatim>\<open>A\<close>; no node is in two of them.
\<close>

definition htable :: "nat set \<Rightarrow> nat set \<Rightarrow> hmem \<Rightarrow> (nat \<Rightarrow> nat list) \<Rightarrow> bool" where
  "htable H A m t \<longleftrightarrow>
    (\<forall>n\<in>A. has_loc m (Next n)) \<and>
    (\<forall>h\<in>H. has_loc m (First h) \<and> hrep (val m) (back_ptr m) (First h) (t h) \<and> distinct (t h) \<and> set (t h) \<subseteq> A) \<and>
    (\<forall>h\<in>H. \<forall>h'\<in>H. h \<noteq> h' \<longrightarrow> set (t h) \<inter> set (t h') = {})"

lemma htable_cong: "htable H A m t \<Longrightarrow> (\<And>h. h \<in> H \<Longrightarrow> t' h = t h) \<Longrightarrow> htable H A m t'"
  by (simp add: htable_def)

lemma htable_update:
  assumes t: "htable H A m t" and h: "h \<in> H" and r: "eff m r V B"
    and ns: "hrep V B (First h) ns" "distinct ns" "set ns \<subseteq> A" "\<And>h'. h' \<in> H \<Longrightarrow> h' \<noteq> h \<Longrightarrow> set ns \<inter> set (t h') = {}"
    and fr: "\<And>h'. h' \<noteq> h \<Longrightarrow> V (First h') = val m (First h')"
      "\<And>n. n \<notin> set (t h) \<Longrightarrow> n \<notin> set ns \<Longrightarrow> V (Next n) = val m (Next n) \<and> B n = back_ptr m n"
  shows "\<exists>m'. r = Ret m' \<and> htable H A m' (t(h := ns))"
proof -
  obtain m' where m': "r = Ret m'" "val m' = V" "back_ptr m' = B" "same_dom m m'" using r by (auto simp: eff_def)
  have other: "hrep V B (First h') (t h')" if "h' \<in> H" "h' \<noteq> h" for h'
  proof (rule hrep_cong)
    show "hrep (val m) (back_ptr m) (First h') (t h')" using t that by (simp add: htable_def)
    have "set (t h) \<inter> set (t h') = {}" "set ns \<inter> set (t h') = {}" using t h ns(4) that by (simp_all add: htable_def)
    then show "V (Next n) = val m (Next n)" "B n = back_ptr m n" if "n \<in> set (t h')" for n using fr(2) [of n] that by blast+
  qed (use fr that in auto)
  have "htable H A m' (t(h := ns))"
    unfolding htable_def m'(2,3)
  proof (intro conjI ballI impI)
    show "has_loc m' (Next n)" if "n \<in> A" for n by (rule same_dom_loc [OF m'(4)]) (use t that in \<open>simp add: htable_def\<close>)
    show "has_loc m' (First k)" if "k \<in> H" for k by (rule same_dom_loc [OF m'(4)]) (use t that in \<open>simp add: htable_def\<close>)
    show "hrep V B (First k) ((t(h := ns)) k)" if "k \<in> H" for k using that ns(1) other by simp
    show "distinct ((t(h := ns)) k)" "set ((t(h := ns)) k) \<subseteq> A" if "k \<in> H" for k using that ns t by (auto simp: htable_def)
    show "set ((t(h := ns)) k) \<inter> set ((t(h := ns)) k') = {}" if "k \<in> H" "k' \<in> H" "k \<noteq> k'" for k k'
    proof -
      have "set (t k) \<inter> set (t k') = {}" using t that by (simp add: htable_def)
      then show ?thesis using that ns(4) [of k] ns(4) [of k'] by (auto simp: Int_commute)
    qed
  qed
  then show ?thesis using m'(1) by blast
qed


lemma htable_put:
  assumes t: "htable H A m t" and h: "h \<in> H" and us: "linked (val m) (back_ptr m) (First h) us" and ws: "hrep (val m) (back_ptr m) p ws"
    and sub: "set us \<subseteq> set (t h)" "set ws \<subseteq> set (t h)" and d: "distinct (us @ ws)"
    and x: "x \<in> A" "\<And>h'. h' \<in> H \<Longrightarrow> x \<notin> set (t h')" and r: "puts m r p (end_loc (First h) us) x"
  shows "\<exists>m'. r = Ret m' \<and> htable H A m' (t(h := us @ x # ws))"
proof (rule htable_update [OF t h r [unfolded puts_def]])
  have th: "set (t h) \<subseteq> A" using t h by (simp add: htable_def)
  show d': "distinct (us @ x # ws)" using d sub x(2) [OF h] by auto
  show "hrep (put_val (val m) p (end_loc (First h) us) x) (put_back (val m) (back_ptr m) p (end_loc (First h) us) x) (First h) (us @ x # ws)"
    by (rule hrep_put [OF us ws d']) (auto simp: put_val_def put_back_def)
  show "set (us @ x # ws) \<subseteq> A" using th sub x(1) by auto
  show "set (us @ x # ws) \<inter> set (t h') = {}" if "h' \<in> H" "h' \<noteq> h" for h'
  proof -
    have "set (t h) \<inter> set (t h') = {}" using t h that by (simp add: htable_def)
    then show ?thesis using sub x(2) [OF that(1)] by auto
  qed
  show "put_val (val m) p (end_loc (First h) us) x (First h') = val m (First h')" if "h' \<noteq> h" for h'
    using that by (simp add: put_val_def end_loc_cases)
  have hd: "val m p = (case ws of [] \<Rightarrow> None | w # _ \<Rightarrow> Some w)" by (rule hrep_head [OF ws])
  fix n assume n: "n \<notin> set (t h)" "n \<notin> set (us @ x # ws)"
  have "end_loc (First h) us \<noteq> Next n" using n(2) last_in_set [of us] by (auto simp: end_loc_cases)
  then show "put_val (val m) p (end_loc (First h) us) x (Next n) = val m (Next n) \<and>
      put_back (val m) (back_ptr m) p (end_loc (First h) us) x n = back_ptr m n"
    using n(2) hd by (auto simp: put_val_def put_back_def split: list.splits)
qed

text \<open>What the memory holds around a node of a list.\<close>

lemma htable_at:
  assumes t: "htable H A m t" and h: "h \<in> H" and n: "t h = us @ n # ws"
  shows "linked (val m) (back_ptr m) (First h) us" "hrep (val m) (back_ptr m) (Next n) ws" "back_ptr m n = Some (end_loc (First h) us)"
    "val m (end_loc (First h) us) = Some n" "has_loc m (end_loc (First h) us)" "has_loc m (Next n)"
    "val m (Next n) = Some q \<Longrightarrow> has_loc m (Next q) \<and> q \<in> set (t h)" "hrep (val m) (back_ptr m) (end_loc (First h) us) (n # ws)"
proof -
  have b: "hrep (val m) (back_ptr m) (First h) (us @ n # ws)" "set (t h) \<subseteq> A" "has_loc m (First h)"
    using t h by (simp_all add: htable_def flip: n)
  then show us: "linked (val m) (back_ptr m) (First h) us" and ws: "hrep (val m) (back_ptr m) (Next n) ws" and
    "back_ptr m n = Some (end_loc (First h) us)" "val m (end_loc (First h) us) = Some n"
    "hrep (val m) (back_ptr m) (end_loc (First h) us) (n # ws)"
    by (auto simp: hrep_def linked_append end_loc_append)
  have loc: "has_loc m (Next k)" if "k \<in> set (t h)" for k using t that b(2) by (auto simp: htable_def)
  then show "has_loc m (Next n)" using n by simp
  show "has_loc m (end_loc (First h) us)"
    using b(3) loc [of "last us"] last_in_set [of us] n by (cases "us = []") (auto simp: end_loc_cases simp del: last_in_set)
  show "has_loc m (Next q) \<and> q \<in> set (t h)" if "val m (Next n) = Some q"
    using that loc [of q] hrep_head [OF ws] n by (cases ws) auto
qed

lemma htable_drop:
  assumes t: "htable H A m t" and h: "h \<in> H" and n: "t h = us @ x # ws"
  shows "\<exists>m'. hl_del m x = Ret m' \<and> htable H A m' (t(h := us @ ws))"
proof (rule htable_update [OF t h del_eff])
  note at = htable_at [OF t h n]
  show "has_loc m (Next x)" by (rule at)
  show "back_ptr m x = Some (end_loc (First h) us)" "has_loc m (end_loc (First h) us)" by (rule at)+
  show "has_loc m (Next q)" if "val m (Next x) = Some q" for q using at(7) [OF that] by blast
  have b: "hrep (val m) (back_ptr m) (First h) (us @ x # ws)" "distinct (us @ x # ws)" "set (us @ x # ws) \<subseteq> A"
    using t h by (auto simp: htable_def simp flip: n)
  show "hrep ((val m)(end_loc (First h) us := val m (Next x), Next x := None))
      ((case val m (Next x) of None \<Rightarrow> back_ptr m | Some q \<Rightarrow> (back_ptr m)(q := Some (end_loc (First h) us)))(x := None)) (First h) (us @ ws)"
    by (rule hrep_drop [OF b(1,2) _ refl refl]) auto
  show "distinct (us @ ws)" "set (us @ ws) \<subseteq> A" using b by auto
  show "set (us @ ws) \<inter> set (t h') = {}" if "h' \<in> H" "h' \<noteq> h" for h'
  proof -
    have "set (t h) \<inter> set (t h') = {}" using t h that by (simp add: htable_def)
    then show ?thesis using n by auto
  qed
  show "((val m)(end_loc (First h) us := val m (Next x), Next x := None)) (First h') = val m (First h')" if "h' \<noteq> h" for h'
    using that by (simp add: end_loc_cases)
  fix k assume k: "k \<notin> set (t h)"
  have "end_loc (First h) us \<noteq> Next k" "k \<noteq> x" using k n last_in_set [of us] by (auto simp: end_loc_cases)
  moreover have "val m (Next x) \<noteq> Some k" using at(7) [of k] k by blast
  ultimately show "((val m)(end_loc (First h) us := val m (Next x), Next x := None)) (Next k) = val m (Next k) \<and>
      ((case val m (Next x) of None \<Rightarrow> back_ptr m | Some q \<Rightarrow> (back_ptr m)(q := Some (end_loc (First h) us)))(x := None)) k = back_ptr m k"
    by (auto split: option.splits)
qed


section \<open>Sequences of operations\<close>

datatype hop = AddHead nat nat | AddBefore nat nat | AddAfter nat nat | Del nat | Replace nat nat

definition hl_step :: "hmem \<Rightarrow> hop \<Rightarrow> hmem res" where
  "hl_step m p =
    (case p of
       AddHead n h \<Rightarrow> hl_add_head m n h
     | AddBefore n nxt \<Rightarrow> hl_add_before m n nxt
     | AddAfter n nxt \<Rightarrow> hl_add_after m n nxt
     | Del n \<Rightarrow> hl_del m n
     | Replace old new \<Rightarrow> hl_replace m old new)"

fun hl_run :: "hmem \<Rightarrow> hop list \<Rightarrow> hmem res" where
  "hl_run m [] = Ret m"
| "hl_run m (p # ps) = bnd (hl_step m p) (\<lambda>m'. hl_run m' ps)"

fun hl_init :: "hmem \<Rightarrow> nat list \<Rightarrow> hmem res" where
  "hl_init m [] = Ret m"
| "hl_init m (h # hs) = bnd (INIT_HLIST_HEAD m h) (\<lambda>m'. hl_init m' hs)"

text \<open>What the operations mean for the lists: the table says which nodes are on which list, in which order.\<close>

fun put_before :: "nat \<Rightarrow> nat \<Rightarrow> nat list \<Rightarrow> nat list" where
  "put_before n k [] = []"
| "put_before n k (y # ys) = (if y = k then n # y # ys else y # put_before n k ys)"

fun put_after :: "nat \<Rightarrow> nat \<Rightarrow> nat list \<Rightarrow> nat list" where
  "put_after n k [] = []"
| "put_after n k (y # ys) = (if y = k then y # n # ys else y # put_after n k ys)"

definition tbl_step :: "(nat \<Rightarrow> nat list) \<Rightarrow> hop \<Rightarrow> nat \<Rightarrow> nat list" where
  "tbl_step t p =
    (case p of
       AddHead n h \<Rightarrow> t(h := hlist_add_head n (t h))
     | AddBefore n nxt \<Rightarrow> (\<lambda>h. put_before n nxt (t h))
     | AddAfter n nxt \<Rightarrow> (\<lambda>h. put_after nxt n (t h))
     | Del n \<Rightarrow> (\<lambda>h. hlist_del n (t h))
     | Replace old new \<Rightarrow> (\<lambda>h. map (\<lambda>x. if x = old then new else x) (t h)))"

text \<open>
  What a caller has to see to: the node that is added is one of the nodes and on none of the lists, and the node at
  which something happens is on a list.
\<close>

definition on_table :: "nat list \<Rightarrow> (nat \<Rightarrow> nat list) \<Rightarrow> nat \<Rightarrow> bool" where
  "on_table H t n \<longleftrightarrow> list_ex (\<lambda>h. List.member (t h) n) H"

definition hop_ok :: "nat list \<Rightarrow> nat list \<Rightarrow> (nat \<Rightarrow> nat list) \<Rightarrow> hop \<Rightarrow> bool" where
  "hop_ok H A t p =
    (case p of
       AddHead n h \<Rightarrow> h \<in> set H \<and> n \<in> set A \<and> \<not> on_table H t n
     | AddBefore n nxt \<Rightarrow> n \<in> set A \<and> \<not> on_table H t n \<and> on_table H t nxt
     | AddAfter n nxt \<Rightarrow> nxt \<in> set A \<and> \<not> on_table H t nxt \<and> on_table H t n
     | Del n \<Rightarrow> on_table H t n
     | Replace old new \<Rightarrow> new \<in> set A \<and> \<not> on_table H t new \<and> on_table H t old)"

fun hops_ok :: "nat list \<Rightarrow> nat list \<Rightarrow> (nat \<Rightarrow> nat list) \<Rightarrow> hop list \<Rightarrow> bool" where
  "hops_ok H A t [] \<longleftrightarrow> True"
| "hops_ok H A t (p # ps) \<longleftrightarrow> hop_ok H A t p \<and> hops_ok H A (tbl_step t p) ps"

lemma on_table_iff: "on_table H t n \<longleftrightarrow> (\<exists>h\<in>set H. n \<in> set (t h))"
  by (simp add: on_table_def list_ex_iff)

lemma put_before_split: "k \<notin> set us \<Longrightarrow> put_before n k (us @ k # ws) = us @ n # k # ws"
  by (induction us) auto

lemma put_before_none: "k \<notin> set us \<Longrightarrow> put_before n k us = us"
  by (induction us) auto

lemma put_after_split: "k \<notin> set us \<Longrightarrow> put_after n k (us @ k # ws) = us @ k # n # ws"
  by (induction us) auto

lemma put_after_none: "k \<notin> set us \<Longrightarrow> put_after n k us = us"
  by (induction us) auto

lemma map_none: "k \<notin> set us \<Longrightarrow> map (\<lambda>x. if x = k then n else x) us = us"
  by (induction us) auto

lemma del_none: "k \<notin> set us \<Longrightarrow> hlist_del k us = us"
  by (simp add: hlist_del_def remove1_idem)

text \<open>An operation on one list, given for all: the other lists do not hold the node.\<close>

lemma htable_on:
  assumes t: "htable (set H) A m t" and n: "on_table H t k"
  obtains h us ws where "h \<in> set H" "t h = us @ k # ws" "k \<notin> set us" "k \<notin> set ws" "distinct (us @ ws)"
    "\<And>h'. h' \<in> set H \<Longrightarrow> h' \<noteq> h \<Longrightarrow> k \<notin> set (t h')"
proof -
  obtain h us ws where h: "h \<in> set H" "t h = us @ k # ws" using n by (auto simp: on_table_iff dest: split_list)
  have "distinct (us @ k # ws)" using t h(1) by (simp add: htable_def flip: h(2))
  moreover have "k \<notin> set (t h')" if "h' \<in> set H" "h' \<noteq> h" for h'
  proof -
    have "set (t h) \<inter> set (t h') = {}" using t h(1) that by (simp add: htable_def)
    then show ?thesis using h(2) by auto
  qed
  ultimately show ?thesis using that [OF h] by auto
qed

lemma htable_everywhere:
  assumes "\<exists>m'. r = Ret m' \<and> htable (set H) A m' (t(h := ns))" "f (t h) = ns" "\<And>h'. h' \<in> set H \<Longrightarrow> h' \<noteq> h \<Longrightarrow> f (t h') = t h'"
  shows "\<exists>m'. r = Ret m' \<and> htable (set H) A m' (\<lambda>h. f (t h))"
proof -
  obtain m' where "r = Ret m'" "htable (set H) A m' (t(h := ns))" using assms(1) by blast
  moreover from this(2) have "htable (set H) A m' (\<lambda>h. f (t h))" by (rule htable_cong) (use assms(2,3) in auto)
  ultimately show ?thesis by blast
qed


lemma step_add_head:
  assumes t: "htable (set H) (set A) m t" and p: "hop_ok H A t (AddHead n h)"
  shows "\<exists>m'. hl_step m (AddHead n h) = Ret m' \<and> htable (set H) (set A) m' (tbl_step t (AddHead n h))"
proof -
  have h: "h \<in> set H" "n \<in> set A" and fresh: "h' \<in> set H \<Longrightarrow> n \<notin> set (t h')" for h'
    using p by (auto simp: hop_ok_def on_table_iff)
  have b: "hrep (val m) (back_ptr m) (First h) (t h)" "distinct (t h)" "set (t h) \<subseteq> set A" "has_loc m (First h)"
    "\<And>k. k \<in> set A \<Longrightarrow> has_loc m (Next k)" using t h by (simp_all add: htable_def)
  have "has_loc m (Next q)" if "val m (First h) = Some q" for q
    using that b(3) b(5) [of q] hrep_head [OF b(1)] by (cases "t h") auto
  then have "puts m (hl_add_head m n h) (First h) (First h) n" by (rule add_head_puts [OF b(4) b(5) [OF h(2)]])
  then have "\<exists>m'. hl_add_head m n h = Ret m' \<and> htable (set H) (set A) m' (t(h := [] @ n # t h))"
    by (intro htable_put [OF t h(1) _ b(1)]) (use fresh h(2) b(2) in auto)
  then show ?thesis by (simp add: hl_step_def tbl_step_def hlist_add_head_def)
qed

lemma step_add_before:
  assumes t: "htable (set H) (set A) m t" and p: "hop_ok H A t (AddBefore n k)"
  shows "\<exists>m'. hl_step m (AddBefore n k) = Ret m' \<and> htable (set H) (set A) m' (tbl_step t (AddBefore n k))"
proof -
  have n: "n \<in> set A" "h \<in> set H \<Longrightarrow> n \<notin> set (t h)" and k: "on_table H t k" for h using p by (auto simp: hop_ok_def on_table_iff)
  obtain h us ws where h: "h \<in> set H" "t h = us @ k # ws" "k \<notin> set us" "k \<notin> set ws" "distinct (us @ ws)"
    and other: "\<And>h'. h' \<in> set H \<Longrightarrow> h' \<noteq> h \<Longrightarrow> k \<notin> set (t h')" by (rule htable_on [OF t k]) blast
  note at = htable_at [OF t h(1,2)]
  have "has_loc m (Next n)" "n \<noteq> k" using t n(1) n(2) [OF h(1)] h(2) by (auto simp: htable_def)
  then have "puts m (hl_add_before m n k) (end_loc (First h) us) (end_loc (First h) us) n"
    by (intro add_before_puts at)
  then have "\<exists>m'. hl_add_before m n k = Ret m' \<and> htable (set H) (set A) m' (t(h := us @ n # k # ws))"
    by (intro htable_put [OF t h(1) at(1) at(8)]) (use n h in auto)
  then have "\<exists>m'. hl_add_before m n k = Ret m' \<and> htable (set H) (set A) m' (\<lambda>h. put_before n k (t h))"
    by (rule htable_everywhere) (simp_all add: h put_before_split put_before_none other)
  then show ?thesis by (simp add: hl_step_def tbl_step_def)
qed

lemma step_add_after:
  assumes t: "htable (set H) (set A) m t" and p: "hop_ok H A t (AddAfter k n)"
  shows "\<exists>m'. hl_step m (AddAfter k n) = Ret m' \<and> htable (set H) (set A) m' (tbl_step t (AddAfter k n))"
proof -
  have n: "n \<in> set A" "h \<in> set H \<Longrightarrow> n \<notin> set (t h)" and k: "on_table H t k" for h using p by (auto simp: hop_ok_def on_table_iff)
  obtain h us ws where h: "h \<in> set H" "t h = us @ k # ws" "k \<notin> set us" "k \<notin> set ws" "distinct (us @ ws)"
    and other: "\<And>h'. h' \<in> set H \<Longrightarrow> h' \<noteq> h \<Longrightarrow> k \<notin> set (t h')" by (rule htable_on [OF t k]) blast
  note at = htable_at [OF t h(1,2)]
  have "has_loc m (Next n)" "n \<noteq> k" using t n(1) n(2) [OF h(1)] h(2) by (auto simp: htable_def)
  then have "puts m (hl_add_after m k n) (Next k) (end_loc (First h) (us @ [k])) n"
    unfolding end_loc_append end_loc.simps by (intro add_after_puts at) (use at(7) n(2) [OF h(1)] in blast)+
  then have "\<exists>m'. hl_add_after m k n = Ret m' \<and> htable (set H) (set A) m' (t(h := (us @ [k]) @ n # ws))"
    by (intro htable_put [OF t h(1) _ at(2)]) (use n h at in \<open>auto simp: linked_append\<close>)
  then have "\<exists>m'. hl_add_after m k n = Ret m' \<and> htable (set H) (set A) m' (\<lambda>h. put_after n k (t h))"
    by (rule htable_everywhere) (simp_all add: h put_after_split put_after_none other)
  then show ?thesis by (simp add: hl_step_def tbl_step_def)
qed

lemma step_del:
  assumes t: "htable (set H) (set A) m t" and p: "hop_ok H A t (Del k)"
  shows "\<exists>m'. hl_step m (Del k) = Ret m' \<and> htable (set H) (set A) m' (tbl_step t (Del k))"
proof -
  have k: "on_table H t k" using p by (simp add: hop_ok_def)
  obtain h us ws where h: "h \<in> set H" "t h = us @ k # ws" "k \<notin> set us" "k \<notin> set ws" "distinct (us @ ws)"
    and other: "\<And>h'. h' \<in> set H \<Longrightarrow> h' \<noteq> h \<Longrightarrow> k \<notin> set (t h')" by (rule htable_on [OF t k]) blast
  have "\<exists>m'. hl_del m k = Ret m' \<and> htable (set H) (set A) m' (\<lambda>h. hlist_del k (t h))"
    by (rule htable_everywhere [OF htable_drop [OF t h(1,2)]])
      (use h other in \<open>simp_all add: del_none, simp add: hlist_del_def remove1_append\<close>)
  then show ?thesis by (simp add: hl_step_def tbl_step_def)
qed

lemma step_replace:
  assumes t: "htable (set H) (set A) m t" and p: "hop_ok H A t (Replace k n)"
  shows "\<exists>m'. hl_step m (Replace k n) = Ret m' \<and> htable (set H) (set A) m' (tbl_step t (Replace k n))"
proof -
  have n: "n \<in> set A" "h \<in> set H \<Longrightarrow> n \<notin> set (t h)" and k: "on_table H t k" for h using p by (auto simp: hop_ok_def on_table_iff)
  obtain h us ws where h: "h \<in> set H" "t h = us @ k # ws" "k \<notin> set us" "k \<notin> set ws" "distinct (us @ ws)"
    and other: "\<And>h'. h' \<in> set H \<Longrightarrow> h' \<noteq> h \<Longrightarrow> k \<notin> set (t h')" by (rule htable_on [OF t k]) blast
  note at = htable_at [OF t h(1,2)]
  have "has_loc m (Next n)" using t n by (auto simp: htable_def)
  then have "puts m (hl_replace m k n) (Next k) (end_loc (First h) us) n"
    by (intro replace_puts at) (use at(7) n(2) [OF h(1)] in blast)+
  then have "\<exists>m'. hl_replace m k n = Ret m' \<and> htable (set H) (set A) m' (t(h := us @ n # ws))"
    by (intro htable_put [OF t h(1) at(1) at(2)]) (use n h in auto)
  then have "\<exists>m'. hl_replace m k n = Ret m' \<and> htable (set H) (set A) m' (\<lambda>h. map (\<lambda>x. if x = k then n else x) (t h))"
    by (rule htable_everywhere) (simp_all add: h map_none other)
  then show ?thesis by (simp add: hl_step_def tbl_step_def)
qed

lemma hl_step_ok:
  "htable (set H) (set A) m t \<Longrightarrow> hop_ok H A t p \<Longrightarrow> \<exists>m'. hl_step m p = Ret m' \<and> htable (set H) (set A) m' (tbl_step t p)"
  by (cases p) (simp_all only: step_add_head step_add_before step_add_after step_del step_replace)


lemma hl_run_ok:
  "htable (set H) (set A) m t \<Longrightarrow> hops_ok H A t ps \<Longrightarrow> \<exists>m'. hl_run m ps = Ret m' \<and> htable (set H) (set A) m' (foldl tbl_step t ps)"
proof (induction ps arbitrary: m t)
  case (Cons p ps)
  obtain m1 where "hl_step m p = Ret m1" "htable (set H) (set A) m1 (tbl_step t p)"
    using hl_step_ok [OF Cons.prems(1), of p] Cons.prems(2) by auto
  then show ?case using Cons.IH [of m1 "tbl_step t p"] Cons.prems(2) by simp
qed simp

lemma hl_init_ok:
  "\<forall>h\<in>set H. has_loc m (First h) \<Longrightarrow> eff m (hl_init m H) (\<lambda>l. if l \<in> First ` set H then None else val m l) (back_ptr m)"
proof (induction H arbitrary: m)
  case (Cons h hs)
  show ?case unfolding hl_init.simps INIT_HLIST_HEAD_def
  proof (rule eff_bind [OF eff_set_loc [OF _ refl refl]])
    show "has_loc m (First h)" using Cons.prems by simp
    fix m1 assume m1: "val m1 = (val m)(First h := None)" "back_ptr m1 = back_ptr m" "same_dom m m1"
    have "eff m1 (hl_init m1 hs) (\<lambda>l. if l \<in> First ` set hs then None else val m1 l) (back_ptr m1)"
      by (rule Cons.IH) (use Cons.prems same_dom_loc [OF m1(3)] in \<open>simp del: has_loc_simps\<close>)
    also have "(\<lambda>l. if l \<in> First ` set hs then None else val m1 l) = (\<lambda>l. if l \<in> First ` set (h # hs) then None else val m l)"
      by (auto simp: m1)
    finally show "eff m1 (hl_init m1 hs) (\<lambda>l. if l \<in> First ` set (h # hs) then None else val m l) (back_ptr m)" by (simp add: m1)
  qed
qed (simp add: eff_Ret)

lemma htable_init:
  assumes "\<forall>h\<in>set H. heads m h \<noteq> None" "\<forall>n\<in>set A. hnodes m n \<noteq> None"
  shows "\<exists>m'. hl_init m H = Ret m' \<and> htable (set H) (set A) m' (\<lambda>_. [])"
proof -
  obtain m' where m': "hl_init m H = Ret m'" "val m' = (\<lambda>l. if l \<in> First ` set H then None else val m l)" "same_dom m m'"
    using hl_init_ok [of H m] assms(1) by (auto simp: eff_def)
  have "has_loc m' (First h)" if "h \<in> set H" for h by (rule same_dom_loc [OF m'(3)]) (use assms(1) that in simp)
  moreover have "has_loc m' (Next n)" if "n \<in> set A" for n by (rule same_dom_loc [OF m'(3)]) (use assms(2) that in simp)
  ultimately have "htable (set H) (set A) m' (\<lambda>_. [])" using m'(2) by (simp add: htable_def hrep_def)
  then show ?thesis using m'(1) by blast
qed

lemma hl_search_find:
  "hrep (val m) B l ns \<Longrightarrow> \<forall>n\<in>set ns. has_loc m (Next n) \<Longrightarrow> length ns < fuel \<Longrightarrow>
    hl_search fuel m (\<lambda>n. Ret (P n)) (val m l) = Ret (find P ns)"
proof (induction ns arbitrary: l fuel)
  case Nil
  then show ?case by (cases fuel) (auto simp: hrep_def)
next
  case (Cons n ns)
  then obtain f where f: "fuel = Suc f" "length ns < f" by (cases fuel) auto
  have "hrep (val m) B (Next n) ns" "val m l = Some n" using Cons.prems(1) by (auto simp: hrep_def)
  then show ?case using Cons.IH [of "Next n" f] Cons.prems(2) f by (simp add: get_loc_ok)
qed

lemma htable_search:
  assumes t: "htable (set H) A m t" and h: "h \<in> set H" and f: "length (t h) < fuel"
  shows "hl_for_each_entry fuel m (\<lambda>n. Ret (P n)) h = Ret (find P (t h))" "hl_empty m h = Ret (t h = [])"
proof -
  have b: "hrep (val m) (back_ptr m) (First h) (t h)" "\<forall>n\<in>set (t h). has_loc m (Next n)" "has_loc m (First h)"
    using t h by (auto simp: htable_def)
  show "hl_for_each_entry fuel m (\<lambda>n. Ret (P n)) h = Ret (find P (t h))"
    using hl_search_find [OF b(1,2) f] by (simp add: hl_for_each_entry_def get_loc_ok [OF b(3)])
  show "hl_empty m h = Ret (t h = [])"
    using hrep_head [OF b(1)] by (simp add: hl_empty_def get_loc_ok [OF b(3)] split: list.splits)
qed

text \<open>
  C19: The hash lists implement a table of lists of addresses. When the heads have been initialised with
  \<^verbatim>\<open>INIT_HLIST_HEAD\<close>, every sequence of \<^verbatim>\<open>hlist_add_head\<close>, \<^verbatim>\<open>hlist_add_before\<close>, \<^verbatim>\<open>hlist_add_after\<close>, \<^verbatim>\<open>hlist_del\<close> and
  \<^verbatim>\<open>hlist_replace\<close> on allocated nodes, which adds only nodes that are on none of the lists and works only at nodes
  that are on one, runs without a wild access, whatever the fields held before; \<^verbatim>\<open>hlist_for_each_entry\<close> then visits
  the entries of every list in the order that the same operations on plain lists give, until its body finds what it
  looks for, and ends; and \<^verbatim>\<open>hlist_empty\<close> says whether there are none.
\<close>

theorem hlist_table_refines:
  assumes "\<forall>h\<in>set H. heads m h \<noteq> None" "\<forall>n\<in>set A. hnodes m n \<noteq> None" "hops_ok H A (\<lambda>_. []) ps"
  shows "\<exists>m'. bnd (hl_init m H) (\<lambda>m0. hl_run m0 ps) = Ret m' \<and>
    (\<forall>h\<in>set H. hl_empty m' h = Ret (foldl tbl_step (\<lambda>_. []) ps h = []) \<and>
      (\<forall>P fuel. length (foldl tbl_step (\<lambda>_. []) ps h) < fuel \<longrightarrow>
        hl_for_each_entry fuel m' (\<lambda>n. Ret (P n)) h = Ret (find P (foldl tbl_step (\<lambda>_. []) ps h))))"
proof -
  obtain m0 where "hl_init m H = Ret m0" "htable (set H) (set A) m0 (\<lambda>_. [])" using htable_init [OF assms(1,2)] by blast
  then obtain m' where "bnd (hl_init m H) (\<lambda>m0. hl_run m0 ps) = Ret m'" and t: "htable (set H) (set A) m' (foldl tbl_step (\<lambda>_. []) ps)"
    using hl_run_ok [OF _ assms(3)] by fastforce
  then show ?thesis using htable_search(1) [OF t] htable_search(2) [OF t _ lessI] by blast
qed

definition hmem_ex :: hmem where
  "hmem_ex = \<lparr>heads = (\<lambda>h. if h < 2 then Some (Some 7) else None),
    hnodes = (\<lambda>n. if n < 5 then Some \<lparr>hnext = Some n, pprev = None\<rparr> else None)\<rparr>"

definition hops_ex :: "hop list" where
  "hops_ex = [AddHead 0 0, AddHead 1 0, AddBefore 2 0, AddAfter 1 3, AddHead 4 1, Del 2, Replace 0 2, Del 4]"

text \<open>Two lists and five nodes; nodes 1, 3 and 2 are left on the first list.\<close>

theorem hlist_table_refines_witness:
  "\<exists>m'. bnd (hl_init hmem_ex [0, 1]) (\<lambda>m0. hl_run m0 hops_ex) = Ret m' \<and>
    hl_for_each_entry 4 m' (\<lambda>n. Ret (2 \<le> n)) 0 = Ret (Some 3) \<and> hl_for_each_entry 4 m' (\<lambda>n. Ret (n = 0)) 0 = Ret None \<and>
    hl_empty m' 1 = Ret True"
proof -
  have ok: "hops_ok [0, 1] [0, 1, 2, 3, 4] (\<lambda>_. []) hops_ex"
    by (simp add: hops_ex_def hop_ok_def tbl_step_def on_table_def hlist_add_head_def hlist_del_def)
  have t: "foldl tbl_step (\<lambda>_. []) hops_ex 0 = [1, 3, 2]" "foldl tbl_step (\<lambda>_. []) hops_ex 1 = []"
    by (simp_all add: hops_ex_def tbl_step_def hlist_add_head_def hlist_del_def)
  obtain m' where m': "bnd (hl_init hmem_ex [0, 1]) (\<lambda>m0. hl_run m0 hops_ex) = Ret m'"
    and res: "\<forall>h\<in>set [0, 1]. hl_empty m' h = Ret (foldl tbl_step (\<lambda>_. []) hops_ex h = []) \<and>
      (\<forall>P fuel. length (foldl tbl_step (\<lambda>_. []) hops_ex h) < fuel \<longrightarrow>
        hl_for_each_entry fuel m' (\<lambda>n. Ret (P n)) h = Ret (find P (foldl tbl_step (\<lambda>_. []) hops_ex h)))"
    using hlist_table_refines [OF _ _ ok, of hmem_ex] by (auto simp: hmem_ex_def)
  have find: "hl_for_each_entry 4 m' (\<lambda>n. Ret (P n)) 0 = Ret (find P [1, 3, 2])" for P using res t(1) by simp
  have "hl_empty m' 1 = Ret True" using res t(2) by simp
  then show ?thesis using m' find [of "\<lambda>n. 2 \<le> n"] find [of "\<lambda>n. n = 0"] by auto
qed

end
