(* ===== verification/FS_ListHead.thy ===== *)
theory FS_ListHead
  imports OS_Prelude
begin

text \<open>
  The circular doubly linked lists of \<^verbatim>\<open>fs/list.h\<close> (\<^verbatim>\<open>struct list_head\<close>): a head and the nodes of its list are
  objects of the same kind, linked in a ring. The operations are modelled on the level of pointers, and shown to
  implement a table that says which nodes are on the list of which head, in which order.
\<close>

section \<open>The operations\<close>

record list_head =
  lnext :: "nat option"
  lprev :: "nat option"

type_synonym lmem = "nat \<Rightarrow> list_head option"

definition get_next :: "lmem \<Rightarrow> nat \<Rightarrow> nat option res" where
  "get_next m a = bnd (deref (m a)) (\<lambda>x. Ret (lnext x))"

definition get_prev :: "lmem \<Rightarrow> nat \<Rightarrow> nat option res" where
  "get_prev m a = bnd (deref (m a)) (\<lambda>x. Ret (lprev x))"

definition set_next :: "lmem \<Rightarrow> nat \<Rightarrow> nat option \<Rightarrow> lmem res" where
  "set_next m a x = bnd (deref (m a)) (\<lambda>nd. Ret (m(a \<mapsto> nd\<lparr>lnext := x\<rparr>)))"

definition set_prev :: "lmem \<Rightarrow> nat \<Rightarrow> nat option \<Rightarrow> lmem res" where
  "set_prev m a x = bnd (deref (m a)) (\<lambda>nd. Ret (m(a \<mapsto> nd\<lparr>lprev := x\<rparr>)))"

definition INIT_LIST_HEAD :: "lmem \<Rightarrow> nat \<Rightarrow> lmem res" where
  "INIT_LIST_HEAD m list = bnd (set_next m list (Some list)) (\<lambda>m. set_prev m list (Some list))"

definition list_add_between :: "lmem \<Rightarrow> nat \<Rightarrow> nat option \<Rightarrow> nat option \<Rightarrow> lmem res" where
  "list_add_between m new prev next =
    bnd (deref next) (\<lambda>b.
    bnd (set_prev m b (Some new)) (\<lambda>m.
    bnd (set_next m new next) (\<lambda>m.
    bnd (set_prev m new prev) (\<lambda>m.
    bnd (deref prev) (\<lambda>a. set_next m a (Some new))))))"

definition list_add :: "lmem \<Rightarrow> nat \<Rightarrow> nat \<Rightarrow> lmem res" where
  "list_add m new head = bnd (get_next m head) (\<lambda>next. list_add_between m new (Some head) next)"

definition list_add_tail :: "lmem \<Rightarrow> nat \<Rightarrow> nat \<Rightarrow> lmem res" where
  "list_add_tail m new head = bnd (get_prev m head) (\<lambda>prev. list_add_between m new prev (Some head))"

definition list_del_between :: "lmem \<Rightarrow> nat option \<Rightarrow> nat option \<Rightarrow> lmem res" where
  "list_del_between m prev next =
    bnd (deref next) (\<lambda>b.
    bnd (set_prev m b prev) (\<lambda>m.
    bnd (deref prev) (\<lambda>a. set_next m a next)))"

definition list_del :: "lmem \<Rightarrow> nat \<Rightarrow> lmem res" where
  "list_del m entry =
    bnd (get_prev m entry) (\<lambda>p.
    bnd (c_assert (p \<noteq> None)) (\<lambda>_.
    bnd (get_next m entry) (\<lambda>n.
    bnd (c_assert (n \<noteq> None)) (\<lambda>_.
    bnd (list_del_between m p n) (\<lambda>m.
    bnd (set_prev m entry None) (\<lambda>m. set_next m entry None))))))"

definition list_replace :: "lmem \<Rightarrow> nat \<Rightarrow> nat \<Rightarrow> lmem res" where
  "list_replace m old new =
    bnd (get_next m old) (\<lambda>n.
    bnd (set_next m new n) (\<lambda>m.
    bnd (bnd (get_next m new) deref) (\<lambda>b.
    bnd (set_prev m b (Some new)) (\<lambda>m.
    bnd (get_prev m old) (\<lambda>p.
    bnd (set_prev m new p) (\<lambda>m.
    bnd (bnd (get_prev m new) deref) (\<lambda>a. set_next m a (Some new))))))))"

definition list_is_last :: "lmem \<Rightarrow> nat \<Rightarrow> nat \<Rightarrow> bool res" where
  "list_is_last m list head = bnd (get_next m list) (\<lambda>n. Ret (n = Some head))"

definition list_empty :: "lmem \<Rightarrow> nat \<Rightarrow> bool res" where
  "list_empty m head = bnd (get_next m head) (\<lambda>n. Ret (n = Some head))"

definition list_is_singular :: "lmem \<Rightarrow> nat \<Rightarrow> bool res" where
  "list_is_singular m head =
    bnd (list_empty m head) (\<lambda>e.
    if e then Ret False else
    bnd (get_next m head) (\<lambda>n. bnd (get_prev m head) (\<lambda>p. Ret (n = p))))"

definition list_cut_at :: "lmem \<Rightarrow> nat \<Rightarrow> nat \<Rightarrow> nat \<Rightarrow> lmem res" where
  "list_cut_at m list head entry =
    bnd (get_next m entry) (\<lambda>new_first.
    bnd (get_next m head) (\<lambda>f.
    bnd (set_next m list f) (\<lambda>m.
    bnd (bnd (get_next m list) deref) (\<lambda>b.
    bnd (set_prev m b (Some list)) (\<lambda>m.
    bnd (set_prev m list (Some entry)) (\<lambda>m.
    bnd (set_next m entry (Some list)) (\<lambda>m.
    bnd (set_next m head new_first) (\<lambda>m.
    bnd (deref new_first) (\<lambda>c. set_prev m c (Some head))))))))))"

definition list_cut_position :: "lmem \<Rightarrow> nat \<Rightarrow> nat \<Rightarrow> nat \<Rightarrow> lmem res" where
  "list_cut_position m list head entry =
    bnd (list_empty m head) (\<lambda>e.
    if e then Ret m else
    bnd (list_is_singular m head) (\<lambda>s.
    bnd (get_next m head) (\<lambda>f.
    if s \<and> f \<noteq> Some entry \<and> head \<noteq> entry then Ret m
    else if entry = head then INIT_LIST_HEAD m list
    else list_cut_at m list head entry)))"

definition list_splice_between :: "lmem \<Rightarrow> nat \<Rightarrow> nat option \<Rightarrow> nat option \<Rightarrow> lmem res" where
  "list_splice_between m list prev next =
    bnd (get_next m list) (\<lambda>first.
    bnd (get_prev m list) (\<lambda>last.
    bnd (deref first) (\<lambda>f.
    bnd (set_prev m f prev) (\<lambda>m.
    bnd (deref prev) (\<lambda>p.
    bnd (set_next m p first) (\<lambda>m.
    bnd (deref last) (\<lambda>l.
    bnd (set_next m l next) (\<lambda>m.
    bnd (deref next) (\<lambda>n. set_prev m n last)))))))))"

definition list_splice :: "lmem \<Rightarrow> nat \<Rightarrow> nat \<Rightarrow> lmem res" where
  "list_splice m list head =
    bnd (list_empty m list) (\<lambda>e.
    if e then Ret m else bnd (get_next m head) (\<lambda>n. list_splice_between m list (Some head) n))"

definition list_splice_tail :: "lmem \<Rightarrow> nat \<Rightarrow> nat \<Rightarrow> lmem res" where
  "list_splice_tail m list head =
    bnd (list_empty m list) (\<lambda>e.
    if e then Ret m else bnd (get_prev m head) (\<lambda>p. list_splice_between m list p (Some head)))"

text \<open>
  The loops over the entries: \<^verbatim>\<open>list_for_each_entry\<close> with a body that may leave it with a result, and
  \<^verbatim>\<open>list_for_each_entry_safe\<close> with a body that may change the lists. The entries are the objects the nodes are part of; here
  they are named by their nodes.
\<close>

primrec list_search :: "nat \<Rightarrow> lmem \<Rightarrow> (nat \<Rightarrow> bool res) \<Rightarrow> nat \<Rightarrow> nat option \<Rightarrow> nat option res" where
  "list_search 0 m found head pos = Crash Diverges"
| "list_search (Suc fuel) m found head pos =
    bnd (deref pos) (\<lambda>n.
    if n = head then Ret None else
    bnd (found n) (\<lambda>b.
    if b then Ret (Some n) else bnd (get_next m n) (\<lambda>q. list_search fuel m found head q)))"

definition list_for_each_entry :: "nat \<Rightarrow> lmem \<Rightarrow> (nat \<Rightarrow> bool res) \<Rightarrow> nat \<Rightarrow> nat option res" where
  "list_for_each_entry fuel m found head = bnd (get_next m head) (\<lambda>pos. list_search fuel m found head pos)"

primrec list_safe_loop :: "nat \<Rightarrow> (lmem \<Rightarrow> nat \<Rightarrow> lmem res) \<Rightarrow> nat \<Rightarrow> lmem \<Rightarrow> nat \<Rightarrow> nat option \<Rightarrow> lmem res" where
  "list_safe_loop 0 body head m pos n = Crash Diverges"
| "list_safe_loop (Suc fuel) body head m pos n =
    (if pos = head then Ret m
     else
       bnd (body m pos) (\<lambda>m.
       bnd (deref n) (\<lambda>p.
       bnd (get_next m p) (\<lambda>n'. list_safe_loop fuel body head m p n'))))"

definition list_for_each_entry_safe :: "nat \<Rightarrow> (lmem \<Rightarrow> nat \<Rightarrow> lmem res) \<Rightarrow> nat \<Rightarrow> lmem \<Rightarrow> lmem res" where
  "list_for_each_entry_safe fuel body head m =
    bnd (bnd (get_next m head) deref) (\<lambda>pos.
    bnd (get_next m pos) (\<lambda>n. list_safe_loop fuel body head m pos n))"

definition list_for_each_entry_safe_continue :: "nat \<Rightarrow> (lmem \<Rightarrow> nat \<Rightarrow> lmem res) \<Rightarrow> nat \<Rightarrow> lmem \<Rightarrow> nat \<Rightarrow> lmem res" where
  "list_for_each_entry_safe_continue fuel body head m pos =
    bnd (bnd (get_next m pos) deref) (\<lambda>pos.
    bnd (get_next m pos) (\<lambda>n. list_safe_loop fuel body head m pos n))"

section \<open>Links\<close>

definition lnx :: "lmem \<Rightarrow> nat \<Rightarrow> nat option" where
  "lnx m a = (case m a of None \<Rightarrow> None | Some x \<Rightarrow> lnext x)"

definition lpv :: "lmem \<Rightarrow> nat \<Rightarrow> nat option" where
  "lpv m a = (case m a of None \<Rightarrow> None | Some x \<Rightarrow> lprev x)"

lemma get_next_ok: "a \<in> dom m \<Longrightarrow> get_next m a = Ret (lnx m a)"
  by (auto simp: get_next_def lnx_def)

lemma get_prev_ok: "a \<in> dom m \<Longrightarrow> get_prev m a = Ret (lpv m a)"
  by (auto simp: get_prev_def lpv_def)

text \<open>The operation is done without a crash, and leaves these pointers; no object comes or goes.\<close>

definition leff :: "lmem \<Rightarrow> lmem res \<Rightarrow> (nat \<Rightarrow> nat option) \<Rightarrow> (nat \<Rightarrow> nat option) \<Rightarrow> bool" where
  "leff m r N P \<longleftrightarrow> (\<exists>m'. r = Ret m' \<and> lnx m' = N \<and> lpv m' = P \<and> dom m' = dom m)"

lemma leff_bind:
  assumes "leff m r N P" "\<And>m1. lnx m1 = N \<Longrightarrow> lpv m1 = P \<Longrightarrow> dom m1 = dom m \<Longrightarrow> leff m1 (f m1) N' P'"
  shows "leff m (bnd r f) N' P'"
  using assms by (fastforce simp: leff_def)

lemma leff_Ret: "lnx m = N \<Longrightarrow> lpv m = P \<Longrightarrow> leff m (Ret m) N P"
  by (simp add: leff_def)

lemma lnx_lpv_upd:
  assumes "m a = Some y"
  shows "lnx (m(a \<mapsto> y\<lparr>lnext := x\<rparr>)) = (lnx m)(a := x)" "lpv (m(a \<mapsto> y\<lparr>lnext := x\<rparr>)) = lpv m"
    "lnx (m(a \<mapsto> y\<lparr>lprev := x\<rparr>)) = lnx m" "lpv (m(a \<mapsto> y\<lparr>lprev := x\<rparr>)) = (lpv m)(a := x)"
  using assms by (auto simp: lnx_def lpv_def fun_eq_iff)

lemma leff_set_next: "a \<in> dom m \<Longrightarrow> N = (lnx m)(a := x) \<Longrightarrow> P = lpv m \<Longrightarrow> leff m (set_next m a x) N P"
  by (auto simp: leff_def set_next_def lnx_lpv_upd)

lemma leff_set_prev: "a \<in> dom m \<Longrightarrow> N = lnx m \<Longrightarrow> P = (lpv m)(a := x) \<Longrightarrow> leff m (set_prev m a x) N P"
  by (auto simp: leff_def set_prev_def lnx_lpv_upd)


lemmas leff_steps = leff_bind [OF leff_set_next [OF _ refl refl]] leff_bind [OF leff_set_prev [OF _ refl refl]]

lemma init_leff: "h \<in> dom m \<Longrightarrow> leff m (INIT_LIST_HEAD m h) ((lnx m)(h := Some h)) ((lpv m)(h := Some h))"
  unfolding INIT_LIST_HEAD_def by (rule leff_steps, assumption, rule leff_set_prev) simp_all

lemma add_between_leff:
  assumes "new \<in> dom m" "a \<in> dom m" "b \<in> dom m"
  shows "leff m (list_add_between m new (Some a) (Some b)) ((lnx m)(new := Some b, a := Some new)) ((lpv m)(b := Some new, new := Some a))"
  unfolding list_add_between_def deref.simps bnd.simps
  by (rule leff_steps, rule assms, rule leff_steps, use assms in simp, rule leff_steps, use assms in simp, rule leff_set_next)
    (use assms in simp_all)

lemma del_leff:
  assumes e: "e \<in> dom m" "lpv m e = Some a" "lnx m e = Some b" and ab: "a \<in> dom m" "b \<in> dom m"
  shows "leff m (list_del m e) ((lnx m)(a := Some b, e := None)) ((lpv m)(b := Some a, e := None))"
proof -
  have "leff m (list_del_between m (Some a) (Some b)) ((lnx m)(a := Some b)) ((lpv m)(b := Some a))"
    unfolding list_del_between_def deref.simps bnd.simps by (rule leff_steps, rule ab, rule leff_set_next) (use ab in simp_all)
  then have "leff m (bnd (list_del_between m (Some a) (Some b)) (\<lambda>m. bnd (set_prev m e None) (\<lambda>m. set_next m e None)))
      ((lnx m)(a := Some b, e := None)) ((lpv m)(b := Some a, e := None))"
    by (rule leff_bind) (rule leff_steps, use e in simp, rule leff_set_next, use e in simp_all)
  then show ?thesis by (simp add: list_del_def get_next_ok [OF e(1)] get_prev_ok [OF e(1)] e(2,3))
qed

lemma replace_leff:
  assumes old: "old \<in> dom m" "lpv m old = Some a" "lnx m old = Some b" and d: "a \<in> dom m" "b \<in> dom m" "new \<in> dom m"
    and ne: "b \<noteq> old" "old \<noteq> new"
  shows "leff m (list_replace m old new) ((lnx m)(new := Some b, a := Some new)) ((lpv m)(b := Some new, new := Some a))"
proof -
  show ?thesis
    unfolding list_replace_def get_next_ok [OF old(1)] old bnd.simps
    apply (rule leff_steps)
     apply (rule d)
    apply (simp add: get_next_ok d)
    apply (rule leff_steps)
     apply (use d in simp)
    apply (simp add: get_prev_ok old d ne [symmetric])
    apply (rule leff_steps)
     apply (use d in simp)
    apply (simp add: get_prev_ok d)
    apply (rule leff_set_next)
      apply (use d in simp_all)
    done
qed

lemma cut_leff:
  assumes d: "list \<in> dom m" "head \<in> dom m" "entry \<in> dom m" "b \<in> dom m" "c \<in> dom m"
    and f: "lnx m head = Some b" "lnx m entry = Some c"
  shows "leff m (list_cut_at m list head entry) ((lnx m)(list := Some b, entry := Some list, head := Some c))
    ((lpv m)(b := Some list, list := Some entry, c := Some head))"
  unfolding list_cut_at_def get_next_ok [OF d(2)] get_next_ok [OF d(3)] f bnd.simps deref.simps
  apply (rule leff_steps)
   apply (rule d)
  apply (simp add: get_next_ok d)
  apply (rule leff_steps)
   apply (use d in simp)
  apply (rule leff_steps)
   apply (use d in simp)
  apply (rule leff_steps)
   apply (use d in simp)
  apply (rule leff_steps)
   apply (use d in simp)
  apply (rule leff_set_prev)
    apply (use d in simp_all)
  done

lemma splice_leff:
  assumes d: "list \<in> dom m" "f \<in> dom m" "l \<in> dom m" "p \<in> dom m" "n \<in> dom m" and f: "lnx m list = Some f" "lpv m list = Some l"
  shows "leff m (list_splice_between m list (Some p) (Some n)) ((lnx m)(p := Some f, l := Some n)) ((lpv m)(f := Some p, n := Some l))"
  unfolding list_splice_between_def get_next_ok [OF d(1)] get_prev_ok [OF d(1)] f bnd.simps deref.simps
  by (rule leff_steps, rule d, rule leff_steps, use d in simp, rule leff_steps, use d in simp, rule leff_set_prev) (use d in simp_all)

section \<open>Rings\<close>

type_synonym links = "nat \<Rightarrow> nat option"

fun lpath :: "links \<Rightarrow> links \<Rightarrow> nat list \<Rightarrow> bool" where
  "lpath N P [] \<longleftrightarrow> True"
| "lpath N P [x] \<longleftrightarrow> True"
| "lpath N P (x # y # zs) \<longleftrightarrow> N x = Some y \<and> P y = Some x \<and> lpath N P (y # zs)"

lemma lpath_Cons: "lpath N P (x # zs) \<longleftrightarrow> (zs \<noteq> [] \<longrightarrow> N x = Some (List.hd zs) \<and> P (List.hd zs) = Some x) \<and> lpath N P zs"
  by (cases zs) auto

lemma lpath_append:
  "lpath N P (xs @ ys) \<longleftrightarrow> lpath N P xs \<and> lpath N P ys \<and>
    (xs \<noteq> [] \<longrightarrow> ys \<noteq> [] \<longrightarrow> N (last xs) = Some (List.hd ys) \<and> P (List.hd ys) = Some (last xs))"
  by (induction xs) (auto simp: lpath_Cons)

lemma lpath_cong:
  "lpath N P zs \<Longrightarrow> (\<And>x. x \<in> set (butlast zs) \<Longrightarrow> N' x = N x) \<Longrightarrow> (\<And>x. x \<in> set (tl zs) \<Longrightarrow> P' x = P x) \<Longrightarrow> lpath N' P' zs"
  by (induction N P zs rule: lpath.induct) auto

lemma butlast_other: "distinct xs \<Longrightarrow> x \<in> set (butlast xs) \<Longrightarrow> x \<noteq> last xs"
  by (induction xs) auto

lemma tl_other: "distinct xs \<Longrightarrow> x \<in> set (tl xs) \<Longrightarrow> x \<noteq> List.hd xs"
  by (cases xs) auto


text \<open>The two sides of a place in a ring.\<close>

definition sides :: "nat list \<Rightarrow> nat list \<Rightarrow> bool" where
  "sides xs ys \<longleftrightarrow> xs \<noteq> [] \<and> ys \<noteq> [] \<and> last xs \<notin> set (butlast xs) \<union> set (butlast ys) \<and> List.hd ys \<notin> set (tl xs) \<union> set (tl ys)"

lemma ring_sides: "distinct (h # us @ ws) \<Longrightarrow> sides (h # us) (ws @ [h])"
proof -
  assume d: "distinct (h # us @ ws)"
  have "x \<noteq> last (h # us)" if "x \<in> set (butlast (h # us))" for x by (rule butlast_other) (use d that in auto)
  moreover have "x \<noteq> List.hd (ws @ [h])" if "x \<in> set (tl (ws @ [h]))" for x by (rule tl_other) (use d that in auto)
  moreover have "last (h # us) \<in> set (h # us)" by (rule last_in_set) simp
  moreover have "List.hd (ws @ [h]) \<in> set (ws @ [h])" by (rule hd_in_set) simp
  ultimately show ?thesis using d by (fastforce simp: sides_def butlast_append)
qed

lemma set_tl: "x \<in> set (tl xs) \<Longrightarrow> x \<in> set xs"
  by (cases xs) auto

lemma lpath_splice:
  assumes p: "lpath N P xs" "lpath N P ys" "lpath N P zs" and s: "sides xs ys" and zs: "zs \<noteq> []" "distinct zs" "set zs \<inter> (set xs \<union> set ys) = {}"
    and N': "N' = N(last xs := Some (List.hd zs), last zs := Some (List.hd ys))"
    and P': "P' = P(List.hd zs := Some (last xs), List.hd ys := Some (last zs))"
  shows "lpath N' P' (xs @ zs @ ys)"
proof -
  have ne: "xs \<noteq> []" "ys \<noteq> []" using s by (simp_all add: sides_def)
  have mem: "last xs \<in> set xs" "List.hd ys \<in> set ys" "last zs \<in> set zs" "List.hd zs \<in> set zs" using ne zs(1) by simp_all
  have xs: "lpath N' P' xs" by (rule lpath_cong [OF p(1)])
    (use s zs(3) mem in \<open>auto simp: N' P' sides_def dest: in_set_butlastD set_tl\<close>)
  have ys: "lpath N' P' ys" by (rule lpath_cong [OF p(2)])
    (use s zs(3) mem in \<open>auto simp: N' P' sides_def dest: in_set_butlastD set_tl\<close>)
  have zs': "lpath N' P' zs" by (rule lpath_cong [OF p(3)])
    (use butlast_other [OF zs(2)] tl_other [OF zs(2)] zs(3) mem in \<open>auto simp: N' P' dest: in_set_butlastD set_tl\<close>)
  have "last xs \<noteq> last zs" "List.hd zs \<noteq> List.hd ys" using mem zs(3) by (metis UnCI disjoint_iff)+
  then show ?thesis using xs ys zs' zs(1) ne by (simp add: lpath_append N' P')
qed

lemma lpath_insert:
  assumes "lpath N P xs" "lpath N P ys" "sides xs ys" "new \<notin> set xs \<union> set ys"
    and "N' = N(new := Some (List.hd ys), last xs := Some new)" "P' = P(List.hd ys := Some new, new := Some (last xs))"
  shows "lpath N' P' (xs @ new # ys)"
proof -
  have "last xs \<in> set xs" "List.hd ys \<in> set ys" using assms(3) by (simp_all add: sides_def)
  then have "last xs \<noteq> new" "List.hd ys \<noteq> new" using assms(4) by auto
  then have "lpath N' P' (xs @ [new] @ ys)"
    by (intro lpath_splice [OF assms(1,2) _ assms(3)]) (use assms(4-6) in \<open>auto simp: fun_upd_twist\<close>)
  then show ?thesis by simp
qed

lemma lpath_delete:
  assumes "lpath N P (xs @ e # ys)" and s: "sides xs ys" and e: "e \<notin> set xs \<union> set ys"
    and N': "N' = N(last xs := Some (List.hd ys), e := None)" and P': "P' = P(List.hd ys := Some (last xs), e := None)"
  shows "lpath N' P' (xs @ ys)"
proof -
  have p: "lpath N P xs" "lpath N P ys" using assms(1) by (simp_all add: lpath_append lpath_Cons)
  have ne: "xs \<noteq> []" "ys \<noteq> []" using s by (simp_all add: sides_def)
  then have mem: "last xs \<noteq> e" "List.hd ys \<noteq> e" using e last_in_set hd_in_set by (metis UnCI)+
  have "lpath N' P' xs" by (rule lpath_cong [OF p(1)])
    (use s e ne in \<open>auto simp: N' P' sides_def dest: in_set_butlastD set_tl\<close>)
  moreover have "lpath N' P' ys" by (rule lpath_cong [OF p(2)])
    (use s e ne in \<open>auto simp: N' P' sides_def dest: in_set_butlastD set_tl\<close>)
  ultimately show ?thesis using mem by (simp add: lpath_append N' P')
qed

lemma lpath_cut:
  assumes r: "lpath N P (h # (us @ e # ws) @ [h])" and d: "distinct (h # us @ e # ws)" and l: "l \<notin> set (h # us @ e # ws)"
    and N': "N' = N(l := Some (List.hd (us @ [e])), e := Some l, h := Some (List.hd (ws @ [h])))"
    and P': "P' = P(List.hd (us @ [e]) := Some l, l := Some e, List.hd (ws @ [h]) := Some h)"
  shows "lpath N' P' (l # (us @ [e]) @ [l])" "lpath N' P' (h # ws @ [h])"
proof -
  have p: "lpath N P (us @ [e])" "lpath N P (ws @ [h])" using r by (auto simp: lpath_append lpath_Cons split: if_splits)
  have mem: "List.hd (us @ [e]) \<in> set (us @ [e])" "List.hd (ws @ [h]) \<in> set (ws @ [h])" by (rule hd_in_set, simp)+
  have ne: "List.hd (us @ [e]) \<noteq> List.hd (ws @ [h])" "List.hd (us @ [e]) \<noteq> l" "List.hd (ws @ [h]) \<noteq> l"
    using mem d l by auto
  have "lpath N' P' (us @ [e])"
  proof (rule lpath_cong [OF p(1)])
    show "N' x = N x" if "x \<in> set (butlast (us @ [e]))" for x using that d l by (auto simp: N')
    show "P' x = P x" if "x \<in> set (tl (us @ [e]))" for x
      using tl_other [OF _ that] set_tl [OF that] mem d l by (auto simp: P')
  qed
  moreover have "List.hd (us @ [e, l]) = List.hd (us @ [e])" by (cases us) simp_all
  ultimately show "lpath N' P' (l # (us @ [e]) @ [l])" using ne d l by (simp add: lpath_append lpath_Cons N' P')
  have "lpath N' P' (ws @ [h])"
  proof (rule lpath_cong [OF p(2)])
    show "N' x = N x" if "x \<in> set (butlast (ws @ [h]))" for x using that d l by (auto simp: N')
    show "P' x = P x" if "x \<in> set (tl (ws @ [h]))" for x
      using tl_other [OF _ that] set_tl [OF that] mem d l by (auto simp: P')
  qed
  then show "lpath N' P' (h # ws @ [h])" using ne d l by (simp add: lpath_Cons N' P')
qed


section \<open>Several lists\<close>

text \<open>
  The table gives for each head the nodes of its list, and nothing for a head that has not been initialised or whose list
  was spliced into another.
\<close>

type_synonym ltbl = "nat \<Rightarrow> nat list option"

definition ring_of :: "ltbl \<Rightarrow> nat \<Rightarrow> nat set" where
  "ring_of t h = (case t h of None \<Rightarrow> {} | Some ns \<Rightarrow> insert h (set ns))"

definition ltbl_wf :: "nat set \<Rightarrow> nat set \<Rightarrow> ltbl \<Rightarrow> bool" where
  "ltbl_wf H A t \<longleftrightarrow> H \<inter> A = {} \<and> (\<forall>h\<in>H. \<forall>ns. t h = Some ns \<longrightarrow> distinct ns \<and> set ns \<subseteq> A) \<and>
    (\<forall>h\<in>H. \<forall>h'\<in>H. h \<noteq> h' \<longrightarrow> ring_of t h \<inter> ring_of t h' = {})"

definition ltable :: "nat set \<Rightarrow> nat set \<Rightarrow> lmem \<Rightarrow> ltbl \<Rightarrow> bool" where
  "ltable H A m t \<longleftrightarrow> H \<union> A \<subseteq> dom m \<and> ltbl_wf H A t \<and>
    (\<forall>h\<in>H. \<forall>ns. t h = Some ns \<longrightarrow> lpath (lnx m) (lpv m) (h # ns @ [h]))"

text \<open>
  An operation that changes the lists of the heads \<^verbatim>\<open>K\<close>, and no pointer in the ring of another head.
\<close>

lemma ltable_update:
  assumes t: "ltable H A m t" and r: "leff m r N P" and wf: "ltbl_wf H A t'"
    and K: "\<And>h ns. h \<in> K \<Longrightarrow> t' h = Some ns \<Longrightarrow> lpath N P (h # ns @ [h])"
    and other: "\<And>h. h \<in> H \<Longrightarrow> h \<notin> K \<Longrightarrow> t' h = t h"
      "\<And>h x. h \<in> H \<Longrightarrow> h \<notin> K \<Longrightarrow> x \<in> ring_of t h \<Longrightarrow> N x = lnx m x \<and> P x = lpv m x"
  shows "\<exists>m'. r = Ret m' \<and> ltable H A m' t'"
proof -
  obtain m' where m': "r = Ret m'" "lnx m' = N" "lpv m' = P" "dom m' = dom m" using r by (auto simp: leff_def)
  have "lpath N P (h # ns @ [h])" if h: "h \<in> H" "t' h = Some ns" for h ns
  proof (cases "h \<in> K")
    case False
    have th: "t h = Some ns" using other(1) [OF h(1) False] h(2) by simp
    have "lpath (lnx m) (lpv m) (h # ns @ [h])" using t h(1) th by (simp add: ltable_def)
    then show ?thesis
      by (rule lpath_cong) (use other(2) [OF h(1) False] th in \<open>auto simp: ring_of_def butlast_append\<close>)
  qed (use K h in blast)
  then have "ltable H A m' t'" using t wf m' by (simp add: ltable_def)
  then show ?thesis using m'(1) by blast
qed

text \<open>The case of one list, to which at most one node is added.\<close>

lemma ltbl_wf_upd:
  assumes t: "ltbl_wf H A t" and h: "h \<in> H" "t h = Some ns" and new: "distinct ns'" "set ns' \<subseteq> A"
    and fresh: "\<And>x h'. x \<in> set ns' - set ns \<Longrightarrow> h' \<in> H \<Longrightarrow> x \<notin> ring_of t h'"
  shows "ltbl_wf H A (t(h := Some ns'))"
proof -
  have dis: "ring_of t k \<inter> ring_of t k' = {}" if "k \<in> H" "k' \<in> H" "k \<noteq> k'" for k k' using t that by (simp add: ltbl_wf_def)
  have ring: "ring_of (t(h := Some ns')) k = (if k = h then insert h (set ns') else ring_of t k)" for k by (simp add: ring_of_def)
  have hh: "insert h (set ns') \<inter> ring_of t k = {}" if "k \<in> H" "k \<noteq> h" for k
  proof -
    have "ring_of t h = insert h (set ns)" using h(2) by (simp add: ring_of_def)
    then have "insert h (set ns) \<inter> ring_of t k = {}" using dis [OF h(1) that(1)] that(2) by simp
    then show ?thesis using fresh that(1) by blast
  qed
  have "ring_of (t(h := Some ns')) k \<inter> ring_of (t(h := Some ns')) k' = {}" if "k \<in> H" "k' \<in> H" "k \<noteq> k'" for k k'
    using dis [OF that] hh [OF that(1)] hh [OF that(2)] that(3) unfolding ring by (auto simp: Int_commute)
  then show ?thesis using t new by (auto simp: ltbl_wf_def)
qed

lemma ltable_one:
  assumes t: "ltable H A m t" and h: "h \<in> H" "t h = Some ns" and r: "leff m r N P"
    and ns': "distinct ns'" "set ns' \<subseteq> A" "lpath N P (h # ns' @ [h])" and X: "X \<inter> \<Union> (ring_of t ` H) = {}" "set ns' \<subseteq> set ns \<union> X"
    and fr: "\<And>x. x \<notin> insert h (set ns) \<union> X \<Longrightarrow> N x = lnx m x \<and> P x = lpv m x"
  shows "\<exists>m'. r = Ret m' \<and> ltable H A m' (t(h := Some ns'))"
proof (rule ltable_update [OF t r])
  have wf: "ltbl_wf H A t" using t by (simp add: ltable_def)
  show "ltbl_wf H A (t(h := Some ns'))" by (rule ltbl_wf_upd [OF wf h ns'(1,2)]) (use X in blast)
  show "lpath N P (k # ms @ [k])" if "k \<in> {h}" "(t(h := Some ns')) k = Some ms" for k ms using that ns'(3) by auto
  show "(t(h := Some ns')) k = t k" if "k \<notin> {h}" for k using that by simp
  show "N x = lnx m x \<and> P x = lpv m x" if "k \<in> H" "k \<notin> {h}" "x \<in> ring_of t k" for k x
  proof (rule fr)
    have "ring_of t h = insert h (set ns)" using h(2) by (simp add: ring_of_def)
    moreover have "ring_of t h \<inter> ring_of t k = {}" using wf h(1) that(1,2) unfolding ltbl_wf_def by (metis singletonI)
    ultimately show "x \<notin> insert h (set ns) \<union> X" using X(1) that(1,3) by blast
  qed
qed


lemma ltable_ring:
  assumes t: "ltable H A m t" and h: "h \<in> H" "t h = Some (us @ ws)"
  shows "lpath (lnx m) (lpv m) (h # us)" "lpath (lnx m) (lpv m) (ws @ [h])" "distinct (h # us @ ws)" "sides (h # us) (ws @ [h])"
    "lnx m (last (h # us)) = Some (List.hd (ws @ [h]))" "lpv m (List.hd (ws @ [h])) = Some (last (h # us))"
    "last (h # us) \<in> insert h (set us)" "List.hd (ws @ [h]) \<in> insert h (set ws)" "insert h (set (us @ ws)) \<subseteq> dom m" "set (us @ ws) \<subseteq> A"
proof -
  have "distinct (us @ ws)" and A: "set (us @ ws) \<subseteq> A" "H \<inter> A = {}" "H \<union> A \<subseteq> dom m" using t h unfolding ltable_def ltbl_wf_def by blast+
  then show d: "distinct (h # us @ ws)" "insert h (set (us @ ws)) \<subseteq> dom m" "set (us @ ws) \<subseteq> A" using h(1) by auto
  then show "sides (h # us) (ws @ [h])" by (intro ring_sides)
  have "lpath (lnx m) (lpv m) (h # (us @ ws) @ [h])" using t h unfolding ltable_def by blast
  then have "lpath (lnx m) (lpv m) ((h # us) @ (ws @ [h]))" by simp
  then show "lpath (lnx m) (lpv m) (h # us)" "lpath (lnx m) (lpv m) (ws @ [h])" "lnx m (last (h # us)) = Some (List.hd (ws @ [h]))"
    "lpv m (List.hd (ws @ [h])) = Some (last (h # us))" unfolding lpath_append by (simp_all del: last.simps)
  show "last (h # us) \<in> insert h (set us)" using last_in_set [of "h # us"] by (simp del: last_in_set)
  show "List.hd (ws @ [h]) \<in> insert h (set ws)" using hd_in_set [of "ws @ [h]"] by (simp del: hd_in_set)
qed

section \<open>Sequences of operations\<close>

datatype lop =
  LInit nat | LAdd nat nat | LAddTail nat nat | LDel nat | LReplace nat nat | LCut nat nat nat | LSplice nat nat | LSpliceTail nat nat

definition lh_step :: "lmem \<Rightarrow> lop \<Rightarrow> lmem res" where
  "lh_step m p =
    (case p of
       LInit h \<Rightarrow> INIT_LIST_HEAD m h
     | LAdd n h \<Rightarrow> list_add m n h
     | LAddTail n h \<Rightarrow> list_add_tail m n h
     | LDel n \<Rightarrow> list_del m n
     | LReplace old new \<Rightarrow> list_replace m old new
     | LCut l h e \<Rightarrow> list_cut_position m l h e
     | LSplice l h \<Rightarrow> list_splice m l h
     | LSpliceTail l h \<Rightarrow> list_splice_tail m l h)"

fun lh_run :: "lmem \<Rightarrow> lop list \<Rightarrow> lmem res" where
  "lh_run m [] = Ret m"
| "lh_run m (p # ps) = bnd (lh_step m p) (\<lambda>m'. lh_run m' ps)"

text \<open>What the operations mean for the table.\<close>

definition on_list :: "ltbl \<Rightarrow> nat \<Rightarrow> nat \<Rightarrow> bool" where
  "on_list t n h = (case t h of None \<Rightarrow> False | Some ns \<Rightarrow> n \<in> set ns)"

definition ltbl_cut :: "ltbl \<Rightarrow> nat \<Rightarrow> nat \<Rightarrow> nat \<Rightarrow> ltbl" where
  "ltbl_cut t l h e =
    (case t h of
       None \<Rightarrow> t
     | Some ns \<Rightarrow>
         if ns = [] then t
         else if e = h then t(l := Some [])
         else if e \<in> set ns then t(l := Some (takeWhile (\<lambda>x. x \<noteq> e) ns @ [e]), h := Some (tl (dropWhile (\<lambda>x. x \<noteq> e) ns)))
         else t)"

definition ltbl_splice :: "ltbl \<Rightarrow> nat \<Rightarrow> nat \<Rightarrow> (nat list \<Rightarrow> nat list \<Rightarrow> nat list) \<Rightarrow> ltbl" where
  "ltbl_splice t l h join =
    (case (t l, t h) of
       (Some ls, Some ns) \<Rightarrow> if ls = [] then t else t(l := None, h := Some (join ls ns))
     | _ \<Rightarrow> t)"

definition ltbl_step :: "ltbl \<Rightarrow> lop \<Rightarrow> ltbl" where
  "ltbl_step t p =
    (case p of
       LInit h \<Rightarrow> t(h := Some [])
     | LAdd n h \<Rightarrow> t(h := map_option (\<lambda>ns. n # ns) (t h))
     | LAddTail n h \<Rightarrow> t(h := map_option (\<lambda>ns. ns @ [n]) (t h))
     | LDel n \<Rightarrow> (\<lambda>h. map_option (remove1 n) (t h))
     | LReplace old new \<Rightarrow> (\<lambda>h. map_option (map (\<lambda>x. if x = old then new else x)) (t h))
     | LCut l h e \<Rightarrow> ltbl_cut t l h e
     | LSplice l h \<Rightarrow> ltbl_splice t l h (\<lambda>ls ns. ls @ ns)
     | LSpliceTail l h \<Rightarrow> ltbl_splice t l h (\<lambda>ls ns. ns @ ls))"

text \<open>
  What a caller has to see to. A node that is added is on no list; a cut is at the head, at an entry of its list, or of a list
  with at most one entry; the two lists of a cut or a splice are different.
\<close>

definition lop_ok :: "nat list \<Rightarrow> nat list \<Rightarrow> ltbl \<Rightarrow> lop \<Rightarrow> bool" where
  "lop_ok H A t p =
    (case p of
       LInit h \<Rightarrow> h \<in> set H
     | LAdd n h \<Rightarrow> h \<in> set H \<and> t h \<noteq> None \<and> n \<in> set A \<and> \<not> list_ex (on_list t n) H
     | LAddTail n h \<Rightarrow> h \<in> set H \<and> t h \<noteq> None \<and> n \<in> set A \<and> \<not> list_ex (on_list t n) H
     | LDel n \<Rightarrow> list_ex (on_list t n) H
     | LReplace old new \<Rightarrow> new \<in> set A \<and> \<not> list_ex (on_list t new) H \<and> list_ex (on_list t old) H
     | LCut l h e \<Rightarrow>
         l \<in> set H \<and> h \<in> set H \<and> l \<noteq> h \<and> (case t h of None \<Rightarrow> False | Some ns \<Rightarrow> e = h \<or> e \<in> set ns \<or> length ns \<le> 1)
     | LSplice l h \<Rightarrow> l \<in> set H \<and> h \<in> set H \<and> l \<noteq> h \<and> t l \<noteq> None \<and> t h \<noteq> None
     | LSpliceTail l h \<Rightarrow> l \<in> set H \<and> h \<in> set H \<and> l \<noteq> h \<and> t l \<noteq> None \<and> t h \<noteq> None)"

fun lops_ok :: "nat list \<Rightarrow> nat list \<Rightarrow> ltbl \<Rightarrow> lop list \<Rightarrow> bool" where
  "lops_ok H A t [] \<longleftrightarrow> True"
| "lops_ok H A t (p # ps) \<longleftrightarrow> lop_ok H A t p \<and> lops_ok H A (ltbl_step t p) ps"

lemma fresh_ring:
  assumes t: "ltable (set H) (set A) m t" and n: "n \<in> set A" "\<not> list_ex (on_list t n) H"
  shows "n \<in> dom m" "{n} \<inter> \<Union> (ring_of t ` set H) = {}"
proof -
  have "n \<notin> set H" "n \<in> dom m" using t n(1) by (auto simp: ltable_def ltbl_wf_def)
  moreover have "n \<notin> ring_of t h" if "h \<in> set H" for h
    using n(2) \<open>n \<notin> set H\<close> that by (auto simp: ring_of_def on_list_def list_ex_iff split: option.splits)
  ultimately show "n \<in> dom m" "{n} \<inter> \<Union> (ring_of t ` set H) = {}" by auto
qed

lemma add_between_ok:
  assumes t: "ltable (set H) (set A) m t" and h: "h \<in> set H" "t h = Some (us @ ws)" and n: "n \<in> set A" "\<not> list_ex (on_list t n) H"
  shows "\<exists>m'. list_add_between m n (Some (last (h # us))) (Some (List.hd (ws @ [h]))) = Ret m' \<and>
    ltable (set H) (set A) m' (t(h := Some (us @ n # ws)))"
proof (rule ltable_one [OF t h add_between_leff])
  note at = ltable_ring [OF t h] and f = fresh_ring [OF t n]
  have nr: "n \<notin> insert h (set (us @ ws))" using f(2) h by (force simp: ring_of_def)
  show "n \<in> dom m" "{n} \<inter> \<Union> (ring_of t ` set H) = {}" by (rule f)+
  show "last (h # us) \<in> dom m" "List.hd (ws @ [h]) \<in> dom m" using at(7,8,9) by auto
  show "distinct (us @ n # ws)" "set (us @ n # ws) \<subseteq> set A" using at(3,10) nr n(1) by auto
  have "lpath ((lnx m)(n := Some (List.hd (ws @ [h])), last (h # us) := Some n)) ((lpv m)(List.hd (ws @ [h]) := Some n, n := Some (last (h # us))))
      ((h # us) @ n # ws @ [h])"
    by (rule lpath_insert [OF at(1,2,4) _ refl refl]) (use nr in auto)
  then show "lpath ((lnx m)(n := Some (List.hd (ws @ [h])), last (h # us) := Some n)) ((lpv m)(List.hd (ws @ [h]) := Some n, n := Some (last (h # us))))
      (h # (us @ n # ws) @ [h])" by simp
  show "set (us @ n # ws) \<subseteq> set (us @ ws) \<union> {n}" by auto
  fix x assume x: "x \<notin> insert h (set (us @ ws)) \<union> {n}"
  then have "x \<noteq> last (h # us)" "x \<noteq> List.hd (ws @ [h])" using at(7,8) by auto
  then show "((lnx m)(n := Some (List.hd (ws @ [h])), last (h # us) := Some n)) x = lnx m x \<and>
      ((lpv m)(List.hd (ws @ [h]) := Some n, n := Some (last (h # us)))) x = lpv m x" using x by simp
qed


lemma head_ring: "ltbl_wf H A t \<Longrightarrow> h \<in> H \<Longrightarrow> h' \<in> H \<Longrightarrow> h \<noteq> h' \<Longrightarrow> h \<notin> ring_of t h'"
  unfolding ltbl_wf_def ring_of_def by (auto split: option.splits) blast

lemma ltbl_wf_upds:
  assumes t: "ltbl_wf H A t" and K: "K \<subseteq> H" and other: "\<And>h. h \<in> H \<Longrightarrow> h \<notin> K \<Longrightarrow> t' h = t h"
    and ns: "\<And>h ns. h \<in> K \<Longrightarrow> t' h = Some ns \<Longrightarrow> distinct ns \<and> set ns \<subseteq> A \<and> set ns \<subseteq> K \<union> \<Union> (ring_of t ` K)"
    and dis: "\<And>h h'. h \<in> K \<Longrightarrow> h' \<in> K \<Longrightarrow> h \<noteq> h' \<Longrightarrow> ring_of t' h \<inter> ring_of t' h' = {}"
  shows "ltbl_wf H A t'"
proof -
  have "ring_of t' h \<inter> ring_of t' h' = {}" if h: "h \<in> K" "h' \<in> H" "h' \<notin> K" for h h'
  proof -
    have "ring_of t' h \<subseteq> K \<union> \<Union> (ring_of t ` K)" using ns h(1) by (auto simp: ring_of_def split: option.splits)
    moreover have "ring_of t' h' = ring_of t h'" using other h(2,3) by (simp add: ring_of_def)
    moreover have "x \<notin> ring_of t h'" if "x \<in> K" for x by (rule head_ring [OF t]) (use that K h(2,3) in auto)
    moreover have "ring_of t k \<inter> ring_of t h' = {}" if "k \<in> K" for k
    proof -
      have "k \<noteq> h'" "k \<in> H" using that h(3) K by auto
      then show ?thesis using t h(2) by (simp add: ltbl_wf_def)
    qed
    ultimately show ?thesis by blast
  qed
  moreover have "ring_of t' h \<inter> ring_of t' h' = {}" if "h \<in> H - K" "h' \<in> H - K" "h \<noteq> h'" for h h'
    using t other that by (simp add: ltbl_wf_def ring_of_def)
  ultimately have "ring_of t' h \<inter> ring_of t' h' = {}" if "h \<in> H" "h' \<in> H" "h \<noteq> h'" for h h'
    using dis [of h h'] that by (cases "h \<in> K"; cases "h' \<in> K") ((metis Int_commute Diff_iff)+)
  moreover have "distinct ns \<and> set ns \<subseteq> A" if "h \<in> H" "t' h = Some ns" for h ns
    using t ns other that by (cases "h \<in> K") (simp_all add: ltbl_wf_def)
  ultimately show ?thesis using t by (simp add: ltbl_wf_def)
qed

lemma ltable_many:
  assumes t: "ltable H A m t" and K: "K \<subseteq> H" and r: "leff m r N P" and other: "\<And>h. h \<in> H \<Longrightarrow> h \<notin> K \<Longrightarrow> t' h = t h"
    and ns: "\<And>h ns. h \<in> K \<Longrightarrow> t' h = Some ns \<Longrightarrow> distinct ns \<and> set ns \<subseteq> A \<and> set ns \<subseteq> K \<union> \<Union> (ring_of t ` K)"
    and path: "\<And>h ns. h \<in> K \<Longrightarrow> t' h = Some ns \<Longrightarrow> lpath N P (h # ns @ [h])"
    and dis: "\<And>h h'. h \<in> K \<Longrightarrow> h' \<in> K \<Longrightarrow> h \<noteq> h' \<Longrightarrow> ring_of t' h \<inter> ring_of t' h' = {}"
    and fr: "\<And>x. x \<notin> K \<union> \<Union> (ring_of t ` K) \<Longrightarrow> N x = lnx m x \<and> P x = lpv m x"
  shows "\<exists>m'. r = Ret m' \<and> ltable H A m' t'"
proof (rule ltable_update [OF t r _ path other])
  have wf: "ltbl_wf H A t" using t by (simp add: ltable_def)
  show "ltbl_wf H A t'" by (rule ltbl_wf_upds [OF wf K other ns dis])
  show "N x = lnx m x \<and> P x = lpv m x" if "h \<in> H" "h \<notin> K" "x \<in> ring_of t h" for h x
  proof (rule fr)
    have "x \<notin> ring_of t k" if "k \<in> K" for k
    proof -
      have "k \<noteq> h" "k \<in> H" using that \<open>h \<notin> K\<close> K by auto
      then have "ring_of t k \<inter> ring_of t h = {}" using wf \<open>h \<in> H\<close> by (simp add: ltbl_wf_def)
      then show ?thesis using \<open>x \<in> ring_of t h\<close> by blast
    qed
    moreover have "x \<notin> K" using head_ring [OF wf, of x h] K that by blast
    ultimately show "x \<notin> K \<union> \<Union> (ring_of t ` K)" by blast
  qed
qed

lemma list_empty_ok:
  assumes t: "ltable H A m t" and h: "h \<in> H" "t h = Some ns"
  shows "list_empty m h = Ret (ns = [])" "list_is_singular m h = Ret (length ns = 1)"
    "get_next m h = Ret (Some (List.hd (ns @ [h])))" "get_prev m h = Ret (Some (last (h # ns)))"
proof -
  have d: "h \<in> dom m" "distinct (h # ns)" using ltable_ring(3,9) [OF t h(1), of "[]" ns] h(2) by auto
  have n: "lnx m h = Some (List.hd (ns @ [h]))" using ltable_ring(5) [OF t h(1), of "[]" ns] h(2) by simp
  have p: "lpv m h = Some (last (h # ns))" using ltable_ring(6) [OF t h(1), of ns "[]"] h(2) by simp
  show "get_next m h = Ret (Some (List.hd (ns @ [h])))" "get_prev m h = Ret (Some (last (h # ns)))"
    using n p d(1) by (simp_all add: get_next_ok get_prev_ok)
  show e: "list_empty m h = Ret (ns = [])" using n d by (cases ns) (auto simp: list_empty_def get_next_ok)
  show "list_is_singular m h = Ret (length ns = 1)"
  proof (cases ns)
    case (Cons x xs)
    have "x = last (x # xs) \<longleftrightarrow> xs = []" using d(2) Cons last_in_set [of xs] by auto
    then show ?thesis using e n p d(1) Cons by (simp add: list_is_singular_def get_next_ok get_prev_ok)
  qed (use e in \<open>simp add: list_is_singular_def\<close>)
qed

lemma splice_between_ok:
  assumes t: "ltable H A m t" and l: "l \<in> H" "t l = Some ls" "ls \<noteq> []" and h: "h \<in> H" "t h = Some (us @ ws)" and ne: "l \<noteq> h"
  shows "\<exists>m'. list_splice_between m l (Some (last (h # us))) (Some (List.hd (ws @ [h]))) = Ret m' \<and>
    ltable H A m' (t(l := None, h := Some (us @ ls @ ws)))"
proof (rule ltable_many [OF t, where K = "{l, h}", OF _ splice_leff])
  note at = ltable_ring [OF t h] and al = ltable_ring [OF t l(1), of "[]" ls] and lt = ltable_ring [OF t l(1), of ls "[]"]
  have ring: "ring_of t l = insert l (set ls)" "ring_of t h = insert h (set (us @ ws))" using l h by (simp_all add: ring_of_def)
  have dis: "insert l (set ls) \<inter> insert h (set (us @ ws)) = {}"
    using t l(1) h(1) ne unfolding ring [symmetric] by (simp add: ltable_def ltbl_wf_def)
  have mem: "List.hd ls \<in> set ls" "last ls \<in> set ls" using l(3) by simp_all
  have dom: "insert l (set ls) \<subseteq> dom m" using al(9) l(2) by simp
  show "{l, h} \<subseteq> H" using l h by simp
  show "l \<in> dom m" "List.hd ls \<in> dom m" "last ls \<in> dom m" using dom mem by auto
  show "last (h # us) \<in> dom m" "List.hd (ws @ [h]) \<in> dom m" using at(7,8,9) by auto
  show "lnx m l = Some (List.hd ls)" "lpv m l = Some (last ls)" using al(5) lt(6) l(2,3) by (simp_all add: hd_append)
  have p: "lpath (lnx m) (lpv m) ls" using al(2) l(2) by (simp add: lpath_append)
  define N P where "N = (lnx m)(last (h # us) := Some (List.hd ls), last ls := Some (List.hd (ws @ [h])))"
    and "P = (lpv m)(List.hd ls := Some (last (h # us)), List.hd (ws @ [h]) := Some (last ls))"
  note NP = N_def [symmetric] P_def [symmetric]
  have "lpath N P ((h # us) @ ls @ ws @ [h])"
    by (rule lpath_splice [OF at(1,2) p at(4) l(3) _ _ N_def P_def]) (use dis al(3) l(2) in auto)
  then show "lpath N P (k # ns @ [k])" if "k \<in> {l, h}" "(t(l := None, h := Some (us @ ls @ ws))) k = Some ns" for k ns
    using that ne by auto
  have all: "distinct (us @ ls @ ws)" "set (us @ ls @ ws) \<subseteq> A"
    using dis at(3,10) al(3,10) l(2) by (simp_all add: disjoint_iff) blast
  show "distinct ns \<and> set ns \<subseteq> A \<and> set ns \<subseteq> {l, h} \<union> \<Union> (ring_of t ` {l, h})"
    if "k \<in> {l, h}" "(t(l := None, h := Some (us @ ls @ ws))) k = Some ns" for k ns
  proof -
    have k: "ns = us @ ls @ ws" using that ne by auto
    have "set (us @ ls @ ws) \<subseteq> \<Union> (ring_of t ` {l, h})" by (auto simp: ring)
    then show ?thesis using all unfolding k by blast
  qed
  show "ring_of (t(l := None, h := Some (us @ ls @ ws))) k \<inter> ring_of (t(l := None, h := Some (us @ ls @ ws))) k' = {}"
    if "k \<in> {l, h}" "k' \<in> {l, h}" "k \<noteq> k'" for k k' using that ne by (auto simp: ring_of_def)
  show "N x = lnx m x \<and> P x = lpv m x" if "x \<notin> {l, h} \<union> \<Union> (ring_of t ` {l, h})" for x
    using that at(7,8) mem by (auto simp: N_def P_def ring)
qed auto


lemma init_ok:
  assumes t: "ltable H A m t" and h: "h \<in> H"
  shows "\<exists>m'. INIT_LIST_HEAD m h = Ret m' \<and> ltable H A m' (t(h := Some []))"
  by (rule ltable_many [OF t, where K = "{h}", OF _ init_leff]) (use t h in \<open>auto simp: ltable_def\<close>)

lemma cut_at_ok:
  assumes t: "ltable H A m t" and l: "l \<in> H" and h: "h \<in> H" "t h = Some (us @ e # ws)" and ne: "l \<noteq> h"
  shows "\<exists>m'. list_cut_at m l h e = Ret m' \<and> ltable H A m' (t(l := Some (us @ [e]), h := Some ws))"
proof (rule ltable_many [OF t, where K = "{l, h}", OF _ cut_leff])
  note at = ltable_ring [OF t h(1), of "us @ [e]" ws] and a0 = ltable_ring [OF t h(1), of "[]" "us @ e # ws"]
  have ring: "ring_of t h = insert h (set (us @ e # ws))" using h by (simp add: ring_of_def)
  have wf: "ltbl_wf H A t" and dom: "H \<subseteq> dom m" using t by (simp_all add: ltable_def)
  have l': "l \<notin> set (h # us @ e # ws)" using head_ring [OF wf l h(1) ne] by (simp add: ring)
  have d: "distinct (h # us @ e # ws)" "insert h (set (us @ e # ws)) \<subseteq> dom m" "set (us @ e # ws) \<subseteq> A" using at(3,9,10) h(2) by simp_all
  have mem: "List.hd (us @ [e]) \<in> insert e (set us)" "List.hd (ws @ [h]) \<in> insert h (set ws)" by (simp_all add: hd_append)
  show "{l, h} \<subseteq> H" "l \<in> dom m" "h \<in> dom m" "e \<in> dom m" "List.hd (us @ [e]) \<in> dom m" "List.hd (ws @ [h]) \<in> dom m"
    using l h(1) dom d(2) mem by auto
  show "lnx m h = Some (List.hd (us @ [e]))" using a0(5) h(2) by (cases us) simp_all
  show "lnx m e = Some (List.hd (ws @ [h]))" using at(5) h(2) by simp
  define N P where "N = (lnx m)(l := Some (List.hd (us @ [e])), e := Some l, h := Some (List.hd (ws @ [h])))"
    and "P = (lpv m)(List.hd (us @ [e]) := Some l, l := Some e, List.hd (ws @ [h]) := Some h)"
  have "lpath (lnx m) (lpv m) (h # (us @ e # ws) @ [h])" using t h unfolding ltable_def by blast
  note cut = lpath_cut [OF this d(1) l' N_def P_def]
  show "lpath N P (k # ns @ [k])" if "k \<in> {l, h}" "(t(l := Some (us @ [e]), h := Some ws)) k = Some ns" for k ns
    using that ne cut by (auto split: if_splits)
  show "distinct ns \<and> set ns \<subseteq> A \<and> set ns \<subseteq> {l, h} \<union> \<Union> (ring_of t ` {l, h})"
    if "k \<in> {l, h}" "(t(l := Some (us @ [e]), h := Some ws)) k = Some ns" for k ns
  proof -
    have "distinct ns" "set ns \<subseteq> set (us @ e # ws)" using that ne d(1) by (auto split: if_splits)
    then show ?thesis using d(3) ring by blast
  qed
  show "ring_of (t(l := Some (us @ [e]), h := Some ws)) k \<inter> ring_of (t(l := Some (us @ [e]), h := Some ws)) k' = {}"
    if "k \<in> {l, h}" "k' \<in> {l, h}" "k \<noteq> k'" for k k' using that ne d(1) l' by (auto simp: ring_of_def)
  show "N x = lnx m x \<and> P x = lpv m x" if "x \<notin> {l, h} \<union> \<Union> (ring_of t ` {l, h})" for x
    using that mem by (auto simp: N_def P_def ring)
qed auto

lemma cut_position_ok:
  assumes t: "ltable (set H) (set A) m t" and p: "lop_ok H A t (LCut l h e)"
  shows "\<exists>m'. list_cut_position m l h e = Ret m' \<and> ltable (set H) (set A) m' (ltbl_cut t l h e)"
proof -
  obtain ns where h: "l \<in> set H" "h \<in> set H" "l \<noteq> h" "t h = Some ns" and e: "e = h \<or> e \<in> set ns \<or> length ns \<le> 1"
    using p by (auto simp: lop_ok_def split: option.splits)
  note em = list_empty_ok [OF t h(2,4)] and d = ltable_ring(3) [OF t h(2), of "[]" ns]
  consider "ns = []" | "ns \<noteq> []" "e = h" | "ns \<noteq> []" "e \<noteq> h" "e \<in> set ns" | "ns \<noteq> []" "e \<noteq> h" "e \<notin> set ns" "length ns = 1"
    using e by (cases ns) auto
  then show ?thesis
  proof cases
    case 1
    then show ?thesis using t em h(4) by (simp add: list_cut_position_def ltbl_cut_def)
  next
    case 2
    then show ?thesis using init_ok [OF t h(1)] em h(4) by (simp add: list_cut_position_def ltbl_cut_def)
  next
    case 3
    obtain us ws where ns: "ns = us @ e # ws" "e \<notin> set us" using split_list_first [OF 3(3)] by blast
    have "length ns = 1 \<Longrightarrow> List.hd (ns @ [h]) = e" using ns by (cases us) auto
    then have "list_cut_position m l h e = list_cut_at m l h e" using 3 em by (auto simp: list_cut_position_def)
    moreover have "takeWhile (\<lambda>x. x \<noteq> e) ns = us" "dropWhile (\<lambda>x. x \<noteq> e) ns = e # ws"
      unfolding ns(1) using ns(2) by (induction us) auto
    ultimately show ?thesis using cut_at_ok [OF t h(1,2) _ h(3), of us e ws] 3 ns h(4) by (simp add: ltbl_cut_def)
  next
    case 4
    then have "List.hd (ns @ [h]) \<noteq> e" by (cases ns) auto
    then show ?thesis using 4 t em h(4) by (simp add: list_cut_position_def ltbl_cut_def)
  qed
qed


lemma ltable_cong:
  assumes t: "ltable H A m t" and e: "\<And>h. h \<in> H \<Longrightarrow> t' h = t h"
  shows "ltable H A m t'"
proof -
  have "ring_of t' h = ring_of t h" if "h \<in> H" for h using e [OF that] by (simp add: ring_of_def)
  then show ?thesis using t e by (simp add: ltable_def ltbl_wf_def)
qed

lemma ltable_everywhere:
  assumes t: "ltable H A m t" and h: "h \<in> H" "t h = Some ns" "n \<in> set ns"
    and r: "\<exists>m'. r = Ret m' \<and> ltable H A m' (t(h := Some (f ns)))" and f: "\<And>ms. n \<notin> set ms \<Longrightarrow> f ms = ms"
  shows "\<exists>m'. r = Ret m' \<and> ltable H A m' (\<lambda>h. map_option f (t h))"
proof -
  obtain m' where m': "r = Ret m'" "ltable H A m' (t(h := Some (f ns)))" using r by blast
  have "map_option f (t k) = (t(h := Some (f ns))) k" if k: "k \<in> H" for k
  proof (cases "k = h \<or> t k = None")
    case False
    then obtain ms where ms: "t k = Some ms" by auto
    have "ring_of t h \<inter> ring_of t k = {}" using t h(1) k False unfolding ltable_def ltbl_wf_def by blast
    then have "n \<notin> set ms" using ms h by (auto simp: ring_of_def)
    then show ?thesis using f ms False by simp
  qed (use h in auto)
  with m'(2) have "ltable H A m' (\<lambda>h. map_option f (t h))" by (rule ltable_cong)
  then show ?thesis using m'(1) by blast
qed

lemma on_list_split:
  assumes "ltable (set H) A m t" "list_ex (on_list t n) H"
  obtains h us ws where "h \<in> set H" "t h = Some (us @ n # ws)" "n \<notin> set us" "n \<notin> set ws"
proof -
  obtain h ns where h: "h \<in> set H" "t h = Some ns" "n \<in> set ns" using assms(2) by (auto simp: list_ex_iff on_list_def split: option.splits)
  obtain us ws where ns: "ns = us @ n # ws" using h(3) by (auto dest: split_list)
  have "distinct ns" using assms(1) h unfolding ltable_def ltbl_wf_def by blast
  then show ?thesis using that h ns by auto
qed

lemma node_at:
  assumes t: "ltable H A m t" and h: "h \<in> H" "t h = Some (us @ n # ws)"
  shows "n \<in> dom m" "lpv m n = Some (last (h # us))" "lnx m n = Some (List.hd (ws @ [h]))" "last (h # us) \<in> dom m" "List.hd (ws @ [h]) \<in> dom m"
    "lpath (lnx m) (lpv m) (h # us)" "lpath (lnx m) (lpv m) (ws @ [h])" "lpath (lnx m) (lpv m) ((h # us) @ n # ws @ [h])"
    "last (h # us) \<in> insert h (set us)" "List.hd (ws @ [h]) \<in> insert h (set ws)" "distinct (h # us @ n # ws)" "set (us @ n # ws) \<subseteq> A"
    "sides (h # us) (ws @ [h])"
proof -
  note l = ltable_ring [OF t h(1), of us "n # ws"] and r = ltable_ring [OF t h(1), of "us @ [n]" ws]
  show "lpv m n = Some (last (h # us))" "lnx m n = Some (List.hd (ws @ [h]))" using l(6) r(5) h(2) by simp_all
  show mem: "last (h # us) \<in> insert h (set us)" "List.hd (ws @ [h]) \<in> insert h (set ws)" using l(7) r(8) h(2) by (simp_all del: last.simps)
  have dom: "insert h (set (us @ n # ws)) \<subseteq> dom m" using l(9) h(2) by simp
  show "n \<in> dom m" "last (h # us) \<in> dom m" "List.hd (ws @ [h]) \<in> dom m" using dom mem by auto
  show "lpath (lnx m) (lpv m) (h # us)" "lpath (lnx m) (lpv m) (ws @ [h])" "distinct (h # us @ n # ws)" "set (us @ n # ws) \<subseteq> A"
    using l(1,3,10) r(2) h(2) by simp_all
  then show "sides (h # us) (ws @ [h])" by (intro ring_sides) simp
  have "lpath (lnx m) (lpv m) (h # (us @ n # ws) @ [h])" using t h unfolding ltable_def by blast
  then show "lpath (lnx m) (lpv m) ((h # us) @ n # ws @ [h])" by simp
qed

lemma del_ok:
  assumes t: "ltable H A m t" and h: "h \<in> H" "t h = Some (us @ n # ws)"
  shows "\<exists>m'. list_del m n = Ret m' \<and> ltable H A m' (t(h := Some (us @ ws)))"
proof (rule ltable_many [OF t, where K = "{h}", OF _ del_leff])
  note at = node_at [OF t h]
  show "n \<in> dom m" "lpv m n = Some (last (h # us))" "lnx m n = Some (List.hd (ws @ [h]))" "last (h # us) \<in> dom m" "List.hd (ws @ [h]) \<in> dom m"
    by (rule at)+
  have ring: "ring_of t h = insert h (set (us @ n # ws))" using h(2) by (simp add: ring_of_def)
  define N P where "N = (lnx m)(last (h # us) := Some (List.hd (ws @ [h])), n := None)"
    and "P = (lpv m)(List.hd (ws @ [h]) := Some (last (h # us)), n := None)"
  have "lpath N P ((h # us) @ ws @ [h])" by (rule lpath_delete [OF at(8,13) _ N_def P_def]) (use at(11) in auto)
  then show "lpath N P (k # ns @ [k])" if "k \<in> {h}" "(t(h := Some (us @ ws))) k = Some ns" for k ns using that by auto
  show "distinct ns \<and> set ns \<subseteq> A \<and> set ns \<subseteq> {h} \<union> \<Union> (ring_of t ` {h})" if "k \<in> {h}" "(t(h := Some (us @ ws))) k = Some ns" for k ns
    using that at(11,12) by (auto simp: ring)
  show "N x = lnx m x \<and> P x = lpv m x" if "x \<notin> {h} \<union> \<Union> (ring_of t ` {h})" for x
    using that at(9,10) by (auto simp: N_def P_def ring)
qed (use h in auto)

lemma replace_ok:
  assumes t: "ltable (set H) (set A) m t" and h: "h \<in> set H" "t h = Some (us @ n # ws)" and x: "x \<in> set A" "\<not> list_ex (on_list t x) H"
  shows "\<exists>m'. list_replace m n x = Ret m' \<and> ltable (set H) (set A) m' (t(h := Some (us @ x # ws)))"
proof (rule ltable_one [OF t h replace_leff])
  note at = node_at [OF t h] and f = fresh_ring [OF t x]
  have nr: "x \<notin> insert h (set (us @ n # ws))" using f(2) h by (force simp: ring_of_def)
  show "n \<in> dom m" "lpv m n = Some (last (h # us))" "lnx m n = Some (List.hd (ws @ [h]))" "last (h # us) \<in> dom m" "List.hd (ws @ [h]) \<in> dom m"
    by (rule at)+
  show "x \<in> dom m" "{x} \<inter> \<Union> (ring_of t ` set H) = {}" by (rule f)+
  show "List.hd (ws @ [h]) \<noteq> n" "n \<noteq> x" using at(10,11) nr by auto
  show "distinct (us @ x # ws)" "set (us @ x # ws) \<subseteq> set A" using at(11,12) nr x(1) by auto
  define N P where "N = (lnx m)(x := Some (List.hd (ws @ [h])), last (h # us) := Some x)"
    and "P = (lpv m)(List.hd (ws @ [h]) := Some x, x := Some (last (h # us)))"
  have "lpath N P ((h # us) @ x # ws @ [h])" by (rule lpath_insert [OF at(6,7,13) _ N_def P_def]) (use nr in auto)
  then show "lpath N P (h # (us @ x # ws) @ [h])" by simp
  show "set (us @ x # ws) \<subseteq> set (us @ n # ws) \<union> {x}" by auto
  show "N y = lnx m y \<and> P y = lpv m y" if "y \<notin> insert h (set (us @ n # ws)) \<union> {x}" for y
    using that at(9,10) by (auto simp: N_def P_def)
qed


lemma add_ok:
  assumes t: "ltable (set H) (set A) m t" and p: "h \<in> set H" "t h \<noteq> None" "n \<in> set A" "\<not> list_ex (on_list t n) H"
  shows "\<exists>m'. list_add m n h = Ret m' \<and> ltable (set H) (set A) m' (t(h := map_option (\<lambda>ns. n # ns) (t h)))"
    "\<exists>m'. list_add_tail m n h = Ret m' \<and> ltable (set H) (set A) m' (t(h := map_option (\<lambda>ns. ns @ [n]) (t h)))"
proof -
  obtain ns where h: "t h = Some ns" using p(2) by auto
  note e = list_empty_ok(3,4) [OF t p(1) h]
  show "\<exists>m'. list_add m n h = Ret m' \<and> ltable (set H) (set A) m' (t(h := map_option (\<lambda>ns. n # ns) (t h)))"
    using add_between_ok [OF t p(1) _ p(3,4), of "[]" ns] h e by (simp add: list_add_def)
  show "\<exists>m'. list_add_tail m n h = Ret m' \<and> ltable (set H) (set A) m' (t(h := map_option (\<lambda>ns. ns @ [n]) (t h)))"
    using add_between_ok [OF t p(1) _ p(3,4), of ns "[]"] h e by (simp add: list_add_tail_def)
qed

lemma splice_ok:
  assumes t: "ltable H A m t" and p: "l \<in> H" "h \<in> H" "l \<noteq> h" "t l \<noteq> None" "t h \<noteq> None"
  shows "\<exists>m'. list_splice m l h = Ret m' \<and> ltable H A m' (ltbl_splice t l h (\<lambda>ls ns. ls @ ns))"
    "\<exists>m'. list_splice_tail m l h = Ret m' \<and> ltable H A m' (ltbl_splice t l h (\<lambda>ls ns. ns @ ls))"
proof -
  obtain ls ns where h: "t l = Some ls" "t h = Some ns" using p(4,5) by auto
  note e = list_empty_ok(1) [OF t p(1) h(1)] list_empty_ok(3,4) [OF t p(2) h(2)]
  show "\<exists>m'. list_splice m l h = Ret m' \<and> ltable H A m' (ltbl_splice t l h (\<lambda>ls ns. ls @ ns))"
    using splice_between_ok [OF t p(1) h(1) _ p(2) _ p(3), of "[]" ns] t h e by (auto simp: list_splice_def ltbl_splice_def)
  show "\<exists>m'. list_splice_tail m l h = Ret m' \<and> ltable H A m' (ltbl_splice t l h (\<lambda>ls ns. ns @ ls))"
    using splice_between_ok [OF t p(1) h(1) _ p(2) _ p(3), of ns "[]"] t h e by (auto simp: list_splice_tail_def ltbl_splice_def)
qed

lemma del_everywhere:
  assumes t: "ltable (set H) A m t" and n: "list_ex (on_list t n) H"
  shows "\<exists>m'. list_del m n = Ret m' \<and> ltable (set H) A m' (\<lambda>h. map_option (remove1 n) (t h))"
proof -
  obtain h us ws where h: "h \<in> set H" "t h = Some (us @ n # ws)" "n \<notin> set us" "n \<notin> set ws" by (rule on_list_split [OF t n])
  show ?thesis by (rule ltable_everywhere [OF t h(1,2), where n = n]) (use h del_ok [OF t h(1,2)] in \<open>simp_all add: remove1_append remove1_idem\<close>)
qed

lemma replace_everywhere:
  assumes t: "ltable (set H) (set A) m t" and n: "list_ex (on_list t n) H" and x: "x \<in> set A" "\<not> list_ex (on_list t x) H"
  shows "\<exists>m'. list_replace m n x = Ret m' \<and> ltable (set H) (set A) m' (\<lambda>h. map_option (map (\<lambda>y. if y = n then x else y)) (t h))"
proof -
  obtain h us ws where h: "h \<in> set H" "t h = Some (us @ n # ws)" "n \<notin> set us" "n \<notin> set ws" by (rule on_list_split [OF t n])
  have same: "map (\<lambda>y. if y = n then x else y) ms = ms" if "n \<notin> set ms" for ms using that by (induction ms) auto
  show ?thesis by (rule ltable_everywhere [OF t h(1,2), where n = n]) (use h replace_ok [OF t h(1,2) x] same in \<open>simp_all\<close>)
qed

lemma lh_step_ok:
  assumes t: "ltable (set H) (set A) m t" and p: "lop_ok H A t p"
  shows "\<exists>m'. lh_step m p = Ret m' \<and> ltable (set H) (set A) m' (ltbl_step t p)"
proof (cases p)
  case (LCut l h e)
  then show ?thesis using cut_position_ok [OF t] p by (simp add: lh_step_def ltbl_step_def)
qed (use p add_ok [OF t] init_ok [OF t] splice_ok [OF t] del_everywhere [OF t] replace_everywhere [OF t] in
    \<open>simp_all add: lop_ok_def lh_step_def ltbl_step_def\<close>)

lemma lh_run_ok:
  "ltable (set H) (set A) m t \<Longrightarrow> lops_ok H A t ps \<Longrightarrow> \<exists>m'. lh_run m ps = Ret m' \<and> ltable (set H) (set A) m' (foldl ltbl_step t ps)"
proof (induction ps arbitrary: m t)
  case (Cons p ps)
  obtain m1 where "lh_step m p = Ret m1" "ltable (set H) (set A) m1 (ltbl_step t p)"
    using lh_step_ok [OF Cons.prems(1), of p] Cons.prems(2) by auto
  then show ?case using Cons.IH [of m1 "ltbl_step t p"] Cons.prems(2) by simp
qed simp

lemma list_search_find:
  "lpath (lnx m) P (a # ns @ [h]) \<Longrightarrow> h \<notin> set ns \<Longrightarrow> set ns \<subseteq> dom m \<Longrightarrow> length ns < fuel \<Longrightarrow>
    list_search fuel m (\<lambda>n. Ret (Q n)) h (lnx m a) = Ret (find Q ns)"
proof (induction ns arbitrary: a fuel)
  case Nil
  then show ?case by (cases fuel) auto
next
  case (Cons n ns)
  then obtain f where f: "fuel = Suc f" "length ns < f" by (cases fuel) auto
  then show ?case using Cons.IH [of n f] Cons.prems by (simp add: get_next_ok)
qed

lemma ltable_search:
  assumes t: "ltable H A m t" and h: "h \<in> H" "t h = Some ns" and f: "length ns < fuel"
  shows "list_for_each_entry fuel m (\<lambda>n. Ret (Q n)) h = Ret (find Q ns)"
proof -
  have "lpath (lnx m) (lpv m) (h # ns @ [h])" using t h by (simp add: ltable_def)
  moreover have "distinct (h # ns)" "insert h (set ns) \<subseteq> dom m" using ltable_ring(3,9) [OF t h(1), of "[]" ns] h(2) by simp_all
  ultimately show ?thesis using list_search_find f by (simp add: list_for_each_entry_def get_next_ok)
qed


lemma is_last_ok:
  assumes t: "ltable H A m t" and h: "h \<in> H" "t h = Some ns" and n: "n \<in> set ns"
  shows "list_is_last m n h = Ret (n = last ns)"
proof -
  obtain us ws where ns: "ns = us @ n # ws" using split_list [OF n] by blast
  note at = node_at [OF t h(1), of us n ws]
  have "List.hd (ws @ [h]) = h \<longleftrightarrow> ws = []" using at(11) h(2) ns by (cases ws) auto
  moreover have "n = last ns \<longleftrightarrow> ws = []" using at(11) h(2) ns last_in_set [of ws] by auto
  ultimately show ?thesis using at(1,3) h(2) ns by (simp add: list_is_last_def get_next_ok)
qed

text \<open>Deleting every entry in a loop that is safe against removal.\<close>

lemma safe_loop_del:
  "ltable H A m t \<Longrightarrow> h \<in> H \<Longrightarrow> t h = Some ns \<Longrightarrow> length ns < fuel \<Longrightarrow>
    \<exists>m'. list_safe_loop fuel list_del h m (List.hd (ns @ [h])) (lnx m (List.hd (ns @ [h]))) = Ret m' \<and> ltable H A m' (t(h := Some []))"
proof (induction ns arbitrary: m t fuel)
  case Nil
  then obtain f where "fuel = Suc f" by (cases fuel) auto
  moreover have "t(h := Some []) = t" using Nil.prems(3) by auto
  ultimately show ?case using Nil.prems(1) by simp
next
  case (Cons x xs)
  obtain f where f: "fuel = Suc f" "length xs < f" using Cons.prems(4) by (cases fuel) auto
  have th: "t h = Some ([] @ x # xs)" using Cons.prems(3) by simp
  note at = node_at [OF Cons.prems(1,2) th]
  obtain m1 where m1: "list_del m x = Ret m1" "ltable H A m1 (t(h := Some xs))" using del_ok [OF Cons.prems(1,2) th] by auto
  have "List.hd (xs @ [h]) \<in> dom m1" using ltable_ring(8,9) [OF m1(2) Cons.prems(2), of "[]" xs] by auto
  then have "list_safe_loop fuel list_del h m x (lnx m x) = list_safe_loop f list_del h m1 (List.hd (xs @ [h])) (lnx m1 (List.hd (xs @ [h])))"
    using at(3,11) f(1) m1(1) by (simp add: get_next_ok)
  then show ?case using Cons.IH [OF m1(2) Cons.prems(2) fun_upd_same f(2), unfolded fun_upd_upd] unfolding append_Cons list.sel by simp
qed

lemma safe_del_ok:
  assumes t: "ltable H A m t" and h: "h \<in> H" "t h = Some ns"
  shows "\<exists>m'. list_for_each_entry_safe (Suc (length ns)) list_del h m = Ret m' \<and> list_empty m' h = Ret True"
proof -
  note at = ltable_ring [OF t h(1), of "[]" ns]
  have "List.hd (ns @ [h]) \<in> dom m" using at(8,9) h(2) by auto
  then have "list_for_each_entry_safe (Suc (length ns)) list_del h m =
      list_safe_loop (Suc (length ns)) list_del h m (List.hd (ns @ [h])) (lnx m (List.hd (ns @ [h])))"
    using list_empty_ok(3) [OF t h] by (simp add: list_for_each_entry_safe_def get_next_ok del: list_safe_loop.simps)
  then show ?thesis using safe_loop_del [OF t h, of "Suc (length ns)"] list_empty_ok(1) [OF _ h(1)] by fastforce
qed

text \<open>
  C20: The circular lists implement a table of lists. From any memory that holds the heads and the nodes, whatever their
  pointers are, every sequence of \<^verbatim>\<open>INIT_LIST_HEAD\<close>, \<^verbatim>\<open>list_add\<close>, \<^verbatim>\<open>list_add_tail\<close>, \<^verbatim>\<open>list_del\<close>, \<^verbatim>\<open>list_replace\<close>,
  \<^verbatim>\<open>list_cut_position\<close>, \<^verbatim>\<open>list_splice\<close> and \<^verbatim>\<open>list_splice_tail\<close> whose caller keeps to what the operations ask for runs
  without a wild access and without a failed assertion; afterwards \<^verbatim>\<open>list_for_each_entry\<close> visits the entries of every list in the order
  that the operations on plain lists give, \<^verbatim>\<open>list_empty\<close>, \<^verbatim>\<open>list_is_singular\<close> and \<^verbatim>\<open>list_is_last\<close> answer as they should, and
  deleting each entry within \<^verbatim>\<open>list_for_each_entry_safe\<close> ends with an empty list. The list that was spliced into another has
  to be initialised before it is used again, unless it was empty.
\<close>

theorem list_table_refines:
  assumes "set H \<union> set A \<subseteq> dom m" "set H \<inter> set A = {}" "lops_ok H A (\<lambda>_. None) ps"
  shows "\<exists>m'. lh_run m ps = Ret m' \<and>
    (\<forall>h\<in>set H. \<forall>ns. foldl ltbl_step (\<lambda>_. None) ps h = Some ns \<longrightarrow>
      list_empty m' h = Ret (ns = []) \<and> list_is_singular m' h = Ret (length ns = 1) \<and>
      (\<forall>n\<in>set ns. list_is_last m' n h = Ret (n = last ns)) \<and>
      (\<forall>Q fuel. length ns < fuel \<longrightarrow> list_for_each_entry fuel m' (\<lambda>n. Ret (Q n)) h = Ret (find Q ns)) \<and>
      (\<exists>m''. list_for_each_entry_safe (Suc (length ns)) list_del h m' = Ret m'' \<and> list_empty m'' h = Ret True))"
proof -
  have "ltable (set H) (set A) m (\<lambda>_. None)" using assms(1,2) by (simp add: ltable_def ltbl_wf_def ring_of_def)
  then obtain m' where "lh_run m ps = Ret m'" and t: "ltable (set H) (set A) m' (foldl ltbl_step (\<lambda>_. None) ps)"
    using lh_run_ok [OF _ assms(3)] by blast
  then show ?thesis using list_empty_ok(1,2) [OF t] is_last_ok [OF t] ltable_search [OF t] safe_del_ok [OF t] by blast
qed

definition lmem_ex :: lmem where
  "lmem_ex = (\<lambda>a. if a < 7 then Some \<lparr>lnext = None, lprev = Some 9\<rparr> else None)"

definition lops_ex :: "lop list" where
  "lops_ex = [LInit 0, LInit 1, LAdd 2 0, LAddTail 3 0, LAdd 4 0, LAdd 5 1, LCut 1 0 2, LSplice 1 0, LInit 1, LReplace 2 6, LDel 3]"

text \<open>Two heads and five nodes: after cutting and splicing, nodes 4 and 6 are left on the list of head 0.\<close>

theorem list_table_refines_witness:
  "\<exists>m'. lh_run lmem_ex lops_ex = Ret m' \<and> list_empty m' 1 = Ret True \<and> list_is_last m' 6 0 = Ret True \<and>
    list_for_each_entry 3 m' (\<lambda>n. Ret (5 < n)) 0 = Ret (Some 6) \<and>
    (\<exists>m''. list_for_each_entry_safe 3 list_del 0 m' = Ret m'' \<and> list_empty m'' 0 = Ret True)"
proof -
  have ok: "lops_ok [0, 1] [2, 3, 4, 5, 6] (\<lambda>_. None) lops_ex"
    by (simp add: lops_ex_def lop_ok_def ltbl_step_def on_list_def ltbl_cut_def ltbl_splice_def)
  have t: "foldl ltbl_step (\<lambda>_. None) lops_ex 0 = Some [4, 6]" "foldl ltbl_step (\<lambda>_. None) lops_ex 1 = Some []"
    by (simp_all add: lops_ex_def ltbl_step_def ltbl_cut_def ltbl_splice_def)
  have d: "set [0, 1] \<union> set [2, 3, 4, 5, 6] \<subseteq> dom lmem_ex" "set [0, 1] \<inter> set [2, 3, 4, 5, 6] = ({} :: nat set)"
    by (auto simp: lmem_ex_def)
  obtain m' where m': "lh_run lmem_ex lops_ex = Ret m'" and res: "\<forall>h\<in>set [0, 1]. \<forall>ns. foldl ltbl_step (\<lambda>_. None) lops_ex h = Some ns \<longrightarrow>
      list_empty m' h = Ret (ns = []) \<and> list_is_singular m' h = Ret (length ns = 1) \<and>
      (\<forall>n\<in>set ns. list_is_last m' n h = Ret (n = last ns)) \<and>
      (\<forall>Q fuel. length ns < fuel \<longrightarrow> list_for_each_entry fuel m' (\<lambda>n. Ret (Q n)) h = Ret (find Q ns)) \<and>
      (\<exists>m''. list_for_each_entry_safe (Suc (length ns)) list_del h m' = Ret m'' \<and> list_empty m'' h = Ret True)"
    using list_table_refines [OF d ok] by blast
  have h0: "list_is_last m' 6 0 = Ret True" "\<And>Q. list_for_each_entry 3 m' (\<lambda>n. Ret (Q n)) 0 = Ret (find Q [4, 6])"
    "\<exists>m''. list_for_each_entry_safe 3 list_del 0 m' = Ret m'' \<and> list_empty m'' 0 = Ret True"
    using res t(1) by (simp_all add: numeral_3_eq_3)
  moreover have "list_empty m' 1 = Ret True" using res t(2) by simp
  ultimately show ?thesis using m' by simp
qed

end
