(* ===== verification/OS_Dll.thy ===== *)
theory OS_Dll
  imports OS_Prelude
begin

text \<open>
  Doubly linked lists on a heap of nodes, as the ready list and the wait queues of the thread
  library and the recency list of the web cache have them: which list of values the nodes from a
  head pointer on represent, and what pushing to the end and unlinking the head, the end or an
  inner node does to it.
\<close>

record 'a qnode =
  q_node :: 'a
  q_prv :: "nat option"
  q_next :: "nat option"

type_synonym 'a nodes = "nat \<Rightarrow> 'a qnode option"

section \<open>Doubly linked segments\<close>

text \<open>
  \<^verbatim>\<open>seg h pv p ps xs lst nx\<close>: following \<^verbatim>\<open>next\<close> from \<^verbatim>\<open>p\<close> visits the nodes
  \<^verbatim>\<open>ps\<close>, which hold \<^verbatim>\<open>xs\<close>, and stops at \<^verbatim>\<open>nx\<close>; the first node points back to
  \<^verbatim>\<open>pv\<close> and \<^verbatim>\<open>lst\<close> is the last node, or \<^verbatim>\<open>pv\<close> when there is none.
\<close>

fun seg :: "'a nodes \<Rightarrow> nat option \<Rightarrow> nat option \<Rightarrow> nat list \<Rightarrow> 'a list \<Rightarrow> nat option \<Rightarrow> nat option \<Rightarrow> bool" where
  "seg h pv p [] [] lst nx \<longleftrightarrow> p = nx \<and> lst = pv"
| "seg h pv p (q # ps) (x # xs) lst nx \<longleftrightarrow>
     p = Some q \<and> (\<exists>r. h q = Some \<lparr>q_node = x, q_prv = pv, q_next = r\<rparr> \<and> seg h (Some q) r ps xs lst nx)"
| "seg h pv p _ _ lst nx \<longleftrightarrow> False"

lemma seg_length: "seg h pv p ps xs lst nx \<Longrightarrow> length ps = length xs"
  by (induction h pv p ps xs lst nx rule: seg.induct) auto

lemma seg_Nil [simp]: "seg h pv p ps [] lst nx \<longleftrightarrow> ps = [] \<and> p = nx \<and> lst = pv" "seg h pv p [] xs lst nx \<longleftrightarrow> xs = [] \<and> p = nx \<and> lst = pv"
  by (cases ps, auto)+ (cases xs, auto)+

lemma seg_Cons:
  "seg h pv p ps (x # xs) lst nx \<longleftrightarrow>
    (\<exists>q qs r. ps = q # qs \<and> p = Some q \<and> h q = Some \<lparr>q_node = x, q_prv = pv, q_next = r\<rparr> \<and> seg h (Some q) r qs xs lst nx)"
  by (cases ps) auto

lemma seg_append:
  "length ps = length xs \<Longrightarrow> seg h pv p (ps @ qs) (xs @ ys) lst nx \<longleftrightarrow>
     (\<exists>l m. seg h pv p ps xs l m \<and> seg h l m qs ys lst nx)"
  by (induction ps xs arbitrary: pv p rule: list_induct2) auto

lemma seg_split:
  assumes "seg h pv p ps (xs @ ys) lst nx"
  obtains qs rs l m where "ps = qs @ rs" "seg h pv p qs xs l m" "seg h l m rs ys lst nx"
proof -
  let ?qs = "take (length xs) ps" and ?rs = "drop (length xs) ps"
  have "length ?qs = length xs" using seg_length [OF assms] by simp
  from seg_append [OF this, of h pv p ?rs ys lst nx] assms show ?thesis
    using that [of ?qs ?rs] by auto
qed

lemma seg_nodes: "seg h pv p ps xs lst nx \<Longrightarrow> i < length ps \<Longrightarrow> \<exists>n. h (ps ! i) = Some n \<and> q_node n = xs ! i"
proof (induction ps arbitrary: pv p xs i)
  case (Cons q ps)
  then show ?case by (cases xs; cases i) auto
qed simp

lemma seg_ids: "seg h pv p ps xs lst nx \<Longrightarrow> q \<in> set ps \<Longrightarrow> \<exists>n. h q = Some n \<and> q_node n \<in> set xs"
  by (metis in_set_conv_nth seg_length seg_nodes)

lemma seg_distinct: "seg h pv p ps xs lst nx \<Longrightarrow> distinct xs \<Longrightarrow> distinct ps"
proof (induction ps arbitrary: pv p xs)
  case (Cons q ps)
  then show ?case by (cases xs) (auto dest: seg_ids)
qed simp

lemma seg_frame: "seg h pv p ps xs lst nx \<Longrightarrow> (\<And>q. q \<in> set ps \<Longrightarrow> h' q = h q) \<Longrightarrow> seg h' pv p ps xs lst nx"
  by (induction h pv p ps xs lst nx rule: seg.induct) auto

text \<open>Lists of different values have different nodes.\<close>

lemma seg_disjoint: "seg h pv p ps xs lst nx \<Longrightarrow> seg h pv' p' qs ys lst' nx' \<Longrightarrow> set xs \<inter> set ys = {} \<Longrightarrow> set ps \<inter> set qs = {}"
  by (fastforce dest: seg_ids)

section \<open>Lists\<close>

definition dll :: "'a nodes \<Rightarrow> nat option \<Rightarrow> nat option \<Rightarrow> 'a list \<Rightarrow> bool" where
  "dll h p e xs \<longleftrightarrow> distinct xs \<and> (\<exists>ps. seg h None p ps xs e None)"

lemma dll_Nil [simp]: "dll h p e [] \<longleftrightarrow> p = None \<and> e = None"
  by (auto simp: dll_def)

lemma dll_distinct: "dll h p e xs \<Longrightarrow> distinct xs"
  by (simp add: dll_def)

lemma dll_head_iff: "dll h p e xs \<Longrightarrow> p = None \<longleftrightarrow> xs = []"
  by (cases xs) (auto simp: dll_def seg_Cons)

lemma dll_head: "dll h p e (x # xs) \<Longrightarrow> \<exists>q r. p = Some q \<and> h q = Some \<lparr>q_node = x, q_prv = None, q_next = r\<rparr>"
  by (auto simp: dll_def seg_Cons)

text \<open>What the pointer operations do to a segment.\<close>

lemma seg_last:
  assumes "seg h pv p ps xs lst nx" "ps \<noteq> []"
  shows "lst = Some (last ps)" "\<exists>n. h (last ps) = Some n \<and> q_next n = nx \<and> q_node n = last xs"
  using assms by (induction h pv p ps xs lst nx rule: seg.induct) (auto split: if_splits dest: seg_length)

lemma seg_set_next:
  assumes "seg h pv p ps xs lst nx" "ps \<noteq> []" "distinct ps" "h (last ps) = Some n"
  shows "seg (h(last ps \<mapsto> n\<lparr>q_next := nx'\<rparr>)) pv p ps xs lst nx'"
  using assms
proof (induction ps arbitrary: pv p xs)
  case (Cons q ps)
  then obtain x ys r where x: "xs = x # ys" "p = Some q" "h q = Some \<lparr>q_node = x, q_prv = pv, q_next = r\<rparr>" "seg h (Some q) r ps ys lst nx"
    by (cases xs) auto
  show ?case
  proof (cases "ps = []")
    case True
    then show ?thesis using x Cons.prems by auto
  next
    case False
    then have "seg (h(last ps \<mapsto> n\<lparr>q_next := nx'\<rparr>)) (Some q) r ps ys lst nx'"
      using x(4) Cons.prems by (intro Cons.IH) auto
    moreover have "q \<noteq> last ps" using False Cons.prems(3) by auto
    ultimately show ?thesis using x False by (simp add: fun_upd_def)
  qed
qed simp

lemma seg_set_prv:
  assumes "seg h pv (Some q) (q # ps) xs lst nx" "distinct (q # ps)" "h q = Some n"
  shows "seg (h(q \<mapsto> n\<lparr>q_prv := pv'\<rparr>)) pv' (Some q) (q # ps) xs (if ps = [] then Some q else lst) nx"
proof -
  obtain x ys r where x: "xs = x # ys" "h q = Some \<lparr>q_node = x, q_prv = pv, q_next = r\<rparr>" "seg h (Some q) r ps ys lst nx"
    using assms(1) by (cases xs) auto
  have "seg (h(q \<mapsto> n\<lparr>q_prv := pv'\<rparr>)) (Some q) r ps ys lst nx" by (rule seg_frame [OF x(3)]) (use assms(2) in auto)
  then show ?thesis using x assms(3) by auto
qed

text \<open>Changes to a heap that keep the nodes of all values outside \<^verbatim>\<open>X\<close>.\<close>

definition keeps :: "'a nodes \<Rightarrow> 'a nodes \<Rightarrow> 'a set \<Rightarrow> bool" where
  "keeps h h' X \<longleftrightarrow> (\<forall>q n. h q = Some n \<longrightarrow> q_node n \<notin> X \<longrightarrow> h' q = Some n)"

lemma dll_keeps: "dll h p e xs \<Longrightarrow> keeps h h' X \<Longrightarrow> set xs \<inter> X = {} \<Longrightarrow> dll h' p e xs"
proof -
  assume a: "dll h p e xs" "keeps h h' X" "set xs \<inter> X = {}"
  then obtain ps where s: "seg h None p ps xs e None" "distinct xs" by (auto simp: dll_def)
  have "h' q = h q" if "q \<in> set ps" for q using seg_ids [OF s(1) that] a(2,3) by (auto simp: keeps_def disjoint_iff)
  with seg_frame [OF s(1), of h'] s(2) show "dll h' p e xs" by (auto simp: dll_def)
qed

lemma seg_push:
  assumes "seg h None p ps xs e None" "distinct xs" "x \<notin> set xs" "h q = Some n" "q_node n = x"
  shows "xs = [] \<Longrightarrow> seg (h(q \<mapsto> n\<lparr>q_prv := None, q_next := None\<rparr>)) None (Some q) [q] [x] (Some q) None"
    "xs \<noteq> [] \<Longrightarrow> \<exists>l ln. e = Some l \<and> h l = Some ln \<and> l \<noteq> q \<and> q_node ln \<in> set xs \<and>
       seg (h(l \<mapsto> ln\<lparr>q_next := Some q\<rparr>, q \<mapsto> n\<lparr>q_prv := Some l, q_next := None\<rparr>)) None p (ps @ [q]) (xs @ [x]) (Some q) None"
proof -
  show "xs = [] \<Longrightarrow> seg (h(q \<mapsto> n\<lparr>q_prv := None, q_next := None\<rparr>)) None (Some q) [q] [x] (Some q) None"
    using assms(5) by auto
  assume "xs \<noteq> []"
  then have ne: "ps \<noteq> []" using seg_length [OF assms(1)] by auto
  have q: "q \<notin> set ps" using seg_ids [OF assms(1)] assms(3-5) by force
  obtain ln where l: "e = Some (last ps)" "h (last ps) = Some ln" "q_node ln = last xs" using seg_last [OF assms(1) ne] by auto
  have "seg (h(last ps \<mapsto> ln\<lparr>q_next := Some q\<rparr>)) None p ps xs e (Some q)"
    using seg_set_next [OF assms(1) ne seg_distinct [OF assms(1,2)] l(2)] .
  then have "seg (h(last ps \<mapsto> ln\<lparr>q_next := Some q\<rparr>, q \<mapsto> n\<lparr>q_prv := Some (last ps), q_next := None\<rparr>)) None p ps xs e (Some q)"
    by (rule seg_frame) (use q in auto)
  then have "seg (h(last ps \<mapsto> ln\<lparr>q_next := Some q\<rparr>, q \<mapsto> n\<lparr>q_prv := Some (last ps), q_next := None\<rparr>)) None p (ps @ [q]) (xs @ [x]) (Some q) None"
    using l(1) assms(5) by (subst seg_append [OF seg_length [OF assms(1)]]) fastforce
  moreover have "last ps \<noteq> q" "last xs \<in> set xs" using q ne \<open>xs \<noteq> []\<close> by auto
  ultimately show "\<exists>l ln. e = Some l \<and> h l = Some ln \<and> l \<noteq> q \<and> q_node ln \<in> set xs \<and>
       seg (h(l \<mapsto> ln\<lparr>q_next := Some q\<rparr>, q \<mapsto> n\<lparr>q_prv := Some l, q_next := None\<rparr>)) None p (ps @ [q]) (xs @ [x]) (Some q) None"
    using l by (intro exI [of _ "last ps"] exI [of _ ln] conjI) simp_all
qed

lemma seg_pop:
  assumes "seg h None p (q # ps) (x # xs) e None" "distinct (x # xs)" "h q = Some n"
  shows "xs = [] \<Longrightarrow> q_next n = None" "q_node n = x" "p = Some q"
    "xs \<noteq> [] \<Longrightarrow> \<exists>r rn. q_next n = Some r \<and> h r = Some rn \<and> r \<noteq> q \<and> q_node rn \<in> set xs \<and>
       seg ((h(r \<mapsto> rn\<lparr>q_prv := None\<rparr>))(q := None)) None (Some r) ps xs e None"
proof -
  show "xs = [] \<Longrightarrow> q_next n = None" "q_node n = x" "p = Some q" using assms by auto
  assume ne: "xs \<noteq> []"
  have d: "distinct (q # ps)" using seg_distinct [OF assms(1,2)] .
  have sg: "seg h (Some q) (q_next n) ps xs e None" using assms(1,3) by auto
  then obtain r rs where ps: "ps = r # rs" "q_next n = Some r" using ne seg_length [OF sg] by (cases ps; cases xs) auto
  obtain rn where rn: "h r = Some rn" "q_node rn \<in> set xs" using seg_ids [OF sg, of r] ps(1) by force
  have "seg (h(r \<mapsto> rn\<lparr>q_prv := None\<rparr>)) None (Some r) (r # rs) xs (if rs = [] then Some r else e) None"
    using sg ps d rn by (intro seg_set_prv [where pv = "Some q"]) auto
  moreover have "(if rs = [] then Some r else e) = e" using seg_last(1) [OF sg] ps by auto
  ultimately have "seg (h(r \<mapsto> rn\<lparr>q_prv := None\<rparr>)) None (Some r) ps xs e None" using ps(1) by simp
  then have "seg ((h(r \<mapsto> rn\<lparr>q_prv := None\<rparr>))(q := None)) None (Some r) ps xs e None"
    by (rule seg_frame) (use d in auto)
  then show "\<exists>r rn. q_next n = Some r \<and> h r = Some rn \<and> r \<noteq> q \<and> q_node rn \<in> set xs \<and>
       seg ((h(r \<mapsto> rn\<lparr>q_prv := None\<rparr>))(q := None)) None (Some r) ps xs e None"
    using ps rn d by (intro exI [of _ r] exI [of _ rn] conjI) simp_all
qed

lemma seg_mid:
  assumes s: "seg h pv p (qs @ m # rs) (xs @ x # ys) e nx" and l: "length qs = length xs"
  obtains b r where "seg h pv p qs xs b (Some m)" "h m = Some \<lparr>q_node = x, q_prv = b, q_next = r\<rparr>" "seg h (Some m) r rs ys e nx"
  using s seg_append [OF l, of h pv p "m # rs" "x # ys" e nx] by auto

lemma seg_drop_end:
  assumes s: "seg h None p (qs @ [m]) (xs @ [x]) e None" and d: "distinct (xs @ [x])" and ne: "xs \<noteq> []"
  shows "\<exists>b bn r. e = Some m \<and> h m = Some \<lparr>q_node = x, q_prv = Some b, q_next = r\<rparr> \<and> h b = Some bn \<and>
    seg ((h(b \<mapsto> bn\<lparr>q_next := None\<rparr>))(m := None)) None p qs xs (Some b) None"
proof -
  have l: "length qs = length xs" using seg_length [OF s] by simp
  obtain b r where sm: "seg h None p qs xs b (Some m)" "h m = Some \<lparr>q_node = x, q_prv = b, q_next = r\<rparr>" "e = Some m"
    by (rule seg_mid [OF s l]) auto
  have dd: "distinct (qs @ [m])" using seg_distinct [OF s d] .
  have qs: "qs \<noteq> []" using ne l by auto
  obtain bn where b: "b = Some (last qs)" "h (last qs) = Some bn" using seg_last [OF sm(1) qs] by auto
  have "seg (h(last qs \<mapsto> bn\<lparr>q_next := None\<rparr>)) None p qs xs b None" by (rule seg_set_next [OF sm(1) qs _ b(2)]) (use dd in simp)
  then have "seg ((h(last qs \<mapsto> bn\<lparr>q_next := None\<rparr>))(m := None)) None p qs xs b None" by (rule seg_frame) (use dd in auto)
  then show ?thesis using sm b by (intro exI [of _ "last qs"] exI [of _ bn] exI [of _ r] conjI) simp_all
qed

lemma seg_drop_mid:
  assumes s: "seg h None p (qs @ m # rs) (xs @ x # ys) e None" and l: "length qs = length xs"
    and d: "distinct (xs @ x # ys)" and ne: "xs \<noteq> []" "ys \<noteq> []"
  shows "\<exists>b bn a an. h m = Some \<lparr>q_node = x, q_prv = Some b, q_next = Some a\<rparr> \<and> h b = Some bn \<and> h a = Some an \<and> a \<noteq> b \<and>
    seg ((h(b \<mapsto> bn\<lparr>q_next := Some a\<rparr>, a \<mapsto> an\<lparr>q_prv := Some b\<rparr>))(m := None)) None p (qs @ rs) (xs @ ys) e None"
proof -
  obtain b r where sm: "seg h None p qs xs b (Some m)" "h m = Some \<lparr>q_node = x, q_prv = b, q_next = r\<rparr>" "seg h (Some m) r rs ys e None"
    by (rule seg_mid [OF s l])
  have dd: "distinct (qs @ m # rs)" using seg_distinct [OF s d] .
  have qs: "qs \<noteq> []" using ne l by auto
  obtain a as where rs: "rs = a # as" "r = Some a" using sm(3) ne(2) seg_length [OF sm(3)] by (cases rs; cases ys) auto
  obtain bn where b: "b = Some (last qs)" "h (last qs) = Some bn" using seg_last [OF sm(1) qs] by auto
  obtain an where an: "h a = Some an" using seg_ids [OF sm(3), of a] rs by auto
  let ?b = "last qs"
  let ?h = "(h(?b \<mapsto> bn\<lparr>q_next := Some a\<rparr>, a \<mapsto> an\<lparr>q_prv := Some ?b\<rparr>))(m := None)"
  have ab: "?b \<in> set qs" "a \<notin> set qs" "?b \<notin> set rs" "m \<notin> set qs" "m \<notin> set rs"
    using dd qs rs last_in_set [OF qs] by (auto simp: disjoint_iff)
  have "seg (h(?b \<mapsto> bn\<lparr>q_next := Some a\<rparr>)) None p qs xs b (Some a)" by (rule seg_set_next [OF sm(1) qs _ b(2)]) (use dd in simp)
  then have 1: "seg ?h None p qs xs b (Some a)" by (rule seg_frame) (use ab in auto)
  have e: "(if as = [] then Some a else e) = e" using seg_last(1) [OF sm(3)] rs by auto
  have "seg (h(a \<mapsto> an\<lparr>q_prv := Some ?b\<rparr>)) (Some ?b) (Some a) (a # as) ys (if as = [] then Some a else e) None"
    by (rule seg_set_prv [where pv = "Some m"]) (use sm(3) rs dd an in auto)
  then have "seg (h(a \<mapsto> an\<lparr>q_prv := Some ?b\<rparr>)) (Some ?b) (Some a) rs ys e None" using rs e by simp
  then have "seg ?h (Some ?b) (Some a) rs ys e None" by (rule seg_frame) (use ab in auto)
  with 1 b(1) have "seg ?h None p (qs @ rs) (xs @ ys) e None" unfolding seg_append [OF l] by blast
  moreover have "a \<noteq> ?b" using ab by auto
  ultimately show ?thesis
    using sm(2) b an rs(2) by (intro exI [of _ ?b] exI [of _ bn] exI [of _ a] exI [of _ an] conjI) simp_all
qed

end
