(* ===== verification/Thr_State.thy ===== *)
theory Thr_State
  imports OS_Dll
begin

text \<open>
  The data of the user-level thread library (\<^verbatim>\<open>threads/thread.c\<close>, \<^verbatim>\<open>threads/thread.h\<close>):
  thread control blocks, the nodes of the ready list and of the wait queues, locks and condition
  variables, and the state of the process; the signal mask of \<^verbatim>\<open>threads/interrupt.c\<close>.
  A saved context is the list of the library's frames that were active when the thread was
  switched out, with the locals that are read after the switch.
\<close>

section \<open>Constants\<close>

definition THREAD_MAX_THREADS :: nat where "THREAD_MAX_THREADS = 1024"
definition THREAD_MIN_STACK :: int where "THREAD_MIN_STACK = 32768"

definition THREAD_ANY :: int where "THREAD_ANY = - 1"
definition THREAD_SELF :: int where "THREAD_SELF = - 2"
definition THREAD_INVALID :: int where "THREAD_INVALID = - 3"
definition THREAD_NONE :: int where "THREAD_NONE = - 4"
definition THREAD_NOMORE :: int where "THREAD_NOMORE = - 5"
definition THREAD_NOMEMORY :: int where "THREAD_NOMEMORY = - 6"
definition THREAD_FAILED :: int where "THREAD_FAILED = - 7"

lemmas thread_codes [simp] =
  THREAD_MAX_THREADS_def THREAD_MIN_STACK_def THREAD_ANY_def THREAD_SELF_def THREAD_INVALID_def
  THREAD_NONE_def THREAD_NOMORE_def THREAD_NOMEMORY_def THREAD_FAILED_def

type_synonym tid = int

section \<open>Contexts\<close>

datatype frame =
    F_yield bool            \<comment> \<open>\<^verbatim>\<open>thread_yield\<close>, with its \<^verbatim>\<open>enabled\<close>\<close>
  | F_yield_exit bool tid   \<comment> \<open>\<^verbatim>\<open>thread_yield\<close> in its call of \<^verbatim>\<open>thread_exit\<close>, with \<^verbatim>\<open>nextThread\<close>\<close>
  | F_exit bool             \<comment> \<open>\<^verbatim>\<open>thread_exit\<close> in its call of \<^verbatim>\<open>thread_yield\<close>\<close>
  | F_sleep bool tid        \<comment> \<open>\<^verbatim>\<open>thread_sleep\<close>, with \<^verbatim>\<open>nextThread\<close>\<close>
  | F_wait bool tid         \<comment> \<open>\<^verbatim>\<open>thread_wait\<close>, with \<^verbatim>\<open>tid\<close>\<close>
  | F_lock bool nat         \<comment> \<open>\<^verbatim>\<open>lock_acquire\<close> in its loop, with the lock\<close>
  | F_cv bool nat           \<comment> \<open>\<^verbatim>\<open>cv_wait\<close> in its call of \<^verbatim>\<open>thread_sleep\<close>\<close>
  | F_cv_lock bool          \<comment> \<open>\<^verbatim>\<open>cv_wait\<close> in its call of \<^verbatim>\<open>lock_acquire\<close>\<close>
  | F_handler               \<comment> \<open>\<^verbatim>\<open>interrupt_handler\<close> in its call of \<^verbatim>\<open>thread_yield\<close>\<close>

text \<open>
  \<^verbatim>\<open>Ctx_stub rsp rdi rsi\<close> is the context \<^verbatim>\<open>thread_create\<close> makes: the program
  counter at \<^verbatim>\<open>thread_stub\<close>, the stack pointer and the two arguments.
\<close>

datatype ctx = Ctx_none | Ctx_init | Ctx_stub int nat nat | Ctx_frames "frame list"

section \<open>Structures\<close>

record thread =
  threadID :: tid
  threadInfo :: ctx
  wqt :: "nat option"
  status :: int             \<comment> \<open>0 ready, 1 running, 2 exited, 3 suspended\<close>
  nextThreadID :: tid
  preThreadID :: tid
  stack :: "nat option"
  exist :: bool

definition zero_thread :: thread where
  "zero_thread = \<lparr>threadID = 0, threadInfo = Ctx_none, wqt = None, status = 0, nextThreadID = 0,
     preThreadID = 0, stack = None, exist = False\<rparr>"

text \<open>
  \<^verbatim>\<open>struct ready_node\<close> and \<^verbatim>\<open>struct wait_node\<close> have the same fields; the pointer to
  a thread is its index in \<^verbatim>\<open>TotalList\<close>.
\<close>

type_synonym ready_node = "tid qnode"
type_synonym wait_node = "tid qnode"

record wait_queue =
  head :: "nat option"
  tail :: "nat option"

record lock =
  wqL :: "nat option"
  avaliable :: bool
  acquiredID :: tid

record cv =
  wqC :: "nat option"

text \<open>
  The state of the process. \<^verbatim>\<open>brk\<close> counts the calls of \<^verbatim>\<open>malloc\<close>, \<^verbatim>\<open>mem_ok\<close>
  says which succeed and \<^verbatim>\<open>addr\<close> gives the addresses of the blocks; \<^verbatim>\<open>past_end\<close> is
  what a read of \<^verbatim>\<open>TotalList[1024]\<close>, behind the end of the array, finds; \<^verbatim>\<open>intr\<close>
  says whether the timer signal is unblocked.
\<close>

record tsys =
  total :: "thread list"
  past_end :: thread
  currentThread :: tid
  rnodes :: "nat \<Rightarrow> ready_node option"
  ReadyList :: "nat option"
  endOfReady :: "nat option"
  wnodes :: "nat \<Rightarrow> wait_node option"
  wqs :: "nat \<Rightarrow> wait_queue option"
  locks :: "nat \<Rightarrow> lock option"
  cvs :: "nat \<Rightarrow> cv option"
  brk :: nat
  mem_ok :: "nat \<Rightarrow> bool"
  addr :: "nat \<Rightarrow> int"
  intr :: bool
  exited :: bool
  tout :: "string list"

section \<open>Access\<close>

definition tget :: "tsys \<Rightarrow> tid \<Rightarrow> thread res" where
  "tget s i = (if 0 \<le> i \<and> i < int THREAD_MAX_THREADS then Ret (total s ! nat i) else Crash Undef)"

definition tset :: "tsys \<Rightarrow> tid \<Rightarrow> thread \<Rightarrow> tsys" where
  "tset s i t = s\<lparr>total := (total s)[nat i := t]\<rparr>"

definition tupd :: "tsys \<Rightarrow> tid \<Rightarrow> (thread \<Rightarrow> thread) \<Rightarrow> tsys res" where
  "tupd s i f = bnd (tget s i) (\<lambda>t. Ret (tset s i (f t)))"

definition t_malloc :: "tsys \<Rightarrow> nat option \<times> tsys" where
  "t_malloc s = (if mem_ok s (brk s) then Some (brk s) else None, s\<lparr>brk := Suc (brk s)\<rparr>)"

section \<open>Interrupts (\<^verbatim>\<open>interrupt.c\<close>)\<close>

text \<open>
  \<^verbatim>\<open>interrupts_set\<close> blocks or unblocks the timer signal and returns whether it was
  unblocked before.
\<close>

definition interrupts_set :: "bool \<Rightarrow> tsys \<Rightarrow> bool \<times> tsys" where
  "interrupts_set enabled s = (intr s, s\<lparr>intr := enabled\<rparr>)"

definition interrupts_on :: "tsys \<Rightarrow> bool \<times> tsys" where
  "interrupts_on s = interrupts_set True s"

definition interrupts_off :: "tsys \<Rightarrow> bool \<times> tsys" where
  "interrupts_off s = interrupts_set False s"

definition interrupts_enabled :: "tsys \<Rightarrow> bool" where
  "interrupts_enabled s = intr s"

text \<open>\<^verbatim>\<open>unintr_printf\<close> prints with the signal blocked.\<close>

definition unintr_printf :: "string \<Rightarrow> tsys \<Rightarrow> int \<times> tsys" where
  "unintr_printf str s =
    (let (enabled, s1) = interrupts_off s;
         s2 = s1\<lparr>tout := tout s1 @ [str]\<rparr> in
     (int (length str), snd (interrupts_set enabled s2)))"

text \<open>\<^verbatim>\<open>fn2\<close>, and the two lines every operation starts with.\<close>

definition fn2 :: "tsys \<Rightarrow> tsys" where
  "fn2 s = (let (enabled, s1) = interrupts_set False s in snd (interrupts_set enabled s1))"

definition enter :: "tsys \<Rightarrow> bool \<times> tsys" where
  "enter s = (let (enabled, s1) = interrupts_set False s in (enabled, fn2 s1))"

definition leave :: "bool \<Rightarrow> tsys \<Rightarrow> tsys" where
  "leave enabled s = snd (interrupts_set enabled s)"

lemma enter_eq [simp]: "enter s = (intr s, s\<lparr>intr := False\<rparr>)"
  by (simp add: enter_def fn2_def interrupts_set_def)

lemma leave_eq [simp]: "leave e s = s\<lparr>intr := e\<rparr>"
  by (simp add: leave_def interrupts_set_def)

lemma tget_ok: "0 \<le> i \<Longrightarrow> i < 1024 \<Longrightarrow> tget s i = Ret (total s ! nat i)"
  by (simp add: tget_def)

lemma tset_simps [simp]:
  "past_end (tset s i t) = past_end s" "currentThread (tset s i t) = currentThread s" "rnodes (tset s i t) = rnodes s"
  "ReadyList (tset s i t) = ReadyList s" "endOfReady (tset s i t) = endOfReady s" "wnodes (tset s i t) = wnodes s"
  "wqs (tset s i t) = wqs s" "locks (tset s i t) = locks s" "cvs (tset s i t) = cvs s" "brk (tset s i t) = brk s"
  "mem_ok (tset s i t) = mem_ok s" "addr (tset s i t) = addr s" "intr (tset s i t) = intr s"
  "tout (tset s i t) = tout s" "exited (tset s i t) = exited s" "total (tset s i t) = (total s)[nat i := t]"
  by (simp_all add: tset_def)

end
