(* ===== verification/Thr_Queue.thy ===== *)
theory Thr_Queue
  imports Thr_State
begin

text \<open>
  The linked lists of \<^verbatim>\<open>threads/thread.c\<close>: the ready list between \<^verbatim>\<open>ReadyList\<close> and
  \<^verbatim>\<open>endOfReady\<close> and the wait queues, both doubly linked, with the operations the code has on
  them. The predicate \<^verbatim>\<open>dll\<close> of \<^verbatim>\<open>OS_Dll\<close> says which list of threads a heap of nodes
  represents; the operations refine those on lists.
\<close>

section \<open>The ready list\<close>

definition tid_of :: "tsys \<Rightarrow> ready_node \<Rightarrow> tid res" where
  "tid_of s n = bnd (tget s (q_node n)) (\<lambda>t. Ret (threadID t))"

definition pushbackRL :: "nat \<Rightarrow> tsys \<Rightarrow> tsys res" where
  "pushbackRL pt s =
    (case ReadyList s of
       None \<Rightarrow>
         bnd (deref (rnodes s pt)) (\<lambda>n.
         Ret (s\<lparr>rnodes := (rnodes s)(pt \<mapsto> n\<lparr>q_prv := None, q_next := None\<rparr>),
                ReadyList := Some pt, endOfReady := Some pt\<rparr>))
     | Some _ \<Rightarrow>
         bnd (deref (endOfReady s)) (\<lambda>e.
         bnd (deref (rnodes s e)) (\<lambda>n.
         let h = (rnodes s)(e \<mapsto> n\<lparr>q_next := Some pt\<rparr>) in
         bnd (deref (h pt)) (\<lambda>m.
         Ret (s\<lparr>rnodes := h(pt \<mapsto> m\<lparr>q_prv := Some e, q_next := None\<rparr>), endOfReady := Some pt\<rparr>)))))"

definition buildNodeRL :: "tid \<Rightarrow> tsys \<Rightarrow> (nat \<times> tsys) res" where
  "buildNodeRL Ids s =
    (let (p, s1) = t_malloc s in
     bnd (deref p) (\<lambda>p.
     Ret (p, s1\<lparr>rnodes := (rnodes s1)(p \<mapsto> \<lparr>q_node = Ids, q_prv = None, q_next = None\<rparr>)\<rparr>)))"

text \<open>
  Taking the node \<^verbatim>\<open>p\<close> of the thread \<^verbatim>\<open>i\<close> out of the ready list, as
  \<^verbatim>\<open>thread_yield\<close> and \<^verbatim>\<open>deleteNode\<close> spell it out: the head, the end and the middle
  of the list are told apart by thread identifiers.
\<close>

definition unlink_ready :: "tid \<Rightarrow> nat option \<Rightarrow> tsys \<Rightarrow> tsys res" where
  "unlink_ready i p s =
    bnd (deref (ReadyList s)) (\<lambda>hp.
    bnd (deref (rnodes s hp)) (\<lambda>hn.
    bnd (tid_of s hn) (\<lambda>hid.
    if i = hid then
      (case q_next hn of
         None \<Rightarrow> Ret (s\<lparr>ReadyList := None, endOfReady := None, rnodes := (rnodes s)(hp := None)\<rparr>)
       | Some q \<Rightarrow>
           bnd (deref (rnodes s q)) (\<lambda>qn.
           Ret (s\<lparr>ReadyList := Some q, rnodes := ((rnodes s)(q \<mapsto> qn\<lparr>q_prv := None\<rparr>))(hp := None)\<rparr>)))
    else
      bnd (deref (endOfReady s)) (\<lambda>e.
      bnd (deref (rnodes s e)) (\<lambda>en.
      bnd (tid_of s en) (\<lambda>eid.
      if i = eid then
        bnd (deref (q_prv en)) (\<lambda>b.
        bnd (deref (rnodes s b)) (\<lambda>bn.
        Ret (s\<lparr>endOfReady := Some b, rnodes := ((rnodes s)(b \<mapsto> bn\<lparr>q_next := None\<rparr>))(e := None)\<rparr>)))
      else
        bnd (deref p) (\<lambda>p.
        bnd (deref (rnodes s p)) (\<lambda>pn.
        bnd (deref (q_prv pn)) (\<lambda>b.
        bnd (deref (rnodes s b)) (\<lambda>bn.
        let h = (rnodes s)(b \<mapsto> bn\<lparr>q_next := q_next pn\<rparr>) in
        bnd (deref (q_next pn)) (\<lambda>a.
        bnd (deref (h a)) (\<lambda>an.
        Ret (s\<lparr>rnodes := (h(a \<mapsto> an\<lparr>q_prv := q_prv pn\<rparr>))(p := None)\<rparr>))))))))))))) "

definition deleteNode :: "nat \<Rightarrow> tsys \<Rightarrow> tsys res" where
  "deleteNode node s =
    bnd (deref (rnodes s node)) (\<lambda>n.
    bnd (tid_of s n) (\<lambda>i.
    unlink_ready i (Some node) s))"

text \<open>
  The search of \<^verbatim>\<open>thread_yield\<close>: a walk along the \<^verbatim>\<open>next\<close> pointers. A list without
  repetitions has at most 1024 nodes, so the fuel is enough for it.
\<close>

definition LIST_FUEL :: nat where
  "LIST_FUEL = 1025"

fun find_ready :: "nat \<Rightarrow> tsys \<Rightarrow> tid \<Rightarrow> nat option \<Rightarrow> nat option res" where
  "find_ready 0 s want iter = Crash Diverges"
| "find_ready (Suc n) s want iter =
    (case iter of
       None \<Rightarrow> Ret None
     | Some p \<Rightarrow>
         bnd (deref (rnodes s p)) (\<lambda>nd.
         bnd (tid_of s nd) (\<lambda>i.
         if i = want then Ret (Some p) else find_ready n s want (q_next nd))))"

section \<open>Wait queues\<close>

text \<open>The walk to the last node.\<close>

fun last_wait :: "nat \<Rightarrow> tsys \<Rightarrow> nat \<Rightarrow> nat res" where
  "last_wait 0 s p = Crash Diverges"
| "last_wait (Suc n) s p =
    bnd (deref (wnodes s p)) (\<lambda>nd. case q_next nd of None \<Rightarrow> Ret p | Some q \<Rightarrow> last_wait n s q)"

definition pushbackWQ :: "nat \<Rightarrow> nat \<Rightarrow> tsys \<Rightarrow> tsys res" where
  "pushbackWQ pt newNode s =
    bnd (deref (wqs s pt)) (\<lambda>w.
    case head w of
      None \<Rightarrow>
        bnd (deref (wnodes s newNode)) (\<lambda>n.
        Ret (s\<lparr>wnodes := (wnodes s)(newNode \<mapsto> n\<lparr>q_prv := None, q_next := None\<rparr>),
               wqs := (wqs s)(pt \<mapsto> \<lparr>head = Some newNode, tail = Some newNode\<rparr>)\<rparr>))
    | Some hp \<Rightarrow>
        bnd (last_wait LIST_FUEL s hp) (\<lambda>iter.
        bnd (deref (wnodes s iter)) (\<lambda>n.
        let h = (wnodes s)(iter \<mapsto> n\<lparr>q_next := Some newNode\<rparr>) in
        bnd (deref (h newNode)) (\<lambda>m.
        Ret (s\<lparr>wnodes := h(newNode \<mapsto> m\<lparr>q_prv := Some iter, q_next := None\<rparr>),
               wqs := (wqs s)(pt \<mapsto> w\<lparr>tail := Some newNode\<rparr>)\<rparr>)))))"

definition buildNodeWQ :: "tid \<Rightarrow> tsys \<Rightarrow> (nat \<times> tsys) res" where
  "buildNodeWQ Ids s =
    (let (p, s1) = t_malloc s in
     bnd (deref p) (\<lambda>p.
     Ret (p, s1\<lparr>wnodes := (wnodes s1)(p \<mapsto> \<lparr>q_node = Ids, q_prv = None, q_next = None\<rparr>)\<rparr>)))"

definition deleteNodewq :: "nat \<Rightarrow> nat option \<Rightarrow> tsys \<Rightarrow> (tid \<times> tsys) res" where
  "deleteNodewq wq node s =
    bnd (deref (wqs s wq)) (\<lambda>w.
    case head w of
      None \<Rightarrow> Ret (- 1, s)
    | Some hp \<Rightarrow>
        bnd (deref node) (\<lambda>node.
        bnd (deref (wnodes s node)) (\<lambda>nd.
        bnd (tid_of s nd) (\<lambda>nid.
        bnd (deref (wnodes s hp)) (\<lambda>hn.
        bnd (tid_of s hn) (\<lambda>hid.
        if nid = hid then
          (case q_next hn of
             None \<Rightarrow>
               Ret (hid, s\<lparr>wqs := (wqs s)(wq \<mapsto> \<lparr>head = None, tail = None\<rparr>), wnodes := (wnodes s)(hp := None)\<rparr>)
           | Some q \<Rightarrow>
               bnd (deref (wnodes s q)) (\<lambda>qn.
               Ret (hid, s\<lparr>wqs := (wqs s)(wq \<mapsto> w\<lparr>head := Some q\<rparr>),
                           wnodes := ((wnodes s)(q \<mapsto> qn\<lparr>q_prv := None\<rparr>))(hp := None)\<rparr>)))
        else
          bnd (deref (q_prv nd)) (\<lambda>b.
          bnd (deref (wnodes s b)) (\<lambda>bn.
          let h = (wnodes s)(b \<mapsto> bn\<lparr>q_next := q_next nd\<rparr>) in
          bnd (deref (q_next nd)) (\<lambda>a.
          bnd (deref (h a)) (\<lambda>an.
          Ret (nid, s\<lparr>wnodes := (h(a \<mapsto> an\<lparr>q_prv := q_prv nd\<rparr>))(node := None)\<rparr>)))))))))))"

definition wait_queue_create :: "tsys \<Rightarrow> (nat \<times> tsys) res" where
  "wait_queue_create s =
    (let (wq, s1) = t_malloc s in
     bnd (c_assert (wq \<noteq> None)) (\<lambda>_.
     bnd (deref wq) (\<lambda>wq.
     Ret (wq, s1\<lparr>wqs := (wqs s1)(wq \<mapsto> \<lparr>head = None, tail = None\<rparr>)\<rparr>))))"

text \<open>The loop of \<^verbatim>\<open>wait_queue_destroy\<close> frees the nodes, without looking at the threads.\<close>

fun free_wait :: "nat \<Rightarrow> nat option \<Rightarrow> tsys \<Rightarrow> tsys res" where
  "free_wait 0 p s = Crash Diverges"
| "free_wait (Suc n) p s =
    (case p of
       None \<Rightarrow> Ret s
     | Some q \<Rightarrow>
         bnd (deref (wnodes s q)) (\<lambda>nd. free_wait n (q_next nd) (s\<lparr>wnodes := (wnodes s)(q := None)\<rparr>)))"

definition wait_queue_destroy :: "nat \<Rightarrow> tsys \<Rightarrow> tsys res" where
  "wait_queue_destroy wq s =
    bnd (deref (wqs s wq)) (\<lambda>w.
    bnd (free_wait LIST_FUEL (head w) s) (\<lambda>s1.
    Ret (s1\<lparr>wqs := (wqs s1)(wq := None)\<rparr>)))"

section \<open>The ready list refines a list of threads\<close>

definition ids_ok :: "tsys \<Rightarrow> tid set \<Rightarrow> bool" where
  "ids_ok s X \<longleftrightarrow> (\<forall>x \<in> X. 0 \<le> x \<and> x < 1024 \<and> threadID (total s ! nat x) = x)"

lemma tid_of_ok: "ids_ok s X \<Longrightarrow> q_node n \<in> X \<Longrightarrow> tid_of s n = Ret (q_node n)"
  by (auto simp: tid_of_def tget_def ids_ok_def)

definition ready_seg :: "tsys \<Rightarrow> nat list \<Rightarrow> tid list \<Rightarrow> bool" where
  "ready_seg s ps xs \<longleftrightarrow> seg (rnodes s) None (ReadyList s) ps xs (endOfReady s) None \<and> distinct xs \<and> ids_ok s (set xs)"

definition rq :: "tsys \<Rightarrow> tid list \<Rightarrow> bool" where
  "rq s xs \<longleftrightarrow> (\<exists>ps. ready_seg s ps xs)"

text \<open>Two states that differ in the ready list only.\<close>

definition rsame :: "tsys \<Rightarrow> tsys \<Rightarrow> bool" where
  "rsame s s' \<longleftrightarrow> total s' = total s \<and> currentThread s' = currentThread s \<and> wnodes s' = wnodes s \<and> wqs s' = wqs s \<and>
     locks s' = locks s \<and> cvs s' = cvs s \<and> brk s' = brk s \<and> mem_ok s' = mem_ok s \<and> addr s' = addr s \<and> intr s' = intr s \<and>
     past_end s' = past_end s \<and> exited s' = exited s \<and> tout s' = tout s"

lemma rsame_trans: "rsame s s1 \<Longrightarrow> rsame s1 s2 \<Longrightarrow> rsame s s2"
  by (simp add: rsame_def)

lemma rsameD:
  assumes "rsame s s'"
  shows "total s' = total s" "currentThread s' = currentThread s" "wnodes s' = wnodes s" "wqs s' = wqs s" "locks s' = locks s"
    "cvs s' = cvs s" "brk s' = brk s" "mem_ok s' = mem_ok s" "addr s' = addr s" "intr s' = intr s" "past_end s' = past_end s"
    "exited s' = exited s" "tout s' = tout s"
  using assms by (simp_all add: rsame_def)

lemma rq_head: "rq s xs \<Longrightarrow> ReadyList s = None \<longleftrightarrow> xs = []"
  by (cases xs) (auto simp: rq_def ready_seg_def seg_Cons)

lemma rq_ids: "rq s xs \<Longrightarrow> ids_ok s (set xs)"
  by (auto simp: rq_def ready_seg_def)

lemma rq_distinct: "rq s xs \<Longrightarrow> distinct xs"
  by (auto simp: rq_def ready_seg_def)

lemma ids_ok_length:
  assumes "ids_ok s (set xs)" "distinct xs"
  shows "length xs \<le> 1024"
proof -
  have "set xs \<subseteq> {0..<1024}" using assms(1) by (auto simp: ids_ok_def)
  then have "card (set xs) \<le> card {0..<1024::int}" by (intro card_mono) auto
  moreover have "card {0..<1024::int} = 1024" by simp
  ultimately show ?thesis using distinct_card [OF assms(2)] by simp
qed

lemma ids_ok_total: "total s' = total s \<Longrightarrow> ids_ok s' X = ids_ok s X"
  by (simp add: ids_ok_def)

lemma rsame_ids: "rsame s s' \<Longrightarrow> ids_ok s' X = ids_ok s X"
  by (rule ids_ok_total) (simp add: rsame_def)

lemma pushbackRL_ok:
  assumes r: "ready_seg s ps xs" and x: "ids_ok s {x}" "x \<notin> set xs" and n: "rnodes s q = Some n" "q_node n = x"
  obtains s' where "pushbackRL q s = Ret s'" "ready_seg s' (ps @ [q]) (xs @ [x])" "rsame s s'" "\<And>p. p \<noteq> q \<Longrightarrow> rnodes s p = None \<Longrightarrow> rnodes s' p = None"
proof (cases "xs = []")
  case True
  let ?s = "s\<lparr>rnodes := (rnodes s)(q \<mapsto> n\<lparr>q_prv := None, q_next := None\<rparr>), ReadyList := Some q, endOfReady := Some q\<rparr>"
  have "ReadyList s = None" using r True by (simp add: ready_seg_def)
  then have "pushbackRL q s = Ret ?s" using n by (simp add: pushbackRL_def)
  moreover have "ready_seg ?s [q] [x]" using n x by (auto simp: ready_seg_def ids_ok_def)
  moreover have "ps = []" using r True by (simp add: ready_seg_def)
  ultimately show ?thesis using True by (rule_tac that [of ?s]) (auto simp: rsame_def)
next
  case False
  have sg: "seg (rnodes s) None (ReadyList s) ps xs (endOfReady s) None" "distinct xs" using r by (auto simp: ready_seg_def)
  obtain l ln where l: "endOfReady s = Some l" "rnodes s l = Some ln" "l \<noteq> q"
    "seg ((rnodes s)(l \<mapsto> ln\<lparr>q_next := Some q\<rparr>, q \<mapsto> n\<lparr>q_prv := Some l, q_next := None\<rparr>)) None (ReadyList s) (ps @ [q]) (xs @ [x]) (Some q) None"
    using seg_push(2) [OF sg x(2) n False] by blast
  let ?s = "s\<lparr>rnodes := (rnodes s)(l \<mapsto> ln\<lparr>q_next := Some q\<rparr>, q \<mapsto> n\<lparr>q_prv := Some l, q_next := None\<rparr>), endOfReady := Some q\<rparr>"
  obtain p where "ReadyList s = Some p" using rq_head [of s xs] r False by (auto simp: rq_def)
  then have "pushbackRL q s = Ret ?s" using l n by (simp add: pushbackRL_def)
  moreover have "ready_seg ?s (ps @ [q]) (xs @ [x])" using l(4) r x by (auto simp: ready_seg_def ids_ok_def)
  ultimately show ?thesis using l(2) by (rule_tac that [of ?s]) (auto simp: rsame_def)
qed

lemma remove1_nth: "i < length xs \<Longrightarrow> distinct xs \<Longrightarrow> remove1 (xs ! i) xs = take i xs @ drop (Suc i) xs"
  by (induction xs arbitrary: i) (auto simp: nth_Cons split: nat.splits)

lemma ready_seg_id: "ready_seg s ps xs \<Longrightarrow> i < length xs \<Longrightarrow> rnodes s (ps ! i) = Some n \<Longrightarrow> tid_of s n = Ret (xs ! i)"
  unfolding ready_seg_def by (metis nth_mem option.inject seg_length seg_nodes tid_of_ok)

lemma rqI:
  assumes "ready_seg s ps xs" "rsame s s'" "seg (rnodes s') None (ReadyList s') ps' xs' (endOfReady s') None" "distinct xs'" "set xs' \<subseteq> set xs"
  shows "rq s' xs'"
  using assms rsame_ids [OF assms(2)] unfolding rq_def ready_seg_def ids_ok_def by blast

text \<open>Unlinking the thread at position \<^verbatim>\<open>i\<close>: the head, the end, the middle.\<close>

lemma unlink_head:
  assumes r: "ready_seg s ps (x # xs)"
  obtains s' where "unlink_ready x po s = Ret s'" "rq s' xs" "rsame s s'" "\<And>p. rnodes s p = None \<Longrightarrow> rnodes s' p = None"
proof -
  have sg: "seg (rnodes s) None (ReadyList s) ps (x # xs) (endOfReady s) None" and d: "distinct (x # xs)" using r by (auto simp: ready_seg_def)
  obtain q qs n where q: "ps = q # qs" "rnodes s q = Some n" "ReadyList s = Some q" using sg by (auto simp: seg_Cons)
  note pop = seg_pop [OF sg [unfolded q(1)] d q(2)]
  have hid: "tid_of s n = Ret x" using ready_seg_id [OF r, of 0 n] q by simp
  show ?thesis
  proof (cases "xs = []")
    case True
    let ?s = "s\<lparr>ReadyList := None, endOfReady := None, rnodes := (rnodes s)(q := None)\<rparr>"
    have run: "unlink_ready x po s = Ret ?s" using q hid pop(1) [OF True] by (simp add: unlink_ready_def)
    have "rsame s ?s" "rq ?s xs" using True by (simp_all add: rsame_def rq_def ready_seg_def ids_ok_def)
    with run show ?thesis by (rule_tac that [of ?s]) simp_all
  next
    case False
    obtain r rn where rr: "q_next n = Some r" "rnodes s r = Some rn"
      "seg (((rnodes s)(r \<mapsto> rn\<lparr>q_prv := None\<rparr>))(q := None)) None (Some r) qs xs (endOfReady s) None"
      using pop(4) [OF False] by blast
    let ?s = "s\<lparr>ReadyList := Some r, rnodes := ((rnodes s)(r \<mapsto> rn\<lparr>q_prv := None\<rparr>))(q := None)\<rparr>"
    have run: "unlink_ready x po s = Ret ?s" using q hid rr by (simp add: unlink_ready_def)
    have sm: "rsame s ?s" by (simp add: rsame_def)
    have "rq ?s xs" using rr(3) d by (intro rqI [OF assms sm, where ps' = qs]) auto
    with run sm show ?thesis using rr(2) by (rule_tac that [of ?s]) auto
  qed
qed

lemma ready_head_id:
  assumes "ready_seg s ps (x # xs)"
  obtains q n where "ReadyList s = Some q" "rnodes s q = Some n" "tid_of s n = Ret x" "q_node n = x"
proof -
  have sg: "seg (rnodes s) None (ReadyList s) ps (x # xs) (endOfReady s) None" using assms by (auto simp: ready_seg_def)
  then obtain q qs n where q: "ps = q # qs" "rnodes s q = Some n" "ReadyList s = Some q" "q_node n = x" by (auto simp: seg_Cons)
  with ready_seg_id [OF assms, of 0 n] that show ?thesis by simp
qed

lemma unlink_end:
  assumes r: "ready_seg s ps (xs @ [x])" and ne: "xs \<noteq> []"
  obtains s' where "unlink_ready x po s = Ret s'" "rq s' xs" "rsame s s'" "\<And>p. rnodes s p = None \<Longrightarrow> rnodes s' p = None"
proof -
  obtain y ys where y: "xs = y # ys" using ne by (cases xs) auto
  have sg: "seg (rnodes s) None (ReadyList s) ps (xs @ [x]) (endOfReady s) None" and d: "distinct (xs @ [x])"
    and ids: "ids_ok s (set (xs @ [x]))" using r by (auto simp: ready_seg_def)
  obtain q n where hd: "ReadyList s = Some q" "rnodes s q = Some n" "tid_of s n = Ret y"
    by (rule ready_head_id [OF r [unfolded y append_Cons]])
  have "ps \<noteq> []" using seg_length [OF sg] by auto
  then obtain qs m where ps: "ps = qs @ [m]" by (metis append_butlast_last_id)
  obtain b bn k where b: "endOfReady s = Some m" "rnodes s m = Some \<lparr>q_node = x, q_prv = Some b, q_next = k\<rparr>" "rnodes s b = Some bn"
    "seg (((rnodes s)(b \<mapsto> bn\<lparr>q_next := None\<rparr>))(m := None)) None (ReadyList s) qs xs (Some b) None"
    using seg_drop_end [OF sg [unfolded ps] d ne] by blast
  let ?s = "s\<lparr>endOfReady := Some b, rnodes := ((rnodes s)(b \<mapsto> bn\<lparr>q_next := None\<rparr>))(m := None)\<rparr>"
  have eid: "tid_of s \<lparr>q_node = x, q_prv = Some b, q_next = k\<rparr> = Ret x" using tid_of_ok [OF ids] by simp
  have run: "unlink_ready x po s = Ret ?s" using hd b eid d y by (simp add: unlink_ready_def)
  have sm: "rsame s ?s" by (simp add: rsame_def)
  have "rq ?s xs" using b(4) d by (intro rqI [OF r sm, where ps' = qs]) auto
  with run sm show ?thesis using b(3) by (rule_tac that [of ?s]) auto
qed

lemma unlink_mid:
  assumes r: "ready_seg s ps (xs @ x # ys)" and ne: "xs \<noteq> []" "ys \<noteq> []" and m: "ps ! length xs = m"
  obtains s' where "unlink_ready x (Some m) s = Ret s'" "rq s' (xs @ ys)" "rsame s s'" "\<And>p. rnodes s p = None \<Longrightarrow> rnodes s' p = None"
proof -
  obtain y zs where y: "xs = y # zs" using ne by (cases xs) auto
  have sg: "seg (rnodes s) None (ReadyList s) ps (xs @ x # ys) (endOfReady s) None" and d: "distinct (xs @ x # ys)"
    using r by (auto simp: ready_seg_def)
  obtain q n where hd: "ReadyList s = Some q" "rnodes s q = Some n" "tid_of s n = Ret y"
    by (rule ready_head_id [OF r [unfolded y append_Cons]])
  define qs rs where "qs = take (length xs) ps" and "rs = drop (Suc (length xs)) ps"
  have len: "length ps = length xs + Suc (length ys)" using seg_length [OF sg] by simp
  then have ps: "ps = qs @ m # rs" "length qs = length xs" using m by (auto simp: qs_def rs_def id_take_nth_drop)
  have pne: "ps \<noteq> []" using ps by simp
  obtain en where en: "endOfReady s = Some (last ps)" "rnodes s (last ps) = Some en" "q_node en = last ys"
    using seg_last [OF sg pne] ne(2) by auto
  have eid: "tid_of s en = Ret (last ys)" using ready_seg_id [OF r, of "length ps - 1" en] en(2) len ne(2)
    by (simp add: last_conv_nth pne nth_append)
  have xl: "x \<noteq> last ys" "x \<noteq> y" using d ne(2) y last_in_set [OF ne(2)] by auto
  obtain b bn a an where b: "rnodes s m = Some \<lparr>q_node = x, q_prv = Some b, q_next = Some a\<rparr>" "rnodes s b = Some bn" "rnodes s a = Some an" "a \<noteq> b"
    "seg (((rnodes s)(b \<mapsto> bn\<lparr>q_next := Some a\<rparr>, a \<mapsto> an\<lparr>q_prv := Some b\<rparr>))(m := None)) None (ReadyList s) (qs @ rs) (xs @ ys) (endOfReady s) None"
    using seg_drop_mid [OF sg [unfolded ps(1)] ps(2) d ne] by blast
  let ?s = "s\<lparr>rnodes := ((rnodes s)(b \<mapsto> bn\<lparr>q_next := Some a\<rparr>, a \<mapsto> an\<lparr>q_prv := Some b\<rparr>))(m := None)\<rparr>"
  have run: "unlink_ready x (Some m) s = Ret ?s" using hd en eid b xl by (simp add: unlink_ready_def)
  have sm: "rsame s ?s" by (simp add: rsame_def)
  have "rq ?s (xs @ ys)" using b(5) d by (intro rqI [OF r sm, where ps' = "qs @ rs"]) auto
  with run sm show ?thesis using b(2,3) by (rule_tac that [of ?s]) auto
qed

lemma unlink_ready_ok:
  assumes r: "ready_seg s ps xs" and i: "i < length xs" and po: "i = 0 \<or> Suc i = length xs \<or> po = Some (ps ! i)"
  obtains s' where "unlink_ready (xs ! i) po s = Ret s'" "rq s' (remove1 (xs ! i) xs)" "rsame s s'"
    "\<And>p. rnodes s p = None \<Longrightarrow> rnodes s' p = None"
proof -
  have d: "distinct xs" using r by (simp add: ready_seg_def)
  let ?a = "take i xs" and ?b = "drop (Suc i) xs"
  have xs: "xs = ?a @ xs ! i # ?b" using i by (simp add: id_take_nth_drop)
  note rem = remove1_nth [OF i d]
  consider "i = 0" | "i \<noteq> 0" "?b = []" | "i \<noteq> 0" "?b \<noteq> []" by blast
  then show ?thesis
  proof cases
    case 1
    then have "ready_seg s ps (xs ! i # ?b)" using r xs by simp
    from unlink_head [OF this] show ?thesis using that rem 1 by (metis append_Nil take_0)
  next
    case 2
    then have "ready_seg s ps (?a @ [xs ! i])" "?a \<noteq> []" using r xs i by auto
    from unlink_end [OF this] show ?thesis using that rem 2(2) by (metis append_Nil2)
  next
    case 3
    then have *: "ready_seg s ps (?a @ xs ! i # ?b)" "?a \<noteq> []" "po = Some (ps ! i)" "length ?a = i" using r xs i po by auto
    from unlink_mid [OF *(1,2) 3(2), of "ps ! i"] show ?thesis using that rem *(3,4) by metis
  qed
qed

lemma find_seg:
  assumes "seg (rnodes s) pv p ps xs e None" "ids_ok s (set xs)" "length xs < n"
  shows "find_ready n s want p = Ret (if want \<in> set xs then Some (ps ! (LEAST i. xs ! i = want)) else None)"
  using assms
proof (induction xs arbitrary: ps pv p n)
  case Nil
  then show ?case by (cases n) auto
next
  case (Cons x xs)
  obtain m where n: "n = Suc m" "length xs < m" using Cons.prems(3) by (cases n) auto
  obtain q qs r where q: "ps = q # qs" "p = Some q" "rnodes s q = Some \<lparr>q_node = x, q_prv = pv, q_next = r\<rparr>"
    "seg (rnodes s) (Some q) r qs xs e None" using Cons.prems(1) by (auto simp: seg_Cons)
  have x: "tid_of s \<lparr>q_node = x, q_prv = pv, q_next = r\<rparr> = Ret x" using tid_of_ok [OF Cons.prems(2)] by simp
  have ih: "find_ready m s want r = Ret (if want \<in> set xs then Some (qs ! (LEAST i. xs ! i = want)) else None)"
    using Cons.IH [OF q(4) _ n(2)] Cons.prems(2) by (simp add: ids_ok_def)
  show ?case
  proof (cases "x = want")
    case True
    then have "(LEAST i. (x # xs) ! i = want) = 0" by (intro Least_eq_0) simp
    then show ?thesis using True q n x by simp
  next
    case False
    have "(LEAST i. (x # xs) ! i = want) = Suc (LEAST i. xs ! i = want)" if w: "want \<in> set xs"
    proof -
      obtain k where k: "xs ! k = want" using w by (metis in_set_conv_nth)
      show ?thesis using Least_Suc [of "\<lambda>i. (x # xs) ! i = want" "Suc k"] k False by simp
    qed
    then show ?thesis using False q n x ih by simp
  qed
qed

lemma find_ready_ok:
  assumes r: "ready_seg s ps xs"
  shows "want \<notin> set xs \<Longrightarrow> find_ready LIST_FUEL s want (ReadyList s) = Ret None"
    "i < length xs \<Longrightarrow> xs ! i = want \<Longrightarrow> find_ready LIST_FUEL s want (ReadyList s) = Ret (Some (ps ! i))"
proof -
  have sg: "seg (rnodes s) None (ReadyList s) ps xs (endOfReady s) None" and d: "distinct xs" "ids_ok s (set xs)"
    using r by (auto simp: ready_seg_def)
  have len: "length xs < LIST_FUEL" using ids_ok_length [OF d(2,1)] by (simp add: LIST_FUEL_def)
  note f = find_seg [OF sg d(2) len, of want]
  show "want \<notin> set xs \<Longrightarrow> find_ready LIST_FUEL s want (ReadyList s) = Ret None" using f by simp
  assume i: "i < length xs" "xs ! i = want"
  have "xs ! (LEAST i. xs ! i = want) = want" "(LEAST i. xs ! i = want) \<le> i"
    using LeastI [of "\<lambda>i. xs ! i = want" i] Least_le [of "\<lambda>i. xs ! i = want" i] i by auto
  then have "(LEAST i. xs ! i = want) = i" using nth_eq_iff_index_eq [OF d(1), of "LEAST i. xs ! i = want" i] i by auto
  then show "find_ready LIST_FUEL s want (ReadyList s) = Ret (Some (ps ! i))" using f i nth_mem [OF i(1)] by simp
qed

definition heap_fresh :: "tsys \<Rightarrow> bool" where
  "heap_fresh s \<longleftrightarrow> (\<forall>p \<ge> brk s. rnodes s p = None \<and> wnodes s p = None \<and> wqs s p = None \<and> locks s p = None \<and> cvs s p = None)"

text \<open>A node is made, the thread changed and the node put at the end of the ready list.\<close>

lemma ids_ok_tset:
  assumes "ids_ok s X" "threadID t = threadID (total s ! nat i)" "0 \<le> i"
  shows "ids_ok (tset s i t) X"
  using assms by (cases "nat i < length (total s)") (auto simp: ids_ok_def nth_list_update list_update_beyond)

lemma ready_seg_tset:
  assumes "ready_seg s ps xs" "threadID t = threadID (total s ! nat i)" "0 \<le> i"
  shows "ready_seg (tset s i t) ps xs"
  using assms ids_ok_tset by (auto simp: ready_seg_def)

lemma rq_tset: "rq s xs \<Longrightarrow> threadID t = threadID (total s ! nat i) \<Longrightarrow> 0 \<le> i \<Longrightarrow> rq (tset s i t) xs"
  unfolding rq_def by (blast intro: ready_seg_tset)

lemma buildNodeRL_ok:
  assumes r: "ready_seg s ps xs" and f: "heap_fresh s" and m: "mem_ok s (brk s)"
  obtains s' where "buildNodeRL x s = Ret (brk s, s')" "ready_seg s' ps xs" "rsame (s\<lparr>brk := Suc (brk s)\<rparr>) s'"
    "rnodes s' = (rnodes s)(brk s \<mapsto> \<lparr>q_node = x, q_prv = None, q_next = None\<rparr>)" "ReadyList s' = ReadyList s" "heap_fresh s'"
proof -
  let ?n = "\<lparr>q_node = x, q_prv = None, q_next = None\<rparr>"
  let ?s = "s\<lparr>brk := Suc (brk s), rnodes := (rnodes s)(brk s \<mapsto> ?n)\<rparr>"
  have b: "buildNodeRL x s = Ret (brk s, ?s)" using m by (simp add: buildNodeRL_def t_malloc_def)
  have fr: "rnodes s (brk s) = None" using f by (simp add: heap_fresh_def)
  have "brk s \<notin> set ps" using r fr seg_ids [of "rnodes s" None "ReadyList s" ps xs "endOfReady s" None "brk s"] by (auto simp: ready_seg_def)
  then have "ready_seg ?s ps xs"
    using r unfolding ready_seg_def ids_ok_def by (auto intro: seg_frame)
  then show ?thesis using b f by (rule_tac that [of ?s]) (auto simp: rsame_def heap_fresh_def)
qed

lemma deleteNode_head_ok:
  assumes r: "rq s (x # xs)"
  obtains q n s' where "ReadyList s = Some q" "rnodes s q = Some n" "q_node n = x" "deleteNode q s = Ret s'" "rq s' xs" "rsame s s'"
    "\<And>p. rnodes s p = None \<Longrightarrow> rnodes s' p = None"
proof -
  obtain ps where ps: "ready_seg s ps (x # xs)" using r by (auto simp: rq_def)
  obtain q n where q: "ReadyList s = Some q" "rnodes s q = Some n" "tid_of s n = Ret x" "q_node n = x" by (rule ready_head_id [OF ps])
  obtain s' where "unlink_ready x (Some q) s = Ret s'" "rq s' xs" "rsame s s'" "\<And>p. rnodes s p = None \<Longrightarrow> rnodes s' p = None"
    by (rule unlink_head [OF ps]) blast
  with q show ?thesis by (rule_tac that [of q n s']) (simp_all add: deleteNode_def)
qed

lemma heap_fresh_rsame:
  assumes "heap_fresh s" "rsame s s'" "\<And>p. rnodes s p = None \<Longrightarrow> rnodes s' p = None"
  shows "heap_fresh s'"
  using assms unfolding heap_fresh_def rsame_def by auto

section \<open>The wait queues refine lists of threads\<close>

definition wq :: "tsys \<Rightarrow> nat \<Rightarrow> tid list \<Rightarrow> bool" where
  "wq s q xs \<longleftrightarrow> (\<exists>w. wqs s q = Some w \<and> dll (wnodes s) (head w) (tail w) xs) \<and> ids_ok s (set xs)"

text \<open>Two states that differ in the wait queue \<^verbatim>\<open>q\<close> and in nodes of the threads \<^verbatim>\<open>X\<close> only.\<close>

definition wsame :: "nat \<Rightarrow> tid set \<Rightarrow> tsys \<Rightarrow> tsys \<Rightarrow> bool" where
  "wsame q X s s' \<longleftrightarrow> total s' = total s \<and> currentThread s' = currentThread s \<and> rnodes s' = rnodes s \<and> ReadyList s' = ReadyList s \<and>
     endOfReady s' = endOfReady s \<and> locks s' = locks s \<and> cvs s' = cvs s \<and> brk s' = brk s \<and> mem_ok s' = mem_ok s \<and>
     addr s' = addr s \<and> intr s' = intr s \<and> past_end s' = past_end s \<and> exited s' = exited s \<and> tout s' = tout s \<and>
     (\<forall>k. k \<noteq> q \<longrightarrow> wqs s' k = wqs s k) \<and> (wqs s' q = None \<longleftrightarrow> wqs s q = None) \<and> keeps (wnodes s) (wnodes s') X"

lemma wq_distinct: "wq s q xs \<Longrightarrow> distinct xs"
  by (auto simp: wq_def dll_def)

lemma wsame_rq: "wsame q X s s' \<Longrightarrow> rq s' xs = rq s xs"
  by (simp add: wsame_def rq_def ready_seg_def ids_ok_def)

lemma wsame_wq: "wsame q X s s' \<Longrightarrow> wq s k ys \<Longrightarrow> k \<noteq> q \<Longrightarrow> set ys \<inter> X = {} \<Longrightarrow> wq s' k ys"
  by (auto simp: wsame_def wq_def ids_ok_def intro: dll_keeps)

lemma rsame_wq: "rsame s s' \<Longrightarrow> wq s' k ys = wq s k ys"
  by (simp add: rsame_def wq_def ids_ok_def)

lemma wq_tset: "wq s q xs \<Longrightarrow> threadID t = threadID (total s ! nat i) \<Longrightarrow> 0 \<le> i \<Longrightarrow> wq (tset s i t) q xs"
  using ids_ok_tset by (auto simp: wq_def)

lemma last_wait_ok:
  assumes "seg (wnodes s) pv (Some p) ps xs e None" "length xs \<le> n"
  shows "last_wait n s p = Ret (last ps)"
  using assms
proof (induction xs arbitrary: ps pv p n)
  case (Cons x xs)
  obtain m where n: "n = Suc m" "length xs \<le> m" using Cons.prems(2) by (cases n) auto
  obtain qs r where q: "ps = p # qs" "wnodes s p = Some \<lparr>q_node = x, q_prv = pv, q_next = r\<rparr>"
    "seg (wnodes s) (Some p) r qs xs e None" using Cons.prems(1) by (auto simp: seg_Cons)
  show ?case
  proof (cases r)
    case None
    then have "qs = []" using q(3) by (cases qs; cases xs) auto
    then show ?thesis using q n None by simp
  next
    case (Some k)
    then have "qs \<noteq> []" "last_wait m s k = Ret (last qs)" using q(3) Cons.IH [of "Some p" k qs m] n(2) by auto
    then show ?thesis using q n Some by simp
  qed
qed simp

lemma pushbackWQ_ok:
  assumes w: "wq s q xs" and x: "ids_ok s {x}" "x \<notin> set xs" and n: "wnodes s p = Some n" "q_node n = x"
  obtains s' where "pushbackWQ q p s = Ret s'" "wq s' q (xs @ [x])" "wsame q (set (xs @ [x])) s s'"
    "\<And>k. wnodes s k = None \<Longrightarrow> wnodes s' k = None"
proof -
  obtain wt ps where wt: "wqs s q = Some wt" "seg (wnodes s) None (head wt) ps xs (tail wt) None" "distinct xs" "ids_ok s (set xs)"
    using w by (auto simp: wq_def dll_def)
  have ids: "ids_ok s (set (xs @ [x]))" and d: "distinct (xs @ [x])" using wt x by (auto simp: ids_ok_def)
  show ?thesis
  proof (cases "xs = []")
    case True
    let ?h = "(wnodes s)(p \<mapsto> n\<lparr>q_prv := None, q_next := None\<rparr>)"
    let ?s = "s\<lparr>wnodes := ?h, wqs := (wqs s)(q \<mapsto> \<lparr>head = Some p, tail = Some p\<rparr>)\<rparr>"
    have run: "pushbackWQ q p s = Ret ?s" using wt True n by (simp add: pushbackWQ_def)
    have "dll ?h (Some p) (Some p) [x]" unfolding dll_def using seg_push(1) [OF wt(2,3) x(2) n True] by (intro conjI exI [of _ "[p]"]) simp_all
    then have "wq ?s q (xs @ [x])" using True ids by (simp add: wq_def ids_ok_def)
    moreover have "wsame q (set (xs @ [x])) s ?s" using n wt(1) by (auto simp: wsame_def keeps_def)
    ultimately show ?thesis using run n by (rule_tac that [of ?s]) auto
  next
    case False
    have ne: "ps \<noteq> []" using False seg_length [OF wt(2)] by auto
    obtain hp where hp: "head wt = Some hp" using wt(2) ne by (cases ps; cases xs) auto
    have len: "length xs \<le> LIST_FUEL" using ids_ok_length [OF wt(4,3)] by (simp add: LIST_FUEL_def)
    obtain l ln where l: "tail wt = Some l" "wnodes s l = Some ln" "l \<noteq> p" "q_node ln \<in> set xs"
      "seg ((wnodes s)(l \<mapsto> ln\<lparr>q_next := Some p\<rparr>, p \<mapsto> n\<lparr>q_prv := Some l, q_next := None\<rparr>)) None (head wt) (ps @ [p]) (xs @ [x]) (Some p) None"
      using seg_push(2) [OF wt(2,3) x(2) n False] by blast
    have "last ps = l" using seg_last(1) [OF wt(2) ne] l(1) by simp
    then have lw: "last_wait LIST_FUEL s hp = Ret l" using last_wait_ok [OF _ len, of s None hp ps "tail wt"] wt(2) hp by simp
    let ?h = "(wnodes s)(l \<mapsto> ln\<lparr>q_next := Some p\<rparr>, p \<mapsto> n\<lparr>q_prv := Some l, q_next := None\<rparr>)"
    let ?s = "s\<lparr>wnodes := ?h, wqs := (wqs s)(q \<mapsto> wt\<lparr>tail := Some p\<rparr>)\<rparr>"
    have run: "pushbackWQ q p s = Ret ?s" using wt hp lw l n by (simp add: pushbackWQ_def)
    have "dll ?h (head wt) (Some p) (xs @ [x])" unfolding dll_def using l(5) d by blast
    then have "wq ?s q (xs @ [x])" using ids by (simp add: wq_def ids_ok_def)
    moreover have "wsame q (set (xs @ [x])) s ?s" using n wt(1) l by (auto simp: wsame_def keeps_def)
    ultimately show ?thesis using run n l by (rule_tac that [of ?s]) auto
  qed
qed

lemma deleteNodewq_ok:
  assumes w: "wq s q (x # xs)"
  obtains wt p s' where "wqs s q = Some wt" "head wt = Some p" "deleteNodewq q (Some p) s = Ret (x, s')" "wq s' q xs"
    "wsame q (set (x # xs)) s s'" "\<And>k. wnodes s k = None \<Longrightarrow> wnodes s' k = None"
proof -
  obtain wt ps where wt: "wqs s q = Some wt" "seg (wnodes s) None (head wt) ps (x # xs) (tail wt) None" "distinct (x # xs)" "ids_ok s (set (x # xs))"
    using w by (auto simp: wq_def dll_def)
  obtain p qs n where p: "ps = p # qs" "head wt = Some p" "wnodes s p = Some n" "q_node n = x" using wt(2) by (auto simp: seg_Cons)
  have tid: "tid_of s n = Ret x" using tid_of_ok [OF wt(4)] p(4) by simp
  note pop = seg_pop [OF wt(2) [unfolded p(1)] wt(3) p(3)]
  have ids: "ids_ok s (set xs)" using wt(4) by (simp add: ids_ok_def)
  show ?thesis
  proof (cases "xs = []")
    case True
    let ?s = "s\<lparr>wqs := (wqs s)(q \<mapsto> \<lparr>head = None, tail = None\<rparr>), wnodes := (wnodes s)(p := None)\<rparr>"
    have "deleteNodewq q (Some p) s = Ret (x, ?s)" using wt(1) p tid pop(1) [OF True] by (simp add: deleteNodewq_def)
    moreover have "wq ?s q xs" using True by (simp add: wq_def ids_ok_def)
    moreover have "wsame q (set (x # xs)) s ?s" using p wt(1) by (auto simp: wsame_def keeps_def)
    ultimately show ?thesis using wt(1) p by (rule_tac that [of wt p ?s]) auto
  next
    case False
    obtain r rn where rr: "q_next n = Some r" "wnodes s r = Some rn" "r \<noteq> p" "q_node rn \<in> set xs"
      "seg (((wnodes s)(r \<mapsto> rn\<lparr>q_prv := None\<rparr>))(p := None)) None (Some r) qs xs (tail wt) None"
      using pop(4) [OF False] by blast
    let ?h = "((wnodes s)(r \<mapsto> rn\<lparr>q_prv := None\<rparr>))(p := None)"
    let ?s = "s\<lparr>wqs := (wqs s)(q \<mapsto> wt\<lparr>head := Some r\<rparr>), wnodes := ?h\<rparr>"
    have "deleteNodewq q (Some p) s = Ret (x, ?s)" using wt(1) p tid rr by (simp add: deleteNodewq_def)
    moreover have "dll ?h (Some r) (tail wt) xs" unfolding dll_def using rr(5) wt(3) by auto
    then have "wq ?s q xs" using ids by (simp add: wq_def ids_ok_def)
    moreover have "wsame q (set (x # xs)) s ?s" using p wt(1) rr by (auto simp: wsame_def keeps_def)
    ultimately show ?thesis using wt(1) p rr by (rule_tac that [of wt p ?s]) auto
  qed
qed

lemma wq_head: "wq s q xs \<Longrightarrow> \<exists>w. wqs s q = Some w \<and> (head w = None \<longleftrightarrow> xs = [])"
  by (auto simp: wq_def dest: dll_head_iff)

section \<open>The interface of a first-in first-out queue\<close>

text \<open>What the scheduler and the synchronisation operations rely on.\<close>

primrec push_all :: "('a \<Rightarrow> 's \<Rightarrow> 's res) \<Rightarrow> 'a list \<Rightarrow> 's \<Rightarrow> 's res" where
  "push_all push [] s = Ret s"
| "push_all push (x # xs) s = bnd (push x s) (\<lambda>s1. push_all push xs s1)"

primrec pop_n :: "('s \<Rightarrow> ('a \<times> 's) res) \<Rightarrow> nat \<Rightarrow> 's \<Rightarrow> ('a list \<times> 's) res" where
  "pop_n pop 0 s = Ret ([], s)"
| "pop_n pop (Suc n) s = bnd (pop s) (\<lambda>(x, s1). bnd (pop_n pop n s1) (\<lambda>(xs, s2). Ret (x # xs, s2)))"

locale fifo =
  fixes rep :: "'s \<Rightarrow> 'a list \<Rightarrow> bool" and valid :: "'s \<Rightarrow> 'a \<Rightarrow> bool"
    and push :: "'a \<Rightarrow> 's \<Rightarrow> 's res" and pop :: "'s \<Rightarrow> ('a \<times> 's) res"
  assumes push_law: "rep s xs \<Longrightarrow> valid s x \<Longrightarrow> x \<notin> set xs \<Longrightarrow> \<exists>s'. push x s = Ret s' \<and> rep s' (xs @ [x]) \<and> valid s' = valid s"
    and pop_law: "rep s (x # xs) \<Longrightarrow> \<exists>s'. pop s = Ret (x, s') \<and> rep s' xs \<and> valid s' = valid s"
begin

lemma push_all_law:
  "rep s xs \<Longrightarrow> distinct (xs @ ys) \<Longrightarrow> (\<And>y. y \<in> set ys \<Longrightarrow> valid s y) \<Longrightarrow> \<exists>s'. push_all push ys s = Ret s' \<and> rep s' (xs @ ys)"
proof (induction ys arbitrary: s xs)
  case (Cons y ys)
  obtain s1 where s1: "push y s = Ret s1" "rep s1 (xs @ [y])" "valid s1 = valid s"
    using push_law [OF Cons.prems(1), of y] Cons.prems(2,3) by auto
  have "\<exists>s'. push_all push ys s1 = Ret s' \<and> rep s' ((xs @ [y]) @ ys)"
    using Cons.prems s1 by (intro Cons.IH) auto
  then show ?case using s1(1) by simp
qed simp

lemma pop_n_law: "rep s (xs @ ys) \<Longrightarrow> \<exists>s'. pop_n pop (length xs) s = Ret (xs, s') \<and> rep s' ys"
proof (induction xs arbitrary: s)
  case (Cons x xs)
  obtain s1 where s1: "pop s = Ret (x, s1)" "rep s1 (xs @ ys)" using pop_law [of s x "xs @ ys"] Cons.prems by auto
  then show ?case using Cons.IH [OF s1(2)] by auto
qed simp

lemma first_in_first_out:
  assumes "rep s xs" "distinct (xs @ ys)" "\<And>y. y \<in> set ys \<Longrightarrow> valid s y"
  shows "\<exists>s1 s2. push_all push ys s = Ret s1 \<and> pop_n pop (length xs + length ys) s1 = Ret (xs @ ys, s2) \<and> rep s2 []"
proof -
  obtain s1 where s1: "push_all push ys s = Ret s1" "rep s1 (xs @ ys)" using push_all_law [OF assms] by blast
  then obtain s2 where "pop_n pop (length (xs @ ys)) s1 = Ret (xs @ ys, s2)" "rep s2 []" using pop_n_law [of s1 "xs @ ys" "[]"] by auto
  with s1 show ?thesis by auto
qed

end

text \<open>The ready list: a thread is put at the end and the head is taken, as by \<^verbatim>\<open>thread_sleep\<close>.\<close>

definition push_ready :: "tid \<Rightarrow> tsys \<Rightarrow> tsys res" where
  "push_ready x s = bnd (buildNodeRL x s) (\<lambda>(p, s1). pushbackRL p s1)"

definition pop_ready :: "tsys \<Rightarrow> (tid \<times> tsys) res" where
  "pop_ready s =
    bnd (deref (ReadyList s)) (\<lambda>p.
    bnd (deref (rnodes s p)) (\<lambda>n.
    bnd (deleteNode p s) (\<lambda>s1. Ret (q_node n, s1))))"

definition ready_rep :: "tsys \<Rightarrow> tid list \<Rightarrow> bool" where
  "ready_rep s xs \<longleftrightarrow> heap_fresh s \<and> (\<forall>p. mem_ok s p) \<and> rq s xs"

definition valid_tid :: "tsys \<Rightarrow> tid \<Rightarrow> bool" where
  "valid_tid s x \<longleftrightarrow> ids_ok s {x}"

interpretation rl: fifo ready_rep valid_tid push_ready pop_ready
proof
  fix s xs x assume a: "ready_rep s xs" "valid_tid s x" "x \<notin> set xs"
  then obtain ps where r: "ready_seg s ps xs" and f: "heap_fresh s" "mem_ok s (brk s)" by (auto simp: ready_rep_def rq_def)
  obtain s1 where s1: "buildNodeRL x s = Ret (brk s, s1)" "ready_seg s1 ps xs" "rsame (s\<lparr>brk := Suc (brk s)\<rparr>) s1"
    "rnodes s1 = (rnodes s)(brk s \<mapsto> \<lparr>q_node = x, q_prv = None, q_next = None\<rparr>)" "heap_fresh s1"
    by (rule buildNodeRL_ok [OF r f])
  have ids: "ids_ok s1 {x}" using a(2) s1(3) by (simp add: valid_tid_def ids_ok_def rsame_def)
  have nd: "rnodes s1 (brk s) = Some \<lparr>q_node = x, q_prv = None, q_next = None\<rparr>" using s1(4) by simp
  obtain s2 where s2: "pushbackRL (brk s) s1 = Ret s2" "ready_seg s2 (ps @ [brk s]) (xs @ [x])" "rsame s1 s2"
    "\<And>p. p \<noteq> brk s \<Longrightarrow> rnodes s1 p = None \<Longrightarrow> rnodes s2 p = None"
    by (rule pushbackRL_ok [OF s1(2) ids a(3) nd]) auto
  have "heap_fresh s2" using s1(3,5) s2(3,4) by (auto simp: heap_fresh_def rsame_def)
  then have "ready_rep s2 (xs @ [x])" using s2(2,3) s1(3) a(1) by (auto simp: ready_rep_def rq_def rsame_def)
  moreover have "valid_tid s2 = valid_tid s" using s1(3) s2(3) by (simp add: fun_eq_iff valid_tid_def ids_ok_def rsame_def)
  ultimately show "\<exists>s'. push_ready x s = Ret s' \<and> ready_rep s' (xs @ [x]) \<and> valid_tid s' = valid_tid s"
    using s1(1) s2(1) by (simp add: push_ready_def)
next
  fix s x xs assume a: "ready_rep s (x # xs)"
  obtain q n s' where d: "ReadyList s = Some q" "rnodes s q = Some n" "q_node n = x" "deleteNode q s = Ret s'" "rq s' xs" "rsame s s'"
    "\<And>p. rnodes s p = None \<Longrightarrow> rnodes s' p = None"
    by (rule deleteNode_head_ok [of s x xs]) (use a in \<open>auto simp: ready_rep_def\<close>)
  then have "ready_rep s' xs" using a heap_fresh_rsame [OF _ d(6,7)] by (auto simp: ready_rep_def rsame_def)
  moreover have "valid_tid s' = valid_tid s" using d(6) by (simp add: fun_eq_iff valid_tid_def ids_ok_def rsame_def)
  ultimately show "\<exists>s'. pop_ready s = Ret (x, s') \<and> ready_rep s' xs \<and> valid_tid s' = valid_tid s"
    using d by (simp add: pop_ready_def)
qed

text \<open>A wait queue: \<^verbatim>\<open>thread_sleep\<close> puts a thread at the end, \<^verbatim>\<open>thread_wakeup\<close> takes the head.\<close>

definition push_wait :: "nat \<Rightarrow> tid \<Rightarrow> tsys \<Rightarrow> tsys res" where
  "push_wait q x s = bnd (buildNodeWQ x s) (\<lambda>(p, s1). pushbackWQ q p s1)"

definition pop_wait :: "nat \<Rightarrow> tsys \<Rightarrow> (tid \<times> tsys) res" where
  "pop_wait q s = bnd (deref (wqs s q)) (\<lambda>w. deleteNodewq q (head w) s)"

definition wait_rep :: "nat \<Rightarrow> tsys \<Rightarrow> tid list \<Rightarrow> bool" where
  "wait_rep q s xs \<longleftrightarrow> heap_fresh s \<and> (\<forall>p. mem_ok s p) \<and> wq s q xs"

lemma buildNodeWQ_ok:
  assumes f: "heap_fresh s" and m: "mem_ok s (brk s)"
  obtains s' where "buildNodeWQ x s = Ret (brk s, s')" "\<And>q xs. wq s q xs \<Longrightarrow> wq s' q xs"
    "s' = s\<lparr>brk := Suc (brk s), wnodes := (wnodes s)(brk s \<mapsto> \<lparr>q_node = x, q_prv = None, q_next = None\<rparr>)\<rparr>" "heap_fresh s'"
proof -
  let ?s = "s\<lparr>brk := Suc (brk s), wnodes := (wnodes s)(brk s \<mapsto> \<lparr>q_node = x, q_prv = None, q_next = None\<rparr>)\<rparr>"
  have "wnodes s (brk s) = None" using f by (simp add: heap_fresh_def)
  then have "keeps (wnodes s) (wnodes ?s) {}" by (auto simp: keeps_def)
  then have "wq ?s q xs" if "wq s q xs" for q xs using that dll_keeps by (fastforce simp: wq_def ids_ok_def)
  moreover have "heap_fresh ?s" using f by (auto simp: heap_fresh_def)
  ultimately show ?thesis using m by (rule_tac that [of ?s]) (simp_all add: buildNodeWQ_def t_malloc_def)
qed

lemma heap_fresh_wsame:
  assumes "heap_fresh s" "wsame q X s s'" "\<And>k. wnodes s k = None \<Longrightarrow> wnodes s' k = None"
  shows "heap_fresh s'"
  unfolding heap_fresh_def
proof (intro allI impI)
  fix p assume p: "brk s' \<le> p"
  then have "brk s \<le> p" using assms(2) by (simp add: wsame_def)
  then have "rnodes s p = None \<and> wnodes s p = None \<and> wqs s p = None \<and> locks s p = None \<and> cvs s p = None" using assms(1) by (simp add: heap_fresh_def)
  then show "rnodes s' p = None \<and> wnodes s' p = None \<and> wqs s' p = None \<and> locks s' p = None \<and> cvs s' p = None"
    using assms(2,3) by (cases "p = q") (auto simp: wsame_def)
qed

interpretation wl: fifo "wait_rep q" valid_tid "push_wait q" "pop_wait q" for q
proof
  fix s xs x assume a: "wait_rep q s xs" "valid_tid s x" "x \<notin> set xs"
  then have f: "heap_fresh s" "mem_ok s (brk s)" "wq s q xs" by (auto simp: wait_rep_def)
  obtain s1 where s1: "buildNodeWQ x s = Ret (brk s, s1)" "\<And>q xs. wq s q xs \<Longrightarrow> wq s1 q xs"
    "s1 = s\<lparr>brk := Suc (brk s), wnodes := (wnodes s)(brk s \<mapsto> \<lparr>q_node = x, q_prv = None, q_next = None\<rparr>)\<rparr>" "heap_fresh s1"
    by (rule buildNodeWQ_ok [OF f(1,2)]) blast
  have ids: "ids_ok s1 {x}" using a(2) s1(3) by (simp add: valid_tid_def ids_ok_def)
  have nd: "wnodes s1 (brk s) = Some \<lparr>q_node = x, q_prv = None, q_next = None\<rparr>" using s1(3) by simp
  obtain s2 where s2: "pushbackWQ q (brk s) s1 = Ret s2" "wq s2 q (xs @ [x])" "wsame q (set (xs @ [x])) s1 s2"
    "\<And>k. wnodes s1 k = None \<Longrightarrow> wnodes s2 k = None"
    by (rule pushbackWQ_ok [OF s1(2) [OF f(3)] ids a(3) nd]) auto
  have "wait_rep q s2 (xs @ [x])"
    using s2(2,3) s1(3) a(1) heap_fresh_wsame [OF s1(4) s2(3,4)] by (simp add: wait_rep_def wsame_def)
  moreover have "valid_tid s2 = valid_tid s" using s1(3) s2(3) by (simp add: fun_eq_iff valid_tid_def ids_ok_def wsame_def)
  ultimately show "\<exists>s'. push_wait q x s = Ret s' \<and> wait_rep q s' (xs @ [x]) \<and> valid_tid s' = valid_tid s"
    using s1(1) s2(1) by (simp add: push_wait_def)
next
  fix s x xs assume a: "wait_rep q s (x # xs)"
  obtain wt p s' where d: "wqs s q = Some wt" "head wt = Some p" "deleteNodewq q (Some p) s = Ret (x, s')" "wq s' q xs"
    "wsame q (set (x # xs)) s s'" "\<And>k. wnodes s k = None \<Longrightarrow> wnodes s' k = None"
    by (rule deleteNodewq_ok [of s q x xs]) (use a in \<open>auto simp: wait_rep_def\<close>)
  then have "wait_rep q s' xs" using a heap_fresh_wsame [OF _ d(5,6)] by (auto simp: wait_rep_def wsame_def)
  moreover have "valid_tid s' = valid_tid s" using d(5) by (simp add: fun_eq_iff valid_tid_def ids_ok_def wsame_def)
  ultimately show "\<exists>s'. pop_wait q s = Ret (x, s') \<and> wait_rep q s' xs \<and> valid_tid s' = valid_tid s"
    using d by (simp add: pop_wait_def)
qed

section \<open>Properties\<close>

text \<open>A process that has done nothing yet, and one whose threads have their identifiers.\<close>

definition boot :: tsys where
  "boot = \<lparr>total = replicate 1024 zero_thread, past_end = zero_thread, currentThread = 0, rnodes = (\<lambda>_. None), ReadyList = None,
     endOfReady = None, wnodes = (\<lambda>_. None), wqs = (\<lambda>_. None), locks = (\<lambda>_. None), cvs = (\<lambda>_. None), brk = 1, mem_ok = (\<lambda>_. True),
     addr = (\<lambda>n. 65536 * int n), intr = True, exited = False, tout = []\<rparr>"

definition numbered :: tsys where
  "numbered = boot\<lparr>total := map (\<lambda>i. zero_thread\<lparr>threadID := int i\<rparr>) [0..<1024], wqs := [0 \<mapsto> \<lparr>head = None, tail = None\<rparr>]\<rparr>"

lemma numbered_valid: "0 \<le> x \<Longrightarrow> x < 1024 \<Longrightarrow> valid_tid numbered x"
  by (simp add: valid_tid_def ids_ok_def numbered_def)

lemma numbered_rep: "ready_rep numbered []" "wait_rep 0 numbered []"
  by (simp_all add: ready_rep_def wait_rep_def heap_fresh_def numbered_def boot_def rq_def ready_seg_def wq_def ids_ok_def)

text \<open>
  C22: the ready list, a doubly linked list of heap nodes between \<^verbatim>\<open>ReadyList\<close> and
  \<^verbatim>\<open>endOfReady\<close>, implements a queue: after any threads have been put into it with
  \<^verbatim>\<open>buildNodeRL\<close> and \<^verbatim>\<open>pushbackRL\<close>, taking heads with \<^verbatim>\<open>deleteNode\<close> gives
  the threads that were there and then the new ones, in the order they came, without a dangling
  access, and leaves it empty.
\<close>

theorem ready_list_is_fifo:
  assumes "ready_rep s xs" "distinct (xs @ ys)" "\<forall>y \<in> set ys. valid_tid s y"
  shows "\<exists>s1 s2. push_all push_ready ys s = Ret s1 \<and> pop_n pop_ready (length xs + length ys) s1 = Ret (xs @ ys, s2) \<and> ready_rep s2 []"
  using rl.first_in_first_out [OF assms(1,2)] assms(3) by blast

theorem ready_list_is_fifo_witness:
  "\<exists>s1 s2. push_all push_ready [3, 1, 2] numbered = Ret s1 \<and> pop_n pop_ready 3 s1 = Ret ([3, 1, 2], s2) \<and> ready_rep s2 []"
  using ready_list_is_fifo [OF numbered_rep(1), of "[3, 1, 2]"] numbered_valid by (simp add: numeral_3_eq_3)

text \<open>
  A wait queue implements a queue as well: threads leave it through \<^verbatim>\<open>deleteNodewq\<close>
  in the order in which \<^verbatim>\<open>pushbackWQ\<close> put them there, which is the order in which they went
  to sleep.
\<close>

theorem wait_queue_is_fifo:
  assumes "wait_rep q s xs" "distinct (xs @ ys)" "\<forall>y \<in> set ys. valid_tid s y"
  shows "\<exists>s1 s2. push_all (push_wait q) ys s = Ret s1 \<and> pop_n (pop_wait q) (length xs + length ys) s1 = Ret (xs @ ys, s2) \<and> wait_rep q s2 []"
  using wl.first_in_first_out [OF assms(1,2)] assms(3) by blast

theorem wait_queue_is_fifo_witness:
  "\<exists>s1 s2. push_all (push_wait 0) [3, 1, 2] numbered = Ret s1 \<and> pop_n (pop_wait 0) 3 s1 = Ret ([3, 1, 2], s2) \<and> wait_rep 0 s2 []"
  using wait_queue_is_fifo [OF numbered_rep(2), of "[3, 1, 2]"] numbered_valid by (simp add: numeral_3_eq_3)

end
