(* ===== verification/Thr_Ops.thy ===== *)
theory Thr_Ops
  imports Thr_Queue
begin

text \<open>
  The operations of the thread library (\<^verbatim>\<open>threads/thread.c\<close>). An operation that may
  switch to another thread takes the frames of its callers, which the saved context needs, and
  returns \<^verbatim>\<open>None\<close> as its value when the calling thread was switched out: control is then
  with the thread \<^verbatim>\<open>currentThread\<close>, whose saved context \<^verbatim>\<open>unwind\<close> and
  \<^verbatim>\<open>dispatch\<close> continue.
\<close>

section \<open>Initialisation and creation\<close>

definition thread_init :: "tsys \<Rightarrow> tsys" where
  "thread_init s =
    (let first = \<lparr>threadID = 0, threadInfo = Ctx_init, wqt = None, status = 1, nextThreadID = - 3,
                  preThreadID = - 3, stack = None, exist = True\<rparr> in
     (tset s 0 first)\<lparr>currentThread := 0, ReadyList := None, endOfReady := None\<rparr>)"

definition thread_id :: "tsys \<Rightarrow> tid" where
  "thread_id s = currentThread s"

text \<open>The search for a free identifier, from 1 on.\<close>

function free_id :: "tsys \<Rightarrow> nat \<Rightarrow> nat option res" where
  "free_id s i =
    (if THREAD_MAX_THREADS \<le> i then Crash Undef
     else if exist (total s ! i) then
       (if i = THREAD_MAX_THREADS - 1 then Ret None else free_id s (Suc i))
     else Ret (Some i))"
  by pat_completeness auto
termination
  by (relation "measure (\<lambda>(s, i). THREAD_MAX_THREADS - i)") auto

declare free_id.simps [simp del]

text \<open>The stack pointer of a new thread; \<^verbatim>\<open>unsigned long\<close> arithmetic.\<close>

definition stack_pointer :: "int \<Rightarrow> int" where
  "stack_pointer a = to_u64 (a - a mod 16 - 8 + THREAD_MIN_STACK)"

text \<open>
  The context is usable once the three registers are set; until then it is \<^verbatim>\<open>Ctx_none\<close>.
  The two failing returns leave interrupts disabled.
\<close>

definition thread_create :: "nat \<Rightarrow> nat \<Rightarrow> tsys \<Rightarrow> (tid \<times> tsys) res" where
  "thread_create fn parg s =
    (let (enabled, s0) = enter s in
     bnd (free_id s0 1) (\<lambda>r.
     case r of
       None \<Rightarrow> Ret (THREAD_NOMORE, s0)
     | Some ID \<Rightarrow>
         bnd (tupd s0 (int ID) (\<lambda>t. t\<lparr>threadID := int ID, exist := True, status := 0, nextThreadID := - 1,
                preThreadID := - 1, wqt := None, threadInfo := Ctx_none\<rparr>)) (\<lambda>s1.
         let (p, s2) = t_malloc s1 in
         bnd (tupd s2 (int ID) (\<lambda>t. t\<lparr>stack := p\<rparr>)) (\<lambda>s3.
         case p of
           None \<Rightarrow> Ret (THREAD_NOMEMORY, s3)
         | Some a \<Rightarrow>
             bnd (tupd s3 (int ID) (\<lambda>t. t\<lparr>threadInfo := Ctx_stub (stack_pointer (addr s3 a)) fn parg\<rparr>)) (\<lambda>s4.
             bnd (buildNodeRL (int ID) s4) (\<lambda>(nd, s5).
             bnd (pushbackRL nd s5) (\<lambda>s6.
             bnd (tget s6 (int ID)) (\<lambda>t.
             Ret (threadID t, leave enabled s6)))))))))"

section \<open>Waking up\<close>

definition make_ready :: "tid \<Rightarrow> tsys \<Rightarrow> tsys res" where
  "make_ready wakeID s =
    bnd (buildNodeRL wakeID s) (\<lambda>(nd, s1).
    bnd (tupd s1 wakeID (\<lambda>t. t\<lparr>status := 0\<rparr>)) (\<lambda>s2.
    pushbackRL nd s2))"

fun wakeup_all :: "nat \<Rightarrow> nat \<Rightarrow> int \<Rightarrow> tsys \<Rightarrow> (int \<times> tsys) res" where
  "wakeup_all 0 q counter s = Crash Diverges"
| "wakeup_all (Suc n) q counter s =
    bnd (deref (wqs s q)) (\<lambda>w.
    case head w of
      None \<Rightarrow> Ret (counter, s)
    | Some p \<Rightarrow>
        bnd (deleteNodewq q (Some p) s) (\<lambda>(wakeID, s1).
        bnd (make_ready wakeID s1) (\<lambda>s2.
        wakeup_all n q (counter + 1) s2)))"

definition thread_wakeup :: "nat option \<Rightarrow> int \<Rightarrow> tsys \<Rightarrow> (int \<times> tsys) res" where
  "thread_wakeup queue all s =
    (let (enabled, s0) = enter s in
     case queue of
       None \<Rightarrow> Ret (0, leave enabled s0)
     | Some q \<Rightarrow>
         bnd (deref (wqs s0 q)) (\<lambda>w.
         if head w = None then Ret (0, leave enabled s0)
         else if all = 0 then
           bnd (deleteNodewq q (head w) s0) (\<lambda>(wakeID, s1).
           bnd (if wakeID = - 1 then Ret (s1\<lparr>tout := tout s1 @ [''shouldn't go here'']\<rparr>)
                else make_ready wakeID s1) (\<lambda>s2.
           Ret (1, leave enabled s2)))
         else if all = 1 then
           bnd (wakeup_all LIST_FUEL q 0 s0) (\<lambda>(counter, s1).
           Ret (counter, leave enabled s1))
         else Ret (0, leave enabled s0)))"

section \<open>Yield and exit\<close>

text \<open>Which thread is next: an error code, or its index and the node of the search.\<close>

definition pick_next :: "tid \<Rightarrow> tsys \<Rightarrow> (tid + tid \<times> nat option) res" where
  "pick_next want_tid s =
    (if want_tid = THREAD_ANY then
       (case ReadyList s of
          None \<Rightarrow> Ret (Inl THREAD_NONE)
        | Some p \<Rightarrow> bnd (deref (rnodes s p)) (\<lambda>n. Ret (Inr (q_node n, None))))
     else if want_tid = THREAD_SELF \<or> want_tid = currentThread s then Ret (Inr (currentThread s, None))
     else
       bnd (find_ready LIST_FUEL s want_tid (ReadyList s)) (\<lambda>iter.
       case iter of
         None \<Rightarrow> Ret (Inl THREAD_INVALID)
       | Some p \<Rightarrow> bnd (deref (rnodes s p)) (\<lambda>n. Ret (Inr (q_node n, Some p)))))"

text \<open>
  \<^verbatim>\<open>thread_yield\<close> calls \<^verbatim>\<open>thread_exit\<close> on behalf of a killed thread while it runs on
  the stack of another one; otherwise a thread runs on its own stack.
\<close>

definition foreign_stack :: "frame list \<Rightarrow> bool" where
  "foreign_stack k = list_ex (\<lambda>f. case f of F_yield_exit _ _ \<Rightarrow> True | _ \<Rightarrow> False) k"

text \<open>
  The loop that frees the stacks of exited threads. Its last round, with index 1024, reads behind
  the end of the array; freeing what it would find there is undefined. A thread that comes here from
  \<^verbatim>\<open>thread_exit\<close> is itself marked as exited: the loop then frees the stack it is running on,
  which is undefined too. Only the first thread, which \<^verbatim>\<open>thread_init\<close> gives no stack of its
  own, is spared.
\<close>

definition free_stacks :: "frame list \<Rightarrow> tsys \<Rightarrow> tsys res" where
  "free_stacks k s =
    bnd (guard_ub (\<not> (status (past_end s) = 2 \<and> \<not> exist (past_end s)))) (\<lambda>_.
    bnd (tget s (currentThread s)) (\<lambda>c.
    bnd (guard_ub (foreign_stack k \<or> \<not> (status c = 2 \<and> \<not> exist c \<and> stack c \<noteq> None))) (\<lambda>_.
    Ret (s\<lparr>total := map (\<lambda>t. if status t = 2 \<and> \<not> exist t then t\<lparr>stack := None\<rparr> else t) (total s)\<rparr>))))"

text \<open>The running thread goes to the end of the ready list.\<close>

definition requeue :: "tid \<Rightarrow> tsys \<Rightarrow> tsys res" where
  "requeue nxt s =
    bnd (tget s (currentThread s)) (\<lambda>c.
    if status c = 1 then
      bnd (tupd s (currentThread s) (\<lambda>t. t\<lparr>status := 0\<rparr>)) (\<lambda>s1.
      if exist c then
        bnd (tget s1 nxt) (\<lambda>n.
        bnd (if threadID n \<ge> 0 then tupd s1 (currentThread s) (\<lambda>t. t\<lparr>nextThreadID := threadID n\<rparr>) else Ret s1) (\<lambda>s2.
        bnd (if currentThread s \<ge> 0 then tupd s2 (threadID n) (\<lambda>t. t\<lparr>preThreadID := currentThread s\<rparr>) else Ret s2) (\<lambda>s3.
        bnd (buildNodeRL (currentThread s) s3) (\<lambda>(nd, s4).
        if ReadyList s4 = None then Ret (s4\<lparr>ReadyList := Some nd, endOfReady := Some nd\<rparr>)
        else pushbackRL nd s4))))
      else Ret s1)
    else Ret s)"

definition switch_to :: "tid \<Rightarrow> tsys \<Rightarrow> (tid option \<times> tsys) res" where
  "switch_to nxt s =
    bnd (tget s nxt) (\<lambda>n.
    let s1 = s\<lparr>currentThread := threadID n\<rparr> in
    bnd (tupd s1 (threadID n) (\<lambda>t. t\<lparr>status := 1\<rparr>)) (\<lambda>s2. Ret (None, s2)))"

text \<open>
  \<^verbatim>\<open>thread_yield\<close> and \<^verbatim>\<open>thread_exit\<close> call each other when the next thread has been
  killed; the fuel bounds the depth.
\<close>

fun thread_yield :: "nat \<Rightarrow> frame list \<Rightarrow> tid \<Rightarrow> tsys \<Rightarrow> (tid option \<times> tsys) res"
  and thread_exit :: "nat \<Rightarrow> frame list \<Rightarrow> tsys \<Rightarrow> (tid option \<times> tsys) res" where
  "thread_yield 0 k want_tid s = Crash Diverges"
| "thread_yield (Suc n) k want_tid s =
    (let (enabled, s0) = enter s in
     bnd (pick_next want_tid s0) (\<lambda>r.
     case r of
       Inl e \<Rightarrow> Ret (Some e, leave enabled s0)
     | Inr (nxt, iter) \<Rightarrow>
         bnd (free_stacks k s0) (\<lambda>s1.
         bnd (tupd s1 (currentThread s1) (\<lambda>t. t\<lparr>threadInfo := Ctx_frames (F_yield enabled # k)\<rparr>)) (\<lambda>s2.
         bnd (requeue nxt s2) (\<lambda>s3.
         bnd (tget s3 nxt) (\<lambda>t.
         if \<not> exist t then
           bnd (thread_exit n (F_yield_exit enabled nxt # k) (s3\<lparr>currentThread := threadID t\<rparr>)) (\<lambda>(r', s4).
           case r' of None \<Rightarrow> Ret (None, s4) | Some _ \<Rightarrow> switch_to nxt s4)
         else
           bnd (if threadID t = 0 \<and> status t = 2 then Ret s3 else unlink_ready (threadID t) iter s3) (\<lambda>s4.
           switch_to nxt s4)))))))"
| "thread_exit 0 k s = Crash Diverges"
| "thread_exit (Suc n) k s =
    (let (enabled, s0) = enter s; me = currentThread s0 in
     bnd (tget s0 me) (\<lambda>t.
     bnd (case wqt t of
            None \<Rightarrow> Ret s0
          | Some q \<Rightarrow>
              bnd (thread_wakeup (Some q) 1 s0) (\<lambda>(_, s1).
              tupd (s1\<lparr>wqs := (wqs s1)(q := None)\<rparr>) me (\<lambda>t. t\<lparr>wqt := None\<rparr>))) (\<lambda>s2.
     if ReadyList s2 \<noteq> None then
       bnd (tupd s2 me (\<lambda>t. t\<lparr>exist := False, status := 2\<rparr>)) (\<lambda>s3.
       bnd (thread_yield n (F_exit enabled # k) THREAD_ANY s3) (\<lambda>(r, s4).
       case r of None \<Rightarrow> Ret (None, s4) | Some _ \<Rightarrow> Ret (Some THREAD_NONE, leave enabled s4)))
     else Ret (Some THREAD_NONE, leave enabled s2))))"

text \<open>Enough fuel for 1024 killed threads in a row.\<close>

definition YIELD_FUEL :: nat where
  "YIELD_FUEL = 2050"

section \<open>Kill\<close>

text \<open>
  The search of \<^verbatim>\<open>thread_kill\<close>: its condition looks at \<^verbatim>\<open>ReadyList\<close>, not at the
  iterator, so running off the end of the list dereferences \<^verbatim>\<open>NULL\<close>.
\<close>

fun kill_find :: "nat \<Rightarrow> tsys \<Rightarrow> tid \<Rightarrow> nat option \<Rightarrow> (nat option \<times> tsys) res" where
  "kill_find 0 s tid itr = Crash Diverges"
| "kill_find (Suc n) s tid itr =
    (if ReadyList s = None then Ret (itr, s)
     else
       bnd (deref itr) (\<lambda>p.
       bnd (deref (rnodes s p)) (\<lambda>nd.
       bnd (tid_of s nd) (\<lambda>i.
       if i = tid then bnd (tupd s (q_node nd) (\<lambda>t. t\<lparr>exist := False\<rparr>)) (\<lambda>s1. Ret (Some p, s1))
       else kill_find n s tid (q_next nd)))))"

fun find_wait :: "nat \<Rightarrow> tsys \<Rightarrow> tid \<Rightarrow> nat option \<Rightarrow> nat option res" where
  "find_wait 0 s tid iter = Crash Diverges"
| "find_wait (Suc n) s tid iter =
    (case iter of
       None \<Rightarrow> Ret None
     | Some p \<Rightarrow>
         bnd (deref (wnodes s p)) (\<lambda>nd.
         bnd (tid_of s nd) (\<lambda>i.
         if i = tid then Ret (Some p) else find_wait n s tid (q_next nd))))"

definition thread_kill :: "tid \<Rightarrow> tsys \<Rightarrow> (tid \<times> tsys) res" where
  "thread_kill tid s =
    (let (enabled, s0) = enter s in
     bnd (kill_find LIST_FUEL s0 tid (ReadyList s0)) (\<lambda>(itr, s1).
     bnd (tget s1 (currentThread s1)) (\<lambda>c.
     bnd (case wqt c of None \<Rightarrow> Ret None | Some q \<Rightarrow> bnd (deref (wqs s1 q)) (\<lambda>w. Ret (Some (head w)))) (\<lambda>hw.
     if itr = None \<and> (hw = None \<or> hw = Some None) then Ret (THREAD_INVALID, leave enabled s1)
     else
       case hw of
         Some hp \<Rightarrow>
           bnd (find_wait LIST_FUEL s1 tid hp) (\<lambda>iter.
           case iter of
             None \<Rightarrow> Ret (THREAD_INVALID, leave enabled s1)
           | Some p \<Rightarrow>
               bnd (deref (wnodes s1 p)) (\<lambda>nd.
               bnd (tupd s1 (q_node nd) (\<lambda>t. t\<lparr>exist := False\<rparr>)) (\<lambda>s2.
               Ret (tid, leave enabled s2))))
       | None \<Rightarrow>
           bnd (deref itr) (\<lambda>p.
           bnd (deref (rnodes s1 p)) (\<lambda>nd.
           bnd (tget s1 (q_node nd)) (\<lambda>t.
           bnd (tupd s1 (q_node nd) (\<lambda>t. t\<lparr>stack := None\<rparr>)) (\<lambda>s2.
           bnd (deleteNode p s2) (\<lambda>s3.
           Ret (threadID t, leave enabled s3)))))))))) "

section \<open>Sleeping and waiting\<close>

definition thread_sleep :: "frame list \<Rightarrow> nat option \<Rightarrow> tsys \<Rightarrow> (tid option \<times> tsys) res" where
  "thread_sleep k queue s =
    (let (enabled, s0) = enter s in
     case queue of
       None \<Rightarrow> Ret (Some THREAD_INVALID, leave enabled s0)
     | Some q \<Rightarrow>
         (case ReadyList s0 of
            None \<Rightarrow> Ret (Some THREAD_NONE, leave enabled s0)
          | Some p \<Rightarrow>
              bnd (deref (rnodes s0 p)) (\<lambda>n.
              let nxt = q_node n; me = currentThread s0 in
              bnd (tupd s0 me (\<lambda>t. t\<lparr>status := 3, threadInfo := Ctx_frames (F_sleep enabled nxt # k)\<rparr>)) (\<lambda>s1.
              bnd (buildNodeWQ me s1) (\<lambda>(nd, s2).
              bnd (pushbackWQ q nd s2) (\<lambda>s3.
              bnd (deref (ReadyList s3)) (\<lambda>hp.
              bnd (deleteNode hp s3) (\<lambda>s4.
              bnd (tupd s4 nxt (\<lambda>t. t\<lparr>status := 1\<rparr>)) (\<lambda>s5.
              bnd (tget s5 nxt) (\<lambda>t.
              Ret (None, s5\<lparr>currentThread := threadID t\<rparr>)))))))))))"

definition thread_wait :: "frame list \<Rightarrow> tid \<Rightarrow> tsys \<Rightarrow> (tid option \<times> tsys) res" where
  "thread_wait k tid s =
    (let (enabled, s0) = enter s in
     if tid < 0 \<or> tid = currentThread s0 \<or> tid > 1024 then Ret (Some THREAD_INVALID, leave enabled s0)
     else if tid = 1024 then
       bnd (guard_ub (\<not> exist (past_end s0))) (\<lambda>_. Ret (Some THREAD_INVALID, leave enabled s0))
     else
       bnd (tget s0 tid) (\<lambda>t.
       if \<not> exist t then Ret (Some THREAD_INVALID, leave enabled s0)
       else
         bnd (case wqt t of
                Some q \<Rightarrow> Ret (q, s0)
              | None \<Rightarrow>
                  let (p, s1) = t_malloc s0 in
                  bnd (deref p) (\<lambda>q.
                  bnd (tupd s1 tid (\<lambda>t. t\<lparr>wqt := Some q\<rparr>)) (\<lambda>s2.
                  Ret (q, s2\<lparr>wqs := (wqs s2)(q \<mapsto> \<lparr>head = None, tail = None\<rparr>)\<rparr>)))) (\<lambda>(q, s3).
         bnd (thread_sleep (F_wait enabled tid # k) (Some q) s3) (\<lambda>(r, s4).
         case r of None \<Rightarrow> Ret (None, s4) | Some _ \<Rightarrow> Ret (Some tid, leave enabled s4)))))"

section \<open>Locks\<close>

definition lock_create :: "tsys \<Rightarrow> (nat \<times> tsys) res" where
  "lock_create s =
    (let (enabled, s0) = enter s; (l, s1) = t_malloc s0 in
     bnd (c_assert (l \<noteq> None)) (\<lambda>_.
     bnd (deref l) (\<lambda>l.
     bnd (wait_queue_create s1) (\<lambda>(q, s2).
     Ret (l, leave enabled (s2\<lparr>locks := (locks s2)(l \<mapsto> \<lparr>wqL = Some q, avaliable = True, acquiredID = - 1\<rparr>)\<rparr>))))))"

definition lock_destroy :: "nat option \<Rightarrow> tsys \<Rightarrow> tsys res" where
  "lock_destroy l s =
    (let (enabled, s0) = enter s in
     bnd (c_assert (l \<noteq> None)) (\<lambda>_.
     bnd (deref l) (\<lambda>l.
     bnd (deref (locks s0 l)) (\<lambda>lk.
     if avaliable lk then
       bnd (deref (wqL lk)) (\<lambda>q.
       Ret (leave enabled (s0\<lparr>wqs := (wqs s0)(q := None), locks := (locks s0)(l := None)\<rparr>)))
     else Ret (leave enabled s0)))))"

text \<open>
  The loop of \<^verbatim>\<open>lock_acquire\<close>. \<^verbatim>\<open>thread_sleep\<close> comes back at once only when no other
  thread is ready; it has then changed nothing and the lock is still taken, so the loop never ends.
  Hence any fuel but 0 gives the same result (\<^verbatim>\<open>lock_loop_fuel\<close> in \<^verbatim>\<open>Thr_Sync\<close>). A
  thread that did sleep continues in \<^verbatim>\<open>unwind\<close>, which tests the lock again.
\<close>

fun lock_loop :: "nat \<Rightarrow> frame list \<Rightarrow> bool \<Rightarrow> nat \<Rightarrow> tsys \<Rightarrow> (tid option \<times> tsys) res" where
  "lock_loop 0 k enabled l s = Crash Diverges"
| "lock_loop (Suc n) k enabled l s =
    bnd (deref (locks s l)) (\<lambda>lk.
    if avaliable lk then
      Ret (Some 0, leave enabled (s\<lparr>locks := (locks s)(l \<mapsto> lk\<lparr>acquiredID := currentThread s, avaliable := False\<rparr>)\<rparr>))
    else
      bnd (thread_sleep (F_lock enabled l # k) (wqL lk) s) (\<lambda>(r, s1).
      case r of None \<Rightarrow> Ret (None, s1) | Some _ \<Rightarrow> lock_loop n k enabled l s1))"

definition LOCK_FUEL :: nat where
  "LOCK_FUEL = 2"

definition lock_acquire :: "frame list \<Rightarrow> nat option \<Rightarrow> tsys \<Rightarrow> (tid option \<times> tsys) res" where
  "lock_acquire k l s =
    (let (enabled, s0) = enter s in
     bnd (c_assert (l \<noteq> None)) (\<lambda>_.
     bnd (deref l) (\<lambda>l.
     lock_loop LOCK_FUEL k enabled l s0)))"

definition lock_release :: "nat option \<Rightarrow> tsys \<Rightarrow> tsys res" where
  "lock_release l s =
    (let (enabled, s0) = enter s in
     bnd (c_assert (l \<noteq> None)) (\<lambda>_.
     bnd (deref l) (\<lambda>l.
     bnd (deref (locks s0 l)) (\<lambda>lk.
     if \<not> avaliable lk then
       bnd (thread_wakeup (wqL lk) 1 (s0\<lparr>locks := (locks s0)(l \<mapsto> lk\<lparr>avaliable := True\<rparr>)\<rparr>)) (\<lambda>(_, s1).
       Ret (leave enabled s1))
     else Ret (leave enabled s0)))))"

section \<open>Condition variables\<close>

definition cv_create :: "tsys \<Rightarrow> (nat \<times> tsys) res" where
  "cv_create s =
    (let (c, s1) = t_malloc s in
     bnd (c_assert (c \<noteq> None)) (\<lambda>_.
     bnd (deref c) (\<lambda>c.
     bnd (wait_queue_create s1) (\<lambda>(q, s2).
     Ret (c, s2\<lparr>cvs := (cvs s2)(c \<mapsto> \<lparr>wqC = Some q\<rparr>)\<rparr>)))))"

definition cv_destroy :: "nat option \<Rightarrow> tsys \<Rightarrow> tsys res" where
  "cv_destroy c s =
    bnd (c_assert (c \<noteq> None)) (\<lambda>_.
    bnd (deref c) (\<lambda>c.
    bnd (deref (cvs s c)) (\<lambda>cv.
    bnd (case wqC cv of
           None \<Rightarrow> Ret s
         | Some q \<Rightarrow>
             bnd (deref (wqs s q)) (\<lambda>w.
             if head w = None then Ret (s\<lparr>wqs := (wqs s)(q := None)\<rparr>)
             else Ret (s\<lparr>tout := tout s @ [''shouldn't come herre'']\<rparr>))) (\<lambda>s1.
    Ret (s1\<lparr>cvs := (cvs s1)(c := None)\<rparr>)))))"

definition cv_wait :: "frame list \<Rightarrow> nat option \<Rightarrow> nat option \<Rightarrow> tsys \<Rightarrow> (tid option \<times> tsys) res" where
  "cv_wait k c l s =
    (let (enabled, s0) = enter s in
     bnd (c_assert (c \<noteq> None)) (\<lambda>_.
     bnd (c_assert (l \<noteq> None)) (\<lambda>_.
     bnd (deref c) (\<lambda>c'.
     bnd (deref l) (\<lambda>l'.
     bnd (lock_release l s0) (\<lambda>s1.
     bnd (deref (locks s1 l')) (\<lambda>lk.
     bnd (if acquiredID lk = currentThread s1 then
            bnd (deref (cvs s1 c')) (\<lambda>cv. thread_sleep (F_cv enabled l' # k) (wqC cv) s1)
          else Ret (Some 0, s1)) (\<lambda>(r, s2).
     case r of
       None \<Rightarrow> Ret (None, s2)
     | Some _ \<Rightarrow>
         bnd (lock_acquire (F_cv_lock enabled # k) l s2) (\<lambda>(r', s3).
         case r' of None \<Rightarrow> Ret (None, s3) | Some _ \<Rightarrow> Ret (Some 0, leave enabled s3))))))))))"

definition cv_wake :: "int \<Rightarrow> nat option \<Rightarrow> nat option \<Rightarrow> tsys \<Rightarrow> tsys res" where
  "cv_wake all c l s =
    (let (enabled, s0) = enter s in
     bnd (c_assert (c \<noteq> None)) (\<lambda>_.
     bnd (c_assert (l \<noteq> None)) (\<lambda>_.
     bnd (deref c) (\<lambda>c.
     bnd (deref l) (\<lambda>l.
     bnd (deref (locks s0 l)) (\<lambda>lk.
     if acquiredID lk = currentThread s0 then
       bnd (deref (cvs s0 c)) (\<lambda>cv.
       bnd (thread_wakeup (wqC cv) all s0) (\<lambda>(_, s1).
       Ret (leave enabled s1)))
     else Ret (leave enabled s0)))))))"

definition cv_signal :: "nat option \<Rightarrow> nat option \<Rightarrow> tsys \<Rightarrow> tsys res" where
  "cv_signal c l s = cv_wake 0 c l s"

definition cv_broadcast :: "nat option \<Rightarrow> nat option \<Rightarrow> tsys \<Rightarrow> tsys res" where
  "cv_broadcast c l s = cv_wake 1 c l s"

section \<open>After a switch\<close>

text \<open>
  What the frames of a context do when it is resumed: each is the code of its function after the
  call that switched away, and hands its value to the next. \<^verbatim>\<open>None\<close> means that the thread
  was switched out again. Returning from \<^verbatim>\<open>interrupt_handler\<close> unblocks the signal.
\<close>

fun unwind :: "frame list \<Rightarrow> tid \<Rightarrow> tsys \<Rightarrow> (tid option \<times> tsys) res" where
  "unwind [] r s = Ret (Some r, s)"
| "unwind (F_yield enabled # k) r s =
    bnd (tget s (currentThread s)) (\<lambda>t. unwind k (nextThreadID t) (leave enabled s))"
| "unwind (F_yield_exit enabled nxt # k) r s = switch_to nxt s"
| "unwind (F_exit enabled # k) r s = unwind k THREAD_NONE (leave enabled s)"
| "unwind (F_sleep enabled nxt # k) r s =
    bnd (tget s nxt) (\<lambda>t. unwind k (threadID t) (leave enabled s))"
| "unwind (F_wait enabled tid # k) r s = unwind k tid (leave enabled s)"
| "unwind (F_lock enabled l # k) r s =
    bnd (lock_loop LOCK_FUEL k enabled l s) (\<lambda>(r', s1).
    case r' of None \<Rightarrow> Ret (None, s1) | Some v \<Rightarrow> unwind k v s1)"
| "unwind (F_cv enabled l # k) r s =
    bnd (lock_acquire (F_cv_lock enabled # k) (Some l) s) (\<lambda>(r', s1).
    case r' of None \<Rightarrow> Ret (None, s1) | Some v \<Rightarrow> unwind k v (leave enabled s1))"
| "unwind (F_cv_lock enabled # k) r s = unwind k r (leave enabled s)"
| "unwind (F_handler # k) r s = unwind k r (leave True s)"

text \<open>
  \<^verbatim>\<open>setcontext\<close> to the current thread. A new thread starts in \<^verbatim>\<open>thread_stub\<close>, which
  enables interrupts and calls its function; a context of \<^verbatim>\<open>thread_init\<close> or none is never
  switched to.
\<close>

definition dispatch :: "tsys \<Rightarrow> (tid option \<times> tsys) res" where
  "dispatch s =
    bnd (tget s (currentThread s)) (\<lambda>t.
    case threadInfo t of
      Ctx_frames k \<Rightarrow> unwind k 0 s
    | Ctx_stub rsp fn parg \<Rightarrow> Ret (Some 0, snd (interrupts_on s))
    | _ \<Rightarrow> Crash Undef)"

text \<open>The end of \<^verbatim>\<open>thread_stub\<close>, after the thread's function has returned.\<close>

definition thread_stub_end :: "tsys \<Rightarrow> (tid option \<times> tsys) res" where
  "thread_stub_end s =
    bnd (thread_exit YIELD_FUEL [] s) (\<lambda>(r, s1).
    case r of
      None \<Rightarrow> Ret (None, s1)
    | Some ret \<Rightarrow> bnd (c_assert (ret = THREAD_NONE)) (\<lambda>_. Ret (Some ret, s1\<lparr>exited := True\<rparr>)))"

text \<open>
  \<^verbatim>\<open>interrupt_handler\<close>: the signal is blocked while it runs; the timer is set again, which
  the model does not show, and the running thread yields.
\<close>

definition interrupt_handler :: "tsys \<Rightarrow> (tid option \<times> tsys) res" where
  "interrupt_handler s =
    (let s0 = s\<lparr>intr := False\<rparr> in
     bnd (c_assert (\<not> interrupts_enabled s0)) (\<lambda>_.
     bnd (thread_yield YIELD_FUEL [F_handler] THREAD_ANY s0) (\<lambda>(r, s1).
     case r of None \<Rightarrow> Ret (None, s1) | Some x \<Rightarrow> unwind [F_handler] x s1)))"

end
