(* ===== verification/Thr_Sched.thy ===== *)
theory Thr_Sched
  imports Thr_Ops
begin

text \<open>
  Scheduling: the ready list as a queue of threads, \<^verbatim>\<open>thread_create\<close>,
  \<^verbatim>\<open>thread_yield\<close>, \<^verbatim>\<open>thread_exit\<close> and \<^verbatim>\<open>thread_kill\<close> against it.
\<close>

section \<open>States with a running thread\<close>

definition thr :: "tsys \<Rightarrow> tid \<Rightarrow> thread" where
  "thr s i = total s ! nat i"

definition running :: "tsys \<Rightarrow> bool" where
  "running s \<longleftrightarrow> length (total s) = 1024 \<and> heap_fresh s \<and> (\<forall>p. mem_ok s p) \<and>
     \<not> (status (past_end s) = 2 \<and> \<not> exist (past_end s)) \<and>
     0 \<le> currentThread s \<and> currentThread s < 1024 \<and> threadID (thr s (currentThread s)) = currentThread s \<and>
     status (thr s (currentThread s)) = 1 \<and> exist (thr s (currentThread s))"

text \<open>The running thread is not in the ready list, whose threads are ready and alive.\<close>

definition sched :: "tsys \<Rightarrow> tid list \<Rightarrow> bool" where
  "sched s xs \<longleftrightarrow> running s \<and> rq s xs \<and> currentThread s \<notin> set xs \<and>
     (\<forall>x \<in> set xs. status (thr s x) = 0 \<and> exist (thr s x))"

definition reap :: "thread \<Rightarrow> thread" where
  "reap t = (if status t = 2 \<and> \<not> exist t then t\<lparr>stack := None\<rparr> else t)"

lemma reap_simps [simp]:
  "threadID (reap t) = threadID t" "status (reap t) = status t" "exist (reap t) = exist t" "wqt (reap t) = wqt t"
  "nextThreadID (reap t) = nextThreadID t" "threadInfo (reap t) = threadInfo t" "preThreadID (reap t) = preThreadID t"
  by (simp_all add: reap_def)

lemma reap_alive [simp]: "exist t \<Longrightarrow> reap t = t"
  by (simp add: reap_def)

lemma thr_tset: "0 \<le> i \<Longrightarrow> 0 \<le> j \<Longrightarrow> nat i < length (total s) \<Longrightarrow> thr (tset s i t) j = (if i = j then t else thr s j)"
  by (auto simp: thr_def nth_list_update)

lemma tupd_ok: "0 \<le> i \<Longrightarrow> i < 1024 \<Longrightarrow> tupd s i f = Ret (tset s i (f (thr s i)))"
  by (simp add: tupd_def tget_def thr_def)

lemma tget_thr: "0 \<le> i \<Longrightarrow> i < 1024 \<Longrightarrow> tget s i = Ret (thr s i)"
  by (simp add: tget_def thr_def)

lemma ids_ok_thr: "ids_ok s X \<longleftrightarrow> (\<forall>x \<in> X. 0 \<le> x \<and> x < 1024 \<and> threadID (thr s x) = x)"
  by (simp add: ids_ok_def thr_def)

lemma sched_ids: "sched s xs \<Longrightarrow> x \<in> set xs \<Longrightarrow> 0 \<le> x \<and> x < 1024 \<and> threadID (thr s x) = x"
  using rq_ids [of s xs] by (auto simp: sched_def ids_ok_def thr_def)

text \<open>States that differ in nothing but the threads, the ready list and the signal mask.\<close>

definition other_same :: "tsys \<Rightarrow> tsys \<Rightarrow> bool" where
  "other_same s s' \<longleftrightarrow> wnodes s' = wnodes s \<and> wqs s' = wqs s \<and> locks s' = locks s \<and> cvs s' = cvs s \<and> mem_ok s' = mem_ok s \<and>
     addr s' = addr s \<and> past_end s' = past_end s \<and> exited s' = exited s \<and> tout s' = tout s"

lemma other_same_trans: "other_same s s1 \<Longrightarrow> other_same s1 s2 \<Longrightarrow> other_same s s2"
  by (simp add: other_same_def)

lemma rsame_other: "rsame s s' \<Longrightarrow> other_same s s'"
  by (simp add: rsame_def other_same_def)

text \<open>The running thread's way to the end of the ready list.\<close>

lemma requeue_ok:
  assumes run: "running s" and r: "ready_seg s ps xs" and c: "currentThread s \<notin> set xs"
    and n: "0 \<le> nxt" "nxt < 1024" "threadID (thr s nxt) = nxt"
  obtains s' nd where "requeue nxt s = Ret s'" "ready_seg s' (ps @ [nd]) (xs @ [currentThread s])" "heap_fresh s'" "other_same s s'"
    "currentThread s' = currentThread s" "intr s' = intr s" "length (total s') = 1024"
    "\<And>i. 0 \<le> i \<Longrightarrow> i < 1024 \<Longrightarrow> i \<noteq> currentThread s \<Longrightarrow> i \<noteq> nxt \<Longrightarrow> thr s' i = thr s i"
    "nxt \<noteq> currentThread s \<Longrightarrow> thr s' nxt = (thr s nxt)\<lparr>preThreadID := currentThread s\<rparr>"
    "thr s' (currentThread s) = (thr s (currentThread s))\<lparr>status := 0, nextThreadID := nxt,
       preThreadID := if nxt = currentThread s then nxt else preThreadID (thr s (currentThread s))\<rparr>"
proof -
  let ?c = "currentThread s"
  have C: "0 \<le> ?c" "?c < 1024" "threadID (thr s ?c) = ?c" "status (thr s ?c) = 1" "exist (thr s ?c)" and len: "length (total s) = 1024"
    and fr: "heap_fresh s" and mem: "\<And>p. mem_ok s p" using run by (auto simp: running_def)
  define s1 where "s1 = tset s ?c ((thr s ?c)\<lparr>status := 0\<rparr>)"
  define s2 where "s2 = tset s1 ?c ((thr s1 ?c)\<lparr>nextThreadID := nxt\<rparr>)"
  define s3 where "s3 = tset s2 nxt ((thr s2 nxt)\<lparr>preThreadID := ?c\<rparr>)"
  have l3: "length (total s1) = 1024" "length (total s2) = 1024" "length (total s3) = 1024" using len by (simp_all add: s1_def s2_def s3_def)
  have tn: "threadID (thr s1 nxt) = nxt" using C n len by (simp add: s1_def thr_tset)
  have "ready_seg s1 ps xs" unfolding s1_def by (rule ready_seg_tset [OF r]) (use C in \<open>simp_all add: thr_def\<close>)
  then have "ready_seg s2 ps xs" unfolding s2_def by (rule ready_seg_tset) (use C in \<open>simp_all add: thr_def\<close>)
  then have r3: "ready_seg s3 ps xs" unfolding s3_def by (rule ready_seg_tset) (use n in \<open>simp_all add: thr_def\<close>)
  have f3: "heap_fresh s3" "mem_ok s3 (brk s3)" using fr mem by (simp_all add: s1_def s2_def s3_def heap_fresh_def)
  obtain s4 where s4: "buildNodeRL ?c s3 = Ret (brk s3, s4)" "ready_seg s4 ps xs" "rsame (s3\<lparr>brk := Suc (brk s3)\<rparr>) s4"
    "rnodes s4 = (rnodes s3)(brk s3 \<mapsto> \<lparr>q_node = ?c, q_prv = None, q_next = None\<rparr>)" "ReadyList s4 = ReadyList s3" "heap_fresh s4"
    by (rule buildNodeRL_ok [OF r3 f3])
  have t4: "total s4 = total s3" "currentThread s4 = ?c" "intr s4 = intr s" "other_same s s4"
    using s4(3) by (simp_all add: rsame_def s1_def s2_def s3_def other_same_def)
  have th3: "thr s3 i = (if i = ?c then (thr s ?c)\<lparr>status := 0, nextThreadID := nxt, preThreadID := if nxt = ?c then nxt else preThreadID (thr s ?c)\<rparr>
      else if i = nxt then (thr s nxt)\<lparr>preThreadID := ?c\<rparr> else thr s i)" if "0 \<le> i" for i
    using C n that len l3 unfolding s3_def s2_def s1_def by (simp add: thr_tset)
  have ids: "ids_ok s4 {?c}" using th3 [OF C(1)] C t4(1) by (auto simp: ids_ok_def thr_def)
  have "rnodes s4 (brk s3) = Some \<lparr>q_node = ?c, q_prv = None, q_next = None\<rparr>" using s4(4) by simp
  from pushbackRL_ok [OF s4(2) ids c this] obtain s' where s': "pushbackRL (brk s3) s4 = Ret s'"
    "ready_seg s' (ps @ [brk s3]) (xs @ [?c])" "rsame s4 s'" "\<And>p. p \<noteq> brk s3 \<Longrightarrow> rnodes s4 p = None \<Longrightarrow> rnodes s' p = None" by auto
  have ch: "(if ReadyList s4 = None then Ret (s4\<lparr>ReadyList := Some (brk s3), endOfReady := Some (brk s3)\<rparr>) else pushbackRL (brk s3) s4) = Ret s'"
    using s'(1) s4(4) by (auto simp: pushbackRL_def fun_upd_idem)
  have u: "tupd s ?c (\<lambda>t. t\<lparr>status := 0\<rparr>) = Ret s1" "tupd s1 ?c (\<lambda>t. t\<lparr>nextThreadID := nxt\<rparr>) = Ret s2"
    "tupd s2 nxt (\<lambda>t. t\<lparr>preThreadID := ?c\<rparr>) = Ret s3"
    using C n by (simp_all add: tupd_ok s1_def s2_def s3_def)
  have run': "requeue nxt s = Ret s'"
    using C n tn u ch s4(1) by (simp add: requeue_def tget_thr)
  have "heap_fresh s'" using s4(3,6) s'(3,4) by (auto simp: heap_fresh_def rsame_def)
  moreover have "total s' = total s3" "currentThread s' = ?c" "intr s' = intr s" "other_same s s'"
    using t4 s'(3) by (simp_all add: rsame_def other_same_def)
  ultimately show ?thesis using run' s'(2) th3 n C l3 by (rule_tac that [of s' "brk s3"]) (auto simp: thr_def)
qed

section \<open>Yield\<close>

text \<open>What a yield to the thread \<^verbatim>\<open>nxt\<close> leaves.\<close>

definition yielded :: "frame list \<Rightarrow> tid \<Rightarrow> tid list \<Rightarrow> tsys \<Rightarrow> tsys \<Rightarrow> bool" where
  "yielded k nxt xs s s' \<longleftrightarrow> currentThread s' = nxt \<and> sched s' (remove1 nxt (xs @ [currentThread s])) \<and> \<not> intr s' \<and> other_same s s' \<and>
     threadInfo (thr s' (currentThread s)) = Ctx_frames (F_yield (intr s) # k) \<and> nextThreadID (thr s' (currentThread s)) = nxt \<and>
     (\<forall>i. 0 \<le> i \<and> i < 1024 \<longrightarrow> wqt (thr s' i) = wqt (thr s i) \<and> exist (thr s' i) = exist (thr s i) \<and>
        (i \<noteq> currentThread s \<longrightarrow> threadInfo (thr s' i) = threadInfo (thr s i)))"

lemma switch_to_ok:
  "0 \<le> nxt \<Longrightarrow> nxt < 1024 \<Longrightarrow> threadID (thr s nxt) = nxt \<Longrightarrow>
    switch_to nxt s = Ret (None, tset (s\<lparr>currentThread := nxt\<rparr>) nxt ((thr s nxt)\<lparr>status := 1\<rparr>))"
  by (simp add: switch_to_def tget_thr tupd_ok) (simp add: thr_def)

lemma thr_updates [simp]:
  "thr (s\<lparr>intr := b\<rparr>) = thr s" "thr (s\<lparr>currentThread := c\<rparr>) = thr s" "thr (s\<lparr>brk := n\<rparr>) = thr s"
  "thr (s\<lparr>wqs := f\<rparr>) = thr s" "thr (s\<lparr>wnodes := h\<rparr>) = thr s" "thr (s\<lparr>locks := g\<rparr>) = thr s"
  by (simp_all add: thr_def fun_eq_iff)

lemma thr_reap: "0 \<le> i \<Longrightarrow> i < 1024 \<Longrightarrow> length (total s) = 1024 \<Longrightarrow> thr (s\<lparr>total := map reap (total s)\<rparr>) i = reap (thr s i)"
  by (simp add: thr_def)

text \<open>The state after the loop over all threads and \<^verbatim>\<open>getcontext\<close>.\<close>

lemma yield_start:
  assumes sc: "sched s xs" and r: "ready_seg s ps xs"
  obtains s2 where "free_stacks k (s\<lparr>intr := False\<rparr>) = Ret (s\<lparr>intr := False, total := map reap (total s)\<rparr>)"
    "tupd (s\<lparr>intr := False, total := map reap (total s)\<rparr>) (currentThread s) (\<lambda>t. t\<lparr>threadInfo := Ctx_frames (F_yield (intr s) # k)\<rparr>) = Ret s2"
    "running s2" "ready_seg s2 ps xs" "currentThread s2 = currentThread s" "\<not> intr s2" "other_same s s2"
    "\<And>i. 0 \<le> i \<Longrightarrow> i < 1024 \<Longrightarrow> thr s2 i = (if i = currentThread s then (thr s i)\<lparr>threadInfo := Ctx_frames (F_yield (intr s) # k)\<rparr> else reap (thr s i))"
proof -
  let ?c = "currentThread s"
  have run: "running s" using sc by (simp add: sched_def)
  then have C: "0 \<le> ?c" "?c < 1024" "exist (thr s ?c)" and len: "length (total s) = 1024" by (auto simp: running_def)
  let ?s1 = "s\<lparr>intr := False, total := map reap (total s)\<rparr>"
  let ?s2 = "tset ?s1 ?c ((thr ?s1 ?c)\<lparr>threadInfo := Ctx_frames (F_yield (intr s) # k)\<rparr>)"
  have t1: "thr ?s1 i = reap (thr s i)" if "0 \<le> i" "i < 1024" for i using that len by (simp add: thr_def)
  have t2: "thr ?s2 i = (if i = ?c then (thr s i)\<lparr>threadInfo := Ctx_frames (F_yield (intr s) # k)\<rparr> else reap (thr s i))"
    if "0 \<le> i" "i < 1024" for i using that C len t1 by (simp add: thr_tset)
  have fs: "free_stacks k (s\<lparr>intr := False\<rparr>) = Ret ?s1"
    using run C by (simp add: free_stacks_def running_def reap_def [abs_def] tget_thr)
  have "ids_ok ?s1 (set xs)" using r t1 by (auto simp: ready_seg_def ids_ok_def thr_def)
  then have "ready_seg ?s1 ps xs" using r by (simp add: ready_seg_def)
  then have "ready_seg ?s2 ps xs" by (rule ready_seg_tset) (use C in \<open>simp_all add: thr_def\<close>)
  moreover have "running ?s2" using run t2 [OF C(1,2)] len by (auto simp: running_def heap_fresh_def)
  ultimately show ?thesis using fs C t2 by (rule_tac that [of ?s2]) (simp_all add: tupd_ok other_same_def)
qed

lemma yield_core:
  assumes sc: "sched s xs" and r: "ready_seg s ps xs" and pick: "pick_next want (s\<lparr>intr := False\<rparr>) = Ret (Inr (nxt, po))"
    and nxt: "nxt = currentThread s \<or> (\<exists>i < length xs. nxt = xs ! i \<and> (i = 0 \<or> po = Some (ps ! i)))"
  shows "\<exists>s'. thread_yield (Suc n) k want s = Ret (None, s') \<and> yielded k nxt xs s s'"
proof -
  let ?c = "currentThread s"
  have run: "running s" and cn: "?c \<notin> set xs" using sc by (auto simp: sched_def)
  then have C: "0 \<le> ?c" "?c < 1024" "threadID (thr s ?c) = ?c" "exist (thr s ?c)" by (auto simp: running_def)
  obtain s2 where s2: "free_stacks k (s\<lparr>intr := False\<rparr>) = Ret (s\<lparr>intr := False, total := map reap (total s)\<rparr>)"
    "tupd (s\<lparr>intr := False, total := map reap (total s)\<rparr>) ?c (\<lambda>t. t\<lparr>threadInfo := Ctx_frames (F_yield (intr s) # k)\<rparr>) = Ret s2"
    "running s2" "ready_seg s2 ps xs" "currentThread s2 = ?c" "\<not> intr s2" "other_same s s2"
    and th2: "\<And>i. 0 \<le> i \<Longrightarrow> i < 1024 \<Longrightarrow> thr s2 i = (if i = ?c then (thr s i)\<lparr>threadInfo := Ctx_frames (F_yield (intr s) # k)\<rparr> else reap (thr s i))"
    by (rule yield_start [OF sc r, where k = k]) blast
  have N: "0 \<le> nxt" "nxt < 1024" "threadID (thr s nxt) = nxt" "exist (thr s nxt)" "nxt \<noteq> ?c \<longrightarrow> status (thr s nxt) = 0"
    using nxt C sched_ids [OF sc] sc by (auto simp: sched_def)
  have tn: "threadID (thr s2 nxt) = nxt" using th2 [OF N(1,2)] N C by simp
  have cn2: "currentThread s2 \<notin> set xs" using s2(5) cn by simp
  obtain s3 nd where
    s3: "requeue nxt s2 = Ret s3" "ready_seg s3 (ps @ [nd]) (xs @ [?c])" "heap_fresh s3" "other_same s2 s3" "currentThread s3 = ?c"
      "intr s3 = intr s2" "length (total s3) = 1024"
    and th3: "\<And>i. 0 \<le> i \<Longrightarrow> i < 1024 \<Longrightarrow> i \<noteq> ?c \<Longrightarrow> i \<noteq> nxt \<Longrightarrow> thr s3 i = thr s2 i"
      "nxt \<noteq> ?c \<Longrightarrow> thr s3 nxt = (thr s2 nxt)\<lparr>preThreadID := ?c\<rparr>"
      "thr s3 ?c = (thr s2 ?c)\<lparr>status := 0, nextThreadID := nxt, preThreadID := if nxt = ?c then nxt else preThreadID (thr s2 ?c)\<rparr>"
    by (rule requeue_ok [OF s2(3,4) cn2 N(1,2) tn, unfolded s2(5)]) blast
  have "exist (thr s3 nxt) \<and> status (thr s3 nxt) = 0 \<and> threadID (thr s3 nxt) = nxt"
  proof (cases "nxt = ?c")
    case True show ?thesis unfolding True th3(3) th2 [OF C(1,2)] using C by simp
  next
    case False show ?thesis unfolding th3(2) [OF False] th2 [OF N(1,2)] using N False by simp
  qed
  then have n3: "exist (thr s3 nxt)" "status (thr s3 nxt) = 0" "threadID (thr s3 nxt) = nxt" by auto
  obtain j where j: "j < length (xs @ [?c])" "(xs @ [?c]) ! j = nxt" "j = 0 \<or> Suc j = length (xs @ [?c]) \<or> po = Some ((ps @ [nd]) ! j)"
  proof (cases "nxt = ?c")
    case True then show ?thesis by (rule_tac that [of "length xs"]) simp_all
  next
    case False
    then obtain i where "i < length xs" "nxt = xs ! i" "i = 0 \<or> po = Some (ps ! i)" using nxt by auto
    moreover have "length ps = length xs" using r seg_length by (auto simp: ready_seg_def)
    ultimately show ?thesis by (rule_tac that [of i]) (auto simp: nth_append)
  qed
  obtain s4 where s4: "unlink_ready nxt po s3 = Ret s4" "rq s4 (remove1 nxt (xs @ [?c]))" "rsame s3 s4" "\<And>p. rnodes s3 p = None \<Longrightarrow> rnodes s4 p = None"
    using unlink_ready_ok [OF s3(2) j(1,3)] j(2) by metis
  have th4: "thr s4 = thr s3" using s4(3) by (simp add: rsame_def thr_def fun_eq_iff)
  define s5 where "s5 = tset (s4\<lparr>currentThread := nxt\<rparr>) nxt ((thr s4 nxt)\<lparr>status := 1\<rparr>)"
  have sw: "switch_to nxt s4 = Ret (None, s5)" unfolding s5_def using N n3 th4 by (intro switch_to_ok) simp_all
  have yr: "thread_yield (Suc n) k want s = Ret (None, s5)"
    using pick s2(1,2) s3(1) n3 s4(1) sw tget_thr [OF N(1,2)] by simp
  have th5: "thr s5 i = (if i = nxt then (thr s3 nxt)\<lparr>status := 1\<rparr> else thr s3 i)" if "0 \<le> i" for i
    unfolding s5_def using that N s3(7) s4(3) th4 by (simp add: thr_tset rsame_def)
  have "rq s5 (remove1 nxt (xs @ [?c]))"
    unfolding s5_def by (rule rq_tset) (use s4(2) N n3 in \<open>simp_all add: rq_def ready_seg_def ids_ok_def thr_def\<close>)
  moreover have "heap_fresh s5" using heap_fresh_rsame [OF s3(3) s4(3,4)] by (simp add: s5_def heap_fresh_def)
  moreover have "length (total s5) = 1024" "currentThread s5 = nxt" "mem_ok s5 = mem_ok s2" "past_end s5 = past_end s2"
    using s3(4,7) s4(3) by (simp_all add: s5_def rsame_def other_same_def)
  ultimately have "rq s5 (remove1 nxt (xs @ [?c]))" "running s5"
    using s2(3) N n3 th5 [OF N(1)] by (simp_all add: running_def)
  moreover have "status (thr s5 x) = 0 \<and> exist (thr s5 x)" "x \<noteq> nxt" if x: "x \<in> set (remove1 nxt (xs @ [?c]))" for x
  proof -
    have d: "distinct (xs @ [?c])" using s3(2) by (simp add: ready_seg_def)
    then have x': "x \<noteq> nxt" "x = ?c \<or> x \<in> set xs" using x by (auto simp: set_remove1_eq)
    then have bx: "0 \<le> x" "x < 1024" using C sched_ids [OF sc] by auto
    show "x \<noteq> nxt" by (rule x'(1))
    show "status (thr s5 x) = 0 \<and> exist (thr s5 x)"
      using th5 [OF bx(1)] x' th3 th2 [OF bx] C sc bx by (cases "x = ?c") (auto simp: sched_def)
  qed
  moreover have c5: "currentThread s5 = nxt" "\<not> intr s5" using s4(3) s3(5,6) s2(6) by (simp_all add: s5_def rsame_def)
  ultimately have "sched s5 (remove1 nxt (xs @ [?c]))" by (auto simp: sched_def)
  moreover have "other_same s s5" using s2(7) s3(4) s4(3) by (simp add: other_same_def rsame_def s5_def)
  moreover have "wqt (thr s5 i) = wqt (thr s i) \<and> exist (thr s5 i) = exist (thr s i) \<and> (i \<noteq> ?c \<longrightarrow> threadInfo (thr s5 i) = threadInfo (thr s i))"
    if i: "0 \<le> i" "i < 1024" for i
  proof -
    have "wqt (thr s3 i) = wqt (thr s2 i) \<and> exist (thr s3 i) = exist (thr s2 i) \<and> threadInfo (thr s3 i) = threadInfo (thr s2 i)"
    proof (cases "i = ?c")
      case True show ?thesis unfolding True th3(3) by simp
    next
      case ic: False
      show ?thesis
      proof (cases "i = nxt")
        case True then show ?thesis using th3(2) ic by simp
      next
        case False show ?thesis unfolding th3(1) [OF i ic False] by simp
      qed
    qed
    moreover have "wqt (thr s5 i) = wqt (thr s3 i) \<and> exist (thr s5 i) = exist (thr s3 i) \<and> threadInfo (thr s5 i) = threadInfo (thr s3 i)"
      unfolding th5 [OF i(1)] by simp
    ultimately show ?thesis using th2 [OF i] by simp
  qed
  moreover have "threadInfo (thr s5 ?c) = Ctx_frames (F_yield (intr s) # k)" "nextThreadID (thr s5 ?c) = nxt"
    unfolding th5 [OF C(1)] using th3(3) th2 [OF C(1,2)] by (cases "?c = nxt", simp_all)+
  ultimately show ?thesis using yr c5 unfolding yielded_def by blast
qed

lemma yield_any_ok:
  assumes sc: "sched s (x # xs)"
  shows "\<exists>s'. thread_yield (Suc n) k THREAD_ANY s = Ret (None, s') \<and> yielded k x (x # xs) s s'"
proof -
  obtain ps where r: "ready_seg s ps (x # xs)" using sc by (auto simp: sched_def rq_def)
  obtain q nd where q: "ReadyList s = Some q" "rnodes s q = Some nd" "q_node nd = x" by (rule ready_head_id [OF r])
  have "pick_next THREAD_ANY (s\<lparr>intr := False\<rparr>) = Ret (Inr (x, None))" using q by (simp add: pick_next_def)
  from yield_core [OF sc r this] show ?thesis by force
qed

lemma yield_tid_ok:
  assumes sc: "sched s xs" and x: "x \<in> set xs"
  shows "\<exists>s'. thread_yield (Suc n) k x s = Ret (None, s') \<and> yielded k x xs s s'"
proof -
  obtain ps where r: "ready_seg s ps xs" using sc by (auto simp: sched_def rq_def)
  obtain i where i: "i < length xs" "xs ! i = x" using x by (auto simp: in_set_conv_nth)
  have "0 \<le> x" "x \<noteq> currentThread s" using sched_ids [OF sc x] sc x by (auto simp: sched_def)
  moreover have r0: "ready_seg (s\<lparr>intr := False\<rparr>) ps xs" using r by (simp add: ready_seg_def ids_ok_def)
  moreover have "find_ready LIST_FUEL (s\<lparr>intr := False\<rparr>) x (ReadyList s) = Ret (Some (ps ! i))"
    using find_ready_ok(2) [OF r0 i] by simp
  moreover obtain nd where "rnodes s (ps ! i) = Some nd" "q_node nd = x"
    using r i seg_nodes [of "rnodes s" None "ReadyList s" ps xs "endOfReady s" None i] seg_length [of "rnodes s" None "ReadyList s" ps xs "endOfReady s" None]
    by (auto simp: ready_seg_def)
  ultimately have "pick_next x (s\<lparr>intr := False\<rparr>) = Ret (Inr (x, Some (ps ! i)))" by (simp add: pick_next_def)
  from yield_core [OF sc r this] i show ?thesis by blast
qed

lemma yield_self_ok:
  assumes sc: "sched s xs" and w: "want = THREAD_SELF \<or> want = currentThread s"
  shows "\<exists>s'. thread_yield (Suc n) k want s = Ret (None, s') \<and> yielded k (currentThread s) xs s s'"
proof -
  obtain ps where r: "ready_seg s ps xs" using sc by (auto simp: sched_def rq_def)
  have "want \<noteq> THREAD_ANY" using w sc by (auto simp: sched_def running_def)
  then have "pick_next want (s\<lparr>intr := False\<rparr>) = Ret (Inr (currentThread s, None))" using w by (simp add: pick_next_def)
  from yield_core [OF sc r this] show ?thesis by simp
qed

lemma yield_fails:
  assumes sc: "sched s xs"
  shows "xs = [] \<Longrightarrow> thread_yield (Suc n) k THREAD_ANY s = Ret (Some THREAD_NONE, s)"
    "want \<notin> {THREAD_ANY, THREAD_SELF, currentThread s} \<union> set xs \<Longrightarrow> thread_yield (Suc n) k want s = Ret (Some THREAD_INVALID, s)"
proof -
  obtain ps where r: "ready_seg s ps xs" using sc by (auto simp: sched_def rq_def)
  then have r0: "ready_seg (s\<lparr>intr := False\<rparr>) ps xs" by (simp add: ready_seg_def ids_ok_def)
  show "xs = [] \<Longrightarrow> thread_yield (Suc n) k THREAD_ANY s = Ret (Some THREAD_NONE, s)"
    using r by (simp add: pick_next_def ready_seg_def)
  show "want \<notin> {THREAD_ANY, THREAD_SELF, currentThread s} \<union> set xs \<Longrightarrow> thread_yield (Suc n) k want s = Ret (Some THREAD_INVALID, s)"
    using find_ready_ok(1) [OF r0, of want] by (simp add: pick_next_def)
qed

section \<open>A state to start from\<close>

lemma sched_init:
  assumes "length (total s) = 1024" "heap_fresh s" "\<forall>p. mem_ok s p" "\<not> (status (past_end s) = 2 \<and> \<not> exist (past_end s))"
  shows "sched (thread_init s) []"
  using assms by (simp add: sched_def running_def thread_init_def thr_def rq_def ready_seg_def ids_ok_def heap_fresh_def Let_def)

lemma sched_boot: "sched (thread_init boot) []"
  by (rule sched_init) (simp_all add: boot_def heap_fresh_def zero_thread_def)

section \<open>Create\<close>

lemma free_id_ok:
  assumes "i < 1024"
  shows "free_id s i = Ret (if \<exists>j. i \<le> j \<and> j < 1024 \<and> \<not> exist (total s ! j)
    then Some (LEAST j. i \<le> j \<and> \<not> exist (total s ! j)) else None)"
  using assms
proof (induction "1024 - i" arbitrary: i)
  case (Suc n)
  show ?case
  proof (cases "exist (total s ! i)")
    case False
    then have "(LEAST j. i \<le> j \<and> \<not> exist (total s ! j)) = i" by (intro Least_equality) auto
    moreover have "\<exists>j. i \<le> j \<and> j < 1024 \<and> \<not> exist (total s ! j)" using False Suc.prems by blast
    ultimately show ?thesis using False Suc.prems by (subst free_id.simps) simp
  next
    case True
    then have iff: "(i \<le> j \<and> \<not> exist (total s ! j)) = (Suc i \<le> j \<and> \<not> exist (total s ! j))" for j
      by (metis Suc_leD Suc_leI le_neq_implies_less)
    have iff': "(\<exists>j. i \<le> j \<and> j < 1024 \<and> \<not> exist (total s ! j)) = (\<exists>j. Suc i \<le> j \<and> j < 1024 \<and> \<not> exist (total s ! j))"
      using iff by blast
    show ?thesis
    proof (cases "i = 1023")
      case True
      then show ?thesis unfolding iff' using \<open>exist (total s ! i)\<close> by (subst free_id.simps) auto
    next
      case False
      then have "free_id s (Suc i) = Ret (if \<exists>j. Suc i \<le> j \<and> j < 1024 \<and> \<not> exist (total s ! j)
          then Some (LEAST j. Suc i \<le> j \<and> \<not> exist (total s ! j)) else None)"
        using Suc.hyps(2) Suc.prems by (intro Suc.hyps(1)) auto
      then show ?thesis unfolding iff iff' using False True Suc.prems by (subst free_id.simps) simp
    qed
  qed
qed simp

lemma free_id_cases:
  assumes "i < 1024"
  obtains "free_id s i = Ret None" "\<And>j. i \<le> j \<Longrightarrow> j < 1024 \<Longrightarrow> exist (total s ! j)"
  | ID where "free_id s i = Ret (Some ID)" "i \<le> ID" "ID < 1024" "\<not> exist (total s ! ID)" "\<And>j. i \<le> j \<Longrightarrow> j < ID \<Longrightarrow> exist (total s ! j)"
proof (cases "\<exists>j. i \<le> j \<and> j < 1024 \<and> \<not> exist (total s ! j)")
  case True
  then obtain j where j: "i \<le> j" "j < 1024" "\<not> exist (total s ! j)" by blast
  let ?L = "LEAST j. i \<le> j \<and> \<not> exist (total s ! j)"
  have "i \<le> ?L \<and> \<not> exist (total s ! ?L)" by (rule LeastI [of _ j]) (use j in simp)
  moreover have "?L \<le> j" by (rule Least_le) (use j in simp)
  moreover have "exist (total s ! m)" if "i \<le> m" "m < ?L" for m using not_less_Least [OF that(2)] that(1) by simp
  ultimately show ?thesis using free_id_ok [OF assms, of s] True j that(2) [of ?L] by auto
qed (use free_id_ok [OF assms, of s] that(1) in auto)

text \<open>What a successful \<^verbatim>\<open>thread_create\<close> leaves.\<close>

definition created :: "nat \<Rightarrow> nat \<Rightarrow> nat \<Rightarrow> tid list \<Rightarrow> tsys \<Rightarrow> tsys \<Rightarrow> bool" where
  "created ID fn parg xs s s' \<longleftrightarrow> 1 \<le> ID \<and> ID < 1024 \<and> \<not> exist (thr s (int ID)) \<and> (\<forall>j. 1 \<le> j \<and> j < ID \<longrightarrow> exist (thr s (int j))) \<and>
     sched s' (xs @ [int ID]) \<and> currentThread s' = currentThread s \<and> intr s' = intr s \<and> other_same s s' \<and>
     (\<exists>a \<ge> brk s. stack (thr s' (int ID)) = Some a \<and>
        threadInfo (thr s' (int ID)) = Ctx_stub (stack_pointer (addr s a)) fn parg) \<and>
     (\<forall>i. 0 \<le> i \<and> i < 1024 \<and> i \<noteq> int ID \<longrightarrow> thr s' i = thr s i)"

lemma running_cong:
  assumes "running s" "length (total s') = 1024" "heap_fresh s'" "mem_ok s' = mem_ok s" "past_end s' = past_end s"
    "currentThread s' = currentThread s" "thr s' (currentThread s) = thr s (currentThread s)"
  shows "running s'"
  using assms by (simp add: running_def)

lemma create_ok:
  assumes sc: "sched s xs" and ID: "free_id (s\<lparr>intr := False\<rparr>) 1 = Ret (Some ID)" "1 \<le> ID" "ID < 1024" "\<not> exist (thr s (int ID))"
    "\<And>j. 1 \<le> j \<Longrightarrow> j < ID \<Longrightarrow> exist (thr s (int j))"
  shows "\<exists>s'. thread_create fn parg s = Ret (int ID, s') \<and> created ID fn parg xs s s'"
proof -
  let ?c = "currentThread s" and ?i = "int ID"
  have run: "running s" and cn: "?c \<notin> set xs" using sc by (auto simp: sched_def)
  then have C: "0 \<le> ?c" "?c < 1024" "exist (thr s ?c)" and len: "length (total s) = 1024" and mem: "\<And>p. mem_ok s p"
    and hf: "heap_fresh s" by (auto simp: running_def)
  have I: "0 \<le> ?i" "?i < 1024" "?i \<noteq> ?c" "?i \<notin> set xs" using ID C sc by (auto simp: sched_def)
  obtain ps where r: "ready_seg s ps xs" using sc by (auto simp: sched_def rq_def)
  define s0 where "s0 = s\<lparr>intr := False\<rparr>"
  define t1 where "t1 = (thr s ?i)\<lparr>threadID := ?i, exist := True, status := 0, nextThreadID := - 1, preThreadID := - 1, wqt := None, threadInfo := Ctx_none\<rparr>"
  define s2 where "s2 = (tset s0 ?i t1)\<lparr>brk := Suc (brk s)\<rparr>"
  define s3 where "s3 = tset s2 ?i (t1\<lparr>stack := Some (brk s)\<rparr>)"
  define t4 where "t4 = t1\<lparr>stack := Some (brk s), threadInfo := Ctx_stub (stack_pointer (addr s (brk s))) fn parg\<rparr>"
  define s4 where "s4 = tset s3 ?i t4"
  have th23: "thr s2 ?i = t1" "thr s3 ?i = t1\<lparr>stack := Some (brk s)\<rparr>"
    using I len by (simp_all add: s3_def s2_def s0_def thr_tset)
  have th4: "thr s4 j = (if j = ?i then t4 else thr s j)" if "0 \<le> j" for j
    using that I len by (simp add: s4_def s3_def s2_def s0_def thr_tset)
  have ids: "ids_ok s4 (set xs)" using r th4 I(4) by (auto simp: ready_seg_def ids_ok_thr)
  have r4: "ready_seg s4 ps xs" using r ids by (simp add: ready_seg_def s4_def s3_def s2_def s0_def)
  have f4: "heap_fresh s4" "mem_ok s4 (brk s4)" using hf mem by (auto simp: heap_fresh_def s4_def s3_def s2_def s0_def)
  obtain s5 where s5: "buildNodeRL ?i s4 = Ret (brk s4, s5)" "ready_seg s5 ps xs" "rsame (s4\<lparr>brk := Suc (brk s4)\<rparr>) s5"
    "rnodes s5 = (rnodes s4)(brk s4 \<mapsto> \<lparr>q_node = ?i, q_prv = None, q_next = None\<rparr>)" "ReadyList s5 = ReadyList s4" "heap_fresh s5"
    by (rule buildNodeRL_ok [OF r4 f4])
  have th5: "thr s5 = thr s4" using s5(3) by (simp add: rsame_def thr_def fun_eq_iff)
  have ids5: "ids_ok s5 {?i}" using th4 [OF I(1)] I th5 by (simp add: ids_ok_thr t4_def t1_def)
  have nd: "rnodes s5 (brk s4) = Some \<lparr>q_node = ?i, q_prv = None, q_next = None\<rparr>" using s5(4) by simp
  obtain s6 where s6: "pushbackRL (brk s4) s5 = Ret s6" "ready_seg s6 (ps @ [brk s4]) (xs @ [?i])" "rsame s5 s6"
    "\<And>p. p \<noteq> brk s4 \<Longrightarrow> rnodes s5 p = None \<Longrightarrow> rnodes s6 p = None"
    by (rule pushbackRL_ok [OF s5(2) ids5 I(4) nd]) auto
  have th6: "thr s6 = thr s4" using s6(3) th5 by (simp add: rsame_def thr_def fun_eq_iff)
  define s7 where "s7 = s6\<lparr>intr := intr s\<rparr>"
  have u: "tupd s0 ?i (\<lambda>t. t\<lparr>threadID := ?i, exist := True, status := 0, nextThreadID := - 1, preThreadID := - 1, wqt := None, threadInfo := Ctx_none\<rparr>) = Ret (tset s0 ?i t1)"
    "tupd s2 ?i (\<lambda>t. t\<lparr>stack := Some (brk s)\<rparr>) = Ret s3"
    "tupd s3 ?i (\<lambda>t. t\<lparr>threadInfo := Ctx_stub (stack_pointer (addr s3 (brk s))) fn parg\<rparr>) = Ret s4"
  proof -
    show "tupd s0 ?i (\<lambda>t. t\<lparr>threadID := ?i, exist := True, status := 0, nextThreadID := - 1, preThreadID := - 1, wqt := None, threadInfo := Ctx_none\<rparr>) = Ret (tset s0 ?i t1)"
      using I by (simp add: tupd_ok t1_def) (simp add: s0_def)
    show "tupd s2 ?i (\<lambda>t. t\<lparr>stack := Some (brk s)\<rparr>) = Ret s3" using I by (simp add: tupd_ok th23 s3_def)
    have "addr s3 = addr s" by (simp add: s3_def s2_def s0_def)
    then show "tupd s3 ?i (\<lambda>t. t\<lparr>threadInfo := Ctx_stub (stack_pointer (addr s3 (brk s))) fn parg\<rparr>) = Ret s4"
      using I by (simp add: tupd_ok th23 s4_def t4_def)
  qed
  have tm: "t_malloc (tset s0 ?i t1) = (Some (brk s), s2)" using mem by (simp add: t_malloc_def s2_def s0_def)
  have "tget s6 ?i = Ret t4" using I th4 [OF I(1)] th6 by (simp add: tget_thr)
  then have res: "thread_create fn parg s = Ret (?i, s7)"
    using ID(1) u tm s5(1) s6(1) unfolding thread_create_def s0_def [symmetric]
    by (simp add: s0_def [symmetric] s7_def t4_def t1_def Let_def)
  have o: "other_same s s7" "currentThread s7 = ?c" "intr s7 = intr s" "length (total s7) = 1024"
    using s5(3) s6(3) len by (simp_all add: other_same_def rsame_def s7_def s4_def s3_def s2_def s0_def)
  have "heap_fresh s7" using s5(3,6) s6(3,4) by (auto simp: heap_fresh_def rsame_def s7_def)
  moreover have th7: "thr s7 = thr s4" using th6 by (simp add: s7_def)
  ultimately have "running s7" using running_cong [OF run] o I th4 [OF C(1)] by (simp add: other_same_def)
  moreover have "rq s7 (xs @ [?i])" using s6(2) by (auto simp: rq_def ready_seg_def ids_ok_def s7_def)
  moreover have "status (thr s7 x) = 0 \<and> exist (thr s7 x)" if "x \<in> set (xs @ [?i])" for x
    using that sc sched_ids [OF sc, of x] th4 [of x] th7 I by (auto simp: sched_def t4_def t1_def)
  ultimately have "sched s7 (xs @ [?i])" using o(2) cn I by (auto simp: sched_def)
  then have "created ID fn parg xs s s7"
    using ID o th7 th4 I unfolding created_def by (auto simp: t4_def intro!: exI [of _ "brk s"])
  with res show ?thesis by blast
qed

lemma create_nomore:
  assumes "length (total s) = 1024" "\<And>j. 1 \<le> j \<Longrightarrow> j < 1024 \<Longrightarrow> exist (thr s (int j))"
  shows "thread_create fn parg s = Ret (THREAD_NOMORE, s\<lparr>intr := False\<rparr>)"
proof -
  have "free_id (s\<lparr>intr := False\<rparr>) 1 = Ret None" using free_id_ok [of 1 "s\<lparr>intr := False\<rparr>"] assms(2) by (auto simp: thr_def)
  then show ?thesis by (simp add: thread_create_def)
qed

section \<open>Wake up\<close>

lemma make_ready_ok:
  assumes sc: "sched s xs" and x: "ids_ok s {x}" "x \<notin> set xs" "x \<noteq> currentThread s" "exist (thr s x)"
  obtains s' where "make_ready x s = Ret s'" "sched s' (xs @ [x])" "other_same s s'" "currentThread s' = currentThread s" "intr s' = intr s"
    "\<And>i. 0 \<le> i \<Longrightarrow> i < 1024 \<Longrightarrow> thr s' i = (if i = x then (thr s x)\<lparr>status := 0\<rparr> else thr s i)"
proof -
  let ?c = "currentThread s"
  have run: "running s" and cn: "?c \<notin> set xs" using sc by (auto simp: sched_def)
  then have C: "0 \<le> ?c" "?c < 1024" and len: "length (total s) = 1024" and mem: "\<And>p. mem_ok s p" and hf: "heap_fresh s"
    by (auto simp: running_def)
  have X: "0 \<le> x" "x < 1024" "threadID (thr s x) = x" using x(1) by (auto simp: ids_ok_thr)
  obtain ps where r: "ready_seg s ps xs" using sc by (auto simp: sched_def rq_def)
  obtain s1 where s1: "buildNodeRL x s = Ret (brk s, s1)" "ready_seg s1 ps xs" "rsame (s\<lparr>brk := Suc (brk s)\<rparr>) s1"
    "rnodes s1 = (rnodes s)(brk s \<mapsto> \<lparr>q_node = x, q_prv = None, q_next = None\<rparr>)" "heap_fresh s1"
    by (rule buildNodeRL_ok [OF r hf mem])
  define s2 where "s2 = tset s1 x ((thr s1 x)\<lparr>status := 0\<rparr>)"
  have th1: "thr s1 = thr s" using s1(3) by (simp add: rsame_def thr_def fun_eq_iff)
  have th2: "thr s2 i = (if i = x then (thr s x)\<lparr>status := 0\<rparr> else thr s i)" if "0 \<le> i" for i
    using that X len s1(3) th1 by (simp add: s2_def thr_tset rsame_def)
  have r2: "ready_seg s2 ps xs" unfolding s2_def by (rule ready_seg_tset [OF s1(2)]) (use X in \<open>simp_all add: thr_def\<close>)
  have ids: "ids_ok s2 {x}" using X th2 by (simp add: ids_ok_thr)
  have nd: "rnodes s2 (brk s) = Some \<lparr>q_node = x, q_prv = None, q_next = None\<rparr>" using s1(4) by (simp add: s2_def)
  obtain s3 where s3: "pushbackRL (brk s) s2 = Ret s3" "ready_seg s3 (ps @ [brk s]) (xs @ [x])" "rsame s2 s3"
    "\<And>p. p \<noteq> brk s \<Longrightarrow> rnodes s2 p = None \<Longrightarrow> rnodes s3 p = None"
    by (rule pushbackRL_ok [OF r2 ids x(2) nd]) auto
  have th3: "thr s3 = thr s2" using s3(3) by (simp add: rsame_def thr_def fun_eq_iff)
  have res: "make_ready x s = Ret s3" using s1(1) s3(1) X by (simp add: make_ready_def tupd_ok s2_def [symmetric])
  have o: "other_same s s3" "currentThread s3 = ?c" "intr s3 = intr s" "length (total s3) = 1024" "brk s3 = Suc (brk s)"
    using s1(3) s3(3) len by (simp_all add: other_same_def rsame_def s2_def)
  have "heap_fresh s3" using s1(3,5) s3(3,4) by (auto simp: heap_fresh_def rsame_def s2_def)
  then have "running s3" using running_cong [OF run] o th3 th2 [OF C(1)] x(3) by (simp add: other_same_def)
  moreover have "status (thr s3 y) = 0 \<and> exist (thr s3 y)" if "y \<in> set (xs @ [x])" for y
    using that sc sched_ids [OF sc, of y] th2 [of y] th3 X x by (auto simp: sched_def)
  ultimately have "sched s3 (xs @ [x])" using o(2) cn x(3) s3(2) unfolding sched_def rq_def by auto
  with res o th2 th3 show ?thesis by (rule_tac that [of s3]) simp_all
qed

text \<open>Waking up the threads \<^verbatim>\<open>Y\<close> of the queue \<^verbatim>\<open>q\<close>, whose nodes are those of \<^verbatim>\<open>X\<close>.\<close>

definition woken :: "nat \<Rightarrow> tid set \<Rightarrow> tid set \<Rightarrow> tsys \<Rightarrow> tsys \<Rightarrow> bool" where
  "woken q X Y s s' \<longleftrightarrow> currentThread s' = currentThread s \<and> intr s' = intr s \<and> locks s' = locks s \<and> cvs s' = cvs s \<and>
     mem_ok s' = mem_ok s \<and> addr s' = addr s \<and> past_end s' = past_end s \<and> exited s' = exited s \<and> tout s' = tout s \<and>
     (\<forall>k. k \<noteq> q \<longrightarrow> wqs s' k = wqs s k) \<and> keeps (wnodes s) (wnodes s') X \<and>
     (\<forall>i. 0 \<le> i \<and> i < 1024 \<longrightarrow> thr s' i = (if i \<in> Y then (thr s i)\<lparr>status := 0\<rparr> else thr s i))"

lemma keeps_trans: "keeps h h1 X \<Longrightarrow> keeps h1 h2 Y \<Longrightarrow> X \<subseteq> Z \<Longrightarrow> Y \<subseteq> Z \<Longrightarrow> keeps h h2 Z"
  unfolding keeps_def by blast

lemma keeps_refl [simp]: "keeps h h X"
  by (simp add: keeps_def)

lemma wsame_sched:
  assumes w: "wsame q X s s'" and n: "\<And>k. wnodes s k = None \<Longrightarrow> wnodes s' k = None" and sc: "sched s xs"
  shows "sched s' xs"
proof -
  have e: "total s' = total s" "currentThread s' = currentThread s" "brk s' = brk s" "mem_ok s' = mem_ok s" "past_end s' = past_end s"
    "rnodes s' = rnodes s" "locks s' = locks s" "cvs s' = cvs s" using w by (simp_all add: wsame_def)
  have wq: "wqs s' k = None \<longleftrightarrow> wqs s k = None" for k using w by (cases "k = q") (simp_all add: wsame_def)
  have "heap_fresh s' " using sc e wq n unfolding sched_def running_def heap_fresh_def by auto
  then show ?thesis
    using sc e wsame_rq [OF w, of xs] by (simp add: sched_def running_def thr_def)
qed

lemma pop_wake_ok:
  assumes sc: "sched s xs" and w: "wq s q (y # ys)" and d: "set (y # ys) \<inter> (set xs \<union> {currentThread s}) = {}" and ex: "exist (thr s y)"
  obtains p wt s1 s2 where "wqs s q = Some wt" "head wt = Some p" "deleteNodewq q (Some p) s = Ret (y, s1)" "make_ready y s1 = Ret s2"
    "sched s2 (xs @ [y])" "wq s2 q ys" "woken q (set (y # ys)) {y} s s2" "y \<noteq> - 1"
proof -
  obtain wt p s1 where s1: "wqs s q = Some wt" "head wt = Some p" "deleteNodewq q (Some p) s = Ret (y, s1)" "wq s1 q ys"
    "wsame q (set (y # ys)) s s1" "\<And>k. wnodes s k = None \<Longrightarrow> wnodes s1 k = None"
    by (rule deleteNodewq_ok [OF w]) auto
  have sc1: "sched s1 xs" by (rule wsame_sched [OF s1(5,6) sc])
  have th: "thr s1 = thr s" and c1: "currentThread s1 = currentThread s" using s1(5) by (simp_all add: wsame_def thr_def fun_eq_iff)
  have idy: "ids_ok s {y}" using w by (simp add: wq_def ids_ok_def)
  then have ids: "ids_ok s1 {y}" using th by (simp add: ids_ok_thr)
  have y: "y \<notin> set xs" "y \<noteq> currentThread s1" using d c1 by auto
  obtain s2 where s2: "make_ready y s1 = Ret s2" "sched s2 (xs @ [y])" "other_same s1 s2" "currentThread s2 = currentThread s1" "intr s2 = intr s1"
    "\<And>i. 0 \<le> i \<Longrightarrow> i < 1024 \<Longrightarrow> thr s2 i = (if i = y then (thr s1 y)\<lparr>status := 0\<rparr> else thr s1 i)"
    by (rule make_ready_ok [OF sc1 ids y]) (use ex th in auto)
  have idy2: "0 \<le> y" "y < 1024" using idy by (auto simp: ids_ok_def)
  have yn: "y \<notin> set ys" using wq_distinct [OF w] by simp
  have "ids_ok s2 (set ys)" using s1(4) s2(6) th yn by (auto simp: wq_def ids_ok_thr)
  then have "wq s2 q ys" using s1(4) s2(3) by (simp add: wq_def other_same_def)
  moreover have "woken q (set (y # ys)) {y} s s2" using s1(5) s2(3-6) th by (simp add: woken_def wsame_def other_same_def)
  ultimately show ?thesis using s1(1-3) s2(1,2) idy2 by (rule_tac that [of wt p s1 s2]) auto
qed

lemma woken_trans:
  assumes "woken q X Y s s1" "woken q X' Y' s1 s2" "X' \<subseteq> X"
  shows "woken q X (Y \<union> Y') s s2"
proof -
  have "keeps (wnodes s) (wnodes s2) X" by (rule keeps_trans [of _ "wnodes s1" X _ X']) (use assms in \<open>auto simp: woken_def\<close>)
  then show ?thesis using assms unfolding woken_def by auto
qed

lemma wakeup_all_ok:
  assumes "sched s xs" "wq s q ys" "set ys \<inter> (set xs \<union> {currentThread s}) = {}" "\<forall>y \<in> set ys. exist (thr s y)" "length ys < n"
  shows "\<exists>s'. wakeup_all n q c s = Ret (c + int (length ys), s') \<and> sched s' (xs @ ys) \<and> wq s' q [] \<and> woken q (set ys) (set ys) s s'"
  using assms
proof (induction ys arbitrary: s xs c n)
  case Nil
  obtain m where "n = Suc m" using Nil.prems(5) by (cases n) auto
  moreover obtain w where "wqs s q = Some w" "head w = None" using wq_head [OF Nil.prems(2)] by auto
  ultimately show ?case using Nil.prems by (simp add: woken_def)
next
  case (Cons y ys)
  obtain m where n: "n = Suc m" "length ys < m" using Cons.prems(5) by (cases n) auto
  obtain p wt s1 s2 where st: "wqs s q = Some wt" "head wt = Some p" "deleteNodewq q (Some p) s = Ret (y, s1)" "make_ready y s1 = Ret s2"
    "sched s2 (xs @ [y])" "wq s2 q ys" "woken q (set (y # ys)) {y} s s2"
    by (rule pop_wake_ok [OF Cons.prems(1-3)]) (use Cons.prems(4) in auto)
  have "distinct (y # ys)" by (rule wq_distinct [OF Cons.prems(2)])
  then have d: "set ys \<inter> (set (xs @ [y]) \<union> {currentThread s2}) = {}" using Cons.prems(3) st(7) by (auto simp: woken_def)
  have ids: "\<forall>z \<in> set ys. 0 \<le> z \<and> z < 1024" using st(6) by (auto simp: wq_def ids_ok_def)
  have ex: "\<forall>z \<in> set ys. exist (thr s2 z)" using Cons.prems(4) st(7) ids by (auto simp: woken_def)
  obtain s3 where s3: "wakeup_all m q (c + 1) s2 = Ret (c + 1 + int (length ys), s3)" "sched s3 ((xs @ [y]) @ ys)" "wq s3 q []"
    "woken q (set ys) (set ys) s2 s3" using Cons.IH [OF st(5,6) d ex n(2), of "c + 1"] by blast
  have "woken q (set (y # ys)) (set (y # ys)) s s3" using woken_trans [OF st(7) s3(4)] by (simp add: insert_commute) blast
  then show ?case using n st(1-4) s3 by simp
qed

lemma sched_intr [simp]: "sched (s\<lparr>intr := b\<rparr>) xs = sched s xs" "wq (s\<lparr>intr := b\<rparr>) q ys = wq s q ys"
  "rq (s\<lparr>intr := b\<rparr>) xs = rq s xs"
  by (simp_all add: sched_def running_def heap_fresh_def rq_def ready_seg_def ids_ok_def wq_def)

lemma woken_intr: "woken q X Y (s\<lparr>intr := b\<rparr>) s' \<Longrightarrow> woken q X Y s (s'\<lparr>intr := intr s\<rparr>)"
  by (simp add: woken_def)

lemma wakeup_one_ok:
  assumes "sched s xs" "wq s q (y # ys)" "set (y # ys) \<inter> (set xs \<union> {currentThread s}) = {}" "exist (thr s y)"
  obtains s' where "thread_wakeup (Some q) 0 s = Ret (1, s')" "sched s' (xs @ [y])" "wq s' q ys" "woken q (set (y # ys)) {y} s s'"
proof -
  let ?s = "s\<lparr>intr := False\<rparr>"
  obtain p wt s1 s2 where st: "wqs ?s q = Some wt" "head wt = Some p" "deleteNodewq q (Some p) ?s = Ret (y, s1)" "make_ready y s1 = Ret s2"
    "sched s2 (xs @ [y])" "wq s2 q ys" "woken q (set (y # ys)) {y} ?s s2" "y \<noteq> - 1"
    by (rule pop_wake_ok [of ?s xs q y ys]) (use assms in simp_all)
  have "thread_wakeup (Some q) 0 s = Ret (1, s2\<lparr>intr := intr s\<rparr>)" using st(1-4,8) by (simp add: thread_wakeup_def)
  then show ?thesis using st(5,6) woken_intr [OF st(7)] by (rule_tac that [of "s2\<lparr>intr := intr s\<rparr>"]) simp_all
qed

lemma wakeup_ok:
  assumes "sched s xs" "wq s q ys" "set ys \<inter> (set xs \<union> {currentThread s}) = {}" "\<forall>y \<in> set ys. exist (thr s y)"
  obtains s' where "thread_wakeup (Some q) 1 s = Ret (int (length ys), s')" "sched s' (xs @ ys)" "wq s' q []" "woken q (set ys) (set ys) s s'"
proof (cases ys)
  case Nil
  obtain w where "wqs s q = Some w" "head w = None" using wq_head [OF assms(2)] Nil by auto
  then have "thread_wakeup (Some q) 1 s = Ret (0, s)" by (simp add: thread_wakeup_def)
  then show ?thesis using Nil assms by (rule_tac that [of s]) (simp_all add: woken_def)
next
  case (Cons z zs)
  let ?s = "s\<lparr>intr := False\<rparr>"
  have len: "length ys < LIST_FUEL"
    using ids_ok_length [of s ys] assms(2) wq_distinct [OF assms(2)] by (simp add: wq_def LIST_FUEL_def)
  obtain s1 where s1: "wakeup_all LIST_FUEL q 0 ?s = Ret (0 + int (length ys), s1)" "sched s1 (xs @ ys)" "wq s1 q []" "woken q (set ys) (set ys) ?s s1"
    using wakeup_all_ok [of ?s xs q ys LIST_FUEL 0] assms len by auto
  obtain w p where "wqs s q = Some w" "head w = Some p" using wq_head [OF assms(2)] Cons by auto
  then have "thread_wakeup (Some q) 1 s = Ret (int (length ys), s1\<lparr>intr := intr s\<rparr>)" using s1(1) by (simp add: thread_wakeup_def)
  then show ?thesis using s1(2,3) woken_intr [OF s1(4)] by (rule_tac that [of "s1\<lparr>intr := intr s\<rparr>"]) simp_all
qed

section \<open>Exit\<close>

text \<open>The yield of a thread that has just marked itself as exited.\<close>

lemma exited_yield:
  assumes sc: "sched s (x # xs)" and st: "stack (thr s (currentThread s)) = None" and s3: "s3 = tset s (currentThread s) ((thr s (currentThread s))\<lparr>exist := False, status := 2\<rparr>)"
  obtains s' where "thread_yield (Suc n) k THREAD_ANY s3 = Ret (None, s')" "currentThread s' = x" "sched s' xs" "\<not> intr s'" "other_same s s'"
    "\<not> exist (thr s' (currentThread s))" "status (thr s' (currentThread s)) = 2" "stack (thr s' (currentThread s)) = None"
    "\<And>i. 0 \<le> i \<Longrightarrow> i < 1024 \<Longrightarrow> i \<noteq> currentThread s \<Longrightarrow> exist (thr s' i) = exist (thr s i) \<and> wqt (thr s' i) = wqt (thr s i) \<and> threadInfo (thr s' i) = threadInfo (thr s i)"
proof -
  let ?c = "currentThread s"
  have run: "running s" and cn: "?c \<notin> set (x # xs)" using sc by (auto simp: sched_def)
  then have C: "0 \<le> ?c" "?c < 1024" "threadID (thr s ?c) = ?c" and len: "length (total s) = 1024" and hf: "heap_fresh s" by (auto simp: running_def)
  have X: "0 \<le> x" "x < 1024" "threadID (thr s x) = x" "exist (thr s x)" "status (thr s x) = 0" "x \<noteq> ?c"
    using sched_ids [OF sc, of x] sc cn by (auto simp: sched_def)
  have th3: "thr s3 i = (if i = ?c then (thr s ?c)\<lparr>exist := False, status := 2\<rparr> else thr s i)" if "0 \<le> i" for i
    using that C len by (simp add: s3 thr_tset)
  define s4 where "s4 = s3\<lparr>intr := False, total := map reap (total s3)\<rparr>"
  define s5 where "s5 = tset s4 ?c ((thr s4 ?c)\<lparr>threadInfo := Ctx_frames (F_yield (intr s3) # k)\<rparr>)"
  have l3: "length (total s3) = 1024" using len by (simp add: s3)
  then have l4: "length (total s4) = 1024" by (simp add: s4_def)
  have th4: "thr s4 i = reap (thr s3 i)" if "0 \<le> i" "i < 1024" for i using that l3 by (simp add: s4_def thr_def)
  have th5: "thr s5 i = (if i = ?c then (reap (thr s3 ?c))\<lparr>threadInfo := Ctx_frames (F_yield (intr s3) # k)\<rparr> else reap (thr s3 i))"
    if "0 \<le> i" "i < 1024" for i
    using that C l4 th4 by (simp add: s5_def thr_tset)
  obtain ps where r: "ready_seg s ps (x # xs)" using sc by (auto simp: sched_def rq_def)
  have r5: "ready_seg s5 ps (x # xs)"
  proof -
    have "ids_ok s5 (set (x # xs))" using th5 th3 rq_ids [of s "x # xs"] sc cn by (auto simp: ids_ok_thr sched_def)
    then show ?thesis using r by (simp add: ready_seg_def s5_def s4_def s3)
  qed
  obtain q nd where q: "ReadyList s = Some q" "rnodes s q = Some nd" "q_node nd = x" by (rule ready_head_id [OF r])
  have pick: "pick_next THREAD_ANY (s3\<lparr>intr := False\<rparr>) = Ret (Inr (x, None))" using q by (simp add: pick_next_def s3)
  have "stack (thr s3 ?c) = None" using th3 [OF C(1)] st by simp
  then have "free_stacks k (s3\<lparr>intr := False\<rparr>) = Ret (s3\<lparr>intr := False, total := map reap (total s3)\<rparr>)"
    using run C by (simp add: free_stacks_def running_def reap_def [abs_def] s3 tget_thr)
  then have fs: "free_stacks k (s3\<lparr>intr := False\<rparr>) = Ret s4" by (simp add: s4_def)
  have cc: "currentThread s4 = ?c" "currentThread s5 = ?c" by (simp_all add: s4_def s5_def s3)
  have up: "tupd s4 ?c (\<lambda>t. t\<lparr>threadInfo := Ctx_frames (F_yield (intr s3) # k)\<rparr>) = Ret s5" using C by (simp add: tupd_ok s5_def)
  have rqe: "requeue x s5 = Ret s5"
    using th5 [OF C(1,2)] th3 [OF C(1)] C cc by (simp add: requeue_def tget_thr)
  have tx: "thr s5 x = thr s x" using th5 [OF X(1,2)] th3 [OF X(1)] X by simp
  obtain s6 where s6: "unlink_ready x None s5 = Ret s6" "rq s6 xs" "rsame s5 s6" "\<And>p. rnodes s5 p = None \<Longrightarrow> rnodes s6 p = None"
    by (rule unlink_head [OF r5]) auto
  have th6: "thr s6 = thr s5" using s6(3) by (simp add: rsame_def thr_def fun_eq_iff)
  define s7 where "s7 = tset (s6\<lparr>currentThread := x\<rparr>) x ((thr s6 x)\<lparr>status := 1\<rparr>)"
  have sw: "switch_to x s6 = Ret (None, s7)" unfolding s7_def using X tx th6 by (intro switch_to_ok) simp_all
  have res: "thread_yield (Suc n) k THREAD_ANY s3 = Ret (None, s7)"
    using pick fs up rqe tx X s6(1) sw cc tget_thr [OF X(1,2), of s5] by simp
  have l6: "length (total s6) = 1024" using s6(3) l3 by (simp add: rsame_def s5_def s4_def)
  have th7: "thr s7 i = (if i = x then (thr s x)\<lparr>status := 1\<rparr> else thr s5 i)" if "0 \<le> i" for i
    using that X l6 th6 tx by (simp add: s7_def thr_tset)
  have "heap_fresh s5" using hf by (simp add: heap_fresh_def s5_def s4_def s3)
  then have "heap_fresh s7" using heap_fresh_rsame [OF _ s6(3,4)] by (simp add: s7_def heap_fresh_def)
  moreover have o: "other_same s s7" "currentThread s7 = x" "\<not> intr s7" "length (total s7) = 1024"
    using s6(3) l6 by (simp_all add: other_same_def rsame_def s7_def s5_def s4_def s3)
  ultimately have "running s7" using run X th7 [OF X(1)] by (simp add: running_def other_same_def)
  moreover have "rq s7 xs" unfolding s7_def
    by (rule rq_tset) (use s6(2) X in \<open>simp_all add: rq_def ready_seg_def ids_ok_def thr_def\<close>)
  moreover have "status (thr s7 y) = 0 \<and> exist (thr s7 y) \<and> y \<noteq> x" if "y \<in> set xs" for y
  proof -
    have "distinct (x # xs)" using rq_distinct [of s "x # xs"] sc by (simp add: sched_def)
    then have "y \<noteq> x" "y \<noteq> ?c" using that cn by auto
    then show ?thesis using that sched_ids [OF sc, of y] sc th7 [of y] th5 [of y] th3 [of y] by (auto simp: sched_def)
  qed
  ultimately have "sched s7 xs" using o(2) by (auto simp: sched_def)
  moreover have "\<not> exist (thr s7 ?c)" "status (thr s7 ?c) = 2" "stack (thr s7 ?c) = None"
    using th7 [OF C(1)] th5 [OF C(1,2)] th3 [OF C(1)] X(6) by (simp_all add: reap_def)
  moreover have "exist (thr s7 i) = exist (thr s i) \<and> wqt (thr s7 i) = wqt (thr s i) \<and> threadInfo (thr s7 i) = threadInfo (thr s i)"
    if "0 \<le> i" "i < 1024" "i \<noteq> ?c" for i
    using th7 [OF that(1)] th5 [OF that(1,2)] th3 [OF that(1)] that(3) by simp
  ultimately show ?thesis using res o by (rule_tac that [of s7]) blast+
qed

text \<open>With a stack of its own, that yield would free the stack it runs on.\<close>

lemma exited_yield_own_stack:
  assumes sc: "sched s (x # xs)" and st: "stack (thr s (currentThread s)) \<noteq> None" and k: "\<not> foreign_stack k"
    and s3: "s3 = tset s (currentThread s) ((thr s (currentThread s))\<lparr>exist := False, status := 2\<rparr>)"
  shows "thread_yield (Suc n) k THREAD_ANY s3 = Crash Undef"
proof -
  let ?c = "currentThread s"
  have run: "running s" using sc by (auto simp: sched_def)
  then have C: "0 \<le> ?c" "?c < 1024" and len: "length (total s) = 1024" by (auto simp: running_def)
  have t3: "thr s3 ?c = (thr s ?c)\<lparr>exist := False, status := 2\<rparr>" using C len by (simp add: s3 thr_tset)
  obtain ps where r: "ready_seg s ps (x # xs)" using sc by (auto simp: sched_def rq_def)
  obtain q nd where q: "ReadyList s = Some q" "rnodes s q = Some nd" "q_node nd = x" by (rule ready_head_id [OF r])
  have pick: "pick_next THREAD_ANY (s3\<lparr>intr := False\<rparr>) = Ret (Inr (x, None))" using q by (simp add: pick_next_def s3)
  have "tget (s3\<lparr>intr := False\<rparr>) (currentThread (s3\<lparr>intr := False\<rparr>)) = Ret (thr s3 ?c)"
    using C by (simp add: tget_thr s3)
  then have "free_stacks k (s3\<lparr>intr := False\<rparr>) = Crash Undef"
    using run t3 st k by (simp add: free_stacks_def running_def s3)
  then show ?thesis using pick by simp
qed

text \<open>
  The first half of \<^verbatim>\<open>thread_exit\<close>: the threads that wait for the exiting one are woken up
  and their queue is freed.
\<close>

lemma exit_first:
  assumes sc: "sched s xs" and w: "wqt (thr s (currentThread s)) = None \<and> ys = [] \<or> (\<exists>q. wqt (thr s (currentThread s)) = Some q \<and> wq s q ys)"
    and d: "set ys \<inter> (set xs \<union> {currentThread s}) = {}" and ex: "\<forall>y \<in> set ys. exist (thr s y)"
  obtains s2 where "sched s2 (xs @ ys)" "currentThread s2 = currentThread s" "thr s2 (currentThread s) = (thr s (currentThread s))\<lparr>wqt := None\<rparr>"
    "\<And>q. wqt (thr s (currentThread s)) = Some q \<Longrightarrow> wqs s2 q = None"
    "\<And>i. 0 \<le> i \<Longrightarrow> i < 1024 \<Longrightarrow> exist (thr s2 i) = exist (thr s i)"
    "\<And>n. thread_exit (Suc n) k s =
      (if xs @ ys \<noteq> [] then
         bnd (thread_yield n (F_exit (intr s) # k) THREAD_ANY (tset s2 (currentThread s) ((thr s2 (currentThread s))\<lparr>exist := False, status := 2\<rparr>))) (\<lambda>(r, s4).
         case r of None \<Rightarrow> Ret (None, s4) | Some _ \<Rightarrow> Ret (Some THREAD_NONE, leave (intr s) s4))
       else Ret (Some THREAD_NONE, s2\<lparr>intr := intr s\<rparr>))"
proof -
  let ?c = "currentThread s" and ?s = "s\<lparr>intr := False\<rparr>"
  have C: "0 \<le> ?c" "?c < 1024" using sc by (auto simp: sched_def running_def)
  have sc0: "sched ?s xs" using sc by simp
  show ?thesis using w
  proof (elim disjE conjE exE)
    assume n: "wqt (thr s ?c) = None" "ys = []"
    have rl: "(ReadyList ?s \<noteq> None) = (xs @ ys \<noteq> [])" using rq_head [of ?s xs] sc0 n by (auto simp: sched_def)
    show ?thesis
      by (rule that [of ?s])
        (use n sc rl C tget_thr [OF C, of ?s] tupd_ok [OF C, of ?s] in \<open>auto simp del: thread_yield.simps\<close>)
  next
    fix q assume q: "wqt (thr s ?c) = Some q" "wq s q ys"
    obtain s1 where s1: "thread_wakeup (Some q) 1 ?s = Ret (int (length ys), s1)" "sched s1 (xs @ ys)" "wq s1 q []" "woken q (set ys) (set ys) ?s s1"
      by (rule wakeup_ok [of ?s xs q ys]) (use sc q d ex in simp_all)
    have c1: "currentThread s1 = ?c" "thr s1 ?c = thr s ?c" "intr s1 = False" using s1(4) C d by (auto simp: woken_def)
    define s2 where "s2 = tset (s1\<lparr>wqs := (wqs s1)(q := None)\<rparr>) ?c ((thr s1 ?c)\<lparr>wqt := None\<rparr>)"
    have l1: "length (total s1) = 1024" using s1(2) by (simp add: sched_def running_def)
    have th2: "thr s2 i = (if i = ?c then (thr s ?c)\<lparr>wqt := None\<rparr> else thr s1 i)" if "0 \<le> i" for i
      using that C l1 c1 by (simp add: s2_def thr_tset)
    have cs: "?c \<notin> set (xs @ ys)" using s1(2) c1(1) by (auto simp: sched_def)
    have "rq s2 (xs @ ys)"
      unfolding s2_def by (rule rq_tset) (use s1(2) C c1 in \<open>simp_all add: sched_def rq_def ready_seg_def ids_ok_def thr_def\<close>)
    moreover have "running s2"
      using s1(2) c1 th2 [OF C(1)] l1 unfolding sched_def running_def by (auto simp: s2_def heap_fresh_def)
    moreover have "status (thr s2 y) = 0 \<and> exist (thr s2 y)" if "y \<in> set (xs @ ys)" for y
      using that s1(2) sched_ids [OF s1(2), of y] th2 [of y] cs by (auto simp: sched_def)
    moreover have c2: "currentThread s2 = ?c" by (simp add: s2_def c1)
    ultimately have sc2: "sched s2 (xs @ ys)" using cs unfolding sched_def by auto
    have rl: "(ReadyList s2 \<noteq> None) = (xs @ ys \<noteq> [])" using rq_head [of s2 "xs @ ys"] sc2 by (auto simp: sched_def)
    have tu: "tupd (s1\<lparr>wqs := (wqs s1)(q := None)\<rparr>) ?c (\<lambda>t. t\<lparr>wqt := None\<rparr>) = Ret s2" using C by (simp add: tupd_ok s2_def)
    have eq: "thread_exit (Suc n) k s =
      (if xs @ ys \<noteq> [] then
         bnd (thread_yield n (F_exit (intr s) # k) THREAD_ANY (tset s2 ?c ((thr s2 ?c)\<lparr>exist := False, status := 2\<rparr>))) (\<lambda>(r, s4).
         case r of None \<Rightarrow> Ret (None, s4) | Some _ \<Rightarrow> Ret (Some THREAD_NONE, leave (intr s) s4))
       else Ret (Some THREAD_NONE, s2\<lparr>intr := intr s\<rparr>))" for n
      unfolding rl [symmetric]
      using q(1) s1(1) tu tget_thr [OF C, of ?s] tupd_ok [OF C, of s2] by (simp del: thread_yield.simps)
    have "exist (thr s2 i) = exist (thr s i)" if "0 \<le> i" "i < 1024" for i
      using th2 [OF that(1)] that s1(4) by (simp add: woken_def)
    then show ?thesis using sc2 c2 th2 [OF C(1)] q(1) eq by (rule_tac that [of s2]) (simp_all add: s2_def)
  qed
qed

section \<open>Kill\<close>

lemma kill_seg:
  assumes "seg (rnodes s) pv p ps xs e None" "ids_ok s (set xs)" "length xs < n" "ReadyList s \<noteq> None"
  shows "x \<notin> set xs \<Longrightarrow> kill_find n s x p = Crash Undef"
    "distinct xs \<Longrightarrow> i < length xs \<Longrightarrow> xs ! i = x \<Longrightarrow> kill_find n s x p = Ret (Some (ps ! i), tset s x ((thr s x)\<lparr>exist := False\<rparr>))"
proof -
  have "(x \<notin> set xs \<longrightarrow> kill_find n s x p = Crash Undef) \<and>
    (distinct xs \<longrightarrow> i < length xs \<longrightarrow> xs ! i = x \<longrightarrow> kill_find n s x p = Ret (Some (ps ! i), tset s x ((thr s x)\<lparr>exist := False\<rparr>)))"
    using assms
  proof (induction xs arbitrary: ps pv p n i)
    case Nil
    then show ?case by (cases n) auto
  next
    case (Cons y xs)
    obtain m where n: "n = Suc m" "length xs < m" using Cons.prems(3) by (cases n) auto
    obtain q qs r where q: "ps = q # qs" "p = Some q" "rnodes s q = Some \<lparr>q_node = y, q_prv = pv, q_next = r\<rparr>"
      "seg (rnodes s) (Some q) r qs xs e None" using Cons.prems(1) by (auto simp: seg_Cons)
    have y: "tid_of s \<lparr>q_node = y, q_prv = pv, q_next = r\<rparr> = Ret y" "0 \<le> y" "y < 1024"
      using tid_of_ok [OF Cons.prems(2)] Cons.prems(2) by (auto simp: ids_ok_def)
    have ids: "ids_ok s (set xs)" using Cons.prems(2) by (simp add: ids_ok_def)
    note ih = Cons.IH [OF q(4) ids n(2) Cons.prems(4)]
    have st: "kill_find n s x p = (if y = x then Ret (Some q, tset s x ((thr s x)\<lparr>exist := False\<rparr>)) else kill_find m s x r)"
      using n q y Cons.prems(4) by (auto simp: tupd_ok)
    show ?case
    proof (cases i)
      case 0 then show ?thesis using st ih q(1) by auto
    next
      case (Suc j) then show ?thesis using st ih [of j] q(1) by auto
    qed
  qed
  then show "x \<notin> set xs \<Longrightarrow> kill_find n s x p = Crash Undef"
    "distinct xs \<Longrightarrow> i < length xs \<Longrightarrow> xs ! i = x \<Longrightarrow> kill_find n s x p = Ret (Some (ps ! i), tset s x ((thr s x)\<lparr>exist := False\<rparr>))"
    by auto
qed

lemma kill_ok:
  assumes sc: "sched s xs" and x: "x \<in> set xs" and w: "wqt (thr s (currentThread s)) = None"
  obtains s' where "thread_kill x s = Ret (x, s')" "sched s' (remove1 x xs)" "currentThread s' = currentThread s" "intr s' = intr s"
    "\<not> exist (thr s' x)" "stack (thr s' x) = None" "other_same s s'"
    "\<And>i. 0 \<le> i \<Longrightarrow> i < 1024 \<Longrightarrow> i \<noteq> x \<Longrightarrow> thr s' i = thr s i"
proof -
  let ?c = "currentThread s" and ?s = "s\<lparr>intr := False\<rparr>"
  have C: "0 \<le> ?c" "?c < 1024" and len: "length (total s) = 1024" and hf: "heap_fresh s" and run: "running s"
    using sc by (auto simp: sched_def running_def)
  have X: "0 \<le> x" "x < 1024" "threadID (thr s x) = x" "x \<noteq> ?c" using sched_ids [OF sc x] sc x by (auto simp: sched_def)
  obtain ps where r: "ready_seg s ps xs" using sc by (auto simp: sched_def rq_def)
  have sg: "seg (rnodes ?s) None (ReadyList s) ps xs (endOfReady s) None" "distinct xs" "ids_ok ?s (set xs)"
    using r by (auto simp: ready_seg_def ids_ok_def)
  obtain i where i: "i < length xs" "xs ! i = x" using x by (auto simp: in_set_conv_nth)
  have fuel: "length xs < LIST_FUEL" using ids_ok_length [OF sg(3,2)] by (simp add: LIST_FUEL_def)
  have "rq s xs" "xs \<noteq> []" using r x by (auto simp: rq_def)
  then have rl: "ReadyList ?s \<noteq> None" using rq_head [of s xs] by simp
  define s1 where "s1 = tset ?s x ((thr s x)\<lparr>exist := False\<rparr>)"
  define s2 where "s2 = tset s1 x ((thr s1 x)\<lparr>stack := None\<rparr>)"
  have l1: "length (total s1) = 1024" using len by (simp add: s1_def)
  have kf: "kill_find LIST_FUEL ?s x (ReadyList s) = Ret (Some (ps ! i), s1)"
    using kill_seg(2) [OF sg(1,3) fuel rl sg(2) i] by (simp add: s1_def)
  have th1: "thr s1 j = (if j = x then (thr s x)\<lparr>exist := False\<rparr> else thr s j)" if "0 \<le> j" for j
    using that X len by (simp add: s1_def thr_tset)
  have th2: "thr s2 j = (if j = x then (thr s x)\<lparr>exist := False, stack := None\<rparr> else thr s j)" if "0 \<le> j" for j
    using that X len th1 l1 by (simp add: s2_def thr_tset)
  obtain nd where nd: "rnodes s (ps ! i) = Some nd" "q_node nd = x"
    using seg_nodes [OF sg(1), of i] i seg_length [OF sg(1)] by auto
  have "ids_ok s2 (set xs)" using r th2 by (auto simp: ready_seg_def ids_ok_thr)
  then have r2: "ready_seg s2 ps xs" using r by (simp add: ready_seg_def s2_def s1_def)
  obtain s3 where s3: "unlink_ready (xs ! i) (Some (ps ! i)) s2 = Ret s3" "rq s3 (remove1 (xs ! i) xs)" "rsame s2 s3"
    "\<And>p. rnodes s2 p = None \<Longrightarrow> rnodes s3 p = None"
    by (rule unlink_ready_ok [OF r2 i(1), of "Some (ps ! i)"]) auto
  have dn: "deleteNode (ps ! i) s2 = Ret s3"
    using s3(1) nd i(2) ready_seg_id [OF r2 i(1), of nd] by (simp add: deleteNode_def s2_def s1_def)
  define s4 where "s4 = s3\<lparr>intr := intr s\<rparr>"
  have rn1: "rnodes s1 = rnodes s" "currentThread s1 = ?c" by (simp_all add: s1_def)
  have tg: "tget s1 ?c = Ret (thr s ?c)" "tget s1 x = Ret (thr s1 x)" using C X th1 [OF C(1)] by (simp_all add: tget_thr)
  have up: "tupd s1 x (\<lambda>t. t\<lparr>stack := None\<rparr>) = Ret s2" using X by (simp add: tupd_ok s2_def)
  have tid1: "threadID (thr s1 x) = x" using th1 [OF X(1)] X by simp
  have res: "thread_kill x s = Ret (x, s4)"
    using kf rn1 tg up tid1 w nd dn by (simp add: thread_kill_def s4_def)
  have th4: "thr s4 j = thr s2 j" for j using s3(3) by (simp add: s4_def rsame_def thr_def)
  have "heap_fresh s2" using hf by (simp add: heap_fresh_def s2_def s1_def)
  then have "heap_fresh s4" using heap_fresh_rsame [OF _ s3(3,4)] by (simp add: s4_def heap_fresh_def)
  moreover have o: "other_same s s4" "currentThread s4 = ?c" "intr s4 = intr s" "length (total s4) = 1024"
    using s3(3) len by (simp_all add: other_same_def rsame_def s4_def s2_def s1_def)
  ultimately have "running s4" using running_cong [OF run] th4 th2 [OF C(1)] X(4) by (simp add: other_same_def)
  moreover have "rq s4 (remove1 x xs)" using s3(2) i(2) by (simp add: s4_def)
  moreover have "status (thr s4 y) = 0 \<and> exist (thr s4 y)" if "y \<in> set (remove1 x xs)" for y
    using that sc sched_ids [OF sc, of y] th4 th2 [of y] sg(2) by (auto simp: sched_def set_remove1_eq)
  ultimately have "sched s4 (remove1 x xs)"
    using sc o(2) set_remove1_subset [of x xs] unfolding sched_def by auto
  with res o th4 th2 X show ?thesis by (rule_tac that [of s4]) simp_all
qed

lemma kill_missing:
  assumes sc: "sched s (y # ys)" and x: "x \<notin> set (y # ys)"
  shows "thread_kill x s = Crash Undef"
proof -
  let ?s = "s\<lparr>intr := False\<rparr>"
  obtain ps where r: "ready_seg s ps (y # ys)" using sc by (auto simp: sched_def rq_def)
  have sg: "seg (rnodes ?s) None (ReadyList s) ps (y # ys) (endOfReady s) None" "distinct (y # ys)" "ids_ok ?s (set (y # ys))"
    using r by (auto simp: ready_seg_def ids_ok_def)
  have fuel: "length (y # ys) < LIST_FUEL" using ids_ok_length [OF sg(3,2)] by (simp add: LIST_FUEL_def)
  have rl: "ReadyList ?s \<noteq> None" using rq_head [of s "y # ys"] r by (auto simp: rq_def)
  show ?thesis using kill_seg(1) [OF sg(1,3) fuel rl x] by (simp add: thread_kill_def)
qed

text \<open>When the caller has a wait queue, the search in it decides.\<close>

lemma find_wait_seg:
  assumes "seg (wnodes s) pv p ps xs e None" "ids_ok s (set xs)" "length xs < n"
  shows "x \<notin> set xs \<Longrightarrow> find_wait n s x p = Ret None"
    "x \<in> set xs \<Longrightarrow> \<exists>k nd. find_wait n s x p = Ret (Some k) \<and> wnodes s k = Some nd \<and> q_node nd = x"
proof -
  have "(x \<notin> set xs \<longrightarrow> find_wait n s x p = Ret None) \<and>
    (x \<in> set xs \<longrightarrow> (\<exists>k nd. find_wait n s x p = Ret (Some k) \<and> wnodes s k = Some nd \<and> q_node nd = x))"
    using assms
  proof (induction xs arbitrary: ps pv p n)
    case Nil
    then show ?case by (cases n) auto
  next
    case (Cons y xs)
    obtain m where n: "n = Suc m" "length xs < m" using Cons.prems(3) by (cases n) auto
    obtain q qs r where q: "p = Some q" "wnodes s q = Some \<lparr>q_node = y, q_prv = pv, q_next = r\<rparr>"
      "seg (wnodes s) (Some q) r qs xs e None" using Cons.prems(1) by (auto simp: seg_Cons)
    have y: "tid_of s \<lparr>q_node = y, q_prv = pv, q_next = r\<rparr> = Ret y" using tid_of_ok [OF Cons.prems(2)] by simp
    have "ids_ok s (set xs)" using Cons.prems(2) by (simp add: ids_ok_def)
    note ih = Cons.IH [OF q(3) this n(2)]
    have "find_wait n s x p = (if y = x then Ret (Some q) else find_wait m s x r)" using n q y by auto
    then show ?case using ih q(2) by auto
  qed
  then show "x \<notin> set xs \<Longrightarrow> find_wait n s x p = Ret None"
    "x \<in> set xs \<Longrightarrow> \<exists>k nd. find_wait n s x p = Ret (Some k) \<and> wnodes s k = Some nd \<and> q_node nd = x" by auto
qed

lemma find_wait_ok:
  assumes "wq s q ys"
  shows "\<exists>w. wqs s q = Some w \<and> (head w = None \<longleftrightarrow> ys = []) \<and> (x \<notin> set ys \<longrightarrow> find_wait LIST_FUEL s x (head w) = Ret None) \<and>
    (x \<in> set ys \<longrightarrow> (\<exists>k nd. find_wait LIST_FUEL s x (head w) = Ret (Some k) \<and> wnodes s k = Some nd \<and> q_node nd = x))"
proof -
  obtain w ps where w: "wqs s q = Some w" "seg (wnodes s) None (head w) ps ys (tail w) None" and ids: "ids_ok s (set ys)"
    using assms by (auto simp: wq_def dll_def)
  have "length ys < LIST_FUEL" using ids_ok_length [OF ids wq_distinct [OF assms]] by (simp add: LIST_FUEL_def)
  note f = find_wait_seg [OF w(2) ids this, of x]
  have "head w = None \<longleftrightarrow> ys = []" using wq_head [OF assms] w(1) by auto
  then show ?thesis by (intro exI [of _ w] conjI impI w(1) f)
qed

lemma kill_ready_waited:
  assumes sc: "sched s xs" and x: "x \<in> set xs" and q: "wqt (thr s (currentThread s)) = Some q" "wq s q ys" and d: "set xs \<inter> set ys = {}"
  shows "thread_kill x s = Ret (THREAD_INVALID, tset s x ((thr s x)\<lparr>exist := False\<rparr>))"
proof -
  let ?c = "currentThread s" and ?s = "s\<lparr>intr := False\<rparr>"
  have C: "0 \<le> ?c" "?c < 1024" and len: "length (total s) = 1024" using sc by (auto simp: sched_def running_def)
  have X: "0 \<le> x" "x < 1024" "threadID (thr s x) = x" "x \<noteq> ?c" using sched_ids [OF sc x] sc x by (auto simp: sched_def)
  obtain ps where r: "ready_seg s ps xs" using sc by (auto simp: sched_def rq_def)
  have sg: "seg (rnodes ?s) None (ReadyList s) ps xs (endOfReady s) None" "distinct xs" "ids_ok ?s (set xs)"
    using r by (auto simp: ready_seg_def ids_ok_def)
  obtain i where i: "i < length xs" "xs ! i = x" using x by (auto simp: in_set_conv_nth)
  have fuel: "length xs < LIST_FUEL" using ids_ok_length [OF sg(3,2)] by (simp add: LIST_FUEL_def)
  have "rq s xs" "xs \<noteq> []" using r x by (auto simp: rq_def)
  then have rl: "ReadyList ?s \<noteq> None" using rq_head [of s xs] by simp
  define s1 where "s1 = tset ?s x ((thr s x)\<lparr>exist := False\<rparr>)"
  have kf: "kill_find LIST_FUEL ?s x (ReadyList s) = Ret (Some (ps ! i), s1)"
    using kill_seg(2) [OF sg(1,3) fuel rl sg(2) i] by (simp add: s1_def)
  have "wq s1 q ys" unfolding s1_def by (rule wq_tset) (use q X in \<open>simp_all add: thr_def\<close>)
  from find_wait_ok [OF this, of x] obtain w where w: "wqs s1 q = Some w" "x \<notin> set ys \<longrightarrow> find_wait LIST_FUEL s1 x (head w) = Ret None"
    by blast
  have tg: "currentThread s1 = ?c" "tget s1 ?c = Ret (thr s ?c)" using C X len by (simp_all add: tget_thr s1_def thr_tset)
  have "x \<notin> set ys" using x d by blast
  then have "thread_kill x s = Ret (THREAD_INVALID, s1\<lparr>intr := intr s\<rparr>)"
    using kf tg q(1) w by (simp add: thread_kill_def)
  then show ?thesis by (simp add: s1_def tset_def)
qed

lemma kill_waiting:
  assumes sc: "sched s []" and w: "wqt (thr s (currentThread s)) = None \<and> ys = [] \<or> (\<exists>q. wqt (thr s (currentThread s)) = Some q \<and> wq s q ys)"
  shows "x \<in> set ys \<Longrightarrow> thread_kill x s = Ret (x, tset s x ((thr s x)\<lparr>exist := False\<rparr>))"
    "x \<notin> set ys \<Longrightarrow> thread_kill x s = Ret (THREAD_INVALID, s)"
proof -
  let ?c = "currentThread s" and ?s = "s\<lparr>intr := False\<rparr>"
  have C: "0 \<le> ?c" "?c < 1024" using sc by (auto simp: sched_def running_def)
  have rl: "ReadyList s = None" using rq_head [of s "[]"] sc by (auto simp: sched_def)
  have kf: "kill_find LIST_FUEL ?s x (ReadyList s) = Ret (None, ?s)" using rl by (simp add: LIST_FUEL_def eval_nat_numeral)
  have tg: "tget ?s ?c = Ret (thr s ?c)" using C by (simp add: tget_thr)
  have "(x \<in> set ys \<longrightarrow> thread_kill x s = Ret (x, tset s x ((thr s x)\<lparr>exist := False\<rparr>))) \<and>
    (x \<notin> set ys \<longrightarrow> thread_kill x s = Ret (THREAD_INVALID, s))"
    using w
  proof (elim disjE conjE exE)
    assume "wqt (thr s ?c) = None" "ys = []"
    then show ?thesis using kf tg by (simp add: thread_kill_def)
  next
    fix q assume q: "wqt (thr s ?c) = Some q" "wq s q ys"
    then have "wq ?s q ys" by simp
    note fw = find_wait_ok [OF this, of x]
    obtain w where w: "wqs ?s q = Some w" "head w = None \<longleftrightarrow> ys = []" "x \<notin> set ys \<longrightarrow> find_wait LIST_FUEL ?s x (head w) = Ret None"
      "x \<in> set ys \<longrightarrow> (\<exists>k nd. find_wait LIST_FUEL ?s x (head w) = Ret (Some k) \<and> wnodes ?s k = Some nd \<and> q_node nd = x)"
      using fw by (elim exE conjE) (rule that)
    show ?thesis
    proof (cases "x \<in> set ys")
      case True
      then obtain k nd where k: "find_wait LIST_FUEL ?s x (head w) = Ret (Some k)" "wnodes ?s k = Some nd" "q_node nd = x"
        using w(4) by blast
      have "0 \<le> x" "x < 1024" using q(2) True by (auto simp: wq_def ids_ok_def)
      then have up: "tupd ?s x (\<lambda>t. t\<lparr>exist := False\<rparr>) = Ret (tset ?s x ((thr s x)\<lparr>exist := False\<rparr>))" by (simp add: tupd_ok)
      obtain hp where "head w = Some hp" using w(2) True by (cases "head w") auto
      then have "thread_kill x s = Ret (x, (tset ?s x ((thr s x)\<lparr>exist := False\<rparr>))\<lparr>intr := intr s\<rparr>)"
        using kf tg q(1) w(1) k up by (simp add: thread_kill_def)
      then show ?thesis using True by (simp add: tset_def)
    next
      case False
      then show ?thesis using kf tg q(1) w(1-3) by (cases "ys = []") (simp_all add: thread_kill_def)
    qed
  qed
  then show "x \<in> set ys \<Longrightarrow> thread_kill x s = Ret (x, tset s x ((thr s x)\<lparr>exist := False\<rparr>))"
    "x \<notin> set ys \<Longrightarrow> thread_kill x s = Ret (THREAD_INVALID, s)" by auto
qed

section \<open>Turns\<close>

text \<open>A context that comes back to the code that called the library.\<close>

definition resumable :: "ctx \<Rightarrow> bool" where
  "resumable c \<longleftrightarrow> (\<exists>rsp fn parg. c = Ctx_stub rsp fn parg) \<or> (\<exists>e. c = Ctx_frames [F_yield e] \<or> c = Ctx_frames [F_yield e, F_handler])"

definition turns_ok :: "tsys \<Rightarrow> tid list \<Rightarrow> bool" where
  "turns_ok s xs \<longleftrightarrow> sched s xs \<and> (\<forall>x \<in> set xs. resumable (threadInfo (thr s x)))"

text \<open>A turn: the running thread yields to any, and the next one is dispatched.\<close>

definition turn :: "tsys \<Rightarrow> (tid option \<times> tsys) res" where
  "turn s =
    bnd (thread_yield YIELD_FUEL [] THREAD_ANY s) (\<lambda>(r, s1).
    case r of None \<Rightarrow> dispatch s1 | Some v \<Rightarrow> Ret (Some v, s1))"

fun turns :: "nat \<Rightarrow> tsys \<Rightarrow> tsys res" where
  "turns 0 s = Ret s"
| "turns (Suc n) s = bnd (turn s) (\<lambda>(_, s1). turns n s1)"

lemma dispatch_ok:
  assumes "running s" "resumable (threadInfo (thr s (currentThread s)))"
  obtains r b where "dispatch s = Ret (Some r, s\<lparr>intr := b\<rparr>)"
proof -
  have C: "0 \<le> currentThread s" "currentThread s < 1024" using assms(1) by (auto simp: running_def)
  have t: "tget s' (currentThread s) = Ret (thr s (currentThread s))" if "total s' = total s" for s'
    using C that by (simp add: tget_def thr_def)
  from assms(2) show ?thesis
    unfolding resumable_def by (elim disjE exE; rule_tac that) (simp_all add: dispatch_def t interrupts_on_def interrupts_set_def)
qed

lemma turn_ok:
  assumes "turns_ok s (x # xs)"
  obtains r s' where "turn s = Ret (Some r, s')" "turns_ok s' (xs @ [currentThread s])" "currentThread s' = x" "other_same s s'"
proof -
  have sc: "sched s (x # xs)" and rs: "\<And>y. y \<in> set (x # xs) \<Longrightarrow> resumable (threadInfo (thr s y))" using assms by (auto simp: turns_ok_def)
  obtain n where f: "YIELD_FUEL = Suc n" by (simp add: YIELD_FUEL_def)
  obtain s1 where s1: "thread_yield (Suc n) [] THREAD_ANY s = Ret (None, s1)" "yielded [] x (x # xs) s s1"
    using yield_any_ok [OF sc] by blast
  have cn: "currentThread s \<noteq> x" "currentThread s \<notin> set xs" using sc by (auto simp: sched_def)
  have y: "currentThread s1 = x" "sched s1 (xs @ [currentThread s])" "other_same s s1"
    and ti: "threadInfo (thr s1 (currentThread s)) = Ctx_frames [F_yield (intr s)]"
      "\<And>i. 0 \<le> i \<Longrightarrow> i < 1024 \<Longrightarrow> i \<noteq> currentThread s \<Longrightarrow> threadInfo (thr s1 i) = threadInfo (thr s i)"
    using s1(2) by (auto simp: yielded_def)
  have res: "resumable (threadInfo (thr s1 z))" if "z \<in> set (x # xs @ [currentThread s])" for z
  proof (cases "z = currentThread s")
    case True then show ?thesis using ti(1) by (simp add: resumable_def)
  next
    case False
    then have "z \<in> set (x # xs)" using that by auto
    then show ?thesis using ti(2) [of z] sched_ids [OF sc, of z] False rs by auto
  qed
  obtain r b where d: "dispatch s1 = Ret (Some r, s1\<lparr>intr := b\<rparr>)"
    by (rule dispatch_ok [of s1]) (use y res in \<open>auto simp: sched_def\<close>)
  have "turn s = Ret (Some r, s1\<lparr>intr := b\<rparr>)" using s1(1) d by (simp add: turn_def f)
  moreover have "turns_ok (s1\<lparr>intr := b\<rparr>) (xs @ [currentThread s])" using y(2) res by (simp add: turns_ok_def)
  ultimately show ?thesis using y by (rule_tac that [of r "s1\<lparr>intr := b\<rparr>"]) (simp_all add: other_same_def)
qed

lemma turns_rotate:
  "turns_ok s xs \<Longrightarrow> i < length xs \<Longrightarrow>
    \<exists>s'. turns (Suc i) s = Ret s' \<and> currentThread s' = xs ! i \<and> turns_ok s' (drop (Suc i) xs @ [currentThread s] @ take i xs)"
proof (induction i arbitrary: s xs)
  case 0
  then obtain x ys where xs: "xs = x # ys" by (cases xs) auto
  obtain r s' where "turn s = Ret (Some r, s')" "turns_ok s' (ys @ [currentThread s])" "currentThread s' = x"
    by (rule turn_ok [OF "0.prems"(1) [unfolded xs]]) blast
  then show ?case using xs by simp
next
  case (Suc i)
  then obtain x ys where xs: "xs = x # ys" by (cases xs) auto
  obtain r s1 where s1: "turn s = Ret (Some r, s1)" "turns_ok s1 (ys @ [currentThread s])" "currentThread s1 = x"
    by (rule turn_ok [OF Suc.prems(1) [unfolded xs]]) blast
  have i: "i < length (ys @ [currentThread s])" "i < length ys" using Suc.prems(2) xs by auto
  from Suc.IH [OF s1(2) i(1)] obtain s' where s': "turns (Suc i) s1 = Ret s'" "currentThread s' = (ys @ [currentThread s]) ! i"
    "turns_ok s' (drop (Suc i) (ys @ [currentThread s]) @ [x] @ take i (ys @ [currentThread s]))" using s1(3) by auto
  have "turns (Suc (Suc i)) s = Ret s'" using s1(1) s'(1) by simp
  moreover have "currentThread s' = xs ! Suc i" using s'(2) i(2) xs by (simp add: nth_append)
  moreover have "turns_ok s' (drop (Suc (Suc i)) xs @ [currentThread s] @ take (Suc i) xs)" using s'(3) i(2) xs by (simp add: Suc_leI)
  ultimately show ?case by blast
qed

section \<open>Properties\<close>

lemma yield_fuel: "\<exists>n. YIELD_FUEL = Suc (Suc n)"
  by (simp add: YIELD_FUEL_def)

text \<open>A process that has started two threads.\<close>

lemma create_lowest:
  assumes sc: "sched s xs" and free: "1 \<le> i" "i < 1024" "\<not> exist (thr s (int i))" "\<And>j. 1 \<le> j \<Longrightarrow> j < i \<Longrightarrow> exist (thr s (int j))"
  shows "\<exists>s'. thread_create fn parg s = Ret (int i, s') \<and> created i fn parg xs s s'"
proof -
  have ex: "exist (total s ! j) = exist (thr s (int j))" for j by (simp add: thr_def)
  have "(1::nat) < 1024" by simp
  then show ?thesis
  proof (rule free_id_cases [where i = 1 and s = "s\<lparr>intr := False\<rparr>"])
    assume "\<And>j. 1 \<le> j \<Longrightarrow> j < 1024 \<Longrightarrow> exist (total (s\<lparr>intr := False\<rparr>) ! j)"
    then show ?thesis using free ex by auto
  next
    fix ID assume f: "free_id (s\<lparr>intr := False\<rparr>) 1 = Ret (Some ID)" "1 \<le> ID" "ID < 1024" "\<not> exist (total (s\<lparr>intr := False\<rparr>) ! ID)"
      "\<And>j. 1 \<le> j \<Longrightarrow> j < ID \<Longrightarrow> exist (total (s\<lparr>intr := False\<rparr>) ! j)"
    have "ID = i" using f free ex by (metis linorder_neqE_nat tsys.select_convs(1) tsys.surjective tsys.update_convs(14))
    then show ?thesis using create_ok [OF sc f(1-3)] f free by (simp add: ex)
  qed
qed

lemma ex_two_threads:
  "\<exists>s. turns_ok s [1, 2] \<and> currentThread s = 0 \<and> intr s \<and> wqt (thr s 0) = None \<and> (\<forall>q. wqs s q = None) \<and> (\<forall>l. locks s l = None)"
proof -
  let ?s = "thread_init boot"
  have b: "sched ?s []" "currentThread ?s = 0" "intr ?s" "\<forall>q. wqs ?s q = None" "\<forall>l. locks ?s l = None"
    by (rule sched_boot) (simp_all add: thread_init_def boot_def Let_def)
  have th: "thr ?s i = zero_thread" if "0 < i" "i < 1024" for i
    using that by (simp add: thr_def thread_init_def boot_def Let_def nth_list_update)
  have t0: "wqt (thr ?s 0) = None" by (simp add: thr_def thread_init_def boot_def Let_def)
  obtain s1 where s1: "created 1 7 0 [] ?s s1"
    using create_lowest [OF b(1), of 1 7 0] th [of 1] by (auto simp: zero_thread_def)
  then have c1: "sched s1 [1]" "currentThread s1 = 0" "intr s1" "\<And>i. 0 \<le> i \<Longrightarrow> i < 1024 \<Longrightarrow> i \<noteq> 1 \<Longrightarrow> thr s1 i = thr ?s i" "other_same ?s s1"
    "resumable (threadInfo (thr s1 1))" "exist (thr s1 1)" using b by (auto simp: created_def resumable_def sched_def)
  obtain s2 where s2: "created 2 8 0 [1] s1 s2"
    using create_lowest [OF c1(1), of 2 8 0] th [of 2] c1(4) [of 2] c1(7) by (auto simp: zero_thread_def less_Suc_eq numeral_2_eq_2)
  then have "sched s2 [1, 2]" "currentThread s2 = 0" "intr s2" "resumable (threadInfo (thr s2 2))" "other_same s1 s2" "thr s2 1 = thr s1 1" "thr s2 0 = thr s1 0"
    using c1 by (auto simp: created_def resumable_def)
  then show ?thesis using c1 b t0 by (intro exI [of _ s2]) (auto simp: turns_ok_def other_same_def)
qed

text \<open>The first thread runs, thread 1 is ready and thread 2 waits for the first one.\<close>

lemma ex_waiting:
  "\<exists>s q. sched s [1] \<and> currentThread s = 0 \<and> wqt (thr s 0) = Some q \<and> wq s q [2] \<and> exist (thr s 2) \<and> stack (thr s 0) = None"
proof -
  let ?s = "thread_init boot"
  have b: "sched ?s []" by (rule sched_boot)
  have th: "thr ?s i = zero_thread" if "0 < i" "i < 1024" for i
    using that by (simp add: thr_def thread_init_def boot_def Let_def nth_list_update)
  have t0: "stack (thr ?s 0) = None" "currentThread ?s = 0" by (simp_all add: thr_def thread_init_def boot_def Let_def)
  obtain s1 where c: "created 1 7 0 [] ?s s1"
    using create_lowest [OF b, of 1 7 0] th [of 1] by (auto simp: zero_thread_def)
  have c1: "sched s1 [1]" "currentThread s1 = 0" "thr s1 0 = thr ?s 0" using c t0 by (auto simp: created_def)
  have len: "length (total s1) = 1024" using c1(1) by (simp add: sched_def running_def)
  define b where "b = brk s1"
  define t where "t = zero_thread\<lparr>threadID := 2, status := 3, exist := True\<rparr>"
  define s where "s = (tset (tset s1 0 ((thr s1 0)\<lparr>wqt := Some (Suc b)\<rparr>)) 2 t)
    \<lparr>brk := Suc (Suc b), wnodes := [b \<mapsto> \<lparr>q_node = 2, q_prv = None, q_next = None\<rparr>], wqs := [Suc b \<mapsto> \<lparr>head = Some b, tail = Some b\<rparr>]\<rparr>"
  have thr': "thr s i = (if i = 2 then t else if i = 0 then (thr s1 0)\<lparr>wqt := Some (Suc b)\<rparr> else thr s1 i)" if "0 \<le> i" for i
    using that len by (simp add: s_def thr_tset)
  have "ids_ok s {1}" using rq_ids [of s1 "[1]"] c1(1) thr' by (simp add: sched_def ids_ok_thr)
  then have "rq s [1]" using c1(1) unfolding sched_def rq_def ready_seg_def by (auto simp: s_def)
  moreover have "heap_fresh s" using c1(1) by (auto simp: sched_def running_def heap_fresh_def s_def b_def)
  ultimately have "sched s [1]" using c1 thr' len unfolding sched_def running_def by (auto simp: s_def)
  moreover have "wq s (Suc b) [2]"
    using thr' [of 2] by (auto simp: wq_def ids_ok_thr t_def s_def dll_def seg_Cons)
  moreover have "currentThread s = 0" using c1(2) by (simp add: s_def)
  ultimately show ?thesis using thr' [of 0] thr' [of 2] c1(3) t0(1) by (intro exI [of _ s]) (auto simp: t_def)
qed

text \<open>
  Yielding to any thread runs the head of the ready list and puts the caller, whose context is
  saved, at the end; every other thread keeps its place, and the interrupt mask, the wait queues,
  the locks and the condition variables are as before.
\<close>

theorem yield_any_fifo:
  assumes "sched s (x # xs)"
  shows "\<exists>s'. thread_yield YIELD_FUEL k THREAD_ANY s = Ret (None, s') \<and> currentThread s' = x \<and> sched s' (xs @ [currentThread s]) \<and>
    threadInfo (thr s' (currentThread s)) = Ctx_frames (F_yield (intr s) # k) \<and> nextThreadID (thr s' (currentThread s)) = x \<and> other_same s s'"
proof -
  obtain n where f: "YIELD_FUEL = Suc (Suc n)" using yield_fuel by blast
  obtain s' where "thread_yield (Suc (Suc n)) k THREAD_ANY s = Ret (None, s')" "yielded k x (x # xs) s s'"
    using yield_any_ok [OF assms] by blast
  then show ?thesis unfolding f by (intro exI [of _ s']) (simp add: yielded_def)
qed

theorem yield_any_fifo_witness:
  "\<exists>s s'. sched s [1, 2] \<and> thread_yield YIELD_FUEL [] THREAD_ANY s = Ret (None, s') \<and> currentThread s' = 1 \<and> sched s' [2, 0]"
proof -
  obtain s where s: "sched s [1, 2]" "currentThread s = 0" using ex_two_threads by (auto simp: turns_ok_def)
  show ?thesis using yield_any_fifo [OF s(1), of "[]"] s by auto
qed

text \<open>
  C21: round robin: when every thread keeps yielding, the thread at position \<^verbatim>\<open>i\<close> of the
  ready list runs after exactly \<^verbatim>\<open>i + 1\<close> turns, so no ready thread is starved; the yields
  and the dispatch of each thread all complete.
\<close>

theorem round_robin_no_starvation:
  assumes "turns_ok s xs" "i < length xs"
  shows "\<exists>s'. turns (Suc i) s = Ret s' \<and> currentThread s' = xs ! i \<and> sched s' (drop (Suc i) xs @ [currentThread s] @ take i xs)"
  using turns_rotate [OF assms] by (auto simp: turns_ok_def)

theorem round_robin_no_starvation_witness:
  "\<exists>s s'. turns_ok s [1, 2] \<and> turns 2 s = Ret s' \<and> currentThread s' = 2"
proof -
  obtain s where s: "turns_ok s [1, 2]" using ex_two_threads by blast
  show ?thesis using round_robin_no_starvation [OF s, of 1] s by (auto simp: numeral_2_eq_2)
qed

text \<open>
  The error returns of \<^verbatim>\<open>thread_yield\<close>: \<^verbatim>\<open>THREAD_NONE\<close> when no other thread is
  ready and \<^verbatim>\<open>THREAD_INVALID\<close> for an identifier that is neither a control code, nor the
  caller, nor ready; both leave the whole state, interrupts included, unchanged.
\<close>

theorem yield_errors_change_nothing:
  assumes "sched s xs"
  shows "(xs = [] \<longrightarrow> thread_yield YIELD_FUEL k THREAD_ANY s = Ret (Some THREAD_NONE, s)) \<and>
    (want \<notin> {THREAD_ANY, THREAD_SELF, currentThread s} \<union> set xs \<longrightarrow> thread_yield YIELD_FUEL k want s = Ret (Some THREAD_INVALID, s))"
  using yield_fails [OF assms] yield_fuel by metis

theorem yield_errors_change_nothing_witness:
  "\<exists>s. thread_yield YIELD_FUEL [] 5 s = Ret (Some THREAD_INVALID, s) \<and> sched s [1, 2]"
proof -
  obtain s where s: "sched s [1, 2]" "currentThread s = 0" using ex_two_threads by (auto simp: turns_ok_def)
  show ?thesis using yield_errors_change_nothing [OF s(1), of "[]" 5] s by auto
qed

text \<open>
  C26: \<^verbatim>\<open>thread_create\<close> takes the lowest free identifier from 1 on, makes a thread that
  starts in \<^verbatim>\<open>thread_stub\<close> with the given function and argument, and puts it at the end of
  the ready list with interrupts restored; when all identifiers are taken it returns
  \<^verbatim>\<open>THREAD_NOMORE\<close> and leaves interrupts disabled, whatever they were.
\<close>

theorem create_correct:
  assumes "sched s xs"
  shows "(\<exists>ID s'. thread_create fn parg s = Ret (int ID, s') \<and> created ID fn parg xs s s') \<or>
    ((\<forall>j. 1 \<le> j \<and> j < 1024 \<longrightarrow> exist (thr s (int j))) \<and> thread_create fn parg s = Ret (THREAD_NOMORE, s\<lparr>intr := False\<rparr>))"
proof (cases "\<exists>j. 1 \<le> j \<and> j < 1024 \<and> \<not> exist (thr s (int j))")
  case True
  let ?P = "\<lambda>j. 1 \<le> j \<and> j < 1024 \<and> \<not> exist (thr s (int j))"
  have "?P (LEAST j. ?P j)" using True by (rule LeastI_ex)
  moreover have "exist (thr s (int j))" if "1 \<le> j" "j < (LEAST j. ?P j)" for j using not_less_Least [OF that(2)] that calculation by auto
  ultimately show ?thesis using create_lowest [OF assms, of "LEAST j. ?P j"] by blast
next
  case False
  have "length (total s) = 1024" using assms by (simp add: sched_def running_def)
  then show ?thesis using create_nomore False by blast
qed

theorem create_correct_witness:
  "\<exists>s'. thread_create 7 0 (thread_init boot) = Ret (1, s') \<and> sched s' [1]"
proof -
  have th: "thr (thread_init boot) (int 1) = zero_thread" by (simp add: thr_def thread_init_def boot_def Let_def)
  from create_correct [OF sched_boot, of 7 0] obtain ID s' where
    c: "thread_create 7 0 (thread_init boot) = Ret (int ID, s')" "created ID 7 0 [] (thread_init boot) s'"
    using th by (auto simp: zero_thread_def)
  have "ID = 1" using c(2) th by (auto simp: created_def zero_thread_def dest: spec [of _ 1])
  then show ?thesis using c by (auto simp: created_def)
qed

text \<open>
  The stack pointer of a new thread is 8 modulo 16, as the calling convention of x86-64 wants
  it at the entry of a function, and the word it points to lies inside the stack block.
\<close>

theorem stack_pointer_in_block:
  assumes "0 \<le> a" "a + THREAD_MIN_STACK \<le> 2 ^ 64"
  shows "stack_pointer a mod 16 = 8 \<and> a \<le> stack_pointer a \<and> stack_pointer a + 8 \<le> a + THREAD_MIN_STACK"
proof -
  define r where "r = a mod 16"
  have r: "0 \<le> r" "r < 16" by (auto simp: r_def)
  have "stack_pointer a = a - r - 8 + 32768"
    using assms r by (simp add: stack_pointer_def to_u64_def r_def [symmetric])
  moreover have "(32760 + (a - r)) mod 16 = 8"
  proof -
    have "a - r = 16 * (a div 16)" by (simp add: r_def minus_mod_eq_mult_div)
    then show ?thesis by simp
  qed
  ultimately show ?thesis using r by simp
qed

theorem stack_pointer_in_block_witness:
  "stack_pointer 4198400 mod 16 = 8 \<and> stack_pointer 4198400 = 4231160"
  using stack_pointer_in_block [of 4198400] by (simp add: stack_pointer_def to_u64_def)

text \<open>
  C25: \<^verbatim>\<open>thread_exit\<close> first wakes up all threads that wait for the exiting one: they become
  ready behind those already ready, in the order in which they started to wait, and their queue is
  freed. If no thread is ready then, it returns \<^verbatim>\<open>THREAD_NONE\<close> and the thread goes on.
  Otherwise, a thread whose stack \<^verbatim>\<open>thread_create\<close> allocated frees the stack it runs on, in
  the yield of its exit, which is undefined; for the first thread, which has no such stack, the head
  runs, the exiting thread no longer exists and is not in the ready list, the call does not return,
  and no other thread ceases to exist.
\<close>

theorem exit_wakes_waiters:
  assumes "sched s xs" "wqt (thr s (currentThread s)) = None \<and> ys = [] \<or> (\<exists>q. wqt (thr s (currentThread s)) = Some q \<and> wq s q ys)"
    "set ys \<inter> (set xs \<union> {currentThread s}) = {}" "\<forall>y \<in> set ys. exist (thr s y)" "\<not> foreign_stack k"
  shows "(xs @ ys = [] \<longrightarrow>
      (\<exists>s'. thread_exit YIELD_FUEL k s = Ret (Some THREAD_NONE, s') \<and> sched s' [] \<and> currentThread s' = currentThread s \<and> intr s' = intr s \<and>
        thr s' (currentThread s) = (thr s (currentThread s))\<lparr>wqt := None\<rparr> \<and>
        (\<forall>q. wqt (thr s (currentThread s)) = Some q \<longrightarrow> wqs s' q = None))) \<and>
    (xs @ ys \<noteq> [] \<and> stack (thr s (currentThread s)) \<noteq> None \<longrightarrow> thread_exit YIELD_FUEL k s = Crash Undef) \<and>
    (\<forall>z zs. xs @ ys = z # zs \<and> stack (thr s (currentThread s)) = None \<longrightarrow>
      (\<exists>s'. thread_exit YIELD_FUEL k s = Ret (None, s') \<and> currentThread s' = z \<and> sched s' zs \<and> \<not> exist (thr s' (currentThread s)) \<and>
        (\<forall>q. wqt (thr s (currentThread s)) = Some q \<longrightarrow> wqs s' q = None) \<and>
        (\<forall>i. 0 \<le> i \<and> i < 1024 \<and> i \<noteq> currentThread s \<longrightarrow> exist (thr s' i) = exist (thr s i))))"
proof -
  obtain n where f: "YIELD_FUEL = Suc (Suc n)" using yield_fuel by blast
  let ?c = "currentThread s"
  obtain s2 where s2: "sched s2 (xs @ ys)" "currentThread s2 = ?c" "thr s2 ?c = (thr s ?c)\<lparr>wqt := None\<rparr>"
    "\<And>q. wqt (thr s ?c) = Some q \<Longrightarrow> wqs s2 q = None" "\<And>i. 0 \<le> i \<Longrightarrow> i < 1024 \<Longrightarrow> exist (thr s2 i) = exist (thr s i)"
    and eq: "\<And>n. thread_exit (Suc n) k s =
      (if xs @ ys \<noteq> [] then
         bnd (thread_yield n (F_exit (intr s) # k) THREAD_ANY (tset s2 ?c ((thr s2 ?c)\<lparr>exist := False, status := 2\<rparr>))) (\<lambda>(r, s4).
         case r of None \<Rightarrow> Ret (None, s4) | Some _ \<Rightarrow> Ret (Some THREAD_NONE, leave (intr s) s4))
       else Ret (Some THREAD_NONE, s2\<lparr>intr := intr s\<rparr>))"
    by (rule exit_first [OF assms(1-4), of k]) blast
  let ?s3 = "tset s2 ?c ((thr s2 ?c)\<lparr>exist := False, status := 2\<rparr>)"
  have k: "\<not> foreign_stack (F_exit (intr s) # k)" using assms(5) by (simp add: foreign_stack_def)
  have st: "stack (thr s2 (currentThread s2)) = stack (thr s ?c)" using s2(2,3) by simp
  have "\<exists>s'. thread_exit YIELD_FUEL k s = Ret (None, s') \<and> currentThread s' = z \<and> sched s' zs \<and> \<not> exist (thr s' ?c) \<and>
        (\<forall>q. wqt (thr s ?c) = Some q \<longrightarrow> wqs s' q = None) \<and>
        (\<forall>i. 0 \<le> i \<and> i < 1024 \<and> i \<noteq> ?c \<longrightarrow> exist (thr s' i) = exist (thr s i))"
    if z: "xs @ ys = z # zs" and none: "stack (thr s ?c) = None" for z zs
  proof -
    obtain s' where s': "thread_yield (Suc n) (F_exit (intr s) # k) THREAD_ANY ?s3 = Ret (None, s')" "currentThread s' = z" "sched s' zs" "other_same s2 s'"
      "\<not> exist (thr s' ?c)" "\<And>i. 0 \<le> i \<Longrightarrow> i < 1024 \<Longrightarrow> i \<noteq> ?c \<Longrightarrow> exist (thr s' i) = exist (thr s2 i)"
      by (rule exited_yield [OF s2(1) [unfolded z], of ?s3 n "F_exit (intr s) # k"]) (use s2(2) st none in auto)
    have "thread_exit YIELD_FUEL k s = Ret (None, s')" using eq [of "Suc n"] s'(1) z by (simp add: f del: thread_yield.simps)
    then show ?thesis using s' s2(4,5) by (intro exI [of _ s']) (simp add: other_same_def)
  qed
  moreover have "thread_exit YIELD_FUEL k s = Crash Undef" if ne: "xs @ ys \<noteq> []" and some: "stack (thr s ?c) \<noteq> None"
  proof -
    obtain z zs where z: "xs @ ys = z # zs" using ne by (cases "xs @ ys") auto
    have "thread_yield (Suc n) (F_exit (intr s) # k) THREAD_ANY ?s3 = Crash Undef"
      by (rule exited_yield_own_stack [OF s2(1) [unfolded z] _ k]) (use s2(2) st some in auto)
    then show ?thesis using eq [of "Suc n"] ne by (simp add: f del: thread_yield.simps)
  qed
  moreover have "\<exists>s'. thread_exit YIELD_FUEL k s = Ret (Some THREAD_NONE, s') \<and> sched s' [] \<and> currentThread s' = ?c \<and> intr s' = intr s \<and>
        thr s' ?c = (thr s ?c)\<lparr>wqt := None\<rparr> \<and> (\<forall>q. wqt (thr s ?c) = Some q \<longrightarrow> wqs s' q = None)" if e: "xs @ ys = []"
    using eq [of "Suc n"] e s2(1-4) by (intro exI [of _ "s2\<lparr>intr := intr s\<rparr>"]) (auto simp: f simp del: thread_exit.simps)
  ultimately show ?thesis by blast
qed

theorem exit_wakes_waiters_witness:
  "\<exists>s q s'. sched s [1] \<and> wqt (thr s 0) = Some q \<and> wq s q [2] \<and> thread_exit YIELD_FUEL [] s = Ret (None, s') \<and>
     currentThread s' = 1 \<and> sched s' [2] \<and> \<not> exist (thr s' 0) \<and> wqs s' q = None"
proof -
  obtain s q where s: "sched s [1]" "currentThread s = 0" "wqt (thr s 0) = Some q" "wq s q [2]" "exist (thr s 2)" "stack (thr s 0) = None"
    using ex_waiting by blast
  show ?thesis
    using exit_wakes_waiters [of s "[1]" "[2]" "[]"] s by (auto simp: foreign_stack_def)
qed

text \<open>
  C27: \<^verbatim>\<open>thread_kill\<close>. Called by a thread nobody ever waited for, with a ready thread, it takes
  that thread out of the ready list, wherever it is there, frees its stack and its identifier and
  touches no other thread. With a thread that is not ready, while others are, it dereferences a null
  pointer instead of returning \<^verbatim>\<open>THREAD_INVALID\<close>, whoever calls it. When the caller has a wait
  queue, a ready thread is not removed and the call returns \<^verbatim>\<open>THREAD_INVALID\<close>, although the
  thread is marked as gone. When no thread is ready, only a thread in the caller's wait queue can be
  killed: it is marked as gone, stays in the queue and its identifier is returned; for any other
  the call returns \<^verbatim>\<open>THREAD_INVALID\<close> and changes nothing.
\<close>

theorem kill_ready_or_crash:
  assumes "sched s xs" "wqt (thr s (currentThread s)) = None \<and> ys = [] \<or> (\<exists>q. wqt (thr s (currentThread s)) = Some q \<and> wq s q ys)"
    "set xs \<inter> set ys = {}"
  shows "(wqt (thr s (currentThread s)) = None \<and> x \<in> set xs \<longrightarrow>
      (\<exists>s'. thread_kill x s = Ret (x, s') \<and> sched s' (remove1 x xs) \<and> \<not> exist (thr s' x) \<and> stack (thr s' x) = None \<and>
      intr s' = intr s \<and> (\<forall>i. 0 \<le> i \<and> i < 1024 \<and> i \<noteq> x \<longrightarrow> thr s' i = thr s i))) \<and>
    (x \<notin> set xs \<and> xs \<noteq> [] \<longrightarrow> thread_kill x s = Crash Undef) \<and>
    (wqt (thr s (currentThread s)) \<noteq> None \<and> x \<in> set xs \<longrightarrow>
      thread_kill x s = Ret (THREAD_INVALID, tset s x ((thr s x)\<lparr>exist := False\<rparr>))) \<and>
    (xs = [] \<and> x \<in> set ys \<longrightarrow> thread_kill x s = Ret (x, tset s x ((thr s x)\<lparr>exist := False\<rparr>))) \<and>
    (xs = [] \<and> x \<notin> set ys \<longrightarrow> thread_kill x s = Ret (THREAD_INVALID, s))"
proof (intro conjI impI)
  assume "wqt (thr s (currentThread s)) = None \<and> x \<in> set xs"
  then show "\<exists>s'. thread_kill x s = Ret (x, s') \<and> sched s' (remove1 x xs) \<and> \<not> exist (thr s' x) \<and>
      stack (thr s' x) = None \<and> intr s' = intr s \<and> (\<forall>i. 0 \<le> i \<and> i < 1024 \<and> i \<noteq> x \<longrightarrow> thr s' i = thr s i)"
    using kill_ok [OF assms(1), of x] by metis
next
  assume "x \<notin> set xs \<and> xs \<noteq> []"
  then obtain y zs where "xs = y # zs" "x \<notin> set (y # zs)" by (cases xs) simp_all
  then show "thread_kill x s = Crash Undef" using kill_missing [of s y zs x] assms(1) by simp
next
  assume "wqt (thr s (currentThread s)) \<noteq> None \<and> x \<in> set xs"
  then show "thread_kill x s = Ret (THREAD_INVALID, tset s x ((thr s x)\<lparr>exist := False\<rparr>))"
    using kill_ready_waited [OF assms(1), of x _ ys] assms(2,3) by (elim disjE exE conjE) simp_all
next
  assume "xs = [] \<and> x \<in> set ys"
  then show "thread_kill x s = Ret (x, tset s x ((thr s x)\<lparr>exist := False\<rparr>))"
    using kill_waiting(1) [of s ys x] assms(1,2) by auto
next
  assume "xs = [] \<and> x \<notin> set ys"
  then show "thread_kill x s = Ret (THREAD_INVALID, s)" using kill_waiting(2) [of s ys x] assms(1,2) by auto
qed

theorem kill_ready_or_crash_witness:
  "(\<exists>s s'. sched s [1, 2] \<and> thread_kill 2 s = Ret (2, s') \<and> sched s' [1] \<and> thread_kill 5 s = Crash Undef) \<and>
   (\<exists>s s'. sched s [1] \<and> wqt (thr s 0) \<noteq> None \<and> thread_kill 1 s = Ret (THREAD_INVALID, s') \<and> \<not> exist (thr s' 1))"
proof
  obtain s where s: "sched s [1, 2]" "currentThread s = 0" "wqt (thr s 0) = None" using ex_two_threads by (auto simp: turns_ok_def)
  show "\<exists>s s'. sched s [1, 2] \<and> thread_kill 2 s = Ret (2, s') \<and> sched s' [1] \<and> thread_kill 5 s = Crash Undef"
    using kill_ready_or_crash [OF s(1), of "[]" 2] kill_ready_or_crash [OF s(1), of "[]" 5] s by auto
next
  obtain s q where s: "sched s [1]" "currentThread s = 0" "wqt (thr s 0) = Some q" "wq s q [2]" using ex_waiting by blast
  have "length (total s) = 1024" using s(1) by (simp add: sched_def running_def)
  then have "\<not> exist (thr (tset s 1 ((thr s 1)\<lparr>exist := False\<rparr>)) 1)" by (simp add: thr_tset)
  then show "\<exists>s s'. sched s [1] \<and> wqt (thr s 0) \<noteq> None \<and> thread_kill 1 s = Ret (THREAD_INVALID, s') \<and> \<not> exist (thr s' 1)"
    using kill_ready_or_crash [OF s(1), of "[2]" 1] s by auto
qed

end
