(* ===== verification/Thr_Sync.thy ===== *)
theory Thr_Sync
  imports Thr_Sched
begin

text \<open>
  Synchronisation: sleeping on a wait queue and being woken up, locks that are taken, waited for,
  taken by a resumed waiter and released.
\<close>

section \<open>Sleep\<close>

text \<open>The caller moves from running to the end of the queue, the head of the ready list runs.\<close>

lemma sleep_ok:
  assumes sc: "sched s (x # xs)" and w: "wq s q ys" and c: "currentThread s \<notin> set ys"
  obtains s' where "thread_sleep k (Some q) s = Ret (None, s')" "currentThread s' = x" "sched s' xs" "wq s' q (ys @ [currentThread s])"
    "\<not> intr s'" "locks s' = locks s" "cvs s' = cvs s" "status (thr s' (currentThread s)) = 3" "exist (thr s' (currentThread s))"
    "threadInfo (thr s' (currentThread s)) = Ctx_frames (F_sleep (intr s) x # k)"
    "\<And>p zs. wq s p zs \<Longrightarrow> p \<noteq> q \<Longrightarrow> set zs \<inter> set (ys @ [currentThread s]) = {} \<Longrightarrow> wq s' p zs"
    "\<And>i. 0 \<le> i \<Longrightarrow> i < 1024 \<Longrightarrow> i \<noteq> currentThread s \<Longrightarrow> i \<noteq> x \<Longrightarrow> thr s' i = thr s i"
proof -
  let ?c = "currentThread s" and ?s = "s\<lparr>intr := False\<rparr>"
  have run: "running s" and cn: "?c \<notin> set (x # xs)" using sc by (auto simp: sched_def)
  then have C: "0 \<le> ?c" "?c < 1024" "threadID (thr s ?c) = ?c" "exist (thr s ?c)" and len: "length (total s) = 1024"
    and hf: "heap_fresh s" and mem: "\<And>p. mem_ok s p" by (auto simp: running_def)
  have X: "0 \<le> x" "x < 1024" "threadID (thr s x) = x" "exist (thr s x)" "x \<noteq> ?c"
    using sched_ids [OF sc, of x] sc cn by (auto simp: sched_def)
  define t1 where "t1 = (thr s ?c)\<lparr>status := 3, threadInfo := Ctx_frames (F_sleep (intr s) x # k)\<rparr>"
  define s1 where "s1 = tset ?s ?c t1"
  have th1: "thr s1 i = (if i = ?c then t1 else thr s i)" if "0 \<le> i" for i using that C len by (simp add: s1_def thr_tset)
  have w1: "wq s1 p zs" if "wq s p zs" for p zs
    unfolding s1_def by (rule wq_tset) (use that C in \<open>simp_all add: t1_def thr_def\<close>)
  have f1: "heap_fresh s1" "mem_ok s1 (brk s1)" "brk s1 = brk s" using hf mem by (simp_all add: s1_def heap_fresh_def)
  obtain s2 where s2: "buildNodeWQ ?c s1 = Ret (brk s1, s2)" "\<And>p zs. wq s1 p zs \<Longrightarrow> wq s2 p zs"
    "s2 = s1\<lparr>brk := Suc (brk s1), wnodes := (wnodes s1)(brk s1 \<mapsto> \<lparr>q_node = ?c, q_prv = None, q_next = None\<rparr>)\<rparr>" "heap_fresh s2"
    by (rule buildNodeWQ_ok [OF f1(1,2)]) blast
  have th2: "thr s2 = thr s1" using s2(3) by (simp add: thr_def fun_eq_iff)
  have ids: "ids_ok s2 {?c}" using C th1 [OF C(1)] th2 by (simp add: ids_ok_thr t1_def)
  have nd: "wnodes s2 (brk s1) = Some \<lparr>q_node = ?c, q_prv = None, q_next = None\<rparr>" using s2(3) by simp
  obtain s3 where s3: "pushbackWQ q (brk s1) s2 = Ret s3" "wq s3 q (ys @ [?c])" "wsame q (set (ys @ [?c])) s2 s3"
    "\<And>p. wnodes s2 p = None \<Longrightarrow> wnodes s3 p = None"
    by (rule pushbackWQ_ok [OF s2(2) [OF w1 [OF w]] ids c nd]) auto
  have hf3: "heap_fresh s3" by (rule heap_fresh_wsame [OF s2(4) s3(3,4)])
  have th3: "thr s3 = thr s1" using s3(3) th2 by (simp add: wsame_def thr_def fun_eq_iff)
  have "rq s (x # xs)" using sc by (simp add: sched_def)
  then have "rq s1 (x # xs)" unfolding s1_def by (intro rq_tset) (use C in \<open>simp_all add: t1_def thr_def\<close>)
  then have "rq s2 (x # xs)" using s2(3) by (simp add: rq_def ready_seg_def ids_ok_def)
  then have r3: "rq s3 (x # xs)" using wsame_rq [OF s3(3)] by simp
  obtain p n s4 where s4: "ReadyList s3 = Some p" "rnodes s3 p = Some n" "q_node n = x" "deleteNode p s3 = Ret s4" "rq s4 xs" "rsame s3 s4"
    "\<And>k. rnodes s3 k = None \<Longrightarrow> rnodes s4 k = None"
    by (rule deleteNode_head_ok [OF r3]) blast
  have rl: "ReadyList s = Some p" "rnodes s p = Some n" using s4(1,2) s3(3) s2(3) by (simp_all add: wsame_def s1_def)
  have th4: "thr s4 = thr s1" using s4(6) th3 by (simp add: rsame_def thr_def fun_eq_iff)
  have l4: "length (total s4) = 1024" using s4(6) s3(3) s2(3) len by (simp add: rsame_def wsame_def s1_def)
  define s5 where "s5 = tset s4 x ((thr s4 x)\<lparr>status := 1\<rparr>)"
  have th5: "thr s5 i = (if i = x then (thr s x)\<lparr>status := 1\<rparr> else if i = ?c then t1 else thr s i)" if "0 \<le> i" for i
    using that X l4 th4 th1 by (simp add: s5_def thr_tset)
  define s6 where "s6 = s5\<lparr>currentThread := x\<rparr>"
  have th6: "thr s6 = thr s5" by (simp add: s6_def)
  have u: "tupd ?s ?c (\<lambda>t. t\<lparr>status := 3, threadInfo := Ctx_frames (F_sleep (intr s) x # k)\<rparr>) = Ret s1"
    "tupd s4 x (\<lambda>t. t\<lparr>status := 1\<rparr>) = Ret s5" "tget s5 x = Ret (thr s5 x)"
    using C X by (simp_all add: tupd_ok s1_def t1_def s5_def tget_thr)
  have tid5: "threadID (thr s5 x) = x" using th5 [OF X(1)] X by simp
  have res: "thread_sleep k (Some q) s = Ret (None, s6)"
    using rl s4(1-4) u s2(1) s3(1) tid5 by (simp add: thread_sleep_def s6_def)
  have "heap_fresh s4" by (rule heap_fresh_rsame [OF hf3 s4(6,7)])
  then have "heap_fresh s6" by (simp add: s6_def s5_def heap_fresh_def)
  moreover have o: "locks s6 = locks s" "cvs s6 = cvs s" "mem_ok s6 = mem_ok s" "past_end s6 = past_end s" "\<not> intr s6" "currentThread s6 = x"
    using s4(6) s3(3) s2(3) by (simp_all add: s6_def s5_def rsame_def wsame_def s1_def)
  ultimately have "running s6" using run l4 th6 th5 [OF X(1)] X by (simp add: running_def) (simp add: s6_def s5_def)
  moreover have "rq s5 xs" unfolding s5_def by (rule rq_tset [OF s4(5)]) (use X in \<open>simp_all add: thr_def\<close>)
  then have "rq s6 xs" by (simp add: s6_def rq_def ready_seg_def ids_ok_def)
  moreover have "status (thr s6 y) = 0 \<and> exist (thr s6 y) \<and> y \<noteq> x" if "y \<in> set xs" for y
  proof -
    have "distinct (x # xs)" using rq_distinct [OF r3] .
    then have "y \<noteq> x" "y \<noteq> ?c" using that cn by auto
    then show ?thesis using that sched_ids [OF sc, of y] sc th6 th5 [of y] by (auto simp: sched_def)
  qed
  ultimately have "sched s6 xs" using o(6) by (auto simp: sched_def)
  moreover have wqf: "wq s6 p zs" if "wq s3 p zs" for p zs
  proof -
    have "wq s4 p zs" using that rsame_wq [OF s4(6)] by simp
    then have "wq s5 p zs" unfolding s5_def by (rule wq_tset) (use X in \<open>simp_all add: thr_def\<close>)
    then show ?thesis by (simp add: s6_def wq_def ids_ok_def)
  qed
  moreover have "wq s6 p zs" if "wq s p zs" "p \<noteq> q" "set zs \<inter> set (ys @ [?c]) = {}" for p zs
    using wqf [OF wsame_wq [OF s3(3) s2(2) [OF w1 [OF that(1)]] that(2,3)]] .
  moreover have "status (thr s6 ?c) = 3" "exist (thr s6 ?c)" "threadInfo (thr s6 ?c) = Ctx_frames (F_sleep (intr s) x # k)"
    using th6 th5 [OF C(1)] X C by (simp_all add: t1_def)
  moreover have "thr s6 i = thr s i" if "0 \<le> i" "i \<noteq> ?c" "i \<noteq> x" for i using th6 th5 [OF that(1)] that by simp
  ultimately show ?thesis using res o wqf [OF s3(2)] by (rule_tac that [of s6]) blast+
qed

lemma sleep_fails:
  "thread_sleep k None s = Ret (Some THREAD_INVALID, s)"
  "sched s [] \<Longrightarrow> thread_sleep k (Some q) s = Ret (Some THREAD_NONE, s)"
  using rq_head [of s "[]"] by (auto simp: thread_sleep_def sched_def)

section \<open>Queues\<close>

lemma wait_queue_create_ok:
  assumes "sched s xs"
  obtains s' where "wait_queue_create s = Ret (brk s, s')" "sched s' xs" "wq s' (brk s) []" "thr s' = thr s" "currentThread s' = currentThread s"
    "intr s' = intr s" "locks s' = locks s" "\<And>p zs. wq s p zs \<Longrightarrow> wq s' p zs" "brk s' = Suc (brk s)"
proof -
  let ?s = "s\<lparr>brk := Suc (brk s), wqs := (wqs s)(brk s \<mapsto> \<lparr>head = None, tail = None\<rparr>)\<rparr>"
  have m: "mem_ok s (brk s)" and hf: "heap_fresh s" using assms by (auto simp: sched_def running_def)
  have "heap_fresh ?s" using hf by (auto simp: heap_fresh_def)
  then have "sched ?s xs" using assms by (simp add: sched_def running_def thr_def rq_def ready_seg_def ids_ok_def)
  moreover have "wq ?s (brk s) []" by (simp add: wq_def ids_ok_def)
  moreover have "wq ?s p zs" if "wq s p zs" for p zs
  proof -
    have "p \<noteq> brk s" using that hf by (auto simp: wq_def heap_fresh_def)
    then show ?thesis using that by (simp add: wq_def ids_ok_def)
  qed
  ultimately show ?thesis using m by (rule_tac that [of ?s]) (simp_all add: wait_queue_create_def t_malloc_def thr_def fun_eq_iff)
qed

lemma lock_create_ok:
  assumes "sched s xs"
  obtains l q s' where "lock_create s = Ret (l, s')" "sched s' xs" "locks s' l = Some \<lparr>wqL = Some q, avaliable = True, acquiredID = - 1\<rparr>" "wq s' q []"
    "currentThread s' = currentThread s" "intr s' = intr s" "thr s' = thr s"
proof -
  let ?s1 = "s\<lparr>intr := False, brk := Suc (brk s)\<rparr>"
  have m: "mem_ok s (brk s)" and hf: "heap_fresh s" using assms by (auto simp: sched_def running_def)
  have "heap_fresh ?s1" using hf by (auto simp: heap_fresh_def)
  then have "sched ?s1 xs" using assms by (simp add: sched_def running_def thr_def rq_def ready_seg_def ids_ok_def)
  then obtain s2 where s2: "wait_queue_create ?s1 = Ret (Suc (brk s), s2)" "sched s2 xs" "wq s2 (Suc (brk s)) []" "thr s2 = thr ?s1"
    "currentThread s2 = currentThread s" "locks s2 = locks s" "brk s2 = Suc (Suc (brk s))"
    by (rule wait_queue_create_ok [of ?s1 xs]) auto
  let ?s3 = "s2\<lparr>locks := (locks s2)(brk s \<mapsto> \<lparr>wqL = Some (Suc (brk s)), avaliable = True, acquiredID = - 1\<rparr>), intr := intr s\<rparr>"
  have "lock_create s = Ret (brk s, ?s3)" using m s2(1) by (simp add: lock_create_def t_malloc_def)
  moreover have "heap_fresh s2" using s2(2) by (simp add: sched_def running_def)
  then have "heap_fresh ?s3" using s2(7) by (auto simp: heap_fresh_def)
  then have "sched ?s3 xs" using s2(2) by (simp add: sched_def running_def thr_def rq_def ready_seg_def ids_ok_def)
  moreover have "wq ?s3 (Suc (brk s)) []" using s2(3) by (simp add: wq_def ids_ok_def)
  ultimately show ?thesis using s2(4,5) by (rule_tac that [of "brk s" ?s3 "Suc (brk s)"]) (simp_all add: thr_def fun_eq_iff)
qed

section \<open>Locks\<close>

text \<open>The three ways of \<^verbatim>\<open>lock_acquire\<close>.\<close>

lemma lock_loop_ok:
  assumes l: "locks s l = Some lk"
  shows "avaliable lk \<Longrightarrow> lock_loop (Suc n) k e l s =
      Ret (Some 0, s\<lparr>locks := (locks s)(l \<mapsto> lk\<lparr>acquiredID := currentThread s, avaliable := False\<rparr>), intr := e\<rparr>)"
    "\<not> avaliable lk \<Longrightarrow> thread_sleep (F_lock e l # k) (wqL lk) s = Ret (None, s1) \<Longrightarrow> lock_loop (Suc n) k e l s = Ret (None, s1)"
  using l by (simp_all add: leave_eq)

lemma lock_deadlock:
  assumes "sched s []" "locks s l = Some lk" "\<not> avaliable lk" "wqL lk = Some q"
  shows "lock_loop n k e l s = Crash Diverges"
  by (induction n) (use assms sleep_fails(2) [OF assms(1)] in auto)

text \<open>
  One round of the loop decides: a sleep that comes back at once has changed nothing, so that the
  loop goes on for ever, whatever the fuel.
\<close>

lemma sleep_back: "thread_sleep k queue s = Ret (Some r, s') \<Longrightarrow> s' = s"
  by (auto simp: thread_sleep_def bnd_Ret_iff Let_def split: option.splits)

lemma lock_loop_fuel: "0 < n \<Longrightarrow> lock_loop n k e l s = lock_loop 1 k e l s"
proof (induction n)
  case (Suc n)
  show ?case
  proof (cases "\<exists>lk r s1. locks s l = Some lk \<and> \<not> avaliable lk \<and> thread_sleep (F_lock e l # k) (wqL lk) s = Ret (Some r, s1)")
    case True
    then obtain lk r s1 where lk: "locks s l = Some lk" "\<not> avaliable lk" "thread_sleep (F_lock e l # k) (wqL lk) s = Ret (Some r, s1)" by blast
    have r: "lock_loop (Suc m) k e l s = lock_loop m k e l s" for m using lk sleep_back [OF lk(3)] by simp
    show ?thesis using Suc.IH r [of n] r [of 0] by (cases n) simp_all
  next
    case False
    show ?thesis
    proof (cases "locks s l")
      case (Some lk)
      then show ?thesis using False
        by (cases "thread_sleep (F_lock e l # k) (wqL lk) s") (auto split: option.split)
    qed simp
  qed
qed simp

text \<open>What one call of the loop does, with interrupts off.\<close>

lemma lock_loop_cases:
  assumes sc: "sched s xs" and i: "\<not> intr s" and l: "locks s l = Some lk" "wqL lk = Some q" and w: "wq s q ys" "currentThread s \<notin> set ys" and n: "0 < n"
  shows "avaliable lk \<Longrightarrow> lock_loop n k e l s =
      Ret (Some 0, s\<lparr>locks := (locks s)(l \<mapsto> lk\<lparr>acquiredID := currentThread s, avaliable := False\<rparr>), intr := e\<rparr>)"
    "\<not> avaliable lk \<Longrightarrow> xs \<noteq> [] \<Longrightarrow> \<exists>s'. lock_loop n k e l s = Ret (None, s') \<and> locks s' = locks s \<and> currentThread s' = List.hd xs \<and> sched s' (tl xs) \<and>
      wq s' q (ys @ [currentThread s]) \<and> threadInfo (thr s' (currentThread s)) = Ctx_frames (F_sleep False (List.hd xs) # F_lock e l # k)"
    "\<not> avaliable lk \<Longrightarrow> xs = [] \<Longrightarrow> lock_loop n k e l s = Crash Diverges"
proof -
  obtain m where n': "n = Suc m" using n by (cases n) auto
  show "avaliable lk \<Longrightarrow> lock_loop n k e l s =
      Ret (Some 0, s\<lparr>locks := (locks s)(l \<mapsto> lk\<lparr>acquiredID := currentThread s, avaliable := False\<rparr>), intr := e\<rparr>)"
    unfolding n' by (rule lock_loop_ok(1) [OF l(1)])
  show "\<not> avaliable lk \<Longrightarrow> xs = [] \<Longrightarrow> lock_loop n k e l s = Crash Diverges"
    using lock_deadlock [of s l lk q] sc l by simp
  assume a: "\<not> avaliable lk" "xs \<noteq> []"
  then obtain x zs where xs: "xs = x # zs" by (cases xs) auto
  obtain s' where s': "thread_sleep (F_lock e l # k) (Some q) s = Ret (None, s')" "currentThread s' = x" "sched s' zs"
    "wq s' q (ys @ [currentThread s])" "locks s' = locks s" "threadInfo (thr s' (currentThread s)) = Ctx_frames (F_sleep (intr s) x # F_lock e l # k)"
    by (rule sleep_ok [OF sc [unfolded xs] w, of "F_lock e l # k"]) blast
  have "lock_loop n k e l s = Ret (None, s')" unfolding n' by (rule lock_loop_ok(2) [OF l(1) a(1)]) (use s'(1) l(2) in simp)
  then show "\<exists>s'. lock_loop n k e l s = Ret (None, s') \<and> locks s' = locks s \<and> currentThread s' = List.hd xs \<and> sched s' (tl xs) \<and>
      wq s' q (ys @ [currentThread s]) \<and> threadInfo (thr s' (currentThread s)) = Ctx_frames (F_sleep False (List.hd xs) # F_lock e l # k)"
    using s' i xs by simp
qed

text \<open>Changing a lock leaves scheduling alone.\<close>

lemma sched_locks [simp]:
  "\<forall>p \<ge> brk s. f p = None \<Longrightarrow> sched s xs \<Longrightarrow> sched (s\<lparr>locks := f\<rparr>) xs" "wq (s\<lparr>locks := f\<rparr>) q ys = wq s q ys"
  by (auto simp: sched_def running_def heap_fresh_def rq_def ready_seg_def ids_ok_def wq_def)

lemma fresh_lock: "sched s xs \<Longrightarrow> locks s l = Some lk \<Longrightarrow> \<forall>p \<ge> brk s. ((locks s)(l \<mapsto> lk')) p = None"
  by (auto simp: sched_def running_def heap_fresh_def)

lemma release_ok:
  assumes sc: "sched s xs" and l: "locks s l = Some lk" "wqL lk = Some q" "\<not> avaliable lk" and w: "wq s q ys"
    and d: "set ys \<inter> (set xs \<union> {currentThread s}) = {}" and ex: "\<forall>y \<in> set ys. exist (thr s y)"
  obtains s' where "lock_release (Some l) s = Ret s'" "sched s' (xs @ ys)" "wq s' q []" "intr s' = intr s" "currentThread s' = currentThread s"
    "locks s' = (locks s)(l \<mapsto> lk\<lparr>avaliable := True\<rparr>)"
proof -
  let ?s = "s\<lparr>intr := False, locks := (locks s)(l \<mapsto> lk\<lparr>avaliable := True\<rparr>)\<rparr>"
  have e: "?s = (s\<lparr>locks := (locks s)(l \<mapsto> lk\<lparr>avaliable := True\<rparr>)\<rparr>)\<lparr>intr := False\<rparr>" by simp
  have "sched ?s xs" "wq ?s q ys" unfolding e using sc w fresh_lock [OF sc l(1)] by simp_all
  then obtain s1 where s1: "thread_wakeup (Some q) 1 ?s = Ret (int (length ys), s1)" "sched s1 (xs @ ys)" "wq s1 q []" "woken q (set ys) (set ys) ?s s1"
    by (rule wakeup_ok) (use d ex in \<open>simp_all add: thr_def\<close>)
  have "lock_release (Some l) s = Ret (s1\<lparr>intr := intr s\<rparr>)" using l s1(1) by (simp add: lock_release_def)
  then show ?thesis using s1 by (rule_tac that [of "s1\<lparr>intr := intr s\<rparr>"]) (simp_all add: woken_def)
qed

section \<open>Properties\<close>

lemma ex_sleeper:
  "\<exists>s q. sched s [2] \<and> currentThread s = 1 \<and> wq s q [0] \<and> exist (thr s 0)"
proof -
  obtain s0 where s0: "sched s0 [1, 2]" "currentThread s0 = 0" using ex_two_threads by (auto simp: turns_ok_def)
  obtain s1 where s1: "sched s1 [1, 2]" "wq s1 (brk s0) []" "currentThread s1 = 0"
    by (rule wait_queue_create_ok [OF s0(1)]) (use s0(2) in auto)
  obtain s2 where "currentThread s2 = 1" "sched s2 [2]" "wq s2 (brk s0) ([] @ [currentThread s1])" "exist (thr s2 (currentThread s1))"
    by (rule sleep_ok [OF s1(1,2), of "[]"]) auto
  then show ?thesis using s1(3) by auto
qed

text \<open>
  \<^verbatim>\<open>thread_sleep\<close> puts the caller at the end of the wait queue, saves its context and runs
  the head of the ready list; the caller is neither running nor ready then, and no other queue,
  lock or thread is touched.
\<close>

theorem sleep_enqueues_caller:
  assumes "sched s (x # xs)" "wq s q ys" "currentThread s \<notin> set ys"
  shows "\<exists>s'. thread_sleep k (Some q) s = Ret (None, s') \<and> currentThread s' = x \<and> sched s' xs \<and> wq s' q (ys @ [currentThread s]) \<and>
    status (thr s' (currentThread s)) = 3 \<and> threadInfo (thr s' (currentThread s)) = Ctx_frames (F_sleep (intr s) x # k) \<and>
    locks s' = locks s \<and> cvs s' = cvs s \<and> (\<forall>i. 0 \<le> i \<and> i < 1024 \<and> i \<noteq> currentThread s \<and> i \<noteq> x \<longrightarrow> thr s' i = thr s i) \<and>
    (\<forall>p zs. wq s p zs \<and> p \<noteq> q \<and> set zs \<inter> set (ys @ [currentThread s]) = {} \<longrightarrow> wq s' p zs)"
proof -
  obtain s' where "thread_sleep k (Some q) s = Ret (None, s')" "currentThread s' = x" "sched s' xs" "wq s' q (ys @ [currentThread s])"
    "locks s' = locks s" "cvs s' = cvs s" "status (thr s' (currentThread s)) = 3"
    "threadInfo (thr s' (currentThread s)) = Ctx_frames (F_sleep (intr s) x # k)"
    "\<And>p zs. wq s p zs \<Longrightarrow> p \<noteq> q \<Longrightarrow> set zs \<inter> set (ys @ [currentThread s]) = {} \<Longrightarrow> wq s' p zs"
    "\<And>i. 0 \<le> i \<Longrightarrow> i < 1024 \<Longrightarrow> i \<noteq> currentThread s \<Longrightarrow> i \<noteq> x \<Longrightarrow> thr s' i = thr s i"
    by (rule sleep_ok [OF assms, of k]) blast
  then show ?thesis by (intro exI [of _ s']) blast
qed

theorem sleep_enqueues_caller_witness:
  "\<exists>s q s'. sched s [2] \<and> wq s q [0] \<and> currentThread s = 1 \<and> thread_sleep [] (Some q) s = Ret (None, s') \<and> wq s' q [0, 1]"
proof -
  obtain s q where s: "sched s [2]" "currentThread s = 1" "wq s q [0]" using ex_sleeper by blast
  show ?thesis using sleep_enqueues_caller [OF s(1,3), of "[]"] s by auto
qed

text \<open>
  \<^verbatim>\<open>thread_wakeup\<close> wakes threads in the order in which they went to sleep: with
  \<^verbatim>\<open>all\<close> 0 the first one only, with \<^verbatim>\<open>all\<close> 1 all of them; the woken threads are appended to
  the ready list in that order, the result is their number, and interrupts are restored.
\<close>

theorem wakeup_in_order:
  assumes "sched s xs" "wq s q (y # ys)" "set (y # ys) \<inter> (set xs \<union> {currentThread s}) = {}" "\<forall>z \<in> set (y # ys). exist (thr s z)"
  shows "(\<exists>s'. thread_wakeup (Some q) 0 s = Ret (1, s') \<and> sched s' (xs @ [y]) \<and> wq s' q ys \<and> intr s' = intr s) \<and>
    (\<exists>s'. thread_wakeup (Some q) 1 s = Ret (int (length (y # ys)), s') \<and> sched s' (xs @ y # ys) \<and> wq s' q [] \<and> intr s' = intr s)"
proof
  have "exist (thr s y)" using assms(4) by simp
  then obtain s1 where "thread_wakeup (Some q) 0 s = Ret (1, s1)" "sched s1 (xs @ [y])" "wq s1 q ys" "woken q (set (y # ys)) {y} s s1"
    by (rule wakeup_one_ok [OF assms(1-3)])
  then show "\<exists>s'. thread_wakeup (Some q) 0 s = Ret (1, s') \<and> sched s' (xs @ [y]) \<and> wq s' q ys \<and> intr s' = intr s"
    by (auto simp: woken_def)
  obtain s2 where "thread_wakeup (Some q) 1 s = Ret (int (length (y # ys)), s2)" "sched s2 (xs @ y # ys)" "wq s2 q []" "woken q (set (y # ys)) (set (y # ys)) s s2"
    by (rule wakeup_ok [OF assms])
  then show "\<exists>s'. thread_wakeup (Some q) 1 s = Ret (int (length (y # ys)), s') \<and> sched s' (xs @ y # ys) \<and> wq s' q [] \<and> intr s' = intr s"
    by (auto simp: woken_def)
qed

theorem wakeup_in_order_witness:
  "\<exists>s q s'. wq s q [0] \<and> thread_wakeup (Some q) 1 s = Ret (1, s') \<and> sched s' [2, 0]"
proof -
  obtain s q where s: "sched s [2]" "currentThread s = 1" "wq s q [0]" "exist (thr s 0)" using ex_sleeper by blast
  show ?thesis using wakeup_in_order [OF s(1,3)] s by auto
qed

text \<open>
  C23: \<^verbatim>\<open>lock_acquire\<close> comes back at once only with a lock that was available, which is then
  held by the caller. On a lock that is taken the caller goes to sleep in the queue of the lock,
  which stays taken by its holder. When such a sleeper is resumed, it tests the lock again: it takes
  it, and only then returns from \<^verbatim>\<open>lock_acquire\<close>, if the lock is available now; if another
  thread has taken it meanwhile, it goes back to sleep at the end of the queue. When the lock is
  taken and no other thread can run, the loop never ends: no number of rounds, which the fuel of
  \<^verbatim>\<open>lock_loop\<close> counts, is enough; and whatever the lock, the result does not depend on it.
\<close>

theorem lock_acquire_exclusive:
  assumes "sched s xs" "locks s l = Some lk" "wqL lk = Some q" "wq s q ys" "currentThread s \<notin> set ys"
  shows "(avaliable lk \<longrightarrow> lock_acquire k (Some l) s =
        Ret (Some 0, s\<lparr>locks := (locks s)(l \<mapsto> lk\<lparr>acquiredID := currentThread s, avaliable := False\<rparr>)\<rparr>)) \<and>
    (\<not> avaliable lk \<and> xs \<noteq> [] \<longrightarrow> (\<exists>s'. lock_acquire k (Some l) s = Ret (None, s') \<and> locks s' = locks s \<and>
        currentThread s' = List.hd xs \<and> sched s' (tl xs) \<and> wq s' q (ys @ [currentThread s]) \<and>
        threadInfo (thr s' (currentThread s)) = Ctx_frames (F_sleep False (List.hd xs) # F_lock (intr s) l # k))) \<and>
    (\<not> avaliable lk \<and> xs = [] \<longrightarrow> lock_acquire k (Some l) s = Crash Diverges \<and>
        (\<forall>fuel. lock_loop fuel k (intr s) l (s\<lparr>intr := False\<rparr>) = Crash Diverges)) \<and>
    (\<forall>e x. threadInfo (thr s (currentThread s)) = Ctx_frames (F_sleep False x # F_lock e l # k) \<and> 0 \<le> x \<and> x < 1024 \<longrightarrow>
      (avaliable lk \<longrightarrow> dispatch s =
        unwind k 0 (s\<lparr>locks := (locks s)(l \<mapsto> lk\<lparr>acquiredID := currentThread s, avaliable := False\<rparr>), intr := e\<rparr>)) \<and>
      (\<not> avaliable lk \<and> xs \<noteq> [] \<longrightarrow> (\<exists>s'. dispatch s = Ret (None, s') \<and> locks s' = locks s \<and>
        currentThread s' = List.hd xs \<and> sched s' (tl xs) \<and> wq s' q (ys @ [currentThread s]) \<and>
        threadInfo (thr s' (currentThread s)) = Ctx_frames (F_sleep False (List.hd xs) # F_lock e l # k))) \<and>
      (\<not> avaliable lk \<and> xs = [] \<longrightarrow> dispatch s = Crash Diverges)) \<and>
    (\<forall>fuel > 0. lock_loop fuel k (intr s) l (s\<lparr>intr := False\<rparr>) = lock_acquire k (Some l) s)"
proof -
  let ?s = "s\<lparr>intr := False\<rparr>"
  have f: "0 < LOCK_FUEL" by (simp add: LOCK_FUEL_def)
  have C: "0 \<le> currentThread s" "currentThread s < 1024" using assms(1) by (auto simp: sched_def running_def)
  have a: "lock_acquire k (Some l) s = lock_loop LOCK_FUEL k (intr s) l ?s" by (simp add: lock_acquire_def)
  have d: "dispatch s = bnd (lock_loop LOCK_FUEL k e l ?s) (\<lambda>(r', s1). case r' of None \<Rightarrow> Ret (None, s1) | Some v \<Rightarrow> unwind k v s1)"
    if "threadInfo (thr s (currentThread s)) = Ctx_frames (F_sleep False x # F_lock e l # k)" "0 \<le> x" "x < 1024" for e x
    using that C by (simp add: dispatch_def tget_thr)
  note L = lock_loop_cases [of ?s xs l lk q ys LOCK_FUEL k, OF _ _ _ assms(3) _ _ f]
  have dead: "lock_loop fuel k e l ?s = Crash Diverges" if "\<not> avaliable lk \<and> xs = []" for fuel e
    using lock_deadlock [of ?s l lk q] that assms by simp
  have "currentThread ?s = currentThread s" "locks ?s = locks s" "wq ?s q ys" "sched ?s xs" using assms by simp_all
  note L' = L [OF this(4) _ _ this(3), unfolded this(1,2), simplified, OF assms(2,5)]
  have again: "\<exists>s'. dispatch s = Ret (None, s') \<and> locks s' = locks s \<and> currentThread s' = List.hd xs \<and> sched s' (tl xs) \<and>
      wq s' q (ys @ [currentThread s]) \<and> threadInfo (thr s' (currentThread s)) = Ctx_frames (F_sleep False (List.hd xs) # F_lock e l # k)"
    if "threadInfo (thr s (currentThread s)) = Ctx_frames (F_sleep False x # F_lock e l # k)" "0 \<le> x" "x < 1024" "\<not> avaliable lk" "xs \<noteq> []" for e x
    using L'(2) [OF that(4,5), of e] by (elim exE conjE) (simp add: d [OF that(1-3)])
  have fuel: "lock_loop n k (intr s) l ?s = lock_acquire k (Some l) s" if "0 < n" for n
    unfolding a using lock_loop_fuel [OF that] lock_loop_fuel [OF f] by metis
  show ?thesis
    using L'(1) L'(2) dead d again a fuel by (intro conjI allI impI) simp_all
qed

theorem lock_acquire_exclusive_witness:
  "\<exists>s l lk s'. sched s [1, 2] \<and> locks s l = Some lk \<and> avaliable lk \<and> lock_acquire [] (Some l) s = Ret (Some 0, s') \<and>
     (\<exists>lk'. locks s' l = Some lk' \<and> \<not> avaliable lk' \<and> acquiredID lk' = 0)"
proof -
  obtain s0 where s0: "sched s0 [1, 2]" "currentThread s0 = 0" using ex_two_threads by (auto simp: turns_ok_def)
  obtain l q s where s: "sched s [1, 2]" "locks s l = Some \<lparr>wqL = Some q, avaliable = True, acquiredID = - 1\<rparr>" "wq s q []" "currentThread s = 0"
    by (rule lock_create_ok [OF s0(1)]) (use s0(2) in auto)
  have "lock_acquire [] (Some l) s = Ret (Some 0, s\<lparr>locks := (locks s)(l \<mapsto> \<lparr>wqL = Some q, avaliable = True, acquiredID = - 1\<rparr>\<lparr>acquiredID := currentThread s, avaliable := False\<rparr>)\<rparr>)"
    using lock_acquire_exclusive [OF s(1,2) _ s(3), of "[]"] by simp
  then show ?thesis using s by (intro exI [of _ s] exI [of _ l]) simp
qed

text \<open>
  C24: \<^verbatim>\<open>lock_release\<close> of a taken lock makes it available and wakes all threads that wait for
  it, in the order in which they came; nothing checks that the caller is the holder.
\<close>

theorem lock_release_wakes_all:
  assumes "sched s xs" "locks s l = Some lk" "wqL lk = Some q" "\<not> avaliable lk" "wq s q ys"
    "set ys \<inter> (set xs \<union> {currentThread s}) = {}" "\<forall>y \<in> set ys. exist (thr s y)"
  shows "\<exists>s'. lock_release (Some l) s = Ret s' \<and> locks s' = (locks s)(l \<mapsto> lk\<lparr>avaliable := True\<rparr>) \<and> sched s' (xs @ ys) \<and>
    wq s' q [] \<and> currentThread s' = currentThread s \<and> intr s' = intr s"
  by (rule release_ok [OF assms]) blast

theorem lock_release_wakes_all_witness:
  "\<exists>s l lk s'. currentThread s = 1 \<and> sched s [2] \<and> locks s l = Some lk \<and> \<not> avaliable lk \<and> acquiredID lk = 2 \<and>
     lock_release (Some l) s = Ret s' \<and> sched s' [2, 0] \<and> (\<exists>lk'. locks s' l = Some lk' \<and> avaliable lk')"
proof -
  obtain s0 where s0: "sched s0 [1, 2]" "currentThread s0 = 0" using ex_two_threads by (auto simp: turns_ok_def)
  obtain l q s where s: "sched s [1, 2]" "locks s l = Some \<lparr>wqL = Some q, avaliable = True, acquiredID = - 1\<rparr>" "wq s q []" "currentThread s = 0"
    by (rule lock_create_ok [OF s0(1)]) (use s0(2) in auto)
  let ?lk = "\<lparr>wqL = Some q, avaliable = False, acquiredID = 2\<rparr>"
  let ?s = "s\<lparr>locks := (locks s)(l \<mapsto> ?lk)\<rparr>"
  have "sched ?s [1, 2]" "wq ?s q []" using s fresh_lock [OF s(1,2)] by simp_all
  then obtain s1 where s1: "currentThread s1 = 1" "sched s1 [2]" "wq s1 q ([] @ [currentThread ?s])" "locks s1 = locks ?s" "exist (thr s1 (currentThread ?s))"
    by (rule sleep_ok [of ?s 1 "[2]" q "[]" "[]"]) auto
  then obtain s' where "lock_release (Some l) s1 = Ret s'" "locks s' = (locks s1)(l \<mapsto> ?lk\<lparr>avaliable := True\<rparr>)" "sched s' ([2] @ [0])"
    using lock_release_wakes_all [of s1 "[2]" l ?lk q "[0]"] s(4) by auto
  then show ?thesis using s1 by (intro exI [of _ s1] exI [of _ l]) simp
qed

end
