(* ===== verification/Web_Ring.thy ===== *)
theory Web_Ring
  imports OS_Prelude
begin

text \<open>
  The request queue of the web server (\<^verbatim>\<open>webserver/server_thread.c\<close>): the ring buffer of
  connections, and the main thread and the worker threads around it. The code between taking the
  lock and releasing it, or waiting on a condition variable, runs without interruption by another
  thread, so each such section is one step of a transition system; the position of a thread
  between its sections is its program counter. Waking up without a signal, which the standard
  allows, is a step too.
\<close>

section \<open>The ring buffer\<close>

record ring =
  conns :: "int list"
  rq_start :: nat
  rq_end :: nat
  request_counter :: nat
  max_requests :: nat

text \<open>
  The body of \<^verbatim>\<open>server_request\<close> behind its loop: the connection is stored, and the flag tells
  whether \<^verbatim>\<open>empty\<close> is broadcast. Likewise of \<^verbatim>\<open>start_thread\<close>, with \<^verbatim>\<open>full\<close>.
\<close>

definition ring_put :: "ring \<Rightarrow> int \<Rightarrow> (bool \<times> ring) res" where
  "ring_put r connfd =
    bnd (guard_ub (rq_start r < length (conns r))) (\<lambda>_.
    bnd (guard_ub (max_requests r \<noteq> 0)) (\<lambda>_.
    Ret (request_counter r = 0,
         r\<lparr>conns := (conns r)[rq_start r := connfd], rq_start := (rq_start r + 1) mod max_requests r,
           request_counter := request_counter r + 1\<rparr>)))"

definition ring_get :: "ring \<Rightarrow> (int \<times> bool \<times> ring) res" where
  "ring_get r =
    bnd (guard_ub (rq_end r < length (conns r))) (\<lambda>_.
    bnd (guard_ub (max_requests r \<noteq> 0)) (\<lambda>_.
    Ret (conns r ! rq_end r, request_counter r = max_requests r,
         r\<lparr>rq_end := (rq_end r + 1) mod max_requests r, request_counter := request_counter r - 1\<rparr>)))"

text \<open>The array comes from \<^verbatim>\<open>malloc\<close>: its first contents is arbitrary.\<close>

definition ring_init :: "nat \<Rightarrow> int list \<Rightarrow> ring" where
  "ring_init n junk = \<lparr>conns = take n junk @ replicate (n - length junk) 0, rq_start = 0, rq_end = 0,
     request_counter = 0, max_requests = n\<rparr>"

section \<open>Threads\<close>

text \<open>
  A worker is about to take the lock at the top of its loop, waits on \<^verbatim>\<open>empty\<close>, was woken and
  is about to take the lock again, serves a connection, or has returned. The main thread accepts
  connections, is inside \<^verbatim>\<open>server_request\<close> at the same points, or inside \<^verbatim>\<open>server_exit\<close>.
\<close>

datatype worker = W_Lock | W_Wait | W_Woken | W_Busy int | W_Exit

datatype main_thread = P_Idle | P_Lock int | P_Wait int | P_Woken int | P_Join | P_Done

text \<open>\<^verbatim>\<open>accepted\<close> and \<^verbatim>\<open>served\<close> record the connections put into and taken from the ring.\<close>

record pool =
  ring :: ring
  workers :: "worker list"
  mainp :: main_thread
  exiting :: bool
  accepted :: "int list"
  served :: "int list"

definition wake_workers :: "worker list \<Rightarrow> worker list" where
  "wake_workers = map (\<lambda>w. if w = W_Wait then W_Woken else w)"

primrec wake_main :: "main_thread \<Rightarrow> main_thread" where
  "wake_main P_Idle = P_Idle"
| "wake_main (P_Lock c) = P_Lock c"
| "wake_main (P_Wait c) = P_Woken c"
| "wake_main (P_Woken c) = P_Woken c"
| "wake_main P_Join = P_Join"
| "wake_main P_Done = P_Done"

text \<open>The loop test of \<^verbatim>\<open>start_thread\<close> with the lock held, then the rest of the section.\<close>

definition start_thread_test :: "pool \<Rightarrow> nat \<Rightarrow> pool res" where
  "start_thread_test p i =
    (if request_counter (ring p) = 0 then Ret (p\<lparr>workers := (workers p)[i := W_Wait]\<rparr>)
     else
       bnd (ring_get (ring p)) (\<lambda>(connfd, signal, r).
       Ret (p\<lparr>ring := r, workers := (workers p)[i := W_Busy connfd],
              mainp := (if signal then wake_main (mainp p) else mainp p), served := served p @ [connfd]\<rparr>)))"

definition start_thread_resume :: "pool \<Rightarrow> nat \<Rightarrow> pool res" where
  "start_thread_resume p i =
    (if exiting p then Ret (p\<lparr>workers := (workers p)[i := W_Exit]\<rparr>) else start_thread_test p i)"

definition server_request_test :: "pool \<Rightarrow> int \<Rightarrow> pool res" where
  "server_request_test p connfd =
    (if request_counter (ring p) = max_requests (ring p) then Ret (p\<lparr>mainp := P_Wait connfd\<rparr>)
     else
       bnd (ring_put (ring p) connfd) (\<lambda>(signal, r).
       Ret (p\<lparr>ring := r, mainp := P_Idle, workers := (if signal then wake_workers (workers p) else workers p),
              accepted := accepted p @ [connfd]\<rparr>)))"

definition server_request_resume :: "pool \<Rightarrow> int \<Rightarrow> pool res" where
  "server_request_resume p connfd =
    (if exiting p then Ret (p\<lparr>mainp := P_Idle\<rparr>) else server_request_test p connfd)"

text \<open>\<^verbatim>\<open>server_exit\<close> up to its first \<^verbatim>\<open>pthread_join\<close>, and its end when all workers returned.\<close>

definition server_exit_begin :: "pool \<Rightarrow> pool" where
  "server_exit_begin p = p\<lparr>exiting := True, workers := wake_workers (workers p), mainp := P_Join\<rparr>"

definition server_init :: "nat \<Rightarrow> nat \<Rightarrow> int list \<Rightarrow> pool" where
  "server_init nr_threads max_req junk =
    \<lparr>ring = ring_init max_req junk, workers = replicate nr_threads W_Lock, mainp = P_Idle, exiting = False,
     accepted = [], served = []\<rparr>"

inductive pstep :: "pool \<Rightarrow> pool \<Rightarrow> bool" where
  accept: "mainp p = P_Idle \<Longrightarrow> \<not> exiting p \<Longrightarrow> pstep p (p\<lparr>mainp := P_Lock c\<rparr>)"
| request_enter: "mainp p = P_Lock c \<Longrightarrow> server_request_test p c = Ret p' \<Longrightarrow> pstep p p'"
| request_resume: "mainp p = P_Woken c \<Longrightarrow> server_request_resume p c = Ret p' \<Longrightarrow> pstep p p'"
| worker_enter: "i < length (workers p) \<Longrightarrow> workers p ! i = W_Lock \<Longrightarrow> start_thread_test p i = Ret p' \<Longrightarrow> pstep p p'"
| worker_resume: "i < length (workers p) \<Longrightarrow> workers p ! i = W_Woken \<Longrightarrow> start_thread_resume p i = Ret p' \<Longrightarrow> pstep p p'"
| worker_done: "i < length (workers p) \<Longrightarrow> workers p ! i = W_Busy c \<Longrightarrow> pstep p (p\<lparr>workers := (workers p)[i := W_Lock]\<rparr>)"
| exit_begin: "mainp p = P_Idle \<Longrightarrow> \<not> exiting p \<Longrightarrow> pstep p (server_exit_begin p)"
| exit_end: "mainp p = P_Join \<Longrightarrow> list_all (\<lambda>w. w = W_Exit) (workers p) \<Longrightarrow> pstep p (p\<lparr>mainp := P_Done\<rparr>)"

inductive preach :: "pool \<Rightarrow> pool \<Rightarrow> bool" for p0 where
  init: "preach p0 p0"
| step: "preach p0 p \<Longrightarrow> pstep p p' \<Longrightarrow> preach p0 p'"
| spurious_worker: "preach p0 p \<Longrightarrow> i < length (workers p) \<Longrightarrow> workers p ! i = W_Wait \<Longrightarrow>
    preach p0 (p\<lparr>workers := (workers p)[i := W_Woken]\<rparr>)"
| spurious_main: "preach p0 p \<Longrightarrow> mainp p = P_Wait c \<Longrightarrow> preach p0 (p\<lparr>mainp := P_Woken c\<rparr>)"

section \<open>A bounded queue\<close>

locale bounded_fifo =
  fixes inv :: "'q \<Rightarrow> bool" and cap :: "'q \<Rightarrow> nat" and elems :: "'q \<Rightarrow> 'a list"
    and put :: "'q \<Rightarrow> 'a \<Rightarrow> (bool \<times> 'q) res" and get :: "'q \<Rightarrow> ('a \<times> bool \<times> 'q) res"
  assumes bounded: "inv q \<Longrightarrow> length (elems q) \<le> cap q"
    and put_ok: "inv q \<Longrightarrow> length (elems q) < cap q \<Longrightarrow>
      \<exists>q'. put q x = Ret (elems q = [], q') \<and> inv q' \<and> elems q' = elems q @ [x] \<and> cap q' = cap q"
    and get_ok: "inv q \<Longrightarrow> elems q = x # xs \<Longrightarrow>
      \<exists>q'. get q = Ret (x, length (elems q) = cap q, q') \<and> inv q' \<and> elems q' = xs \<and> cap q' = cap q"

primrec put_all :: "('q \<Rightarrow> 'a \<Rightarrow> (bool \<times> 'q) res) \<Rightarrow> 'q \<Rightarrow> 'a list \<Rightarrow> 'q res" where
  "put_all put q [] = Ret q"
| "put_all put q (x # xs) = bnd (put q x) (\<lambda>(_, q'). put_all put q' xs)"

primrec get_all :: "('q \<Rightarrow> ('a \<times> bool \<times> 'q) res) \<Rightarrow> 'q \<Rightarrow> nat \<Rightarrow> ('a list \<times> 'q) res" where
  "get_all get q 0 = Ret ([], q)"
| "get_all get q (Suc n) = bnd (get q) (\<lambda>(x, _, q'). bnd (get_all get q' n) (\<lambda>(xs, q''). Ret (x # xs, q'')))"

context bounded_fifo
begin

lemma put_all_ok:
  "inv q \<Longrightarrow> length (elems q) + length xs \<le> cap q \<Longrightarrow>
     \<exists>q'. put_all put q xs = Ret q' \<and> inv q' \<and> elems q' = elems q @ xs \<and> cap q' = cap q"
proof (induction xs arbitrary: q)
  case (Cons x xs)
  obtain q1 where q1: "put q x = Ret (elems q = [], q1)" "inv q1" "elems q1 = elems q @ [x]" "cap q1 = cap q"
    using put_ok [OF Cons.prems(1), of x] Cons.prems(2) by auto
  then show ?case using Cons.IH [OF q1(2)] Cons.prems(2) by auto
qed simp

lemma get_all_ok:
  "inv q \<Longrightarrow> elems q = xs @ ys \<Longrightarrow> \<exists>q'. get_all get q (length xs) = Ret (xs, q') \<and> inv q' \<and> elems q' = ys \<and> cap q' = cap q"
proof (induction xs arbitrary: q)
  case (Cons x xs)
  obtain q1 b where q1: "get q = Ret (x, b, q1)" "inv q1" "elems q1 = xs @ ys" "cap q1 = cap q"
    using get_ok [OF Cons.prems(1), of x "xs @ ys"] Cons.prems(2) by auto
  then show ?case using Cons.IH [OF q1(2,3)] by auto
qed simp

lemma in_order:
  assumes "inv q" "elems q = []" "length xs \<le> cap q"
  shows "\<exists>q1 q2. put_all put q xs = Ret q1 \<and> get_all get q1 (length xs) = Ret (xs, q2) \<and> elems q2 = []"
  using put_all_ok [OF assms(1), of xs] get_all_ok [of _ xs "[]"] assms(2,3) by fastforce

end

section \<open>The ring is a bounded queue\<close>

definition ring_inv :: "ring \<Rightarrow> bool" where
  "ring_inv r \<longleftrightarrow> 0 < max_requests r \<and> length (conns r) = max_requests r \<and> request_counter r \<le> max_requests r \<and>
     rq_end r < max_requests r \<and> rq_start r = (rq_end r + request_counter r) mod max_requests r"

definition ring_list :: "ring \<Rightarrow> int list" where
  "ring_list r = map (\<lambda>i. conns r ! ((rq_end r + i) mod max_requests r)) [0..<request_counter r]"

lemma length_ring_list [simp]: "length (ring_list r) = request_counter r"
  by (simp add: ring_list_def)

lemma ring_slots_distinct:
  fixes n :: nat
  assumes "i < c" "c < n"
  shows "(e + i) mod n \<noteq> (e + c) mod n"
proof
  assume "(e + i) mod n = (e + c) mod n"
  then have "n dvd (e + c) - (e + i)" using assms mod_eq_dvd_iff_nat [of "e + i" "e + c" n] by simp
  then show False using assms by (simp add: nat_dvd_not_less)
qed

lemma ring_put_ok:
  assumes "ring_inv r" "request_counter r < max_requests r"
  shows "\<exists>r'. ring_put r x = Ret (request_counter r = 0, r') \<and> ring_inv r' \<and> ring_list r' = ring_list r @ [x] \<and>
    max_requests r' = max_requests r \<and> request_counter r' = request_counter r + 1"
proof -
  let ?r = "r\<lparr>conns := (conns r)[rq_start r := x], rq_start := (rq_start r + 1) mod max_requests r,
      request_counter := request_counter r + 1\<rparr>"
  have i: "0 < max_requests r" "length (conns r) = max_requests r" "rq_start r = (rq_end r + request_counter r) mod max_requests r"
    using assms(1) by (simp_all add: ring_inv_def)
  then have st: "rq_start r < length (conns r)" by simp
  have "conns ?r ! ((rq_end r + k) mod max_requests r) = conns r ! ((rq_end r + k) mod max_requests r)" if "k < request_counter r" for k
    using ring_slots_distinct [OF that assms(2), of "rq_end r"] i by (simp add: nth_list_update)
  then have "ring_list ?r = ring_list r @ [x]" using st i by (simp add: ring_list_def)
  moreover have "ring_inv ?r" using assms i by (simp add: ring_inv_def mod_simps)
  ultimately show ?thesis using st i by (simp add: ring_put_def)
qed

lemma ring_get_ok:
  assumes "ring_inv r" "ring_list r = x # xs"
  shows "\<exists>r'. ring_get r = Ret (x, request_counter r = max_requests r, r') \<and> ring_inv r' \<and> ring_list r' = xs \<and>
    max_requests r' = max_requests r \<and> Suc (request_counter r') = request_counter r"
proof -
  let ?r = "r\<lparr>rq_end := (rq_end r + 1) mod max_requests r, request_counter := request_counter r - 1\<rparr>"
  have i: "0 < max_requests r" "length (conns r) = max_requests r" "rq_end r < max_requests r"
    "rq_start r = (rq_end r + request_counter r) mod max_requests r"
    using assms(1) by (simp_all add: ring_inv_def)
  have "request_counter r = Suc (length xs)" using arg_cong [OF assms(2), of length] by simp
  then obtain n where n: "request_counter r = Suc n" by blast
  have e: "ring_list r = conns r ! rq_end r # ring_list ?r"
    using n i(3) by (simp add: ring_list_def upt_conv_Cons del: upt_Suc) (simp add: map_Suc_upt [symmetric] mod_simps del: upt_Suc)
  then have "x = conns r ! rq_end r" "xs = ring_list ?r" using assms(2) by simp_all
  moreover have "ring_inv ?r" using assms(1) i n by (simp add: ring_inv_def mod_simps)
  ultimately show ?thesis using i n by (simp add: ring_get_def)
qed

interpretation ringq: bounded_fifo ring_inv max_requests ring_list ring_put ring_get
proof unfold_locales
  show "\<And>q. ring_inv q \<Longrightarrow> length (ring_list q) \<le> max_requests q" by (simp add: ring_inv_def)
next
  fix q x assume "ring_inv q" "length (ring_list q) < max_requests q"
  then show "\<exists>q'. ring_put q x = Ret (ring_list q = [], q') \<and> ring_inv q' \<and> ring_list q' = ring_list q @ [x] \<and>
      max_requests q' = max_requests q"
    using ring_put_ok [of q x] by (auto simp flip: length_0_conv)
next
  fix q x xs assume "ring_inv q" "ring_list q = x # xs"
  then show "\<exists>q'. ring_get q = Ret (x, length (ring_list q) = max_requests q, q') \<and> ring_inv q' \<and> ring_list q' = xs \<and>
      max_requests q' = max_requests q"
    using ring_get_ok [of q x xs] by auto
qed

lemma ring_inv_init: "0 < n \<Longrightarrow> ring_inv (ring_init n junk) \<and> ring_list (ring_init n junk) = [] \<and> max_requests (ring_init n junk) = n"
  by (simp add: ring_init_def ring_inv_def ring_list_def)

section \<open>The invariant of the threads\<close>

text \<open>
  The ring is a queue of at most \<^verbatim>\<open>max_requests\<close> connections; connections leave it in the
  order they entered it; nobody waits for a condition that holds.
\<close>

definition pool_inv :: "nat \<Rightarrow> nat \<Rightarrow> pool \<Rightarrow> bool" where
  "pool_inv nt n p \<longleftrightarrow> ring_inv (ring p) \<and> max_requests (ring p) = n \<and> length (workers p) = nt \<and>
     accepted p = served p @ ring_list (ring p) \<and>
     (0 < request_counter (ring p) \<longrightarrow> W_Wait \<notin> set (workers p)) \<and>
     (request_counter (ring p) < n \<longrightarrow> (\<forall>c. mainp p \<noteq> P_Wait c)) \<and>
     (W_Exit \<in> set (workers p) \<longrightarrow> exiting p)"

lemmas pool_inv_parts = pool_inv_def [THEN iffD1]

lemma set_update_mem: "w \<in> set (xs[i := x]) \<Longrightarrow> w = x \<or> w \<in> set xs"
  by (meson insert_iff set_update_subset_insert subsetD)

lemma wake_workers_simps [simp]:
  "length (wake_workers ws) = length ws" "W_Wait \<notin> set (wake_workers ws)" "W_Exit \<in> set (wake_workers ws) \<longleftrightarrow> W_Exit \<in> set ws"
  by (auto simp: wake_workers_def image_iff)

lemma wake_main_wait [simp]: "wake_main m \<noteq> P_Wait c"
  by (cases m) simp_all

lemma start_thread_test_ok:
  assumes inv: "pool_inv nt n p" and i: "i < nt"
  obtains p' where "start_thread_test p i = Ret p'" "pool_inv nt n p'" "exiting p' = exiting p"
proof (cases "request_counter (ring p) = 0")
  case True
  then have "pool_inv nt n (p\<lparr>workers := (workers p)[i := W_Wait]\<rparr>)"
    using inv by (auto simp: pool_inv_def dest!: set_update_mem)
  then show ?thesis using that True by (simp add: start_thread_test_def)
next
  case False
  then obtain x xs where l: "ring_list (ring p) = x # xs" using length_ring_list [of "ring p"] by (cases "ring_list (ring p)") auto
  have ri: "ring_inv (ring p)" using inv by (simp add: pool_inv_def)
  obtain r' where r': "ring_get (ring p) = Ret (x, request_counter (ring p) = max_requests (ring p), r')" "ring_inv r'" "ring_list r' = xs"
    "max_requests r' = max_requests (ring p)" "Suc (request_counter r') = request_counter (ring p)"
    using ring_get_ok [OF ri l] by blast
  define p' where "p' = p\<lparr>ring := r', workers := (workers p)[i := W_Busy x],
      mainp := (if request_counter (ring p) = max_requests (ring p) then wake_main (mainp p) else mainp p), served := served p @ [x]\<rparr>"
  have "W_Wait \<notin> set (workers p)" "accepted p = served p @ x # xs" using inv False l by (simp_all add: pool_inv_def)
  moreover have "\<forall>c. mainp p' \<noteq> P_Wait c"
  proof (cases "request_counter (ring p) = max_requests (ring p)")
    case nf: False
    then have "request_counter (ring p) < n" using inv by (auto simp: pool_inv_def ring_inv_def)
    then show ?thesis using nf inv by (simp add: p'_def pool_inv_def)
  qed (simp add: p'_def)
  moreover have "W_Wait \<notin> set (workers p')" "W_Exit \<in> set (workers p') \<Longrightarrow> exiting p'"
    using \<open>W_Wait \<notin> set (workers p)\<close> inv by (auto simp: p'_def pool_inv_def dest!: set_update_mem)
  ultimately have "pool_inv nt n p'" using inv r' unfolding pool_inv_def by (auto simp: p'_def)
  moreover have "start_thread_test p i = Ret p'" using False r'(1) by (simp add: start_thread_test_def p'_def)
  ultimately show ?thesis using that by (simp add: p'_def)
qed

lemma server_request_test_ok:
  assumes inv: "pool_inv nt n p"
  obtains p' where "server_request_test p c = Ret p'" "pool_inv nt n p'"
proof (cases "request_counter (ring p) = max_requests (ring p)")
  case True
  then have "pool_inv nt n (p\<lparr>mainp := P_Wait c\<rparr>)" using inv by (auto simp: pool_inv_def)
  then show ?thesis using that True by (simp add: server_request_test_def)
next
  case False
  have ri: "ring_inv (ring p)" "request_counter (ring p) < max_requests (ring p)"
    using inv False by (auto simp: pool_inv_def ring_inv_def)
  obtain r' where r': "ring_put (ring p) c = Ret (request_counter (ring p) = 0, r')" "ring_inv r'"
    "ring_list r' = ring_list (ring p) @ [c]" "max_requests r' = max_requests (ring p)" "request_counter r' = request_counter (ring p) + 1"
    using ring_put_ok [OF ri] by blast
  let ?ws = "if request_counter (ring p) = 0 then wake_workers (workers p) else workers p"
  let ?p = "p\<lparr>ring := r', mainp := P_Idle, workers := ?ws, accepted := accepted p @ [c]\<rparr>"
  have "W_Wait \<notin> set ?ws" "length ?ws = length (workers p)" "W_Exit \<in> set ?ws \<longleftrightarrow> W_Exit \<in> set (workers p)"
    using inv by (auto simp: pool_inv_def)
  then have "pool_inv nt n ?p" using inv r'(2-5) by (simp add: pool_inv_def)
  moreover have "server_request_test p c = Ret ?p" using False r'(1) by (simp add: server_request_test_def)
  ultimately show ?thesis using that by blast
qed

lemma pool_inv_worker:
  assumes "pool_inv nt n p" "w \<noteq> W_Wait" "w = W_Exit \<Longrightarrow> exiting p"
  shows "pool_inv nt n (p\<lparr>workers := (workers p)[i := w]\<rparr>)"
  using assms by (auto simp: pool_inv_def dest!: set_update_mem)

lemma pstep_inv: "pstep p p' \<Longrightarrow> pool_inv nt n p \<Longrightarrow> pool_inv nt n p'"
proof (induction rule: pstep.induct)
  case (request_enter p c p')
  from server_request_test_ok [OF request_enter(3)] show ?case using request_enter(2) by (metis res.inject(1))
next
  case (request_resume p c p')
  show ?case
  proof (cases "exiting p")
    case True
    then show ?thesis using request_resume by (auto simp: server_request_resume_def pool_inv_def)
  next
    case False
    then have "server_request_test p c = Ret p'" using request_resume(2) by (simp add: server_request_resume_def)
    from server_request_test_ok [OF request_resume(3)] this show ?thesis by (metis res.inject(1))
  qed
next
  case (worker_enter i p p')
  then have "i < nt" by (simp add: pool_inv_def)
  from start_thread_test_ok [OF worker_enter(4) this] show ?case using worker_enter(3) by (metis res.inject(1))
next
  case (worker_resume i p p')
  show ?case
  proof (cases "exiting p")
    case True
    then show ?thesis using worker_resume pool_inv_worker [of nt n p W_Exit i] by (auto simp: start_thread_resume_def)
  next
    case False
    then have r: "start_thread_test p i = Ret p'" "i < nt" using worker_resume by (simp_all add: start_thread_resume_def pool_inv_def)
    from start_thread_test_ok [OF worker_resume(4) r(2)] show ?thesis using r(1) by (metis res.inject(1))
  qed
next
  case (worker_done i p c)
  then show ?case using pool_inv_worker [of nt n p W_Lock i] by simp
next
  case (exit_begin p)
  then show ?case by (auto simp: server_exit_begin_def pool_inv_def)
qed (auto simp: pool_inv_def)

lemma preach_inv: "preach p0 p \<Longrightarrow> pool_inv nt n p0 \<Longrightarrow> pool_inv nt n p"
proof (induction rule: preach.induct)
  case (step p p')
  then show ?case using pstep_inv by blast
next
  case (spurious_worker p i)
  then show ?case using pool_inv_worker [of nt n p W_Woken i] by simp
qed (auto simp: pool_inv_def)

lemma pool_inv_init: "0 < n \<Longrightarrow> pool_inv nt n (server_init nt n junk)"
  using ring_inv_init [of n junk] by (auto simp: server_init_def pool_inv_def ring_init_def ring_list_def)

lemma reach_inv: "0 < n \<Longrightarrow> preach (server_init nt n junk) p \<Longrightarrow> pool_inv nt n p"
  using preach_inv pool_inv_init by blast

section \<open>Properties\<close>

text \<open>
  The ring buffer is a first-in first-out queue of bounded size: any list of at most
  \<^verbatim>\<open>max_requests\<close> connections put into an empty ring, wherever its indices stand, is taken
  out again in the same order, and the ring is empty afterwards.
\<close>

theorem ring_is_fifo:
  assumes "ring_inv r" "ring_list r = []" "length xs \<le> max_requests r"
  shows "\<exists>r1 r2. put_all ring_put r xs = Ret r1 \<and> get_all ring_get r1 (length xs) = Ret (xs, r2) \<and> ring_list r2 = []"
  by (rule ringq.in_order [OF assms])

theorem ring_is_fifo_witness:
  "\<exists>r1 r2. put_all ring_put (ring_init 3 []) [7, 8, 9] = Ret r1 \<and> get_all ring_get r1 3 = Ret ([7, 8, 9], r2) \<and> ring_list r2 = []"
  using ring_is_fifo [of "ring_init 3 []" "[7, 8, 9]"] ring_inv_init [of 3 "[]"]
  by (simp add: numeral_3_eq_3 del: put_all.simps get_all.simps)

text \<open>
  C28: whatever the interleaving of the main thread and any number of workers, and with wake-ups
  without a signal, no access to the ring is out of bounds, the ring never holds more than
  \<^verbatim>\<open>max_requests\<close> connections, and the connections handed to workers are exactly those accepted,
  once each and in order, but for the ones still in the ring.
\<close>

theorem pool_safety:
  assumes "0 < max_req" "preach (server_init nr_threads max_req junk) p"
  shows "length (ring_list (ring p)) \<le> max_req \<and> accepted p = served p @ ring_list (ring p) \<and>
    (\<forall>i < nr_threads. is_ret (start_thread_test p i)) \<and> (\<forall>c. is_ret (server_request_test p c))"
proof -
  have inv: "pool_inv nr_threads max_req p" by (rule reach_inv [OF assms])
  have "is_ret (start_thread_test p i)" if "i < nr_threads" for i using start_thread_test_ok [OF inv that] by (metis is_ret.simps(1))
  moreover have "is_ret (server_request_test p c)" for c using server_request_test_ok [OF inv] by (metis is_ret.simps(1))
  ultimately show ?thesis using inv ringq.bounded [of "ring p"] by (auto simp: pool_inv_def)
qed

lemma pool_run_example:
  "preach (server_init 1 1 []) \<lparr>ring = \<lparr>conns = [5], rq_start = 0, rq_end = 0, request_counter = 1, max_requests = 1\<rparr>,
     workers = [W_Lock], mainp = P_Idle, exiting = False, accepted = [5], served = []\<rparr>"
proof -
  let ?p0 = "server_init 1 1 []" and ?p1 = "(server_init 1 1 [])\<lparr>mainp := P_Lock 5\<rparr>"
  have "preach ?p0 ?p1" by (rule preach.step [OF preach.init pstep.accept]) (simp_all add: server_init_def)
  moreover have "pstep ?p1 \<lparr>ring = \<lparr>conns = [5], rq_start = 0, rq_end = 0, request_counter = 1, max_requests = 1\<rparr>,
     workers = [W_Lock], mainp = P_Idle, exiting = False, accepted = [5], served = []\<rparr>"
    by (rule pstep.request_enter [of _ 5])
      (simp_all add: server_init_def ring_init_def server_request_test_def ring_put_def wake_workers_def)
  ultimately show ?thesis by (rule preach.step)
qed

theorem pool_safety_witness:
  "\<exists>p. preach (server_init 1 1 []) p \<and> accepted p = [5] \<and> ring_list (ring p) = [5] \<and> length (ring_list (ring p)) \<le> 1"
  using pool_safety [OF _ pool_run_example] pool_run_example by (auto simp: ring_list_def)

text \<open>
  C29: no wake-up is lost: in every reachable state of a running server with at least one worker,
  when connections are waiting in the ring some worker is not blocked (it can take the lock and a
  connection, or is serving one), and when the ring has room the main thread is not blocked.
\<close>

theorem no_lost_wakeup:
  assumes "0 < max_req" "0 < nr_threads" "preach (server_init nr_threads max_req junk) p" "\<not> exiting p"
  shows "(ring_list (ring p) \<noteq> [] \<longrightarrow> (\<exists>i < nr_threads. \<exists>p'. pstep p p' \<and> workers p ! i \<notin> {W_Wait, W_Exit} \<and> workers p' ! i \<noteq> workers p ! i)) \<and>
    (length (ring_list (ring p)) < max_req \<longrightarrow> (\<forall>c. mainp p \<noteq> P_Wait c))"
proof -
  have inv: "pool_inv nr_threads max_req p" by (rule reach_inv [OF assms(1,3)])
  have "\<exists>i < nr_threads. \<exists>p'. pstep p p' \<and> workers p ! i \<notin> {W_Wait, W_Exit} \<and> workers p' ! i \<noteq> workers p ! i" if ne: "ring_list (ring p) \<noteq> []"
  proof -
    have cnt: "0 < request_counter (ring p)" using ne by (simp flip: length_greater_0_conv)
    have len: "0 < length (workers p)" "length (workers p) = nr_threads" using inv assms(2) by (simp_all add: pool_inv_def)
    then have mem: "workers p ! 0 \<in> set (workers p)" by simp
    then have w: "workers p ! 0 \<notin> {W_Wait, W_Exit}" using inv cnt assms(4) by (auto simp: pool_inv_def)
    obtain p' where t: "start_thread_test p 0 = Ret p'" using start_thread_test_ok [OF inv assms(2)] by blast
    then obtain c where "workers p' ! 0 = W_Busy c"
      using cnt len by (auto simp: start_thread_test_def res_simps split: prod.splits)
    moreover have "start_thread_resume p 0 = Ret p'" using t assms(4) by (simp add: start_thread_resume_def)
    ultimately have "\<exists>p'. pstep p p' \<and> workers p' ! 0 \<noteq> workers p ! 0"
      using w t pstep.worker_enter [OF len(1), of p'] pstep.worker_resume [OF len(1), of p'] pstep.worker_done [OF len(1)] len
      by (cases "workers p ! 0") (fastforce+)
    then show ?thesis using w assms(2) by blast
  qed
  then show ?thesis using inv by (auto simp: pool_inv_def)
qed

theorem no_lost_wakeup_witness:
  "\<exists>p p'. preach (server_init 1 1 []) p \<and> ring_list (ring p) = [5] \<and> pstep p p'"
  using no_lost_wakeup [OF _ _ pool_run_example] pool_run_example by (auto simp: ring_list_def)

text \<open>A worker that finds the ring empty after \<^verbatim>\<open>server_exit\<close> has broadcast waits for good.\<close>

definition hung_pool :: pool where
  "hung_pool = \<lparr>ring = \<lparr>conns = [5], rq_start = 0, rq_end = 0, request_counter = 0, max_requests = 1\<rparr>,
     workers = [W_Wait], mainp = P_Join, exiting = True, accepted = [5], served = [5]\<rparr>"

lemma hung_stuck: "\<not> pstep hung_pool p'"
  by (auto simp: hung_pool_def elim!: pstep.cases)

lemma hung_reachable: "preach (server_init 1 1 []) hung_pool"
proof -
  let ?r = "\<lambda>n. \<lparr>conns = [5], rq_start = 0, rq_end = 0, request_counter = n, max_requests = 1\<rparr>"
  let ?p = "\<lambda>n ws m e sv. \<lparr>ring = ?r n, workers = ws, mainp = m, exiting = e, accepted = [5], served = sv\<rparr>"
  have "pstep (?p 1 [W_Lock] P_Idle False []) (?p 0 [W_Busy 5] P_Idle False [5])"
    by (rule pstep.worker_enter [of 0]) (simp_all add: start_thread_test_def ring_get_def)
  with pool_run_example have "preach (server_init 1 1 []) (?p 0 [W_Busy 5] P_Idle False [5])" by (rule preach.step)
  moreover have "pstep (?p 0 [W_Busy 5] P_Idle False [5]) (?p 0 [W_Busy 5] P_Join True [5])"
    using pstep.exit_begin [of "?p 0 [W_Busy 5] P_Idle False [5]"] by (simp add: server_exit_begin_def wake_workers_def)
  ultimately have "preach (server_init 1 1 []) (?p 0 [W_Busy 5] P_Join True [5])" by (rule preach.step)
  moreover have "pstep (?p 0 [W_Busy 5] P_Join True [5]) (?p 0 [W_Lock] P_Join True [5])"
    using pstep.worker_done [of 0 "?p 0 [W_Busy 5] P_Join True [5]" 5] by simp
  ultimately have "preach (server_init 1 1 []) (?p 0 [W_Lock] P_Join True [5])" by (rule preach.step)
  moreover have "pstep (?p 0 [W_Lock] P_Join True [5]) hung_pool"
    by (rule pstep.worker_enter [of 0]) (simp_all add: start_thread_test_def hung_pool_def)
  ultimately show ?thesis by (rule preach.step)
qed

text \<open>
  \<^verbatim>\<open>server_exit\<close> can hang: a worker that is serving a connection when \<^verbatim>\<open>exiting\<close> is
  set and \<^verbatim>\<open>empty\<close> is broadcast tests \<^verbatim>\<open>exiting\<close> only after a wait, finds the ring empty and
  waits; the main thread then waits for it to return, and no step of the program is possible.
\<close>

theorem server_exit_can_hang:
  "\<exists>p. preach (server_init 1 1 []) p \<and> exiting p \<and> mainp p = P_Join \<and> workers p = [W_Wait] \<and> (\<forall>p'. \<not> pstep p p')"
  using hung_reachable hung_stuck by (intro exI [of _ hung_pool]) (simp add: hung_pool_def)

end
