(* ===== verification/Web_IO.thy ===== *)
theory Web_IO
  imports OS_Prelude
begin

text \<open>
  Robust input and output (\<^verbatim>\<open>webserver/common.c\<close>). The system calls \<^verbatim>\<open>read\<close> and
  \<^verbatim>\<open>write\<close> are the operating system's: what they return is a parameter, the list of the results
  of the calls to come. A call of \<^verbatim>\<open>read\<close> delivers at most the bytes asked for and
  the next call the rest; behind the end of the list is the end of the file, and a call that
  returned the end of the file does so again.
\<close>

section \<open>System calls\<close>

datatype rcall = R_Intr | R_Fail | R_Data "byte list"

datatype wcall = W_Intr | W_Fail | W_Count nat

text \<open>The result of one \<^verbatim>\<open>read\<close> of at most \<^verbatim>\<open>n\<close> bytes; an empty \<^const>\<open>R_Data\<close> is the end of the file.\<close>

fun sys_read :: "nat \<Rightarrow> rcall list \<Rightarrow> rcall \<times> rcall list" where
  "sys_read n [] = (R_Data [], [])"
| "sys_read n (R_Intr # cs) = (R_Intr, cs)"
| "sys_read n (R_Fail # cs) = (R_Fail, cs)"
| "sys_read n (R_Data bs # cs) =
     (R_Data (take n bs), if bs \<noteq> [] \<and> length bs \<le> n then cs else R_Data (drop n bs) # cs)"

text \<open>\<^verbatim>\<open>write\<close> takes between one and all of the bytes it is given.\<close>

fun sys_write :: "nat \<Rightarrow> wcall list \<Rightarrow> wcall \<times> wcall list" where
  "sys_write n [] = (W_Count n, [])"
| "sys_write n (W_Count k # cs) = (W_Count (max 1 (min k n)), cs)"
| "sys_write n (c # cs) = (c, cs)"

definition weight :: "rcall list \<Rightarrow> nat" where
  "weight cs = sum_list (map (\<lambda>c. case c of R_Data bs \<Rightarrow> Suc (length bs) | _ \<Rightarrow> 1) cs)"

lemma weight_simps [simp]:
  "weight [] = 0" "weight (R_Intr # cs) = Suc (weight cs)" "weight (R_Fail # cs) = Suc (weight cs)"
  "weight (R_Data bs # cs) = Suc (length bs + weight cs)"
  by (simp_all add: weight_def)

lemma sys_read_weight: "0 < n \<Longrightarrow> sys_read n cs = (r, cs') \<Longrightarrow> r \<noteq> R_Data [] \<Longrightarrow> weight cs' < weight cs"
  by (induction n cs rule: sys_read.induct) (auto split: if_splits)

lemma sys_write_intr: "sys_write n cs = (W_Intr, cs') \<Longrightarrow> length cs' < length cs"
  by (induction n cs rule: sys_write.induct) auto

lemma sys_write_count: "sys_write n cs = (W_Count k, cs') \<Longrightarrow> 0 < n \<Longrightarrow> 0 < k \<and> k \<le> n"
  by (induction n cs rule: sys_write.induct) auto

section \<open>Reading and writing a number of bytes\<close>

text \<open>The number of bytes read, or \<^verbatim>\<open>-1\<close>; the bytes; and the calls to come.\<close>

function rio_read :: "rcall list \<Rightarrow> nat \<Rightarrow> byte list \<Rightarrow> int \<times> byte list \<times> rcall list" where
  "rio_read cs nleft got =
    (if nleft > 0 then
       (case sys_read nleft cs of
          (R_Intr, cs') \<Rightarrow> rio_read cs' nleft got
        | (R_Fail, cs') \<Rightarrow> (- 1, got, cs')
        | (R_Data bs, cs') \<Rightarrow>
            if bs = [] then (int (length got), got, cs')
            else rio_read cs' (nleft - length bs) (got @ bs))
     else (int (length got), got, cs))"
  by pat_completeness auto
termination
  by (relation "measure (\<lambda>(cs, nleft, got). weight cs)") (auto dest: sys_read_weight [OF _ sym])

declare rio_read.simps [simp del]

function rio_write :: "wcall list \<Rightarrow> byte list \<Rightarrow> byte list \<Rightarrow> int \<times> byte list \<times> wcall list" where
  "rio_write cs buf sent =
    (if buf \<noteq> [] then
       (case sys_write (length buf) cs of
          (W_Intr, cs') \<Rightarrow> rio_write cs' buf sent
        | (W_Fail, cs') \<Rightarrow> (- 1, sent, cs')
        | (W_Count k, cs') \<Rightarrow> rio_write cs' (drop k buf) (sent @ take k buf))
     else (int (length sent), sent, cs))"
  by pat_completeness auto
termination
proof (relation "measures [\<lambda>(cs, buf, sent). length buf, \<lambda>(cs, buf, sent). length cs]", goal_cases)
  case (2 cs buf sent a b)
  then show ?case using sys_write_intr [of "length buf" cs b] by simp
next
  case (3 cs buf sent a b k)
  then have "0 < k" using sys_write_count [of "length buf" cs k b] by simp
  then show ?case using 3 by simp
qed simp

declare rio_write.simps [simp del]

definition Rio_read :: "rcall list \<Rightarrow> nat \<Rightarrow> (byte list \<times> rcall list) res" where
  "Rio_read cs n =
    (case rio_read cs n [] of (r, bs, cs') \<Rightarrow> if r < 0 then Crash (Exit_Error ''Rio_readn error'') else Ret (bs, cs'))"

definition Rio_write :: "wcall list \<Rightarrow> byte list \<Rightarrow> (byte list \<times> wcall list) res" where
  "Rio_write cs buf =
    (case rio_write cs buf [] of (r, sent, cs') \<Rightarrow>
       if r \<noteq> int (length buf) then Crash (Exit_Error ''Rio_writen error'') else Ret (sent, cs'))"

section \<open>Buffered reading\<close>

definition RIO_BUFSIZE :: nat where "RIO_BUFSIZE = 8192"

text \<open>\<^verbatim>\<open>unread\<close> are the \<^verbatim>\<open>rio_cnt\<close> bytes from \<^verbatim>\<open>rio_bufptr\<close> on.\<close>

record rio =
  unread :: "byte list"
  calls :: "rcall list"

definition rio_init :: "rcall list \<Rightarrow> rio" where
  "rio_init cs = \<lparr>unread = [], calls = cs\<rparr>"

text \<open>Refilling: \<^verbatim>\<open>-1\<close> on an error, 0 at the end of the file, 1 when there are bytes.\<close>

function rio_fill :: "rio \<Rightarrow> int \<times> rio" where
  "rio_fill rp =
    (if unread rp = [] then
       (case sys_read RIO_BUFSIZE (calls rp) of
          (R_Intr, cs) \<Rightarrow> rio_fill (rp\<lparr>calls := cs\<rparr>)
        | (R_Fail, cs) \<Rightarrow> (- 1, rp\<lparr>calls := cs\<rparr>)
        | (R_Data bs, cs) \<Rightarrow> if bs = [] then (0, rp\<lparr>calls := cs\<rparr>) else (1, rp\<lparr>unread := bs, calls := cs\<rparr>))
     else (1, rp))"
  by pat_completeness auto
termination
  by (relation "measure (\<lambda>rp. weight (calls rp))") (auto simp: RIO_BUFSIZE_def dest: sys_read_weight [OF zero_less_numeral sym])

declare rio_fill.simps [simp del]

definition rio_readb :: "rio \<Rightarrow> nat \<Rightarrow> int \<times> byte list \<times> rio" where
  "rio_readb rp n =
    (let (r, rp1) = rio_fill rp in
     if r \<le> 0 then (r, [], rp1)
     else
       let cnt = min n (length (unread rp1)) in
       (int cnt, take cnt (unread rp1), rp1\<lparr>unread := drop cnt (unread rp1)\<rparr>))"

text \<open>
  The loop of \<^verbatim>\<open>rio_readlineb\<close> with \<^verbatim>\<open>k\<close> rounds to go: the return value, the bytes stored, and
  whether the terminating zero is stored behind them.
\<close>

primrec readline_loop :: "nat \<Rightarrow> rio \<Rightarrow> byte list \<Rightarrow> int \<times> byte list \<times> bool \<times> rio" where
  "readline_loop 0 rp got = (int (length got), got, True, rp)"
| "readline_loop (Suc k) rp got =
    (case rio_readb rp 1 of
       (rc, bs, rp1) \<Rightarrow>
         if rc = 1 then
           let got' = got @ bs in
           if hd bs = 10 then (int (length got'), got', True, rp1) else readline_loop k rp1 got'
         else if rc = 0 then
           if got = [] then (0, got, False, rp1) else (int (length got), got, True, rp1)
         else (- 1, got, False, rp1))"

text \<open>
  The buffer has room for \<^verbatim>\<open>cap\<close> bytes; what it held before is kept where nothing is stored.
  The contents that matters is the C string, the bytes before the first zero.
\<close>

definition rio_readlineb :: "nat \<Rightarrow> rio \<Rightarrow> byte list \<Rightarrow> nat \<Rightarrow> (int \<times> byte list \<times> rio) res" where
  "rio_readlineb cap rp buf maxlen =
    (case readline_loop maxlen rp [] of
       (r, got, zero, rp1) \<Rightarrow>
         bnd (guard_ub (length got + (if zero then 1 else 0) \<le> cap)) (\<lambda>_.
         Ret (r, if zero then got else got @ drop (length got) buf, rp1)))"

definition Rio_readlineb :: "nat \<Rightarrow> rio \<Rightarrow> byte list \<Rightarrow> nat \<Rightarrow> (int \<times> byte list \<times> rio) res" where
  "Rio_readlineb cap rp buf maxlen =
    bnd (rio_readlineb cap rp buf maxlen) (\<lambda>(r, buf', rp').
    if r < 0 then Crash (Exit_Error ''Rio_readlineb error'') else Ret (r, buf', rp'))"

section \<open>The bytes behind the calls\<close>

fun stream :: "rcall list \<Rightarrow> byte list" where
  "stream [] = []"
| "stream (R_Intr # cs) = stream cs"
| "stream (R_Fail # cs) = []"
| "stream (R_Data bs # cs) = (if bs = [] then [] else bs @ stream cs)"

definition sound :: "rcall list \<Rightarrow> bool" where
  "sound cs \<longleftrightarrow> R_Fail \<notin> set cs"

lemma sys_read_stream:
  assumes "sound cs" "0 < n" "sys_read n cs = (r, cs')"
  shows "sound cs' \<and> (r = R_Intr \<and> stream cs' = stream cs \<or>
    (\<exists>bs. r = R_Data bs \<and> stream cs = bs @ stream cs' \<and> length bs \<le> n \<and> (bs = [] \<longrightarrow> stream cs = [])))"
  using assms by (induction n cs rule: sys_read.induct) (auto simp: sound_def split: if_splits)

lemma rio_read_ok:
  "sound cs \<Longrightarrow> \<exists>cs'. rio_read cs n got = (int (length (got @ take n (stream cs))), got @ take n (stream cs), cs') \<and>
     sound cs' \<and> stream cs' = drop n (stream cs)"
proof (induction cs n got rule: rio_read.induct)
  case (1 cs n got)
  show ?case
  proof (cases "0 < n")
    case True
    obtain r cs1 where r: "sys_read n cs = (r, cs1)" by fastforce
    note st = sys_read_stream [OF 1(3) True r]
    from st consider "r = R_Intr" "stream cs1 = stream cs" "sound cs1"
      | bs where "r = R_Data bs" "stream cs = bs @ stream cs1" "length bs \<le> n" "bs = [] \<longrightarrow> stream cs = []" "sound cs1" by blast
    then show ?thesis
    proof cases
      case 1
      then show ?thesis using "1.IH"(1) [OF True r [symmetric] 1(1) 1(3)] True r by (subst rio_read.simps) simp
    next
      case 2
      show ?thesis
      proof (cases "bs = []")
        case bs: True
        then have "rio_read cs n got = (int (length got), got, cs1)" using True r 2(1) by (subst rio_read.simps) simp
        then show ?thesis using 2 bs by auto
      next
        case bs: False
        have e: "rio_read cs n got = rio_read cs1 (n - length bs) (got @ bs)" using True r 2(1) bs by (subst rio_read.simps) simp
        show ?thesis using "1.IH"(2) [OF True r [symmetric] 2(1) bs 2(5)] 2(2,3) unfolding e by (auto simp: take_append)
      qed
    qed
  next
    case False
    then show ?thesis using 1(3) by (subst rio_read.simps) simp
  qed
qed

lemma rio_write_ok:
  "(\<exists>cs'. rio_write cs buf sent = (int (length (sent @ buf)), sent @ buf, cs')) \<or>
   (\<exists>k cs'. rio_write cs buf sent = (- 1, sent @ take k buf, cs') \<and> k < length buf \<and> W_Fail \<in> set cs)"
proof (induction cs buf sent rule: rio_write.induct)
  case (1 cs buf sent)
  show ?case
  proof (cases "buf \<noteq> []")
    case True
    obtain r cs1 where r: "sys_write (length buf) cs = (r, cs1)" by fastforce
    have sub: "set cs1 \<subseteq> set cs" using r by (induction "length buf" cs rule: sys_write.induct) auto
    show ?thesis
    proof (cases r)
      case W_Intr
      then have "rio_write cs buf sent = rio_write cs1 buf sent" using True r by (subst rio_write.simps) simp
      then show ?thesis using 1(1) [OF True r [symmetric] W_Intr] sub by auto
    next
      case W_Fail
      then have "rio_write cs buf sent = (- 1, sent @ take 0 buf, cs1)" using True r by (subst rio_write.simps) simp
      moreover have "W_Fail \<in> set cs" using r W_Fail by (induction "length buf" cs rule: sys_write.induct) auto
      ultimately show ?thesis using True by blast
    next
      case (W_Count k)
      then have k: "0 < k" "k \<le> length buf" using sys_write_count r True by auto
      have e: "rio_write cs buf sent = rio_write cs1 (drop k buf) (sent @ take k buf)" using True r W_Count by (subst rio_write.simps) simp
      from 1(2) [OF True r [symmetric] W_Count] show ?thesis
      proof (elim disjE exE conjE)
        fix j cs' assume j: "rio_write cs1 (drop k buf) (sent @ take k buf) = (- 1, (sent @ take k buf) @ take j (drop k buf), cs')"
          "j < length (drop k buf)" "W_Fail \<in> set cs1"
        then have "rio_write cs buf sent = (- 1, sent @ take (k + j) buf, cs')" using e by (simp add: take_add)
        moreover have "k + j < length buf" using j(2) k by simp
        ultimately show ?thesis using sub j(3) by blast
      qed (use e k in auto)
    qed
  next
    case False
    then show ?thesis by (subst rio_write.simps) simp
  qed
qed

section \<open>Lines\<close>

definition rstream :: "rio \<Rightarrow> byte list" where
  "rstream rp = unread rp @ stream (calls rp)"

primrec line_take :: "nat \<Rightarrow> byte list \<Rightarrow> byte list" where
  "line_take k [] = []"
| "line_take k (b # bs) = (if k = 0 then [] else b # (if b = 10 then [] else line_take (k - 1) bs))"

lemma line_take_0 [simp]: "line_take 0 bs = []"
  by (cases bs) simp_all

lemma line_take_le: "length (line_take k bs) \<le> k"
proof (induction bs arbitrary: k)
  case (Cons b bs)
  show ?case using Cons.IH [of "k - 1"] by (cases k) auto
qed simp

lemma line_take_prefix: "take (length (line_take k bs)) bs = line_take k bs"
  by (induction bs arbitrary: k) auto

lemma rio_fill_ok:
  assumes "sound (calls rp)"
  shows "\<exists>rp'. rio_fill rp = (if rstream rp = [] then 0 else 1, rp') \<and> sound (calls rp') \<and> rstream rp' = rstream rp \<and>
    (rstream rp \<noteq> [] \<longrightarrow> unread rp' \<noteq> [])"
  using assms
proof (induction rp rule: rio_fill.induct)
  case (1 rp)
  show ?case
  proof (cases "unread rp = []")
    case True
    obtain r cs1 where r: "sys_read RIO_BUFSIZE (calls rp) = (r, cs1)" by fastforce
    have "0 < RIO_BUFSIZE" by (simp add: RIO_BUFSIZE_def)
    note st = sys_read_stream [OF 1(2) this r]
    from st consider "r = R_Intr" "stream cs1 = stream (calls rp)" "sound cs1"
      | bs where "r = R_Data bs" "stream (calls rp) = bs @ stream cs1" "bs = [] \<longrightarrow> stream (calls rp) = []" "sound cs1" by blast
    then show ?thesis
    proof cases
      case 1
      have "rio_fill rp = rio_fill (rp\<lparr>calls := cs1\<rparr>)" using True r 1(1) by (subst rio_fill.simps) simp
      then show ?thesis using "1.IH" [OF True r [symmetric] 1(1)] 1 True by (simp add: rstream_def)
    next
      case 2
      then show ?thesis using True r by (subst rio_fill.simps) (auto simp: rstream_def)
    qed
  next
    case False
    then show ?thesis using 1(2) by (subst rio_fill.simps) (simp add: rstream_def)
  qed
qed

lemma readline_loop_ok:
  assumes "sound (calls rp)"
  shows "\<exists>rp'. readline_loop k rp got = (int (length (got @ line_take k (rstream rp))), got @ line_take k (rstream rp),
      k = 0 \<or> got @ line_take k (rstream rp) \<noteq> [], rp') \<and> sound (calls rp') \<and>
    rstream rp' = drop (length (line_take k (rstream rp))) (rstream rp)"
  using assms
proof (induction k arbitrary: rp got)
  case (Suc k)
  obtain rp1 where f: "rio_fill rp = (if rstream rp = [] then 0 else 1, rp1)" "sound (calls rp1)" "rstream rp1 = rstream rp"
    "rstream rp \<noteq> [] \<longrightarrow> unread rp1 \<noteq> []" using rio_fill_ok [OF Suc.prems] by blast
  show ?case
  proof (cases "rstream rp")
    case Nil
    then have "rio_readb rp 1 = (0, [], rp1)" using f(1) by (simp add: rio_readb_def)
    then show ?thesis using Nil f(2,3) by simp
  next
    case (Cons b bs)
    then obtain us where us: "unread rp1 = b # us" using f(3,4) by (cases "unread rp1") (auto simp: rstream_def)
    let ?rp2 = "rp1\<lparr>unread := us\<rparr>"
    have rb: "rio_readb rp 1 = (1, [b], ?rp2)" using f(1) Cons us by (simp add: rio_readb_def)
    have s2: "rstream ?rp2 = bs" "sound (calls ?rp2)" using f(2,3) Cons us by (simp_all add: rstream_def)
    show ?thesis
    proof (cases "b = 10")
      case True
      then show ?thesis using rb Cons s2 by simp
    next
      case False
      then show ?thesis using rb Cons s2 Suc.IH [OF s2(2), of "got @ [b]"] by simp
    qed
  qed
qed simp

lemma line_take_full: "10 \<notin> set (take k bs) \<Longrightarrow> line_take k bs = take k bs"
proof (induction bs arbitrary: k)
  case (Cons b bs)
  then show ?case by (cases k) auto
qed simp

lemma line_take_newline: "length (line_take k bs) = k \<Longrightarrow> 0 < k \<Longrightarrow> last (line_take k bs) \<noteq> 10 \<Longrightarrow> 10 \<notin> set (take k bs)"
proof (induction bs arbitrary: k)
  case (Cons b bs)
  then obtain j where j: "k = Suc j" by (cases k) auto
  show ?case
  proof (cases "j = 0")
    case False
    have b: "b \<noteq> 10" using Cons.prems(1) j False by auto
    then have l: "length (line_take j bs) = j" using Cons.prems(1) j by simp
    then have "line_take j bs \<noteq> []" using False by auto
    then show ?thesis using Cons.IH [OF l] Cons.prems(3) j False b by (auto split: if_splits)
  qed (use Cons.prems j in auto)
qed simp

text \<open>Reading a line into a buffer of the size that is passed as the limit.\<close>

lemma readlineb_ok:
  assumes "sound (calls rp)" "0 < k" "length (line_take k (rstream rp)) < k"
  shows "\<exists>rp'. rio_readlineb k rp buf k =
      Ret (int (length (line_take k (rstream rp))), if rstream rp = [] then buf else line_take k (rstream rp), rp') \<and>
    sound (calls rp') \<and> rstream rp' = drop (length (line_take k (rstream rp))) (rstream rp)"
proof -
  obtain rp' where "readline_loop k rp [] = (int (length (line_take k (rstream rp))), line_take k (rstream rp),
      line_take k (rstream rp) \<noteq> [], rp')" "sound (calls rp')" "rstream rp' = drop (length (line_take k (rstream rp))) (rstream rp)"
    using readline_loop_ok [OF assms(1), of k "[]"] assms(2) by auto
  moreover have "line_take k (rstream rp) = [] \<longleftrightarrow> rstream rp = []" using assms(2) by (cases "rstream rp") auto
  ultimately show ?thesis using assms(3) by (auto simp: rio_readlineb_def)
qed

lemma readlineb_overflow:
  assumes "sound (calls rp)" "0 < k" "length (line_take k (rstream rp)) = k"
  shows "rio_readlineb k rp buf k = Crash Undef"
proof -
  have "line_take k (rstream rp) \<noteq> []" using assms(2,3) by auto
  then obtain rp' where "readline_loop k rp [] = (int k, line_take k (rstream rp), True, rp')"
    using readline_loop_ok [OF assms(1), of k "[]"] assms(3) by auto
  then show ?thesis using assms(3) by (simp add: rio_readlineb_def)
qed

section \<open>Properties\<close>

text \<open>
  \<^verbatim>\<open>Rio_read\<close> and \<^verbatim>\<open>Rio_write\<close> hide how the operating system splits and interrupts the
  transfers: as long as no call fails, a read returns exactly the first \<^verbatim>\<open>n\<close> bytes of the
  input, or all of it when there are fewer, and a write sends exactly the bytes of the buffer.
\<close>

theorem rio_exact:
  assumes "R_Fail \<notin> set rs" "W_Fail \<notin> set ws"
  shows "\<exists>rs' ws'. Rio_read rs n = Ret (take n (stream rs), rs') \<and> stream rs' = drop n (stream rs) \<and>
    Rio_write ws buf = Ret (buf, ws')"
proof -
  have "sound rs" using assms(1) by (simp add: sound_def)
  from rio_read_ok [OF this, of n "[]"] obtain rs' where
    "rio_read rs n [] = (int (length (take n (stream rs))), take n (stream rs), rs')" "stream rs' = drop n (stream rs)" by auto
  then have "Rio_read rs n = Ret (take n (stream rs), rs')" by (simp add: Rio_read_def)
  moreover obtain ws' where "rio_write ws buf [] = (int (length buf), buf, ws')" using rio_write_ok [of ws buf "[]"] assms(2) by auto
  then have "Rio_write ws buf = Ret (buf, ws')" by (simp add: Rio_write_def)
  ultimately show ?thesis using \<open>stream rs' = drop n (stream rs)\<close> by blast
qed

theorem rio_exact_witness:
  "\<exists>rs' ws'. Rio_read [R_Data [1, 2], R_Intr, R_Data [3, 4, 5]] 4 = Ret ([1, 2, 3, 4], rs') \<and>
     Rio_write [W_Count 1, W_Intr, W_Count 7] [8, 9] = Ret ([8, 9], ws')"
  using rio_exact [of "[R_Data [1, 2], R_Intr, R_Data [3, 4, 5]]" "[W_Count 1, W_Intr, W_Count 7]" 4 "[8, 9]"] by auto

text \<open>
  C30: \<^verbatim>\<open>rio_readlineb\<close> with a buffer of \<^verbatim>\<open>maxlen\<close> bytes reads the next line, up to its newline
  or the end of the input, and leaves the rest, when the line is shorter than \<^verbatim>\<open>maxlen\<close>; it
  stores the terminating zero behind the end of the buffer when the line has \<^verbatim>\<open>maxlen\<close> bytes
  or more.
\<close>

theorem readlineb_line_or_overflow:
  assumes "R_Fail \<notin> set (calls rp)" "0 < maxlen"
  shows "if length (line_take maxlen (rstream rp)) < maxlen
    then \<exists>rp'. rio_readlineb maxlen rp buf maxlen =
        Ret (int (length (line_take maxlen (rstream rp))), if rstream rp = [] then buf else line_take maxlen (rstream rp), rp') \<and>
      rstream rp' = drop (length (line_take maxlen (rstream rp))) (rstream rp)
    else rio_readlineb maxlen rp buf maxlen = Crash Undef"
proof -
  have s: "sound (calls rp)" using assms(1) by (simp add: sound_def)
  then show ?thesis
    using readlineb_ok [OF s assms(2), of buf] readlineb_overflow [OF s assms(2), of buf] line_take_le [of maxlen "rstream rp"]
    by (cases "length (line_take maxlen (rstream rp)) < maxlen") auto
qed

theorem readlineb_line_or_overflow_witness:
  "rio_readlineb 3 \<lparr>unread = [], calls = [R_Data [71, 69, 84, 10]]\<rparr> [] 3 = Crash Undef"
  using readlineb_line_or_overflow [of "\<lparr>unread = [], calls = [R_Data [71, 69, 84, 10]]\<rparr>" 3 "[]"]
  by (simp add: rstream_def)

end
