(* ===== verification/Web_Request.thy ===== *)
theory Web_Request
  imports Web_IO
begin

text \<open>
  Requests (\<^verbatim>\<open>webserver/request.c\<close>): parsing the request line and the headers, reading the
  file and sending the response. The file system of the host is a parameter, a function from
  names to what \<^verbatim>\<open>stat\<close>, \<^verbatim>\<open>open\<close> and the calls of \<^verbatim>\<open>read\<close> give. Strings are lists of
  bytes without the terminating zero.
\<close>

definition MAXLINE :: nat where "MAXLINE = 8192"
definition MAXBUF :: nat where "MAXBUF = 8192"

definition crlf :: "byte list" where
  "crlf = [13, 10]"

section \<open>State\<close>

record file_data =
  file_name :: "byte list"
  file_buf :: "byte list"
  file_size :: int

text \<open>
  The client connection: what it sends, what was sent to it, and whether it is closed;
  \<^verbatim>\<open>sprintf_appends\<close> tells what the C library of this side makes of a
  \<^verbatim>\<open>sprintf\<close> whose destination is also its first argument, which the C standard leaves
  undefined: with \<^verbatim>\<open>True\<close> it appends to the string, as glibc does and as the code expects.
\<close>

record conn =
  incoming :: "rcall list"
  outgoing :: "byte list"
  wcalls :: "wcall list"
  printed :: "byte list"
  closed :: bool
  sprintf_appends :: bool

record file_stat =
  is_reg :: bool
  is_rusr :: bool
  st_size :: int
  open_ok :: bool
  fcalls :: "rcall list"

type_synonym fenv = "byte list \<Rightarrow> file_stat option"

definition send :: "conn \<Rightarrow> byte list \<Rightarrow> conn res" where
  "send c bs = bnd (Rio_write (wcalls c) bs) (\<lambda>(sent, cs). Ret (c\<lparr>outgoing := outgoing c @ sent, wcalls := cs\<rparr>))"

definition send_print :: "conn \<Rightarrow> byte list \<Rightarrow> conn res" where
  "send_print c bs = bnd (send c bs) (\<lambda>c1. Ret (c1\<lparr>printed := printed c1 @ bs\<rparr>))"

text \<open>The sum of unsigned bytes in an \<^verbatim>\<open>unsigned int\<close>.\<close>

definition checksum :: "byte list \<Rightarrow> int" where
  "checksum bs = foldl (\<lambda>csum b. to_u32 (csum + uint b)) 0 bs"

section \<open>Errors\<close>

text \<open>
  The body is put together by four calls of \<^verbatim>\<open>sprintf\<close> with \<^verbatim>\<open>body\<close> both as
  destination and as argument.
\<close>

definition request_error :: "conn \<Rightarrow> byte list \<Rightarrow> string \<Rightarrow> string \<Rightarrow> string \<Rightarrow> conn res" where
  "request_error c cause errnum shortmsg longmsg =
    (let body = cstr ''<html><title>OS Web Server Error</title>'' @ cstr ''<body bgcolor=fffff>'' @ crlf @
           cstr ''<p>'' @ cstr errnum @ cstr '': '' @ cstr shortmsg @ cstr ''</p>'' @ crlf @
           cstr ''<p>'' @ cstr longmsg @ cstr '': '' @ cause @ cstr ''</p>'' @ crlf @
           cstr ''</body></html>'' @ crlf in
     bnd (guard_ub (sprintf_appends c \<and> length body < MAXBUF)) (\<lambda>_.
     bnd (send_print c (cstr ''HTTP/1.0 '' @ cstr errnum @ cstr '' '' @ cstr shortmsg @ crlf)) (\<lambda>c1.
     bnd (send_print c1 (cstr ''Content-Type: text/html'' @ crlf)) (\<lambda>c2.
     bnd (send_print c2 (cstr ''Content-Length: '' @ dec_int (int (length body)) @ crlf)) (\<lambda>c3.
     bnd (send_print c3 (cstr ''Content-Csum: '' @ dec_int (checksum body) @ crlf @ crlf)) (\<lambda>c4.
     send_print c4 body))))))"

section \<open>The request line\<close>

definition is_blank :: "byte \<Rightarrow> bool" where
  "is_blank b \<longleftrightarrow> b \<in> {9, 10, 11, 12, 13, 32}"

text \<open>One \<^verbatim>\<open>%s\<close> conversion of \<^verbatim>\<open>sscanf\<close>.\<close>

definition scan_word :: "byte list \<Rightarrow> byte list option \<times> byte list" where
  "scan_word s =
    (let s1 = dropWhile is_blank s in
     if s1 = [] then (None, [])
     else (Some (takeWhile (\<lambda>b. \<not> is_blank b) s1), dropWhile (\<lambda>b. \<not> is_blank b) s1))"

definition to_lower :: "byte \<Rightarrow> byte" where
  "to_lower b = (if 65 \<le> b \<and> b \<le> 90 then b + 32 else b)"

definition strcasecmp_eq :: "byte list \<Rightarrow> byte list \<Rightarrow> bool" where
  "strcasecmp_eq a b \<longleftrightarrow> map to_lower a = map to_lower b"

text \<open>
  At the end of the input the line read is left in the buffer, so the loop over the headers does
  not end when the client closes the connection early; it carries fuel.
\<close>

primrec headers_loop :: "nat \<Rightarrow> rio \<Rightarrow> byte list \<Rightarrow> rio res" where
  "headers_loop 0 rp buf = Crash Diverges"
| "headers_loop (Suc fuel) rp buf =
    (if takeWhile (\<lambda>b. b \<noteq> 0) buf = crlf then Ret rp
     else bnd (Rio_readlineb MAXLINE rp buf MAXLINE) (\<lambda>(_, buf', rp'). headers_loop fuel rp' buf'))"

definition request_read_headers :: "nat \<Rightarrow> rio \<Rightarrow> byte list \<Rightarrow> rio res" where
  "request_read_headers fuel rp junk =
    bnd (Rio_readlineb MAXLINE rp junk MAXLINE) (\<lambda>(_, buf, rp'). headers_loop fuel rp' buf)"

definition request_parse_URI :: "byte list \<Rightarrow> nat \<Rightarrow> byte list" where
  "request_parse_URI uri n = take (n - 1) (cstr ''./'' @ uri)"

text \<open>
  The name of the file, or \<^const>\<open>None\<close> when the method is not supported and the connection was
  closed. A missing word of the request line leaves its buffer uninitialised.
\<close>

definition request_init :: "nat \<Rightarrow> conn \<Rightarrow> byte list \<Rightarrow> (byte list option \<times> conn) res" where
  "request_init fuel c junk =
    bnd (Rio_readlineb MAXLINE (rio_init (incoming c)) junk MAXLINE) (\<lambda>(r, buf, rp).
    bnd (guard_ub (r > 0)) (\<lambda>_.
    let line = takeWhile (\<lambda>b. b \<noteq> 0) buf; (method, l1) = scan_word line; (uri, l2) = scan_word l1 in
    bnd (deref method) (\<lambda>m.
    if \<not> strcasecmp_eq m (cstr ''GET'') then
      bnd (request_error c m ''501'' ''Not Implemented'' ''OS Web Server does not implement this method'') (\<lambda>c1.
      Ret (None, c1\<lparr>closed := True\<rparr>))
    else
      bnd (request_read_headers fuel rp junk) (\<lambda>rp'.
      bnd (deref uri) (\<lambda>u.
      Ret (Some (request_parse_URI u MAXLINE), c))))))"

definition request_destroy :: "conn \<Rightarrow> conn res" where
  "request_destroy c = Ret (c\<lparr>closed := True\<rparr>)"

section \<open>Reading the file\<close>

fun has_sub :: "byte list \<Rightarrow> byte list \<Rightarrow> bool" where
  "has_sub [] s = (s = [])"
| "has_sub (b # bs) s = (take (length s) (b # bs) = s \<or> has_sub bs s)"

text \<open>\<^verbatim>\<open>strrchr\<close>: the string from the last occurrence on.\<close>

primrec strrchr :: "byte list \<Rightarrow> byte \<Rightarrow> byte list option" where
  "strrchr [] c = None"
| "strrchr (b # bs) c = (case strrchr bs c of Some s \<Rightarrow> Some s | None \<Rightarrow> if b = c then Some (b # bs) else None)"

text \<open>When fewer bytes are read than the size says, the rest of the buffer is uninitialised.\<close>

definition request_readfile :: "fenv \<Rightarrow> mem \<Rightarrow> conn \<Rightarrow> file_data \<Rightarrow> (int \<times> file_data \<times> conn) res" where
  "request_readfile files junk c data =
    (let fail = (\<lambda>num short long. bnd (request_error c (file_name data) num short long) (\<lambda>c1. Ret (0, data, c1)));
         ext = strrchr (file_name data) 46 in
     if take 1 (file_name data) = [47] then
       fail ''404'' ''Not found'' ''OS Web Server doesn't serve files with absolute paths''
     else if has_sub (file_name data) (cstr ''..'') then
       fail ''404'' ''Not found'' ''OS Web Server doesn't serve files with .. in the path''
     else if ext = Some (cstr ''.c'') \<or> ext = Some (cstr ''.h'') then
       fail ''404'' ''Not found'' ''OS Web Server doesn't serve C or header files ''
     else case files (file_name data) of
       None \<Rightarrow> fail ''404'' ''Not found'' ''OS Web Server could not find this file''
     | Some st \<Rightarrow>
         if \<not> is_reg st \<or> \<not> is_rusr st then fail ''403'' ''Forbidden'' ''OS Web Server could not read this file''
         else
           let n = to_s32 (st_size st) in
           if n = 0 then Ret (1, data\<lparr>file_size := 0\<rparr>, c)
           else if \<not> open_ok st then Crash (Exit_Error ''open'')
           else if n < 0 then Crash (Exit_Error ''malloc'')
           else
             bnd (Rio_read (fcalls st) (nat n)) (\<lambda>(bs, _).
             Ret (1, data\<lparr>file_size := n, file_buf := map (\<lambda>i. if i < length bs then bs ! i else junk i) [0..<nat n]\<rparr>, c)))"

definition request_get_file_type :: "byte list \<Rightarrow> byte list" where
  "request_get_file_type name =
    (if has_sub name (cstr ''.html'') then cstr ''text/html''
     else if has_sub name (cstr ''.gif'') then cstr ''image/gif''
     else if has_sub name (cstr ''.jpg'') then cstr ''image/jpeg''
     else cstr ''text/plain'')"

text \<open>
  \<^verbatim>\<open>request_sendfile\<close>: reading the buffer up to the size. The pass of
  \<^verbatim>\<open>request_processfile\<close> over the data only takes time.
\<close>

definition request_sendfile :: "conn \<Rightarrow> file_data \<Rightarrow> conn res" where
  "request_sendfile c data =
    bnd (guard_ub (file_size data \<le> int (length (file_buf data)))) (\<lambda>_.
    let body = take (nat (file_size data)) (file_buf data);
        head = cstr ''HTTP/1.0 200 OK'' @ crlf @ cstr ''Server: OS Web Server'' @ crlf @
          cstr ''Content-Type: '' @ request_get_file_type (file_name data) @ crlf @
          cstr ''Content-Length: '' @ dec_int (file_size data) @ crlf @
          cstr ''Content-Csum: '' @ dec_int (checksum body) @ crlf @ crlf in
    bnd (send c head) (\<lambda>c1.
    if file_size data > 0 then send c1 body else Ret c1))"

section \<open>Sending\<close>

definition reliable :: "conn \<Rightarrow> bool" where
  "reliable c \<longleftrightarrow> W_Fail \<notin> set (wcalls c)"

lemma rio_write_calls: "rio_write cs buf sent = (r, sent', cs') \<Longrightarrow> W_Fail \<notin> set cs \<Longrightarrow> W_Fail \<notin> set cs'"
proof (induction cs buf sent rule: rio_write.induct)
  case (1 cs buf sent)
  show ?case
  proof (cases "buf \<noteq> []")
    case True
    obtain w cs1 where w: "sys_write (length buf) cs = (w, cs1)" by fastforce
    have "set cs1 \<subseteq> set cs" using w by (induction "length buf" cs rule: sys_write.induct) auto
    then have f: "W_Fail \<notin> set cs1" using 1(4) by auto
    show ?thesis
    proof (cases w)
      case W_Intr
      then show ?thesis using 1(1) [OF True w [symmetric] W_Intr _ f] 1(3) True w by (subst (asm) (2) rio_write.simps) simp
    next
      case W_Fail
      then show ?thesis using 1(3) True w f by (subst (asm) rio_write.simps) simp
    next
      case (W_Count k)
      then show ?thesis using 1(2) [OF True w [symmetric] W_Count _ f] 1(3) True w by (subst (asm) (2) rio_write.simps) simp
    qed
  next
    case False
    then show ?thesis using 1(3,4) by (subst (asm) rio_write.simps) simp
  qed
qed

lemma send_ok:
  assumes "reliable c"
  obtains cs where "send c bs = Ret (c\<lparr>outgoing := outgoing c @ bs, wcalls := cs\<rparr>)" "W_Fail \<notin> set cs"
proof -
  have f: "W_Fail \<notin> set (wcalls c)" using assms by (simp add: reliable_def)
  obtain cs where r: "rio_write (wcalls c) bs [] = (int (length bs), bs, cs)"
    using rio_write_ok [of "wcalls c" bs "[]"] f by auto
  moreover have "W_Fail \<notin> set cs" by (rule rio_write_calls [OF r f])
  ultimately show ?thesis using that by (simp add: send_def Rio_write_def)
qed

text \<open>The bytes of a response, as a client sees them.\<close>

definition response_head :: "file_data \<Rightarrow> byte list" where
  "response_head data =
    cstr ''HTTP/1.0 200 OK'' @ crlf @ cstr ''Server: OS Web Server'' @ crlf @
    cstr ''Content-Type: '' @ request_get_file_type (file_name data) @ crlf @
    cstr ''Content-Length: '' @ dec_int (file_size data) @ crlf @
    cstr ''Content-Csum: '' @ dec_int (checksum (take (nat (file_size data)) (file_buf data))) @ crlf @ crlf"

lemma sendfile_ok:
  assumes "reliable c" "file_size data \<le> int (length (file_buf data))"
  shows "\<exists>c'. request_sendfile c data = Ret c' \<and> reliable c' \<and> incoming c' = incoming c \<and> closed c' = closed c \<and>
    outgoing c' = outgoing c @ response_head data @ take (nat (file_size data)) (file_buf data)"
proof -
  obtain cs where s1: "send c (response_head data) = Ret (c\<lparr>outgoing := outgoing c @ response_head data, wcalls := cs\<rparr>)"
    "W_Fail \<notin> set cs" by (rule send_ok [OF assms(1)])
  let ?c1 = "c\<lparr>outgoing := outgoing c @ response_head data, wcalls := cs\<rparr>"
  have r1: "reliable ?c1" using s1(2) by (simp add: reliable_def)
  obtain cs2 where s2: "send ?c1 (take (nat (file_size data)) (file_buf data)) =
      Ret (?c1\<lparr>outgoing := outgoing ?c1 @ take (nat (file_size data)) (file_buf data), wcalls := cs2\<rparr>)" "W_Fail \<notin> set cs2"
    by (rule send_ok [OF r1])
  show ?thesis
    using s1 s2 assms r1 by (auto simp: request_sendfile_def response_head_def [symmetric] reliable_def Let_def)
qed

text \<open>The checksum is the sum of the bytes modulo 2 to the power 32.\<close>

lemma checksum_sum: "checksum bs = to_u32 (sum_list (map uint bs))"
proof -
  have "foldl (\<lambda>csum b. to_u32 (csum + uint b)) a bs = to_u32 (a + sum_list (map uint bs))" if "0 \<le> a" "a < 4294967296" for a
    using that
  proof (induction bs arbitrary: a)
    case (Cons b bs)
    have "0 \<le> to_u32 (a + uint b)" "to_u32 (a + uint b) < 4294967296" by (simp_all add: to_u32_range)
    then show ?case using Cons.IH by (simp add: to_u32_def mod_simps add.assoc)
  qed simp
  then show ?thesis by (simp add: checksum_def)
qed

lemma readfile_fail_not_1: "bnd m (\<lambda>c1. Ret (0, data, c1)) \<noteq> Ret (1::int, data', c')"
  by (cases m) auto

section \<open>Properties\<close>

text \<open>
  C31: what the server is willing to read: \<^verbatim>\<open>request_readfile\<close> succeeds only for a name that does
  not start with a slash, holds no two dots in a row, does not end in the extensions of C sources
  and headers, and belongs to a regular file its owner may read; it then holds as many bytes as
  the size of the file says, and nothing was sent to the client.
\<close>

theorem readfile_only_allowed:
  assumes "request_readfile files junk c data = Ret (1, data', c')"
  shows "take 1 (file_name data) \<noteq> [47] \<and> \<not> has_sub (file_name data) (cstr ''..'') \<and>
    strrchr (file_name data) 46 \<notin> {Some (cstr ''.c''), Some (cstr ''.h'')} \<and> c' = c \<and> file_name data' = file_name data \<and>
    (\<exists>st. files (file_name data) = Some st \<and> is_reg st \<and> is_rusr st \<and> file_size data' = to_s32 (st_size st) \<and> 0 \<le> file_size data') \<and>
    (file_size data' \<noteq> 0 \<longrightarrow> file_size data' = int (length (file_buf data')))"
  using assms readfile_fail_not_1
  by (auto simp: request_readfile_def Let_def res_simps split: if_splits option.splits)

theorem readfile_only_allowed_witness:
  "\<exists>data' c'. request_readfile (\<lambda>_. Some \<lparr>is_reg = True, is_rusr = True, st_size = 2, open_ok = True, fcalls = [R_Data [7, 8]]\<rparr>)
     zero_mem \<lparr>incoming = [], outgoing = [], wcalls = [], printed = [], closed = False, sprintf_appends = True\<rparr>
     \<lparr>file_name = cstr ''./a'', file_buf = [], file_size = 0\<rparr> = Ret (1, data', c') \<and> file_size data' = 2 \<and> c' = c'"
proof -
  let ?f = "\<lambda>_::byte list. Some \<lparr>is_reg = True, is_rusr = True, st_size = 2, open_ok = True, fcalls = [R_Data [7, 8]]\<rparr>"
  let ?c = "\<lparr>incoming = [], outgoing = [], wcalls = [], printed = [], closed = False, sprintf_appends = True\<rparr>"
  let ?d = "\<lparr>file_name = cstr ''./a'', file_buf = [], file_size = 0\<rparr>"
  have "rio_read [R_Data [7, 8]] 2 [] = (2, [7, 8], [])" by (simp add: rio_read.simps)
  then obtain d' where "request_readfile ?f zero_mem ?c ?d = Ret (1, d', ?c)"
    by (simp add: request_readfile_def Let_def cstr_def of_char_def Rio_read_def)
  then show ?thesis using readfile_only_allowed [of ?f zero_mem ?c ?d d' ?c] by fastforce
qed

text \<open>
  The response: when no write fails, \<^verbatim>\<open>request_sendfile\<close> sends the status line and the
  headers, with the length of the file and the sum of its bytes modulo 2 to the power 32, and
  then exactly the bytes of the file, however the operating system splits the transfers.
\<close>

theorem sendfile_response:
  assumes "W_Fail \<notin> set (wcalls c)" "file_size data = int (length (file_buf data))"
  shows "\<exists>c'. request_sendfile c data = Ret c' \<and> outgoing c' = outgoing c @
    cstr ''HTTP/1.0 200 OK'' @ crlf @ cstr ''Server: OS Web Server'' @ crlf @
    cstr ''Content-Type: '' @ request_get_file_type (file_name data) @ crlf @
    cstr ''Content-Length: '' @ dec_nat (length (file_buf data)) @ crlf @
    cstr ''Content-Csum: '' @ dec_int (sum_list (map uint (file_buf data)) mod 2 ^ 32) @ crlf @ crlf @ file_buf data"
proof -
  have r: "reliable c" "file_size data \<le> int (length (file_buf data))" using assms by (simp_all add: reliable_def)
  from sendfile_ok [OF this] show ?thesis
    using assms(2) by (auto simp: response_head_def checksum_sum to_u32_def dec_int_def)
qed

theorem sendfile_response_witness:
  "\<exists>c'. request_sendfile \<lparr>incoming = [], outgoing = [], wcalls = [W_Count 3], printed = [], closed = False, sprintf_appends = True\<rparr>
     \<lparr>file_name = cstr ''./a'', file_buf = [1, 2], file_size = 2\<rparr> = Ret c' \<and> drop (length (outgoing c') - 2) (outgoing c') = [1, 2]"
  using sendfile_response [of "\<lparr>incoming = [], outgoing = [], wcalls = [W_Count 3], printed = [], closed = False, sprintf_appends = True\<rparr>"
      "\<lparr>file_name = cstr ''./a'', file_buf = [1, 2], file_size = 2\<rparr>"] by auto

text \<open>A client that closes the connection before the empty line keeps the worker busy for ever.\<close>

lemma headers_eof:
  assumes "sound (calls rp)" "rstream rp = []" "takeWhile (\<lambda>b. b \<noteq> 0) buf \<noteq> crlf"
  shows "headers_loop fuel rp buf = Crash Diverges"
  using assms
proof (induction fuel arbitrary: rp)
  case (Suc fuel)
  obtain rp' where "rio_readlineb MAXLINE rp buf MAXLINE = Ret (0, buf, rp')" "sound (calls rp')" "rstream rp' = []"
    using readlineb_ok [of rp MAXLINE buf] Suc.prems by (auto simp: MAXLINE_def)
  then show ?case using Suc by (simp add: Rio_readlineb_def)
qed simp

section \<open>Parsing a request\<close>

lemma line_take_line: "10 \<notin> set l \<Longrightarrow> length l < k \<Longrightarrow> line_take k (l @ 10 # rest) = l @ [10]"
  by (induction l arbitrary: k) auto

text \<open>One line that ends in carriage return and newline.\<close>

lemma Rio_readlineb_line:
  assumes "sound (calls rp)" "rstream rp = l @ crlf @ rest" "10 \<notin> set l" "length l + 2 < MAXLINE"
  shows "\<exists>rp'. Rio_readlineb MAXLINE rp buf MAXLINE = Ret (int (length l) + 2, l @ crlf, rp') \<and> sound (calls rp') \<and> rstream rp' = rest"
proof -
  have lt: "line_take MAXLINE (rstream rp) = l @ crlf"
    using line_take_line [of "l @ [13]" MAXLINE rest] assms(2-4) by (simp add: crlf_def)
  from readlineb_ok [OF assms(1), of MAXLINE buf] lt assms(2,4) show ?thesis
    by (auto simp: Rio_readlineb_def crlf_def MAXLINE_def)
qed

definition header_line :: "byte list \<Rightarrow> bool" where
  "header_line h \<longleftrightarrow> h \<noteq> [] \<and> 10 \<notin> set h \<and> 0 \<notin> set h \<and> length h + 2 < MAXLINE"

lemma until_zero: "0 \<notin> set h \<Longrightarrow> takeWhile (\<lambda>b::byte. b \<noteq> 0) (h @ crlf) = h @ crlf"
  by (subst takeWhile_append2) (auto simp: crlf_def)

lemma header_not_empty: "header_line h \<Longrightarrow> takeWhile (\<lambda>b. b \<noteq> 0) (h @ crlf) \<noteq> crlf"
  unfolding header_line_def using until_zero [of h] by (metis append_self_conv2)

lemma headers_loop_ok:
  assumes "sound (calls rp)" "rstream rp = concat (map (\<lambda>h. h @ crlf) hs) @ crlf @ rest" "list_all header_line hs" "length hs + 1 < fuel"
    and "takeWhile (\<lambda>b. b \<noteq> 0) buf \<noteq> crlf"
  shows "\<exists>rp'. headers_loop fuel rp buf = Ret rp' \<and> rstream rp' = rest"
  using assms
proof (induction hs arbitrary: rp buf fuel)
  case Nil
  then obtain n where n: "fuel = Suc (Suc n)" by (metis One_nat_def add_0 less_natE list.size(3) add_Suc_right add.commute Suc_lessE)
  obtain rp' where "Rio_readlineb MAXLINE rp buf MAXLINE = Ret (2, crlf, rp')" "rstream rp' = rest"
    using Rio_readlineb_line [OF Nil.prems(1), of "[]" rest buf] Nil.prems(2) by (auto simp: MAXLINE_def)
  then show ?case using n Nil.prems(5) until_zero [of "[]"] by simp
next
  case (Cons h hs)
  then obtain n where n: "fuel = Suc n" by (cases fuel) auto
  have h: "header_line h" using Cons.prems(3) by simp
  obtain rp' where rp': "Rio_readlineb MAXLINE rp buf MAXLINE = Ret (int (length h) + 2, h @ crlf, rp')" "sound (calls rp')"
    "rstream rp' = concat (map (\<lambda>h. h @ crlf) hs) @ crlf @ rest"
    using Rio_readlineb_line [OF Cons.prems(1), of h _ buf] Cons.prems(2) h by (auto simp: header_line_def)
  from Cons.IH [OF rp'(2,3) _ _ header_not_empty [OF h]] show ?case using Cons.prems(3-5) n rp'(1) by auto
qed

lemma read_headers_ok:
  assumes "sound (calls rp)" "rstream rp = concat (map (\<lambda>h. h @ crlf) hs) @ crlf @ rest" "list_all header_line hs" "length hs < fuel"
  shows "\<exists>rp'. request_read_headers fuel rp junk = Ret rp' \<and> rstream rp' = rest"
proof (cases hs)
  case Nil
  obtain rp' where "Rio_readlineb MAXLINE rp junk MAXLINE = Ret (2, crlf, rp')" "rstream rp' = rest"
    using Rio_readlineb_line [OF assms(1), of "[]" rest junk] assms(2) Nil by (auto simp: MAXLINE_def)
  then show ?thesis using assms(4) until_zero [of "[]"] by (cases fuel) (auto simp: request_read_headers_def)
next
  case (Cons h hs')
  then have h: "header_line h" using assms(3) by simp
  obtain rp' where rp': "Rio_readlineb MAXLINE rp junk MAXLINE = Ret (int (length h) + 2, h @ crlf, rp')" "sound (calls rp')"
    "rstream rp' = concat (map (\<lambda>h. h @ crlf) hs') @ crlf @ rest"
    using Rio_readlineb_line [OF assms(1), of h _ junk] assms(2) h Cons by (auto simp: header_line_def)
  from headers_loop_ok [OF rp'(2,3) _ _ header_not_empty [OF h]] show ?thesis using assms(3,4) Cons rp'(1) by (auto simp: request_read_headers_def)
qed

lemma scan_word_ok:
  assumes "w \<noteq> []" "\<forall>b \<in> set w. \<not> is_blank b" "is_blank b"
  shows "scan_word (w @ b # rest) = (Some w, b # rest)" "scan_word (32 # w @ b # rest) = (Some w, b # rest)"
proof -
  have "dropWhile is_blank (w @ b # rest) = w @ b # rest" using assms by (cases w) auto
  moreover have "takeWhile (\<lambda>b. \<not> is_blank b) (w @ b # rest) = w" using assms(2,3) by (subst takeWhile_append2) auto
  moreover have "dropWhile (\<lambda>b. \<not> is_blank b) (w @ b # rest) = b # rest" using assms(2,3) by (subst dropWhile_append2) auto
  moreover have "is_blank 32" by (simp add: is_blank_def)
  ultimately show "scan_word (w @ b # rest) = (Some w, b # rest)" "scan_word (32 # w @ b # rest) = (Some w, b # rest)"
    using assms(1) by (simp_all add: scan_word_def Let_def)
qed

lemma request_init_ok:
  assumes "R_Fail \<notin> set (incoming c)"
    and "stream (incoming c) = cstr ''GET '' @ uri @ 32 # version @ crlf @ concat (map (\<lambda>h. h @ crlf) hs) @ crlf @ rest"
    and "uri \<noteq> []" "\<forall>b \<in> set uri. \<not> is_blank b" "0 \<notin> set uri" "10 \<notin> set version" "0 \<notin> set version"
    and "length uri + length version + 7 < MAXLINE" "list_all header_line hs" "length hs < fuel"
  shows "request_init fuel c junk = Ret (Some (take (MAXLINE - 1) (cstr ''./'' @ uri)), c)"
proof -
  let ?l = "cstr ''GET '' @ uri @ 32 # version" and ?rp = "rio_init (incoming c)"
  have u: "10 \<notin> set uri" using assms(4) by (auto simp: is_blank_def)
  have sd: "sound (calls ?rp)" and str: "rstream ?rp = ?l @ crlf @ concat (map (\<lambda>h. h @ crlf) hs) @ crlf @ rest"
    using assms(1,2) by (simp_all add: sound_def rio_init_def rstream_def)
  have g: "cstr ''GET '' = [71, 69, 84, 32]" by (simp add: cstr_def of_char_def)
  obtain rp where rp: "Rio_readlineb MAXLINE ?rp junk MAXLINE = Ret (int (length ?l) + 2, ?l @ crlf, rp)" "sound (calls rp)"
    "rstream rp = concat (map (\<lambda>h. h @ crlf) hs) @ crlf @ rest"
    using Rio_readlineb_line [OF sd str, of junk] u assms(6,8) by (auto simp: g)
  have z: "takeWhile (\<lambda>b. b \<noteq> 0) (?l @ crlf) = ?l @ crlf" using until_zero [of ?l] assms(5,7) by (simp add: g)
  have w1: "scan_word (?l @ crlf) = (Some (cstr ''GET''), 32 # uri @ 32 # version @ crlf)"
    using scan_word_ok(1) [of "cstr ''GET''" 32 "uri @ 32 # version @ crlf"] by (simp add: cstr_def of_char_def is_blank_def)
  have w2: "scan_word (32 # uri @ 32 # version @ crlf) = (Some uri, 32 # version @ crlf)"
    by (rule scan_word_ok(2)) (use assms(3,4) in \<open>auto simp: is_blank_def\<close>)
  obtain rp' where "request_read_headers fuel rp junk = Ret rp'" using read_headers_ok [OF rp(2,3) assms(9,10)] by blast
  moreover have tw: "takeWhile (\<lambda>b::byte. b \<noteq> 0) crlf = crlf" by (simp add: crlf_def)
  ultimately show ?thesis using rp(1) z w1 w2 by (simp add: tw request_init_def strcasecmp_eq_def request_parse_URI_def)
qed

text \<open>
  Reading a request: from a well-formed \<^verbatim>\<open>GET\<close> request line and any number of header lines,
  each shorter than the buffer and ended by an empty line, \<^verbatim>\<open>request_init\<close> returns the name of the
  file, the path behind \<^verbatim>\<open>./\<close> cut to the buffer, however the operating system splits the input,
  and sends nothing to the client.
\<close>

theorem request_init_parses:
  assumes "R_Fail \<notin> set (incoming c)"
    and "stream (incoming c) = cstr ''GET '' @ uri @ 32 # version @ crlf @ concat (map (\<lambda>h. h @ crlf) hs) @ crlf @ rest"
    and "uri \<noteq> []" "\<forall>b \<in> set uri. \<not> is_blank b" "0 \<notin> set uri" "10 \<notin> set version" "0 \<notin> set version"
    and "length uri + length version + 7 < MAXLINE" "list_all header_line hs" "length hs < fuel"
  shows "request_init fuel c junk = Ret (Some (take (MAXLINE - 1) (cstr ''./'' @ uri)), c)"
  by (rule request_init_ok [OF assms])

theorem request_init_parses_witness:
  "request_init 1 \<lparr>incoming = [R_Data (cstr ''GET /a HTTP/1.0'' @ crlf @ crlf)], outgoing = [], wcalls = [], printed = [], closed = False, sprintf_appends = True\<rparr> [] =
     Ret (Some (cstr ''.//a''), \<lparr>incoming = [R_Data (cstr ''GET /a HTTP/1.0'' @ crlf @ crlf)], outgoing = [], wcalls = [], printed = [], closed = False, sprintf_appends = True\<rparr>)"
  using request_init_parses [of "\<lparr>incoming = [R_Data (cstr ''GET /a HTTP/1.0'' @ crlf @ crlf)], outgoing = [], wcalls = [], printed = [], closed = False, sprintf_appends = True\<rparr>"
      "cstr ''/a''" "cstr ''HTTP/1.0''" "[]" "[]" 1 "[]"]
  by (simp add: cstr_def of_char_def crlf_def is_blank_def MAXLINE_def)

end
