(* ===== verification/Web_Cache.thy ===== *)
theory Web_Cache
  imports OS_Dll Web_Request
begin

text \<open>
  The file cache of the web server (\<^verbatim>\<open>webserver/server_thread.c\<close>): a hash table of chained
  \<^verbatim>\<open>wordsElement\<close> structures, a doubly linked list of them in the order of their last use, and
  \<^verbatim>\<open>do_server_request\<close> with the three sections it executes under the lock. Pointers are numbers
  handed out by \<^verbatim>\<open>malloc\<close> in order and never again after \<^verbatim>\<open>free\<close>, so every use of a freed
  object is an outcome of its own. The name of an entry is the name stored in its
  \<^verbatim>\<open>file_data\<close>: the pointer \<^verbatim>\<open>word\<close> is the address of that structure.
\<close>

section \<open>State\<close>

record wordsElement =
  word :: nat
  sizeofword :: int
  wkey :: int
  refCount :: int
  wdata :: nat
  wnext :: "nat option"
  listLocation :: "nat option"

type_synonym LRUNode = "nat qnode"

text \<open>
  \<^verbatim>\<open>cmem\<close> says which calls of \<^verbatim>\<open>malloc\<close> succeed, \<^verbatim>\<open>int_wraps\<close> whether the
  compiler makes signed arithmetic wrap around.
\<close>

record cache =
  max_cache_size :: int
  ht :: "nat option list"
  lq_head :: "nat option"
  lq_tail :: "nat option"
  currentSize :: int
  lnodes :: "nat \<Rightarrow> LRUNode option"
  welems :: "nat \<Rightarrow> wordsElement option"
  fdatas :: "nat \<Rightarrow> file_data option"
  cbrk :: nat
  cmem :: "nat \<Rightarrow> bool"
  int_wraps :: bool

definition c_malloc :: "cache \<Rightarrow> nat option \<times> cache" where
  "c_malloc s = (if cmem s (cbrk s) then Some (cbrk s) else None, s\<lparr>cbrk := Suc (cbrk s)\<rparr>)"

text \<open>
  The part of \<^verbatim>\<open>server_init\<close> that sets up the cache: the array \<^verbatim>\<open>ht\<close> and the list
  \<^verbatim>\<open>lq\<close> are allocated when the limit is positive, and written without a check of the two
  results, which \<^verbatim>\<open>ht_ok\<close> and \<^verbatim>\<open>lq_ok\<close> tell; \<^verbatim>\<open>ok\<close> tells which of the later
  allocations succeed.
\<close>

definition empty_cache :: "int \<Rightarrow> bool \<Rightarrow> (nat \<Rightarrow> bool) \<Rightarrow> cache" where
  "empty_cache n wraps ok =
    \<lparr>max_cache_size = n, ht = (if n > 0 then replicate (nat n) None else []), lq_head = None, lq_tail = None,
     currentSize = 0, lnodes = Map.empty, welems = Map.empty, fdatas = Map.empty, cbrk = 0, cmem = ok, int_wraps = wraps\<rparr>"

definition cache_init :: "int \<Rightarrow> bool \<Rightarrow> bool \<Rightarrow> bool \<Rightarrow> (nat \<Rightarrow> bool) \<Rightarrow> cache res" where
  "cache_init n ht_ok lq_ok wraps ok =
    (if n > 0 then bnd (guard_ub (ht_ok \<and> lq_ok)) (\<lambda>_. Ret (empty_cache n wraps ok)) else Ret (empty_cache n wraps ok))"

lemma cache_init_Ret: "cache_init n ht_ok lq_ok wraps ok = Ret s \<Longrightarrow> s = empty_cache n wraps ok"
  by (auto simp: cache_init_def bnd_Ret_iff split: if_splits)

text \<open>
  The hash of a name, whose characters are signed. \<^verbatim>\<open>int\<close> arithmetic that overflows, as nearly
  every name makes it do, and the shift of a negative number are undefined in C; \<^verbatim>\<open>wraps\<close> says
  whether the compiler defines them by wrapping around, as the one in use does.
\<close>

definition int_op :: "bool \<Rightarrow> int \<Rightarrow> int res" where
  "int_op wraps x = bnd (guard_ub (wraps \<or> in_s32 x)) (\<lambda>_. Ret (to_s32 x))"

definition hash :: "bool \<Rightarrow> byte list \<Rightarrow> int res" where
  "hash wraps str =
    foldl (\<lambda>r c.
      bnd r (\<lambda>h.
      bnd (guard_ub (wraps \<or> 0 \<le> h)) (\<lambda>_.
      bnd (int_op wraps (h * 32)) (\<lambda>a.
      bnd (int_op wraps (a + h)) (\<lambda>b.
      int_op wraps (b + sint c)))))) (Ret 5381) str"

definition hash_value :: "byte list \<Rightarrow> int" where
  "hash_value str = foldl (\<lambda>h c. to_s32 (to_s32 (to_s32 (h * 32) + h) + sint c)) 5381 str"

lemma hash_wraps [simp]: "hash True str = Ret (hash_value str)"
proof -
  have "foldl (\<lambda>r c. bnd r (\<lambda>h. bnd (guard_ub (True \<or> 0 \<le> h)) (\<lambda>_. bnd (int_op True (h * 32)) (\<lambda>a. bnd (int_op True (a + h)) (\<lambda>b.
      int_op True (b + sint c)))))) (Ret x) str = Ret (foldl (\<lambda>h c. to_s32 (to_s32 (to_s32 (h * 32) + h) + sint c)) x str)" for x
    by (induction str arbitrary: x) (simp_all add: int_op_def)
  then show ?thesis by (simp add: hash_def hash_value_def)
qed

section \<open>The recency list\<close>

definition pushbackLRU :: "nat \<Rightarrow> cache \<Rightarrow> cache res" where
  "pushbackLRU pt s =
    (case lq_head s of
       None \<Rightarrow>
         bnd (deref (lnodes s pt)) (\<lambda>n.
         Ret (s\<lparr>lnodes := (lnodes s)(pt \<mapsto> n\<lparr>q_prv := None, q_next := None\<rparr>),
                lq_head := Some pt, lq_tail := Some pt\<rparr>))
     | Some _ \<Rightarrow>
         bnd (deref (lq_tail s)) (\<lambda>t.
         bnd (deref (lnodes s t)) (\<lambda>tn.
         let h = (lnodes s)(t \<mapsto> tn\<lparr>q_next := Some pt\<rparr>) in
         bnd (deref (h pt)) (\<lambda>n.
         Ret (s\<lparr>lnodes := h(pt \<mapsto> n\<lparr>q_prv := Some t, q_next := None\<rparr>), lq_tail := Some pt\<rparr>)))))"

definition buildNodeLRU :: "nat \<Rightarrow> cache \<Rightarrow> (nat \<times> cache) res" where
  "buildNodeLRU data s =
    (let (p, s1) = c_malloc s in
     bnd (deref p) (\<lambda>p.
     Ret (p, s1\<lparr>lnodes := (lnodes s1)(p \<mapsto> \<lparr>q_node = data, q_prv = None, q_next = None\<rparr>)\<rparr>)))"

definition free_lru :: "nat \<Rightarrow> cache \<Rightarrow> cache" where
  "free_lru p s = s\<lparr>lnodes := (lnodes s)(p := None)\<rparr>"

text \<open>Command 0 takes the node out of the list and frees it, command 1 moves it to the end.\<close>

definition deleteSwapNode :: "nat \<Rightarrow> int \<Rightarrow> cache \<Rightarrow> cache res" where
  "deleteSwapNode node command s =
    (if lq_head s = Some node then
       bnd (deref (lnodes s node)) (\<lambda>n.
       bnd (case q_next n of
              Some q \<Rightarrow>
                bnd (deref (lnodes s q)) (\<lambda>qn.
                Ret (s\<lparr>lq_head := Some q, lnodes := (lnodes s)(q \<mapsto> qn\<lparr>q_prv := None\<rparr>)\<rparr>))
            | None \<Rightarrow> Ret (s\<lparr>lq_head := None, lq_tail := None\<rparr>)) (\<lambda>s1.
       if command = 0 then Ret (free_lru node s1) else pushbackLRU node s1))
     else if lq_tail s = Some node then
       if command = 0 then
         bnd (deref (lnodes s node)) (\<lambda>n.
         bnd (deref (q_prv n)) (\<lambda>b.
         bnd (deref (lnodes s b)) (\<lambda>bn.
         Ret (free_lru node (s\<lparr>lq_tail := Some b, lnodes := (lnodes s)(b \<mapsto> bn\<lparr>q_next := None\<rparr>)\<rparr>)))))
       else Ret s
     else
       bnd (deref (lnodes s node)) (\<lambda>n.
       bnd (deref (q_prv n)) (\<lambda>b.
       bnd (deref (lnodes s b)) (\<lambda>bn.
       let h = (lnodes s)(b \<mapsto> bn\<lparr>q_next := q_next n\<rparr>) in
       bnd (deref (q_next n)) (\<lambda>a.
       bnd (deref (h a)) (\<lambda>an.
       let s1 = s\<lparr>lnodes := h(a \<mapsto> an\<lparr>q_prv := Some b\<rparr>)\<rparr> in
       if command = 0 then Ret (free_lru node s1) else pushbackLRU node s1))))))"

section \<open>The hash table\<close>

text \<open>The key is set by the caller; until then it is uninitialised.\<close>

definition initNodewE :: "nat \<Rightarrow> nat \<Rightarrow> int \<Rightarrow> cache \<Rightarrow> (nat \<times> cache) res" where
  "initNodewE wordi data size0 s =
    (let (p, s1) = c_malloc s in
     bnd (deref p) (\<lambda>p.
     Ret (p, s1\<lparr>welems := (welems s1)(p \<mapsto> \<lparr>word = wordi, sizeofword = size0, wkey = 0, refCount = 0, wdata = data,
                 wnext = None, listLocation = None\<rparr>)\<rparr>)))"

definition upd_elem :: "nat \<Rightarrow> (wordsElement \<Rightarrow> wordsElement) \<Rightarrow> cache \<Rightarrow> cache res" where
  "upd_elem e f s = bnd (deref (welems s e)) (\<lambda>w. Ret (s\<lparr>welems := (welems s)(e \<mapsto> f w)\<rparr>))"

text \<open>
  The walks along a chain. Its elements are different allocated objects, so a walk that ends has
  at most as many steps as there were allocations: this is the fuel.
\<close>

definition walk_fuel :: "cache \<Rightarrow> nat" where
  "walk_fuel s = Suc (cbrk s)"

primrec chain_before :: "nat \<Rightarrow> cache \<Rightarrow> nat \<Rightarrow> nat option \<Rightarrow> nat option res" where
  "chain_before 0 s node before = Crash Diverges"
| "chain_before (Suc n) s node before =
    (case before of
       None \<Rightarrow> Ret None
     | Some b \<Rightarrow>
         bnd (deref (welems s b)) (\<lambda>w.
         if wnext w = Some node then Ret (Some b) else chain_before n s node (wnext w)))"

definition bucket :: "cache \<Rightarrow> int \<Rightarrow> nat option res" where
  "bucket s k = bnd (guard_ub (0 \<le> k \<and> k < int (length (ht s)))) (\<lambda>_. Ret (ht s ! nat k))"

definition deleteHash :: "nat \<Rightarrow> cache \<Rightarrow> cache res" where
  "deleteHash node s =
    bnd (deref (welems s node)) (\<lambda>w.
    bnd (bucket s (wkey w)) (\<lambda>headofH.
    if headofH = Some node then
      Ret (s\<lparr>ht := (ht s)[nat (wkey w) := wnext w], welems := (welems s)(node := None)\<rparr>)
    else
      bnd (chain_before (walk_fuel s) s node headofH) (\<lambda>before.
      bnd (deref before) (\<lambda>b.
      bnd (upd_elem b (\<lambda>bw. bw\<lparr>wnext := wnext w\<rparr>) s) (\<lambda>s1.
      Ret (s1\<lparr>welems := (welems s1)(node := None)\<rparr>))))))"

primrec chain_last :: "nat \<Rightarrow> cache \<Rightarrow> nat \<Rightarrow> nat res" where
  "chain_last 0 s current = Crash Diverges"
| "chain_last (Suc n) s current =
    bnd (deref (welems s current)) (\<lambda>w. case wnext w of None \<Rightarrow> Ret current | Some q \<Rightarrow> chain_last n s q)"

definition chain_insert :: "nat \<Rightarrow> int \<Rightarrow> cache \<Rightarrow> cache res" where
  "chain_insert e hashKey s =
    bnd (bucket s hashKey) (\<lambda>b.
    case b of
      None \<Rightarrow> Ret (s\<lparr>ht := (ht s)[nat hashKey := Some e]\<rparr>)
    | Some current \<Rightarrow>
        bnd (chain_last (walk_fuel s) s current) (\<lambda>l. upd_elem l (\<lambda>w. w\<lparr>wnext := Some e\<rparr>) s))"

definition cache_insert :: "nat \<Rightarrow> cache \<Rightarrow> (nat \<times> cache) res" where
  "cache_insert data s =
    bnd (deref (fdatas s data)) (\<lambda>fd.
    bnd (initNodewE data data (file_size fd) s) (\<lambda>(e, s1).
    bnd (hash (int_wraps s1) (file_name fd)) (\<lambda>h.
    let hashKey = c_mod h (max_cache_size s1) in
    bnd (upd_elem e (\<lambda>w. w\<lparr>wkey := hashKey\<rparr>) s1) (\<lambda>s2.
    bnd (chain_insert e hashKey s2) (\<lambda>s3.
    bnd (buildNodeLRU e s3) (\<lambda>(l, s4).
    bnd (upd_elem e (\<lambda>w. w\<lparr>listLocation := Some l\<rparr>) s4) (\<lambda>s5.
    bnd (pushbackLRU l s5) (\<lambda>s6.
    Ret (e, s6)))))))))"

text \<open>Each round of the loop compares the name with the first element of the bucket.\<close>

primrec lookup_loop :: "nat \<Rightarrow> cache \<Rightarrow> byte list \<Rightarrow> int \<Rightarrow> nat option \<Rightarrow> nat option res" where
  "lookup_loop 0 s key hashKey iter = Crash Diverges"
| "lookup_loop (Suc n) s key hashKey iter =
    (case iter of
       None \<Rightarrow> Ret None
     | Some i \<Rightarrow>
         bnd (bucket s hashKey) (\<lambda>b.
         bnd (deref b) (\<lambda>b.
         bnd (deref (welems s b)) (\<lambda>bw.
         bnd (deref (fdatas s (word bw))) (\<lambda>bd.
         if key = file_name bd then Ret (Some i)
         else bnd (deref (welems s i)) (\<lambda>w. lookup_loop n s key hashKey (wnext w)))))))"

definition cache_lookup :: "nat \<Rightarrow> cache \<Rightarrow> nat option res" where
  "cache_lookup data s =
    bnd (deref (fdatas s data)) (\<lambda>fd.
    bnd (hash (int_wraps s) (file_name fd)) (\<lambda>h.
    let hashKey = c_mod h (max_cache_size s) in
    bnd (bucket s hashKey) (\<lambda>iter.
    lookup_loop (walk_fuel s) s (file_name fd) hashKey iter)))"

primrec evict_scan :: "nat \<Rightarrow> cache \<Rightarrow> nat option \<Rightarrow> nat option res" where
  "evict_scan 0 s wasterNode = Crash Diverges"
| "evict_scan (Suc n) s wasterNode =
    (case wasterNode of
       None \<Rightarrow> Ret None
     | Some p \<Rightarrow>
         bnd (deref (lnodes s p)) (\<lambda>nd.
         bnd (deref (welems s (q_node nd))) (\<lambda>w.
         if refCount w \<noteq> 0 then evict_scan n s (q_next nd) else Ret (Some p))))"

text \<open>The result tells whether room was made: the node returned is only compared with NULL.\<close>

definition cache_evict :: "int \<Rightarrow> cache \<Rightarrow> (bool \<times> cache) res" where
  "cache_evict amountEvict s =
    bnd (evict_scan (walk_fuel s) s (lq_head s)) (\<lambda>waster.
    case waster of
      None \<Rightarrow> Ret (False, s)
    | Some p \<Rightarrow>
        bnd (deref (lnodes s p)) (\<lambda>nd.
        bnd (deref (welems s (q_node nd))) (\<lambda>w.
        if amountEvict \<le> sizeofword w then
          bnd (deleteHash (q_node nd) (s\<lparr>currentSize := to_s32 (currentSize s - sizeofword w)\<rparr>)) (\<lambda>s1.
          bnd (deleteSwapNode p 0 s1) (\<lambda>s2.
          Ret (True, s2)))
        else Ret (False, s))))"

section \<open>Serving a request\<close>

definition file_data_init :: "cache \<Rightarrow> (nat \<times> cache) res" where
  "file_data_init s =
    (case c_malloc s of
       (None, s1) \<Rightarrow> Crash (Exit_Error ''malloc'')
     | (Some p, s1) \<Rightarrow> Ret (p, s1\<lparr>fdatas := (fdatas s1)(p \<mapsto> \<lparr>file_name = [], file_buf = [], file_size = 0\<rparr>)\<rparr>))"

definition file_data_free :: "nat \<Rightarrow> cache \<Rightarrow> cache res" where
  "file_data_free d s = bnd (deref (fdatas s d)) (\<lambda>_. Ret (s\<lparr>fdatas := (fdatas s)(d := None)\<rparr>))"

text \<open>The common end of the two look-ups: the entry is in use and most recently used.\<close>

definition use_entry :: "nat \<Rightarrow> cache \<Rightarrow> cache res" where
  "use_entry check s =
    bnd (upd_elem check (\<lambda>w. w\<lparr>refCount := to_s32 (refCount w + 1)\<rparr>) s) (\<lambda>s1.
    bnd (deref (welems s1 check)) (\<lambda>w.
    bnd (deref (listLocation w)) (\<lambda>l.
    deleteSwapNode l 1 s1)))"

text \<open>
  The sections under the lock: the first look-up; the second one, after the file was read, which
  inserts the file, evicting an entry when needed; and the end of the use of an entry. The result
  is the entry in use, or \<^const>\<open>None\<close> when there is none.
\<close>

definition section_lookup :: "nat \<Rightarrow> cache \<Rightarrow> (nat option \<times> cache) res" where
  "section_lookup data s =
    bnd (cache_lookup data s) (\<lambda>check.
    case check of
      None \<Rightarrow> Ret (None, s)
    | Some e \<Rightarrow> bnd (use_entry e s) (\<lambda>s1. Ret (Some e, s1)))"

definition insert_and_use :: "nat \<Rightarrow> int \<Rightarrow> cache \<Rightarrow> (nat option \<times> cache) res" where
  "insert_and_use data size0 s =
    bnd (cache_insert data (s\<lparr>currentSize := to_s32 (currentSize s + size0)\<rparr>)) (\<lambda>(e, s1).
    bnd (use_entry e s1) (\<lambda>s2. Ret (Some e, s2)))"

definition section_insert :: "nat \<Rightarrow> cache \<Rightarrow> (nat option \<times> cache) res" where
  "section_insert data s =
    bnd (cache_lookup data s) (\<lambda>check.
    case check of
      Some e \<Rightarrow>
        bnd (file_data_free data s) (\<lambda>s1.
        bnd (use_entry e s1) (\<lambda>s2. Ret (Some e, s2)))
    | None \<Rightarrow>
        bnd (deref (fdatas s data)) (\<lambda>fd.
        if to_s32 (currentSize s + file_size fd) \<le> max_cache_size s then insert_and_use data (file_size fd) s
        else
          let amountE = to_s32 (file_size fd - to_s32 (max_cache_size s - currentSize s)) in
          bnd (cache_evict amountE s) (\<lambda>(room, s1).
          if room then insert_and_use data (file_size fd) s1 else Ret (None, s1))))"

definition section_release :: "nat \<Rightarrow> cache \<Rightarrow> cache res" where
  "section_release check s = upd_elem check (\<lambda>w. w\<lparr>refCount := to_s32 (refCount w - 1)\<rparr>) s"

definition set_data :: "nat \<Rightarrow> file_data \<Rightarrow> cache \<Rightarrow> cache" where
  "set_data d fd s = s\<lparr>fdatas := (fdatas s)(d \<mapsto> fd)\<rparr>"

definition send_entry :: "nat \<Rightarrow> cache \<Rightarrow> conn \<Rightarrow> (cache \<times> conn) res" where
  "send_entry e s c =
    bnd (deref (welems s e)) (\<lambda>w.
    bnd (deref (fdatas s (wdata w))) (\<lambda>fd.
    bnd (request_sendfile c fd) (\<lambda>c1.
    bnd (section_release e s) (\<lambda>s1.
    bnd (request_destroy c1) (\<lambda>c2. Ret (s1, c2))))))"

definition send_own :: "nat \<Rightarrow> cache \<Rightarrow> conn \<Rightarrow> (cache \<times> conn) res" where
  "send_own d s c =
    bnd (deref (fdatas s d)) (\<lambda>fd.
    bnd (request_sendfile c fd) (\<lambda>c1.
    bnd (request_destroy c1) (\<lambda>c2.
    bnd (file_data_free d s) (\<lambda>s1. Ret (s1, c2)))))"

definition do_server_request :: "nat \<Rightarrow> fenv \<Rightarrow> mem \<Rightarrow> byte list \<Rightarrow> cache \<Rightarrow> conn \<Rightarrow> (cache \<times> conn) res" where
  "do_server_request fuel files junk line s0 c0 =
    bnd (file_data_init s0) (\<lambda>(data, s).
    bnd (request_init fuel c0 line) (\<lambda>(rq, c).
    case rq of
      None \<Rightarrow> bnd (file_data_free data s) (\<lambda>s1. Ret (s1, c))
    | Some name \<Rightarrow>
        let fd = \<lparr>file_name = name, file_buf = [], file_size = 0\<rparr>; s = set_data data fd s in
        if max_cache_size s > 0 then
          bnd (section_lookup data s) (\<lambda>(check, s1).
          case check of
            Some e \<Rightarrow> send_entry e s1 c
          | None \<Rightarrow>
              bnd (request_readfile files junk c fd) (\<lambda>(ret, fd', c1).
              let s2 = set_data data fd' s1 in
              if ret = 0 then bnd (request_destroy c1) (\<lambda>c2. Ret (s2, c2))
              else
                bnd (section_insert data s2) (\<lambda>(check', s3).
                case check' of Some e \<Rightarrow> send_entry e s3 c1 | None \<Rightarrow> send_own data s3 c1)))
        else
          bnd (request_readfile files junk c fd) (\<lambda>(ret, fd', c1).
          let s2 = set_data data fd' s in
          if ret = 0 then
            bnd (request_destroy c1) (\<lambda>c2.
            bnd (file_data_free data s2) (\<lambda>s3. Ret (s3, c2)))
          else send_own data s2 c1)))"
section \<open>The recency list represents a list of entries\<close>

definition lru :: "cache \<Rightarrow> nat list \<Rightarrow> nat list \<Rightarrow> bool" where
  "lru s ps es \<longleftrightarrow> seg (lnodes s) None (lq_head s) ps es (lq_tail s) None \<and> distinct es"

text \<open>Two states that differ in the recency list only.\<close>

definition same_but_lru :: "cache \<Rightarrow> cache \<Rightarrow> bool" where
  "same_but_lru s s' \<longleftrightarrow> welems s' = welems s \<and> ht s' = ht s \<and> fdatas s' = fdatas s \<and> max_cache_size s' = max_cache_size s \<and>
    currentSize s' = currentSize s \<and> cbrk s' = cbrk s \<and> cmem s' = cmem s \<and> int_wraps s' = int_wraps s"

lemma lru_head_iff: "lru s ps es \<Longrightarrow> lq_head s = None \<longleftrightarrow> es = []"
  by (cases es) (auto simp: lru_def seg_Cons)

lemma lru_distinct: "lru s ps es \<Longrightarrow> distinct ps \<and> distinct es \<and> length ps = length es"
  using seg_distinct seg_length by (fastforce simp: lru_def)

lemma pushbackLRU_ok:
  assumes "lru s ps es" "lnodes s p = Some n" "q_node n = e" "e \<notin> set es"
  shows "\<exists>s'. pushbackLRU p s = Ret s' \<and> lru s' (ps @ [p]) (es @ [e]) \<and> same_but_lru s s'"
proof (cases "es = []")
  case True
  then have h: "lq_head s = None" "ps = []" using assms(1) by (auto simp: lru_def)
  then show ?thesis using assms(2,3) True by (simp add: pushbackLRU_def lru_def same_but_lru_def)
next
  case False
  have sg: "seg (lnodes s) None (lq_head s) ps es (lq_tail s) None" "distinct es" using assms(1) by (simp_all add: lru_def)
  obtain l ln where l: "lq_tail s = Some l" "lnodes s l = Some ln" "l \<noteq> p"
    and sg': "seg ((lnodes s)(l \<mapsto> ln\<lparr>q_next := Some p\<rparr>, p \<mapsto> n\<lparr>q_prv := Some l, q_next := None\<rparr>)) None (lq_head s) (ps @ [p]) (es @ [e]) (Some p) None"
    using seg_push(2) [OF sg assms(4,2,3) False] by blast
  obtain hp where hp: "lq_head s = Some hp" using lru_head_iff [OF assms(1)] False by auto
  show ?thesis using l hp sg' assms sg(2) by (simp add: pushbackLRU_def lru_def same_but_lru_def)
qed

text \<open>Taking out the node of an entry; the node itself may stay allocated or not.\<close>

lemma lru_pos:
  assumes "lru s ps es" "e \<in> set es"
  obtains qs m rs xs ys where "ps = qs @ m # rs" "es = xs @ e # ys" "length qs = length xs"
proof -
  obtain xs ys where es: "es = xs @ e # ys" using assms(2) by (auto simp: in_set_conv_decomp)
  have len: "length ps = length es" using lru_distinct [OF assms(1)] by simp
  have "ps = take (length xs) ps @ ps ! length xs # drop (Suc (length xs)) ps"
    using es len by (simp add: id_take_nth_drop)
  then show thesis using that [of "take (length xs) ps" "ps ! length xs" "drop (Suc (length xs)) ps" xs ys] es len by simp
qed

lemma lru_unlink:
  assumes "lru s (qs @ m # rs) (xs @ e # ys)" "length qs = length xs"
  shows "lnodes s m = Some \<lparr>q_node = e, q_prv = (if xs = [] then None else Some (last qs)), q_next = (if ys = [] then None else Some (List.hd rs))\<rparr>"
    "lq_head s = Some m \<longleftrightarrow> xs = []" "lq_tail s = Some m \<longleftrightarrow> ys = []"
proof -
  have sg: "seg (lnodes s) None (lq_head s) (qs @ m # rs) (xs @ e # ys) (lq_tail s) None" and d: "distinct (xs @ e # ys)"
    using assms(1) by (simp_all add: lru_def)
  have dd: "distinct (qs @ m # rs)" using seg_distinct [OF sg d] .
  obtain b r where b: "seg (lnodes s) None (lq_head s) qs xs b (Some m)" "lnodes s m = Some \<lparr>q_node = e, q_prv = b, q_next = r\<rparr>"
    "seg (lnodes s) (Some m) r rs ys (lq_tail s) None"
    by (rule seg_mid [OF sg assms(2)])
  have bb: "b = (if xs = [] then None else Some (last qs))" using seg_last(1) [OF b(1)] b(1) assms(2) by (cases qs; cases xs) auto
  have rr: "r = (if ys = [] then None else Some (List.hd rs))" using b(3) by (cases ys) (auto simp: seg_Cons)
  show "lnodes s m = Some \<lparr>q_node = e, q_prv = (if xs = [] then None else Some (last qs)), q_next = (if ys = [] then None else Some (List.hd rs))\<rparr>"
    using b(2) bb rr by simp
  show "lq_head s = Some m \<longleftrightarrow> xs = []" using b(1) dd by (cases xs) (auto simp: seg_Cons)
  have "lq_tail s = (if ys = [] then Some m else Some (last rs))"
    using seg_last(1) [OF b(3)] b(3) seg_length [OF b(3)] by (cases "rs = []") auto
  then show "lq_tail s = Some m \<longleftrightarrow> ys = []" using dd seg_length [OF b(3)] by (cases "rs = []") auto
qed

lemma deleteSwapNode_free:
  assumes l: "lru s (qs @ m # rs) (xs @ e # ys)" and len: "length qs = length xs"
  shows "\<exists>s'. deleteSwapNode m 0 s = Ret s' \<and> lru s' (qs @ rs) (xs @ ys) \<and> same_but_lru s s'"
proof -
  note u = lru_unlink [OF l len]
  have sg: "seg (lnodes s) None (lq_head s) (qs @ m # rs) (xs @ e # ys) (lq_tail s) None" and d: "distinct (xs @ e # ys)"
    using l by (simp_all add: lru_def)
  consider (head) "xs = []" | (tail) "xs \<noteq> []" "ys = []" | (mid) "xs \<noteq> []" "ys \<noteq> []" by blast
  then show ?thesis
  proof cases
    case head
    then have [simp]: "qs = []" using len by simp
    show ?thesis
    proof (cases "ys = []")
      case True
      then have "rs = []" using lru_distinct [OF l] head by simp
      then show ?thesis using u head True by (simp add: deleteSwapNode_def lru_def free_lru_def same_but_lru_def)
    next
      case False
      obtain r rn where r: "List.hd rs = r" "lnodes s r = Some rn"
        "seg ((lnodes s)(r \<mapsto> rn\<lparr>q_prv := None\<rparr>, m := None)) None (Some r) rs ys (lq_tail s) None"
        using seg_pop(4) [of "lnodes s" "lq_head s" m rs e ys "lq_tail s"] sg d head u(1) False by auto
      then show ?thesis using u head False d by (simp add: deleteSwapNode_def lru_def free_lru_def same_but_lru_def)
    qed
  next
    case tail
    then have [simp]: "rs = []" using lru_distinct [OF l] len by simp
    obtain b bn where "last qs = b" "lnodes s b = Some bn"
      "seg ((lnodes s)(b \<mapsto> bn\<lparr>q_next := None\<rparr>, m := None)) None (lq_head s) qs xs (Some b) None"
      using seg_drop_end [of "lnodes s" "lq_head s" qs m xs e "lq_tail s"] sg d tail u(1) by auto
    then show ?thesis using u tail d by (simp add: deleteSwapNode_def lru_def free_lru_def same_but_lru_def)
  next
    case mid
    obtain b bn a an where "last qs = b" "List.hd rs = a" "lnodes s b = Some bn" "lnodes s a = Some an" "a \<noteq> b"
      "seg ((lnodes s)(b \<mapsto> bn\<lparr>q_next := Some a\<rparr>, a \<mapsto> an\<lparr>q_prv := Some b\<rparr>, m := None)) None (lq_head s) (qs @ rs) (xs @ ys) (lq_tail s) None"
      using seg_drop_mid [OF sg len d mid] mid u(1) by auto
    then show ?thesis using u mid d by (simp add: deleteSwapNode_def lru_def free_lru_def same_but_lru_def Let_def)
  qed
qed

text \<open>Moving to the end is taking out without freeing, and pushing, unless the node is last.\<close>

lemma lru_no_node: "lru (free_lru m s) ps es \<Longrightarrow> m \<notin> set ps"
  using seg_nodes [of "lnodes (free_lru m s)" None "lq_head s" ps es "lq_tail s" None]
  by (fastforce simp: lru_def free_lru_def in_set_conv_nth)

lemma lru_unfree:
  assumes "lru (free_lru m s) ps es"
  shows "lru s ps es"
proof -
  have "seg (lnodes (free_lru m s)) None (lq_head s) ps es (lq_tail s) None" "distinct es"
    using assms by (simp_all add: lru_def free_lru_def)
  then show ?thesis
    using lru_no_node [OF assms] by (auto simp: lru_def free_lru_def elim!: seg_frame)
qed

lemma deleteSwapNode_split:
  assumes "deleteSwapNode m 0 s = Ret s0" "lnodes s m = Some n" "lq_head s = Some m \<or> lq_tail s \<noteq> Some m \<and> q_next n \<noteq> q_prv n"
  shows "\<exists>s1 n1. s0 = free_lru m s1 \<and> deleteSwapNode m 1 s = pushbackLRU m s1 \<and> lnodes s1 m = Some n1 \<and> q_node n1 = q_node n"
  using assms
  by (auto simp: deleteSwapNode_def Let_def res_simps split: if_splits option.splits)
    (rule exI, rule conjI, rule refl, rule conjI, rule refl, force)+

lemma deleteSwapNode_touch:
  assumes l: "lru s (qs @ m # rs) (xs @ e # ys)" and len: "length qs = length xs"
  shows "\<exists>s'. deleteSwapNode m 1 s = Ret s' \<and> lru s' (qs @ rs @ [m]) (xs @ ys @ [e]) \<and> same_but_lru s s'"
proof (cases "ys = [] \<and> xs \<noteq> []")
  case True
  then have "rs = []" using lru_distinct [OF l] len by simp
  then show ?thesis using True l lru_unlink [OF l len] by (simp add: deleteSwapNode_def same_but_lru_def)
next
  case False
  note u = lru_unlink [OF l len]
  obtain s0 where s0: "deleteSwapNode m 0 s = Ret s0" "lru s0 (qs @ rs) (xs @ ys)" "same_but_lru s s0"
    using deleteSwapNode_free [OF l len] by blast
  have "last qs \<noteq> List.hd rs" if "qs \<noteq> []" "rs \<noteq> []" using that lru_distinct [OF l] by (cases rs; cases qs rule: rev_cases) auto
  moreover have "qs \<noteq> []" "rs \<noteq> []" if "xs \<noteq> []" "ys \<noteq> []" using that len lru_distinct [OF l] by auto
  ultimately have "xs = [] \<or> ys \<noteq> [] \<and> Some (List.hd rs) \<noteq> Some (last qs)" using False by auto
  then obtain s1 n1 where s1: "s0 = free_lru m s1" "deleteSwapNode m 1 s = pushbackLRU m s1" "lnodes s1 m = Some n1" "q_node n1 = e"
    using deleteSwapNode_split [OF s0(1) u(1)] u(2,3) False by (cases "xs = []") auto
  have l1: "lru s1 (qs @ rs) (xs @ ys)" using s0(2) s1(1) lru_unfree by simp
  have "e \<notin> set (xs @ ys)" using l by (simp add: lru_def)
  then obtain s' where s': "pushbackLRU m s1 = Ret s'" "lru s' ((qs @ rs) @ [m]) ((xs @ ys) @ [e])" "same_but_lru s1 s'"
    using pushbackLRU_ok [OF l1 s1(3,4)] by blast
  then show ?thesis using s1 s0(3) by (auto simp: same_but_lru_def free_lru_def)
qed

end
