(* ===== verification/OS_Chain.thy ===== *)
theory OS_Chain
  imports OS_Prelude
begin

text \<open>
  Singly linked lists on a heap of nodes, as the buckets of the hash tables and the list of points
  have them. \<^verbatim>\<open>chain nx h p es\<close>: following the links \<^verbatim>\<open>nx\<close> from the pointer \<^verbatim>\<open>p\<close> visits
  the nodes \<^verbatim>\<open>es\<close> and ends in a null pointer.
\<close>

fun chain :: "('n \<Rightarrow> nat option) \<Rightarrow> (nat \<Rightarrow> 'n option) \<Rightarrow> nat option \<Rightarrow> nat list \<Rightarrow> bool" where
  "chain nx h p [] \<longleftrightarrow> p = None"
| "chain nx h p (e # es) \<longleftrightarrow> p = Some e \<and> (\<exists>w. h e = Some w \<and> chain nx h (nx w) es)"

lemma chain_cong:
  "(\<And>e. e \<in> set es \<Longrightarrow> map_option nx (h' e) = map_option nx (h e)) \<Longrightarrow> chain nx h p es \<Longrightarrow> chain nx h' p es"
  by (induction es arbitrary: p) (fastforce simp: map_option_case split: option.splits)+

lemma chain_elem: "chain nx h p es \<Longrightarrow> e \<in> set es \<Longrightarrow> \<exists>w. h e = Some w"
  by (induction es arbitrary: p) auto

lemma chain_None [simp]: "chain nx h None es \<longleftrightarrow> es = []"
  by (cases es) auto

lemma chain_Some: "chain nx h (Some e) es \<longleftrightarrow> (\<exists>w fs. es = e # fs \<and> h e = Some w \<and> chain nx h (nx w) fs)"
  by (cases es) auto

lemma chain_unique: "chain nx h p es \<Longrightarrow> chain nx h p fs \<Longrightarrow> es = fs"
proof (induction es arbitrary: p fs)
  case (Cons e es)
  then show ?case by (cases fs) auto
qed (cases fs, auto)

lemma chain_suffix: "chain nx h p (xs @ e # ys) \<Longrightarrow> chain nx h (Some e) (e # ys)"
  by (induction xs arbitrary: p) auto

lemma chain_distinct: "chain nx h p es \<Longrightarrow> distinct es"
proof (induction es arbitrary: p)
  case (Cons e es)
  have "e \<notin> set es"
  proof
    assume "e \<in> set es"
    then obtain xs ys where es: "es = xs @ e # ys" by (auto simp: in_set_conv_decomp)
    have "chain nx h (Some e) (e # ys)" using chain_suffix [of nx h p "e # xs" e ys] Cons.prems es by simp
    then have "e # es = e # ys" using Cons.prems by (auto intro: chain_unique)
    then show False using es by simp
  qed
  then show ?case using Cons by auto
qed simp

text \<open>Changing the link of the last node, of an inner node, and dropping the first one.\<close>

lemma chain_append:
  assumes "chain nx h p es" "es \<noteq> []" "e \<notin> set es" "h e = Some we" "nx we = None" "nx w = Some e"
  shows "chain nx (h(last es \<mapsto> w)) p (es @ [e])"
  using assms
proof (induction es arbitrary: p)
  case (Cons c es)
  then obtain cw where c: "p = Some c" "h c = Some cw" "chain nx h (nx cw) es" by auto
  show ?case
  proof (cases "es = []")
    case True
    then show ?thesis using Cons.prems c by auto
  next
    case False
    then have "chain nx (h(last es \<mapsto> w)) (nx cw) (es @ [e])" using Cons.prems c(3) by (intro Cons.IH) auto
    moreover have "last es \<noteq> c" using False chain_distinct [OF Cons.prems(1)] by auto
    ultimately show ?thesis using c False by (auto simp: fun_upd_def)
  qed
qed simp

lemma chain_relink:
  assumes "chain nx h p (xs @ b # es)" "nx w = q" "chain nx (h(b \<mapsto> w)) q ys"
  shows "chain nx (h(b \<mapsto> w)) p (xs @ b # ys)"
  using assms
proof (induction xs arbitrary: p)
  case (Cons x xs)
  have "x \<noteq> b" using chain_distinct [OF Cons.prems(1)] by auto
  then show ?case using Cons by auto
qed auto

lemma chain_remove:
  assumes "chain nx h p (xs @ b # e # ys)" "h e = Some ew" "nx w = nx ew"
  shows "chain nx (h(b \<mapsto> w, e := None)) p (xs @ b # ys)"
proof -
  have d: "distinct (xs @ b # e # ys)" by (rule chain_distinct [OF assms(1)])
  have "chain nx h (nx ew) ys" using chain_suffix [of nx h p "xs @ [b]" e ys] assms(1,2) by simp
  then have "chain nx (h(b \<mapsto> w)) (nx ew) ys" by (rule chain_cong [rotated]) (use d in auto)
  from chain_relink [OF assms(1,3) this] show ?thesis by (rule chain_cong [rotated]) (use d in auto)
qed

lemma chain_pop:
  assumes "chain nx h (Some e) (e # es)" "h e = Some w"
  shows "chain nx (h(e := None)) (nx w) es"
proof -
  have "chain nx h (nx w) es" using assms by auto
  then show ?thesis by (rule chain_cong [rotated]) (use chain_distinct [OF assms(1)] in auto)
qed

lemma bounded_length:
  fixes xs :: "nat list"
  assumes "distinct xs" "\<And>x. x \<in> set xs \<Longrightarrow> x < n"
  shows "length xs \<le> n"
  using assms card_mono [of "{..<n}" "set xs"] distinct_card [OF assms(1)] by auto

end
