(* ===== verification/Web_CacheInv.thy ===== *)
theory Web_CacheInv
  imports Web_Cache OS_Chain
begin

text \<open>
  The invariant of the cache of the web server and what its operations do under it: the chains of
  the hash table and the recency list hold the same entries, the accounted size is the sum of
  their sizes, and no operation follows a dangling pointer. The invariant includes that \<^verbatim>\<open>int\<close>
  arithmetic wraps around, without which \<^verbatim>\<open>hash\<close> is undefined for most names.
\<close>

section \<open>Chains\<close>

lemma chain_last_ok: "chain wnext (welems s) (Some c) es \<Longrightarrow> length es \<le> n \<Longrightarrow> chain_last n s c = Ret (last es)"
proof (induction n arbitrary: c es)
  case (Suc n)
  then obtain w fs where es: "es = c # fs" "welems s c = Some w" "chain wnext (welems s) (wnext w) fs" by (auto simp: chain_Some)
  then show ?case using Suc by (cases "wnext w") (auto simp: chain_Some)
qed (auto simp: chain_Some)

lemma chain_before_ok:
  "chain wnext (welems s) p (xs @ b # e # ys) \<Longrightarrow> distinct (xs @ b # e # ys) \<Longrightarrow> length xs < n \<Longrightarrow> chain_before n s e p = Ret (Some b)"
proof (induction n arbitrary: p xs)
  case (Suc n)
  show ?case
  proof (cases xs)
    case Nil
    then show ?thesis using Suc.prems(1) by auto
  next
    case (Cons x zs)
    then obtain w where w: "p = Some x" "welems s x = Some w" "chain wnext (welems s) (wnext w) (zs @ b # e # ys)" using Suc.prems(1) by auto
    have "wnext w \<noteq> Some e" using w(3) Suc.prems(2) Cons by (cases zs) auto
    then show ?thesis using w Suc.IH [OF w(3)] Suc.prems(2,3) Cons by simp
  qed
qed simp

section \<open>The invariant\<close>

definition wk :: "cache \<Rightarrow> nat \<Rightarrow> wordsElement" where
  "wk s e = the (welems s e)"

definition entry_ok :: "cache \<Rightarrow> nat \<Rightarrow> nat \<Rightarrow> bool" where
  "entry_ok s p e \<longleftrightarrow>
    (\<exists>w fd. welems s e = Some w \<and> fdatas s (wdata w) = Some fd \<and> word w = wdata w \<and> listLocation w = Some p \<and>
       0 \<le> hash_value (file_name fd) \<and> wkey w = hash_value (file_name fd) mod max_cache_size s \<and>
       sizeofword w = file_size fd \<and> 0 \<le> file_size fd \<and> wdata w < cbrk s) \<and> e < cbrk s \<and> p < cbrk s"

definition buckets_ok :: "cache \<Rightarrow> nat list \<Rightarrow> (nat \<Rightarrow> nat list) \<Rightarrow> bool" where
  "buckets_ok s es B \<longleftrightarrow>
    (\<forall>k < length (ht s). chain wnext (welems s) (ht s ! k) (B k) \<and> distinct (B k) \<and> set (B k) = {e \<in> set es. wkey (wk s e) = int k})"

definition cache_ok :: "cache \<Rightarrow> nat list \<Rightarrow> nat list \<Rightarrow> (nat \<Rightarrow> nat list) \<Rightarrow> bool" where
  "cache_ok s ps es B \<longleftrightarrow>
    int_wraps s \<and> lru s ps es \<and> list_all2 (entry_ok s) ps es \<and> buckets_ok s es B \<and>
    0 < max_cache_size s \<and> max_cache_size s < 2147483648 \<and> int (length (ht s)) = max_cache_size s \<and>
    currentSize s = (\<Sum>e\<leftarrow>es. sizeofword (wk s e)) \<and> currentSize s \<le> max_cache_size s"

text \<open>The fields of an entry that moving it between the chains and freeing others does not change.\<close>

definition strip :: "wordsElement \<Rightarrow> wordsElement" where
  "strip w = w\<lparr>wnext := None\<rparr>"

definition kept :: "nat set \<Rightarrow> cache \<Rightarrow> cache \<Rightarrow> bool" where
  "kept X s s' \<longleftrightarrow> (\<forall>e \<in> X. map_option strip (welems s' e) = map_option strip (welems s e))"

lemma strip_eqD:
  assumes "strip w' = strip w"
  shows "word w' = word w" "sizeofword w' = sizeofword w" "wkey w' = wkey w" "refCount w' = refCount w" "wdata w' = wdata w"
    "listLocation w' = listLocation w"
  using assms by (cases w; cases w'; simp add: strip_def)+

lemma keptD:
  assumes "kept X s s'" "e \<in> X" "welems s e = Some w"
  obtains w' where "welems s' e = Some w'" "strip w' = strip w"
proof -
  have "map_option strip (welems s' e) = Some (strip w)" using assms by (simp add: kept_def)
  then show thesis using that by auto
qed

lemma kept_wk:
  assumes "kept X s s'" "e \<in> X" "welems s e = Some w"
  shows "wkey (wk s' e) = wkey (wk s e)" "sizeofword (wk s' e) = sizeofword (wk s e)" "refCount (wk s' e) = refCount (wk s e)"
    "wdata (wk s' e) = wdata (wk s e)"
proof -
  obtain w' where "welems s' e = Some w'" "strip w' = strip w" by (rule keptD [OF assms])
  then show "wkey (wk s' e) = wkey (wk s e)" "sizeofword (wk s' e) = sizeofword (wk s e)" "refCount (wk s' e) = refCount (wk s e)"
    "wdata (wk s' e) = wdata (wk s e)"
    using strip_eqD [of w' w] assms(3) by (simp_all add: wk_def)
qed

lemma entry_ok_kept:
  assumes "entry_ok s p e" "kept X s s'" "e \<in> X" "max_cache_size s' = max_cache_size s" "cbrk s \<le> cbrk s'"
    and "fdatas s' (wdata (wk s e)) = fdatas s (wdata (wk s e))"
  shows "entry_ok s' p e"
proof -
  obtain w where w: "welems s e = Some w" using assms(1) by (auto simp: entry_ok_def)
  obtain w' where "welems s' e = Some w'" "strip w' = strip w" by (rule keptD [OF assms(2,3) w])
  then show ?thesis using assms(1,4-6) w strip_eqD [of w' w] by (auto simp: entry_ok_def wk_def)
qed

lemma cache_ok_entry:
  assumes "cache_ok s ps es B" "e \<in> set es"
  obtains p w fd where "p \<in> set ps" "entry_ok s p e" "welems s e = Some w" "wk s e = w" "fdatas s (wdata w) = Some fd" "word w = wdata w"
    "0 \<le> hash_value (file_name fd)" "wkey w = hash_value (file_name fd) mod max_cache_size s" "0 \<le> sizeofword w"
proof -
  have "list_all2 (entry_ok s) ps es" using assms(1) by (simp add: cache_ok_def)
  then obtain p where "p \<in> set ps" "entry_ok s p e"
    using assms(2) by (metis in_set_conv_nth list_all2_conv_all_nth)
  then show thesis using that by (auto simp: entry_ok_def wk_def)
qed

lemma cache_ok_bounds:
  assumes "cache_ok s ps es B"
  shows "\<And>e. e \<in> set es \<Longrightarrow> e < cbrk s" "\<And>p. p \<in> set ps \<Longrightarrow> p < cbrk s" "length es \<le> cbrk s"
proof -
  have l: "list_all2 (entry_ok s) ps es" using assms by (simp add: cache_ok_def)
  then show e: "\<And>e. e \<in> set es \<Longrightarrow> e < cbrk s" "\<And>p. p \<in> set ps \<Longrightarrow> p < cbrk s"
    by (metis (no_types, lifting) entry_ok_def in_set_conv_nth list_all2_conv_all_nth)+
  have "distinct es" using assms by (simp add: cache_ok_def lru_def)
  then show "length es \<le> cbrk s" using bounded_length e(1) by blast
qed

lemma cache_ok_key:
  assumes "cache_ok s ps es B" "0 \<le> h"
  shows "c_mod h (max_cache_size s) = h mod max_cache_size s" "nat (h mod max_cache_size s) < length (ht s)"
    "bucket s (h mod max_cache_size s) = Ret (ht s ! nat (h mod max_cache_size s))"
proof -
  have m: "0 < max_cache_size s" "int (length (ht s)) = max_cache_size s" using assms(1) by (simp_all add: cache_ok_def)
  then have "0 \<le> h mod max_cache_size s" "h mod max_cache_size s < max_cache_size s" by simp_all
  then show "c_mod h (max_cache_size s) = h mod max_cache_size s" "nat (h mod max_cache_size s) < length (ht s)"
    "bucket s (h mod max_cache_size s) = Ret (ht s ! nat (h mod max_cache_size s))"
    using assms(2) m by (simp_all add: bucket_def nat_less_iff)
qed

lemma bucketsD:
  assumes "buckets_ok s es B" "k < length (ht s)"
  shows "chain wnext (welems s) (ht s ! k) (B k)" "distinct (B k)" "set (B k) = {e \<in> set es. wkey (wk s e) = int k}"
  using assms by (auto simp: buckets_ok_def)

section \<open>Looking up\<close>

lemma lookup_loop_miss:
  assumes "bucket s k = Ret (Some b)" "welems s b = Some bw" "fdatas s (word bw) = Some bd" "key \<noteq> file_name bd"
  shows "chain wnext (welems s) p es \<Longrightarrow> length es < n \<Longrightarrow> lookup_loop n s key k p = Ret None"
proof (induction n arbitrary: p es)
  case (Suc n)
  then show ?case using assms by (cases es) auto
qed simp

definition bucket_of :: "cache \<Rightarrow> (nat \<Rightarrow> nat list) \<Rightarrow> byte list \<Rightarrow> nat list" where
  "bucket_of s B name = B (nat (hash_value name mod max_cache_size s))"

definition name_of :: "cache \<Rightarrow> nat \<Rightarrow> byte list" where
  "name_of s e = file_name (the (fdatas s (wdata (wk s e))))"

lemma cache_lookup_ok:
  assumes ok: "cache_ok s ps es B" and d: "fdatas s d = Some fd" and h: "0 \<le> hash_value (file_name fd)"
  shows "cache_lookup d s = Ret (case bucket_of s B (file_name fd) of [] \<Rightarrow> None
    | e # _ \<Rightarrow> if name_of s e = file_name fd then Some e else None)"
proof -
  let ?k = "nat (hash_value (file_name fd) mod max_cache_size s)"
  have iw: "int_wraps s" using ok by (simp add: cache_ok_def)
  note k = cache_ok_key [OF ok h] iw
  have b: "buckets_ok s es B" using ok by (simp add: cache_ok_def)
  note c = bucketsD [OF b k(2)]
  show ?thesis
  proof (cases "B ?k")
    case Nil
    then show ?thesis using c(1) k d by (simp add: cache_lookup_def bucket_of_def walk_fuel_def Let_def)
  next
    case (Cons e es')
    then have "e \<in> set es" using c(3) by auto
    then obtain w ed where e: "welems s e = Some w" "wk s e = w" "fdatas s (wdata w) = Some ed" "word w = wdata w"
      by (rule cache_ok_entry [OF ok])
    have he: "ht s ! ?k = Some e" using c(1) Cons by auto
    have "\<And>x. x \<in> set (B ?k) \<Longrightarrow> x < cbrk s" using c(3) cache_ok_bounds(1) [OF ok] by auto
    then have len: "length (B ?k) < walk_fuel s" using bounded_length [OF c(2), of "cbrk s"] by (simp add: walk_fuel_def)
    have n: "name_of s e = file_name ed" using e by (simp add: name_of_def)
    show ?thesis
    proof (cases "file_name ed = file_name fd")
      case True
      then show ?thesis using Cons n k d e he by (simp add: cache_lookup_def bucket_of_def walk_fuel_def Let_def)
    next
      case False
      have "lookup_loop (walk_fuel s) s (file_name fd) (hash_value (file_name fd) mod max_cache_size s) (ht s ! ?k) = Ret None"
        by (rule lookup_loop_miss [OF _ e(1) _ _ c(1) len]) (use k he e False in auto)
      then show ?thesis using Cons n k d False by (simp add: cache_lookup_def bucket_of_def Let_def)
    qed
  qed
qed

lemma bucket_of_subset:
  assumes "cache_ok s ps es B" "0 \<le> hash_value name"
  shows "set (bucket_of s B name) = {e \<in> set es. wkey (wk s e) = hash_value name mod max_cache_size s}"
proof -
  have b: "buckets_ok s es B" and "0 < max_cache_size s" using assms(1) by (simp_all add: cache_ok_def)
  then show ?thesis using bucketsD(3) [OF b cache_ok_key(2) [OF assms]] by (simp add: bucket_of_def)
qed

section \<open>Use counts\<close>

definition set_ref :: "nat \<Rightarrow> int \<Rightarrow> cache \<Rightarrow> cache" where
  "set_ref e r s = s\<lparr>welems := (welems s)(e \<mapsto> (wk s e)\<lparr>refCount := r\<rparr>)\<rparr>"

lemma set_ref_simps [simp]:
  "lnodes (set_ref e r s) = lnodes s" "lq_head (set_ref e r s) = lq_head s" "lq_tail (set_ref e r s) = lq_tail s"
  "fdatas (set_ref e r s) = fdatas s" "ht (set_ref e r s) = ht s" "max_cache_size (set_ref e r s) = max_cache_size s"
  "currentSize (set_ref e r s) = currentSize s" "cbrk (set_ref e r s) = cbrk s" "cmem (set_ref e r s) = cmem s" "int_wraps (set_ref e r s) = int_wraps s"
  "wk (set_ref e r s) = (wk s)(e := (wk s e)\<lparr>refCount := r\<rparr>)"
  by (auto simp: set_ref_def wk_def)

lemma cache_ok_set_ref:
  assumes ok: "cache_ok s ps es B" and e: "e \<in> set es"
  shows "cache_ok (set_ref e r s) ps es B"
proof -
  obtain w where w: "welems s e = Some w" "wk s e = w" by (rule cache_ok_entry [OF ok e])
  have "entry_ok (set_ref e r s) p f = entry_ok s p f" for p f
    using w by (auto simp: entry_ok_def set_ref_def)
  then have "entry_ok (set_ref e r s) = entry_ok s" by blast
  moreover have "chain wnext (welems (set_ref e r s)) p xs" if "chain wnext (welems s) p xs" for p xs
    by (rule chain_cong [OF _ that]) (use w in \<open>auto simp: set_ref_def\<close>)
  moreover have "(\<Sum>f\<leftarrow>es. sizeofword (wk (set_ref e r s) f)) = (\<Sum>f\<leftarrow>es. sizeofword (wk s f))"
    by (rule arg_cong [of _ _ sum_list]) auto
  moreover have "{f \<in> set es. wkey (wk (set_ref e r s) f) = k} = {f \<in> set es. wkey (wk s f) = k}" for k by auto
  ultimately show ?thesis using ok unfolding cache_ok_def buckets_ok_def lru_def by simp
qed

lemma cache_ok_touch:
  assumes ok: "cache_ok s ps es B" and e: "e \<in> set es"
  shows "\<exists>l s' ps' es'. listLocation (wk s e) = Some l \<and> deleteSwapNode l 1 s = Ret s' \<and> cache_ok s' ps' es' B \<and>
    (\<exists>xs ys. es = xs @ e # ys \<and> es' = xs @ ys @ [e]) \<and> same_but_lru s s'"
proof -
  have l: "lru s ps es" using ok by (simp add: cache_ok_def)
  obtain qs m rs xs ys where d: "ps = qs @ m # rs" "es = xs @ e # ys" "length qs = length xs" by (rule lru_pos [OF l e])
  obtain s' where s': "deleteSwapNode m 1 s = Ret s'" "lru s' (qs @ rs @ [m]) (xs @ ys @ [e])" "same_but_lru s s'"
    using deleteSwapNode_touch [of s qs m rs xs e ys] l d by auto
  have f: "list_all2 (entry_ok s) (qs @ m # rs) (xs @ e # ys)" using ok d by (simp add: cache_ok_def)
  then have "list_all2 (entry_ok s) (qs @ rs @ [m]) (xs @ ys @ [e])" and m: "entry_ok s m e" using d(3) by (simp_all add: list_all2_append list_all2_appendI)
  moreover have "entry_ok s' = entry_ok s" using s'(3) by (auto simp: entry_ok_def same_but_lru_def fun_eq_iff)
  moreover have "wk s' = wk s" using s'(3) by (auto simp: wk_def same_but_lru_def fun_eq_iff)
  moreover have "listLocation (wk s e) = Some m" using m by (auto simp: entry_ok_def wk_def)
  ultimately show ?thesis
    using ok s' d by (intro exI [of _ m] exI [of _ s'] exI [of _ "qs @ rs @ [m]"] exI [of _ "xs @ ys @ [e]"])
      (auto simp: cache_ok_def buckets_ok_def same_but_lru_def)
qed

lemma use_entry_ok:
  assumes ok: "cache_ok s ps es B" and e: "e \<in> set es" and r: "0 \<le> refCount (wk s e)" "refCount (wk s e) < 2147483647"
  shows "\<exists>s' ps' es'. use_entry e s = Ret s' \<and> cache_ok s' ps' es' B \<and> (\<exists>xs ys. es = xs @ e # ys \<and> es' = xs @ ys @ [e]) \<and>
    same_but_lru (set_ref e (refCount (wk s e) + 1) s) s'"
proof -
  let ?s = "set_ref e (refCount (wk s e) + 1) s"
  obtain w where w: "welems s e = Some w" "wk s e = w" by (rule cache_ok_entry [OF ok e])
  have "cache_ok ?s ps es B" by (rule cache_ok_set_ref [OF ok e])
  from cache_ok_touch [OF this e] obtain l s' ps' es' where t: "listLocation (wk ?s e) = Some l" "deleteSwapNode l 1 ?s = Ret s'"
    "cache_ok s' ps' es' B" "\<exists>xs ys. es = xs @ e # ys \<and> es' = xs @ ys @ [e]" "same_but_lru ?s s'" by blast
  have "upd_elem e (\<lambda>w. w\<lparr>refCount := to_s32 (refCount w + 1)\<rparr>) s = Ret ?s"
    using w r by (simp add: upd_elem_def set_ref_def)
  moreover have "welems ?s e = Some (wk ?s e)" by (simp add: set_ref_def wk_def)
  ultimately have "use_entry e s = Ret s'" using t(1,2) unfolding use_entry_def by simp
  then show ?thesis using t by blast
qed

lemma section_release_ok:
  assumes ok: "cache_ok s ps es B" and e: "e \<in> set es" and r: "0 < refCount (wk s e)" "refCount (wk s e) < 2147483648"
  shows "section_release e s = Ret (set_ref e (refCount (wk s e) - 1) s)" "cache_ok (set_ref e (refCount (wk s e) - 1) s) ps es B"
proof -
  obtain w where "welems s e = Some w" "wk s e = w" by (rule cache_ok_entry [OF ok e])
  then show "section_release e s = Ret (set_ref e (refCount (wk s e) - 1) s)"
    using r by (simp add: section_release_def upd_elem_def set_ref_def)
  show "cache_ok (set_ref e (refCount (wk s e) - 1) s) ps es B" by (rule cache_ok_set_ref [OF ok e])
qed

section \<open>Insertion into and deletion from the hash table\<close>

definition same_but_table :: "cache \<Rightarrow> cache \<Rightarrow> bool" where
  "same_but_table s s' \<longleftrightarrow> lnodes s' = lnodes s \<and> lq_head s' = lq_head s \<and> lq_tail s' = lq_tail s \<and> fdatas s' = fdatas s \<and>
    max_cache_size s' = max_cache_size s \<and> currentSize s' = currentSize s \<and> cbrk s' = cbrk s \<and> cmem s' = cmem s \<and> int_wraps s' = int_wraps s \<and>
    length (ht s') = length (ht s)"

lemma buckets_okI:
  assumes b: "buckets_ok s es B" and k: "k < length (ht s)"
    and len: "length (ht s') = length (ht s)" and other: "\<And>j. j \<noteq> k \<Longrightarrow> ht s' ! j = ht s ! j"
    and link: "\<And>e. e \<in> set es \<Longrightarrow> wkey (wk s e) \<noteq> int k \<Longrightarrow> welems s' e = welems s e"
    and own: "chain wnext (welems s') (ht s' ! k) ks" "distinct ks" "set ks = {e \<in> set es'. wkey (wk s' e) = int k}"
    and rest: "\<And>j. j \<noteq> k \<Longrightarrow> {e \<in> set es'. wkey (wk s' e) = int j} = {e \<in> set es. wkey (wk s e) = int j}"
  shows "buckets_ok s' es' (B(k := ks))"
  unfolding buckets_ok_def
proof (intro allI impI)
  fix j assume j: "j < length (ht s')"
  show "chain wnext (welems s') (ht s' ! j) ((B(k := ks)) j) \<and> distinct ((B(k := ks)) j) \<and>
      set ((B(k := ks)) j) = {e \<in> set es'. wkey (wk s' e) = int j}"
  proof (cases "j = k")
    case True
    then show ?thesis using own by simp
  next
    case False
    note c = bucketsD [OF b, of j]
    have "chain wnext (welems s') (ht s ! j) (B j)"
      by (rule chain_cong [of _ _ _ "welems s"]) (use c j len False link in auto)
    then show ?thesis using False other rest c j len by simp
  qed
qed

lemma chain_insert_ok:
  assumes b: "buckets_ok s es B" and k: "k < length (ht s)" and e: "e \<notin> set es" "welems s e = Some w" "wnext w = None" "wkey w = int k"
    and bound: "\<And>x. x \<in> set es \<Longrightarrow> x < cbrk s"
  shows "\<exists>s'. chain_insert e (int k) s = Ret s' \<and> buckets_ok s' (es @ [e]) (B(k := B k @ [e])) \<and> kept (insert e (set es)) s s' \<and>
    same_but_table s s'"
proof -
  note c = bucketsD [OF b k]
  have new: "{x \<in> set (es @ [e]). wkey (wk s x) = int j} = (if j = k then insert e {x \<in> set es. wkey (wk s x) = int k}
      else {x \<in> set es. wkey (wk s x) = int j})" for j
    using e by (auto simp: wk_def)
  show ?thesis
  proof (cases "B k = []")
    case True
    let ?s = "s\<lparr>ht := (ht s)[k := Some e]\<rparr>"
    have [simp]: "wk ?s = wk s" by (auto simp: wk_def)
    have "buckets_ok ?s (es @ [e]) (B(k := B k @ [e]))"
      by (rule buckets_okI [OF b k]) (use True e k c new [of k] new in auto)
    moreover have "chain_insert e (int k) s = Ret ?s" using True c(1) k by (simp add: chain_insert_def bucket_def)
    ultimately show ?thesis by (intro exI [of _ ?s]) (simp add: kept_def same_but_table_def)
  next
    case False
    let ?l = "last (B k)"
    have l: "?l \<in> set (B k)" using False by simp
    then obtain lw where lw: "welems s ?l = Some lw" using chain_elem [OF c(1)] by blast
    let ?s = "s\<lparr>welems := (welems s)(?l \<mapsto> lw\<lparr>wnext := Some e\<rparr>)\<rparr>"
    have le: "?l \<noteq> e" "e \<notin> set (B k)" using l c(3) e(1) by auto
    have key: "wkey (wk ?s x) = wkey (wk s x)" for x using lw by (auto simp: wk_def)
    have ch: "chain wnext (welems ?s) (ht s ! k) (B k @ [e])" using chain_append [OF c(1) False le(2) e(2,3), of "lw\<lparr>wnext := Some e\<rparr>"] by simp
    have "wkey (wk s ?l) = int k" using l c(3) by auto
    then have "buckets_ok ?s (es @ [e]) (B(k := B k @ [e]))"
      by (intro buckets_okI [OF b k]) (use c le ch new [of k] new key in auto)
    moreover have "length (B k) \<le> cbrk s" by (rule bounded_length [OF c(2)]) (use c(3) bound in auto)
    then have "chain_insert e (int k) s = Ret ?s"
      using False c(1) k lw chain_last_ok [of s _ "B k" "walk_fuel s"]
      by (cases "B k") (auto simp: chain_insert_def bucket_def upd_elem_def walk_fuel_def)
    moreover have "kept X s ?s" for X using lw by (auto simp: kept_def strip_def)
    ultimately show ?thesis by (intro exI [of _ ?s]) (simp add: same_but_table_def)
  qed
qed

lemma group_remove: "(\<And>x. x \<noteq> e \<Longrightarrow> g x = f x) \<Longrightarrow> f e \<noteq> j \<Longrightarrow> {x \<in> A - {e}. g x = j} = {x \<in> A. f x = j}"
  by (rule Collect_cong) (metis DiffE DiffI singletonD singletonI)

lemma deleteHash_ok:
  assumes b: "buckets_ok s es B" and d: "distinct es" and e: "e \<in> set es" "welems s e = Some w" "wkey w = int k" and k: "k < length (ht s)"
    and bound: "\<And>x. x \<in> set es \<Longrightarrow> x < cbrk s"
  shows "\<exists>s'. deleteHash e s = Ret s' \<and> buckets_ok s' (remove1 e es) (B(k := remove1 e (B k))) \<and> kept (set es - {e}) s s' \<and>
    same_but_table s s'"
proof -
  note c = bucketsD [OF b k]
  have "e \<in> set (B k)" using c(3) e by (simp add: wk_def)
  then obtain xs ys where B: "B k = xs @ e # ys" by (auto simp: in_set_conv_decomp)
  have rem: "remove1 e (B k) = xs @ ys" using c(2) B by (simp add: remove1_append)
  have se: "set (remove1 e es) = set es - {e}" using d by simp
  have sB: "set (xs @ ys) = {x \<in> set es. wkey (wk s x) = int k} - {e}" using c(2,3) B by auto
  have dist: "distinct (xs @ ys)" using c(2) B by auto
  have ke: "wkey (wk s e) = int k" using e by (simp add: wk_def)
  show ?thesis
  proof (cases xs rule: rev_cases)
    case Nil
    let ?s = "s\<lparr>ht := (ht s)[k := wnext w], welems := (welems s)(e := None)\<rparr>"
    have key: "x \<noteq> e \<Longrightarrow> wkey (wk ?s x) = wkey (wk s x)" for x by (simp add: wk_def)
    have hd: "ht s ! k = Some e" using c(1) B Nil by simp
    have ch: "chain wnext ((welems s)(e := None)) (wnext w) ys"
      by (rule chain_pop [of wnext "welems s" e ys w]) (use c B Nil hd e(2) in auto)
    have "buckets_ok ?s (remove1 e es) (B(k := remove1 e (B k)))"
      unfolding rem
    proof (rule buckets_okI [OF b k])
      show "set (xs @ ys) = {x \<in> set (remove1 e es). wkey (wk ?s x) = int k}" unfolding se sB using key by auto
      show "{x \<in> set (remove1 e es). wkey (wk ?s x) = int j} = {x \<in> set es. wkey (wk s x) = int j}" if "j \<noteq> k" for j
        unfolding se by (rule group_remove) (use key ke that in auto)
    qed (use Nil ch k ke dist in auto)
    moreover have "deleteHash e s = Ret ?s" using e hd k by (simp add: deleteHash_def bucket_def)
    moreover have "kept (set es - {e}) s ?s" by (simp add: kept_def)
    ultimately show ?thesis by (intro exI [of _ ?s]) (simp add: same_but_table_def)
  next
    case (snoc zs p)
    then have B': "B k = zs @ p # e # ys" using B by simp
    obtain pw where pw: "welems s p = Some pw" using chain_elem [OF c(1), of p] B' by auto
    let ?s = "s\<lparr>welems := (welems s)(p \<mapsto> pw\<lparr>wnext := wnext w\<rparr>, e := None)\<rparr>"
    have pe: "p \<noteq> e" "p \<in> set (B k)" using c(2) B' by auto
    then have kp: "wkey (wk s p) = int k" using c(3) by auto
    have key: "x \<noteq> e \<Longrightarrow> wkey (wk ?s x) = wkey (wk s x)" for x using pw by (auto simp: wk_def)
    have ch: "chain wnext (welems ?s) (ht s ! k) (zs @ p # ys)"
      using chain_remove [of wnext "welems s" "ht s ! k" zs p e ys w "pw\<lparr>wnext := wnext w\<rparr>"] c(1) B' e(2) by simp
    have hd: "ht s ! k \<noteq> Some e" using c(1,2) B' by (cases zs) auto
    have "buckets_ok ?s (remove1 e es) (B(k := remove1 e (B k)))"
      unfolding rem
    proof (rule buckets_okI [OF b k])
      show "set (xs @ ys) = {x \<in> set (remove1 e es). wkey (wk ?s x) = int k}" unfolding se sB using key by auto
      show "{x \<in> set (remove1 e es). wkey (wk ?s x) = int j} = {x \<in> set es. wkey (wk s x) = int j}" if "j \<noteq> k" for j
        unfolding se by (rule group_remove) (use key ke that in auto)
    qed (use snoc ch ke kp dist in auto)
    moreover have "length (B k) \<le> cbrk s" by (rule bounded_length [OF c(2)]) (use c(3) bound in auto)
    then have "chain_before (walk_fuel s) s e (ht s ! k) = Ret (Some p)"
      using chain_before_ok [of s "ht s ! k" zs p e ys "walk_fuel s"] c(1,2) B' by (simp add: walk_fuel_def)
    then have "deleteHash e s = Ret ?s" using e hd k pw by (simp add: deleteHash_def bucket_def upd_elem_def)
    moreover have "kept (set es - {e}) s ?s" using pw by (auto simp: kept_def strip_def)
    ultimately show ?thesis by (intro exI [of _ ?s]) (simp add: same_but_table_def)
  qed
qed

section \<open>Inserting a file\<close>

lemma buckets_ok_cong:
  assumes "buckets_ok s es B" "ht s' = ht s"
    and "\<And>e. e \<in> set es \<Longrightarrow> map_option wnext (welems s' e) = map_option wnext (welems s e) \<and> wkey (wk s' e) = wkey (wk s e)"
  shows "buckets_ok s' es B"
  unfolding buckets_ok_def
proof (intro allI impI)
  fix k assume "k < length (ht s')"
  with assms(1,2) have c: "chain wnext (welems s) (ht s ! k) (B k)" "distinct (B k)" "set (B k) = {e \<in> set es. wkey (wk s e) = int k}"
    using bucketsD by simp_all
  have "chain wnext (welems s') (ht s ! k) (B k)" by (rule chain_cong [OF _ c(1)]) (use c(3) assms(3) in auto)
  then show "chain wnext (welems s') (ht s' ! k) (B k) \<and> distinct (B k) \<and> set (B k) = {e \<in> set es. wkey (wk s' e) = int k}"
    using c assms(2,3) by auto
qed

lemma cache_ok_extend:
  assumes ok: "cache_ok s ps es B" and l: "lru s' (ps @ [p]) (es @ [e])" and b: "buckets_ok s' (es @ [e]) B'" and k: "kept (set es) s s'"
    and n: "entry_ok s' p e" and c: "currentSize s' = currentSize s + sizeofword (wk s' e)" "currentSize s' \<le> max_cache_size s'"
    and f: "fdatas s' = fdatas s" "max_cache_size s' = max_cache_size s" "cbrk s \<le> cbrk s'" "length (ht s') = length (ht s)" "int_wraps s' = int_wraps s"
  shows "cache_ok s' (ps @ [p]) (es @ [e]) B'"
proof -
  have le: "list_all2 (entry_ok s) ps es" using ok by (simp add: cache_ok_def)
  have "list_all2 (entry_ok s') ps es"
    by (rule list.rel_mono_strong [OF le]) (use k f in \<open>auto intro: entry_ok_kept\<close>)
  moreover have "sizeofword (wk s' x) = sizeofword (wk s x)" if x: "x \<in> set es" for x
  proof -
    obtain w where "welems s x = Some w" by (rule cache_ok_entry [OF ok x])
    then show ?thesis by (rule kept_wk(2) [OF k x])
  qed
  then have "(\<Sum>x\<leftarrow>es. sizeofword (wk s' x)) = currentSize s"
    using ok by (auto simp: cache_ok_def intro!: arg_cong [of _ _ sum_list])
  moreover have "length ps = length es" using le by (rule list_all2_lengthD)
  ultimately show ?thesis using ok l b n c f by (simp add: cache_ok_def list_all2_append)
qed

lemma cache_insert_ok:
  assumes ok: "cache_ok s ps es B" and d: "fdatas s d = Some fd" "d < cbrk s" and h: "0 \<le> hash_value (file_name fd)"
    and sz: "0 \<le> file_size fd" "currentSize s + file_size fd \<le> max_cache_size s" and mem: "\<And>n. cmem s n"
    and e: "e = cbrk s"
  shows "\<exists>s' l. cache_insert d (s\<lparr>currentSize := currentSize s + file_size fd\<rparr>) = Ret (e, s') \<and>
    cache_ok s' (ps @ [l]) (es @ [e]) (B(nat (hash_value (file_name fd) mod max_cache_size s) := bucket_of s B (file_name fd) @ [e])) \<and>
    kept (set es) s s' \<and> refCount (wk s' e) = 0 \<and> wdata (wk s' e) = d \<and> fdatas s' = fdatas s \<and> max_cache_size s' = max_cache_size s \<and>
    cmem s' = cmem s \<and> int_wraps s' = int_wraps s \<and> cbrk s' = cbrk s + 2"
proof -
  define k where "k = nat (hash_value (file_name fd) mod max_cache_size s)"
  note key = cache_ok_key [OF ok h]
  have m: "0 < max_cache_size s" and iw: "int_wraps s" and b: "buckets_ok s es B" and l: "lru s ps es" using ok by (simp_all add: cache_ok_def)
  then have ik: "hash_value (file_name fd) mod max_cache_size s = int k" by (simp add: k_def)
  define w1 where "w1 = \<lparr>word = d, sizeofword = file_size fd, wkey = int k, refCount = 0, wdata = d, wnext = None, listLocation = None\<rparr>"
  define s2 where "s2 = s\<lparr>currentSize := currentSize s + file_size fd, cbrk := Suc (cbrk s), welems := (welems s)(e \<mapsto> w1)\<rparr>"
  have ne: "e \<notin> set es" "Suc e \<notin> set ps" using cache_ok_bounds [OF ok] e by (auto, fastforce)
  have "buckets_ok s2 es B" by (rule buckets_ok_cong [OF b]) (use ne in \<open>auto simp: s2_def wk_def\<close>)
  from chain_insert_ok [OF this, of k e w1] obtain s3 where s3: "chain_insert e (int k) s2 = Ret s3"
    "buckets_ok s3 (es @ [e]) (B(k := B k @ [e]))" "kept (insert e (set es)) s2 s3" "same_but_table s2 s3"
    using ne key(2) cache_ok_bounds(1) [OF ok] by (fastforce simp: s2_def w1_def k_def)
  note t = s3(4) [unfolded same_but_table_def]
  obtain w3 where w3: "welems s3 e = Some w3" "strip w3 = strip w1"
    by (rule keptD [OF s3(3), of e w1]) (simp_all add: s2_def)
  let ?nd = "\<lparr>q_node = e, q_prv = None, q_next = None\<rparr> :: LRUNode"
  define s5 where "s5 = s3\<lparr>cbrk := Suc (cbrk s3), lnodes := (lnodes s3)(Suc e \<mapsto> ?nd), welems := (welems s3)(e \<mapsto> w3\<lparr>listLocation := Some (Suc e)\<rparr>)\<rparr>"
  have b5: "buckets_ok s5 (es @ [e]) (B(k := B k @ [e]))"
    by (rule buckets_ok_cong [OF s3(2)]) (use w3 in \<open>auto simp: s5_def wk_def\<close>)
  have "seg (lnodes s5) None (lq_head s) ps es (lq_tail s) None"
    by (rule seg_frame [of "lnodes s"]) (use l t ne in \<open>auto simp: lru_def s5_def s2_def\<close>)
  then have l5: "lru s5 ps es" using l t by (simp add: lru_def s5_def s2_def)
  obtain s6 where s6: "pushbackLRU (Suc e) s5 = Ret s6" "lru s6 (ps @ [Suc e]) (es @ [e])" "same_but_lru s5 s6"
    using pushbackLRU_ok [OF l5, of "Suc e" ?nd e] ne by (auto simp: s5_def)
  note u = s6(3) [unfolded same_but_lru_def]
  have cb: "cbrk s3 = Suc e" "cmem s3 = cmem s" "int_wraps s3 = int_wraps s" using t e by (simp_all add: s2_def)
  have "upd_elem e (\<lambda>w. w\<lparr>listLocation := Some (Suc e)\<rparr>) (s3\<lparr>cbrk := Suc (cbrk s3), lnodes := (lnodes s3)(Suc e \<mapsto> ?nd)\<rparr>) = Ret s5"
    using w3 by (simp add: upd_elem_def s5_def)
  moreover have "buildNodeLRU e s3 = Ret (Suc e, s3\<lparr>cbrk := Suc (cbrk s3), lnodes := (lnodes s3)(Suc e \<mapsto> ?nd)\<rparr>)"
    using cb mem by (simp add: buildNodeLRU_def c_malloc_def)
  moreover have "initNodewE d d (file_size fd) (s\<lparr>currentSize := currentSize s + file_size fd\<rparr>) = Ret (e, s2\<lparr>welems := (welems s)(e \<mapsto> w1\<lparr>wkey := 0\<rparr>)\<rparr>)"
    using e mem by (simp add: initNodewE_def c_malloc_def s2_def w1_def)
  moreover have "upd_elem e (\<lambda>w. w\<lparr>wkey := int k\<rparr>) (s2\<lparr>welems := (welems s)(e \<mapsto> w1\<lparr>wkey := 0\<rparr>)\<rparr>) = Ret s2"
    by (simp add: upd_elem_def s2_def w1_def)
  ultimately have run: "cache_insert d (s\<lparr>currentSize := currentSize s + file_size fd\<rparr>) = Ret (e, s6)"
    using d s3(1) s6(1) key(1) ik iw by (simp add: cache_insert_def Let_def s2_def)
  have w6: "wk s6 e = w3\<lparr>listLocation := Some (Suc e)\<rparr>" using u by (simp add: wk_def s5_def)
  have kp: "kept (set es) s s6"
    using s3(3) u ne(1) by (auto simp: kept_def s5_def s2_def)
  have en: "entry_ok s6 (Suc e) e"
    using u t d e h sz(1) ik strip_eqD [OF w3(2)] by (simp add: entry_ok_def s5_def s2_def w1_def)
  have b6: "buckets_ok s6 (es @ [e]) (B(k := B k @ [e]))" by (rule buckets_ok_cong [OF b5]) (use u in \<open>auto simp: wk_def\<close>)
  have "cache_ok s6 (ps @ [Suc e]) (es @ [e]) (B(k := B k @ [e]))"
    by (rule cache_ok_extend [OF ok s6(2) b6 kp en])
      (use u t sz strip_eqD [OF w3(2)] w6 in \<open>auto simp: s5_def s2_def w1_def\<close>)
  then show ?thesis
    using run kp u t e strip_eqD [OF w3(2)] w6 by (intro exI [of _ s6] exI [of _ "Suc e"]) (simp add: k_def bucket_of_def s5_def s2_def w1_def)
qed

section \<open>Eviction\<close>

lemma evict_scan_none:
  "seg (lnodes s) pv p ps es lst None \<Longrightarrow> (\<And>e. e \<in> set es \<Longrightarrow> \<exists>w. welems s e = Some w \<and> refCount w \<noteq> 0) \<Longrightarrow> length es < n \<Longrightarrow>
     evict_scan n s p = Ret None"
proof (induction n arbitrary: pv p ps es)
  case (Suc n)
  show ?case
  proof (cases es)
    case (Cons e fs)
    then obtain q qs r where q: "p = Some q" "lnodes s q = Some \<lparr>q_node = e, q_prv = pv, q_next = r\<rparr>" "seg (lnodes s) (Some q) r qs fs lst None"
      using Suc.prems(1) by (auto simp: seg_Cons)
    obtain w where "welems s e = Some w" "refCount w \<noteq> 0" using Suc.prems(2) [of e] Cons by auto
    moreover have "evict_scan n s r = Ret None" by (rule Suc.IH [OF q(3)]) (use Suc.prems(2,3) Cons in auto)
    ultimately show ?thesis using q by simp
  qed (use Suc.prems in simp)
qed simp

lemma evict_scan_some:
  assumes "seg (lnodes s) pv p (qs @ m # rs) (xs @ e # ys) lst None" "length qs = length xs"
    and "\<And>x. x \<in> set xs \<Longrightarrow> \<exists>w. welems s x = Some w \<and> refCount w \<noteq> 0" "welems s e = Some w" "refCount w = 0" "length xs < n"
  shows "evict_scan n s p = Ret (Some m)"
  using assms
proof (induction n arbitrary: pv p qs xs)
  case (Suc n)
  show ?case
  proof (cases xs)
    case Nil
    then show ?thesis using Suc.prems by auto
  next
    case (Cons x zs)
    then obtain q qs' r where q: "qs = q # qs'" "p = Some q" "lnodes s q = Some \<lparr>q_node = x, q_prv = pv, q_next = r\<rparr>"
      "seg (lnodes s) (Some q) r (qs' @ m # rs) (zs @ e # ys) lst None"
      using Suc.prems(1,2) by (cases qs) auto
    obtain xw where "welems s x = Some xw" "refCount xw \<noteq> 0" using Suc.prems(3) [of x] Cons by auto
    moreover have "evict_scan n s r = Ret (Some m)" by (rule Suc.IH [OF q(4)]) (use Suc.prems q(1) Cons in auto)
    ultimately show ?thesis using q by simp
  qed
qed simp

text \<open>The entry to evict: the least recently used one that is not in use.\<close>

definition victim :: "cache \<Rightarrow> nat list \<Rightarrow> nat option" where
  "victim s es = List.find (\<lambda>e. refCount (wk s e) = 0) es"

lemma victim_Some:
  assumes "victim s es = Some e"
  obtains xs ys where "es = xs @ e # ys" "refCount (wk s e) = 0" "\<And>x. x \<in> set xs \<Longrightarrow> refCount (wk s x) \<noteq> 0"
proof -
  obtain i where i: "i < length es" "refCount (wk s (es ! i)) = 0" "e = es ! i" "\<forall>j<i. refCount (wk s (es ! j)) \<noteq> 0"
    using assms by (auto simp: victim_def find_Some_iff)
  show thesis
  proof (rule that [of "take i es" "drop (Suc i) es"])
    show "es = take i es @ e # drop (Suc i) es" using i by (simp add: id_take_nth_drop)
    show "x \<in> set (take i es) \<Longrightarrow> refCount (wk s x) \<noteq> 0" for x using i by (auto simp: in_set_conv_nth)
  qed (use i in simp)
qed

lemma sizes_nonneg:
  assumes "cache_ok s ps es B" "set xs \<subseteq> set es"
  shows "0 \<le> (\<Sum>x\<leftarrow>xs. sizeofword (wk s x))"
proof -
  have "0 \<le> sizeofword (wk s x)" if x: "x \<in> set xs" for x
    using assms x by (auto intro: cache_ok_entry [OF assms(1), of x])
  then show ?thesis by (intro sum_list_nonneg) auto
qed

lemma evict_find:
  assumes ok: "cache_ok s ps es B"
  shows "victim s es = None \<Longrightarrow> evict_scan (walk_fuel s) s (lq_head s) = Ret None"
    "es = xs @ e # ys \<Longrightarrow> ps = qs @ m # rs \<Longrightarrow> length qs = length xs \<Longrightarrow> refCount (wk s e) = 0 \<Longrightarrow>
       (\<And>x. x \<in> set xs \<Longrightarrow> refCount (wk s x) \<noteq> 0) \<Longrightarrow> evict_scan (walk_fuel s) s (lq_head s) = Ret (Some m)"
proof -
  have l: "seg (lnodes s) None (lq_head s) ps es (lq_tail s) None" using ok by (simp add: cache_ok_def lru_def)
  have w: "\<exists>w. welems s x = Some w \<and> wk s x = w" if x: "x \<in> set es" for x by (rule cache_ok_entry [OF ok x]) blast
  have len: "length es < walk_fuel s" using cache_ok_bounds(3) [OF ok] by (simp add: walk_fuel_def)
  show "evict_scan (walk_fuel s) s (lq_head s) = Ret None" if "victim s es = None"
    by (rule evict_scan_none [OF l _ len]) (use that w in \<open>fastforce simp: victim_def find_None_iff\<close>)
  show "evict_scan (walk_fuel s) s (lq_head s) = Ret (Some m)" if "es = xs @ e # ys" "ps = qs @ m # rs" "length qs = length xs"
    "refCount (wk s e) = 0" "\<And>x. x \<in> set xs \<Longrightarrow> refCount (wk s x) \<noteq> 0"
  proof (rule evict_scan_some [of s None _ qs m rs xs e ys])
    show "welems s e = Some (wk s e)" using w [of e] that(1) by auto
    show "\<exists>w. welems s x = Some w \<and> refCount w \<noteq> 0" if "x \<in> set xs" for x
      using w [of x] that \<open>es = xs @ e # ys\<close> \<open>\<And>x. x \<in> set xs \<Longrightarrow> refCount (wk s x) \<noteq> 0\<close> by auto
  qed (use that l len in auto)
qed

lemma cache_evict_ok:
  assumes ok: "cache_ok s ps es B"
  shows "case victim s es of None \<Rightarrow> cache_evict a s = Ret (False, s)
    | Some e \<Rightarrow> if a \<le> sizeofword (wk s e)
        then \<exists>s' ps' B'. cache_evict a s = Ret (True, s') \<and> cache_ok s' ps' (remove1 e es) B' \<and> kept (set es - {e}) s s' \<and>
          currentSize s' = currentSize s - sizeofword (wk s e) \<and> fdatas s' = fdatas s \<and> max_cache_size s' = max_cache_size s \<and>
          cmem s' = cmem s \<and> int_wraps s' = int_wraps s \<and> cbrk s' = cbrk s
        else cache_evict a s = Ret (False, s)"
proof (cases "victim s es")
  case None
  then show ?thesis using evict_find(1) [OF ok] by (simp add: cache_evict_def)
next
  case (Some e)
  obtain xs ys where v: "es = xs @ e # ys" "refCount (wk s e) = 0" "\<And>x. x \<in> set xs \<Longrightarrow> refCount (wk s x) \<noteq> 0"
    by (rule victim_Some [OF Some]) blast
  have l: "lru s ps es" and b: "buckets_ok s es B" and m: "0 < max_cache_size s" "max_cache_size s < 2147483648" "int (length (ht s)) = max_cache_size s" "int_wraps s"
    and cur: "currentSize s = (\<Sum>x\<leftarrow>es. sizeofword (wk s x))" "currentSize s \<le> max_cache_size s" and la: "list_all2 (entry_ok s) ps es"
    using ok by (simp_all add: cache_ok_def)
  have len: "length ps = length es" and d: "distinct es" "distinct ps" using lru_distinct [OF l] by simp_all
  have em: "e \<in> set es" using v by simp
  then obtain w and ed :: file_data where w: "welems s e = Some w" "wk s e = w" "0 \<le> hash_value (file_name ed)" "wkey w = hash_value (file_name ed) mod max_cache_size s" "0 \<le> sizeofword w"
    by (rule cache_ok_entry [OF ok]) blast
  define qs where "qs = take (length xs) ps"
  define p where "p = ps ! length xs"
  define rs where "rs = drop (Suc (length xs)) ps"
  have ps: "ps = qs @ p # rs" "length qs = length xs" using len v(1) by (simp_all add: qs_def p_def rs_def id_take_nth_drop)
  note find = evict_find(2) [OF ok v(1) ps v(2,3)]
  have nd: "\<exists>nd. lnodes s p = Some nd \<and> q_node nd = e" using lru_unlink(1) [of s qs p rs xs e ys] l v(1) ps by auto
  show ?thesis
  proof (cases "a \<le> sizeofword w")
    case False
    then show ?thesis using Some w find nd by (auto simp: cache_evict_def)
  next
    case True
    let ?s = "s\<lparr>currentSize := currentSize s - sizeofword w\<rparr>"
    define k where "k = nat (wkey w)"
    have k: "wkey w = int k" "k < length (ht ?s)" using w m cache_ok_key(2) [OF ok w(3)] by (simp_all add: k_def)
    have r1: "remove1 e es = xs @ ys" using d v(1) by (simp add: remove1_append)
    have "0 \<le> (\<Sum>x\<leftarrow>xs @ ys. sizeofword (wk s x))" by (rule sizes_nonneg [OF ok]) (use v(1) in auto)
    then have cs: "currentSize s - sizeofword w = (\<Sum>x\<leftarrow>xs @ ys. sizeofword (wk s x))" "0 \<le> currentSize s - sizeofword w"
      using cur(1) v(1) w(2) by simp_all
    have t32: "to_s32 (currentSize s - sizeofword w) = currentSize s - sizeofword w" using cs(2) cur(2) m w(5) by simp
    have bk: "buckets_ok ?s es B" by (rule buckets_ok_cong [OF b]) (auto simp: wk_def)
    have "\<exists>s1. deleteHash e ?s = Ret s1 \<and> buckets_ok s1 (remove1 e es) (B(k := remove1 e (B k))) \<and> kept (set es - {e}) ?s s1 \<and>
        same_but_table ?s s1"
      by (rule deleteHash_ok [OF bk d(1) em _ k]) (use w(1) cache_ok_bounds(1) [OF ok] in simp_all)
    then obtain s1 where s1: "deleteHash e ?s = Ret s1" "buckets_ok s1 (xs @ ys) (B(k := remove1 e (B k)))"
      "kept (set es - {e}) ?s s1" "same_but_table ?s s1"
      unfolding r1 by blast
    note t = s1(4) [unfolded same_but_table_def]
    have "lru s1 (qs @ p # rs) (xs @ e # ys)" using l t ps v(1) by (simp add: lru_def)
    from deleteSwapNode_free [OF this ps(2)] obtain s2 where s2: "deleteSwapNode p 0 s1 = Ret s2" "lru s2 (qs @ rs) (xs @ ys)" "same_but_lru s1 s2" by blast
    note u = s2(3) [unfolded same_but_lru_def]
    have kp: "kept (set es - {e}) s s2" using s1(3) u by (simp add: kept_def)
    have sub: "set (xs @ ys) \<subseteq> set es - {e}" using v(1) d by auto
    have "list_all2 (entry_ok s) (qs @ rs) (xs @ ys)" using la ps v(1) by (simp add: list_all2_append)
    then have "list_all2 (entry_ok s2) (qs @ rs) (xs @ ys)"
      by (rule list.rel_mono_strong) (use sub kp t u in \<open>auto intro!: entry_ok_kept [of s _ _ "set es - {e}"]\<close>)
    moreover have "sizeofword (wk s2 x) = sizeofword (wk s x)" if x: "x \<in> set (xs @ ys)" for x
      by (rule cache_ok_entry [OF ok, of x]) (use x sub kept_wk(2) [OF kp] in auto)
    then have "(\<Sum>x\<leftarrow>xs @ ys. sizeofword (wk s2 x)) = (\<Sum>x\<leftarrow>xs @ ys. sizeofword (wk s x))"
      by (intro arg_cong [of _ _ sum_list] map_cong) simp_all
    moreover have "buckets_ok s2 (xs @ ys) (B(k := remove1 e (B k)))" by (rule buckets_ok_cong [OF s1(2)]) (use u in \<open>auto simp: wk_def\<close>)
    ultimately have "cache_ok s2 (qs @ rs) (xs @ ys) (B(k := remove1 e (B k)))"
      using s2(2) m cur(2) cs w(5) t u by (simp add: cache_ok_def)
    moreover have "cache_evict a s = Ret (True, s2)"
      using find nd w True t32 s1(1) s2(1) by (auto simp: cache_evict_def)
    ultimately show ?thesis using Some True w(2) r1 kp t u by auto
  qed
qed

section \<open>The sections under the lock\<close>

text \<open>
  What the sections of a request for the structure \<^verbatim>\<open>d\<close> do when they end with the entry
  \<^verbatim>\<open>e\<close> in use: its use count goes up by one, or starts at one when the entry is new, the other
  entries are kept, and only entries that are not in use disappear.
\<close>

definition used :: "nat \<Rightarrow> cache \<Rightarrow> nat list \<Rightarrow> nat \<Rightarrow> cache \<Rightarrow> nat list \<Rightarrow> bool" where
  "used d s es e s' es' \<longleftrightarrow>
    e \<in> set es' \<and>
    (\<forall>x \<in> set es' - {e}. x \<in> set es \<and> refCount (wk s' x) = refCount (wk s x) \<and> wdata (wk s' x) = wdata (wk s x)) \<and>
    (\<forall>x \<in> set es - set es'. refCount (wk s x) = 0) \<and>
    refCount (wk s' e) = (if e \<in> set es then refCount (wk s e) else 0) + 1 \<and>
    wdata (wk s' e) = (if e \<in> set es then wdata (wk s e) else d) \<and>
    max_cache_size s' = max_cache_size s \<and> cmem s' = cmem s \<and> int_wraps s' = int_wraps s \<and> cbrk s \<le> cbrk s'"

definition refs_ok :: "cache \<Rightarrow> nat list \<Rightarrow> bool" where
  "refs_ok s es \<longleftrightarrow> (\<forall>e \<in> set es. 0 \<le> refCount (wk s e) \<and> refCount (wk s e) < 2147483647)"

lemma use_entry_used:
  assumes "cache_ok s ps es B" "e \<in> set es" "refs_ok s es"
  shows "\<exists>s' ps' es'. use_entry e s = Ret s' \<and> cache_ok s' ps' es' B \<and> used d s es e s' es' \<and> set es' = set es \<and> fdatas s' = fdatas s"
proof -
  have "0 \<le> refCount (wk s e)" "refCount (wk s e) < 2147483647" using assms(2,3) by (simp_all add: refs_ok_def)
  from use_entry_ok [OF assms(1,2) this] obtain s' ps' es' where u: "use_entry e s = Ret s'" "cache_ok s' ps' es' B"
    "\<exists>xs ys. es = xs @ e # ys \<and> es' = xs @ ys @ [e]" "same_but_lru (set_ref e (refCount (wk s e) + 1) s) s'" by blast
  have "set es' = set es" using u(3) by auto
  have "wk s' = (wk s)(e := (wk s e)\<lparr>refCount := refCount (wk s e) + 1\<rparr>)" "fdatas s' = fdatas s" "max_cache_size s' = max_cache_size s"
    "cmem s' = cmem s" "int_wraps s' = int_wraps s" "cbrk s' = cbrk s"
    using u(4) by (auto simp: same_but_lru_def wk_def set_ref_def fun_eq_iff)
  then have "used d s es e s' es'" using \<open>set es' = set es\<close> assms(2) unfolding used_def by simp
  then show ?thesis using u(1,2) \<open>set es' = set es\<close> \<open>fdatas s' = fdatas s\<close> by blast
qed

lemma lookup_result:
  assumes ok: "cache_ok s ps es B" and d: "fdatas s d = Some fd" and h: "0 \<le> hash_value (file_name fd)"
  obtains (miss) "cache_lookup d s = Ret None" | (hit) e where "cache_lookup d s = Ret (Some e)" "e \<in> set es" "name_of s e = file_name fd"
proof (cases "bucket_of s B (file_name fd)")
  case Nil
  then show thesis using cache_lookup_ok [OF ok d h] miss by simp
next
  case (Cons e xs)
  then have "e \<in> set es" using bucket_of_subset [OF ok h] by auto
  then show thesis using cache_lookup_ok [OF ok d h] Cons miss hit by (cases "name_of s e = file_name fd") auto
qed

lemma section_lookup_ok:
  assumes ok: "cache_ok s ps es B" and d: "fdatas s d = Some fd" and h: "0 \<le> hash_value (file_name fd)" and r: "refs_ok s es"
  shows "section_lookup d s = Ret (None, s) \<or>
    (\<exists>e s' ps' es'. section_lookup d s = Ret (Some e, s') \<and> e \<in> set es \<and> name_of s e = file_name fd \<and> cache_ok s' ps' es' B \<and>
       used d s es e s' es' \<and> set es' = set es \<and> fdatas s' = fdatas s)"
proof -
  consider (miss) "cache_lookup d s = Ret None" | (hit) e where "cache_lookup d s = Ret (Some e)" "e \<in> set es" "name_of s e = file_name fd"
    by (rule lookup_result [OF ok d h])
  then show ?thesis
  proof cases
  case miss
  then show ?thesis by (simp add: section_lookup_def)
next
  case (hit e)
  from use_entry_used [OF ok hit(2) r, of d] obtain s' ps' es' where "use_entry e s = Ret s'" "cache_ok s' ps' es' B"
    "used d s es e s' es'" "set es' = set es" "fdatas s' = fdatas s" by blast
  then show ?thesis
    using hit by (intro disjI2 exI [of _ e] exI [of _ s'] exI [of _ ps'] exI [of _ es']) (simp add: section_lookup_def)
qed
qed

lemma insert_and_use_ok:
  assumes ok: "cache_ok s ps es B" and d: "fdatas s d = Some fd" "d < cbrk s" and h: "0 \<le> hash_value (file_name fd)"
    and sz: "0 \<le> file_size fd" "currentSize s + file_size fd \<le> max_cache_size s" and mem: "\<And>n. cmem s n" and r: "refs_ok s es"
  shows "\<exists>s' ps' es' B'. insert_and_use d (file_size fd) s = Ret (Some (cbrk s), s') \<and> cache_ok s' ps' es' B' \<and>
    used d s es (cbrk s) s' es' \<and> set es' = insert (cbrk s) (set es) \<and> cbrk s \<notin> set es \<and> fdatas s' = fdatas s"
proof -
  let ?e = "cbrk s"
  from cache_insert_ok [OF ok d h sz mem refl] obtain s1 l B1 where i: "cache_insert d (s\<lparr>currentSize := currentSize s + file_size fd\<rparr>) = Ret (?e, s1)"
    "cache_ok s1 (ps @ [l]) (es @ [?e]) B1" "kept (set es) s s1" "refCount (wk s1 ?e) = 0" "wdata (wk s1 ?e) = d" "fdatas s1 = fdatas s"
    "max_cache_size s1 = max_cache_size s" "cmem s1 = cmem s" "int_wraps s1 = int_wraps s" "cbrk s1 = cbrk s + 2" by blast
  have ne: "?e \<notin> set es" using cache_ok_bounds(1) [OF ok] by blast
  have same: "refCount (wk s1 x) = refCount (wk s x) \<and> wdata (wk s1 x) = wdata (wk s x)" if x: "x \<in> set es" for x
    by (rule cache_ok_entry [OF ok x]) (simp add: kept_wk [OF i(3) x])
  have "refs_ok s1 (es @ [?e])" using r same i(4) by (simp add: refs_ok_def)
  from use_entry_used [OF i(2) _ this, of ?e d] obtain s2 ps2 es2 where u: "use_entry ?e s1 = Ret s2" "cache_ok s2 ps2 es2 B1"
    "used d s1 (es @ [?e]) ?e s2 es2" "set es2 = set (es @ [?e])" "fdatas s2 = fdatas s1" by auto
  have "used d s es ?e s2 es2" using u(3,4) i(3-10) ne same unfolding used_def by auto
  have "0 \<le> currentSize s" using ok sizes_nonneg [OF ok order_refl] by (simp add: cache_ok_def)
  then have "to_s32 (currentSize s + file_size fd) = currentSize s + file_size fd" using sz ok by (simp add: cache_ok_def)
  then have "insert_and_use d (file_size fd) s = Ret (Some ?e, s2)" using i(1) u(1) by (simp add: insert_and_use_def)
  then show ?thesis using i(6) u(2,4,5) ne \<open>used d s es ?e s2 es2\<close> by auto
qed

lemma cache_ok_free_data:
  assumes ok: "cache_ok s ps es B" and d: "\<And>e. e \<in> set es \<Longrightarrow> wdata (wk s e) \<noteq> d"
  shows "cache_ok (s\<lparr>fdatas := (fdatas s)(d := x)\<rparr>) ps es B"
proof -
  let ?s = "s\<lparr>fdatas := (fdatas s)(d := x)\<rparr>"
  have "list_all2 (entry_ok s) ps es" using ok by (simp add: cache_ok_def)
  then have "list_all2 (entry_ok ?s) ps es"
    by (rule list.rel_mono_strong) (use d in \<open>auto intro!: entry_ok_kept [of s _ _ "set es"] simp: kept_def\<close>)
  moreover have [simp]: "wk ?s = wk s" by (auto simp: wk_def)
  ultimately show ?thesis using ok by (simp add: cache_ok_def lru_def buckets_ok_def)
qed

lemma section_insert_ok:
  assumes ok: "cache_ok s ps es B" and d: "fdatas s d = Some fd" "d < cbrk s" "\<And>e. e \<in> set es \<Longrightarrow> wdata (wk s e) \<noteq> d"
    and h: "0 \<le> hash_value (file_name fd)" and sz: "0 \<le> file_size fd" "file_size fd + max_cache_size s < 2147483648"
    and mem: "\<And>n. cmem s n" and r: "refs_ok s es"
  shows "section_insert d s = Ret (None, s) \<or>
    (\<exists>e s' ps' es' B'. section_insert d s = Ret (Some e, s') \<and> cache_ok s' ps' es' B' \<and> used d s es e s' es' \<and>
       (if e \<in> set es then name_of s e = file_name fd \<and> set es' = set es \<and> fdatas s' = (fdatas s)(d := None)
        else e = cbrk s \<and> fdatas s' = fdatas s))"
proof -
  consider (miss) "cache_lookup d s = Ret None" | (hit) e where "cache_lookup d s = Ret (Some e)" "e \<in> set es" "name_of s e = file_name fd"
    by (rule lookup_result [OF ok d(1) h])
  then show ?thesis
  proof cases
  case (hit e)
  let ?s = "s\<lparr>fdatas := (fdatas s)(d := None)\<rparr>"
  have ok1: "cache_ok ?s ps es B" by (rule cache_ok_free_data [OF ok d(3)])
  have [simp]: "wk ?s = wk s" by (auto simp: wk_def)
  have "refs_ok ?s es" using r by (simp add: refs_ok_def)
  from use_entry_used [OF ok1 hit(2) this, of d] obtain s' ps' es' where u: "use_entry e ?s = Ret s'" "cache_ok s' ps' es' B"
    "used d ?s es e s' es'" "set es' = set es" "fdatas s' = fdatas ?s" by blast
  moreover have "used d s es e s' es'" using u(3) by (simp add: used_def)
  ultimately show ?thesis
    using hit d(1) by (intro disjI2 exI [of _ e] exI [of _ s'] exI [of _ ps'] exI [of _ es'] exI [of _ B])
      (simp add: section_insert_def file_data_free_def)
next
  case miss
  have m: "0 < max_cache_size s" "max_cache_size s < 2147483648" "currentSize s \<le> max_cache_size s" using ok by (simp_all add: cache_ok_def)
  have c0: "0 \<le> currentSize s" using ok sizes_nonneg [OF ok order_refl] by (simp add: cache_ok_def)
  have t: "to_s32 (currentSize s + file_size fd) = currentSize s + file_size fd" using c0 m sz by simp
  show ?thesis
  proof (cases "currentSize s + file_size fd \<le> max_cache_size s")
    case True
    from insert_and_use_ok [OF ok d(1,2) h sz(1) True mem r] obtain s' ps' es' B' where i:
      "insert_and_use d (file_size fd) s = Ret (Some (cbrk s), s')" "cache_ok s' ps' es' B'" "used d s es (cbrk s) s' es'" "cbrk s \<notin> set es"
      "fdatas s' = fdatas s" by blast
    have "section_insert d s = Ret (Some (cbrk s), s')" using miss d(1) t True i(1) by (simp add: section_insert_def)
    then show ?thesis using i(2-5) by auto
  next
    case False
    define a where "a = file_size fd - (max_cache_size s - currentSize s)"
    have ta: "to_s32 (file_size fd - to_s32 (max_cache_size s - currentSize s)) = a" using c0 m sz False by (simp add: a_def)
    have run: "section_insert d s = bnd (cache_evict a s) (\<lambda>(room, s1). if room then insert_and_use d (file_size fd) s1 else Ret (None, s1))"
      using miss d(1) t ta False by (simp add: section_insert_def Let_def)
    show ?thesis
    proof (cases "\<exists>v. victim s es = Some v \<and> a \<le> sizeofword (wk s v)")
      case False
      then have "cache_evict a s = Ret (False, s)" using cache_evict_ok [OF ok, of a] by (auto split: option.splits)
      then show ?thesis using run by simp
    next
      case True
      then obtain v s1 ps1 B1 where v: "victim s es = Some v" "a \<le> sizeofword (wk s v)" "cache_evict a s = Ret (True, s1)" "cache_ok s1 ps1 (remove1 v es) B1"
        "kept (set es - {v}) s s1" "currentSize s1 = currentSize s - sizeofword (wk s v)" "fdatas s1 = fdatas s" "max_cache_size s1 = max_cache_size s"
        "cmem s1 = cmem s" "int_wraps s1 = int_wraps s" "cbrk s1 = cbrk s"
        using cache_evict_ok [OF ok, of a] by auto
      have v0: "refCount (wk s v) = 0" by (rule victim_Some [OF v(1)])
      have se: "set (remove1 v es) = set es - {v}" using ok by (simp add: cache_ok_def lru_def)
      have same: "refCount (wk s1 x) = refCount (wk s x) \<and> wdata (wk s1 x) = wdata (wk s x)" if x: "x \<in> set es - {v}" for x
        by (rule cache_ok_entry [OF ok, of x]) (use x in \<open>simp_all add: kept_wk [OF v(5) x]\<close>)
      have r1: "refs_ok s1 (remove1 v es)" using r same se by (simp add: refs_ok_def)
      have "currentSize s1 + file_size fd \<le> max_cache_size s1" using v(2,6,8) by (simp add: a_def)
      from insert_and_use_ok [OF v(4) _ _ h sz(1) this _ r1, of d] obtain s' ps' es' B' where i:
        "insert_and_use d (file_size fd) s1 = Ret (Some (cbrk s), s')" "cache_ok s' ps' es' B'" "used d s1 (remove1 v es) (cbrk s) s' es'"
        "set es' = insert (cbrk s) (set es - {v})" "fdatas s' = fdatas s"
        using d v mem se by auto
      have ne: "cbrk s \<notin> set es" using cache_ok_bounds(1) [OF ok] by blast
      have "used d s es (cbrk s) s' es'" using i(3,4) same v v0 se ne by (auto simp: used_def)
      then show ?thesis using run v(3) i ne by auto
    qed
  qed
qed
qed

end
