(* ===== verification/Web_CacheSys.thy ===== *)
theory Web_CacheSys
  imports Web_CacheInv
begin

text \<open>
  Any number of worker threads in \<^verbatim>\<open>do_server_request\<close> at the same time, sharing the cache. The
  sections under the lock are steps; between them a thread is at a point of the function with the
  \<^verbatim>\<open>file_data\<close> it owns or the entry it uses.
\<close>

section \<open>The transition system\<close>

datatype client =
    Q_Idle
  | Q_Look nat    \<comment> \<open>has the name of the file, before the first look-up\<close>
  | Q_Read nat    \<comment> \<open>has missed the cache, before \<^verbatim>\<open>request_readfile\<close>\<close>
  | Q_Fill nat    \<comment> \<open>has read the file, before the second look-up\<close>
  | Q_Send nat    \<comment> \<open>sends the file of an entry it has counted\<close>
  | Q_Own nat     \<comment> \<open>sends its own copy, which is not in the cache\<close>

record csys =
  cstate :: cache
  clients :: "client list"

definition move :: "csys \<Rightarrow> nat \<Rightarrow> cache \<Rightarrow> client \<Rightarrow> csys" where
  "move c i s q = \<lparr>cstate = s, clients = (clients c)[i := q]\<rparr>"

inductive cstep :: "fenv \<Rightarrow> byte list set \<Rightarrow> csys \<Rightarrow> csys \<Rightarrow> bool" for files names where
  start: "i < length (clients c) \<Longrightarrow> clients c ! i = Q_Idle \<Longrightarrow> file_data_init (cstate c) = Ret (d, s) \<Longrightarrow> name \<in> names \<Longrightarrow>
    cstep files names c (move c i (set_data d \<lparr>file_name = name, file_buf = [], file_size = 0\<rparr> s) (Q_Look d))"
| miss: "i < length (clients c) \<Longrightarrow> clients c ! i = Q_Look d \<Longrightarrow> section_lookup d (cstate c) = Ret (None, s) \<Longrightarrow>
    cstep files names c (move c i s (Q_Read d))"
| hit: "i < length (clients c) \<Longrightarrow> clients c ! i = Q_Look d \<Longrightarrow> section_lookup d (cstate c) = Ret (Some e, s) \<Longrightarrow>
    cstep files names c (move c i s (Q_Send e))"
| read_ok: "i < length (clients c) \<Longrightarrow> clients c ! i = Q_Read d \<Longrightarrow> fdatas (cstate c) d = Some fd \<Longrightarrow>
    request_readfile files junk con fd = Ret (ret, fd', con') \<Longrightarrow> ret \<noteq> 0 \<Longrightarrow>
    cstep files names c (move c i (set_data d fd' (cstate c)) (Q_Fill d))"
| read_fail: "i < length (clients c) \<Longrightarrow> clients c ! i = Q_Read d \<Longrightarrow> fdatas (cstate c) d = Some fd \<Longrightarrow>
    request_readfile files junk con fd = Ret (ret, fd', con') \<Longrightarrow> ret = 0 \<Longrightarrow>
    cstep files names c (move c i (set_data d fd' (cstate c)) Q_Idle)"
| fill_use: "i < length (clients c) \<Longrightarrow> clients c ! i = Q_Fill d \<Longrightarrow> section_insert d (cstate c) = Ret (Some e, s) \<Longrightarrow>
    cstep files names c (move c i s (Q_Send e))"
| fill_own: "i < length (clients c) \<Longrightarrow> clients c ! i = Q_Fill d \<Longrightarrow> section_insert d (cstate c) = Ret (None, s) \<Longrightarrow>
    cstep files names c (move c i s (Q_Own d))"
| sent: "i < length (clients c) \<Longrightarrow> clients c ! i = Q_Send e \<Longrightarrow> section_release e (cstate c) = Ret s \<Longrightarrow>
    cstep files names c (move c i s Q_Idle)"
| own: "i < length (clients c) \<Longrightarrow> clients c ! i = Q_Own d \<Longrightarrow> file_data_free d (cstate c) = Ret s \<Longrightarrow>
    cstep files names c (move c i s Q_Idle)"

text \<open>The server with the cache \<^verbatim>\<open>server_init\<close> has set up.\<close>

definition csys_init :: "nat \<Rightarrow> cache \<Rightarrow> csys" where
  "csys_init n s = \<lparr>cstate = s, clients = replicate n Q_Idle\<rparr>"

section \<open>The invariant\<close>

fun owns :: "client \<Rightarrow> nat option" where
  "owns (Q_Look d) = Some d"
| "owns (Q_Read d) = Some d"
| "owns (Q_Fill d) = Some d"
| "owns (Q_Own d) = Some d"
| "owns _ = None"

definition own_ok :: "cache \<Rightarrow> nat list \<Rightarrow> nat \<Rightarrow> bool" where
  "own_ok s es d \<longleftrightarrow> d < cbrk s \<and> (\<forall>e \<in> set es. wdata (wk s e) \<noteq> d) \<and>
    (\<exists>fd. fdatas s d = Some fd \<and> 0 \<le> hash_value (file_name fd) \<and> 0 \<le> file_size fd \<and> file_size fd + max_cache_size s < 2147483648)"

definition owners_ok :: "cache \<Rightarrow> nat list \<Rightarrow> client list \<Rightarrow> bool" where
  "owners_ok s es cl \<longleftrightarrow>
    (\<forall>i < length cl. \<forall>d. owns (cl ! i) = Some d \<longrightarrow> own_ok s es d \<and> (\<forall>j < length cl. owns (cl ! j) = Some d \<longrightarrow> j = i))"

definition counts_ok :: "cache \<Rightarrow> nat list \<Rightarrow> client list \<Rightarrow> bool" where
  "counts_ok s es cl \<longleftrightarrow> (\<forall>e \<in> set es. refCount (wk s e) = int (count_list cl (Q_Send e))) \<and> (\<forall>e. Q_Send e \<in> set cl \<longrightarrow> e \<in> set es)"

definition csys_ok :: "csys \<Rightarrow> nat list \<Rightarrow> bool" where
  "csys_ok c es \<longleftrightarrow> (\<exists>ps B. cache_ok (cstate c) ps es B) \<and> counts_ok (cstate c) es (clients c) \<and>
    owners_ok (cstate c) es (clients c) \<and> length (clients c) < 2147483647 \<and> (\<forall>n. cmem (cstate c) n)"

lemma owners_update:
  assumes "owners_ok s es cl" "i < length cl"
    and "\<And>j d. j < length cl \<Longrightarrow> j \<noteq> i \<Longrightarrow> owns (cl ! j) = Some d \<Longrightarrow> own_ok s es d \<Longrightarrow> own_ok s' es' d"
    and "\<And>d. owns q = Some d \<Longrightarrow> own_ok s' es' d \<and> (\<forall>j < length cl. j \<noteq> i \<longrightarrow> owns (cl ! j) \<noteq> Some d)"
  shows "owners_ok s' es' (cl[i := q])"
  unfolding owners_ok_def
proof (intro allI impI conjI)
  fix k d assume k: "k < length (cl[i := q])" "owns (cl[i := q] ! k) = Some d"
  show "own_ok s' es' d"
    using k assms(3) [of k d] assms(1,2,4) by (cases "k = i") (auto simp: owners_ok_def)
  fix j assume j: "j < length (cl[i := q])" "owns (cl[i := q] ! j) = Some d"
  have one: "\<And>m n. m < length cl \<Longrightarrow> n < length cl \<Longrightarrow> owns (cl ! m) = Some d \<Longrightarrow> owns (cl ! n) = Some d \<Longrightarrow> m = n"
    using assms(1) unfolding owners_ok_def by blast
  show "j = k"
  proof (cases "owns q = Some d")
    case True
    then have "\<forall>m < length cl. m \<noteq> i \<longrightarrow> owns (cl ! m) \<noteq> Some d" using assms(4) by blast
    then show ?thesis using k j by (metis length_list_update nth_list_update_neq)
  next
    case False
    then have "j \<noteq> i" "k \<noteq> i" using k j assms(2) by auto
    then show ?thesis using k j one [of j k] by simp
  qed
qed

lemma count_list_update:
  "i < length xs \<Longrightarrow> int (count_list (xs[i := y]) z) = int (count_list xs z) - of_bool (xs ! i = z) + of_bool (y = z)"
proof (induction xs arbitrary: i)
  case (Cons x xs)
  then show ?case using Cons.IH [of "i - 1"] by (cases i) auto
qed simp

lemma send_update: "Q_Send e \<in> set (cl[i := q]) \<Longrightarrow> Q_Send e \<in> set cl \<or> q = Q_Send e"
  using set_update_subset_insert [of cl i q] by auto

lemma counts_use:
  assumes c: "counts_ok s es cl" and i: "i < length cl" "\<And>x. cl ! i \<noteq> Q_Send x" and u: "used d s es e s' es'"
  shows "counts_ok s' es' (cl[i := Q_Send e])"
proof -
  have count: "int (count_list (cl[i := Q_Send e]) (Q_Send x)) = int (count_list cl (Q_Send x)) + of_bool (x = e)" for x
    using count_list_update [OF i(1), of "Q_Send e" "Q_Send x"] i(2) by auto
  have "refCount (wk s' x) = int (count_list (cl[i := Q_Send e]) (Q_Send x))" if x: "x \<in> set es'" for x
  proof (cases "x = e")
    case True
    have "count_list cl (Q_Send e) = 0" if "e \<notin> set es" using that c by (auto simp: counts_ok_def count_list_0_iff)
    then show ?thesis using True u c count [of e] by (auto simp: used_def counts_ok_def)
  next
    case False
    then show ?thesis using u c x count [of x] by (auto simp: used_def counts_ok_def)
  qed
  moreover have "x \<in> set es'" if x: "Q_Send x \<in> set (cl[i := Q_Send e])" for x
  proof (rule ccontr)
    assume n: "x \<notin> set es'"
    then have "x \<noteq> e" using u by (auto simp: used_def)
    then have "Q_Send x \<in> set cl" using x by (auto dest: set_update_subset_insert [THEN subsetD])
    moreover from this have "x \<in> set es" using c by (auto simp: counts_ok_def)
    ultimately show False using n u c by (auto simp: used_def counts_ok_def count_list_0_iff)
  qed
  ultimately show ?thesis by (simp add: counts_ok_def)
qed

lemma counts_keep:
  assumes c: "counts_ok s es cl" and i: "i < length cl" "\<And>x. cl ! i \<noteq> Q_Send x" "\<And>x. q \<noteq> Q_Send x" and w: "wk s' = wk s"
  shows "counts_ok s' es (cl[i := q])"
proof -
  have "int (count_list (cl[i := q]) (Q_Send x)) = int (count_list cl (Q_Send x))" for x
    using count_list_update [OF i(1), of q "Q_Send x"] i(2,3) by simp
  then show ?thesis using c i(3) w send_update [of _ cl i q] by (auto simp: counts_ok_def)
qed

lemma counts_release:
  assumes c: "counts_ok s es cl" and i: "i < length cl" "cl ! i = Q_Send e"
  shows "counts_ok (set_ref e (refCount (wk s e) - 1) s) es (cl[i := Q_Idle])"
proof -
  have "int (count_list (cl[i := Q_Idle]) (Q_Send x)) = int (count_list cl (Q_Send x)) - of_bool (x = e)" for x
    using count_list_update [OF i(1), of Q_Idle "Q_Send x"] i(2) by auto
  then show ?thesis using c send_update [of _ cl i Q_Idle] by (auto simp: counts_ok_def)
qed

lemma counts_refs:
  assumes "counts_ok s es cl" "length cl < 2147483647"
  shows "refs_ok s es"
  unfolding refs_ok_def
proof (intro ballI)
  fix e assume "e \<in> set es"
  then have "refCount (wk s e) = int (count_list cl (Q_Send e))" using assms(1) by (simp add: counts_ok_def)
  moreover have "count_list cl (Q_Send e) \<le> length cl" by (rule count_le_length)
  ultimately show "0 \<le> refCount (wk s e) \<and> refCount (wk s e) < 2147483647" using assms(2) by linarith
qed

section \<open>Every step keeps the invariant\<close>

lemma readfile_result:
  assumes "request_readfile files junk con fd = Ret (ret, fd', con')"
  shows "file_name fd' = file_name fd \<and>
    (if ret = 0 then fd' = fd else \<exists>st. files (file_name fd) = Some st \<and> file_size fd' = to_s32 (st_size st) \<and> 0 \<le> file_size fd')"
  using assms by (auto simp: request_readfile_def Let_def res_simps split: if_splits option.splits)

lemma own_ok_frame:
  "own_ok s es d \<Longrightarrow> cbrk s \<le> cbrk s' \<Longrightarrow> fdatas s' d = fdatas s d \<Longrightarrow> max_cache_size s' = max_cache_size s \<Longrightarrow>
    (\<forall>x \<in> set es'. wdata (wk s' x) \<noteq> d) \<Longrightarrow> own_ok s' es' d"
  by (auto simp: own_ok_def)

lemma used_data:
  "used d s es e s' es' \<Longrightarrow> d' \<noteq> d \<or> e \<in> set es \<Longrightarrow> \<forall>x \<in> set es. wdata (wk s x) \<noteq> d' \<Longrightarrow> \<forall>x \<in> set es'. wdata (wk s' x) \<noteq> d'"
  unfolding used_def by (metis Diff_iff singletonD)

lemma cache_ok_cbrk:
  assumes "cache_ok s ps es B"
  shows "cache_ok (s\<lparr>cbrk := Suc (cbrk s)\<rparr>) ps es B"
proof -
  let ?s = "s\<lparr>cbrk := Suc (cbrk s)\<rparr>"
  have "list_all2 (entry_ok s) ps es" using assms by (simp add: cache_ok_def)
  then have "list_all2 (entry_ok ?s) ps es"
    by (rule list.rel_mono_strong) (auto intro!: entry_ok_kept [of s _ _ "set es"] simp: kept_def)
  moreover have [simp]: "wk ?s = wk s" by (auto simp: wk_def)
  ultimately show ?thesis using assms by (simp add: cache_ok_def lru_def buckets_ok_def)
qed

lemma owner:
  assumes "owners_ok s es cl" "i < length cl" "owns (cl ! i) = Some d"
  shows "own_ok s es d" "\<forall>j < length cl. j \<noteq> i \<longrightarrow> owns (cl ! j) \<noteq> Some d"
  using assms unfolding owners_ok_def by blast+

lemma entry_data_allocated:
  assumes "cache_ok s ps es B" "e \<in> set es"
  shows "wdata (wk s e) < cbrk s"
  by (rule cache_ok_entry [OF assms]) (auto simp: entry_ok_def wk_def)

lemma start_ok:
  assumes c: "csys_ok c es" and i: "i < length (clients c)" "clients c ! i = Q_Idle" and d: "file_data_init (cstate c) = Ret (d, s)"
    and n: "0 \<le> hash_value name"
  shows "csys_ok (move c i (set_data d \<lparr>file_name = name, file_buf = [], file_size = 0\<rparr> s) (Q_Look d)) es"
proof -
  let ?t = "cstate c" and ?fd = "\<lparr>file_name = name, file_buf = [], file_size = 0\<rparr>"
  obtain ps B where ok: "cache_ok ?t ps es B" using c by (auto simp: csys_ok_def)
  have m: "max_cache_size ?t < 2147483648" using ok by (simp add: cache_ok_def)
  have s: "d = cbrk ?t" "set_data d ?fd s = ?t\<lparr>cbrk := Suc (cbrk ?t), fdatas := (fdatas ?t)(d \<mapsto> ?fd)\<rparr>"
    using d by (auto simp: file_data_init_def c_malloc_def set_data_def split: if_splits)
  let ?s = "set_data d ?fd s"
  have w: "wk ?s = wk ?t" "wk (?t\<lparr>cbrk := Suc (cbrk ?t)\<rparr>) = wk ?t" using s(2) by (simp_all add: wk_def fun_eq_iff)
  have fresh: "wdata (wk ?t e) \<noteq> d" if "e \<in> set es" for e using entry_data_allocated [OF ok that] s(1) by simp
  have "cache_ok ?s ps es B"
    using cache_ok_free_data [OF cache_ok_cbrk [OF ok], of d "Some ?fd"] fresh w(2) s(2) by simp
  moreover have "counts_ok ?s es ((clients c)[i := Q_Look d])"
    by (rule counts_keep [OF _ i(1) _ _ w(1)]) (use c i in \<open>auto simp: csys_ok_def\<close>)
  moreover have "owners_ok ?s es ((clients c)[i := Q_Look d])"
  proof (rule owners_update [OF _ i(1)])
    show oc: "owners_ok ?t es (clients c)" using c by (simp add: csys_ok_def)
    show "own_ok ?s es d'" if "j < length (clients c)" "j \<noteq> i" "owns (clients c ! j) = Some d'" "own_ok ?t es d'" for j d'
    proof (rule own_ok_frame [OF that(4)])
      show "fdatas ?s d' = fdatas ?t d'" using that(4) s by (auto simp: own_ok_def)
    qed (use that(4) s w in \<open>auto simp: own_ok_def\<close>)
    show "own_ok ?s es d' \<and> (\<forall>j < length (clients c). j \<noteq> i \<longrightarrow> owns (clients c ! j) \<noteq> Some d')" if "owns (Q_Look d) = Some d'" for d'
      using that s w(1) n m fresh owner(1) [OF oc] by (fastforce simp: own_ok_def)
  qed
  ultimately show ?thesis using c s(2) by (auto simp: csys_ok_def move_def)
qed

lemma stay_ok:
  assumes c: "csys_ok c es" and i: "i < length (clients c)" "owns (clients c ! i) = Some d" "owns q = Some d"
  shows "csys_ok (move c i (cstate c) q) es"
proof -
  have oc: "owners_ok (cstate c) es (clients c)" using c by (simp add: csys_ok_def)
  have "counts_ok (cstate c) es ((clients c)[i := q])"
    by (rule counts_keep [OF _ i(1)]) (use c i in \<open>auto simp: csys_ok_def\<close>)
  moreover have "owners_ok (cstate c) es ((clients c)[i := q])"
    by (rule owners_update [OF oc i(1)]) (use owner [OF oc i(1,2)] i(3) in auto)
  ultimately show ?thesis using c by (auto simp: csys_ok_def move_def)
qed

text \<open>Changing or giving up the structure a thread owns.\<close>

lemma own_data_ok:
  assumes c: "csys_ok c es" and i: "i < length (clients c)" "owns (clients c ! i) = Some d"
    and q: "owns q = None \<and> (\<forall>x. q \<noteq> Q_Send x) \<or> owns q = Some d \<and> own_ok ((cstate c)\<lparr>fdatas := (fdatas (cstate c))(d := x)\<rparr>) es d"
  shows "csys_ok (move c i ((cstate c)\<lparr>fdatas := (fdatas (cstate c))(d := x)\<rparr>) q) es"
proof -
  let ?t = "cstate c" let ?s = "?t\<lparr>fdatas := (fdatas ?t)(d := x)\<rparr>"
  have oc: "owners_ok ?t es (clients c)" using c by (simp add: csys_ok_def)
  note od = owner [OF oc i]
  obtain ps B where ok: "cache_ok ?t ps es B" using c by (auto simp: csys_ok_def)
  have w: "wk ?s = wk ?t" by (simp add: wk_def fun_eq_iff)
  have "cache_ok ?s ps es B" by (rule cache_ok_free_data [OF ok]) (use od(1) in \<open>auto simp: own_ok_def\<close>)
  moreover have "counts_ok ?s es ((clients c)[i := q])"
    by (rule counts_keep [OF _ i(1) _ _ w]) (use c i q in \<open>auto simp: csys_ok_def\<close>)
  moreover have "owners_ok ?s es ((clients c)[i := q])"
  proof (rule owners_update [OF oc i(1)])
    show "own_ok ?s es d'" if "j < length (clients c)" "j \<noteq> i" "owns (clients c ! j) = Some d'" "own_ok ?t es d'" for j d'
      using that od(2) w by (auto simp: own_ok_def)
    show "own_ok ?s es d' \<and> (\<forall>j < length (clients c). j \<noteq> i \<longrightarrow> owns (clients c ! j) \<noteq> Some d')" if "owns q = Some d'" for d'
      using that q od(2) by auto
  qed
  ultimately show ?thesis using c by (auto simp: csys_ok_def move_def)
qed

text \<open>Starting to use an entry.\<close>

lemma use_ok:
  assumes c: "csys_ok c es" and i: "i < length (clients c)" "owns (clients c ! i) = Some d"
    and ok: "cache_ok s ps es' B" and u: "used d (cstate c) es e s es'"
    and f: "\<And>d'. d' \<noteq> d \<Longrightarrow> fdatas s d' = fdatas (cstate c) d'"
  shows "csys_ok (move c i s (Q_Send e)) es'"
proof -
  have oc: "owners_ok (cstate c) es (clients c)" using c by (simp add: csys_ok_def)
  note od = owner [OF oc i]
  have u': "max_cache_size s = max_cache_size (cstate c)" "cmem s = cmem (cstate c)" "cbrk (cstate c) \<le> cbrk s"
    using u by (simp_all add: used_def)
  have "counts_ok s es' ((clients c)[i := Q_Send e])"
    by (rule counts_use [OF _ i(1) _ u]) (use c i in \<open>auto simp: csys_ok_def\<close>)
  moreover have "owners_ok s es' ((clients c)[i := Q_Send e])"
  proof (rule owners_update [OF oc i(1)])
    show "own_ok s es' d'" if o: "j < length (clients c)" "j \<noteq> i" "owns (clients c ! j) = Some d'" "own_ok (cstate c) es d'" for j d'
    proof (rule own_ok_frame [OF o(4) u'(3) _ u'(1)])
      have "d' \<noteq> d" using o od(2) by blast
      then show "fdatas s d' = fdatas (cstate c) d'" by (rule f)
      show "\<forall>x \<in> set es'. wdata (wk s x) \<noteq> d'" by (rule used_data [OF u]) (use o(4) \<open>d' \<noteq> d\<close> in \<open>auto simp: own_ok_def\<close>)
    qed
  qed simp
  ultimately show ?thesis using c ok u' by (auto simp: csys_ok_def move_def)
qed

lemma cstep_ok:
  assumes step: "cstep files names c c'" and c: "csys_ok c es" and n: "\<And>name. name \<in> names \<Longrightarrow> 0 \<le> hash_value name"
    and f: "\<And>name st. files name = Some st \<Longrightarrow> 0 \<le> st_size st \<and> st_size st + max_cache_size (cstate c) < 2147483648"
  shows "(\<exists>es'. csys_ok c' es') \<and> max_cache_size (cstate c') = max_cache_size (cstate c) \<and> length (clients c') = length (clients c)"
proof -
  obtain ps B where ok: "cache_ok (cstate c) ps es B" using c by (auto simp: csys_ok_def)
  have oc: "owners_ok (cstate c) es (clients c)" and cc: "counts_ok (cstate c) es (clients c)" and mem: "\<And>n. cmem (cstate c) n"
    and r: "refs_ok (cstate c) es" using c counts_refs by (auto simp: csys_ok_def)
  have m: "max_cache_size (cstate c) < 2147483648" using ok by (simp add: cache_ok_def)
  show ?thesis
    using step
  proof cases
    case (start i d s name)
    then show ?thesis using start_ok [OF c start(2-4) n [OF start(5)]]
      by (auto simp: move_def file_data_init_def c_malloc_def set_data_def split: if_splits)
  next
    case (miss i d s)
    have "owns (clients c ! i) = Some d" using miss by simp
    from owner(1) [OF oc miss(2) this] obtain fd where "fdatas (cstate c) d = Some fd" "0 \<le> hash_value (file_name fd)" by (auto simp: own_ok_def)
    from section_lookup_ok [OF ok this r] miss(4) have "s = cstate c" by auto
    then show ?thesis using miss stay_ok [OF c, of i d "Q_Read d"] by (auto simp: move_def)
  next
    case (hit i d e s)
    have o: "owns (clients c ! i) = Some d" using hit by simp
    from owner(1) [OF oc hit(2) this] obtain fd where "fdatas (cstate c) d = Some fd" "0 \<le> hash_value (file_name fd)" by (auto simp: own_ok_def)
    from section_lookup_ok [OF ok this r] hit(4) obtain ps' es' where u: "cache_ok s ps' es' B" "used d (cstate c) es e s es'"
      "fdatas s = fdatas (cstate c)" by auto
    then show ?thesis using hit use_ok [OF c hit(2) o u(1,2)] by (auto simp: move_def used_def)
  next
    case (read_ok i d fd junk con ret fd' con')
    let ?s = "(cstate c)\<lparr>fdatas := (fdatas (cstate c))(d \<mapsto> fd')\<rparr>"
    have o: "owns (clients c ! i) = Some d" using read_ok by simp
    have sz: "0 \<le> file_size fd' \<and> file_size fd' + max_cache_size (cstate c) < 2147483648 \<and> file_name fd' = file_name fd"
    proof -
      obtain st where "files (file_name fd) = Some st" "file_size fd' = to_s32 (st_size st)" "file_name fd' = file_name fd" "0 \<le> file_size fd'"
        using readfile_result [OF read_ok(5)] read_ok(6) by auto
      moreover have "0 < max_cache_size (cstate c)" using ok by (simp add: cache_ok_def)
      ultimately show ?thesis using f [of "file_name fd" st] by simp
    qed
    have "wk ?s = wk (cstate c)" by (simp add: wk_def fun_eq_iff)
    then have "own_ok ?s es d" using owner(1) [OF oc read_ok(2) o] read_ok(4) sz by (auto simp: own_ok_def)
    then have "csys_ok (move c i ?s (Q_Fill d)) es" by (intro own_data_ok [OF c read_ok(2) o]) simp
    then show ?thesis using read_ok(1) by (auto simp: set_data_def move_def)
  next
    case (read_fail i d fd junk con ret fd' con')
    then have "csys_ok (move c i ((cstate c)\<lparr>fdatas := (fdatas (cstate c))(d \<mapsto> fd')\<rparr>) Q_Idle) es"
      by (intro own_data_ok [OF c read_fail(2)]) simp_all
    then show ?thesis using read_fail(1) by (auto simp: set_data_def move_def)
  next
    case (fill_use i d e s)
    have o: "owns (clients c ! i) = Some d" using fill_use by simp
    from owner(1) [OF oc fill_use(2) this] obtain fd where d: "fdatas (cstate c) d = Some fd" "0 \<le> hash_value (file_name fd)" "d < cbrk (cstate c)"
      "\<And>x. x \<in> set es \<Longrightarrow> wdata (wk (cstate c) x) \<noteq> d" "0 \<le> file_size fd" "file_size fd + max_cache_size (cstate c) < 2147483648"
      by (auto simp: own_ok_def)
    from section_insert_ok [OF ok d(1,3,4,2,5,6) mem r] fill_use(4) obtain ps' es' B' where u: "cache_ok s ps' es' B'" "used d (cstate c) es e s es'"
      "fdatas s = (fdatas (cstate c))(d := None) \<or> fdatas s = fdatas (cstate c)" by (auto split: if_splits)
    then show ?thesis using fill_use use_ok [OF c fill_use(2) o u(1,2)] by (auto simp: move_def used_def)
  next
    case (fill_own i d s)
    have o: "owns (clients c ! i) = Some d" using fill_own by simp
    from owner(1) [OF oc fill_own(2) this] obtain fd where d: "fdatas (cstate c) d = Some fd" "0 \<le> hash_value (file_name fd)" "d < cbrk (cstate c)"
      "\<And>x. x \<in> set es \<Longrightarrow> wdata (wk (cstate c) x) \<noteq> d" "0 \<le> file_size fd" "file_size fd + max_cache_size (cstate c) < 2147483648"
      by (auto simp: own_ok_def)
    from section_insert_ok [OF ok d(1,3,4,2,5,6) mem r] fill_own(4) have "s = cstate c" by auto
    then show ?thesis using fill_own stay_ok [OF c, of i d "Q_Own d"] by (auto simp: move_def)
  next
    case (sent i e s)
    have e: "Q_Send e \<in> set (clients c)" using sent by (metis nth_mem)
    then have es: "e \<in> set es" and "0 < refCount (wk (cstate c) e)" using cc by (auto simp: counts_ok_def count_list_0_iff order_less_le)
    moreover have "refCount (wk (cstate c) e) < 2147483648" using r es by (auto simp: refs_ok_def)
    ultimately have rel: "s = set_ref e (refCount (wk (cstate c) e) - 1) (cstate c)" "cache_ok s ps es B"
      using section_release_ok [OF ok es] sent(4) by simp_all
    have "owners_ok s es ((clients c)[i := Q_Idle])"
      by (rule owners_update [OF oc sent(2)]) (auto simp: rel(1) own_ok_def)
    then show ?thesis using sent(1) rel counts_release [OF cc sent(2,3)] c by (auto simp: csys_ok_def move_def)
  next
    case (own i d s)
    then have "csys_ok (move c i ((cstate c)\<lparr>fdatas := (fdatas (cstate c))(d := None)\<rparr>) Q_Idle) es"
      by (intro own_data_ok [OF c own(2)]) simp_all
    then show ?thesis using own(1,4) by (auto simp: file_data_free_def move_def res_simps)
  qed
qed

lemma csys_init_ok:
  assumes "0 < m" "m < 2147483648" "n < 2147483647" "\<And>k. ok k"
  shows "csys_ok (csys_init n (empty_cache m True ok)) []"
proof -
  have "cache_ok (empty_cache m True ok) [] [] (\<lambda>_. [])"
    using assms(1,2) by (simp add: cache_ok_def empty_cache_def lru_def buckets_ok_def)
  then have "\<exists>ps B. cache_ok (empty_cache m True ok) ps [] B" by blast
  moreover have "cmem (empty_cache m True ok) = ok" by (simp add: empty_cache_def)
  ultimately show ?thesis
    using assms(3,4) by (simp add: csys_ok_def csys_init_def counts_ok_def owners_ok_def)
qed

lemma reach_ok:
  assumes "0 < m" "m < 2147483648" "n < 2147483647" "\<And>k. ok k" "\<And>name. name \<in> names \<Longrightarrow> 0 \<le> hash_value name"
    and "\<And>name st. files name = Some st \<Longrightarrow> 0 \<le> st_size st \<and> st_size st + m < 2147483648"
    and "(cstep files names)\<^sup>*\<^sup>* (csys_init n (empty_cache m True ok)) c"
  shows "(\<exists>es. csys_ok c es) \<and> max_cache_size (cstate c) = m \<and> length (clients c) = n"
  using assms(7)
proof induction
  case base
  have "csys_ok (csys_init n (empty_cache m True ok)) []" by (rule csys_init_ok) (use assms in auto)
  moreover have "max_cache_size (cstate (csys_init n (empty_cache m True ok))) = m" "length (clients (csys_init n (empty_cache m True ok))) = n"
    by (simp_all add: csys_init_def empty_cache_def)
  ultimately show ?case by blast
next
  case (step c c')
  then obtain es where es: "csys_ok c es" "max_cache_size (cstate c) = m" "length (clients c) = n" by auto
  show ?case using cstep_ok [OF step.hyps(2) es(1) assms(5)] assms(6) es(2,3) by simp
qed

text \<open>What a thread does next is defined, and the entry it sends is there with its data.\<close>

fun next_ok :: "cache \<Rightarrow> client \<Rightarrow> bool" where
  "next_ok s Q_Idle = is_ret (file_data_init s)"
| "next_ok s (Q_Look d) = is_ret (section_lookup d s)"
| "next_ok s (Q_Read d) = (fdatas s d \<noteq> None)"
| "next_ok s (Q_Fill d) = is_ret (section_insert d s)"
| "next_ok s (Q_Send e) = (is_ret (section_release e s) \<and> (\<exists>w. welems s e = Some w \<and> fdatas s (wdata w) \<noteq> None))"
| "next_ok s (Q_Own d) = is_ret (file_data_free d s)"

lemma csys_next_ok:
  assumes c: "csys_ok c es" and i: "i < length (clients c)"
  shows "next_ok (cstate c) (clients c ! i)"
proof -
  obtain ps B where ok: "cache_ok (cstate c) ps es B" using c by (auto simp: csys_ok_def)
  have oc: "owners_ok (cstate c) es (clients c)" and cc: "counts_ok (cstate c) es (clients c)" and mem: "\<And>n. cmem (cstate c) n"
    and r: "refs_ok (cstate c) es" using c counts_refs by (auto simp: csys_ok_def)
  have own: "\<exists>fd. fdatas (cstate c) d = Some fd \<and> 0 \<le> hash_value (file_name fd) \<and> d < cbrk (cstate c) \<and>
      (\<forall>x \<in> set es. wdata (wk (cstate c) x) \<noteq> d) \<and> 0 \<le> file_size fd \<and> file_size fd + max_cache_size (cstate c) < 2147483648"
    if "owns (clients c ! i) = Some d" for d
    using owner(1) [OF oc i that] by (auto simp: own_ok_def)
  show ?thesis
  proof (cases "clients c ! i")
    case Q_Idle
    then show ?thesis using mem by (simp add: file_data_init_def c_malloc_def)
  next
    case (Q_Look d)
    then obtain fd where "fdatas (cstate c) d = Some fd" "0 \<le> hash_value (file_name fd)" using own [of d] by auto
    from section_lookup_ok [OF ok this r] show ?thesis using Q_Look by auto
  next
    case (Q_Fill d)
    then obtain fd where d: "fdatas (cstate c) d = Some fd" "0 \<le> hash_value (file_name fd)" "d < cbrk (cstate c)"
      "\<And>x. x \<in> set es \<Longrightarrow> wdata (wk (cstate c) x) \<noteq> d" "0 \<le> file_size fd" "file_size fd + max_cache_size (cstate c) < 2147483648"
      using own [of d] by auto
    from section_insert_ok [OF ok d(1,3,4,2,5,6) mem r] show ?thesis using Q_Fill by auto
  next
    case (Q_Send e)
    then have "e \<in> set es" using cc i by (metis counts_ok_def nth_mem)
    then show ?thesis using Q_Send by (auto intro: cache_ok_entry [OF ok, of e] simp: section_release_def upd_elem_def)
  qed (use own in \<open>auto simp: file_data_free_def\<close>)
qed

section \<open>A server without worker threads\<close>

lemma readfile_con:
  assumes "request_readfile files junk con data = Ret (ret, fd, con')" "ret \<noteq> 0"
  shows "ret = 1 \<and> con' = con \<and> request_readfile files junk con2 data = Ret (1, fd, con2)"
  using assms by (auto simp: request_readfile_def Let_def res_simps split: if_splits option.splits)

definition blank :: "byte list \<Rightarrow> file_data" where
  "blank name = \<lparr>file_name = name, file_buf = [], file_size = 0\<rparr>"

text \<open>Between two requests no entry is in use, and the data of each is what the file holds.\<close>

definition seq_ok :: "fenv \<Rightarrow> mem \<Rightarrow> cache \<Rightarrow> nat list \<Rightarrow> bool" where
  "seq_ok files junk s es \<longleftrightarrow> (\<exists>ps B. cache_ok s ps es B) \<and> (\<forall>n. cmem s n) \<and>
    (\<forall>e \<in> set es. refCount (wk s e) = 0 \<and> (\<forall>fd con. fdatas s (wdata (wk s e)) = Some fd \<longrightarrow>
       request_readfile files junk con (blank (file_name fd)) = Ret (1, fd, con)))"

lemma fresh_data:
  assumes ok: "cache_ok s ps es B" and mem: "\<And>n. cmem s n"
  shows "\<exists>s1. file_data_init s = Ret (cbrk s, s1) \<and> cache_ok (set_data (cbrk s) fd s1) ps es B \<and> wk (set_data (cbrk s) fd s1) = wk s \<and>
    fdatas (set_data (cbrk s) fd s1) = (fdatas s)(cbrk s \<mapsto> fd) \<and> cbrk (set_data (cbrk s) fd s1) = Suc (cbrk s) \<and>
    max_cache_size s1 = max_cache_size s \<and> cmem s1 = cmem s"
proof -
  let ?s = "s\<lparr>cbrk := Suc (cbrk s)\<rparr>" and ?d = "cbrk s"
  have w: "wk ?s = wk s" by (simp add: wk_def fun_eq_iff)
  have "wdata (wk s e) \<noteq> ?d" if "e \<in> set es" for e using entry_data_allocated [OF ok that] by simp
  then have "cache_ok (?s\<lparr>fdatas := (fdatas s)(?d \<mapsto> fd)\<rparr>) ps es B"
    using cache_ok_free_data [OF cache_ok_cbrk [OF ok], of ?d "Some fd"] w by simp
  then show ?thesis using mem by (auto simp: file_data_init_def c_malloc_def set_data_def wk_def fun_eq_iff)
qed

text \<open>After the section that found or made the entry: sending and releasing it.\<close>

lemma send_entry_ok:
  assumes ok: "cache_ok s ps es B" and e: "e \<in> set es" "refCount (wk s e) = 1" and fd: "fdatas s (wdata (wk s e)) = Some fd"
    and send: "request_sendfile c fd = Ret c2"
  shows "send_entry e s c = Ret (set_ref e 0 s, c2\<lparr>closed := True\<rparr>)"
proof -
  obtain w where w: "welems s e = Some w" "wk s e = w" by (rule cache_ok_entry [OF ok e(1)])
  have "section_release e s = Ret (set_ref e 0 s)" using section_release_ok(1) [OF ok e(1)] e(2) by simp
  then show ?thesis using w fd send by (simp add: send_entry_def request_destroy_def)
qed

lemma seq_used:
  assumes seq: "\<forall>x \<in> set es. refCount (wk s x) = 0 \<and> (\<forall>f con. fdatas s (wdata (wk s x)) = Some f \<longrightarrow>
       request_readfile files junk con (blank (file_name f)) = Ret (1, f, con))"
    and mem: "\<And>n. cmem s n" and ok: "cache_ok s' ps' es' B'" and u: "used d s es e s' es'"
    and f: "\<And>x. x \<in> set es \<Longrightarrow> fdatas s' (wdata (wk s x)) = fdatas s (wdata (wk s x))"
    and read: "\<And>con. request_readfile files junk con (blank (file_name fd)) = Ret (1, fd, con)"
    and fd: "fdatas s' (wdata (wk s' e)) = Some fd" and send: "request_sendfile c fd = Ret c2"
  shows "\<exists>s''. send_entry e s' c = Ret (s'', c2\<lparr>closed := True\<rparr>) \<and> seq_ok files junk s'' es'"
proof -
  have e: "e \<in> set es'" "refCount (wk s' e) = 1" and m': "\<And>n. cmem s' n" using u seq mem by (auto simp: used_def)
  have old: "x \<in> set es \<and> refCount (wk s' x) = 0 \<and> wdata (wk s' x) = wdata (wk s x)" if "x \<in> set es'" "x \<noteq> e" for x
    using that u seq by (auto simp: used_def)
  have "seq_ok files junk (set_ref e 0 s') es'"
    unfolding seq_ok_def
  proof (intro conjI ballI allI)
    show "\<exists>ps B. cache_ok (set_ref e 0 s') ps es' B" using cache_ok_set_ref [OF ok e(1)] by blast
    fix x assume x: "x \<in> set es'"
    show "refCount (wk (set_ref e 0 s') x) = 0" using old [OF x] by (cases "x = e") auto
    show "fdatas (set_ref e 0 s') (wdata (wk (set_ref e 0 s') x)) = Some g \<longrightarrow>
        request_readfile files junk con (blank (file_name g)) = Ret (1, g, con)" for g con
      using old [OF x] seq f fd read by (cases "x = e") auto
  qed (use m' in simp)
  then show ?thesis using send_entry_ok [OF ok e fd send] by blast
qed

lemma do_server_request_cached:
  assumes seq: "seq_ok files junk s es" and init: "request_init fuel c line = Ret (Some name, c1)" and h: "0 \<le> hash_value name"
    and size: "\<And>st. files name = Some st \<Longrightarrow> 0 \<le> st_size st \<and> st_size st + max_cache_size s < 2147483648"
    and read: "request_readfile files junk c1 (blank name) = Ret (1, fd, c1)" and send: "request_sendfile c1 fd = Ret c2"
  shows "\<exists>s' es'. do_server_request fuel files junk line s c = Ret (s', c2\<lparr>closed := True\<rparr>) \<and> seq_ok files junk s' es'"
proof -
  obtain ps B where ok: "cache_ok s ps es B" and mem: "\<And>n. cmem s n" using seq by (auto simp: seq_ok_def)
  let ?d = "cbrk s"
  obtain s1 where f: "file_data_init s = Ret (?d, s1)" "max_cache_size s1 = max_cache_size s" "cmem s1 = cmem s"
    and ok1: "cache_ok (set_data ?d (blank name) s1) ps es B" and w1: "wk (set_data ?d (blank name) s1) = wk s"
    "fdatas (set_data ?d (blank name) s1) = (fdatas s)(?d \<mapsto> blank name)" "cbrk (set_data ?d (blank name) s1) = Suc ?d"
    using fresh_data [OF ok mem, of "blank name"] by blast
  define t where "t = set_data ?d (blank name) s1"
  note t = ok1 [folded t_def] w1 [folded t_def]
  have tm: "max_cache_size t = max_cache_size s" "cmem t = cmem s" using f by (simp_all add: t_def set_data_def)
  have fresh: "wdata (wk s x) \<noteq> ?d" if "x \<in> set es" for x using entry_data_allocated [OF ok that] by simp
  have m: "0 < max_cache_size s" using ok by (simp add: cache_ok_def)
  have rd: "\<And>con. request_readfile files junk con (blank name) = Ret (1, fd, con)" using readfile_con [OF read] by simp
  have nm: "file_name fd = name" and sz: "0 \<le> file_size fd \<and> file_size fd + max_cache_size s < 2147483648"
    using readfile_result [OF read] size m by (auto simp: blank_def)
  have r: "refs_ok t es" using seq t(2) by (simp add: seq_ok_def refs_ok_def)
  have st: "\<forall>x \<in> set es. refCount (wk t x) = 0 \<and> (\<forall>g con. fdatas t (wdata (wk t x)) = Some g \<longrightarrow>
       request_readfile files junk con (blank (file_name g)) = Ret (1, g, con))"
    using seq t(2,3) fresh by (simp add: seq_ok_def)
  have data: "fdatas s (wdata (wk s e)) = Some fd" if e: "e \<in> set es" "name_of t e = name" for e
  proof -
    obtain g where g: "fdatas s (wdata (wk s e)) = Some g" by (rule cache_ok_entry [OF ok e(1)]) auto
    then have "file_name g = name" using e t(2,3) fresh by (simp add: name_of_def)
    then show ?thesis using g seq e(1) rd by (auto simp: seq_ok_def)
  qed
  have run: "do_server_request fuel files junk line s c =
      bnd (section_lookup ?d t) (\<lambda>(check, s1).
          case check of
            Some e \<Rightarrow> send_entry e s1 c1
          | None \<Rightarrow>
              bnd (section_insert ?d (set_data ?d fd s1)) (\<lambda>(check', s3).
              case check' of Some e \<Rightarrow> send_entry e s3 c1 | None \<Rightarrow> send_own ?d s3 c1))"
    using f(1) init m tm(1) rd by (simp add: do_server_request_def Let_def t_def [symmetric] blank_def [symmetric] cong: option.case_cong)
  have bd: "fdatas t ?d = Some (blank name)" "0 \<le> hash_value (file_name (blank name))" using t(3) h by (simp_all add: blank_def)
  from section_lookup_ok [OF t(1) bd r] consider (miss) "section_lookup ?d t = Ret (None, t)"
    | (hit) e s' ps' es' where "section_lookup ?d t = Ret (Some e, s')" "e \<in> set es" "name_of t e = name" "cache_ok s' ps' es' B"
      "used ?d t es e s' es'" "fdatas s' = fdatas t" by (auto simp: blank_def)
  then show ?thesis
  proof cases
    case hit
    have "wdata (wk s' e) = wdata (wk s e)" using hit t(2) by (auto simp: used_def)
    then have "fdatas s' (wdata (wk s' e)) = Some fd" using hit data t(3) fresh by simp
    from seq_used [OF st _ hit(4,5) _ _ this send] show ?thesis using run hit rd nm tm(2) mem by auto
  next
    case miss
    let ?t = "set_data ?d fd t"
    have ok2: "cache_ok ?t ps es B" using cache_ok_free_data [OF t(1), of ?d "Some fd"] fresh t(2) by (simp add: set_data_def)
    have w: "wk ?t = wk t" by (simp add: set_data_def wk_def fun_eq_iff)
    have st2: "\<forall>x \<in> set es. refCount (wk ?t x) = 0 \<and> (\<forall>g con. fdatas ?t (wdata (wk ?t x)) = Some g \<longrightarrow>
        request_readfile files junk con (blank (file_name g)) = Ret (1, g, con))"
      using st w fresh t(2) by (simp add: set_data_def)
    have d: "fdatas ?t ?d = Some fd" "?d < cbrk ?t" "\<And>x. x \<in> set es \<Longrightarrow> wdata (wk ?t x) \<noteq> ?d" "0 \<le> hash_value (file_name fd)" "0 \<le> file_size fd"
      "file_size fd + max_cache_size ?t < 2147483648" "\<And>n. cmem ?t n" "refs_ok ?t es"
      using t(2,4) w fresh h nm sz tm mem r by (simp_all add: set_data_def refs_ok_def)
    consider (none) "section_insert ?d ?t = Ret (None, ?t)"
      | (some) e s' ps' es' B' where "section_insert ?d ?t = Ret (Some e, s')" "cache_ok s' ps' es' B'" "used ?d ?t es e s' es'"
        "if e \<in> set es then name_of ?t e = file_name fd \<and> set es' = set es \<and> fdatas s' = (fdatas ?t)(?d := None) else e = cbrk ?t \<and> fdatas s' = fdatas ?t"
      using section_insert_ok [OF ok2 d] by blast
    then show ?thesis
    proof cases
      case none
      then have "do_server_request fuel files junk line s c = Ret (?t\<lparr>fdatas := (fdatas ?t)(?d := None)\<rparr>, c2\<lparr>closed := True\<rparr>)"
        using run miss d(1) send by (simp add: send_own_def request_destroy_def file_data_free_def)
      moreover have "cache_ok (?t\<lparr>fdatas := (fdatas ?t)(?d := None)\<rparr>) ps es B" by (rule cache_ok_free_data [OF ok2 d(3)])
      then have "seq_ok files junk (?t\<lparr>fdatas := (fdatas ?t)(?d := None)\<rparr>) es"
        using st2 d(3,7) unfolding seq_ok_def by (auto simp: wk_def)
      ultimately show ?thesis by blast
    next
      case some
      note i = some(1-3) and c = some(4)
      have keep: "fdatas s' (wdata (wk ?t x)) = fdatas ?t (wdata (wk ?t x))" if "x \<in> set es" for x
        using c d(3) [OF that] by (auto split: if_splits)
      have "fdatas s' (wdata (wk s' e)) = Some fd"
      proof (cases "e \<in> set es")
        case True
        then have "name_of t e = name" using c nm w fresh t(2) by (simp add: name_of_def set_data_def)
        then have "fdatas ?t (wdata (wk ?t e)) = Some fd" using data [OF True] w t(2,3) fresh [OF True] by (simp add: set_data_def)
        then show ?thesis using keep [OF True] i(3) True by (simp add: used_def)
      next
        case False
        then show ?thesis using c i(3) d(1) by (simp add: used_def)
      qed
      from seq_used [OF st2 d(7) i(2,3) keep _ this send] show ?thesis using run miss i(1) rd nm by auto
    qed
  qed
qed

section \<open>A run\<close>

definition ex_name :: "byte list" where
  "ex_name = [97]"

definition ex_stat :: file_stat where
  "ex_stat = \<lparr>is_reg = True, is_rusr = True, st_size = 2, open_ok = True, fcalls = [R_Data [7, 8]]\<rparr>"

definition ex_files :: fenv where
  "ex_files = (\<lambda>_. Some ex_stat)"

definition ex_conn :: conn where
  "ex_conn = \<lparr>incoming = [], outgoing = [], wcalls = [], printed = [], closed = False, sprintf_appends = True\<rparr>"

definition ex_data :: file_data where
  "ex_data = \<lparr>file_name = ex_name, file_buf = [7, 8], file_size = 2\<rparr>"

lemma ex_hash: "hash_value ex_name = 177670"
  by (simp add: hash_value_def ex_name_def)

lemma ex_readfile: "request_readfile ex_files zero_mem con (blank ex_name) = Ret (1, ex_data, con)"
proof -
  have "rio_read [R_Data [7, 8]] 2 [] = (2, [7, 8], [])" by (simp add: rio_read.simps)
  then show ?thesis
    by (simp add: request_readfile_def ex_files_def ex_stat_def ex_data_def ex_name_def blank_def Let_def cstr_def of_char_def Rio_read_def upt_rec)
qed

definition ex_cache :: "(nat \<Rightarrow> file_data option) \<Rightarrow> cache" where
  "ex_cache f = (empty_cache 4 True (\<lambda>_. True))\<lparr>cbrk := 1, fdatas := f\<rparr>"

lemma ex_insert:
  "\<exists>s. section_insert 0 (ex_cache [0 \<mapsto> ex_data]) = Ret (Some 1, s) \<and> currentSize s = 2 \<and>
     welems s 1 = Some \<lparr>word = 0, sizeofword = 2, wkey = 2, refCount = 1, wdata = 0, wnext = None, listLocation = Some 2\<rparr>"
  by (simp add: section_insert_def cache_lookup_def ex_cache_def empty_cache_def ex_data_def ex_hash bucket_def walk_fuel_def
      insert_and_use_def cache_insert_def initNodewE_def c_malloc_def upd_elem_def chain_insert_def buildNodeLRU_def pushbackLRU_def
      use_entry_def deleteSwapNode_def numeral_eq_Suc Let_def)

lemma ex_run:
  "\<exists>s. (cstep ex_files {ex_name})\<^sup>*\<^sup>* (csys_init 1 (empty_cache 4 True (\<lambda>_. True))) \<lparr>cstate = s, clients = [Q_Send 1]\<rparr> \<and> currentSize s = 2 \<and>
     refCount (wk s 1) = 1"
proof -
  let ?step = "cstep ex_files {ex_name}"
  let ?c = "\<lambda>f q. \<lparr>cstate = ex_cache f, clients = [q]\<rparr>"
  have "file_data_init (empty_cache 4 True (\<lambda>_. True)) = Ret (0, ex_cache [0 \<mapsto> \<lparr>file_name = [], file_buf = [], file_size = 0\<rparr>])"
    by (simp add: file_data_init_def c_malloc_def empty_cache_def ex_cache_def)
  from cstep.start [of 0 "csys_init 1 (empty_cache 4 True (\<lambda>_. True))", OF _ _ _ , of 0 _ ex_name "{ex_name}" ex_files] this
  have 1: "?step (csys_init 1 (empty_cache 4 True (\<lambda>_. True))) (?c [0 \<mapsto> blank ex_name] (Q_Look 0))"
    by (simp add: csys_init_def move_def set_data_def ex_cache_def blank_def)
  have "section_lookup 0 (ex_cache [0 \<mapsto> blank ex_name]) = Ret (None, ex_cache [0 \<mapsto> blank ex_name])"
    by (simp add: section_lookup_def cache_lookup_def ex_cache_def empty_cache_def blank_def ex_hash bucket_def walk_fuel_def Let_def numeral_eq_Suc)
  with cstep.miss [of 0 "?c [0 \<mapsto> blank ex_name] (Q_Look 0)" 0 _ ex_files "{ex_name}"]
  have 2: "?step (?c [0 \<mapsto> blank ex_name] (Q_Look 0)) (?c [0 \<mapsto> blank ex_name] (Q_Read 0))" by (simp add: move_def)
  from cstep.read_ok [of 0 "?c [0 \<mapsto> blank ex_name] (Q_Read 0)" 0 "blank ex_name" ex_files zero_mem ex_conn 1 ex_data ex_conn "{ex_name}"]
  have 3: "?step (?c [0 \<mapsto> blank ex_name] (Q_Read 0)) (?c [0 \<mapsto> ex_data] (Q_Fill 0))"
    using ex_readfile by (simp add: move_def ex_cache_def set_data_def)
  obtain s where s: "section_insert 0 (ex_cache [0 \<mapsto> ex_data]) = Ret (Some 1, s)" "currentSize s = 2" "refCount (wk s 1) = 1"
    using ex_insert by (auto simp: wk_def)
  from cstep.fill_use [of 0 "?c [0 \<mapsto> ex_data] (Q_Fill 0)" 0 1 s ex_files "{ex_name}"] s(1)
  have 4: "?step (?c [0 \<mapsto> ex_data] (Q_Fill 0)) \<lparr>cstate = s, clients = [Q_Send 1]\<rparr>" by (simp add: move_def)
  from 1 2 3 4 have "?step\<^sup>*\<^sup>* (csys_init 1 (empty_cache 4 True (\<lambda>_. True))) \<lparr>cstate = s, clients = [Q_Send 1]\<rparr>"
    by (meson r_into_rtranclp rtranclp.rtrancl_into_rtrancl)
  then show ?thesis using s by blast
qed

section \<open>Properties\<close>

text \<open>
  C32: the cache under any interleaving of any number of worker threads: the accounted size is the
  sum of the sizes of the entries and never exceeds the limit, the use count of every entry is the
  number of threads sending it, and the next section of every thread runs without touching freed
  memory; in particular an entry is not evicted while a thread sends it. The names asked for must
  have hash values that are not negative (a negative one indexes in front of the table), the sizes
  of the files must not overflow the accounted size, \<^verbatim>\<open>int\<close> arithmetic must wrap around, and
  memory must not run out.
\<close>

theorem cache_pool_safety:
  assumes "0 < m" "m < 2147483648" "n < 2147483647" "cache_init m ht_ok lq_ok True ok = Ret s0" "\<And>k. ok k" "\<And>name. name \<in> names \<Longrightarrow> 0 \<le> hash_value name"
    and "\<And>name st. files name = Some st \<Longrightarrow> 0 \<le> st_size st \<and> st_size st + m < 2147483648"
    and "(cstep files names)\<^sup>*\<^sup>* (csys_init n s0) c"
  shows "\<exists>es. distinct es \<and> currentSize (cstate c) = (\<Sum>e\<leftarrow>es. sizeofword (wk (cstate c) e)) \<and> currentSize (cstate c) \<le> m \<and>
    (\<forall>e \<in> set es. refCount (wk (cstate c) e) = int (count_list (clients c) (Q_Send e))) \<and>
    (\<forall>i < n. next_ok (cstate c) (clients c ! i))"
proof -
  have "(\<exists>es. csys_ok c es) \<and> max_cache_size (cstate c) = m \<and> length (clients c) = n" by (rule reach_ok [where ok = ok]) (use assms cache_init_Ret [OF assms(4)] in auto)
  then obtain es where es: "csys_ok c es" "max_cache_size (cstate c) = m" "length (clients c) = n" by blast
  then have "\<forall>i < n. next_ok (cstate c) (clients c ! i)" using csys_next_ok [OF es(1)] by simp
  then show ?thesis using es by (intro exI [of _ es]) (auto simp: csys_ok_def cache_ok_def lru_def counts_ok_def)
qed

theorem cache_pool_safety_witness:
  "\<exists>s. (cstep ex_files {ex_name})\<^sup>*\<^sup>* (csys_init 1 (empty_cache 4 True (\<lambda>_. True))) \<lparr>cstate = s, clients = [Q_Send 1]\<rparr> \<and> currentSize s = 2 \<and>
     next_ok s (Q_Send 1)"
proof -
  obtain s where s: "(cstep ex_files {ex_name})\<^sup>*\<^sup>* (csys_init 1 (empty_cache 4 True (\<lambda>_. True))) \<lparr>cstate = s, clients = [Q_Send 1]\<rparr>" "currentSize s = 2"
    using ex_run by blast
  have "\<exists>es. distinct es \<and> currentSize s = (\<Sum>e\<leftarrow>es. sizeofword (wk s e)) \<and> currentSize s \<le> 4 \<and>
      (\<forall>e \<in> set es. refCount (wk s e) = int (count_list [Q_Send 1] (Q_Send e))) \<and> (\<forall>i < 1. next_ok s ([Q_Send 1] ! i))"
    using cache_pool_safety [of 4 1 True True "\<lambda>_. True" "empty_cache 4 True (\<lambda>_. True)", OF _ _ _ _ _ _ _ s(1)]
    by (auto simp: ex_hash ex_files_def ex_stat_def cache_init_def)
  then show ?thesis using s by auto
qed

text \<open>
  C34: eviction takes the least recently used entry that is not in use, when it is large enough:
  then exactly this entry leaves the cache and its size is given back. Otherwise nothing changes;
  a second entry is never evicted. The cache satisfies its invariant.
\<close>

theorem cache_evicts_lru:
  assumes "cache_ok s ps es B"
  shows "case victim s es of None \<Rightarrow> cache_evict a s = Ret (False, s)
    | Some e \<Rightarrow> if a \<le> sizeofword (wk s e)
        then \<exists>s' ps' B'. cache_evict a s = Ret (True, s') \<and> cache_ok s' ps' (remove1 e es) B' \<and>
          currentSize s' = currentSize s - sizeofword (wk s e)
        else cache_evict a s = Ret (False, s)"
  using cache_evict_ok [OF assms, of a] by (auto split: option.splits if_splits)

theorem cache_evicts_lru_witness:
  "\<exists>s s'. welems s 1 \<noteq> None \<and> cache_evict 0 s = Ret (True, s') \<and> currentSize s' = 0"
proof -
  have "cache_ok (ex_cache [0 \<mapsto> ex_data]) [] [] (\<lambda>_. [])"
    by (simp add: cache_ok_def ex_cache_def empty_cache_def lru_def buckets_ok_def)
  from cache_insert_ok [OF this, of 0 ex_data 1] obtain s l B where s: "cache_ok s [l] [1] B" "refCount (wk s 1) = 0"
    by (auto simp: ex_cache_def empty_cache_def ex_data_def ex_hash)
  have "welems s 1 \<noteq> None \<and> 0 \<le> sizeofword (wk s 1)" by (rule cache_ok_entry [OF s(1), of 1]) auto
  moreover from this obtain s' ps' B' where "cache_evict 0 s = Ret (True, s')" "cache_ok s' ps' [] B'"
    using cache_evicts_lru [OF s(1), of 0] s(2) by (auto simp: victim_def)
  moreover from this have "currentSize s' = 0" by (simp add: cache_ok_def)
  ultimately show ?thesis by blast
qed



text \<open>
  C33: the cache is transparent for a file that can be read, whose name has a hash value that is not
  negative and whose size does not overflow the accounted size, with \<^verbatim>\<open>int\<close> arithmetic that wraps
  around: a server without worker threads whose
  cache holds what the files hold sends the same bytes to the client as the server without a cache,
  hit or miss, with or without eviction, and its cache still holds what the files hold.
\<close>

theorem cache_transparent:
  assumes "seq_ok files junk s es" "request_init fuel c line = Ret (Some name, c1)" "0 \<le> hash_value name"
    and "\<And>st. files name = Some st \<Longrightarrow> 0 \<le> st_size st \<and> st_size st + max_cache_size s < 2147483648"
    and "request_readfile files junk c1 (blank name) = Ret (1, fd, c1)" "request_sendfile c1 fd = Ret c2"
  shows "\<exists>s' es' t. do_server_request fuel files junk line s c = Ret (s', c2\<lparr>closed := True\<rparr>) \<and> seq_ok files junk s' es' \<and>
    do_server_request fuel files junk line (empty_cache 0 True (\<lambda>_. True)) c = Ret (t, c2\<lparr>closed := True\<rparr>)"
proof -
  have "\<exists>t. do_server_request fuel files junk line (empty_cache 0 True (\<lambda>_. True)) c = Ret (t, c2\<lparr>closed := True\<rparr>)"
    using assms(2,5,6) by (simp add: do_server_request_def file_data_init_def c_malloc_def empty_cache_def set_data_def blank_def
        send_own_def request_destroy_def file_data_free_def Let_def)
  then show ?thesis using do_server_request_cached [OF assms] by blast
qed

definition ex_request :: conn where
  "ex_request = ex_conn\<lparr>incoming := [R_Data (cstr ''GET /a HTTP/1.0'' @ crlf @ crlf)]\<rparr>"

theorem cache_transparent_witness:
  "\<exists>s' t c'. do_server_request 1 ex_files zero_mem [] (empty_cache 4 True (\<lambda>_. True)) ex_request = Ret (s', c') \<and>
     do_server_request 1 ex_files zero_mem [] (empty_cache 0 True (\<lambda>_. True)) ex_request = Ret (t, c') \<and> closed c'"
proof -
  let ?n = "cstr ''.//a''" and ?fd = "\<lparr>file_name = cstr ''.//a'', file_buf = [7, 8], file_size = 2\<rparr>"
  have init: "request_init 1 ex_request [] = Ret (Some ?n, ex_request)"
    using request_init_ok [of ex_request "cstr ''/a''" "cstr ''HTTP/1.0''" "[]" "[]" 1 "[]"]
    by (simp add: ex_request_def cstr_def of_char_def crlf_def is_blank_def MAXLINE_def)
  have h: "0 \<le> hash_value ?n" by (simp add: hash_value_def cstr_def of_char_def to_s32_def)
  have "rio_read [R_Data [7, 8]] 2 [] = (2, [7, 8], [])" by (simp add: rio_read.simps)
  then have read: "request_readfile ex_files zero_mem ex_request (blank ?n) = Ret (1, ?fd, ex_request)"
    by (simp add: request_readfile_def ex_files_def ex_stat_def blank_def Let_def cstr_def of_char_def Rio_read_def upt_rec)
  have "reliable ex_request" by (simp add: reliable_def ex_request_def ex_conn_def)
  then obtain c2 where send: "request_sendfile ex_request ?fd = Ret c2" using sendfile_ok [of ex_request ?fd] by auto
  have "cache_ok (empty_cache 4 True (\<lambda>_. True)) [] [] (\<lambda>_. [])"
    by (simp add: cache_ok_def empty_cache_def lru_def buckets_ok_def)
  then have "seq_ok ex_files zero_mem (empty_cache 4 True (\<lambda>_. True)) []" unfolding seq_ok_def by (auto simp: empty_cache_def)
  from cache_transparent [OF this init h _ read send] obtain s' t where
    "do_server_request 1 ex_files zero_mem [] (empty_cache 4 True (\<lambda>_. True)) ex_request = Ret (s', c2\<lparr>closed := True\<rparr>)"
    "do_server_request 1 ex_files zero_mem [] (empty_cache 0 True (\<lambda>_. True)) ex_request = Ret (t, c2\<lparr>closed := True\<rparr>)"
    by (auto simp: ex_files_def ex_stat_def empty_cache_def)
  then show ?thesis by (intro exI [of _ s'] exI [of _ t] exI [of _ "c2\<lparr>closed := True\<rparr>"]) simp
qed

end
