(* ===== verification/Web_Client.thy ===== *)
theory Web_Client
  imports Web_CacheSys
begin

text \<open>
  The client of the web server (\<^verbatim>\<open>webserver/client.c\<close>): sending a request, receiving and checking
  the response, reading the index of a file set; and client, server and cache together. A
  connection is what the client sends and receives; the standard output is one too. Threads,
  sockets, random numbers and time are not modelled.
\<close>

section \<open>Sending a request\<close>

text \<open>
  The second \<^verbatim>\<open>sprintf\<close> has its own buffer as an argument, as in \<^verbatim>\<open>request_error\<close>, which
  the C standard leaves undefined; \<^verbatim>\<open>sprintf_appends\<close> says whether the C library of the
  client appends.
\<close>

definition client_send :: "conn \<Rightarrow> byte list \<Rightarrow> byte list \<Rightarrow> conn res" where
  "client_send c host filename =
    (let buf = cstr ''GET '' @ filename @ cstr '' HTTP/1.0'' @ crlf @ cstr ''host: '' @ host @ crlf @ crlf in
     bnd (guard_ub (sprintf_appends c \<and> length buf < MAXLINE)) (\<lambda>_. send c buf))"

section \<open>Scanning numbers\<close>

text \<open>
  The string in a buffer, and the conversions \<^verbatim>\<open>%d\<close> and \<^verbatim>\<open>%u\<close> of \<^verbatim>\<open>sscanf\<close>: \<^const>\<open>None\<close> when there is no
  number. A number that does not fit is undefined.
\<close>

definition str_of :: "byte list \<Rightarrow> byte list" where
  "str_of buf = takeWhile (\<lambda>b. b \<noteq> 0) buf"

definition scan_number :: "byte list \<Rightarrow> (int \<times> byte list) option" where
  "scan_number s = (case str_number s of (neg, n, rest) \<Rightarrow> if rest = s then None else Some (if neg then - n else n, rest))"

definition scan_d :: "byte list \<Rightarrow> (int \<times> byte list) option res" where
  "scan_d s =
    (case scan_number s of
       None \<Rightarrow> Ret None
     | Some (n, rest) \<Rightarrow> bnd (guard_ub (in_s32 n)) (\<lambda>_. Ret (Some (n, rest))))"

definition scan_u :: "byte list \<Rightarrow> (int \<times> byte list) option res" where
  "scan_u s =
    (case scan_number s of
       None \<Rightarrow> Ret None
     | Some (n, rest) \<Rightarrow> bnd (guard_ub (\<bar>n\<bar> < 4294967296)) (\<lambda>_. Ret (Some (to_u32 n, rest))))"

text \<open>\<^verbatim>\<open>sscanf(buf, "tag: %d ", &x)\<close>: the new value of \<^verbatim>\<open>x\<close>, the old one when the tag or the number is missing.\<close>

definition scan_tag :: "(byte list \<Rightarrow> (int \<times> byte list) option res) \<Rightarrow> string \<Rightarrow> byte list \<Rightarrow> int \<Rightarrow> int res" where
  "scan_tag conv tag buf x =
    (let s = str_of buf; t = cstr tag in
     if take (length t) s = t then
       bnd (conv (drop (length t) s)) (\<lambda>r. Ret (case r of None \<Rightarrow> x | Some (n, _) \<Rightarrow> n))
     else Ret x)"

section \<open>How far the input has been read\<close>

definition left :: "rio \<Rightarrow> nat" where
  "left rp = length (unread rp) + weight (calls rp)"

lemma sys_read_left: "0 < n \<Longrightarrow> sys_read n cs = (R_Data bs, cs') \<Longrightarrow> length bs + weight cs' \<le> weight cs"
  by (induction n cs rule: sys_read.induct) (auto split: if_splits)

lemma rio_fill_left: "rio_fill rp = (r, rp') \<Longrightarrow> left rp' \<le> left rp \<and> (0 < r \<longrightarrow> unread rp' \<noteq> [])"
proof (induction rp arbitrary: r rp' rule: rio_fill.induct)
  case (1 rp)
  show ?case
  proof (cases "unread rp = []")
    case True
    obtain x cs where x: "sys_read RIO_BUFSIZE (calls rp) = (x, cs)" by fastforce
    have p: "0 < RIO_BUFSIZE" by (simp add: RIO_BUFSIZE_def)
    have w: "x \<noteq> R_Data [] \<Longrightarrow> weight cs < weight (calls rp)" using sys_read_weight [OF p x] .
    show ?thesis
    proof (cases x)
      case R_Intr
      then have "rio_fill (rp\<lparr>calls := cs\<rparr>) = (r, rp')" using 1(2) True x by (subst (asm) rio_fill.simps) simp
      then have "left rp' \<le> left (rp\<lparr>calls := cs\<rparr>) \<and> (0 < r \<longrightarrow> unread rp' \<noteq> [])" by (rule 1(1) [OF True x [symmetric] R_Intr])
      then show ?thesis using w R_Intr by (simp add: left_def)
    next
      case R_Fail
      then show ?thesis using 1(2) True x w by (subst (asm) rio_fill.simps) (auto simp: left_def)
    next
      case (R_Data bs)
      then show ?thesis using 1(2) True x sys_read_left [OF p, of "calls rp" bs cs]
        by (subst (asm) rio_fill.simps) (auto simp: left_def split: if_splits)
    qed
  next
    case False
    then show ?thesis using 1(2) by (subst (asm) rio_fill.simps) auto
  qed
qed

lemma rio_readb_left:
  assumes "rio_readb rp 1 = (rc, bs, rp')"
  shows "left rp' \<le> left rp \<and> (rc = 1 \<longrightarrow> left rp' < left rp \<and> length bs = 1)"
proof -
  obtain r rp1 where f: "rio_fill rp = (r, rp1)" by fastforce
  show ?thesis
  proof (cases "r \<le> 0")
    case True
    then show ?thesis using assms f rio_fill_left [OF f] by (auto simp: rio_readb_def)
  next
    case False
    then show ?thesis using assms f rio_fill_left [OF f] by (cases "unread rp1") (auto simp: rio_readb_def left_def)
  qed
qed

lemma readline_left:
  "readline_loop k rp got = (r, got', z, rp') \<Longrightarrow> left rp' \<le> left rp \<and> (int (length got) < r \<longrightarrow> left rp' < left rp)"
proof (induction k arbitrary: rp got)
  case (Suc k)
  obtain rc bs rp1 where b: "rio_readb rp 1 = (rc, bs, rp1)" by (cases "rio_readb rp 1")
  note l = rio_readb_left [OF b]
  show ?case
  proof (cases "rc = 1")
    case True
    then show ?thesis using Suc.prems b l Suc.IH [of rp1 "got @ bs"] by (auto simp: Let_def split: if_splits)
  qed (use Suc.prems b l in \<open>auto split: if_splits\<close>)
qed simp

lemma Rio_readlineb_left:
  assumes "Rio_readlineb cap rp buf k = Ret (n, buf', rp')"
  shows "left rp' \<le> left rp" "0 < n \<Longrightarrow> left rp' < left rp"
  using assms readline_left [of k rp "[]"]
  by (auto simp: Rio_readlineb_def rio_readlineb_def res_simps split: prod.splits if_splits)

section \<open>Receiving the response\<close>

text \<open>
  The loop over the header lines; \<^verbatim>\<open>n\<close> is what the last read returned and \<^verbatim>\<open>so\<close> the standard output. At the end of the
  input the last line is still in the buffer and is scanned again.
\<close>

function client_headers ::
  "bool \<Rightarrow> conn \<Rightarrow> rio \<Rightarrow> int \<Rightarrow> byte list \<Rightarrow> int \<Rightarrow> int \<Rightarrow> (int \<times> int \<times> byte list \<times> conn \<times> rio) res" where
  "client_headers print so rp n buf len csum =
    (if str_of buf \<noteq> crlf \<and> n > 0 then
       let so1 = (if print then so\<lparr>outgoing := outgoing so @ cstr ''Header: '' @ str_of buf\<rparr> else so) in
       bnd (Rio_readlineb MAXBUF rp buf MAXBUF) (\<lambda>(n', buf', rp').
       bnd (scan_tag scan_d ''Content-Length:'' buf' len) (\<lambda>len'.
       bnd (scan_tag scan_u ''Content-Csum:'' buf' csum) (\<lambda>csum'.
       client_headers print so1 rp' n' buf' len' csum')))
     else Ret (len, csum, buf, so, rp))"
  by pat_completeness auto
termination
  by (relation "measure (\<lambda>(print, so, rp, n, buf, len, csum). 2 * left rp + (if n > 0 then 1 else 0))")
    (auto dest: Rio_readlineb_left)

declare client_headers.simps [simp del]

text \<open>The loop over the body, which it reads in lines, too.\<close>

function client_body ::
  "bool \<Rightarrow> conn \<Rightarrow> rio \<Rightarrow> byte list \<Rightarrow> int \<Rightarrow> int \<Rightarrow> (int \<times> int \<times> conn) res" where
  "client_body print so rp buf received csum =
    bnd (Rio_readlineb MAXBUF rp buf MAXBUF) (\<lambda>(n, buf', rp').
    bnd (if print then send so (take (nat n) buf') else Ret so) (\<lambda>so1.
    bnd (guard_ub (in_s32 (received + n))) (\<lambda>_.
    let csum' = foldl (\<lambda>a b. to_u32 (a + uint b)) csum (take (nat n) buf') in
    if n > 0 then client_body print so1 rp' buf' (received + n) csum' else Ret (received + n, csum', so1))))"
  by pat_completeness auto
termination
  by (relation "measure (\<lambda>(print, so, rp, buf, received, csum). left rp)") (auto dest: Rio_readlineb_left)

declare client_body.simps [simp del]

definition client_print :: "conn \<Rightarrow> byte list \<Rightarrow> conn \<Rightarrow> int \<Rightarrow> int \<Rightarrow> bool \<Rightarrow> conn res" where
  "client_print so junk c orig_csum orig_length print =
    bnd (Rio_readlineb MAXBUF (rio_init (incoming c)) junk MAXBUF) (\<lambda>(n, buf, rp).
    bnd (client_headers print so rp n buf 0 0) (\<lambda>(len, csum, buf1, so1, rp1).
    bnd (client_body print so1 rp1 buf1 0 0) (\<lambda>(length_received, csum_received, so2).
    bnd (c_assert (orig_csum = csum)) (\<lambda>_.
    bnd (c_assert (orig_length = len)) (\<lambda>_.
    bnd (c_assert (len = length_received)) (\<lambda>_.
    bnd (c_assert (csum = csum_received)) (\<lambda>_.
    Ret so2)))))))"

section \<open>The index of a file set\<close>

record fileinfo =
  fi_name :: "byte list"
  fi_csum :: int
  fi_len :: int

text \<open>
  \<^verbatim>\<open>sscanf(buf, "%s %u %d", ..)\<close> into fields that hold \<^verbatim>\<open>fi\<close>: conversions stop at the first that fails.
\<close>

definition scan_fileinfo :: "byte list \<Rightarrow> fileinfo \<Rightarrow> fileinfo res" where
  "scan_fileinfo buf fi =
    (case scan_word (str_of buf) of
       (None, _) \<Rightarrow> Ret fi
     | (Some w, s1) \<Rightarrow>
         bnd (scan_u s1) (\<lambda>r1.
         case r1 of
           None \<Rightarrow> Ret (fi\<lparr>fi_name := w\<rparr>)
         | Some (u, s2) \<Rightarrow>
             bnd (scan_d s2) (\<lambda>r2.
             Ret (fi\<lparr>fi_name := w, fi_csum := u, fi_len := (case r2 of None \<Rightarrow> fi_len fi | Some (d, _) \<Rightarrow> d)\<rparr>))))"

definition atoi :: "byte list \<Rightarrow> int res" where
  "atoi s = bnd (scan_d s) (\<lambda>r. Ret (case r of None \<Rightarrow> 0 | Some (n, _) \<Rightarrow> n))"

text \<open>
  The loop of \<^verbatim>\<open>init_fileset\<close>: \<^verbatim>\<open>fs\<close> are the entries filled so far, \<^verbatim>\<open>new\<close> what fresh memory holds. The name's
  memory, as long as the line, has room for any word of it.
\<close>

function init_fileset_loop :: "fileinfo \<Rightarrow> rio \<Rightarrow> byte list \<Rightarrow> int \<Rightarrow> fileinfo list \<Rightarrow> (int \<times> fileinfo list) res" where
  "init_fileset_loop new rp buf nr_files fs =
    bnd (Rio_readlineb MAXLINE rp buf MAXLINE) (\<lambda>(n, buf', rp').
    if n \<le> 0 then
      bnd (c_assert (nr_files > 0)) (\<lambda>_.
      bnd (c_assert (int (length fs) = nr_files)) (\<lambda>_. Ret (nr_files, fs)))
    else if nr_files = 0 then
      bnd (atoi (str_of buf')) (\<lambda>m.
      bnd (c_assert (m > 0)) (\<lambda>_. init_fileset_loop new rp' buf' m fs))
    else
      bnd (c_assert (int (length fs) < nr_files)) (\<lambda>_.
      bnd (scan_fileinfo buf' new) (\<lambda>fi. init_fileset_loop new rp' buf' nr_files (fs @ [fi]))))"
  by pat_completeness auto
termination
  by (relation "measure (\<lambda>(new, rp, buf, nr_files, fs). left rp)") (auto dest: Rio_readlineb_left)

declare init_fileset_loop.simps [simp del]

definition init_fileset :: "fileinfo \<Rightarrow> byte list \<Rightarrow> rcall list \<Rightarrow> (int \<times> fileinfo list) res" where
  "init_fileset new junk cs = init_fileset_loop new (rio_init cs) junk 0 []"

section \<open>Numbers and tags\<close>

lemma scan_number_space: "is_space b \<Longrightarrow> scan_number (b # s) = scan_number s"
proof -
  assume b: "is_space b"
  define s1 where "s1 = dropWhile is_space s"
  define s2 where "s2 = (case s1 of c # cs \<Rightarrow> if c = 45 \<or> c = 43 then cs else s1 | [] \<Rightarrow> [])"
  have "length s1 \<le> length s" by (simp add: s1_def length_dropWhile_le)
  moreover have "length s2 \<le> length s1" by (simp add: s2_def split: list.splits)
  moreover have "takeWhile is_digit s2 \<noteq> [] \<Longrightarrow> length (dropWhile is_digit s2) < length s2"
    by (metis add.commute length_append length_greater_0_conv less_add_same_cancel2 takeWhile_dropWhile_id)
  ultimately have "takeWhile is_digit s2 \<noteq> [] \<Longrightarrow> dropWhile is_digit s2 \<noteq> s \<and> dropWhile is_digit s2 \<noteq> b # s" by auto
  then show ?thesis
    using b unfolding scan_number_def str_number_def Let_def dropWhile.simps if_P [OF b] s1_def [symmetric] s2_def [symmetric] by auto
qed

lemma dec_int_not_empty [simp]: "dec_int x \<noteq> []"
  using dec_nat_digits [of "nat x"] by (simp add: dec_int_def)

lemma scan_number_dec: "rest = [] \<or> \<not> is_digit (hd rest) \<Longrightarrow> scan_number (dec_int x @ rest) = Some (x, rest)"
  using str_number_dec [of rest x] by (simp add: scan_number_def)

lemma scan_d_dec: "in_s32 x \<Longrightarrow> rest = [] \<or> \<not> is_digit (hd rest) \<Longrightarrow> scan_d (dec_int x @ rest) = Ret (Some (x, rest))"
  by (simp add: scan_d_def scan_number_dec)

lemma scan_u_dec:
  "0 \<le> x \<Longrightarrow> x < 4294967296 \<Longrightarrow> rest = [] \<or> \<not> is_digit (hd rest) \<Longrightarrow> scan_u (dec_int x @ rest) = Ret (Some (x, rest))"
  by (simp add: scan_u_def scan_number_dec)

lemma scan_space: "is_space b \<Longrightarrow> scan_d (b # s) = scan_d s" "is_space b \<Longrightarrow> scan_u (b # s) = scan_u s"
  by (simp_all add: scan_d_def scan_u_def scan_number_space)

lemma digit_bytes: "is_digit b \<Longrightarrow> b \<noteq> 0 \<and> b \<noteq> 10 \<and> b \<noteq> 13"
  by (auto simp: is_digit_def word_le_nat_alt)

lemma dec_int_bytes:
  assumes "0 \<le> x"
  shows "0 \<notin> set (dec_int x)" "10 \<notin> set (dec_int x)" "\<forall>b \<in> set (dec_int x). is_digit b"
proof -
  show "\<forall>b \<in> set (dec_int x). is_digit b" using dec_nat_digits [of "nat x"] assms by (simp add: dec_int_def list_all_iff)
  then show "0 \<notin> set (dec_int x)" "10 \<notin> set (dec_int x)" using digit_bytes by blast+
qed

lemma str_of_line: "0 \<notin> set h \<Longrightarrow> str_of (h @ crlf) = h @ crlf"
  unfolding str_of_def by (rule until_zero)

section \<open>The headers of a response\<close>

lemma Rio_readlineb_crlf:
  assumes "sound (calls rp)" "rstream rp = h @ crlf @ rest" "10 \<notin> set h" "length h + 2 < MAXBUF"
  shows "\<exists>rp'. Rio_readlineb MAXBUF rp buf MAXBUF = Ret (int (length h) + 2, h @ crlf, rp') \<and> sound (calls rp') \<and> rstream rp' = rest"
  using Rio_readlineb_line [OF assms(1-3), of buf] assms(4) by (simp add: MAXLINE_def MAXBUF_def)

text \<open>What the loop prints of a line.\<close>

definition show_header :: "bool \<Rightarrow> byte list \<Rightarrow> conn \<Rightarrow> conn" where
  "show_header print h so = (if print then so\<lparr>outgoing := outgoing so @ cstr ''Header: '' @ h @ crlf\<rparr> else so)"

lemma client_headers_step:
  assumes rp: "sound (calls rp)" "rstream rp = h @ crlf @ rest" and h: "10 \<notin> set h" "0 \<notin> set h" "length h + 2 < MAXBUF"
    and g: "g \<noteq> []" "0 \<notin> set g" "n > 0"
    and scan: "scan_tag scan_d ''Content-Length:'' (h @ crlf) len = Ret len'" "scan_tag scan_u ''Content-Csum:'' (h @ crlf) csum = Ret csum'"
  obtains rp' where "client_headers print so rp n (g @ crlf) len csum =
      client_headers print (show_header print g so) rp' (int (length h) + 2) (h @ crlf) len' csum'"
    "sound (calls rp')" "rstream rp' = rest"
proof -
  obtain rp' where "Rio_readlineb MAXBUF rp (g @ crlf) MAXBUF = Ret (int (length h) + 2, h @ crlf, rp')" "sound (calls rp')" "rstream rp' = rest"
    using Rio_readlineb_crlf [OF rp h(1,3)] by blast
  moreover have "str_of (g @ crlf) \<noteq> crlf" using str_of_line [OF g(2)] g(1) by simp
  ultimately show ?thesis
    using g(3) scan str_of_line [OF g(2)] by (intro that [of rp']) (subst client_headers.simps, simp_all add: show_header_def)
qed

lemma client_headers_end: "client_headers print so rp n crlf len csum = Ret (len, csum, crlf, so, rp)"
  by (simp add: client_headers.simps str_of_def crlf_def)


text \<open>The header lines of a response.\<close>

definition type_line :: "byte list \<Rightarrow> byte list" where
  "type_line name = cstr ''Content-Type: '' @ request_get_file_type name"

definition length_line :: "int \<Rightarrow> byte list" where
  "length_line n = cstr ''Content-Length: '' @ dec_int n"

definition csum_line :: "int \<Rightarrow> byte list" where
  "csum_line n = cstr ''Content-Csum: '' @ dec_int n"

lemmas cstr_simps = cstr_def of_char_def

lemma scan_tag_other: "take (length (cstr tag)) (str_of buf) \<noteq> cstr tag \<Longrightarrow> scan_tag conv tag buf x = Ret x"
  by (simp add: scan_tag_def Let_def)

lemma type_line_ok: "10 \<notin> set (type_line name)" "0 \<notin> set (type_line name)" "length (type_line name) < 25" "type_line name \<noteq> []"
  by (auto simp: type_line_def request_get_file_type_def cstr_simps)

lemma dec_nat_length: "n < 10 ^ Suc k \<Longrightarrow> length (dec_nat n) \<le> Suc k"
proof (induction k arbitrary: n)
  case (Suc k)
  then show ?case using Suc.IH [of "n div 10"] by (subst dec_nat.simps) auto
qed (subst dec_nat.simps, simp)

lemma dec_int_length: "0 \<le> x \<Longrightarrow> x < 10000000000 \<Longrightarrow> length (dec_int x) \<le> 10"
  using dec_nat_length [of "nat x" 9] by (simp add: dec_int_def)

lemma number_line_ok:
  assumes "0 \<le> x" "x < 10000000000"
  shows "10 \<notin> set (length_line x)" "0 \<notin> set (length_line x)" "length (length_line x) < 100" "length_line x \<noteq> []"
    "10 \<notin> set (csum_line x)" "0 \<notin> set (csum_line x)" "length (csum_line x) < 100" "csum_line x \<noteq> []"
  using dec_int_bytes [OF assms(1)] dec_int_length [OF assms] by (auto simp: length_line_def csum_line_def cstr_simps)

lemma scan_type: "scan_tag conv ''Content-Length:'' (type_line name @ crlf) x = Ret x" "scan_tag conv ''Content-Csum:'' (type_line name @ crlf) x = Ret x"
  by (rule scan_tag_other, subst str_of_line [OF type_line_ok(2)], simp add: type_line_def cstr_simps)+

lemma scan_server:
  "scan_tag conv ''Content-Length:'' (cstr ''Server: OS Web Server'' @ crlf) x = Ret x"
  "scan_tag conv ''Content-Csum:'' (cstr ''Server: OS Web Server'' @ crlf) x = Ret x"
  by (rule scan_tag_other, subst str_of_line, simp add: cstr_simps, simp add: cstr_simps)+

lemma scan_empty: "scan_tag conv ''Content-Length:'' crlf x = Ret x" "scan_tag conv ''Content-Csum:'' crlf x = Ret x"
  by (rule scan_tag_other, simp add: str_of_def crlf_def cstr_simps)+

lemma crlf_not_digit: "crlf = [] \<or> \<not> is_digit (hd crlf)"
  by (simp add: crlf_def is_digit_def)

lemma scan_length:
  assumes "0 \<le> n" "n < 2147483648"
  shows "scan_tag scan_d ''Content-Length:'' (length_line n @ crlf) x = Ret n" "scan_tag conv ''Content-Csum:'' (length_line n @ crlf) x = Ret x"
proof -
  have z: "str_of (length_line n @ crlf) = length_line n @ crlf" by (rule str_of_line) (use number_line_ok [of n] assms in simp)
  have "scan_d (32 # dec_int n @ crlf) = Ret (Some (n, crlf))"
    using scan_d_dec [OF _ crlf_not_digit, of n] assms by (simp add: scan_space is_space_def in_s32_def)
  then show "scan_tag scan_d ''Content-Length:'' (length_line n @ crlf) x = Ret n"
    unfolding scan_tag_def Let_def z by (simp add: length_line_def cstr_simps)
  show "scan_tag conv ''Content-Csum:'' (length_line n @ crlf) x = Ret x"
    by (rule scan_tag_other) (unfold z, simp add: length_line_def cstr_simps)
qed

lemma scan_csum:
  assumes "0 \<le> n" "n < 4294967296"
  shows "scan_tag scan_u ''Content-Csum:'' (csum_line n @ crlf) x = Ret n" "scan_tag conv ''Content-Length:'' (csum_line n @ crlf) x = Ret x"
proof -
  have z: "str_of (csum_line n @ crlf) = csum_line n @ crlf" by (rule str_of_line) (use number_line_ok [of n] assms in simp)
  have "scan_u (32 # dec_int n @ crlf) = Ret (Some (n, crlf))"
    using scan_u_dec [OF assms crlf_not_digit] by (simp add: scan_space is_space_def)
  then show "scan_tag scan_u ''Content-Csum:'' (csum_line n @ crlf) x = Ret n"
    unfolding scan_tag_def Let_def z by (simp add: csum_line_def cstr_simps)
  show "scan_tag conv ''Content-Length:'' (csum_line n @ crlf) x = Ret x"
    by (rule scan_tag_other) (unfold z, simp add: csum_line_def cstr_simps)
qed

text \<open>The loop on any number of header lines.\<close>

primrec scan_all :: "byte list list \<Rightarrow> int \<Rightarrow> int \<Rightarrow> (int \<times> int) res" where
  "scan_all [] len csum = Ret (len, csum)"
| "scan_all (h # hs) len csum =
    bnd (scan_tag scan_d ''Content-Length:'' (h @ crlf) len) (\<lambda>len'.
    bnd (scan_tag scan_u ''Content-Csum:'' (h @ crlf) csum) (\<lambda>csum'.
    scan_all hs len' csum'))"

lemma client_headers_run:
  assumes "sound (calls rp)" "rstream rp = concat (map (\<lambda>h. h @ crlf) hs) @ crlf @ body" "list_all header_line (g # hs)" "n > 0"
    "scan_all hs len csum = Ret (len', csum')"
  shows "\<exists>rp'. client_headers print so rp n (g @ crlf) len csum = Ret (len', csum', crlf, fold (show_header print) (g # hs) so, rp') \<and>
    sound (calls rp') \<and> rstream rp' = body"
  using assms
proof (induction hs arbitrary: rp g n so len csum)
  case Nil
  have g: "g \<noteq> []" "0 \<notin> set g" using Nil.prems(3) by (simp_all add: header_line_def)
  have e: "rstream rp = [] @ crlf @ body" using Nil.prems(2) by simp
  obtain rp' where "client_headers print so rp n (g @ crlf) len csum =
      client_headers print (show_header print g so) rp' (int (length ([]::byte list)) + 2) ([] @ crlf) len csum"
    "sound (calls rp')" "rstream rp' = body"
    by (rule client_headers_step [OF Nil.prems(1) e _ _ _ g Nil.prems(4)]) (simp_all add: MAXBUF_def scan_empty)
  then show ?case using Nil.prems(5) by (simp add: client_headers_end)
next
  case (Cons h hs)
  have g: "g \<noteq> []" "0 \<notin> set g" and h: "10 \<notin> set h" "0 \<notin> set h" "length h + 2 < MAXBUF"
    using Cons.prems(3) by (simp_all add: header_line_def MAXLINE_def MAXBUF_def)
  obtain l1 c1 where sc: "scan_tag scan_d ''Content-Length:'' (h @ crlf) len = Ret l1" "scan_tag scan_u ''Content-Csum:'' (h @ crlf) csum = Ret c1"
    "scan_all hs l1 c1 = Ret (len', csum')" using Cons.prems(5) by (auto simp: res_simps)
  have e: "rstream rp = h @ crlf @ (concat (map (\<lambda>h. h @ crlf) hs) @ crlf @ body)" using Cons.prems(2) by simp
  obtain rp1 where r1: "client_headers print so rp n (g @ crlf) len csum =
      client_headers print (show_header print g so) rp1 (int (length h) + 2) (h @ crlf) l1 c1"
    "sound (calls rp1)" "rstream rp1 = concat (map (\<lambda>h. h @ crlf) hs) @ crlf @ body"
    by (rule client_headers_step [OF Cons.prems(1) e h g Cons.prems(4) sc(1,2)])
  show ?case
    using Cons.IH [OF r1(2,3) _ _ sc(3), of h "int (length h) + 2" "show_header print g so"] Cons.prems(3) r1(1) by simp
qed

definition head_lines :: "byte list \<Rightarrow> int \<Rightarrow> int \<Rightarrow> byte list list" where
  "head_lines name n u = [cstr ''HTTP/1.0 200 OK'', cstr ''Server: OS Web Server'', type_line name, length_line n, csum_line u]"

lemma client_reads_head:
  assumes "sound cs" and head: "stream cs = concat (map (\<lambda>h. h @ crlf) (head_lines name n u)) @ crlf @ body"
    and n: "0 \<le> n" "n < 2147483648" and u: "0 \<le> u" "u < 4294967296"
  obtains m buf rp rp' where "Rio_readlineb MAXBUF (rio_init cs) junk MAXBUF = Ret (m, buf, rp)"
    "client_headers print so rp m buf 0 0 = Ret (n, u, crlf, fold (show_header print) (head_lines name n u) so, rp')"
    "sound (calls rp')" "rstream rp' = body"
proof -
  let ?h0 = "cstr ''HTTP/1.0 200 OK''" and ?hs = "[cstr ''Server: OS Web Server'', type_line name, length_line n, csum_line u]"
  have hl: "head_lines name n u = ?h0 # ?hs" by (simp add: head_lines_def)
  have ok: "list_all header_line (?h0 # ?hs)"
    using type_line_ok [of name] number_line_ok(1-4) [of n] number_line_ok(5-8) [of u] n u
    by (simp add: header_line_def MAXLINE_def) (simp add: cstr_simps)
  have rs: "rstream (rio_init cs) = ?h0 @ crlf @ (concat (map (\<lambda>h. h @ crlf) ?hs) @ crlf @ body)" "sound (calls (rio_init cs))"
    using assms(1) head by (simp_all add: rio_init_def rstream_def hl)
  obtain r0 where r0: "Rio_readlineb MAXBUF (rio_init cs) junk MAXBUF = Ret (int (length ?h0) + 2, ?h0 @ crlf, r0)" "sound (calls r0)"
    "rstream r0 = concat (map (\<lambda>h. h @ crlf) ?hs) @ crlf @ body"
    using Rio_readlineb_crlf [OF rs(2,1), of junk] by (auto simp: cstr_simps MAXBUF_def)
  have "scan_all ?hs 0 0 = Ret (n, u)" by (simp add: scan_server scan_type scan_length [OF n] scan_csum [OF u])
  from client_headers_run [OF r0(2,3) ok _ this, of "int (length ?h0) + 2" print so] show ?thesis
    using that [OF r0(1)] hl by auto
qed


section \<open>The body of a response\<close>

text \<open>All lines of a text, the last one with or without a newline, are shorter than \<^verbatim>\<open>k\<close> bytes.\<close>

function short_lines :: "nat \<Rightarrow> byte list \<Rightarrow> bool" where
  "short_lines k bs =
    (if bs = [] then True
     else if length (line_take k bs) < k then short_lines k (drop (length (line_take k bs)) bs) else False)"
  by pat_completeness auto
termination
proof (relation "measure (\<lambda>(k, bs). length bs)", goal_cases)
  case (2 k bs)
  then show ?case by (cases bs) auto
qed simp

declare short_lines.simps [simp del]

lemma line_take_pos: "0 < k \<Longrightarrow> bs \<noteq> [] \<Longrightarrow> 0 < length (line_take k bs)"
  by (cases bs) auto

lemma line_take_drop: "line_take k bs @ drop (length (line_take k bs)) bs = bs"
  using append_take_drop_id [of "length (line_take k bs)" bs] unfolding line_take_prefix .

lemma body_line:
  assumes "sound (calls rp)" "length (line_take MAXBUF (rstream rp)) < MAXBUF"
  obtains rp' where "Rio_readlineb MAXBUF rp buf MAXBUF = Ret (int (length (line_take MAXBUF (rstream rp))),
      if rstream rp = [] then buf else line_take MAXBUF (rstream rp), rp')"
    "sound (calls rp')" "rstream rp' = drop (length (line_take MAXBUF (rstream rp))) (rstream rp)"
  using readlineb_ok [OF assms(1) _ assms(2), of buf] by (auto simp: Rio_readlineb_def MAXBUF_def)

text \<open>What the client prints of the body.\<close>

definition show_body :: "bool \<Rightarrow> byte list \<Rightarrow> conn \<Rightarrow> conn \<Rightarrow> bool" where
  "show_body print bs so so' \<longleftrightarrow> reliable so' \<and> outgoing so' = outgoing so @ (if print then bs else [])"

lemma show_line:
  assumes "reliable so"
  obtains so1 where "(if print then send so bs else Ret so) = Ret so1" "show_body print bs so so1"
proof (cases print)
  case True
  obtain cs where "send so bs = Ret (so\<lparr>outgoing := outgoing so @ bs, wcalls := cs\<rparr>)" "W_Fail \<notin> set cs" by (rule send_ok [OF assms])
  then show ?thesis using True that by (simp add: show_body_def reliable_def)
qed (use assms that in \<open>simp add: show_body_def\<close>)

text \<open>One line of the body.\<close>

lemma client_body_step:
  assumes rp: "sound (calls rp)" "rstream rp = bs" "bs \<noteq> []" and l: "l = line_take MAXBUF bs" "length l < MAXBUF"
    and so: "reliable so" "0 \<le> received" "received + int (length bs) < 2147483648"
  obtains rp' so1 where "client_body print so rp buf received csum =
      client_body print so1 rp' l (received + int (length l)) (foldl (\<lambda>a b. to_u32 (a + uint b)) csum l)"
    "sound (calls rp')" "rstream rp' = drop (length l) bs" "show_body print l so so1" "length (rstream rp') < length bs" "length l \<le> length bs"
proof -
  have pos: "0 < length l" "length l \<le> length bs"
    using line_take_pos [of MAXBUF bs] arg_cong [OF line_take_drop [of MAXBUF bs], of length] rp(3) l(1) by (simp_all add: MAXBUF_def)
  obtain rp' where rp': "Rio_readlineb MAXBUF rp buf MAXBUF = Ret (int (length l), l, rp')" "sound (calls rp')"
    "rstream rp' = drop (length l) bs"
    by (rule body_line [OF rp(1), of buf]) (use rp l in simp_all)
  obtain so1 where so1: "(if print then send so l else Ret so) = Ret so1" "show_body print l so so1" by (rule show_line [OF so(1)])
  have "client_body print so rp buf received csum =
      client_body print so1 rp' l (received + int (length l)) (foldl (\<lambda>a b. to_u32 (a + uint b)) csum l)"
    using rp'(1) so1(1) pos so(2,3) by (subst client_body.simps) (simp add: in_s32_def split: if_splits)
  moreover have "length (rstream rp') < length bs" using pos unfolding rp'(3) length_drop by linarith
  ultimately show ?thesis by (rule that [OF _ rp'(2,3) so1(2) _ pos(2)])
qed

lemma client_body_ok:
  assumes "sound (calls rp)" "short_lines MAXBUF (rstream rp)" "reliable so"
    "0 \<le> received" "received + int (length (rstream rp)) < 2147483648"
  shows "\<exists>so'. client_body print so rp buf received csum = Ret (received + int (length (rstream rp)),
      foldl (\<lambda>a b. to_u32 (a + uint b)) csum (rstream rp), so') \<and> show_body print (rstream rp) so so'"
  using assms
proof (induction "length (rstream rp)" arbitrary: rp so buf received csum rule: less_induct)
  case less
  let ?bs = "rstream rp" and ?l = "line_take MAXBUF (rstream rp)"
  have k: "0 < MAXBUF" by (simp add: MAXBUF_def)
  show ?case
  proof (cases "?bs = []")
    case True
    obtain rp' where rp': "Rio_readlineb MAXBUF rp buf MAXBUF = Ret (0, buf, rp')"
      by (rule body_line [OF less.prems(1)]) (use True k in auto)
    obtain so1 where "(if print then send so [] else Ret so) = Ret so1" "show_body print [] so so1" by (rule show_line [OF less.prems(3)])
    then show ?thesis using rp' True less.prems(4,5) by (subst client_body.simps) (auto simp: in_s32_def)
  next
    case False
    have sl: "length ?l < MAXBUF" "short_lines MAXBUF (drop (length ?l) ?bs)"
      using less.prems(2) False short_lines.simps [of MAXBUF ?bs] by (simp_all split: if_splits)
    let ?c = "foldl (\<lambda>a b. to_u32 (a + uint b)) csum ?l"
    obtain rp' so1 where step: "client_body print so rp buf received csum = client_body print so1 rp' ?l (received + int (length ?l)) ?c"
      and rp': "sound (calls rp')" "rstream rp' = drop (length ?l) ?bs" and so1: "show_body print ?l so so1"
      and pos: "length (rstream rp') < length ?bs" "length ?l \<le> length ?bs"
      by (rule client_body_step [OF less.prems(1) refl False refl sl(1) less.prems(3-5)])
    have "\<exists>so'. client_body print so1 rp' ?l (received + int (length ?l)) ?c = Ret (received + int (length ?l) + int (length (rstream rp')),
        foldl (\<lambda>a b. to_u32 (a + uint b)) ?c (rstream rp'), so') \<and> show_body print (rstream rp') so1 so'"
      using less.prems(4,5) sl(2) so1 pos rp' by (intro less.hyps pos(1)) (auto simp: show_body_def)
    moreover have "foldl (\<lambda>a b. to_u32 (a + uint b)) ?c (rstream rp') = foldl (\<lambda>a b. to_u32 (a + uint b)) csum ?bs"
      unfolding rp'(2) foldl_append [symmetric] line_take_drop ..
    moreover have "int (length ?l) + int (length (rstream rp')) = int (length ?bs)" using pos rp'(2) by simp
    moreover have "show_body print ?bs so so'" if "show_body print (rstream rp') so1 so'" for so'
      using that so1 rp'(2) line_take_drop [of MAXBUF ?bs] by (auto simp: show_body_def)
    ultimately show ?thesis unfolding step by (auto simp: add.assoc)
  qed
qed

lemma client_body_overflow:
  assumes "sound (calls rp)" "\<not> short_lines MAXBUF (rstream rp)" "reliable so"
    "0 \<le> received" "received + int (length (rstream rp)) < 2147483648"
  shows "client_body print so rp buf received csum = Crash Undef"
  using assms
proof (induction "length (rstream rp)" arbitrary: rp so buf received csum rule: less_induct)
  case less
  let ?bs = "rstream rp" and ?l = "line_take MAXBUF (rstream rp)"
  have k: "0 < MAXBUF" by (simp add: MAXBUF_def)
  have ne: "?bs \<noteq> []" using less.prems(2) short_lines.simps [of MAXBUF ?bs] by (auto split: if_splits)
  show ?case
  proof (cases "length ?l < MAXBUF")
    case False
    then have "rio_readlineb MAXBUF rp buf MAXBUF = Crash Undef"
      using readlineb_overflow [OF less.prems(1) k] line_take_le [of MAXBUF ?bs] by simp
    then show ?thesis by (subst client_body.simps) (simp add: Rio_readlineb_def)
  next
    case True
    obtain rp' so1 where step: "client_body print so rp buf received csum =
        client_body print so1 rp' ?l (received + int (length ?l)) (foldl (\<lambda>a b. to_u32 (a + uint b)) csum ?l)"
      and rp': "sound (calls rp')" "rstream rp' = drop (length ?l) ?bs" and so1: "show_body print ?l so so1"
      and pos: "length (rstream rp') < length ?bs" "length ?l \<le> length ?bs"
      by (rule client_body_step [OF less.prems(1) refl ne refl True less.prems(3-5)])
    have "\<not> short_lines MAXBUF (rstream rp')" using less.prems(2) True ne rp'(2) by (subst (asm) short_lines.simps) simp
    then show ?thesis
      unfolding step using less.prems(4,5) so1 pos rp' by (intro less.hyps pos(1)) (auto simp: show_body_def)
  qed
qed


section \<open>Receiving and checking a response\<close>

lemma response_head_lines:
  "response_head data = concat (map (\<lambda>h. h @ crlf)
     (head_lines (file_name data) (file_size data) (checksum (take (nat (file_size data)) (file_buf data))))) @ crlf"
  by (simp add: response_head_def head_lines_def type_line_def length_line_def csum_line_def)

lemma show_headers: "fold (show_header print) hs so = so\<lparr>outgoing := outgoing so @ (if print then concat (map (\<lambda>h. cstr ''Header: '' @ h @ crlf) hs) else [])\<rparr>"
  by (induction hs arbitrary: so) (auto simp: show_header_def)

lemma checksum_range: "0 \<le> checksum bs" "checksum bs < 4294967296"
  by (simp_all add: checksum_sum to_u32_range)

text \<open>What the client prints of a response.\<close>

definition response_shown :: "file_data \<Rightarrow> byte list" where
  "response_shown data = concat (map (\<lambda>h. cstr ''Header: '' @ h @ crlf)
     (head_lines (file_name data) (file_size data) (checksum (take (nat (file_size data)) (file_buf data))))) @
   take (nat (file_size data)) (file_buf data)"

lemma client_print_ok:
  assumes c: "sound (incoming c)" "stream (incoming c) = response_head data @ body" and so: "reliable so"
    and body: "body = take (nat (file_size data)) (file_buf data)" "file_size data = int (length body)" "length body < 2147483648"
  shows "if \<not> short_lines MAXBUF body then client_print so junk c oc ol print = Crash Undef
    else if oc = checksum body \<and> ol = file_size data
    then \<exists>so'. client_print so junk c oc ol print = Ret so' \<and> outgoing so' = outgoing so @ (if print then response_shown data else [])
    else client_print so junk c oc ol print = Crash Assert_Fail"
proof -
  let ?n = "file_size data" and ?u = "checksum body"
  let ?hl = "head_lines (file_name data) ?n ?u"
  let ?so = "fold (show_header print) ?hl so"
  have st: "stream (incoming c) = concat (map (\<lambda>h. h @ crlf) ?hl) @ crlf @ body"
    using c(2) body(1) by (simp add: response_head_lines)
  have r: "reliable ?so" using so by (simp add: show_headers reliable_def)
  have n: "0 \<le> ?n" "?n < 2147483648" using body(2,3) by simp_all
  obtain m buf rp rp' where rd: "Rio_readlineb MAXBUF (rio_init (incoming c)) junk MAXBUF = Ret (m, buf, rp)"
    "client_headers print so rp m buf 0 0 = Ret (?n, ?u, crlf, ?so, rp')" "sound (calls rp')" "rstream rp' = body"
    by (rule client_reads_head [OF c(1) st n checksum_range])
  show ?thesis
  proof (cases "short_lines MAXBUF body")
    case True
    then obtain so' where so': "client_body print ?so rp' crlf 0 0 = Ret (?n, ?u, so')" "show_body print body ?so so'"
      using client_body_ok [OF rd(3) _ r, of 0 print crlf 0] rd(4) body(2,3) by (auto simp: checksum_def)
    have "outgoing so' = outgoing so @ (if print then response_shown data else [])"
      using so'(2) body(1) by (auto simp: show_body_def show_headers response_shown_def)
    then show ?thesis using True rd(1,2) so'(1) by (auto simp: client_print_def c_assert_def)
  next
    case False
    then have "client_body print ?so rp' crlf 0 0 = Crash Undef"
      using client_body_overflow [OF rd(3) _ r, of 0 print crlf 0] rd(4) body(3) by auto
    then show ?thesis using False rd(1,2) by (simp add: client_print_def)
  qed
qed

section \<open>Client and server\<close>

text \<open>A file the server delivers under a name, with its contents.\<close>

definition serves :: "fenv \<Rightarrow> byte list \<Rightarrow> byte list \<Rightarrow> bool" where
  "serves files name content \<longleftrightarrow> take 1 name \<noteq> [47] \<and> \<not> has_sub name (cstr ''..'') \<and>
     strrchr name 46 \<notin> {Some (cstr ''.c''), Some (cstr ''.h'')} \<and>
     (\<exists>st. files name = Some st \<and> is_reg st \<and> is_rusr st \<and> open_ok st \<and> st_size st = int (length content) \<and>
        sound (fcalls st) \<and> stream (fcalls st) = content)"

lemma readfile_ok:
  assumes "serves files name content" "length content < 2147483648"
  shows "request_readfile files junk c (blank name) = Ret (1, \<lparr>file_name = name, file_buf = content, file_size = int (length content)\<rparr>, c)"
proof -
  obtain st where st: "files name = Some st" "is_reg st" "is_rusr st" "open_ok st" "st_size st = int (length content)"
    "sound (fcalls st)" "stream (fcalls st) = content" using assms(1) by (auto simp: serves_def)
  obtain cs where "Rio_read (fcalls st) (length content) = Ret (content, cs)"
    using rio_read_ok [OF st(6), of "length content" "[]"] st(7) by (auto simp: Rio_read_def)
  moreover have "map (\<lambda>i. if i < length content then content ! i else junk i) [0..<length content] = content"
    by (rule nth_equalityI) auto
  ultimately show ?thesis
    using st(1-5) assms by (auto simp: request_readfile_def blank_def Let_def serves_def)
qed

lemma sent_request:
  assumes "reliable c" "length uri + length host + 25 < MAXLINE" "sprintf_appends c"
  obtains c' where "client_send c host uri = Ret c'" "incoming c' = incoming c"
    "outgoing c' = outgoing c @ cstr ''GET '' @ uri @ 32 # cstr ''HTTP/1.0'' @ crlf @ concat (map (\<lambda>h. h @ crlf) [cstr ''host: '' @ host]) @ crlf"
proof -
  let ?r = "cstr ''GET '' @ uri @ cstr '' HTTP/1.0'' @ crlf @ cstr ''host: '' @ host @ crlf @ crlf"
  obtain cs where cs: "send c ?r = Ret (c\<lparr>outgoing := outgoing c @ ?r, wcalls := cs\<rparr>)" by (rule send_ok [OF assms(1)])
  have "length ?r < MAXLINE" using assms(2) by (simp add: crlf_def cstr_def)
  moreover have "cstr '' HTTP/1.0'' = 32 # cstr ''HTTP/1.0''" by (simp add: cstr_simps)
  ultimately show ?thesis using cs assms(3) that [of "c\<lparr>outgoing := outgoing c @ ?r, wcalls := cs\<rparr>"] by (simp add: client_send_def)
qed

text \<open>The bytes that may stand in the host and in the name of a file.\<close>

definition host_ok :: "byte list \<Rightarrow> bool" where
  "host_ok host \<longleftrightarrow> 10 \<notin> set host \<and> 0 \<notin> set host"

definition uri_ok :: "byte list \<Rightarrow> bool" where
  "uri_ok uri \<longleftrightarrow> uri \<noteq> [] \<and> (\<forall>b \<in> set uri. \<not> is_blank b) \<and> 0 \<notin> set uri"

lemma server_answers:
  assumes seq: "seq_ok files junk s es" and sc: "sound (incoming sc)" "reliable sc"
    and req: "stream (incoming sc) = cstr ''GET '' @ uri @ 32 # cstr ''HTTP/1.0'' @ crlf @ concat (map (\<lambda>h. h @ crlf) [cstr ''host: '' @ host]) @ crlf"
    and uri: "uri_ok uri" "host_ok host" "length uri + length host + 25 < MAXLINE" and fuel: "1 < fuel"
    and fl: "serves files (cstr ''./'' @ uri) content" "0 \<le> hash_value (cstr ''./'' @ uri)" "int (length content) + max_cache_size s < 2147483648" "0 \<le> max_cache_size s"
    and data: "data = \<lparr>file_name = cstr ''./'' @ uri, file_buf = content, file_size = int (length content)\<rparr>"
  obtains s' es' sc' where "do_server_request fuel files junk line s sc = Ret (s', sc')" "seq_ok files junk s' es'"
    "outgoing sc' = outgoing sc @ response_head data @ content" "closed sc'"
proof -
  let ?name = "cstr ''./'' @ uri"
  have l: "length ?name \<le> MAXLINE - 1" using uri(3) by (simp add: cstr_def MAXLINE_def)
  have init: "request_init fuel sc line = Ret (Some (take (MAXLINE - 1) ?name), sc)"
  proof (rule request_init_ok)
    show "stream (incoming sc) = cstr ''GET '' @ uri @ 32 # cstr ''HTTP/1.0'' @ crlf @ concat (map (\<lambda>h. h @ crlf) [cstr ''host: '' @ host]) @ crlf @ []"
      using req by simp
    show "list_all header_line [cstr ''host: '' @ host]" using uri(2,3) by (auto simp: header_line_def host_ok_def cstr_simps)
  qed (use sc uri fuel in \<open>auto simp: sound_def uri_ok_def cstr_simps\<close>)
  then have init: "request_init fuel sc line = Ret (Some ?name, sc)" using l by (simp only: take_all)
  have sz: "length content < 2147483648" using fl(3,4) by simp
  obtain c2 where c2: "request_sendfile sc data = Ret c2" "outgoing c2 = outgoing sc @ response_head data @ content"
    using sendfile_ok [OF sc(2), of data] data by auto
  have "\<exists>s' es'. do_server_request fuel files junk line s sc = Ret (s', c2\<lparr>closed := True\<rparr>) \<and> seq_ok files junk s' es'"
    by (rule do_server_request_cached [OF seq init fl(2) _ readfile_ok [OF fl(1) sz] c2(1) [unfolded data]])
      (use fl(1,3) in \<open>auto simp: serves_def\<close>)
  then show ?thesis using that [of _ "c2\<lparr>closed := True\<rparr>"] c2(2) by auto
qed


section \<open>Properties\<close>

text \<open>
  C36: client, server and cache together, for a file whose name has a hash value that is not negative and whose size
  does not overflow the accounted size of the cache, with \<^verbatim>\<open>int\<close> arithmetic that wraps around and a C library whose \<^verbatim>\<open>sprintf\<close> appends when its
  destination is its first argument. The client sends a request for the file; the server gets it in any pieces,
  answers with a cache in any well-formed state and leaves it well formed; the client gets the answer in any pieces. When
  every line of the file is shorter than the client's buffer, all checks of the client on length and checksum
  succeed, and it prints the headers and the file. When a line is not shorter, the client writes behind its buffer.
\<close>

theorem client_server_fetch:
  assumes "seq_ok files junk s es" "serves files (cstr ''./'' @ uri) content" "0 \<le> hash_value (cstr ''./'' @ uri)"
    "0 \<le> max_cache_size s" "int (length content) + max_cache_size s < 2147483648"
    "uri_ok uri" "host_ok host" "length uri + length host + 25 < MAXLINE" "1 < fuel" "reliable c" "outgoing c = []"
    "sprintf_appends c"
  shows "\<exists>c'. client_send c host uri = Ret c' \<and>
    (\<forall>sc. sound (incoming sc) \<and> stream (incoming sc) = outgoing c' \<and> reliable sc \<and> outgoing sc = [] \<longrightarrow>
      (\<exists>s' es' sc'. do_server_request fuel files junk line s sc = Ret (s', sc') \<and> seq_ok files junk s' es' \<and> closed sc' \<and>
        (\<forall>rc so. sound (incoming rc) \<and> stream (incoming rc) = outgoing sc' \<and> reliable so \<longrightarrow>
          (if short_lines MAXBUF content
           then \<exists>so'. client_print so buf rc (checksum content) (int (length content)) print = Ret so' \<and>
             outgoing so' = outgoing so @ (if print then response_shown
               \<lparr>file_name = cstr ''./'' @ uri, file_buf = content, file_size = int (length content)\<rparr> else [])
           else client_print so buf rc (checksum content) (int (length content)) print = Crash Undef))))"
proof -
  let ?data = "\<lparr>file_name = cstr ''./'' @ uri, file_buf = content, file_size = int (length content)\<rparr>"
  obtain c' where c': "client_send c host uri = Ret c'"
    "outgoing c' = cstr ''GET '' @ uri @ 32 # cstr ''HTTP/1.0'' @ crlf @ concat (map (\<lambda>h. h @ crlf) [cstr ''host: '' @ host]) @ crlf"
    by (rule sent_request [OF assms(10,8,12)]) (use assms(11) in simp)
  have sv: "\<exists>s' es' sc'. do_server_request fuel files junk line s sc = Ret (s', sc') \<and> seq_ok files junk s' es' \<and> closed sc' \<and>
      outgoing sc' = response_head ?data @ content"
    if "sound (incoming sc)" "stream (incoming sc) = outgoing c'" "reliable sc" "outgoing sc = []" for sc
    by (rule server_answers [OF assms(1) that(1,3) _ assms(6-9,2,3,5,4) refl, where line = line]) (use that c'(2) in auto)
  have "length content < 2147483648" using assms(4,5) by simp
  then have cl: "if short_lines MAXBUF content
      then \<exists>so'. client_print so buf rc (checksum content) (int (length content)) print = Ret so' \<and>
        outgoing so' = outgoing so @ (if print then response_shown ?data else [])
      else client_print so buf rc (checksum content) (int (length content)) print = Crash Undef"
    if "sound (incoming rc)" "stream (incoming rc) = response_head ?data @ content" "reliable so" for rc so
    using client_print_ok [OF that, of buf "checksum content" "int (length content)" print] by auto
  show ?thesis
    by (intro exI [of _ c'] conjI c'(1) allI impI) (use sv cl in metis)
qed

theorem client_server_fetch_witness:
  "\<exists>c' s' sc' so'. client_send ex_conn (cstr ''h'') (cstr ''/a'') = Ret c' \<and>
    do_server_request 2 ex_files zero_mem [] (empty_cache 4 True (\<lambda>_. True)) (ex_conn\<lparr>incoming := [R_Data (outgoing c')]\<rparr>) = Ret (s', sc') \<and>
    client_print ex_conn [] (ex_conn\<lparr>incoming := [R_Data (outgoing sc')]\<rparr>) 15 2 False = Ret so'"
proof -
  let ?n = "cstr ''./'' @ cstr ''/a''"
  have "cache_ok (empty_cache 4 True (\<lambda>_. True)) [] [] (\<lambda>_. [])" by (simp add: cache_ok_def empty_cache_def lru_def buckets_ok_def)
  then have seq: "seq_ok ex_files zero_mem (empty_cache 4 True (\<lambda>_. True)) []" unfolding seq_ok_def by (auto simp: empty_cache_def)
  have srv: "serves ex_files ?n [7, 8]" by (simp add: serves_def ex_files_def ex_stat_def cstr_simps sound_def)
  have h: "0 \<le> hash_value ?n" by (simp add: hash_value_def cstr_simps to_s32_def)
  have m: "max_cache_size (empty_cache 4 True (\<lambda>_. True)) = 4" by (simp add: empty_cache_def)
  have ok: "uri_ok (cstr ''/a'')" "host_ok (cstr ''h'')" "length (cstr ''/a'') + length (cstr ''h'') + 25 < MAXLINE"
    by (simp_all add: uri_ok_def host_ok_def is_blank_def cstr_simps MAXLINE_def)
  have ex: "reliable ex_conn" "outgoing ex_conn = []" "sprintf_appends ex_conn" by (simp_all add: ex_conn_def reliable_def)
  have one: "sound [R_Data bs]" "stream [R_Data bs] = bs" for bs by (simp_all add: sound_def)
  have short: "short_lines MAXBUF [7, 8]" by (simp add: short_lines.simps MAXBUF_def)
  have cs: "checksum [7, 8] = 15" by (simp add: checksum_def)
  from client_server_fetch [OF seq srv h _ _ ok _ ex, where fuel = 2 and line = "[]" and buf = "[]" and print = False]
  obtain c' where c': "client_send ex_conn (cstr ''h'') (cstr ''/a'') = Ret c'"
    "\<And>sc. sound (incoming sc) \<and> stream (incoming sc) = outgoing c' \<and> reliable sc \<and> outgoing sc = [] \<Longrightarrow>
      \<exists>s' sc'. do_server_request 2 ex_files zero_mem [] (empty_cache 4 True (\<lambda>_. True)) sc = Ret (s', sc') \<and>
        (\<forall>rc so. sound (incoming rc) \<and> stream (incoming rc) = outgoing sc' \<and> reliable so \<longrightarrow>
          (\<exists>so'. client_print so [] rc 15 2 False = Ret so'))"
    using m short cs by fastforce
  have "reliable (ex_conn\<lparr>incoming := x\<rparr>)" "outgoing (ex_conn\<lparr>incoming := x\<rparr>) = []" for x using ex by (simp_all add: reliable_def)
  from c'(2) [of "ex_conn\<lparr>incoming := [R_Data (outgoing c')]\<rparr>"] this one obtain s' sc' where
    s': "do_server_request 2 ex_files zero_mem [] (empty_cache 4 True (\<lambda>_. True)) (ex_conn\<lparr>incoming := [R_Data (outgoing c')]\<rparr>) = Ret (s', sc')"
    "\<forall>rc so. sound (incoming rc) \<and> stream (incoming rc) = outgoing sc' \<and> reliable so \<longrightarrow> (\<exists>so'. client_print so [] rc 15 2 False = Ret so')"
    by auto
  have "\<exists>so'. client_print ex_conn [] (ex_conn\<lparr>incoming := [R_Data (outgoing sc')]\<rparr>) 15 2 False = Ret so'"
    by (rule s'(2) [rule_format]) (use one ex(1) in simp)
  with c'(1) s'(1) show ?thesis by blast
qed

end
