(* ===== verification/Web_Fileset.thy ===== *)
theory Web_Fileset
  imports Web_Client Complex_Main
begin

text \<open>
  The generator of file sets (\<^verbatim>\<open>webserver/fileset.c\<close>) with the distribution of the sizes
  (\<^verbatim>\<open>rand_pareto\<close> in \<^verbatim>\<open>webserver/common.c\<close>), and the index it writes, which the client reads
  back. The options that the \<^verbatim>\<open>popt\<close> library has parsed are parameters of the main function. So are
  the random numbers: \<^verbatim>\<open>rnd k\<close> is what the k-th call of \<^verbatim>\<open>random\<close> gives, whether it is drawn for
  a size or for a byte; and \<^verbatim>\<open>pw\<close> is the function \<^verbatim>\<open>pow\<close> of the C library with its rounding. The
  other operations on values of type \<^verbatim>\<open>double\<close> are exact.
\<close>

section \<open>The distribution of the sizes\<close>






section \<open>The generator\<close>


definition random_bytes :: "(nat \<Rightarrow> int) \<Rightarrow> nat \<Rightarrow> nat \<Rightarrow> byte list" where
  "random_bytes rnd k n = map (\<lambda>j. word_of_int (rnd j mod (115 - 32) + 32)) [k..<k + n]"







section \<open>Sizes\<close>




section \<open>The contents of a file\<close>





section \<open>The loop over the files\<close>







lemma random_bytes_length [simp]: "length (random_bytes rnd k n) = n"
  by (simp add: random_bytes_def)




section \<open>Reading the index\<close>









section \<open>Generator and client\<close>








end
