(* ===== verification/Warm_Points.thy ===== *)
theory Warm_Points
  imports OS_Chain "HOL-Library.Product_Lexorder" "HOL-Library.Multiset"
begin

text \<open>
  Points and the list of points of the warm-up exercise (\<^verbatim>\<open>warmup/point.c\<close>,
  \<^verbatim>\<open>warmup/sorted_points.c\<close>). Coordinates are of an ordered type, which stands
  for the values of \<^verbatim>\<open>double\<close> other than the not-a-number values, up to the equality of C; the
  function of the mathematics library that the code applies, the square root of a sum of two
  squares, is the parameter \<^verbatim>\<open>hyp\<close>.
\<close>

section \<open>Points\<close>

record 'd point =
  px :: 'd
  py :: 'd

definition point_translate :: "'d::plus point \<Rightarrow> 'd \<Rightarrow> 'd \<Rightarrow> 'd point" where
  "point_translate p x y = p\<lparr>px := px p + x, py := py p + y\<rparr>"

definition point_distance :: "('d \<Rightarrow> 'd \<Rightarrow> 'd) \<Rightarrow> 'd::minus point \<Rightarrow> 'd point \<Rightarrow> 'd" where
  "point_distance hyp p1 p2 = hyp (px p2 - px p1) (py p2 - py p1)"

definition point_compare :: "('d \<Rightarrow> 'd \<Rightarrow> 'd) \<Rightarrow> 'd::linorder point \<Rightarrow> 'd point \<Rightarrow> int" where
  "point_compare hyp p1 p2 =
    (let p1D = hyp (px p1) (py p1); p2D = hyp (px p2) (py p2) in
     if p1D > p2D then 1 else if p1D < p2D then - 1 else 0)"

definition point_set :: "'d point \<Rightarrow> 'd \<Rightarrow> 'd \<Rightarrow> 'd point" where
  "point_set p x y = p\<lparr>px := x, py := y\<rparr>"

section \<open>The list\<close>

record 'd pointNode =
  pn_p :: nat
  pn_next :: "nat option"
  pn_distance :: 'd

text \<open>The list and the memory it lives in; \<^verbatim>\<open>pmem\<close> says which calls of \<^verbatim>\<open>malloc\<close> succeed.\<close>

record 'd sorted_points =
  sp_head :: "nat option"
  pnodes :: "nat \<Rightarrow> 'd pointNode option"
  pts :: "nat \<Rightarrow> 'd point option"
  pbrk :: nat
  pmem :: "nat \<Rightarrow> bool"

definition p_malloc :: "'d sorted_points \<Rightarrow> nat option \<times> 'd sorted_points" where
  "p_malloc s = (if pmem s (pbrk s) then Some (pbrk s) else None, s\<lparr>pbrk := Suc (pbrk s)\<rparr>)"

definition free_pt :: "nat \<Rightarrow> 'd sorted_points \<Rightarrow> 'd sorted_points res" where
  "free_pt p s = bnd (deref (pts s p)) (\<lambda>_. Ret (s\<lparr>pts := (pts s)(p := None)\<rparr>))"

definition free_node :: "nat option \<Rightarrow> 'd sorted_points \<Rightarrow> 'd sorted_points res" where
  "free_node p s =
    (case p of
       None \<Rightarrow> Ret s
     | Some q \<Rightarrow> bnd (deref (pnodes s q)) (\<lambda>_. Ret (s\<lparr>pnodes := (pnodes s)(q := None)\<rparr>)))"

definition sp_init :: "(nat \<Rightarrow> bool) \<Rightarrow> 'd sorted_points res" where
  "sp_init ok =
    bnd (c_assert (ok 0)) (\<lambda>_.
    Ret \<lparr>sp_head = None, pnodes = Map.empty, pts = Map.empty, pbrk = 1, pmem = ok\<rparr>)"

text \<open>
  The recursion frees the point of a node and the node behind it. The fuel of the walks is the
  number of allocations, which bounds the number of nodes.
\<close>

definition points_fuel :: "'d sorted_points \<Rightarrow> nat" where
  "points_fuel s = Suc (pbrk s)"

primrec sp_delete :: "nat \<Rightarrow> nat option \<Rightarrow> 'd sorted_points \<Rightarrow> 'd sorted_points res" where
  "sp_delete 0 head s = Crash Diverges"
| "sp_delete (Suc n) head s =
    (case head of
       None \<Rightarrow> Ret s
     | Some h \<Rightarrow>
         bnd (deref (pnodes s h)) (\<lambda>nd.
         bnd (if pn_next nd \<noteq> None then sp_delete n (pn_next nd) s else Ret s) (\<lambda>s1.
         bnd (deref (pnodes s1 h)) (\<lambda>nd1.
         bnd (free_pt (pn_p nd1) s1) (\<lambda>s2.
         free_node (pn_next nd1) s2)))))"

definition sp_destroy :: "'d sorted_points \<Rightarrow> 'd sorted_points res" where
  "sp_destroy s =
    bnd (sp_delete (points_fuel s) (sp_head s) s) (\<lambda>s1.
    free_node (sp_head s) s1)"

primrec prev_loop :: "nat \<Rightarrow> 'd::linorder sorted_points \<Rightarrow> 'd \<Rightarrow> 'd \<Rightarrow> 'd \<Rightarrow> nat \<Rightarrow> nat res" where
  "prev_loop 0 s dis x y current = Crash Diverges"
| "prev_loop (Suc n) s dis x y current =
    bnd (deref (pnodes s current)) (\<lambda>cn.
    case pn_next cn of
      None \<Rightarrow> Ret current
    | Some nextNode \<Rightarrow>
        bnd (deref (pnodes s nextNode)) (\<lambda>nd.
        if dis > pn_distance nd then prev_loop n s dis x y nextNode
        else if pn_distance nd = dis then
          bnd (deref (pts s (pn_p nd))) (\<lambda>p.
          if x > px p then prev_loop n s dis x y nextNode
          else if x = px p then
            if y > py p then prev_loop n s dis x y nextNode else Ret current
          else Ret current)
        else Ret current))"

definition returnPrev :: "'d::linorder sorted_points \<Rightarrow> nat option \<Rightarrow> 'd \<Rightarrow> 'd \<Rightarrow> 'd \<Rightarrow> nat option res" where
  "returnPrev s head dis x y =
    (case head of
       None \<Rightarrow> Ret None
     | Some h \<Rightarrow> bnd (prev_loop (points_fuel s) s dis x y h) (\<lambda>p. Ret (Some p)))"

definition sp_add_point :: "('d \<Rightarrow> 'd \<Rightarrow> 'd) \<Rightarrow> 'd::linorder sorted_points \<Rightarrow> 'd \<Rightarrow> 'd \<Rightarrow> (int \<times> 'd sorted_points) res" where
  "sp_add_point hyp s x y =
    (case p_malloc s of
       (None, s1) \<Rightarrow> Ret (0, s1)
     | (Some newNode, s1) \<Rightarrow>
         (case p_malloc s1 of
            (None, s2) \<Rightarrow> Ret (0, s2)
          | (Some p, s2) \<Rightarrow>
              let nd = \<lparr>pn_p = p, pn_next = None, pn_distance = hyp x y\<rparr>;
                  s3 = s2\<lparr>pts := (pts s2)(p \<mapsto> \<lparr>px = x, py = y\<rparr>), pnodes := (pnodes s2)(newNode \<mapsto> nd)\<rparr> in
              bnd (returnPrev s3 (sp_head s3) (hyp x y) x y) (\<lambda>pre.
              case pre of
                None \<Rightarrow> Ret (1, s3\<lparr>sp_head := Some newNode\<rparr>)
              | Some q \<Rightarrow>
                  if sp_head s3 = Some q then
                    Ret (1, s3\<lparr>sp_head := Some newNode, pnodes := (pnodes s3)(newNode \<mapsto> nd\<lparr>pn_next := sp_head s3\<rparr>)\<rparr>)
                  else
                    bnd (deref (pnodes s3 q)) (\<lambda>qn.
                    Ret (1, s3\<lparr>pnodes := (pnodes s3)(q \<mapsto> qn\<lparr>pn_next := Some newNode\<rparr>, newNode \<mapsto> nd\<lparr>pn_next := pn_next qn\<rparr>)\<rparr>)))))"

text \<open>
  The removals return the flag and the point stored through \<^verbatim>\<open>ret\<close>. Reading and freeing a node
  with its point:
\<close>

definition take_node :: "nat option \<Rightarrow> 'd sorted_points \<Rightarrow> ('d point \<times> 'd sorted_points) res" where
  "take_node node s =
    bnd (deref node) (\<lambda>q.
    bnd (deref (pnodes s q)) (\<lambda>nd.
    bnd (deref (pts s (pn_p nd))) (\<lambda>pt.
    bnd (free_pt (pn_p nd) s) (\<lambda>s1.
    bnd (free_node (Some q) s1) (\<lambda>s2.
    Ret (pt, s2))))))"

definition sp_remove_first :: "'d sorted_points \<Rightarrow> (int \<times> 'd point option \<times> 'd sorted_points) res" where
  "sp_remove_first s =
    (case sp_head s of
       None \<Rightarrow> Ret (0, None, s)
     | Some h \<Rightarrow>
         bnd (deref (pnodes s h)) (\<lambda>nd.
         bnd (take_node (Some h) (s\<lparr>sp_head := pn_next nd\<rparr>)) (\<lambda>(pt, s1).
         Ret (1, Some pt, s1))))"

primrec last_loop :: "nat \<Rightarrow> 'd sorted_points \<Rightarrow> nat \<Rightarrow> nat \<Rightarrow> (nat \<times> nat) res" where
  "last_loop 0 s current prev = Crash Diverges"
| "last_loop (Suc n) s current prev =
    bnd (deref (pnodes s current)) (\<lambda>cn.
    case pn_next cn of
      None \<Rightarrow> Ret (current, prev)
    | Some q \<Rightarrow>
        bnd (deref (pnodes s prev)) (\<lambda>pn.
        bnd (deref (pn_next pn)) (\<lambda>p. last_loop n s q p)))"

definition sp_remove_last :: "'d sorted_points \<Rightarrow> (int \<times> 'd point option \<times> 'd sorted_points) res" where
  "sp_remove_last s =
    (case sp_head s of
       None \<Rightarrow> Ret (0, None, s)
     | Some h \<Rightarrow>
         bnd (deref (pnodes s h)) (\<lambda>hn.
         case pn_next hn of
           None \<Rightarrow> bnd (take_node (Some h) (s\<lparr>sp_head := None\<rparr>)) (\<lambda>(pt, s1). Ret (1, Some pt, s1))
         | Some c \<Rightarrow>
             bnd (last_loop (points_fuel s) s c h) (\<lambda>(current, prev).
             bnd (deref (pnodes s prev)) (\<lambda>pn.
             bnd (take_node (Some current) (s\<lparr>pnodes := (pnodes s)(prev \<mapsto> pn\<lparr>pn_next := None\<rparr>)\<rparr>)) (\<lambda>(pt, s1).
             Ret (1, Some pt, s1))))))"

text \<open>The walk of \<^verbatim>\<open>sp_remove_by_index\<close>: \<^const>\<open>None\<close> when the list ends first.\<close>

primrec index_loop :: "nat \<Rightarrow> 'd sorted_points \<Rightarrow> int \<Rightarrow> int \<Rightarrow> nat option \<Rightarrow> nat \<Rightarrow> (nat option \<times> nat) option res" where
  "index_loop 0 s index counter removeNode prev = Crash Diverges"
| "index_loop (Suc n) s index counter removeNode prev =
    (if index > counter then
       bnd (deref removeNode) (\<lambda>r.
       bnd (deref (pnodes s r)) (\<lambda>rn.
       if pn_next rn = None then Ret None
       else
         bnd (deref (pnodes s prev)) (\<lambda>pn.
         bnd (deref (pn_next pn)) (\<lambda>p.
         index_loop n s index (counter + 1) (pn_next rn) p))))
     else Ret (Some (removeNode, prev)))"

definition sp_remove_by_index :: "'d sorted_points \<Rightarrow> int \<Rightarrow> (int \<times> 'd point option \<times> 'd sorted_points) res" where
  "sp_remove_by_index s index =
    (case sp_head s of
       None \<Rightarrow> Ret (0, None, s)
     | Some h \<Rightarrow>
         bnd (deref (pnodes s h)) (\<lambda>hn.
         bnd (index_loop (points_fuel s) s index 1 (pn_next hn) h) (\<lambda>found.
         case found of
           None \<Rightarrow> Ret (0, None, s)
         | Some (removeNode, prev) \<Rightarrow>
             if index = 0 then
               bnd (take_node (Some prev) (s\<lparr>sp_head := removeNode\<rparr>)) (\<lambda>(pt, s1). Ret (1, Some pt, s1))
             else
               bnd (deref removeNode) (\<lambda>r.
               bnd (deref (pnodes s r)) (\<lambda>rn.
               bnd (deref (pnodes s prev)) (\<lambda>pn.
               bnd (take_node (Some r) (s\<lparr>pnodes := (pnodes s)(prev \<mapsto> pn\<lparr>pn_next := pn_next rn\<rparr>)\<rparr>)) (\<lambda>(pt, s1).
               Ret (1, Some pt, s1))))))))"

primrec dup_loop :: "nat \<Rightarrow> 'd sorted_points \<Rightarrow> int \<Rightarrow> nat option \<Rightarrow> nat \<Rightarrow> (int \<times> 'd sorted_points) res" where
  "dup_loop 0 s counter current prev = Crash Diverges"
| "dup_loop (Suc n) s counter current prev =
    (case current of
       None \<Rightarrow> Ret (counter, s)
     | Some c \<Rightarrow>
         bnd (deref (pnodes s c)) (\<lambda>cn.
         bnd (deref (pnodes s prev)) (\<lambda>pn.
         bnd (deref (pts s (pn_p cn))) (\<lambda>cp.
         bnd (deref (pts s (pn_p pn))) (\<lambda>pp.
         if px cp = px pp \<and> py cp = py pp then
           bnd (take_node (Some c) (s\<lparr>pnodes := (pnodes s)(prev \<mapsto> pn\<lparr>pn_next := pn_next cn\<rparr>)\<rparr>)) (\<lambda>(_, s1).
           dup_loop n s1 (counter + 1) (pn_next cn) prev)
         else bnd (deref (pn_next pn)) (\<lambda>p. dup_loop n s counter (pn_next cn) p))))))"

definition sp_delete_duplicates :: "'d sorted_points \<Rightarrow> (int \<times> 'd sorted_points) res" where
  "sp_delete_duplicates s =
    (case sp_head s of
       None \<Rightarrow> Ret (0, s)
     | Some h \<Rightarrow> bnd (deref (pnodes s h)) (\<lambda>hn. dup_loop (points_fuel s) s 0 (pn_next hn) h))"

section \<open>The list of values\<close>

definition pnd :: "'d sorted_points \<Rightarrow> nat \<Rightarrow> 'd pointNode" where
  "pnd s p = the (pnodes s p)"

definition pval :: "'d sorted_points \<Rightarrow> nat \<Rightarrow> 'd \<times> 'd \<times> 'd" where
  "pval s p = (let pt = the (pts s (pn_p (pnd s p))) in (pn_distance (pnd s p), px pt, py pt))"

definition node_ok :: "'d sorted_points \<Rightarrow> nat \<Rightarrow> bool" where
  "node_ok s p \<longleftrightarrow> p < pbrk s \<and> pnodes s p \<noteq> None \<and> pn_p (pnd s p) < pbrk s \<and> pts s (pn_p (pnd s p)) \<noteq> None"

definition pok :: "'d sorted_points \<Rightarrow> nat list \<Rightarrow> bool" where
  "pok s ps \<longleftrightarrow> chain pn_next (pnodes s) (sp_head s) ps \<and> (\<forall>p \<in> set ps. node_ok s p) \<and> inj_on (\<lambda>p. pn_p (pnd s p)) (set ps)"

definition points :: "'d sorted_points \<Rightarrow> ('d \<times> 'd \<times> 'd) list \<Rightarrow> bool" where
  "points s xs \<longleftrightarrow> (\<exists>ps. pok s ps \<and> xs = map (pval s) ps)"

lemma node_okD:
  assumes "node_ok s p"
  obtains nd pt where "pnodes s p = Some nd" "pnd s p = nd" "pts s (pn_p nd) = Some pt" "pval s p = (pn_distance nd, px pt, py pt)" "p < pbrk s"
    "pn_p nd < pbrk s"
  using assms by (auto simp: node_ok_def pnd_def pval_def Let_def)

lemma pok_length: "pok s ps \<Longrightarrow> length ps \<le> pbrk s"
  by (rule bounded_length) (auto simp: pok_def node_ok_def dest: chain_distinct)

text \<open>
  The insertion as the code does it: the new value goes behind the longest prefix of smaller ones
  among the elements after the first; when there are none it goes before the first, whatever that is.
\<close>

fun sp_insert :: "'v::linorder \<Rightarrow> 'v list \<Rightarrow> 'v list" where
  "sp_insert v [] = [v]"
| "sp_insert v (h # t) =
    (let k = length (takeWhile (\<lambda>m. m < v) t) in if k = 0 then v # h # t else h # take k t @ v # drop k t)"

lemma sp_insert_mset: "mset (sp_insert v xs) = add_mset v (mset xs)"
proof (cases xs)
  case (Cons h t)
  have "mset (take k t) + mset (drop k t) = mset t" for k by (metis append_take_drop_id mset_append)
  then show ?thesis using Cons by (simp add: Let_def)
qed simp

lemma sorted_insert_tail:
  "sorted t \<Longrightarrow> sorted (take (length (takeWhile (\<lambda>m. m < v) t)) t @ v # drop (length (takeWhile (\<lambda>m. m < v) t)) t)"
proof (induction t)
  case (Cons a t)
  then show ?case by (auto simp: sorted_append dest: in_set_takeD in_set_dropD)
qed simp

lemma sp_insert_sorted_iff:
  assumes "sorted (h # t)"
  shows "sorted (sp_insert v (h # t)) \<longleftrightarrow> v \<le> h \<or> t \<noteq> [] \<and> List.hd t < v"
proof (cases "t \<noteq> [] \<and> List.hd t < v")
  case True
  then obtain a u where t: "t = a # u" "a < v" by (cases t) auto
  let ?k = "length (takeWhile (\<lambda>m. m < v) t)"
  have "sorted (take ?k t @ v # drop ?k t)" by (rule sorted_insert_tail) (use assms in simp)
  moreover have "h \<le> x" if "x \<in> set (take ?k t @ v # drop ?k t)" for x
    using that assms t by (auto dest: in_set_takeD in_set_dropD)
  ultimately show ?thesis using t by (auto simp: Let_def)
next
  case False
  then have "takeWhile (\<lambda>m. m < v) t = []" by (cases t) auto
  then show ?thesis using assms False by auto
qed

section \<open>Adding a point\<close>

lemma prev_loop_ok:
  assumes "chain pn_next (pnodes s) (Some cur) (cur # qs)" "\<forall>q \<in> set (cur # qs). node_ok s q" "length qs < n"
  shows "prev_loop n s d x y cur = Ret (last (cur # takeWhile (\<lambda>q. pval s q < (d, x, y)) qs))"
  using assms
proof (induction n arbitrary: cur qs)
  case (Suc n)
  then obtain cn where cn: "pnodes s cur = Some cn" "chain pn_next (pnodes s) (pn_next cn) qs" by auto
  show ?case
  proof (cases qs)
    case Nil
    then show ?thesis using cn by simp
  next
    case (Cons q rs)
    then have ch: "chain pn_next (pnodes s) (Some q) (q # rs)" "pn_next cn = Some q" using cn by auto
    have q: "node_ok s q" using Suc.prems(2) Cons by simp
    obtain nd pt where nd: "pnodes s q = Some nd" "pnd s q = nd" "pts s (pn_p nd) = Some pt" "pval s q = (pn_distance nd, px pt, py pt)"
      by (rule node_okD [OF q])
    have rec: "prev_loop n s d x y q = Ret (last (q # takeWhile (\<lambda>q. pval s q < (d, x, y)) rs))"
      by (rule Suc.IH [OF ch(1)]) (use Suc.prems Cons in auto)
    show ?thesis
      using cn(1) ch(2) nd rec Cons by (auto simp: not_less dest: order.antisym)
  qed
qed simp

lemma node_ok_frame:
  assumes "node_ok s p" "pnodes s' p = Some n'" "pn_p n' = pn_p (pnd s p)" "pn_distance n' = pn_distance (pnd s p)"
    "pts s' (pn_p (pnd s p)) = pts s (pn_p (pnd s p))" "pbrk s \<le> pbrk s'"
  shows "node_ok s' p \<and> pval s' p = pval s p \<and> pn_p (pnd s' p) = pn_p (pnd s p)"
  using assms by (auto simp: node_ok_def pnd_def pval_def Let_def)

text \<open>A new node linked in at the front, or behind the node \<^verbatim>\<open>b\<close>.\<close>

lemma pok_grow:
  assumes ok: "pok s ps" and old: "\<And>p. p \<in> set ps \<Longrightarrow> \<exists>n'. pnodes s' p = Some n' \<and> pn_p n' = pn_p (pnd s p) \<and> pn_distance n' = pn_distance (pnd s p)"
    and ch: "chain pn_next (pnodes s') (sp_head s') ps'" and set: "set ps' = insert e (set ps)"
    and new: "pnodes s' e = Some \<lparr>pn_p = Suc (pbrk s), pn_next = q, pn_distance = d\<rparr>" "pts s' = (pts s)(Suc (pbrk s) \<mapsto> \<lparr>px = x, py = y\<rparr>)"
      "pbrk s' = Suc (Suc (pbrk s))" "e = pbrk s"
  shows "pok s' ps' \<and> (\<forall>p \<in> set ps. pval s' p = pval s p) \<and> pval s' e = (d, x, y)"
proof -
  have o: "node_ok s' p \<and> pval s' p = pval s p \<and> pn_p (pnd s' p) = pn_p (pnd s p) \<and> pn_p (pnd s p) < pbrk s" if p: "p \<in> set ps" for p
  proof -
    have np: "node_ok s p" using ok p by (simp add: pok_def)
    then have "pn_p (pnd s p) < pbrk s" by (simp add: node_ok_def)
    moreover obtain n' where "pnodes s' p = Some n'" "pn_p n' = pn_p (pnd s p)" "pn_distance n' = pn_distance (pnd s p)" using old [OF p] by blast
    ultimately show ?thesis using node_ok_frame [OF np] new(2,3) by simp
  qed
  have e: "node_ok s' e" "pval s' e = (d, x, y)" "pn_p (pnd s' e) = Suc (pbrk s)"
    using new by (auto simp: node_ok_def pnd_def pval_def)
  have "inj_on (\<lambda>p. pn_p (pnd s' p)) (insert e (set ps))"
    using ok o e(3) by (fastforce simp: pok_def inj_on_def)
  then show ?thesis using ch set o e by (auto simp: pok_def)
qed

lemma sp_add_point_ok:
  assumes ok: "points s xs" and mem: "pmem s (pbrk s)" "pmem s (Suc (pbrk s))"
  shows "\<exists>s'. sp_add_point hyp s x y = Ret (1, s') \<and> points s' (sp_insert (hyp x y, x, y) xs) \<and> pmem s' = pmem s"
proof -
  let ?e = "pbrk s" and ?p = "Suc (pbrk s)" and ?v = "(hyp x y, x, y)"
  let ?nd = "\<lparr>pn_p = ?p, pn_next = None, pn_distance = hyp x y\<rparr>"
  define s3 where "s3 = s\<lparr>pbrk := Suc ?p, pts := (pts s)(?p \<mapsto> \<lparr>px = x, py = y\<rparr>), pnodes := (pnodes s)(?e \<mapsto> ?nd)\<rparr>"
  obtain ps where ps: "pok s ps" "xs = map (pval s) ps" using ok by (auto simp: points_def)
  have lt: "\<And>p. p \<in> set ps \<Longrightarrow> p < ?e" using ps(1) by (auto simp: pok_def node_ok_def)
  have n3: "pnodes s3 p = pnodes s p" if "p \<in> set ps" for p using lt [OF that] by (simp add: s3_def)
  have nn: "pnodes s p = Some (pnd s p)" if "p \<in> set ps" for p using ps(1) that by (auto simp: pok_def node_ok_def pnd_def)
  have ch: "chain pn_next (pnodes s) (sp_head s) ps" using ps(1) by (simp add: pok_def)
  have run: "sp_add_point hyp s x y = bnd (returnPrev s3 (sp_head s) (hyp x y) x y) (\<lambda>pre.
      case pre of None \<Rightarrow> Ret (1, s3\<lparr>sp_head := Some ?e\<rparr>)
      | Some q \<Rightarrow> if sp_head s = Some q then Ret (1, s3\<lparr>sp_head := Some ?e, pnodes := (pnodes s3)(?e \<mapsto> ?nd\<lparr>pn_next := sp_head s\<rparr>)\<rparr>)
        else bnd (deref (pnodes s3 q)) (\<lambda>qn. Ret (1, s3\<lparr>pnodes := (pnodes s3)(q \<mapsto> qn\<lparr>pn_next := Some ?e\<rparr>, ?e \<mapsto> ?nd\<lparr>pn_next := pn_next qn\<rparr>)\<rparr>)))"
    using mem by (simp add: sp_add_point_def p_malloc_def s3_def Let_def cong: option.case_cong if_cong)
  show ?thesis
  proof (cases ps)
    case Nil
    let ?s = "s3\<lparr>sp_head := Some ?e\<rparr>"
    have "pok ?s [?e] \<and> (\<forall>p \<in> set ps. pval ?s p = pval s p) \<and> pval ?s ?e = ?v"
      by (rule pok_grow [OF ps(1)]) (use Nil in \<open>auto simp: s3_def\<close>)
    then show ?thesis using run ch ps(2) Nil by (auto simp: returnPrev_def points_def s3_def intro!: exI [of _ "[?e]"])
  next
    case (Cons h qs)
    then have hd: "sp_head s = Some h" using ch by simp
    define k where "k = length (takeWhile (\<lambda>q. pval s q < ?v) qs)"
    have fr: "node_ok s3 q \<and> pval s3 q = pval s q" if q: "q \<in> set ps" for q
    proof -
      have nq: "node_ok s q" using ps(1) q by (simp add: pok_def)
      then have "pn_p (pnd s q) < ?e" by (simp add: node_ok_def)
      then show ?thesis using node_ok_frame [OF nq, of s3 "pnd s q"] n3 [OF q] nn [OF q] by (simp add: s3_def)
    qed
    then have pv: "\<And>q. q \<in> set ps \<Longrightarrow> pval s3 q = pval s q" and ok3: "\<forall>q \<in> set ps. node_ok s3 q" by blast+
    have ch3: "chain pn_next (pnodes s3) (Some h) ps" using ch unfolding hd by (rule chain_cong [rotated]) (simp add: n3)
    have "length qs < points_fuel s3" using pok_length [OF ps(1)] Cons by (simp add: points_fuel_def s3_def)
    then have "prev_loop (points_fuel s3) s3 (hyp x y) x y h = Ret (last (h # takeWhile (\<lambda>q. pval s3 q < ?v) qs))"
      using prev_loop_ok [of s3 h qs] ch3 ok3 Cons by simp
    moreover have "takeWhile (\<lambda>q. pval s3 q < ?v) qs = takeWhile (\<lambda>q. pval s q < ?v) qs"
      by (rule takeWhile_cong) (use pv Cons in auto)
    then have "takeWhile (\<lambda>q. pval s3 q < ?v) qs = take k qs" unfolding k_def using takeWhile_eq_take by metis
    ultimately have pre: "returnPrev s3 (sp_head s) (hyp x y) x y = Ret (Some (last (h # take k qs)))" by (simp add: returnPrev_def hd)
    have tw: "length (takeWhile (\<lambda>m. m < ?v) (map (pval s) qs)) = k" by (simp add: k_def takeWhile_map comp_def)
    have kq: "k \<le> length qs" by (simp add: k_def length_takeWhile_le)
    show ?thesis
    proof (cases "k = 0")
      case True
      let ?s = "s3\<lparr>sp_head := Some ?e, pnodes := (pnodes s3)(?e \<mapsto> ?nd\<lparr>pn_next := sp_head s\<rparr>)\<rparr>"
      have c: "chain pn_next (pnodes ?s) (Some h) ps" by (rule chain_cong [OF _ ch3]) (use lt in \<open>force simp: s3_def\<close>)
      have "pok ?s (?e # ps) \<and> (\<forall>p \<in> set ps. pval ?s p = pval s p) \<and> pval ?s ?e = ?v"
        by (rule pok_grow [OF ps(1)]) (use c hd nn lt in \<open>auto simp: s3_def\<close>)
      then show ?thesis
        using run pre True hd ps(2) tw Cons by (auto simp: points_def s3_def intro!: exI [of _ "?e # ps"])
    next
      case False
      have "take k qs \<noteq> []" using False kq by auto
      then obtain zs b where tk: "take k qs = zs @ [b]" by (cases "take k qs" rule: rev_cases) auto
      define ys where "ys = drop k qs"
      have qs: "qs = zs @ b # ys" using append_take_drop_id [of k qs] unfolding tk ys_def [symmetric] by simp
      have split: "ps = (h # zs) @ b # ys" using Cons qs by simp
      have d: "distinct ps" by (rule chain_distinct [OF ch])
      have bh: "b \<noteq> h" "b \<in> set ps" "b \<notin> set ys" "b \<noteq> ?e" using d split lt [of b] by auto
      let ?s = "s3\<lparr>pnodes := (pnodes s3)(b \<mapsto> (pnd s b)\<lparr>pn_next := Some ?e\<rparr>, ?e \<mapsto> ?nd\<lparr>pn_next := pn_next (pnd s b)\<rparr>)\<rparr>"
      let ?h = "(pnodes s)(?e \<mapsto> ?nd\<lparr>pn_next := pn_next (pnd s b)\<rparr>)"
      have hp: "pnodes ?s = ?h(b \<mapsto> (pnd s b)\<lparr>pn_next := Some ?e\<rparr>)" using bh(4) by (auto simp: s3_def fun_eq_iff)
      have "chain pn_next (pnodes s) (Some b) (b # ys)"
        using chain_suffix [of pn_next "pnodes s" "sp_head s" "h # zs" b ys] ch split by simp
      then have "chain pn_next (pnodes s) (pn_next (pnd s b)) ys" using nn [OF bh(2)] by auto
      then have "chain pn_next (pnodes ?s) (pn_next (pnd s b)) ys"
        unfolding hp by (rule chain_cong [rotated]) (use lt bh(3) split in force)
      moreover have "pnodes ?s ?e = Some (?nd\<lparr>pn_next := pn_next (pnd s b)\<rparr>)" unfolding hp using bh(4) by simp
      ultimately have t2: "chain pn_next (pnodes ?s) (Some ?e) (?e # ys)" by simp
      have "chain pn_next ?h (sp_head s) ps" using ch by (rule chain_cong [rotated]) (use lt in force)
      then have "chain pn_next (pnodes ?s) (sp_head s) ((h # zs) @ b # ?e # ys)"
        unfolding hp split by (rule chain_relink [where q = "Some ?e"]) (simp, rule t2 [unfolded hp])
      then have c: "chain pn_next (pnodes ?s) (sp_head ?s) ((h # zs) @ b # ?e # ys)" by (simp add: s3_def)
      let ?ps = "(h # zs) @ b # ?e # ys"
      have st: "set ?ps = insert ?e (set ps)" using split by auto
      have g: "pok ?s ?ps \<and> (\<forall>p \<in> set ps. pval ?s p = pval s p) \<and> pval ?s ?e = ?v"
        by (rule pok_grow [OF ps(1) _ c st]) (use nn lt bh(4) in \<open>auto simp: s3_def\<close>)
      then have vs: "pval ?s h = pval s h" "map (pval ?s) zs = map (pval s) zs" "pval ?s b = pval s b" "map (pval ?s) ys = map (pval s) ys"
        using split by simp_all
      have "sp_insert ?v xs = pval s h # map (pval s) (take k qs) @ ?v # map (pval s) (drop k qs)"
        using ps(2) Cons tw False by (simp add: take_map drop_map)
      then have "map (pval ?s) ?ps = sp_insert ?v xs" using g vs tk ys_def by simp
      moreover have "sp_add_point hyp s x y = Ret (1, ?s)" using run pre hd bh(1) tk n3 [OF bh(2)] nn [OF bh(2)] by simp
      moreover have "pmem ?s = pmem s" by (simp add: s3_def)
      ultimately show ?thesis using g unfolding points_def by metis
    qed
  qed
qed

section \<open>Removing points\<close>

definition pt_of :: "'d \<times> 'd \<times> 'd \<Rightarrow> 'd point" where
  "pt_of v = \<lparr>px = fst (snd v), py = snd (snd v)\<rparr>"

lemma take_node_ok:
  assumes "pnodes s q = Some nd" "pts s (pn_p nd) = Some pt"
  shows "take_node (Some q) s = Ret (pt, s\<lparr>pts := (pts s)(pn_p nd := None), pnodes := (pnodes s)(q := None)\<rparr>)"
  using assms by (simp add: take_node_def free_pt_def free_node_def)

lemma pok_shrink:
  assumes ok: "pok s ps" and e: "e \<in> set ps" and ch: "chain pn_next (pnodes s') (sp_head s') ps'" and set: "set ps' = set ps - {e}"
    and old: "\<And>p. p \<in> set ps' \<Longrightarrow> \<exists>n'. pnodes s' p = Some n' \<and> pn_p n' = pn_p (pnd s p) \<and> pn_distance n' = pn_distance (pnd s p)"
    and pt: "pts s' = (pts s)(pn_p (pnd s e) := None)" "pbrk s' = pbrk s"
  shows "pok s' ps' \<and> (\<forall>p \<in> set ps'. pval s' p = pval s p)"
proof -
  have inj: "inj_on (\<lambda>p. pn_p (pnd s p)) (set ps)" using ok by (simp add: pok_def)
  have o: "node_ok s' p \<and> pval s' p = pval s p \<and> pn_p (pnd s' p) = pn_p (pnd s p)" if p: "p \<in> set ps'" for p
  proof -
    have np: "node_ok s p" and ne: "p \<in> set ps" "p \<noteq> e" using ok p set by (auto simp: pok_def)
    have "pn_p (pnd s p) \<noteq> pn_p (pnd s e)" using inj ne e by (auto dest: inj_onD)
    moreover obtain n' where "pnodes s' p = Some n'" "pn_p n' = pn_p (pnd s p)" "pn_distance n' = pn_distance (pnd s p)" using old [OF p] by blast
    ultimately show ?thesis using node_ok_frame [OF np] pt by simp
  qed
  have "inj_on (\<lambda>p. pn_p (pnd s p)) (set ps')" using inj by (rule inj_on_subset) (use set in auto)
  then have "inj_on (\<lambda>p. pn_p (pnd s' p)) (set ps')" using o by (simp add: inj_on_def)
  then show ?thesis using ch o by (simp add: pok_def)
qed

lemma pok_node: "pok s ps \<Longrightarrow> p \<in> set ps \<Longrightarrow> pnodes s p = Some (pnd s p) \<and> (\<exists>pt. pts s (pn_p (pnd s p)) = Some pt \<and> pt_of (pval s p) = pt)"
  by (auto simp: pok_def node_ok_def pnd_def pval_def pt_of_def Let_def)

text \<open>Unlinking the node \<^verbatim>\<open>e\<close> behind \<^verbatim>\<open>b\<close> and freeing it.\<close>

lemma unlink_ok:
  assumes ok: "pok s (xs @ b # e # ys)" and q: "q = pn_next (pnd s e)"
  shows "\<exists>s'. take_node (Some e) (s\<lparr>pnodes := (pnodes s)(b \<mapsto> (pnd s b)\<lparr>pn_next := q\<rparr>)\<rparr>) = Ret (pt_of (pval s e), s') \<and>
    pok s' (xs @ b # ys) \<and> (\<forall>p \<in> set (xs @ b # ys). pval s' p = pval s p) \<and> pbrk s' = pbrk s \<and> pmem s' = pmem s \<and>
    pn_next (pnd s' b) = pn_next (pnd s e) \<and> sp_head s' = sp_head s"
proof -
  let ?b = "(pnd s b)\<lparr>pn_next := q\<rparr>"
  let ?s1 = "s\<lparr>pnodes := (pnodes s)(b \<mapsto> ?b)\<rparr>"
  let ?s2 = "s\<lparr>pts := (pts s)(pn_p (pnd s e) := None), pnodes := (pnodes s)(b \<mapsto> ?b, e := None)\<rparr>"
  have ch: "chain pn_next (pnodes s) (sp_head s) (xs @ b # e # ys)" using ok by (simp add: pok_def)
  note d = chain_distinct [OF ch]
  have e: "pnodes s e = Some (pnd s e)" "pts s (pn_p (pnd s e)) = Some (pt_of (pval s e))" using pok_node [OF ok, of e] by auto
  have "take_node (Some e) ?s1 = Ret (pt_of (pval s e), ?s2)"
    using take_node_ok [of ?s1 e "pnd s e" "pt_of (pval s e)"] e d by (auto simp: fun_upd_def)
  moreover have "chain pn_next (pnodes ?s2) (sp_head ?s2) (xs @ b # ys)"
    using chain_remove [OF ch e(1), of ?b] q by simp
  then have "pok ?s2 (xs @ b # ys) \<and> (\<forall>p \<in> set (xs @ b # ys). pval ?s2 p = pval s p)"
    by (intro pok_shrink [OF ok, of e]) (use d pok_node [OF ok] in auto)
  moreover have "pn_next (pnd ?s2 b) = q" using d by (simp add: pnd_def)
  ultimately show ?thesis using q by (intro exI [of _ ?s2]) simp
qed

lemma remove_head_ok:
  assumes ok: "pok s (e # ys)"
  shows "\<exists>s'. take_node (Some e) (s\<lparr>sp_head := pn_next (pnd s e)\<rparr>) = Ret (pt_of (pval s e), s') \<and> pok s' ys \<and> (\<forall>p \<in> set ys. pval s' p = pval s p) \<and>
    pmem s' = pmem s"
proof -
  let ?s = "s\<lparr>sp_head := pn_next (pnd s e), pts := (pts s)(pn_p (pnd s e) := None), pnodes := (pnodes s)(e := None)\<rparr>"
  have ch: "chain pn_next (pnodes s) (Some e) (e # ys)" using ok by (auto simp: pok_def)
  note d = chain_distinct [OF ch]
  have e: "pnodes s e = Some (pnd s e)" "pts s (pn_p (pnd s e)) = Some (pt_of (pval s e))" using pok_node [OF ok, of e] by auto
  have "take_node (Some e) (s\<lparr>sp_head := pn_next (pnd s e)\<rparr>) = Ret (pt_of (pval s e), ?s)"
    using take_node_ok [of "s\<lparr>sp_head := pn_next (pnd s e)\<rparr>" e "pnd s e" "pt_of (pval s e)"] e by simp
  moreover have "chain pn_next (pnodes ?s) (sp_head ?s) ys" using chain_pop [OF ch e(1)] by simp
  then have "pok ?s ys \<and> (\<forall>p \<in> set ys. pval ?s p = pval s p)"
    by (intro pok_shrink [OF ok, of e]) (use d pok_node [OF ok] in auto)
  ultimately show ?thesis by (intro exI [of _ ?s]) simp
qed

lemma remove_first_ok:
  "points s [] \<Longrightarrow> sp_remove_first s = Ret (0, None, s)"
  "points s (v # xs) \<Longrightarrow> \<exists>s'. sp_remove_first s = Ret (1, Some (pt_of v), s') \<and> points s' xs"
proof -
  show "points s [] \<Longrightarrow> sp_remove_first s = Ret (0, None, s)" by (auto simp: points_def pok_def sp_remove_first_def)
  assume "points s (v # xs)"
  then obtain e ys where ok: "pok s (e # ys)" "v = pval s e" "xs = map (pval s) ys" by (auto simp: points_def map_eq_Cons_conv)
  have hd: "sp_head s = Some e" using ok(1) by (simp add: pok_def)
  obtain s' where s': "take_node (Some e) (s\<lparr>sp_head := pn_next (pnd s e)\<rparr>) = Ret (pt_of (pval s e), s')" "pok s' ys" "\<forall>p \<in> set ys. pval s' p = pval s p"
    using remove_head_ok [OF ok(1)] by blast
  then have "points s' xs" using ok(3) by (auto simp: points_def)
  then show "\<exists>s'. sp_remove_first s = Ret (1, Some (pt_of v), s') \<and> points s' xs"
    using s'(1) hd pok_node [OF ok(1), of e] ok(2) by (simp add: sp_remove_first_def)
qed

lemma last_loop_ok:
  "chain pn_next (pnodes s) (Some p) (p # c # qs) \<Longrightarrow> length qs < n \<Longrightarrow> \<exists>zs b e. p # c # qs = zs @ [b, e] \<and> last_loop n s c p = Ret (e, b)"
proof (induction n arbitrary: p c qs)
  case (Suc n)
  then obtain pn cn where pc: "pnodes s p = Some pn" "pn_next pn = Some c" "pnodes s c = Some cn" "chain pn_next (pnodes s) (pn_next cn) qs" by auto
  show ?case
  proof (cases qs)
    case Nil
    then show ?thesis using pc by (intro exI [of _ "[]"]) simp
  next
    case (Cons q rs)
    then obtain zs b e where "c # q # rs = zs @ [b, e]" "last_loop n s q c = Ret (e, b)"
      using Suc.IH [of c q rs] Suc.prems pc by auto
    then show ?thesis using pc Cons by (intro exI [of _ "p # zs"]) auto
  qed
qed simp

lemma remove_last_ok:
  "points s [] \<Longrightarrow> sp_remove_last s = Ret (0, None, s)"
  "points s (xs @ [v]) \<Longrightarrow> \<exists>s'. sp_remove_last s = Ret (1, Some (pt_of v), s') \<and> points s' xs"
proof -
  show "points s [] \<Longrightarrow> sp_remove_last s = Ret (0, None, s)" by (auto simp: points_def pok_def sp_remove_last_def)
  assume "points s (xs @ [v])"
  then obtain ps where ok: "pok s ps" "xs @ [v] = map (pval s) ps" by (auto simp: points_def)
  then obtain h qs where ps: "ps = h # qs" by (cases ps) auto
  have ch: "chain pn_next (pnodes s) (sp_head s) ps" using ok(1) by (simp add: pok_def)
  have hd: "sp_head s = Some h" "pnodes s h = Some (pnd s h)" "chain pn_next (pnodes s) (pn_next (pnd s h)) qs"
    using ch ps pok_node [OF ok(1), of h] by auto
  show "\<exists>s'. sp_remove_last s = Ret (1, Some (pt_of v), s') \<and> points s' xs"
  proof (cases qs)
    case Nil
    then have "pn_next (pnd s h) = None" "xs = []" "v = pval s h" using hd(3) ok(2) ps by auto
    then show ?thesis using remove_head_ok [of s h "[]"] ok(1) ps Nil hd by (auto simp: sp_remove_last_def points_def)
  next
    case (Cons c rs)
    then have n: "pn_next (pnd s h) = Some c" using hd(3) by simp
    have "length rs < points_fuel s" using pok_length [OF ok(1)] ps Cons by (simp add: points_fuel_def)
    then obtain zs b e where l: "ps = zs @ [b, e]" "last_loop (points_fuel s) s c h = Ret (e, b)"
      using last_loop_ok [of s h c rs "points_fuel s"] ch hd(1) ps Cons by auto
    have be: "pnodes s b = Some (pnd s b)" "pn_next (pnd s e) = None"
      using pok_node [OF ok(1), of b] chain_suffix [of pn_next "pnodes s" "sp_head s" "zs @ [b]" e "[]"] ch l(1) by (auto simp: pnd_def)
    obtain s' where s': "take_node (Some e) (s\<lparr>pnodes := (pnodes s)(b \<mapsto> (pnd s b)\<lparr>pn_next := None\<rparr>)\<rparr>) = Ret (pt_of (pval s e), s')"
      "pok s' (zs @ [b])" "\<forall>p \<in> set (zs @ [b]). pval s' p = pval s p"
      using unlink_ok [of s zs b e "[]" None] ok(1) l(1) be(2) by auto
    have "xs = map (pval s) (zs @ [b])" "v = pval s e" using ok(2) l(1) by auto
    then have "points s' xs" using s'(2,3) by (auto simp: points_def)
    then show ?thesis using hd n l(2) be s'(1) \<open>v = pval s e\<close> by (simp add: sp_remove_last_def)
  qed
qed

lemma index_loop_ok:
  "chain pn_next (pnodes s) (Some p) (p # qs) \<Longrightarrow> qs \<noteq> [] \<Longrightarrow> length qs \<le> n \<Longrightarrow>
    index_loop n s index counter (Some (List.hd qs)) p =
      Ret (if nat (index - counter) < length qs then Some (Some (qs ! nat (index - counter)), (p # qs) ! nat (index - counter)) else None)"
proof (induction n arbitrary: p qs counter)
  case (Suc n)
  then obtain q rs where qs: "qs = q # rs" by (cases qs) auto
  obtain pn qn where pq: "pnodes s p = Some pn" "pn_next pn = Some q" "pnodes s q = Some qn" "chain pn_next (pnodes s) (pn_next qn) rs"
    using Suc.prems(1) qs by auto
  show ?case
  proof (cases "index > counter")
    case False
    then show ?thesis using qs by simp
  next
    case True
    show ?thesis
    proof (cases rs)
      case Nil
      then have "pn_next qn = None" using pq(4) by simp
      moreover have "\<not> nat (index - counter) < length qs" using True qs Nil by simp
      ultimately show ?thesis using True pq qs by simp
    next
      case (Cons r us)
      then have rn: "pn_next qn = Some r" using pq(4) by simp
      have j: "nat (index - counter) = Suc (nat (index - (counter + 1)))" using True by simp
      have "index_loop n s index (counter + 1) (Some (List.hd rs)) q =
          Ret (if nat (index - (counter + 1)) < length rs then Some (Some (rs ! nat (index - (counter + 1))), (q # rs) ! nat (index - (counter + 1))) else None)"
        by (rule Suc.IH) (use Suc.prems qs Cons pq in auto)
      then show ?thesis using True pq rn qs Cons by (simp add: j)
    qed
  qed
qed simp

lemma remove_index_ok:
  assumes "points s xs" "2 \<le> length xs" "index \<noteq> 0"
  shows "if index < int (length xs) then
      \<exists>s' i. i = (if index < 0 then 1 else nat index) \<and> sp_remove_by_index s index = Ret (1, Some (pt_of (xs ! i)), s') \<and> points s' (take i xs @ drop (Suc i) xs)
    else sp_remove_by_index s index = Ret (0, None, s)"
proof -
  obtain ps where ok: "pok s ps" "xs = map (pval s) ps" using assms(1) by (auto simp: points_def)
  then obtain h qs where ps: "ps = h # qs" "qs \<noteq> []" using assms(2) by (cases ps) (auto, fastforce)
  have ch: "chain pn_next (pnodes s) (sp_head s) ps" using ok(1) by (simp add: pok_def)
  have hd: "sp_head s = Some h" "pnodes s h = Some (pnd s h)" "pn_next (pnd s h) = Some (List.hd qs)"
    using ch ps pok_node [OF ok(1), of h] by (cases qs; auto)+
  define j where "j = nat (index - 1)"
  have len: "length xs = Suc (length qs)" using ok(2) ps by simp
  have loop: "index_loop (points_fuel s) s index 1 (Some (List.hd qs)) h = Ret (if j < length qs then Some (Some (qs ! j), ps ! j) else None)"
    using index_loop_ok [of s h qs "points_fuel s" index 1] ch hd(1) ps pok_length [OF ok(1)] by (simp add: points_fuel_def j_def)
  show ?thesis
  proof (cases "index < int (length xs)")
    case False
    then have "\<not> j < length qs" using len by (simp add: j_def)
    then show ?thesis using False hd loop by (simp add: sp_remove_by_index_def)
  next
    case True
    let ?i = "if index < 0 then 1 else nat index"
    have "0 < length qs" using ps(2) by simp
    then have ij: "?i = Suc j" and jl: "j < length qs" using True len assms(3) by (cases "index < 0"; simp add: j_def; linarith)+
    define b e where "b = ps ! j" and "e = qs ! j"
    have jp: "j < length ps" "Suc j < length ps" using jl ps(1) by simp_all
    have "drop j ps = b # e # drop (Suc (Suc j)) ps"
      using Cons_nth_drop_Suc [OF jp(1)] Cons_nth_drop_Suc [OF jp(2)] ps(1) by (simp add: b_def e_def)
    then have split: "take j ps @ b # e # drop (Suc (Suc j)) ps = ps" using append_take_drop_id [of j ps] by argo
    then have ok2: "pok s (take j ps @ b # e # drop (Suc (Suc j)) ps)" using ok(1) by simp
    have nd: "pnodes s b = Some (pnd s b)" "pnodes s e = Some (pnd s e)" using pok_node [OF ok2, of b] pok_node [OF ok2, of e] by auto
    obtain s' where s': "take_node (Some e) (s\<lparr>pnodes := (pnodes s)(b \<mapsto> (pnd s b)\<lparr>pn_next := pn_next (pnd s e)\<rparr>)\<rparr>) = Ret (pt_of (pval s e), s')"
      "pok s' (take j ps @ b # drop (Suc (Suc j)) ps)" "\<forall>p \<in> set (take j ps @ b # drop (Suc (Suc j)) ps). pval s' p = pval s p"
      using unlink_ok [OF ok2 refl] by blast
    have "take (Suc j) ps = take j ps @ [b]" unfolding b_def by (rule take_Suc_conv_app_nth [OF jp(1)])
    then have "map (pval s') (take j ps @ b # drop (Suc (Suc j)) ps) = take (Suc j) xs @ drop (Suc (Suc j)) xs"
      using s'(3) ok(2) by (simp add: take_map drop_map)
    then have "points s' (take (Suc j) xs @ drop (Suc (Suc j)) xs)" using s'(2) unfolding points_def by metis
    moreover have "xs ! Suc j = pval s e" using ok(2) ps jl by (simp add: e_def)
    ultimately show ?thesis
      using True ij hd loop jl nd s'(1) assms(3) by (simp add: sp_remove_by_index_def b_def [symmetric] e_def [symmetric])
  qed
qed

text \<open>Index 0, and the list with a single point.\<close>

lemma remove_index_0_ok: "points s (v # xs) \<Longrightarrow> \<exists>s'. sp_remove_by_index s 0 = Ret (1, Some (pt_of v), s') \<and> points s' xs"
proof -
  assume "points s (v # xs)"
  then obtain e ys where ok: "pok s (e # ys)" "v = pval s e" "xs = map (pval s) ys" by (auto simp: points_def map_eq_Cons_conv)
  have hd: "sp_head s = Some e" using ok(1) by (simp add: pok_def)
  obtain s' where s': "take_node (Some e) (s\<lparr>sp_head := pn_next (pnd s e)\<rparr>) = Ret (pt_of (pval s e), s')" "pok s' ys" "\<forall>p \<in> set ys. pval s' p = pval s p"
    using remove_head_ok [OF ok(1)] by blast
  then have "points s' xs" using ok(3) by (auto simp: points_def)
  then show ?thesis using s'(1) hd pok_node [OF ok(1), of e] ok(2) by (simp add: sp_remove_by_index_def points_fuel_def)
qed

lemma remove_index_single: "points s [v] \<Longrightarrow> index \<noteq> 0 \<Longrightarrow> sp_remove_by_index s index = Crash Undef"
proof -
  assume p: "points s [v]" and i: "index \<noteq> 0"
  then obtain e where ok: "pok s [e]" by (auto simp: points_def map_eq_Cons_conv)
  then obtain nd where "sp_head s = Some e" "pnodes s e = Some nd" "pn_next nd = None" by (auto simp: pok_def)
  then show ?thesis using i by (simp add: sp_remove_by_index_def points_fuel_def)
qed

section \<open>Duplicates\<close>

fun drop_dups :: "('d \<times> 'd \<times> 'd) list \<Rightarrow> ('d \<times> 'd \<times> 'd) list" where
  "drop_dups (v # w # xs) = (if snd v = snd w then drop_dups (v # xs) else v # drop_dups (w # xs))"
| "drop_dups xs = xs"

lemma dup_loop_ok:
  assumes "pok s (zs @ p # qs)" "length qs < n" "cur = pn_next (pnd s p)"
  shows "\<exists>s' ps'. dup_loop n s c cur p = Ret (c + int (length qs + 1) - int (length (drop_dups (map (pval s) (p # qs)))), s') \<and>
    pok s' (zs @ ps') \<and> map (pval s') (zs @ ps') = map (pval s) zs @ drop_dups (map (pval s) (p # qs))"
  using assms
proof (induction n arbitrary: s zs p qs c cur)
  case (Suc n)
  have ch: "chain pn_next (pnodes s) (sp_head s) (zs @ p # qs)" using Suc.prems(1) by (simp add: pok_def)
  have pn: "pnodes s p = Some (pnd s p)" "pts s (pn_p (pnd s p)) = Some (pt_of (pval s p))" using pok_node [OF Suc.prems(1), of p] by auto
  have nx: "chain pn_next (pnodes s) cur qs" using chain_suffix [OF ch] pn(1) Suc.prems(3) by auto
  show ?case
  proof (cases qs)
    case Nil
    then show ?thesis using nx Suc.prems(1) by (intro exI [of _ s] exI [of _ "[p]"]) simp
  next
    case (Cons q rs)
    then have cur: "cur = Some q" using nx by simp
    have qn: "pnodes s q = Some (pnd s q)" "pts s (pn_p (pnd s q)) = Some (pt_of (pval s q))" using pok_node [OF Suc.prems(1), of q] Cons by auto
    show ?thesis
    proof (cases "snd (pval s p) = snd (pval s q)")
      case True
      obtain s1 where s1: "take_node (Some q) (s\<lparr>pnodes := (pnodes s)(p \<mapsto> (pnd s p)\<lparr>pn_next := pn_next (pnd s q)\<rparr>)\<rparr>) = Ret (pt_of (pval s q), s1)"
        "pok s1 (zs @ p # rs)" "\<forall>x \<in> set (zs @ p # rs). pval s1 x = pval s x" "pn_next (pnd s1 p) = pn_next (pnd s q)"
        using unlink_ok [of s zs p q rs "pn_next (pnd s q)"] Suc.prems(1) Cons by auto
      obtain s' ps' where s': "dup_loop n s1 (c + 1) (pn_next (pnd s q)) p =
          Ret (c + 1 + int (length rs + 1) - int (length (drop_dups (map (pval s1) (p # rs)))), s')" "pok s' (zs @ ps')"
        "map (pval s') (zs @ ps') = map (pval s1) zs @ drop_dups (map (pval s1) (p # rs))"
        using Suc.IH [OF s1(2) _ s1(4) [symmetric], of "c + 1"] Suc.prems(2) Cons by auto
      have v: "map (pval s1) zs = map (pval s) zs" "map (pval s1) (p # rs) = map (pval s) (p # rs)" using s1(3) by auto
      have "dup_loop (Suc n) s c cur p = dup_loop n s1 (c + 1) (pn_next (pnd s q)) p"
        using cur pn qn True s1(1) by (simp add: pt_of_def)
      then show ?thesis using s' Cons True unfolding v by (intro exI [of _ s'] exI [of _ ps']) (simp add: algebra_simps)
    next
      case False
      then have ne: "\<not> (px (pt_of (pval s q)) = px (pt_of (pval s p)) \<and> py (pt_of (pval s q)) = py (pt_of (pval s p)))"
        by (auto simp: pt_of_def prod_eq_iff)
      have "pok s ((zs @ [p]) @ q # rs)" using Suc.prems(1) Cons by simp
      from Suc.IH [OF this _ refl, of c] obtain s' ps' where s': "dup_loop n s c (pn_next (pnd s q)) q =
          Ret (c + int (length rs + 1) - int (length (drop_dups (map (pval s) (q # rs)))), s')" "pok s' ((zs @ [p]) @ ps')"
        "map (pval s') ((zs @ [p]) @ ps') = map (pval s) (zs @ [p]) @ drop_dups (map (pval s) (q # rs))"
        using Suc.prems(2) Cons by auto
      have "dup_loop (Suc n) s c cur p = dup_loop n s c (pn_next (pnd s q)) q"
        using cur pn qn ne Suc.prems(3) by auto
      then show ?thesis using s' Cons False by (intro exI [of _ s'] exI [of _ "p # ps'"]) simp
    qed
  qed
qed simp

lemma delete_duplicates_ok:
  assumes "points s xs"
  shows "\<exists>s'. sp_delete_duplicates s = Ret (int (length xs) - int (length (drop_dups xs)), s') \<and> points s' (drop_dups xs)"
proof -
  obtain ps where ok: "pok s ps" "xs = map (pval s) ps" using assms by (auto simp: points_def)
  show ?thesis
  proof (cases ps)
    case Nil
    then show ?thesis using ok assms by (simp add: sp_delete_duplicates_def pok_def)
  next
    case (Cons h qs)
    have hd: "sp_head s = Some h" "pnodes s h = Some (pnd s h)" using ok(1) Cons pok_node [OF ok(1), of h] by (auto simp: pok_def)
    obtain s' ps' where "dup_loop (points_fuel s) s 0 (pn_next (pnd s h)) h = Ret (0 + int (length qs + 1) - int (length (drop_dups (map (pval s) (h # qs)))), s')"
      "pok s' ([] @ ps')" "map (pval s') ([] @ ps') = map (pval s) [] @ drop_dups (map (pval s) (h # qs))"
      using dup_loop_ok [of s "[]" h qs "points_fuel s" _ 0] ok(1) Cons pok_length [OF ok(1)] by (auto simp: points_fuel_def)
    then show ?thesis using hd ok(2) Cons by (intro exI [of _ s']) (auto simp: sp_delete_duplicates_def points_def intro!: exI [of _ ps'])
  qed
qed


section \<open>Freeing the list\<close>

text \<open>
  The recursion frees the points of all nodes and every node but the first, which its caller frees.
\<close>

lemma sp_delete_ok:
  assumes "chain pn_next (pnodes s) (Some p) (p # qs)" "\<forall>q \<in> set (p # qs). node_ok s q" "inj_on (\<lambda>q. pn_p (pnd s q)) (set (p # qs))" "length qs < n"
  shows "sp_delete n (Some p) s =
    Ret (s\<lparr>pts := (pts s) |` (- (\<lambda>q. pn_p (pnd s q)) ` set (p # qs)), pnodes := (pnodes s) |` (- set qs)\<rparr>)"
  using assms
proof (induction n arbitrary: p qs)
  case (Suc n)
  have d: "distinct (p # qs)" by (rule chain_distinct [OF Suc.prems(1)])
  obtain nd pt where nd: "pnodes s p = Some nd" "pnd s p = nd" "pts s (pn_p nd) = Some pt"
    using Suc.prems(2) by (auto simp: node_ok_def pnd_def)
  have ch: "chain pn_next (pnodes s) (pn_next nd) qs" using Suc.prems(1) nd(1) by auto
  show ?case
  proof (cases qs)
    case Nil
    then have "pn_next nd = None" using ch by simp
    then show ?thesis using nd Nil
      by (auto simp: free_pt_def free_node_def restrict_map_def fun_eq_iff intro!: sorted_points.equality)
  next
    case (Cons q rs)
    then have nx: "pn_next nd = Some q" using ch by simp
    let ?s = "s\<lparr>pts := (pts s) |` (- (\<lambda>q. pn_p (pnd s q)) ` set (q # rs)), pnodes := (pnodes s) |` (- set rs)\<rparr>"
    have rec: "sp_delete n (Some q) s = Ret ?s"
      by (rule Suc.IH) (use Suc.prems ch Cons nx in \<open>auto simp: inj_on_def\<close>)
    have "pn_p nd \<notin> (\<lambda>q. pn_p (pnd s q)) ` set (q # rs)"
      using Suc.prems(3) d Cons nd(2) by (auto simp: inj_on_def)
    then have pt: "pts ?s (pn_p nd) = Some pt" using nd(3) by auto
    have pp: "pnodes ?s p = Some nd" and pq: "\<exists>x. pnodes ?s q = Some x" using d Cons nd(1) Suc.prems(2) by (auto simp: node_ok_def)
    have "sp_delete (Suc n) (Some p) s = Ret (?s\<lparr>pts := (pts ?s)(pn_p nd := None), pnodes := (pnodes ?s)(q := None)\<rparr>)"
      using nd(1) nx rec pp pq pt by (auto simp: free_pt_def free_node_def)
    also have "?s\<lparr>pts := (pts ?s)(pn_p nd := None), pnodes := (pnodes ?s)(q := None)\<rparr> =
        s\<lparr>pts := (pts s) |` (- (\<lambda>q. pn_p (pnd s q)) ` set (p # qs)), pnodes := (pnodes s) |` (- set qs)\<rparr>"
      using Cons nd(2) by (auto simp: restrict_map_def fun_eq_iff intro!: sorted_points.equality)
    finally show ?thesis .
  qed
qed simp

lemma sp_destroy_ok:
  assumes "pok s ps"
  shows "sp_destroy s = Ret (s\<lparr>pts := (pts s) |` (- (\<lambda>q. pn_p (pnd s q)) ` set ps), pnodes := (pnodes s) |` (- set ps)\<rparr>)"
proof (cases ps)
  case Nil
  then show ?thesis using assms by (simp add: sp_destroy_def pok_def points_fuel_def free_node_def restrict_map_def)
next
  case (Cons h qs)
  have ch: "chain pn_next (pnodes s) (Some h) (h # qs)" and hd: "sp_head s = Some h" using assms Cons by (auto simp: pok_def)
  have "sp_delete (points_fuel s) (Some h) s = Ret (s\<lparr>pts := (pts s) |` (- (\<lambda>q. pn_p (pnd s q)) ` set ps), pnodes := (pnodes s) |` (- set qs)\<rparr>)"
    using sp_delete_ok [OF ch, of "points_fuel s"] assms Cons pok_length [OF assms] by (simp add: pok_def points_fuel_def)
  moreover have "\<exists>x. (pnodes s |` (- set qs)) h = Some x" using ch chain_distinct [OF ch] by auto
  ultimately show ?thesis using hd Cons
    by (auto simp: sp_destroy_def free_node_def restrict_map_def fun_eq_iff intro!: sorted_points.equality)
qed

lemma add_point_no_memory:
  assumes "points s xs" "\<not> (pmem s (pbrk s) \<and> pmem s (Suc (pbrk s)))"
  shows "\<exists>s'. sp_add_point hyp s x y = Ret (0, s') \<and> points s' xs"
proof -
  obtain ps where ps: "pok s ps" "xs = map (pval s) ps" using assms(1) by (auto simp: points_def)
  have "points (s\<lparr>pbrk := k\<rparr>) xs" if "pbrk s \<le> k" for k
  proof -
    have "pok (s\<lparr>pbrk := k\<rparr>) ps" using ps(1) that by (fastforce simp: pok_def node_ok_def pnd_def)
    moreover have "pval (s\<lparr>pbrk := k\<rparr>) = pval s" by (simp add: fun_eq_iff pval_def pnd_def)
    ultimately show ?thesis using ps(2) by (auto simp: points_def)
  qed
  then show ?thesis using assms(2) by (auto simp: sp_add_point_def p_malloc_def)
qed


section \<open>Programs of list operations\<close>

lemma take_node_pmem: "take_node q s = Ret (pt, s') \<Longrightarrow> pmem s' = pmem s"
  by (auto simp: take_node_def free_pt_def free_node_def res_simps)

lemma dup_loop_pmem: "dup_loop n s c cur p = Ret (k, s') \<Longrightarrow> pmem s' = pmem s"
proof (induction n arbitrary: s c cur p)
  case (Suc n)
  then show ?case by (fastforce simp: res_simps split: option.splits if_splits dest: take_node_pmem)
qed simp

datatype 'd list_op = AddPoint 'd 'd | RemoveFirst | RemoveLast | RemoveIndex int | DeleteDups

primrec sp_op :: "('d \<Rightarrow> 'd \<Rightarrow> 'd) \<Rightarrow> 'd::linorder sorted_points \<Rightarrow> 'd list_op \<Rightarrow> (int \<times> 'd point option \<times> 'd sorted_points) res" where
  "sp_op hyp s (AddPoint x y) = bnd (sp_add_point hyp s x y) (\<lambda>(r, s'). Ret (r, None, s'))"
| "sp_op hyp s RemoveFirst = sp_remove_first s"
| "sp_op hyp s RemoveLast = sp_remove_last s"
| "sp_op hyp s (RemoveIndex i) = sp_remove_by_index s i"
| "sp_op hyp s DeleteDups = bnd (sp_delete_duplicates s) (\<lambda>(r, s'). Ret (r, None, s'))"

primrec sp_run :: "('d \<Rightarrow> 'd \<Rightarrow> 'd) \<Rightarrow> 'd::linorder sorted_points \<Rightarrow> 'd list_op list \<Rightarrow> ((int \<times> 'd point option) list \<times> 'd sorted_points) res" where
  "sp_run hyp s [] = Ret ([], s)"
| "sp_run hyp s (a # as) = bnd (sp_op hyp s a) (\<lambda>(r, p, s'). bnd (sp_run hyp s' as) (\<lambda>(rs, s''). Ret ((r, p) # rs, s'')))"

text \<open>The same operations on the list of values.\<close>

definition ab_index :: "int \<Rightarrow> nat" where
  "ab_index i = (if i < 0 then 1 else nat i)"

definition ab_take :: "nat \<Rightarrow> ('d \<times> 'd \<times> 'd) list \<Rightarrow> int \<times> 'd point option \<times> ('d \<times> 'd \<times> 'd) list" where
  "ab_take i xs = (if i < length xs then (1, Some (pt_of (xs ! i)), take i xs @ drop (Suc i) xs) else (0, None, xs))"

primrec ab_op :: "('d \<Rightarrow> 'd \<Rightarrow> 'd) \<Rightarrow> ('d::linorder \<times> 'd \<times> 'd) list \<Rightarrow> 'd list_op \<Rightarrow> (int \<times> 'd point option \<times> ('d \<times> 'd \<times> 'd) list) res" where
  "ab_op hyp xs (AddPoint x y) = Ret (1, None, sp_insert (hyp x y, x, y) xs)"
| "ab_op hyp xs RemoveFirst = Ret (ab_take 0 xs)"
| "ab_op hyp xs RemoveLast = Ret (ab_take (length xs - 1) xs)"
| "ab_op hyp xs (RemoveIndex i) = (if length xs = 1 \<and> i \<noteq> 0 then Crash Undef else Ret (ab_take (ab_index i) xs))"
| "ab_op hyp xs DeleteDups = Ret (int (length xs) - int (length (drop_dups xs)), None, drop_dups xs)"

primrec ab_run :: "('d \<Rightarrow> 'd \<Rightarrow> 'd) \<Rightarrow> ('d::linorder \<times> 'd \<times> 'd) list \<Rightarrow> 'd list_op list \<Rightarrow> ((int \<times> 'd point option) list \<times> ('d \<times> 'd \<times> 'd) list) res" where
  "ab_run hyp xs [] = Ret ([], xs)"
| "ab_run hyp xs (a # as) = bnd (ab_op hyp xs a) (\<lambda>(r, p, ys). bnd (ab_run hyp ys as) (\<lambda>(rs, zs). Ret ((r, p) # rs, zs)))"

primrec sim_res :: "('c \<Rightarrow> 'b \<Rightarrow> bool) \<Rightarrow> 'c res \<Rightarrow> 'b res \<Rightarrow> bool" where
  "sim_res R m (Ret b) \<longleftrightarrow> (\<exists>c. m = Ret c \<and> R c b)"
| "sim_res R m (Crash e) \<longleftrightarrow> m = Crash e"

lemma sim_res_bnd:
  assumes "sim_res R m n" "\<And>c b. R c b \<Longrightarrow> sim_res Q (f c) (g b)"
  shows "sim_res Q (bnd m f) (bnd n g)"
  using assms by (cases n) auto

definition full_mem :: "'d sorted_points \<Rightarrow> bool" where
  "full_mem s \<longleftrightarrow> pmem s = (\<lambda>_. True)"

lemma remove_first_pmem: "sp_remove_first s = Ret (r, p, s') \<Longrightarrow> pmem s' = pmem s"
  by (auto simp: sp_remove_first_def bnd_Ret_iff split: option.split_asm dest!: take_node_pmem)

lemma remove_last_pmem: "sp_remove_last s = Ret (r, p, s') \<Longrightarrow> pmem s' = pmem s"
  by (auto simp: sp_remove_last_def bnd_Ret_iff split: option.split_asm dest!: take_node_pmem)

lemma remove_index_pmem: "sp_remove_by_index s i = Ret (r, p, s') \<Longrightarrow> pmem s' = pmem s"
  by (cases "i = 0") (auto simp: sp_remove_by_index_def bnd_Ret_iff split: option.split_asm dest!: take_node_pmem)

lemmas remove_pmem = remove_first_pmem remove_last_pmem remove_index_pmem

lemma delete_duplicates_pmem: "sp_delete_duplicates s = Ret (r, s') \<Longrightarrow> pmem s' = pmem s"
  by (auto simp: sp_delete_duplicates_def bnd_Ret_iff split: option.split_asm dest!: dup_loop_pmem)

definition op_rel :: "int \<times> 'd point option \<times> 'd sorted_points \<Rightarrow> int \<times> 'd point option \<times> ('d \<times> 'd \<times> 'd) list \<Rightarrow> bool" where
  "op_rel c b \<longleftrightarrow> fst c = fst b \<and> fst (snd c) = fst (snd b) \<and> points (snd (snd c)) (snd (snd b)) \<and> full_mem (snd (snd c))"

lemma remove_index_spec:
  assumes "points s xs" "\<not> (length xs = 1 \<and> i \<noteq> 0)"
  shows "\<exists>s'. sp_remove_by_index s i = Ret (fst (ab_take (ab_index i) xs), fst (snd (ab_take (ab_index i) xs)), s') \<and> points s' (snd (snd (ab_take (ab_index i) xs)))"
proof (cases xs)
  case Nil
  then have "sp_head s = None" using assms(1) by (auto simp: points_def pok_def)
  then show ?thesis using assms(1) Nil by (simp add: sp_remove_by_index_def ab_take_def)
next
  case (Cons v ys)
  show ?thesis
  proof (cases "i = 0")
    case True
    then show ?thesis using remove_index_0_ok [of s v ys] assms(1) Cons by (simp add: ab_index_def ab_take_def)
  next
    case False
    then have l: "2 \<le> length xs" using assms(2) Cons by (cases ys) auto
    have "i < int (length xs) \<longleftrightarrow> ab_index i < length xs" using l by (auto simp: ab_index_def)
    then show ?thesis using remove_index_ok [OF assms(1) l False] assms(1) by (auto simp: ab_index_def ab_take_def split: if_splits)
  qed
qed

lemma remove_last_spec:
  assumes "points s xs"
  shows "\<exists>s'. sp_remove_last s = Ret (fst (ab_take (length xs - 1) xs), fst (snd (ab_take (length xs - 1) xs)), s') \<and> points s' (snd (snd (ab_take (length xs - 1) xs)))"
proof (cases xs rule: rev_cases)
  case Nil
  then show ?thesis using remove_last_ok(1) [of s] assms by (simp add: ab_take_def)
next
  case (snoc ys v)
  then show ?thesis using remove_last_ok(2) [of s ys v] assms by (simp add: ab_take_def nth_append)
qed

lemma sp_op_sim:
  assumes "points s xs" "full_mem s"
  shows "sim_res op_rel (sp_op hyp s a) (ab_op hyp xs a)"
proof -
  note keep = remove_pmem [of s] delete_duplicates_pmem [of s]
  have mem: "pmem s = (\<lambda>_. True)" using assms(2) by (simp add: full_mem_def)
  show ?thesis
  proof (cases a)
    case (AddPoint x y)
    then show ?thesis using sp_add_point_ok [OF assms(1), of hyp x y] assms(2) by (auto simp: full_mem_def op_rel_def)
  next
    case RemoveFirst
    then show ?thesis using remove_first_ok(1) [of s] remove_first_ok(2) [of s "List.hd xs" "tl xs"] assms(1) keep mem
      by (cases xs) (fastforce simp: op_rel_def ab_take_def full_mem_def)+
  next
    case RemoveLast
    then show ?thesis using remove_last_spec [OF assms(1)] keep mem by (fastforce simp: op_rel_def full_mem_def)
  next
    case (RemoveIndex i)
    show ?thesis
    proof (cases "length xs = 1 \<and> i \<noteq> 0")
      case True
      then show ?thesis using remove_index_single [of s "xs ! 0" i] assms(1) RemoveIndex by (auto simp: length_Suc_conv)
    next
      case False
      then have ab: "ab_op hyp xs a = Ret (ab_take (ab_index i) xs)" using RemoveIndex by auto
      obtain s' where "sp_remove_by_index s i = Ret (fst (ab_take (ab_index i) xs), fst (snd (ab_take (ab_index i) xs)), s')"
        "points s' (snd (snd (ab_take (ab_index i) xs)))" using remove_index_spec [OF assms(1) False] by blast
      then show ?thesis using keep(3) mem RemoveIndex unfolding ab by (simp add: op_rel_def full_mem_def)
    qed
  next
    case DeleteDups
    then show ?thesis using delete_duplicates_ok [OF assms(1)] keep mem by (fastforce simp: op_rel_def full_mem_def)
  qed
qed

lemma sp_run_sim:
  "points s xs \<Longrightarrow> full_mem s \<Longrightarrow> sim_res (\<lambda>(rs, s') (qs, ys). rs = qs \<and> points s' ys \<and> full_mem s') (sp_run hyp s as) (ab_run hyp xs as)"
proof (induction as arbitrary: s xs)
  case (Cons a as)
  show ?case unfolding sp_run.simps ab_run.simps
  proof (rule sim_res_bnd [OF sp_op_sim [OF Cons.prems]])
    fix c :: "int \<times> 'a point option \<times> 'a sorted_points" and b
    assume "op_rel c b"
    then show "sim_res (\<lambda>(rs, s') (qs, ys). rs = qs \<and> points s' ys \<and> full_mem s')
        (case c of (r, p, s') \<Rightarrow> bnd (sp_run hyp s' as) (\<lambda>(rs, s''). Ret ((r, p) # rs, s'')))
        (case b of (r, p, ys) \<Rightarrow> bnd (ab_run hyp ys as) (\<lambda>(rs, zs). Ret ((r, p) # rs, zs)))"
      by (cases c; cases b) (auto simp: op_rel_def intro!: sim_res_bnd [OF Cons.IH])
  qed
qed simp

lemma sp_init_points: "sp_init (\<lambda>_. True) = Ret s \<Longrightarrow> points s [] \<and> full_mem s"
  by (auto simp: sp_init_def points_def pok_def full_mem_def)

section \<open>Properties\<close>

definition manh :: "int \<Rightarrow> int \<Rightarrow> int" where
  "manh x y = \<bar>x\<bar> + \<bar>y\<bar>"

text \<open>
  C39: every program of list operations that starts with the empty list and finds memory for its
  nodes returns the results of the same operations on the plain list of values, ends with the list
  in that order, and fails only where that program does, at an index other than 0 in a list of one point.
\<close>

theorem point_list_refines:
  assumes "sp_init (\<lambda>_. True) = Ret s"
  shows "case ab_run hyp [] as of
      Ret (rs, ys) \<Rightarrow> \<exists>s'. sp_run hyp s as = Ret (rs, s') \<and> points s' ys
    | Crash e \<Rightarrow> sp_run hyp s as = Crash e"
  using sp_run_sim [of s "[]" hyp as] sp_init_points [OF assms] by (auto split: res.splits)

theorem point_list_refines_witness:
  "\<exists>s s'. sp_init (\<lambda>_. True) = Ret s \<and>
    sp_run manh s [AddPoint 3 0, AddPoint 1 0, AddPoint 4 0, AddPoint 4 0, DeleteDups, RemoveIndex 1, RemoveLast, RemoveLast, RemoveLast] =
      Ret ([(1, None), (1, None), (1, None), (1, None), (1, None), (1, Some \<lparr>px = 3, py = 0\<rparr>), (1, Some \<lparr>px = 4, py = 0\<rparr>),
        (1, Some \<lparr>px = 1, py = 0\<rparr>), (0, None)], s') \<and> points s' []"
proof -
  obtain s :: "int sorted_points" where s: "sp_init (\<lambda>_. True) = Ret s" by (simp add: sp_init_def)
  show ?thesis
    using point_list_refines [OF s, of manh "[AddPoint 3 0, AddPoint 1 0, AddPoint 4 0, AddPoint 4 0, DeleteDups, RemoveIndex 1, RemoveLast, RemoveLast, RemoveLast]"] s
    by (simp add: manh_def ab_take_def ab_index_def pt_of_def Let_def del: sp_run.simps)
qed

text \<open>
  C40: a point added to a sorted list is in the list afterwards with all the points that were there;
  the list is sorted again exactly when it was empty, or the new point is not above the first one, or
  it is above the second one.
\<close>

theorem add_point_sorted_iff:
  assumes "points s xs" "sorted xs" "pmem s (pbrk s)" "pmem s (Suc (pbrk s))"
  shows "\<exists>s' ys. sp_add_point hyp s x y = Ret (1, s') \<and> points s' ys \<and> mset ys = add_mset (hyp x y, x, y) (mset xs) \<and>
    (sorted ys \<longleftrightarrow> xs = [] \<or> (hyp x y, x, y) \<le> List.hd xs \<or> 1 < length xs \<and> xs ! 1 < (hyp x y, x, y))"
proof -
  let ?v = "(hyp x y, x, y)"
  obtain s' where s': "sp_add_point hyp s x y = Ret (1, s')" "points s' (sp_insert ?v xs)"
    using sp_add_point_ok [OF assms(1,3,4)] by blast
  have "sorted (sp_insert ?v xs) \<longleftrightarrow> xs = [] \<or> ?v \<le> List.hd xs \<or> 1 < length xs \<and> xs ! 1 < ?v"
  proof (cases xs)
    case (Cons h t)
    then show ?thesis using sp_insert_sorted_iff [of h t ?v] assms(2) by (cases t) (simp_all del: sp_insert.simps)
  qed simp
  then show ?thesis using s' sp_insert_mset [of ?v xs] by blast
qed

text \<open>Adding the points 1 and 2 on the axis in this order leaves the list unsorted.\<close>

theorem add_point_sorted_iff_witness:
  "\<exists>s s' ys. sp_add_point manh s 2 0 = Ret (1, s') \<and> points s [(1, 1, 0)] \<and> points s' ys \<and> mset ys = {#(1, 1, 0), (2, 2, 0)#} \<and> \<not> sorted ys"
proof -
  obtain i :: "int sorted_points" where i: "sp_init (\<lambda>_. True) = Ret i" by (simp add: sp_init_def)
  note iok = sp_init_points [OF i, unfolded full_mem_def]
  have "\<exists>s. points s [(1 :: int, 1, 0)] \<and> pmem s = (\<lambda>_. True)"
    using sp_add_point_ok [of i "[]" manh 1 0] iok by (auto simp: manh_def)
  then obtain s where s: "points s [(1 :: int, 1, 0)]" "pmem s = (\<lambda>_. True)" by blast
  show ?thesis using add_point_sorted_iff [of s "[(1, 1, 0)]" manh 2 0] s by (auto simp: manh_def add_mset_commute)
qed

end
