(* ===== verification/Warm_Fact.thy ===== *)
theory Warm_Fact
  imports OS_Prelude Complex_Main
begin

text \<open>
  The factorial of the warm-up exercise (\<^verbatim>\<open>warmup/fact.c\<close>): the recursion in wrapping \<^verbatim>\<open>int\<close> arithmetic, the
  conversion of an \<^verbatim>\<open>int\<close> to a \<^verbatim>\<open>float\<close>, and the main function with what it prints. The value of \<^verbatim>\<open>atof\<close> is a
  parameter, \<^const>\<open>None\<close> when it is not a number or infinite.
\<close>

section \<open>The recursion\<close>

primrec recursion :: "nat \<Rightarrow> int \<Rightarrow> int res" where
  "recursion 0 value = Crash Diverges"
| "recursion (Suc n) value =
    (if value = 1 then Ret value else bnd (recursion n (value - 1)) (\<lambda>r. Ret (to_s32 (r * value))))"

lemma recursion_fact: "1 \<le> k \<Longrightarrow> k \<le> 12 \<Longrightarrow> k \<le> n \<Longrightarrow> recursion n (int k) = Ret (fact k)"
proof (induction n arbitrary: k)
  case (Suc n)
  show ?case
  proof (cases "k = 1")
    case False
    then obtain m where k: "k = Suc m" "1 \<le> m" using Suc.prems(1) by (cases k) auto
    then have r: "recursion n (int m) = Ret (fact m)" using Suc by simp
    have "(fact k :: int) \<le> fact 12" using Suc.prems(2) by (intro fact_mono) auto
    then have "to_s32 (fact k) = (fact k :: int)" by (intro to_s32_id) (simp_all add: fact_numeral order.trans [OF _ fact_ge_zero])
    then show ?thesis using k r by (simp add: mult.commute)
  qed simp
qed simp

lemma recursion_nonpositive: "value \<le> 0 \<Longrightarrow> recursion n value = Crash Diverges"
  by (induction n arbitrary: "value") auto

section \<open>An int as a float\<close>

text \<open>
  A \<^verbatim>\<open>float\<close> has 24 binary digits: a longer number is rounded to the nearest one, and to the even one between two.
\<close>

fun float_shift :: "nat \<Rightarrow> nat" where
  "float_shift a = (if a < 16777216 then 0 else Suc (float_shift (a div 2)))"

declare float_shift.simps [simp del]

lemma float_shift_small: "a < 16777216 \<Longrightarrow> float_shift a = 0"
  by (simp add: float_shift.simps [of a])

definition to_float :: "int \<Rightarrow> int" where
  "to_float n =
    (let a = nat \<bar>n\<bar>; u = 2 ^ float_shift a; q = a div u; r = a mod u;
         q' = if u < 2 * r \<or> u = 2 * r \<and> odd q then q + 1 else q in
     sgn n * int (q' * u))"

lemma to_float_exact: "\<bar>n\<bar> < 16777216 \<Longrightarrow> to_float n = n"
  by (simp add: to_float_def Let_def nat_less_iff float_shift_small sgn_mult_abs)

section \<open>The main function\<close>

definition arg_int :: "byte list \<Rightarrow> int res" where
  "arg_int s = (case str_number s of (neg, n, _) \<Rightarrow> let x = if neg then - n else n in bnd (guard_ub (in_s32 x)) (\<lambda>_. Ret x))"

definition huh :: "byte list" where
  "huh = cstr ''Huh?'' @ [10]"

definition fact_main :: "(byte list \<Rightarrow> rat option) \<Rightarrow> nat \<Rightarrow> byte list list \<Rightarrow> byte list res" where
  "fact_main atof fuel argv =
    (if 2 < length argv then Ret huh
     else
       bnd (guard_ub (1 < length argv)) (\<lambda>_.
       bnd (arg_int (argv ! 1)) (\<lambda>n.
       if n = 0 then Ret huh
       else if Some (of_int (to_float n)) = atof (argv ! 1) then
         (if n \<le> 12 then bnd (recursion fuel n) (\<lambda>r. Ret (dec_int r @ [10]))
          else Ret (cstr ''Overflow'' @ [10]))
       else Ret huh)))"

lemma arg_int_dec: "in_s32 x \<Longrightarrow> arg_int (dec_int x) = Ret x"
  by (simp add: arg_int_def str_number_dec_all)

text \<open>
  What the program prints for an integer, when \<^verbatim>\<open>atof\<close> reads it exactly: the factorial from 1 to 12; above, that there is
  an overflow, or, when a \<^verbatim>\<open>float\<close> does not hold the number, the same as for something that is not a number; and a
  negative number sends it into a recursion without end.
\<close>

lemma fact_main_integer:
  assumes x: "in_s32 x" and atof: "atof (dec_int x) = Some (of_int x)" and fuel: "12 \<le> fuel"
  shows "fact_main atof fuel [prog, dec_int x] =
    (if x = 0 \<or> to_float x \<noteq> x then Ret huh
     else if 12 < x then Ret (cstr ''Overflow'' @ [10])
     else if 0 < x then Ret (dec_int (fact (nat x)) @ [10])
     else Crash Diverges)"
proof -
  have r: "recursion fuel x = Ret (fact (nat x))" if "0 < x" "x \<le> 12" using recursion_fact [of "nat x" fuel] that fuel by simp
  have "of_int (to_float x) = (of_int x :: rat) \<longleftrightarrow> to_float x = x" by (rule of_int_eq_iff)
  then show ?thesis using r recursion_nonpositive [of x fuel] by (simp add: fact_main_def arg_int_dec [OF x] atof)
qed

lemma to_float_inexact: "to_float 16777217 = 16777216"
proof -
  have "float_shift 16777217 = 1" by (simp add: float_shift.simps [of 16777217] float_shift_small)
  then show ?thesis by (simp add: to_float_def Let_def)
qed

lemma fact_main_float:
  assumes "atof (dec_int 16777217) = Some 16777217"
  shows "fact_main atof fuel [prog, dec_int 16777217] = Ret huh"
proof -
  have "in_s32 16777217" by (simp add: in_s32_def)
  then show ?thesis by (simp add: fact_main_def arg_int_dec assms to_float_inexact)
qed

lemma fact_main_usage: "length argv > 2 \<Longrightarrow> fact_main atof fuel argv = Ret huh" "fact_main atof fuel [prog] = Crash Undef"
  by (simp_all add: fact_main_def)

end
