(* ===== verification/Warm_WC.thy ===== *)
theory Warm_WC
  imports OS_Chain
begin

text \<open>
  The word counter of the warm-up exercise (\<^verbatim>\<open>warmup/wc.c\<close>): a hash table with one bucket per byte of the text,
  each bucket a singly linked list of the words that hash to it. Elements and the strings they point
  to are allocated separately; \<^verbatim>\<open>wmem\<close> says which calls of \<^verbatim>\<open>malloc\<close> succeed, and what is freed is
  gone. The text is the list of the bytes that can be read from \<^verbatim>\<open>word_array\<close> on: reading
  behind its end is undefined.
\<close>

section \<open>State\<close>

record wc_element =
  w_word :: nat
  w_sizeofword :: int
  w_key :: nat
  w_counts :: int
  w_next :: "nat option"

record wc =
  wcArray :: "nat option list"
  wc_size :: int
  welts :: "nat \<Rightarrow> wc_element option"
  wstrs :: "nat \<Rightarrow> byte list option"
  wbrk :: nat
  wmem :: "nat \<Rightarrow> bool"

definition w_malloc :: "wc \<Rightarrow> nat option \<times> wc" where
  "w_malloc s = (if wmem s (wbrk s) then Some (wbrk s) else None, s\<lparr>wbrk := Suc (wbrk s)\<rparr>)"

text \<open>Characters are signed; the sum is of type \<^verbatim>\<open>unsigned long\<close> and wraps around.\<close>

definition wc_hash :: "byte list \<Rightarrow> 64 word" where
  "wc_hash str = foldl (\<lambda>h c. push_bit 5 h + h + scast c) 5381 str"

definition initNode :: "nat \<Rightarrow> nat \<Rightarrow> int \<Rightarrow> wc \<Rightarrow> (nat \<times> wc) res" where
  "initNode wordi key sizeofword s =
    (case w_malloc s of (p, s1) \<Rightarrow>
     bnd (deref p) (\<lambda>newNode.
     Ret (newNode, s1\<lparr>welts := (welts s1)(newNode \<mapsto>
       \<lparr>w_word = wordi, w_sizeofword = sizeofword, w_key = key, w_counts = 1, w_next = None\<rparr>)\<rparr>)))"

section \<open>Freeing a bucket\<close>

text \<open>The fuel of the walks is the number of allocations, which bounds the number of elements.\<close>

definition wc_fuel :: "wc \<Rightarrow> nat" where
  "wc_fuel s = Suc (wbrk s)"

definition free_str :: "nat \<Rightarrow> wc \<Rightarrow> wc res" where
  "free_str p s = bnd (deref (wstrs s p)) (\<lambda>_. Ret (s\<lparr>wstrs := (wstrs s)(p := None)\<rparr>))"

definition free_elt :: "nat option \<Rightarrow> wc \<Rightarrow> wc res" where
  "free_elt p s =
    (case p of
       None \<Rightarrow> Ret s
     | Some q \<Rightarrow> bnd (deref (welts s q)) (\<lambda>_. Ret (s\<lparr>welts := (welts s)(q := None)\<rparr>)))"

primrec wc_delete :: "nat \<Rightarrow> nat option \<Rightarrow> wc \<Rightarrow> wc res" where
  "wc_delete 0 head s = Crash Diverges"
| "wc_delete (Suc n) head s =
    (case head of
       None \<Rightarrow> Ret s
     | Some h \<Rightarrow>
         bnd (deref (welts s h)) (\<lambda>nd.
         bnd (if w_next nd \<noteq> None then wc_delete n (w_next nd) s else Ret s) (\<lambda>s1.
         bnd (deref (welts s1 h)) (\<lambda>nd1.
         bnd (free_str (w_word nd1) s1) (\<lambda>s2.
         free_elt (w_next nd1) s2)))))"

section \<open>Counting\<close>

definition wc_byte :: "byte list \<Rightarrow> nat \<Rightarrow> byte res" where
  "wc_byte m i = (if i < length m then Ret (m ! i) else Crash Undef)"

function scan_wc_word :: "byte list \<Rightarrow> nat \<Rightarrow> int \<Rightarrow> (int \<times> nat) res" where
  "scan_wc_word m j counter =
    (if length m \<le> j then Crash Undef
     else if is_space (m ! j) then Ret (counter, j)
     else scan_wc_word m (Suc j) (to_s32 (counter + 1)))"
  by pat_completeness auto
termination by (relation "measure (\<lambda>(m, j, c). length m - j)") auto

declare scan_wc_word.simps [simp del]

text \<open>The string that \<^verbatim>\<open>strncpy\<close> leaves in \<^verbatim>\<open>dummy\<close>: it ends at the first null byte.\<close>

definition copy_word :: "byte list \<Rightarrow> nat \<Rightarrow> int \<Rightarrow> byte list" where
  "copy_word m i counter = takeWhile (\<lambda>b. b \<noteq> 0) (take (nat counter) (drop i m))"

text \<open>The walk along a bucket: the element with the word, or the last element.\<close>

primrec find_word :: "nat \<Rightarrow> wc \<Rightarrow> byte list \<Rightarrow> nat option \<Rightarrow> nat \<Rightarrow> (nat + nat) res" where
  "find_word 0 s str currentHash pre = Crash Diverges"
| "find_word (Suc n) s str currentHash pre =
    bnd (deref (welts s pre)) (\<lambda>pn.
    if w_next pn \<noteq> None then
      bnd (deref currentHash) (\<lambda>c.
      bnd (deref (welts s c)) (\<lambda>cn.
      bnd (deref (wstrs s (w_word cn))) (\<lambda>w.
      if w = str then Ret (Inl c)
      else bnd (deref (w_next pn)) (\<lambda>q. find_word n s str (w_next cn) q))))
    else Ret (Inr pre))"

definition count_up :: "nat \<Rightarrow> wc \<Rightarrow> wc res" where
  "count_up e s = bnd (deref (welts s e)) (\<lambda>n. Ret (s\<lparr>welts := (welts s)(e \<mapsto> n\<lparr>w_counts := to_s32 (w_counts n + 1)\<rparr>)\<rparr>))"

definition wc_index :: "byte list \<Rightarrow> int \<Rightarrow> nat res" where
  "wc_index str sz =
    (let d = sz mod 18446744073709551616 in
     if d = 0 then Crash Undef else Ret (nat (uint (wc_hash str) mod d)))"

definition wc_bucket :: "nat \<Rightarrow> wc \<Rightarrow> nat option res" where
  "wc_bucket k s = (if k < length (wcArray s) then Ret (wcArray s ! k) else Crash Undef)"

definition wc_add :: "nat \<Rightarrow> byte list \<Rightarrow> int \<Rightarrow> wc \<Rightarrow> wc res" where
  "wc_add dummy str counter s =
    bnd (wc_index str (wc_size s)) (\<lambda>index.
    bnd (wc_bucket index s) (\<lambda>currentHash.
    case currentHash of
      None \<Rightarrow> bnd (initNode dummy index counter s) (\<lambda>(p, s1). Ret (s1\<lparr>wcArray := (wcArray s1)[index := Some p]\<rparr>))
    | Some h \<Rightarrow>
        bnd (deref (welts s h)) (\<lambda>hn.
        bnd (deref (wstrs s (w_word hn))) (\<lambda>w.
        if w = str then count_up h s
        else
          bnd (find_word (wc_fuel s) s str (w_next hn) h) (\<lambda>r.
          case r of
            Inl c \<Rightarrow> count_up c s
          | Inr pre \<Rightarrow>
              bnd (initNode dummy index counter s) (\<lambda>(p, s1).
              bnd (deref (welts s1 pre)) (\<lambda>pn.
              Ret (s1\<lparr>welts := (welts s1)(pre \<mapsto> pn\<lparr>w_next := Some p\<rparr>)\<rparr>))))))))"

text \<open>
  One round of the loop over the text, from the scan of a word to the assignment of \<^verbatim>\<open>i\<close>; the result is
  the position of the white space.
\<close>

definition wc_round :: "byte list \<Rightarrow> nat \<Rightarrow> wc \<Rightarrow> (nat \<times> wc) res" where
  "wc_round m i s =
    bnd (scan_wc_word m i 0) (\<lambda>(counter, j).
    case w_malloc s of (p, s1) \<Rightarrow>
    bnd (deref p) (\<lambda>dummy.
    let str = copy_word m i counter;
        s2 = s1\<lparr>wstrs := (wstrs s1)(dummy \<mapsto> str)\<rparr> in
    bnd (if str = [] then Ret s2 else wc_add dummy str counter s2) (\<lambda>s3. Ret (j, s3))))"

text \<open>The loop ends or leaves the text after at most as many rounds as there are bytes.\<close>

primrec wc_loop :: "nat \<Rightarrow> byte list \<Rightarrow> nat \<Rightarrow> wc \<Rightarrow> wc res" where
  "wc_loop 0 m i s = Crash Diverges"
| "wc_loop (Suc n) m i s =
    bnd (wc_byte m i) (\<lambda>b.
    if b = 0 then Ret s else bnd (wc_round m i s) (\<lambda>(j, s1). wc_loop n m (Suc j) s1))"

definition wc_init :: "(nat \<Rightarrow> bool) \<Rightarrow> byte list \<Rightarrow> int \<Rightarrow> wc res" where
  "wc_init ok word_array sz =
    bnd (c_assert (ok 0)) (\<lambda>_.
    bnd (guard_ub (ok 1 \<or> sz \<le> 0)) (\<lambda>_.
    wc_loop (Suc (length word_array)) word_array 0
      \<lparr>wcArray = replicate (nat sz) None, wc_size = sz, welts = Map.empty, wstrs = Map.empty, wbrk = 2, wmem = ok\<rparr>))"

section \<open>Printing and freeing\<close>

text \<open>The lines printed, as pairs of a word and a number.\<close>

primrec output_bucket :: "nat \<Rightarrow> wc \<Rightarrow> nat option \<Rightarrow> (byte list \<times> int) list res" where
  "output_bucket 0 s currentHash = Crash Diverges"
| "output_bucket (Suc n) s currentHash =
    (case currentHash of
       None \<Rightarrow> Ret []
     | Some c \<Rightarrow>
         bnd (deref (welts s c)) (\<lambda>cn.
         bnd (deref (wstrs s (w_word cn))) (\<lambda>w.
         bnd (output_bucket n s (w_next cn)) (\<lambda>out. Ret ((w, w_counts cn) # out)))))"

primrec output_from :: "wc \<Rightarrow> nat option list \<Rightarrow> (byte list \<times> int) list res" where
  "output_from s [] = Ret []"
| "output_from s (b # bs) = bnd (output_bucket (wc_fuel s) s b) (\<lambda>o1. bnd (output_from s bs) (\<lambda>o2. Ret (o1 @ o2)))"

definition wc_output :: "wc \<Rightarrow> (byte list \<times> int) list res" where
  "wc_output s = output_from s (wcArray s)"

primrec destroy_from :: "nat option list \<Rightarrow> wc \<Rightarrow> wc res" where
  "destroy_from [] s = Ret s"
| "destroy_from (b # bs) s = bnd (case b of None \<Rightarrow> Ret s | Some h \<Rightarrow> wc_delete (wc_fuel s) b s) (\<lambda>s1. destroy_from bs s1)"

definition wc_destroy :: "wc \<Rightarrow> wc res" where
  "wc_destroy s = bnd (destroy_from (wcArray s) s) (\<lambda>s1. Ret (s1\<lparr>wcArray := []\<rparr>))"


section \<open>The table as lists of counted words\<close>

definition elt :: "wc \<Rightarrow> nat \<Rightarrow> wc_element" where
  "elt s e = the (welts s e)"

definition estr :: "wc \<Rightarrow> nat \<Rightarrow> byte list" where
  "estr s e = the (wstrs s (w_word (elt s e)))"

definition ev :: "wc \<Rightarrow> nat \<Rightarrow> byte list \<times> int" where
  "ev s e = (estr s e, w_counts (elt s e))"

definition elt_ok :: "wc \<Rightarrow> nat \<Rightarrow> bool" where
  "elt_ok s e \<longleftrightarrow> e < wbrk s \<and> welts s e \<noteq> None \<and> w_word (elt s e) < wbrk s \<and> wstrs s (w_word (elt s e)) \<noteq> None"

definition wtab :: "wc \<Rightarrow> nat list list \<Rightarrow> bool" where
  "wtab s bs \<longleftrightarrow>
    length bs = length (wcArray s) \<and> (\<forall>i < length bs. chain w_next (welts s) (wcArray s ! i) (bs ! i)) \<and> distinct (concat bs) \<and>
    (\<forall>e \<in> set (concat bs). elt_ok s e) \<and> inj_on (\<lambda>e. w_word (elt s e)) (set (concat bs)) \<and>
    dom (welts s) \<subseteq> set (concat bs)"

fun add_assoc :: "byte list \<Rightarrow> (byte list \<times> int) list \<Rightarrow> (byte list \<times> int) list" where
  "add_assoc w [] = [(w, 1)]"
| "add_assoc w ((v, c) # xs) = (if v = w then (v, to_s32 (c + 1)) # xs else (v, c) # add_assoc w xs)"

lemma bucket_in_concat: "i < length bs \<Longrightarrow> e \<in> set (bs ! i) \<Longrightarrow> e \<in> set (concat bs)"
  by (auto simp: set_conv_nth [of bs])

lemma concat_split:
  assumes "k < length bs"
  shows "\<exists>A D. concat bs = A @ bs ! k @ D \<and> (\<forall>es. concat (bs[k := es]) = A @ es @ D)"
proof (intro exI conjI allI)
  show "concat bs = concat (take k bs) @ bs ! k @ concat (drop (Suc k) bs)"
    by (subst id_take_nth_drop [OF assms]) simp
  show "concat (bs[k := es]) = concat (take k bs) @ es @ concat (drop (Suc k) bs)" for es
    by (subst upd_conv_take_nth_drop [OF assms]) simp
qed

lemma concat_upd:
  assumes "k < length bs" "set (bs ! k) \<subseteq> set es"
  shows "set (concat (bs[k := es])) = set (concat bs) \<union> set es"
proof -
  obtain A D where c: "concat bs = A @ bs ! k @ D" "\<And>es. concat (bs[k := es]) = A @ es @ D" using concat_split [OF assms(1)] by metis
  then show ?thesis using assms(2) unfolding c by auto
qed

lemma distinct_concat_upd:
  assumes "distinct (concat bs)" "k < length bs" "distinct es" "set es \<inter> set (concat bs) \<subseteq> set (bs ! k)"
  shows "distinct (concat (bs[k := es]))"
proof -
  obtain A D where c: "concat bs = A @ bs ! k @ D" "\<And>es. concat (bs[k := es]) = A @ es @ D" using concat_split [OF assms(2)] by metis
  show ?thesis using assms(1,3,4) unfolding c by auto
qed

lemma bucket_apart:
  assumes "distinct (concat bs)" "i < length bs" "k < length bs" "i \<noteq> k" "e \<in> set (bs ! i)"
  shows "e \<notin> set (bs ! k)"
proof -
  obtain A D where c: "concat bs = A @ bs ! k @ D" "\<And>es. concat (bs[k := es]) = A @ es @ D" using concat_split [OF assms(3)] by metis
  have "e \<in> set (concat (bs[k := []]))" by (rule bucket_in_concat [of i]) (use assms in auto)
  then show ?thesis using assms(1) unfolding c by auto
qed

lemma elt_frame:
  assumes "elt_ok s e" "welts s' e = Some n'" "w_word n' = w_word (elt s e)" "wstrs s' = wstrs s" "wbrk s \<le> wbrk s'"
  shows "elt_ok s' e \<and> estr s' e = estr s e \<and> w_word (elt s' e) = w_word (elt s e)"
  using assms by (auto simp: elt_ok_def elt_def estr_def)

text \<open>A change of the bucket \<^verbatim>\<open>k\<close>, which may get new elements.\<close>

lemma wtab_change:
  assumes tab: "wtab s bs" and k: "k < length bs" and len: "length (wcArray s') = length (wcArray s)"
    and arr: "\<And>i. i \<noteq> k \<Longrightarrow> wcArray s' ! i = wcArray s ! i"
    and other: "\<And>e. e \<in> set (concat bs) \<Longrightarrow> e \<notin> set (bs ! k) \<Longrightarrow> welts s' e = welts s e"
    and same: "\<And>e. e \<in> set (bs ! k) \<Longrightarrow> \<exists>n'. welts s' e = Some n' \<and> w_word n' = w_word (elt s e)"
    and ch: "chain w_next (welts s') (wcArray s' ! k) es"
    and new: "set es = set (bs ! k) \<union> N" "N \<inter> set (concat bs) = {}" "\<And>e. e \<in> N \<Longrightarrow> elt_ok s' e \<and> w_word (elt s' e) = d" "N \<subseteq> {q}"
    and d: "d \<notin> (\<lambda>e. w_word (elt s e)) ` set (concat bs)"
    and str: "wstrs s' = wstrs s" "wbrk s \<le> wbrk s'" and dm: "dom (welts s') \<subseteq> dom (welts s) \<union> N"
  shows "wtab s' (bs[k := es]) \<and> map (map (ev s')) (bs[k := es]) = (map (map (ev s)) bs)[k := map (ev s') es] \<and>
    (\<forall>e \<in> set (concat bs). estr s' e = estr s e)"
proof -
  have dis: "distinct (concat bs)" and ok: "\<And>e. e \<in> set (concat bs) \<Longrightarrow> elt_ok s e" and inj: "inj_on (\<lambda>e. w_word (elt s e)) (set (concat bs))"
    using tab by (auto simp: wtab_def)
  have old: "elt_ok s' e \<and> estr s' e = estr s e \<and> w_word (elt s' e) = w_word (elt s e)" if e: "e \<in> set (concat bs)" for e
  proof -
    have "\<exists>n'. welts s' e = Some n' \<and> w_word n' = w_word (elt s e)"
      using same other [OF e] ok [OF e] by (cases "e \<in> set (bs ! k)") (auto simp: elt_ok_def elt_def)
    then show ?thesis using elt_frame [OF ok [OF e] _ _ str] by blast
  qed
  have set: "set (concat (bs[k := es])) = set (concat bs) \<union> N"
    using concat_upd [OF k, of es] new(1) bucket_in_concat [OF k] by blast
  have dis': "distinct (concat (bs[k := es]))"
    by (rule distinct_concat_upd [OF dis k chain_distinct [OF ch]]) (use new in blast)
  have chs: "chain w_next (welts s') (wcArray s' ! i) (bs[k := es] ! i)" if i: "i < length bs" for i
  proof (cases "i = k")
    case False
    have "chain w_next (welts s) (wcArray s ! i) (bs ! i)" using tab i by (simp add: wtab_def)
    then have "chain w_next (welts s') (wcArray s ! i) (bs ! i)"
      by (rule chain_cong [rotated]) (use other bucket_in_concat [OF i] bucket_apart [OF dis i k False] in auto)
    then show ?thesis using False arr i by simp
  qed (use ch i in simp)
  have "inj_on (\<lambda>e. w_word (elt s' e)) (set (concat bs) \<union> N)"
    unfolding inj_on_Un
  proof (intro conjI)
    show "inj_on (\<lambda>e. w_word (elt s' e)) (set (concat bs))" using inj old by (simp add: inj_on_def)
    show "inj_on (\<lambda>e. w_word (elt s' e)) N" using new(4) by (auto simp: inj_on_def)
    show "(\<lambda>e. w_word (elt s' e)) ` (set (concat bs) - N) \<inter> (\<lambda>e. w_word (elt s' e)) ` (N - set (concat bs)) = {}"
      using old new(3) d by fastforce
  qed
  moreover have "dom (welts s') \<subseteq> set (concat bs) \<union> N" using dm tab unfolding wtab_def by blast
  ultimately have "wtab s' (bs[k := es])" using tab len chs dis' old new(3) unfolding wtab_def set by (auto simp del: set_concat)
  moreover have "map (map (ev s')) (bs[k := es]) = (map (map (ev s)) bs)[k := map (ev s') es]"
  proof (rule nth_equalityI)
    fix i assume "i < length (map (map (ev s')) (bs[k := es]))"
    then have i: "i < length bs" by simp
    show "map (map (ev s')) (bs[k := es]) ! i = (map (map (ev s)) bs)[k := map (ev s') es] ! i"
    proof (cases "i = k")
      case False
      have "ev s' e = ev s e" if e: "e \<in> set (bs ! i)" for e
        using old [OF bucket_in_concat [OF i e]] other [OF bucket_in_concat [OF i e] bucket_apart [OF dis i k False e]]
        by (simp add: ev_def elt_def)
      then show ?thesis using False i by simp
    qed (use i in simp)
  qed simp
  ultimately show ?thesis using old by blast
qed


section \<open>Adding a word\<close>

lemma add_assoc_hit: "w \<notin> fst ` set xs \<Longrightarrow> add_assoc w (xs @ (w, c) # ys) = xs @ (w, to_s32 (c + 1)) # ys"
  by (induction xs) auto

lemma add_assoc_miss: "w \<notin> fst ` set xs \<Longrightarrow> add_assoc w xs = xs @ [(w, 1)]"
  by (induction xs) auto

lemma elt_okD: "elt_ok s e \<Longrightarrow> welts s e = Some (elt s e) \<and> wstrs s (w_word (elt s e)) = Some (estr s e)"
  by (auto simp: elt_ok_def elt_def estr_def)

definition first_hit :: "wc \<Rightarrow> byte list \<Rightarrow> nat list \<Rightarrow> nat \<Rightarrow> bool" where
  "first_hit s w es e \<longleftrightarrow> (\<exists>xs ys. es = xs @ e # ys \<and> estr s e = w \<and> w \<notin> estr s ` set xs)"

lemma first_hit_here: "estr s e = w \<Longrightarrow> first_hit s w (e # es) e"
  unfolding first_hit_def by (intro exI [of _ "[]"] exI [of _ es]) simp

lemma first_hit_later: "estr s q \<noteq> w \<Longrightarrow> first_hit s w es e \<Longrightarrow> first_hit s w (q # es) e"
  unfolding first_hit_def by (metis (no_types, lifting) append_Cons image_insert insertE list.simps(15))

lemma find_word_ok:
  assumes "chain w_next (welts s) (Some pre) (pre # qs)" "\<And>e. e \<in> set (pre # qs) \<Longrightarrow> elt_ok s e" "length qs < n" "cur = w_next (elt s pre)"
  shows "if str \<in> estr s ` set qs then \<exists>e. first_hit s str qs e \<and> find_word n s str cur pre = Ret (Inl e)
    else find_word n s str cur pre = Ret (Inr (last (pre # qs)))"
  using assms
proof (induction n arbitrary: pre qs cur)
  case (Suc n)
  have pre: "welts s pre = Some (elt s pre)" using elt_okD Suc.prems(2) by simp
  then have nx: "chain w_next (welts s) cur qs" using Suc.prems(1,4) by auto
  show ?case
  proof (cases qs)
    case Nil
    then show ?thesis using nx pre Suc.prems(4) by simp
  next
    case (Cons q rs)
    then have q: "cur = Some q" "welts s q = Some (elt s q)" "wstrs s (w_word (elt s q)) = Some (estr s q)"
      using nx elt_okD [of s q] Suc.prems(2) by auto
    show ?thesis
    proof (cases "estr s q = str")
      case True
      then have "find_word (Suc n) s str cur pre = Ret (Inl q)" using q pre Suc.prems(4) by simp
      then show ?thesis using True Cons first_hit_here [of s _ str] by (auto simp del: find_word.simps)
    next
      case False
      then have step: "find_word (Suc n) s str cur pre = find_word n s str (w_next (elt s q)) q" using q pre Suc.prems(4) by simp
      have IH: "if str \<in> estr s ` set rs then \<exists>e. first_hit s str rs e \<and> find_word n s str (w_next (elt s q)) q = Ret (Inl e)
          else find_word n s str (w_next (elt s q)) q = Ret (Inr (last (q # rs)))"
        by (rule Suc.IH) (use nx q Cons Suc.prems in auto)
      show ?thesis
      proof (cases "str \<in> estr s ` set rs")
        case True
        then obtain e where "first_hit s str rs e" "find_word n s str (w_next (elt s q)) q = Ret (Inl e)" using IH by auto
        then show ?thesis using True step Cons first_hit_later [OF False] by auto
      next
        case out: False
        then show ?thesis using IH step Cons False by auto
      qed
    qed
  qed
qed simp

definition new_elt :: "nat \<Rightarrow> nat \<Rightarrow> int \<Rightarrow> wc \<Rightarrow> wc" where
  "new_elt d k c s = s\<lparr>wbrk := Suc (wbrk s), welts := (welts s)(wbrk s \<mapsto> \<lparr>w_word = d, w_sizeofword = c, w_key = k, w_counts = 1, w_next = None\<rparr>)\<rparr>"

definition link_elt :: "nat list \<Rightarrow> nat \<Rightarrow> nat \<Rightarrow> wc \<Rightarrow> wc" where
  "link_elt es k p s =
    (if es = [] then s\<lparr>wcArray := (wcArray s)[k := Some p]\<rparr> else s\<lparr>welts := (welts s)(last es \<mapsto> (elt s (last es))\<lparr>w_next := Some p\<rparr>)\<rparr>)"

text \<open>\<^verbatim>\<open>wc_add\<close> counts the first element with the word, or appends a new one.\<close>

lemma wtab_length: "wtab s bs \<Longrightarrow> length (concat bs) \<le> wbrk s"
  by (rule bounded_length) (auto simp: wtab_def elt_ok_def)

lemma length_bucket: "k < length bs \<Longrightarrow> length (bs ! k) \<le> length (concat bs)"
  using concat_split [of k bs] by fastforce

lemma wc_add_cases:
  assumes "wtab s bs" "wc_index str (wc_size s) = Ret k" "k < length bs" "wmem s (wbrk s)"
  shows "if str \<in> estr s ` set (bs ! k) then \<exists>e. first_hit s str (bs ! k) e \<and> wc_add d str c s = count_up e s
    else wc_add d str c s = Ret (link_elt (bs ! k) k (wbrk s) (new_elt d k c s))"
proof -
  let ?h = "wcArray s ! k"
  have ch: "chain w_next (welts s) ?h (bs ! k)" and ok: "\<And>e. e \<in> set (bs ! k) \<Longrightarrow> elt_ok s e" and k: "k < length (wcArray s)"
    using assms(1,3) bucket_in_concat [of k bs] by (auto simp: wtab_def)
  have init: "initNode d k c s = Ret (wbrk s, new_elt d k c s)" using assms(4) by (simp add: initNode_def w_malloc_def new_elt_def)
  show ?thesis
  proof (cases "bs ! k")
    case Nil
    then have "?h = None" using ch by simp
    then show ?thesis using init k Nil assms(2) by (simp add: wc_add_def wc_bucket_def link_elt_def)
  next
    case (Cons h qs)
    then have h: "?h = Some h" "welts s h = Some (elt s h)" "wstrs s (w_word (elt s h)) = Some (estr s h)" "chain w_next (welts s) (Some h) (h # qs)"
      using ch ok [of h] elt_okD by auto
    show ?thesis
    proof (cases "estr s h = str")
      case True
      then have "wc_add d str c s = count_up h s" using h k assms(2) by (simp add: wc_add_def wc_bucket_def)
      then show ?thesis using True Cons first_hit_here [of s _ str] by (auto simp del: find_word.simps)
    next
      case False
      have n: "length qs < wc_fuel s" using wtab_length [OF assms(1)] length_bucket [OF assms(3)] Cons by (simp add: wc_fuel_def)
      note f = find_word_ok [OF h(4) _ n refl, of str]
      have run: "wc_add d str c s = bnd (find_word (wc_fuel s) s str (w_next (elt s h)) h) (\<lambda>r.
          case r of Inl c' \<Rightarrow> count_up c' s
          | Inr pre \<Rightarrow> bnd (initNode d k c s) (\<lambda>(p, s1). bnd (deref (welts s1 pre)) (\<lambda>pn. Ret (s1\<lparr>welts := (welts s1)(pre \<mapsto> pn\<lparr>w_next := Some p\<rparr>)\<rparr>))))"
        using h k assms(2) False by (simp add: wc_add_def wc_bucket_def)
      show ?thesis
      proof (cases "str \<in> estr s ` set qs")
        case True
        then obtain e where "first_hit s str qs e" "find_word (wc_fuel s) s str (w_next (elt s h)) h = Ret (Inl e)"
          using f ok Cons by auto
        then show ?thesis using True Cons run first_hit_later [OF False] by auto
      next
        case out: False
        have l: "last (h # qs) \<in> set (bs ! k)" using Cons by auto
        have "welts (new_elt d k c s) (last (h # qs)) = Some (elt (new_elt d k c s) (last (h # qs)))"
          using ok [OF l] by (auto simp: new_elt_def elt_ok_def elt_def)
        then have "wc_add d str c s = Ret (link_elt (bs ! k) k (wbrk s) (new_elt d k c s))"
          using run f out ok Cons init by (simp add: link_elt_def)
        then show ?thesis using out False Cons by auto
      qed
    qed
  qed
qed


definition tbl :: "wc \<Rightarrow> (byte list \<times> int) list list \<Rightarrow> bool" where
  "tbl s T \<longleftrightarrow> (\<exists>bs. wtab s bs \<and> T = map (map (ev s)) bs)"

lemma count_up_ok:
  assumes tab: "wtab s bs" and k: "k < length bs" and hit: "first_hit s w (bs ! k) e"
  shows "\<exists>s'. count_up e s = Ret s' \<and> tbl s' ((map (map (ev s)) bs)[k := add_assoc w (map (ev s) (bs ! k))]) \<and> wc_size s' = wc_size s \<and> wmem s' = wmem s"
proof -
  obtain xs ys where b: "bs ! k = xs @ e # ys" "estr s e = w" "w \<notin> estr s ` set xs" using hit by (auto simp: first_hit_def)
  have ch: "chain w_next (welts s) (wcArray s ! k) (bs ! k)" and ok: "\<And>e. e \<in> set (bs ! k) \<Longrightarrow> elt_ok s e"
    using tab k bucket_in_concat [OF k] by (auto simp: wtab_def)
  have e: "welts s e = Some (elt s e)" using elt_okD ok [of e] b(1) by simp
  let ?s = "s\<lparr>welts := (welts s)(e \<mapsto> (elt s e)\<lparr>w_counts := to_s32 (w_counts (elt s e) + 1)\<rparr>)\<rparr>"
  have ch': "chain w_next (welts ?s) (wcArray ?s ! k) (bs ! k)" by (simp, rule chain_cong [OF _ ch]) (use e in auto)
  have t: "wtab ?s (bs[k := bs ! k]) \<and> map (map (ev ?s)) (bs[k := bs ! k]) = (map (map (ev s)) bs)[k := map (ev ?s) (bs ! k)] \<and>
      (\<forall>x \<in> set (concat bs). estr ?s x = estr s x)"
  proof (rule wtab_change [OF tab k _ _ _ _ ch', where N = "{}" and d = "wbrk s" and q = 0])
    show "\<exists>n'. welts ?s x = Some n' \<and> w_word n' = w_word (elt s x)" if "x \<in> set (bs ! k)" for x using elt_okD [OF ok [OF that]] by simp
    show "welts ?s x = welts s x" if "x \<in> set (concat bs)" "x \<notin> set (bs ! k)" for x using that(2) b(1) by auto
    show "wbrk s \<notin> (\<lambda>e. w_word (elt s e)) ` set (concat bs)"
    proof
      assume "wbrk s \<in> (\<lambda>e. w_word (elt s e)) ` set (concat bs)"
      then obtain x where "x \<in> set (concat bs)" "wbrk s = w_word (elt s x)" by blast
      moreover have "\<forall>x \<in> set (concat bs). w_word (elt s x) < wbrk s" using tab by (simp add: wtab_def elt_ok_def)
      ultimately show False by (metis less_irrefl)
    qed
    show "dom (welts ?s) \<subseteq> dom (welts s) \<union> {}" using e by auto
  qed simp_all
  have d: "e \<notin> set xs" "e \<notin> set ys" using chain_distinct [OF ch] b(1) by auto
  have es: "estr ?s x = estr s x" if "x \<in> set (bs ! k)" for x using t bucket_in_concat [OF k that] by blast
  have v: "ev ?s e = (w, to_s32 (w_counts (elt s e) + 1))" "ev s e = (w, w_counts (elt s e))"
    using es [of e] b(1,2) by (simp_all add: ev_def elt_def)
  have o: "ev ?s x = ev s x" if "x \<in> set (bs ! k)" "x \<noteq> e" for x using es [OF that(1)] that(2) by (simp add: ev_def elt_def)
  have "map (ev ?s) xs = map (ev s) xs" "map (ev ?s) ys = map (ev s) ys" using o d b(1) by auto
  moreover have "w \<notin> fst ` set (map (ev s) xs)" using b(3) by (auto simp: ev_def)
  ultimately have "map (ev ?s) (bs ! k) = add_assoc w (map (ev s) (bs ! k))" using b(1) v add_assoc_hit by simp
  then have "tbl ?s ((map (map (ev s)) bs)[k := add_assoc w (map (ev s) (bs ! k))])" using t unfolding tbl_def by metis
  then show ?thesis using e by (simp add: count_up_def)
qed

lemma append_ok:
  assumes tab: "wtab s bs" and k: "k < length bs" and miss: "w \<notin> estr s ` set (bs ! k)"
    and d: "wstrs s d = Some w" "d < wbrk s" "d \<notin> (\<lambda>e. w_word (elt s e)) ` set (concat bs)"
  shows "tbl (link_elt (bs ! k) k (wbrk s) (new_elt d k c s)) ((map (map (ev s)) bs)[k := add_assoc w (map (ev s) (bs ! k))])"
proof -
  let ?p = "wbrk s" and ?s = "link_elt (bs ! k) k (wbrk s) (new_elt d k c s)" and ?n = "new_elt d k c s"
  have ch: "chain w_next (welts s) (wcArray s ! k) (bs ! k)" and ok: "\<And>e. e \<in> set (concat bs) \<Longrightarrow> elt_ok s e" and ka: "k < length (wcArray s)"
    using tab k by (auto simp: wtab_def)
  have lt: "\<And>e. e \<in> set (concat bs) \<Longrightarrow> e < ?p" using ok by (auto simp: elt_ok_def)
  note inb = bucket_in_concat [OF k]
  have ne: "welts ?n e = welts s e" if "e \<in> set (concat bs)" for e using lt [OF that] by (simp add: new_elt_def)
  have np: "welts ?n ?p = Some \<lparr>w_word = d, w_sizeofword = c, w_key = k, w_counts = 1, w_next = None\<rparr>" by (simp add: new_elt_def)
  have sp: "welts ?s ?p = welts ?n ?p"
  proof -
    have "bs ! k \<noteq> [] \<Longrightarrow> last (bs ! k) \<noteq> ?p" using lt [OF inb] by (metis last_in_set less_irrefl)
    then show ?thesis by (auto simp: link_elt_def)
  qed
  have chn: "chain w_next (welts ?n) (wcArray s ! k) (bs ! k)" by (rule chain_cong [OF _ ch]) (use ne inb in auto)
  have ch': "chain w_next (welts ?s) (wcArray ?s ! k) (bs ! k @ [?p])"
  proof (cases "bs ! k = []")
    case True
    then show ?thesis using np ka by (simp add: link_elt_def new_elt_def)
  next
    case False
    have "chain w_next ((welts ?n)(last (bs ! k) \<mapsto> (elt ?n (last (bs ! k)))\<lparr>w_next := Some ?p\<rparr>)) (wcArray s ! k) (bs ! k @ [?p])"
      by (rule chain_append [OF chn False]) (use lt inb np in force)+
    then show ?thesis using False by (simp add: link_elt_def new_elt_def)
  qed
  have same: "\<exists>n'. welts ?s e = Some n' \<and> w_word n' = w_word (elt s e) \<and> w_counts n' = w_counts (elt s e)" if e: "e \<in> set (bs ! k)" for e
  proof -
    have "elt ?n e = elt s e" using ne [OF inb [OF e]] by (simp add: elt_def)
    moreover have "welts ?n e = Some (elt s e)" using ne [OF inb [OF e]] elt_okD [OF ok [OF inb [OF e]]] by simp
    ultimately show ?thesis by (cases "bs ! k = []"; cases "e = last (bs ! k)") (simp_all add: link_elt_def)
  qed
  have t: "wtab ?s (bs[k := bs ! k @ [?p]]) \<and> map (map (ev ?s)) (bs[k := bs ! k @ [?p]]) = (map (map (ev s)) bs)[k := map (ev ?s) (bs ! k @ [?p])] \<and>
      (\<forall>x \<in> set (concat bs). estr ?s x = estr s x)"
  proof (rule wtab_change [OF tab k _ _ _ _ ch', where N = "{?p}" and d = d and q = ?p])
    show "length (wcArray ?s) = length (wcArray s)" "wstrs ?s = wstrs s" "wbrk s \<le> wbrk ?s" by (simp_all add: link_elt_def new_elt_def)
    show "wcArray ?s ! i = wcArray s ! i" if "i \<noteq> k" for i using that by (simp add: link_elt_def new_elt_def)
    show "welts ?s e = welts s e" if "e \<in> set (concat bs)" "e \<notin> set (bs ! k)" for e
      using that(2) ne [OF that(1)] last_in_set [of "bs ! k"] by (auto simp: link_elt_def)
    show "\<exists>n'. welts ?s e = Some n' \<and> w_word n' = w_word (elt s e)" if "e \<in> set (bs ! k)" for e using same [OF that] by blast
    show "{?p} \<inter> set (concat bs) = {}" using lt by auto
    show "elt_ok ?s e \<and> w_word (elt ?s e) = d" if "e \<in> {?p}" for e
      using that sp np d(1,2) by (auto simp: elt_ok_def elt_def link_elt_def new_elt_def)
    show "dom (welts ?s) \<subseteq> dom (welts s) \<union> {?p}"
    proof
      fix e assume "e \<in> dom (welts ?s)"
      moreover have "last (bs ! k) \<in> dom (welts s)" if "bs ! k \<noteq> []" using elt_okD [OF ok [OF inb [OF last_in_set [OF that]]]] by auto
      ultimately show "e \<in> dom (welts s) \<union> {?p}" by (auto simp: link_elt_def new_elt_def split: if_splits)
    qed
  qed (use d(3) in auto)
  have old: "ev ?s e = ev s e" if e: "e \<in> set (bs ! k)" for e
  proof -
    have "w_counts (elt ?s e) = w_counts (elt s e)" using same [OF e] by (auto simp: elt_def)
    moreover have "estr ?s e = estr s e" using t inb [OF e] by blast
    ultimately show ?thesis by (simp add: ev_def)
  qed
  have "ev ?s ?p = (w, 1)" using sp np d(1) by (simp add: ev_def estr_def elt_def) (simp add: link_elt_def new_elt_def)
  then have "map (ev ?s) (bs ! k @ [?p]) = map (ev s) (bs ! k) @ [(w, 1)]" using old by simp
  moreover have "w \<notin> fst ` set (map (ev s) (bs ! k))" using miss by (auto simp: ev_def)
  ultimately have "map (ev ?s) (bs ! k @ [?p]) = add_assoc w (map (ev s) (bs ! k))" by (simp add: add_assoc_miss)
  then show ?thesis using t unfolding tbl_def by metis
qed


section \<open>The loop over the text\<close>

definition widx :: "byte list \<Rightarrow> int \<Rightarrow> nat" where
  "widx w n = nat (uint (wc_hash w) mod n)"

definition add_word :: "int \<Rightarrow> (byte list \<times> int) list list \<Rightarrow> byte list \<Rightarrow> (byte list \<times> int) list list" where
  "add_word n T w = T[widx w n := add_assoc w (T ! widx w n)]"

definition winv :: "int \<Rightarrow> wc \<Rightarrow> (byte list \<times> int) list list \<Rightarrow> bool" where
  "winv n s T \<longleftrightarrow> tbl s T \<and> length T = nat n \<and> wc_size s = n \<and> 0 < n \<and> n < 9223372036854775808 \<and> wmem s = (\<lambda>_. True)"

lemma widx_less: "0 < n \<Longrightarrow> widx w n < nat n"
  by (simp add: widx_def)

lemma wc_index_ok: "0 < n \<Longrightarrow> n < 9223372036854775808 \<Longrightarrow> wc_index w n = Ret (widx w n)"
  by (simp add: wc_index_def widx_def)

lemma wtab_elt: "wtab s bs \<Longrightarrow> e \<in> set (concat bs) \<Longrightarrow> elt_ok s e"
  unfolding wtab_def by blast

text \<open>A new string does not change what the table holds.\<close>

lemma wtab_new_str:
  assumes "wtab s bs" "s' = s\<lparr>wbrk := Suc (wbrk s), wstrs := (wstrs s)(wbrk s \<mapsto> str)\<rparr>"
  shows "wtab s' bs \<and> map (map (ev s')) bs = map (map (ev s)) bs \<and> wbrk s \<notin> (\<lambda>e. w_word (elt s' e)) ` set (concat bs)"
proof -
  have lt: "w_word (elt s e) < wbrk s" if "e \<in> set (concat bs)" for e using wtab_elt [OF assms(1) that] by (simp add: elt_ok_def)
  have e: "elt s' = elt s" and a: "wcArray s' = wcArray s" "welts s' = welts s" by (simp_all add: assms(2) elt_def fun_eq_iff)
  have o: "elt_ok s' e \<and> ev s' e = ev s e" if "e \<in> set (concat bs)" for e
    using wtab_elt [OF assms(1) that] lt [OF that] e by (auto simp: elt_ok_def ev_def estr_def assms(2))
  have "wtab s' bs" using assms(1) conjunct1 [OF o] by (simp add: wtab_def e a)
  moreover have "map (map (ev s')) bs = map (map (ev s)) bs" using o by auto
  moreover have "wbrk s \<notin> (\<lambda>e. w_word (elt s' e)) ` set (concat bs)" unfolding e using lt by (metis (no_types, lifting) image_iff less_irrefl)
  ultimately show ?thesis by blast
qed

lemma wc_add_ok:
  assumes "winv n s T" "w \<noteq> []"
  shows "\<exists>s'. wc_add (wbrk s) w c (s\<lparr>wbrk := Suc (wbrk s), wstrs := (wstrs s)(wbrk s \<mapsto> w)\<rparr>) = Ret s' \<and> winv n s' (add_word n T w)"
proof -
  let ?s = "s\<lparr>wbrk := Suc (wbrk s), wstrs := (wstrs s)(wbrk s \<mapsto> w)\<rparr>" and ?k = "widx w n"
  obtain bs where bs: "wtab s bs" "T = map (map (ev s)) bs" using assms(1) by (auto simp: winv_def tbl_def)
  note n = wtab_new_str [OF bs(1) refl, of w]
  have k: "?k < length bs" and i: "wc_index w (wc_size ?s) = Ret ?k" and m: "wmem ?s = (\<lambda>_. True)"
    using assms(1) bs(2) widx_less [of n w] by (simp_all add: winv_def wc_index_ok)
  have T: "map (map (ev ?s)) bs = T" "map (ev ?s) (bs ! ?k) = T ! ?k" using n bs(2) k by (metis, metis nth_map)
  have fin: "winv n s' (add_word n T w)"
    if "tbl s' ((map (map (ev ?s)) bs)[?k := add_assoc w (map (ev ?s) (bs ! ?k))])" "wc_size s' = wc_size ?s" "wmem s' = wmem ?s" for s'
    using that assms(1) unfolding T by (simp add: winv_def add_word_def)
  show ?thesis
  proof (cases "w \<in> estr ?s ` set (bs ! ?k)")
    case True
    then obtain e where e: "first_hit ?s w (bs ! ?k) e" "wc_add (wbrk s) w c ?s = count_up e ?s"
      using wc_add_cases [of ?s bs w ?k "wbrk s" c] n i k m by auto
    then show ?thesis using count_up_ok [OF _ k e(1)] n fin by fastforce
  next
    case False
    let ?r = "link_elt (bs ! ?k) ?k (wbrk ?s) (new_elt (wbrk s) ?k c ?s)"
    have "wc_add (wbrk s) w c ?s = Ret ?r" using wc_add_cases [of ?s bs w ?k "wbrk s" c] n i k m False by simp
    moreover have "tbl ?r ((map (map (ev ?s)) bs)[?k := add_assoc w (map (ev ?s) (bs ! ?k))])"
      by (rule append_ok [OF _ k False]) (use n in simp_all)
    moreover have "wc_size ?r = wc_size ?s" "wmem ?r = wmem ?s" by (simp_all add: link_elt_def new_elt_def)
    ultimately show ?thesis using fin by blast
  qed
qed

lemma scan_wc_word_ok:
  "drop i m = w @ b # rest \<Longrightarrow> \<forall>x \<in> set w. \<not> is_space x \<Longrightarrow> is_space b \<Longrightarrow> 0 \<le> c \<Longrightarrow> c + int (length w) < 2147483648 \<Longrightarrow>
    scan_wc_word m i c = Ret (c + int (length w), i + length w)"
proof (induction w arbitrary: i c)
  case Nil
  then have "i < length m" "m ! i = b" by (metis append_Nil drop_eq_Nil2 list.distinct(1) not_le, metis append_Nil drop_eq_Nil2 hd_drop_conv_nth linorder_not_le list.distinct(1) list.sel(1))
  then show ?case using Nil by (subst scan_wc_word.simps) simp
next
  case (Cons a w)
  have i: "i < length m" using Cons.prems(1) by (metis append_Cons drop_eq_Nil2 list.distinct(1) not_le)
  have a: "m ! i = a" "drop (Suc i) m = w @ b # rest" using Cons.prems(1) Cons_nth_drop_Suc [OF i] by auto
  have "scan_wc_word m (Suc i) (c + 1) = Ret (c + 1 + int (length w), Suc i + length w)" by (rule Cons.IH) (use Cons.prems a in auto)
  then show ?case using i a Cons.prems by (subst scan_wc_word.simps) simp
qed

lemma scan_wc_word_runs_off: "\<forall>x \<in> set (drop i m). \<not> is_space x \<Longrightarrow> scan_wc_word m i c = Crash Undef"
proof (induction "length m - i" arbitrary: i c)
  case 0
  then show ?case by (subst scan_wc_word.simps) simp
next
  case (Suc k)
  then have i: "i < length m" by simp
  then have "\<not> is_space (m ! i)" "\<forall>x \<in> set (drop (Suc i) m). \<not> is_space x" using Suc.prems Cons_nth_drop_Suc [OF i] by (metis list.set_intros(1), metis list.set_intros(2))
  then show ?case using Suc i by (subst scan_wc_word.simps) simp
qed

lemma wc_round_ok:
  assumes "winv n s T" "drop i m = w @ b # rest" "\<forall>x \<in> set w. \<not> is_space x" "is_space b" "0 \<notin> set w" "length w < 2147483648"
  shows "\<exists>s'. wc_round m i s = Ret (i + length w, s') \<and> winv n s' (if w = [] then T else add_word n T w)"
proof -
  have sc: "scan_wc_word m i 0 = Ret (int (length w), i + length w)" using scan_wc_word_ok [OF assms(2-4), of 0] assms(6) by simp
  have cp: "copy_word m i (int (length w)) = w" using assms(2,5) by (auto simp: copy_word_def takeWhile_eq_all_conv)
  have m: "wmem s = (\<lambda>_. True)" using assms(1) by (simp add: winv_def)
  let ?s = "s\<lparr>wbrk := Suc (wbrk s), wstrs := (wstrs s)(wbrk s \<mapsto> w)\<rparr>"
  have run: "wc_round m i s = bnd (if w = [] then Ret ?s else wc_add (wbrk s) w (int (length w)) ?s) (\<lambda>s3. Ret (i + length w, s3))"
    using sc cp m by (cases "w = []") (simp_all add: wc_round_def w_malloc_def Let_def)
  show ?thesis
  proof (cases "w = []")
    case True
    obtain bs where bs: "wtab s bs" "T = map (map (ev s)) bs" using assms(1) by (auto simp: winv_def tbl_def)
    then have "tbl ?s T" using wtab_new_str [OF bs(1) refl, of w] unfolding tbl_def by metis
    then have "winv n ?s T" using assms(1) by (simp add: winv_def)
    then show ?thesis using run True by simp
  next
    case False
    then show ?thesis using run wc_add_ok [OF assms(1) False, of "int (length w)"] by auto
  qed
qed

function split_words :: "byte list \<Rightarrow> byte list list" where
  "split_words [] = []"
| "split_words (b # bs) =
    (if is_space b then split_words bs
     else (b # takeWhile (\<lambda>x. \<not> is_space x) bs) # split_words (dropWhile (\<lambda>x. \<not> is_space x) bs))"
  by pat_completeness auto
termination by (relation "measure length") (auto simp: le_imp_less_Suc length_dropWhile_le)

lemma split_words_step: "\<forall>x \<in> set w. \<not> is_space x \<Longrightarrow> is_space b \<Longrightarrow> split_words (w @ b # t) = (if w = [] then [] else [w]) @ split_words t"
  by (cases w) (auto simp: takeWhile_append dropWhile_append takeWhile_eq_all_conv)

lemma wc_loop_prefix:
  assumes "winv n s T" "drop i m = ts @ rest" "0 \<notin> set ts" "ts = [] \<or> is_space (last ts)" "length ts < 2147483648" "length ts < fuel"
  shows "\<exists>s' f. wc_loop fuel m i s = wc_loop (Suc f) m (i + length ts) s' \<and> winv n s' (foldl (add_word n) T (split_words ts))"
  using assms
proof (induction fuel arbitrary: s T i ts)
  case (Suc fuel)
  show ?case
  proof (cases "ts = []")
    case True
    then show ?thesis using Suc.prems(1) by (auto simp del: wc_loop.simps)
  next
    case False
    have "drop i m \<noteq> []" using Suc.prems(2) False by simp
    then have i: "i < length m" by simp
    have mi: "m ! i = List.hd ts" using Suc.prems(2) i False by (metis hd_drop_conv_nth hd_append2)
    define w where "w = takeWhile (\<lambda>x. \<not> is_space x) ts"
    have "dropWhile (\<lambda>x. \<not> is_space x) ts \<noteq> []" using False Suc.prems(4) last_in_set by auto
    then obtain b t where bt: "dropWhile (\<lambda>x. \<not> is_space x) ts = b # t" by (cases "dropWhile (\<lambda>x. \<not> is_space x) ts") auto
    have tx: "ts = w @ b # t" unfolding w_def bt [symmetric] by simp
    have wb: "\<forall>x \<in> set w. \<not> is_space x" "is_space b" using bt by (auto simp: w_def dest: set_takeWhileD dropWhile_eq_Cons_conv [THEN iffD1])
    have nz: "m ! i \<noteq> 0" using mi Suc.prems(3) False by (cases ts) auto
    let ?T = "if w = [] then T else add_word n T w"
    obtain s1 where s1: "wc_round m i s = Ret (i + length w, s1)" "winv n s1 ?T"
      using wc_round_ok [of n s T i m w b "t @ rest"] wb Suc.prems tx by auto
    have "drop (Suc (i + length w)) m = drop (Suc (length w)) (drop i m)" by (simp add: add.commute)
    also have "\<dots> = t @ rest" using Suc.prems(2) tx by simp
    finally obtain s' f where "wc_loop fuel m (Suc (i + length w)) s1 = wc_loop (Suc f) m (Suc (i + length w) + length t) s'"
        "winv n s' (foldl (add_word n) ?T (split_words t))"
      using Suc.IH [OF s1(2), of "Suc (i + length w)" t] Suc.prems tx by (auto split: if_splits simp del: wc_loop.simps)
    moreover have "wc_loop (Suc fuel) m i s = wc_loop fuel m (Suc (i + length w)) s1" using nz i s1(1) by (simp add: wc_byte_def)
    ultimately show ?thesis using split_words_step [OF wb, of t] tx by (intro exI [of _ s'] exI [of _ f]) (cases "w = []"; simp add: add.assoc del: wc_loop.simps)
  qed
qed simp

section \<open>Counts\<close>

definition counts_ok :: "int \<Rightarrow> (byte list \<times> int) list list \<Rightarrow> byte list list \<Rightarrow> bool" where
  "counts_ok n T ws \<longleftrightarrow>
    length T = nat n \<and> (\<forall>k < length T. distinct (map fst (T ! k)) \<and> (\<forall>(w, c) \<in> set (T ! k). widx w n = k \<and> w \<in> set ws \<and> c = int (count_list ws w))) \<and>
    (\<forall>w \<in> set ws. w \<in> fst ` set (T ! widx w n))"

lemma add_assoc_keys: "fst ` set (add_assoc w X) = insert w (fst ` set X)"
  by (induction w X rule: add_assoc.induct) auto

lemma add_assoc_distinct: "distinct (map fst X) \<Longrightarrow> distinct (map fst (add_assoc w X))"
proof (induction w X rule: add_assoc.induct)
  case (2 w v c xs)
  then show ?case using add_assoc_keys [of w xs] by auto
qed simp

lemma add_assoc_values:
  "distinct (map fst X) \<Longrightarrow> (v, c) \<in> set (add_assoc w X) \<Longrightarrow>
    if v = w then w \<notin> fst ` set X \<and> c = 1 \<or> (\<exists>b. (w, b) \<in> set X \<and> c = to_s32 (b + 1)) else (v, c) \<in> set X"
proof (induction w X rule: add_assoc.induct)
  case (2 w u d xs)
  then show ?case by (cases "u = w"; cases "v = w") (auto simp: rev_image_eqI)
qed (auto split: if_splits)

lemma count_snoc: "count_list (ws @ [w]) v = count_list ws v + (if v = w then 1 else 0)"
  by simp

lemma counts_add_word:
  assumes c: "counts_ok n T ws" and n: "0 < n" and len: "length ws < 2147483647"
  shows "counts_ok n (add_word n T w) (ws @ [w])"
proof -
  let ?k = "widx w n" and ?T = "add_word n T w"
  have k: "?k < length T" using c widx_less [OF n] by (simp add: counts_ok_def)
  have len': "length T = nat n" using c by (simp add: counts_ok_def)
  have T: "distinct (map fst (T ! i))" "\<And>v b. (v, b) \<in> set (T ! i) \<Longrightarrow> widx v n = i \<and> v \<in> set ws \<and> b = int (count_list ws v)" if "i < length T" for i
    using c that by (auto simp: counts_ok_def)
  have all: "\<And>v. v \<in> set ws \<Longrightarrow> v \<in> fst ` set (T ! widx v n)" using c by (simp add: counts_ok_def)
  have small: "int (count_list ws v) + 1 < 2147483648" for v using count_le_length [of ws v] len by linarith
  have new: "widx v n = ?k \<and> v \<in> set (ws @ [w]) \<and> b = int (count_list (ws @ [w]) v)" if e: "(v, b) \<in> set (add_assoc w (T ! ?k))" for v b
  proof (cases "v = w")
    case True
    consider "w \<notin> fst ` set (T ! ?k)" "b = 1" | d where "(w, d) \<in> set (T ! ?k)" "b = to_s32 (d + 1)"
      using add_assoc_values [OF T(1) [OF k] e] True by auto
    then show ?thesis
    proof cases
      case 1
      then have "w \<notin> set ws" using all by blast
      then show ?thesis using 1 True by simp
    next
      case 2
      then show ?thesis using T(2) [OF k 2(1)] True small [of w] by simp
    qed
  next
    case False
    then show ?thesis using add_assoc_values [OF T(1) [OF k] e] T(2) [OF k, of v b] by simp
  qed
  have other: "widx v n = i \<and> v \<in> set (ws @ [w]) \<and> b = int (count_list (ws @ [w]) v)" if "i < length T" "i \<noteq> ?k" "(v, b) \<in> set (T ! i)" for i v b
    using T(2) [OF that(1,3)] that(2) by auto
  have "distinct (map fst (?T ! i)) \<and> (\<forall>(v, b) \<in> set (?T ! i). widx v n = i \<and> v \<in> set (ws @ [w]) \<and> b = int (count_list (ws @ [w]) v))" if i: "i < length T" for i
  proof (cases "i = ?k")
    case True
    then have "?T ! i = add_assoc w (T ! ?k)" using k by (simp add: add_word_def)
    then show ?thesis using new add_assoc_distinct [OF T(1) [OF k], of w] True by (simp only:) blast
  next
    case False
    then have "?T ! i = T ! i" by (simp add: add_word_def)
    then show ?thesis using other [OF i False] T(1) [OF i] by (simp only:) blast
  qed
  moreover have "v \<in> fst ` set (?T ! widx v n)" if v: "v \<in> set (ws @ [w])" for v
  proof (cases "widx v n = ?k")
    case True
    then show ?thesis using v all [of v] k by (auto simp: add_word_def add_assoc_keys)
  next
    case False
    then show ?thesis using v all [of v] by (auto simp: add_word_def)
  qed
  ultimately show ?thesis using len' unfolding counts_ok_def by (simp add: add_word_def)
qed

lemma counts_foldl:
  "counts_ok n T ws \<Longrightarrow> 0 < n \<Longrightarrow> length ws + length us < 2147483648 \<Longrightarrow> counts_ok n (foldl (add_word n) T us) (ws @ us)"
proof (induction us arbitrary: T ws)
  case (Cons u us)
  then show ?case using Cons.IH [OF counts_add_word, of T ws u] by simp
qed simp

lemma counts_empty: "counts_ok n (replicate (nat n) []) []"
  by (simp add: counts_ok_def)

lemma counts_concat:
  assumes "counts_ok n T ws" "0 < n"
  shows "distinct (map fst (concat T))" "set (concat T) = (\<lambda>w. (w, int (count_list ws w))) ` set ws"
proof -
  have el: "widx v n = k \<and> v \<in> set ws \<and> b = int (count_list ws v)" if "k < length T" "(v, b) \<in> set (T ! k)" for k v b
    using assms(1) that by (auto simp: counts_ok_def)
  have "distinct (map fst (concat (take j T))) \<and> (\<forall>v \<in> fst ` set (concat (take j T)). widx v n < j)" if "j \<le> length T" for j
    using that
  proof (induction j)
    case (Suc j)
    then have j: "j < length T" by simp
    have "distinct (map fst (T ! j))" using assms(1) j by (simp add: counts_ok_def)
    moreover have "\<forall>v \<in> fst ` set (T ! j). widx v n = j" using el [OF j] by fastforce
    ultimately show ?case using Suc.IH j by (fastforce simp: take_Suc_conv_app_nth)
  qed simp
  from this [of "length T"] show "distinct (map fst (concat T))" by simp
  show "set (concat T) = (\<lambda>w. (w, int (count_list ws w))) ` set ws"
  proof (intro equalityI subsetI)
    fix x assume "x \<in> set (concat T)"
    then obtain X where "X \<in> set T" "x \<in> set X" by auto
    then obtain k where "k < length T" "x \<in> set (T ! k)" by (metis in_set_conv_nth)
    then show "x \<in> (\<lambda>w. (w, int (count_list ws w))) ` set ws" using el [of k "fst x" "snd x"] by (auto simp: image_iff prod_eq_iff)
  next
    fix x assume "x \<in> (\<lambda>w. (w, int (count_list ws w))) ` set ws"
    then obtain w where w: "w \<in> set ws" "x = (w, int (count_list ws w))" by blast
    have k: "widx w n < length T" using assms widx_less [of n w] by (simp add: counts_ok_def)
    obtain b where b: "(w, b) \<in> set (T ! widx w n)" using assms(1) w(1) by (fastforce simp: counts_ok_def)
    then have "x \<in> set (T ! widx w n)" using el [OF k b] w(2) by simp
    then show "x \<in> set (concat T)" using k by (rule bucket_in_concat [rotated])
  qed
qed

section \<open>Output\<close>

lemma output_bucket_ok:
  "chain w_next (welts s) p es \<Longrightarrow> \<forall>e \<in> set es. elt_ok s e \<Longrightarrow> length es < n \<Longrightarrow> output_bucket n s p = Ret (map (ev s) es)"
proof (induction n arbitrary: p es)
  case (Suc n)
  show ?case
  proof (cases es)
    case (Cons e fs)
    then have e: "p = Some e" "welts s e = Some (elt s e)" "wstrs s (w_word (elt s e)) = Some (estr s e)" "chain w_next (welts s) (w_next (elt s e)) fs"
      using Suc.prems elt_okD [of s e] by auto
    then have "output_bucket n s (w_next (elt s e)) = Ret (map (ev s) fs)" using Suc Cons by auto
    then show ?thesis using e Cons by (simp add: ev_def)
  qed (use Suc.prems in simp)
qed simp

lemma wc_output_ok:
  assumes "tbl s T"
  shows "wc_output s = Ret (concat T)"
proof -
  obtain bs where bs: "wtab s bs" "T = map (map (ev s)) bs" using assms by (auto simp: tbl_def)
  have ok: "\<forall>e \<in> set (concat bs). elt_ok s e" using wtab_elt [OF bs(1)] by blast
  have "output_from s ps = Ret (concat (map (map (ev s)) cs))"
    if "list_all2 (chain w_next (welts s)) ps cs" "\<forall>c \<in> set cs. c \<in> set bs" for ps cs
    using that
  proof (induction rule: list_all2_induct)
    case (Cons p ps c cs)
    have "length c < wc_fuel s" using wtab_length [OF bs(1)] length_bucket [of _ bs] Cons.prems by (fastforce simp: wc_fuel_def in_set_conv_nth)
    then have "output_bucket (wc_fuel s) s p = Ret (map (ev s) c)" using Cons ok by (intro output_bucket_ok) auto
    then show ?case using Cons by simp
  qed simp
  moreover have "list_all2 (chain w_next (welts s)) (wcArray s) bs" using bs(1) by (simp add: wtab_def list_all2_conv_all_nth)
  ultimately show ?thesis using bs(2) by (simp add: wc_output_def)
qed


section \<open>Freeing the table\<close>

lemma wc_delete_ok:
  assumes "chain w_next (welts s) (Some p) (p # qs)" "\<And>q. q \<in> set (p # qs) \<Longrightarrow> elt_ok s q" "inj_on (\<lambda>q. w_word (elt s q)) (set (p # qs))" "length qs < n"
  shows "wc_delete n (Some p) s =
    Ret (s\<lparr>wstrs := (wstrs s) |` (- (\<lambda>q. w_word (elt s q)) ` set (p # qs)), welts := (welts s) |` (- set qs)\<rparr>)"
  using assms
proof (induction n arbitrary: p qs)
  case (Suc n)
  have d: "distinct (p # qs)" by (rule chain_distinct [OF Suc.prems(1)])
  have pn: "welts s p = Some (elt s p)" "wstrs s (w_word (elt s p)) = Some (estr s p)" using elt_okD Suc.prems(2) by simp_all
  have ch: "chain w_next (welts s) (w_next (elt s p)) qs" using Suc.prems(1) pn(1) by auto
  show ?case
  proof (cases qs)
    case Nil
    then have "w_next (elt s p) = None" using ch by simp
    then show ?thesis using pn Nil
      by (auto simp: free_str_def free_elt_def restrict_map_def fun_eq_iff intro!: wc.equality)
  next
    case (Cons q rs)
    then have nx: "w_next (elt s p) = Some q" using ch by simp
    let ?s = "s\<lparr>wstrs := (wstrs s) |` (- (\<lambda>q. w_word (elt s q)) ` set (q # rs)), welts := (welts s) |` (- set rs)\<rparr>"
    have rec: "wc_delete n (Some q) s = Ret ?s"
      by (rule Suc.IH) (use Suc.prems ch Cons nx in \<open>auto simp: inj_on_def\<close>)
    have "w_word (elt s p) \<notin> (\<lambda>q. w_word (elt s q)) ` set (q # rs)"
      using Suc.prems(3) d Cons by (auto simp: inj_on_def)
    then have pt: "wstrs ?s (w_word (elt s p)) = Some (estr s p)" using pn(2) by auto
    have pp: "welts ?s p = Some (elt s p)" and pq: "\<exists>x. welts ?s q = Some x" using d Cons pn(1) elt_okD [OF Suc.prems(2), of q] by auto
    have "wc_delete (Suc n) (Some p) s = Ret (?s\<lparr>wstrs := (wstrs ?s)(w_word (elt s p) := None), welts := (welts ?s)(q := None)\<rparr>)"
      using pn(1) nx rec pp pq pt by (auto simp: free_str_def free_elt_def)
    also have "?s\<lparr>wstrs := (wstrs ?s)(w_word (elt s p) := None), welts := (welts ?s)(q := None)\<rparr> =
        s\<lparr>wstrs := (wstrs s) |` (- (\<lambda>q. w_word (elt s q)) ` set (p # qs)), welts := (welts s) |` (- set qs)\<rparr>"
      using Cons by (auto simp: restrict_map_def fun_eq_iff intro!: wc.equality)
    finally show ?thesis .
  qed
qed simp

lemma destroy_from_ok:
  assumes "list_all2 (chain w_next (welts s)) ps cs" "distinct (concat cs)" "\<And>e. e \<in> set (concat cs) \<Longrightarrow> elt_ok s e"
    "inj_on (\<lambda>e. w_word (elt s e)) (set (concat cs))" "\<And>c. c \<in> set cs \<Longrightarrow> length c < wc_fuel s"
  shows "destroy_from ps s =
    Ret (s\<lparr>wstrs := (wstrs s) |` (- (\<lambda>e. w_word (elt s e)) ` set (concat cs)), welts := (welts s) |` (- (\<Union>c \<in> set cs. set (tl c)))\<rparr>)"
  using assms
proof (induction cs arbitrary: ps s rule: list.induct)
  case Nil
  have "ps = []" using Nil.prems(1) by simp
  then show ?case by (simp add: restrict_map_def)
next
  case (Cons c cs)
  then obtain p qs where ps: "ps = p # qs" "chain w_next (welts s) p c" "list_all2 (chain w_next (welts s)) qs cs" by (auto simp: list_all2_Cons2)
  let ?s = "s\<lparr>wstrs := (wstrs s) |` (- (\<lambda>q. w_word (elt s q)) ` set c), welts := (welts s) |` (- set (tl c))\<rparr>"
  have del: "(case p of None \<Rightarrow> Ret s | Some h \<Rightarrow> wc_delete (wc_fuel s) p s) = Ret ?s"
  proof (cases c)
    case Nil
    then show ?thesis using ps(2) by (auto simp: restrict_map_def)
  next
    case (Cons h t)
    then have p: "p = Some h" using ps(2) by simp
    have "inj_on (\<lambda>q. w_word (elt s q)) (set (h # t))" by (rule inj_on_subset [OF Cons.prems(4)]) (use Cons in auto)
    moreover have "\<And>q. q \<in> set (h # t) \<Longrightarrow> elt_ok s q" using Cons.prems(3) Cons by auto
    moreover have "length t < wc_fuel s" using Cons.prems(5) [of c] Cons by simp
    ultimately have "wc_delete (wc_fuel s) (Some h) s = Ret (s\<lparr>wstrs := (wstrs s) |` (- (\<lambda>q. w_word (elt s q)) ` set (h # t)), welts := (welts s) |` (- set t)\<rparr>)"
      using wc_delete_ok [of s h t "wc_fuel s"] ps(2) p Cons by blast
    then show ?thesis using p Cons by simp
  qed
  have apart: "e \<notin> set c" "w_word (elt s e) \<notin> (\<lambda>q. w_word (elt s q)) ` set c" if e: "e \<in> set (concat cs)" for e
    using Cons.prems(2,4) e by (auto simp: inj_on_def)
  have same: "welts ?s e = welts s e" "elt ?s e = elt s e" "elt_ok ?s e" if e: "e \<in> set (concat cs)" for e
  proof -
    have "e \<notin> set (tl c)" using apart(1) [OF e] by (cases c) auto
    then show w: "welts ?s e = welts s e" by simp
    then show l: "elt ?s e = elt s e" by (simp add: elt_def)
    have "elt_ok s e" using Cons.prems(3) [of e] e by simp
    then show "elt_ok ?s e" using apart(2) [OF e] w l by (simp add: elt_ok_def)
  qed
  have "list_all2 (chain w_next (welts ?s)) qs cs"
    using ps(3)
  proof (rule list.rel_mono_strong)
    show "chain w_next (welts ?s) q d" if "d \<in> set cs" "chain w_next (welts s) q d" for q d
    proof (rule chain_cong [OF _ that(2)])
      show "map_option w_next (welts ?s e) = map_option w_next (welts s e)" if "e \<in> set d" for e
        using same(1) [of e] that \<open>d \<in> set cs\<close> by fastforce
    qed
  qed
  then have "destroy_from qs ?s = Ret (?s\<lparr>wstrs := (wstrs ?s) |` (- (\<lambda>e. w_word (elt ?s e)) ` set (concat cs)), welts := (welts ?s) |` (- (\<Union>c \<in> set cs. set (tl c)))\<rparr>)"
    by (rule Cons.IH) (use Cons.prems same in \<open>auto simp: inj_on_def wc_fuel_def\<close>)
  moreover have "(\<lambda>e. w_word (elt ?s e)) ` set (concat cs) = (\<lambda>e. w_word (elt s e)) ` set (concat cs)" using same(2) by (intro image_cong) auto
  ultimately have "destroy_from ps s = Ret (s\<lparr>wstrs := (wstrs s) |` ((- (\<lambda>e. w_word (elt s e)) ` set c) \<inter> (- (\<lambda>e. w_word (elt s e)) ` set (concat cs))),
      welts := (welts s) |` ((- set (tl c)) \<inter> (- (\<Union>c \<in> set cs. set (tl c))))\<rparr>)"
    using del ps(1) by (simp only: destroy_from.simps bnd.simps) (simp del: set_concat)
  then show ?case by (simp add: image_Un)
qed

text \<open>
  All strings of the table are freed and all elements but the first one of every bucket, which stays
  allocated.
\<close>

lemma wc_destroy_ok:
  assumes "wtab s bs"
  shows "wc_destroy s = Ret (s\<lparr>wcArray := [], wstrs := (wstrs s) |` (- (\<lambda>e. w_word (elt s e)) ` set (concat bs)),
    welts := (welts s) |` (- (\<Union>c \<in> set bs. set (tl c)))\<rparr>)"
proof -
  have "list_all2 (chain w_next (welts s)) (wcArray s) bs" using assms by (simp add: wtab_def list_all2_conv_all_nth)
  then have "destroy_from (wcArray s) s = Ret (s\<lparr>wstrs := (wstrs s) |` (- (\<lambda>e. w_word (elt s e)) ` set (concat bs)), welts := (welts s) |` (- (\<Union>c \<in> set bs. set (tl c)))\<rparr>)"
  proof (rule destroy_from_ok)
    show "length c < wc_fuel s" if "c \<in> set bs" for c
      using that wtab_length [OF assms] length_bucket [of _ bs] by (fastforce simp: wc_fuel_def in_set_conv_nth)
    show "distinct (concat bs)" "inj_on (\<lambda>e. w_word (elt s e)) (set (concat bs))" using assms by (simp_all add: wtab_def)
  qed (rule wtab_elt [OF assms])
  then show ?thesis by (simp add: wc_destroy_def)
qed


section \<open>Properties\<close>

lemma wc_init_start: "0 < n \<Longrightarrow> n < 9223372036854775808 \<Longrightarrow>
  winv n \<lparr>wcArray = replicate (nat n) None, wc_size = n, welts = Map.empty, wstrs = Map.empty, wbrk = 2, wmem = \<lambda>_. True\<rparr> (replicate (nat n) [])"
  by (auto simp: winv_def tbl_def wtab_def intro!: exI [of _ "replicate (nat n) []"])

lemma split_words_length: "length (split_words ts) \<le> length ts"
proof (induction ts rule: split_words.induct)
  case (2 b bs)
  then show ?case using length_dropWhile_le [of "\<lambda>x. \<not> is_space x" bs] by (cases "is_space b") auto
qed simp

text \<open>The run over a text that is followed by a null byte, and by anything after that.\<close>

lemma wc_init_run:
  assumes "0 \<notin> set ts" "ts = [] \<or> is_space (last ts)" "length ts < 2147483648" "0 < n" "n < 9223372036854775808"
  shows "\<exists>s' f. wc_init (\<lambda>_. True) (ts @ rest) n = wc_loop (Suc f) (ts @ rest) (length ts) s' \<and> winv n s' (foldl (add_word n) (replicate (nat n) []) (split_words ts))"
  using wc_loop_prefix [OF wc_init_start [OF assms(4,5)], of 0 "ts @ rest" ts rest "Suc (length (ts @ rest))"] assms
  by (simp add: wc_init_def del: wc_loop.simps)

lemma heads_stay:
  assumes "wtab s bs" "Some e \<in> set (wcArray s)"
  shows "\<exists>x. (welts s |` (- (\<Union>c \<in> set bs. set (tl c)))) e = Some x"
proof -
  obtain i where i: "i < length bs" "wcArray s ! i = Some e" using assms by (auto simp: wtab_def in_set_conv_nth)
  have ch: "chain w_next (welts s) (Some e) (bs ! i)" using assms(1) i by (metis wtab_def)
  then obtain t where t: "bs ! i = e # t" "\<exists>x. welts s e = Some x" by (cases "bs ! i") auto
  have d: "distinct (concat bs)" using assms(1) by (simp add: wtab_def)
  have "e \<notin> set (tl (bs ! j))" if j: "j < length bs" for j
  proof (cases "j = i")
    case True
    then show ?thesis using chain_distinct [OF ch] t(1) by simp
  next
    case False
    then have "e \<notin> set (bs ! j)" using bucket_apart [OF d i(1) j, of e] t(1) by simp
    then show ?thesis using list.set_sel(2) [of "bs ! j" e] by (cases "bs ! j") auto
  qed
  then have "e \<notin> (\<Union>c \<in> set bs. set (tl c))" by (auto simp: in_set_conv_nth [of _ bs])
  then show ?thesis using t(2) by simp
qed

text \<open>No other element is left: an element that is not the first of its bucket is in the tail of it.\<close>

lemma only_heads_stay:
  assumes tab: "wtab s bs"
  shows "dom (welts s |` (- (\<Union>c \<in> set bs. set (tl c)))) = {e. Some e \<in> set (wcArray s)}"
proof (intro equalityI subsetI)
  fix e assume "e \<in> dom (welts s |` (- (\<Union>c \<in> set bs. set (tl c))))"
  then have e: "e \<in> dom (welts s)" "e \<notin> (\<Union>c \<in> set bs. set (tl c))" by (auto simp: restrict_map_def split: if_splits)
  have "e \<in> set (concat bs)" using tab e(1) unfolding wtab_def by blast
  then obtain i where i: "i < length bs" "e \<in> set (bs ! i)" by (auto simp: in_set_conv_nth [of _ bs])
  then have "e \<notin> set (tl (bs ! i))" using e(2) by auto
  then obtain t where "bs ! i = e # t" using i(2) by (cases "bs ! i") auto
  moreover have "chain w_next (welts s) (wcArray s ! i) (bs ! i)" "i < length (wcArray s)" using tab i(1) by (simp_all add: wtab_def)
  ultimately show "e \<in> {e. Some e \<in> set (wcArray s)}" using nth_mem by fastforce
qed (use heads_stay [OF tab] in \<open>simp add: dom_def\<close>)

lemma table_strings:
  assumes tab: "wtab s bs" and x: "welts s e = Some x"
  shows "(wstrs s |` (- (\<lambda>e. w_word (elt s e)) ` set (concat bs))) (w_word x) = None"
proof -
  have "e \<in> set (concat bs)" using tab x unfolding wtab_def by blast
  then have "w_word x \<in> (\<lambda>e. w_word (elt s e)) ` set (concat bs)" using x by (force simp: elt_def)
  then show ?thesis by simp
qed

text \<open>
  C38: on a text without null bytes that is empty or ends in white space, and is followed by a null
  byte, the word counter prints every word of the text exactly once, with the number of its
  occurrences. Destroying the table then touches no freed memory, frees the strings of all elements and
  all elements, except the first one of every bucket that is not empty: exactly these stay allocated.
\<close>

theorem wc_counts_words:
  assumes "0 \<notin> set ts" "ts = [] \<or> is_space (last ts)" "length ts < 2147483648" "0 < n" "n < 9223372036854775808"
  shows "\<exists>s out s'. wc_init (\<lambda>_. True) (ts @ 0 # rest) n = Ret s \<and> wc_output s = Ret out \<and> wc_destroy s = Ret s' \<and>
    distinct (map fst out) \<and> set out = (\<lambda>w. (w, int (count_list (split_words ts) w))) ` set (split_words ts) \<and>
    dom (welts s') = {e. Some e \<in> set (wcArray s)} \<and> (\<forall>e x. welts s e = Some x \<longrightarrow> wstrs s' (w_word x) = None)"
proof -
  let ?T = "foldl (add_word n) (replicate (nat n) []) (split_words ts)"
  obtain s f where "wc_init (\<lambda>_. True) (ts @ 0 # rest) n = wc_loop (Suc f) (ts @ 0 # rest) (length ts) s" and s: "winv n s ?T"
    using wc_init_run [OF assms] by blast
  then have init: "wc_init (\<lambda>_. True) (ts @ 0 # rest) n = Ret s" by (simp add: wc_byte_def)
  have T: "tbl s ?T" using s by (simp add: winv_def)
  then obtain bs where bs: "wtab s bs" by (auto simp: tbl_def)
  have "counts_ok n ?T (split_words ts)" using counts_foldl [OF counts_empty assms(4), of "split_words ts"] split_words_length [of ts] assms(3) by simp
  from counts_concat [OF this assms(4)] show ?thesis
    using init wc_output_ok [OF T] wc_destroy_ok [OF bs] only_heads_stay [OF bs] table_strings [OF bs] by auto
qed

text \<open>Two words that share the bucket of a table of one bucket, one of them twice.\<close>

theorem wc_counts_words_witness:
  "\<exists>s out. wc_init (\<lambda>_. True) ([97, 32, 98, 10, 97, 10] @ 0 # []) 1 = Ret s \<and> wc_output s = Ret out \<and>
    set out = {([97], 2), ([98], 1)} \<and> length out = 2"
proof -
  have w: "split_words [97, 32, 98, 10, 97, 10] = [[97], [98], [97]]" by (simp add: is_space_def)
  have "\<exists>s out s'. wc_init (\<lambda>_. True) ([97, 32, 98, 10, 97, 10] @ 0 # []) 1 = Ret s \<and> wc_output s = Ret out \<and> wc_destroy s = Ret s' \<and>
      distinct (map fst out) \<and> set out = (\<lambda>w. (w, int (count_list [[97], [98], [97]] w))) ` set [[97], [98], [97]] \<and>
      dom (welts s') = {e. Some e \<in> set (wcArray s)} \<and> (\<forall>e x. welts s e = Some x \<longrightarrow> wstrs s' (w_word x) = None)"
    unfolding w [symmetric] by (rule wc_counts_words) (simp_all add: is_space_def)
  then obtain s out where o: "wc_init (\<lambda>_. True) ([97, 32, 98, 10, 97, 10] @ 0 # []) 1 = Ret s" "wc_output s = Ret out" "distinct (map fst out)"
    "set out = {([97], 2), ([98], 1)}" by auto
  have "length out = card (set out)" using o(3) by (metis distinct_card distinct_map)
  then show ?thesis using o by auto
qed

text \<open>
  On a text that does not end in white space the scan of the last word runs past the null byte
  behind the text; when nothing but the null byte can be read there, the access is undefined.
\<close>

lemma wc_reads_past_end:
  assumes "0 \<notin> set (ts @ w)" "ts = [] \<or> is_space (last ts)" "length ts < 2147483648" "0 < n" "n < 9223372036854775808"
    "w \<noteq> []" "\<forall>x \<in> set w. \<not> is_space x"
  shows "wc_init (\<lambda>_. True) ((ts @ w) @ [0]) n = Crash Undef"
proof -
  have z: "0 \<notin> set ts" using assms(1) by simp
  obtain s f where "wc_init (\<lambda>_. True) (ts @ w @ [0]) n = wc_loop (Suc f) (ts @ w @ [0]) (length ts) s"
    using wc_init_run [OF z assms(2-5), of "w @ [0]"] by blast
  moreover have "scan_wc_word (ts @ w @ [0]) (length ts) 0 = Crash Undef" by (rule scan_wc_word_runs_off) (use assms(7) in \<open>auto simp: is_space_def\<close>)
  moreover have "List.hd w \<noteq> 0" using assms(1,6) by (cases w) auto
  ultimately show ?thesis using assms(6) by (cases w) (auto simp: wc_byte_def wc_round_def nth_append)
qed

end
