(* ===== verification/Spec2Isabelle.thy ===== *)
theory Spec2Isabelle
  imports FS_Session FS_Variant FS_List FS_ListHead Thr_Sync Web_Ring Web_Fileset Warm_Points Warm_Fact Warm_WC
begin

text \<open>
  A model of the programs of the repository, four systems written in C, and the theorems that make
  them correct.

  \<^bold>\<open>The programs.\<close> \<^verbatim>\<open>fs/\<close> is a file system in one device file: a block device, two bitmaps of
  free inodes and blocks, a super block, a table of reference counted inodes, files of direct,
  indirect and double indirect blocks, directories, and a command interpreter. \<^verbatim>\<open>threads/\<close> is a
  user-level thread library: a preemptive round-robin scheduler, wait queues, locks and condition
  variables. \<^verbatim>\<open>warmup/\<close> holds a list of points, a word counter and a factorial. \<^verbatim>\<open>webserver/\<close> is an HTTP server: a main thread that accepts connections, a bounded
  ring of them, worker threads, buffered input and output, and a file cache with least recently
  used eviction.

  \<^bold>\<open>Conventions.\<close> A C function is a HOL function on the state it reads and writes. Its outcome is
  a value of the type \<^typ>\<open>'a res\<close>: it returns, or the process ends in \<^verbatim>\<open>exit(1)\<close>, in a failed
  \<^verbatim>\<open>assert\<close>, in a loop that does not end, or in undefined behaviour (an access outside an object,
  a null or dangling pointer, a division by zero). C integers are integers, with the conversions
  of the source written out. Memory is a function from offsets to bytes; linked structures live on
  heaps from addresses to records, where a freed object is gone. What the operating system decides
  (whether \<^verbatim>\<open>malloc\<close> succeeds, how \<^verbatim>\<open>read\<close> and \<^verbatim>\<open>write\<close> split a transfer, the contents of
  uninitialised memory, the files of the host) is a parameter or a field of the state, arbitrary
  in the theorems. Three fields say what the environment does where the C standard or the host
  leaves it open: \<^verbatim>\<open>dio\<close>, that the host carries out the reads and writes of the device file (the
  program ends with an error otherwise); \<^verbatim>\<open>int_wraps\<close>, that the compiler lets signed arithmetic in
  \<^verbatim>\<open>hash\<close> wrap around (undefined otherwise); \<^verbatim>\<open>sprintf_appends\<close>, that \<^verbatim>\<open>sprintf\<close> with its
  destination as first argument appends (undefined otherwise). The first is part of the invariant
  of the device, the second of the invariant of the cache, the third a hypothesis. The inode table
  of a closed file system is no table, which stands for the dangling pointer the code leaves: every
  use of either is undefined.

  \<^bold>\<open>Theories.\<close>
  \<^item> \<^verbatim>\<open>OS_Prelude\<close>: outcomes, C integers, buffers, little-endian fields, decimal numbers.
    \<^verbatim>\<open>OS_Dll\<close>: doubly linked lists on a heap, shared by the threads and the cache. \<^verbatim>\<open>OS_Chain\<close>:
    singly linked lists on a heap, shared by the cache, the list of points and the word counter.
  \<^item> \<^verbatim>\<open>Warm_Points\<close> (\<^verbatim>\<open>point.c\<close>, \<^verbatim>\<open>sorted_points.c\<close>): points over any ordered type of
    coordinates, the list of them, and the same operations on a plain list.
    \<^verbatim>\<open>Warm_Fact\<close> (\<^verbatim>\<open>fact.c\<close>): the factorial and what its main function prints.
    \<^verbatim>\<open>Warm_WC\<close> (\<^verbatim>\<open>wc.c\<close>): the hash table of words and the lists of counted words it holds.
  \<^item> \<^verbatim>\<open>FS_Bitmap\<close> (\<^verbatim>\<open>bitmap.c\<close>): every operation on the set of used indexes; the allocator
    interface as a locale. \<^verbatim>\<open>FS_State\<close> (\<^verbatim>\<open>block.c\<close> and the structures of \<^verbatim>\<open>inode.h\<close> and
    \<^verbatim>\<open>super.h\<close>): the device, the encoding of inodes and super block, the state of the process.
    \<^verbatim>\<open>FS_Super\<close> (\<^verbatim>\<open>super.c\<close>): formatting, opening, closing, allocating and freeing blocks; the
    invariant that bitmaps, counters and their copies on disk agree. \<^verbatim>\<open>FS_Inode\<close> (\<^verbatim>\<open>inode.c\<close>): the
    inode table, its reference counts, reading, writing and creating inodes. \<^verbatim>\<open>FS_List\<close>,
    \<^verbatim>\<open>FS_ListHead\<close> (\<^verbatim>\<open>list.h\<close>): the hash lists the inode table is made of, and the circular lists, as
    pointers, and that they implement tables of lists.
  \<^item> \<^verbatim>\<open>FS_ReadWrite\<close> (\<^verbatim>\<open>read_write.c\<close>): the definitions; \<^verbatim>\<open>FS_FileMap\<close>, \<^verbatim>\<open>FS_Alloc\<close>, \<^verbatim>\<open>FS_Write\<close>
    and \<^verbatim>\<open>FS_Free\<close>: the block map of a file, allocation of a logical block on all levels,
    reading and writing data, and freeing a file. \<^verbatim>\<open>FS_Variant\<close>: the version of this code in the
    top directory, which no build uses, and that it agrees with the built one.
  \<^item> \<^verbatim>\<open>FS_Dir\<close> (\<^verbatim>\<open>dir.c\<close>), \<^verbatim>\<open>FS_DirSpec\<close>: a directory file as a list of entries, with a name space
    interface as a locale; \<^verbatim>\<open>FS_Create\<close>: creating and removing by name, listing;
    \<^verbatim>\<open>FS_Shell\<close> (\<^verbatim>\<open>file.c\<close>, \<^verbatim>\<open>common.c\<close>, \<^verbatim>\<open>testfs.c\<close>, \<^verbatim>\<open>mktestfs.c\<close>): commands and interpreter;
    \<^verbatim>\<open>FS_Session\<close>: commands in sequence on one named file.
  \<^item> \<^verbatim>\<open>Thr_State\<close>, \<^verbatim>\<open>Thr_Queue\<close>, \<^verbatim>\<open>Thr_Ops\<close>, \<^verbatim>\<open>Thr_Sched\<close>, \<^verbatim>\<open>Thr_Sync\<close> (\<^verbatim>\<open>thread.c\<close>,
    \<^verbatim>\<open>interrupt.c\<close>): thread control blocks and nodes; the ready list and the wait queues as
    queues (locale and interpretations); every operation; scheduling; sleeping, waking and locks.
    A saved context is the list of the library's frames that were active at the switch, and
    \<^verbatim>\<open>unwind\<close> runs them when the thread is resumed.
  \<^item> \<^verbatim>\<open>Web_Ring\<close> (\<^verbatim>\<open>server_thread.c\<close>): the ring of connections as a bounded queue (locale and
    interpretation) and the threads around it as a transition system. \<^verbatim>\<open>Web_IO\<close> (\<^verbatim>\<open>common.c\<close>):
    robust input and output. \<^verbatim>\<open>Web_Request\<close> (\<^verbatim>\<open>request.c\<close>): requests and responses. \<^verbatim>\<open>Web_Cache\<close>,
    \<^verbatim>\<open>Web_CacheInv\<close>, \<^verbatim>\<open>Web_CacheSys\<close> (\<^verbatim>\<open>server_thread.c\<close>): the cache, its invariant, and
    threads sharing it. \<^verbatim>\<open>Web_Client\<close> (\<^verbatim>\<open>client.c\<close>): the client, and client, server and cache together;
    \<^verbatim>\<open>Web_Fileset\<close> (\<^verbatim>\<open>fileset.c\<close>): the generator of file sets and its index.

  \<^bold>\<open>What is shown.\<close> File system: the invariants of the bitmaps, the super block and the inode table
  are established by formatting and kept by every operation; a write stores exactly its bytes and
  nothing else, is read back, and touches no other file; allocation and freeing of the blocks of
  a file are exact on all levels of indirection and on every error path; closing and opening
  restores the state; directories implement a name space; the commands to create, write, read and
  remove a file work together through all layers; listing a directory without recursion ends whatever the
  device holds; sequences of list operations on pointers behave like those on plain lists. Threads: the lists are queues, yielding is first-in first-out and starves nobody,
  sleepers are woken in order, a lock is taken only when it is available, also by a waiter that
  was woken, and the error returns. Web server: the ring loses
  and duplicates nothing and no wake-up is lost in any interleaving; transfers are exact; only
  allowed files are read; a request is parsed and answered with the right header and bytes; the
  cache is safe under any interleaving, within its limit, and invisible to the clients; a client
  receives the file it asks for and its checks succeed, as long as the lines fit its buffer; the index of a generated file set is
  read back. Warm-up:
  programs of list operations behave like the operations on a plain list, and when the list stays
  sorted; the word counter prints each word once with the number of its occurrences.

  \<^bold>\<open>Fuel and bounds.\<close> Loops that count are recursive functions with a measure. Walks along linked
  lists carry fuel: 1025 in the thread library, whose lists hold each of the 1024 threads at most
  once; one more than the number of allocations in the cache, the list of points and the word
  counter, whose nodes are all different allocations; more than the number of entries in the loops of \<^verbatim>\<open>list.h\<close>. The lemmas show that the fuel is enough for every well-formed state. The loops that
  can really run forever are the one of \<^verbatim>\<open>lock_acquire\<close> when nobody else can run, the recursion
  of \<^verbatim>\<open>thread_yield\<close> and \<^verbatim>\<open>thread_exit\<close> on killed threads, the one of
  \<^verbatim>\<open>request_read_headers\<close> on a connection closed early, the recursive listing of a directory that
  contains itself, and the loop of \<^verbatim>\<open>rand_pareto\<close> that draws until a number is positive. The outcome
  of the first three is divergence for every fuel; the listing takes its fuel as an argument and the
  last is a partial function without a value then.

  \<^bold>\<open>Not modelled.\<close> The test programs and demonstrations; the main programs of the web server and of its
  clients, which parse options and call the socket interface; the random distributions of \<^verbatim>\<open>webserver/common.c\<close> but
  \<^verbatim>\<open>rand_pareto\<close>, whose arithmetic on doubles is taken as exact and whose \<^verbatim>\<open>pow\<close> is a parameter;
  timers and signal delivery (the handler itself is modelled); \<^verbatim>\<open>os-167/\<close> and \<^verbatim>\<open>marker/\<close>, which
  are copies of \<^verbatim>\<open>fs/\<close>, and \<^verbatim>\<open>webserver/os-167/\<close>, an earlier state of \<^verbatim>\<open>webserver/\<close>.
\<close>

end
